(* ===== verification/Prelude.thy ===== *)
theory Prelude
  imports Main "HOL-Library.Word" "HOL-Library.Monad_Syntax"
begin

unbundle bit_operations_syntax

text \<open>
  Shared vocabulary of the development.

  A kernel routine that can stop the machine (a failed \<open>KASSERT\<close>, which spins for
  ever in \<open>include/geekos/kassert.h\<close>, or an access outside the object it is
  entitled to) is a function into \<open>'a option\<close>: \<open>None\<close> is the stopped machine.
  Error codes that the code returns to its caller stay integers, as in
  \<open>include/geekos/errno.h\<close>.  The C types of a 32-bit x86 are the word types below.
\<close>

type_synonym u8 = "8 word"
type_synonym u16 = "16 word"
type_synonym u32 = "32 word"
type_synonym 'a kres = "'a option"

named_theorems kassert_simps \<open>unfolding of assertions and checked accesses\<close>
named_theorems kstate_defs \<open>small definitions that proofs about the kernel state unfold\<close>

section \<open>Assertions and checked array accesses\<close>

definition KASSERT :: "bool \<Rightarrow> unit kres" where
  "KASSERT c = (if c then Some () else None)"

lemma KASSERT_bind [simp, kassert_simps]:
  "Option.bind (KASSERT c) f = (if c then f () else None)"
  by (simp add: KASSERT_def)

lemma KASSERT_eq_Some [simp, kassert_simps]: "KASSERT c = Some u \<longleftrightarrow> c"
  by (simp add: KASSERT_def)

lemma KASSERT_eq_None [simp, kassert_simps]: "KASSERT c = None \<longleftrightarrow> \<not> c"
  by (simp add: KASSERT_def)

text \<open>Reading and writing an array cell; outside the array the access is refused.\<close>

definition aget :: "'a list \<Rightarrow> nat \<Rightarrow> 'a kres" where
  "aget xs i = (if i < length xs then Some (xs ! i) else None)"

definition aset :: "'a list \<Rightarrow> nat \<Rightarrow> 'a \<Rightarrow> 'a list kres" where
  "aset xs i v = (if i < length xs then Some (xs[i := v]) else None)"

lemma aget_in [simp, kassert_simps]: "i < length xs \<Longrightarrow> aget xs i = Some (xs ! i)"
  by (simp add: aget_def)

lemma aget_eq_Some [kassert_simps]: "aget xs i = Some v \<longleftrightarrow> i < length xs \<and> v = xs ! i"
  by (auto simp: aget_def)

lemma aget_eq_None [kassert_simps]: "aget xs i = None \<longleftrightarrow> length xs \<le> i"
  by (auto simp: aget_def)

lemma aset_in [simp, kassert_simps]: "i < length xs \<Longrightarrow> aset xs i v = Some (xs[i := v])"
  by (simp add: aset_def)

lemma aset_eq_Some [kassert_simps]:
  "aset xs i v = Some ys \<longleftrightarrow> i < length xs \<and> ys = xs[i := v]"
  by (auto simp: aset_def)

lemma aset_eq_None [kassert_simps]: "aset xs i v = None \<longleftrightarrow> length xs \<le> i"
  by (auto simp: aset_def)

lemma bind_Some_iff [kassert_simps]:
  "Option.bind m f = Some y \<longleftrightarrow> (\<exists>x. m = Some x \<and> f x = Some y)"
  by (cases m) auto

section \<open>Error codes\<close>

abbreviation (input) "EUNSPECIFIED \<equiv> - 1 :: int"
abbreviation (input) "ENOTFOUND \<equiv> - 2 :: int"
abbreviation (input) "EUNSUPPORTED \<equiv> - 3 :: int"
abbreviation (input) "ENODEV \<equiv> - 4 :: int"
abbreviation (input) "EIO \<equiv> - 5 :: int"
abbreviation (input) "EBUSY \<equiv> - 6 :: int"
abbreviation (input) "ENOMEM \<equiv> - 7 :: int"
abbreviation (input) "ENOFILESYS \<equiv> - 8 :: int"
abbreviation (input) "ENAMETOOLONG \<equiv> - 9 :: int"
abbreviation (input) "EINVALIDFS \<equiv> - 10 :: int"
abbreviation (input) "EACCESS \<equiv> - 11 :: int"
abbreviation (input) "EINVALID \<equiv> - 12 :: int"
abbreviation (input) "EMFILE \<equiv> - 13 :: int"
abbreviation (input) "ENOTDIR \<equiv> - 14 :: int"
abbreviation (input) "EEXIST \<equiv> - 15 :: int"
abbreviation (input) "ENOSPACE \<equiv> - 16 :: int"

section \<open>Generic lemmas\<close>

lemma distinct_remove1_set [simp]: "distinct xs \<Longrightarrow> set (remove1 x xs) = set xs - {x}"
  by (rule set_remove1_eq)

lemma nth_update_other [simp]: "i \<noteq> j \<Longrightarrow> xs[i := v] ! j = xs ! j"
  by simp

lemma split_list_distinct:
  assumes "x \<in> set xs" and "distinct xs"
  obtains as bs where "xs = as @ x # bs" "x \<notin> set as" "x \<notin> set bs" "remove1 x xs = as @ bs"
proof -
  from assms(1) obtain as bs where xs: "xs = as @ x # bs" and "x \<notin> set as"
    by (meson split_list_first)
  with assms(2) have "x \<notin> set bs" and "remove1 x xs = as @ bs"
    by (auto simp: remove1_append)
  with xs \<open>x \<notin> set as\<close> show ?thesis by (rule that)
qed

text \<open>A counter below its bound does not wrap when it is incremented.\<close>

lemma unat_inc:
  fixes i n :: "'a::len word"
  assumes "i < n"
  shows "unat (i + 1) = Suc (unat i)"
proof -
  have "unat i < unat n" and "unat n < 2 ^ LENGTH('a)"
    using assms by (simp_all add: word_less_nat_alt)
  then have "Suc (unat i) < 2 ^ LENGTH('a)" by linarith
  then show ?thesis by (simp add: unat_word_ariths)
qed

lemma unat_inc_measure:
  "(i :: 'a::len word) < n \<Longrightarrow> unat n - unat (i + 1) < unat n - unat i"
  by (simp add: unat_inc word_less_nat_alt)

lemma sint_small: "unat (i :: u32) < 2 ^ 31 \<Longrightarrow> sint i = int (unat i)"
proof -
  assume "unat i < 2 ^ 31"
  then have "int (unat i) < int (2 ^ 31)" by (simp only: of_nat_less_iff)
  then have "uint i < 2 ^ 31" by simp
  moreover have "- (2 ^ 31) \<le> uint i"
    by (rule order_trans [OF _ uint_ge_0]) simp
  ultimately have "signed_take_bit 31 (uint i) = uint i"
    by (rule signed_take_bit_int_eq_self [rotated])
  then show ?thesis by (simp add: sint_uint)
qed

lemma unat_lt_32: "unat (x :: u32) < 2 ^ 32"
  using unsigned_less [of x, where 'a = nat] by simp

end
