(* ===== verification/Machine.thy ===== *)
theory Machine
  imports Prelude
begin

text \<open>
  The processor state the kernel's C code manipulates directly: the interrupt flag
  (\<open>include/geekos/int.h\<close>, \<open>geekos/int.c\<close>), bit fields of 32- and 64-bit structures as the
  compiler lays them out, and the operations on a list whose pointers are abstracted to
  the sequence of its nodes (justified in \<open>DList\<close>).

  Component states extend the record \<open>machine\<close>, so that the interrupt discipline is one
  set of definitions and lemmas for all of them.
\<close>

section \<open>The interrupt flag\<close>

record machine =
  int_flag :: bool

definition Interrupts_Enabled :: "'a machine_scheme \<Rightarrow> bool" where
  "Interrupts_Enabled s = int_flag s"

definition Disable_Interrupts :: "'a machine_scheme \<Rightarrow> 'a machine_scheme kres" where
  "Disable_Interrupts s = do { KASSERT (Interrupts_Enabled s); Some (s\<lparr>int_flag := False\<rparr>) }"

definition Enable_Interrupts :: "'a machine_scheme \<Rightarrow> 'a machine_scheme kres" where
  "Enable_Interrupts s = do { KASSERT (\<not> Interrupts_Enabled s); Some (s\<lparr>int_flag := True\<rparr>) }"

definition Begin_Int_Atomic :: "'a machine_scheme \<Rightarrow> (bool \<times> 'a machine_scheme) kres" where
  "Begin_Int_Atomic s = do {
     let enabled = Interrupts_Enabled s;
     s \<leftarrow> (if enabled then Disable_Interrupts s else Some s);
     Some (enabled, s) }"

definition End_Int_Atomic :: "bool \<Rightarrow> 'a machine_scheme \<Rightarrow> 'a machine_scheme kres" where
  "End_Int_Atomic iflag s = do {
     KASSERT (\<not> Interrupts_Enabled s);
     if iflag then Enable_Interrupts s else Some s }"

lemma Begin_Int_Atomic_eq [simp]:
  "Begin_Int_Atomic s = Some (int_flag s, s\<lparr>int_flag := False\<rparr>)"
  by (cases "int_flag s") (simp_all add: Begin_Int_Atomic_def Interrupts_Enabled_def Disable_Interrupts_def)

lemma End_Int_Atomic_eq [simp]:
  "End_Int_Atomic f s = (if int_flag s then None else Some (s\<lparr>int_flag := f\<rparr>))"
  by (cases "int_flag s"; cases f)
     (simp_all add: End_Int_Atomic_def Interrupts_Enabled_def Enable_Interrupts_def)

lemma Enable_Interrupts_eq [simp]:
  "Enable_Interrupts s = (if int_flag s then None else Some (s\<lparr>int_flag := True\<rparr>))"
  by (simp add: Enable_Interrupts_def Interrupts_Enabled_def)

lemma Disable_Interrupts_eq [simp]:
  "Disable_Interrupts s = (if int_flag s then Some (s\<lparr>int_flag := False\<rparr>) else None)"
  by (simp add: Disable_Interrupts_def Interrupts_Enabled_def)

lemma Interrupts_Enabled_eq [simp]: "Interrupts_Enabled s = int_flag s"
  by (simp add: Interrupts_Enabled_def)

section \<open>Bit fields\<close>

text \<open>A field of \<open>n\<close> bits whose lowest bit is bit \<open>lo\<close> of the structure.\<close>

definition bf_get :: "nat \<Rightarrow> nat \<Rightarrow> 'a::len word \<Rightarrow> 'a word" where
  "bf_get lo n w = take_bit n (drop_bit lo w)"

definition bf_set :: "nat \<Rightarrow> nat \<Rightarrow> 'a::len word \<Rightarrow> 'a word \<Rightarrow> 'a word" where
  "bf_set lo n v w = (w AND NOT (push_bit lo (mask n))) OR push_bit lo (take_bit n v)"

lemma bit_bf_get:
  "bit (bf_get lo n (w :: 'a::len word)) i \<longleftrightarrow> i < n \<and> bit w (lo + i)"
  by (auto simp: bf_get_def bit_take_bit_iff bit_drop_bit_eq)

lemma bit_bf_set:
  "bit (bf_set lo n v (w :: 'a::len word)) i \<longleftrightarrow>
     i < LENGTH('a) \<and> (if lo \<le> i \<and> i < lo + n then bit v (i - lo) else bit w i)"
  by (auto simp: bf_set_def bit_or_iff bit_and_iff bit_not_iff bit_push_bit_iff bit_take_bit_iff
      bit_mask_iff bit_simps dest: bit_imp_le_length)

lemma bf_get_set_same:
  assumes "lo + n \<le> LENGTH('a)"
  shows "bf_get lo n (bf_set lo n v (w :: 'a::len word)) = take_bit n v"
  using assms by (intro bit_word_eqI) (auto simp: bit_bf_get bit_bf_set bit_take_bit_iff)

lemma bf_get_set_other:
  assumes "lo + n \<le> lo' \<or> lo' + n' \<le> lo"
  shows "bf_get lo' n' (bf_set lo n v (w :: 'a::len word)) = bf_get lo' n' w"
  using assms
  by (intro bit_word_eqI) (auto simp: bit_bf_get bit_bf_set dest: bit_imp_le_length)

lemma bf_get_0 [simp]: "bf_get lo n (0 :: 'a::len word) = 0"
  by (simp add: bf_get_def)

lemma take_bit_id:
  assumes "unat (v :: 'a::len word) < 2 ^ n"
  shows "take_bit n v = v"
proof -
  have "unat (take_bit n v) = unat v"
    using assms by (simp add: unsigned_take_bit_eq take_bit_nat_eq_self)
  then show ?thesis by (simp add: word_unat_eq_iff)
qed

section \<open>Lists with the pointers abstracted away\<close>

text \<open>The operations of \<open>include/geekos/list.h\<close> on the sequence of the nodes.\<close>

definition Push_Back :: "'a list \<Rightarrow> 'a \<Rightarrow> 'a list kres" where
  "Push_Back xs x = do { KASSERT (x \<notin> set xs); Some (xs @ [x]) }"

definition Push_Front :: "'a list \<Rightarrow> 'a \<Rightarrow> 'a list kres" where
  "Push_Front xs x = do { KASSERT (x \<notin> set xs); Some (x # xs) }"

definition Pop_Front :: "'a list \<Rightarrow> ('a \<times> 'a list) kres" where
  "Pop_Front xs = (case xs of [] \<Rightarrow> None | x # xs \<Rightarrow> Some (x, xs))"

definition Unlink :: "'a list \<Rightarrow> 'a \<Rightarrow> 'a list kres" where
  "Unlink xs x = do { KASSERT (x \<in> set xs); Some (remove1 x xs) }"

lemma Push_Back_eq [kassert_simps]: "Push_Back xs x = Some ys \<longleftrightarrow> x \<notin> set xs \<and> ys = xs @ [x]"
  by (auto simp: Push_Back_def)

lemma Push_Back_ok [simp]: "x \<notin> set xs \<Longrightarrow> Push_Back xs x = Some (xs @ [x])"
  by (simp add: Push_Back_def)

lemma Push_Front_eq [kassert_simps]: "Push_Front xs x = Some ys \<longleftrightarrow> x \<notin> set xs \<and> ys = x # xs"
  by (auto simp: Push_Front_def)

lemma Push_Front_ok [simp]: "x \<notin> set xs \<Longrightarrow> Push_Front xs x = Some (x # xs)"
  by (simp add: Push_Front_def)

lemma Pop_Front_eq [kassert_simps]: "Pop_Front xs = Some (x, ys) \<longleftrightarrow> xs = x # ys"
  by (cases xs) (auto simp: Pop_Front_def)

lemma Pop_Front_Cons [simp]: "Pop_Front (x # xs) = Some (x, xs)"
  by (simp add: Pop_Front_def)

lemma Pop_Front_Nil [simp]: "Pop_Front [] = None"
  by (simp add: Pop_Front_def)

lemma Unlink_eq [kassert_simps]: "Unlink xs x = Some ys \<longleftrightarrow> x \<in> set xs \<and> ys = remove1 x xs"
  by (auto simp: Unlink_def)

lemma Unlink_ok [simp]: "x \<in> set xs \<Longrightarrow> Unlink xs x = Some (remove1 x xs)"
  by (simp add: Unlink_def)

end
