(* ===== verification/DList.thy ===== *)
theory DList
  imports Machine
begin

text \<open>
  The intrusive doubly linked lists of \<open>include/geekos/list.h\<close>.  Every list type of the
  kernel (thread queues, page lists, buffer lists, mount points, block requests) is an
  instance of the macro \<open>IMPLEMENT_LIST\<close>.  The model keeps the pointers: a node is an
  address (0 is the null pointer), \<open>links\<close> holds the \<open>prev\<close> and \<open>next\<close> members of all
  nodes for one list type, \<open>lhead\<close> is the \<open>head\<close>/\<open>tail\<close> pair of one list.
\<close>

type_synonym ptr = nat

record links =
  nxt :: "ptr \<Rightarrow> ptr"
  prv :: "ptr \<Rightarrow> ptr"

record lhead =
  head :: ptr
  tail :: ptr

type_synonym dlist = "links \<times> lhead"

section \<open>The operations of the macro\<close>

definition Clear :: "lhead \<Rightarrow> lhead" where
  "Clear h = h\<lparr>head := 0, tail := 0\<rparr>"

text \<open>The membership walk; on a cyclic chain it would not return.\<close>

partial_function (option) walk_member :: "links \<Rightarrow> ptr \<Rightarrow> ptr \<Rightarrow> bool option" where
  "walk_member l cur node =
     (if cur = 0 then Some False
      else if cur = node then Some True
      else walk_member l (nxt l cur) node)"

declare walk_member.simps [code]

definition Is_Member_Of :: "links \<Rightarrow> lhead \<Rightarrow> ptr \<Rightarrow> bool kres" where
  "Is_Member_Of l h node = walk_member l (head h) node"

definition Get_Front_Of :: "lhead \<Rightarrow> ptr" where
  "Get_Front_Of h = head h"

definition Get_Back_Of :: "lhead \<Rightarrow> ptr" where
  "Get_Back_Of h = tail h"

definition Add_To_Front_Of :: "links \<Rightarrow> lhead \<Rightarrow> ptr \<Rightarrow> dlist kres" where
  "Add_To_Front_Of l h n = do {
     m \<leftarrow> Is_Member_Of l h n;
     KASSERT (\<not> m);
     let l = l\<lparr>prv := (prv l)(n := 0)\<rparr>;
     Some (if head h = 0
       then (l\<lparr>nxt := (nxt l)(n := 0)\<rparr>, h\<lparr>head := n, tail := n\<rparr>)
       else (l\<lparr>prv := (prv l)(head h := n), nxt := (nxt l)(n := head h)\<rparr>, h\<lparr>head := n\<rparr>))
   }"

definition Add_To_Back_Of :: "links \<Rightarrow> lhead \<Rightarrow> ptr \<Rightarrow> dlist kres" where
  "Add_To_Back_Of l h n = do {
     m \<leftarrow> Is_Member_Of l h n;
     KASSERT (\<not> m);
     let l = l\<lparr>nxt := (nxt l)(n := 0)\<rparr>;
     Some (if tail h = 0
       then (l\<lparr>prv := (prv l)(n := 0)\<rparr>, h\<lparr>head := n, tail := n\<rparr>)
       else (l\<lparr>nxt := (nxt l)(tail h := n), prv := (prv l)(n := tail h)\<rparr>, h\<lparr>tail := n\<rparr>))
   }"

definition Append_List :: "links \<Rightarrow> lhead \<Rightarrow> lhead \<Rightarrow> (links \<times> lhead \<times> lhead) kres" where
  "Append_List l a b =
     (if head b \<noteq> 0 then
        if head a = 0 then Some (l, a\<lparr>head := head b, tail := tail b\<rparr>, Clear b)
        else do {
          KASSERT (head b \<noteq> 0);
          KASSERT (tail a \<noteq> 0);
          let l = l\<lparr>prv := (prv l)(head b := tail a), nxt := (nxt l)(tail a := head b)\<rparr>;
          Some (l, a\<lparr>tail := tail b\<rparr>, Clear b) }
      else Some (l, a, Clear b))"

definition Remove_From_Front_Of :: "links \<Rightarrow> lhead \<Rightarrow> (ptr \<times> dlist) kres" where
  "Remove_From_Front_Of l h = do {
     let n = head h;
     KASSERT (n \<noteq> 0);
     let h = h\<lparr>head := nxt l n\<rparr>;
     Some (n, if head h = 0 then (l, h\<lparr>tail := 0\<rparr>)
              else (l\<lparr>prv := (prv l)(head h := 0)\<rparr>, h))
   }"

definition Remove_From :: "links \<Rightarrow> lhead \<Rightarrow> ptr \<Rightarrow> dlist kres" where
  "Remove_From l h n = do {
     m \<leftarrow> Is_Member_Of l h n;
     KASSERT m;
     let (l, h) = (if prv l n \<noteq> 0 then (l\<lparr>nxt := (nxt l)(prv l n := nxt l n)\<rparr>, h)
                   else (l, h\<lparr>head := nxt l n\<rparr>));
     Some (if nxt l n \<noteq> 0 then (l\<lparr>prv := (prv l)(nxt l n := prv l n)\<rparr>, h)
           else (l, h\<lparr>tail := prv l n\<rparr>))
   }"

definition Is_List_Empty :: "lhead \<Rightarrow> bool" where
  "Is_List_Empty h \<longleftrightarrow> head h = 0"

section \<open>What a well-formed list is\<close>

text \<open>\<open>dseg nx pv p xs q\<close>: the nodes \<open>xs\<close> are chained in both directions by the link
  functions, \<open>p\<close> before the first and \<open>q\<close> after the last.\<close>

definition first_or :: "ptr list \<Rightarrow> ptr \<Rightarrow> ptr" where
  "first_or xs q = (case xs of [] \<Rightarrow> q | x # _ \<Rightarrow> x)"

definition last_or :: "ptr list \<Rightarrow> ptr \<Rightarrow> ptr" where
  "last_or xs p = (if xs = [] then p else last xs)"

fun dseg :: "(ptr \<Rightarrow> ptr) \<Rightarrow> (ptr \<Rightarrow> ptr) \<Rightarrow> ptr \<Rightarrow> ptr list \<Rightarrow> ptr \<Rightarrow> bool" where
  "dseg nx pv p [] q = True"
| "dseg nx pv p (x # xs) q = (pv x = p \<and> nx x = first_or xs q \<and> dseg nx pv x xs q)"

definition list_rep :: "links \<Rightarrow> lhead \<Rightarrow> ptr list \<Rightarrow> bool" where
  "list_rep l h xs \<longleftrightarrow> distinct xs \<and> 0 \<notin> set xs \<and> dseg (nxt l) (prv l) 0 xs 0
     \<and> head h = first_or xs 0 \<and> tail h = last_or xs 0"

lemma first_or_simps [simp]: "first_or [] q = q" "first_or (x # xs) q = x"
  "first_or (xs @ ys) q = first_or xs (first_or ys q)"
  by (auto simp: first_or_def split: list.split)

lemma last_or_simps [simp]: "last_or [] p = p" "last_or (x # xs) p = last_or xs x"
  "last_or (xs @ ys) p = last_or ys (last_or xs p)"
  by (auto simp: last_or_def)

lemma first_or_eq: "0 \<notin> set xs \<Longrightarrow> p \<noteq> 0 \<Longrightarrow> first_or xs p \<noteq> 0"
  by (cases xs) auto

lemma dseg_append [simp]:
  "dseg nx pv p (xs @ ys) q \<longleftrightarrow>
     dseg nx pv p xs (first_or ys q) \<and> dseg nx pv (last_or xs p) ys q"
  by (induction xs arbitrary: p) auto

text \<open>Writing a link of a node outside the segment leaves the segment alone.\<close>

lemma dseg_frame [simp]:
  "n \<notin> set xs \<Longrightarrow> dseg (nx(n := v)) pv p xs q = dseg nx pv p xs q"
  "n \<notin> set xs \<Longrightarrow> dseg nx (pv(n := v)) p xs q = dseg nx pv p xs q"
  by (induction xs arbitrary: p) auto

lemma list_repD:
  assumes "list_rep l h xs"
  shows "distinct xs" "0 \<notin> set xs" "dseg (nxt l) (prv l) 0 xs 0"
    "head h = first_or xs 0" "tail h = last_or xs 0"
  using assms by (auto simp: list_rep_def)

section \<open>Each operation refines the list operation\<close>

lemma walk_member_seg:
  assumes "dseg (nxt l) (prv l) p xs 0" "0 \<notin> set xs"
  shows "walk_member l (first_or xs 0) n = Some (n \<in> set xs)"
  using assms
proof (induction xs arbitrary: p)
  case Nil
  then show ?case by (simp add: walk_member.simps)
next
  case (Cons x xs)
  then show ?case
    by (subst walk_member.simps) auto
qed

lemma Is_Member_Of_rep:
  "list_rep l h xs \<Longrightarrow> Is_Member_Of l h n = Some (n \<in> set xs)"
  using walk_member_seg [OF list_repD(3) list_repD(2)]
  by (simp add: Is_Member_Of_def list_repD(4))

lemma Clear_rep [simp]: "list_rep l (Clear h) []"
  by (simp add: Clear_def list_rep_def)

lemma Is_List_Empty_rep: "list_rep l h xs \<Longrightarrow> Is_List_Empty h \<longleftrightarrow> xs = []"
  by (cases xs) (auto simp: Is_List_Empty_def list_rep_def)

lemma Add_To_Front_Of_rep:
  assumes "list_rep l h xs" "n \<noteq> 0" "n \<notin> set xs"
  shows "\<exists>l' h'. Add_To_Front_Of l h n = Some (l', h') \<and> list_rep l' h' (n # xs)"
  using assms Is_Member_Of_rep [OF assms(1), of n]
  by (cases xs) (auto simp: Add_To_Front_Of_def list_rep_def Let_def)

lemma Add_To_Back_Of_rep:
  assumes "list_rep l h xs" "n \<noteq> 0" "n \<notin> set xs"
  shows "\<exists>l' h'. Add_To_Back_Of l h n = Some (l', h') \<and> list_rep l' h' (xs @ [n])"
  using assms Is_Member_Of_rep [OF assms(1), of n]
  by (cases xs rule: rev_cases) (auto simp: Add_To_Back_Of_def list_rep_def Let_def)

text \<open>Adding a node that is already there, or removing one that is not, stops the kernel.\<close>

lemma Add_To_Back_Of_dup: "list_rep l h xs \<Longrightarrow> n \<in> set xs \<Longrightarrow> Add_To_Back_Of l h n = None"
  by (simp add: Add_To_Back_Of_def Is_Member_Of_rep)

lemma Add_To_Front_Of_dup: "list_rep l h xs \<Longrightarrow> n \<in> set xs \<Longrightarrow> Add_To_Front_Of l h n = None"
  by (simp add: Add_To_Front_Of_def Is_Member_Of_rep)

lemma Remove_From_absent: "list_rep l h xs \<Longrightarrow> n \<notin> set xs \<Longrightarrow> Remove_From l h n = None"
  by (simp add: Remove_From_def Is_Member_Of_rep)

lemma Remove_From_Front_Of_rep:
  assumes "list_rep l h (x # xs)"
  shows "\<exists>l' h'. Remove_From_Front_Of l h = Some (x, l', h') \<and> list_rep l' h' xs"
  using assms
  by (cases xs) (auto simp: Remove_From_Front_Of_def list_rep_def Let_def)

lemma Remove_From_Front_Of_empty: "list_rep l h [] \<Longrightarrow> Remove_From_Front_Of l h = None"
  by (simp add: Remove_From_Front_Of_def list_rep_def Let_def)

lemma Remove_From_rep:
  assumes rep: "list_rep l h xs" and n: "n \<in> set xs"
  shows "\<exists>l' h'. Remove_From l h n = Some (l', h') \<and> list_rep l' h' (remove1 n xs)"
proof -
  obtain as bs where xs: "xs = as @ n # bs" and out: "n \<notin> set as" "n \<notin> set bs"
    and rm: "remove1 n xs = as @ bs"
    using split_list_distinct [OF n list_repD(1) [OF rep]] .
  have links: "prv l n = last_or as 0" "nxt l n = first_or bs 0"
    using list_repD(3) [OF rep] by (simp_all add: xs)
  show ?thesis
    unfolding rm using rep out links Is_Member_Of_rep [OF rep, of n] n
    by (cases as rule: rev_cases; cases bs)
       (auto simp: Remove_From_def xs list_rep_def Let_def)
qed

lemma Append_List_rep:
  assumes a: "list_rep l a xs" and b: "list_rep l b ys" and d: "set xs \<inter> set ys = {}"
  shows "\<exists>l' a' b'. Append_List l a b = Some (l', a', b')
    \<and> list_rep l' a' (xs @ ys) \<and> list_rep l' b' []"
  using a b d
  by (cases xs rule: rev_cases; cases ys)
     (auto simp: Append_List_def list_rep_def Clear_def Let_def first_or_eq)

text \<open>Another list over the same link members is untouched, when it shares no node.\<close>

lemma list_rep_frame:
  assumes "list_rep l h xs" "\<And>x. x \<in> set xs \<Longrightarrow> nxt l' x = nxt l x \<and> prv l' x = prv l x"
  shows "list_rep l' h xs"
proof -
  have "dseg (nxt l) (prv l) p zs q \<Longrightarrow>
      (\<And>x. x \<in> set zs \<Longrightarrow> nxt l' x = nxt l x \<and> prv l' x = prv l x)
      \<Longrightarrow> dseg (nxt l') (prv l') p zs q" for p zs q
    by (induction zs arbitrary: p) auto
  with assms show ?thesis by (auto simp: list_rep_def)
qed

section \<open>The queue contract\<close>

text \<open>
  What the clients of a kernel list rely on when they use it as a queue (run queues,
  wait queues, block request queues, the page freelist): nodes come out in the order in
  which they went in.
\<close>

fun add_all :: "('s \<Rightarrow> 'a \<Rightarrow> 's option) \<Rightarrow> 's \<Rightarrow> 'a list \<Rightarrow> 's option" where
  "add_all add s [] = Some s"
| "add_all add s (x # xs) = do { s \<leftarrow> add s x; add_all add s xs }"

fun pop_n :: "('s \<Rightarrow> ('a \<times> 's) option) \<Rightarrow> nat \<Rightarrow> 's \<Rightarrow> ('a list \<times> 's) option" where
  "pop_n pop 0 s = Some ([], s)"
| "pop_n pop (Suc n) s = do { (x, s) \<leftarrow> pop s; (xs, s) \<leftarrow> pop_n pop n s; Some (x # xs, s) }"

locale fifo_queue =
  fixes rep :: "'s \<Rightarrow> 'a list \<Rightarrow> bool"
    and valid :: "'a \<Rightarrow> bool"
    and add :: "'s \<Rightarrow> 'a \<Rightarrow> 's option"
    and pop :: "'s \<Rightarrow> ('a \<times> 's) option"
  assumes rep_add: "rep s xs \<Longrightarrow> valid x \<Longrightarrow> x \<notin> set xs \<Longrightarrow>
      \<exists>s'. add s x = Some s' \<and> rep s' (xs @ [x])"
    and rep_pop: "rep s (x # xs) \<Longrightarrow> \<exists>s'. pop s = Some (x, s') \<and> rep s' xs"
    and rep_empty: "rep s [] \<Longrightarrow> pop s = None"
begin

lemma add_all_rep:
  assumes "rep s xs" "distinct (xs @ ns)" "\<forall>n\<in>set ns. valid n"
  shows "\<exists>s'. add_all add s ns = Some s' \<and> rep s' (xs @ ns)"
  using assms
proof (induction ns arbitrary: s xs)
  case (Cons n ns)
  then obtain s' where "add s n = Some s'" "rep s' (xs @ [n])"
    using rep_add [of s xs n] by auto
  with Cons.IH [of s' "xs @ [n]"] Cons.prems show ?case by auto
qed simp

lemma pop_n_rep:
  assumes "rep s (xs @ ys)"
  shows "\<exists>s'. pop_n pop (length xs) s = Some (xs, s') \<and> rep s' ys"
  using assms
proof (induction xs arbitrary: s)
  case (Cons x xs)
  then obtain s' where "pop s = Some (x, s')" "rep s' (xs @ ys)"
    using rep_pop [of s x "xs @ ys"] by auto
  with Cons.IH [of s'] show ?case by auto
qed simp

lemma fifo_order:
  assumes "rep s []" "distinct ns" "\<forall>n\<in>set ns. valid n"
  shows "\<exists>s' s''. add_all add s ns = Some s' \<and> pop_n pop (length ns) s' = Some (ns, s'')
    \<and> rep s'' [] \<and> pop s'' = None"
proof -
  obtain s' where s': "add_all add s ns = Some s'" "rep s' ns"
    using add_all_rep [of s "[]" ns] assms by auto
  then obtain s'' where "pop_n pop (length ns) s' = Some (ns, s'')" "rep s'' []"
    using pop_n_rep [of s' ns "[]"] by auto
  with s' rep_empty show ?thesis by blast
qed

end

definition dl_rep :: "dlist \<Rightarrow> ptr list \<Rightarrow> bool" where
  "dl_rep s xs = list_rep (fst s) (snd s) xs"

definition dl_add :: "dlist \<Rightarrow> ptr \<Rightarrow> dlist kres" where
  "dl_add s n = Add_To_Back_Of (fst s) (snd s) n"

definition dl_pop :: "dlist \<Rightarrow> (ptr \<times> dlist) kres" where
  "dl_pop s = Remove_From_Front_Of (fst s) (snd s)"

interpretation dl: fifo_queue dl_rep "\<lambda>n. n \<noteq> 0" dl_add dl_pop
proof unfold_locales
  show "\<exists>s'. dl_add s x = Some s' \<and> dl_rep s' (xs @ [x])"
    if "dl_rep s xs" "x \<noteq> 0" "x \<notin> set xs" for s xs x
    using Add_To_Back_Of_rep [of "fst s" "snd s" xs x] that
    by (auto simp: dl_rep_def dl_add_def)
  show "\<exists>s'. dl_pop s = Some (x, s') \<and> dl_rep s' xs" if "dl_rep s (x # xs)" for s x xs
    using Remove_From_Front_Of_rep [of "fst s" "snd s" x xs] that
    by (auto simp: dl_rep_def dl_pop_def)
  show "dl_pop s = None" if "dl_rep s []" for s
    using Remove_From_Front_Of_empty that by (simp add: dl_rep_def dl_pop_def)
qed

section \<open>Properties\<close>

text \<open>Nodes added at the back of an empty kernel list, each once, are taken from its
  front in the same order, none lost, and the list is empty again; taking from it once more
  fails the assertion.\<close>

theorem list_is_fifo:
  assumes "list_rep l h []" "distinct ns" "0 \<notin> set ns"
  shows "\<exists>s' s''. add_all (\<lambda>s n. Add_To_Back_Of (fst s) (snd s) n) (l, h) ns = Some s' \<and>
    pop_n (\<lambda>s. Remove_From_Front_Of (fst s) (snd s)) (length ns) s' = Some (ns, s'') \<and>
    list_rep (fst s'') (snd s'') [] \<and> Remove_From_Front_Of (fst s'') (snd s'') = None"
proof -
  have "\<forall>n\<in>set ns. n \<noteq> 0" using assms(3) by metis
  then show ?thesis
    using dl.fifo_order [of "(l, h)" ns] assms(1,2)
    by (simp add: dl_rep_def dl_add_def [abs_def] dl_pop_def [abs_def])
qed

lemma list_is_fifo_witness:
  "\<exists>s' s''. add_all (\<lambda>s n. Add_To_Back_Of (fst s) (snd s) n)
      (\<lparr>nxt = (\<lambda>_. 0), prv = (\<lambda>_. 0)\<rparr>, \<lparr>head = 0, tail = 0\<rparr>) [3, 1, 2] = Some s' \<and>
    pop_n (\<lambda>s. Remove_From_Front_Of (fst s) (snd s)) (length [3, 1, 2 :: ptr]) s' = Some ([3, 1, 2], s'') \<and>
    list_rep (fst s'') (snd s'') [] \<and> Remove_From_Front_Of (fst s'') (snd s'') = None"
  by (rule list_is_fifo) (simp_all add: list_rep_def)

text \<open>A pointer-level result represents the result on the sequence of nodes; both stop
  together.\<close>

definition dl_sim :: "dlist kres \<Rightarrow> ptr list kres \<Rightarrow> bool" where
  "dl_sim r a = (case a of None \<Rightarrow> r = None
     | Some ys \<Rightarrow> \<exists>l h. r = Some (l, h) \<and> list_rep l h ys)"

text \<open>C32: The pointer-level list operations refine the operations on the sequence of nodes,
  failed assertions included: adding at either end, removing any node, and taking the
  first node.\<close>

theorem list_ops_refine:
  assumes "list_rep l h xs" "n \<noteq> 0"
  shows "dl_sim (Add_To_Back_Of l h n) (Push_Back xs n) \<and>
    dl_sim (Add_To_Front_Of l h n) (Push_Front xs n) \<and>
    dl_sim (Remove_From l h n) (Unlink xs n) \<and>
    dl_sim (map_option snd (Remove_From_Front_Of l h)) (map_option snd (Pop_Front xs)) \<and>
    map_option fst (Remove_From_Front_Of l h) = map_option fst (Pop_Front xs)"
proof (intro conjI)
  show "dl_sim (Add_To_Back_Of l h n) (Push_Back xs n)"
    using Add_To_Back_Of_rep [OF assms] Add_To_Back_Of_dup [OF assms(1)]
    by (cases "n \<in> set xs") (auto simp: dl_sim_def Push_Back_def)
  show "dl_sim (Add_To_Front_Of l h n) (Push_Front xs n)"
    using Add_To_Front_Of_rep [OF assms] Add_To_Front_Of_dup [OF assms(1)]
    by (cases "n \<in> set xs") (auto simp: dl_sim_def Push_Front_def)
  show "dl_sim (Remove_From l h n) (Unlink xs n)"
    using Remove_From_rep [OF assms(1)] Remove_From_absent [OF assms(1)]
    by (cases "n \<in> set xs") (auto simp: dl_sim_def Unlink_def)
  show "dl_sim (map_option snd (Remove_From_Front_Of l h)) (map_option snd (Pop_Front xs))"
    "map_option fst (Remove_From_Front_Of l h) = map_option fst (Pop_Front xs)"
    using Remove_From_Front_Of_rep Remove_From_Front_Of_empty assms(1)
    by (cases xs; force simp: dl_sim_def)+
qed

lemma list_ops_refine_witness:
  "dl_sim (Add_To_Back_Of \<lparr>nxt = (\<lambda>_. 0)(1 := 2), prv = (\<lambda>_. 0)(2 := 1)\<rparr> \<lparr>head = 1, tail = 2\<rparr> 3)
      (Push_Back [1, 2] 3)"
  by (rule list_ops_refine [of _ _ "[1, 2]" 3, THEN conjunct1]) (simp_all add: list_rep_def)

end
