(* ===== verification/CString.thy ===== *)
theory CString
  imports Prelude
begin

text \<open>
  The kernel's string and memory routines, \<open>common/string.c\<close> and \<open>common/memmove.c\<close>.
  Memory is one finite byte array; a pointer is an index into it, and a load or store
  outside it stops the machine.  Bytes are compared as \<open>signed char\<close>, as the code does
  on this target; \<open>size_t\<close> counters that only count down to 0 are naturals, the one
  that wraps (in \<open>memmove\<close>) is a 32-bit word.
\<close>

type_synonym mem = "u8 list"

section \<open>memset, memcpy, memcmp\<close>

fun memset :: "mem \<Rightarrow> nat \<Rightarrow> int \<Rightarrow> nat \<Rightarrow> mem kres" where
  "memset m p c 0 = Some m"
| "memset m p c (Suc n) = do { m \<leftarrow> aset m p (word_of_int c); memset m (Suc p) c n }"

fun memcpy :: "mem \<Rightarrow> nat \<Rightarrow> nat \<Rightarrow> nat \<Rightarrow> mem kres" where
  "memcpy m d s 0 = Some m"
| "memcpy m d s (Suc n) = do { x \<leftarrow> aget m s; m \<leftarrow> aset m d x; memcpy m (Suc d) (Suc s) n }"

text \<open>The loop of \<open>memcmp\<close> tests \<open>n > 0\<close> but never changes \<open>n\<close>.\<close>

function memcmp :: "mem \<Rightarrow> nat \<Rightarrow> nat \<Rightarrow> nat \<Rightarrow> int kres" where
  "memcmp m s1 s2 n =
     (if n > 0 then
        if s1 < length m \<and> s2 < length m then
          (let cmp = sint (m ! s1) - sint (m ! s2) in
           if cmp \<noteq> 0 then Some cmp else memcmp m (Suc s1) (Suc s2) n)
        else None
      else Some 0)"
  by pat_completeness auto
termination by (relation "measure (\<lambda>(m, s1, s2, n). length m - s1)") auto

declare memcmp.simps [simp del]

section \<open>String length and comparison\<close>

function strlen_loop :: "mem \<Rightarrow> nat \<Rightarrow> nat \<Rightarrow> nat kres" where
  "strlen_loop m s len =
     (if s < length m then if m ! s \<noteq> 0 then strlen_loop m (Suc s) (Suc len) else Some len
      else None)"
  by pat_completeness auto
termination by (relation "measure (\<lambda>(m, s, len). length m - s)") auto

declare strlen_loop.simps [simp del]

definition strlen :: "mem \<Rightarrow> nat \<Rightarrow> nat kres" where
  "strlen m s = strlen_loop m s 0"

function strnlen_loop :: "mem \<Rightarrow> nat \<Rightarrow> nat \<Rightarrow> nat \<Rightarrow> nat kres" where
  "strnlen_loop m s maxlen len =
     (if len < maxlen then
        if s < length m then
          if m ! s \<noteq> 0 then strnlen_loop m (Suc s) maxlen (Suc len) else Some len
        else None
      else Some len)"
  by pat_completeness auto
termination by (relation "measure (\<lambda>(m, s, maxlen, len). maxlen - len)") auto

declare strnlen_loop.simps [simp del]

definition strnlen :: "mem \<Rightarrow> nat \<Rightarrow> nat \<Rightarrow> nat kres" where
  "strnlen m s maxlen = strnlen_loop m s maxlen 0"

function strcmp :: "mem \<Rightarrow> nat \<Rightarrow> nat \<Rightarrow> int kres" where
  "strcmp m s1 s2 =
     (if s1 < length m \<and> s2 < length m then
        (let cmp = sint (m ! s1) - sint (m ! s2) in
         if cmp \<noteq> 0 \<or> m ! s1 = 0 \<or> m ! s2 = 0 then Some cmp
         else strcmp m (Suc s1) (Suc s2))
      else None)"
  by pat_completeness auto
termination by (relation "measure (\<lambda>(m, s1, s2). length m - s1)") auto

declare strcmp.simps [simp del]

function strncmp_loop :: "mem \<Rightarrow> nat \<Rightarrow> nat \<Rightarrow> nat \<Rightarrow> nat \<Rightarrow> int kres" where
  "strncmp_loop m s1 s2 limit i =
     (if i < limit then
        if s1 < length m \<and> s2 < length m then
          (let cmp = sint (m ! s1) - sint (m ! s2) in
           if cmp \<noteq> 0 \<or> m ! s1 = 0 \<or> m ! s2 = 0 then Some cmp
           else strncmp_loop m (Suc s1) (Suc s2) limit (Suc i))
        else None
      else Some 0)"
  by pat_completeness auto
termination by (relation "measure (\<lambda>(m, s1, s2, limit, i). limit - i)") auto

declare strncmp_loop.simps [simp del]

definition strncmp :: "mem \<Rightarrow> nat \<Rightarrow> nat \<Rightarrow> nat \<Rightarrow> int kres" where
  "strncmp m s1 s2 limit = strncmp_loop m s1 s2 limit 0"

section \<open>Copying strings\<close>

text \<open>The copying loop shared by \<open>strcpy\<close> and \<open>strcat\<close>: up to the nul of the source,
  then a nul is stored.\<close>

function strcpy :: "mem \<Rightarrow> nat \<Rightarrow> nat \<Rightarrow> mem kres" where
  "strcpy m dest src =
     (if src < length m then
        if m ! src \<noteq> 0 then
          if dest < length m then strcpy (m[dest := m ! src]) (Suc dest) (Suc src) else None
        else aset m dest 0
      else None)"
  by pat_completeness auto
termination by (relation "measure (\<lambda>(m, dest, src). length m - src)") auto

declare strcpy.simps [simp del]

function seek_nul :: "mem \<Rightarrow> nat \<Rightarrow> nat kres" where
  "seek_nul m s =
     (if s < length m then if m ! s \<noteq> 0 then seek_nul m (Suc s) else Some s else None)"
  by pat_completeness auto
termination by (relation "measure (\<lambda>(m, s). length m - s)") auto

declare seek_nul.simps [simp del]

definition strcat :: "mem \<Rightarrow> nat \<Rightarrow> nat \<Rightarrow> mem kres" where
  "strcat m s1 s2 = do { e \<leftarrow> seek_nul m s1; strcpy m e s2 }"

function strncpy :: "mem \<Rightarrow> nat \<Rightarrow> nat \<Rightarrow> nat \<Rightarrow> mem kres" where
  "strncpy m dest src limit =
     (if src < length m then
        if m ! src \<noteq> 0 \<and> limit > 0 then
          if dest < length m then strncpy (m[dest := m ! src]) (Suc dest) (Suc src) (limit - 1)
          else None
        else if limit > 0 then aset m dest 0
        else Some m
      else None)"
  by pat_completeness auto
termination by (relation "measure (\<lambda>(m, dest, src, limit). limit)") auto

declare strncpy.simps [simp del]

text \<open>\<open>strdup\<close> stores through the pointer that \<open>Malloc\<close> returns without testing it: the
  allocator's answer is the argument \<open>malloc\<close>, a null pointer being \<open>None\<close>.\<close>

definition strdup :: "(nat \<Rightarrow> nat option) \<Rightarrow> mem \<Rightarrow> nat \<Rightarrow> (nat \<times> mem) kres" where
  "strdup malloc m s1 = do {
     n \<leftarrow> strlen m s1;
     ret \<leftarrow> malloc (n + 1);
     m \<leftarrow> strcpy m ret s1;
     Some (ret, m) }"

section \<open>Searching and conversion\<close>

function atoi_loop :: "mem \<Rightarrow> nat \<Rightarrow> u32 \<Rightarrow> u32 kres" where
  "atoi_loop m buf ret =
     (if buf < length m then
        if sint (m ! buf) \<ge> 48 \<and> sint (m ! buf) \<le> 57
        then atoi_loop m (Suc buf) (ret * 10 + (word_of_int (sint (m ! buf)) - 48))
        else Some ret
      else None)"
  by pat_completeness auto
termination by (relation "measure (\<lambda>(m, buf, ret). length m - buf)") auto

declare atoi_loop.simps [simp del]

definition atoi :: "mem \<Rightarrow> nat \<Rightarrow> int kres" where
  "atoi m buf = do { r \<leftarrow> atoi_loop m buf 0; Some (sint r) }"

text \<open>The searches return the address of the hit; \<open>Some None\<close> is the null pointer.\<close>

function strchr :: "mem \<Rightarrow> nat \<Rightarrow> int \<Rightarrow> nat option kres" where
  "strchr m s c =
     (if s < length m then
        if m ! s \<noteq> 0 then if sint (m ! s) = c then Some (Some s) else strchr m (Suc s) c
        else Some None
      else None)"
  by pat_completeness auto
termination by (relation "measure (\<lambda>(m, s, c). length m - s)") auto

declare strchr.simps [simp del]

fun strrchr_loop :: "mem \<Rightarrow> nat \<Rightarrow> nat \<Rightarrow> int \<Rightarrow> nat option" where
  "strrchr_loop m s 0 c = None"
| "strrchr_loop m s (Suc k) c =
     (if sint (m ! (s + k)) = c then Some (s + k) else strrchr_loop m s k c)"

definition strrchr :: "mem \<Rightarrow> nat \<Rightarrow> int \<Rightarrow> nat option kres" where
  "strrchr m s c = do { len \<leftarrow> strlen m s; Some (strrchr_loop m s len c) }"

fun in_accept :: "mem \<Rightarrow> nat \<Rightarrow> nat \<Rightarrow> u8 \<Rightarrow> bool" where
  "in_accept m acc 0 x = False"
| "in_accept m acc (Suc n) x = (x = m ! acc \<or> in_accept m (Suc acc) n x)"

function strpbrk_loop :: "mem \<Rightarrow> nat \<Rightarrow> nat \<Rightarrow> nat \<Rightarrow> nat option kres" where
  "strpbrk_loop m s acc setLen =
     (if s < length m then
        if m ! s \<noteq> 0 then
          if in_accept m acc setLen (m ! s) then Some (Some s)
          else strpbrk_loop m (Suc s) acc setLen
        else Some None
      else None)"
  by pat_completeness auto
termination by (relation "measure (\<lambda>(m, s, acc, setLen). length m - s)") auto

declare strpbrk_loop.simps [simp del]

definition strpbrk :: "mem \<Rightarrow> nat \<Rightarrow> nat \<Rightarrow> nat option kres" where
  "strpbrk m s acc = do { setLen \<leftarrow> strlen m acc; strpbrk_loop m s acc setLen }"

section \<open>memmove\<close>

text \<open>
  \<open>n\<close> is a \<open>size_t\<close>.  In the forward branch the loop test \<open>--n >= 0\<close> is a test on an
  unsigned value; it is written as in the code, on a 32-bit word.
\<close>

function memmove_fwd :: "mem \<Rightarrow> nat \<Rightarrow> nat \<Rightarrow> u32 \<Rightarrow> mem kres" where
  "memmove_fwd m d s n =
     (let n = n - 1 in
      if 0 \<le> n then
        if s < length m \<and> d < length m then memmove_fwd (m[d := m ! s]) (Suc d) (Suc s) n
        else None
      else Some m)"
  by pat_completeness auto
termination by (relation "measure (\<lambda>(m, d, s, n). length m - s)") (auto simp: Let_def)

declare memmove_fwd.simps [simp del]

fun memmove_bwd :: "mem \<Rightarrow> nat \<Rightarrow> nat \<Rightarrow> nat \<Rightarrow> mem kres" where
  "memmove_bwd m d s 0 = Some m"
| "memmove_bwd m d s (Suc n) = do {
     x \<leftarrow> aget m (s + n);
     m \<leftarrow> aset m (d + n) x;
     memmove_bwd m d s n }"

definition memmove :: "mem \<Rightarrow> nat \<Rightarrow> nat \<Rightarrow> u32 \<Rightarrow> mem kres" where
  "memmove m d s n =
     (if n \<le> 0 then Some m
      else if s \<ge> d + unat n \<or> d \<ge> s + unat n then memcpy m d s (unat n)
      else if s > d then memmove_fwd m d s n
      else if s < d then memmove_bwd m d s (unat n)
      else Some m)"

section \<open>What memory holds\<close>

text \<open>\<open>cstr_at m p xs\<close>: the nul-terminated string \<open>xs\<close> is stored at \<open>p\<close>.\<close>

fun cstr_at :: "mem \<Rightarrow> nat \<Rightarrow> u8 list \<Rightarrow> bool" where
  "cstr_at m p [] \<longleftrightarrow> p < length m \<and> m ! p = 0"
| "cstr_at m p (x # xs) \<longleftrightarrow> p < length m \<and> m ! p = x \<and> x \<noteq> 0 \<and> cstr_at m (Suc p) xs"

fun store :: "mem \<Rightarrow> nat \<Rightarrow> u8 list \<Rightarrow> mem" where
  "store m p [] = m"
| "store m p (x # xs) = store (m[p := x]) (Suc p) xs"

definition load :: "mem \<Rightarrow> nat \<Rightarrow> nat \<Rightarrow> u8 list" where
  "load m p n = take n (drop p m)"

lemma length_store [simp]: "length (store m p xs) = length m"
  by (induction m p xs rule: store.induct) auto

lemma nth_store:
  "i < length m \<Longrightarrow>
   store m p xs ! i = (if p \<le> i \<and> i < p + length xs then xs ! (i - p) else m ! i)"
proof (induction m p xs rule: store.induct)
  case (2 m p x xs)
  then show ?case by (auto simp: nth_list_update nth_Cons' not_less_eq_eq)
qed auto

lemma store_Cons_last:
  "p + length xs < length m \<Longrightarrow> store m p (xs @ [x]) = (store m p xs)[p + length xs := x]"
  by (induction m p xs rule: store.induct) auto

lemma store_update_commute:
  "i < p \<or> p + length xs \<le> i \<Longrightarrow> store (m[i := v]) p xs = (store m p xs)[i := v]"
  by (induction m p xs rule: store.induct) (auto simp: list_update_swap)

lemma length_load [simp]: "p + n \<le> length m \<Longrightarrow> length (load m p n) = n"
  by (simp add: load_def)

lemma load_0 [simp]: "load m p 0 = []"
  by (simp add: load_def)

lemma load_Suc: "p < length m \<Longrightarrow> load m p (Suc n) = m ! p # load m (Suc p) n"
  by (simp add: load_def Cons_nth_drop_Suc [symmetric])

lemma load_snoc: "p + n < length m \<Longrightarrow> load m p (Suc n) = load m p n @ [m ! (p + n)]"
  by (simp add: load_def take_Suc_conv_app_nth)

lemma load_update: "i < p \<or> p + n \<le> i \<Longrightarrow> load (m[i := v]) p n = load m p n"
  by (auto simp: load_def drop_update_swap drop_update_cancel not_less_iff_gr_or_eq
      intro: nth_equalityI)

lemma cstr_at_bounds: "cstr_at m p xs \<Longrightarrow> p + length xs < length m"
  by (induction m p xs rule: cstr_at.induct) auto

lemma cstr_at_load: "cstr_at m p xs \<Longrightarrow> load m p (length xs) = xs"
  by (induction m p xs rule: cstr_at.induct) (auto simp: load_Suc)

lemma cstr_at_update: "i < p \<or> p + length xs < i \<Longrightarrow> cstr_at (m[i := v]) p xs = cstr_at m p xs"
  by (induction m p xs rule: cstr_at.induct) auto

lemma cstr_at_store_self:
  "p + length xs < length m \<Longrightarrow> 0 \<notin> set xs \<Longrightarrow> cstr_at (store m p (xs @ [0])) p xs"
proof (induction xs arbitrary: m p)
  case (Cons x xs)
  then show ?case by (auto simp: nth_store)
qed simp

section \<open>The routines meet their documented behaviour\<close>

lemma memset_spec:
  "p + n \<le> length m \<Longrightarrow> memset m p c n = Some (store m p (replicate n (word_of_int c)))"
  by (induction m p c n rule: memset.induct) auto

lemma memcpy_spec:
  assumes "d + n \<le> length m" "s + n \<le> length m" "d \<le> s \<or> s + n \<le> d"
  shows "memcpy m d s n = Some (store m d (load m s n))"
  using assms
  by (induction n arbitrary: m d s) (auto simp: load_Suc load_update)

lemma memmove_bwd_spec:
  assumes "d + n \<le> length m" "s < d"
  shows "memmove_bwd m d s n = Some (store m d (load m s n))"
  using assms
proof (induction n arbitrary: m)
  case (Suc n)
  then have "memmove_bwd m d s (Suc n) =
      Some (store (m[d + n := m ! (s + n)]) d (load m s n))"
    by (simp add: load_update)
  with Suc.prems show ?case
    by (simp add: load_snoc store_Cons_last store_update_commute)
qed simp

lemma memmove_fwd_diverges: "memmove_fwd m d s n = None"
  by (induction m d s n rule: memmove_fwd.induct) (subst memmove_fwd.simps, simp add: Let_def)

lemma strlen_loop_spec: "cstr_at m p xs \<Longrightarrow> strlen_loop m p k = Some (k + length xs)"
  by (induction m p xs arbitrary: k rule: cstr_at.induct) (subst strlen_loop.simps, simp)+

lemma strlen_spec: "cstr_at m p xs \<Longrightarrow> strlen m p = Some (length xs)"
  by (simp add: strlen_def strlen_loop_spec)

lemma strnlen_loop_spec:
  "cstr_at m p xs \<Longrightarrow> k \<le> n \<Longrightarrow> strnlen_loop m p n k = Some (min n (k + length xs))"
  by (induction m p xs arbitrary: k rule: cstr_at.induct) (subst strnlen_loop.simps, simp)+

lemma strnlen_spec: "cstr_at m p xs \<Longrightarrow> strnlen m p n = Some (min n (length xs))"
  by (simp add: strnlen_def strnlen_loop_spec)

text \<open>The order that \<open>strcmp\<close> computes: signed bytes, the shorter string is padded by nul.\<close>

fun strcmp_val :: "u8 list \<Rightarrow> u8 list \<Rightarrow> int" where
  "strcmp_val [] [] = 0"
| "strcmp_val (x # xs) [] = sint x"
| "strcmp_val [] (y # ys) = - sint y"
| "strcmp_val (x # xs) (y # ys) = (if x = y then strcmp_val xs ys else sint x - sint y)"

lemma sint_eq_iff: "sint (x :: 'a::len word) = sint y \<longleftrightarrow> x = y"
proof
  assume "sint x = sint y"
  then have "(of_int (sint x) :: 'a word) = of_int (sint y)" by simp
  then show "x = y" by simp
qed simp

lemma sint_0_iff: "sint (x :: 'a::len word) = 0 \<longleftrightarrow> x = 0"
  by (metis sint_0 sint_eq_iff)

lemma strcmp_spec:
  "cstr_at m p xs \<Longrightarrow> cstr_at m q ys \<Longrightarrow> strcmp m p q = Some (strcmp_val xs ys)"
  by (induction xs ys arbitrary: p q rule: strcmp_val.induct)
     (subst strcmp.simps, simp add: Let_def sint_0_iff sint_eq_iff)+

lemma strcmp_val_eq_0: "0 \<notin> set xs \<Longrightarrow> 0 \<notin> set ys \<Longrightarrow> strcmp_val xs ys = 0 \<longleftrightarrow> xs = ys"
  by (induction xs ys rule: strcmp_val.induct) (auto simp: sint_0_iff sint_eq_iff)

lemma cstr_at_nonzero: "cstr_at m p xs \<Longrightarrow> 0 \<notin> set xs"
  by (induction m p xs rule: cstr_at.induct) auto

lemma strncmp_loop_spec:
  "cstr_at m p xs \<Longrightarrow> cstr_at m q ys \<Longrightarrow> i \<le> n \<Longrightarrow>
   strncmp_loop m p q n i = Some (strcmp_val (take (n - i) xs) (take (n - i) ys))"
proof (induction xs ys arbitrary: p q i rule: strcmp_val.induct)
  case (4 x xs y ys)
  show ?case
  proof (cases "i < n")
    case True
    then have "n - i = Suc (n - Suc i)" by simp
    with 4 True show ?thesis
      by (subst strncmp_loop.simps) (simp add: Let_def sint_0_iff sint_eq_iff)
  qed (use 4 in \<open>subst strncmp_loop.simps, simp\<close>)
qed (subst strncmp_loop.simps, simp add: Let_def sint_0_iff sint_eq_iff take_Cons')+

lemma strcpy_spec:
  assumes "cstr_at m src xs" "dest + length xs < length m"
    "dest + length xs < src \<or> src + length xs < dest"
  shows "strcpy m dest src = Some (store m dest (xs @ [0]))"
  using assms
proof (induction xs arbitrary: m dest src)
  case Nil
  then show ?case by (subst strcpy.simps) simp
next
  case (Cons x xs)
  from Cons.prems have "cstr_at (m[dest := x]) (Suc src) xs"
    by (subst cstr_at_update) auto
  with Cons.prems Cons.IH [of "m[dest := x]" "Suc src" "Suc dest"]
  have "strcpy (m[dest := x]) (Suc dest) (Suc src)
      = Some (store (m[dest := x]) (Suc dest) (xs @ [0]))"
    by auto
  with Cons.prems show ?case by (subst strcpy.simps) auto
qed

lemma seek_nul_spec: "cstr_at m p xs \<Longrightarrow> seek_nul m p = Some (p + length xs)"
  by (induction m p xs rule: cstr_at.induct) (subst seek_nul.simps, simp)+


lemma strcat_spec:
  assumes s1: "cstr_at m s1 xs" and s2: "cstr_at m s2 ys"
    and fits: "s1 + length xs + length ys < length m"
    and disj: "s1 + length xs + length ys < s2 \<or> s2 + length ys < s1"
  shows "strcat m s1 s2 = Some (store m (s1 + length xs) (ys @ [0]))"
  using strcpy_spec [OF s2, of "s1 + length xs"] fits disj
  by (auto simp: strcat_def seek_nul_spec [OF s1])

lemma strcat_result:
  assumes "cstr_at m s1 xs" "0 \<notin> set ys" "s1 + length xs + length ys < length m"
  shows "cstr_at (store m (s1 + length xs) (ys @ [0])) s1 (xs @ ys)"
  using assms
proof (induction xs arbitrary: s1)
  case Nil
  then show ?case using cstr_at_store_self [of s1 ys m] by simp
next
  case (Cons x xs)
  then show ?case using Cons.IH [of "Suc s1"] by (auto simp: nth_store)
qed

text \<open>\<open>strncpy\<close> ends the copy with a nul only when the source is shorter than the limit.\<close>

lemma strncpy_spec:
  assumes "cstr_at m src xs" "dest + min limit (Suc (length xs)) \<le> length m"
    "dest + length xs < src \<or> src + length xs < dest"
  shows "strncpy m dest src limit =
    Some (store m dest (if length xs < limit then xs @ [0] else take limit xs))"
  using assms
proof (induction xs arbitrary: m dest src limit)
  case Nil
  then show ?case by (subst strncpy.simps) simp
next
  case (Cons x xs)
  show ?case
  proof (cases limit)
    case 0
    with Cons.prems show ?thesis by (subst strncpy.simps) simp
  next
    case (Suc k)
    from Cons.prems have "cstr_at (m[dest := x]) (Suc src) xs"
      by (subst cstr_at_update) auto
    with Cons.prems Suc Cons.IH [of "m[dest := x]" "Suc src" "Suc dest" k]
    show ?thesis by (subst strncpy.simps) auto
  qed
qed

lemma strchr_spec:
  "cstr_at m p xs \<Longrightarrow> sint x = c \<Longrightarrow> x \<noteq> 0 \<Longrightarrow> strchr m p c =
     Some (if x \<in> set xs then Some (p + length (takeWhile (\<lambda>y. y \<noteq> x) xs)) else None)"
proof (induction xs arbitrary: p)
  case Nil
  then show ?case by (subst strchr.simps) simp
next
  case (Cons y ys)
  then show ?case by (subst strchr.simps) (auto simp: sint_eq_iff)
qed

lemma strrchr_loop_spec:
  "p + k \<le> length m \<Longrightarrow> strrchr_loop m p k c = Some q \<Longrightarrow>
   p \<le> q \<and> q < p + k \<and> sint (m ! q) = c \<and> (\<forall>j. q < j \<and> j < p + k \<longrightarrow> sint (m ! j) \<noteq> c)"
  by (induction k) (auto split: if_splits simp: less_Suc_eq)

lemma strrchr_loop_None:
  "strrchr_loop m p k c = None \<longleftrightarrow> (\<forall>j < k. sint (m ! (p + j)) \<noteq> c)"
  by (induction k) (auto simp: less_Suc_eq)

fun decimal :: "nat list \<Rightarrow> nat \<Rightarrow> nat" where
  "decimal [] v = v"
| "decimal (d # ds) v = decimal ds (10 * v + d)"

definition digit_char :: "nat \<Rightarrow> u8" where
  "digit_char d = of_nat (48 + d)"

lemma digit_byte:
  assumes "d < 10"
  shows "sint (digit_char d) = int d + 48" "(scast (digit_char d) :: u32) = of_nat d + 48"
    "digit_char d \<noteq> 0"
proof -
  have "d = 0 \<or> d = 1 \<or> d = 2 \<or> d = 3 \<or> d = 4 \<or> d = 5 \<or> d = 6 \<or> d = 7 \<or> d = 8 \<or> d = 9"
    using assms by arith
  then show "sint (digit_char d) = int d + 48" "(scast (digit_char d) :: u32) = of_nat d + 48"
    "digit_char d \<noteq> 0"
    by (elim disjE; simp add: digit_char_def)+
qed

lemma atoi_loop_digits:
  assumes "cstr_at m p (map digit_char ds @ rest)" "\<forall>d\<in>set ds. d < 10"
    "rest = [] \<or> sint (hd rest) < 48 \<or> 57 < sint (hd rest)"
  shows "atoi_loop m p (of_nat v) = Some (of_nat (decimal ds v))"
  using assms
proof (induction ds arbitrary: p v)
  case Nil
  then show ?case
    by (cases rest) (subst atoi_loop.simps, auto)+
next
  case (Cons d ds)
  then have d: "d < 10" and at: "p < length m" "m ! p = digit_char d"
    "cstr_at m (Suc p) (map digit_char ds @ rest)" by auto
  have "atoi_loop m p (of_nat v) = atoi_loop m (Suc p) (of_nat (10 * v + d))"
    using at d by (subst atoi_loop.simps) (simp add: digit_byte algebra_simps)
  also have "\<dots> = Some (of_nat (decimal (d # ds) v))"
    using Cons.IH [OF at(3), of "10 * v + d"] Cons.prems by simp
  finally show ?case .
qed

lemma atoi_spec:
  assumes "cstr_at m p (map digit_char ds @ rest)" "\<forall>d\<in>set ds. d < 10"
    "rest = [] \<or> sint (hd rest) < 48 \<or> 57 < sint (hd rest)" "decimal ds 0 < 2 ^ 31"
  shows "atoi m p = Some (int (decimal ds 0))"
proof -
  have "atoi_loop m p (of_nat 0) = Some (of_nat (decimal ds 0))"
    using assms(1-3) by (rule atoi_loop_digits)
  moreover have "sint (of_nat (decimal ds 0) :: u32) = int (decimal ds 0)"
    using assms(4) by (simp add: sint_uint unsigned_of_nat take_bit_nat_eq_self
        signed_take_bit_int_eq_self)
  ultimately show ?thesis by (simp add: atoi_def)
qed

lemma memcmp_nonzero_count: "n > 0 \<Longrightarrow> memcmp m s1 s2 n \<noteq> Some 0"
proof (induction m s1 s2 n rule: memcmp.induct)
  case (1 m s1 s2 n)
  then show ?case by (subst memcmp.simps) (auto simp: Let_def)
qed

section \<open>Properties\<close>

text \<open>\<open>strcmp\<close> on two terminated strings returns 0 exactly when they are the same
  string, whatever the bytes are.\<close>

theorem strcmp_equal:
  assumes "cstr_at m p xs" "cstr_at m q ys"
  shows "\<exists>r. strcmp m p q = Some r \<and> (r = 0 \<longleftrightarrow> xs = ys)"
  using strcmp_spec [OF assms] strcmp_val_eq_0 cstr_at_nonzero assms by blast

lemma strcmp_equal_witness:
  "\<exists>r. strcmp [104, 105, 0, 104, 111, 0] 0 3 = Some r \<and> (r = 0 \<longleftrightarrow> [104, 105 :: u8] = [104, 111])"
  by (rule strcmp_equal) simp_all

text \<open>\<open>strcat\<close> into a buffer with room for the result, source and destination apart,
  returns with the destination holding the concatenation, terminated, and every byte
  outside the appended part unchanged.\<close>

theorem strcat_concatenates:
  assumes "cstr_at m s1 xs" "cstr_at m s2 ys" "s1 + length xs + length ys < length m"
    "s1 + length xs + length ys < s2 \<or> s2 + length ys < s1"
  shows "\<exists>m'. strcat m s1 s2 = Some m' \<and> cstr_at m' s1 (xs @ ys) \<and> length m' = length m \<and>
    (\<forall>i < length m. i < s1 + length xs \<or> s1 + length xs + length ys < i \<longrightarrow> m' ! i = m ! i)"
proof -
  have "cstr_at (store m (s1 + length xs) (ys @ [0])) s1 (xs @ ys)"
    using strcat_result [OF assms(1) cstr_at_nonzero [OF assms(2)] assms(3)] .
  with strcat_spec [OF assms] show ?thesis by (auto simp: nth_store)
qed

lemma strcat_concatenates_witness:
  "\<exists>m'. strcat [104, 0, 7, 7, 111, 107, 0] 0 4 = Some m' \<and> cstr_at m' 0 ([104] @ [111, 107]) \<and>
    length m' = length [104, 0, 7, 7, 111, 107, 0 :: u8] \<and>
    (\<forall>i < length [104, 0, 7, 7, 111, 107, 0 :: u8].
      i < 0 + length [104 :: u8] \<or> 0 + length [104 :: u8] + length [111, 107 :: u8] < i \<longrightarrow>
      m' ! i = [104, 0, 7, 7, 111, 107, 0] ! i)"
  by (rule strcat_concatenates) simp_all

text \<open>\<open>atoi\<close> reads the longest decimal prefix of a string and returns its value, for
  every value an \<open>int\<close> can hold.\<close>

theorem atoi_decimal:
  assumes "cstr_at m p (map digit_char ds @ rest)" "\<forall>d\<in>set ds. d < 10"
    "rest = [] \<or> sint (hd rest) < 48 \<or> 57 < sint (hd rest)" "decimal ds 0 < 2 ^ 31"
  shows "atoi m p = Some (int (decimal ds 0))"
  by (rule atoi_spec [OF assms])

lemma atoi_decimal_witness: "atoi [52, 50, 120, 0] 0 = Some (int (decimal [4, 2] 0))"
  by (rule atoi_decimal [where rest = "[120]"]) (simp_all add: digit_char_def)

text \<open>\<open>memcmp\<close> with a positive count never returns 0 (its loop never counts down, so on
  equal ranges it runs on until some bytes differ or it leaves memory), and the forward
  branch of \<open>memmove\<close> never returns (its test \<open>--n >= 0\<close> is on an unsigned counter).\<close>

theorem memory_loops_run_on:
  "(n > 0 \<longrightarrow> memcmp m s1 s2 n \<noteq> Some 0) \<and>
   (d < s \<and> s < d + unat k \<longrightarrow> memmove m d s k = None)"
proof (intro conjI impI)
  assume "d < s \<and> s < d + unat k"
  then show "memmove m d s k = None"
    by (auto simp: memmove_def memmove_fwd_diverges word_le_nat_alt)
qed (rule memcmp_nonzero_count)

lemma memory_loops_run_on_witness:
  "memcmp [1, 2, 1, 2] 0 2 2 \<noteq> Some 0 \<and> memmove [1, 2, 3, 4] 0 1 3 = None"
  using memory_loops_run_on [of 2 "[1, 2, 1, 2]" 0 2 0 1 3]
    memory_loops_run_on [of 2 "[1, 2, 3, 4]" 0 2 0 1 3] by simp

end
