(* ===== verification/Bitset.thy ===== *)
theory Bitset
  imports Prelude
begin

text \<open>
  The bit sets of \<open>geekos/bitset.c\<close>: an array of bytes, bit \<open>i\<close> being bit \<open>i mod 8\<close>
  of byte \<open>i div 8\<close>.  The abstract value of a bit set is the set of positions of its
  1-bits.  The last part states the contract of a slot allocator (free slots are found
  in increasing order, a marked slot is not found again) that the filesystem's block
  bitmap and the paging file's swap map share.
\<close>

section \<open>The operations\<close>

definition FIND_NUM_BYTES :: "nat \<Rightarrow> nat" where
  "FIND_NUM_BYTES totalBits = totalBits div 8 + (if totalBits mod 8 \<noteq> 0 then 1 else 0)"

text \<open>\<open>malloc_ok\<close> is whether \<open>Malloc\<close> finds the memory; no memory is the null pointer.\<close>

definition Create_Bit_Set :: "bool \<Rightarrow> nat \<Rightarrow> u8 list option" where
  "Create_Bit_Set malloc_ok totalBits =
     (if malloc_ok then Some (replicate (FIND_NUM_BYTES totalBits) 0) else None)"

definition Set_Bit :: "u8 list \<Rightarrow> nat \<Rightarrow> u8 list kres" where
  "Set_Bit bs bitPos = do {
     let offset = bitPos div 8;
     let b = bitPos mod 8;
     x \<leftarrow> aget bs offset;
     aset bs offset (x OR push_bit b 1) }"

definition Clear_Bit :: "u8 list \<Rightarrow> nat \<Rightarrow> u8 list kres" where
  "Clear_Bit bs bitPos = do {
     let offset = bitPos div 8;
     let b = bitPos mod 8;
     x \<leftarrow> aget bs offset;
     aset bs offset (x AND NOT (push_bit b 1)) }"

definition Is_Bit_Set :: "u8 list \<Rightarrow> nat \<Rightarrow> bool kres" where
  "Is_Bit_Set bs bitPos = do {
     let offset = bitPos div 8;
     let b = bitPos mod 8;
     x \<leftarrow> aget bs offset;
     Some (x AND push_bit b 1 \<noteq> 0) }"

text \<open>The inner loop over the bits of one byte: the first clear bit from \<open>bit\<close> on.\<close>

function first_clear_bit :: "u8 \<Rightarrow> nat \<Rightarrow> nat option" where
  "first_clear_bit x b =
     (if b < 8 then if x AND push_bit b 1 = 0 then Some b else first_clear_bit x (Suc b)
      else None)"
  by pat_completeness auto
termination by (relation "measure (\<lambda>(x, b). 8 - b)") auto

declare first_clear_bit.simps [simp del]

function find_free_from :: "u8 list \<Rightarrow> nat \<Rightarrow> nat \<Rightarrow> int kres" where
  "find_free_from bits offset numBytes =
     (if offset < numBytes then do {
        x \<leftarrow> aget bits offset;
        if x \<noteq> 0xff then
          (case first_clear_bit x 0 of
             Some b \<Rightarrow> Some (int (offset * 8 + b))
           | None \<Rightarrow> do { KASSERT False; find_free_from bits (Suc offset) numBytes })
        else find_free_from bits (Suc offset) numBytes }
      else Some (- 1))"
  by pat_completeness auto
termination by (relation "measure (\<lambda>(bits, offset, numBytes). numBytes - offset)") auto

declare find_free_from.simps [simp del]

definition Find_First_Free_Bit :: "u8 list \<Rightarrow> nat \<Rightarrow> int kres" where
  "Find_First_Free_Bit bits totalBits = find_free_from bits 0 (FIND_NUM_BYTES totalBits)"

text \<open>The search for a run keeps the code's unsigned 32-bit arithmetic.\<close>

function free_run_len :: "u8 list \<Rightarrow> u32 \<Rightarrow> u32 \<Rightarrow> u32 \<Rightarrow> u32 kres" where
  "free_run_len bs i runLength j =
     (if j < runLength then do {
        used \<leftarrow> Is_Bit_Set bs (unat (i + j));
        if used then Some j else free_run_len bs i runLength (j + 1) }
      else Some j)"
  by pat_completeness auto
termination
  by (relation "measure (\<lambda>(bs, i, runLength, j). unat runLength - unat j)")
     (auto intro: unat_inc_measure)

declare free_run_len.simps [simp del]

function find_run_from :: "u8 list \<Rightarrow> u32 \<Rightarrow> u32 \<Rightarrow> u32 \<Rightarrow> int kres" where
  "find_run_from bs runLength totalBits i =
     (if i < totalBits - runLength then do {
        used \<leftarrow> Is_Bit_Set bs (unat i);
        if \<not> used then do {
          j \<leftarrow> free_run_len bs i runLength 1;
          if j = runLength then Some (sint i) else find_run_from bs runLength totalBits (i + 1) }
        else find_run_from bs runLength totalBits (i + 1) }
      else Some (- 1))"
  by pat_completeness auto
termination
  by (relation "measure (\<lambda>(bs, runLength, totalBits, i). unat (totalBits - runLength) - unat i)")
     (auto intro: unat_inc_measure)

declare find_run_from.simps [simp del]

definition Find_First_N_Free :: "u8 list \<Rightarrow> u32 \<Rightarrow> u32 \<Rightarrow> int kres" where
  "Find_First_N_Free bs runLength totalBits = find_run_from bs runLength totalBits 0"

fun count_clear_bits :: "u8 \<Rightarrow> nat \<Rightarrow> nat" where
  "count_clear_bits x 0 = 0"
| "count_clear_bits x (Suc b) = (if x AND push_bit b 1 = 0 then 1 else 0) + count_clear_bits x b"

fun count_free_from :: "u8 list \<Rightarrow> nat \<Rightarrow> nat \<Rightarrow> nat kres" where
  "count_free_from bits offset 0 = Some 0"
| "count_free_from bits offset (Suc n) = do {
     x \<leftarrow> aget bits offset;
     rest \<leftarrow> count_free_from bits (Suc offset) n;
     Some ((if x \<noteq> 0xff then count_clear_bits x 8 else 0) + rest) }"

definition Get_Count_Of_ALL_Free_Bit :: "u8 list \<Rightarrow> nat \<Rightarrow> nat kres" where
  "Get_Count_Of_ALL_Free_Bit bits totalBits = count_free_from bits 0 (FIND_NUM_BYTES totalBits)"

section \<open>The set of positions\<close>

definition bit_at :: "u8 list \<Rightarrow> nat \<Rightarrow> bool" where
  "bit_at bs i \<longleftrightarrow> i < 8 * length bs \<and> bit (bs ! (i div 8)) (i mod 8)"

definition bits_of :: "u8 list \<Rightarrow> nat set" where
  "bits_of bs = {i. bit_at bs i}"

lemma byte_index: "i < 8 * length bs \<longleftrightarrow> i div 8 < length (bs :: u8 list)"
  by auto

lemma and_exp_eq_0 [simp]: "(x :: 'a::len word) AND 2 ^ b = 0 \<longleftrightarrow> \<not> bit x b"
  by (simp add: and_exp_eq_0_iff_not_bit)

lemma bit_set_push [simp]: "n < 8 \<Longrightarrow> bit ((x :: u8) OR 2 ^ b) n \<longleftrightarrow> bit x n \<or> n = b"
  by (auto simp: bit_or_iff bit_exp_iff)

lemma bit_clear_push [simp]: "n < 8 \<Longrightarrow> bit ((x :: u8) AND NOT (2 ^ b)) n \<longleftrightarrow> bit x n \<and> n \<noteq> b"
  by (auto simp: bit_and_iff bit_not_iff bit_exp_iff)

lemma div_mod_8_eq: "i div 8 = j div 8 \<Longrightarrow> i mod 8 = j mod 8 \<longleftrightarrow> i = (j :: nat)"
  by (metis div_mult_mod_eq)

lemma Is_Bit_Set_spec: "i < 8 * length bs \<Longrightarrow> Is_Bit_Set bs i = Some (i \<in> bits_of bs)"
  by (auto simp: Is_Bit_Set_def bits_of_def bit_at_def byte_index)

lemma Is_Bit_Set_out: "\<not> i < 8 * length bs \<Longrightarrow> Is_Bit_Set bs i = None"
  by (auto simp: Is_Bit_Set_def aget_def byte_index)

lemma Set_Bit_spec:
  assumes "i < 8 * length bs"
  shows "\<exists>bs'. Set_Bit bs i = Some bs' \<and> length bs' = length bs \<and> bits_of bs' = insert i (bits_of bs)"
  using assms
  by (auto simp: Set_Bit_def Let_def bits_of_def bit_at_def byte_index nth_list_update div_mod_8_eq)

lemma Clear_Bit_spec:
  assumes "i < 8 * length bs"
  shows "\<exists>bs'. Clear_Bit bs i = Some bs' \<and> length bs' = length bs \<and> bits_of bs' = bits_of bs - {i}"
  using assms
  by (auto simp: Clear_Bit_def Let_def bits_of_def bit_at_def byte_index nth_list_update div_mod_8_eq)

lemma Create_Bit_Set_spec:
  "Create_Bit_Set True n = Some bs \<Longrightarrow> bits_of bs = {} \<and> n \<le> 8 * length bs"
  by (auto simp: Create_Bit_Set_def bits_of_def bit_at_def FIND_NUM_BYTES_def)

section \<open>The searches\<close>

lemma first_clear_bit_Some:
  "first_clear_bit x k = Some b \<Longrightarrow> k \<le> b \<and> b < 8 \<and> \<not> bit x b \<and> (\<forall>j. k \<le> j \<and> j < b \<longrightarrow> bit x j)"
proof (induction x k rule: first_clear_bit.induct)
  case (1 x k)
  show ?case
  proof (cases "k < 8 \<and> bit x k")
    case True
    with 1 have "first_clear_bit x (Suc k) = Some b"
      by (subst (asm) first_clear_bit.simps) (simp split: if_splits)
    with 1 True have "Suc k \<le> b \<and> b < 8 \<and> \<not> bit x b \<and> (\<forall>j. Suc k \<le> j \<and> j < b \<longrightarrow> bit x j)"
      by simp
    with True show ?thesis by (metis Suc_leD Suc_leI le_neq_implies_less)
  next
    case False
    with 1(2) show ?thesis
      by (subst (asm) first_clear_bit.simps) (auto split: if_splits)
  qed
qed

lemma first_clear_bit_None: "first_clear_bit x k = None \<Longrightarrow> k \<le> j \<Longrightarrow> j < 8 \<Longrightarrow> bit x j"
proof (induction x k rule: first_clear_bit.induct)
  case (1 x k)
  show ?case
  proof (cases "k < 8 \<and> bit x k")
    case True
    with 1 have "first_clear_bit x (Suc k) = None"
      by (subst (asm) first_clear_bit.simps) simp
    with 1 True show ?thesis by (cases "k = j") auto
  next
    case False
    with 1(2-) show ?thesis
      by (subst (asm) first_clear_bit.simps) (auto split: if_splits)
  qed
qed

lemma byte_full_iff: "(x :: u8) = 0xff \<longleftrightarrow> (\<forall>j < 8. bit x j)"
proof -
  have ff: "(0xff :: u8) = - 1" by simp
  show ?thesis unfolding ff by (auto intro!: bit_word_eqI)
qed

lemma bit_at_byte: "b < 8 \<Longrightarrow> off * 8 + b \<in> bits_of bs \<longleftrightarrow> off < length bs \<and> bit (bs ! off) b"
  by (auto simp: bits_of_def bit_at_def)

lemma bytes_split: "j < (n :: nat) * 8 \<Longrightarrow> \<exists>k b. j = k * 8 + b \<and> k < n \<and> b < 8"
  by (metis div_mult_mod_eq less_mult_imp_div_less mod_less_divisor zero_less_numeral)

lemma find_free_from_spec:
  assumes "numBytes \<le> length bs" "\<forall>j < off * 8. j \<in> bits_of bs"
  shows "\<exists>r. find_free_from bs off numBytes = Some r \<and>
     (r = - 1 \<and> (\<forall>j < numBytes * 8. j \<in> bits_of bs) \<or>
      (\<exists>i. r = int i \<and> i < numBytes * 8 \<and> i \<notin> bits_of bs \<and> (\<forall>j < i. j \<in> bits_of bs)))"
  using assms
proof (induction bs off numBytes rule: find_free_from.induct)
  case (1 bs off n)
  have below: "j \<in> bits_of bs" if "j < off * 8 + b" "\<forall>k < b. off * 8 + k \<in> bits_of bs" for j b
    using that 1(4) by (metis add_diff_inverse_nat nat_add_left_cancel_less not_less_iff_gr_or_eq)
  show ?case
  proof (cases "off < n")
    case False
    with 1(4) show ?thesis by (subst find_free_from.simps) auto
  next
    case True
    with 1(3) have off: "off < length bs" by simp
    show ?thesis
    proof (cases "bs ! off = 0xff")
      case full: True
      then have "\<forall>j < Suc off * 8. j \<in> bits_of bs"
        using below [of _ 8] off bit_at_byte [of _ off bs] by (simp add: byte_full_iff add.commute)
      with 1(2,3) True full off show ?thesis by (subst find_free_from.simps) simp
    next
      case False
      then obtain b where b: "first_clear_bit (bs ! off) 0 = Some b"
        using first_clear_bit_None byte_full_iff by (metis le0 not_Some_eq)
      from first_clear_bit_Some [OF this] have b8: "b < 8" "\<not> bit (bs ! off) b"
        "\<forall>k < b. off * 8 + k \<in> bits_of bs"
        using off by (auto simp: bit_at_byte)
      have "off * 8 + b < n * 8 \<and> off * 8 + b \<notin> bits_of bs \<and> (\<forall>j < off * 8 + b. j \<in> bits_of bs)"
        using b8 True off below [of _ b] by (simp add: bit_at_byte)
      moreover have "find_free_from bs off n = Some (int (off * 8 + b))"
        using True False off b by (subst find_free_from.simps) simp
      ultimately show ?thesis by blast
    qed
  qed
qed

lemma count_clear_bits_eq:
  "n \<le> 8 \<Longrightarrow> count_clear_bits x n = card {b. b < n \<and> \<not> bit x b}"
proof (induction n)
  case (Suc n)
  have "{b. b < Suc n \<and> \<not> bit x b} =
      (if bit x n then {b. b < n \<and> \<not> bit x b} else insert n {b. b < n \<and> \<not> bit x b})"
    by (auto simp: less_Suc_eq)
  with Suc show ?case by (simp add: card_insert_if)
qed simp

lemma clear_in_byte:
  "off < length bs \<Longrightarrow>
   card {i. off * 8 \<le> i \<and> i < Suc off * 8 \<and> i \<notin> bits_of bs} = count_clear_bits (bs ! off) 8"
proof -
  assume off: "off < length bs"
  have "{i. off * 8 \<le> i \<and> i < Suc off * 8 \<and> i \<notin> bits_of bs} =
      (\<lambda>b. off * 8 + b) ` {b. b < 8 \<and> \<not> bit (bs ! off) b}"
  proof (intro set_eqI iffI)
    fix i
    assume i: "i \<in> {i. off * 8 \<le> i \<and> i < Suc off * 8 \<and> i \<notin> bits_of bs}"
    then have "i = off * 8 + (i - off * 8)" "i - off * 8 < 8" by auto
    with i off bit_at_byte [of "i - off * 8" off bs]
    show "i \<in> (\<lambda>b. off * 8 + b) ` {b. b < 8 \<and> \<not> bit (bs ! off) b}" by force
  qed (use off in \<open>auto simp: bit_at_byte\<close>)
  then show ?thesis
    by (simp add: card_image count_clear_bits_eq)
qed

lemma count_clear_bits_full: "count_clear_bits 0xff 8 = 0"
proof -
  have "\<forall>j < 8. bit (0xff :: u8) j" by (rule byte_full_iff [THEN iffD1]) simp
  then show ?thesis by (simp add: count_clear_bits_eq)
qed

lemma count_free_from_spec:
  "off + n \<le> length bs \<Longrightarrow> count_free_from bs off n =
   Some (card {i. off * 8 \<le> i \<and> i < (off + n) * 8 \<and> i \<notin> bits_of bs})"
proof (induction bs off n rule: count_free_from.induct)
  case (2 bs off n)
  let ?A = "{i. off * 8 \<le> i \<and> i < Suc off * 8 \<and> i \<notin> bits_of bs}"
  let ?B = "{i. Suc off * 8 \<le> i \<and> i < (Suc off + n) * 8 \<and> i \<notin> bits_of bs}"
  have "{i. off * 8 \<le> i \<and> i < (off + Suc n) * 8 \<and> i \<notin> bits_of bs} = ?A \<union> ?B" by auto
  moreover have "card (?A \<union> ?B) = card ?A + card ?B"
    by (rule card_Un_disjoint) auto
  ultimately show ?case
    using 2 clear_in_byte [of off bs] by (simp add: count_clear_bits_full)
qed simp

lemma free_run_len_spec:
  assumes "free_run_len bs i n j = Some k" "j \<le> n" "unat i + unat n < 2 ^ 32"
  shows "j \<le> k \<and> k \<le> n \<and> (\<forall>t. unat j \<le> t \<and> t < unat k \<longrightarrow> unat i + t \<notin> bits_of bs)"
  using assms
proof (induction bs i n j rule: free_run_len.induct)
  case (1 bs i n j)
  show ?case
  proof (cases "j < n \<and> Is_Bit_Set bs (unat (i + j)) = Some False")
    case True
    then have jn: "j < n" and free: "Is_Bit_Set bs (unat (i + j)) = Some False" by auto
    have suc: "unat (j + 1) = Suc (unat j)" by (rule unat_inc [OF jn])
    have "unat j < unat n" using jn by (simp add: word_less_nat_alt)
    then have ij: "unat (i + j) = unat i + unat j"
      using 1(4) by (simp add: unat_word_ariths)
    have k: "free_run_len bs i n (j + 1) = Some k"
      using 1(2) True by (subst (asm) free_run_len.simps) simp
    have "j + 1 \<le> n" using suc jn by (simp add: word_le_nat_alt word_less_nat_alt)
    with 1(1) [of False] True k 1(4)
    have IH: "j + 1 \<le> k \<and> k \<le> n \<and> (\<forall>t. unat (j + 1) \<le> t \<and> t < unat k \<longrightarrow> unat i + t \<notin> bits_of bs)"
      by simp
    have "unat i + unat j \<notin> bits_of bs"
      using free ij by (cases "unat i + unat j < 8 * length bs") (auto simp: Is_Bit_Set_spec Is_Bit_Set_out)
    with IH suc show ?thesis
      by (auto simp: word_le_nat_alt) (metis Suc_leI le_neq_implies_less)
  next
    case False
    with 1(2,3) show ?thesis
      by (subst (asm) free_run_len.simps) (auto split: if_splits simp: bind_Some_iff)
  qed
qed

lemma find_run_from_spec:
  assumes "find_run_from bs n tot i = Some r" "1 \<le> n" "n \<le> tot" "unat tot < 2 ^ 31"
  shows "r = - 1 \<or> (\<exists>p. r = int p \<and> p + unat n < unat tot \<and> (\<forall>t < unat n. p + t \<notin> bits_of bs))"
  using assms
proof (induction bs n tot i rule: find_run_from.induct)
  case (1 bs n tot i)
  have sub: "unat (tot - n) = unat tot - unat n" using 1(5) by (simp add: unat_sub)
  show ?case
  proof (cases "i < tot - n \<and> Is_Bit_Set bs (unat i) = Some False \<and> free_run_len bs i n 1 = Some n")
    case True
    then have "i < tot - n" by simp
    then have i: "unat i + unat n < unat tot"
      using sub by (simp add: word_less_nat_alt less_diff_conv)
    then have small: "unat i + unat n < 2 ^ 32" "unat i < 2 ^ 31" using 1(6) by auto
    from True have "unat i \<notin> bits_of bs"
      by (cases "unat i < 8 * length bs") (auto simp: Is_Bit_Set_spec Is_Bit_Set_out)
    moreover have "\<forall>t. 1 \<le> t \<and> t < unat n \<longrightarrow> unat i + t \<notin> bits_of bs"
      using free_run_len_spec [of bs i n 1 n] True 1(4) small by auto
    ultimately have "\<forall>t < unat n. unat i + t \<notin> bits_of bs"
      by (metis One_nat_def Suc_leI add.right_neutral not_gr_zero)
    moreover have "r = int (unat i)"
      using 1(3) True small(2)
      by (subst (asm) find_run_from.simps) (simp add: sint_small)
    ultimately show ?thesis using i by blast
  next
    case False
    consider "r = - 1"
      | "i < tot - n" "Is_Bit_Set bs (unat i) = Some True" "find_run_from bs n tot (i + 1) = Some r"
      | j where "i < tot - n" "Is_Bit_Set bs (unat i) = Some False"
          "free_run_len bs i n 1 = Some j" "j \<noteq> n" "find_run_from bs n tot (i + 1) = Some r"
      using 1(3) False
      by (subst (asm) find_run_from.simps) (auto split: if_splits simp: bind_Some_iff)
    then show ?thesis
    proof cases
      case 2
      with 1(2) [of True] 1(4-6) show ?thesis by simp
    next
      case (3 j)
      with 1(1) [of False j] 1(4-6) show ?thesis by simp
    qed simp
  qed
qed

section \<open>Allocating slots\<close>

text \<open>
  Three structures of the kernel hand out numbered slots by searching for the first free
  one and marking it: the block bitmap of the filesystem (a bit set), the swap map of
  the paging file (an array of flags) and the table of segment descriptors.  Their shared
  contract:
\<close>

definition alloc_slot ::
  "('s \<Rightarrow> int kres) \<Rightarrow> ('s \<Rightarrow> nat \<Rightarrow> 's kres) \<Rightarrow> 's \<Rightarrow> (int \<times> 's) kres" where
  "alloc_slot search mark s = do {
     r \<leftarrow> search s;
     if r < 0 then Some (r, s) else do { s' \<leftarrow> mark s (nat r); Some (r, s') } }"

fun alloc_slots ::
  "('s \<Rightarrow> int kres) \<Rightarrow> ('s \<Rightarrow> nat \<Rightarrow> 's kres) \<Rightarrow> nat \<Rightarrow> 's \<Rightarrow> (int list \<times> 's) kres" where
  "alloc_slots search mark 0 s = Some ([], s)"
| "alloc_slots search mark (Suc n) s = do {
     (r, s) \<leftarrow> alloc_slot search mark s;
     (rs, s) \<leftarrow> alloc_slots search mark n s;
     Some (r # rs, s) }"

text \<open>The states that allocations and releases of held slots lead to, with the slots held.\<close>

inductive slot_reach ::
  "('s \<Rightarrow> int kres) \<Rightarrow> ('s \<Rightarrow> nat \<Rightarrow> 's kres) \<Rightarrow> ('s \<Rightarrow> nat \<Rightarrow> 's kres) \<Rightarrow>
   's \<Rightarrow> 's \<Rightarrow> nat set \<Rightarrow> bool"
  for search mark release s0 where
  slot_init: "slot_reach search mark release s0 s0 {}"
| slot_alloc: "slot_reach search mark release s0 s H \<Longrightarrow> alloc_slot search mark s = Some (int i, s') \<Longrightarrow>
    slot_reach search mark release s0 s' (insert i H)"
| slot_free: "slot_reach search mark release s0 s H \<Longrightarrow> i \<in> H \<Longrightarrow> release s i = Some s' \<Longrightarrow>
    slot_reach search mark release s0 s' (H - {i})"

locale slot_allocator =
  fixes ok :: "'s \<Rightarrow> bool"
    and cap :: "'s \<Rightarrow> nat"
    and used :: "'s \<Rightarrow> nat set"
    and search :: "'s \<Rightarrow> int kres"
    and mark release :: "'s \<Rightarrow> nat \<Rightarrow> 's kres"
  assumes search_spec: "ok s \<Longrightarrow> \<exists>r. search s = Some r \<and>
      (r = - 1 \<and> {..<cap s} \<subseteq> used s \<or>
       (\<exists>i. r = int i \<and> i < cap s \<and> i \<notin> used s \<and> {..<i} \<subseteq> used s))"
    and mark_spec: "ok s \<Longrightarrow> i < cap s \<Longrightarrow> i \<notin> used s \<Longrightarrow>
      \<exists>s'. mark s i = Some s' \<and> ok s' \<and> cap s' = cap s \<and> used s' = insert i (used s)"
    and release_spec: "ok s \<Longrightarrow> i < cap s \<Longrightarrow> i \<in> used s \<Longrightarrow>
      \<exists>s'. release s i = Some s' \<and> ok s' \<and> cap s' = cap s \<and> used s' = used s - {i}"
begin

lemma alloc_spec:
  assumes "ok s"
  shows "\<exists>r s'. alloc_slot search mark s = Some (r, s') \<and> ok s' \<and> cap s' = cap s \<and>
    (r = - 1 \<and> s' = s \<and> {..<cap s} \<subseteq> used s \<or>
     (\<exists>i. r = int i \<and> i < cap s \<and> i \<notin> used s \<and> {..<i} \<subseteq> used s \<and> used s' = insert i (used s)))"
proof -
  from search_spec [OF assms] obtain r where r: "search s = Some r"
    "r = - 1 \<and> {..<cap s} \<subseteq> used s \<or>
     (\<exists>i. r = int i \<and> i < cap s \<and> i \<notin> used s \<and> {..<i} \<subseteq> used s)" by blast
  from r(2) show ?thesis
  proof (elim disjE exE conjE)
    fix i assume "r = int i" "i < cap s" "i \<notin> used s" "{..<i} \<subseteq> used s"
    with mark_spec [OF assms, of i] r(1) show ?thesis by (auto simp: alloc_slot_def)
  qed (use assms r(1) in \<open>auto simp: alloc_slot_def\<close>)
qed

text \<open>Slots handed out one after the other are distinct, in range, and were free.\<close>

lemma allocs_distinct:
  "ok s \<Longrightarrow> alloc_slots search mark n s = Some (rs, s') \<Longrightarrow>
   distinct (filter (\<lambda>r. r \<ge> 0) rs) \<and>
   (\<forall>r\<in>set rs. r \<ge> 0 \<longrightarrow> nat r < cap s \<and> nat r \<notin> used s) \<and> used s \<subseteq> used s'"
proof (induction n arbitrary: s rs)
  case (Suc n)
  obtain r s1 where a: "alloc_slot search mark s = Some (r, s1)" "ok s1" "cap s1 = cap s"
    "r = - 1 \<and> s1 = s \<or> (\<exists>i. r = int i \<and> i < cap s \<and> i \<notin> used s \<and> used s1 = insert i (used s))"
    using alloc_spec [OF Suc.prems(1)] by blast
  with Suc.prems obtain rs' where rs': "alloc_slots search mark n s1 = Some (rs', s')" "rs = r # rs'"
    by (auto simp: bind_Some_iff)
  from Suc.IH [OF a(2) rs'(1)] a(3,4) rs'(2) show ?case by auto
qed simp

text \<open>A released slot can be handed out again: the search never goes past it.\<close>

lemma released_is_found:
  assumes "ok s" "i < cap s" "i \<in> used s" "release s i = Some s1"
  shows "\<exists>j s2. alloc_slot search mark s1 = Some (int j, s2) \<and> j \<le> i"
proof -
  from release_spec [OF assms(1-3)] assms(4)
  have s1: "ok s1" "cap s1 = cap s" "used s1 = used s - {i}" by auto
  from alloc_spec [OF s1(1)] obtain r s2 where "alloc_slot search mark s1 = Some (r, s2)"
    "r = - 1 \<and> {..<cap s1} \<subseteq> used s1 \<or> (\<exists>j. r = int j \<and> {..<j} \<subseteq> used s1)" by blast
  moreover have "i \<notin> used s1" "i < cap s1" using s1 assms(2) by auto
  ultimately show ?thesis by (metis lessThan_iff not_le_imp_less subset_iff)
qed

text \<open>Nothing is handed out twice: the slots in use are the ones in use at the start and the ones held.\<close>

lemma held_slots:
  assumes "slot_reach search mark release s0 s H" and "ok s0"
  shows "ok s \<and> cap s = cap s0 \<and> used s = used s0 \<union> H \<and> H \<inter> used s0 = {} \<and> H \<subseteq> {..<cap s0}"
  using assms
proof (induction rule: slot_reach.induct)
  case (slot_alloc s H i s')
  then have s: "ok s" "cap s = cap s0" "used s = used s0 \<union> H" "H \<inter> used s0 = {}" "H \<subseteq> {..<cap s0}"
    by auto
  from alloc_spec [OF s(1)] slot_alloc.hyps(2)
  have "ok s' \<and> cap s' = cap s \<and> i < cap s \<and> i \<notin> used s \<and> used s' = insert i (used s)" by auto
  with s show ?case by auto
next
  case (slot_free s H i s')
  then have s: "ok s" "cap s = cap s0" "used s = used s0 \<union> H" "H \<inter> used s0 = {}" "H \<subseteq> {..<cap s0}"
    by auto
  with slot_free.hyps(2) have "i < cap s" "i \<in> used s" by auto
  from release_spec [OF s(1) this] slot_free.hyps(3)
  have "ok s' \<and> cap s' = cap s \<and> used s' = used s - {i}" by auto
  with s slot_free.hyps(2) show ?case by auto
qed simp

lemma next_slot:
  assumes "slot_reach search mark release s0 s H" and "ok s0"
  shows "\<exists>r s'. alloc_slot search mark s = Some (r, s') \<and>
    (if {..<cap s0} \<subseteq> used s0 \<union> H then r = - 1 \<and> s' = s
     else \<exists>i. r = int i \<and> i < cap s0 \<and> i \<notin> used s0 \<union> H)"
proof -
  note h = held_slots [OF assms]
  then have "ok s" by simp
  from alloc_spec [OF this] h show ?thesis by (auto split: if_splits)
qed

end

text \<open>
  Where marking a marked slot and releasing a free one are harmless, a release needs no
  bookkeeping of its caller.
\<close>

locale idempotent_slots = slot_allocator +
  assumes mark_again: "ok s \<Longrightarrow> i < cap s \<Longrightarrow> i \<in> used s \<Longrightarrow>
      \<exists>s'. mark s i = Some s' \<and> ok s' \<and> cap s' = cap s \<and> used s' = used s"
    and release_free: "ok s \<Longrightarrow> i < cap s \<Longrightarrow> i \<notin> used s \<Longrightarrow>
      \<exists>s'. release s i = Some s' \<and> ok s' \<and> cap s' = cap s \<and> used s' = used s"
begin

lemma mark_total:
  "ok s \<Longrightarrow> i < cap s \<Longrightarrow>
   \<exists>s'. mark s i = Some s' \<and> ok s' \<and> cap s' = cap s \<and> used s' = insert i (used s)"
  using mark_spec [of s i] mark_again [of s i] by (cases "i \<in> used s") (auto simp: insert_absorb)

lemma release_total:
  "ok s \<Longrightarrow> i < cap s \<Longrightarrow>
   \<exists>s'. release s i = Some s' \<and> ok s' \<and> cap s' = cap s \<and> used s' = used s - {i}"
  using release_spec [of s i] release_free [of s i] by (cases "i \<in> used s") auto

text \<open>Taking a slot and giving it back leaves the used slots as they were.\<close>

lemma alloc_release:
  assumes "ok s" "alloc_slot search mark s = Some (int i, s1)"
  shows "\<exists>s2. release s1 i = Some s2 \<and> ok s2 \<and> cap s2 = cap s \<and> used s2 = used s"
proof -
  from alloc_spec [OF assms(1)] assms(2)
  have "ok s1" "cap s1 = cap s" "i < cap s" "i \<notin> used s" "used s1 = insert i (used s)" by auto
  with release_total [of s1 i] show ?thesis by (metis Diff_insert_absorb)
qed

end

text \<open>A bit set with the number of bits it was made for, as the callers pass them.\<close>

type_synonym bitmap = "u8 list \<times> nat"

definition bitmap_ok :: "bitmap \<Rightarrow> bool" where
  "bitmap_ok s \<longleftrightarrow> FIND_NUM_BYTES (snd s) \<le> length (fst s)"

definition bitmap_cap :: "bitmap \<Rightarrow> nat" where
  "bitmap_cap s = FIND_NUM_BYTES (snd s) * 8"

definition bitmap_find :: "bitmap \<Rightarrow> int kres" where
  "bitmap_find s = Find_First_Free_Bit (fst s) (snd s)"

definition bitmap_mark :: "bitmap \<Rightarrow> nat \<Rightarrow> bitmap kres" where
  "bitmap_mark s i = map_option (\<lambda>bs. (bs, snd s)) (Set_Bit (fst s) i)"

definition bitmap_release :: "bitmap \<Rightarrow> nat \<Rightarrow> bitmap kres" where
  "bitmap_release s i = map_option (\<lambda>bs. (bs, snd s)) (Clear_Bit (fst s) i)"

interpretation bitmap: idempotent_slots bitmap_ok bitmap_cap "\<lambda>s. bits_of (fst s)" bitmap_find
  bitmap_mark bitmap_release
proof unfold_locales
  fix s i
  assume ok: "bitmap_ok s"
  from find_free_from_spec [of "FIND_NUM_BYTES (snd s)" "fst s" 0] ok
  show "\<exists>r. bitmap_find s = Some r \<and>
      (r = - 1 \<and> {..<bitmap_cap s} \<subseteq> bits_of (fst s) \<or>
       (\<exists>i. r = int i \<and> i < bitmap_cap s \<and> i \<notin> bits_of (fst s) \<and> {..<i} \<subseteq> bits_of (fst s)))"
    by (auto simp: bitmap_ok_def bitmap_find_def Find_First_Free_Bit_def bitmap_cap_def subset_iff)
  assume "i < bitmap_cap s"
  with ok have i: "i < 8 * length (fst s)" by (auto simp: bitmap_ok_def bitmap_cap_def)
  have m: "\<exists>s'. bitmap_mark s i = Some s' \<and> bitmap_ok s' \<and> bitmap_cap s' = bitmap_cap s \<and>
      bits_of (fst s') = insert i (bits_of (fst s))"
    using Set_Bit_spec [OF i] ok by (auto simp: bitmap_mark_def bitmap_ok_def bitmap_cap_def)
  have r: "\<exists>s'. bitmap_release s i = Some s' \<and> bitmap_ok s' \<and> bitmap_cap s' = bitmap_cap s \<and>
      bits_of (fst s') = bits_of (fst s) - {i}"
    using Clear_Bit_spec [OF i] ok by (auto simp: bitmap_release_def bitmap_ok_def bitmap_cap_def)
  show "\<exists>s'. bitmap_mark s i = Some s' \<and> bitmap_ok s' \<and> bitmap_cap s' = bitmap_cap s \<and>
      bits_of (fst s') = insert i (bits_of (fst s))" by (rule m)
  show "\<exists>s'. bitmap_release s i = Some s' \<and> bitmap_ok s' \<and> bitmap_cap s' = bitmap_cap s \<and>
      bits_of (fst s') = bits_of (fst s) - {i}" by (rule r)
  { assume "i \<in> bits_of (fst s)"
    with m show "\<exists>s'. bitmap_mark s i = Some s' \<and> bitmap_ok s' \<and> bitmap_cap s' = bitmap_cap s \<and>
      bits_of (fst s') = bits_of (fst s)" by (simp add: insert_absorb) }
  { assume "i \<notin> bits_of (fst s)"
    with r show "\<exists>s'. bitmap_release s i = Some s' \<and> bitmap_ok s' \<and> bitmap_cap s' = bitmap_cap s \<and>
      bits_of (fst s') = bits_of (fst s)" by simp }
qed

section \<open>Properties\<close>

text \<open>C33: A first-fit allocation (\<open>Find_First_Free_Bit\<close>, then \<open>Set_Bit\<close>) either reports that
  every bit of the set's bytes is taken and changes nothing, or returns the lowest clear
  bit and sets exactly that bit.\<close>

theorem bitmap_first_fit:
  assumes "FIND_NUM_BYTES totalBits \<le> length bs"
  shows "\<exists>r bs'. alloc_slot (\<lambda>bs. Find_First_Free_Bit bs totalBits) Set_Bit bs = Some (r, bs') \<and>
    (r = - 1 \<and> bs' = bs \<and> {..<FIND_NUM_BYTES totalBits * 8} \<subseteq> bits_of bs \<or>
     (\<exists>i. r = int i \<and> i < FIND_NUM_BYTES totalBits * 8 \<and> i \<notin> bits_of bs \<and>
        {..<i} \<subseteq> bits_of bs \<and> bits_of bs' = insert i (bits_of bs)))"
proof -
  have "bitmap_ok (bs, totalBits)" using assms by (simp add: bitmap_ok_def)
  from bitmap.alloc_spec [OF this] obtain r s where
    "alloc_slot bitmap_find bitmap_mark (bs, totalBits) = Some (r, s)"
    and r: "r = - 1 \<and> s = (bs, totalBits) \<and> {..<bitmap_cap (bs, totalBits)} \<subseteq> bits_of bs \<or>
     (\<exists>i. r = int i \<and> i < bitmap_cap (bs, totalBits) \<and> i \<notin> bits_of bs \<and>
        {..<i} \<subseteq> bits_of bs \<and> bits_of (fst s) = insert i (bits_of bs))" by auto
  then have "alloc_slot (\<lambda>bs. Find_First_Free_Bit bs totalBits) Set_Bit bs = Some (r, fst s)"
    by (auto simp: alloc_slot_def bitmap_find_def bitmap_mark_def bind_Some_iff split: if_splits)
  with r show ?thesis unfolding bitmap_cap_def by (metis fst_conv snd_conv)
qed

lemma bitmap_first_fit_witness:
  "\<exists>r bs'. alloc_slot (\<lambda>bs. Find_First_Free_Bit bs 16) Set_Bit [0xff, 3] = Some (r, bs') \<and>
    (r = - 1 \<and> bs' = [0xff, 3] \<and> {..<FIND_NUM_BYTES 16 * 8} \<subseteq> bits_of [0xff, 3] \<or>
     (\<exists>i. r = int i \<and> i < FIND_NUM_BYTES 16 * 8 \<and> i \<notin> bits_of [0xff, 3] \<and>
        {..<i} \<subseteq> bits_of [0xff, 3] \<and> bits_of bs' = insert i (bits_of [0xff, 3])))"
  by (rule bitmap_first_fit) (simp add: FIND_NUM_BYTES_def)

text \<open>\<open>Get_Count_Of_ALL_Free_Bit\<close> counts the clear bits of all the set's bytes, padding
  bits beyond \<open>totalBits\<close> included; on a fresh set of a multiple of 8 bits that is every bit.\<close>

theorem free_count_exact:
  assumes "FIND_NUM_BYTES totalBits \<le> length bs"
  shows "Get_Count_Of_ALL_Free_Bit bs totalBits =
    Some (card ({..<FIND_NUM_BYTES totalBits * 8} - bits_of bs))"
proof -
  have "{i. 0 * 8 \<le> i \<and> i < (0 + FIND_NUM_BYTES totalBits) * 8 \<and> i \<notin> bits_of bs} =
      {..<FIND_NUM_BYTES totalBits * 8} - bits_of bs" by auto
  then show ?thesis
    using assms count_free_from_spec [of 0 "FIND_NUM_BYTES totalBits" bs]
    by (simp add: Get_Count_Of_ALL_Free_Bit_def)
qed

lemma free_count_exact_witness:
  "Get_Count_Of_ALL_Free_Bit [0xff, 3] 12 = Some (card ({..<FIND_NUM_BYTES 12 * 8} - bits_of [0xff, 3]))"
  by (rule free_count_exact) (simp add: FIND_NUM_BYTES_def)

text \<open>A run that \<open>Find_First_N_Free\<close> returns consists of clear bits and ends below the
  number of bits, in fact strictly: the search never returns a run that ends at the last bit.\<close>

theorem run_found_is_free:
  assumes "Find_First_N_Free bs n tot = Some r" "1 \<le> n" "n \<le> tot" "unat tot < 2 ^ 31"
  shows "r = - 1 \<or>
    (\<exists>p. r = int p \<and> p + unat n < unat tot \<and> (\<forall>t < unat n. p + t \<notin> bits_of bs))"
  using find_run_from_spec assms unfolding Find_First_N_Free_def by blast

lemma run_found_is_free_witness:
  "Find_First_N_Free [0xf1, 0] 3 16 = Some 1 \<and> ((1 :: int) = - 1 \<or>
    (\<exists>p. 1 = int p \<and> p + unat (3 :: u32) < unat (16 :: u32) \<and>
      (\<forall>t < unat (3 :: u32). p + t \<notin> bits_of [0xf1, 0])))"
proof -
  have "Find_First_N_Free [0xf1, 0] 3 16 = Some 1" by code_simp
  then show ?thesis using run_found_is_free [of "[0xf1, 0]" 3 16 1] by simp
qed

end
