(* ===== verification/Crc32.thy ===== *)
theory Crc32
  imports Prelude
begin

text \<open>
  The checksum of \<open>geekos/crc32.c\<close>: the table that \<open>Init_CRC32\<close> fills by combining
  earlier entries, the byte-at-a-time loop, and the bit-at-a-time register that both
  are to agree with.
\<close>

definition POLYNOMIAL :: u32 where
  "POLYNOMIAL = 0xedb88320"

section \<open>The table\<close>

function fill_row :: "u32 list \<Rightarrow> nat \<Rightarrow> nat \<Rightarrow> u32 \<Rightarrow> u32 list" where
  "fill_row t i j h =
     (if i \<noteq> 0 \<and> j < 256 then fill_row (t[i + j := t ! j XOR h]) i (j + 2 * i) h else t)"
  by pat_completeness auto
termination by (relation "measure (\<lambda>(t, i, j, h). 256 - j)") auto

declare fill_row.simps [simp del]

function fill_rows :: "u32 list \<Rightarrow> nat \<Rightarrow> u32 \<Rightarrow> u32 list" where
  "fill_rows t i h =
     (if i \<noteq> 0 then
        (let h = drop_bit 1 h XOR (if h AND 1 \<noteq> 0 then POLYNOMIAL else 0)
         in fill_rows (fill_row t i 0 h) (i div 2) h)
      else t)"
  by pat_completeness auto
termination by (relation "measure (\<lambda>(t, i, h). i)") auto

declare fill_rows.simps [simp del]

text \<open>The table is static, so zero before the first call.\<close>

definition Init_CRC32 :: "u32 list" where
  "Init_CRC32 = fill_rows ((replicate 256 0)[0 := 0]) 128 1"

section \<open>The checksum\<close>

fun crc_loop :: "u32 list \<Rightarrow> u32 \<Rightarrow> u8 list \<Rightarrow> u32" where
  "crc_loop t crc [] = crc"
| "crc_loop t crc (b # buf) =
     crc_loop t (drop_bit 8 crc XOR t ! unat ((crc XOR scast b) AND 0xff)) buf"

definition crc32 :: "u32 list \<Rightarrow> u32 \<Rightarrow> u8 list \<Rightarrow> u32 kres" where
  "crc32 t crc buf = do {
     KASSERT (t ! 255 \<noteq> 0);
     let crc = crc XOR 0xffffffff;
     Some (crc_loop t crc buf XOR 0xffffffff) }"

section \<open>The shift register\<close>

definition crc_bit :: "u32 \<Rightarrow> u32" where
  "crc_bit h = drop_bit 1 h XOR (if bit h 0 then POLYNOMIAL else 0)"

definition crc_byte :: "u32 \<Rightarrow> u8 \<Rightarrow> u32" where
  "crc_byte r b = (crc_bit ^^ 8) (r XOR ucast b)"

lemma crc_bit_xor: "crc_bit (x XOR y) = crc_bit x XOR crc_bit y"
  by (auto simp: crc_bit_def bit_xor_iff intro!: bit_word_eqI simp: bit_drop_bit_eq)

lemma crc_bits_xor: "(crc_bit ^^ n) (x XOR y) = (crc_bit ^^ n) x XOR (crc_bit ^^ n) y"
  by (induction n) (auto simp: crc_bit_xor)

lemma crc_bits_shift: "(\<And>i. i < n \<Longrightarrow> \<not> bit x i) \<Longrightarrow> (crc_bit ^^ n) x = drop_bit n x"
proof (induction n)
  case (Suc n)
  then have "(crc_bit ^^ n) x = drop_bit n x" by simp
  moreover have "\<not> bit (drop_bit n x) 0"
    using Suc.prems [of n] by (simp add: bit_drop_bit_eq)
  ultimately show ?case by (simp add: crc_bit_def [of "drop_bit n x"])
qed simp

text \<open>\<open>tbl k\<close> is what entry \<open>k\<close> of the table ought to be.\<close>

definition tbl :: "nat \<Rightarrow> u32" where
  "tbl k = (crc_bit ^^ 8) (of_nat k)"

lemma of_nat_add_disjoint:
  assumes "2 * 2 ^ k dvd j"
  shows "(of_nat (2 ^ k + j) :: u32) = of_nat (2 ^ k) XOR of_nat j"
proof -
  from assms obtain c where c: "j = 2 * 2 ^ k * c" by (elim dvdE)
  have "\<not> bit j k"
    by (simp add: bit_iff_odd c)
  then have "\<not> bit (of_nat j :: u32) k"
    using bit_word_of_int_iff [of "int j" k, where 'a = 32] by (simp add: bit_of_nat_iff_bit)
  then have "(of_nat (2 ^ k) :: u32) AND of_nat j = 0"
    by (auto intro!: bit_word_eqI simp: bit_and_iff bit_exp_iff)
  then show ?thesis
    by (simp add: disjunctive_add_eq_xor)
qed

lemma tbl_add: "2 * 2 ^ k dvd j \<Longrightarrow> tbl (2 ^ k + j) = tbl (2 ^ k) XOR tbl j"
  by (simp only: tbl_def of_nat_add_disjoint crc_bits_xor)

lemma tbl_pow: "k < 8 \<Longrightarrow> tbl (2 ^ k) = (crc_bit ^^ (8 - k)) 1"
proof -
  assume k: "k < 8"
  have "(crc_bit ^^ k) (of_nat (2 ^ k)) = drop_bit k (of_nat (2 ^ k))"
    by (rule crc_bits_shift) (simp add: bit_exp_iff)
  also have "\<dots> = (1 :: u32)"
    using k by (auto intro!: bit_word_eqI simp: bit_drop_bit_eq bit_exp_iff bit_1_iff)
  finally have step: "(crc_bit ^^ k) (of_nat (2 ^ k)) = 1" .
  have "tbl (2 ^ k) = (crc_bit ^^ (8 - k + k)) (of_nat (2 ^ k))"
    using k by (simp add: tbl_def)
  also have "\<dots> = (crc_bit ^^ (8 - k)) 1"
    by (simp only: funpow_add comp_apply step)
  finally show ?thesis .
qed

lemma fill_row_spec:
  assumes "length t = 256" "k < 8" "2 * 2 ^ k dvd j" "h = tbl (2 ^ k)"
    "\<And>n. n < 256 \<Longrightarrow> 2 * 2 ^ k dvd n \<or> 2 ^ k dvd n \<and> n < j \<Longrightarrow> t ! n = tbl n"
  shows "length (fill_row t (2 ^ k) j h) = 256 \<and>
    (\<forall>n < 256. 2 ^ k dvd n \<longrightarrow> fill_row t (2 ^ k) j h ! n = tbl n)"
  using assms
proof (induction t "2 ^ k :: nat" j h rule: fill_row.induct)
  case (1 t j h)
  show ?case
  proof (cases "j < 256")
    case False
    with "1.prems" show ?thesis by (simp add: fill_row.simps [of t "2 ^ k" j])
  next
    case True
    let ?t = "t[2 ^ k + j := t ! j XOR h]"
    have entry: "t ! j XOR h = tbl (2 ^ k + j)"
      using "1.prems"(3,4) "1.prems"(5) [of j] True tbl_add [of k j] by (simp add: xor.commute)
    have dv: "n = 2 ^ k + j" if "2 ^ k dvd n" "n < j + 2 * 2 ^ k" "\<not> 2 * 2 ^ k dvd n" "\<not> n < j" for n
    proof -
      from that(1) "1.prems"(3) obtain a b where ab: "n = 2 ^ k * a" "j = 2 * 2 ^ k * b"
        by (elim dvdE)
      with that have "2 ^ k * a < 2 ^ k * (2 * b + 2)" "\<not> a < 2 * b" "odd a"
        by (auto simp: algebra_simps)
      moreover from this(1) have "a < 2 * b + 2" by (simp del: mult_Suc_right)
      ultimately have "a = 2 * b + 1" by presburger
      with ab show ?thesis by (simp add: algebra_simps)
    qed
    have upd: "?t ! n = tbl n"
      if "n < 256" "2 * 2 ^ k dvd n \<or> 2 ^ k dvd n \<and> n < j + 2 * 2 ^ k" for n
    proof (cases "n = 2 ^ k + j")
      case True
      with entry that(1) "1.prems"(1) show ?thesis by simp
    next
      case False
      with that dv [of n] "1.prems"(5) [of n] show ?thesis by auto
    qed
    have "length (fill_row ?t (2 ^ k) (j + 2 * 2 ^ k) h) = 256 \<and>
        (\<forall>n < 256. 2 ^ k dvd n \<longrightarrow> fill_row ?t (2 ^ k) (j + 2 * 2 ^ k) h ! n = tbl n)"
      by (rule "1.hyps") (use True "1.prems" upd in auto)
    with True show ?thesis by (simp add: fill_row.simps [of t "2 ^ k" j])
  qed
qed

lemma fill_rows_spec:
  assumes "length t = 256" "k \<le> 8" "h = (crc_bit ^^ (8 - k)) 1"
    "\<And>n. n < 256 \<Longrightarrow> 2 ^ k dvd n \<Longrightarrow> t ! n = tbl n"
  shows "length (fill_rows t (2 ^ k div 2) h) = 256 \<and>
    (\<forall>n < 256. fill_rows t (2 ^ k div 2) h ! n = tbl n)"
  using assms
proof (induction k arbitrary: t h)
  case 0
  then show ?case by (simp add: fill_rows.simps [of t 0])
next
  case (Suc k)
  have h: "drop_bit 1 h XOR (if h AND 1 \<noteq> 0 then POLYNOMIAL else 0) = (crc_bit ^^ (8 - k)) 1"
  proof -
    have "drop_bit 1 h XOR (if h AND 1 \<noteq> 0 then POLYNOMIAL else 0) = crc_bit h"
      by (simp add: crc_bit_def and_one_eq bit_0 odd_iff_mod_2_eq_one)
    also have "\<dots> = (crc_bit ^^ Suc (8 - Suc k)) 1" by (simp add: Suc.prems(3))
    also have "Suc (8 - Suc k) = 8 - k" using Suc.prems(2) by simp
    finally show ?thesis .
  qed
  let ?h = "(crc_bit ^^ (8 - k)) 1"
  have row: "length (fill_row t (2 ^ k) 0 ?h) = 256 \<and>
      (\<forall>n < 256. 2 ^ k dvd n \<longrightarrow> fill_row t (2 ^ k) 0 ?h ! n = tbl n)"
    using Suc.prems by (intro fill_row_spec) (auto simp: tbl_pow)
  have "fill_rows t (2 ^ Suc k div 2) h = fill_rows (fill_row t (2 ^ k) 0 ?h) (2 ^ k div 2) ?h"
    by (subst fill_rows.simps) (simp only: Let_def h, simp)
  with Suc.IH [of "fill_row t (2 ^ k) 0 ?h" ?h] row Suc.prems(2) show ?case by simp
qed

lemma Init_CRC32_spec: "length Init_CRC32 = 256 \<and> (\<forall>n < 256. Init_CRC32 ! n = tbl n)"
proof -
  have z: "(crc_bit ^^ 8) 0 = 0"
    using crc_bits_shift [of 8 0] by simp
  have "length (fill_rows ((replicate 256 0)[0 := 0]) (2 ^ 8 div 2) 1) = 256 \<and>
     (\<forall>n < 256. fill_rows ((replicate 256 0)[0 := 0]) (2 ^ 8 div 2) 1 ! n = tbl n)"
    by (rule fill_rows_spec) (auto simp: tbl_def z dest: dvd_imp_le)
  then show ?thesis by (simp add: Init_CRC32_def)
qed

section \<open>The byte loop is the shift register\<close>

lemma bit_ff [simp]: "bit (0xff :: u32) n \<longleftrightarrow> n < 8"
proof -
  have "(0xff :: u32) = mask 8" by (simp add: mask_eq_exp_minus_1)
  then show ?thesis by (simp only: bit_mask_iff) auto
qed

lemma bit_ff_int [simp]: "bit (0xff :: int) n \<longleftrightarrow> n < 8"
proof -
  have "(0xff :: int) = mask 8" by (simp add: mask_eq_exp_minus_1)
  then show ?thesis by (simp only: bit_mask_iff) simp
qed

lemma crc_byte_table:
  "crc_byte r b = drop_bit 8 r XOR tbl (unat ((r XOR scast b) AND 0xff))"
proof -
  let ?x = "r XOR ucast b"
  have low: "(r XOR scast b) AND 0xff = ?x AND 0xff"
  proof (rule bit_word_eqI)
    fix n :: nat
    consider "n < 7" | "n = 7" | "8 \<le> n" by linarith
    then show "bit ((r XOR scast b) AND 0xff) n = bit (?x AND 0xff) n"
      by cases (auto simp: bit_and_iff bit_xor_iff bit_unsigned_iff bit_signed_iff min_def)
  qed
  define m :: u32 where "m = 0xff"
  have bm [simp]: "bit m n \<longleftrightarrow> n < 8" for n
    unfolding m_def by (rule bit_ff)
  have "?x = (?x AND NOT m) XOR (?x AND m)"
    by (rule bit_word_eqI) (auto simp: bit_and_iff bit_xor_iff bit_not_iff)
  then have "crc_byte r b = (crc_bit ^^ 8) (?x AND NOT m) XOR (crc_bit ^^ 8) (?x AND m)"
    unfolding crc_byte_def by (metis crc_bits_xor)
  also have "(crc_bit ^^ 8) (?x AND NOT m) = drop_bit 8 (?x AND NOT m)"
    by (rule crc_bits_shift) (auto simp: bit_and_iff bit_not_iff)
  also have "drop_bit 8 (?x AND NOT m) = drop_bit 8 r"
    by (rule bit_word_eqI)
       (auto simp: bit_and_iff bit_not_iff bit_xor_iff bit_drop_bit_eq bit_unsigned_iff
          dest: bit_imp_le_length)
  also have "(crc_bit ^^ 8) (?x AND m) = tbl (unat ((r XOR scast b) AND 0xff))"
    by (simp add: tbl_def low m_def)
  finally show ?thesis .
qed

lemma crc_index_bound: "unat ((x :: u32) AND 0xff) < 256"
proof -
  have "x AND 0xff \<le> 0xff" by (rule word_and_le1)
  then show ?thesis by (simp add: word_le_nat_alt)
qed

lemma crc_loop_register: "crc_loop Init_CRC32 r buf = foldl crc_byte r buf"
  by (induction buf arbitrary: r) (simp_all add: crc_byte_table Init_CRC32_spec crc_index_bound)

lemma crc_loop_append: "crc_loop t r (xs @ ys) = crc_loop t (crc_loop t r xs) ys"
  by (induction xs arbitrary: r) simp_all

lemma table_ready: "Init_CRC32 ! 255 \<noteq> 0"
proof -
  have "tbl 255 = 0x2d02ef8d"
    by code_simp
  then show ?thesis using Init_CRC32_spec by simp
qed

lemma xor_twice: "((x :: u32) XOR 0xffffffff) XOR 0xffffffff = x"
  by (simp add: xor.assoc)

section \<open>Properties\<close>

text \<open>C34: With the table that \<open>Init_CRC32\<close> builds, the table-driven \<open>crc32\<close> computes the
  bit-serial CRC-32 register (reflected polynomial 0xEDB88320, inverted before and after),
  for every buffer.\<close>

theorem crc32_is_register:
  "crc32 Init_CRC32 crc buf = Some (foldl crc_byte (crc XOR 0xffffffff) buf XOR 0xffffffff)"
  by (simp add: crc32_def table_ready crc_loop_register)

text \<open>The checksum can be computed piecewise: continuing from the checksum of the first
  part over the second part gives the checksum of the whole buffer.\<close>

theorem crc32_append:
  "crc32 Init_CRC32 crc (xs @ ys) =
     Option.bind (crc32 Init_CRC32 crc xs) (\<lambda>c. crc32 Init_CRC32 c ys)"
  by (simp add: crc32_def table_ready crc_loop_append xor_twice)

end
