(* ===== verification/Addr.thy ===== *)
theory Addr
  imports Prelude
begin

text \<open>
  Address arithmetic on the 32-bit target: \<open>geekos/range.h\<close>, the page helpers of
  \<open>geekos/mem.h\<close>, the index macros of \<open>geekos/paging.h\<close> and the sector rounding of
  \<open>geekos/blockdev.h\<close>.  All of it is modular arithmetic on \<open>ulong_t\<close>.
\<close>

abbreviation (input) "PAGE_POWER \<equiv> 12 :: nat"
abbreviation (input) "PAGE_SIZE \<equiv> 4096 :: u32"
abbreviation (input) "SECTOR_SIZE \<equiv> 512 :: u32"

definition PAGE_MASK :: u32 where
  "PAGE_MASK = NOT (push_bit PAGE_POWER 0xffffffff)"

section \<open>Range checks\<close>

definition Check_Range_Proper :: "u32 \<Rightarrow> u32 \<Rightarrow> bool" where
  "Check_Range_Proper start sz = (let sum = start + sz in start \<le> sum \<or> sum = 0)"

definition Check_Range_Under :: "u32 \<Rightarrow> u32 \<Rightarrow> u32 \<Rightarrow> bool" where
  "Check_Range_Under start sz bound =
     (if \<not> Check_Range_Proper start sz then False
      else start < bound \<and> start + sz \<le> bound)"

section \<open>Pages\<close>

definition Is_Page_Multiple :: "u32 \<Rightarrow> bool" where
  "Is_Page_Multiple addr \<longleftrightarrow> addr = addr AND NOT PAGE_MASK"

definition Round_Up_To_Page :: "u32 \<Rightarrow> u32" where
  "Round_Up_To_Page addr =
     (if addr AND PAGE_MASK \<noteq> 0 then (addr AND NOT PAGE_MASK) + PAGE_SIZE else addr)"

definition Round_Down_To_Page :: "u32 \<Rightarrow> u32" where
  "Round_Down_To_Page addr = addr AND NOT PAGE_MASK"

definition Page_Index :: "u32 \<Rightarrow> nat" where
  "Page_Index addr = unat (drop_bit PAGE_POWER addr)"

definition Get_Page_Address :: "nat \<Rightarrow> u32" where
  "Get_Page_Address index = push_bit PAGE_POWER (of_nat index)"

section \<open>Page-table indices\<close>

definition PAGE_DIRECTORY_INDEX :: "u32 \<Rightarrow> nat" where
  "PAGE_DIRECTORY_INDEX x = unat (drop_bit 22 x AND 0x3ff)"

definition PAGE_TABLE_INDEX :: "u32 \<Rightarrow> nat" where
  "PAGE_TABLE_INDEX x = unat (drop_bit 12 x AND 0x3ff)"

definition PAGE_ALLIGNED_ADDR :: "u32 \<Rightarrow> u32" where
  "PAGE_ALLIGNED_ADDR x = drop_bit 12 x"

definition PAGE_ADDR :: "u32 \<Rightarrow> u32" where
  "PAGE_ADDR x = push_bit 12 (PAGE_ALLIGNED_ADDR x)"

definition PAGE_ADDR_BY_IDX :: "u32 \<Rightarrow> u32 \<Rightarrow> u32" where
  "PAGE_ADDR_BY_IDX x y = push_bit 22 x + push_bit 12 y"

section \<open>Sectors\<close>

definition Round_Up_To_Block :: "u32 \<Rightarrow> u32" where
  "Round_Up_To_Block offset =
     (if offset mod SECTOR_SIZE = 0 then offset
      else offset + (SECTOR_SIZE - offset mod SECTOR_SIZE))"

definition Round_Down_To_Block :: "u32 \<Rightarrow> u32" where
  "Round_Down_To_Block offset =
     (if offset mod SECTOR_SIZE = 0 then offset else offset - offset mod SECTOR_SIZE)"

section \<open>What they compute\<close>

lemma PAGE_MASK_val: "PAGE_MASK = mask 12"
  by (simp add: PAGE_MASK_def mask_eq_exp_minus_1)

lemma and_PAGE_MASK: "unat (a AND PAGE_MASK) = unat a mod 4096"
  by (simp add: PAGE_MASK_val take_bit_eq_mask [symmetric] unsigned_take_bit_eq take_bit_eq_mod
      unat_mod_distrib)

lemma and_PAGE_MASK_eq_0: "a AND PAGE_MASK = 0 \<longleftrightarrow> unat a mod 4096 = 0"
  using and_PAGE_MASK [of a] by (metis unat_eq_0)

lemma and_not_PAGE_MASK: "unat (a AND NOT PAGE_MASK) = unat a div 4096 * 4096"
proof -
  have "(a AND NOT PAGE_MASK) AND (a AND PAGE_MASK) = 0"
    by (rule bit_word_eqI) (auto simp: bit_and_iff bit_not_iff)
  then have "(a AND NOT PAGE_MASK) + (a AND PAGE_MASK) = (a AND NOT PAGE_MASK) OR (a AND PAGE_MASK)"
    by (rule disjunctive_add_eq_or)
  also have "\<dots> = a"
    by (rule bit_word_eqI) (auto simp: bit_and_iff bit_not_iff bit_or_iff)
  finally have "a AND NOT PAGE_MASK = a - (a AND PAGE_MASK)"
    by (simp add: eq_diff_eq)
  moreover have "a AND PAGE_MASK \<le> a"
    by (simp add: word_le_nat_alt and_PAGE_MASK)
  ultimately have "unat (a AND NOT PAGE_MASK) = unat a - unat a mod 4096"
    by (simp add: unat_sub and_PAGE_MASK)
  then show ?thesis by (simp add: minus_mod_eq_div_mult)
qed

lemma Round_Down_To_Page_nat: "unat (Round_Down_To_Page a) = unat a div 4096 * 4096"
  by (simp add: Round_Down_To_Page_def and_not_PAGE_MASK)

lemma Is_Page_Multiple_dvd: "Is_Page_Multiple a \<longleftrightarrow> 4096 dvd unat a"
proof -
  have "Is_Page_Multiple a \<longleftrightarrow> unat a = unat a div 4096 * 4096"
    unfolding Is_Page_Multiple_def word_unat_eq_iff and_not_PAGE_MASK ..
  then show ?thesis by (metis dvd_div_mult_self dvd_triv_right)
qed

lemma Round_Up_To_Page_nat:
  assumes "unat a + 4095 < 2 ^ 32"
  shows "unat (Round_Up_To_Page a) = (unat a + 4095) div 4096 * 4096"
proof (cases "unat a mod 4096 = 0")
  case True
  then obtain k where "unat a = 4096 * k" by auto
  with True show ?thesis by (simp add: Round_Up_To_Page_def and_PAGE_MASK_eq_0)
next
  case False
  define q where "q = unat a div 4096"
  have eq: "(unat a + 4095) div 4096 = q + 1"
  proof -
    obtain r where r: "unat a mod 4096 = Suc r"
      using False by (cases "unat a mod 4096") auto
    moreover have "unat a mod 4096 < 4096" by simp
    ultimately have "r < 4096" by linarith
    moreover have "unat a + 4095 = (q + 1) * 4096 + r"
      using r div_mult_mod_eq [of "unat a" 4096] by (simp add: q_def)
    ultimately show ?thesis by simp
  qed
  moreover have "(unat a + 4095) div 4096 * 4096 \<le> unat a + 4095"
    by (rule div_times_less_eq_dividend)
  ultimately have "(q + 1) * 4096 \<le> unat a + 4095" by simp
  then have small: "(q + 1) * 4096 < 2 ^ 32"
    using assms by linarith
  have "unat (Round_Up_To_Page a) = (q * 4096 + 4096) mod 2 ^ 32"
    using False
    by (simp add: Round_Up_To_Page_def and_PAGE_MASK_eq_0 unat_word_ariths and_not_PAGE_MASK q_def)
  then show ?thesis using small eq by simp
qed

lemma Page_Index_nat: "Page_Index a = unat a div 4096"
  by (simp only: Page_Index_def unat_drop_bit_eq) (simp add: drop_bit_eq_div)

lemma Get_Page_Address_nat:
  assumes "i < 2 ^ 20"
  shows "unat (Get_Page_Address i) = i * 4096"
  using assms
  by (simp add: Get_Page_Address_def push_bit_eq_mult unat_word_ariths unsigned_of_nat
      take_bit_nat_eq_self)

lemma Page_Index_Address: "i < 2 ^ 20 \<Longrightarrow> Page_Index (Get_Page_Address i) = i"
  by (simp add: Page_Index_nat Get_Page_Address_nat)

lemma Check_Range_Under_exact:
  "Check_Range_Under start sz bound \<longleftrightarrow>
     unat start < unat bound \<and>
     (unat start + unat sz \<le> unat bound \<or> unat start + unat sz = 2 ^ 32)"
proof -
  have lt: "unat start < 2 ^ 32" "unat sz < 2 ^ 32" "unat bound < 2 ^ 32"
    using unat_lt_32 [of start] unat_lt_32 [of sz] unat_lt_32 [of bound] by simp_all
  have sum: "unat (start + sz) =
      (if unat start + unat sz < 2 ^ 32 then unat start + unat sz else unat start + unat sz - 2 ^ 32)"
    using lt by (simp add: unat_word_ariths mod_if)
  have z: "start + sz = 0 \<longleftrightarrow> unat (start + sz) = 0"
    by (simp only: unat_0_iff)
  show ?thesis
    unfolding Check_Range_Under_def Check_Range_Proper_def Let_def z
    using sum lt by (auto simp: word_le_nat_alt word_less_nat_alt)
qed

lemma mask_10: "(0x3ff :: u32) = mask 10"
  by (simp add: mask_eq_exp_minus_1)

lemma PAGE_TABLE_INDEX_nat: "PAGE_TABLE_INDEX x = unat x div 4096 mod 1024"
  by (simp only: PAGE_TABLE_INDEX_def mask_10 take_bit_eq_mask [symmetric] unsigned_take_bit_eq
      unat_drop_bit_eq) (simp add: drop_bit_eq_div take_bit_eq_mod)

lemma PAGE_DIRECTORY_INDEX_nat: "PAGE_DIRECTORY_INDEX x = unat x div 2 ^ 22"
proof -
  have "PAGE_DIRECTORY_INDEX x = unat x div 2 ^ 22 mod 2 ^ 10"
    by (simp only: PAGE_DIRECTORY_INDEX_def mask_10 take_bit_eq_mask [symmetric] unsigned_take_bit_eq
        unat_drop_bit_eq) (simp add: drop_bit_eq_div take_bit_eq_mod)
  moreover have "unat x div 2 ^ 22 < 2 ^ 10"
    using unat_lt_32 [of x] by (simp add: less_mult_imp_div_less)
  ultimately show ?thesis by simp
qed

lemma PAGE_ADDR_nat: "unat (PAGE_ADDR x) = unat x div 4096 * 4096"
proof -
  have "unat x div 4096 * 4096 < 2 ^ 32"
    using unat_lt_32 [of x] div_times_less_eq_dividend [of "unat x" 4096] by linarith
  then show ?thesis
    by (simp only: PAGE_ADDR_def PAGE_ALLIGNED_ADDR_def push_bit_eq_mult unat_word_ariths
        unat_drop_bit_eq) (simp add: drop_bit_eq_div)
qed

section \<open>Properties\<close>

text \<open>\<open>Check_Range_Under\<close> accepts a range exactly when it lies under the bound, or when
  it starts under the bound and ends at the very top of the 32-bit address space, where the
  sum wraps to 0 (so a range that reaches beyond the bound is accepted in that case).\<close>

theorem range_check_exact:
  "Check_Range_Under start sz bound \<longleftrightarrow>
     unat start < unat bound \<and>
     (unat start + unat sz \<le> unat bound \<or> unat start + unat sz = 2 ^ 32)"
  by (rule Check_Range_Under_exact)

text \<open>Page rounding and the page numbers of physical memory: rounding down and up
  give the nearest page boundaries below and above, and the address of a page of the
  4 GB space has the index of that page.\<close>

theorem page_rounding:
  assumes "unat a + 4095 < 2 ^ 32"
  shows "Is_Page_Multiple (Round_Up_To_Page a) \<and> Is_Page_Multiple (Round_Down_To_Page a) \<and>
    unat (Round_Down_To_Page a) \<le> unat a \<and> unat a \<le> unat (Round_Up_To_Page a) \<and>
    unat (Round_Up_To_Page a) < unat a + 4096 \<and>
    Get_Page_Address (Page_Index a) = Round_Down_To_Page a"
proof -
  let ?q = "(unat a + 4095) div 4096"
  have up: "unat (Round_Up_To_Page a) = ?q * 4096" by (rule Round_Up_To_Page_nat [OF assms])
  have "unat a + 4095 = ?q * 4096 + (unat a + 4095) mod 4096" by simp
  moreover have "(unat a + 4095) mod 4096 < 4096" by simp
  ultimately have "unat a \<le> ?q * 4096" "?q * 4096 < unat a + 4096" by linarith+
  moreover have "unat (Get_Page_Address (Page_Index a)) = unat a div 4096 * 4096"
  proof -
    have "unat a div 4096 < 2 ^ 20"
      using unat_lt_32 [of a] by (simp add: less_mult_imp_div_less)
    then show ?thesis by (simp add: Page_Index_nat Get_Page_Address_nat)
  qed
  ultimately show ?thesis
    by (simp add: Is_Page_Multiple_dvd up Round_Down_To_Page_nat word_unat_eq_iff)
qed

lemma page_rounding_witness:
  "Is_Page_Multiple (Round_Up_To_Page 5000) \<and> Is_Page_Multiple (Round_Down_To_Page 5000) \<and>
    unat (Round_Down_To_Page 5000) \<le> unat (5000 :: u32) \<and>
    unat (5000 :: u32) \<le> unat (Round_Up_To_Page 5000) \<and>
    unat (Round_Up_To_Page 5000) < unat (5000 :: u32) + 4096 \<and>
    Get_Page_Address (Page_Index 5000) = Round_Down_To_Page 5000"
  by (rule page_rounding) simp

end
