(* ===== verification/Mem.thy ===== *)
theory Mem
  imports Machine Addr DList
begin

text \<open>
  Physical memory allocation, \<open>geekos/mem.c\<close>.  The array \<open>g_pageList\<close> is a list of \<open>page\<close>
  records, a \<open>struct Page *\<close> is an index into it, the freelist is the sequence of the
  indices on it.  Addresses are 32-bit words.  The paging file's state, which
  \<open>Alloc_Pageable_Page\<close> and \<open>geekos/paging.c\<close> use, is part of the same record.
\<close>

section \<open>State\<close>

record page =
  flags :: u32
  clock :: int
  vaddr :: u32
  pg_entry :: u32

record vm_state = machine +
  pageList :: "page list"
  freeList :: "nat list"
  g_freePageCount :: u32
  g_totalFreePageCount :: u32
  s_numPages :: u32
  phys :: "nat \<Rightarrow> u32"
  swapMap :: "u8 list"
  totalPage :: u32
  startSector :: u32
  pagedisk :: "nat \<Rightarrow> nat \<Rightarrow> u32"

abbreviation (input) "PAGE_AVAIL \<equiv> 0 :: u32"
abbreviation (input) "PAGE_KERN \<equiv> 1 :: u32"
abbreviation (input) "PAGE_HW \<equiv> 2 :: u32"
abbreviation (input) "PAGE_ALLOCATED \<equiv> 4 :: u32"
abbreviation (input) "PAGE_UNUSED \<equiv> 8 :: u32"
abbreviation (input) "PAGE_HEAP \<equiv> 16 :: u32"
abbreviation (input) "PAGE_PAGEABLE \<equiv> 32 :: u32"
abbreviation (input) "PAGE_LOCKED \<equiv> 64 :: u32"

abbreviation (input) "ISA_HOLE_START \<equiv> 0xA0000 :: u32"
abbreviation (input) "ISA_HOLE_END \<equiv> 0x100000 :: u32"
abbreviation (input) "HIGHMEM_START \<equiv> 0x102000 :: u32"
abbreviation (input) "KERNEL_HEAP_SIZE \<equiv> 0x100000 :: u32"
abbreviation (input) "REST_OF_MEM_START \<equiv> 0x202000 :: u32"
abbreviation (input) "KERNEL_START_ADDR \<equiv> 0x10000 :: u32"
abbreviation (input) "sizeof_Page \<equiv> 24 :: u32"

text \<open>\<open>page->flags & f\<close>, \<open>page->flags |= f\<close> and \<open>page->flags &= ~f\<close>.\<close>

definition has_flag :: "u32 \<Rightarrow> page \<Rightarrow> bool" where
  "has_flag f p \<longleftrightarrow> flags p AND f \<noteq> 0"

definition set_flag :: "u32 \<Rightarrow> page \<Rightarrow> page" where
  "set_flag f p = p\<lparr>flags := flags p OR f\<rparr>"

definition clear_flag :: "u32 \<Rightarrow> page \<Rightarrow> page" where
  "clear_flag f p = p\<lparr>flags := flags p AND NOT f\<rparr>"

definition put_page :: "nat \<Rightarrow> page \<Rightarrow> vm_state \<Rightarrow> vm_state" where
  "put_page i p s = s\<lparr>pageList := (pageList s)[i := p]\<rparr>"

definition Get_Page :: "vm_state \<Rightarrow> u32 \<Rightarrow> (nat \<times> page) kres" where
  "Get_Page s addr = do { p \<leftarrow> aget (pageList s) (Page_Index addr); Some (Page_Index addr, p) }"

section \<open>Initialisation\<close>

text \<open>The loop over the range; both ends being page multiples, \<open>addr += PAGE_SIZE\<close> does not
  wrap, so the loop counter is a natural number.\<close>

function add_pages_from :: "nat \<Rightarrow> nat \<Rightarrow> u32 \<Rightarrow> vm_state \<Rightarrow> vm_state kres" where
  "add_pages_from addr endaddr fl s =
     (if addr < endaddr then do {
        (i, page) \<leftarrow> Get_Page s (of_nat addr);
        let s = put_page i (page\<lparr>flags := fl\<rparr>) s;
        s \<leftarrow> (if fl = PAGE_AVAIL then do {
                q \<leftarrow> Push_Back (freeList s) i;
                Some (s\<lparr>freeList := q, g_freePageCount := g_freePageCount s + 1\<rparr>) }
              else Some s);
        let s = put_page i (page\<lparr>flags := fl, clock := 0, vaddr := 0, pg_entry := 0\<rparr>) s;
        add_pages_from (addr + 4096) endaddr fl s }
      else Some s)"
  by pat_completeness auto
termination by (relation "measure (\<lambda>(addr, endaddr, fl, s). endaddr - addr)") auto

declare add_pages_from.simps [simp del]

definition Add_Page_Range :: "u32 \<Rightarrow> u32 \<Rightarrow> u32 \<Rightarrow> vm_state \<Rightarrow> vm_state kres" where
  "Add_Page_Range start endaddr fl s = do {
     KASSERT (Is_Page_Multiple start);
     KASSERT (Is_Page_Multiple endaddr);
     KASSERT (start < endaddr);
     add_pages_from (unat start) (unat endaddr) fl s }"

text \<open>\<open>kend\<close> is the address of the linker's symbol \<open>end\<close>; \<open>raw\<close> is what memory holds where
  the page array is put (it is not cleared).  \<open>Init_GDT\<close>, \<open>Init_Heap\<close> and \<open>Print\<close> do not
  touch this state.\<close>

definition Init_Mem :: "u32 \<Rightarrow> (nat \<Rightarrow> page) \<Rightarrow> int \<Rightarrow> vm_state \<Rightarrow> vm_state kres" where
  "Init_Mem kend raw memSizeKB s = do {
     let numPages = (word_of_int (memSizeKB div 4) :: u32);
     let endOfMem = numPages * PAGE_SIZE;
     let numPageListBytes = sizeof_Page * numPages;
     KASSERT (memSizeKB > 0);
     let hugeMem = numPageListBytes > ISA_HOLE_START - Round_Up_To_Page kend;
     kernEnd \<leftarrow>
       (if hugeMem then do {
          KASSERT (PAGE_ADDR (HIGHMEM_START + KERNEL_HEAP_SIZE) = HIGHMEM_START + KERNEL_HEAP_SIZE);
          Some (Round_Up_To_Page kend) }
        else Some (Round_Up_To_Page (Round_Up_To_Page kend + numPageListBytes)));
     let s = s\<lparr>pageList := map raw [0..<unat numPages], s_numPages := numPages\<rparr>;
     s \<leftarrow> Add_Page_Range 0 PAGE_SIZE PAGE_UNUSED s;
     s \<leftarrow> Add_Page_Range PAGE_SIZE KERNEL_START_ADDR PAGE_AVAIL s;
     s \<leftarrow> Add_Page_Range KERNEL_START_ADDR kernEnd PAGE_KERN s;
     s \<leftarrow> Add_Page_Range kernEnd ISA_HOLE_START PAGE_AVAIL s;
     s \<leftarrow> Add_Page_Range ISA_HOLE_START ISA_HOLE_END PAGE_HW s;
     s \<leftarrow> Add_Page_Range ISA_HOLE_END HIGHMEM_START PAGE_ALLOCATED s;
     s \<leftarrow> Add_Page_Range HIGHMEM_START (HIGHMEM_START + KERNEL_HEAP_SIZE) PAGE_HEAP s;
     s \<leftarrow> (if hugeMem then do {
             s \<leftarrow> Add_Page_Range REST_OF_MEM_START (REST_OF_MEM_START + numPageListBytes) PAGE_KERN s;
             Add_Page_Range (REST_OF_MEM_START + numPageListBytes) endOfMem PAGE_AVAIL s }
           else Add_Page_Range REST_OF_MEM_START endOfMem PAGE_AVAIL s);
     Some (s\<lparr>g_totalFreePageCount := g_freePageCount s\<rparr>) }"

section \<open>Allocation\<close>

definition Alloc_Page :: "vm_state \<Rightarrow> (u32 \<times> vm_state) kres" where
  "Alloc_Page s = do {
     (iflag, s) \<leftarrow> Begin_Int_Atomic s;
     (result, s) \<leftarrow>
       (if freeList s \<noteq> [] then do {
          let i = hd (freeList s);
          page \<leftarrow> aget (pageList s) i;
          KASSERT (\<not> has_flag PAGE_ALLOCATED page);
          (_, q) \<leftarrow> Pop_Front (freeList s);
          let s = put_page i (set_flag PAGE_ALLOCATED page) (s\<lparr>freeList := q\<rparr>);
          Some (Get_Page_Address i, s\<lparr>g_freePageCount := g_freePageCount s - 1\<rparr>) }
        else Some (0, s));
     s \<leftarrow> End_Int_Atomic iflag s;
     Some (result, s) }"

definition Free_Page :: "u32 \<Rightarrow> vm_state \<Rightarrow> vm_state kres" where
  "Free_Page addr s = do {
     (iflag, s) \<leftarrow> Begin_Int_Atomic s;
     KASSERT (Is_Page_Multiple addr);
     (i, page) \<leftarrow> Get_Page s addr;
     KASSERT (has_flag PAGE_ALLOCATED page);
     let page = clear_flag PAGE_ALLOCATED page;
     if has_flag PAGE_LOCKED page then Some (put_page i page s)
     else do {
       let page = clear_flag PAGE_PAGEABLE page;
       let s = put_page i page s;
       q \<leftarrow> Push_Back (freeList s) i;
       let s = s\<lparr>freeList := q, g_freePageCount := g_freePageCount s + 1\<rparr>;
       End_Int_Atomic iflag s } }"

text \<open>The scan for a page to evict, from index \<open>i\<close> on, \<open>best\<close> being the choice so far.\<close>

fun find_victim :: "page list \<Rightarrow> nat \<Rightarrow> (nat \<times> page) option \<Rightarrow> (nat \<times> page) option" where
  "find_victim [] i best = best"
| "find_victim (p # ps) i best =
     (if has_flag PAGE_PAGEABLE p \<and> has_flag PAGE_ALLOCATED p then
        let best = (case best of None \<Rightarrow> (i, p) | Some b \<Rightarrow> b) in
        find_victim ps (Suc i)
          (Some (if clock p < clock (snd best) \<and> has_flag PAGE_PAGEABLE p then (i, p) else best))
      else find_victim ps (Suc i) best)"

definition Find_Page_To_Page_Out :: "vm_state \<Rightarrow> nat option" where
  "Find_Page_To_Page_Out s = map_option fst (find_victim (pageList s) 0 None)"

section \<open>The allocator's invariant\<close>

definition on_freelist_ok :: "page \<Rightarrow> bool" where
  "on_freelist_ok p \<longleftrightarrow>
     \<not> has_flag PAGE_ALLOCATED p \<and> \<not> has_flag PAGE_PAGEABLE p \<and> \<not> has_flag PAGE_LOCKED p"

text \<open>A free page is on the list once, is not in use, and the counter counts the list; a
  page that is not on the list is in use, except one that was freed while locked.  Frame 0
  is never free, so the address 0 is no page.\<close>

definition mem_ok :: "vm_state \<Rightarrow> bool" where
  "mem_ok s \<longleftrightarrow> distinct (freeList s) \<and> length (pageList s) < 2 ^ 20 \<and>
     (\<forall>i\<in>set (freeList s). 0 < i \<and> i < length (pageList s) \<and> on_freelist_ok (pageList s ! i)) \<and>
     unat (g_freePageCount s) = length (freeList s)"

section \<open>Flags\<close>

lemma has_flag_exp: "has_flag (2 ^ j) p \<longleftrightarrow> bit (flags p) j"
  by (simp add: has_flag_def and_exp_eq_0_iff_not_bit)

lemma has_set_flag_exp:
  "j < 32 \<Longrightarrow> has_flag (2 ^ j) (set_flag (2 ^ k) p) \<longleftrightarrow> has_flag (2 ^ j) p \<or> j = k"
  by (auto simp: has_flag_exp set_flag_def bit_or_iff bit_exp_iff)

lemma has_clear_flag_exp:
  "j < 32 \<Longrightarrow> has_flag (2 ^ j) (clear_flag (2 ^ k) p) \<longleftrightarrow> has_flag (2 ^ j) p \<and> j \<noteq> k"
  by (auto simp: has_flag_exp clear_flag_def bit_and_iff bit_not_iff bit_exp_iff)

lemma flag_vals: "(4 :: u32) = 2 ^ 2" "(32 :: u32) = 2 ^ 5" "(64 :: u32) = 2 ^ 6"
  by simp_all

lemma flag_pos: "(2 :: nat) < 32" "(5 :: nat) < 32" "(6 :: nat) < 32"
  "(2 :: nat) \<noteq> 5" "(2 :: nat) \<noteq> 6" "(5 :: nat) \<noteq> 2" "(5 :: nat) \<noteq> 6" "(6 :: nat) \<noteq> 2" "(6 :: nat) \<noteq> 5"
  by simp_all

lemma flag_ops [simp]:
  "has_flag 4 (set_flag 4 p)" "has_flag 32 (set_flag 4 p) = has_flag 32 p"
  "has_flag 64 (set_flag 4 p) = has_flag 64 p"
  "has_flag 4 (set_flag 32 p) = has_flag 4 p" "has_flag 32 (set_flag 32 p)"
  "has_flag 64 (set_flag 32 p) = has_flag 64 p"
  "has_flag 4 (set_flag 64 p) = has_flag 4 p" "has_flag 32 (set_flag 64 p) = has_flag 32 p"
  "has_flag 64 (set_flag 64 p)"
  "\<not> has_flag 4 (clear_flag 4 p)" "has_flag 32 (clear_flag 4 p) = has_flag 32 p"
  "has_flag 64 (clear_flag 4 p) = has_flag 64 p"
  "has_flag 4 (clear_flag 32 p) = has_flag 4 p" "\<not> has_flag 32 (clear_flag 32 p)"
  "has_flag 64 (clear_flag 32 p) = has_flag 64 p"
  "has_flag 4 (clear_flag 64 p) = has_flag 4 p" "has_flag 32 (clear_flag 64 p) = has_flag 32 p"
  "\<not> has_flag 64 (clear_flag 64 p)"
  by (simp_all only: flag_vals has_set_flag_exp has_clear_flag_exp flag_pos simp_thms)

text \<open>The flags of a page do not depend on its other members.\<close>

lemma has_flag_upd [simp]:
  "has_flag f (p\<lparr>clock := c\<rparr>) = has_flag f p" "has_flag f (p\<lparr>vaddr := v\<rparr>) = has_flag f p"
  "has_flag f (p\<lparr>pg_entry := e\<rparr>) = has_flag f p"
  by (simp_all add: has_flag_def)

lemma put_page_simps [simp]:
  "pageList (put_page i p s) = (pageList s)[i := p]" "freeList (put_page i p s) = freeList s"
  "g_freePageCount (put_page i p s) = g_freePageCount s" "int_flag (put_page i p s) = int_flag s"
  "phys (put_page i p s) = phys s" "swapMap (put_page i p s) = swapMap s"
  "totalPage (put_page i p s) = totalPage s" "startSector (put_page i p s) = startSector s"
  "pagedisk (put_page i p s) = pagedisk s" "s_numPages (put_page i p s) = s_numPages s"
  by (simp_all add: put_page_def)

section \<open>Allocating and freeing\<close>

lemma mem_okD:
  assumes "mem_ok s" "i \<in> set (freeList s)"
  shows "0 < i" "i < length (pageList s)" "on_freelist_ok (pageList s ! i)" "i < 2 ^ 20"
  using assms by (auto simp: mem_ok_def)

lemma Page_Index_lt: "Page_Index a < 2 ^ 20"
  using unat_lt_32 [of a] by (simp add: Page_Index_nat less_mult_imp_div_less)

lemma Get_Page_Address_eq_0: "i < 2 ^ 20 \<Longrightarrow> Get_Page_Address i = 0 \<longleftrightarrow> i = 0"
proof -
  assume "i < 2 ^ 20"
  from Get_Page_Address_nat [OF this] show ?thesis
    by (simp add: word_unat_eq_iff)
qed

lemma Is_Page_Multiple_Get_Page_Address [simp]: "i < 2 ^ 20 \<Longrightarrow> Is_Page_Multiple (Get_Page_Address i)"
  by (simp add: Is_Page_Multiple_dvd Get_Page_Address_nat)

text \<open>The two outcomes of \<open>Alloc_Page\<close>.\<close>

lemma Alloc_Page_empty:
  "freeList s = [] \<Longrightarrow> Alloc_Page s = Some (0, s)"
  by (simp add: Alloc_Page_def)

lemma Alloc_Page_Cons:
  assumes "mem_ok s" "freeList s = i # q"
  shows "Alloc_Page s = Some (Get_Page_Address i,
    s\<lparr>freeList := q, pageList := (pageList s)[i := set_flag PAGE_ALLOCATED (pageList s ! i)],
      g_freePageCount := g_freePageCount s - 1\<rparr>)"
proof -
  have "i < length (pageList s)" "\<not> has_flag PAGE_ALLOCATED (pageList s ! i)"
    using mem_okD [of s i] assms by (auto simp: on_freelist_ok_def)
  then show ?thesis by (simp add: Alloc_Page_def assms(2) put_page_def)
qed

lemma count_dec: "unat (c :: u32) = Suc n \<Longrightarrow> unat (c - 1) = n"
  by (metis Suc_n_not_le_n diff_Suc_1 nat_le_linear unat_1 unat_minus_one unsigned_eq_0_iff zero_le)

lemma count_inc: "unat (c :: u32) = n \<Longrightarrow> n < 2 ^ 20 \<Longrightarrow> unat (c + 1) = Suc n"
  by (simp add: unat_word_ariths)

lemma Alloc_Page_ok:
  assumes "mem_ok s" "freeList s = i # q" "Alloc_Page s = Some (a, s')"
  shows "mem_ok s'"
proof -
  have eq: "s' = s\<lparr>freeList := q,
      pageList := (pageList s)[i := set_flag PAGE_ALLOCATED (pageList s ! i)],
      g_freePageCount := g_freePageCount s - 1\<rparr>"
    using Alloc_Page_Cons [OF assms(1,2)] assms(3) by simp
  have "unat (g_freePageCount s - 1) = length q"
    using assms(1,2) by (intro count_dec) (simp add: mem_ok_def)
  then show ?thesis
    using assms(1,2) by (auto simp: eq mem_ok_def nth_list_update)
qed

text \<open>The number of free pages is below the number of pages, so the counter does not wrap.\<close>

lemma freeList_length:
  assumes "mem_ok s"
  shows "length (freeList s) < 2 ^ 20"
proof -
  have "set (freeList s) \<subseteq> {..<length (pageList s)}" using assms by (auto simp: mem_ok_def)
  then have "card (set (freeList s)) \<le> card {..<length (pageList s)}"
    by (intro card_mono) simp_all
  then have "length (freeList s) \<le> length (pageList s)"
    using assms distinct_card [of "freeList s"] by (simp add: mem_ok_def)
  then show ?thesis using assms by (simp add: mem_ok_def)
qed

lemma Free_Page_eq:
  assumes "mem_ok s" "Is_Page_Multiple addr" "Page_Index addr = i" "i < length (pageList s)"
    "has_flag PAGE_ALLOCATED (pageList s ! i)" "\<not> has_flag PAGE_LOCKED (pageList s ! i)"
  shows "Free_Page addr s = Some (s\<lparr>freeList := freeList s @ [i],
      pageList := (pageList s)[i := clear_flag PAGE_PAGEABLE (clear_flag PAGE_ALLOCATED (pageList s ! i))],
      g_freePageCount := g_freePageCount s + 1\<rparr>)"
proof -
  have "i \<notin> set (freeList s)"
    using assms(1,5) by (auto simp: mem_ok_def on_freelist_ok_def)
  then show ?thesis
    using assms by (simp add: Free_Page_def Get_Page_def put_page_def)
qed

lemma Free_Page_ok:
  assumes "mem_ok s" "Is_Page_Multiple addr" "Page_Index addr = i" "0 < i" "i < length (pageList s)"
    "has_flag PAGE_ALLOCATED (pageList s ! i)" "\<not> has_flag PAGE_LOCKED (pageList s ! i)"
    "Free_Page addr s = Some s'"
  shows "mem_ok s'"
proof -
  have "i \<notin> set (freeList s)"
    using assms(1,6) by (auto simp: mem_ok_def on_freelist_ok_def)
  moreover have "unat (g_freePageCount s + 1) = Suc (length (freeList s))"
    using assms(1) freeList_length by (intro count_inc) (simp_all add: mem_ok_def)
  moreover have "s' = s\<lparr>freeList := freeList s @ [i],
      pageList := (pageList s)[i := clear_flag PAGE_PAGEABLE (clear_flag PAGE_ALLOCATED (pageList s ! i))],
      g_freePageCount := g_freePageCount s + 1\<rparr>"
    using Free_Page_eq [OF assms(1-3,5-7)] assms(8) by simp
  ultimately show ?thesis
    using assms(1,4,5,7) by (auto simp: mem_ok_def nth_list_update on_freelist_ok_def)
qed

section \<open>Initialisation fills the page array\<close>

definition fill_pages :: "nat \<Rightarrow> nat \<Rightarrow> u32 \<Rightarrow> page list \<Rightarrow> page list" where
  "fill_pages a b fl pl =
     map (\<lambda>i. if a \<le> i \<and> i < b then \<lparr>flags = fl, clock = 0, vaddr = 0, pg_entry = 0\<rparr> else pl ! i)
       [0..<length pl]"

lemma fill_pages_simps [simp]:
  "length (fill_pages a b fl pl) = length pl"
  "i < length pl \<Longrightarrow> fill_pages a b fl pl ! i =
     (if a \<le> i \<and> i < b then \<lparr>flags = fl, clock = 0, vaddr = 0, pg_entry = 0\<rparr> else pl ! i)"
  by (simp_all add: fill_pages_def)

lemma fill_pages_step:
  "a < b \<Longrightarrow> a < length pl \<Longrightarrow>
   fill_pages (Suc a) b fl (pl[a := \<lparr>flags = fl, clock = 0, vaddr = 0, pg_entry = 0\<rparr>]) = fill_pages a b fl pl"
  by (rule nth_equalityI) (auto simp: nth_list_update)

lemma page_full:
  "p\<lparr>flags := fl, clock := c, vaddr := v, pg_entry := e\<rparr> = \<lparr>flags = fl, clock = c, vaddr = v, pg_entry = e\<rparr>"
  by (cases p) simp

text \<open>What one range adds to the state.\<close>

definition add_range :: "nat \<Rightarrow> nat \<Rightarrow> u32 \<Rightarrow> vm_state \<Rightarrow> vm_state" where
  "add_range a b fl s = s\<lparr>pageList := fill_pages a b fl (pageList s),
     freeList := freeList s @ (if fl = PAGE_AVAIL then [a..<b] else []),
     g_freePageCount := g_freePageCount s + of_nat (if fl = PAGE_AVAIL then b - a else 0)\<rparr>"

lemma Get_Page_frame:
  assumes "a < length (pageList s)" "a < 2 ^ 20"
  shows "Get_Page s (word_of_nat a * 4096) = Some (a, pageList s ! a)"
proof -
  have "unat (word_of_nat a * 4096 :: u32) = a * 4096"
    using assms(2) by (simp add: unat_word_ariths unsigned_of_nat take_bit_nat_eq_self)
  then have "Page_Index (word_of_nat a * 4096) = a" by (simp add: Page_Index_nat)
  with assms(1) show ?thesis by (simp add: Get_Page_def)
qed

lemma add_pages_from_eq:
  assumes "a \<le> b" "b \<le> length (pageList s)" "b < 2 ^ 20" "set (freeList s) \<inter> {a..<b} = {}"
  shows "add_pages_from (a * 4096) (b * 4096) fl s = Some (add_range a b fl s)"
  using assms
proof (induction "b - a" arbitrary: a s)
  case 0
  then have "fill_pages a b fl (pageList s) = pageList s" by (intro nth_equalityI) auto
  with 0 show ?case by (subst add_pages_from.simps) (simp add: add_range_def)
next
  case (Suc n)
  then have ab: "a < b" and n: "n = b - Suc a" by simp_all
  let ?p = "\<lparr>flags = fl, clock = 0, vaddr = 0, pg_entry = 0\<rparr>"
  let ?s = "(if fl = 0 then s\<lparr>freeList := freeList s @ [a], g_freePageCount := g_freePageCount s + 1\<rparr>
      else s)\<lparr>pageList := (pageList s)[a := ?p]\<rparr>"
  have "a \<notin> set (freeList s)" using Suc.prems(4) ab by (auto simp: disjoint_iff)
  then have "add_pages_from (a * 4096) (b * 4096) fl s = add_pages_from (Suc a * 4096) (b * 4096) fl ?s"
    using Suc.prems ab
    by (subst add_pages_from.simps) (simp add: Get_Page_frame put_page_def page_full add.commute)
  also have "\<dots> = Some (add_range (Suc a) b fl ?s)"
    using Suc.prems ab by (intro Suc.hyps(1) n) auto
  also have "add_range (Suc a) b fl ?s = add_range a b fl s"
    using ab Suc.prems by (simp add: add_range_def fill_pages_step upt_conv_Cons algebra_simps)
  finally show ?case .
qed

lemma Add_Page_Range_eq:
  assumes "unat x = a * 4096" "unat y = b * 4096" "a < b" "b \<le> length (pageList s)" "b < 2 ^ 20"
    "set (freeList s) \<inter> {a..<b} = {}"
  shows "Add_Page_Range x y fl s = Some (add_range a b fl s)"
  using assms add_pages_from_eq [of a b s fl]
  by (simp add: Add_Page_Range_def Is_Page_Multiple_dvd word_less_nat_alt)

lemma add_range_simps [simp]:
  "length (pageList (add_range a b fl s)) = length (pageList s)"
  "freeList (add_range a b fl s) = freeList s @ (if fl = PAGE_AVAIL then [a..<b] else [])"
  "g_freePageCount (add_range a b fl s) =
     g_freePageCount s + of_nat (if fl = PAGE_AVAIL then b - a else 0)"
  "i < length (pageList s) \<Longrightarrow> pageList (add_range a b fl s) ! i =
     (if a \<le> i \<and> i < b then \<lparr>flags = fl, clock = 0, vaddr = 0, pg_entry = 0\<rparr> else pageList s ! i)"
  "int_flag (add_range a b fl s) = int_flag s"
  by (simp_all add: add_range_def)

section \<open>The page to evict\<close>

definition evictable :: "page \<Rightarrow> bool" where
  "evictable p \<longleftrightarrow> has_flag PAGE_PAGEABLE p \<and> has_flag PAGE_ALLOCATED p"

definition least_clock :: "(nat \<times> page) option \<Rightarrow> (nat \<times> page) set \<Rightarrow> bool" where
  "least_clock r S = (case r of None \<Rightarrow> S = {}
     | Some x \<Rightarrow> x \<in> S \<and> (\<forall>y\<in>S. clock (snd x) \<le> clock (snd y)))"

definition candidates :: "nat \<Rightarrow> page list \<Rightarrow> (nat \<times> page) set" where
  "candidates i ps = {x \<in> set (enumerate i ps). evictable (snd x)}"

lemma candidates_simps [simp]:
  "candidates i [] = {}"
  "candidates i (p # ps) =
     (if evictable p then insert (i, p) (candidates (Suc i) ps) else candidates (Suc i) ps)"
  by (auto simp: candidates_def)

lemma least_clock_replace:
  assumes "least_clock r (insert n T)" "n \<in> S" "\<forall>y\<in>S. clock (snd n) \<le> clock (snd y)"
  shows "least_clock r (S \<union> T)"
proof -
  obtain x where x: "r = Some x" "x \<in> insert n T" "clock (snd x) \<le> clock (snd n)"
    "\<forall>y\<in>T. clock (snd x) \<le> clock (snd y)"
    using assms(1) by (auto simp: least_clock_def split: option.splits)
  then have "x \<in> S \<union> T" "\<forall>y\<in>S \<union> T. clock (snd x) \<le> clock (snd y)"
    using assms(2,3) by (auto intro: order_trans)
  with x(1) show ?thesis by (simp add: least_clock_def)
qed

lemma find_victim_spec:
  "least_clock (find_victim ps i best) (set_option best \<union> candidates i ps)"
proof (induction ps i best rule: find_victim.induct)
  case (1 i best)
  then show ?case by (cases best) (auto simp: least_clock_def)
next
  case (2 p ps i best)
  let ?c = "has_flag PAGE_PAGEABLE p \<and> has_flag PAGE_ALLOCATED p"
  show ?case
  proof (cases ?c)
    case False
    then have "find_victim (p # ps) i best = find_victim ps (Suc i) best" "\<not> evictable p"
      by (auto simp: evictable_def)
    with 2(2) [OF False] show ?thesis by (simp del: find_victim.simps)
  next
    case True
    let ?b = "case best of None \<Rightarrow> (i, p) | Some b \<Rightarrow> b"
    let ?n = "if clock p < clock (snd ?b) \<and> has_flag PAGE_PAGEABLE p then (i, p) else ?b"
    have "least_clock (find_victim ps (Suc i) (Some ?n)) (insert ?n (candidates (Suc i) ps))"
      using 2(1) [OF True refl] by (simp only: option.set Un_insert_left Un_empty_left)
    moreover have "?n \<in> insert (i, p) (set_option best)"
      "\<forall>y \<in> insert (i, p) (set_option best). clock (snd ?n) \<le> clock (snd y)"
      using True by (auto split: option.splits)
    ultimately have "least_clock (find_victim ps (Suc i) (Some ?n))
        (insert (i, p) (set_option best) \<union> candidates (Suc i) ps)"
      by (rule least_clock_replace)
    moreover have "find_victim (p # ps) i best = find_victim ps (Suc i) (Some ?n)"
      using True by (simp add: Let_def)
    ultimately show ?thesis
      using True by (simp add: evictable_def del: find_victim.simps)
  qed
qed

lemma Find_Page_To_Page_Out_spec:
  "case Find_Page_To_Page_Out s of
      None \<Rightarrow> \<forall>p\<in>set (pageList s). \<not> evictable p
    | Some i \<Rightarrow> i < length (pageList s) \<and> evictable (pageList s ! i) \<and>
        (\<forall>p\<in>set (pageList s). evictable p \<longrightarrow> clock (pageList s ! i) \<le> clock p)"
proof -
  have c: "candidates 0 (pageList s) = {(j, pageList s ! j) | j. j < length (pageList s) \<and> evictable (pageList s ! j)}"
    by (auto simp: candidates_def in_set_enumerate_eq)
  show ?thesis
    using find_victim_spec [of "pageList s" 0 None] unfolding c
    by (auto simp: Find_Page_To_Page_Out_def least_clock_def in_set_conv_nth split: option.splits)
qed

section \<open>Sequences of allocations and frees\<close>

text \<open>
  The states that clients of the allocator can reach: \<open>H\<close> is the set of page addresses
  handed out and not given back.  A client frees only a page it holds.
\<close>

inductive mem_reach :: "vm_state \<Rightarrow> u32 set \<Rightarrow> bool" where
  start: "mem_ok s \<Longrightarrow> mem_reach s {}"
| alloc: "mem_reach s H \<Longrightarrow> Alloc_Page s = Some (a, s') \<Longrightarrow> a \<noteq> 0 \<Longrightarrow> mem_reach s' (insert a H)"
| free: "mem_reach s H \<Longrightarrow> a \<in> H \<Longrightarrow> Free_Page a s = Some s' \<Longrightarrow> mem_reach s' (H - {a})"

definition held_ok :: "vm_state \<Rightarrow> u32 \<Rightarrow> bool" where
  "held_ok s a \<longleftrightarrow> Is_Page_Multiple a \<and> 0 < Page_Index a \<and> Page_Index a < length (pageList s) \<and>
     has_flag PAGE_ALLOCATED (pageList s ! Page_Index a) \<and>
     \<not> has_flag PAGE_LOCKED (pageList s ! Page_Index a)"

lemma page_address_inj:
  "Is_Page_Multiple a \<Longrightarrow> Is_Page_Multiple b \<Longrightarrow> Page_Index a = Page_Index b \<Longrightarrow> a = b"
  by (metis Is_Page_Multiple_dvd Page_Index_nat dvd_div_mult_self word_unat_eq_iff)

lemma held_not_free:
  "mem_ok s \<Longrightarrow> held_ok s a \<Longrightarrow> Page_Index a \<notin> set (freeList s)"
  by (auto simp: mem_ok_def held_ok_def on_freelist_ok_def)

lemma mem_reach_inv: "mem_reach s H \<Longrightarrow> mem_ok s \<and> (\<forall>a\<in>H. held_ok s a)"
proof (induction rule: mem_reach.induct)
  case (alloc s H a s')
  then have ok: "mem_ok s" by simp
  obtain i q where q: "freeList s = i # q"
    using alloc.hyps(2,3) Alloc_Page_empty [of s] by (cases "freeList s") auto
  have i: "0 < i" "i < length (pageList s)" "on_freelist_ok (pageList s ! i)" "i < 2 ^ 20"
    using mem_okD [OF ok, of i] q by auto
  note eq = Alloc_Page_Cons [OF ok q]
  have "held_ok s' a"
    using eq alloc.hyps(2) i by (auto simp: held_ok_def on_freelist_ok_def Page_Index_Address)
  moreover have "held_ok s' b" if "b \<in> H" for b
  proof -
    have "held_ok s b" using alloc.IH that by simp
    moreover from held_not_free [OF ok this] have "Page_Index b \<noteq> i" using q by auto
    ultimately show ?thesis using eq alloc.hyps(2) by (auto simp: held_ok_def)
  qed
  ultimately show ?case using Alloc_Page_ok [OF ok q] alloc.hyps(2) by auto
next
  case (free s H a s')
  then have ok: "mem_ok s" and a: "held_ok s a" by auto
  from a have pre: "Is_Page_Multiple a" "0 < Page_Index a" "Page_Index a < length (pageList s)"
    "has_flag PAGE_ALLOCATED (pageList s ! Page_Index a)"
    "\<not> has_flag PAGE_LOCKED (pageList s ! Page_Index a)" by (auto simp: held_ok_def)
  note eq = Free_Page_eq [OF ok pre(1) refl pre(3,4,5)]
  have "held_ok s' b" if "b \<in> H - {a}" for b
  proof -
    have "held_ok s b" using free.IH that by simp
    moreover have "Page_Index b \<noteq> Page_Index a"
      using that page_address_inj [of a b] pre(1) calculation by (auto simp: held_ok_def)
    ultimately show ?thesis using eq free.hyps(3) by (auto simp: held_ok_def)
  qed
  then show ?case using Free_Page_ok [OF ok pre(1) refl pre(2-5) free.hyps(3)] by auto
qed simp

section \<open>Properties\<close>

text \<open>A small machine for the examples: eight pages, of which 4, 5 and 6 are free.\<close>

definition sample_page :: page where
  "sample_page = \<lparr>flags = 0, clock = 0, vaddr = 0, pg_entry = 0\<rparr>"

definition sample_mem :: vm_state where
  "sample_mem = \<lparr>int_flag = True,
     pageList = [sample_page\<lparr>flags := 36\<rparr>, sample_page\<lparr>flags := 36\<rparr>, sample_page\<lparr>flags := 36\<rparr>,
       sample_page\<lparr>flags := 36\<rparr>, sample_page, sample_page, sample_page, sample_page\<lparr>flags := 4\<rparr>],
     freeList = [4, 5, 6], g_freePageCount = 3, g_totalFreePageCount = 3, s_numPages = 8,
     phys = (\<lambda>_. 0), swapMap = [0, 0, 0], totalPage = 3, startSector = 10, pagedisk = (\<lambda>_ _. 0)\<rparr>"

lemma sample_mem_ok: "mem_ok sample_mem"
  by (simp add: mem_ok_def sample_mem_def on_freelist_ok_def has_flag_def sample_page_def)

text \<open>C4: No page is ever handed out twice: whatever sequence of \<open>Alloc_Page\<close> and
  \<open>Free_Page\<close> came before, a page that \<open>Alloc_Page\<close> returns is not held by anybody, is a
  page-aligned address of physical memory, and the interrupt flag is as before the call;
  and \<open>Alloc_Page\<close> fails (returns 0) only when the freelist is empty.\<close>

theorem Alloc_Page_safe:
  assumes "mem_reach s H"
  shows "\<exists>a s'. Alloc_Page s = Some (a, s') \<and> int_flag s' = int_flag s \<and> (a = 0 \<longleftrightarrow> freeList s = []) \<and>
    (a \<noteq> 0 \<longrightarrow> a \<notin> H \<and> Is_Page_Multiple a \<and> Page_Index a < length (pageList s))"
proof (cases "freeList s")
  case (Cons i q)
  from mem_reach_inv [OF assms] have ok: "mem_ok s" and H: "\<forall>a\<in>H. held_ok s a" by auto
  have i: "0 < i" "i < length (pageList s)" "i < 2 ^ 20" using mem_okD [OF ok] Cons by auto
  have "Get_Page_Address i \<notin> H"
  proof
    assume "Get_Page_Address i \<in> H"
    with H have "i \<notin> set (freeList s)"
      using held_not_free [OF ok, of "Get_Page_Address i"] i by (simp add: Page_Index_Address)
    with Cons show False by simp
  qed
  with i Alloc_Page_Cons [OF ok Cons] Cons show ?thesis
    by (simp add: Page_Index_Address Get_Page_Address_eq_0)
qed (simp add: Alloc_Page_empty)

lemma Alloc_Page_safe_witness:
  "\<exists>a s'. Alloc_Page sample_mem = Some (a, s') \<and> int_flag s' = int_flag sample_mem \<and>
    (a = 0 \<longleftrightarrow> freeList sample_mem = []) \<and>
    (a \<noteq> 0 \<longrightarrow> a \<notin> {} \<and> Is_Page_Multiple a \<and> Page_Index a < length (pageList sample_mem))"
  by (rule Alloc_Page_safe) (rule mem_reach.start [OF sample_mem_ok])

text \<open>Freeing a page that is held never fails an assertion, puts the page back at the end
  of the freelist and leaves the allocator consistent (no duplicate on the freelist, the
  counter equal to its length) with interrupts as before.\<close>

theorem Free_Page_returns:
  assumes "mem_reach s H" "a \<in> H"
  shows "\<exists>s'. Free_Page a s = Some s' \<and> mem_ok s' \<and> freeList s' = freeList s @ [Page_Index a] \<and>
    int_flag s' = int_flag s \<and> mem_reach s' (H - {a})"
proof -
  from mem_reach_inv [OF assms(1)] assms(2) have ok: "mem_ok s" and a: "held_ok s a" by auto
  from a have pre: "Is_Page_Multiple a" "0 < Page_Index a" "Page_Index a < length (pageList s)"
    "has_flag PAGE_ALLOCATED (pageList s ! Page_Index a)"
    "\<not> has_flag PAGE_LOCKED (pageList s ! Page_Index a)" by (auto simp: held_ok_def)
  note eq = Free_Page_eq [OF ok pre(1) refl pre(3,4,5)]
  from Free_Page_ok [OF ok pre(1) refl pre(2-5) eq] mem_reach.free [OF assms eq] eq
  show ?thesis by simp
qed

lemma sample_alloc: "Alloc_Page sample_mem = Some (0x4000, sample_mem\<lparr>freeList := [5, 6],
    pageList := (pageList sample_mem)[4 := set_flag 4 sample_page], g_freePageCount := 2\<rparr>)"
proof -
  have "freeList sample_mem = 4 # [5, 6]" "pageList sample_mem ! 4 = sample_page"
    "g_freePageCount sample_mem - 1 = 2"
    by (simp_all add: sample_mem_def)
  with Alloc_Page_Cons [OF sample_mem_ok] show ?thesis by (simp add: Get_Page_Address_def)
qed

lemma Free_Page_returns_witness:
  "\<exists>s s'. Alloc_Page sample_mem = Some (0x4000, s) \<and> Free_Page 0x4000 s = Some s' \<and> mem_ok s' \<and>
    freeList s' = [5, 6, 4]"
proof -
  from mem_reach.alloc [OF mem_reach.start [OF sample_mem_ok] sample_alloc]
  have "mem_reach (sample_mem\<lparr>freeList := [5, 6],
    pageList := (pageList sample_mem)[4 := set_flag 4 sample_page], g_freePageCount := 2\<rparr>) {0x4000}"
    by simp
  from Free_Page_returns [OF this, of "0x4000"] sample_alloc show ?thesis
    by (auto simp: Page_Index_nat)
qed

text \<open>A page that is freed while it is being written to the paging file (its lock flag is
  set) only loses its allocation flag; \<open>Free_Page\<close> then returns without ending its atomic
  region: interrupts stay disabled even when they were enabled at the call.\<close>

theorem Free_Page_locked:
  assumes "Is_Page_Multiple a" "Page_Index a < length (pageList s)"
    "has_flag PAGE_ALLOCATED (pageList s ! Page_Index a)"
    "has_flag PAGE_LOCKED (pageList s ! Page_Index a)"
  shows "\<exists>s'. Free_Page a s = Some s' \<and> \<not> int_flag s' \<and> freeList s' = freeList s \<and>
    pageList s' = (pageList s)[Page_Index a := clear_flag PAGE_ALLOCATED (pageList s ! Page_Index a)]"
  using assms by (simp add: Free_Page_def Get_Page_def)

lemma Free_Page_locked_witness:
  "\<exists>s'. Free_Page 0x2000 (put_page 2 (sample_page\<lparr>flags := 0x44\<rparr>) sample_mem) = Some s' \<and> \<not> int_flag s'"
  using Free_Page_locked [of "0x2000" "put_page 2 (sample_page\<lparr>flags := 0x44\<rparr>) sample_mem"]
  by (auto simp: Is_Page_Multiple_dvd Page_Index_nat sample_mem_def has_flag_def)

text \<open>The page chosen for eviction is an allocated, pageable page whose age is the least
  among all such pages; none is chosen only when there is none.\<close>

theorem victim_is_oldest:
  "case Find_Page_To_Page_Out s of
      None \<Rightarrow> \<forall>p\<in>set (pageList s). \<not> evictable p
    | Some i \<Rightarrow> i < length (pageList s) \<and> evictable (pageList s ! i) \<and>
        (\<forall>j < length (pageList s). evictable (pageList s ! j) \<longrightarrow> clock (pageList s ! i) \<le> clock (pageList s ! j))"
  using Find_Page_To_Page_Out_spec [of s] by (auto split: option.splits)

lemma victim_is_oldest_witness: "Find_Page_To_Page_Out sample_mem = Some 0 \<and>
    evictable (pageList sample_mem ! 0)"
proof -
  have "Find_Page_To_Page_Out sample_mem = Some 0" by code_simp
  with victim_is_oldest [of sample_mem] show ?thesis by simp
qed

text \<open>\<open>Init_Mem\<close>, when the page array fits below the ISA hole, ends with every page of the
  machine accounted for: the freelist holds, in address order, the pages below the kernel,
  between the page array and the hole, and above the kernel heap; the counters agree; and
  the allocator's invariant holds.\<close>

theorem Init_Mem_inventory:
  fixes kend :: u32 and memSizeKB :: int
  defines "n \<equiv> nat (memSizeKB div 4)"
  defines "k \<equiv> (unat kend + 4095) div 4096"
  defines "e \<equiv> (k * 4096 + 24 * n + 4095) div 4096"
  assumes "0 < memSizeKB" "514 < n" "16 < e" "e < 160" "n < 2 ^ 16" "unat kend < 0xA0000"
    "freeList s = []" "g_freePageCount s = 0"
  shows "\<exists>s'. Init_Mem kend raw memSizeKB s = Some s' \<and> mem_ok s' \<and>
    freeList s' = [1..<16] @ [e..<160] @ [514..<n] \<and>
    g_totalFreePageCount s' = g_freePageCount s'"
proof -
  let ?np = "word_of_int (memSizeKB div 4) :: u32"
  have np: "unat ?np = n"
  proof -
    have "memSizeKB div 4 = int n" using assms(4) by (simp add: n_def)
    then show ?thesis using assms(8) by (simp add: unsigned_of_nat take_bit_nat_eq_self)
  qed
  then have eom: "unat (?np * 4096) = n * 4096" and npb: "unat (24 * ?np) = 24 * n"
    using assms(8) by (simp_all add: unat_word_ariths)
  have e4: "k * 4096 + 24 * n \<le> e * 4096"
    unfolding e_def using div_mult_mod_eq [of "k * 4096 + 24 * n + 4095" 4096]
      mod_less_divisor [of 4096 "k * 4096 + 24 * n + 4095"] by linarith
  have up: "unat (Round_Up_To_Page kend) = k * 4096"
    using assms(9) by (simp add: Round_Up_To_Page_nat k_def)
  have sum: "unat (Round_Up_To_Page kend + 24 * ?np) = k * 4096 + 24 * n"
    using e4 assms(7,8) by (simp add: unat_word_ariths up np)
  have kernEnd: "unat (Round_Up_To_Page (Round_Up_To_Page kend + 24 * ?np)) = e * 4096"
    using e4 assms(7) by (simp add: Round_Up_To_Page_nat sum e_def)
  have "Round_Up_To_Page kend \<le> 0xA0000"
    using e4 assms(7) by (simp add: word_le_nat_alt up)
  then have huge: "\<not> 24 * ?np > 0xA0000 - Round_Up_To_Page kend"
    using e4 assms(7) by (simp add: word_less_nat_alt unat_sub up npb)
  define s0 where "s0 = s\<lparr>pageList := map raw [0..<n], s_numPages := ?np\<rparr>"
  define s1 where "s1 = add_range 0 1 PAGE_UNUSED s0"
  define s2 where "s2 = add_range 1 16 PAGE_AVAIL s1"
  define s3 where "s3 = add_range 16 e PAGE_KERN s2"
  define s4 where "s4 = add_range e 160 PAGE_AVAIL s3"
  define s5 where "s5 = add_range 160 256 PAGE_HW s4"
  define s6 where "s6 = add_range 256 258 PAGE_ALLOCATED s5"
  define s7 where "s7 = add_range 258 514 PAGE_HEAP s6"
  define s8 where "s8 = add_range 514 n PAGE_AVAIL s7"
  note defs = s0_def s1_def s2_def s3_def s4_def s5_def s6_def s7_def s8_def
  have len: "length (pageList s0) = n" "length (pageList s1) = n" "length (pageList s2) = n"
    "length (pageList s3) = n" "length (pageList s4) = n" "length (pageList s5) = n"
    "length (pageList s6) = n" "length (pageList s7) = n" by (simp_all add: defs)
  have fl: "freeList s0 = []" "freeList s1 = []" "freeList s2 = [1..<16]" "freeList s3 = [1..<16]"
    "freeList s4 = [1..<16] @ [e..<160]" "freeList s5 = [1..<16] @ [e..<160]"
    "freeList s6 = [1..<16] @ [e..<160]" "freeList s7 = [1..<16] @ [e..<160]"
    "freeList s8 = [1..<16] @ [e..<160] @ [514..<n]"
    using assms(10) by (simp_all add: defs)
  have r1: "Add_Page_Range 0 4096 8 s0 = Some s1"
    unfolding s1_def using assms(5-8) by (intro Add_Page_Range_eq) (simp_all add: len fl)
  have r2: "Add_Page_Range 4096 0x10000 0 s1 = Some s2"
    unfolding s2_def using assms(5-8) by (intro Add_Page_Range_eq) (simp_all add: len fl)
  have r3: "Add_Page_Range 0x10000 (Round_Up_To_Page (Round_Up_To_Page kend + 24 * ?np)) 1 s2 = Some s3"
    unfolding s3_def using assms(5-8) by (intro Add_Page_Range_eq) (auto simp: len fl kernEnd)
  have r4: "Add_Page_Range (Round_Up_To_Page (Round_Up_To_Page kend + 24 * ?np)) 0xA0000 0 s3 = Some s4"
    unfolding s4_def using assms(5-8) by (intro Add_Page_Range_eq) (auto simp: len fl kernEnd)
  have r5: "Add_Page_Range 0xA0000 0x100000 2 s4 = Some s5"
    unfolding s5_def using assms(5-8) by (intro Add_Page_Range_eq) (auto simp: len fl)
  have r6: "Add_Page_Range 0x100000 0x102000 4 s5 = Some s6"
    unfolding s6_def using assms(5-8) by (intro Add_Page_Range_eq) (auto simp: len fl)
  have r7: "Add_Page_Range 0x102000 0x202000 16 s6 = Some s7"
    unfolding s7_def using assms(5-8) by (intro Add_Page_Range_eq) (auto simp: len fl)
  have r8: "Add_Page_Range 0x202000 (?np * 4096) 0 s7 = Some s8"
    unfolding s8_def using assms(5-8) by (intro Add_Page_Range_eq) (auto simp: len fl eom)
  have run: "Init_Mem kend raw memSizeKB s = Some (s8\<lparr>g_totalFreePageCount := g_freePageCount s8\<rparr>)"
    using assms(4) huge r1 r2 r3 r4 r5 r6 r7 r8
    by (simp add: Init_Mem_def Let_def np s0_def)
  have "g_freePageCount s8 = 15 + word_of_nat (160 - e) + word_of_nat (n - 514)"
    using assms(11) by (simp add: defs)
  then have cnt: "unat (g_freePageCount s8) = 15 + (160 - e) + (n - 514)"
    using assms(8) by (simp add: unat_word_ariths unsigned_of_nat take_bit_nat_eq_self)
  have "on_freelist_ok (pageList s8 ! i)" if "i \<in> set (freeList s8)" for i
    using that assms(5-8,10) by (auto simp: fl defs on_freelist_ok_def has_flag_def)
  with run cnt assms(5-8) show ?thesis by (auto simp: mem_ok_def fl s8_def len)
qed

lemma Init_Mem_inventory_witness:
  "\<exists>s'. Init_Mem 0x2A123 (\<lambda>_. sample_page) 16384
      (sample_mem\<lparr>freeList := [], g_freePageCount := 0\<rparr>) = Some s' \<and> mem_ok s' \<and>
    freeList s' = [1..<16] @ [67..<160] @ [514..<4096] \<and>
    g_totalFreePageCount s' = g_freePageCount s'"
proof -
  have n: "nat (16384 div 4) = 4096" and k: "(unat (0x2A123 :: u32) + 4095) div 4096 = 43"
    and e: "(43 * 4096 + 24 * 4096 + 4095) div 4096 = (67 :: nat)" by simp_all
  show ?thesis
    by (rule Init_Mem_inventory [where memSizeKB = 16384 and kend = "0x2A123", unfolded n k e])
      simp_all
qed

text \<open>When the page array does not fit below the ISA hole, \<open>Init_Mem\<close> passes the array's
  unrounded end to \<open>Add_Page_Range\<close>, whose alignment assertion then fails (the machine does
  not boot) unless the number of pages is a multiple of 512.\<close>

theorem Init_Mem_huge_stops:
  fixes memSizeKB :: int
  defines "n \<equiv> nat (memSizeKB div 4)"
  assumes "0 < memSizeKB" "n < 2 ^ 20" "\<not> 512 dvd n"
    "24 * word_of_int (memSizeKB div 4) > ISA_HOLE_START - Round_Up_To_Page kend"
  shows "Init_Mem kend raw memSizeKB s = None"
proof -
  let ?np = "word_of_int (memSizeKB div 4) :: u32"
  have np: "unat ?np = n"
  proof -
    have "memSizeKB div 4 = int n" using assms(2) by (simp add: n_def)
    then show ?thesis using assms(3) by (simp add: unsigned_of_nat take_bit_nat_eq_self)
  qed
  have "unat (0x202000 + 24 * ?np) = 0x202000 + 24 * n"
    using assms(3) by (simp add: unat_word_ariths np)
  moreover have "\<not> 4096 dvd 0x202000 + 24 * n"
  proof
    assume "4096 dvd 0x202000 + 24 * n"
    moreover have "(4096 :: nat) dvd 0x202000" by simp
    ultimately have "4096 dvd 24 * n" using dvd_add_right_iff by blast
    then have "8 * 512 dvd 8 * (3 * n)" by simp
    then have "512 dvd 3 * n" using nat_mult_dvd_cancel1 [of 8 512 "3 * n"] by simp
    moreover have "coprime ((2 :: nat) ^ 9) 3" by (simp only: coprime_power_left_iff) simp
    then have "coprime (512 :: nat) 3" by simp
    ultimately show False using assms(4) coprime_dvd_mult_right_iff by blast
  qed
  ultimately have "\<not> Is_Page_Multiple (0x202000 + 24 * ?np)"
    by (simp only: Is_Page_Multiple_dvd) simp
  then have "Add_Page_Range x (0x202000 + 24 * ?np) fl t = None" for x fl t
    by (simp add: Add_Page_Range_def)
  then show ?thesis
    using assms(5) by (simp add: Init_Mem_def Let_def Option.bind_rzero)
qed

lemma Init_Mem_huge_stops_witness: "Init_Mem 0x2A123 (\<lambda>_. sample_page) 262140 sample_mem = None"
  by (rule Init_Mem_huge_stops)
     (simp_all add: word_less_nat_alt Round_Up_To_Page_def PAGE_MASK_val mask_eq_exp_minus_1)

end
