(* ===== verification/Paging.thy ===== *)
theory Paging
  imports Mem Bitset
begin

text \<open>
  Virtual memory, \<open>geekos/paging.c\<close> and the eviction path of \<open>geekos/mem.c\<close>.  Physical
  memory is a map from word numbers (byte address divided by 4) to 32-bit words, page
  directories and page tables lie in it, and their entries are the bit fields of
  \<open>include/geekos/paging.h\<close>.  The paging file is a map from sector numbers to 128 words.

  A block request blocks and interrupts are enabled meanwhile: \<open>env i\<close> is what the other
  threads do to the state while the \<open>i\<close>-th request of a page transfer is under way.
  \<open>io_ok\<close> tells on which sectors the device succeeds; the callers ignore the result code.
\<close>

section \<open>Page table entries\<close>

definition rd32 :: "vm_state \<Rightarrow> u32 \<Rightarrow> u32" where
  "rd32 s a = phys s (unat a div 4)"

definition wr32 :: "u32 \<Rightarrow> u32 \<Rightarrow> vm_state \<Rightarrow> vm_state" where
  "wr32 a v s = s\<lparr>phys := (phys s)(unat a div 4 := v)\<rparr>"

text \<open>The fields of \<open>pte_t\<close> and \<open>pde_t\<close> that the code uses.\<close>

definition pte_present :: "u32 \<Rightarrow> u32" where "pte_present w = bf_get 0 1 w"
definition pte_kernelInfo :: "u32 \<Rightarrow> u32" where "pte_kernelInfo w = bf_get 9 3 w"
definition pte_base :: "u32 \<Rightarrow> u32" where "pte_base w = bf_get 12 20 w"

definition set_present :: "u32 \<Rightarrow> u32 \<Rightarrow> vm_state \<Rightarrow> vm_state" where
  "set_present a v s = wr32 a (bf_set 0 1 v (rd32 s a)) s"

definition set_pflags :: "u32 \<Rightarrow> u32 \<Rightarrow> vm_state \<Rightarrow> vm_state" where
  "set_pflags a v s = wr32 a (bf_set 1 4 v (rd32 s a)) s"

definition set_kernelInfo :: "u32 \<Rightarrow> u32 \<Rightarrow> vm_state \<Rightarrow> vm_state" where
  "set_kernelInfo a v s = wr32 a (bf_set 9 3 v (rd32 s a)) s"

definition set_base :: "u32 \<Rightarrow> u32 \<Rightarrow> vm_state \<Rightarrow> vm_state" where
  "set_base a v s = wr32 a (bf_set 12 20 v (rd32 s a)) s"

abbreviation (input) "VM_WRITE \<equiv> 1 :: u32"
abbreviation (input) "VM_USER \<equiv> 2 :: u32"
abbreviation (input) "KINFO_PAGE_ON_DISK \<equiv> 4 :: u32"
abbreviation (input) "NUM_PAGE_TABLE_ENTRIES \<equiv> 1024 :: nat"
abbreviation (input) "SECTORS_PER_PAGE \<equiv> 8 :: nat"

text \<open>\<open>memset(p, '\0', PAGE_SIZE)\<close> at a page-aligned address.\<close>

definition clear_frame :: "u32 \<Rightarrow> vm_state \<Rightarrow> vm_state" where
  "clear_frame a s = s\<lparr>phys := (\<lambda>w. if unat a div 4 \<le> w \<and> w < unat a div 4 + 1024 then 0 else phys s w)\<rparr>"

section \<open>The paging file\<close>

definition Init_Paging :: "bool \<Rightarrow> u32 \<Rightarrow> u32 \<Rightarrow> vm_state \<Rightarrow> vm_state kres" where
  "Init_Paging malloc_ok numSectors start s = do {
     let tot = numSectors div 8;
     KASSERT malloc_ok;
     Some (s\<lparr>totalPage := tot, startSector := start, swapMap := replicate (unat tot) 0\<rparr>) }"

function find_space_from :: "u8 list \<Rightarrow> nat \<Rightarrow> nat \<Rightarrow> int kres" where
  "find_space_from m i tot =
     (if i < tot then do {
        x \<leftarrow> aget m i;
        if x = 0 then Some (int i) else find_space_from m (Suc i) tot }
      else Some (- 1))"
  by pat_completeness auto
termination by (relation "measure (\<lambda>(m, i, tot). tot - i)") auto

declare find_space_from.simps [simp del]

definition Find_Space_On_Paging_File :: "vm_state \<Rightarrow> int kres" where
  "Find_Space_On_Paging_File s = do {
     KASSERT (\<not> Interrupts_Enabled s);
     find_space_from (swapMap s) 0 (unat (totalPage s)) }"

definition Free_Space_On_Paging_File :: "nat \<Rightarrow> vm_state \<Rightarrow> vm_state kres" where
  "Free_Space_On_Paging_File pagefileIndex s = do {
     KASSERT (\<not> Interrupts_Enabled s);
     m \<leftarrow> aset (swapMap s) pagefileIndex 0;
     Some (s\<lparr>swapMap := m\<rparr>) }"

definition page_sector :: "vm_state \<Rightarrow> nat \<Rightarrow> nat \<Rightarrow> nat" where
  "page_sector s pagefileIndex i = unat (startSector s + of_nat pagefileIndex * 8 + of_nat i)"

text \<open>One \<open>Block_Write\<close> or \<open>Block_Read\<close> of sector \<open>i\<close> of the page at \<open>paddr\<close>.\<close>

definition write_sector ::
  "(nat \<Rightarrow> bool) \<Rightarrow> (nat \<Rightarrow> vm_state \<Rightarrow> vm_state) \<Rightarrow> u32 \<Rightarrow> nat \<Rightarrow> nat \<Rightarrow> vm_state \<Rightarrow> vm_state" where
  "write_sector io_ok env paddr pagefileIndex i s =
     (let s = env i s; sec = page_sector s pagefileIndex i in
      if io_ok sec
      then s\<lparr>pagedisk := (pagedisk s)(sec := (\<lambda>w. phys s (unat paddr div 4 + i * 128 + w)))\<rparr>
      else s)"

definition read_sector ::
  "(nat \<Rightarrow> bool) \<Rightarrow> (nat \<Rightarrow> vm_state \<Rightarrow> vm_state) \<Rightarrow> u32 \<Rightarrow> nat \<Rightarrow> nat \<Rightarrow> vm_state \<Rightarrow> vm_state" where
  "read_sector io_ok env paddr pagefileIndex i s =
     (let s = env i s; sec = page_sector s pagefileIndex i; base = unat paddr div 4 + i * 128 in
      if io_ok sec
      then s\<lparr>phys := (\<lambda>w. if base \<le> w \<and> w < base + 128 then pagedisk s sec (w - base) else phys s w)\<rparr>
      else s)"

definition Write_To_Paging_File ::
  "(nat \<Rightarrow> bool) \<Rightarrow> (nat \<Rightarrow> vm_state \<Rightarrow> vm_state) \<Rightarrow> u32 \<Rightarrow> u32 \<Rightarrow> nat \<Rightarrow> vm_state \<Rightarrow> vm_state kres" where
  "Write_To_Paging_File io_ok env paddr va pagefileIndex s = do {
     (_, page) \<leftarrow> Get_Page s paddr;
     KASSERT (\<not> has_flag PAGE_PAGEABLE page);
     let s = fold (write_sector io_ok env paddr pagefileIndex) [0..<SECTORS_PER_PAGE] s;
     m \<leftarrow> aset (swapMap s) pagefileIndex 1;
     Some (s\<lparr>swapMap := m\<rparr>) }"

definition Read_From_Paging_File ::
  "(nat \<Rightarrow> bool) \<Rightarrow> (nat \<Rightarrow> vm_state \<Rightarrow> vm_state) \<Rightarrow> u32 \<Rightarrow> u32 \<Rightarrow> nat \<Rightarrow> vm_state \<Rightarrow> vm_state kres" where
  "Read_From_Paging_File io_ok env paddr va pagefileIndex s = do {
     _ \<leftarrow> Get_Page s paddr;
     Some (fold (read_sector io_ok env paddr pagefileIndex) [0..<SECTORS_PER_PAGE] s) }"

section \<open>Pageable pages\<close>

text \<open>The bookkeeping after the victim's contents are on disk.\<close>

definition finish_eviction :: "nat \<Rightarrow> nat \<Rightarrow> vm_state \<Rightarrow> vm_state kres" where
  "finish_eviction i pagefileIndex s = do {
     page \<leftarrow> aget (pageList s) i;
     s \<leftarrow> (if has_flag PAGE_ALLOCATED page then
             (let e = pg_entry page; s = set_present e 0 s; s = set_kernelInfo e KINFO_PAGE_ON_DISK s
              in Some (set_base e (of_nat pagefileIndex) s))
           else do {
             s \<leftarrow> Free_Space_On_Paging_File pagefileIndex s;
             Some (put_page i (set_flag PAGE_ALLOCATED page) s) });
     page \<leftarrow> aget (pageList s) i;
     Some (put_page i (clear_flag PAGE_LOCKED page) s) }"

definition Alloc_Pageable_Page ::
  "(nat \<Rightarrow> bool) \<Rightarrow> (nat \<Rightarrow> vm_state \<Rightarrow> vm_state) \<Rightarrow> u32 \<Rightarrow> u32 \<Rightarrow> vm_state \<Rightarrow> (u32 \<times> vm_state) kres" where
  "Alloc_Pageable_Page io_ok env entry va s = do {
     (iflag, s) \<leftarrow> Begin_Int_Atomic s;
     KASSERT (\<not> Interrupts_Enabled s);
     KASSERT (Is_Page_Multiple va);
     (paddr, s) \<leftarrow> Alloc_Page s;
     (got, paddr, s) \<leftarrow>
       (if paddr \<noteq> 0 then do {
          (_, page) \<leftarrow> Get_Page s paddr;
          KASSERT (\<not> has_flag PAGE_PAGEABLE page);
          Some (True, paddr, s) }
        else do {
          i \<leftarrow> Find_Page_To_Page_Out s;
          page \<leftarrow> aget (pageList s) i;
          KASSERT (has_flag PAGE_PAGEABLE page);
          let paddr = Get_Page_Address i;
          idx \<leftarrow> Find_Space_On_Paging_File s;
          if idx < 0 then Some (False, 0, s)
          else do {
            let s = put_page i (set_flag PAGE_LOCKED (clear_flag PAGE_PAGEABLE page)) s;
            s \<leftarrow> Enable_Interrupts s;
            s \<leftarrow> Write_To_Paging_File io_ok env paddr (vaddr page) (nat idx) s;
            s \<leftarrow> Disable_Interrupts s;
            s \<leftarrow> finish_eviction i (nat idx) s;
            Some (True, paddr, s) } });
     s \<leftarrow> (if \<not> got then Some s
           else do {
             (i, page) \<leftarrow> Get_Page s paddr;
             let page = (set_flag PAGE_PAGEABLE page)\<lparr>pg_entry := entry\<rparr>;
             let s = set_kernelInfo entry 0 (put_page i page s);
             let page = page\<lparr>vaddr := va\<rparr>;
             KASSERT (has_flag PAGE_ALLOCATED page);
             Some (put_page i page s) });
     s \<leftarrow> End_Int_Atomic iflag s;
     Some (paddr, s) }"

section \<open>The page fault handler\<close>

text \<open>\<open>Exited\<close>: the faulting thread was made to exit and the handler does not return.\<close>

datatype fault_result = Resumed vm_state | Exited vm_state

definition find_page_table :: "u32 \<Rightarrow> vm_state \<Rightarrow> (u32 \<times> vm_state) kres" where
  "find_page_table pde s =
     (if pte_base (rd32 s pde) = 0 then do {
        (pte, s) \<leftarrow> Alloc_Page s;
        let s = clear_frame pte s;
        let s = set_base pde (PAGE_ALLIGNED_ADDR pte) s;
        let s = set_present pde 1 s;
        Some (pte, set_pflags pde (VM_USER OR VM_WRITE) s) }
      else Some (push_bit 12 (pte_base (rd32 s pde)), s))"

definition Page_Fault_Handler ::
  "(nat \<Rightarrow> bool) \<Rightarrow> (nat \<Rightarrow> vm_state \<Rightarrow> vm_state) \<Rightarrow> u32 \<Rightarrow> bool \<Rightarrow> u32 \<Rightarrow> u32 \<Rightarrow> vm_state \<Rightarrow> fault_result kres" where
  "Page_Fault_Handler io_ok env pdbr is_shell address errorCode s = do {
     KASSERT (\<not> Interrupts_Enabled s);
     if bf_get 0 1 errorCode = 0 then do {
       let pde = pdbr + 4 * of_nat (PAGE_DIRECTORY_INDEX address);
       (pt, s) \<leftarrow> find_page_table pde s;
       let pte = pt + 4 * of_nat (PAGE_TABLE_INDEX address);
       let kernelInfo = pte_kernelInfo (rd32 s pte);
       (paddr, s) \<leftarrow> Alloc_Pageable_Page io_ok env pte (PAGE_ADDR address) s;
       if paddr = 0 \<and> \<not> is_shell then Some (Exited s)
       else do {
         s \<leftarrow> (if kernelInfo = KINFO_PAGE_ON_DISK then do {
                 s \<leftarrow> Enable_Interrupts s;
                 s \<leftarrow> Read_From_Paging_File io_ok env paddr address (unat (pte_base (rd32 s pte))) s;
                 s \<leftarrow> Disable_Interrupts s;
                 Free_Space_On_Paging_File (unat (pte_base (rd32 s pte))) s }
               else Some s);
         let s = set_present pte 1 s;
         let s = set_pflags pte (VM_USER OR VM_WRITE) s;
         Some (Resumed (set_base pte (PAGE_ALLIGNED_ADDR paddr) s)) } }
     else do {
       KASSERT (bf_get 2 1 errorCode \<noteq> 0);
       Some (Exited s) } }"

section \<open>The kernel's own mapping\<close>

fun map_entries :: "nat \<Rightarrow> u32 \<Rightarrow> nat \<Rightarrow> nat \<Rightarrow> vm_state \<Rightarrow> vm_state kres" where
  "map_entries i pte j 0 s = Some s"
| "map_entries i pte j (Suc n) s = do {
     let idx = i * NUM_PAGE_TABLE_ENTRIES + j;
     let e = pte + 4 * of_nat j;
     page \<leftarrow> aget (pageList s) idx;
     let s = put_page idx (page\<lparr>pg_entry := e\<rparr>) s;
     let s = set_base e (of_nat idx) s;
     let s = set_present e 1 s;
     map_entries i pte (Suc j) n (set_pflags e VM_WRITE s) }"

fun map_tables :: "u32 \<Rightarrow> nat \<Rightarrow> nat \<Rightarrow> vm_state \<Rightarrow> vm_state kres" where
  "map_tables pde i 0 s = Some s"
| "map_tables pde i (Suc n) s = do {
     (pte, s) \<leftarrow> Alloc_Page s;
     let s = clear_frame pte s;
     let d = pde + 4 * of_nat i;
     let s = set_base d (PAGE_ALLIGNED_ADDR pte) s;
     let s = set_present d 1 s;
     let s = set_pflags d VM_WRITE s;
     s \<leftarrow> map_entries i pte 0 NUM_PAGE_TABLE_ENTRIES s;
     map_tables pde (Suc i) n s }"

text \<open>The page directory's address is what \<open>Enable_Paging\<close> loads.\<close>

definition Init_VM :: "u32 \<Rightarrow> vm_state \<Rightarrow> (u32 \<times> vm_state) kres" where
  "Init_VM memSizeKB s = do {
     let memSizeB = push_bit 10 memSizeKB;
     (pde, s) \<leftarrow> Alloc_Page s;
     let s = clear_frame pde s;
     s \<leftarrow> map_tables pde 0 (PAGE_DIRECTORY_INDEX memSizeB) s;
     Some (pde, s) }"

section \<open>Address translation\<close>

text \<open>What the processor does with these tables: the frame a virtual address is mapped to.\<close>

definition mmu_frame :: "vm_state \<Rightarrow> u32 \<Rightarrow> u32 \<Rightarrow> u32 option" where
  "mmu_frame s pdbr va =
     (let pde = rd32 s (pdbr + 4 * of_nat (PAGE_DIRECTORY_INDEX va)) in
      if pte_present pde = 0 then None
      else let pte = rd32 s (push_bit 12 (pte_base pde) + 4 * of_nat (PAGE_TABLE_INDEX va)) in
        if pte_present pte = 0 then None else Some (pte_base pte))"

section \<open>The swap map is a slot allocator\<close>

text \<open>A slot is taken when its flag is not 0.  The map is searched with interrupts off.\<close>

definition swap_ok :: "vm_state \<Rightarrow> bool" where
  "swap_ok s \<longleftrightarrow> \<not> int_flag s \<and> unat (totalPage s) \<le> length (swapMap s)"

definition swap_cap :: "vm_state \<Rightarrow> nat" where
  "swap_cap s = unat (totalPage s)"

definition swap_used :: "vm_state \<Rightarrow> nat set" where
  "swap_used s = {i. i < length (swapMap s) \<and> swapMap s ! i \<noteq> 0}"

definition swap_mark :: "vm_state \<Rightarrow> nat \<Rightarrow> vm_state kres" where
  "swap_mark s i = do { m \<leftarrow> aset (swapMap s) i 1; Some (s\<lparr>swapMap := m\<rparr>) }"

definition swap_release :: "vm_state \<Rightarrow> nat \<Rightarrow> vm_state kres" where
  "swap_release s i = Free_Space_On_Paging_File i s"

lemma find_space_from_spec:
  assumes "n \<le> length m" "\<forall>j < i. m ! j \<noteq> 0"
  shows "\<exists>r. find_space_from m i n = Some r \<and>
    (r = - 1 \<and> (\<forall>j < n. m ! j \<noteq> 0) \<or>
     (\<exists>k. r = int k \<and> k < n \<and> m ! k = 0 \<and> (\<forall>j < k. m ! j \<noteq> 0)))"
  using assms
proof (induction m i n rule: find_space_from.induct)
  case (1 m i n)
  show ?case
  proof (cases "i < n \<and> m ! i \<noteq> 0")
    case True
    with 1(2,3) have "\<forall>j < Suc i. m ! j \<noteq> 0" by (auto simp: less_Suc_eq)
    with 1(1) [of "m ! i"] True 1(2) show ?thesis by (subst find_space_from.simps) simp
  next
    case False
    with 1(2,3) show ?thesis by (subst find_space_from.simps) auto
  qed
qed

interpretation swap: idempotent_slots swap_ok swap_cap swap_used Find_Space_On_Paging_File
  swap_mark swap_release
proof unfold_locales
  fix s i
  assume ok: "swap_ok s"
  show "\<exists>r. Find_Space_On_Paging_File s = Some r \<and>
      (r = - 1 \<and> {..<swap_cap s} \<subseteq> swap_used s \<or>
       (\<exists>i. r = int i \<and> i < swap_cap s \<and> i \<notin> swap_used s \<and> {..<i} \<subseteq> swap_used s))"
    using find_space_from_spec [of "unat (totalPage s)" "swapMap s" 0] ok
    by (auto simp: swap_ok_def swap_cap_def swap_used_def Find_Space_On_Paging_File_def subset_iff)
  assume i: "i < swap_cap s"
  have m: "\<exists>s'. swap_mark s i = Some s' \<and> swap_ok s' \<and> swap_cap s' = swap_cap s \<and>
      swap_used s' = insert i (swap_used s)"
    using ok i by (auto simp: swap_mark_def swap_ok_def swap_cap_def swap_used_def nth_list_update)
  have r: "\<exists>s'. swap_release s i = Some s' \<and> swap_ok s' \<and> swap_cap s' = swap_cap s \<and>
      swap_used s' = swap_used s - {i}"
    using ok i
    by (auto simp: swap_release_def Free_Space_On_Paging_File_def swap_ok_def swap_cap_def
        swap_used_def nth_list_update)
  show "\<exists>s'. swap_mark s i = Some s' \<and> swap_ok s' \<and> swap_cap s' = swap_cap s \<and>
      swap_used s' = insert i (swap_used s)" by (rule m)
  show "\<exists>s'. swap_release s i = Some s' \<and> swap_ok s' \<and> swap_cap s' = swap_cap s \<and>
      swap_used s' = swap_used s - {i}" by (rule r)
  { assume "i \<in> swap_used s"
    with m show "\<exists>s'. swap_mark s i = Some s' \<and> swap_ok s' \<and> swap_cap s' = swap_cap s \<and>
      swap_used s' = swap_used s" by (simp add: insert_absorb) }
  { assume "i \<notin> swap_used s"
    with r show "\<exists>s'. swap_release s i = Some s' \<and> swap_ok s' \<and> swap_cap s' = swap_cap s \<and>
      swap_used s' = swap_used s" by simp }
qed

section \<open>Entries and frames\<close>

lemma entry_ops [simp]:
  "phys (set_present a v s) = (phys s)(unat a div 4 := bf_set 0 1 v (phys s (unat a div 4)))"
  "phys (set_pflags a v s) = (phys s)(unat a div 4 := bf_set 1 4 v (phys s (unat a div 4)))"
  "phys (set_kernelInfo a v s) = (phys s)(unat a div 4 := bf_set 9 3 v (phys s (unat a div 4)))"
  "phys (set_base a v s) = (phys s)(unat a div 4 := bf_set 12 20 v (phys s (unat a div 4)))"
  by (simp_all add: set_present_def set_pflags_def set_kernelInfo_def set_base_def wr32_def rd32_def)

lemma wr32_frame [simp]:
  "pageList (wr32 a v s) = pageList s" "freeList (wr32 a v s) = freeList s"
  "int_flag (wr32 a v s) = int_flag s" "swapMap (wr32 a v s) = swapMap s"
  "totalPage (wr32 a v s) = totalPage s" "startSector (wr32 a v s) = startSector s"
  "pagedisk (wr32 a v s) = pagedisk s" "g_freePageCount (wr32 a v s) = g_freePageCount s"
  by (simp_all add: wr32_def)

lemmas entry_defs = set_present_def set_pflags_def set_kernelInfo_def set_base_def

lemma entry_frame [simp]:
  "pageList (set_present a v s) = pageList s" "freeList (set_present a v s) = freeList s"
  "int_flag (set_present a v s) = int_flag s" "swapMap (set_present a v s) = swapMap s"
  "pageList (set_pflags a v s) = pageList s" "freeList (set_pflags a v s) = freeList s"
  "int_flag (set_pflags a v s) = int_flag s" "swapMap (set_pflags a v s) = swapMap s"
  "pageList (set_kernelInfo a v s) = pageList s" "freeList (set_kernelInfo a v s) = freeList s"
  "int_flag (set_kernelInfo a v s) = int_flag s" "swapMap (set_kernelInfo a v s) = swapMap s"
  "pageList (set_base a v s) = pageList s" "freeList (set_base a v s) = freeList s"
  "int_flag (set_base a v s) = int_flag s" "swapMap (set_base a v s) = swapMap s"
  "g_freePageCount (set_present a v s) = g_freePageCount s"
  "g_freePageCount (set_pflags a v s) = g_freePageCount s"
  "g_freePageCount (set_kernelInfo a v s) = g_freePageCount s"
  "g_freePageCount (set_base a v s) = g_freePageCount s"
  by (simp_all add: entry_defs)

lemma clear_frame_simps [simp]:
  "pageList (clear_frame a s) = pageList s" "freeList (clear_frame a s) = freeList s"
  "int_flag (clear_frame a s) = int_flag s" "g_freePageCount (clear_frame a s) = g_freePageCount s"
  by (simp_all add: clear_frame_def)

text \<open>Entry \<open>k\<close> of the table in frame \<open>f\<close> is word \<open>f * 1024 + k\<close>.\<close>

lemma entry_addr:
  assumes "f < 2 ^ 20" "k < 1024"
  shows "unat (Get_Page_Address f + 4 * word_of_nat k) div 4 = f * 1024 + k"
proof -
  have "unat (4 * word_of_nat k :: u32) = 4 * k"
    using assms(2) by (simp add: unat_word_ariths unsigned_of_nat take_bit_nat_eq_self)
  moreover have "f * 4096 + 4 * k < 2 ^ 32" using assms by simp
  ultimately have "unat (Get_Page_Address f + 4 * word_of_nat k) = f * 4096 + 4 * k"
    using assms(1) by (simp add: unat_plus_if' Get_Page_Address_nat)
  then show ?thesis by simp
qed

lemma frame_word: "f < 2 ^ 20 \<Longrightarrow> unat (Get_Page_Address f) div 4 = f * 1024"
  by (simp add: Get_Page_Address_nat)

lemma base_frame: "f < 2 ^ 20 \<Longrightarrow> push_bit 12 (word_of_nat f) = Get_Page_Address f"
  by (simp add: Get_Page_Address_def)

lemma aligned_frame: "f < 2 ^ 20 \<Longrightarrow> PAGE_ALLIGNED_ADDR (Get_Page_Address f) = word_of_nat f"
proof -
  assume f: "f < 2 ^ 20"
  have "unat (PAGE_ALLIGNED_ADDR (Get_Page_Address f)) = f"
    using Page_Index_Address [OF f] by (simp add: PAGE_ALLIGNED_ADDR_def Page_Index_def)
  with f show ?thesis by (simp add: word_unat_eq_iff unsigned_of_nat take_bit_nat_eq_self)
qed

text \<open>The fields of an entry after the writes the code makes.\<close>

lemma take_bit_frame: "f < 2 ^ 20 \<Longrightarrow> take_bit 20 (word_of_nat f :: u32) = word_of_nat f"
  by (rule take_bit_id) (simp add: unsigned_of_nat take_bit_nat_eq_self)

lemma entry_fields [simp]:
  "pte_present (bf_set 0 1 v w) = take_bit 1 v" "pte_present (bf_set 1 4 v w) = pte_present w"
  "pte_present (bf_set 9 3 v w) = pte_present w" "pte_present (bf_set 12 20 v w) = pte_present w"
  "pte_kernelInfo (bf_set 0 1 v w) = pte_kernelInfo w" "pte_kernelInfo (bf_set 1 4 v w) = pte_kernelInfo w"
  "pte_kernelInfo (bf_set 9 3 v w) = take_bit 3 v" "pte_kernelInfo (bf_set 12 20 v w) = pte_kernelInfo w"
  "pte_base (bf_set 0 1 v w) = pte_base w" "pte_base (bf_set 1 4 v w) = pte_base w"
  "pte_base (bf_set 9 3 v w) = pte_base w" "pte_base (bf_set 12 20 v w) = take_bit 20 v"
  by (simp_all add: pte_present_def pte_kernelInfo_def pte_base_def bf_get_set_same bf_get_set_other)

lemmas entry_fields' [simp] = entry_fields [unfolded One_nat_def]

lemma take_bit_1_1 [simp]: "take_bit 1 (1 :: u32) = 1" "take_bit (Suc 0) (1 :: u32) = 1"
  by (simp_all add: take_bit_eq_mask mask_eq_exp_minus_1)

lemma entry_zero [simp]: "pte_present 0 = 0" "pte_base 0 = 0" "pte_kernelInfo 0 = 0"
  by (simp_all add: pte_present_def pte_base_def pte_kernelInfo_def)

section \<open>Page transfers\<close>

text \<open>The sectors of one slot are different sectors.\<close>

lemma page_sector_inj:
  assumes "i < 8" "j < 8"
  shows "page_sector s k i = page_sector s k j \<longleftrightarrow> i = j"
proof -
  have small: "unat (word_of_nat n :: u32) = n" if "n < 8" for n
    using that by (simp add: unsigned_of_nat take_bit_nat_eq_self)
  have "page_sector s k i = page_sector s k j \<longleftrightarrow> (word_of_nat i :: u32) = word_of_nat j"
    by (simp add: page_sector_def word_unat_eq_iff [symmetric])
  then show ?thesis using small [OF assms(1)] small [OF assms(2)] by (metis word_unat_eq_iff)
qed

text \<open>What the transfer of a page relies on while it blocks: the other threads leave the
  device's geometry, the page in memory and the slot on disk alone.\<close>

definition leaves_alone ::
  "(nat \<Rightarrow> vm_state \<Rightarrow> vm_state) \<Rightarrow> u32 \<Rightarrow> nat \<Rightarrow> bool" where
  "leaves_alone env paddr k \<longleftrightarrow> (\<forall>i s. startSector (env i s) = startSector s \<and>
     length (swapMap (env i s)) = length (swapMap s) \<and>
     (\<forall>w < 1024. phys (env i s) (unat paddr div 4 + w) = phys s (unat paddr div 4 + w)) \<and>
     (\<forall>j < 8. pagedisk (env i s) (page_sector s k j) = pagedisk s (page_sector s k j)))"

lemma page_sector_cong: "startSector s = startSector t \<Longrightarrow> page_sector s k i = page_sector t k i"
  by (simp add: page_sector_def)

lemma write_sector_step:
  assumes "leaves_alone env paddr k" "i < 8" "io_ok (page_sector s k i)"
  defines "s' \<equiv> write_sector io_ok env paddr k i s"
  shows "startSector s' = startSector s" "length (swapMap s') = length (swapMap s)"
    "w < 1024 \<Longrightarrow> phys s' (unat paddr div 4 + w) = phys s (unat paddr div 4 + w)"
    "j < 8 \<Longrightarrow> j \<noteq> i \<Longrightarrow> pagedisk s' (page_sector s k j) = pagedisk s (page_sector s k j)"
    "v < 128 \<Longrightarrow> pagedisk s' (page_sector s k i) v = phys s (unat paddr div 4 + (i * 128 + v))"
proof -
  let ?e = "env i s"
  have env: "startSector ?e = startSector s" "length (swapMap ?e) = length (swapMap s)"
    "\<forall>w < 1024. phys ?e (unat paddr div 4 + w) = phys s (unat paddr div 4 + w)"
    "\<forall>j < 8. pagedisk ?e (page_sector s k j) = pagedisk s (page_sector s k j)"
    using assms(1) by (auto simp: leaves_alone_def)
  have sec: "page_sector ?e k j = page_sector s k j" for j
    by (rule page_sector_cong [OF env(1)])
  have s': "s' = ?e\<lparr>pagedisk := (pagedisk ?e)(page_sector s k i :=
      (\<lambda>w. phys ?e (unat paddr div 4 + i * 128 + w)))\<rparr>"
    using assms(3) unfolding s'_def write_sector_def Let_def sec by simp
  show "startSector s' = startSector s" "length (swapMap s') = length (swapMap s)"
    using env(1,2) by (simp_all add: s')
  show "phys s' (unat paddr div 4 + w) = phys s (unat paddr div 4 + w)" if "w < 1024"
    using env(3) that by (simp add: s')
  show "pagedisk s' (page_sector s k j) = pagedisk s (page_sector s k j)" if "j < 8" "j \<noteq> i"
    using env(4) that page_sector_inj [OF that(1) assms(2)] by (simp add: s')
  show "pagedisk s' (page_sector s k i) v = phys s (unat paddr div 4 + (i * 128 + v))" if "v < 128"
  proof -
    have "i * 128 + v < 1024" using assms(2) that by simp
    with env(3) have "phys ?e (unat paddr div 4 + (i * 128 + v)) = phys s (unat paddr div 4 + (i * 128 + v))"
      by blast
    then show ?thesis by (simp add: s' add.assoc)
  qed
qed

lemma write_sectors:
  assumes "leaves_alone env paddr k" "\<forall>i < 8. io_ok (page_sector s k i)" "n \<le> 8"
  defines "s' \<equiv> fold (write_sector io_ok env paddr k) [0..<n] s"
  shows "startSector s' = startSector s \<and> length (swapMap s') = length (swapMap s) \<and>
    (\<forall>w < 1024. phys s' (unat paddr div 4 + w) = phys s (unat paddr div 4 + w)) \<and>
    (\<forall>i < n. \<forall>v < 128. pagedisk s' (page_sector s k i) v = phys s (unat paddr div 4 + (i * 128 + v)))"
  unfolding s'_def using assms(3)
proof (induction n)
  case (Suc n)
  let ?t = "fold (write_sector io_ok env paddr k) [0..<n] s"
  let ?u = "write_sector io_ok env paddr k n ?t"
  from Suc have IH: "startSector ?t = startSector s" "length (swapMap ?t) = length (swapMap s)"
    "\<forall>w < 1024. phys ?t (unat paddr div 4 + w) = phys s (unat paddr div 4 + w)"
    "\<forall>i < n. \<forall>v < 128. pagedisk ?t (page_sector s k i) v = phys s (unat paddr div 4 + (i * 128 + v))"
    by auto
  have sec: "page_sector ?t k i = page_sector s k i" for i by (rule page_sector_cong [OF IH(1)])
  have n: "n < 8" "io_ok (page_sector ?t k n)" using Suc.prems assms(2) by (simp_all add: sec)
  note step = write_sector_step [where s = ?t and io_ok = io_ok, OF assms(1) n, unfolded sec]
  have "pagedisk ?u (page_sector s k i) v = phys s (unat paddr div 4 + (i * 128 + v))"
    if "i < Suc n" "v < 128" for i v
  proof (cases "i = n")
    case True
    have "n * 128 + v < 1024" using n that by simp
    with True step(5) [OF that(2)] IH(3) show ?thesis by simp
  next
    case False
    with that have "i < n" by simp
    with step(4) [of i] n IH(4) that show ?thesis by simp
  qed
  with step(1-3) IH(1-3) show ?case by simp
qed simp

lemma read_sector_step:
  assumes "leaves_alone env paddr k" "i < 8" "io_ok (page_sector s k i)"
  defines "s' \<equiv> read_sector io_ok env paddr k i s"
  shows "startSector s' = startSector s"
    "j < 8 \<Longrightarrow> pagedisk s' (page_sector s k j) = pagedisk s (page_sector s k j)"
    "w < 1024 \<Longrightarrow> \<not> (i * 128 \<le> w \<and> w < i * 128 + 128) \<Longrightarrow>
      phys s' (unat paddr div 4 + w) = phys s (unat paddr div 4 + w)"
    "v < 128 \<Longrightarrow> phys s' (unat paddr div 4 + (i * 128 + v)) = pagedisk s (page_sector s k i) v"
proof -
  let ?e = "env i s"
  have env: "startSector ?e = startSector s" "length (swapMap ?e) = length (swapMap s)"
    "\<forall>w < 1024. phys ?e (unat paddr div 4 + w) = phys s (unat paddr div 4 + w)"
    "\<forall>j < 8. pagedisk ?e (page_sector s k j) = pagedisk s (page_sector s k j)"
    using assms(1) by (auto simp: leaves_alone_def)
  have sec: "page_sector ?e k j = page_sector s k j" for j
    by (rule page_sector_cong [OF env(1)])
  let ?b = "unat paddr div 4 + i * 128"
  have s': "s' = ?e\<lparr>phys := (\<lambda>w. if ?b \<le> w \<and> w < ?b + 128
      then pagedisk ?e (page_sector s k i) (w - ?b) else phys ?e w)\<rparr>"
    using assms(3) unfolding s'_def read_sector_def Let_def sec by simp
  show "startSector s' = startSector s" using env(1) by (simp add: s')
  show "pagedisk s' (page_sector s k j) = pagedisk s (page_sector s k j)" if "j < 8"
    using env(4) that by (simp add: s')
  show "phys s' (unat paddr div 4 + w) = phys s (unat paddr div 4 + w)"
    if "w < 1024" "\<not> (i * 128 \<le> w \<and> w < i * 128 + 128)"
    using env(3) that by (auto simp: s')
  show "phys s' (unat paddr div 4 + (i * 128 + v)) = pagedisk s (page_sector s k i) v" if "v < 128"
    using env(4) that assms(2) by (simp add: s')
qed

lemma read_sectors:
  assumes "leaves_alone env paddr k" "\<forall>i < 8. io_ok (page_sector s k i)" "n \<le> 8"
  defines "s' \<equiv> fold (read_sector io_ok env paddr k) [0..<n] s"
  shows "startSector s' = startSector s \<and>
    (\<forall>j < 8. pagedisk s' (page_sector s k j) = pagedisk s (page_sector s k j)) \<and>
    (\<forall>i < n. \<forall>v < 128. phys s' (unat paddr div 4 + (i * 128 + v)) = pagedisk s (page_sector s k i) v)"
  unfolding s'_def using assms(3)
proof (induction n)
  case (Suc n)
  let ?t = "fold (read_sector io_ok env paddr k) [0..<n] s"
  let ?u = "read_sector io_ok env paddr k n ?t"
  from Suc have IH: "startSector ?t = startSector s"
    "\<forall>j < 8. pagedisk ?t (page_sector s k j) = pagedisk s (page_sector s k j)"
    "\<forall>i < n. \<forall>v < 128. phys ?t (unat paddr div 4 + (i * 128 + v)) = pagedisk s (page_sector s k i) v"
    by auto
  have sec: "page_sector ?t k i = page_sector s k i" for i by (rule page_sector_cong [OF IH(1)])
  have n: "n < 8" "io_ok (page_sector ?t k n)" using Suc.prems assms(2) by (simp_all add: sec)
  note step = read_sector_step [where s = ?t and io_ok = io_ok, OF assms(1) n, unfolded sec]
  have "phys ?u (unat paddr div 4 + (i * 128 + v)) = pagedisk s (page_sector s k i) v"
    if "i < Suc n" "v < 128" for i v
  proof (cases "i = n")
    case True
    with step(4) [OF that(2)] IH(2) n show ?thesis by simp
  next
    case False
    with that have i: "i < n" by simp
    have "i * 128 + v < 1024 \<and> \<not> (n * 128 \<le> i * 128 + v)"
      using i n that(2) by linarith
    with step(3) [of "i * 128 + v"] IH(3) i that(2) show ?thesis by simp
  qed
  with step(1,2) IH(1,2) show ?case by simp
qed simp

section \<open>Eviction\<close>

text \<open>What an eviction relies on while the victim's contents are written.\<close>

definition keeps_victim :: "(nat \<Rightarrow> vm_state \<Rightarrow> vm_state) \<Rightarrow> nat \<Rightarrow> bool" where
  "keeps_victim env v \<longleftrightarrow> (\<forall>i s. int_flag (env i s) = int_flag s \<and>
     length (pageList (env i s)) = length (pageList s) \<and> pageList (env i s) ! v = pageList s ! v \<and>
     length (swapMap (env i s)) = length (swapMap s))"

lemma write_sector_keeps:
  fixes io_ok paddr k i s
  assumes "keeps_victim env v"
  defines "s' \<equiv> write_sector io_ok env paddr k i s"
  shows "int_flag s' = int_flag s \<and> length (pageList s') = length (pageList s) \<and>
    pageList s' ! v = pageList s ! v \<and> length (swapMap s') = length (swapMap s)"
  using assms by (auto simp: keeps_victim_def write_sector_def Let_def)

lemma write_sectors_keep:
  assumes "keeps_victim env v"
  shows "int_flag (fold (write_sector io_ok env paddr k) is s) = int_flag s \<and>
    length (pageList (fold (write_sector io_ok env paddr k) is s)) = length (pageList s) \<and>
    pageList (fold (write_sector io_ok env paddr k) is s) ! v = pageList s ! v \<and>
    length (swapMap (fold (write_sector io_ok env paddr k) is s)) = length (swapMap s)"
  by (induction "is" arbitrary: s) (auto simp: write_sector_keeps [OF assms])

lemma Write_To_Paging_File_keeps:
  assumes "keeps_victim env v" "Page_Index paddr < length (pageList s)"
    "\<not> has_flag PAGE_PAGEABLE (pageList s ! Page_Index paddr)" "k < length (swapMap s)"
  shows "\<exists>s'. Write_To_Paging_File io_ok env paddr va k s = Some s' \<and>
    int_flag s' = int_flag s \<and> length (pageList s') = length (pageList s) \<and>
    pageList s' ! v = pageList s ! v \<and> length (swapMap s') = length (swapMap s) \<and> swapMap s' ! k = 1"
proof -
  let ?s = "fold (write_sector io_ok env paddr k) [0..<8] s"
  have "int_flag ?s = int_flag s \<and> length (pageList ?s) = length (pageList s) \<and>
      pageList ?s ! v = pageList s ! v \<and> length (swapMap ?s) = length (swapMap s)"
    by (rule write_sectors_keep [OF assms(1)])
  then show ?thesis
    using assms(2-4)
    by (simp add: Write_To_Paging_File_def Get_Page_def Let_def del: upt_rec_numeral)
qed

lemma pte_val_words:
  assumes "k < 2 ^ 20"
  shows "pte_present (bf_set 12 20 (word_of_nat k) (bf_set 9 3 4 (bf_set 0 1 0 w))) = 0 \<and>
    pte_kernelInfo (bf_set 12 20 (word_of_nat k) (bf_set 9 3 4 (bf_set 0 1 0 w))) = 4 \<and>
    pte_base (bf_set 12 20 (word_of_nat k) (bf_set 9 3 4 (bf_set 0 1 0 w))) = word_of_nat k"
proof -
  have "take_bit 3 (4 :: u32) = 4" by (rule take_bit_id) simp
  with take_bit_frame [OF assms] show ?thesis by simp
qed

lemma finish_eviction_eq:
  assumes "i < length (pageList s)" "has_flag PAGE_ALLOCATED (pageList s ! i)"
  defines "e \<equiv> pg_entry (pageList s ! i)"
  shows "finish_eviction i k s = Some (put_page i (clear_flag PAGE_LOCKED (pageList s ! i))
    (set_base e (word_of_nat k) (set_kernelInfo e KINFO_PAGE_ON_DISK (set_present e 0 s))))"
  using assms by (simp add: finish_eviction_def Let_def)

lemma page_sel_upd [simp]:
  "pg_entry (set_flag f p) = pg_entry p" "pg_entry (clear_flag f p) = pg_entry p"
  "vaddr (set_flag f p) = vaddr p" "vaddr (clear_flag f p) = vaddr p"
  by (simp_all add: set_flag_def clear_flag_def)

text \<open>The whole eviction: the victim's old entry says where the contents are, and the page
  belongs to the new entry.\<close>

lemma Alloc_Pageable_Page_evicts:
  assumes "freeList s = []" "Is_Page_Multiple va" "Find_Page_To_Page_Out s = Some v"
    "v < 2 ^ 20" "find_space_from (swapMap s) 0 (unat (totalPage s)) = Some (int k)"
    "k < length (swapMap s)" "k < 2 ^ 20" "keeps_victim env v"
    "unat e div 4 \<noteq> unat (pg_entry (pageList s ! v)) div 4"
  shows "\<exists>s'. Alloc_Pageable_Page io_ok env e va s = Some (Get_Page_Address v, s') \<and>
    int_flag s' = int_flag s \<and> length (swapMap s') = length (swapMap s) \<and> swapMap s' ! k = 1 \<and>
    (let old = rd32 s' (pg_entry (pageList s ! v)) in
      pte_present old = 0 \<and> pte_kernelInfo old = KINFO_PAGE_ON_DISK \<and> pte_base old = word_of_nat k) \<and>
    pte_kernelInfo (rd32 s' e) = 0 \<and> v < length (pageList s') \<and>
    pg_entry (pageList s' ! v) = e \<and> vaddr (pageList s' ! v) = va \<and>
    evictable (pageList s' ! v) \<and> \<not> has_flag PAGE_LOCKED (pageList s' ! v)"
proof -
  let ?p = "pageList s ! v"
  let ?p' = "set_flag PAGE_LOCKED (clear_flag PAGE_PAGEABLE ?p)"
  have v: "v < length (pageList s)" "has_flag PAGE_PAGEABLE ?p" "has_flag PAGE_ALLOCATED ?p"
    using Find_Page_To_Page_Out_spec [of s] assms(3) by (auto simp: evictable_def)
  define s1 where "s1 = put_page v ?p' s\<lparr>int_flag := True\<rparr>"
  have idx: "Page_Index (Get_Page_Address v) = v" using assms(4) by (rule Page_Index_Address)
  have s1: "Page_Index (Get_Page_Address v) < length (pageList s1)"
    "\<not> has_flag PAGE_PAGEABLE (pageList s1 ! Page_Index (Get_Page_Address v))"
    "k < length (swapMap s1)" "int_flag s1" "length (pageList s1) = length (pageList s)"
    "pageList s1 ! v = ?p'" "length (swapMap s1) = length (swapMap s)"
    using v(1) assms(6) by (simp_all add: s1_def idx put_page_def)
  obtain s2 where s2: "Write_To_Paging_File io_ok env (Get_Page_Address v) (vaddr ?p) k s1 = Some s2"
    "int_flag s2" "length (pageList s2) = length (pageList s)" "pageList s2 ! v = ?p'"
    "length (swapMap s2) = length (swapMap s)" "swapMap s2 ! k = 1"
    using Write_To_Paging_File_keeps [OF assms(8) s1(1-3)] s1(4-7) by auto
  have alloc: "Alloc_Page (s\<lparr>int_flag := False\<rparr>) = Some (0, s\<lparr>int_flag := False\<rparr>)"
    using assms(1) by (intro Alloc_Page_empty) simp
  have victim: "Find_Page_To_Page_Out (s\<lparr>int_flag := False\<rparr>) = Some v"
    using assms(3) by (simp add: Find_Page_To_Page_Out_def)
  have space: "Find_Space_On_Paging_File (s\<lparr>int_flag := False\<rparr>) = Some (int k)"
    using assms(5) by (simp add: Find_Space_On_Paging_File_def)
  have s1': "put_page v ?p' (s\<lparr>int_flag := False\<rparr>)\<lparr>int_flag := True\<rparr> = s1"
    by (simp add: s1_def put_page_def)
  have fin: "finish_eviction v k (s2\<lparr>int_flag := False\<rparr>) = Some (put_page v (clear_flag PAGE_LOCKED ?p')
    (set_base (pg_entry ?p) (word_of_nat k) (set_kernelInfo (pg_entry ?p) 4 (set_present (pg_entry ?p) 0
       (s2\<lparr>int_flag := False\<rparr>)))))"
    using finish_eviction_eq [of v "s2\<lparr>int_flag := False\<rparr>" k] s2(3,4) v by simp
  show ?thesis
    using alloc victim space s2 v fin assms(2,9) pte_val_words [OF assms(7)]
    by (simp add: Alloc_Pageable_Page_def Let_def s1' Get_Page_def idx rd32_def evictable_def
        fun_upd_def)
qed

section \<open>Well-formed page directories\<close>

text \<open>The directory in frame \<open>P\<close>: an entry is present exactly when it names a table, tables
  of different entries are different frames, and neither they nor the directory are free.\<close>

definition pde_word :: "vm_state \<Rightarrow> nat \<Rightarrow> nat \<Rightarrow> u32" where
  "pde_word s P d = phys s (P * 1024 + d)"

definition table_of :: "vm_state \<Rightarrow> nat \<Rightarrow> nat \<Rightarrow> nat" where
  "table_of s P d = unat (pte_base (pde_word s P d))"

definition pdir_ok :: "vm_state \<Rightarrow> nat \<Rightarrow> bool" where
  "pdir_ok s P \<longleftrightarrow> P < 2 ^ 20 \<and> P \<notin> set (freeList s) \<and>
     (\<forall>d < 1024. pte_present (pde_word s P d) = 0 \<longleftrightarrow> table_of s P d = 0) \<and>
     (\<forall>d < 1024. table_of s P d \<noteq> 0 \<longrightarrow> table_of s P d \<notin> set (freeList s) \<and> table_of s P d \<noteq> P) \<and>
     (\<forall>d < 1024. \<forall>d' < 1024. table_of s P d \<noteq> 0 \<longrightarrow> table_of s P d = table_of s P d' \<longrightarrow> d = d')"

lemma PDI_lt: "PAGE_DIRECTORY_INDEX va < 1024"
  using unat_lt_32 [of va] by (simp add: PAGE_DIRECTORY_INDEX_nat less_mult_imp_div_less)

lemma PTI_lt: "PAGE_TABLE_INDEX va < 1024"
  by (simp add: PAGE_TABLE_INDEX_nat)

lemma pte_base_lt: "unat (pte_base w) < 2 ^ 20"
proof -
  have "unat (pte_base w) = take_bit 20 (unat (drop_bit 12 w))"
    by (simp add: pte_base_def bf_get_def unsigned_take_bit_eq)
  then show ?thesis by (simp only: take_bit_nat_less_exp)
qed

lemma table_of_lt: "table_of s P d < 2 ^ 20"
  unfolding table_of_def by (rule pte_base_lt)

lemma word_idx_inj:
  "k < 1024 \<Longrightarrow> k' < 1024 \<Longrightarrow> (f * 1024 + k = f' * 1024 + k') \<longleftrightarrow> f = f' \<and> k = (k' :: nat)"
proof -
  assume k: "k < 1024" "k' < 1024"
  have "(f * 1024 + k) div 1024 = f" "(f' * 1024 + k') div 1024 = f'"
    "(f * 1024 + k) mod 1024 = k" "(f' * 1024 + k') mod 1024 = k'" using k by simp_all
  then show ?thesis by metis
qed

lemma word_of_unat_eq: "word_of_nat (unat (w :: u32)) = w"
  by simp

lemma mmu_frame_words:
  assumes "P < 2 ^ 20"
  shows "mmu_frame s (Get_Page_Address P) va =
    (if pte_present (pde_word s P (PAGE_DIRECTORY_INDEX va)) = 0 then None
     else let w = phys s (table_of s P (PAGE_DIRECTORY_INDEX va) * 1024 + PAGE_TABLE_INDEX va) in
       if pte_present w = 0 then None else Some (pte_base w))"
proof -
  let ?w = "pde_word s P (PAGE_DIRECTORY_INDEX va)"
  have d: "rd32 s (Get_Page_Address P + 4 * word_of_nat (PAGE_DIRECTORY_INDEX va)) = ?w"
    by (simp add: rd32_def pde_word_def entry_addr [OF assms PDI_lt])
  have "push_bit 12 (pte_base ?w) = Get_Page_Address (table_of s P (PAGE_DIRECTORY_INDEX va))"
    by (simp add: Get_Page_Address_def table_of_def)
  then have t: "rd32 s (push_bit 12 (pte_base ?w) + 4 * word_of_nat (PAGE_TABLE_INDEX va)) =
      phys s (table_of s P (PAGE_DIRECTORY_INDEX va) * 1024 + PAGE_TABLE_INDEX va)"
    by (simp add: rd32_def entry_addr [OF table_of_lt PTI_lt])
  show ?thesis unfolding mmu_frame_def d Let_def t ..
qed

text \<open>Writing one entry of a table changes the translation of one page.\<close>

lemma write_entry_mmu:
  assumes ok: "pdir_ok s P" and T: "T = table_of s P d" "T \<noteq> 0" "d < 1024" "k < 1024"
    and s': "phys s' = (phys s)(T * 1024 + k := w)" "set (freeList s') \<subseteq> set (freeList s)"
  shows "pdir_ok s' P" and "pte_present w \<noteq> 0 \<Longrightarrow> mmu_frame s' (Get_Page_Address P) va =
    (if PAGE_DIRECTORY_INDEX va = d \<and> PAGE_TABLE_INDEX va = k then Some (pte_base w)
     else mmu_frame s (Get_Page_Address P) va)"
proof -
  have P: "P < 2 ^ 20" and TP: "T \<noteq> P" using ok T by (auto simp: pdir_ok_def)
  have dir: "pde_word s' P d' = pde_word s P d'" if "d' < 1024" for d'
    using that T(4) TP word_idx_inj [of d' k P T] by (simp add: pde_word_def s'(1))
  then have tab: "table_of s' P d' = table_of s P d'" if "d' < 1024" for d'
    using that by (simp add: table_of_def)
  show "pdir_ok s' P" using ok s'(2) dir tab by (auto simp: pdir_ok_def)
  show "mmu_frame s' (Get_Page_Address P) va =
    (if PAGE_DIRECTORY_INDEX va = d \<and> PAGE_TABLE_INDEX va = k then Some (pte_base w)
     else mmu_frame s (Get_Page_Address P) va)" if w: "pte_present w \<noteq> 0"
  proof -
    let ?d = "PAGE_DIRECTORY_INDEX va" and ?k = "PAGE_TABLE_INDEX va"
    have same: "phys s' (table_of s P ?d * 1024 + ?k) =
        (if table_of s P ?d = T \<and> ?k = k then w else phys s (table_of s P ?d * 1024 + ?k))"
      using word_idx_inj [OF PTI_lt T(4), of "table_of s P ?d" va T] by (simp add: s'(1))
    have "table_of s P ?d = T \<longleftrightarrow> ?d = d"
      using ok T PDI_lt [of va] by (auto simp: pdir_ok_def)
    moreover have "pte_present (pde_word s P d) \<noteq> 0" using ok T by (auto simp: pdir_ok_def)
    ultimately show ?thesis
      using w unfolding mmu_frame_words [OF P] dir [OF PDI_lt] tab [OF PDI_lt] same
      by (auto simp: Let_def)
  qed
qed

lemma Alloc_Page_facts:
  assumes "mem_ok s" "freeList s = i # q"
  obtains s1 where "Alloc_Page s = Some (Get_Page_Address i, s1)" "mem_ok s1" "freeList s1 = q"
    "phys s1 = phys s" "int_flag s1 = int_flag s" "length (pageList s1) = length (pageList s)"
    "pageList s1 ! i = set_flag PAGE_ALLOCATED (pageList s ! i)"
    "swapMap s1 = swapMap s" "0 < i" "i < length (pageList s)" "i < 2 ^ 20" "i \<notin> set q"
    "on_freelist_ok (pageList s ! i)"
proof -
  let ?s1 = "s\<lparr>freeList := q, pageList := (pageList s)[i := set_flag PAGE_ALLOCATED (pageList s ! i)],
      g_freePageCount := g_freePageCount s - 1\<rparr>"
  have eq: "Alloc_Page s = Some (Get_Page_Address i, ?s1)" by (rule Alloc_Page_Cons [OF assms])
  have "distinct (i # q)" using assms by (simp add: mem_ok_def)
  moreover have "0 < i" "i < length (pageList s)" "i < 2 ^ 20" "on_freelist_ok (pageList s ! i)"
    using mem_okD [OF assms(1), of i] assms(2) by simp_all
  moreover have "pageList ?s1 ! i = set_flag PAGE_ALLOCATED (pageList s ! i)"
    using calculation by simp
  ultimately show ?thesis
    using that [OF eq Alloc_Page_ok [OF assms eq]] by simp
qed

lemma mem_ok_cong:
  "pageList s' = pageList s \<Longrightarrow> freeList s' = freeList s \<Longrightarrow> g_freePageCount s' = g_freePageCount s \<Longrightarrow>
   mem_ok s' = mem_ok s"
  by (simp add: mem_ok_def)

text \<open>A fresh table, cleared and entered in the directory with the flags \<open>fl\<close>.\<close>

definition link_table :: "u32 \<Rightarrow> u32 \<Rightarrow> u32 \<Rightarrow> vm_state \<Rightarrow> vm_state" where
  "link_table fl a pt s = set_pflags a fl (set_present a 1 (set_base a (PAGE_ALLIGNED_ADDR pt) (clear_frame pt s)))"

lemma link_table_ok:
  fixes fl :: u32
  assumes ok: "pdir_ok s P" and mem: "mem_ok s" and free: "freeList s = i # q" and d: "d < 1024"
    and True: "table_of s P d = 0"
  defines "a \<equiv> Get_Page_Address P + 4 * word_of_nat d"
  shows "\<exists>s0. Alloc_Page s = Some (Get_Page_Address i, s0) \<and>
    (let s1 = link_table fl a (Get_Page_Address i) s0 in
      pdir_ok s1 P \<and> mem_ok s1 \<and> freeList s1 = q \<and> int_flag s1 = int_flag s \<and>
      length (pageList s1) = length (pageList s) \<and> 0 < i \<and> i < 2 ^ 20 \<and>
      (\<forall>c < 1024. table_of s1 P c = (if c = d then i else table_of s P c)) \<and>
      (\<forall>c < 1024. c \<noteq> d \<longrightarrow> pde_word s1 P c = pde_word s P c) \<and>
      (\<forall>c < 1024. table_of s P c \<noteq> i) \<and> (\<forall>k < 1024. phys s1 (i * 1024 + k) = 0) \<and>
      (\<forall>T k. T \<noteq> i \<longrightarrow> T \<noteq> P \<longrightarrow> k < 1024 \<longrightarrow> phys s1 (T * 1024 + k) = phys s (T * 1024 + k)))"
proof -
  have P: "P < 2 ^ 20" "P \<notin> set (freeList s)" using ok by (auto simp: pdir_ok_def)
  have a: "unat a div 4 = P * 1024 + d" unfolding a_def by (rule entry_addr [OF P(1) d])
  obtain s0 where s0: "Alloc_Page s = Some (Get_Page_Address i, s0)" "mem_ok s0" "freeList s0 = q"
    "phys s0 = phys s" "int_flag s0 = int_flag s" "0 < i" "i < 2 ^ 20" "i \<notin> set q"
    "length (pageList s0) = length (pageList s)"
    by (rule Alloc_Page_facts [OF mem free])
  define s1 where "s1 = link_table fl a (Get_Page_Address i) s0"
  have iP: "i \<noteq> P" using P(2) free by auto
  let ?w = "bf_set 1 4 fl (bf_set 0 1 1 (bf_set 12 20 (word_of_nat i) (pde_word s P d)))"
  have ph: "phys s1 x = (if x = P * 1024 + d then ?w
      else if i * 1024 \<le> x \<and> x < i * 1024 + 1024 then 0 else phys s x)" for x
  proof -
    have "\<not> (i * 1024 \<le> P * 1024 + d \<and> P * 1024 + d < i * 1024 + 1024)"
      using iP d by linarith
    then show ?thesis
      using s0(4,7) aligned_frame [OF s0(7)] by (auto simp: s1_def link_table_def a clear_frame_def frame_word pde_word_def)
  qed
  have w: "pte_present ?w = 1" "pte_base ?w = word_of_nat i"
    using s0(7) by (simp_all add: take_bit_frame)
  have ui: "unat (word_of_nat i :: u32) = i"
    using s0(7) by (simp add: unsigned_of_nat take_bit_nat_eq_self)
  have dir: "pde_word s1 P d' = (if d' = d then ?w else pde_word s P d')" if "d' < 1024" for d'
    using that iP d by (auto simp: pde_word_def ph)
  have tab: "table_of s1 P d' = (if d' = d then i else table_of s P d')" if "d' < 1024" for d'
    using that w ui by (simp add: table_of_def dir)
  have old: "table_of s P d' \<noteq> i" if "d' < 1024" for d'
    using ok that free s0(6) by (auto simp: pdir_ok_def)
  have flist: "freeList s1 = q" using s0(3) by (simp add: s1_def link_table_def)
  have pd: "pdir_ok s1 P"
    unfolding pdir_ok_def
  proof (intro conjI allI impI)
    show "P < 2 ^ 20" "P \<notin> set (freeList s1)" using P free by (simp_all add: flist)
    fix c :: nat assume c: "c < 1024"
    show "pte_present (pde_word s1 P c) = 0 \<longleftrightarrow> table_of s1 P c = 0"
      using c ok w(1) s0(6) by (simp add: dir tab pdir_ok_def del: entry_fields entry_fields')
    show "table_of s1 P c \<notin> set (freeList s1)" "table_of s1 P c \<noteq> P" if "table_of s1 P c \<noteq> 0"
      using c ok that s0(8) iP free by (auto simp: tab flist pdir_ok_def split: if_splits)
    fix c' :: nat assume "c' < 1024" "table_of s1 P c \<noteq> 0" "table_of s1 P c = table_of s1 P c'"
    then show "c = c'"
      using c ok old by (auto simp: tab pdir_ok_def split: if_splits)
  qed
  have zero: "phys s1 (i * 1024 + k) = 0" if "k < 1024" for k
    using that iP d by (auto simp: ph)
  have other: "phys s1 (T * 1024 + k) = phys s (T * 1024 + k)" if "T \<noteq> i" "T \<noteq> P" "k < 1024" for T k
    using that d word_idx_inj [of k d T P] by (auto simp: ph)
  have pde: "pde_word s1 P c = pde_word s P c" if "c < 1024" "c \<noteq> d" for c
    using that by (simp add: dir)
  have "mem_ok s1" using s0(2) by (subst mem_ok_cong [of _ s0]) (simp_all add: s1_def link_table_def)
  moreover have "int_flag s1 = int_flag s" "length (pageList s1) = length (pageList s)"
    using s0(5,9) by (simp_all add: s1_def link_table_def)
  ultimately show ?thesis
    using s0(1,6,7) pd flist tab old zero other pde unfolding s1_def Let_def by blast
qed

lemma find_page_table_ok:
  assumes ok: "pdir_ok s P" and mem: "mem_ok s" and free: "freeList s = i # q" and d: "d < 1024"
  shows "\<exists>T s1. find_page_table (Get_Page_Address P + 4 * word_of_nat d) s = Some (Get_Page_Address T, s1) \<and>
    pdir_ok s1 P \<and> mem_ok s1 \<and> T = table_of s1 P d \<and> T \<noteq> 0 \<and>
    (\<forall>va. mmu_frame s1 (Get_Page_Address P) va = mmu_frame s (Get_Page_Address P) va) \<and>
    int_flag s1 = int_flag s \<and> (freeList s1 = freeList s \<and> s1 = s \<or> freeList s1 = q \<and>
      (\<forall>k < 1024. phys s1 (T * 1024 + k) = 0))"
proof -
  have P: "P < 2 ^ 20" using ok by (simp add: pdir_ok_def)
  let ?a = "Get_Page_Address P + 4 * word_of_nat d"
  have rd: "rd32 s ?a = pde_word s P d"
    by (simp add: rd32_def pde_word_def entry_addr [OF P d])
  show ?thesis
  proof (cases "table_of s P d = 0")
    case False
    with rd have "find_page_table ?a s = Some (Get_Page_Address (table_of s P d), s)"
      by (simp add: find_page_table_def table_of_def Get_Page_Address_def unat_eq_0)
    with False ok mem show ?thesis by blast
  next
    case True
    obtain s0 s1 where s1: "Alloc_Page s = Some (Get_Page_Address i, s0)"
      "s1 = link_table 3 ?a (Get_Page_Address i) s0" "pdir_ok s1 P" "mem_ok s1" "freeList s1 = q"
      "int_flag s1 = int_flag s" "0 < i" "i < 2 ^ 20"
      "\<forall>c < 1024. table_of s1 P c = (if c = d then i else table_of s P c)"
      "\<forall>c < 1024. c \<noteq> d \<longrightarrow> pde_word s1 P c = pde_word s P c"
      "\<forall>c < 1024. table_of s P c \<noteq> i" "\<forall>k < 1024. phys s1 (i * 1024 + k) = 0"
      "\<forall>T k. T \<noteq> i \<longrightarrow> T \<noteq> P \<longrightarrow> k < 1024 \<longrightarrow> phys s1 (T * 1024 + k) = phys s (T * 1024 + k)"
      using link_table_ok [OF ok mem free d True, of 3] unfolding Let_def by blast
    have find: "find_page_table ?a s = Some (Get_Page_Address i, s1)"
      using True s1(1,2) rd
      by (simp add: find_page_table_def table_of_def unat_eq_0 link_table_def Let_def)
    have mmu: "mmu_frame s1 (Get_Page_Address P) va = mmu_frame s (Get_Page_Address P) va" for va
    proof (cases "PAGE_DIRECTORY_INDEX va = d")
      case same: True
      then have "mmu_frame s1 (Get_Page_Address P) va = None"
        using d s1(9,12) PTI_lt [of va] by (simp add: mmu_frame_words [OF P])
      moreover have "mmu_frame s (Get_Page_Address P) va = None"
        using ok same d True by (simp add: mmu_frame_words [OF P] pdir_ok_def)
      ultimately show ?thesis by simp
    next
      case False
      let ?T = "table_of s P (PAGE_DIRECTORY_INDEX va)"
      have "?T \<noteq> 0 \<Longrightarrow> phys s1 (?T * 1024 + PAGE_TABLE_INDEX va) = phys s (?T * 1024 + PAGE_TABLE_INDEX va)"
        using ok s1(11,13) PDI_lt [of va] PTI_lt [of va] by (auto simp: pdir_ok_def)
      then show ?thesis
        using False ok PDI_lt [of va] s1(9,10)
        by (simp add: mmu_frame_words [OF P] pdir_ok_def)
    qed
    have "i = table_of s1 P d" using d s1(9) by simp
    with find s1(3-7,12) mmu show ?thesis by blast
  qed
qed

lemma mem_ok_put:
  assumes "mem_ok s" "j \<notin> set (freeList s)" "pageList s' = (pageList s)[j := p]"
    "freeList s' = freeList s" "g_freePageCount s' = g_freePageCount s"
  shows "mem_ok s'"
proof -
  have "(pageList s)[j := p] ! i = pageList s ! i" if "i \<in> set (freeList s)" for i
    using that assms(2) by (metis nth_list_update_neq)
  with assms show ?thesis by (auto simp: mem_ok_def)
qed

lemma Alloc_Pageable_Page_free:
  assumes mem: "mem_ok s" and free: "freeList s = j # q" and va: "Is_Page_Multiple va"
  shows "\<exists>s'. Alloc_Pageable_Page io_ok env e va s = Some (Get_Page_Address j, s') \<and> mem_ok s' \<and>
    freeList s' = q \<and> int_flag s' = int_flag s \<and> length (pageList s') = length (pageList s) \<and>
    phys s' = (phys s)(unat e div 4 := bf_set 9 3 0 (phys s (unat e div 4))) \<and>
    evictable (pageList s' ! j) \<and> vaddr (pageList s' ! j) = va \<and> pg_entry (pageList s' ! j) = e"
proof -
  have mem': "mem_ok (s\<lparr>int_flag := False\<rparr>)" "freeList (s\<lparr>int_flag := False\<rparr>) = j # q"
    using mem free by (simp_all add: mem_ok_def)
  obtain s1 where s1: "Alloc_Page (s\<lparr>int_flag := False\<rparr>) = Some (Get_Page_Address j, s1)"
    "mem_ok s1" "freeList s1 = q" "phys s1 = phys s" "\<not> int_flag s1"
    "length (pageList s1) = length (pageList s)" "pageList s1 ! j = set_flag PAGE_ALLOCATED (pageList s ! j)"
    "0 < j" "j < length (pageList s)" "j < 2 ^ 20" "j \<notin> set q" "on_freelist_ok (pageList s ! j)"
    by (rule Alloc_Page_facts [OF mem']) auto
  have idx: "Page_Index (Get_Page_Address j) = j" "Get_Page_Address j \<noteq> 0"
    using s1(8,10) by (simp_all add: Page_Index_Address Get_Page_Address_eq_0)
  let ?p = "(set_flag PAGE_PAGEABLE (pageList s1 ! j))\<lparr>pg_entry := e\<rparr>"
  let ?s' = "(put_page j (?p\<lparr>vaddr := va\<rparr>) (set_kernelInfo e 0 (put_page j ?p s1)))\<lparr>int_flag := int_flag s\<rparr>"
  have "Alloc_Pageable_Page io_ok env e va s = Some (Get_Page_Address j, ?s')"
    using s1 idx va by (simp add: Alloc_Pageable_Page_def Let_def Get_Page_def on_freelist_ok_def)
  moreover have "mem_ok ?s'"
    using s1(3,11) by (intro mem_ok_put [OF s1(2), of j _ "?p\<lparr>vaddr := va\<rparr>"]) simp_all
  moreover have "evictable (pageList ?s' ! j)"
    using s1 by (simp add: evictable_def)
  ultimately show ?thesis using s1 by simp
qed

lemma word_idx_lt: "f < 2 ^ 20 \<Longrightarrow> unat (word_of_nat f :: u32) = f"
  by (simp add: unsigned_of_nat take_bit_nat_eq_self)

section \<open>Building the kernel's tables\<close>

text \<open>An entry of the kernel's tables: it maps frame \<open>g\<close>.\<close>

definition maps_frame :: "u32 \<Rightarrow> nat \<Rightarrow> bool" where
  "maps_frame w g \<longleftrightarrow> pte_present w \<noteq> 0 \<and> pte_base w = word_of_nat g"

lemma mem_ok_entry:
  assumes "mem_ok s" "idx < length (pageList s)"
  shows "mem_ok (put_page idx ((pageList s ! idx)\<lparr>pg_entry := e\<rparr>) s)"
  using assms by (auto simp: mem_ok_def nth_list_update on_freelist_ok_def)

lemma map_entries_ok:
  assumes "mem_ok s" "T < 2 ^ 20" "j + n \<le> 1024" "i < 1024" "i * 1024 + (j + n) \<le> length (pageList s)"
  shows "\<exists>s'. map_entries i (Get_Page_Address T) j n s = Some s' \<and> mem_ok s' \<and>
    freeList s' = freeList s \<and> length (pageList s') = length (pageList s) \<and> int_flag s' = int_flag s \<and>
    (\<forall>k. j \<le> k \<and> k < j + n \<longrightarrow> maps_frame (phys s' (T * 1024 + k)) (i * 1024 + k)) \<and>
    (\<forall>x. \<not> (T * 1024 + j \<le> x \<and> x < T * 1024 + j + n) \<longrightarrow> phys s' x = phys s x)"
  using assms
proof (induction n arbitrary: j s)
  case (Suc n)
  let ?idx = "i * 1024 + j"
  let ?e = "Get_Page_Address T + 4 * word_of_nat j"
  have idx: "?idx < length (pageList s)" using Suc.prems(5) by simp
  have "i * 1024 + 1024 \<le> 1024 * 1024" using Suc.prems(4) by simp
  then have i20: "?idx < 2 ^ 20" using Suc.prems(3) by simp
  let ?s1 = "put_page ?idx ((pageList s ! ?idx)\<lparr>pg_entry := ?e\<rparr>) s"
  let ?s2 = "set_pflags ?e VM_WRITE (set_present ?e 1 (set_base ?e (word_of_nat ?idx) ?s1))"
  have e: "unat ?e div 4 = T * 1024 + j"
    by (rule entry_addr) (use Suc.prems in simp_all)
  have mem: "mem_ok ?s2"
    using mem_ok_entry [OF Suc.prems(1) idx, of ?e] by (subst mem_ok_cong [of _ ?s1]) simp_all
  let ?w = "bf_set 1 4 1 (bf_set 0 1 1 (bf_set 12 20 (word_of_nat ?idx) (phys s (T * 1024 + j))))"
  have ph: "phys ?s2 = (phys s)(T * 1024 + j := ?w)" by (simp add: e)
  have w: "maps_frame ?w ?idx"
    using take_bit_frame [OF i20] by (simp add: maps_frame_def)
  have step: "map_entries i (Get_Page_Address T) j (Suc n) s = map_entries i (Get_Page_Address T) (Suc j) n ?s2"
    using idx by (simp add: Let_def)
  obtain s' where s': "map_entries i (Get_Page_Address T) (Suc j) n ?s2 = Some s'" "mem_ok s'"
    "freeList s' = freeList s" "length (pageList s') = length (pageList s)" "int_flag s' = int_flag s"
    "\<forall>k. Suc j \<le> k \<and> k < Suc j + n \<longrightarrow> maps_frame (phys s' (T * 1024 + k)) (i * 1024 + k)"
    "\<forall>x. \<not> (T * 1024 + Suc j \<le> x \<and> x < T * 1024 + Suc j + n) \<longrightarrow> phys s' x = phys ?s2 x"
    using Suc.IH [OF mem Suc.prems(2), of "Suc j"] Suc.prems by auto
  have "phys s' (T * 1024 + j) = ?w" using s'(7) unfolding ph by simp
  then have "maps_frame (phys s' (T * 1024 + k)) (i * 1024 + k)" if "j \<le> k" "k < j + Suc n" for k
    using that s'(6) w by (cases "k = j") auto
  moreover have "phys s' x = phys s x" if "\<not> (T * 1024 + j \<le> x \<and> x < T * 1024 + j + Suc n)" for x
    using that s'(7) unfolding ph by auto
  ultimately show ?case unfolding step using s'(1-5) by blast
qed auto

text \<open>The tables below \<open>i\<close> are complete, the directory is empty from \<open>i\<close> on.\<close>

definition kmap_ok :: "vm_state \<Rightarrow> nat \<Rightarrow> nat \<Rightarrow> bool" where
  "kmap_ok s P i \<longleftrightarrow> pdir_ok s P \<and> mem_ok s \<and> (\<forall>d. i \<le> d \<and> d < 1024 \<longrightarrow> table_of s P d = 0) \<and>
     (\<forall>d < i. table_of s P d \<noteq> 0 \<and>
        (\<forall>k < 1024. maps_frame (phys s (table_of s P d * 1024 + k)) (d * 1024 + k)))"

lemma map_tables_step:
  assumes ok: "kmap_ok s P i" and free: "freeList s = f # q" and i: "i < 1024"
    and len: "Suc i * 1024 \<le> length (pageList s)"
  shows "\<exists>s0 s2. Alloc_Page s = Some (Get_Page_Address f, s0) \<and>
    map_entries i (Get_Page_Address f) 0 1024
      (link_table VM_WRITE (Get_Page_Address P + 4 * word_of_nat i) (Get_Page_Address f) s0) = Some s2 \<and>
    kmap_ok s2 P (Suc i) \<and> freeList s2 = q \<and> length (pageList s2) = length (pageList s) \<and>
    int_flag s2 = int_flag s"
proof -
  let ?a = "Get_Page_Address P + 4 * word_of_nat i"
  have pd: "pdir_ok s P" and mem: "mem_ok s" and zero: "table_of s P i = 0"
    using ok i by (auto simp: kmap_ok_def)
  obtain s0 s1 where s1: "Alloc_Page s = Some (Get_Page_Address f, s0)"
    "s1 = link_table 1 ?a (Get_Page_Address f) s0" "pdir_ok s1 P" "mem_ok s1" "freeList s1 = q"
    "int_flag s1 = int_flag s" "length (pageList s1) = length (pageList s)" "0 < f" "f < 2 ^ 20"
    "\<forall>c < 1024. table_of s1 P c = (if c = i then f else table_of s P c)"
    "\<forall>c < 1024. table_of s P c \<noteq> f"
    "\<forall>T k. T \<noteq> f \<longrightarrow> T \<noteq> P \<longrightarrow> k < 1024 \<longrightarrow> phys s1 (T * 1024 + k) = phys s (T * 1024 + k)"
    using link_table_ok [OF pd mem free i zero, of 1] unfolding Let_def by blast
  obtain s2 where s2: "map_entries i (Get_Page_Address f) 0 1024 s1 = Some s2" "mem_ok s2"
    "freeList s2 = q" "length (pageList s2) = length (pageList s)" "int_flag s2 = int_flag s"
    "\<forall>k. 0 \<le> k \<and> k < 0 + 1024 \<longrightarrow> maps_frame (phys s2 (f * 1024 + k)) (i * 1024 + k)"
    "\<forall>x. \<not> (f * 1024 + 0 \<le> x \<and> x < f * 1024 + 0 + 1024) \<longrightarrow> phys s2 x = phys s1 x"
    using map_entries_ok [OF s1(4,9), of 0 1024 i] i len s1(5-7) by auto
  have fP: "f \<noteq> P" using pd free by (auto simp: pdir_ok_def)
  have other: "phys s2 (T * 1024 + k) = phys s1 (T * 1024 + k)" if "T \<noteq> f" "k < 1024" for T k
    using that s2(7) by auto
  have dir: "pde_word s2 P d = pde_word s1 P d" if "d < 1024" for d
    using other [of P d] fP that by (simp add: pde_word_def)
  then have tab: "table_of s2 P d = table_of s1 P d" if "d < 1024" for d
    using that by (simp add: table_of_def)
  have "pdir_ok s2 P" using s1(3,5) s2(3) dir tab by (simp add: pdir_ok_def)
  moreover have "table_of s2 P d = 0" if "Suc i \<le> d" "d < 1024" for d
    using that ok s1(10) by (simp add: tab kmap_ok_def)
  moreover have "table_of s2 P d \<noteq> 0 \<and>
      (\<forall>k < 1024. maps_frame (phys s2 (table_of s2 P d * 1024 + k)) (d * 1024 + k))" if "d < Suc i" for d
  proof (cases "d = i")
    case True
    then show ?thesis using s1(8,10) s2(6) i by (simp add: tab)
  next
    case False
    then have d: "d < i" "d < 1024" using that i by simp_all
    then have T: "table_of s2 P d = table_of s P d" "table_of s P d \<noteq> 0" "table_of s P d \<noteq> f" "table_of s P d \<noteq> P"
      using s1(10,11) ok pd by (auto simp: tab kmap_ok_def pdir_ok_def)
    then show ?thesis
      using d(1) ok other s1(12) by (simp add: kmap_ok_def)
  qed
  ultimately have "kmap_ok s2 P (Suc i)" using s2(2) by (simp add: kmap_ok_def)
  then show ?thesis using s1(1,2) s2 by blast
qed

lemma map_tables_ok:
  assumes "kmap_ok s P i" "i + n \<le> 1024" "(i + n) * 1024 \<le> length (pageList s)" "n \<le> length (freeList s)"
  shows "\<exists>s'. map_tables (Get_Page_Address P) i n s = Some s' \<and> kmap_ok s' P (i + n) \<and> int_flag s' = int_flag s"
  using assms
proof (induction n arbitrary: i s)
  case (Suc n)
  then obtain f q where free: "freeList s = f # q" by (cases "freeList s") auto
  from map_tables_step [OF Suc.prems(1) free] Suc.prems(2,3) obtain s0 s2 where s2:
    "Alloc_Page s = Some (Get_Page_Address f, s0)"
    "map_entries i (Get_Page_Address f) 0 1024
      (link_table 1 (Get_Page_Address P + 4 * word_of_nat i) (Get_Page_Address f) s0) = Some s2"
    "kmap_ok s2 P (Suc i)" "freeList s2 = q" "length (pageList s2) = length (pageList s)"
    "int_flag s2 = int_flag s" by auto
  have "map_tables (Get_Page_Address P) i (Suc n) s = map_tables (Get_Page_Address P) (Suc i) n s2"
    using s2(1,2) by (simp add: link_table_def Let_def del: map_entries.simps)
  with Suc.IH [OF s2(3)] Suc.prems s2(4-6) free show ?case by auto
qed simp

lemma clear_frame_kmap:
  assumes "mem_ok s" "P < 2 ^ 20" "P \<notin> set (freeList s)"
  shows "kmap_ok (clear_frame (Get_Page_Address P) s) P 0"
proof -
  let ?s = "clear_frame (Get_Page_Address P) s"
  have "pde_word ?s P d = 0" if "d < 1024" for d
    using that assms(2) by (simp add: pde_word_def clear_frame_def frame_word)
  then show ?thesis
    using assms mem_ok_cong [of ?s s] by (simp add: kmap_ok_def pdir_ok_def table_of_def)
qed

section \<open>Properties\<close>

text \<open>C29: A page that was written to the paging file and is read back, into any frame and at
  any later time while its slot is not overwritten, has the contents it had; the write marks
  the slot as taken.\<close>

theorem page_out_page_in:
  assumes "Page_Index src < length (pageList s)" "\<not> has_flag PAGE_PAGEABLE (pageList s ! Page_Index src)"
    "k < length (swapMap s)" "\<forall>i < 8. io_ok (page_sector s k i)"
    "leaves_alone env src k" "leaves_alone env' dst k"
  shows "\<exists>s1. Write_To_Paging_File io_ok env src va k s = Some s1 \<and> swapMap s1 ! k = 1 \<and>
    (\<forall>s2. startSector s2 = startSector s1 \<and>
       (\<forall>i < 8. pagedisk s2 (page_sector s1 k i) = pagedisk s1 (page_sector s1 k i)) \<and>
       Page_Index dst < length (pageList s2) \<longrightarrow>
       (\<exists>s3. Read_From_Paging_File io_ok env' dst va' k s2 = Some s3 \<and>
         (\<forall>w < 1024. phys s3 (unat dst div 4 + w) = phys s (unat src div 4 + w))))"
proof -
  let ?t = "fold (write_sector io_ok env src k) [0..<8] s"
  let ?s1 = "?t\<lparr>swapMap := (swapMap ?t)[k := 1]\<rparr>"
  from write_sectors [OF assms(5,4), of 8] have t: "startSector ?t = startSector s"
    "length (swapMap ?t) = length (swapMap s)"
    "\<forall>i < 8. \<forall>v < 128. pagedisk ?t (page_sector s k i) v = phys s (unat src div 4 + (i * 128 + v))"
    by auto
  have sec1: "page_sector ?s1 k i = page_sector s k i" for i
    using t(1) by (intro page_sector_cong) simp
  have "Write_To_Paging_File io_ok env src va k s = Some ?s1"
    using assms(1-3) t(2) by (simp add: Write_To_Paging_File_def Get_Page_def Let_def del: upt_rec_numeral)
  moreover have "swapMap ?s1 ! k = 1" using t(2) assms(3) by simp
  moreover have "\<exists>s3. Read_From_Paging_File io_ok env' dst va' k s2 = Some s3 \<and>
      (\<forall>w < 1024. phys s3 (unat dst div 4 + w) = phys s (unat src div 4 + w))"
    if s2: "startSector s2 = startSector ?s1"
      "\<forall>i < 8. pagedisk s2 (page_sector ?s1 k i) = pagedisk ?s1 (page_sector ?s1 k i)"
      "Page_Index dst < length (pageList s2)" for s2
  proof -
    let ?s3 = "fold (read_sector io_ok env' dst k) [0..<8] s2"
    have sec2: "page_sector s2 k i = page_sector s k i" for i
      using s2(1) t(1) by (intro page_sector_cong) simp
    have "\<forall>i < 8. io_ok (page_sector s2 k i)" using assms(4) by (simp add: sec2)
    from read_sectors [OF assms(6) this, of 8]
    have r: "\<forall>i < 8. \<forall>v < 128. phys ?s3 (unat dst div 4 + (i * 128 + v)) = pagedisk s2 (page_sector s2 k i) v"
      by simp
    have "phys ?s3 (unat dst div 4 + w) = phys s (unat src div 4 + w)" if w: "w < 1024" for w
    proof -
      have "w div 128 < 8" "w mod 128 < 128" using w by (simp_all add: less_mult_imp_div_less)
      then have "phys ?s3 (unat dst div 4 + (w div 128 * 128 + w mod 128)) =
          pagedisk s2 (page_sector s k (w div 128)) (w mod 128)"
        using r unfolding sec2 by blast
      also have "\<dots> = pagedisk ?t (page_sector s k (w div 128)) (w mod 128)"
        using s2(2) \<open>w div 128 < 8\<close> unfolding sec1 by simp
      also have "\<dots> = phys s (unat src div 4 + (w div 128 * 128 + w mod 128))"
        using t(3) \<open>w div 128 < 8\<close> \<open>w mod 128 < 128\<close> by blast
      finally show ?thesis by simp
    qed
    with s2(3) show ?thesis by (simp add: Read_From_Paging_File_def Get_Page_def del: upt_rec_numeral)
  qed
  ultimately show ?thesis by blast
qed

lemma leaves_alone_idle: "leaves_alone (\<lambda>_ s. s) p k"
  by (simp add: leaves_alone_def)

lemma page_out_page_in_witness:
  "\<exists>s1. Write_To_Paging_File (\<lambda>_. True) (\<lambda>_ s. s) 0x4000 0 1 sample_mem = Some s1 \<and> swapMap s1 ! 1 = 1"
  using page_out_page_in [of "0x4000" sample_mem 1 "\<lambda>_. True" "\<lambda>_ s. s" "\<lambda>_ s. s" "0x5000" 0 0]
  by (auto simp: leaves_alone_idle Page_Index_nat sample_mem_def has_flag_def sample_page_def)

text \<open>C13: A fault on a page that is not present and not on disk, with two frames free, is
  resolved: the handler returns, the faulting address is then translated to a frame that
  was free, is now allocated and evictable and records the page's address; the translation
  of every other page is unchanged, and the allocator and the directory stay well formed.\<close>

theorem page_fault_maps:
  assumes ok: "pdir_ok s P" and mem: "mem_ok s" and IF: "\<not> int_flag s"
    and free: "freeList s = i # j # q" and np: "bf_get 0 1 errorCode = 0"
    and fresh: "table_of s P (PAGE_DIRECTORY_INDEX a) \<noteq> 0 \<longrightarrow>
      pte_kernelInfo (phys s (table_of s P (PAGE_DIRECTORY_INDEX a) * 1024 + PAGE_TABLE_INDEX a)) \<noteq> KINFO_PAGE_ON_DISK"
  shows "\<exists>s' f. Page_Fault_Handler io_ok env (Get_Page_Address P) sh a errorCode s = Some (Resumed s') \<and>
    f \<in> {i, j} \<and> f \<notin> set (freeList s') \<and> evictable (pageList s' ! f) \<and> vaddr (pageList s' ! f) = PAGE_ADDR a \<and>
    (\<forall>va. mmu_frame s' (Get_Page_Address P) va =
      (if PAGE_ADDR va = PAGE_ADDR a then Some (word_of_nat f) else mmu_frame s (Get_Page_Address P) va)) \<and>
    pdir_ok s' P \<and> mem_ok s'"
proof -
  let ?d = "PAGE_DIRECTORY_INDEX a" and ?k = "PAGE_TABLE_INDEX a"
  have P: "P < 2 ^ 20" using ok by (simp add: pdir_ok_def)
  obtain T s1 where s1: "find_page_table (Get_Page_Address P + 4 * word_of_nat ?d) s = Some (Get_Page_Address T, s1)"
    "pdir_ok s1 P" "mem_ok s1" "T = table_of s1 P ?d" "T \<noteq> 0"
    "\<forall>va. mmu_frame s1 (Get_Page_Address P) va = mmu_frame s (Get_Page_Address P) va"
    "int_flag s1 = int_flag s"
    "freeList s1 = freeList s \<and> s1 = s \<or> freeList s1 = j # q \<and> (\<forall>k < 1024. phys s1 (T * 1024 + k) = 0)"
    using find_page_table_ok [OF ok mem free PDI_lt] by blast
  obtain f q' where f: "freeList s1 = f # q'" "f \<in> {i, j}" using s1(8) free by auto
  let ?e = "Get_Page_Address T + 4 * word_of_nat ?k"
  have T: "T < 2 ^ 20" using s1(4) table_of_lt by simp
  have e: "unat ?e div 4 = T * 1024 + ?k" by (rule entry_addr [OF T PTI_lt])
  have va: "Is_Page_Multiple (PAGE_ADDR a)" by (simp add: Is_Page_Multiple_dvd PAGE_ADDR_nat)
  obtain s2 where s2: "Alloc_Pageable_Page io_ok env ?e (PAGE_ADDR a) s1 = Some (Get_Page_Address f, s2)"
    "mem_ok s2" "freeList s2 = q'" "int_flag s2 = int_flag s1"
    "phys s2 = (phys s1)(T * 1024 + ?k := bf_set 9 3 0 (phys s1 (T * 1024 + ?k)))"
    "evictable (pageList s2 ! f)" "vaddr (pageList s2 ! f) = PAGE_ADDR a"
    using Alloc_Pageable_Page_free [OF s1(3) f(1) va, of io_ok env ?e] unfolding e by blast
  have f20: "f < 2 ^ 20" "0 < f" "f \<notin> set q'"
    using mem_okD [OF s1(3), of f] f(1) s1(3) by (auto simp: mem_ok_def)
  have kinfo: "pte_kernelInfo (rd32 s1 ?e) \<noteq> 4"
    unfolding rd32_def e using s1(4,5,8) fresh PTI_lt [of a] by auto
  define s3 where "s3 = set_base ?e (word_of_nat f) (set_pflags ?e 3 (set_present ?e 1 s2))"
  let ?w = "bf_set 12 20 (word_of_nat f) (bf_set 1 4 3 (bf_set 0 1 1 (bf_set 9 3 0 (phys s1 (T * 1024 + ?k)))))"
  have ph: "phys s3 = (phys s1)(T * 1024 + ?k := ?w)"
    by (simp add: s3_def e s2(5))
  have w: "pte_present ?w = 1" "pte_base ?w = word_of_nat f"
    using f20 by (simp_all add: take_bit_frame)
  have run: "Page_Fault_Handler io_ok env (Get_Page_Address P) sh a errorCode s = Some (Resumed s3)"
    using np IF s1(1) s2(1) kinfo f20 Get_Page_Address_eq_0 [OF f20(1)] aligned_frame [OF f20(1)]
    by (simp add: Page_Fault_Handler_def Let_def s3_def)
  have fl: "set (freeList s3) \<subseteq> set (freeList s1)" using s2(3) f(1) by (auto simp: s3_def)
  note mmu = write_entry_mmu [OF s1(2,4,5) PDI_lt PTI_lt ph fl]
  have same_page: "PAGE_DIRECTORY_INDEX va = ?d \<and> PAGE_TABLE_INDEX va = ?k \<longleftrightarrow> PAGE_ADDR va = PAGE_ADDR a" for va
  proof -
    have split: "unat x div 4096 = PAGE_DIRECTORY_INDEX x * 1024 + PAGE_TABLE_INDEX x" for x :: u32
    proof -
      have "unat x div 2 ^ 22 = unat x div 4096 div 1024" by (simp add: div_mult2_eq [symmetric])
      then show ?thesis by (simp only: PAGE_DIRECTORY_INDEX_nat PAGE_TABLE_INDEX_nat div_mult_mod_eq)
    qed
    have "PAGE_ADDR va = PAGE_ADDR a \<longleftrightarrow> unat va div 4096 = unat a div 4096"
      by (simp add: word_unat_eq_iff PAGE_ADDR_nat)
    then show ?thesis unfolding split using word_idx_inj [OF PTI_lt PTI_lt] by metis
  qed
  have "mem_ok s3" using s2(2) by (subst mem_ok_cong [of _ s2]) (simp_all add: s3_def)
  moreover have "evictable (pageList s3 ! f)" "vaddr (pageList s3 ! f) = PAGE_ADDR a" "f \<notin> set (freeList s3)"
    using s2(3,6,7) f20 by (simp_all add: s3_def)
  moreover have "mmu_frame s3 (Get_Page_Address P) va =
      (if PAGE_ADDR va = PAGE_ADDR a then Some (word_of_nat f) else mmu_frame s (Get_Page_Address P) va)" for va
    using mmu(2) [of va] w s1(6) same_page [of va] by (simp del: entry_fields entry_fields')
  ultimately show ?thesis using run mmu(1) f(2) by blast
qed

lemma page_fault_maps_witness:
  "\<exists>s' f. Page_Fault_Handler (\<lambda>_. True) (\<lambda>_ s. s) (Get_Page_Address 7) False 0x80001234 6
      (sample_mem\<lparr>int_flag := False\<rparr>) = Some (Resumed s') \<and>
    mmu_frame s' (Get_Page_Address 7) 0x80001234 = Some (word_of_nat f)"
proof -
  have z: "table_of (sample_mem\<lparr>int_flag := False\<rparr>) 7 d = 0" "pde_word (sample_mem\<lparr>int_flag := False\<rparr>) 7 d = 0" for d
    by (simp_all add: table_of_def pde_word_def sample_mem_def)
  have "pdir_ok (sample_mem\<lparr>int_flag := False\<rparr>) 7"
    unfolding pdir_ok_def z by (simp add: sample_mem_def)
  moreover have "mem_ok (sample_mem\<lparr>int_flag := False\<rparr>)" using sample_mem_ok by (simp add: mem_ok_def)
  moreover have "bf_get 0 1 (6 :: u32) = 0" by (simp add: bf_get_def take_bit_eq_mask)
  moreover have "freeList (sample_mem\<lparr>int_flag := False\<rparr>) = 4 # 5 # [6]" by (simp add: sample_mem_def)
  ultimately show ?thesis
    using page_fault_maps [of "sample_mem\<lparr>int_flag := False\<rparr>" 7 4 5 "[6]" 6 "0x80001234"]
    by (simp add: z) metis
qed

text \<open>\<open>Init_VM\<close> builds an identity mapping of physical memory up to the last multiple of
  4 MB: every address below it, address 0 included, is translated to its own frame, and no
  address at or above it is translated at all (so the pages of an incomplete last 4 MB stay
  on the freelist but are not mapped).\<close>

theorem Init_VM_identity:
  fixes memSizeKB :: u32
  defines "n \<equiv> PAGE_DIRECTORY_INDEX (push_bit 10 memSizeKB)"
  assumes "mem_ok s" "n < length (freeList s)" "n * 1024 \<le> length (pageList s)"
  shows "\<exists>pde s'. Init_VM memSizeKB s = Some (pde, s') \<and> mem_ok s' \<and>
    (\<forall>va. mmu_frame s' pde va =
       (if PAGE_DIRECTORY_INDEX va < n then Some (PAGE_ALLIGNED_ADDR va) else None))"
proof -
  obtain P q where free: "freeList s = P # q" using assms(3) by (cases "freeList s") auto
  obtain s0 where s0: "Alloc_Page s = Some (Get_Page_Address P, s0)" "mem_ok s0" "freeList s0 = q"
    "length (pageList s0) = length (pageList s)" "P < 2 ^ 20" "P \<notin> set q"
    by (rule Alloc_Page_facts [OF assms(2) free])
  have n: "n < 1024" unfolding n_def by (rule PDI_lt)
  have "kmap_ok (clear_frame (Get_Page_Address P) s0) P 0"
    using s0 by (intro clear_frame_kmap) simp_all
  from map_tables_ok [OF this, of n] obtain s' where
    s': "map_tables (Get_Page_Address P) 0 n (clear_frame (Get_Page_Address P) s0) = Some s'" "kmap_ok s' P n"
    using n assms(3,4) free s0(3,4) by auto
  have run: "Init_VM memSizeKB s = Some (Get_Page_Address P, s')"
    using s0(1) s'(1) by (simp add: Init_VM_def n_def Let_def)
  have "mmu_frame s' (Get_Page_Address P) va =
      (if PAGE_DIRECTORY_INDEX va < n then Some (PAGE_ALLIGNED_ADDR va) else None)" for va
  proof -
    let ?d = "PAGE_DIRECTORY_INDEX va" and ?k = "PAGE_TABLE_INDEX va"
    have pd: "pte_present (pde_word s' P ?d) = 0 \<longleftrightarrow> table_of s' P ?d = 0"
      using s'(2) PDI_lt [of va] by (simp add: kmap_ok_def pdir_ok_def)
    show ?thesis
    proof (cases "?d < n")
      case True
      then have "table_of s' P ?d \<noteq> 0" "maps_frame (phys s' (table_of s' P ?d * 1024 + ?k)) (?d * 1024 + ?k)"
        using s'(2) PTI_lt [of va] by (simp_all add: kmap_ok_def)
      moreover have "word_of_nat (?d * 1024 + ?k) = PAGE_ALLIGNED_ADDR va"
      proof -
        have "unat va div 2 ^ 22 = unat va div 4096 div 1024" by (simp add: div_mult2_eq [symmetric])
        then have "?d * 1024 + ?k = unat va div 4096"
          by (simp only: PAGE_DIRECTORY_INDEX_nat PAGE_TABLE_INDEX_nat div_mult_mod_eq)
        also have "\<dots> = unat (PAGE_ALLIGNED_ADDR va)"
          by (simp only: PAGE_ALLIGNED_ADDR_def unat_drop_bit_eq) (simp add: drop_bit_eq_div)
        finally show ?thesis by simp
      qed
      ultimately show ?thesis
        using True pd s0(5) by (simp add: mmu_frame_words maps_frame_def)
    next
      case False
      then have "table_of s' P ?d = 0" using s'(2) PDI_lt [of va] by (simp add: kmap_ok_def)
      with False pd s0(5) show ?thesis by (simp add: mmu_frame_words)
    qed
  qed
  with run s'(2) show ?thesis by (auto simp: kmap_ok_def)
qed

lemma Init_VM_identity_witness:
  "\<exists>pde s'. Init_VM 0x1000 (sample_mem\<lparr>pageList := replicate 1024 sample_page\<rparr>) = Some (pde, s') \<and>
    mmu_frame s' pde 0 = Some 0 \<and> mmu_frame s' pde 0x400000 = None"
proof -
  have n: "PAGE_DIRECTORY_INDEX (push_bit 10 0x1000) = 1"
    by (simp add: PAGE_DIRECTORY_INDEX_nat push_bit_eq_mult)
  have "mem_ok (sample_mem\<lparr>pageList := replicate 1024 sample_page\<rparr>)"
    by (simp add: mem_ok_def sample_mem_def on_freelist_ok_def has_flag_def sample_page_def)
  from Init_VM_identity [OF this, of "0x1000", unfolded n] obtain pde s' where
    "Init_VM 0x1000 (sample_mem\<lparr>pageList := replicate 1024 sample_page\<rparr>) = Some (pde, s')"
    "\<forall>va. mmu_frame s' pde va = (if PAGE_DIRECTORY_INDEX va < 1 then Some (PAGE_ALLIGNED_ADDR va) else None)"
    by (auto simp: sample_mem_def)
  then show ?thesis by (auto simp: PAGE_DIRECTORY_INDEX_nat PAGE_ALLIGNED_ADDR_def)
qed

text \<open>With no free page and a free slot in the paging file, \<open>Alloc_Pageable_Page\<close> takes the
  oldest evictable page: afterwards the victim's old page table entry is not present and
  names the slot, the slot is marked, and the page belongs to the new entry, allocated,
  pageable and unlocked; this holds whatever the other threads do meanwhile, if they leave
  the victim's page descriptor and the size of the swap map alone.\<close>

theorem eviction_records_slot:
  assumes "freeList s = []" "Is_Page_Multiple va" "Find_Page_To_Page_Out s = Some v"
    "v < 2 ^ 20" "find_space_from (swapMap s) 0 (unat (totalPage s)) = Some (int k)"
    "k < length (swapMap s)" "k < 2 ^ 20" "keeps_victim env v"
    "unat e div 4 \<noteq> unat (pg_entry (pageList s ! v)) div 4"
  shows "\<exists>s'. Alloc_Pageable_Page io_ok env e va s = Some (Get_Page_Address v, s') \<and>
    int_flag s' = int_flag s \<and> swapMap s' ! k = 1 \<and>
    (let old = rd32 s' (pg_entry (pageList s ! v)) in
      pte_present old = 0 \<and> pte_kernelInfo old = KINFO_PAGE_ON_DISK \<and> pte_base old = word_of_nat k) \<and>
    pg_entry (pageList s' ! v) = e \<and> vaddr (pageList s' ! v) = va \<and>
    evictable (pageList s' ! v) \<and> \<not> has_flag PAGE_LOCKED (pageList s' ! v)"
  using Alloc_Pageable_Page_evicts [OF assms] by blast

lemma eviction_records_slot_witness:
  "\<exists>s'. Alloc_Pageable_Page (\<lambda>_. True) (\<lambda>_ s. s) 0x7004 0x80000000
      (sample_mem\<lparr>freeList := []\<rparr>) = Some (Get_Page_Address 0, s') \<and> swapMap s' ! 0 = 1"
proof -
  have v: "Find_Page_To_Page_Out (sample_mem\<lparr>freeList := []\<rparr>) = Some 0" by code_simp
  have k: "find_space_from (swapMap (sample_mem\<lparr>freeList := []\<rparr>)) 0
      (unat (totalPage (sample_mem\<lparr>freeList := []\<rparr>))) = Some (int 0)"
    by (simp add: sample_mem_def find_space_from.simps)
  show ?thesis
    using eviction_records_slot [OF _ _ v _ k, of "0x80000000" "\<lambda>_ s. s" "0x7004" "\<lambda>_. True"]
    by (auto simp: sample_mem_def sample_page_def keeps_victim_def Is_Page_Multiple_dvd)
qed


definition second_eviction :: "nat \<Rightarrow> vm_state \<Rightarrow> vm_state" where
  "second_eviction i s =
     (if i = 0 then
        case Alloc_Pageable_Page (\<lambda>_. True) (\<lambda>_ s. s) 8 0x80001000 (s\<lparr>int_flag := False\<rparr>) of
          Some (_, s') \<Rightarrow> s'\<lparr>int_flag := True\<rparr>
        | None \<Rightarrow> s
      else s)"

definition two_victims :: vm_state where
  "two_victims = sample_mem\<lparr>freeList := [], g_freePageCount := 0,
     pageList := [sample_page\<lparr>flags := 2\<rparr>, sample_page\<lparr>flags := 36, pg_entry := 16\<rparr>,
       sample_page\<lparr>flags := 36, pg_entry := 20\<rparr>]\<rparr>"

lemma idle_sectors:
  "\<forall>i\<in>set is. env i = (\<lambda>s. s) \<Longrightarrow>
   \<exists>D. fold (write_sector (\<lambda>_. True) env p k) is s = s\<lparr>pagedisk := D\<rparr>"
proof (induction "is" arbitrary: s)
  case (Cons i "is")
  have w: "\<exists>E. write_sector (\<lambda>_. True) env p k i s = s\<lparr>pagedisk := E\<rparr>"
    using Cons.prems by (auto simp: write_sector_def Let_def)
  then obtain E where E: "write_sector (\<lambda>_. True) env p k i s = s\<lparr>pagedisk := E\<rparr>" by blast
  have "\<exists>D. fold (write_sector (\<lambda>_. True) env p k) is (s\<lparr>pagedisk := E\<rparr>) = s\<lparr>pagedisk := D\<rparr>"
    using Cons.IH [of "s\<lparr>pagedisk := E\<rparr>"] Cons.prems by simp
  with E show ?case by simp
next
  case Nil
  show ?case by (rule exI [of _ "pagedisk s"]) simp
qed

lemma write_with_first:
  assumes "Page_Index p < length (pageList s)" "\<not> has_flag PAGE_PAGEABLE (pageList s ! Page_Index p)"
    "\<forall>i. i \<noteq> 0 \<longrightarrow> env i = (\<lambda>s. s)" "k < length (swapMap (env 0 s))"
  shows "\<exists>D. Write_To_Paging_File (\<lambda>_. True) env p va k s =
    Some ((env 0 s)\<lparr>pagedisk := D, swapMap := (swapMap (env 0 s))[k := 1]\<rparr>)"
proof -
  have "\<exists>E. write_sector (\<lambda>_. True) env p k 0 s = (env 0 s)\<lparr>pagedisk := E\<rparr>"
    by (auto simp: write_sector_def Let_def)
  then obtain E where "write_sector (\<lambda>_. True) env p k 0 s = (env 0 s)\<lparr>pagedisk := E\<rparr>" by blast
  moreover obtain D where "fold (write_sector (\<lambda>_. True) env p k) [1..<8] ((env 0 s)\<lparr>pagedisk := E\<rparr>) =
      (env 0 s)\<lparr>pagedisk := E\<rparr>\<lparr>pagedisk := D\<rparr>"
    using idle_sectors [of "[1..<8]" env p k "(env 0 s)\<lparr>pagedisk := E\<rparr>"] assms(3) by auto
  ultimately have "fold (write_sector (\<lambda>_. True) env p k) (0 # [1..<8]) s = (env 0 s)\<lparr>pagedisk := D\<rparr>"
    by (simp del: upt_rec_numeral)
  moreover have "[0..<8] = 0 # [1..<8]" by (simp add: upt_conv_Cons del: upt_rec_numeral)
  ultimately show ?thesis
    using assms(1,2,4)
    by (intro exI [of _ D]) (simp add: Write_To_Paging_File_def Get_Page_def Let_def del: upt_rec_numeral)
qed

text \<open>The exact state after an eviction, given the state after the write.\<close>

lemma evict_run:
  assumes "freeList s = []" "Is_Page_Multiple va" "Find_Page_To_Page_Out s = Some v" "v < 2 ^ 20"
    "find_space_from (swapMap s) 0 (unat (totalPage s)) = Some (int k)"
    "Write_To_Paging_File io_ok env (Get_Page_Address v) (vaddr (pageList s ! v)) k
      (put_page v (set_flag PAGE_LOCKED (clear_flag PAGE_PAGEABLE (pageList s ! v))) s\<lparr>int_flag := True\<rparr>) = Some t"
    "int_flag t" "v < length (pageList t)" "has_flag PAGE_ALLOCATED (pageList t ! v)"
  defines "oe \<equiv> pg_entry (pageList t ! v)"
  shows "\<exists>s'. Alloc_Pageable_Page io_ok env e va s = Some (Get_Page_Address v, s') \<and>
    phys s' = phys (set_kernelInfo e 0 (set_base oe (word_of_nat k)
      (set_kernelInfo oe KINFO_PAGE_ON_DISK (set_present oe 0 t)))) \<and>
    (\<forall>u. u \<noteq> v \<longrightarrow> pageList s' ! u = pageList t ! u) \<and> length (pageList s') = length (pageList t) \<and>
    length (swapMap s') = length (swapMap t)"
proof -
  have alloc: "Alloc_Page (s\<lparr>int_flag := False\<rparr>) = Some (0, s\<lparr>int_flag := False\<rparr>)"
    using assms(1) by (intro Alloc_Page_empty) simp
  have victim: "Find_Page_To_Page_Out (s\<lparr>int_flag := False\<rparr>) = Some v"
    using assms(3) by (simp add: Find_Page_To_Page_Out_def)
  have v: "v < length (pageList s)" "has_flag PAGE_PAGEABLE (pageList s ! v)"
    using Find_Page_To_Page_Out_spec [of s] assms(3) by (auto simp: evictable_def)
  have space: "Find_Space_On_Paging_File (s\<lparr>int_flag := False\<rparr>) = Some (int k)"
    using assms(5) by (simp add: Find_Space_On_Paging_File_def)
  have st: "put_page v x (s\<lparr>int_flag := False\<rparr>)\<lparr>int_flag := True\<rparr> = put_page v x s\<lparr>int_flag := True\<rparr>" for x
    by (simp add: put_page_def)
  have fin: "finish_eviction v k (t\<lparr>int_flag := False\<rparr>) = Some (put_page v (clear_flag PAGE_LOCKED (pageList t ! v))
    (set_base oe (word_of_nat k) (set_kernelInfo oe 4 (set_present oe 0 (t\<lparr>int_flag := False\<rparr>)))))"
    using finish_eviction_eq [of v "t\<lparr>int_flag := False\<rparr>" k] assms(8,9) by (simp add: oe_def)
  show ?thesis
    using alloc victim space v fin assms(2,6-9) Page_Index_Address [OF assms(4)]
    by (simp add: Alloc_Pageable_Page_def Let_def st Get_Page_def del: fun_upd_apply)
qed


end
