(* ===== verification/KThread.thy ===== *)
theory KThread
  imports Paging
begin

text \<open>
  Kernel threads and the scheduler, \<open>geekos/kthread.c\<close>, with the two functions of
  \<open>geekos/user.c\<close> that tie a user context to a thread.

  A \<open>struct Kernel_Thread *\<close> is the address of the thread's page; \<open>thr\<close> is the contents of
  the thread objects.  A thread queue is named by a \<open>qid\<close> and its value is the sequence of
  the threads on it (\<open>DList\<close> justifies this for queues that share no thread, which is part of
  the invariant below, since all queues use the same link members).

  \<open>Switch_To_Thread\<close> (assembly) makes another thread current.  An operation that blocks ends
  its definition there; what it does after it is resumed is a definition of its own or,
  where the source loops, runs after an environment \<open>env\<close>: what the machine does until this
  thread is current again.
\<close>

section \<open>State\<close>

datatype qid = RunQ nat | Graveyard | ReaperWait | JoinQ u32 | WaitQ u32

record kthread =
  esp :: u32
  numTicks :: u32
  priority :: int
  stackPage :: u32
  userContext :: u32
  owner :: u32
  refCount :: int
  alive :: bool
  exitCode :: int
  pid :: int
  tlocalData :: "nat list"
  currentReadyQueue :: int
  blocked :: bool
  tname :: string
  waitQueue :: "qid option"

record user_context =
  uc_size :: u32
  csSelector :: u16
  dsSelector :: u16
  entryAddr :: u32
  argBlockAddr :: u32
  stackPointerAddr :: u32
  uc_refCount :: int

record kstate = machine +
  thr :: "u32 \<Rightarrow> kthread"
  allThreads :: "u32 list"
  queues :: "qid \<Rightarrow> u32 list"
  g_currentThread :: u32
  g_needReschedule :: bool
  g_preemptionDisabled :: bool
  MAX_QUEUE_LEVEL :: int
  tlocalKeyCounter :: nat
  tlocalDestructors :: "nat list"
  nextFreePid :: int
  uctx :: "u32 \<Rightarrow> user_context"
  vm :: vm_state

abbreviation (input) "PRIORITY_IDLE \<equiv> 0 :: int"
abbreviation (input) "PRIORITY_USER \<equiv> 1 :: int"
abbreviation (input) "PRIORITY_NORMAL \<equiv> 5 :: int"
abbreviation (input) "MAX_TLOCAL_KEYS \<equiv> 128 :: nat"
abbreviation (input) "MIN_DESTRUCTOR_ITERATIONS \<equiv> 4 :: nat"
abbreviation (input) "KERN_THREAD_OBJ \<equiv> 0x100000 :: u32"
abbreviation (input) "KERN_STACK \<equiv> 0x101000 :: u32"
abbreviation (input) "KERNEL_CS \<equiv> 8 :: u32"
abbreviation (input) "KERNEL_DS \<equiv> 16 :: u32"
abbreviation (input) "EFLAGS_IF \<equiv> 512 :: u32"

definition upd_thr :: "u32 \<Rightarrow> (kthread \<Rightarrow> kthread) \<Rightarrow> kstate \<Rightarrow> kstate" where
  "upd_thr t f s = s\<lparr>thr := (thr s)(t := f (thr s t))\<rparr>"

definition set_queue :: "qid \<Rightarrow> u32 list \<Rightarrow> kstate \<Rightarrow> kstate" where
  "set_queue q ts s = s\<lparr>queues := (queues s)(q := ts)\<rparr>"

definition Clear_Thread_Queue :: "qid \<Rightarrow> kstate \<Rightarrow> kstate" where
  "Clear_Thread_Queue q s = set_queue q [] s"

definition Enqueue_Thread :: "qid \<Rightarrow> u32 \<Rightarrow> kstate \<Rightarrow> kstate kres" where
  "Enqueue_Thread q t s = do { ts \<leftarrow> Push_Back (queues s q) t; Some (set_queue q ts s) }"

definition Remove_Thread :: "qid \<Rightarrow> u32 \<Rightarrow> kstate \<Rightarrow> kstate kres" where
  "Remove_Thread q t s = do { ts \<leftarrow> Unlink (queues s q) t; Some (set_queue q ts s) }"

text \<open>Calls into the memory allocator, which sees the same interrupt flag.\<close>

definition call_vm :: "(vm_state \<Rightarrow> ('r \<times> vm_state) kres) \<Rightarrow> kstate \<Rightarrow> ('r \<times> kstate) kres" where
  "call_vm f s = do {
     (r, v) \<leftarrow> f ((vm s)\<lparr>int_flag := int_flag s\<rparr>);
     Some (r, s\<lparr>vm := v, int_flag := int_flag v\<rparr>) }"

definition k_Alloc_Page :: "kstate \<Rightarrow> (u32 \<times> kstate) kres" where
  "k_Alloc_Page s = call_vm Alloc_Page s"

definition k_Free_Page :: "u32 \<Rightarrow> kstate \<Rightarrow> kstate kres" where
  "k_Free_Page a s = map_option snd (call_vm (\<lambda>v. map_option (Pair ()) (Free_Page a v)) s)"

section \<open>Making threads runnable\<close>

definition Make_Runnable :: "u32 \<Rightarrow> kstate \<Rightarrow> kstate kres" where
  "Make_Runnable t s = do {
     KASSERT (\<not> Interrupts_Enabled s);
     let currentQ = currentReadyQueue (thr s t);
     let (currentQ, s) =
       (if currentQ \<ge> MAX_QUEUE_LEVEL s
        then (MAX_QUEUE_LEVEL s - 1, upd_thr t (\<lambda>k. k\<lparr>currentReadyQueue := MAX_QUEUE_LEVEL s - 1\<rparr>) s)
        else (currentQ, s));
     KASSERT (currentQ \<ge> 0 \<and> currentQ < MAX_QUEUE_LEVEL s);
     let s = (if blocked (thr s t) \<and> currentQ > 0
              then upd_thr t (\<lambda>k. k\<lparr>currentReadyQueue := currentReadyQueue k - 1\<rparr>) s else s);
     let s = (if priority (thr s t) = PRIORITY_IDLE
              then upd_thr t (\<lambda>k. k\<lparr>currentReadyQueue := MAX_QUEUE_LEVEL s - 1\<rparr>) s else s);
     let s = upd_thr t (\<lambda>k. k\<lparr>blocked := False\<rparr>) s;
     Enqueue_Thread (RunQ (nat (currentReadyQueue (thr s t)))) t s }"

definition Make_Runnable_Atomic :: "u32 \<Rightarrow> kstate \<Rightarrow> kstate kres" where
  "Make_Runnable_Atomic t s = do {
     s \<leftarrow> Disable_Interrupts s;
     s \<leftarrow> Make_Runnable t s;
     Enable_Interrupts s }"

fun make_all_runnable :: "u32 list \<Rightarrow> kstate \<Rightarrow> kstate kres" where
  "make_all_runnable [] s = Some s"
| "make_all_runnable (t # ts) s = do { s \<leftarrow> Make_Runnable t s; make_all_runnable ts s }"

definition Wake_Up :: "qid \<Rightarrow> kstate \<Rightarrow> kstate kres" where
  "Wake_Up q s = do {
     let ts = queues s q;
     KASSERT (\<not> Interrupts_Enabled s);
     s \<leftarrow> make_all_runnable ts s;
     Some (Clear_Thread_Queue q s) }"

section \<open>Choosing a thread\<close>

fun find_best :: "kstate \<Rightarrow> u32 list \<Rightarrow> u32 option \<Rightarrow> u32 option" where
  "find_best s [] best = best"
| "find_best s (t # ts) best =
     find_best s ts
       (case best of None \<Rightarrow> Some t
        | Some b \<Rightarrow> if priority (thr s t) > priority (thr s b) then Some t else best)"

definition Find_Best :: "kstate \<Rightarrow> qid \<Rightarrow> u32 option" where
  "Find_Best s q = find_best s (queues s q) None"

definition Wake_Up_One :: "qid \<Rightarrow> kstate \<Rightarrow> kstate kres" where
  "Wake_Up_One q s = do {
     KASSERT (\<not> Interrupts_Enabled s);
     case Find_Best s q of
       None \<Rightarrow> Some s
     | Some best \<Rightarrow> do { s \<leftarrow> Remove_Thread q best s; Make_Runnable best s } }"

definition Wake_Up_Process :: "u32 \<Rightarrow> kstate \<Rightarrow> kstate kres" where
  "Wake_Up_Process t s = do {
     KASSERT (\<not> Interrupts_Enabled s);
     q \<leftarrow> waitQueue (thr s t);
     s \<leftarrow> Remove_Thread q t s;
     Make_Runnable t s }"

text \<open>The scan of the run queues: the first level that has a thread, and its best thread.\<close>

fun find_level :: "kstate \<Rightarrow> nat \<Rightarrow> nat \<Rightarrow> (nat \<times> u32) option" where
  "find_level s i 0 = None"
| "find_level s i (Suc n) =
     (case Find_Best s (RunQ i) of Some t \<Rightarrow> Some (i, t) | None \<Rightarrow> find_level s (Suc i) n)"

definition Get_Next_Runnable :: "kstate \<Rightarrow> (u32 \<times> kstate) kres" where
  "Get_Next_Runnable s = do {
     (i, best) \<leftarrow> find_level s 0 (nat (MAX_QUEUE_LEVEL s));
     s \<leftarrow> Remove_Thread (RunQ i) best s;
     Some (best, s) }"

definition Switch_To_Thread :: "u32 \<Rightarrow> kstate \<Rightarrow> kstate" where
  "Switch_To_Thread t s = s\<lparr>g_currentThread := t\<rparr>"

definition Schedule :: "kstate \<Rightarrow> kstate kres" where
  "Schedule s = do {
     KASSERT (\<not> Interrupts_Enabled s);
     KASSERT (\<not> g_preemptionDisabled s);
     (runnable, s) \<leftarrow> Get_Next_Runnable s;
     Some (Switch_To_Thread runnable s) }"

text \<open>\<open>Yield\<close> up to the switch; when the thread is resumed it only enables interrupts.\<close>

definition Yield :: "kstate \<Rightarrow> kstate kres" where
  "Yield s = do {
     s \<leftarrow> Disable_Interrupts s;
     s \<leftarrow> Make_Runnable (g_currentThread s) s;
     Schedule s }"

definition Yield_resumed :: "kstate \<Rightarrow> kstate kres" where
  "Yield_resumed s = Enable_Interrupts s"

definition Wait :: "qid \<Rightarrow> kstate \<Rightarrow> kstate kres" where
  "Wait q s = do {
     let current = g_currentThread s;
     KASSERT (\<not> Interrupts_Enabled s);
     let s = upd_thr current (\<lambda>k. k\<lparr>blocked := True\<rparr>) s;
     s \<leftarrow> Enqueue_Thread q current s;
     let s = upd_thr (g_currentThread s) (\<lambda>k. k\<lparr>waitQueue := Some q\<rparr>) s;
     Schedule s }"

section \<open>The end of a thread\<close>

definition Reap_Thread :: "u32 \<Rightarrow> kstate \<Rightarrow> kstate kres" where
  "Reap_Thread t s = do {
     KASSERT (\<not> Interrupts_Enabled s);
     s \<leftarrow> Enqueue_Thread Graveyard t s;
     Wake_Up ReaperWait s }"

definition Detach_Thread :: "u32 \<Rightarrow> kstate \<Rightarrow> kstate kres" where
  "Detach_Thread t s = do {
     KASSERT (\<not> Interrupts_Enabled s);
     KASSERT (refCount (thr s t) > 0);
     let s = upd_thr t (\<lambda>k. k\<lparr>refCount := refCount k - 1\<rparr>) s;
     if refCount (thr s t) = 0 then Reap_Thread t s else Some s }"

text \<open>Destructors are code of other modules: \<open>dtor f x\<close> is a call of the function at \<open>f\<close>.\<close>

fun tlocal_keys ::
  "(nat \<Rightarrow> nat \<Rightarrow> kstate \<Rightarrow> kstate) \<Rightarrow> u32 \<Rightarrow> nat \<Rightarrow> nat \<Rightarrow> bool \<Rightarrow> kstate \<Rightarrow> (bool \<times> kstate) kres" where
  "tlocal_keys dtor t i 0 called s = Some (called, s)"
| "tlocal_keys dtor t i (Suc n) called s = do {
     x \<leftarrow> aget (tlocalData (thr s t)) i;
     d \<leftarrow> aget (tlocalDestructors s) i;
     (called, s) \<leftarrow>
       (if x \<noteq> 0 \<and> d \<noteq> 0 then do {
          let s = upd_thr t (\<lambda>k. k\<lparr>tlocalData := (tlocalData k)[i := 0]\<rparr>) s;
          s \<leftarrow> Enable_Interrupts s;
          s \<leftarrow> Disable_Interrupts (dtor d x s);
          Some (True, s) }
        else Some (called, s));
     tlocal_keys dtor t (Suc i) n called s }"

text \<open>\<open>called\<close> is not reset between iterations.\<close>

fun tlocal_iterations ::
  "(nat \<Rightarrow> nat \<Rightarrow> kstate \<Rightarrow> kstate) \<Rightarrow> u32 \<Rightarrow> nat \<Rightarrow> bool \<Rightarrow> kstate \<Rightarrow> kstate kres" where
  "tlocal_iterations dtor t 0 called s = Some s"
| "tlocal_iterations dtor t (Suc n) called s = do {
     (called, s) \<leftarrow> tlocal_keys dtor t 0 MAX_TLOCAL_KEYS called s;
     if \<not> called then Some s else tlocal_iterations dtor t n called s }"

definition Tlocal_Exit :: "(nat \<Rightarrow> nat \<Rightarrow> kstate \<Rightarrow> kstate) \<Rightarrow> u32 \<Rightarrow> kstate \<Rightarrow> kstate kres" where
  "Tlocal_Exit dtor t s = do {
     KASSERT (\<not> Interrupts_Enabled s);
     tlocal_iterations dtor t MIN_DESTRUCTOR_ITERATIONS False s }"

text \<open>\<open>Exit\<close> does not return: the result is the state in which the next thread runs.\<close>

definition Exit :: "(nat \<Rightarrow> nat \<Rightarrow> kstate \<Rightarrow> kstate) \<Rightarrow> int \<Rightarrow> kstate \<Rightarrow> kstate kres" where
  "Exit dtor code s = do {
     let current = g_currentThread s;
     s \<leftarrow> (if Interrupts_Enabled s then Disable_Interrupts s else Some s);
     let s = upd_thr current (\<lambda>k. k\<lparr>exitCode := code, alive := False\<rparr>) s;
     s \<leftarrow> Tlocal_Exit dtor (g_currentThread s) s;
     s \<leftarrow> Wake_Up (JoinQ current) s;
     s \<leftarrow> Detach_Thread (g_currentThread s) s;
     Schedule s }"

definition Shutdown_Thread :: "(nat \<Rightarrow> nat \<Rightarrow> kstate \<Rightarrow> kstate) \<Rightarrow> kstate \<Rightarrow> kstate kres" where
  "Shutdown_Thread dtor s = Exit dtor 0 s"

partial_function (option) join_loop :: "(kstate \<Rightarrow> kstate) \<Rightarrow> u32 \<Rightarrow> kstate \<Rightarrow> kstate kres" where
  "join_loop env t s =
     (if alive (thr s t) then do { s \<leftarrow> Wait (JoinQ t) s; join_loop env t (env s) } else Some s)"

definition Join :: "(kstate \<Rightarrow> kstate) \<Rightarrow> u32 \<Rightarrow> kstate \<Rightarrow> (int \<times> kstate) kres" where
  "Join env t s = do {
     KASSERT (Interrupts_Enabled s);
     KASSERT (owner (thr s t) = g_currentThread s);
     s \<leftarrow> Disable_Interrupts s;
     s \<leftarrow> join_loop env t s;
     let code = exitCode (thr s t);
     s \<leftarrow> Detach_Thread t s;
     s \<leftarrow> Enable_Interrupts s;
     Some (code, s) }"

section \<open>User contexts of threads (user.c)\<close>

definition Attach_User_Context :: "u32 \<Rightarrow> u32 \<Rightarrow> kstate \<Rightarrow> kstate kres" where
  "Attach_User_Context t c s = do {
     KASSERT (c \<noteq> 0);
     let s = upd_thr t (\<lambda>k. k\<lparr>userContext := c\<rparr>) s;
     s \<leftarrow> Disable_Interrupts s;
     KASSERT (uc_refCount (uctx s c) = 0);
     let s = s\<lparr>uctx := (uctx s)(c := (uctx s c)\<lparr>uc_refCount := uc_refCount (uctx s c) + 1\<rparr>)\<rparr>;
     Enable_Interrupts s }"

text \<open>\<open>destroy\<close> is \<open>Destroy_User_Context\<close>.\<close>

definition Detach_User_Context :: "(u32 \<Rightarrow> kstate \<Rightarrow> kstate kres) \<Rightarrow> u32 \<Rightarrow> kstate \<Rightarrow> kstate kres" where
  "Detach_User_Context destroy t s = do {
     let old = userContext (thr s t);
     let s = upd_thr t (\<lambda>k. k\<lparr>userContext := 0\<rparr>) s;
     if old \<noteq> 0 then do {
       s \<leftarrow> Disable_Interrupts s;
       let s = s\<lparr>uctx := (uctx s)(old := (uctx s old)\<lparr>uc_refCount := uc_refCount (uctx s old) - 1\<rparr>)\<rparr>;
       let n = uc_refCount (uctx s old);
       s \<leftarrow> Enable_Interrupts s;
       if n = 0 then destroy old s else Some s }
     else Some s }"

section \<open>Creating threads\<close>

definition zero_thread :: kthread where
  "zero_thread = \<lparr>esp = 0, numTicks = 0, priority = 0, stackPage = 0, userContext = 0, owner = 0,
     refCount = 0, alive = False, exitCode = 0, pid = 0, tlocalData = replicate MAX_TLOCAL_KEYS 0,
     currentReadyQueue = 0, blocked = False, tname = [], waitQueue = None\<rparr>"

definition Init_Thread :: "u32 \<Rightarrow> u32 \<Rightarrow> int \<Rightarrow> bool \<Rightarrow> kstate \<Rightarrow> kstate" where
  "Init_Thread t sp prio detached s = (
     let own = (if detached then 0 else g_currentThread s);
         s = upd_thr t (\<lambda>_. zero_thread\<lparr>stackPage := sp, esp := sp + 4096, numTicks := 0,
               priority := prio, userContext := 0, owner := own,
               refCount := (if detached then 1 else 2), alive := True\<rparr>) s;
         s = Clear_Thread_Queue (JoinQ t) s;
         s = upd_thr t (\<lambda>k. k\<lparr>pid := nextFreePid s\<rparr>) s;
         s = s\<lparr>nextFreePid := nextFreePid s + 1\<rparr>
     in upd_thr t (\<lambda>k. k\<lparr>currentReadyQueue := 0, blocked := False, tname := ''{kernel}''\<rparr>) s)"

definition Create_Thread :: "int \<Rightarrow> bool \<Rightarrow> kstate \<Rightarrow> (u32 \<times> kstate) kres" where
  "Create_Thread prio detached s = do {
     (t, s) \<leftarrow> k_Alloc_Page s;
     (sp, s) \<leftarrow> (if t \<noteq> 0 then k_Alloc_Page s else Some (0, s));
     if t = 0 then Some (0, s)
     else if sp = 0 then do { s \<leftarrow> k_Free_Page t s; Some (0, s) }
     else do {
       let s = Init_Thread t sp prio detached s;
       ts \<leftarrow> Push_Back (allThreads s) t;
       Some (t, s\<lparr>allThreads := ts\<rparr>) } }"

definition Push :: "u32 \<Rightarrow> u32 \<Rightarrow> kstate \<Rightarrow> kstate" where
  "Push t v s = (
     let s = upd_thr t (\<lambda>k. k\<lparr>esp := esp k - 4\<rparr>) s
     in s\<lparr>vm := wr32 (esp (thr s t)) v (vm s)\<rparr>)"

definition Push_General_Registers :: "u32 \<Rightarrow> kstate \<Rightarrow> kstate" where
  "Push_General_Registers t s = fold (Push t) [0, 0, 0, 0, 0, 0, 0] s"

text \<open>\<open>shutdown\<close> and \<open>launch\<close> are the addresses of \<open>Shutdown_Thread\<close> and \<open>Launch_Thread\<close>.\<close>

definition Setup_Kernel_Thread :: "u32 \<Rightarrow> u32 \<Rightarrow> u32 \<Rightarrow> u32 \<Rightarrow> u32 \<Rightarrow> kstate \<Rightarrow> kstate" where
  "Setup_Kernel_Thread shutdown launch t startFunc arg s = (
     let s = Push t arg s;
         s = Push t shutdown s;
         s = Push t startFunc s;
         s = Push t 0 s;
         s = Push t KERNEL_CS s;
         s = Push t launch s;
         s = Push t 0 s;
         s = Push t 0 s;
         s = Push_General_Registers t s;
         s = Push t KERNEL_DS s;
         s = Push t KERNEL_DS s;
         s = Push t 0 s
     in Push t 0 s)"

definition Setup_User_Thread :: "u32 \<Rightarrow> u32 \<Rightarrow> kstate \<Rightarrow> kstate kres" where
  "Setup_User_Thread t c s = do {
     let ds = (ucast (dsSelector (uctx s c)) :: u32);
     s \<leftarrow> Attach_User_Context t c s;
     let s = Push t ds s;
     let s = Push t (stackPointerAddr (uctx s c)) s;
     let s = Push t EFLAGS_IF s;
     let s = Push t (ucast (csSelector (uctx s c))) s;
     let s = Push t (entryAddr (uctx s c)) s;
     let s = Push t 0 s;
     let s = Push t 0 s;
     let s = Push t (uc_size (uctx s c)) s;
     let s = Push t 0 s;
     let s = Push t 0 s;
     let s = Push t 0 s;
     let s = Push t (argBlockAddr (uctx s c)) s;
     let s = Push t 0 s;
     let s = Push t 0 s;
     Some (fold (Push t) [ds, ds, ds, ds] s) }"

definition Launch_Thread :: "kstate \<Rightarrow> kstate kres" where
  "Launch_Thread s = Enable_Interrupts s"

definition Start_Kernel_Thread ::
  "u32 \<Rightarrow> u32 \<Rightarrow> u32 \<Rightarrow> u32 \<Rightarrow> int \<Rightarrow> bool \<Rightarrow> kstate \<Rightarrow> (u32 \<times> kstate) kres" where
  "Start_Kernel_Thread shutdown launch startFunc arg prio detached s = do {
     (t, s) \<leftarrow> Create_Thread prio detached s;
     if t \<noteq> 0 then do {
       s \<leftarrow> Make_Runnable_Atomic t (Setup_Kernel_Thread shutdown launch t startFunc arg s);
       Some (t, s) }
     else Some (t, s) }"

definition Start_User_Thread :: "u32 \<Rightarrow> bool \<Rightarrow> kstate \<Rightarrow> (u32 \<times> kstate) kres" where
  "Start_User_Thread c detached s = do {
     (t, s) \<leftarrow> Create_Thread PRIORITY_USER detached s;
     if t \<noteq> 0 then do {
       s \<leftarrow> Setup_User_Thread t c s;
       s \<leftarrow> Make_Runnable_Atomic t s;
       Some (t, s) }
     else Some (t, s) }"

definition Destroy_Thread :: "(u32 \<Rightarrow> kstate \<Rightarrow> kstate kres) \<Rightarrow> u32 \<Rightarrow> kstate \<Rightarrow> kstate kres" where
  "Destroy_Thread destroy t s = do {
     s \<leftarrow> Detach_User_Context destroy t s;
     s \<leftarrow> Disable_Interrupts s;
     s \<leftarrow> k_Free_Page (stackPage (thr s t)) s;
     s \<leftarrow> k_Free_Page t s;
     ts \<leftarrow> Unlink (allThreads s) t;
     Enable_Interrupts (s\<lparr>allThreads := ts\<rparr>) }"

fun destroy_all :: "(u32 \<Rightarrow> kstate \<Rightarrow> kstate kres) \<Rightarrow> u32 list \<Rightarrow> kstate \<Rightarrow> kstate kres" where
  "destroy_all destroy [] s = Some s"
| "destroy_all destroy (t # ts) s = do { s \<leftarrow> Destroy_Thread destroy t s; destroy_all destroy ts s }"

text \<open>One round of the reaper's loop; \<open>env\<close> is what runs between its \<open>Yield\<close> and its return
  to it, or until it is woken up.\<close>

definition Reaper_round ::
  "(u32 \<Rightarrow> kstate \<Rightarrow> kstate kres) \<Rightarrow> (kstate \<Rightarrow> kstate) \<Rightarrow> kstate \<Rightarrow> kstate kres" where
  "Reaper_round destroy env s = do {
     let dead = queues s Graveyard;
     if dead = [] then map_option env (Wait ReaperWait s)
     else do {
       let s = Clear_Thread_Queue Graveyard s;
       s \<leftarrow> Enable_Interrupts s;
       s \<leftarrow> Yield s;
       s \<leftarrow> Yield_resumed (env s);
       s \<leftarrow> destroy_all destroy dead s;
       Disable_Interrupts s } }"

definition Init_Scheduler :: "u32 \<Rightarrow> u32 \<Rightarrow> u32 \<Rightarrow> u32 \<Rightarrow> kstate \<Rightarrow> kstate kres" where
  "Init_Scheduler shutdown launch idle reaper s = do {
     let mainThread = KERN_THREAD_OBJ;
     let s = Init_Thread mainThread KERN_STACK PRIORITY_NORMAL True s;
     let s = upd_thr mainThread (\<lambda>k. k\<lparr>tname := ''{Main}''\<rparr>) s;
     let s = s\<lparr>g_currentThread := mainThread\<rparr>;
     ts \<leftarrow> Push_Back (allThreads s) mainThread;
     let s = s\<lparr>allThreads := ts\<rparr>;
     (t, s) \<leftarrow> Start_Kernel_Thread shutdown launch idle 0 PRIORITY_IDLE True s;
     KASSERT (t \<noteq> 0);
     let s = upd_thr t (\<lambda>k. k\<lparr>tname := ''{Idle}''\<rparr>) s;
     (t, s) \<leftarrow> Start_Kernel_Thread shutdown launch reaper 0 PRIORITY_NORMAL True s;
     KASSERT (t \<noteq> 0);
     Some (upd_thr t (\<lambda>k. k\<lparr>tname := ''{Reaper}''\<rparr>) s) }"

section \<open>Scheduling policies\<close>

text \<open>The \<open>while\<close> loop of \<open>Switch_To_RR\<close> takes the head until the level is empty.\<close>

fun drain_level :: "nat \<Rightarrow> u32 list \<Rightarrow> kstate \<Rightarrow> kstate kres" where
  "drain_level i [] s = Some s"
| "drain_level i (t # ts) s = do {
     let s = upd_thr t (\<lambda>k. k\<lparr>currentReadyQueue := 0\<rparr>) s;
     s \<leftarrow> Remove_Thread (RunQ i) t s;
     q \<leftarrow> Push_Front (queues s (RunQ 0)) t;
     drain_level i ts (set_queue (RunQ 0) q s) }"

fun drain_levels :: "nat \<Rightarrow> nat \<Rightarrow> kstate \<Rightarrow> kstate kres" where
  "drain_levels i 0 s = Some s"
| "drain_levels i (Suc n) s = do {
     s \<leftarrow> drain_level i (queues s (RunQ i)) s;
     drain_levels (Suc i) n s }"

definition Switch_To_RR :: "kstate \<Rightarrow> kstate kres" where
  "Switch_To_RR s = do {
     KASSERT (\<not> Interrupts_Enabled s);
     s \<leftarrow> drain_levels 1 (nat (MAX_QUEUE_LEVEL s) - 1) s;
     Some (s\<lparr>MAX_QUEUE_LEVEL := 1\<rparr>) }"

fun move_idle :: "u32 list \<Rightarrow> kstate \<Rightarrow> kstate kres" where
  "move_idle [] s = Some s"
| "move_idle (t # ts) s =
     (if priority (thr s t) = PRIORITY_IDLE then do {
        s \<leftarrow> Remove_Thread (RunQ 0) t s;
        q \<leftarrow> Push_Front (queues s (RunQ 3)) t;
        let s = set_queue (RunQ 3) q s;
        move_idle ts (upd_thr t (\<lambda>k. k\<lparr>currentReadyQueue := 3\<rparr>) s) }
      else move_idle ts s)"

definition Switch_To_MLF :: "kstate \<Rightarrow> kstate kres" where
  "Switch_To_MLF s = do {
     KASSERT (\<not> Interrupts_Enabled s);
     let ts = queues s (RunQ 0);
     move_idle ts (s\<lparr>MAX_QUEUE_LEVEL := 4\<rparr>) }"

section \<open>Looking up threads, thread-local data\<close>

definition Lookup_Thread :: "int \<Rightarrow> bool \<Rightarrow> kstate \<Rightarrow> (u32 \<times> kstate) kres" where
  "Lookup_Thread p notOwner s = do {
     (iflag, s) \<leftarrow> Begin_Int_Atomic s;
     let (result, s) =
       (case List.find (\<lambda>t. pid (thr s t) = p) (allThreads s) of
          None \<Rightarrow> (0, s)
        | Some t \<Rightarrow> (t, if g_currentThread s \<noteq> owner (thr s t) \<and> \<not> notOwner
            then upd_thr t (\<lambda>k. k\<lparr>refCount := refCount k + 1\<rparr>) s else s));
     s \<leftarrow> End_Int_Atomic iflag s;
     Some (result, s) }"

text \<open>The key is returned with the code 0; a failing call leaves \<open>*key\<close> alone.\<close>

definition Tlocal_Create :: "nat \<Rightarrow> kstate \<Rightarrow> (int \<times> nat option \<times> kstate) kres" where
  "Tlocal_Create destructor s = do {
     (iflag, s) \<leftarrow> Begin_Int_Atomic s;
     if tlocalKeyCounter s = MAX_TLOCAL_KEYS then Some (- 1, None, s)
     else do {
       ds \<leftarrow> aset (tlocalDestructors s) (tlocalKeyCounter s) destructor;
       let key = tlocalKeyCounter s;
       let s = s\<lparr>tlocalDestructors := ds, tlocalKeyCounter := key + 1\<rparr>;
       s \<leftarrow> End_Int_Atomic iflag s;
       Some (0, Some key, s) } }"

definition Tlocal_Put :: "nat \<Rightarrow> nat \<Rightarrow> kstate \<Rightarrow> kstate kres" where
  "Tlocal_Put k v s = do {
     KASSERT (k < tlocalKeyCounter s);
     KASSERT (k < MAX_TLOCAL_KEYS);
     d \<leftarrow> aset (tlocalData (thr s (g_currentThread s))) k v;
     Some (upd_thr (g_currentThread s) (\<lambda>t. t\<lparr>tlocalData := d\<rparr>) s) }"

definition Tlocal_Get :: "nat \<Rightarrow> kstate \<Rightarrow> nat kres" where
  "Tlocal_Get k s = do {
     KASSERT (k < tlocalKeyCounter s);
     KASSERT (k < MAX_TLOCAL_KEYS);
     aget (tlocalData (thr s (g_currentThread s))) k }"

record process_info =
  pi_name :: string
  pi_pid :: int
  pi_parent_pid :: int
  pi_priority :: int
  pi_status :: int

text \<open>The entries are written from index 1 on; beyond the caller's array the model stops.\<close>

fun dump_threads :: "kstate \<Rightarrow> u32 list \<Rightarrow> nat \<Rightarrow> process_info list \<Rightarrow> (nat \<times> process_info list) kres" where
  "dump_threads s [] n ps = Some (n, ps)"
| "dump_threads s (t # ts) n ps = do {
     let n = Suc n;
     let k = thr s t;
     ps \<leftarrow> aset ps n \<lparr>pi_name = tname k, pi_pid = pid k,
       pi_parent_pid = (if owner k \<noteq> 0 then pid (thr s (owner k)) else 0),
       pi_priority = priority k, pi_status = (if blocked k then 1 else 0)\<rparr>;
     dump_threads s ts n ps }"

definition Dump_All_Thread_List :: "process_info list \<Rightarrow> kstate \<Rightarrow> (process_info list \<times> kstate) kres" where
  "Dump_All_Thread_List ps s = do {
     (iflag, s) \<leftarrow> Begin_Int_Atomic s;
     (n, ps) \<leftarrow> dump_threads s (allThreads s) 0 ps;
     s \<leftarrow> End_Int_Atomic iflag s;
     Some (ps, s) }"

section \<open>Simplification\<close>

lemma int_flag_kstate [simp]:
  "int_flag ((s :: kstate)\<lparr>thr := x0\<rparr>) = int_flag s"
  "int_flag ((s :: kstate)\<lparr>allThreads := x1\<rparr>) = int_flag s"
  "int_flag ((s :: kstate)\<lparr>queues := x2\<rparr>) = int_flag s"
  "int_flag ((s :: kstate)\<lparr>g_currentThread := x3\<rparr>) = int_flag s"
  "int_flag ((s :: kstate)\<lparr>g_needReschedule := x4\<rparr>) = int_flag s"
  "int_flag ((s :: kstate)\<lparr>g_preemptionDisabled := x5\<rparr>) = int_flag s"
  "int_flag ((s :: kstate)\<lparr>MAX_QUEUE_LEVEL := x6\<rparr>) = int_flag s"
  "int_flag ((s :: kstate)\<lparr>tlocalKeyCounter := x7\<rparr>) = int_flag s"
  "int_flag ((s :: kstate)\<lparr>tlocalDestructors := x8\<rparr>) = int_flag s"
  "int_flag ((s :: kstate)\<lparr>nextFreePid := x9\<rparr>) = int_flag s"
  "int_flag ((s :: kstate)\<lparr>uctx := x10\<rparr>) = int_flag s"
  "int_flag ((s :: kstate)\<lparr>vm := x11\<rparr>) = int_flag s"
  by (cases s; simp)+

lemma upd_thr_simps [simp]:
  "thr (upd_thr t f s) = (thr s)(t := f (thr s t))" "allThreads (upd_thr t f s) = allThreads s"
  "queues (upd_thr t f s) = queues s" "g_currentThread (upd_thr t f s) = g_currentThread s"
  "MAX_QUEUE_LEVEL (upd_thr t f s) = MAX_QUEUE_LEVEL s" "int_flag (upd_thr t f s) = int_flag s"
  "g_preemptionDisabled (upd_thr t f s) = g_preemptionDisabled s"
  "g_needReschedule (upd_thr t f s) = g_needReschedule s" "vm (upd_thr t f s) = vm s"
  "uctx (upd_thr t f s) = uctx s" "nextFreePid (upd_thr t f s) = nextFreePid s"
  "tlocalKeyCounter (upd_thr t f s) = tlocalKeyCounter s"
  "tlocalDestructors (upd_thr t f s) = tlocalDestructors s"
  by (simp_all add: upd_thr_def)

lemma set_queue_simps [simp]:
  "thr (set_queue q ts s) = thr s" "allThreads (set_queue q ts s) = allThreads s"
  "queues (set_queue q ts s) = (queues s)(q := ts)" "g_currentThread (set_queue q ts s) = g_currentThread s"
  "MAX_QUEUE_LEVEL (set_queue q ts s) = MAX_QUEUE_LEVEL s" "int_flag (set_queue q ts s) = int_flag s"
  "g_preemptionDisabled (set_queue q ts s) = g_preemptionDisabled s"
  "g_needReschedule (set_queue q ts s) = g_needReschedule s" "vm (set_queue q ts s) = vm s"
  "uctx (set_queue q ts s) = uctx s" "nextFreePid (set_queue q ts s) = nextFreePid s"
  "tlocalKeyCounter (set_queue q ts s) = tlocalKeyCounter s"
  "tlocalDestructors (set_queue q ts s) = tlocalDestructors s"
  by (simp_all add: set_queue_def)

lemma Clear_Thread_Queue_eq [simp]: "Clear_Thread_Queue q s = set_queue q [] s"
  by (simp add: Clear_Thread_Queue_def)

lemma Enqueue_Thread_ok [simp]:
  "t \<notin> set (queues s q) \<Longrightarrow> Enqueue_Thread q t s = Some (set_queue q (queues s q @ [t]) s)"
  by (simp add: Enqueue_Thread_def)

lemma Remove_Thread_ok [simp]:
  "t \<in> set (queues s q) \<Longrightarrow> Remove_Thread q t s = Some (set_queue q (remove1 t (queues s q)) s)"
  by (simp add: Remove_Thread_def)

section \<open>The scheduler's invariant\<close>

text \<open>
  All threads on queues exist; no thread is on two queues (the queues share the link
  members); a thread on a run queue is on the queue of its level; levels are in range.
\<close>

definition sched_ok :: "kstate \<Rightarrow> bool" where
  "sched_ok s \<longleftrightarrow>
     (\<forall>q. distinct (queues s q) \<and> set (queues s q) \<subseteq> set (allThreads s)) \<and>
     (\<forall>q q' t. t \<in> set (queues s q) \<longrightarrow> t \<in> set (queues s q') \<longrightarrow> q = q') \<and>
     distinct (allThreads s) \<and> (MAX_QUEUE_LEVEL s = 1 \<or> MAX_QUEUE_LEVEL s = 4) \<and>
     (\<forall>t \<in> set (allThreads s). 0 \<le> currentReadyQueue (thr s t)) \<and>
     (\<forall>i t. t \<in> set (queues s (RunQ i)) \<longrightarrow>
        int i < MAX_QUEUE_LEVEL s \<and> currentReadyQueue (thr s t) = int i)"

definition off_queues :: "kstate \<Rightarrow> u32 \<Rightarrow> bool" where
  "off_queues s t \<longleftrightarrow> (\<forall>q. t \<notin> set (queues s q))"

lemma sched_okD:
  assumes "sched_ok s"
  shows "distinct (queues s q)" "t \<in> set (queues s q) \<Longrightarrow> t \<in> set (allThreads s)"
    "t \<in> set (queues s q) \<Longrightarrow> t \<in> set (queues s q') \<Longrightarrow> q = q'" "distinct (allThreads s)"
    "MAX_QUEUE_LEVEL s = 1 \<or> MAX_QUEUE_LEVEL s = 4" "0 < MAX_QUEUE_LEVEL s"
    "t \<in> set (allThreads s) \<Longrightarrow> 0 \<le> currentReadyQueue (thr s t)"
    "t \<in> set (queues s (RunQ i)) \<Longrightarrow> int i < MAX_QUEUE_LEVEL s"
    "t \<in> set (queues s (RunQ i)) \<Longrightarrow> currentReadyQueue (thr s t) = int i"
  using assms by (auto simp: sched_ok_def)

text \<open>The level on which \<open>Make_Runnable\<close> puts a thread.\<close>

definition run_level :: "kstate \<Rightarrow> u32 \<Rightarrow> int" where
  "run_level s t = (
     let m = MAX_QUEUE_LEVEL s - 1; c = min (currentReadyQueue (thr s t)) m in
     if priority (thr s t) = PRIORITY_IDLE then m
     else if blocked (thr s t) \<and> c > 0 then c - 1 else c)"

definition made_runnable :: "u32 \<Rightarrow> kstate \<Rightarrow> kstate" where
  "made_runnable t s = (
     let l = run_level s t in
     set_queue (RunQ (nat l)) (queues s (RunQ (nat l)) @ [t])
       (upd_thr t (\<lambda>k. k\<lparr>currentReadyQueue := l, blocked := False\<rparr>) s))"

lemma run_level_bounds:
  "0 \<le> currentReadyQueue (thr s t) \<Longrightarrow> 0 < MAX_QUEUE_LEVEL s \<Longrightarrow>
   0 \<le> run_level s t \<and> run_level s t < MAX_QUEUE_LEVEL s"
  by (auto simp: run_level_def Let_def)

lemma upd_thr_upd [simp]: "upd_thr t g (upd_thr t f s) = upd_thr t (\<lambda>k. g (f k)) s"
  by (simp add: upd_thr_def)

lemma crq_same: "currentReadyQueue k = l \<Longrightarrow> k\<lparr>currentReadyQueue := l, blocked := b\<rparr> = k\<lparr>blocked := b\<rparr>"
  by (cases k) simp

lemma Make_Runnable_eq:
  assumes "\<not> int_flag s" "0 \<le> currentReadyQueue (thr s t)" "0 < MAX_QUEUE_LEVEL s"
    "t \<notin> set (queues s (RunQ (nat (run_level s t))))"
  shows "Make_Runnable t s = Some (made_runnable t s)"
  using assms unfolding made_runnable_def run_level_def Let_def
  by (auto simp: Make_Runnable_def Let_def min_def upd_thr_def set_queue_def crq_same)

lemma made_runnable_simps [simp]:
  "allThreads (made_runnable t s) = allThreads s" "int_flag (made_runnable t s) = int_flag s"
  "g_currentThread (made_runnable t s) = g_currentThread s"
  "MAX_QUEUE_LEVEL (made_runnable t s) = MAX_QUEUE_LEVEL s"
  "g_preemptionDisabled (made_runnable t s) = g_preemptionDisabled s"
  "u \<noteq> t \<Longrightarrow> thr (made_runnable t s) u = thr s u"
  "priority (thr (made_runnable t s) u) = priority (thr s u)"
  "alive (thr (made_runnable t s) u) = alive (thr s u)"
  "refCount (thr (made_runnable t s) u) = refCount (thr s u)"
  "owner (thr (made_runnable t s) u) = owner (thr s u)"
  "currentReadyQueue (thr (made_runnable t s) t) = run_level s t"
  "blocked (thr (made_runnable t s) t) = False"
  by (simp_all add: made_runnable_def Let_def)

lemma made_runnable_queues:
  "queues (made_runnable t s) =
     (queues s)(RunQ (nat (run_level s t)) := queues s (RunQ (nat (run_level s t))) @ [t])"
  by (simp add: made_runnable_def Let_def)

lemma made_runnable_mem:
  "u \<in> set (queues (made_runnable t s) q) \<longleftrightarrow>
     u \<in> set (queues s q) \<or> u = t \<and> q = RunQ (nat (run_level s t))"
  by (auto simp: made_runnable_queues)

lemma sched_ok_intro:
  assumes "\<And>q. distinct (queues s q)" "\<And>q t. t \<in> set (queues s q) \<Longrightarrow> t \<in> set (allThreads s)"
    "\<And>q q' t. t \<in> set (queues s q) \<Longrightarrow> t \<in> set (queues s q') \<Longrightarrow> q = q'" "distinct (allThreads s)"
    "MAX_QUEUE_LEVEL s = 1 \<or> MAX_QUEUE_LEVEL s = 4"
    "\<And>t. t \<in> set (allThreads s) \<Longrightarrow> 0 \<le> currentReadyQueue (thr s t)"
    "\<And>i t. t \<in> set (queues s (RunQ i)) \<Longrightarrow> int i < MAX_QUEUE_LEVEL s \<and> currentReadyQueue (thr s t) = int i"
  shows "sched_ok s"
  using assms unfolding sched_ok_def by blast

lemma made_runnable_sched_ok:
  assumes ok: "sched_ok s" and off: "off_queues s t" and t: "t \<in> set (allThreads s)"
  shows "sched_ok (made_runnable t s)"
proof (rule sched_ok_intro)
  note D = sched_okD [OF ok]
  have off': "t \<notin> set (queues s q)" for q using off by (simp add: off_queues_def)
  have lev: "0 \<le> run_level s t" "run_level s t < MAX_QUEUE_LEVEL s"
    using run_level_bounds [OF D(7) [OF t] D(6)] by auto
  show "distinct (queues (made_runnable t s) q)" for q
    using D(1) off' by (simp add: made_runnable_queues)
  show "u \<in> set (allThreads (made_runnable t s))" if "u \<in> set (queues (made_runnable t s) q)" for q u
    using that D(2) t by (auto simp: made_runnable_mem)
  show "q = q'" if "u \<in> set (queues (made_runnable t s) q)" "u \<in> set (queues (made_runnable t s) q')" for q q' u
    using that D(3) off' by (auto simp: made_runnable_mem)
  show "distinct (allThreads (made_runnable t s))"
    "MAX_QUEUE_LEVEL (made_runnable t s) = 1 \<or> MAX_QUEUE_LEVEL (made_runnable t s) = 4"
    using D(4,5) by simp_all
  show "0 \<le> currentReadyQueue (thr (made_runnable t s) u)" if "u \<in> set (allThreads (made_runnable t s))" for u
    using that D(7) lev by (cases "u = t") simp_all
  show "int i < MAX_QUEUE_LEVEL (made_runnable t s) \<and> currentReadyQueue (thr (made_runnable t s) u) = int i"
    if "u \<in> set (queues (made_runnable t s) (RunQ i))" for i u
    using that D(8,9) lev off' [of "RunQ i"] by (cases "u = t") (auto simp: made_runnable_mem)
qed

text \<open>\<open>Make_Runnable\<close> of an existing thread that is on no queue succeeds and keeps the invariant.\<close>

lemma Make_Runnable_ok:
  assumes "sched_ok s" "off_queues s t" "t \<in> set (allThreads s)" "\<not> int_flag s"
  shows "Make_Runnable t s = Some (made_runnable t s)" "sched_ok (made_runnable t s)"
  using assms made_runnable_sched_ok sched_okD(6,7) [OF assms(1)]
  by (auto intro!: Make_Runnable_eq simp: off_queues_def)

section \<open>Waking up\<close>

text \<open>A wait queue is one that is neither a run queue nor the graveyard.\<close>

definition is_wait_queue :: "qid \<Rightarrow> bool" where
  "is_wait_queue q \<longleftrightarrow> (case q of RunQ _ \<Rightarrow> False | Graveyard \<Rightarrow> False | _ \<Rightarrow> True)"

lemma is_wait_queue_simps [simp]:
  "\<not> is_wait_queue (RunQ i)" "\<not> is_wait_queue Graveyard" "is_wait_queue ReaperWait"
  "is_wait_queue (JoinQ t)" "is_wait_queue (WaitQ a)"
  by (simp_all add: is_wait_queue_def)

lemma run_level_set_queue [simp]: "run_level (set_queue q ts s) t = run_level s t"
  by (simp add: run_level_def Let_def)

lemma made_runnable_commute:
  assumes "is_wait_queue q"
  shows "made_runnable t (set_queue q [] s) = set_queue q [] (made_runnable t s)"
proof -
  have q: "q \<noteq> RunQ i" for i using assms by auto
  have tw: "(queues s)(q := [], RunQ i := x) = (queues s)(RunQ i := x, q := [])" for i x
    using q by (rule fun_upd_twist)
  show ?thesis
    unfolding made_runnable_def run_level_set_queue Let_def
    using q [symmetric] by (simp add: set_queue_def upd_thr_def tw)
qed

text \<open>What waking up threads leaves as it was.\<close>

definition wake_frame :: "u32 set \<Rightarrow> kstate \<Rightarrow> kstate \<Rightarrow> bool" where
  "wake_frame W s s' \<longleftrightarrow> sched_ok s' \<and> int_flag s' = int_flag s \<and> allThreads s' = allThreads s \<and>
     g_currentThread s' = g_currentThread s \<and> MAX_QUEUE_LEVEL s' = MAX_QUEUE_LEVEL s \<and>
     g_preemptionDisabled s' = g_preemptionDisabled s \<and>
     (\<forall>i u. u \<in> set (queues s (RunQ i)) \<longrightarrow> u \<in> set (queues s' (RunQ i))) \<and>
     (\<forall>u. u \<notin> W \<longrightarrow> off_queues s u \<longrightarrow> off_queues s' u) \<and>
     (\<forall>u. u \<notin> W \<longrightarrow> thr s' u = thr s u) \<and>
     (\<forall>u. priority (thr s' u) = priority (thr s u) \<and> alive (thr s' u) = alive (thr s u) \<and>
       refCount (thr s' u) = refCount (thr s u) \<and> owner (thr s' u) = owner (thr s u))"

lemma wake_frameD:
  assumes "wake_frame W s s'"
  shows "sched_ok s'" "int_flag s' = int_flag s" "allThreads s' = allThreads s"
    "g_currentThread s' = g_currentThread s" "MAX_QUEUE_LEVEL s' = MAX_QUEUE_LEVEL s"
    "g_preemptionDisabled s' = g_preemptionDisabled s"
    "u \<in> set (queues s (RunQ i)) \<Longrightarrow> u \<in> set (queues s' (RunQ i))"
    "u \<notin> W \<Longrightarrow> off_queues s u \<Longrightarrow> off_queues s' u" "u \<notin> W \<Longrightarrow> thr s' u = thr s u"
    "priority (thr s' u) = priority (thr s u)" "alive (thr s' u) = alive (thr s u)"
    "refCount (thr s' u) = refCount (thr s u)" "owner (thr s' u) = owner (thr s u)"
  using assms by (auto simp: wake_frame_def)

lemma wake_frame_trans:
  assumes "wake_frame W s s1" "wake_frame V s1 s2"
  shows "wake_frame (W \<union> V) s s2"
proof -
  note 1 = wake_frameD [OF assms(1)] and 2 = wake_frameD [OF assms(2)]
  show ?thesis
    unfolding wake_frame_def using 1 2 by (intro conjI allI impI) simp_all
qed

lemma made_runnable_wake_frame:
  assumes "sched_ok (made_runnable t s)"
  shows "wake_frame {t} s (made_runnable t s)"
  using assms by (auto simp: wake_frame_def made_runnable_mem off_queues_def)

lemma make_all_runnable_ok:
  assumes "sched_ok s" "\<forall>t\<in>set ts. off_queues s t" "set ts \<subseteq> set (allThreads s)" "\<not> int_flag s" "distinct ts"
  shows "\<exists>s'. make_all_runnable ts s = Some s' \<and> wake_frame (set ts) s s' \<and>
    (\<forall>q. (\<forall>i. q \<noteq> RunQ i) \<longrightarrow> queues s' q = queues s q) \<and>
    (\<forall>t\<in>set ts. \<exists>i. t \<in> set (queues s' (RunQ i)) \<and> \<not> blocked (thr s' t))"
  using assms
proof (induction ts arbitrary: s)
  case Nil
  then show ?case by (simp add: wake_frame_def)
next
  case (Cons t ts)
  then have t: "t \<in> set (allThreads s)" "off_queues s t" by auto
  let ?s = "made_runnable t s"
  note mr = Make_Runnable_ok [OF Cons.prems(1) t(2,1) Cons.prems(4)]
  have off: "\<forall>u\<in>set ts. off_queues ?s u"
    using Cons.prems(2,5) by (auto simp: off_queues_def made_runnable_mem)
  obtain s' where s': "make_all_runnable ts ?s = Some s'" "wake_frame (set ts) ?s s'"
    "\<forall>q. (\<forall>i. q \<noteq> RunQ i) \<longrightarrow> queues s' q = queues ?s q"
    "\<forall>t\<in>set ts. \<exists>i. t \<in> set (queues s' (RunQ i)) \<and> \<not> blocked (thr s' t)"
    using Cons.IH [OF mr(2) off] Cons.prems(3-5) by auto
  note F = wake_frameD [OF s'(2)]
  have tts: "t \<notin> set ts" using Cons.prems(5) by simp
  have "t \<in> set (queues ?s (RunQ (nat (run_level s t))))" by (simp add: made_runnable_mem)
  then have "\<exists>i. t \<in> set (queues s' (RunQ i)) \<and> \<not> blocked (thr s' t)"
    using F(7) F(9) [OF tts] by auto
  moreover have "queues s' q = queues s q" if "\<forall>i. q \<noteq> RunQ i" for q
    using that s'(3) by (simp add: made_runnable_queues)
  moreover have "wake_frame (set (t # ts)) s s'"
    using wake_frame_trans [OF made_runnable_wake_frame [OF mr(2)] s'(2)] by simp
  ultimately show ?case using mr(1) s'(1,4) by (intro exI [of _ s']) simp
qed

text \<open>Clearing the wait queue first or last makes no difference.\<close>

lemma make_all_commute:
  assumes "is_wait_queue q" "sched_ok (set_queue q [] s)" "\<forall>t\<in>set ts. off_queues (set_queue q [] s) t"
    "set ts \<subseteq> set (allThreads s)" "\<not> int_flag s" "distinct ts"
  shows "map_option (set_queue q []) (make_all_runnable ts s) = make_all_runnable ts (set_queue q [] s)"
  using assms
proof (induction ts arbitrary: s)
  case (Cons t ts)
  let ?s0 = "set_queue q [] s"
  have t: "t \<in> set (allThreads ?s0)" "off_queues ?s0 t" "\<not> int_flag ?s0" using Cons.prems by auto
  note mr0 = Make_Runnable_ok [OF Cons.prems(2) t(2,1,3)]
  have "RunQ i \<noteq> q" for i using Cons.prems(1) by auto
  then have "t \<notin> set (queues s (RunQ i))" for i
    using t(2) by (auto simp: off_queues_def split: if_splits)
  then have mr: "Make_Runnable t s = Some (made_runnable t s)"
    using sched_okD(6,7) [OF Cons.prems(2)] t by (intro Make_Runnable_eq) simp_all
  have off: "\<forall>u\<in>set ts. off_queues (set_queue q [] (made_runnable t s)) u"
    using Cons.prems(3,6) unfolding made_runnable_commute [OF Cons.prems(1), symmetric]
    by (auto simp: off_queues_def made_runnable_mem)
  have "map_option (set_queue q []) (make_all_runnable ts (made_runnable t s)) =
      make_all_runnable ts (set_queue q [] (made_runnable t s))"
    using Cons.IH [OF Cons.prems(1) _ off] mr0(2) Cons.prems(4-6)
    by (simp add: made_runnable_commute [OF Cons.prems(1)])
  then show ?case using mr mr0(1) by (simp add: made_runnable_commute [OF Cons.prems(1)])
qed simp

text \<open>Shortening a queue keeps the invariant.\<close>

lemma sched_ok_shrink:
  assumes ok: "sched_ok s" and sub: "set ts \<subseteq> set (queues s q)" and d: "distinct ts"
  shows "sched_ok (set_queue q ts s)"
proof (rule sched_ok_intro)
  note D = sched_okD [OF ok]
  have mem: "u \<in> set (queues s q')" if "u \<in> set (queues (set_queue q ts s) q')" for u q'
    using that sub by (auto split: if_splits)
  show "distinct (queues (set_queue q ts s) q')" for q' using D(1) d by simp
  show "u \<in> set (allThreads (set_queue q ts s))" if "u \<in> set (queues (set_queue q ts s) q')" for q' u
    using mem [OF that] D(2) by simp
  show "q1 = q2" if "u \<in> set (queues (set_queue q ts s) q1)" "u \<in> set (queues (set_queue q ts s) q2)" for q1 q2 u
    using mem [OF that(1)] mem [OF that(2)] D(3) by blast
  show "distinct (allThreads (set_queue q ts s))"
    "MAX_QUEUE_LEVEL (set_queue q ts s) = 1 \<or> MAX_QUEUE_LEVEL (set_queue q ts s) = 4"
    using D(4,5) by simp_all
  show "0 \<le> currentReadyQueue (thr (set_queue q ts s) u)" if "u \<in> set (allThreads (set_queue q ts s))" for u
    using that D(7) by simp
  show "int i < MAX_QUEUE_LEVEL (set_queue q ts s) \<and> currentReadyQueue (thr (set_queue q ts s) u) = int i"
    if "u \<in> set (queues (set_queue q ts s) (RunQ i))" for i u
    using mem [OF that] D(8,9) by simp
qed

lemma wake_frame_clear:
  assumes q: "is_wait_queue q" and w: "wake_frame W (set_queue q [] s) s'"
  shows "wake_frame W s s'"
proof -
  have "RunQ i \<noteq> q" for i using q by auto
  moreover have "off_queues s u \<Longrightarrow> off_queues (set_queue q [] s) u" for u by (simp add: off_queues_def)
  ultimately show ?thesis
    unfolding wake_frame_def using wake_frameD [OF w] by (intro conjI allI impI) simp_all
qed

lemma Wake_Up_ok:
  assumes ok: "sched_ok s" and q: "is_wait_queue q" and IF: "\<not> int_flag s"
  shows "\<exists>s'. Wake_Up q s = Some s' \<and> wake_frame (set (queues s q)) s s' \<and> queues s' q = [] \<and>
    (\<forall>q'. (\<forall>i. q' \<noteq> RunQ i) \<longrightarrow> q' \<noteq> q \<longrightarrow> queues s' q' = queues s q') \<and>
    (\<forall>t\<in>set (queues s q). \<exists>i. t \<in> set (queues s' (RunQ i)) \<and> \<not> blocked (thr s' t))"
proof -
  let ?ts = "queues s q" and ?s0 = "set_queue q [] s"
  have ok0: "sched_ok ?s0" by (rule sched_ok_shrink [OF ok]) simp_all
  have off: "\<forall>t\<in>set ?ts. off_queues ?s0 t"
    using sched_okD(3) [OF ok] by (auto simp: off_queues_def)
  have sub: "set ?ts \<subseteq> set (allThreads s)" "distinct ?ts" using sched_okD(1,2) [OF ok] by auto
  obtain s' where s': "make_all_runnable ?ts ?s0 = Some s'" "wake_frame (set ?ts) ?s0 s'"
    "\<forall>q'. (\<forall>i. q' \<noteq> RunQ i) \<longrightarrow> queues s' q' = queues ?s0 q'"
    "\<forall>t\<in>set ?ts. \<exists>i. t \<in> set (queues s' (RunQ i)) \<and> \<not> blocked (thr s' t)"
    using make_all_runnable_ok [OF ok0 off] sub IF by auto
  have "map_option (set_queue q []) (make_all_runnable ?ts s) = Some s'"
    using make_all_commute [OF q ok0 off sub(1) IF sub(2)] s'(1) by simp
  then have run: "Wake_Up q s = Some s'" using IF by (auto simp: Wake_Up_def)
  have "q \<noteq> RunQ i" for i using q by auto
  then have "queues s' q = []" using s'(3) by simp
  with run wake_frame_clear [OF q s'(2)] s'(3,4) show ?thesis by auto
qed

section \<open>The choice of the next thread\<close>

lemma find_best_Some:
  "\<exists>t. find_best s ts (Some b) = Some t \<and>
     (t = b \<and> (\<forall>u\<in>set ts. priority (thr s u) \<le> priority (thr s b)) \<or>
      (\<exists>as bs. ts = as @ t # bs \<and> priority (thr s b) < priority (thr s t) \<and>
        (\<forall>u\<in>set as. priority (thr s u) < priority (thr s t)) \<and>
        (\<forall>u\<in>set bs. priority (thr s u) \<le> priority (thr s t))))"
proof (induction ts arbitrary: b)
  case (Cons x ts)
  show ?case
  proof (cases "priority (thr s x) > priority (thr s b)")
    case True
    from Cons.IH [of x] obtain t where t: "find_best s ts (Some x) = Some t"
      "t = x \<and> (\<forall>u\<in>set ts. priority (thr s u) \<le> priority (thr s x)) \<or>
       (\<exists>as bs. ts = as @ t # bs \<and> priority (thr s x) < priority (thr s t) \<and>
        (\<forall>u\<in>set as. priority (thr s u) < priority (thr s t)) \<and>
        (\<forall>u\<in>set bs. priority (thr s u) \<le> priority (thr s t)))" by blast
    from t(2) show ?thesis
    proof (elim disjE conjE exE)
      assume "t = x" "\<forall>u\<in>set ts. priority (thr s u) \<le> priority (thr s x)"
      then have "\<exists>as bs. x # ts = as @ t # bs \<and> priority (thr s b) < priority (thr s t) \<and>
        (\<forall>u\<in>set as. priority (thr s u) < priority (thr s t)) \<and>
        (\<forall>u\<in>set bs. priority (thr s u) \<le> priority (thr s t))"
        using True by (intro exI [of _ "[]"] exI [of _ ts]) simp
      with t(1) True show ?thesis by (intro exI [of _ t]) simp
    next
      fix as bs
      assume "ts = as @ t # bs" "priority (thr s x) < priority (thr s t)"
        "\<forall>u\<in>set as. priority (thr s u) < priority (thr s t)"
        "\<forall>u\<in>set bs. priority (thr s u) \<le> priority (thr s t)"
      then have "\<exists>as bs. x # ts = as @ t # bs \<and> priority (thr s b) < priority (thr s t) \<and>
        (\<forall>u\<in>set as. priority (thr s u) < priority (thr s t)) \<and>
        (\<forall>u\<in>set bs. priority (thr s u) \<le> priority (thr s t))"
        using True by (intro exI [of _ "x # as"] exI [of _ bs]) simp
      with t(1) True show ?thesis by (intro exI [of _ t]) simp
    qed
  next
    case False
    from Cons.IH [of b] obtain t where t: "find_best s ts (Some b) = Some t"
      "t = b \<and> (\<forall>u\<in>set ts. priority (thr s u) \<le> priority (thr s b)) \<or>
       (\<exists>as bs. ts = as @ t # bs \<and> priority (thr s b) < priority (thr s t) \<and>
        (\<forall>u\<in>set as. priority (thr s u) < priority (thr s t)) \<and>
        (\<forall>u\<in>set bs. priority (thr s u) \<le> priority (thr s t)))" by blast
    from t(2) show ?thesis
    proof (elim disjE conjE exE)
      assume "t = b" "\<forall>u\<in>set ts. priority (thr s u) \<le> priority (thr s b)"
      with t(1) False show ?thesis by (intro exI [of _ t]) simp
    next
      fix as bs
      assume "ts = as @ t # bs" "priority (thr s b) < priority (thr s t)"
        "\<forall>u\<in>set as. priority (thr s u) < priority (thr s t)"
        "\<forall>u\<in>set bs. priority (thr s u) \<le> priority (thr s t)"
      then have "\<exists>as bs. x # ts = as @ t # bs \<and> priority (thr s b) < priority (thr s t) \<and>
        (\<forall>u\<in>set as. priority (thr s u) < priority (thr s t)) \<and>
        (\<forall>u\<in>set bs. priority (thr s u) \<le> priority (thr s t))"
        using False by (intro exI [of _ "x # as"] exI [of _ bs]) auto
      with t(1) False show ?thesis by (intro exI [of _ t]) simp
    qed
  qed
qed simp

text \<open>The first thread of the highest priority in the list.\<close>

definition first_best :: "kstate \<Rightarrow> u32 list \<Rightarrow> u32 \<Rightarrow> bool" where
  "first_best s ts t \<longleftrightarrow> (\<exists>as bs. ts = as @ t # bs \<and>
     (\<forall>u\<in>set as. priority (thr s u) < priority (thr s t)) \<and>
     (\<forall>u\<in>set bs. priority (thr s u) \<le> priority (thr s t)))"

lemma first_best_mem: "first_best s ts t \<Longrightarrow> t \<in> set ts \<and> (\<forall>u\<in>set ts. priority (thr s u) \<le> priority (thr s t))"
  by (auto simp: first_best_def less_imp_le)

lemma Find_Best_spec:
  "case Find_Best s q of None \<Rightarrow> queues s q = [] | Some t \<Rightarrow> first_best s (queues s q) t"
proof (cases "queues s q")
  case (Cons x ts)
  from find_best_Some [of s ts x] obtain t where t: "find_best s ts (Some x) = Some t"
    "t = x \<and> (\<forall>u\<in>set ts. priority (thr s u) \<le> priority (thr s x)) \<or>
      (\<exists>as bs. ts = as @ t # bs \<and> priority (thr s x) < priority (thr s t) \<and>
        (\<forall>u\<in>set as. priority (thr s u) < priority (thr s t)) \<and>
        (\<forall>u\<in>set bs. priority (thr s u) \<le> priority (thr s t)))" by blast
  from t(2) have "first_best s (x # ts) t"
  proof (elim disjE conjE exE)
    assume "t = x" "\<forall>u\<in>set ts. priority (thr s u) \<le> priority (thr s x)"
    then show ?thesis unfolding first_best_def by (intro exI [of _ "[]"] exI [of _ ts]) simp
  next
    fix as bs
    assume "ts = as @ t # bs" "priority (thr s x) < priority (thr s t)"
      "\<forall>u\<in>set as. priority (thr s u) < priority (thr s t)"
      "\<forall>u\<in>set bs. priority (thr s u) \<le> priority (thr s t)"
    then show ?thesis unfolding first_best_def by (intro exI [of _ "x # as"] exI [of _ bs]) simp
  qed
  with t(1) Cons show ?thesis by (simp add: Find_Best_def)
qed (simp add: Find_Best_def)

lemma find_level_spec:
  "case find_level s i n of
     None \<Rightarrow> \<forall>j. i \<le> j \<and> j < i + n \<longrightarrow> queues s (RunQ j) = []
   | Some (l, t) \<Rightarrow> i \<le> l \<and> l < i + n \<and> first_best s (queues s (RunQ l)) t \<and>
       (\<forall>j. i \<le> j \<and> j < l \<longrightarrow> queues s (RunQ j) = [])"
proof (induction n arbitrary: i)
  case (Suc n)
  show ?case
  proof (cases "Find_Best s (RunQ i)")
    case None
    have e: "queues s (RunQ i) = []" using Find_Best_spec [of s "RunQ i"] None by simp
    have le: "i \<le> j \<longleftrightarrow> j = i \<or> Suc i \<le> j" for j by linarith
    show ?thesis
      using Suc.IH [of "Suc i"] None e by (auto simp: le split: option.splits)
  next
    case (Some t)
    then show ?thesis using Find_Best_spec [of s "RunQ i"] by auto
  qed
qed auto

text \<open>The thread that \<open>Schedule\<close> selects: from the first level that is not empty.\<close>

definition is_next :: "kstate \<Rightarrow> nat \<Rightarrow> u32 \<Rightarrow> bool" where
  "is_next s l t \<longleftrightarrow> int l < MAX_QUEUE_LEVEL s \<and> first_best s (queues s (RunQ l)) t \<and>
     (\<forall>j < l. queues s (RunQ j) = [])"

lemma Schedule_ok:
  assumes ok: "sched_ok s" and IF: "\<not> int_flag s" "\<not> g_preemptionDisabled s"
    and ne: "queues s (RunQ i) \<noteq> []"
  shows "\<exists>l t. is_next s l t \<and>
    Schedule s = Some (set_queue (RunQ l) (remove1 t (queues s (RunQ l))) s\<lparr>g_currentThread := t\<rparr>)"
proof -
  let ?n = "nat (MAX_QUEUE_LEVEL s)"
  obtain x where "x \<in> set (queues s (RunQ i))" using ne by (cases "queues s (RunQ i)") auto
  with sched_okD(8) [OF ok] have "int i < MAX_QUEUE_LEVEL s" by blast
  then have i: "i < ?n" by simp
  with find_level_spec [where s = s and i = 0 and n = ?n] ne have "find_level s 0 ?n \<noteq> None" by (cases "find_level s 0 ?n") auto
  then obtain l t where lt: "find_level s 0 ?n = Some (l, t)" by auto
  with find_level_spec [where s = s and i = 0 and n = ?n] have nx: "is_next s l t"
    by (auto simp: is_next_def)
  then have "t \<in> set (queues s (RunQ l))" using first_best_mem by (auto simp: is_next_def)
  then have "Schedule s = Some (set_queue (RunQ l) (remove1 t (queues s (RunQ l))) s\<lparr>g_currentThread := t\<rparr>)"
    using lt IF by (simp add: Schedule_def Get_Next_Runnable_def Switch_To_Thread_def)
  with nx show ?thesis by blast
qed

section \<open>The invariant of the running system\<close>

lemma sched_ok_current: "sched_ok (s\<lparr>g_currentThread := t\<rparr>) = sched_ok s"
  by (simp add: sched_ok_def)

text \<open>Some idle thread is running or waits on the last run queue.\<close>

definition idle_ok :: "kstate \<Rightarrow> bool" where
  "idle_ok s \<longleftrightarrow> (\<exists>t \<in> set (allThreads s). priority (thr s t) = PRIORITY_IDLE \<and>
     (t = g_currentThread s \<or> t \<in> set (queues s (RunQ (nat (MAX_QUEUE_LEVEL s - 1))))))"

definition kinv :: "kstate \<Rightarrow> bool" where
  "kinv s \<longleftrightarrow> sched_ok s \<and> g_currentThread s \<in> set (allThreads s) \<and>
     off_queues s (g_currentThread s) \<and> idle_ok s"

lemma kinv_wake:
  assumes "kinv s" "wake_frame W s s'" "g_currentThread s \<notin> W"
  shows "kinv s'"
proof -
  note F = wake_frameD [OF assms(2)]
  from assms(1) have i: "idle_ok s" by (simp add: kinv_def)
  then have "idle_ok s'" unfolding idle_ok_def F(3,4,5,10) using F(7) by blast
  with assms(1,3) F(1,3,4) F(8) show ?thesis by (auto simp: kinv_def)
qed

text \<open>A state about to switch: the old thread has been put where it belongs, an idle thread
  is on the last run queue.\<close>

definition idle_queued :: "kstate \<Rightarrow> bool" where
  "idle_queued s \<longleftrightarrow> (\<exists>t. priority (thr s t) = PRIORITY_IDLE \<and>
     t \<in> set (queues s (RunQ (nat (MAX_QUEUE_LEVEL s - 1)))))"

lemma Schedule_kinv:
  assumes ok: "sched_ok s" and IF: "\<not> int_flag s" "\<not> g_preemptionDisabled s" and idle: "idle_queued s"
  shows "\<exists>l t s'. Schedule s = Some s' \<and> is_next s l t \<and> kinv s' \<and> g_currentThread s' = t \<and>
    thr s' = thr s \<and> allThreads s' = allThreads s \<and> \<not> int_flag s' \<and> \<not> g_preemptionDisabled s' \<and>
    queues s' = (queues s)(RunQ l := remove1 t (queues s (RunQ l)))"
proof -
  obtain z where z: "priority (thr s z) = 0" "z \<in> set (queues s (RunQ (nat (MAX_QUEUE_LEVEL s - 1))))"
    using idle by (auto simp: idle_queued_def)
  then have "queues s (RunQ (nat (MAX_QUEUE_LEVEL s - 1))) \<noteq> []" by auto
  from Schedule_ok [OF ok IF this] obtain l t where lt: "is_next s l t"
    "Schedule s = Some (set_queue (RunQ l) (remove1 t (queues s (RunQ l))) s\<lparr>g_currentThread := t\<rparr>)" by blast
  let ?s0 = "set_queue (RunQ l) (remove1 t (queues s (RunQ l))) s"
  let ?s' = "?s0\<lparr>g_currentThread := t\<rparr>"
  note D = sched_okD [OF ok]
  have t: "t \<in> set (queues s (RunQ l))" using lt(1) first_best_mem by (auto simp: is_next_def)
  have "sched_ok ?s0"
    using D(1) by (intro sched_ok_shrink [OF ok] set_remove1_subset distinct_remove1)
  then have ok': "sched_ok ?s'" by (simp only: sched_ok_current)
  have off: "off_queues ?s' t"
    using D(1) [of "RunQ l"] D(3) [OF t] by (auto simp: off_queues_def)
  have "z = t \<or> z \<in> set (queues ?s' (RunQ (nat (MAX_QUEUE_LEVEL s - 1))))"
    using z(2) D(1) by (cases "z = t") auto
  then have "idle_ok ?s'" using z D(2) by (auto simp: idle_ok_def)
  with ok' off t D(2) have "kinv ?s'" by (auto simp: kinv_def)
  with lt IF show ?thesis by (intro exI [of _ l] exI [of _ t] exI [of _ ?s']) simp
qed

text \<open>The steps in which the running thread gives up the processor.\<close>

lemma kinv_current:
  assumes "kinv s"
  shows "sched_ok s" "g_currentThread s \<in> set (allThreads s)" "off_queues s (g_currentThread s)" "idle_ok s"
  using assms by (auto simp: kinv_def)

lemma idle_queued_after_runnable:
  assumes inv: "kinv s"
  shows "idle_queued (made_runnable (g_currentThread s) s)"
proof -
  let ?c = "g_currentThread s"
  obtain z where z: "priority (thr s z) = 0"
    "z = ?c \<or> z \<in> set (queues s (RunQ (nat (MAX_QUEUE_LEVEL s - 1))))"
    using kinv_current(4) [OF inv] by (auto simp: idle_ok_def)
  show ?thesis unfolding idle_queued_def
  proof (intro exI [of _ z] conjI)
    show "priority (thr (made_runnable ?c s) z) = 0" using z(1) by simp
    have "run_level s ?c = MAX_QUEUE_LEVEL s - 1" if "z = ?c"
      using z(1) that by (simp add: run_level_def Let_def)
    with z(2) show "z \<in> set (queues (made_runnable ?c s) (RunQ (nat (MAX_QUEUE_LEVEL (made_runnable ?c s) - 1))))"
      by (auto simp: made_runnable_mem)
  qed
qed

lemma Yield_kinv:
  assumes inv: "kinv s" and IF: "int_flag s" "\<not> g_preemptionDisabled s"
  shows "\<exists>s'. Yield s = Some s' \<and> kinv s' \<and> \<not> int_flag s' \<and> \<not> g_preemptionDisabled s' \<and>
    (\<forall>u. priority (thr s' u) = priority (thr s u)) \<and>
    (\<forall>q. (\<forall>i. q \<noteq> RunQ i) \<longrightarrow> queues s' q = queues s q) \<and>
    is_next (made_runnable (g_currentThread s) s)
      (nat (currentReadyQueue (thr s' (g_currentThread s')))) (g_currentThread s')"
proof -
  let ?s = "s\<lparr>int_flag := False\<rparr>" and ?c = "g_currentThread s"
  have inv': "kinv ?s" using inv by (simp add: kinv_def sched_ok_def off_queues_def idle_ok_def)
  note K = kinv_current [OF inv']
  have c: "g_currentThread ?s = ?c" by simp
  note mr = Make_Runnable_ok [OF K(1) K(3) K(2)]
  let ?m = "made_runnable ?c ?s"
  have m: "Make_Runnable ?c ?s = Some ?m" "sched_ok ?m" using mr by simp_all
  have "idle_queued ?m" using idle_queued_after_runnable [OF inv'] by simp
  from Schedule_kinv [OF m(2) _ _ this] IF(2) obtain l t s' where s': "Schedule ?m = Some s'" "is_next ?m l t"
    "kinv s'" "g_currentThread s' = t" "thr s' = thr ?m" "\<not> int_flag s'" "\<not> g_preemptionDisabled s'"
    "queues s' = (queues ?m)(RunQ l := remove1 t (queues ?m (RunQ l)))"
    by (auto simp: made_runnable_def Let_def)
  have "queues s' q = queues s q" if "\<forall>i. q \<noteq> RunQ i" for q
    using that s'(8) by (simp add: made_runnable_queues)
  moreover have "currentReadyQueue (thr ?m t) = int l"
    using s'(2) sched_okD(9) [OF m(2)] first_best_mem by (auto simp: is_next_def)
  moreover have "is_next ?m l t = is_next (made_runnable ?c s) l t"
    by (simp add: is_next_def first_best_def made_runnable_def Let_def run_level_def set_queue_def upd_thr_def)
  ultimately show ?thesis
    using s' m(1) IF(1) by (intro exI [of _ s']) (simp add: Yield_def)
qed

lemma Wait_kinv:
  assumes inv: "kinv s" and IF: "\<not> int_flag s" "\<not> g_preemptionDisabled s" and q: "is_wait_queue q"
    and nidle: "priority (thr s (g_currentThread s)) \<noteq> PRIORITY_IDLE"
  shows "\<exists>s'. Wait q s = Some s' \<and> kinv s' \<and> \<not> int_flag s' \<and>
    queues s' q = queues s q @ [g_currentThread s] \<and>
    waitQueue (thr s' (g_currentThread s)) = Some q \<and> blocked (thr s' (g_currentThread s)) \<and>
    g_currentThread s' \<noteq> g_currentThread s \<and> \<not> g_preemptionDisabled s' \<and>
    (\<forall>u. priority (thr s' u) = priority (thr s u)) \<and>
    (\<forall>q'. (\<forall>i. q' \<noteq> RunQ i) \<longrightarrow> q' \<noteq> q \<longrightarrow> queues s' q' = queues s q')"
proof -
  let ?c = "g_currentThread s"
  note K = kinv_current [OF inv]
  note D = sched_okD [OF K(1)]
  let ?m = "upd_thr ?c (\<lambda>k. k\<lparr>waitQueue := Some q\<rparr>)
    (set_queue q (queues s q @ [?c]) (upd_thr ?c (\<lambda>k. k\<lparr>blocked := True\<rparr>) s))"
  have c: "?c \<notin> set (queues s q')" for q' using K(3) by (simp add: off_queues_def)
  have nr: "q \<noteq> RunQ i" for i using q by auto
  have mem: "u \<in> set (queues ?m q') \<longleftrightarrow> u \<in> set (queues s q') \<or> u = ?c \<and> q' = q" for u q' by auto
  have ok: "sched_ok ?m"
  proof (rule sched_ok_intro)
    show "distinct (queues ?m q')" for q' using D(1) c by simp
    show "u \<in> set (allThreads ?m)" if "u \<in> set (queues ?m q')" for u q'
      using that D(2) K(2) unfolding mem by auto
    show "q1 = q2" if "u \<in> set (queues ?m q1)" "u \<in> set (queues ?m q2)" for u q1 q2
      using that D(3) c unfolding mem by blast
    show "distinct (allThreads ?m)" "MAX_QUEUE_LEVEL ?m = 1 \<or> MAX_QUEUE_LEVEL ?m = 4" using D(4,5) by simp_all
    show "0 \<le> currentReadyQueue (thr ?m u)" if "u \<in> set (allThreads ?m)" for u
      using that D(7) [of u] by (cases "u = ?c") simp_all
    show "int i < MAX_QUEUE_LEVEL ?m \<and> currentReadyQueue (thr ?m u) = int i" if "u \<in> set (queues ?m (RunQ i))" for i u
      using that D(8,9) nr [of i] unfolding mem by auto
  qed
  obtain z where z: "priority (thr s z) = 0" "z \<noteq> ?c" "z \<in> set (queues s (RunQ (nat (MAX_QUEUE_LEVEL s - 1))))"
    using K(4) nidle by (auto simp: idle_ok_def)
  have "idle_queued ?m"
    unfolding idle_queued_def using z nr [symmetric] by (intro exI [of _ z]) simp
  from Schedule_kinv [OF ok _ _ this] IF obtain l t s' where s': "Schedule ?m = Some s'" "is_next ?m l t"
    "kinv s'" "g_currentThread s' = t" "thr s' = thr ?m" "\<not> int_flag s'" "\<not> g_preemptionDisabled s'"
    "queues s' = (queues ?m)(RunQ l := remove1 t (queues ?m (RunQ l)))" by auto
  have "t \<in> set (queues s (RunQ l))"
    using s'(2) first_best_mem nr [of l] by (auto simp: is_next_def)
  then have "t \<noteq> ?c" using c by auto
  moreover have "Wait q s = Some s'" using s'(1) IF c by (simp add: Wait_def Let_def)
  ultimately show ?thesis using s' nr [of l] by (intro exI [of _ s']) auto
qed

section \<open>Exit\<close>

text \<open>What the kernel relies on of a thread-local destructor: it returns with interrupts
  enabled in the thread that called it, keeps the scheduler's invariant, and does not end
  or detach that thread.\<close>

definition tame :: "(nat \<Rightarrow> nat \<Rightarrow> kstate \<Rightarrow> kstate) \<Rightarrow> bool" where
  "tame dtor \<longleftrightarrow> (\<forall>f x s. kinv s \<longrightarrow> int_flag s \<longrightarrow>
     kinv (dtor f x s) \<and> int_flag (dtor f x s) \<and> g_currentThread (dtor f x s) = g_currentThread s \<and>
     g_preemptionDisabled (dtor f x s) = g_preemptionDisabled s \<and>
     tlocalDestructors (dtor f x s) = tlocalDestructors s \<and>
     length (tlocalData (thr (dtor f x s) (g_currentThread s))) = length (tlocalData (thr s (g_currentThread s))) \<and>
     (let k = thr s (g_currentThread s); k' = thr (dtor f x s) (g_currentThread s) in
       priority k' = priority k \<and> alive k' = alive k \<and> exitCode k' = exitCode k \<and> refCount k' = refCount k))"

definition exit_frame :: "kstate \<Rightarrow> kstate \<Rightarrow> bool" where
  "exit_frame s s' \<longleftrightarrow> kinv s' \<and> \<not> int_flag s' \<and> g_currentThread s' = g_currentThread s \<and>
     g_preemptionDisabled s' = g_preemptionDisabled s \<and> tlocalDestructors s' = tlocalDestructors s \<and>
     length (tlocalData (thr s' (g_currentThread s))) = length (tlocalData (thr s (g_currentThread s))) \<and>
     (let k = thr s (g_currentThread s); k' = thr s' (g_currentThread s) in
       priority k' = priority k \<and> alive k' = alive k \<and> exitCode k' = exitCode k \<and> refCount k' = refCount k)"

lemma exit_frame_trans: "exit_frame s s1 \<Longrightarrow> exit_frame s1 s2 \<Longrightarrow> exit_frame s s2"
  by (simp add: exit_frame_def Let_def)

lemma kinv_upd_local:
  assumes "kinv s" "\<And>k. currentReadyQueue (f k) = currentReadyQueue k" "\<And>k. priority (f k) = priority k"
  shows "kinv (upd_thr t f s)"
proof -
  have c: "currentReadyQueue (thr (upd_thr t f s) u) = currentReadyQueue (thr s u)"
    "priority (thr (upd_thr t f s) u) = priority (thr s u)" for u
    using assms(2,3) by (cases "u = t"; simp)+
  show ?thesis
    using assms(1) unfolding kinv_def sched_ok_def idle_ok_def off_queues_def c by simp
qed

lemma kinv_int [simp]: "kinv (s\<lparr>int_flag := b\<rparr>) = kinv s"
  by (simp add: kinv_def sched_ok_def off_queues_def idle_ok_def)

lemma tlocal_keys_ok:
  assumes "tame dtor" "kinv s" "\<not> int_flag s" "i + n \<le> length (tlocalData (thr s (g_currentThread s)))"
    "i + n \<le> length (tlocalDestructors s)"
  shows "\<exists>c s'. tlocal_keys dtor (g_currentThread s) i n called s = Some (c, s') \<and> exit_frame s s'"
  using assms
proof (induction n arbitrary: i called s)
  case 0
  then show ?case by (simp add: exit_frame_def)
next
  case (Suc n)
  let ?t = "g_currentThread s"
  let ?x = "tlocalData (thr s ?t) ! i" and ?d = "tlocalDestructors s ! i"
  define s1 where "s1 = (if ?x \<noteq> 0 \<and> ?d \<noteq> 0 then
      (dtor ?d ?x ((upd_thr ?t (\<lambda>k. k\<lparr>tlocalData := (tlocalData k)[i := 0]\<rparr>) s)\<lparr>int_flag := True\<rparr>))\<lparr>int_flag := False\<rparr>
      else s)"
  let ?u = "(upd_thr ?t (\<lambda>k. k\<lparr>tlocalData := (tlocalData k)[i := 0]\<rparr>) s)\<lparr>int_flag := True\<rparr>"
  have u: "kinv ?u" "int_flag ?u" using Suc.prems(2) kinv_upd_local by simp_all
  note T = Suc.prems(1) [unfolded tame_def Let_def, rule_format, OF u, of ?d ?x]
  from T have du: "kinv (dtor ?d ?x ?u)" "int_flag (dtor ?d ?x ?u)"
    "g_currentThread (dtor ?d ?x ?u) = ?t" "g_preemptionDisabled (dtor ?d ?x ?u) = g_preemptionDisabled s"
    "tlocalDestructors (dtor ?d ?x ?u) = tlocalDestructors s"
    "length (tlocalData (thr (dtor ?d ?x ?u) ?t)) = length (tlocalData (thr s ?t))"
    "priority (thr (dtor ?d ?x ?u) ?t) = priority (thr s ?t)" "alive (thr (dtor ?d ?x ?u) ?t) = alive (thr s ?t)"
    "exitCode (thr (dtor ?d ?x ?u) ?t) = exitCode (thr s ?t)" "refCount (thr (dtor ?d ?x ?u) ?t) = refCount (thr s ?t)"
    by simp_all
  have f1: "exit_frame s s1"
    using du Suc.prems(2,3) by (auto simp: exit_frame_def s1_def Let_def)
  have step: "tlocal_keys dtor ?t i (Suc n) called s =
      tlocal_keys dtor ?t (Suc i) n (called \<or> ?x \<noteq> 0 \<and> ?d \<noteq> 0) s1"
    using Suc.prems(3-5) du(2) by (simp add: s1_def)
  have F: "kinv s1" "\<not> int_flag s1" "g_currentThread s1 = ?t"
    "length (tlocalData (thr s1 ?t)) = length (tlocalData (thr s ?t))" "tlocalDestructors s1 = tlocalDestructors s"
    using f1 by (auto simp: exit_frame_def)
  have "\<exists>c s'. tlocal_keys dtor (g_currentThread s1) (Suc i) n (called \<or> ?x \<noteq> 0 \<and> ?d \<noteq> 0) s1 = Some (c, s') \<and> exit_frame s1 s'"
    using Suc.prems(4,5) F by (intro Suc.IH [OF Suc.prems(1)]) simp_all
  then show ?case unfolding step using F(3) exit_frame_trans [OF f1] by auto
qed

lemma tlocal_iterations_ok:
  assumes "tame dtor" "kinv s" "\<not> int_flag s" "length (tlocalData (thr s (g_currentThread s))) = 128"
    "length (tlocalDestructors s) = 128"
  shows "\<exists>s'. tlocal_iterations dtor (g_currentThread s) n called s = Some s' \<and> exit_frame s s'"
  using assms
proof (induction n arbitrary: called s)
  case 0
  then show ?case by (simp add: exit_frame_def)
next
  case (Suc n)
  obtain c s1 where s1: "tlocal_keys dtor (g_currentThread s) 0 128 called s = Some (c, s1)" "exit_frame s s1"
    using tlocal_keys_ok [OF Suc.prems(1-3), of 0 128 called] Suc.prems(4,5) by auto
  show ?case
  proof (cases c)
    case True
    have F: "kinv s1" "\<not> int_flag s1" "g_currentThread s1 = g_currentThread s"
      "length (tlocalData (thr s1 (g_currentThread s1))) = 128" "length (tlocalDestructors s1) = 128"
      using s1(2) Suc.prems(4,5) by (auto simp: exit_frame_def)
    with Suc.IH [OF Suc.prems(1) F(1,2,4,5), of c] s1 True exit_frame_trans [OF s1(2)] show ?thesis
      by (auto simp del: tlocal_keys.simps)
  next
    case False
    with s1 show ?thesis by (simp del: tlocal_keys.simps)
  qed
qed

lemma sched_ok_enqueue:
  assumes ok: "sched_ok s" and off: "off_queues s t" and t: "t \<in> set (allThreads s)" and nr: "\<And>i. q \<noteq> RunQ i"
  shows "sched_ok (set_queue q (queues s q @ [t]) s)"
proof (rule sched_ok_intro)
  let ?m = "set_queue q (queues s q @ [t]) s"
  note D = sched_okD [OF ok]
  have c: "t \<notin> set (queues s q')" for q' using off by (simp add: off_queues_def)
  have mem: "u \<in> set (queues ?m q') \<longleftrightarrow> u \<in> set (queues s q') \<or> u = t \<and> q' = q" for u q' by auto
  show "distinct (queues ?m q')" for q' using D(1) c by simp
  show "u \<in> set (allThreads ?m)" if "u \<in> set (queues ?m q')" for u q'
    using that D(2) t unfolding mem by auto
  show "q1 = q2" if "u \<in> set (queues ?m q1)" "u \<in> set (queues ?m q2)" for u q1 q2
    using that D(3) c unfolding mem by blast
  show "distinct (allThreads ?m)" "MAX_QUEUE_LEVEL ?m = 1 \<or> MAX_QUEUE_LEVEL ?m = 4" using D(4,5) by simp_all
  show "0 \<le> currentReadyQueue (thr ?m u)" if "u \<in> set (allThreads ?m)" for u
    using that D(7) by simp
  show "int i < MAX_QUEUE_LEVEL ?m \<and> currentReadyQueue (thr ?m u) = int i" if "u \<in> set (queues ?m (RunQ i))" for i u
    using that D(8,9) nr [of i] unfolding mem by auto
qed

lemma sched_ok_upd_local:
  assumes "sched_ok s" "\<And>k. currentReadyQueue (f k) = currentReadyQueue k"
  shows "sched_ok (upd_thr t f s)"
proof -
  have c: "currentReadyQueue (thr (upd_thr t f s) u) = currentReadyQueue (thr s u)" for u
    using assms(2) by (cases "u = t") simp_all
  show ?thesis using assms(1) unfolding sched_ok_def c by simp
qed

text \<open>Dropping a reference: the thread goes to the graveyard with the last one, and the reaper
  is woken up.\<close>

lemma Detach_Thread_ok:
  assumes ok: "sched_ok s" and off: "off_queues s t" and t: "t \<in> set (allThreads s)"
    and IF: "\<not> int_flag s" and rc: "0 < refCount (thr s t)"
  shows "\<exists>s'. Detach_Thread t s = Some s' \<and> sched_ok s' \<and> \<not> int_flag s' \<and>
    g_currentThread s' = g_currentThread s \<and> g_preemptionDisabled s' = g_preemptionDisabled s \<and>
    MAX_QUEUE_LEVEL s' = MAX_QUEUE_LEVEL s \<and> (\<forall>i u. u \<in> set (queues s (RunQ i)) \<longrightarrow> u \<in> set (queues s' (RunQ i))) \<and>
    (\<forall>u. priority (thr s' u) = priority (thr s u)) \<and>
    alive (thr s' t) = alive (thr s t) \<and> exitCode (thr s' t) = exitCode (thr s t) \<and>
    refCount (thr s' t) = refCount (thr s t) - 1 \<and> (\<forall>u. queues s' (JoinQ u) = queues s (JoinQ u)) \<and>
    (\<forall>q. t \<in> set (queues s' q) \<longleftrightarrow> q = Graveyard \<and> refCount (thr s t) = 1) \<and>
    (refCount (thr s t) = 1 \<longrightarrow> queues s' ReaperWait = [])"
proof -
  let ?d = "upd_thr t (\<lambda>k. k\<lparr>refCount := refCount k - 1\<rparr>) s"
  have okd: "sched_ok ?d" by (rule sched_ok_upd_local [OF ok]) simp
  have offd: "off_queues ?d t" using off by (simp add: off_queues_def)
  show ?thesis
  proof (cases "refCount (thr s t) = 1")
    case False
    then show ?thesis using okd offd IF rc
      by (intro exI [of _ ?d]) (auto simp: Detach_Thread_def Let_def off_queues_def)
  next
    case True
    let ?g = "set_queue Graveyard (queues s Graveyard @ [t]) ?d"
    have okg: "sched_ok ?g" using sched_ok_enqueue [OF okd offd, of Graveyard] t by simp
    obtain s' where s': "Wake_Up ReaperWait ?g = Some s'" "wake_frame (set (queues ?g ReaperWait)) ?g s'"
      "queues s' ReaperWait = []"
      "\<And>q. (\<forall>i. q \<noteq> RunQ i) \<Longrightarrow> q \<noteq> ReaperWait \<Longrightarrow> queues s' q = queues ?g q"
      using Wake_Up_ok [OF okg, of ReaperWait] IF by auto
    note F = wake_frameD [OF s'(2)]
    have w: "t \<notin> set (queues ?g ReaperWait)" using off by (simp add: off_queues_def)
    have g: "t \<in> set (queues s' Graveyard)" using s'(4) [of Graveyard] by simp
    then have only: "t \<in> set (queues s' q) \<longleftrightarrow> q = Graveyard" for q
      using sched_okD(3) [OF F(1) g, of q] by auto
    have "Detach_Thread t s = Some s'"
      using True IF s'(1) offd by (simp add: Detach_Thread_def Reap_Thread_def Let_def off_queues_def)
    moreover have "\<forall>u. queues s' (JoinQ u) = queues s (JoinQ u)" using s'(4) by simp
    moreover have "u \<in> set (queues s (RunQ i)) \<longrightarrow> u \<in> set (queues s' (RunQ i))" for i u
      using F(7) [of u i] by simp
    moreover have "priority (thr s' u) = priority (thr s u)" for u using F(10) [of u] by simp
    ultimately show ?thesis
      using F(1-6) F(9) [OF w] s'(3) True only IF by (intro exI [of _ s']) simp
  qed
qed

lemma Exit_ok:
  assumes dtor: "tame dtor" and inv: "kinv s" and pre: "\<not> g_preemptionDisabled s"
    and nidle: "priority (thr s (g_currentThread s)) \<noteq> PRIORITY_IDLE"
    and rc: "0 < refCount (thr s (g_currentThread s))"
    and len: "length (tlocalData (thr s (g_currentThread s))) = 128" "length (tlocalDestructors s) = 128"
  shows "\<exists>s'. Exit dtor code s = Some s' \<and> kinv s' \<and> \<not> int_flag s' \<and>
    \<not> alive (thr s' (g_currentThread s)) \<and> exitCode (thr s' (g_currentThread s)) = code \<and>
    queues s' (JoinQ (g_currentThread s)) = [] \<and>
    (\<forall>q. g_currentThread s \<in> set (queues s' q) \<longleftrightarrow> q = Graveyard \<and> refCount (thr s (g_currentThread s)) = 1) \<and>
    g_currentThread s' \<noteq> g_currentThread s"
proof -
  let ?c = "g_currentThread s"
  let ?a = "upd_thr ?c (\<lambda>k. k\<lparr>exitCode := code, alive := False\<rparr>) (s\<lparr>int_flag := False\<rparr>)"
  have a: "kinv ?a" using inv by (intro kinv_upd_local) simp_all
  obtain b where b: "tlocal_iterations dtor ?c MIN_DESTRUCTOR_ITERATIONS False ?a = Some b" "exit_frame ?a b"
    using tlocal_iterations_ok [OF dtor a, of MIN_DESTRUCTOR_ITERATIONS False] len by auto
  have B: "kinv b" "\<not> int_flag b" "g_currentThread b = ?c" "\<not> g_preemptionDisabled b"
    "priority (thr b ?c) = priority (thr s ?c)" "\<not> alive (thr b ?c)" "exitCode (thr b ?c) = code"
    "refCount (thr b ?c) = refCount (thr s ?c)"
    using b(2) pre by (auto simp: exit_frame_def Let_def)
  note K = kinv_current [OF B(1), unfolded B(3)]
  obtain w where w: "Wake_Up (JoinQ ?c) b = Some w" "wake_frame (set (queues b (JoinQ ?c))) b w" "queues w (JoinQ ?c) = []"
    using Wake_Up_ok [OF K(1), of "JoinQ ?c"] B(2) by auto
  note F = wake_frameD [OF w(2)]
  have cw: "?c \<notin> set (queues b (JoinQ ?c))" using K(3) by (simp add: off_queues_def)
  obtain d where d: "Detach_Thread ?c w = Some d" "sched_ok d" "\<not> int_flag d"
    "g_preemptionDisabled d = g_preemptionDisabled w" "MAX_QUEUE_LEVEL d = MAX_QUEUE_LEVEL w"
    "\<And>i u. u \<in> set (queues w (RunQ i)) \<Longrightarrow> u \<in> set (queues d (RunQ i))"
    "\<And>u. priority (thr d u) = priority (thr w u)" "alive (thr d ?c) = alive (thr w ?c)"
    "exitCode (thr d ?c) = exitCode (thr w ?c)" "\<And>u. queues d (JoinQ u) = queues w (JoinQ u)"
    "\<And>q. ?c \<in> set (queues d q) \<longleftrightarrow> q = Graveyard \<and> refCount (thr w ?c) = 1"
    using Detach_Thread_ok [OF F(1) F(8) [OF cw K(3)]] K(2) F(2,3,12) B(2,8) rc by auto
  obtain z where z: "priority (thr b z) = 0" "z = ?c \<or> z \<in> set (queues b (RunQ (nat (MAX_QUEUE_LEVEL b - 1))))"
    using K(4) unfolding idle_ok_def B(3) by blast
  then have "z \<noteq> ?c" using nidle B(5) by auto
  then have "idle_queued d"
    unfolding idle_queued_def using z F(5,7,10) d(5-7) by (intro exI [of _ z]) auto
  from Schedule_kinv [OF d(2,3) _ this] d(4) F(6) B(4) obtain l t s' where s': "Schedule d = Some s'"
    "is_next d l t" "kinv s'" "g_currentThread s' = t" "thr s' = thr d" "\<not> int_flag s'"
    "queues s' = (queues d)(RunQ l := remove1 t (queues d (RunQ l)))" by auto
  have "t \<in> set (queues d (RunQ l))" using s'(2) first_best_mem by (auto simp: is_next_def)
  then have ne: "t \<noteq> ?c" using d(11) [of "RunQ l"] by auto
  have mem: "?c \<in> set (queues s' q) \<longleftrightarrow> ?c \<in> set (queues d q)" for q using ne s'(7) by (simp add: in_set_remove1)
  have cur: "g_currentThread w = ?c" using F(4) B(3) by simp
  have "s\<lparr>int_flag := False\<rparr> = s" if "\<not> int_flag s" using that by (cases s) simp
  then have "Exit dtor code s = Some s'"
    using b(1) B w(1) d(1) s'(1) cur by (cases "int_flag s") (simp_all add: Exit_def Tlocal_Exit_def Let_def)
  moreover have "thr w ?c = thr b ?c" using F(9) [OF cw] .
  ultimately show ?thesis
    using s' d B w(3) ne mem by (intro exI [of _ s']) simp
qed

end
