(* ===== verification/Sched.thy ===== *)
theory Sched
  imports KThread
begin

text \<open>
  The scheduler as it runs: the states that the boot sequence and the operations of
  \<open>geekos/kthread.c\<close> lead to, the invariant that holds in all of them, and what the
  operations guarantee there.
\<close>

section \<open>New threads\<close>


lemma vm_int_flag [simp]: "vm ((s :: kstate)\<lparr>int_flag := b\<rparr>) = vm s"
  by (cases s) simp

lemma kinv_vm [simp]: "kinv (s\<lparr>vm := v\<rparr>) = kinv s"
  by (simp add: kinv_def sched_ok_def off_queues_def idle_ok_def)

text \<open>What is left alone when a thread object is filled in.\<close>

definition same_but :: "u32 \<Rightarrow> kstate \<Rightarrow> kstate \<Rightarrow> bool" where
  "same_but t s s' \<longleftrightarrow> (\<forall>u. u \<noteq> t \<longrightarrow> thr s' u = thr s u) \<and>
     priority (thr s' t) = priority (thr s t) \<and> currentReadyQueue (thr s' t) = currentReadyQueue (thr s t) \<and>
     allThreads s' = allThreads s \<and> queues s' = queues s \<and> g_currentThread s' = g_currentThread s \<and>
     MAX_QUEUE_LEVEL s' = MAX_QUEUE_LEVEL s \<and> int_flag s' = int_flag s \<and>
     g_preemptionDisabled s' = g_preemptionDisabled s \<and> tlocalDestructors s' = tlocalDestructors s \<and>
     freeList (vm s') = freeList (vm s) \<and> pageList (vm s') = pageList (vm s) \<and>
     g_freePageCount (vm s') = g_freePageCount (vm s)"

lemma same_but_refl [simp]: "same_but t s s"
  by (simp add: same_but_def)

lemma same_but_trans: "same_but t s s1 \<Longrightarrow> same_but t s1 s2 \<Longrightarrow> same_but t s s2"
  by (simp add: same_but_def)

lemma same_but_Push: "same_but t s s1 \<Longrightarrow> same_but t s (Push t v s1)"
  by (simp add: same_but_def Push_def Let_def wr32_def)

lemma same_but_Setup: "same_but t s (Setup_Kernel_Thread shutdown launch t f arg s)"
  unfolding Setup_Kernel_Thread_def Push_General_Registers_def Let_def
  by (simp add: same_but_Push)

text \<open>A new thread: at the end of the list of all threads, on no queue.\<close>

definition spawned :: "int \<Rightarrow> u32 \<Rightarrow> kstate \<Rightarrow> kstate \<Rightarrow> bool" where
  "spawned prio t s s' \<longleftrightarrow> t \<notin> set (allThreads s) \<and> allThreads s' = allThreads s @ [t] \<and>
     queues s' = (queues s)(JoinQ t := []) \<and> (\<forall>u. u \<noteq> t \<longrightarrow> thr s' u = thr s u) \<and>
     priority (thr s' t) = prio \<and> currentReadyQueue (thr s' t) = 0 \<and>
     g_currentThread s' = g_currentThread s \<and> MAX_QUEUE_LEVEL s' = MAX_QUEUE_LEVEL s \<and>
     g_preemptionDisabled s' = g_preemptionDisabled s \<and> tlocalDestructors s' = tlocalDestructors s"

lemma call_vm_frame:
  assumes "call_vm f s = Some (r, s')"
  shows "thr s' = thr s" "allThreads s' = allThreads s" "queues s' = queues s"
    "g_currentThread s' = g_currentThread s" "MAX_QUEUE_LEVEL s' = MAX_QUEUE_LEVEL s"
    "g_preemptionDisabled s' = g_preemptionDisabled s" "tlocalDestructors s' = tlocalDestructors s"
    "nextFreePid s' = nextFreePid s"
  using assms by (auto simp: call_vm_def bind_Some_iff)

lemma Init_Thread_simps [simp]:
  "allThreads (Init_Thread t sp prio det s) = allThreads s"
  "queues (Init_Thread t sp prio det s) = (queues s)(JoinQ t := [])"
  "u \<noteq> t \<Longrightarrow> thr (Init_Thread t sp prio det s) u = thr s u"
  "priority (thr (Init_Thread t sp prio det s) t) = prio"
  "currentReadyQueue (thr (Init_Thread t sp prio det s) t) = 0"
  "g_currentThread (Init_Thread t sp prio det s) = g_currentThread s"
  "MAX_QUEUE_LEVEL (Init_Thread t sp prio det s) = MAX_QUEUE_LEVEL s"
  "g_preemptionDisabled (Init_Thread t sp prio det s) = g_preemptionDisabled s"
  "tlocalDestructors (Init_Thread t sp prio det s) = tlocalDestructors s"
  "int_flag (Init_Thread t sp prio det s) = int_flag s" "vm (Init_Thread t sp prio det s) = vm s"
  by (simp_all add: Init_Thread_def Let_def)

lemma Create_Thread_spawned:
  assumes "Create_Thread prio det s = Some (t, s')" "t \<noteq> 0"
  shows "spawned prio t s s'"
proof -
  obtain s1 where s1: "k_Alloc_Page s = Some (t, s1)"
    using assms by (auto simp: Create_Thread_def bind_Some_iff split: if_splits)
  obtain sp s2 where s2: "k_Alloc_Page s1 = Some (sp, s2)" "t \<notin> set (allThreads s2)"
    "s' = (Init_Thread t sp prio det s2)\<lparr>allThreads := allThreads s2 @ [t]\<rparr>"
    using assms s1 by (auto simp: Create_Thread_def bind_Some_iff Push_Back_eq split: if_splits)
  note f1 = call_vm_frame [OF s1 [unfolded k_Alloc_Page_def]]
  note f2 = call_vm_frame [OF s2(1) [unfolded k_Alloc_Page_def]]
  show ?thesis using s2(2,3) f1 f2 by (simp add: spawned_def)
qed

text \<open>The invariant without its clause on the idle thread, which boot has to establish.\<close>

definition kbase :: "kstate \<Rightarrow> bool" where
  "kbase s \<longleftrightarrow> sched_ok s \<and> g_currentThread s \<in> set (allThreads s) \<and> off_queues s (g_currentThread s)"

lemma kinv_kbase: "kinv s \<longleftrightarrow> kbase s \<and> idle_ok s"
  by (auto simp: kinv_def kbase_def)

lemma spawned_kbase:
  assumes base: "kbase s" and sp: "spawned prio t s s'"
  shows "kbase s'" "off_queues s' t" "t \<in> set (allThreads s')" "idle_ok s \<Longrightarrow> idle_ok s'"
proof -
  from base have ok: "sched_ok s" and cur: "g_currentThread s \<in> set (allThreads s)" "off_queues s (g_currentThread s)"
    by (auto simp: kbase_def)
  note D = sched_okD [OF ok]
  note S = sp [unfolded spawned_def]
  have mem: "u \<in> set (queues s q)" if "u \<in> set (queues s' q)" for u q
    using that S by (auto split: if_splits)
  have off: "t \<notin> set (queues s q)" for q using D(2) S by blast
  have run: "queues s' (RunQ i) = queues s (RunQ i)" for i using S by simp
  show off': "off_queues s' t" using off mem by (auto simp: off_queues_def)
  show "t \<in> set (allThreads s')" using S by simp
  have "sched_ok s'"
  proof (rule sched_ok_intro)
    show "distinct (queues s' q)" for q using D(1) S by simp
    show "u \<in> set (allThreads s')" if "u \<in> set (queues s' q)" for q u using D(2) [OF mem [OF that]] S by simp
    show "q = q'" if "u \<in> set (queues s' q)" "u \<in> set (queues s' q')" for q q' u
      using D(3) [OF mem [OF that(1)] mem [OF that(2)]] .
    show "distinct (allThreads s')" "MAX_QUEUE_LEVEL s' = 1 \<or> MAX_QUEUE_LEVEL s' = 4" using D(4,5) S by simp_all
    show "0 \<le> currentReadyQueue (thr s' u)" if "u \<in> set (allThreads s')" for u
      using that D(7) S by (cases "u = t") auto
    show "int i < MAX_QUEUE_LEVEL s' \<and> currentReadyQueue (thr s' u) = int i" if "u \<in> set (queues s' (RunQ i))" for i u
      using mem [OF that] D(8,9) off S by (cases "u = t") auto
  qed
  moreover have "off_queues s' (g_currentThread s)" using cur(2) mem by (auto simp: off_queues_def)
  ultimately show "kbase s'" using cur(1) S by (auto simp: kbase_def)
  show "idle_ok s'" if "idle_ok s"
  proof -
    from that obtain z where z: "z \<in> set (allThreads s)" "priority (thr s z) = 0"
      "z = g_currentThread s \<or> z \<in> set (queues s (RunQ (nat (MAX_QUEUE_LEVEL s - 1))))" by (auto simp: idle_ok_def)
    then have "z \<noteq> t" using S by auto
    with z S run show ?thesis unfolding idle_ok_def by (intro bexI [of _ z]) auto
  qed
qed

lemma same_but_kbase:
  assumes "same_but t s s'"
  shows "kbase s' = kbase s" "off_queues s' u = off_queues s u" "idle_ok s' = idle_ok s"
proof -
  have c: "currentReadyQueue (thr s' u) = currentReadyQueue (thr s u)" "priority (thr s' u) = priority (thr s u)" for u
    using assms by (cases "u = t"; simp add: same_but_def)+
  show "kbase s' = kbase s" "off_queues s' u = off_queues s u" "idle_ok s' = idle_ok s"
    using assms unfolding kbase_def sched_ok_def off_queues_def idle_ok_def c by (simp_all add: same_but_def)
qed

lemma made_runnable_kbase:
  assumes base: "kbase s" and off: "off_queues s t" and t: "t \<in> set (allThreads s)" "t \<noteq> g_currentThread s"
  shows "kbase (made_runnable t s)" "idle_ok s \<Longrightarrow> idle_ok (made_runnable t s)"
    "priority (thr s t) = PRIORITY_IDLE \<Longrightarrow> idle_ok (made_runnable t s)"
proof -
  have ok: "sched_ok s" using base by (simp add: kbase_def)
  show "kbase (made_runnable t s)"
    using base made_runnable_sched_ok [OF ok off t(1)] t(2) by (auto simp: kbase_def off_queues_def made_runnable_mem)
  show "idle_ok (made_runnable t s)" if "idle_ok s" using that unfolding idle_ok_def by (auto simp: made_runnable_mem)
  show "idle_ok (made_runnable t s)" if "priority (thr s t) = 0"
    using that t(1) unfolding idle_ok_def
    by (intro bexI [of _ t]) (auto simp: made_runnable_mem run_level_def Let_def)
qed

lemma kbase_int [simp]: "kbase (s\<lparr>int_flag := b\<rparr>) = kbase s" "idle_ok (s\<lparr>int_flag := b\<rparr>) = idle_ok s"
    "off_queues (s\<lparr>int_flag := b\<rparr>) u = off_queues s u" "sched_ok (s\<lparr>int_flag := b\<rparr>) = sched_ok s"
  by (simp_all add: kbase_def sched_ok_def off_queues_def idle_ok_def)

lemma Make_Runnable_Atomic_ok:
  assumes base: "kbase s" and off: "off_queues s t" and t: "t \<in> set (allThreads s)" and IF: "int_flag s"
  shows "Make_Runnable_Atomic t s = Some ((made_runnable t (s\<lparr>int_flag := False\<rparr>))\<lparr>int_flag := True\<rparr>)"
proof -
  have "sched_ok (s\<lparr>int_flag := False\<rparr>)" "off_queues (s\<lparr>int_flag := False\<rparr>) t" using base off by (simp_all add: kbase_def)
  from Make_Runnable_ok [OF this] t IF show ?thesis by (simp add: Make_Runnable_Atomic_def)
qed

lemma Start_Kernel_Thread_ok:
  assumes base: "kbase s" and run: "Start_Kernel_Thread shutdown launch f arg prio det s = Some (t, s')" and t: "t \<noteq> 0"
  shows "kbase s'" "idle_ok s \<Longrightarrow> idle_ok s'" "prio = PRIORITY_IDLE \<Longrightarrow> idle_ok s'"
    "t \<notin> set (allThreads s)" "allThreads s' = allThreads s @ [t]" "t \<in> set (queues s' (RunQ (nat (run_level s' t))))"
proof -
  obtain s1 where s1: "Create_Thread prio det s = Some (t, s1)"
    "Make_Runnable_Atomic t (Setup_Kernel_Thread shutdown launch t f arg s1) = Some s'"
    using run t by (auto simp: Start_Kernel_Thread_def bind_Some_iff split: if_splits)
  note sp = Create_Thread_spawned [OF s1(1) t]
  note S = spawned_kbase [OF base sp]
  let ?u = "Setup_Kernel_Thread shutdown launch t f arg s1"
  note sb = same_but_Setup [of t s1 shutdown launch f arg]
  have u: "kbase ?u" "off_queues ?u t" "t \<in> set (allThreads ?u)" "priority (thr ?u t) = prio"
    "allThreads ?u = allThreads s @ [t]" "idle_ok s \<Longrightarrow> idle_ok ?u"
    using same_but_kbase [OF sb] S sp sb by (simp_all add: same_but_def spawned_def)
  have IF: "int_flag ?u" using s1(2) by (auto simp: Make_Runnable_Atomic_def bind_Some_iff split: if_splits)
  have "t \<noteq> g_currentThread ?u"
    using base sp sb by (auto simp: kbase_def spawned_def same_but_def)
  let ?v = "?u\<lparr>int_flag := False\<rparr>"
  have v: "kbase ?v" "off_queues ?v t" "t \<in> set (allThreads ?v)" "t \<noteq> g_currentThread ?v" "priority (thr ?v t) = prio"
    "idle_ok s \<Longrightarrow> idle_ok ?v"
    using u \<open>t \<noteq> g_currentThread ?u\<close> by simp_all
  have s': "s' = (made_runnable t ?v)\<lparr>int_flag := True\<rparr>"
    using Make_Runnable_Atomic_ok [OF u(1-3) IF] s1(2) by simp
  note M = made_runnable_kbase [OF v(1-4)]
  show "kbase s'" "idle_ok s \<Longrightarrow> idle_ok s'" "prio = 0 \<Longrightarrow> idle_ok s'"
    using M v by (simp_all add: s')
  show "t \<notin> set (allThreads s)" "allThreads s' = allThreads s @ [t]" using sp u(5) by (simp_all add: spawned_def s')
  have "run_level s' t = run_level ?v t"
    by (auto simp: s' run_level_def made_runnable_def Let_def min_def)
  then show "t \<in> set (queues s' (RunQ (nat (run_level s' t))))" by (simp add: s' made_runnable_mem)
qed

section \<open>Boot\<close>

lemma made_runnable_tl [simp]: "tlocalDestructors (made_runnable t s) = tlocalDestructors s"
  by (simp add: made_runnable_def Let_def)

lemma mem_ok_int [simp]: "mem_ok (v\<lparr>int_flag := b\<rparr>) = mem_ok v"
  by (simp add: mem_ok_def)

lemma k_Alloc_Page_ok:
  assumes "mem_ok (vm s)" "freeList (vm s) = i # q"
  shows "\<exists>s'. k_Alloc_Page s = Some (Get_Page_Address i, s') \<and> mem_ok (vm s') \<and> freeList (vm s') = q \<and>
    int_flag s' = int_flag s \<and> Get_Page_Address i \<noteq> 0 \<and> i < 2 ^ 20"
proof -
  let ?v = "(vm s)\<lparr>int_flag := int_flag s\<rparr>"
  have v: "mem_ok ?v" "freeList ?v = i # q" using assms by simp_all
  have i: "0 < i" "i < 2 ^ 20" using mem_okD [OF v(1), of i] v(2) by auto
  obtain w where w: "Alloc_Page ?v = Some (Get_Page_Address i, w)" "freeList w = q" "int_flag w = int_flag s"
    using Alloc_Page_Cons [OF v] by simp
  define s' where "s' = s\<lparr>vm := w, int_flag := int_flag w\<rparr>"
  have "k_Alloc_Page s = Some (Get_Page_Address i, s')" "vm s' = w" "int_flag s' = int_flag w"
    using w(1) by (simp_all add: k_Alloc_Page_def call_vm_def s'_def)
  with w Alloc_Page_ok [OF v w(1)] i show ?thesis
    by (intro exI [of _ s']) (simp add: Get_Page_Address_eq_0)
qed

lemma Create_Thread_succeeds:
  assumes m: "mem_ok (vm s)" "freeList (vm s) = i # j # q" and new: "Get_Page_Address i \<notin> set (allThreads s)"
  shows "\<exists>s'. Create_Thread prio det s = Some (Get_Page_Address i, s') \<and> Get_Page_Address i \<noteq> 0 \<and>
    mem_ok (vm s') \<and> freeList (vm s') = q \<and> int_flag s' = int_flag s"
proof -
  obtain s1 where s1: "k_Alloc_Page s = Some (Get_Page_Address i, s1)" "mem_ok (vm s1)"
    "freeList (vm s1) = j # q" "int_flag s1 = int_flag s" "Get_Page_Address i \<noteq> 0"
    using k_Alloc_Page_ok [OF m] by blast
  obtain s2 where s2: "k_Alloc_Page s1 = Some (Get_Page_Address j, s2)" "mem_ok (vm s2)"
    "freeList (vm s2) = q" "int_flag s2 = int_flag s1" "Get_Page_Address j \<noteq> 0"
    using k_Alloc_Page_ok [OF s1(2,3)] by blast
  note f1 = call_vm_frame [OF s1(1) [unfolded k_Alloc_Page_def]]
  note f2 = call_vm_frame [OF s2(1) [unfolded k_Alloc_Page_def]]
  show ?thesis using s1 s2 f1 f2 new by (simp add: Create_Thread_def)
qed

lemma Start_Kernel_Thread_succeeds:
  assumes base: "kbase s" and m: "mem_ok (vm s)" "freeList (vm s) = i # j # q"
    and new: "Get_Page_Address i \<notin> set (allThreads s)" and IF: "int_flag s"
  shows "\<exists>s'. Start_Kernel_Thread shutdown launch f arg prio det s = Some (Get_Page_Address i, s') \<and>
    Get_Page_Address i \<noteq> 0 \<and> mem_ok (vm s') \<and> freeList (vm s') = q \<and> int_flag s' \<and>
    MAX_QUEUE_LEVEL s' = MAX_QUEUE_LEVEL s \<and> g_currentThread s' = g_currentThread s \<and>
    g_preemptionDisabled s' = g_preemptionDisabled s \<and> tlocalDestructors s' = tlocalDestructors s \<and>
    priority (thr s' (Get_Page_Address i)) = prio \<and>
    (\<forall>u. u \<noteq> Get_Page_Address i \<longrightarrow> thr s' u = thr s u) \<and>
    currentReadyQueue (thr s' (Get_Page_Address i)) =
      (if prio = PRIORITY_IDLE then MAX_QUEUE_LEVEL s - 1 else 0) \<and>
    (\<forall>k. queues s' (RunQ k) = queues s (RunQ k) @
      (if int k = currentReadyQueue (thr s' (Get_Page_Address i)) then [Get_Page_Address i] else []))"
proof -
  let ?t = "Get_Page_Address i"
  obtain s1 where s1: "Create_Thread prio det s = Some (?t, s1)" "?t \<noteq> 0" "mem_ok (vm s1)"
    "freeList (vm s1) = q" "int_flag s1 = int_flag s"
    using Create_Thread_succeeds [OF m new] by blast
  note sp = Create_Thread_spawned [OF s1(1,2)]
  note S = spawned_kbase [OF base sp]
  let ?u = "Setup_Kernel_Thread shutdown launch ?t f arg s1"
  note sb = same_but_Setup [of ?t s1 shutdown launch f arg]
  have u: "kbase ?u" "off_queues ?u ?t" "?t \<in> set (allThreads ?u)" "int_flag ?u"
    using same_but_kbase [OF sb] S IF sb s1(5) by (simp_all add: same_but_def spawned_def)
  let ?v = "?u\<lparr>int_flag := False\<rparr>"
  let ?s' = "(made_runnable ?t ?v)\<lparr>int_flag := True\<rparr>"
  have run: "Start_Kernel_Thread shutdown launch f arg prio det s = Some (?t, ?s')"
    using s1(1,2) Make_Runnable_Atomic_ok [OF u] by (simp add: Start_Kernel_Thread_def)
  have pos: "0 < MAX_QUEUE_LEVEL s" using base sched_okD(6) by (auto simp: kbase_def)
  have lev: "run_level ?v ?t = (if prio = 0 then MAX_QUEUE_LEVEL s - 1 else 0)"
    using sp sb pos by (simp add: run_level_def Let_def spawned_def same_but_def)
  have ql: "queues ?v (RunQ k) = queues s (RunQ k)" for k using sp sb by (simp add: spawned_def same_but_def)
  have "vm ?s' = vm ?u" by (simp add: made_runnable_def Let_def)
  then have vm: "mem_ok (vm ?s')" "freeList (vm ?s') = q"
    using s1(3,4) sb by (simp_all add: mem_ok_def same_but_def)
  have q: "queues ?s' (RunQ k) = queues s (RunQ k) @ (if int k = run_level ?v ?t then [?t] else [])" for k
    using ql lev pos by (auto simp: made_runnable_queues)
  show ?thesis
    using run s1(2) vm q lev sp sb by (intro exI [of _ ?s']) (simp add: spawned_def same_but_def)
qed

definition boot_state :: "kstate \<Rightarrow> bool" where
  "boot_state s \<longleftrightarrow> allThreads s = [] \<and> (\<forall>q. queues s q = []) \<and> MAX_QUEUE_LEVEL s = 4 \<and>
     int_flag s \<and> \<not> g_preemptionDisabled s \<and> mem_ok (vm s)"

lemma Init_Scheduler_main:
  assumes "boot_state s"
  shows "kbase (upd_thr KERN_THREAD_OBJ (\<lambda>k. k\<lparr>tname := n\<rparr>) (Init_Thread KERN_THREAD_OBJ KERN_STACK 5 True s)
    \<lparr>g_currentThread := KERN_THREAD_OBJ, allThreads := [KERN_THREAD_OBJ]\<rparr>)"
  using assms by (simp add: boot_state_def kbase_def sched_ok_def off_queues_def)

lemma Init_Thread_main:
  "refCount (thr (Init_Thread t sp prio True s) t) = 1" "alive (thr (Init_Thread t sp prio True s) t)"
  "length (tlocalData (thr (Init_Thread t sp prio True s) t)) = 128"
  by (simp_all add: Init_Thread_def Let_def zero_thread_def)

lemma same_but_name: "same_but t s (upd_thr t (\<lambda>k. k\<lparr>tname := n\<rparr>) s)"
  by (simp add: same_but_def)

lemma Init_Scheduler_kinv:
  assumes "boot_state s" "Init_Scheduler shutdown launch idle reaper s = Some s'"
  shows "kinv s'"
proof -
  let ?m = "upd_thr KERN_THREAD_OBJ (\<lambda>k. k\<lparr>tname := ''{Main}''\<rparr>) (Init_Thread KERN_THREAD_OBJ KERN_STACK 5 True s)
    \<lparr>g_currentThread := KERN_THREAD_OBJ, allThreads := [KERN_THREAD_OBJ]\<rparr>"
  note base = Init_Scheduler_main [OF assms(1), of "''{Main}''"]
  have e: "allThreads s = []" using assms(1) by (simp add: boot_state_def)
  obtain t s1 t2 s2 where 1: "Start_Kernel_Thread shutdown launch idle 0 0 True ?m = Some (t, s1)" "t \<noteq> 0"
    and 2: "Start_Kernel_Thread shutdown launch reaper 0 5 True (upd_thr t (\<lambda>k. k\<lparr>tname := ''{Idle}''\<rparr>) s1) = Some (t2, s2)"
    "t2 \<noteq> 0" "s' = upd_thr t2 (\<lambda>k. k\<lparr>tname := ''{Reaper}''\<rparr>) s2"
    using assms(2) by (auto simp: Init_Scheduler_def e bind_eq_Some_conv Let_def split: if_splits)
  note S1 = Start_Kernel_Thread_ok [OF base 1]
  note k1 = same_but_kbase [OF same_but_name [of t s1 "''{Idle}''"]]
  have "kbase (upd_thr t (\<lambda>k. k\<lparr>tname := ''{Idle}''\<rparr>) s1)" "idle_ok (upd_thr t (\<lambda>k. k\<lparr>tname := ''{Idle}''\<rparr>) s1)"
    using S1(1,3) k1 by simp_all
  then have "kbase s2" "idle_ok s2" using Start_Kernel_Thread_ok(1,2) [OF _ 2(1,2)] by simp_all
  then show ?thesis
    using same_but_kbase [OF same_but_name [of t2 s2 "''{Reaper}''"]] unfolding kinv_kbase 2(3) by simp
qed

lemma Init_Scheduler_succeeds:
  assumes b: "boot_state s" and f: "freeList (vm s) = i1 # j1 # i2 # j2 # q"
    and main: "256 \<notin> set (freeList (vm s))"
  shows "\<exists>s'. Init_Scheduler shutdown launch idle reaper s = Some s' \<and> int_flag s' \<and>
    g_currentThread s' = KERN_THREAD_OBJ \<and> queues s' (RunQ 0) = [Get_Page_Address i2] \<and>
    queues s' (RunQ 3) = [Get_Page_Address i1] \<and>
    priority (thr s' (Get_Page_Address i1)) = PRIORITY_IDLE \<and>
    allThreads s' = [KERN_THREAD_OBJ, Get_Page_Address i1, Get_Page_Address i2] \<and>
    g_preemptionDisabled s' = g_preemptionDisabled s \<and> tlocalDestructors s' = tlocalDestructors s \<and>
    (let k = thr s' KERN_THREAD_OBJ in
      priority k = PRIORITY_NORMAL \<and> refCount k = 1 \<and> alive k \<and> length (tlocalData k) = 128)"
proof -
  let ?m = "upd_thr KERN_THREAD_OBJ (\<lambda>k. k\<lparr>tname := ''{Main}''\<rparr>) (Init_Thread KERN_THREAD_OBJ KERN_STACK 5 True s)
    \<lparr>g_currentThread := KERN_THREAD_OBJ, allThreads := [KERN_THREAD_OBJ]\<rparr>"
  let ?t1 = "Get_Page_Address i1" and ?t2 = "Get_Page_Address i2"
  note base = Init_Scheduler_main [OF b, of "''{Main}''"]
  have B: "allThreads s = []" "\<And>q. queues s q = []" "MAX_QUEUE_LEVEL s = 4" "int_flag s" "mem_ok (vm s)"
    using b by (simp_all add: boot_state_def)
  have lt: "k < 2 ^ 20" if "k \<in> set (freeList (vm s))" for k using mem_okD [OF B(5) that] by simp
  have k: "Get_Page_Address k \<noteq> KERN_THREAD_OBJ" if "k \<in> set (freeList (vm s))" for k
  proof
    assume "Get_Page_Address k = KERN_THREAD_OBJ"
    then have "Page_Index (Get_Page_Address k) = Page_Index KERN_THREAD_OBJ" by simp
    then have "k = Page_Index KERN_THREAD_OBJ" using Page_Index_Address [OF lt [OF that]] by simp
    then have "k = 256" by (simp add: Page_Index_nat)
    then show False using main that by simp
  qed
  have "i1 \<noteq> i2" using B(5) f by (simp add: mem_ok_def)
  then have ne: "?t1 \<noteq> ?t2"
    using lt [of i1] lt [of i2] f by (metis Page_Index_Address list.set_intros(1) list.set_intros(2))
  have m: "mem_ok (vm ?m)" "freeList (vm ?m) = i1 # j1 # i2 # j2 # q" "int_flag ?m"
    "?t1 \<notin> set (allThreads ?m)" using B f k [of i1] by simp_all
  obtain s1 where s1: "Start_Kernel_Thread shutdown launch idle 0 0 True ?m = Some (?t1, s1)"
    "?t1 \<noteq> 0" "mem_ok (vm s1)" "freeList (vm s1) = i2 # j2 # q" "int_flag s1" "MAX_QUEUE_LEVEL s1 = 4"
    "g_currentThread s1 = KERN_THREAD_OBJ" "priority (thr s1 ?t1) = 0"
    "\<And>k. queues s1 (RunQ k) = (if k = 3 then [?t1] else [])"
    "\<And>v. v \<noteq> ?t1 \<Longrightarrow> thr s1 v = thr ?m v" "g_preemptionDisabled s1 = g_preemptionDisabled s"
    "tlocalDestructors s1 = tlocalDestructors s"
    using Start_Kernel_Thread_succeeds [OF base m(1,2,4,3), of shutdown launch idle 0 0 True] B by auto
  note S1 = Start_Kernel_Thread_ok [OF base s1(1,2)]
  let ?u = "upd_thr ?t1 (\<lambda>k. k\<lparr>tname := ''{Idle}''\<rparr>) s1"
  have u: "kbase ?u" using same_but_kbase(1) [OF same_but_name [of ?t1 s1 "''{Idle}''"]] S1(1) by simp
  have a1: "allThreads ?u = [KERN_THREAD_OBJ, ?t1]" using S1(5) by simp
  have u': "mem_ok (vm ?u)" "freeList (vm ?u) = i2 # j2 # q" "int_flag ?u" "?t2 \<notin> set (allThreads ?u)"
    unfolding a1 using s1(3-5) k [of i2] f ne by auto
  obtain s2 where s2: "Start_Kernel_Thread shutdown launch reaper 0 5 True ?u = Some (?t2, s2)"
    "?t2 \<noteq> 0" "int_flag s2" "g_currentThread s2 = KERN_THREAD_OBJ"
    "\<And>v. v \<noteq> ?t2 \<Longrightarrow> thr s2 v = thr ?u v"
    "\<And>k. queues s2 (RunQ k) = queues ?u (RunQ k) @ (if k = 0 then [?t2] else [])"
    "g_preemptionDisabled s2 = g_preemptionDisabled ?u" "tlocalDestructors s2 = tlocalDestructors ?u"
    using Start_Kernel_Thread_succeeds [OF u u'(1,2,4,3), of shutdown launch reaper 0 5 True] s1(7) by auto
  have a2: "allThreads s2 = [KERN_THREAD_OBJ, ?t1, ?t2]"
    using Start_Kernel_Thread_ok(5) [OF u s2(1,2)] a1 by simp
  have "Init_Scheduler shutdown launch idle reaper s = Some (upd_thr ?t2 (\<lambda>k. k\<lparr>tname := ''{Reaper}''\<rparr>) s2)"
    using s1(1,2) s2(1,2) B(1) by (simp add: Init_Scheduler_def)
  moreover have "thr s2 KERN_THREAD_OBJ = thr ?m KERN_THREAD_OBJ"
    using k [of i1] k [of i2] f s2(5) [of KERN_THREAD_OBJ] s1(10) [of KERN_THREAD_OBJ] by auto
  moreover have "KERN_THREAD_OBJ \<noteq> ?t2" using k [of i2] f by auto
  ultimately show ?thesis
    using s2 s1(8-12) ne a2 by (simp add: Let_def Init_Thread_main)
qed

section \<open>Scheduling policies\<close>

text \<open>What a change of policy leaves alone.\<close>

definition policy_frame :: "kstate \<Rightarrow> kstate \<Rightarrow> bool" where
  "policy_frame s s' \<longleftrightarrow> allThreads s' = allThreads s \<and> g_currentThread s' = g_currentThread s \<and>
     int_flag s' = int_flag s \<and> g_preemptionDisabled s' = g_preemptionDisabled s \<and>
     (\<forall>u. priority (thr s' u) = priority (thr s u))"

lemma policy_frame_refl [simp]: "policy_frame s s"
  by (simp add: policy_frame_def)

lemma policy_frame_trans: "policy_frame s s1 \<Longrightarrow> policy_frame s1 s2 \<Longrightarrow> policy_frame s s2"
  by (simp add: policy_frame_def)

lemma drain_level_ok:
  assumes "queues s (RunQ i) = ts" "i \<noteq> 0" "distinct ts" "set ts \<inter> set (queues s (RunQ 0)) = {}"
  shows "\<exists>s'. drain_level i ts s = Some s' \<and> policy_frame s s' \<and> MAX_QUEUE_LEVEL s' = MAX_QUEUE_LEVEL s \<and>
    queues s' = (queues s)(RunQ i := [], RunQ 0 := rev ts @ queues s (RunQ 0)) \<and>
    (\<forall>u. currentReadyQueue (thr s' u) = (if u \<in> set ts then 0 else currentReadyQueue (thr s u)))"
  using assms
proof (induction ts arbitrary: s)
  case Nil
  have "(queues s)(RunQ i := [], RunQ 0 := queues s (RunQ 0)) = queues s" by (rule ext) (use Nil in simp)
  then show ?case by (simp del: fun_upd_apply)
next
  case (Cons t ts)
  let ?s1 = "set_queue (RunQ i) ts (upd_thr t (\<lambda>k. k\<lparr>currentReadyQueue := 0\<rparr>) s)"
  let ?s2 = "set_queue (RunQ 0) (t # queues s (RunQ 0)) ?s1"
  have r: "Remove_Thread (RunQ i) t (upd_thr t (\<lambda>k. k\<lparr>currentReadyQueue := 0\<rparr>) s) = Some ?s1"
    using Cons.prems(1) by simp
  have "t \<notin> set (queues s (RunQ 0))" using Cons.prems(4) by auto
  then have step: "drain_level i (t # ts) s = drain_level i ts ?s2"
    using r Cons.prems(2) by simp
  have c: "policy_frame s ?s2" by (auto simp: policy_frame_def)
  have pre: "queues ?s2 (RunQ i) = ts" "distinct ts" "set ts \<inter> set (queues ?s2 (RunQ 0)) = {}"
    using Cons.prems by auto
  obtain s' where s': "drain_level i ts ?s2 = Some s'" "policy_frame ?s2 s'" "MAX_QUEUE_LEVEL s' = MAX_QUEUE_LEVEL ?s2"
    "queues s' = (queues ?s2)(RunQ i := [], RunQ 0 := rev ts @ queues ?s2 (RunQ 0))"
    "\<forall>u. currentReadyQueue (thr s' u) = (if u \<in> set ts then 0 else currentReadyQueue (thr ?s2 u))"
    using Cons.IH [OF pre(1) Cons.prems(2) pre(2,3)] by blast
  have "queues s' = (queues s)(RunQ i := [], RunQ 0 := rev (t # ts) @ queues s (RunQ 0))"
    unfolding s'(4) using Cons.prems(2) by auto
  moreover have "\<forall>u. currentReadyQueue (thr s' u) =
      (if u \<in> set (t # ts) then 0 else currentReadyQueue (thr s u))" using s'(5) by simp
  moreover have "MAX_QUEUE_LEVEL s' = MAX_QUEUE_LEVEL s" using s'(3) by simp
  ultimately show ?case unfolding step using s'(1) policy_frame_trans [OF c s'(2)] by blast
qed

text \<open>The queues after a switch to round robin from four levels.\<close>

lemma drain_levels_ok:
  assumes ok: "sched_ok s"
  shows "\<exists>s'. drain_levels 1 3 s = Some s' \<and> policy_frame s s' \<and> MAX_QUEUE_LEVEL s' = MAX_QUEUE_LEVEL s \<and>
    queues s' = (queues s)(RunQ 1 := [], RunQ 2 := [], RunQ 3 := [],
      RunQ 0 := rev (queues s (RunQ 3)) @ rev (queues s (RunQ 2)) @ rev (queues s (RunQ 1)) @ queues s (RunQ 0)) \<and>
    (\<forall>u. currentReadyQueue (thr s' u) =
      (if u \<in> set (queues s (RunQ 1)) \<union> set (queues s (RunQ 2)) \<union> set (queues s (RunQ 3)) then 0
       else currentReadyQueue (thr s u)))"
proof -
  note D = sched_okD [OF ok]
  have disj: "set (queues s (RunQ i)) \<inter> set (queues s (RunQ j)) = {}" if "i \<noteq> j" for i j
    using D(3) that by (metis disjoint_iff qid.inject(1))
  obtain s1 where s1: "drain_level 1 (queues s (RunQ 1)) s = Some s1" "policy_frame s s1" "MAX_QUEUE_LEVEL s1 = MAX_QUEUE_LEVEL s"
    "queues s1 = (queues s)(RunQ 1 := [], RunQ 0 := rev (queues s (RunQ 1)) @ queues s (RunQ 0))"
    "\<And>u. currentReadyQueue (thr s1 u) = (if u \<in> set (queues s (RunQ 1)) then 0 else currentReadyQueue (thr s u))"
    using drain_level_ok [OF refl, where s = s and i = 1] D(1) disj [of 1 0] by auto
  have q2: "queues s1 (RunQ 2) = queues s (RunQ 2)" by (simp add: s1(4))
  obtain s2 where s2: "drain_level 2 (queues s (RunQ 2)) s1 = Some s2" "policy_frame s1 s2" "MAX_QUEUE_LEVEL s2 = MAX_QUEUE_LEVEL s1"
    "queues s2 = (queues s1)(RunQ 2 := [], RunQ 0 := rev (queues s (RunQ 2)) @ queues s1 (RunQ 0))"
    "\<And>u. currentReadyQueue (thr s2 u) = (if u \<in> set (queues s (RunQ 2)) then 0 else currentReadyQueue (thr s1 u))"
    using drain_level_ok [OF q2] D(1) disj [of 2 0] disj [of 2 1] by (auto simp: s1(4) Int_Un_distrib)
  have q3: "queues s2 (RunQ 3) = queues s (RunQ 3)" by (simp add: s2(4) s1(4))
  obtain s3 where s3: "drain_level 3 (queues s (RunQ 3)) s2 = Some s3" "policy_frame s2 s3" "MAX_QUEUE_LEVEL s3 = MAX_QUEUE_LEVEL s2"
    "queues s3 = (queues s2)(RunQ 3 := [], RunQ 0 := rev (queues s (RunQ 3)) @ queues s2 (RunQ 0))"
    "\<And>u. currentReadyQueue (thr s3 u) = (if u \<in> set (queues s (RunQ 3)) then 0 else currentReadyQueue (thr s2 u))"
    using drain_level_ok [OF q3] D(1) disj [of 3 0] disj [of 3 1] disj [of 3 2]
    by (auto simp: s2(4) s1(4) Int_Un_distrib)
  have n: "(3 :: nat) = Suc (Suc (Suc 0))" by simp
  have "drain_levels 1 3 s = Some s3"
    using s1(1) s2(1) s3(1) q2 q3 by (simp add: n del: One_nat_def)
  then show ?thesis
    using policy_frame_trans [OF policy_frame_trans [OF s1(2) s2(2)] s3(2)] s1(3,5) s2(3,5) s3(3,5)
    by (intro exI [of _ s3]) (auto simp: s3(4) s2(4) s1(4))
qed

lemma Switch_To_RR_ok:
  assumes inv: "kinv s" and IF: "\<not> int_flag s"
  shows "\<exists>s'. Switch_To_RR s = Some s' \<and> kinv s' \<and> \<not> int_flag s' \<and> MAX_QUEUE_LEVEL s' = 1 \<and>
    queues s' (RunQ 0) = rev (queues s (RunQ 3)) @ rev (queues s (RunQ 2)) @ rev (queues s (RunQ 1)) @ queues s (RunQ 0)"
proof -
  note K = kinv_current [OF inv]
  note D = sched_okD [OF K(1)]
  have big: "queues s (RunQ j) = []" if "MAX_QUEUE_LEVEL s \<le> int j" for j
    using D(8) [of _ j] that by (cases "queues s (RunQ j)") auto
  let ?Q = "(queues s)(RunQ 1 := [], RunQ 2 := [], RunQ 3 := [],
      RunQ 0 := rev (queues s (RunQ 3)) @ rev (queues s (RunQ 2)) @ rev (queues s (RunQ 1)) @ queues s (RunQ 0))"
  obtain s1 where s1: "drain_levels 1 (nat (MAX_QUEUE_LEVEL s) - 1) s = Some s1" "policy_frame s s1"
    "queues s1 = ?Q"
    "\<And>u. currentReadyQueue (thr s1 u) =
      (if u \<in> set (queues s (RunQ 1)) \<union> set (queues s (RunQ 2)) \<union> set (queues s (RunQ 3)) then 0
       else currentReadyQueue (thr s u))"
  proof (cases "MAX_QUEUE_LEVEL s = 1")
    case True
    have "queues s = ?Q" using big [of 1] big [of 2] big [of 3] True by auto
    with True that [of s] big show thesis by simp
  next
    case False
    then have "MAX_QUEUE_LEVEL s = 4" using D(5) by simp
    with that drain_levels_ok [OF K(1)] show thesis by auto
  qed
  let ?s' = "s1\<lparr>MAX_QUEUE_LEVEL := 1\<rparr>"
  note P = s1(2) [unfolded policy_frame_def]
  have from_old: "\<exists>q'. u \<in> set (queues s q') \<and> (case q of RunQ i \<Rightarrow> i = 0 \<and> (\<exists>j. q' = RunQ j) | _ \<Rightarrow> q' = q)"
    if u: "u \<in> set (?Q q)" for u q
  proof (cases q)
    case (RunQ i)
    have i: "i = 0"
    proof (rule ccontr)
      assume "i \<noteq> 0"
      then have m: "u \<in> set (queues s (RunQ i))" "i \<noteq> 1" "i \<noteq> 2" "i \<noteq> 3"
        using u RunQ by (auto split: if_splits)
      then have "int i < 4" using D(5) D(8) [OF m(1)] by auto
      with m(2-4) \<open>i \<noteq> 0\<close> show False by simp
    qed
    show ?thesis using u unfolding RunQ i by auto
  qed (use u in auto)
  have ok: "sched_ok ?s'"
  proof (rule sched_ok_intro)
    have dj: "set (queues s (RunQ i)) \<inter> set (queues s (RunQ j)) = {}" if "i \<noteq> j" for i j
      using D(3) that by (metis disjoint_iff qid.inject(1))
    show "distinct (queues ?s' q)" for q
      using D(1) dj [of 3 2] dj [of 3 1] dj [of 3 0] dj [of 2 1] dj [of 2 0] dj [of 1 0]
      by (simp add: s1(3) Int_Un_distrib)
    show "u \<in> set (allThreads ?s')" if "u \<in> set (queues ?s' q)" for q u
      using that from_old [of u q] D(2) P by (auto simp: s1(3))
    show "q = q'" if "u \<in> set (queues ?s' q)" "u \<in> set (queues ?s' q')" for q q' u
    proof -
      have e: "queues ?s' = ?Q" by (simp add: s1(3))
      note uq = that [unfolded e]
      obtain p p' where p: "u \<in> set (queues s p)" "u \<in> set (queues s p')"
        "case q of RunQ i \<Rightarrow> i = 0 \<and> (\<exists>j. p = RunQ j) | _ \<Rightarrow> p = q"
        "case q' of RunQ i \<Rightarrow> i = 0 \<and> (\<exists>j. p' = RunQ j) | _ \<Rightarrow> p' = q'"
        using from_old [OF uq(1)] from_old [OF uq(2)] by blast
      then show ?thesis using D(3) [OF p(1,2)] by (cases q; cases q') auto
    qed
    show "distinct (allThreads ?s')" "MAX_QUEUE_LEVEL ?s' = 1 \<or> MAX_QUEUE_LEVEL ?s' = 4" using D(4) P by simp_all
    show "0 \<le> currentReadyQueue (thr ?s' u)" if "u \<in> set (allThreads ?s')" for u
      using that D(7) P s1(4) by simp
    show "int i < MAX_QUEUE_LEVEL ?s' \<and> currentReadyQueue (thr ?s' u) = int i" if u: "u \<in> set (queues ?s' (RunQ i))" for i u
    proof -
      have e: "queues ?s' = ?Q" by (simp add: s1(3))
      note uQ = u [unfolded e]
      then have i: "i = 0" using from_old [OF uQ] by auto
      then show ?thesis using uQ s1(4) [of u] D(9) [of u 0] by auto
    qed
  qed
  have off: "off_queues ?s' (g_currentThread s)"
    using K(3) unfolding off_queues_def by (simp add: s1(3))
  have "idle_ok ?s'"
  proof -
    obtain z where z: "z \<in> set (allThreads s)" "priority (thr s z) = 0"
      "z = g_currentThread s \<or> z \<in> set (queues s (RunQ (nat (MAX_QUEUE_LEVEL s - 1))))"
      using K(4) by (auto simp: idle_ok_def)
    then have "z = g_currentThread s \<or> z \<in> set (?Q (RunQ 0))" using D(5) by auto
    with z P show ?thesis by (auto simp: idle_ok_def s1(3))
  qed
  with ok off K(2) P have "kinv ?s'" by (simp add: kinv_def)
  moreover have "Switch_To_RR s = Some ?s'" using IF s1(1) by (simp add: Switch_To_RR_def)
  ultimately show ?thesis using P IF by (intro exI [of _ ?s']) (simp add: s1(3))
qed

text \<open>The other way: idle threads go to the last level, the others keep their order.\<close>

definition is_idle :: "kstate \<Rightarrow> u32 \<Rightarrow> bool" where
  "is_idle s t \<longleftrightarrow> priority (thr s t) = PRIORITY_IDLE"

lemma move_idle_ok:
  assumes "set ts \<subseteq> set (queues s (RunQ 0))" "distinct ts" "distinct (queues s (RunQ 0))"
    "set ts \<inter> set (queues s (RunQ 3)) = {}"
  shows "\<exists>s'. move_idle ts s = Some s' \<and> policy_frame s s' \<and> MAX_QUEUE_LEVEL s' = MAX_QUEUE_LEVEL s \<and>
    (\<forall>q. queues s' q = (if q = RunQ 0 then filter (\<lambda>t. t \<notin> set ts \<or> \<not> is_idle s t) (queues s (RunQ 0))
      else if q = RunQ 3 then rev (filter (is_idle s) ts) @ queues s (RunQ 3) else queues s q)) \<and>
    (\<forall>u. currentReadyQueue (thr s' u) = (if u \<in> set ts \<and> is_idle s u then 3 else currentReadyQueue (thr s u)))"
  using assms
proof (induction ts arbitrary: s)
  case Nil
  then show ?case by simp
next
  case (Cons t ts)
  show ?case
  proof (cases "is_idle s t")
    case False
    have "(t' \<notin> set (t # ts) \<or> \<not> is_idle s t') = (t' \<notin> set ts \<or> \<not> is_idle s t')" for t' using False by auto
    moreover have "move_idle (t # ts) s = move_idle ts s" using False by (simp add: is_idle_def)
    ultimately show ?thesis using Cons.IH [of s] Cons.prems False by auto
  next
    case True
    let ?s2 = "upd_thr t (\<lambda>k. k\<lparr>currentReadyQueue := 3\<rparr>)
      (set_queue (RunQ 3) (t # queues s (RunQ 3)) (set_queue (RunQ 0) (remove1 t (queues s (RunQ 0))) s))"
    have step: "move_idle (t # ts) s = move_idle ts ?s2"
      using True Cons.prems by (simp add: is_idle_def)
    have c: "policy_frame s ?s2" by (auto simp: policy_frame_def)
    have i: "is_idle ?s2 = is_idle s" by (rule ext) (simp add: is_idle_def)
    have pre: "set ts \<subseteq> set (queues ?s2 (RunQ 0))" "distinct ts" "distinct (queues ?s2 (RunQ 0))"
      "set ts \<inter> set (queues ?s2 (RunQ 3)) = {}"
      using Cons.prems by auto
    obtain s' where s': "move_idle ts ?s2 = Some s'" "policy_frame ?s2 s'" "MAX_QUEUE_LEVEL s' = MAX_QUEUE_LEVEL ?s2"
      "\<And>q. queues s' q = (if q = RunQ 0 then filter (\<lambda>t. t \<notin> set ts \<or> \<not> is_idle s t) (queues ?s2 (RunQ 0))
        else if q = RunQ 3 then rev (filter (is_idle s) ts) @ queues ?s2 (RunQ 3) else queues ?s2 q)"
      "\<And>u. currentReadyQueue (thr s' u) = (if u \<in> set ts \<and> is_idle s u then 3 else currentReadyQueue (thr ?s2 u))"
      using Cons.IH [OF pre] unfolding i by blast
    have "filter (\<lambda>t. t \<notin> set ts \<or> \<not> is_idle s t) (remove1 t (queues s (RunQ 0))) =
        filter (\<lambda>u. u \<notin> set (t # ts) \<or> \<not> is_idle s u) (queues s (RunQ 0))"
      using Cons.prems(3) True by (auto simp: distinct_remove1_removeAll removeAll_filter_not_eq intro!: filter_cong)
    then have "queues s' q = (if q = RunQ 0 then filter (\<lambda>u. u \<notin> set (t # ts) \<or> \<not> is_idle s u) (queues s (RunQ 0))
        else if q = RunQ 3 then rev (filter (is_idle s) (t # ts)) @ queues s (RunQ 3) else queues s q)" for q
      using True by (simp add: s'(4))
    moreover have "currentReadyQueue (thr s' u) =
      (if u \<in> set (t # ts) \<and> is_idle s u then 3 else currentReadyQueue (thr s u))" for u
      using True by (simp add: s'(5))
    moreover have "MAX_QUEUE_LEVEL s' = MAX_QUEUE_LEVEL s" using s'(3) by simp
    ultimately show ?thesis unfolding step using s'(1) policy_frame_trans [OF c s'(2)] by blast
  qed
qed

lemma Switch_To_MLF_ok:
  assumes inv: "kinv s" and IF: "\<not> int_flag s"
  shows "\<exists>s'. Switch_To_MLF s = Some s' \<and> kinv s' \<and> \<not> int_flag s' \<and> MAX_QUEUE_LEVEL s' = 4 \<and>
    queues s' (RunQ 0) = filter (\<lambda>t. \<not> is_idle s t) (queues s (RunQ 0)) \<and>
    queues s' (RunQ 3) = rev (filter (is_idle s) (queues s (RunQ 0))) @ queues s (RunQ 3)"
proof -
  note K = kinv_current [OF inv]
  note D = sched_okD [OF K(1)]
  let ?q0 = "queues s (RunQ 0)" and ?m = "s\<lparr>MAX_QUEUE_LEVEL := 4\<rparr>"
  have dj: "set ?q0 \<inter> set (queues s (RunQ 3)) = {}"
    using D(3) [where q = "RunQ 0" and q' = "RunQ 3"] by auto
  have i: "is_idle ?m = is_idle s" by (auto simp: is_idle_def)
  have mq: "queues ?m = queues s" by simp
  have mf: "policy_frame ?m s' \<Longrightarrow> policy_frame s s'" for s' by (simp add: policy_frame_def)
  obtain s' where s': "move_idle ?q0 ?m = Some s'" "policy_frame s s'" "MAX_QUEUE_LEVEL s' = 4"
    and q: "\<And>q. queues s' q = (if q = RunQ 0 then filter (\<lambda>t. t \<notin> set ?q0 \<or> \<not> is_idle s t) ?q0
      else if q = RunQ 3 then rev (filter (is_idle s) ?q0) @ queues s (RunQ 3) else queues s q)"
    and crq: "\<And>u. currentReadyQueue (thr s' u) = (if u \<in> set ?q0 \<and> is_idle s u then 3 else currentReadyQueue (thr s u))"
    using move_idle_ok [of ?q0 ?m] D(1) dj unfolding i mq by (auto dest: mf)
  note P = s'(2) [unfolded policy_frame_def]
  have mem: "u \<in> set (queues s' q) \<longleftrightarrow>
      (if u \<in> set ?q0 \<and> is_idle s u then q = RunQ 3 else u \<in> set (queues s q))" for u q
    using dj D(3) [where q = "RunQ 0" and t = u and q' = q] by (auto simp: q)
  have ok: "sched_ok s'"
  proof (rule sched_ok_intro)
    show "distinct (queues s' q')" for q' using D(1) dj by (auto simp: q)
    show "u \<in> set (allThreads s')" if "u \<in> set (queues s' q')" for q' u
      using that D(2) P by (auto simp: mem split: if_splits)
    show "q1 = q2" if "u \<in> set (queues s' q1)" "u \<in> set (queues s' q2)" for q1 q2 u
      using that D(3) by (auto simp: mem split: if_splits)
    show "distinct (allThreads s')" "MAX_QUEUE_LEVEL s' = 1 \<or> MAX_QUEUE_LEVEL s' = 4" using D(4) P s'(3) by simp_all
    show "0 \<le> currentReadyQueue (thr s' u)" if "u \<in> set (allThreads s')" for u using that D(7) P by (simp add: crq)
    show "int i < MAX_QUEUE_LEVEL s' \<and> currentReadyQueue (thr s' u) = int i" if u: "u \<in> set (queues s' (RunQ i))" for i u
    proof (cases "u \<in> set ?q0 \<and> is_idle s u")
      case True
      then have "i = 3" using u unfolding mem by simp
      then show ?thesis using True s'(3) by (simp add: crq)
    next
      case False
      then have "u \<in> set (queues s (RunQ i))" using u unfolding mem by auto
      then show ?thesis using False D(8,9) [of u i] D(5) s'(3) by (auto simp: crq)
    qed
  qed
  have off: "off_queues s' (g_currentThread s)"
    using K(3) by (simp add: off_queues_def mem)
  obtain z where z: "z \<in> set (allThreads s)" "priority (thr s z) = 0"
    "z = g_currentThread s \<or> z \<in> set (queues s (RunQ (nat (MAX_QUEUE_LEVEL s - 1))))"
    using K(4) by (auto simp: idle_ok_def)
  have "z = g_currentThread s \<or> z \<in> set (queues s' (RunQ 3))"
    using z D(5) by (auto simp: mem is_idle_def)
  with z P have "idle_ok s'" by (auto simp: idle_ok_def s'(3))
  with ok off K(2) P have "kinv s'" by (simp add: kinv_def)
  moreover have "Switch_To_MLF s = Some s'" using IF s'(1) by (simp add: Switch_To_MLF_def)
  moreover have "filter (\<lambda>t. t \<notin> set ?q0 \<or> \<not> is_idle s t) ?q0 = filter (\<lambda>t. \<not> is_idle s t) ?q0"
    by (rule filter_cong) auto
  ultimately show ?thesis using s'(3) P IF by (intro exI [of _ s']) (simp add: q)
qed

section \<open>The running system\<close>

text \<open>
  The states reached from boot.  Between the operations interrupts are switched on and off
  and preemption is disabled and enabled; \<open>wait\<close> and \<open>exit\<close> are never called by an idle
  thread, whose body only yields.  The arrays of thread-local data have 128 entries.
\<close>

inductive kreach :: "(nat \<Rightarrow> nat \<Rightarrow> kstate \<Rightarrow> kstate) \<Rightarrow> kstate \<Rightarrow> bool" for dtor where
  boot: "boot_state s \<Longrightarrow> Init_Scheduler shutdown launch idle reaper s = Some s' \<Longrightarrow> kreach dtor s'"
| flag: "kreach dtor s \<Longrightarrow> kreach dtor (s\<lparr>int_flag := b\<rparr>)"
| preempt: "kreach dtor s \<Longrightarrow> kreach dtor (s\<lparr>g_preemptionDisabled := b\<rparr>)"
| yield: "kreach dtor s \<Longrightarrow> Yield s = Some s' \<Longrightarrow> kreach dtor s'"
| wait: "kreach dtor s \<Longrightarrow> is_wait_queue q \<Longrightarrow> priority (thr s (g_currentThread s)) \<noteq> PRIORITY_IDLE \<Longrightarrow>
    Wait q s = Some s' \<Longrightarrow> kreach dtor s'"
| wake: "kreach dtor s \<Longrightarrow> is_wait_queue q \<Longrightarrow> Wake_Up q s = Some s' \<Longrightarrow> kreach dtor s'"
| wake_one: "kreach dtor s \<Longrightarrow> is_wait_queue q \<Longrightarrow> Wake_Up_One q s = Some s' \<Longrightarrow> kreach dtor s'"
| exit: "kreach dtor s \<Longrightarrow> \<not> g_preemptionDisabled s \<Longrightarrow> tame dtor \<Longrightarrow> priority (thr s (g_currentThread s)) \<noteq> PRIORITY_IDLE \<Longrightarrow>
    0 < refCount (thr s (g_currentThread s)) \<Longrightarrow> length (tlocalData (thr s (g_currentThread s))) = 128 \<Longrightarrow>
    length (tlocalDestructors s) = 128 \<Longrightarrow> Exit dtor code s = Some s' \<Longrightarrow> kreach dtor s'"
| spawn: "kreach dtor s \<Longrightarrow> Start_Kernel_Thread shutdown launch f arg prio det s = Some (t, s') \<Longrightarrow>
    t \<noteq> 0 \<Longrightarrow> kreach dtor s'"
| rr: "kreach dtor s \<Longrightarrow> Switch_To_RR s = Some s' \<Longrightarrow> kreach dtor s'"
| mlf: "kreach dtor s \<Longrightarrow> Switch_To_MLF s = Some s' \<Longrightarrow> kreach dtor s'"

lemma kinv_preempt [simp]: "kinv (s\<lparr>g_preemptionDisabled := b\<rparr>) = kinv s"
  by (simp add: kinv_def sched_ok_def off_queues_def idle_ok_def)

text \<open>When the operations return, interrupts and preemption were as they require.\<close>

lemma Schedule_SomeD: "Schedule s = Some s' \<Longrightarrow> \<not> int_flag s \<and> \<not> g_preemptionDisabled s"
  by (auto simp: Schedule_def split: if_splits)

lemma Enqueue_Thread_SomeD:
  "Enqueue_Thread q t s = Some s' \<Longrightarrow> t \<notin> set (queues s q) \<and> s' = set_queue q (queues s q @ [t]) s"
  by (auto simp: Enqueue_Thread_def bind_Some_iff Push_Back_eq)

lemma Wait_SomeD: "Wait q s = Some s' \<Longrightarrow> \<not> int_flag s \<and> \<not> g_preemptionDisabled s"
  by (auto simp: Wait_def bind_Some_iff Let_def dest!: Enqueue_Thread_SomeD Schedule_SomeD split: if_splits)

lemma Make_Runnable_preempt:
  "Make_Runnable t s = Some s' \<Longrightarrow> g_preemptionDisabled s' = g_preemptionDisabled s"
  by (auto simp: Make_Runnable_def bind_Some_iff Let_def dest!: Enqueue_Thread_SomeD split: if_splits)

lemma Yield_SomeD: "Yield s = Some s' \<Longrightarrow> int_flag s \<and> \<not> g_preemptionDisabled s"
  by (auto simp: Yield_def bind_Some_iff dest!: Make_Runnable_preempt Schedule_SomeD split: if_splits)

text \<open>Waking up the best thread of a queue.\<close>

lemma Wake_Up_One_ok:
  assumes ok: "sched_ok s" and q: "is_wait_queue q" and IF: "\<not> int_flag s"
  shows "queues s q = [] \<and> Wake_Up_One q s = Some s \<or>
    (\<exists>t s'. first_best s (queues s q) t \<and> Wake_Up_One q s = Some s' \<and>
      wake_frame {t} s s' \<and> queues s' q = remove1 t (queues s q) \<and>
      (\<forall>q'. (\<forall>i. q' \<noteq> RunQ i) \<longrightarrow> q' \<noteq> q \<longrightarrow> queues s' q' = queues s q') \<and>
      t \<in> set (queues s' (RunQ (nat (run_level s t)))) \<and> \<not> blocked (thr s' t))"
proof (cases "Find_Best s q")
  case None
  then show ?thesis using Find_Best_spec [of s q] IF by (simp add: Wake_Up_One_def)
next
  case (Some t)
  then have fb: "first_best s (queues s q) t" using Find_Best_spec [of s q] by simp
  then have t: "t \<in> set (queues s q)" by (simp add: first_best_mem)
  note D = sched_okD [OF ok]
  let ?r = "set_queue q (remove1 t (queues s q)) s"
  have okr: "sched_ok ?r" using sched_ok_shrink [OF ok set_remove1_subset] D(1) by simp
  have off: "off_queues ?r t" using D(1) [of q] D(3) [OF t] by (auto simp: off_queues_def)
  have tt: "t \<in> set (allThreads ?r)" using D(2) [OF t] by simp
  note mr = Make_Runnable_ok [OF okr off tt]
  have "q \<noteq> RunQ i" for i using q by auto
  then have "queues (made_runnable t ?r) q = remove1 t (queues s q)"
    "wake_frame {t} s (made_runnable t ?r)"
    using made_runnable_wake_frame [OF mr(2)] IF
    by (auto simp: made_runnable_queues wake_frame_def off_queues_def made_runnable_mem)
  then show ?thesis
    using Some IF mr t fb by (intro disjI2 exI [of _ t] exI [of _ "made_runnable t ?r"])
      (simp add: Wake_Up_One_def made_runnable_mem made_runnable_queues)
qed

lemma kreach_kinv: "kreach dtor s \<Longrightarrow> kinv s"
proof (induction rule: kreach.induct)
  case (boot s shutdown launch idle reaper s')
  then show ?case by (rule Init_Scheduler_kinv)
next
  case (yield s s')
  then show ?case using Yield_kinv [of s] Yield_SomeD [of s s'] by auto
next
  case (wait s q s')
  then show ?case using Wait_kinv [of s q] Wait_SomeD [of q s s'] by auto
next
  case (wake s q s')
  then have IF: "\<not> int_flag s" by (auto simp: Wake_Up_def Let_def)
  have cur: "g_currentThread s \<notin> set (queues s q)" using kinv_current(3) [OF wake.IH] by (simp add: off_queues_def)
  from Wake_Up_ok [OF kinv_current(1) [OF wake.IH] wake.hyps(2) IF] wake.hyps(3)
  show ?case using kinv_wake [OF wake.IH _ cur] by auto
next
  case (wake_one s q s')
  then have IF: "\<not> int_flag s" by (auto simp: Wake_Up_One_def)
  have cur: "g_currentThread s \<notin> set (queues s q)" using kinv_current(3) [OF wake_one.IH] by (simp add: off_queues_def)
  from Wake_Up_One_ok [OF kinv_current(1) [OF wake_one.IH] wake_one.hyps(2) IF] wake_one.hyps(3) wake_one.IH cur
  show ?case using kinv_wake [OF wake_one.IH] first_best_mem by fastforce
next
  case (exit s code s')
  then show ?case using Exit_ok [OF exit.hyps(3) exit.IH exit.hyps(2,4-7), of code] by auto
next
  case (spawn s shutdown launch f arg prio det t s')
  then show ?case using Start_Kernel_Thread_ok(1,2) [OF _ spawn.hyps(2,3)] by (simp add: kinv_kbase)
next
  case (rr s s')
  then have "\<not> int_flag s" by (auto simp: Switch_To_RR_def)
  then show ?case using Switch_To_RR_ok [OF rr.IH] rr.hyps(2) by auto
next
  case (mlf s s')
  then have "\<not> int_flag s" by (auto simp: Switch_To_MLF_def Let_def)
  then show ?case using Switch_To_MLF_ok [OF mlf.IH] mlf.hyps(2) by auto
qed simp_all

section \<open>Properties\<close>

text \<open>A machine at boot: eight pages, of which the last four are free.\<close>

definition boot_mem :: vm_state where
  "boot_mem = sample_mem\<lparr>pageList := replicate 4 (sample_page\<lparr>flags := 36\<rparr>) @ replicate 4 sample_page,
     freeList := [4, 5, 6, 7], g_freePageCount := 4\<rparr>"

definition sample_boot :: kstate where
  "sample_boot = \<lparr>int_flag = True, thr = (\<lambda>_. zero_thread), allThreads = [], queues = (\<lambda>_. []),
     g_currentThread = 0, g_needReschedule = False, g_preemptionDisabled = False, MAX_QUEUE_LEVEL = 4,
     tlocalKeyCounter = 0, tlocalDestructors = replicate 128 0, nextFreePid = 1,
     uctx = (\<lambda>_. \<lparr>uc_size = 0, csSelector = 0, dsSelector = 0, entryAddr = 0, argBlockAddr = 0,
       stackPointerAddr = 0, uc_refCount = 0\<rparr>), vm = boot_mem\<rparr>"

lemma boot_mem_ok: "mem_ok boot_mem"
  by (simp add: mem_ok_def boot_mem_def sample_mem_def on_freelist_ok_def has_flag_def sample_page_def nth_append)

lemma boot_mem_free: "freeList (vm sample_boot) = 4 # 5 # 6 # 7 # []"
  by (simp add: sample_boot_def boot_mem_def)

lemma sample_boot_ok: "boot_state sample_boot"
  by (simp add: boot_state_def boot_mem_ok) (simp add: sample_boot_def boot_mem_ok)

lemma tame_id: "tame (\<lambda>_ _ s. s)"
  by (simp add: tame_def)

text \<open>The system after boot, and with its main thread waiting.\<close>

lemma sample_running:
  "\<exists>s. kreach (\<lambda>_ _ s. s) s \<and> int_flag s \<and> \<not> g_preemptionDisabled s \<and> g_currentThread s = KERN_THREAD_OBJ \<and>
    priority (thr s KERN_THREAD_OBJ) = PRIORITY_NORMAL \<and> refCount (thr s KERN_THREAD_OBJ) = 1 \<and>
    length (tlocalData (thr s KERN_THREAD_OBJ)) = 128 \<and> length (tlocalDestructors s) = 128 \<and>
    queues s (RunQ 0) = [0x6000] \<and> queues s (RunQ 3) = [0x4000]"
proof -
  have "256 \<notin> set (freeList (vm sample_boot))" by (simp add: boot_mem_free)
  from Init_Scheduler_succeeds [OF sample_boot_ok boot_mem_free this, of 0 0 0 0]
  obtain s where s: "Init_Scheduler 0 0 0 0 sample_boot = Some s" "int_flag s" "g_currentThread s = KERN_THREAD_OBJ"
    "queues s (RunQ 0) = [Get_Page_Address 6]" "queues s (RunQ 3) = [Get_Page_Address 4]"
    "g_preemptionDisabled s = g_preemptionDisabled sample_boot" "tlocalDestructors s = tlocalDestructors sample_boot"
    "priority (thr s KERN_THREAD_OBJ) = 5" "refCount (thr s KERN_THREAD_OBJ) = 1"
    "length (tlocalData (thr s KERN_THREAD_OBJ)) = 128" by (auto simp: Let_def)
  have "\<not> g_preemptionDisabled sample_boot" "length (tlocalDestructors sample_boot) = 128"
    by (simp_all add: sample_boot_def)
  with s kreach.boot [OF sample_boot_ok s(1)] show ?thesis
    by (intro exI [of _ s]) (simp add: Get_Page_Address_def)
qed

lemma sample_waiting:
  "\<exists>s. kreach (\<lambda>_ _ s. s) s \<and> \<not> int_flag s \<and> queues s (WaitQ 0) \<noteq> []"
proof -
  obtain s where s: "kreach (\<lambda>_ _ s. s) s" "\<not> g_preemptionDisabled s" "g_currentThread s = KERN_THREAD_OBJ"
    "priority (thr s KERN_THREAD_OBJ) = 5" using sample_running by blast
  let ?s = "s\<lparr>int_flag := False\<rparr>"
  have k: "kreach (\<lambda>_ _ s. s) ?s" using s(1) by (rule kreach.flag)
  from Wait_kinv [OF kreach_kinv [OF k], of "WaitQ 0"] s obtain s' where
    s': "Wait (WaitQ 0) ?s = Some s'" "\<not> int_flag s'" "queues s' (WaitQ 0) = queues s (WaitQ 0) @ [KERN_THREAD_OBJ]" by auto
  have "kreach (\<lambda>_ _ s. s) s'" by (rule kreach.wait [OF k _ _ s'(1)]) (use s in simp_all)
  with s' show ?thesis by (intro exI [of _ s']) simp
qed

text \<open>With four free pages \<open>Init_Scheduler\<close> succeeds: the main thread runs, the idle thread
  waits on the last run queue and the reaper on the first.\<close>

theorem boot_starts_threads:
  assumes "boot_state s" "freeList (vm s) = i1 # j1 # i2 # j2 # q" "256 \<notin> set (freeList (vm s))"
  shows "\<exists>s'. Init_Scheduler shutdown launch idle reaper s = Some s' \<and> kinv s' \<and> int_flag s' \<and>
    allThreads s' = [KERN_THREAD_OBJ, Get_Page_Address i1, Get_Page_Address i2] \<and>
    g_currentThread s' = KERN_THREAD_OBJ \<and> queues s' (RunQ 0) = [Get_Page_Address i2] \<and>
    queues s' (RunQ 3) = [Get_Page_Address i1] \<and> priority (thr s' (Get_Page_Address i1)) = PRIORITY_IDLE"
  using Init_Scheduler_succeeds [OF assms, of shutdown launch idle reaper] Init_Scheduler_kinv [OF assms(1)]
  by blast

lemma boot_starts_threads_witness:
  "\<exists>s'. Init_Scheduler 1 2 3 4 sample_boot = Some s' \<and> kinv s' \<and> queues s' (RunQ 3) = [0x4000]"
proof -
  have "256 \<notin> set (freeList (vm sample_boot))" by (simp add: boot_mem_free)
  from boot_starts_threads [OF sample_boot_ok boot_mem_free this, of 1 2 3 4] show ?thesis
    by (auto simp: Get_Page_Address_def)
qed



text \<open>C30: \<open>Wake_Up\<close> empties the wait queue: every thread that was on it is on a run queue and no
  longer blocked, the other wait queues and the threads that did not wait are untouched.\<close>

theorem Wake_Up_moves_all:
  assumes "kreach dtor s" "is_wait_queue q" "\<not> int_flag s"
  shows "\<exists>s'. Wake_Up q s = Some s' \<and> kreach dtor s' \<and> queues s' q = [] \<and>
    (\<forall>t\<in>set (queues s q). \<exists>i. t \<in> set (queues s' (RunQ i)) \<and> \<not> blocked (thr s' t)) \<and>
    (\<forall>t. t \<notin> set (queues s q) \<longrightarrow> thr s' t = thr s t) \<and>
    (\<forall>q'. (\<forall>i. q' \<noteq> RunQ i) \<longrightarrow> q' \<noteq> q \<longrightarrow> queues s' q' = queues s q')"
  using Wake_Up_ok [OF kinv_current(1) [OF kreach_kinv [OF assms(1)]] assms(2,3)] kreach.wake [OF assms(1,2)]
  by (auto simp: wake_frame_def)

lemma Wake_Up_moves_all_witness:
  "\<exists>s s' t i. queues s (WaitQ 0) \<noteq> [] \<and> Wake_Up (WaitQ 0) s = Some s' \<and> t \<in> set (queues s (WaitQ 0)) \<and>
    t \<in> set (queues s' (RunQ i))"
proof -
  obtain s where s: "kreach (\<lambda>_ _ s. s) s" "\<not> int_flag s" "queues s (WaitQ 0) \<noteq> []" using sample_waiting by blast
  then obtain t where "t \<in> set (queues s (WaitQ 0))" by (cases "queues s (WaitQ 0)") auto
  with Wake_Up_moves_all [OF s(1) _ s(2), of "WaitQ 0"] s(3) show ?thesis by force
qed



text \<open>A switch to round robin puts all runnable threads on one queue, those of the lower
  levels in front and reversed; the switch back to four levels moves only the idle threads,
  to the last level.  The scheduler's invariant holds after both.\<close>

theorem policy_switches:
  assumes "kreach dtor s" "\<not> int_flag s"
  shows "(\<exists>s'. Switch_To_RR s = Some s' \<and> kreach dtor s' \<and> kinv s' \<and> MAX_QUEUE_LEVEL s' = 1 \<and>
      queues s' (RunQ 0) =
        rev (queues s (RunQ 3)) @ rev (queues s (RunQ 2)) @ rev (queues s (RunQ 1)) @ queues s (RunQ 0)) \<and>
    (\<exists>s'. Switch_To_MLF s = Some s' \<and> kreach dtor s' \<and> kinv s' \<and> MAX_QUEUE_LEVEL s' = 4 \<and>
      queues s' (RunQ 0) = filter (\<lambda>t. priority (thr s t) \<noteq> PRIORITY_IDLE) (queues s (RunQ 0)) \<and>
      queues s' (RunQ 3) =
        rev (filter (\<lambda>t. priority (thr s t) = PRIORITY_IDLE) (queues s (RunQ 0))) @ queues s (RunQ 3))"
proof (intro conjI)
  note inv = kreach_kinv [OF assms(1)]
  show "\<exists>s'. Switch_To_RR s = Some s' \<and> kreach dtor s' \<and> kinv s' \<and> MAX_QUEUE_LEVEL s' = 1 \<and>
      queues s' (RunQ 0) =
        rev (queues s (RunQ 3)) @ rev (queues s (RunQ 2)) @ rev (queues s (RunQ 1)) @ queues s (RunQ 0)"
    using Switch_To_RR_ok [OF inv assms(2)] kreach.rr [OF assms(1)] by blast
  have f: "is_idle s = (\<lambda>t. priority (thr s t) = 0)" by (rule ext) (simp add: is_idle_def)
  show "\<exists>s'. Switch_To_MLF s = Some s' \<and> kreach dtor s' \<and> kinv s' \<and> MAX_QUEUE_LEVEL s' = 4 \<and>
      queues s' (RunQ 0) = filter (\<lambda>t. priority (thr s t) \<noteq> PRIORITY_IDLE) (queues s (RunQ 0)) \<and>
      queues s' (RunQ 3) =
        rev (filter (\<lambda>t. priority (thr s t) = PRIORITY_IDLE) (queues s (RunQ 0))) @ queues s (RunQ 3)"
    using Switch_To_MLF_ok [OF inv assms(2)] kreach.mlf [OF assms(1)] unfolding f by blast
qed

lemma policy_switches_witness:
  "\<exists>s s'. queues s (RunQ 0) = [0x6000] \<and> queues s (RunQ 3) = [0x4000] \<and> Switch_To_RR s = Some s' \<and>
    kinv s' \<and> 0x4000 \<in> set (queues s' (RunQ 0))"
proof -
  obtain s where s: "kreach (\<lambda>_ _ s. s) s" "queues s (RunQ 0) = [0x6000]" "queues s (RunQ 3) = [0x4000]"
    using sample_running by blast
  have k: "kreach (\<lambda>_ _ s. s) (s\<lparr>int_flag := False\<rparr>)" using s(1) by (rule kreach.flag)
  have q: "queues (s\<lparr>int_flag := False\<rparr>) = queues s" "\<not> int_flag (s\<lparr>int_flag := False\<rparr>)" by simp_all
  from policy_switches [OF k q(2)] obtain s' where s': "Switch_To_RR (s\<lparr>int_flag := False\<rparr>) = Some s'" "kinv s'"
    "queues s' (RunQ 0) = rev (queues s (RunQ 3)) @ rev (queues s (RunQ 2)) @ rev (queues s (RunQ 1)) @ queues s (RunQ 0)"
    unfolding q by blast
  then have "0x4000 \<in> set (queues s' (RunQ 0))" using s(3) by simp
  with s' s q show ?thesis by (intro exI [of _ "s\<lparr>int_flag := False\<rparr>"] exI [of _ s']) simp
qed

text \<open>When all keys are in use \<open>Tlocal_Create\<close> fails without leaving the atomic region it
  entered: interrupts stay disabled in the caller.\<close>

theorem Tlocal_Create_full:
  assumes "tlocalKeyCounter s = MAX_TLOCAL_KEYS" "int_flag s"
  shows "Tlocal_Create d s = Some (- 1, None, s\<lparr>int_flag := False\<rparr>)"
  using assms by (simp add: Tlocal_Create_def)

lemma Tlocal_Create_full_witness:
  "Tlocal_Create 5 (sample_boot\<lparr>tlocalKeyCounter := 128\<rparr>) =
     Some (- 1, None, sample_boot\<lparr>tlocalKeyCounter := 128, int_flag := False\<rparr>)"
  by (subst Tlocal_Create_full) (simp_all add: sample_boot_def)

section \<open>Blocking and waking up for the modules built on the scheduler\<close>

text \<open>A running thread, and what its blocking or waking others does to the waiting queues.\<close>

definition kcalm :: "kstate \<Rightarrow> bool" where
  "kcalm k \<longleftrightarrow> kinv k \<and> \<not> g_preemptionDisabled k"

lemma kcalm_int [simp]: "kcalm (k\<lparr>int_flag := b\<rparr>) = kcalm k"
  by (simp add: kcalm_def)

lemma Wait_calm:
  assumes "kcalm k" "\<not> int_flag k" "is_wait_queue q" "priority (thr k (g_currentThread k)) \<noteq> PRIORITY_IDLE"
  shows "\<exists>k'. Wait q k = Some k' \<and> kcalm k' \<and> \<not> int_flag k' \<and> (\<forall>u. priority (thr k' u) = priority (thr k u)) \<and>
    (\<forall>q'. is_wait_queue q' \<longrightarrow> queues k' q' = (if q' = q then queues k q' @ [g_currentThread k] else queues k q'))"
proof -
  obtain k' where k': "Wait q k = Some k'" "kinv k'" "\<not> int_flag k'" "queues k' q = queues k q @ [g_currentThread k]"
    "\<not> g_preemptionDisabled k'" "\<forall>u. priority (thr k' u) = priority (thr k u)"
    "\<And>q'. (\<forall>i. q' \<noteq> RunQ i) \<Longrightarrow> q' \<noteq> q \<Longrightarrow> queues k' q' = queues k q'"
    using Wait_kinv [of k q] assms by (auto simp: kcalm_def)
  have "queues k' q' = queues k q'" if "is_wait_queue q'" "q' \<noteq> q" for q'
    using k'(7) [of q'] that by (cases q') auto
  with k' show ?thesis by (intro exI [of _ k']) (simp add: kcalm_def)
qed

lemma Wake_Up_calm:
  assumes "kcalm k" "\<not> int_flag k" "is_wait_queue q"
  shows "\<exists>k'. Wake_Up q k = Some k' \<and> kcalm k' \<and> \<not> int_flag k' \<and> g_currentThread k' = g_currentThread k \<and>
    (\<forall>u. priority (thr k' u) = priority (thr k u)) \<and>
    (\<forall>q'. is_wait_queue q' \<longrightarrow> queues k' q' = (if q' = q then [] else queues k q'))"
proof -
  have k: "kinv k" "sched_ok k" "g_currentThread k \<notin> set (queues k q)"
    using assms(1) by (auto simp: kcalm_def kinv_def off_queues_def)
  obtain k' where k': "Wake_Up q k = Some k'" "wake_frame (set (queues k q)) k k'" "queues k' q = []"
    "\<And>q'. (\<forall>i. q' \<noteq> RunQ i) \<Longrightarrow> q' \<noteq> q \<Longrightarrow> queues k' q' = queues k q'"
    using Wake_Up_ok [OF k(2) assms(3,2)] by blast
  note F = wake_frameD [OF k'(2)]
  have "queues k' q' = queues k q'" if "is_wait_queue q'" "q' \<noteq> q" for q'
    using k'(4) [of q'] that by (cases q') auto
  moreover have "kcalm k'" using kinv_wake [OF k(1) k'(2) k(3)] F(6) assms(1) by (simp add: kcalm_def)
  ultimately show ?thesis using k'(1,3) F(2,4,10) assms(2) by (intro exI [of _ k']) simp
qed

lemma Yield_calm:
  assumes "kcalm k" "int_flag k"
  shows "\<exists>k'. Yield k = Some k' \<and> kcalm k' \<and> \<not> int_flag k' \<and> (\<forall>u. priority (thr k' u) = priority (thr k u)) \<and>
    (\<forall>q'. is_wait_queue q' \<longrightarrow> queues k' q' = queues k q')"
proof -
  obtain k' where k': "Yield k = Some k'" "kinv k'" "\<not> int_flag k'" "\<not> g_preemptionDisabled k'"
    "\<forall>u. priority (thr k' u) = priority (thr k u)" "\<And>q'. (\<forall>i. q' \<noteq> RunQ i) \<Longrightarrow> queues k' q' = queues k q'"
    using Yield_kinv [of k] assms unfolding kcalm_def by blast
  have "queues k' q' = queues k q'" if "is_wait_queue q'" for q' using k'(6) [of q'] that by (cases q') auto
  with k' show ?thesis by (intro exI [of _ k']) (simp add: kcalm_def)
qed

text \<open>Two threads, an idle one on the last run queue, for the modules built on the scheduler.\<close>

definition sample_threads :: kstate where
  "sample_threads = sample_boot\<lparr>int_flag := False, allThreads := [1, 2],
     thr := (\<lambda>_. zero_thread)(1 := zero_thread\<lparr>priority := 5, userContext := 9\<rparr>, 2 := zero_thread\<lparr>currentReadyQueue := 3\<rparr>),
     queues := (\<lambda>_. [])(RunQ 3 := [2]), g_currentThread := 1\<rparr>"

lemma sample_threads_ok: "kinv sample_threads" "\<not> g_preemptionDisabled sample_threads"
  by (simp_all add: kinv_def sched_ok_def off_queues_def idle_ok_def sample_threads_def sample_boot_def zero_thread_def)

end
