(* ===== verification/Synch.thy ===== *)
theory Synch
  imports Sched
begin

text \<open>
  Mutexes, condition variables and semaphores, \<open>geekos/synch.c\<close>.

  \<open>Wait\<close> switches to another thread, so an operation that blocks is cut there: \<open>pcs\<close> records
  for every thread what it does next (\<open>Ready\<close>: nothing of this module).  A thread that is in
  \<open>P\<close> or \<open>V\<close> can also be preempted between two statements while it holds the semaphore's
  mutex with preemption enabled; each such stretch is a step of its own.
\<close>

section \<open>State\<close>

datatype mutex_state = MUTEX_UNLOCKED | MUTEX_LOCKED

record mutex =
  m_state :: mutex_state
  m_owner :: u32

record semaphore =
  sm_count :: u32
  sm_sid :: u32
  sm_name :: string
  sm_refCount :: u32

text \<open>Where a thread stands: \<open>Locking m k\<close> is inside \<open>Mutex_Wait\<close> of the loop that acquires
  \<open>m\<close>, \<open>CondWaiting c m k\<close> inside the wait of \<open>Cond_Wait\<close>; both go on with \<open>k\<close>.  The others
  are points of \<open>P\<close> and \<open>V\<close> on the semaphore object at an address, whose mutex the thread
  holds there.\<close>

datatype pc = Ready | Locking u32 pc | CondWaiting u32 u32 pc
  | PTest u32 | PSleep u32 | PUnlock u32 | VInc u32 | VBcast u32 | VUnlock u32

record sync =
  ks :: kstate
  mtx :: "u32 \<Rightarrow> mutex"
  sems :: "u32 \<Rightarrow> semaphore"
  semaList :: "u32 list"
  next_sid :: u32
  usems :: "u32 \<Rightarrow> u32 list"
  pcs :: "u32 \<Rightarrow> pc"

abbreviation (input) cur :: "sync \<Rightarrow> u32" where
  "cur s \<equiv> g_currentThread (ks s)"

text \<open>The wait queue of a mutex and of a condition; the mutex and the condition inside the
  semaphore object.\<close>

definition mutex_queue :: "u32 \<Rightarrow> qid" where
  "mutex_queue m = WaitQ (m + 8)"

definition cond_queue :: "u32 \<Rightarrow> qid" where
  "cond_queue c = WaitQ c"

definition mutex_of :: "u32 \<Rightarrow> u32" where
  "mutex_of a = a + 40"

definition cond_of :: "u32 \<Rightarrow> u32" where
  "cond_of a = a + 56"

definition onk :: "(kstate \<Rightarrow> kstate kres) \<Rightarrow> sync \<Rightarrow> sync kres" where
  "onk f s = do { k \<leftarrow> f (ks s); Some (s\<lparr>ks := k\<rparr>) }"

definition set_preempt :: "bool \<Rightarrow> sync \<Rightarrow> sync" where
  "set_preempt b s = s\<lparr>ks := (ks s)\<lparr>g_preemptionDisabled := b\<rparr>\<rparr>"

definition set_pc :: "u32 \<Rightarrow> pc \<Rightarrow> sync \<Rightarrow> sync" where
  "set_pc t p s = s\<lparr>pcs := (pcs s)(t := p)\<rparr>"

definition set_mutex :: "u32 \<Rightarrow> mutex \<Rightarrow> sync \<Rightarrow> sync" where
  "set_mutex m x s = s\<lparr>mtx := (mtx s)(m := x)\<rparr>"

definition IS_HELD :: "u32 \<Rightarrow> sync \<Rightarrow> bool" where
  "IS_HELD m s \<longleftrightarrow> m_state (mtx s m) = MUTEX_LOCKED \<and> m_owner (mtx s m) = cur s"

section \<open>Mutexes\<close>

definition Mutex_Init :: "u32 \<Rightarrow> sync \<Rightarrow> sync" where
  "Mutex_Init m s =
     (let s = set_mutex m \<lparr>m_state = MUTEX_UNLOCKED, m_owner = 0\<rparr> s
      in s\<lparr>ks := Clear_Thread_Queue (mutex_queue m) (ks s)\<rparr>)"

text \<open>Up to the switch to another thread.\<close>

definition Mutex_Wait :: "u32 \<Rightarrow> pc \<Rightarrow> sync \<Rightarrow> sync kres" where
  "Mutex_Wait m k s = do {
     let t = cur s;
     KASSERT (m_state (mtx s m) = MUTEX_LOCKED);
     KASSERT (g_preemptionDisabled (ks s));
     s \<leftarrow> onk Disable_Interrupts s;
     let s = set_preempt False s;
     s \<leftarrow> onk (Wait (mutex_queue m)) s;
     Some (set_pc t (Locking m k) s) }"

text \<open>The loop of \<open>Mutex_Lock_Imp\<close>, and the end of its callers, which enable preemption.\<close>

definition lock_loop :: "u32 \<Rightarrow> pc \<Rightarrow> sync \<Rightarrow> sync kres" where
  "lock_loop m k s =
     (if m_state (mtx s m) = MUTEX_LOCKED then Mutex_Wait m k s
      else Some (set_pc (cur s) k (set_preempt False
        (set_mutex m \<lparr>m_state = MUTEX_LOCKED, m_owner = cur s\<rparr> s))))"

definition Mutex_Lock_Imp :: "u32 \<Rightarrow> pc \<Rightarrow> sync \<Rightarrow> sync kres" where
  "Mutex_Lock_Imp m k s = do {
     KASSERT (g_preemptionDisabled (ks s));
     KASSERT (\<not> IS_HELD m s);
     lock_loop m k s }"

text \<open>A thread in \<open>Mutex_Wait\<close> runs again.\<close>

definition Mutex_Resume :: "u32 \<Rightarrow> pc \<Rightarrow> sync \<Rightarrow> sync kres" where
  "Mutex_Resume m k s = do {
     let s = set_preempt True s;
     s \<leftarrow> onk Enable_Interrupts s;
     lock_loop m k s }"

definition Mutex_Lock :: "u32 \<Rightarrow> pc \<Rightarrow> sync \<Rightarrow> sync kres" where
  "Mutex_Lock m k s = do {
     KASSERT (Interrupts_Enabled (ks s));
     Mutex_Lock_Imp m k (set_preempt True s) }"

definition Mutex_Unlock_Imp :: "u32 \<Rightarrow> sync \<Rightarrow> sync kres" where
  "Mutex_Unlock_Imp m s = do {
     KASSERT (g_preemptionDisabled (ks s));
     KASSERT (IS_HELD m s);
     let s = set_mutex m \<lparr>m_state = MUTEX_UNLOCKED, m_owner = 0\<rparr> s;
     if queues (ks s) (mutex_queue m) \<noteq> [] then do {
       s \<leftarrow> onk Disable_Interrupts s;
       s \<leftarrow> onk (Wake_Up_One (mutex_queue m)) s;
       onk Enable_Interrupts s }
     else Some s }"

definition Mutex_Unlock :: "u32 \<Rightarrow> sync \<Rightarrow> sync kres" where
  "Mutex_Unlock m s = do {
     KASSERT (Interrupts_Enabled (ks s));
     s \<leftarrow> Mutex_Unlock_Imp m (set_preempt True s);
     Some (set_preempt False s) }"

section \<open>Condition variables\<close>

definition Cond_Init :: "u32 \<Rightarrow> sync \<Rightarrow> sync" where
  "Cond_Init c s = s\<lparr>ks := Clear_Thread_Queue (cond_queue c) (ks s)\<rparr>"

text \<open>Up to the switch to another thread.\<close>

definition Cond_Wait :: "u32 \<Rightarrow> u32 \<Rightarrow> pc \<Rightarrow> sync \<Rightarrow> sync kres" where
  "Cond_Wait c m k s = do {
     let t = cur s;
     KASSERT (Interrupts_Enabled (ks s));
     KASSERT (IS_HELD m s);
     let s = set_preempt True s;
     s \<leftarrow> Mutex_Unlock_Imp m s;
     s \<leftarrow> onk Disable_Interrupts s;
     let s = set_preempt False s;
     s \<leftarrow> onk (Wait (cond_queue c)) s;
     Some (set_pc t (CondWaiting c m k) s) }"

definition Cond_Resume :: "u32 \<Rightarrow> pc \<Rightarrow> sync \<Rightarrow> sync kres" where
  "Cond_Resume m k s = do {
     let s = set_preempt True s;
     s \<leftarrow> onk Enable_Interrupts s;
     Mutex_Lock_Imp m k s }"

definition Cond_Signal :: "u32 \<Rightarrow> sync \<Rightarrow> sync kres" where
  "Cond_Signal c s = do {
     KASSERT (Interrupts_Enabled (ks s));
     s \<leftarrow> onk Disable_Interrupts s;
     s \<leftarrow> onk (Wake_Up_One (cond_queue c)) s;
     onk Enable_Interrupts s }"

definition Cond_Broadcast :: "u32 \<Rightarrow> sync \<Rightarrow> sync kres" where
  "Cond_Broadcast c s = do {
     KASSERT (Interrupts_Enabled (ks s));
     s \<leftarrow> onk Disable_Interrupts s;
     s \<leftarrow> onk (Wake_Up (cond_queue c)) s;
     onk Enable_Interrupts s }"

section \<open>Semaphores\<close>

text \<open>The first free entry of a process's table; a full table is silently left alone.\<close>

fun replace_first :: "u32 \<Rightarrow> u32 \<Rightarrow> u32 list \<Rightarrow> u32 list" where
  "replace_first x y [] = []"
| "replace_first x y (z # zs) = (if z = x then y # zs else z # replace_first x y zs)"

text \<open>\<open>malloc\<close> is the address of the new object and \<open>fresh\<close> its previous contents: the code
  increments the reference count it finds there.  A name of 25 characters or more would
  overrun the object.\<close>

definition Create_Semaphore :: "u32 \<Rightarrow> semaphore \<Rightarrow> string \<Rightarrow> int \<Rightarrow> sync \<Rightarrow> (u32 \<times> sync) kres" where
  "Create_Semaphore malloc fresh nam ival s =
     (case List.find (\<lambda>a. sm_name (sems s a) = nam) (semaList s) of
        Some a \<Rightarrow>
          Some (sm_sid (sems s a),
                s\<lparr>sems := (sems s)(a := (sems s a)\<lparr>sm_refCount := sm_refCount (sems s a) + 1\<rparr>)\<rparr>)
      | None \<Rightarrow> do {
          KASSERT (malloc \<noteq> 0);
          KASSERT (length nam < 25);
          let a = malloc;
          let sid = next_sid s;
          let s = s\<lparr>next_sid := sid + 1\<rparr>;
          let s = s\<lparr>sems := (sems s)(a :=
            fresh\<lparr>sm_sid := sid, sm_name := nam, sm_count := word_of_int ival, sm_refCount := sm_refCount fresh + 1\<rparr>)\<rparr>;
          let s = Cond_Init (cond_of a) (Mutex_Init (mutex_of a) s);
          as \<leftarrow> Push_Back (semaList s) a;
          let s = s\<lparr>semaList := as\<rparr>;
          let c = userContext (thr (ks s) (cur s));
          Some (sid, s\<lparr>usems := (usems s)(c := replace_first 0 sid (usems s c))\<rparr>) })"

definition Destroy_Semaphore :: "u32 \<Rightarrow> sync \<Rightarrow> (int \<times> sync) kres" where
  "Destroy_Semaphore sid s =
     (case List.find (\<lambda>a. sm_sid (sems s a) = sid) (semaList s) of
        None \<Rightarrow> Some (- 1, s)
      | Some a \<Rightarrow> do {
          let n = sm_refCount (sems s a) - 1;
          let s = s\<lparr>sems := (sems s)(a := (sems s a)\<lparr>sm_refCount := n\<rparr>)\<rparr>;
          as \<leftarrow> (if n = 0 then Unlink (semaList s) a else Some (semaList s));
          let s = s\<lparr>semaList := as\<rparr>;
          let c = userContext (thr (ks s) (cur s));
          Some (0, s\<lparr>usems := (usems s)(c := replace_first sid 0 (usems s c))\<rparr>) })"

text \<open>\<open>P\<close> and \<open>V\<close> up to the acquisition of the mutex; \<open>Some r\<close> if they return at once.\<close>

definition P :: "u32 \<Rightarrow> sync \<Rightarrow> (int option \<times> sync) kres" where
  "P sid s =
     (case List.find (\<lambda>a. sm_sid (sems s a) = sid) (semaList s) of
        None \<Rightarrow> Some (Some (- 1), s)
      | Some a \<Rightarrow> do {
          s \<leftarrow> onk Enable_Interrupts s;
          s \<leftarrow> Mutex_Lock (mutex_of a) (PTest a) s;
          Some (None, s) })"

definition V :: "u32 \<Rightarrow> sync \<Rightarrow> (int option \<times> sync) kres" where
  "V sid s =
     (case List.find (\<lambda>a. sm_sid (sems s a) = sid) (semaList s) of
        None \<Rightarrow> Some (Some (- 1), s)
      | Some a \<Rightarrow> do {
          s \<leftarrow> onk Enable_Interrupts s;
          s \<leftarrow> Mutex_Lock (mutex_of a) (VInc a) s;
          Some (None, s) })"

text \<open>The test \<open>sema->count <= 0\<close> of an unsigned count, the decrement, and the end of both.\<close>

definition P_test :: "u32 \<Rightarrow> sync \<Rightarrow> sync" where
  "P_test a s =
     (if sm_count (sems s a) \<le> 0 then set_pc (cur s) (PSleep a) s
      else set_pc (cur s) (PUnlock a)
        (s\<lparr>sems := (sems s)(a := (sems s a)\<lparr>sm_count := sm_count (sems s a) - 1\<rparr>)\<rparr>))"

definition P_sleep :: "u32 \<Rightarrow> sync \<Rightarrow> sync kres" where
  "P_sleep a s = Cond_Wait (cond_of a) (mutex_of a) (PTest a) s"

definition PV_end :: "u32 \<Rightarrow> sync \<Rightarrow> sync kres" where
  "PV_end a s = do {
     s \<leftarrow> Mutex_Unlock (mutex_of a) s;
     s \<leftarrow> onk Disable_Interrupts s;
     Some (set_pc (cur s) Ready s) }"

definition V_inc :: "u32 \<Rightarrow> sync \<Rightarrow> sync" where
  "V_inc a s = set_pc (cur s) (VBcast a)
     (s\<lparr>sems := (sems s)(a := (sems s a)\<lparr>sm_count := sm_count (sems s a) + 1\<rparr>)\<rparr>)"

definition V_broadcast :: "u32 \<Rightarrow> sync \<Rightarrow> sync kres" where
  "V_broadcast a s = do {
     s \<leftarrow> Cond_Broadcast (cond_of a) s;
     Some (set_pc (cur s) (VUnlock a) s) }"

text \<open>The running thread goes on from where it stands.\<close>

fun go_on :: "pc \<Rightarrow> sync \<Rightarrow> sync kres" where
  "go_on Ready s = None"
| "go_on (Locking m k) s = Mutex_Resume m k s"
| "go_on (CondWaiting c m k) s = Cond_Resume m k s"
| "go_on (PTest a) s = Some (P_test a s)"
| "go_on (PSleep a) s = P_sleep a s"
| "go_on (PUnlock a) s = PV_end a s"
| "go_on (VInc a) s = Some (V_inc a s)"
| "go_on (VBcast a) s = V_broadcast a s"
| "go_on (VUnlock a) s = PV_end a s"

section \<open>The invariant\<close>

text \<open>The semaphore a thread is inside of, holding its mutex.\<close>

fun crit :: "u32 \<Rightarrow> pc \<Rightarrow> bool" where
  "crit a (PTest b) = (b = a)"
| "crit a (PSleep b) = (b = a)"
| "crit a (PUnlock b) = (b = a)"
| "crit a (VInc b) = (b = a)"
| "crit a (VBcast b) = (b = a)"
| "crit a (VUnlock b) = (b = a)"
| "crit a _ = False"

definition suspended :: "pc \<Rightarrow> bool" where
  "suspended p \<longleftrightarrow> (\<exists>m k. p = Locking m k) \<or> (\<exists>c m k. p = CondWaiting c m k)"

lemma suspended_simps [simp]:
  "suspended (Locking m k)" "suspended (CondWaiting c m k)" "\<not> suspended Ready" "\<not> suspended (PTest a)"
  "\<not> suspended (PSleep a)" "\<not> suspended (PUnlock a)" "\<not> suspended (VInc a)" "\<not> suspended (VBcast a)"
  "\<not> suspended (VUnlock a)"
  by (auto simp: suspended_def)

text \<open>The mutexes \<open>M\<close>, conditions \<open>C\<close> and semaphores \<open>S\<close> of the system, as addresses of
  objects that do not overlap.\<close>

definition objects_ok :: "u32 set \<Rightarrow> u32 set \<Rightarrow> u32 set \<Rightarrow> bool" where
  "objects_ok M C S \<longleftrightarrow> (\<forall>m\<in>M. \<forall>c\<in>C. mutex_queue m \<noteq> cond_queue c) \<and>
     (\<forall>a\<in>S. mutex_of a \<in> M \<and> cond_of a \<in> C)"

text \<open>What a thread is to do once it holds \<open>m\<close>.\<close>

definition after_lock :: "u32 set \<Rightarrow> u32 \<Rightarrow> pc \<Rightarrow> bool" where
  "after_lock S m k \<longleftrightarrow> k = Ready \<or> (\<exists>a\<in>S. m = mutex_of a \<and> (k = PTest a \<or> k = VInc a))"

fun pc_ok :: "u32 set \<Rightarrow> u32 set \<Rightarrow> u32 set \<Rightarrow> pc \<Rightarrow> bool" where
  "pc_ok M C S Ready = True"
| "pc_ok M C S (Locking m k) = (m \<in> M \<and> after_lock S m k)"
| "pc_ok M C S (CondWaiting c m k) = (m \<in> M \<and> c \<in> C \<and>
     (k = Ready \<and> c \<notin> cond_of ` S \<or> (\<exists>a\<in>S. c = cond_of a \<and> m = mutex_of a \<and> k = PTest a)))"
| "pc_ok M C S (PTest a) = (a \<in> S)"
| "pc_ok M C S (PSleep a) = (a \<in> S)"
| "pc_ok M C S (PUnlock a) = (a \<in> S)"
| "pc_ok M C S (VInc a) = (a \<in> S)"
| "pc_ok M C S (VBcast a) = (a \<in> S)"
| "pc_ok M C S (VUnlock a) = (a \<in> S)"

definition held :: "(u32 \<Rightarrow> mutex) \<Rightarrow> u32 \<Rightarrow> u32 \<Rightarrow> bool" where
  "held mx m t \<longleftrightarrow> m_state (mx m) = MUTEX_LOCKED \<and> m_owner (mx m) = t"

text \<open>
  \<open>pc\<close>: the points of the threads, \<open>mx\<close>: the mutexes, \<open>cnt\<close>: the counts, \<open>Q\<close>: the wait
  queues.  A thread at a point of a semaphore holds its mutex; the threads on a mutex's queue
  are in its loop, and if the mutex is free one of them has been woken up; a semaphore whose
  count is positive has no waiter, unless a thread is about to broadcast.
\<close>

definition sync_inv ::
  "u32 set \<Rightarrow> u32 set \<Rightarrow> u32 set \<Rightarrow> (u32 \<Rightarrow> pc) \<Rightarrow> (u32 \<Rightarrow> mutex) \<Rightarrow> (u32 \<Rightarrow> u32) \<Rightarrow> (qid \<Rightarrow> u32 list) \<Rightarrow> bool" where
  "sync_inv M C S pc mx cnt Q \<longleftrightarrow>
     (\<forall>t. pc_ok M C S (pc t)) \<and>
     (\<forall>t a. crit a (pc t) \<longrightarrow> held mx (mutex_of a) t) \<and>
     (\<forall>t m k. pc t = Locking m k \<longrightarrow> \<not> held mx m t) \<and>
     (\<forall>t c m k. pc t = CondWaiting c m k \<longrightarrow> \<not> held mx m t) \<and>
     (\<forall>m\<in>M. \<forall>t\<in>set (Q (mutex_queue m)). \<exists>k. pc t = Locking m k) \<and>
     (\<forall>m\<in>M. m_state (mx m) = MUTEX_UNLOCKED \<longrightarrow> Q (mutex_queue m) \<noteq> [] \<longrightarrow>
        (\<exists>t k. pc t = Locking m k \<and> t \<notin> set (Q (mutex_queue m)))) \<and>
     (\<forall>a\<in>S. cnt a \<noteq> 0 \<longrightarrow> Q (cond_queue (cond_of a)) \<noteq> [] \<longrightarrow> (\<exists>t. pc t = VBcast a)) \<and>
     (\<forall>t a. pc t = PSleep a \<longrightarrow> cnt a = 0)"

lemma sync_invD:
  assumes "sync_inv M C S pc mx cnt Q"
  shows "pc_ok M C S (pc t)" "crit a (pc t) \<Longrightarrow> held mx (mutex_of a) t"
    "pc t = Locking m k \<Longrightarrow> \<not> held mx m t" "pc t = CondWaiting c m k \<Longrightarrow> \<not> held mx m t"
    "m \<in> M \<Longrightarrow> t \<in> set (Q (mutex_queue m)) \<Longrightarrow> \<exists>k. pc t = Locking m k"
    "m \<in> M \<Longrightarrow> m_state (mx m) = MUTEX_UNLOCKED \<Longrightarrow> Q (mutex_queue m) \<noteq> [] \<Longrightarrow>
       \<exists>t k. pc t = Locking m k \<and> t \<notin> set (Q (mutex_queue m))"
    "a \<in> S \<Longrightarrow> cnt a \<noteq> 0 \<Longrightarrow> Q (cond_queue (cond_of a)) \<noteq> [] \<Longrightarrow> \<exists>t. pc t = VBcast a"
    "pc t = PSleep a \<Longrightarrow> cnt a = 0"
  using assms unfolding sync_inv_def by blast+

lemma sync_invI:
  assumes "\<And>t. pc_ok M C S (pc t)" "\<And>t a. crit a (pc t) \<Longrightarrow> held mx (mutex_of a) t"
    "\<And>t m k. pc t = Locking m k \<Longrightarrow> \<not> held mx m t" "\<And>t c m k. pc t = CondWaiting c m k \<Longrightarrow> \<not> held mx m t"
    "\<And>m t. m \<in> M \<Longrightarrow> t \<in> set (Q (mutex_queue m)) \<Longrightarrow> \<exists>k. pc t = Locking m k"
    "\<And>m. m \<in> M \<Longrightarrow> m_state (mx m) = MUTEX_UNLOCKED \<Longrightarrow> Q (mutex_queue m) \<noteq> [] \<Longrightarrow>
       \<exists>t k. pc t = Locking m k \<and> t \<notin> set (Q (mutex_queue m))"
    "\<And>a. a \<in> S \<Longrightarrow> cnt a \<noteq> 0 \<Longrightarrow> Q (cond_queue (cond_of a)) \<noteq> [] \<Longrightarrow> \<exists>t. pc t = VBcast a"
    "\<And>t a. pc t = PSleep a \<Longrightarrow> cnt a = 0"
  shows "sync_inv M C S pc mx cnt Q"
  unfolding sync_inv_def using assms by blast

lemma addr_inj [simp]:
  "mutex_queue m = mutex_queue m' \<longleftrightarrow> m = m'" "cond_queue c = cond_queue c' \<longleftrightarrow> c = c'"
  "mutex_of a = mutex_of b \<longleftrightarrow> a = b" "cond_of a = cond_of b \<longleftrightarrow> a = b"
  "is_wait_queue (mutex_queue m)" "is_wait_queue (cond_queue c)"
  by (simp_all add: mutex_queue_def cond_queue_def mutex_of_def cond_of_def)

lemma objects_okD:
  assumes "objects_ok M C S"
  shows "m \<in> M \<Longrightarrow> c \<in> C \<Longrightarrow> mutex_queue m \<noteq> cond_queue c" "m \<in> M \<Longrightarrow> c \<in> C \<Longrightarrow> cond_queue c \<noteq> mutex_queue m"
    "a \<in> S \<Longrightarrow> mutex_of a \<in> M" "a \<in> S \<Longrightarrow> cond_of a \<in> C"
    "m \<in> M \<Longrightarrow> a \<in> S \<Longrightarrow> mutex_queue m \<noteq> cond_queue (cond_of a)"
    "m \<in> M \<Longrightarrow> a \<in> S \<Longrightarrow> cond_queue (cond_of a) \<noteq> mutex_queue m"
  using assms unfolding objects_ok_def by (auto, metis+)

section \<open>The invariant under each kind of step\<close>

lemma not_crit_suspended: "suspended p \<Longrightarrow> \<not> crit a p"
  by (auto simp: suspended_def)

text \<open>The running thread \<open>t\<close> blocks on a locked mutex, from outside or from its loop.\<close>

lemma inv_block:
  assumes inv: "sync_inv M C S pc mx cnt Q" and obj: "objects_ok M C S"
    and m: "m \<in> M" "m_state (mx m) = MUTEX_LOCKED" "\<not> held mx m t" and k: "after_lock S m k"
    and t: "pc t = Ready \<or> suspended (pc t)" "\<And>m' k'. pc t = Locking m' k' \<Longrightarrow> m' = m"
    and off: "\<And>q. t \<notin> set (Q q)"
    and Q': "\<And>q. is_wait_queue q \<Longrightarrow> Q' q = (if q = mutex_queue m then Q q @ [t] else Q q)"
  shows "sync_inv M C S (pc(t := Locking m k)) mx cnt Q'"
proof (rule sync_invI)
  note D = sync_invD [OF inv] and O = objects_okD [OF obj]
  show "pc_ok M C S ((pc(t := Locking m k)) u)" for u using D(1) m k by simp
  show "held mx (mutex_of a) u" if "crit a ((pc(t := Locking m k)) u)" for u a
    using that D(2) by (auto split: if_splits)
  show "\<not> held mx m' u" if "(pc(t := Locking m k)) u = Locking m' k'" for u m' k'
    using that D(3) m(3) by (auto split: if_splits)
  show "\<not> held mx m' u" if "(pc(t := Locking m k)) u = CondWaiting c m' k'" for u c m' k'
    using that D(4) by (auto split: if_splits)
  show "\<exists>k'. (pc(t := Locking m k)) u = Locking m' k'" if "m' \<in> M" "u \<in> set (Q' (mutex_queue m'))" for m' u
    using that D(5) off by (auto simp: Q' split: if_splits)
  show "\<exists>u k'. (pc(t := Locking m k)) u = Locking m' k' \<and> u \<notin> set (Q' (mutex_queue m'))"
    if "m' \<in> M" "m_state (mx m') = MUTEX_UNLOCKED" "Q' (mutex_queue m') \<noteq> []" for m'
  proof -
    have ne: "m' \<noteq> m" using that(2) m(2) by auto
    then have "m_state (mx m') = MUTEX_UNLOCKED" "Q (mutex_queue m') \<noteq> []" using that by (simp_all add: Q')
    from D(6) [OF that(1) this] obtain u k' where "pc u = Locking m' k'" "u \<notin> set (Q (mutex_queue m'))" by blast
    then show ?thesis using ne t(2) by (intro exI [of _ u] exI [of _ k']) (auto simp: Q')
  qed
  show "\<exists>u. (pc(t := Locking m k)) u = VBcast a"
    if a: "a \<in> S" "cnt a \<noteq> 0" "Q' (cond_queue (cond_of a)) \<noteq> []" for a
  proof -
    obtain u where "pc u = VBcast a" using D(7) a O(6) [OF m(1) a(1)] by (auto simp: Q')
    then show ?thesis using t(1) by (intro exI [of _ u]) auto
  qed
  show "cnt a = 0" if "(pc(t := Locking m k)) u = PSleep a" for u a
    using that D(8) by (auto split: if_splits)
qed

text \<open>The running thread takes a free mutex.\<close>

lemma inv_acquire:
  assumes inv: "sync_inv M C S pc mx cnt Q"
    and m: "m \<in> M" "m_state (mx m) = MUTEX_UNLOCKED" and k: "after_lock S m k"
    and t: "pc t = Ready \<or> suspended (pc t)" "\<And>m' k'. pc t = Locking m' k' \<Longrightarrow> m' = m"
    and off: "\<And>q. t \<notin> set (Q q)"
  shows "sync_inv M C S (pc(t := k)) (mx(m := \<lparr>m_state = MUTEX_LOCKED, m_owner = t\<rparr>)) cnt Q"
proof (rule sync_invI)
  note D = sync_invD [OF inv]
  let ?mx = "mx(m := \<lparr>m_state = MUTEX_LOCKED, m_owner = t\<rparr>)"
  have kc: "\<not> suspended k" "crit a k \<Longrightarrow> m = mutex_of a" "pc_ok M C S k" "k \<noteq> PSleep a" for a
    using k by (auto simp: after_lock_def)
  show "pc_ok M C S ((pc(t := k)) u)" for u using D(1) kc(3) by simp
  show "held ?mx (mutex_of a) u" if "crit a ((pc(t := k)) u)" for u a
  proof (cases "u = t")
    case True
    then show ?thesis using that kc(2) by (auto simp: held_def)
  next
    case False
    then have "held mx (mutex_of a) u" using that D(2) by simp
    then show ?thesis using m(2) by (auto simp: held_def)
  qed
  show "\<not> held ?mx m' u" if "(pc(t := k)) u = Locking m' k'" for u m' k'
    using that D(3) kc(1) by (auto simp: held_def split: if_splits)
  show "\<not> held ?mx m' u" if "(pc(t := k)) u = CondWaiting c m' k'" for u c m' k'
    using that D(4) kc(1) by (auto simp: held_def split: if_splits)
  show "\<exists>k'. (pc(t := k)) u = Locking m' k'" if "m' \<in> M" "u \<in> set (Q (mutex_queue m'))" for m' u
    using that D(5) [OF that] off by (cases "u = t") auto
  show "\<exists>u k'. (pc(t := k)) u = Locking m' k' \<and> u \<notin> set (Q (mutex_queue m'))"
    if "m' \<in> M" "m_state (?mx m') = MUTEX_UNLOCKED" "Q (mutex_queue m') \<noteq> []" for m'
  proof -
    have ne: "m' \<noteq> m" using that(2) by auto
    then have "m_state (mx m') = MUTEX_UNLOCKED" using that by simp
    from D(6) [OF that(1) this that(3)] obtain u k' where "pc u = Locking m' k'" "u \<notin> set (Q (mutex_queue m'))" by blast
    then show ?thesis using ne t(2) by (intro exI [of _ u] exI [of _ k']) auto
  qed
  show "\<exists>u. (pc(t := k)) u = VBcast a" if a: "a \<in> S" "cnt a \<noteq> 0" "Q (cond_queue (cond_of a)) \<noteq> []" for a
  proof -
    obtain u where "pc u = VBcast a" using D(7) a by blast
    then show ?thesis using t(1) by (intro exI [of _ u]) auto
  qed
  show "cnt a = 0" if "(pc(t := k)) u = PSleep a" for u a
    using that D(8) kc(4) by (auto split: if_splits)
qed

text \<open>The running thread frees a mutex it holds and wakes up a waiter \<open>w\<close> if there is one; it
  goes on outside, or on its way to a condition's queue.\<close>

lemma inv_unlock:
  assumes inv: "sync_inv M C S pc mx cnt Q" and obj: "objects_ok M C S"
    and m: "m \<in> M" "held mx m t" and p: "p = Ready \<or> (\<exists>c k. p = CondWaiting c m k)" "pc_ok M C S p"
    and t: "\<not> suspended (pc t)" "\<And>a. crit a (pc t) \<Longrightarrow> m = mutex_of a" "\<And>a. pc t \<noteq> VBcast a"
    and off: "\<And>q. t \<notin> set (Q q)" and dist: "distinct (Q (mutex_queue m))"
    and w: "Q (mutex_queue m) = [] \<and> w = [] \<or> (\<exists>u. u \<in> set (Q (mutex_queue m)) \<and> w = [u])"
    and Q': "\<And>q. is_wait_queue q \<Longrightarrow> Q' q = (if q = mutex_queue m then filter (\<lambda>u. u \<notin> set w) (Q q) else Q q)"
  shows "sync_inv M C S (pc(t := p)) (mx(m := \<lparr>m_state = MUTEX_UNLOCKED, m_owner = 0\<rparr>)) cnt Q'"
proof (rule sync_invI)
  note D = sync_invD [OF inv] and O = objects_okD [OF obj]
  let ?mx = "mx(m := \<lparr>m_state = MUTEX_UNLOCKED, m_owner = 0\<rparr>)"
  have hm: "held ?mx m' u \<longleftrightarrow> m' \<noteq> m \<and> held mx m' u" for m' u by (auto simp: held_def)
  show "pc_ok M C S ((pc(t := p)) u)" for u using D(1) p(2) by simp
  show "held ?mx (mutex_of a) u" if "crit a ((pc(t := p)) u)" for u a
  proof -
    have u: "u \<noteq> t" "crit a (pc u)" using that p(1) by (auto split: if_splits)
    then have "held mx (mutex_of a) u" using D(2) by blast
    then show ?thesis using m(2) u(1) by (auto simp: hm held_def)
  qed
  show "\<not> held ?mx m' u" if "(pc(t := p)) u = Locking m' k'" for u m' k'
    using that D(3) p(1) by (auto simp: hm split: if_splits)
  show "\<not> held ?mx m' u" if "(pc(t := p)) u = CondWaiting c m' k'" for u c m' k'
    using that D(4) p(1) by (auto simp: hm split: if_splits)
  show "\<exists>k'. (pc(t := p)) u = Locking m' k'" if "m' \<in> M" "u \<in> set (Q' (mutex_queue m'))" for m' u
  proof -
    have "u \<in> set (Q (mutex_queue m'))" using that(2) by (auto simp: Q' split: if_splits)
    then show ?thesis using D(5) [OF that(1)] off by (cases "u = t") auto
  qed
  show "\<exists>u k'. (pc(t := p)) u = Locking m' k' \<and> u \<notin> set (Q' (mutex_queue m'))"
    if "m' \<in> M" "m_state (?mx m') = MUTEX_UNLOCKED" "Q' (mutex_queue m') \<noteq> []" for m'
  proof (cases "m' = m")
    case True
    with that(3) have "Q (mutex_queue m) \<noteq> []" by (auto simp: Q')
    then obtain u where u: "u \<in> set (Q (mutex_queue m))" "w = [u]" using w by auto
    then have "u \<noteq> t" using off by auto
    with u D(5) [OF m(1) u(1)] True show ?thesis by (auto simp: Q')
  next
    case False
    then have "m_state (mx m') = MUTEX_UNLOCKED" "Q (mutex_queue m') \<noteq> []" using that by (simp_all add: Q')
    from D(6) [OF that(1) this] obtain u k' where "pc u = Locking m' k'" "u \<notin> set (Q (mutex_queue m'))" by blast
    then show ?thesis using False t(1) by (intro exI [of _ u] exI [of _ k']) (auto simp: Q')
  qed
  show "\<exists>u. (pc(t := p)) u = VBcast a" if a: "a \<in> S" "cnt a \<noteq> 0" "Q' (cond_queue (cond_of a)) \<noteq> []" for a
  proof -
    obtain u where "pc u = VBcast a" using D(7) a O(6) [OF m(1) a(1)] by (auto simp: Q')
    then show ?thesis using t(3) by (intro exI [of _ u]) auto
  qed
  show "cnt a = 0" if "(pc(t := p)) u = PSleep a" for u a
    using that D(8) p(1) by (auto split: if_splits)
qed

text \<open>The running thread joins a condition's queue.\<close>

lemma inv_cond_wait:
  assumes inv: "sync_inv M C S pc mx cnt Q" and obj: "objects_ok M C S"
    and t: "pc t = CondWaiting c m k" and z: "\<And>a. c = cond_of a \<Longrightarrow> cnt a = 0"
    and Q': "\<And>q. is_wait_queue q \<Longrightarrow> Q' q = (if q = cond_queue c then Q q @ [t] else Q q)"
  shows "sync_inv M C S pc mx cnt Q'"
proof (rule sync_invI)
  note D = sync_invD [OF inv] and O = objects_okD [OF obj]
  have c: "c \<in> C" using D(1) [of t] t by simp
  show "pc_ok M C S (pc u)" for u by (rule D(1))
  show "crit a (pc u) \<Longrightarrow> held mx (mutex_of a) u" for u a by (rule D(2))
  show "pc u = Locking m' k' \<Longrightarrow> \<not> held mx m' u" for u m' k' by (rule D(3))
  show "pc u = CondWaiting c' m' k' \<Longrightarrow> \<not> held mx m' u" for u c' m' k' by (rule D(4))
  have mq: "Q' (mutex_queue m') = Q (mutex_queue m')" if "m' \<in> M" for m'
    using O(1) [OF that c] by (simp add: Q')
  show "\<exists>k'. pc u = Locking m' k'" if "m' \<in> M" "u \<in> set (Q' (mutex_queue m'))" for m' u
    using that D(5) by (simp add: mq)
  show "\<exists>u k'. pc u = Locking m' k' \<and> u \<notin> set (Q' (mutex_queue m'))"
    if "m' \<in> M" "m_state (mx m') = MUTEX_UNLOCKED" "Q' (mutex_queue m') \<noteq> []" for m'
    using that D(6) by (simp add: mq)
  show "\<exists>u. pc u = VBcast a" if a: "a \<in> S" "cnt a \<noteq> 0" "Q' (cond_queue (cond_of a)) \<noteq> []" for a
    using D(7) a z [of a] by (auto simp: Q' split: if_splits)
  show "pc u = PSleep a \<Longrightarrow> cnt a = 0" for u a by (rule D(8))
qed

text \<open>Threads leave a condition's queue.\<close>

lemma inv_cond_shrink:
  assumes inv: "sync_inv M C S pc mx cnt Q" and obj: "objects_ok M C S" and c: "c \<in> C"
    and Q': "\<And>q. is_wait_queue q \<Longrightarrow> q \<noteq> cond_queue c \<Longrightarrow> Q' q = Q q"
    and ne: "Q' (cond_queue c) \<noteq> [] \<Longrightarrow> Q (cond_queue c) \<noteq> []"
  shows "sync_inv M C S pc mx cnt Q'"
proof (rule sync_invI)
  note D = sync_invD [OF inv] and O = objects_okD [OF obj]
  show "pc_ok M C S (pc u)" for u by (rule D(1))
  show "crit a (pc u) \<Longrightarrow> held mx (mutex_of a) u" for u a by (rule D(2))
  show "pc u = Locking m' k' \<Longrightarrow> \<not> held mx m' u" for u m' k' by (rule D(3))
  show "pc u = CondWaiting c' m' k' \<Longrightarrow> \<not> held mx m' u" for u c' m' k' by (rule D(4))
  have mq: "Q' (mutex_queue m') = Q (mutex_queue m')" if "m' \<in> M" for m'
    using O(1) [OF that c] by (simp add: Q')
  show "\<exists>k'. pc u = Locking m' k'" if "m' \<in> M" "u \<in> set (Q' (mutex_queue m'))" for m' u
    using that D(5) by (simp add: mq)
  show "\<exists>u k'. pc u = Locking m' k' \<and> u \<notin> set (Q' (mutex_queue m'))"
    if "m' \<in> M" "m_state (mx m') = MUTEX_UNLOCKED" "Q' (mutex_queue m') \<noteq> []" for m'
    using that D(6) by (simp add: mq)
  show "\<exists>u. pc u = VBcast a" if a: "a \<in> S" "cnt a \<noteq> 0" "Q' (cond_queue (cond_of a)) \<noteq> []" for a
    using D(7) [OF a(1,2)] a(3) ne Q' [of "cond_queue (cond_of a)"] by (cases "cond_of a = c") auto
  show "pc u = PSleep a \<Longrightarrow> cnt a = 0" for u a by (rule D(8))
qed

text \<open>Only one thread is inside a semaphore.\<close>

lemma inv_exclusive:
  assumes "sync_inv M C S pc mx cnt Q" "crit a (pc t)" "crit a (pc u)"
  shows "t = u"
  using sync_invD(2) [OF assms(1) assms(2)] sync_invD(2) [OF assms(1) assms(3)] by (simp add: held_def)

text \<open>A step inside the semaphore \<open>a\<close>: from point to point, with the count changed.\<close>

lemma inv_inside:
  assumes inv: "sync_inv M C S pc mx cnt Q" and t: "crit a (pc t)" "crit a p"
    and c: "\<And>b. b \<noteq> a \<Longrightarrow> cnt' b = cnt b" and p: "p = PSleep a \<Longrightarrow> cnt' a = 0"
    and Q': "\<And>q. is_wait_queue q \<Longrightarrow> q \<noteq> cond_queue (cond_of a) \<Longrightarrow> Q' q = Q q"
    and Qa: "cnt' a \<noteq> 0 \<Longrightarrow> Q' (cond_queue (cond_of a)) \<noteq> [] \<Longrightarrow> p = VBcast a" and obj: "objects_ok M C S"
  shows "sync_inv M C S (pc(t := p)) mx cnt' Q'"
proof (rule sync_invI)
  note D = sync_invD [OF inv] and O = objects_okD [OF obj]
  have a: "a \<in> S" using D(1) [of t] t(1) by (cases "pc t") auto
  have pp: "pc_ok M C S p" "\<not> suspended p" "crit b p \<Longrightarrow> b = a" "p = VBcast b \<Longrightarrow> b = a" "p = PSleep b \<Longrightarrow> b = a" for b
    using t(2) a by (cases p; auto)+
  have pt: "\<not> suspended (pc t)" "pc t = VBcast b \<Longrightarrow> b = a" for b
    using t(1) by (cases "pc t"; auto)+
  show "pc_ok M C S ((pc(t := p)) u)" for u using D(1) pp(1) by simp
  show "held mx (mutex_of b) u" if "crit b ((pc(t := p)) u)" for u b
    using that D(2) [OF t(1)] D(2) [of b u] pp(3) by (auto split: if_splits)
  show "\<not> held mx m' u" if "(pc(t := p)) u = Locking m' k'" for u m' k'
    using that D(3) pp(2) by (auto split: if_splits)
  show "\<not> held mx m' u" if "(pc(t := p)) u = CondWaiting c m' k'" for u c m' k'
    using that D(4) pp(2) by (auto split: if_splits)
  have mq: "Q' (mutex_queue m') = Q (mutex_queue m')" if "m' \<in> M" for m'
    using O(5) [OF that a] by (simp add: Q')
  show "\<exists>k'. (pc(t := p)) u = Locking m' k'" if "m' \<in> M" "u \<in> set (Q' (mutex_queue m'))" for m' u
    using D(5) [OF that(1), of u] that(2) pt(1) by (cases "u = t") (auto simp: mq that(1))
  show "\<exists>u k'. (pc(t := p)) u = Locking m' k' \<and> u \<notin> set (Q' (mutex_queue m'))"
    if m': "m' \<in> M" "m_state (mx m') = MUTEX_UNLOCKED" "Q' (mutex_queue m') \<noteq> []" for m'
  proof -
    have "Q (mutex_queue m') \<noteq> []" using m'(3) by (simp add: mq m'(1))
    from D(6) [OF m'(1,2) this] obtain u k' where "pc u = Locking m' k'" "u \<notin> set (Q (mutex_queue m'))" by blast
    then show ?thesis using pt(1) by (intro exI [of _ u] exI [of _ k']) (auto simp: mq m'(1))
  qed
  show "\<exists>u. (pc(t := p)) u = VBcast b" if b: "b \<in> S" "cnt' b \<noteq> 0" "Q' (cond_queue (cond_of b)) \<noteq> []" for b
  proof (cases "b = a")
    case True
    then show ?thesis using Qa b by (intro exI [of _ t]) simp
  next
    case False
    then obtain u where "pc u = VBcast b" using D(7) [OF b(1)] b(2,3) c [of b] Q' by auto
    then show ?thesis using pt(2) [of b] False by (intro exI [of _ u]) auto
  qed
  show "cnt' b = 0" if "(pc(t := p)) u = PSleep b" for u b
  proof (cases "u = t")
    case True
    then show ?thesis using that pp(5) p by auto
  next
    case False
    then have "pc u = PSleep b" using that by simp
    moreover from this have "b \<noteq> a" using inv_exclusive [OF inv t(1), of u] False by auto
    ultimately show ?thesis using D(8) c by simp
  qed
qed

section \<open>The operations\<close>

definition sinv0 :: "u32 set \<Rightarrow> u32 set \<Rightarrow> u32 set \<Rightarrow> sync \<Rightarrow> bool" where
  "sinv0 M C S s \<longleftrightarrow> objects_ok M C S \<and> set (semaList s) = S \<and> kinv (ks s) \<and>
     sync_inv M C S (pcs s) (mtx s) (\<lambda>a. sm_count (sems s a)) (queues (ks s)) \<and>
     (\<forall>t. pcs s t \<noteq> Ready \<longrightarrow> priority (thr (ks s) t) \<noteq> PRIORITY_IDLE)"

definition sinv :: "u32 set \<Rightarrow> u32 set \<Rightarrow> u32 set \<Rightarrow> sync \<Rightarrow> bool" where
  "sinv M C S s \<longleftrightarrow> sinv0 M C S s \<and> \<not> g_preemptionDisabled (ks s)"

lemma sync_sel_simps [simp]:
  "mtx (set_preempt b s) = mtx s" "sems (set_preempt b s) = sems s" "semaList (set_preempt b s) = semaList s"
  "pcs (set_preempt b s) = pcs s" "ks (set_preempt b s) = (ks s)\<lparr>g_preemptionDisabled := b\<rparr>"
  "mtx (set_pc t p s) = mtx s" "sems (set_pc t p s) = sems s" "semaList (set_pc t p s) = semaList s"
  "pcs (set_pc t p s) = (pcs s)(t := p)" "ks (set_pc t p s) = ks s"
  "mtx (set_mutex m x s) = (mtx s)(m := x)" "sems (set_mutex m x s) = sems s" "semaList (set_mutex m x s) = semaList s"
  "pcs (set_mutex m x s) = pcs s" "ks (set_mutex m x s) = ks s"
  by (simp_all add: set_preempt_def set_pc_def set_mutex_def)

lemma onk_flags [simp]:
  "onk Disable_Interrupts s = (if int_flag (ks s) then Some (s\<lparr>ks := (ks s)\<lparr>int_flag := False\<rparr>\<rparr>) else None)"
  "onk Enable_Interrupts s = (if int_flag (ks s) then None else Some (s\<lparr>ks := (ks s)\<lparr>int_flag := True\<rparr>\<rparr>))"
  by (simp_all add: onk_def)

lemma IS_HELD_eq: "IS_HELD m s \<longleftrightarrow> held (mtx s) m (cur s)"
  by (simp add: IS_HELD_def held_def)

text \<open>The running thread has joined the queue \<open>q\<close> and another thread runs.\<close>

definition switched :: "qid \<Rightarrow> sync \<Rightarrow> sync \<Rightarrow> bool" where
  "switched q s s' \<longleftrightarrow> mtx s' = mtx s \<and> sems s' = sems s \<and> semaList s' = semaList s \<and> pcs s' = pcs s \<and>
     kinv (ks s') \<and> \<not> g_preemptionDisabled (ks s') \<and> \<not> int_flag (ks s') \<and>
     (\<forall>u. priority (thr (ks s') u) = priority (thr (ks s) u)) \<and>
     (\<forall>q'. is_wait_queue q' \<longrightarrow>
        queues (ks s') q' = (if q' = q then queues (ks s) q' @ [cur s] else queues (ks s) q'))"

lemma onk_Wait:
  assumes "kinv (ks s)" "\<not> int_flag (ks s)" "\<not> g_preemptionDisabled (ks s)" "is_wait_queue q"
    "priority (thr (ks s) (cur s)) \<noteq> PRIORITY_IDLE"
  shows "\<exists>s'. onk (Wait q) s = Some s' \<and> switched q s s'"
proof -
  obtain k where k: "Wait q (ks s) = Some k" "kinv k" "\<not> int_flag k" "queues k q = queues (ks s) q @ [cur s]"
    "\<not> g_preemptionDisabled k" "\<forall>u. priority (thr k u) = priority (thr (ks s) u)"
    "\<And>q'. (\<forall>i. q' \<noteq> RunQ i) \<Longrightarrow> q' \<noteq> q \<Longrightarrow> queues k q' = queues (ks s) q'"
    using Wait_kinv [OF assms] by blast
  have "queues k q' = queues (ks s) q'" if "is_wait_queue q'" "q' \<noteq> q" for q'
    using k(7) [of q'] that by (cases q') auto
  with k show ?thesis by (intro exI [of _ "s\<lparr>ks := k\<rparr>"]) (simp add: onk_def switched_def)
qed

text \<open>The threads \<open>w\<close> have left the queue \<open>q\<close>, with interrupts disabled meanwhile.\<close>

definition woke :: "qid \<Rightarrow> u32 list \<Rightarrow> sync \<Rightarrow> sync \<Rightarrow> bool" where
  "woke q w s s' \<longleftrightarrow> mtx s' = mtx s \<and> sems s' = sems s \<and> semaList s' = semaList s \<and> pcs s' = pcs s \<and>
     kinv (ks s') \<and> cur s' = cur s \<and> g_preemptionDisabled (ks s') = g_preemptionDisabled (ks s) \<and>
     int_flag (ks s') \<and> (\<forall>u. priority (thr (ks s') u) = priority (thr (ks s) u)) \<and>
     (\<forall>q'. is_wait_queue q' \<longrightarrow>
        queues (ks s') q' = (if q' = q then filter (\<lambda>u. u \<notin> set w) (queues (ks s) q') else queues (ks s) q'))"

definition with_wake :: "(kstate \<Rightarrow> kstate kres) \<Rightarrow> sync \<Rightarrow> sync kres" where
  "with_wake f s = do {
     s \<leftarrow> onk Disable_Interrupts s;
     s \<leftarrow> onk f s;
     onk Enable_Interrupts s }"

lemma wake_frame_wokeI:
  assumes inv: "kinv (ks s)" and IF: "int_flag (ks s)" and q: "is_wait_queue q" and f: "f ((ks s)\<lparr>int_flag := False\<rparr>) = Some k"
    and F: "wake_frame W ((ks s)\<lparr>int_flag := False\<rparr>) k" and W: "cur s \<notin> W"
    and Q: "queues k q = filter (\<lambda>u. u \<notin> set w) (queues (ks s) q)"
    and other: "\<And>q'. (\<forall>i. q' \<noteq> RunQ i) \<Longrightarrow> q' \<noteq> q \<Longrightarrow> queues k q' = queues (ks s) q'"
  shows "\<exists>s'. with_wake f s = Some s' \<and> woke q w s s'"
proof -
  note D = wake_frameD [OF F]
  have k: "kinv k" using kinv_wake [OF _ F] inv W by simp
  have o: "queues k q' = queues (ks s) q'" if "is_wait_queue q'" "q' \<noteq> q" for q'
    using other [of q'] that by (cases q') auto
  have "with_wake f s = Some (s\<lparr>ks := k\<lparr>int_flag := True\<rparr>\<rparr>)"
    using IF f D(2) by (simp add: with_wake_def) (simp add: onk_def)
  then show ?thesis
    using k D(4,6,10) o Q by (intro exI [of _ "s\<lparr>ks := k\<lparr>int_flag := True\<rparr>\<rparr>"]) (simp add: woke_def)
qed

lemma wake_one_woke:
  assumes inv: "kinv (ks s)" and IF: "int_flag (ks s)" and q: "is_wait_queue q"
  shows "\<exists>w s'. with_wake (Wake_Up_One q) s = Some s' \<and> woke q w s s' \<and>
    (queues (ks s) q = [] \<and> w = [] \<or> (\<exists>u. u \<in> set (queues (ks s) q) \<and> w = [u]))"
proof -
  let ?k = "(ks s)\<lparr>int_flag := False\<rparr>"
  have k: "sched_ok ?k" "\<not> int_flag ?k" using kinv_current(1) [OF inv] by simp_all
  have cur: "cur s \<notin> set (queues (ks s) q)" using kinv_current(3) [OF inv] by (simp add: off_queues_def)
  from Wake_Up_One_ok [OF k(1) q k(2)] show ?thesis
  proof (elim disjE exE conjE)
    assume a: "queues ?k q = []" "Wake_Up_One q ?k = Some ?k"
    have "wake_frame {} ?k ?k" using k(1) by (simp add: wake_frame_def)
    from wake_frame_wokeI [where w = "[]" and f = "Wake_Up_One q", OF inv IF q a(2) this] a(1) show ?thesis by auto
  next
    fix t k'
    assume a: "first_best ?k (queues ?k q) t" "Wake_Up_One q ?k = Some k'" "wake_frame {t} ?k k'"
      "queues k' q = remove1 t (queues ?k q)"
      "\<forall>q'. (\<forall>i. q' \<noteq> RunQ i) \<longrightarrow> q' \<noteq> q \<longrightarrow> queues k' q' = queues ?k q'"
    have t: "t \<in> set (queues (ks s) q)" using first_best_mem [OF a(1)] by simp
    have "queues k' q = filter (\<lambda>u. u \<notin> set [t]) (queues (ks s) q)"
      using a(4) sched_okD(1) [OF k(1), of q] by (auto simp: distinct_remove1_removeAll removeAll_filter_not_eq intro!: filter_cong)
    moreover have "cur s \<notin> {t}" using cur t by auto
    ultimately obtain s' where "with_wake (Wake_Up_One q) s = Some s'" "woke q [t] s s'"
      using wake_frame_wokeI [where w = "[t]" and f = "Wake_Up_One q", OF inv IF q a(2,3)] a(5) by auto
    with t show ?thesis by blast
  qed
qed

lemma wake_all_woke:
  assumes inv: "kinv (ks s)" and IF: "int_flag (ks s)" and q: "is_wait_queue q"
  shows "\<exists>s'. with_wake (Wake_Up q) s = Some s' \<and> woke q (queues (ks s) q) s s'"
proof -
  let ?k = "(ks s)\<lparr>int_flag := False\<rparr>"
  have k: "sched_ok ?k" "\<not> int_flag ?k" using kinv_current(1) [OF inv] by simp_all
  have cur: "cur s \<notin> set (queues ?k q)" using kinv_current(3) [OF inv] by (simp add: off_queues_def)
  obtain k' where k': "Wake_Up q ?k = Some k'" "wake_frame (set (queues ?k q)) ?k k'" "queues k' q = []"
    "\<And>q'. (\<forall>i. q' \<noteq> RunQ i) \<Longrightarrow> q' \<noteq> q \<Longrightarrow> queues k' q' = queues ?k q'"
    using Wake_Up_ok [OF k(1) q k(2)] by blast
  have "queues k' q = filter (\<lambda>u. u \<notin> set (queues (ks s) q)) (queues (ks s) q)"
    by (simp add: k'(3))
  from wake_frame_wokeI [where f = "Wake_Up q", OF inv IF q k'(1,2) cur this] k'(4) show ?thesis by simp
qed

text \<open>Acquiring a mutex, from its loop.\<close>

lemma lock_loop_ok:
  assumes inv: "sinv0 M C S s" and P: "g_preemptionDisabled (ks s)" "int_flag (ks s)"
    and m: "m \<in> M" "\<not> IS_HELD m s" and k: "after_lock S m k"
    and t: "pcs s (cur s) = Ready \<or> suspended (pcs s (cur s))" "\<And>m' k'. pcs s (cur s) = Locking m' k' \<Longrightarrow> m' = m"
    and nidle: "priority (thr (ks s) (cur s)) \<noteq> PRIORITY_IDLE"
  shows "\<exists>s'. lock_loop m k s = Some s' \<and> sinv M C S s'"
proof -
  from inv have obj: "objects_ok M C S" and S: "set (semaList s) = S" and ki: "kinv (ks s)"
    and si: "sync_inv M C S (pcs s) (mtx s) (\<lambda>a. sm_count (sems s a)) (queues (ks s))"
    and pr: "\<And>t. pcs s t \<noteq> Ready \<Longrightarrow> priority (thr (ks s) t) \<noteq> 0" by (auto simp: sinv0_def)
  have off: "\<And>q. cur s \<notin> set (queues (ks s) q)" using kinv_current(3) [OF ki] by (simp add: off_queues_def)
  show ?thesis
  proof (cases "m_state (mtx s m) = MUTEX_LOCKED")
    case True
    let ?d = "set_preempt False (s\<lparr>ks := (ks s)\<lparr>int_flag := False\<rparr>\<rparr>)"
    obtain s1 where s1: "onk (Wait (mutex_queue m)) ?d = Some s1" "switched (mutex_queue m) ?d s1"
      using onk_Wait [of ?d "mutex_queue m"] ki nidle by auto
    have run: "lock_loop m k s = Some (set_pc (cur s) (Locking m k) s1)"
      using True P s1(1) by (simp add: lock_loop_def Mutex_Wait_def Let_def)
    have "sync_inv M C S ((pcs s)(cur s := Locking m k)) (mtx s) (\<lambda>a. sm_count (sems s a)) (queues (ks s1))"
      by (rule inv_block [OF si obj m(1) True _ k t off]) (use m(2) s1(2) in \<open>auto simp: IS_HELD_eq switched_def\<close>)
    then have "sinv M C S (set_pc (cur s) (Locking m k) s1)"
      using obj S s1(2) nidle pr by (auto simp: sinv_def sinv0_def switched_def)
    with run show ?thesis by blast
  next
    case False
    then have un: "m_state (mtx s m) = MUTEX_UNLOCKED" by (cases "m_state (mtx s m)") auto
    let ?s = "set_pc (cur s) k (set_preempt False (set_mutex m \<lparr>m_state = MUTEX_LOCKED, m_owner = cur s\<rparr> s))"
    have "sinv M C S ?s"
      using inv_acquire [OF si m(1) un k t off] obj S ki nidle pr by (auto simp: sinv_def sinv0_def)
    with False show ?thesis by (simp add: lock_loop_def)
  qed
qed

lemma sinv0_flags [simp]:
  "sinv0 M C S (set_preempt b s) = sinv0 M C S s" "sinv0 M C S (s\<lparr>ks := (ks s)\<lparr>int_flag := b\<rparr>\<rparr>) = sinv0 M C S s"
  by (simp_all add: sinv0_def)

lemma Mutex_Lock_ok:
  assumes inv: "sinv M C S s" and IF: "int_flag (ks s)" and m: "m \<in> M" "\<not> IS_HELD m s" and k: "after_lock S m k"
    and t: "pcs s (cur s) = Ready" and nidle: "priority (thr (ks s) (cur s)) \<noteq> PRIORITY_IDLE"
  shows "\<exists>s'. Mutex_Lock m k s = Some s' \<and> sinv M C S s'"
proof -
  have h: "IS_HELD m (set_preempt True s) = IS_HELD m s" by (simp add: IS_HELD_def)
  have "sinv0 M C S (set_preempt True s)" using inv by (simp add: sinv_def)
  from lock_loop_ok [OF this _ _ m(1) _ k] IF m(2) t nidle h show ?thesis
    by (simp add: Mutex_Lock_def Mutex_Lock_Imp_def)
qed

lemma suspended_not_held:
  assumes "sinv0 M C S s" "pcs s t = Locking m k \<or> pcs s t = CondWaiting c m k"
  shows "\<not> held (mtx s) m t"
proof -
  from assms(1) have si: "sync_inv M C S (pcs s) (mtx s) (\<lambda>a. sm_count (sems s a)) (queues (ks s))"
    by (simp add: sinv0_def)
  show ?thesis using assms(2) sync_invD(3,4) [OF si, of t] by blast
qed

text \<open>A suspended thread goes on: its assertions hold.\<close>

lemma resume_ok:
  assumes inv: "sinv M C S s" and IF: "\<not> int_flag (ks s)" and p: "suspended (pcs s (cur s))"
  shows "\<exists>s'. go_on (pcs s (cur s)) s = Some s' \<and> sinv M C S s'"
proof -
  let ?u = "s\<lparr>ks := (ks s)\<lparr>g_preemptionDisabled := True, int_flag := True\<rparr>\<rparr>"
  have u: "onk Enable_Interrupts (set_preempt True s) = Some ?u" using IF by (simp add: set_preempt_def)
  have inv0: "sinv0 M C S s" using inv by (simp add: sinv_def)
  then have iu: "sinv0 M C S ?u" by (simp add: sinv0_def)
  have pk: "pc_ok M C S (pcs s (cur s))" using inv0 sync_invD(1) unfolding sinv0_def by blast
  have np: "priority (thr (ks s) (cur s)) \<noteq> 0" using inv0 p unfolding sinv0_def by (metis suspended_simps(3))
  from p consider m k where "pcs s (cur s) = Locking m k" | c m k where "pcs s (cur s) = CondWaiting c m k"
    by (auto simp: suspended_def)
  then show ?thesis
  proof cases
    case 1
    have nh: "\<not> IS_HELD m ?u" using suspended_not_held [OF inv0, of "cur s" m k] 1 by (simp add: IS_HELD_eq)
    have "m \<in> M" "after_lock S m k" using pk 1 by auto
    then have "\<exists>s'. lock_loop m k ?u = Some s' \<and> sinv M C S s'"
      by (intro lock_loop_ok [OF iu _ _ _ nh]) (simp_all add: 1 np)
    then show ?thesis using u by (simp add: 1 Mutex_Resume_def)
  next
    case 2
    have nh: "\<not> IS_HELD m ?u" using suspended_not_held [OF inv0, of "cur s" m k c] 2 by (simp add: IS_HELD_eq)
    have "m \<in> M" "after_lock S m k" using pk 2 by (auto simp: after_lock_def)
    then have "\<exists>s'. lock_loop m k ?u = Some s' \<and> sinv M C S s'"
      by (intro lock_loop_ok [OF iu _ _ _ nh]) (simp_all add: 2 np)
    then show ?thesis using u nh by (simp add: 2 Cond_Resume_def Mutex_Lock_Imp_def)
  qed
qed

text \<open>Unlocking.\<close>

lemma Mutex_Unlock_Imp_effect:
  assumes "kinv (ks s)" "int_flag (ks s)" "g_preemptionDisabled (ks s)" "IS_HELD m s"
  shows "\<exists>w s'. Mutex_Unlock_Imp m s = Some s' \<and>
    woke (mutex_queue m) w (set_mutex m \<lparr>m_state = MUTEX_UNLOCKED, m_owner = 0\<rparr> s) s' \<and>
    (queues (ks s) (mutex_queue m) = [] \<and> w = [] \<or> (\<exists>u. u \<in> set (queues (ks s) (mutex_queue m)) \<and> w = [u]))"
proof -
  let ?s = "set_mutex m \<lparr>m_state = MUTEX_UNLOCKED, m_owner = 0\<rparr> s"
  show ?thesis
  proof (cases "queues (ks s) (mutex_queue m) = []")
    case True
    have "woke (mutex_queue m) [] ?s ?s" using assms(1,2) by (simp add: woke_def)
    moreover have "Mutex_Unlock_Imp m s = Some ?s" using True assms by (simp add: Mutex_Unlock_Imp_def Let_def)
    ultimately show ?thesis using True by blast
  next
    case False
    have "Mutex_Unlock_Imp m s = with_wake (Wake_Up_One (mutex_queue m)) ?s"
      using False assms by (simp add: Mutex_Unlock_Imp_def with_wake_def Let_def del: onk_flags)
    then show ?thesis using wake_one_woke [of ?s "mutex_queue m"] assms(1,2) by simp
  qed
qed

lemma unlocked_sinv0:
  assumes inv: "sinv0 M C S s" and h: "IS_HELD m s" and m: "m \<in> M"
    and p: "p = Ready \<or> (\<exists>c k. p = CondWaiting c m k)" "pc_ok M C S p"
    and t: "\<not> suspended (pcs s (cur s))" "\<And>a. crit a (pcs s (cur s)) \<Longrightarrow> m = mutex_of a" "\<And>a. pcs s (cur s) \<noteq> VBcast a"
    and np: "p = Ready \<or> priority (thr (ks s) (cur s)) \<noteq> PRIORITY_IDLE"
    and w: "woke (mutex_queue m) w (set_mutex m \<lparr>m_state = MUTEX_UNLOCKED, m_owner = 0\<rparr> s) s'"
      "queues (ks s) (mutex_queue m) = [] \<and> w = [] \<or> (\<exists>u. u \<in> set (queues (ks s) (mutex_queue m)) \<and> w = [u])"
  shows "sinv0 M C S (set_pc (cur s) p s')"
proof -
  from inv have obj: "objects_ok M C S" and S: "set (semaList s) = S" and ki: "kinv (ks s)"
    and si: "sync_inv M C S (pcs s) (mtx s) (\<lambda>a. sm_count (sems s a)) (queues (ks s))"
    and pr: "\<And>t. pcs s t \<noteq> Ready \<Longrightarrow> priority (thr (ks s) t) \<noteq> 0" by (auto simp: sinv0_def)
  have off: "\<And>q. cur s \<notin> set (queues (ks s) q)" using kinv_current(3) [OF ki] by (simp add: off_queues_def)
  have dist: "distinct (queues (ks s) (mutex_queue m))" using sched_okD(1) [OF kinv_current(1) [OF ki]] .
  have "sync_inv M C S ((pcs s)(cur s := p)) ((mtx s)(m := \<lparr>m_state = MUTEX_UNLOCKED, m_owner = 0\<rparr>))
      (\<lambda>a. sm_count (sems s a)) (queues (ks s'))"
    by (rule inv_unlock [OF si obj m h [unfolded IS_HELD_eq] p t off dist w(2)]) (use w(1) in \<open>simp_all add: woke_def\<close>)
  then show ?thesis using obj S w(1) np pr by (auto simp: sinv0_def woke_def)
qed

lemma Mutex_Unlock_ok:
  assumes inv: "sinv M C S s" and IF: "int_flag (ks s)" and h: "IS_HELD m s" and m: "m \<in> M"
    and t: "\<not> suspended (pcs s (cur s))" "\<And>a. crit a (pcs s (cur s)) \<Longrightarrow> m = mutex_of a" "\<And>a. pcs s (cur s) \<noteq> VBcast a"
  shows "\<exists>s'. Mutex_Unlock m s = Some s' \<and> sinv M C S (set_pc (cur s) Ready s') \<and> int_flag (ks s') \<and>
    cur s' = cur s \<and> pcs s' = pcs s"
proof -
  let ?u = "set_preempt True s"
  have u: "sinv0 M C S ?u" "kinv (ks ?u)" "int_flag (ks ?u)" "g_preemptionDisabled (ks ?u)" "IS_HELD m ?u"
    using inv IF h by (simp_all add: sinv_def sinv0_def IS_HELD_def)
  obtain w s1 where s1: "Mutex_Unlock_Imp m ?u = Some s1"
    "woke (mutex_queue m) w (set_mutex m \<lparr>m_state = MUTEX_UNLOCKED, m_owner = 0\<rparr> ?u) s1"
    "queues (ks ?u) (mutex_queue m) = [] \<and> w = [] \<or> (\<exists>x. x \<in> set (queues (ks ?u) (mutex_queue m)) \<and> w = [x])"
    using Mutex_Unlock_Imp_effect [OF u(2-5)] by blast
  have "sinv0 M C S (set_pc (cur ?u) Ready s1)"
    by (rule unlocked_sinv0 [OF u(1,5) m _ _ _ _ _ _ s1(2,3)]) (use t in simp_all)
  then have "sinv M C S (set_pc (cur s) Ready (set_preempt False s1))"
    by (simp add: sinv_def sinv0_def)
  then show ?thesis using s1(1,2) IF by (intro exI [of _ "set_preempt False s1"]) (simp add: Mutex_Unlock_def woke_def)
qed

lemma Cond_Wait_ok:
  assumes inv: "sinv M C S s" and IF: "int_flag (ks s)" and h: "IS_HELD m s" and p: "pc_ok M C S (CondWaiting c m k)"
    and t: "\<not> suspended (pcs s (cur s))" "\<And>a. crit a (pcs s (cur s)) \<Longrightarrow> m = mutex_of a" "\<And>a. pcs s (cur s) \<noteq> VBcast a"
    and z: "\<And>a. c = cond_of a \<Longrightarrow> sm_count (sems s a) = 0"
    and nidle: "priority (thr (ks s) (cur s)) \<noteq> PRIORITY_IDLE"
  shows "\<exists>s'. Cond_Wait c m k s = Some s' \<and> sinv M C S s'"
proof -
  let ?u = "set_preempt True s" and ?p = "CondWaiting c m k"
  have u: "sinv0 M C S ?u" "kinv (ks ?u)" "int_flag (ks ?u)" "g_preemptionDisabled (ks ?u)" "IS_HELD m ?u"
    using inv IF h by (simp_all add: sinv_def sinv0_def IS_HELD_def)
  obtain w s1 where s1: "Mutex_Unlock_Imp m ?u = Some s1"
    "woke (mutex_queue m) w (set_mutex m \<lparr>m_state = MUTEX_UNLOCKED, m_owner = 0\<rparr> ?u) s1"
    "queues (ks ?u) (mutex_queue m) = [] \<and> w = [] \<or> (\<exists>x. x \<in> set (queues (ks ?u) (mutex_queue m)) \<and> w = [x])"
    using Mutex_Unlock_Imp_effect [OF u(2-5)] by blast
  have mM: "m \<in> M" using p by simp
  have i1: "sinv0 M C S (set_pc (cur ?u) ?p s1)"
    by (rule unlocked_sinv0 [OF u(1,5) mM _ p _ _ _ _ s1(2,3)]) (use t nidle in auto)
  let ?d = "set_preempt False (s1\<lparr>ks := (ks s1)\<lparr>int_flag := False\<rparr>\<rparr>)"
  have d: "kinv (ks s1)" "cur s1 = cur s" "int_flag (ks s1)" "priority (thr (ks s1) (cur s)) \<noteq> 0" "sems s1 = sems s"
    using s1(2) nidle by (simp_all add: woke_def)
  obtain s2 where s2: "onk (Wait (cond_queue c)) ?d = Some s2" "switched (cond_queue c) ?d s2"
    using onk_Wait [of ?d "cond_queue c"] d by auto
  have run: "Cond_Wait c m k s = Some (set_pc (cur s) ?p s2)"
    using IF h s1(1) d(3) s2(1) by (simp add: Cond_Wait_def Let_def)
  from i1 have si: "sync_inv M C S ((pcs s1)(cur s := ?p)) (mtx s1) (\<lambda>a. sm_count (sems s1 a)) (queues (ks s1))"
    and obj: "objects_ok M C S" and S: "set (semaList s1) = S"
    and pr: "\<And>t. ((pcs s1)(cur s := ?p)) t \<noteq> Ready \<Longrightarrow> priority (thr (ks s1) t) \<noteq> 0"
    by (auto simp: sinv0_def split: if_splits)
  have "sync_inv M C S ((pcs s1)(cur s := ?p)) (mtx s1) (\<lambda>a. sm_count (sems s1 a)) (queues (ks s2))"
    by (rule inv_cond_wait [OF si obj, of "cur s" c m k]) (use z d(2,5) s2(2) in \<open>simp_all add: switched_def\<close>)
  then have "sinv M C S (set_pc (cur s) ?p s2)"
    using obj S pr s2(2) by (auto simp: sinv_def sinv0_def switched_def)
  with run show ?thesis by blast
qed

lemma Cond_wake_ok:
  assumes inv: "sinv M C S s" and IF: "int_flag (ks s)" and c: "c \<in> C"
    and f: "f = Wake_Up_One (cond_queue c) \<or> f = Wake_Up (cond_queue c)"
  shows "\<exists>w s'. with_wake f s = Some s' \<and> sinv M C S s' \<and> woke (cond_queue c) w s s' \<and>
    (f = Wake_Up (cond_queue c) \<longrightarrow> w = queues (ks s) (cond_queue c))"
proof -
  from inv have obj: "objects_ok M C S" and S: "set (semaList s) = S" and ki: "kinv (ks s)"
    and si: "sync_inv M C S (pcs s) (mtx s) (\<lambda>a. sm_count (sems s a)) (queues (ks s))"
    and pr: "\<And>t. pcs s t \<noteq> Ready \<Longrightarrow> priority (thr (ks s) t) \<noteq> 0" by (auto simp: sinv_def sinv0_def)
  have keep: "sinv M C S s'" if w: "woke (cond_queue c) w s s'" for w s'
  proof -
    have "sync_inv M C S (pcs s) (mtx s) (\<lambda>a. sm_count (sems s a)) (queues (ks s'))"
      by (rule inv_cond_shrink [OF si obj c]) (use w in \<open>auto simp: woke_def\<close>)
    then show ?thesis using inv w obj S pr by (auto simp: sinv_def sinv0_def woke_def)
  qed
  show ?thesis
  proof (cases "f = Wake_Up (cond_queue c)")
    case True
    then show ?thesis using wake_all_woke [of s "cond_queue c"] ki IF keep by auto
  next
    case False
    then show ?thesis using f wake_one_woke [of s "cond_queue c"] ki IF keep by fastforce
  qed
qed

lemma Cond_Signal_eq: "int_flag (ks s) \<Longrightarrow> Cond_Signal c s = with_wake (Wake_Up_One (cond_queue c)) s"
  by (simp add: Cond_Signal_def with_wake_def)

lemma Cond_Broadcast_eq: "int_flag (ks s) \<Longrightarrow> Cond_Broadcast c s = with_wake (Wake_Up (cond_queue c)) s"
  by (simp add: Cond_Broadcast_def with_wake_def)

text \<open>A thread inside a semaphore goes on: its assertions hold.\<close>

lemma crit_go_on:
  assumes inv: "sinv M C S s" and IF: "int_flag (ks s)" and a: "crit a (pcs s (cur s))"
  shows "\<exists>s'. go_on (pcs s (cur s)) s = Some s' \<and> sinv M C S s'"
proof -
  from inv have obj: "objects_ok M C S" and S: "set (semaList s) = S" and ki: "kinv (ks s)"
    and si: "sync_inv M C S (pcs s) (mtx s) (\<lambda>a. sm_count (sems s a)) (queues (ks s))"
    and pr: "\<And>t. pcs s t \<noteq> Ready \<Longrightarrow> priority (thr (ks s) t) \<noteq> 0" and np: "\<not> g_preemptionDisabled (ks s)"
    by (auto simp: sinv_def sinv0_def)
  note D = sync_invD [OF si] and O = objects_okD [OF obj]
  have h: "IS_HELD (mutex_of a) s" using D(2) [OF a] by (simp add: IS_HELD_eq)
  have aS: "a \<in> S" using D(1) [of "cur s"] a by (cases "pcs s (cur s)") auto
  have nidle: "priority (thr (ks s) (cur s)) \<noteq> 0" using pr [of "cur s"] a by (cases "pcs s (cur s)") auto
  have cu: "crit b (pcs s (cur s)) \<Longrightarrow> mutex_of a = mutex_of b" for b using a by (cases "pcs s (cur s)") auto
  have ns: "\<not> suspended (pcs s (cur s))" using a by (cases "pcs s (cur s)") auto
  note inside = inv_inside [OF si a, OF _ _ _ _ _ obj]
  have fin: "\<exists>s'. PV_end a s = Some s' \<and> sinv M C S s'" if nb: "\<And>b. pcs s (cur s) \<noteq> VBcast b"
  proof -
    obtain s1 where s1: "Mutex_Unlock (mutex_of a) s = Some s1" "sinv M C S (set_pc (cur s) Ready s1)"
      "int_flag (ks s1)" "cur s1 = cur s" "pcs s1 = pcs s"
      using Mutex_Unlock_ok [OF inv IF h O(3) [OF aS] ns cu nb] by blast
    have "PV_end a s = Some (set_pc (cur s) Ready (s1\<lparr>ks := (ks s1)\<lparr>int_flag := False\<rparr>\<rparr>))"
      using s1 by (simp add: PV_end_def)
    moreover have "sinv M C S (set_pc (cur s) Ready (s1\<lparr>ks := (ks s1)\<lparr>int_flag := False\<rparr>\<rparr>))"
      using s1(2) by (simp add: sinv_def sinv0_def)
    ultimately show ?thesis by blast
  qed
  have step: "sinv M C S (set_pc (cur s) p (s\<lparr>sems := ss\<rparr>))"
    if "crit a p" "\<And>b. b \<noteq> a \<Longrightarrow> sm_count (ss b) = sm_count (sems s b)" "p = PSleep a \<Longrightarrow> sm_count (ss a) = 0"
      "sm_count (ss a) \<noteq> 0 \<Longrightarrow> queues (ks s) (cond_queue (cond_of a)) \<noteq> [] \<Longrightarrow> p = VBcast a" for p ss
    using inside [of p "\<lambda>b. sm_count (ss b)" "queues (ks s)"] that obj S ki np pr nidle
    by (auto simp: sinv_def sinv0_def)
  have noq: "queues (ks s) (cond_queue (cond_of a)) = []" if ne: "sm_count (sems s a) \<noteq> 0" "\<And>b. pcs s (cur s) \<noteq> VBcast b"
  proof (rule ccontr)
    assume "queues (ks s) (cond_queue (cond_of a)) \<noteq> []"
    then obtain u where u: "pcs s u = VBcast a" using D(7) [OF aS ne(1)] by auto
    then have "u = cur s" using inv_exclusive [OF si a, of u] by simp
    with u ne(2) show False by auto
  qed
  from a consider "pcs s (cur s) = PTest a" | "pcs s (cur s) = PSleep a" | "pcs s (cur s) = PUnlock a \<or> pcs s (cur s) = VUnlock a"
    | "pcs s (cur s) = VInc a" | "pcs s (cur s) = VBcast a" by (cases "pcs s (cur s)") auto
  then show ?thesis
  proof cases
    case 1
    have "sinv M C S (P_test a s)"
    proof (cases "sm_count (sems s a) = 0")
      case True
      then show ?thesis using step [of "PSleep a" "sems s"] by (simp add: P_test_def)
    next
      case False
      then show ?thesis using noq 1 by (simp add: P_test_def) (rule step; simp)
    qed
    with 1 show ?thesis by simp
  next
    case 2
    have "\<exists>s'. Cond_Wait (cond_of a) (mutex_of a) (PTest a) s = Some s' \<and> sinv M C S s'"
      by (rule Cond_Wait_ok [OF inv IF h]) (use 2 aS O(3,4) D(8) nidle in auto)
    with 2 show ?thesis by (simp add: P_sleep_def)
  next
    case 3
    with fin show ?thesis by auto
  next
    case 4
    have "sinv M C S (V_inc a s)" unfolding V_inc_def by (rule step) simp_all
    with 4 show ?thesis by simp
  next
    case 5
    obtain s1 where s1: "with_wake (Wake_Up (cond_queue (cond_of a))) s = Some s1" "sinv M C S s1"
      "woke (cond_queue (cond_of a)) (queues (ks s) (cond_queue (cond_of a))) s s1"
      using Cond_wake_ok [OF inv IF O(4) [OF aS], of "Wake_Up (cond_queue (cond_of a))"] by auto
    have q: "queues (ks s1) (cond_queue (cond_of a)) = []" using s1(3) by (simp add: woke_def)
    have "sync_inv M C S ((pcs s)(cur s := VUnlock a)) (mtx s) (\<lambda>a. sm_count (sems s a)) (queues (ks s1))"
      by (rule inside) (use s1(3) q in \<open>simp_all add: woke_def\<close>)
    then have "sinv M C S (set_pc (cur s) (VUnlock a) s1)"
      using s1(2,3) nidle by (auto simp: sinv_def sinv0_def woke_def)
    with 5 s1(1,3) IF show ?thesis by (simp add: V_broadcast_def Cond_Broadcast_eq woke_def)
  qed
qed

section \<open>The running system\<close>

text \<open>
  The steps of the threads: switching (a yield, or the timer's preemption), returning from an
  interrupt or entering a system call, going on inside an operation of this module, and
  calling one.  Idle threads call none.  \<open>P\<close> and \<open>V\<close> return only when \<open>go_on\<close> has led the
  thread back to \<open>Ready\<close>.  A condition of a semaphore is waited on by \<open>P\<close> alone.
\<close>

definition calls :: "sync \<Rightarrow> bool" where
  "calls s \<longleftrightarrow> pcs s (cur s) = Ready \<and> priority (thr (ks s) (cur s)) \<noteq> PRIORITY_IDLE"

inductive sreach :: "u32 set \<Rightarrow> u32 set \<Rightarrow> u32 set \<Rightarrow> sync \<Rightarrow> bool" for M C S where
  init: "objects_ok M C S \<Longrightarrow> set (semaList s) = S \<Longrightarrow> kinv (ks s) \<Longrightarrow> \<not> g_preemptionDisabled (ks s) \<Longrightarrow>
    (\<And>t. pcs s t = Ready) \<Longrightarrow> (\<And>m. m \<in> M \<Longrightarrow> queues (ks s) (mutex_queue m) = []) \<Longrightarrow>
    (\<And>a. a \<in> S \<Longrightarrow> queues (ks s) (cond_queue (cond_of a)) = []) \<Longrightarrow> sreach M C S s"
| switch: "sreach M C S s \<Longrightarrow> \<not> suspended (pcs s (cur s)) \<Longrightarrow> onk Yield s = Some s' \<Longrightarrow> sreach M C S s'"
| sti: "sreach M C S s \<Longrightarrow> \<not> suspended (pcs s (cur s)) \<Longrightarrow> sreach M C S (s\<lparr>ks := (ks s)\<lparr>int_flag := True\<rparr>\<rparr>)"
| cli: "sreach M C S s \<Longrightarrow> pcs s (cur s) = Ready \<Longrightarrow> sreach M C S (s\<lparr>ks := (ks s)\<lparr>int_flag := False\<rparr>\<rparr>)"
| go: "sreach M C S s \<Longrightarrow> int_flag (ks s) = (\<not> suspended (pcs s (cur s))) \<Longrightarrow>
    go_on (pcs s (cur s)) s = Some s' \<Longrightarrow> sreach M C S s'"
| callP: "sreach M C S s \<Longrightarrow> calls s \<Longrightarrow> P sid s = Some (r, s') \<Longrightarrow> sreach M C S s'"
| callV: "sreach M C S s \<Longrightarrow> calls s \<Longrightarrow> V sid s = Some (r, s') \<Longrightarrow> sreach M C S s'"
| lock: "sreach M C S s \<Longrightarrow> calls s \<Longrightarrow> m \<in> M \<Longrightarrow> Mutex_Lock m Ready s = Some s' \<Longrightarrow> sreach M C S s'"
| unlock: "sreach M C S s \<Longrightarrow> calls s \<Longrightarrow> m \<in> M \<Longrightarrow> Mutex_Unlock m s = Some s' \<Longrightarrow> sreach M C S s'"
| cond_wait: "sreach M C S s \<Longrightarrow> calls s \<Longrightarrow> m \<in> M \<Longrightarrow> c \<in> C \<Longrightarrow> c \<notin> range cond_of \<Longrightarrow>
    Cond_Wait c m Ready s = Some s' \<Longrightarrow> sreach M C S s'"
| signal: "sreach M C S s \<Longrightarrow> calls s \<Longrightarrow> c \<in> C \<Longrightarrow> Cond_Signal c s = Some s' \<Longrightarrow> sreach M C S s'"
| broadcast: "sreach M C S s \<Longrightarrow> calls s \<Longrightarrow> c \<in> C \<Longrightarrow> Cond_Broadcast c s = Some s' \<Longrightarrow> sreach M C S s'"

lemma Mutex_Lock_SomeD: "Mutex_Lock m k s = Some s' \<Longrightarrow> int_flag (ks s) \<and> \<not> IS_HELD m s"
  by (auto simp: Mutex_Lock_def Mutex_Lock_Imp_def IS_HELD_def split: if_splits)

lemma Mutex_Unlock_SomeD: "Mutex_Unlock m s = Some s' \<Longrightarrow> int_flag (ks s) \<and> IS_HELD m s"
  by (auto simp: Mutex_Unlock_def Mutex_Unlock_Imp_def IS_HELD_def split: if_splits)

lemma Cond_Wait_SomeD: "Cond_Wait c m k s = Some s' \<Longrightarrow> int_flag (ks s) \<and> IS_HELD m s"
  by (auto simp: Cond_Wait_def split: if_splits)

lemma sinv_sti: "sinv M C S (s\<lparr>ks := (ks s)\<lparr>int_flag := b\<rparr>\<rparr>) = sinv M C S s"
  by (simp add: sinv_def)

lemma semaphore_in:
  assumes "List.find p (semaList s) = Some a" "sinv M C S s"
  shows "a \<in> S" "mutex_of a \<in> M"
proof -
  show "a \<in> S" using assms by (auto simp: sinv_def sinv0_def find_Some_iff)
  then show "mutex_of a \<in> M" using assms(2) by (auto simp: sinv_def sinv0_def objects_ok_def)
qed

lemma lock_step:
  assumes inv: "sinv M C S s" and c: "calls s" and m: "m \<in> M" and k: "after_lock S m k" and run: "Mutex_Lock m k s = Some s'"
  shows "sinv M C S s'"
  using Mutex_Lock_ok [OF inv _ m _ k] Mutex_Lock_SomeD [OF run] run c by (auto simp: calls_def)

lemma semaphore_call:
  assumes inv: "sinv M C S s" and c: "calls s" and k: "k = PTest a \<or> k = VInc a" and a: "a \<in> S" "mutex_of a \<in> M"
    and run: "do { s \<leftarrow> onk Enable_Interrupts s; s \<leftarrow> Mutex_Lock (mutex_of a) k s; Some (None, s) } = Some (r, s')"
  shows "sinv M C S s'"
proof -
  let ?u = "s\<lparr>ks := (ks s)\<lparr>int_flag := True\<rparr>\<rparr>"
  have "Mutex_Lock (mutex_of a) k ?u = Some s'" using run by (auto simp: bind_Some_iff split: if_splits)
  moreover have "calls ?u" using c by (simp add: calls_def)
  ultimately show ?thesis
    using lock_step [OF _ _ a(2), of C S ?u k s'] inv k a(1) by (auto simp: sinv_sti after_lock_def)
qed

lemma sreach_sinv: "sreach M C S s \<Longrightarrow> sinv M C S s"
proof (induction rule: sreach.induct)
  case (init s)
  then show ?case by (simp add: sinv_def sinv0_def sync_inv_def)
next
  case (switch s s')
  from switch.hyps(3) obtain k where k: "Yield (ks s) = Some k" "s' = s\<lparr>ks := k\<rparr>" by (auto simp: onk_def bind_Some_iff)
  note Y = Yield_SomeD [OF k(1)]
  have ki: "kinv (ks s)" using switch.IH by (simp add: sinv_def sinv0_def)
  obtain k' where k': "Yield (ks s) = Some k'" "kinv k'" "\<not> g_preemptionDisabled k'"
    "\<forall>u. priority (thr k' u) = priority (thr (ks s) u)"
    "\<And>q. (\<forall>i. q \<noteq> RunQ i) \<Longrightarrow> queues k' q = queues (ks s) q"
    using Yield_kinv [OF ki] Y by blast
  have "queues k' (mutex_queue m) = queues (ks s) (mutex_queue m)" "queues k' (cond_queue c) = queues (ks s) (cond_queue c)" for m c
    using k'(5) by (simp_all add: mutex_queue_def cond_queue_def)
  then show ?case using switch.IH k' k by (simp add: sinv_def sinv0_def sync_inv_def)
next
  case (go s s')
  then show ?case
  proof (cases "suspended (pcs s (cur s))")
    case True
    then show ?thesis using resume_ok [OF go.IH _ True] go.hyps by auto
  next
    case False
    then obtain a where "crit a (pcs s (cur s))" using go.hyps(3) by (cases "pcs s (cur s)") (auto simp: suspended_def)
    then show ?thesis using crit_go_on [OF go.IH] go.hyps False by auto
  qed
next
  case (callP s sid r s')
  show ?case
  proof (cases "List.find (\<lambda>a. sm_sid (sems s a) = sid) (semaList s)")
    case None
    then show ?thesis using callP by (simp add: P_def)
  next
    case (Some a)
    then show ?thesis
      using semaphore_call [OF callP.IH callP.hyps(2) disjI1 [OF refl] semaphore_in [OF Some callP.IH]] callP.hyps(3)
      by (simp add: P_def)
  qed
next
  case (callV s sid r s')
  show ?case
  proof (cases "List.find (\<lambda>a. sm_sid (sems s a) = sid) (semaList s)")
    case None
    then show ?thesis using callV by (simp add: V_def)
  next
    case (Some a)
    then show ?thesis
      using semaphore_call [OF callV.IH callV.hyps(2) disjI2 [OF refl] semaphore_in [OF Some callV.IH]] callV.hyps(3)
      by (simp add: V_def)
  qed
next
  case (lock s m s')
  show ?case by (rule lock_step [OF lock.IH lock.hyps(2,3) _ lock.hyps(4)]) (simp add: after_lock_def)
next
  case (unlock s m s')
  have r: "pcs s (cur s) = Ready" using unlock.hyps(2) by (simp add: calls_def)
  note D = Mutex_Unlock_SomeD [OF unlock.hyps(4)]
  obtain s1 where s1: "Mutex_Unlock m s = Some s1" "sinv M C S (set_pc (cur s) Ready s1)" "pcs s1 = pcs s"
    using Mutex_Unlock_ok [OF unlock.IH _ _ unlock.hyps(3)] D r by auto
  have "set_pc (cur s) Ready s1 = s1" using s1(3) r by (simp add: set_pc_def fun_upd_idem)
  with s1 unlock.hyps(4) show ?case by simp
next
  case (cond_wait s m c s')
  note D = Cond_Wait_SomeD [OF cond_wait.hyps(6)]
  have "\<exists>s'. Cond_Wait c m Ready s = Some s' \<and> sinv M C S s'"
    by (rule Cond_Wait_ok [OF cond_wait.IH]) (use D cond_wait.hyps in \<open>auto simp: calls_def\<close>)
  with cond_wait.hyps(6) show ?case by auto
next
  case (signal s c s')
  then have "int_flag (ks s)" by (auto simp: Cond_Signal_def split: if_splits)
  then show ?case using Cond_wake_ok [OF signal.IH _ signal.hyps(3), of "Wake_Up_One (cond_queue c)"] signal.hyps(4) by (auto simp: Cond_Signal_eq)
next
  case (broadcast s c s')
  then have "int_flag (ks s)" by (auto simp: Cond_Broadcast_def split: if_splits)
  then show ?case using Cond_wake_ok [OF broadcast.IH _ broadcast.hyps(3), of "Wake_Up (cond_queue c)"] broadcast.hyps(4) by (auto simp: Cond_Broadcast_eq)
qed (simp_all add: sinv_sti)

section \<open>Properties\<close>

text \<open>A semaphore of count 1.\<close>

definition sample_sema :: semaphore where
  "sample_sema = \<lparr>sm_count = 1, sm_sid = 7, sm_name = ''s'', sm_refCount = 1\<rparr>"

definition sample_sync :: sync where
  "sample_sync = \<lparr>ks = sample_threads, mtx = (\<lambda>_. \<lparr>m_state = MUTEX_UNLOCKED, m_owner = 0\<rparr>),
     sems = (\<lambda>_. sample_sema), semaList = [0x50000], next_sid = 8, usems = (\<lambda>_. replicate 10 0), pcs = (\<lambda>_. Ready)\<rparr>"

lemma sample_objects: "objects_ok {mutex_of 0x50000} {cond_of 0x50000} {0x50000}"
  by (simp add: objects_ok_def mutex_queue_def cond_queue_def mutex_of_def cond_of_def)

lemma sample_sync_reach: "sreach {mutex_of 0x50000} {cond_of 0x50000} {0x50000} sample_sync"
  by (rule sreach.init [OF sample_objects])
    (use sample_threads_ok in \<open>simp_all add: sample_sync_def mutex_queue_def cond_queue_def sample_threads_def\<close>)

text \<open>The first thread has called \<open>P\<close> and is about to test the count.\<close>

lemma sample_in_P:
  "\<exists>s. P 7 sample_sync = Some (None, s) \<and> sreach {mutex_of 0x50000} {cond_of 0x50000} {0x50000} s \<and>
    cur s = 1 \<and> pcs s 1 = PTest 0x50000 \<and> int_flag (ks s)"
proof -
  have c: "calls sample_sync" by (simp add: calls_def sample_sync_def sample_threads_def)
  have "\<exists>s. P 7 sample_sync = Some (None, s) \<and> cur s = 1 \<and> pcs s 1 = PTest 0x50000 \<and> int_flag (ks s)"
    by (simp add: P_def sample_sync_def sample_sema_def sample_threads_def Mutex_Lock_def Mutex_Lock_Imp_def
        IS_HELD_def lock_loop_def)
  then obtain s where s: "P 7 sample_sync = Some (None, s)" "cur s = 1" "pcs s 1 = PTest 0x50000" "int_flag (ks s)" by blast
  with sreach.callP [OF sample_sync_reach c s(1)] show ?thesis by blast
qed

text \<open>C2: Mutual exclusion: of all threads inside \<open>P\<close> or \<open>V\<close> of a semaphore, between the
  acquisition and the release of its mutex, at most one is there at any time, and the mutex
  is locked and owned by it.\<close>

theorem semaphore_exclusive:
  assumes "sreach M C S s" "crit a (pcs s t)" "crit a (pcs s u)"
  shows "t = u \<and> m_state (mtx s (mutex_of a)) = MUTEX_LOCKED \<and> m_owner (mtx s (mutex_of a)) = t"
proof -
  have si: "sync_inv M C S (pcs s) (mtx s) (\<lambda>a. sm_count (sems s a)) (queues (ks s))"
    using sreach_sinv [OF assms(1)] by (simp add: sinv_def sinv0_def)
  show ?thesis using inv_exclusive [OF si assms(2,3)] sync_invD(2) [OF si assms(2)] by (simp add: held_def)
qed

lemma semaphore_exclusive_witness:
  "\<exists>s. P 7 sample_sync = Some (None, s) \<and> m_owner (mtx s (mutex_of 0x50000)) = 1"
proof -
  obtain s where s: "P 7 sample_sync = Some (None, s)" "sreach {mutex_of 0x50000} {cond_of 0x50000} {0x50000} s"
    "pcs s 1 = PTest 0x50000" using sample_in_P by blast
  then have "crit 0x50000 (pcs s 1)" by simp
  with semaphore_exclusive [OF s(2) this this] s(1) show ?thesis by blast
qed

text \<open>C12: No wake-up is lost: while a semaphore's count is positive no thread waits for it unless
  another is about to broadcast, and while a mutex is free with threads on its queue, one
  that was on it has been woken up and is about to try again.\<close>

theorem no_lost_wakeup:
  assumes "sreach M C S s"
  shows "(\<forall>a\<in>S. sm_count (sems s a) \<noteq> 0 \<longrightarrow> queues (ks s) (cond_queue (cond_of a)) \<noteq> [] \<longrightarrow> (\<exists>t. pcs s t = VBcast a)) \<and>
    (\<forall>m\<in>M. m_state (mtx s m) = MUTEX_UNLOCKED \<longrightarrow> queues (ks s) (mutex_queue m) \<noteq> [] \<longrightarrow>
      (\<exists>t k. pcs s t = Locking m k \<and> t \<notin> set (queues (ks s) (mutex_queue m))))"
proof -
  have si: "sync_inv M C S (pcs s) (mtx s) (\<lambda>a. sm_count (sems s a)) (queues (ks s))"
    using sreach_sinv [OF assms] by (simp add: sinv_def sinv0_def)
  show ?thesis using sync_invD(6,7) [OF si] by blast
qed

lemma no_lost_wakeup_witness:
  "sreach {mutex_of 0x50000} {cond_of 0x50000} {0x50000} sample_sync \<and> sm_count (sems sample_sync 0x50000) \<noteq> 0 \<and>
    (queues (ks sample_sync) (cond_queue (cond_of 0x50000)) = [] \<or> (\<exists>t. pcs sample_sync t = VBcast 0x50000))"
  using no_lost_wakeup [OF sample_sync_reach] sample_sync_reach by (auto simp: sample_sync_def sample_sema_def)

text \<open>Inside the operations no assertion ever fails: a thread that is inside \<open>P\<close>, \<open>V\<close>,
  \<open>Mutex_Lock\<close> or \<open>Cond_Wait\<close>, with interrupts disabled exactly if it was suspended there,
  takes its next step.\<close>

theorem synch_goes_on:
  assumes "sreach M C S s" "pcs s (cur s) \<noteq> Ready" "int_flag (ks s) = (\<not> suspended (pcs s (cur s)))"
  shows "\<exists>s'. go_on (pcs s (cur s)) s = Some s' \<and> sreach M C S s'"
proof (cases "suspended (pcs s (cur s))")
  case True
  then show ?thesis using resume_ok [OF sreach_sinv [OF assms(1)]] assms(3) sreach.go [OF assms(1,3)] by auto
next
  case False
  then obtain a where "crit a (pcs s (cur s))" using assms(2) by (cases "pcs s (cur s)") (auto simp: suspended_def)
  then show ?thesis using crit_go_on [OF sreach_sinv [OF assms(1)]] assms(3) False sreach.go [OF assms(1,3)] by auto
qed

lemma synch_goes_on_witness:
  "\<exists>s s'. P 7 sample_sync = Some (None, s) \<and> go_on (PTest 0x50000) s = Some s'"
proof -
  obtain s where s: "P 7 sample_sync = Some (None, s)" "sreach {mutex_of 0x50000} {cond_of 0x50000} {0x50000} s"
    "cur s = 1" "pcs s 1 = PTest 0x50000" "int_flag (ks s)" using sample_in_P by blast
  from synch_goes_on [OF s(2)] s show ?thesis by auto
qed

text \<open>Looking up the last object of the list.\<close>

lemma find_last: "\<forall>x\<in>set xs. \<not> f x \<Longrightarrow> f y \<Longrightarrow> List.find f (xs @ [y]) = Some y"
  by (induction xs) auto

lemma Destroy_Semaphore_keeps:
  assumes "List.find (\<lambda>a. sm_sid (sems s a) = sid) (semaList s) = Some a" "sm_refCount (sems s a) \<noteq> 1"
  shows "\<exists>s'. Destroy_Semaphore sid s = Some (0, s') \<and> semaList s' = semaList s \<and>
    sems s' = (sems s)(a := (sems s a)\<lparr>sm_refCount := sm_refCount (sems s a) - 1\<rparr>)"
  using assms by (simp add: Destroy_Semaphore_def Let_def)

lemma Destroy_Semaphore_removes:
  assumes "List.find (\<lambda>a. sm_sid (sems s a) = sid) (semaList s) = Some a" "sm_refCount (sems s a) = 1"
  shows "\<exists>s'. Destroy_Semaphore sid s = Some (0, s') \<and> semaList s' = remove1 a (semaList s)"
proof -
  have "a \<in> set (semaList s)" using assms(1) by (auto simp: find_Some_iff)
  then show ?thesis using assms by (simp add: Destroy_Semaphore_def Let_def)
qed

text \<open>A semaphore created under a new name is shared by the next process that asks for that
  name, but its reference count starts from whatever the allocated memory held: after two
  creations, two calls of \<open>Destroy_Semaphore\<close> remove it if that was 0, and not if it was 1.\<close>

theorem semaphore_lifecycle:
  assumes "malloc \<noteq> 0" "malloc \<notin> set (semaList s)" "length nam < 25"
    "\<forall>a\<in>set (semaList s). sm_name (sems s a) \<noteq> nam \<and> sm_sid (sems s a) \<noteq> next_sid s"
    "sm_refCount fresh = 0 \<or> sm_refCount fresh = 1"
  shows "\<exists>s1 s2 s3 s4. Create_Semaphore malloc fresh nam ival s = Some (next_sid s, s1) \<and>
    semaList s1 = semaList s @ [malloc] \<and> sm_count (sems s1 malloc) = word_of_int ival \<and>
    Create_Semaphore malloc' fresh' nam ival' s1 = Some (next_sid s, s2) \<and> semaList s2 = semaList s1 \<and>
    Destroy_Semaphore (next_sid s) s2 = Some (0, s3) \<and> semaList s3 = semaList s1 \<and>
    Destroy_Semaphore (next_sid s) s3 = Some (0, s4) \<and>
    semaList s4 = (if sm_refCount fresh = 0 then semaList s else semaList s1)"
proof -
  let ?sid = "next_sid s"
  define c1 where "c1 = fresh\<lparr>sm_sid := ?sid, sm_name := nam, sm_count := word_of_int ival, sm_refCount := sm_refCount fresh + 1\<rparr>"
  have none: "List.find (\<lambda>a. sm_name (sems s a) = nam) (semaList s) = None"
    using assms(4) by (auto simp: find_None_iff)
  obtain s1 where s1: "Create_Semaphore malloc fresh nam ival s = Some (?sid, s1)"
    "semaList s1 = semaList s @ [malloc]" "sems s1 = (sems s)(malloc := c1)"
    using none assms(1-3) by (simp add: Create_Semaphore_def Cond_Init_def Mutex_Init_def set_mutex_def c1_def Let_def)
  have f: "List.find (\<lambda>a. f (sems s' a)) (semaList s @ [malloc]) = Some malloc"
    if "\<forall>a\<in>set (semaList s). \<not> f (sems s a)" "f (sems s' malloc)" "\<And>a. a \<noteq> malloc \<Longrightarrow> sems s' a = sems s a" for f s'
    using that assms(2) by (intro find_last) metis+
  have byname: "List.find (\<lambda>a. sm_name (sems s1 a) = nam) (semaList s1) = Some malloc"
    unfolding s1(2) by (rule f) (use assms(4) s1(3) in \<open>auto simp: c1_def\<close>)
  obtain s2 where s2: "Create_Semaphore malloc' fresh' nam ival' s1 = Some (?sid, s2)" "semaList s2 = semaList s1"
    "sems s2 = (sems s1)(malloc := c1\<lparr>sm_refCount := sm_refCount c1 + 1\<rparr>)"
    using byname s1(3) by (simp add: Create_Semaphore_def c1_def)
  have id2: "List.find (\<lambda>a. sm_sid (sems s2 a) = ?sid) (semaList s2) = Some malloc"
    unfolding s2(2) s1(2) by (rule f) (use assms(4) s1(3) s2(3) in \<open>auto simp: c1_def\<close>)
  have r2: "sm_refCount (sems s2 malloc) = sm_refCount fresh + 2" by (simp add: s2(3) c1_def)
  obtain s3 where s3: "Destroy_Semaphore ?sid s2 = Some (0, s3)" "semaList s3 = semaList s2"
    "sems s3 = (sems s2)(malloc := (sems s2 malloc)\<lparr>sm_refCount := sm_refCount (sems s2 malloc) - 1\<rparr>)"
    using Destroy_Semaphore_keeps [OF id2] r2 assms(5) by auto
  have id3: "List.find (\<lambda>a. sm_sid (sems s3 a) = ?sid) (semaList s3) = Some malloc"
    unfolding s3(2) s2(2) s1(2) by (rule f) (use assms(4) s1(3) s2(3) s3(3) in \<open>auto simp: c1_def\<close>)
  have r3: "sm_refCount (sems s3 malloc) = sm_refCount fresh + 1" by (simp add: s3(3) r2)
  have "\<exists>s4. Destroy_Semaphore ?sid s3 = Some (0, s4) \<and>
      semaList s4 = (if sm_refCount fresh = 0 then semaList s else semaList s1)"
  proof (cases "sm_refCount fresh = 0")
    case True
    then show ?thesis using Destroy_Semaphore_removes [OF id3] r3 s1(2) s2(2) s3(2) assms(2) by (auto simp: remove1_append)
  next
    case False
    then show ?thesis using Destroy_Semaphore_keeps [OF id3] r3 s2(2) s3(2) assms(5) by auto
  qed
  with s1 s2 s3 show ?thesis by (auto simp: c1_def)
qed

lemma semaphore_lifecycle_witness:
  "\<exists>s1 s2 s3 s4. Create_Semaphore 0x60000 (sample_sema\<lparr>sm_refCount := 1\<rparr>) ''t'' 2 sample_sync = Some (8, s1) \<and>
    Create_Semaphore 0x70000 sample_sema ''t'' 5 s1 = Some (8, s2) \<and> Destroy_Semaphore 8 s2 = Some (0, s3) \<and>
    Destroy_Semaphore 8 s3 = Some (0, s4) \<and> semaList s4 = [0x50000, 0x60000]"
proof -
  have n: "next_sid sample_sync = 8" "semaList sample_sync = [0x50000]" by (simp_all add: sample_sync_def)
  have "\<forall>a\<in>set (semaList sample_sync). sm_name (sems sample_sync a) \<noteq> ''t'' \<and> sm_sid (sems sample_sync a) \<noteq> next_sid sample_sync"
    by (simp add: sample_sync_def sample_sema_def)
  from semaphore_lifecycle [OF _ _ _ this, of "0x60000" "sample_sema\<lparr>sm_refCount := 1\<rparr>" 2 "0x70000" sample_sema 5]
  show ?thesis unfolding n by auto
qed

end
