(* ===== verification/BlockDev.thy ===== *)
theory BlockDev
  imports Sched
begin

text \<open>
  Block devices and their request queues, \<open>geekos/blockdev.c\<close>.

  A client posts a request on the device's list, wakes up the driver's thread and waits on
  the request's own queue until the driver has reported the outcome.  As in \<open>Synch\<close> an
  operation that may block is cut where the processor can go to another thread, and \<open>bpcs\<close>
  records where each thread stands.  What the driver does to serve a request (the transfer)
  is not part of this module; \<open>Notify_Request_Completion\<close> gets its outcome.

  A \<open>struct Block_Request_List *\<close> and a \<open>struct Thread_Queue *\<close> are addresses.
\<close>

section \<open>State\<close>

datatype Request_Type = BLOCK_READ | BLOCK_WRITE
datatype Request_State = PENDING | COMPLETED | ERROR

record block_request =
  r_dev :: u32
  r_type :: Request_Type
  r_blockNum :: int
  r_buf :: u32
  r_state :: Request_State
  r_errorCode :: int

record block_device =
  bd_name :: string
  bd_unit :: int
  bd_inUse :: bool
  bd_waitQueue :: u32
  bd_requestQueue :: u32

text \<open>\<open>Posted r\<close> has put the request on the list and is about to wait, \<open>Awaiting r\<close> waits for
  it, \<open>Idling l w\<close> is a driver that waits for a request on list \<open>l\<close>, \<open>Serving r\<close> one that has
  taken the request.\<close>

datatype bpc = Outside | Posted u32 | Awaiting u32 | Idling u32 u32 | Serving u32

record bio =
  bk :: kstate
  reqs :: "u32 \<Rightarrow> block_request"
  devs :: "u32 \<Rightarrow> block_device"
  deviceList :: "u32 list"
  rlists :: "u32 \<Rightarrow> u32 list"
  bpcs :: "u32 \<Rightarrow> bpc"

abbreviation (input) bcur :: "bio \<Rightarrow> u32" where
  "bcur s \<equiv> g_currentThread (bk s)"

text \<open>The thread queue inside a request.\<close>

definition request_queue :: "u32 \<Rightarrow> qid" where
  "request_queue r = WaitQ (r + 24)"

definition onbk :: "(kstate \<Rightarrow> kstate kres) \<Rightarrow> bio \<Rightarrow> bio kres" where
  "onbk f s = do { k \<leftarrow> f (bk s); Some (s\<lparr>bk := k\<rparr>) }"

definition set_bpc :: "u32 \<Rightarrow> bpc \<Rightarrow> bio \<Rightarrow> bio" where
  "set_bpc t p s = s\<lparr>bpcs := (bpcs s)(t := p)\<rparr>"

definition set_rlist :: "u32 \<Rightarrow> u32 list \<Rightarrow> bio \<Rightarrow> bio" where
  "set_rlist l rs s = s\<lparr>rlists := (rlists s)(l := rs)\<rparr>"

section \<open>Requests\<close>

text \<open>\<open>malloc\<close> is the address of the new object, or 0.\<close>

definition Create_Request :: "u32 \<Rightarrow> u32 \<Rightarrow> Request_Type \<Rightarrow> int \<Rightarrow> u32 \<Rightarrow> bio \<Rightarrow> u32 \<times> bio" where
  "Create_Request malloc d ty n b s =
     (if malloc = 0 then (0, s)
      else (malloc, s\<lparr>reqs := (reqs s)(malloc := (reqs s malloc)\<lparr>r_dev := d, r_type := ty, r_blockNum := n, r_buf := b, r_state := PENDING\<rparr>),
        bk := Clear_Thread_Queue (request_queue malloc) (bk s)\<rparr>))"

text \<open>The first part of \<open>Post_Request_And_Wait\<close>, after which other threads can run.\<close>

definition Post_Request :: "u32 \<Rightarrow> bio \<Rightarrow> bio kres" where
  "Post_Request r s = do {
     KASSERT (r \<noteq> 0);
     let d = r_dev (reqs s r);
     KASSERT (d \<noteq> 0);
     s \<leftarrow> onbk Disable_Interrupts s;
     rs \<leftarrow> Push_Back (rlists s (bd_requestQueue (devs s d))) r;
     let s = set_rlist (bd_requestQueue (devs s d)) rs s;
     s \<leftarrow> onbk (Wake_Up (WaitQ (bd_waitQueue (devs s d)))) s;
     s \<leftarrow> onbk Enable_Interrupts s;
     Some (set_bpc (bcur s) (Posted r) s) }"

text \<open>A round of its loop, with interrupts disabled: \<open>Some rc\<close> once the request is done.\<close>

definition Await_round :: "u32 \<Rightarrow> bio \<Rightarrow> (int option \<times> bio) kres" where
  "Await_round r s =
     (if r_state (reqs s r) = PENDING then do {
        let t = bcur s;
        s \<leftarrow> onbk (Wait (request_queue r)) s;
        Some (None, set_bpc t (Awaiting r) s) }
      else do {
        s \<leftarrow> onbk Enable_Interrupts s;
        Some (Some (r_errorCode (reqs s r)), set_bpc (bcur s) Outside s) })"

definition Await_Request :: "u32 \<Rightarrow> bio \<Rightarrow> (int option \<times> bio) kres" where
  "Await_Request r s = do { s \<leftarrow> onbk Disable_Interrupts s; Await_round r s }"

definition Do_Request :: "u32 \<Rightarrow> u32 \<Rightarrow> Request_Type \<Rightarrow> int \<Rightarrow> u32 \<Rightarrow> bio \<Rightarrow> (int option \<times> bio) kres" where
  "Do_Request malloc d ty n b s = do {
     let (r, s) = Create_Request malloc d ty n b s;
     if r = 0 then Some (Some ENOMEM, s)
     else do { s \<leftarrow> Post_Request r s; Some (None, s) } }"

text \<open>A round of the loop of \<open>Dequeue_Request\<close>, with interrupts disabled.\<close>

definition Dequeue_round :: "u32 \<Rightarrow> u32 \<Rightarrow> bio \<Rightarrow> (u32 option \<times> bio) kres" where
  "Dequeue_round l w s =
     (if rlists s l = [] then do {
        let t = bcur s;
        s \<leftarrow> onbk (Wait (WaitQ w)) s;
        Some (None, set_bpc t (Idling l w) s) }
      else do {
        (r, rs) \<leftarrow> Pop_Front (rlists s l);
        let s = set_rlist l rs s;
        s \<leftarrow> onbk Enable_Interrupts s;
        Some (Some r, set_bpc (bcur s) (Serving r) s) })"

definition Dequeue_Request :: "u32 \<Rightarrow> u32 \<Rightarrow> bio \<Rightarrow> (u32 option \<times> bio) kres" where
  "Dequeue_Request l w s = do { s \<leftarrow> onbk Disable_Interrupts s; Dequeue_round l w s }"

definition Notify_Request_Completion :: "u32 \<Rightarrow> Request_State \<Rightarrow> int \<Rightarrow> bio \<Rightarrow> bio kres" where
  "Notify_Request_Completion r st rc s = do {
     s \<leftarrow> onbk Disable_Interrupts s;
     let s = s\<lparr>reqs := (reqs s)(r := (reqs s r)\<lparr>r_state := st, r_errorCode := rc\<rparr>)\<rparr>;
     s \<leftarrow> onbk (Wake_Up (request_queue r)) s;
     s \<leftarrow> onbk Enable_Interrupts s;
     Some (set_bpc (bcur s) Outside s) }"

definition Block_Read :: "u32 \<Rightarrow> u32 \<Rightarrow> int \<Rightarrow> u32 \<Rightarrow> bio \<Rightarrow> (int option \<times> bio) kres" where
  "Block_Read malloc d n b s = Do_Request malloc d BLOCK_READ n b s"

definition Block_Write :: "u32 \<Rightarrow> u32 \<Rightarrow> int \<Rightarrow> u32 \<Rightarrow> bio \<Rightarrow> (int option \<times> bio) kres" where
  "Block_Write malloc d n b s = Do_Request malloc d BLOCK_WRITE n b s"

section \<open>Devices\<close>

text \<open>The list of devices, each under its mutex; \<open>ops\<close> is the driver's answer.  A name of 15
  characters or more would overrun the object.\<close>

definition Register_Block_Device :: "u32 \<Rightarrow> string \<Rightarrow> int \<Rightarrow> u32 \<Rightarrow> u32 \<Rightarrow> bio \<Rightarrow> (int \<times> bio) kres" where
  "Register_Block_Device malloc nam unit wq rq s = do {
     KASSERT (wq \<noteq> 0);
     KASSERT (rq \<noteq> 0);
     if malloc = 0 then Some (ENOMEM, s)
     else do {
       KASSERT (length nam < 15);
       let s = s\<lparr>devs := (devs s)(malloc :=
         \<lparr>bd_name = nam, bd_unit = unit, bd_inUse = False, bd_waitQueue = wq, bd_requestQueue = rq\<rparr>)\<rparr>;
       l \<leftarrow> Push_Back (deviceList s) malloc;
       Some (0, s\<lparr>deviceList := l\<rparr>) } }"

definition Open_Block_Device :: "(u32 \<Rightarrow> int) \<Rightarrow> string \<Rightarrow> bio \<Rightarrow> int \<times> u32 option \<times> bio" where
  "Open_Block_Device ops nam s =
     (case List.find (\<lambda>d. bd_name (devs s d) = nam) (deviceList s) of
        None \<Rightarrow> (ENODEV, None, s)
      | Some d \<Rightarrow>
          (if bd_inUse (devs s d) then (EBUSY, None, s)
           else let rc = ops d in
             if rc = 0 then (rc, Some d, s\<lparr>devs := (devs s)(d := (devs s d)\<lparr>bd_inUse := True\<rparr>)\<rparr>)
             else (rc, None, s)))"

definition Close_Block_Device :: "(u32 \<Rightarrow> int) \<Rightarrow> u32 \<Rightarrow> bio \<Rightarrow> (int \<times> bio) kres" where
  "Close_Block_Device ops d s = do {
     KASSERT (bd_inUse (devs s d));
     let rc = ops d;
     Some (rc, if rc = 0 then s\<lparr>devs := (devs s)(d := (devs s d)\<lparr>bd_inUse := False\<rparr>)\<rparr> else s) }"

section \<open>Steps of the kernel threads\<close>

lemma bio_sel_simps [simp]:
  "bk (set_bpc t p s) = bk s" "reqs (set_bpc t p s) = reqs s" "devs (set_bpc t p s) = devs s"
  "rlists (set_bpc t p s) = rlists s" "bpcs (set_bpc t p s) = (bpcs s)(t := p)"
  "bk (set_rlist l rs s) = bk s" "reqs (set_rlist l rs s) = reqs s" "devs (set_rlist l rs s) = devs s"
  "rlists (set_rlist l rs s) = (rlists s)(l := rs)" "bpcs (set_rlist l rs s) = bpcs s"
  by (simp_all add: set_bpc_def set_rlist_def)

lemma onbk_flags [simp]:
  "onbk Disable_Interrupts s = (if int_flag (bk s) then Some (s\<lparr>bk := (bk s)\<lparr>int_flag := False\<rparr>\<rparr>) else None)"
  "onbk Enable_Interrupts s = (if int_flag (bk s) then None else Some (s\<lparr>bk := (bk s)\<lparr>int_flag := True\<rparr>\<rparr>))"
  by (simp_all add: onbk_def)

section \<open>The invariant\<close>

text \<open>\<open>L\<close> is the driver's thread queue of each request list of \<open>Q\<close>, \<open>R\<close> the addresses of the
  request objects; of a state: \<open>P\<close> where the threads stand, \<open>S\<close> the requests that are pending,
  \<open>dl\<close> the list a request belongs on, \<open>X\<close> the request lists and \<open>G\<close> the thread queues.\<close>

definition owns :: "(u32 \<Rightarrow> bpc) \<Rightarrow> u32 \<Rightarrow> u32 \<Rightarrow> bool" where
  "owns P r t \<longleftrightarrow> P t = Posted r \<or> P t = Awaiting r"

definition places_ok :: "(u32 \<Rightarrow> u32) \<Rightarrow> u32 set \<Rightarrow> u32 set \<Rightarrow> bool" where
  "places_ok L Q R \<longleftrightarrow> inj_on L Q \<and> (\<forall>r\<in>R. \<forall>l\<in>Q. request_queue r \<noteq> WaitQ (L l))"

definition drivers_inv ::
  "(u32 \<Rightarrow> u32) \<Rightarrow> u32 set \<Rightarrow> (u32 \<Rightarrow> bpc) \<Rightarrow> (u32 \<Rightarrow> u32 list) \<Rightarrow> (qid \<Rightarrow> u32 list) \<Rightarrow> bool" where
  "drivers_inv L Q P X G \<longleftrightarrow> (\<forall>t l w. P t = Idling l w \<longrightarrow> l \<in> Q \<and> w = L l) \<and>
     (\<forall>l\<in>Q. \<forall>t\<in>set (G (WaitQ (L l))). P t = Idling l (L l)) \<and>
     (\<forall>l\<in>Q. G (WaitQ (L l)) \<noteq> [] \<longrightarrow> X l = [])"

definition requests_inv ::
  "u32 set \<Rightarrow> u32 set \<Rightarrow> (u32 \<Rightarrow> bpc) \<Rightarrow> (u32 \<Rightarrow> bool) \<Rightarrow> (u32 \<Rightarrow> u32) \<Rightarrow> (u32 \<Rightarrow> u32 list) \<Rightarrow> (qid \<Rightarrow> u32 list) \<Rightarrow> bool" where
  "requests_inv Q R P S dl X G \<longleftrightarrow>
     (\<forall>r t. owns P r t \<longrightarrow> r \<in> R \<and> (S r \<longrightarrow> r \<in> set (X (dl r)) \<or> (\<exists>u. P u = Serving r))) \<and>
     (\<forall>r t u. owns P r t \<longrightarrow> owns P r u \<longrightarrow> t = u) \<and>
     (\<forall>r\<in>R. \<forall>t\<in>set (G (request_queue r)). P t = Awaiting r \<and> S r) \<and>
     (\<forall>l. distinct (X l)) \<and>
     (\<forall>l r. r \<in> set (X l) \<longrightarrow> l = dl r \<and> S r \<and> (\<exists>t. owns P r t) \<and> (\<forall>u. P u \<noteq> Serving r)) \<and>
     (\<forall>r u v. P u = Serving r \<longrightarrow> S r \<and> (\<exists>t. owns P r t) \<and> (P v = Serving r \<longrightarrow> u = v))"

lemma request_queue_inj [simp]: "request_queue r = request_queue r' \<longleftrightarrow> r = r'"
  by (simp add: request_queue_def)

lemma is_wait_request [simp]: "is_wait_queue (request_queue r)"
  by (simp add: request_queue_def)

lemma places_okD:
  assumes "places_ok L Q R"
  shows "l \<in> Q \<Longrightarrow> l' \<in> Q \<Longrightarrow> L l = L l' \<Longrightarrow> l = l'" "r \<in> R \<Longrightarrow> l \<in> Q \<Longrightarrow> request_queue r \<noteq> WaitQ (L l)"
    "r \<in> R \<Longrightarrow> l \<in> Q \<Longrightarrow> WaitQ (L l) \<noteq> request_queue r"
proof -
  show 1: "r \<in> R \<Longrightarrow> l \<in> Q \<Longrightarrow> request_queue r \<noteq> WaitQ (L l)" using assms by (simp add: places_ok_def)
  show "l \<in> Q \<Longrightarrow> l' \<in> Q \<Longrightarrow> L l = L l' \<Longrightarrow> l = l'" using assms by (auto simp: places_ok_def inj_on_def)
  show "r \<in> R \<Longrightarrow> l \<in> Q \<Longrightarrow> WaitQ (L l) \<noteq> request_queue r" using 1 by metis
qed

lemma requests_invD:
  assumes "requests_inv Q R P S dl X G"
  shows "owns P r t \<Longrightarrow> r \<in> R" "owns P r t \<Longrightarrow> S r \<Longrightarrow> r \<in> set (X (dl r)) \<or> (\<exists>u. P u = Serving r)"
    "owns P r t \<Longrightarrow> owns P r u \<Longrightarrow> t = u" "r \<in> R \<Longrightarrow> t \<in> set (G (request_queue r)) \<Longrightarrow> P t = Awaiting r"
    "r \<in> R \<Longrightarrow> t \<in> set (G (request_queue r)) \<Longrightarrow> S r" "distinct (X l)" "r \<in> set (X l) \<Longrightarrow> l = dl r"
    "r \<in> set (X l) \<Longrightarrow> S r" "r \<in> set (X l) \<Longrightarrow> \<exists>t. owns P r t" "r \<in> set (X l) \<Longrightarrow> P u \<noteq> Serving r"
    "P u = Serving r \<Longrightarrow> S r" "P u = Serving r \<Longrightarrow> \<exists>t. owns P r t" "P u = Serving r \<Longrightarrow> P v = Serving r \<Longrightarrow> u = v"
proof -
  note E = assms [unfolded requests_inv_def]
  show "owns P r t \<Longrightarrow> r \<in> R" "owns P r t \<Longrightarrow> S r \<Longrightarrow> r \<in> set (X (dl r)) \<or> (\<exists>u. P u = Serving r)"
    using E by blast+
  show "owns P r t \<Longrightarrow> owns P r u \<Longrightarrow> t = u" using E by (elim conjE) blast
  show "r \<in> R \<Longrightarrow> t \<in> set (G (request_queue r)) \<Longrightarrow> P t = Awaiting r"
    "r \<in> R \<Longrightarrow> t \<in> set (G (request_queue r)) \<Longrightarrow> S r" using E by simp_all
  show "distinct (X l)" "r \<in> set (X l) \<Longrightarrow> l = dl r" "r \<in> set (X l) \<Longrightarrow> S r" "r \<in> set (X l) \<Longrightarrow> \<exists>t. owns P r t"
    "r \<in> set (X l) \<Longrightarrow> P u \<noteq> Serving r" using E by (elim conjE, blast)+
  show "P u = Serving r \<Longrightarrow> S r" "P u = Serving r \<Longrightarrow> \<exists>t. owns P r t"
    "P u = Serving r \<Longrightarrow> P v = Serving r \<Longrightarrow> u = v" using E by (elim conjE, blast)+
qed

lemma requests_invI:
  assumes "\<And>r t. owns P r t \<Longrightarrow> r \<in> R" "\<And>r t. owns P r t \<Longrightarrow> S r \<Longrightarrow> r \<in> set (X (dl r)) \<or> (\<exists>u. P u = Serving r)"
    "\<And>r t u. owns P r t \<Longrightarrow> owns P r u \<Longrightarrow> t = u"
    "\<And>r t. r \<in> R \<Longrightarrow> t \<in> set (G (request_queue r)) \<Longrightarrow> P t = Awaiting r \<and> S r"
    "\<And>l. distinct (X l)"
    "\<And>l r u. r \<in> set (X l) \<Longrightarrow> l = dl r \<and> S r \<and> (\<exists>t. owns P r t) \<and> P u \<noteq> Serving r"
    "\<And>r u. P u = Serving r \<Longrightarrow> S r \<and> (\<exists>t. owns P r t)" "\<And>r u v. P u = Serving r \<Longrightarrow> P v = Serving r \<Longrightarrow> u = v"
  shows "requests_inv Q R P S dl X G"
  unfolding requests_inv_def
proof (intro conjI allI impI ballI)
  show "r \<in> R" if "owns P r t" for r t by (rule assms(1) [OF that])
  show "r \<in> set (X (dl r)) \<or> (\<exists>u. P u = Serving r)" if "owns P r t" "S r" for r t by (rule assms(2) [OF that])
  show "t = u" if "owns P r t" "owns P r u" for r t u by (rule assms(3) [OF that])
  show "P t = Awaiting r" "S r" if "r \<in> R" "t \<in> set (G (request_queue r))" for r t using assms(4) [OF that] by simp_all
  show "distinct (X l)" for l by (rule assms(5))
  show "l = dl r" "S r" "\<exists>t. owns P r t" "P u \<noteq> Serving r" if "r \<in> set (X l)" for l r u
    using assms(6) [OF that, of u] by simp_all
  show "S r" "\<exists>t. owns P r t" if "P u = Serving r" for r u using assms(7) [OF that] by simp_all
  show "u = v" if "P u = Serving r" "P v = Serving r" for r u v by (rule assms(8) [OF that])
qed

lemma owns_upd: "owns (P(t := p)) r u \<longleftrightarrow> (if u = t then p = Posted r \<or> p = Awaiting r else owns P r u)"
  by (simp add: owns_def)

text \<open>A thread of no interest to a request changes its place.\<close>

lemma requests_idle:
  assumes inv: "requests_inv Q R P S dl X G" and P: "\<And>r. \<not> owns P r t" "\<And>r. P t \<noteq> Serving r"
    and p: "p = Outside \<or> (\<exists>l w. p = Idling l w)" and G: "\<And>r. r \<in> R \<Longrightarrow> set (G' (request_queue r)) \<subseteq> set (G (request_queue r))"
  shows "requests_inv Q R (P(t := p)) S dl X G'"
proof -
  note D = requests_invD [OF inv]
  have o: "owns (P(t := p)) r u \<longleftrightarrow> owns P r u" for r u using P(1) [of r] p by (auto simp: owns_upd)
  have sv: "(P(t := p)) u = Serving r \<longleftrightarrow> P u = Serving r" for r u using P(2) [of r] p by auto
  show ?thesis
  proof (rule requests_invI, unfold o sv)
    show "(P(t := p)) u = Awaiting r \<and> S r" if "r \<in> R" "u \<in> set (G' (request_queue r))" for r u
      using D(4,5) [OF that(1), of u] G [OF that(1)] that(2) P(1) [of r] by (auto simp: owns_def)
    show "r' \<in> R" if "owns P r' u" for r' u by (rule D(1) [OF that])
    show "r' \<in> set (X (dl r')) \<or> (\<exists>u. P u = Serving r')" if "owns P r' u" "S r'" for r' u by (rule D(2) [OF that])
    show "u = v" if "owns P r' u" "owns P r' v" for r' u v by (rule D(3) [OF that])
    show "distinct (X l)" for l by (rule D(6))
    show "l = dl r' \<and> S r' \<and> (\<exists>t. owns P r' t) \<and> P u \<noteq> Serving r'" if "r' \<in> set (X l)" for l r' u
      using D(7-9) [OF that] D(10) [OF that, of u] by simp
    show "S r' \<and> (\<exists>t. owns P r' t)" if "P u = Serving r'" for r' u using D(11,12) [OF that] by simp
    show "u = v" if "P u = Serving r'" "P v = Serving r'" for r' u v by (rule D(13) [OF that])
  qed
qed

lemma drivers_invD:
  assumes "drivers_inv L Q P X G"
  shows "P t = Idling l w \<Longrightarrow> l \<in> Q" "P t = Idling l w \<Longrightarrow> w = L l"
    "l \<in> Q \<Longrightarrow> t \<in> set (G (WaitQ (L l))) \<Longrightarrow> P t = Idling l (L l)" "l \<in> Q \<Longrightarrow> G (WaitQ (L l)) \<noteq> [] \<Longrightarrow> X l = []"
proof -
  note E = assms [unfolded drivers_inv_def]
  show "P t = Idling l w \<Longrightarrow> l \<in> Q" "P t = Idling l w \<Longrightarrow> w = L l" using E by (elim conjE, blast)+
  show "l \<in> Q \<Longrightarrow> t \<in> set (G (WaitQ (L l))) \<Longrightarrow> P t = Idling l (L l)"
    "l \<in> Q \<Longrightarrow> G (WaitQ (L l)) \<noteq> [] \<Longrightarrow> X l = []" using E by (elim conjE, blast)+
qed

text \<open>\<open>t\<close>, which sleeps on no driver's queue, takes another place; the queues of the drivers and
  the request lists change so that none is left with sleepers and requests.\<close>

lemma drivers_step:
  assumes inv: "drivers_inv L Q P X G" and t: "\<And>l. l \<in> Q \<Longrightarrow> t \<notin> set (G (WaitQ (L l)))"
    and p: "\<And>l w. p = Idling l w \<Longrightarrow> l \<in> Q \<and> w = L l"
    and G: "\<And>l u. l \<in> Q \<Longrightarrow> u \<in> set (G' (WaitQ (L l))) \<Longrightarrow> u \<in> set (G (WaitQ (L l))) \<or> u = t \<and> p = Idling l (L l)"
    and X: "\<And>l. l \<in> Q \<Longrightarrow> G' (WaitQ (L l)) \<noteq> [] \<Longrightarrow> X' l = []"
  shows "drivers_inv L Q (P(t := p)) X' G'"
proof -
  note D = drivers_invD [OF inv]
  have "(P(t := p)) u = Idling l (L l)" if "l \<in> Q" "u \<in> set (G' (WaitQ (L l)))" for l u
    using G [OF that] D(3) [OF that(1), of u] t [OF that(1)] by (cases "u = t") auto
  moreover have "l \<in> Q \<and> w = L l" if "(P(t := p)) u = Idling l w" for u l w
    using that p D(1,2) [of u l w] by (auto split: if_splits)
  ultimately show ?thesis using X unfolding drivers_inv_def by blast
qed

text \<open>A request is posted.\<close>

lemma requests_post:
  assumes inv: "requests_inv Q R P S dl X G" and r: "r \<in> R" "\<And>u. \<not> owns P r u" and P: "P t = Outside"
    and G: "\<And>r'. r' \<in> R \<Longrightarrow> set (G' (request_queue r')) \<subseteq> set (G (request_queue r'))"
  shows "requests_inv Q R (P(t := Posted r)) (S(r := True)) (dl(r := l)) (X(l := X l @ [r])) G'"
proof -
  note D = requests_invD [OF inv]
  have o: "owns (P(t := Posted r)) r' u \<longleftrightarrow> (r' = r \<and> u = t \<or> owns P r' u)" for r' u
    using P r(2) by (auto simp: owns_def)
  have sv: "(P(t := Posted r)) u = Serving r' \<longleftrightarrow> P u = Serving r'" for r' u using P by auto
  have nX: "r \<notin> set (X l')" for l' using D(9) r(2) by blast
  have ns: "P u \<noteq> Serving r" for u using D(12) r(2) by blast
  show ?thesis
  proof (rule requests_invI, unfold o sv)
    show "r' \<in> R" if "r' = r \<and> u = t \<or> owns P r' u" for r' u using that r(1) D(1) by blast
    show "r' \<in> set ((X(l := X l @ [r])) ((dl(r := l)) r')) \<or> (\<exists>u. P u = Serving r')"
      if "r' = r \<and> u = t \<or> owns P r' u" "(S(r := True)) r'" for r' u
      using that D(2) [of r' u] by (cases "r' = r") auto
    show "u = v" if "r' = r \<and> u = t \<or> owns P r' u" "r' = r \<and> v = t \<or> owns P r' v" for r' u v
      using that D(3) r(2) by blast
    show "(P(t := Posted r)) u = Awaiting r' \<and> (S(r := True)) r'" if "r' \<in> R" "u \<in> set (G' (request_queue r'))" for r' u
      using D(4,5) [OF that(1), of u] G [OF that(1)] that(2) P by auto
    show "distinct ((X(l := X l @ [r])) l')" for l' using D(6) nX by simp
    show "l' = (dl(r := l)) r' \<and> (S(r := True)) r' \<and> (\<exists>u. r' = r \<and> u = t \<or> owns P r' u) \<and> P u \<noteq> Serving r'"
      if "r' \<in> set ((X(l := X l @ [r])) l')" for l' r' u
      using that D(7-10) [of r' l'] nX ns by (cases "r' = r") (auto split: if_splits)
    show "(S(r := True)) r' \<and> (\<exists>v. r' = r \<and> v = t \<or> owns P r' v)" if "P u = Serving r'" for r' u
      using D(11,12) [OF that] ns [of u] that by auto
    show "u = v" if "P u = Serving r'" "P v = Serving r'" for r' u v using D(13) [OF that] .
  qed
qed

text \<open>A driver takes a request.\<close>

lemma requests_take:
  assumes inv: "requests_inv Q R P S dl X G" and X: "X l = r # rs" and P: "\<And>r. \<not> owns P r t" "\<And>r. P t \<noteq> Serving r"
    and G: "\<And>r'. r' \<in> R \<Longrightarrow> G' (request_queue r') = G (request_queue r')"
  shows "requests_inv Q R (P(t := Serving r)) S dl (X(l := rs)) G'"
proof -
  note D = requests_invD [OF inv]
  have o: "owns (P(t := Serving r)) r' u \<longleftrightarrow> owns P r' u" for r' u using P(1) [of r'] by (auto simp: owns_upd)
  have sv: "(P(t := Serving r)) u = Serving r' \<longleftrightarrow> (u = t \<and> r' = r \<or> P u = Serving r')" for r' u
    using P(2) [of r'] by auto
  have rX: "r \<in> set (X l)" "r \<notin> set rs" using X D(6) [of l] by auto
  have other: "r \<notin> set (X l')" if "l' \<noteq> l" for l' using D(7) [of r l'] D(7) [OF rX(1)] that by blast
  have sub: "set ((X(l := rs)) l') \<subseteq> set (X l')" for l' using X by auto
  show ?thesis
  proof (rule requests_invI, unfold o sv)
    show "r' \<in> R" if "owns P r' u" for r' u using that D(1) by blast
    show "r' \<in> set ((X(l := rs)) (dl r')) \<or> (\<exists>u. u = t \<and> r' = r \<or> P u = Serving r')" if "owns P r' u" "S r'" for r' u
      using D(2) [OF that] X by (cases "r' = r") auto
    show "(P(t := Serving r)) u = Awaiting r' \<and> S r'" if "r' \<in> R" "u \<in> set (G' (request_queue r'))" for r' u
      using D(4,5) [OF that(1), of u] G [OF that(1)] that(2) P(1) [of r'] by (auto simp: owns_def)
    show "distinct ((X(l := rs)) l')" for l' using D(6) [of l'] D(6) [of l] X by auto
    show "l' = dl r' \<and> S r' \<and> (\<exists>t. owns P r' t) \<and> \<not> (u = t \<and> r' = r \<or> P u = Serving r')"
      if "r' \<in> set ((X(l := rs)) l')" for l' r' u
    proof -
      have m: "r' \<in> set (X l')" using that sub by blast
      have "r' \<noteq> r" using that rX(2) other by (cases "l' = l") auto
      with D(7-9) [OF m] D(10) [OF m, of u] show ?thesis by blast
    qed
    show "S r' \<and> (\<exists>t. owns P r' t)" if "u = t \<and> r' = r \<or> P u = Serving r'" for r' u
      using that D(8,9) [OF rX(1)] D(11,12) by blast
    show "u = v" if "u = t \<and> r' = r \<or> P u = Serving r'" "v = t \<and> r' = r \<or> P v = Serving r'" for r' u v
      using that D(13) D(10) [OF rX(1)] by blast
  qed (rule D(3))
qed

text \<open>The client waits, and its request is done.\<close>

lemma requests_wait:
  assumes inv: "requests_inv Q R P S dl X G" and P: "P t = Posted r \<or> P t = Awaiting r" and S: "S r"
    and G: "\<And>r'. r' \<in> R \<Longrightarrow> G' (request_queue r') = (if r' = r then G (request_queue r') @ [t] else G (request_queue r'))"
  shows "requests_inv Q R (P(t := Awaiting r)) S dl X G'"
proof -
  note D = requests_invD [OF inv]
  have o: "owns (P(t := Awaiting r)) r' u \<longleftrightarrow> owns P r' u" for r' u using P by (auto simp: owns_def)
  have sv: "(P(t := Awaiting r)) u = Serving r' \<longleftrightarrow> P u = Serving r'" for r' u using P by auto
  show ?thesis
  proof (rule requests_invI, unfold o sv)
    show "(P(t := Awaiting r)) u = Awaiting r' \<and> S r'" if "r' \<in> R" "u \<in> set (G' (request_queue r'))" for r' u
      using D(4,5) [OF that(1), of u] G [OF that(1)] that(2) P S by (auto split: if_splits)
    show "r' \<in> R" if "owns P r' u" for r' u by (rule D(1) [OF that])
    show "r' \<in> set (X (dl r')) \<or> (\<exists>u. P u = Serving r')" if "owns P r' u" "S r'" for r' u by (rule D(2) [OF that])
    show "u = v" if "owns P r' u" "owns P r' v" for r' u v by (rule D(3) [OF that])
    show "distinct (X l)" for l by (rule D(6))
    show "l = dl r' \<and> S r' \<and> (\<exists>t. owns P r' t) \<and> P u \<noteq> Serving r'" if "r' \<in> set (X l)" for l r' u
      using D(7-9) [OF that] D(10) [OF that, of u] by simp
    show "S r' \<and> (\<exists>t. owns P r' t)" if "P u = Serving r'" for r' u using D(11,12) [OF that] by simp
    show "u = v" if "P u = Serving r'" "P v = Serving r'" for r' u v by (rule D(13) [OF that])
  qed
qed

lemma requests_done:
  assumes inv: "requests_inv Q R P S dl X G" and P: "P t = Posted r \<or> P t = Awaiting r" and S: "\<not> S r"
    and t: "\<And>r. r \<in> R \<Longrightarrow> t \<notin> set (G (request_queue r))"
  shows "requests_inv Q R (P(t := Outside)) S dl X G"
proof -
  note D = requests_invD [OF inv]
  have o: "owns (P(t := Outside)) r' u \<longleftrightarrow> owns P r' u \<and> u \<noteq> t" for r' u by (auto simp: owns_upd)
  have sv: "(P(t := Outside)) u = Serving r' \<longleftrightarrow> P u = Serving r'" for r' u using P by auto
  have own: "owns P r' t \<Longrightarrow> r' = r" for r' using P by (auto simp: owns_def)
  have keep: "\<exists>u. owns P r' u \<and> u \<noteq> t" if "owns P r' v" "S r'" for r' v using that own S by blast
  show ?thesis
  proof (rule requests_invI, unfold o sv)
    show "(P(t := Outside)) u = Awaiting r' \<and> S r'" if "r' \<in> R" "u \<in> set (G (request_queue r'))" for r' u
      using D(4,5) [OF that] t [OF that(1)] that(2) by auto
    show "l = dl r' \<and> S r' \<and> (\<exists>u. owns P r' u \<and> u \<noteq> t) \<and> P v \<noteq> Serving r'" if "r' \<in> set (X l)" for l r' v
      using D(7-9) [OF that] D(10) [OF that, of v] keep by blast
    show "S r' \<and> (\<exists>u. owns P r' u \<and> u \<noteq> t)" if "P v = Serving r'" for r' v using D(11,12) [OF that] keep by blast
    show "r' \<in> R" if "owns P r' u \<and> u \<noteq> t" for r' u using that by (blast intro: D(1))
    show "r' \<in> set (X (dl r')) \<or> (\<exists>u. P u = Serving r')" if "owns P r' u \<and> u \<noteq> t" "S r'" for r' u
      using that D(2) [of r' u] by simp
    show "u = v" if "owns P r' u \<and> u \<noteq> t" "owns P r' v \<and> v \<noteq> t" for r' u v using that by (blast intro: D(3))
    show "distinct (X l)" for l by (rule D(6))
    show "u = v" if "P u = Serving r'" "P v = Serving r'" for r' u v by (rule D(13) [OF that])
  qed
qed

text \<open>The driver reports the outcome.\<close>

lemma requests_notify:
  assumes inv: "requests_inv Q R P S dl X G" and P: "P t = Serving r"
    and G: "\<And>r'. r' \<in> R \<Longrightarrow> G' (request_queue r') = (if r' = r then [] else G (request_queue r'))"
  shows "requests_inv Q R (P(t := Outside)) (S(r := False)) dl X G'"
proof -
  note D = requests_invD [OF inv]
  have o: "owns (P(t := Outside)) r' u \<longleftrightarrow> owns P r' u" for r' u using P by (auto simp: owns_def)
  have sv: "(P(t := Outside)) u = Serving r' \<longleftrightarrow> P u = Serving r' \<and> u \<noteq> t" for r' u by auto
  have nX: "r \<notin> set (X l)" for l using D(10) [of r l t] P by blast
  have one: "P u = Serving r \<Longrightarrow> u = t" for u using D(13) P by blast
  show ?thesis
  proof (rule requests_invI, unfold o sv)
    show "r' \<in> set (X (dl r')) \<or> (\<exists>u. P u = Serving r' \<and> u \<noteq> t)" if "owns P r' u" "(S(r := False)) r'" for r' u
      using D(2) [OF that(1)] that(2) P by (auto split: if_splits)
    show "(P(t := Outside)) u = Awaiting r' \<and> (S(r := False)) r'" if "r' \<in> R" "u \<in> set (G' (request_queue r'))" for r' u
      using D(4,5) [OF that(1), of u] G [OF that(1)] that(2) P by (auto split: if_splits)
    show "l = dl r' \<and> (S(r := False)) r' \<and> (\<exists>u. owns P r' u) \<and> \<not> (P v = Serving r' \<and> v \<noteq> t)" if "r' \<in> set (X l)" for l r' v
      using D(7-9) [OF that] D(10) [OF that, of v] nX that by auto
    show "(S(r := False)) r' \<and> (\<exists>u. owns P r' u)" if "P v = Serving r' \<and> v \<noteq> t" for r' v
      using D(11,12) [of v r'] that one by auto
    show "r' \<in> R" if "owns P r' u" for r' u by (rule D(1) [OF that])
    show "u = v" if "owns P r' u" "owns P r' v" for r' u v by (rule D(3) [OF that])
    show "distinct (X l)" for l by (rule D(6))
    show "u = v" if "P u = Serving r' \<and> u \<noteq> t" "P v = Serving r' \<and> v \<noteq> t" for r' u v using that by (blast intro: D(13))
  qed
qed

section \<open>Reachable states\<close>

definition waiting :: "bpc \<Rightarrow> bool" where
  "waiting p \<longleftrightarrow> (\<exists>r. p = Awaiting r) \<or> (\<exists>l w. p = Idling l w)"

definition bcalls :: "bio \<Rightarrow> bool" where
  "bcalls s \<longleftrightarrow> bpcs s (bcur s) = Outside \<and> priority (thr (bk s) (bcur s)) \<noteq> PRIORITY_IDLE"

text \<open>Devices at the addresses \<open>D\<close> belong to a driver whose thread sleeps on \<open>L\<close> of their
  request list.\<close>

definition devices_ok :: "(u32 \<Rightarrow> u32) \<Rightarrow> u32 set \<Rightarrow> u32 set \<Rightarrow> (u32 \<Rightarrow> block_device) \<Rightarrow> bool" where
  "devices_ok L Q D ds \<longleftrightarrow> (\<forall>d\<in>D. d \<noteq> 0 \<and> bd_requestQueue (ds d) \<in> Q \<and> bd_waitQueue (ds d) = L (bd_requestQueue (ds d)))"

definition unused :: "bio \<Rightarrow> u32 \<Rightarrow> bool" where
  "unused s r \<longleftrightarrow> (\<forall>t. bpcs s t \<noteq> Posted r \<and> bpcs s t \<noteq> Awaiting r)"

inductive breach :: "(u32 \<Rightarrow> u32) \<Rightarrow> u32 set \<Rightarrow> u32 set \<Rightarrow> u32 set \<Rightarrow> bio \<Rightarrow> bool" for L Q R D where
  init: "places_ok L Q R \<Longrightarrow> devices_ok L Q D (devs s) \<Longrightarrow> kcalm (bk s) \<Longrightarrow> 0 \<notin> R \<Longrightarrow>
    (\<And>t. bpcs s t = Outside) \<Longrightarrow> (\<And>l. rlists s l = []) \<Longrightarrow> (\<And>l. l \<in> Q \<Longrightarrow> queues (bk s) (WaitQ (L l)) = []) \<Longrightarrow>
    (\<And>r. r \<in> R \<Longrightarrow> queues (bk s) (request_queue r) = []) \<Longrightarrow> breach L Q R D s"
| switch: "breach L Q R D s \<Longrightarrow> \<not> waiting (bpcs s (bcur s)) \<Longrightarrow> onbk Yield s = Some s' \<Longrightarrow> breach L Q R D s'"
| sti: "breach L Q R D s \<Longrightarrow> \<not> waiting (bpcs s (bcur s)) \<Longrightarrow> breach L Q R D (s\<lparr>bk := (bk s)\<lparr>int_flag := True\<rparr>\<rparr>)"
| request: "breach L Q R D s \<Longrightarrow> bcalls s \<Longrightarrow> r = 0 \<or> r \<in> R \<and> unused s r \<Longrightarrow> d \<in> D \<Longrightarrow>
    Do_Request r d ty n b s = Some (rc, s') \<Longrightarrow> breach L Q R D s'"
| await: "breach L Q R D s \<Longrightarrow> bpcs s (bcur s) = Posted r \<Longrightarrow> Await_Request r s = Some (rc, s') \<Longrightarrow> breach L Q R D s'"
| again: "breach L Q R D s \<Longrightarrow> bpcs s (bcur s) = Awaiting r \<Longrightarrow> Await_round r s = Some (rc, s') \<Longrightarrow> breach L Q R D s'"
| dequeue: "breach L Q R D s \<Longrightarrow> bcalls s \<Longrightarrow> l \<in> Q \<Longrightarrow> Dequeue_Request l (L l) s = Some (r, s') \<Longrightarrow> breach L Q R D s'"
| retry: "breach L Q R D s \<Longrightarrow> bpcs s (bcur s) = Idling l w \<Longrightarrow> Dequeue_round l w s = Some (r, s') \<Longrightarrow> breach L Q R D s'"
| notify: "breach L Q R D s \<Longrightarrow> bpcs s (bcur s) = Serving r \<Longrightarrow> st \<noteq> PENDING \<Longrightarrow>
    Notify_Request_Completion r st rc s = Some s' \<Longrightarrow> breach L Q R D s'"

abbreviation (input) pending :: "bio \<Rightarrow> u32 \<Rightarrow> bool" where
  "pending s \<equiv> (\<lambda>r. r_state (reqs s r) = PENDING)"

abbreviation (input) list_of :: "bio \<Rightarrow> u32 \<Rightarrow> u32" where
  "list_of s \<equiv> (\<lambda>r. bd_requestQueue (devs s (r_dev (reqs s r))))"

definition binv :: "(u32 \<Rightarrow> u32) \<Rightarrow> u32 set \<Rightarrow> u32 set \<Rightarrow> u32 set \<Rightarrow> bio \<Rightarrow> bool" where
  "binv L Q R D s \<longleftrightarrow> places_ok L Q R \<and> devices_ok L Q D (devs s) \<and> kcalm (bk s) \<and> 0 \<notin> R \<and>
     (\<forall>t. bpcs s t \<noteq> Outside \<longrightarrow> priority (thr (bk s) t) \<noteq> PRIORITY_IDLE) \<and>
     drivers_inv L Q (bpcs s) (rlists s) (queues (bk s)) \<and>
     requests_inv Q R (bpcs s) (pending s) (list_of s) (rlists s) (queues (bk s))"

lemma binvD:
  assumes "binv L Q R D s"
  shows "places_ok L Q R" "devices_ok L Q D (devs s)" "kcalm (bk s)" "0 \<notin> R"
    "bpcs s t \<noteq> Outside \<Longrightarrow> priority (thr (bk s) t) \<noteq> PRIORITY_IDLE"
    "drivers_inv L Q (bpcs s) (rlists s) (queues (bk s))"
    "requests_inv Q R (bpcs s) (pending s) (list_of s) (rlists s) (queues (bk s))"
    "bcur s \<notin> set (queues (bk s) q)"
  using assms by (auto simp: binv_def kcalm_def kinv_def off_queues_def)

text \<open>Only the queues of waiting threads matter.\<close>

lemma requests_queues:
  assumes "requests_inv Q R P S dl X G" "\<And>r. r \<in> R \<Longrightarrow> G' (request_queue r) = G (request_queue r)"
  shows "requests_inv Q R P S dl X G'"
proof -
  note D = requests_invD [OF assms(1)]
  show ?thesis
  proof (rule requests_invI)
    show "P t = Awaiting r \<and> S r" if "r \<in> R" "t \<in> set (G' (request_queue r))" for r t
      using D(4,5) [OF that(1), of t] that assms(2) by simp
    show "l = dl r \<and> S r \<and> (\<exists>t. owns P r t) \<and> P u \<noteq> Serving r" if "r \<in> set (X l)" for l r u
      using D(7-9) [OF that] D(10) [OF that, of u] by simp
    show "S r \<and> (\<exists>t. owns P r t)" if "P u = Serving r" for r u using D(11,12) [OF that] by simp
  qed (fact D(1,2,3,6,13))+
qed

lemma drivers_queues:
  assumes "drivers_inv L Q P X G" "\<And>l. l \<in> Q \<Longrightarrow> G' (WaitQ (L l)) = G (WaitQ (L l))"
  shows "drivers_inv L Q P X G'"
  unfolding drivers_inv_def
proof (intro conjI allI impI ballI)
  show "l \<in> Q" "w = L l" if "P t = Idling l w" for t l w using drivers_invD(1,2) [OF assms(1) that] .
  show "P t = Idling l (L l)" if "l \<in> Q" "t \<in> set (G' (WaitQ (L l)))" for l t
    using drivers_invD(3) [OF assms(1) that(1), of t] that assms(2) by simp
  show "X l = []" if "l \<in> Q" "G' (WaitQ (L l)) \<noteq> []" for l
    using drivers_invD(4) [OF assms(1) that(1)] that assms(2) by simp
qed

lemma binvI:
  assumes "binv L Q R D s" "devs s' = devs s" "kcalm (bk s')"
    "\<And>t. bpcs s' t \<noteq> Outside \<Longrightarrow> priority (thr (bk s') t) \<noteq> PRIORITY_IDLE"
    "drivers_inv L Q (bpcs s') (rlists s') (queues (bk s'))"
    "requests_inv Q R (bpcs s') (pending s') (list_of s') (rlists s') (queues (bk s'))"
  shows "binv L Q R D s'"
  unfolding binv_def
proof (intro conjI allI impI)
  show "devices_ok L Q D (devs s')" unfolding assms(2) by (rule binvD(2) [OF assms(1)])
  show "priority (thr (bk s') t) \<noteq> 0" if "bpcs s' t \<noteq> Outside" for t by (rule assms(4) [OF that])
qed (rule binvD(1,4) [OF assms(1)] assms(3,5,6))+

lemma binv_kernel:
  assumes inv: "binv L Q R D s" and k: "kcalm k" "\<And>u. priority (thr k u) = priority (thr (bk s) u)"
    "\<And>q. is_wait_queue q \<Longrightarrow> queues k q = queues (bk s) q"
  shows "binv L Q R D (s\<lparr>bk := k\<rparr>)"
proof (rule binvI [OF inv])
  show "priority (thr (bk (s\<lparr>bk := k\<rparr>)) t) \<noteq> 0" if "bpcs (s\<lparr>bk := k\<rparr>) t \<noteq> Outside" for t
    using binvD(5) [OF inv, of t] that k(2) by simp
  show "drivers_inv L Q (bpcs (s\<lparr>bk := k\<rparr>)) (rlists (s\<lparr>bk := k\<rparr>)) (queues (bk (s\<lparr>bk := k\<rparr>)))"
    using drivers_queues [OF binvD(6) [OF inv], of "queues k"] k(3) by simp
  show "requests_inv Q R (bpcs (s\<lparr>bk := k\<rparr>)) (pending (s\<lparr>bk := k\<rparr>)) (list_of (s\<lparr>bk := k\<rparr>)) (rlists (s\<lparr>bk := k\<rparr>)) (queues (bk (s\<lparr>bk := k\<rparr>)))"
    using requests_queues [OF binvD(7) [OF inv], of "queues k"] k(3) by simp
qed (use k(1) in simp_all)

section \<open>Each step keeps the invariant\<close>

lemma set_queue_same: "queues k q = [] \<Longrightarrow> set_queue q [] k = k"
  by (simp add: set_queue_def fun_upd_idem)

lemma Do_Request_inv:
  assumes inv: "binv L Q R D s" and c: "bcalls s" and r: "r = 0 \<or> r \<in> R \<and> unused s r" and d: "d \<in> D"
    and IF: "int_flag (bk s)"
  shows "\<exists>rc s'. Do_Request r d ty n b s = Some (rc, s') \<and> binv L Q R D s' \<and>
    (r \<noteq> 0 \<longrightarrow> bcur s' = bcur s \<and> int_flag (bk s') \<and> bpcs s' = (bpcs s)(bcur s := Posted r) \<and>
      rlists s' = (rlists s)(bd_requestQueue (devs s d) := rlists s (bd_requestQueue (devs s d)) @ [r]))"
proof (cases "r = 0")
  case True
  then show ?thesis using inv by (simp add: Do_Request_def Create_Request_def)
next
  case False
  note B = binvD [OF inv]
  note I = requests_invD [OF B(7)]
  let ?c = "bcur s" and ?l = "bd_requestQueue (devs s d)"
  have un: "unused s r" and rR: "r \<in> R" using r False by auto
  then have no: "\<not> owns (bpcs s) r u" for u by (simp add: unused_def owns_def)
  have dl: "d \<noteq> 0" "?l \<in> Q" "bd_waitQueue (devs s d) = L ?l" using B(2) d by (simp_all add: devices_ok_def)
  let ?rq = "(reqs s r)\<lparr>r_dev := d, r_type := ty, r_blockNum := n, r_buf := b, r_state := PENDING\<rparr>"
  have "u \<notin> set (queues (bk s) (request_queue r))" for u
    using I(4) [OF rR, of u] no [of u] by (auto simp: owns_def)
  then have qe: "queues (bk s) (request_queue r) = []" by (cases "queues (bk s) (request_queue r)") auto
  have cr: "Create_Request r d ty n b s = (r, s\<lparr>reqs := (reqs s)(r := ?rq)\<rparr>)"
    using False by (simp add: Create_Request_def set_queue_same [OF qe])
  have nX: "r \<notin> set (rlists s ?l)" using I(9) [of r ?l] no by blast
  have "kcalm ((bk s)\<lparr>int_flag := False\<rparr>)" using B(3) by simp
  from Wake_Up_calm [OF this, of "WaitQ (L ?l)"] obtain k where k:
    "Wake_Up (WaitQ (L ?l)) ((bk s)\<lparr>int_flag := False\<rparr>) = Some k" "kcalm k" "\<not> int_flag k" "g_currentThread k = ?c"
    "\<And>u. priority (thr k u) = priority (thr (bk s) u)"
    "\<And>q'. is_wait_queue q' \<Longrightarrow> queues k q' = (if q' = WaitQ (L ?l) then [] else queues (bk s) q')" by auto
  define s' where "s' = s\<lparr>reqs := (reqs s)(r := ?rq), rlists := (rlists s)(?l := rlists s ?l @ [r]),
    bk := k\<lparr>int_flag := True\<rparr>, bpcs := (bpcs s)(?c := Posted r)\<rparr>"
  have sel: "bpcs s' = (bpcs s)(?c := Posted r)" "rlists s' = (rlists s)(?l := rlists s ?l @ [r])"
    "queues (bk s') = queues k" by (simp_all add: s'_def)
  have run: "Do_Request r d ty n b s = Some (None, s')"
    using False IF dl nX k(1,3,4) by (simp add: Do_Request_def cr Post_Request_def Let_def onbk_def s'_def set_rlist_def set_bpc_def)
  have "binv L Q R D s'"
  proof (rule binvI [OF inv])
    show "priority (thr (bk s') t) \<noteq> 0" if "bpcs s' t \<noteq> Outside" for t
      using B(5) [of t] that c k(5) by (cases "t = ?c") (simp_all add: s'_def bcalls_def)
    show "drivers_inv L Q (bpcs s') (rlists s') (queues (bk s'))"
      unfolding sel
    proof (rule drivers_step [OF B(6) B(8)])
      show "u \<in> set (queues (bk s) (WaitQ (L l))) \<or> u = ?c \<and> Posted r = Idling l (L l)"
        if "u \<in> set (queues k (WaitQ (L l)))" for l u
        using that k(6) by (auto split: if_splits)
      show "((rlists s)(?l := rlists s ?l @ [r])) l = []" if "l \<in> Q" "queues k (WaitQ (L l)) \<noteq> []" for l
        using that k(6) drivers_invD(4) [OF B(6) that(1)] by (auto split: if_splits)
    qed simp_all
    have e: "pending s' = (pending s)(r := True)" "list_of s' = (list_of s)(r := ?l)"
      by (simp_all add: s'_def fun_eq_iff)
    show "requests_inv Q R (bpcs s') (pending s') (list_of s') (rlists s') (queues (bk s'))"
      unfolding e sel
    proof (rule requests_post [OF B(7) rR no])
      show "set (queues k (request_queue r')) \<subseteq> set (queues (bk s) (request_queue r'))" for r'
        using k(6) by simp
    qed (use c in \<open>simp add: bcalls_def\<close>)
  qed (simp_all add: s'_def k(2))
  with run k(4) show ?thesis by (intro exI [of _ None] exI [of _ s']) (simp add: s'_def)
qed

lemma Await_round_inv:
  assumes inv: "binv L Q R D s" and P: "bpcs s (bcur s) = Posted r \<or> bpcs s (bcur s) = Awaiting r"
    and IF: "\<not> int_flag (bk s)"
  shows "\<exists>rc s'. Await_round r s = Some (rc, s') \<and> binv L Q R D s' \<and>
    (r_state (reqs s r) \<noteq> PENDING \<longrightarrow> rc = Some (r_errorCode (reqs s r)) \<and> bpcs s' (bcur s') = Outside)"
proof -
  note B = binvD [OF inv]
  let ?c = "bcur s"
  have pr: "priority (thr (bk s) ?c) \<noteq> 0" using B(5) [of ?c] P by auto
  have rR: "r \<in> R" using requests_invD(1) [OF B(7), of r ?c] P by (simp add: owns_def)
  show ?thesis
  proof (cases "pending s r")
    case False
    define s' where "s' = s\<lparr>bk := (bk s)\<lparr>int_flag := True\<rparr>, bpcs := (bpcs s)(?c := Outside)\<rparr>"
    have sel: "bpcs s' = (bpcs s)(?c := Outside)" "rlists s' = rlists s" "queues (bk s') = queues (bk s)"
      by (simp_all add: s'_def)
    have run: "Await_round r s = Some (Some (r_errorCode (reqs s r)), s')"
      using False IF by (simp add: Await_round_def s'_def set_bpc_def)
    have "binv L Q R D s'"
    proof (rule binvI [OF inv])
      show "priority (thr (bk s') t) \<noteq> 0" if "bpcs s' t \<noteq> Outside" for t
        using B(5) [of t] that by (cases "t = ?c") (simp_all add: s'_def)
      show "drivers_inv L Q (bpcs s') (rlists s') (queues (bk s'))"
        unfolding sel
        by (rule drivers_step [OF B(6) B(8)]) (use drivers_invD(4) [OF B(6)] in simp_all)
      show "requests_inv Q R (bpcs s') (pending s') (list_of s') (rlists s') (queues (bk s'))"
        using requests_done [OF B(7) P False B(8)] by (simp add: s'_def)
    qed (simp_all add: s'_def B(3))
    with run show ?thesis by (intro exI [of _ "Some (r_errorCode (reqs s r))"] exI [of _ s']) (simp add: s'_def)
  next
    case True
    from Wait_calm [OF B(3) IF is_wait_request pr, of r] obtain k where k: "Wait (request_queue r) (bk s) = Some k"
      "kcalm k" "\<not> int_flag k" "\<And>u. priority (thr k u) = priority (thr (bk s) u)"
      "\<And>q'. is_wait_queue q' \<Longrightarrow> queues k q' = (if q' = request_queue r then queues (bk s) q' @ [?c] else queues (bk s) q')"
      by blast
    define s' where "s' = s\<lparr>bk := k, bpcs := (bpcs s)(?c := Awaiting r)\<rparr>"
    have sel: "bpcs s' = (bpcs s)(?c := Awaiting r)" "rlists s' = rlists s" "queues (bk s') = queues k"
      by (simp_all add: s'_def)
    have run: "Await_round r s = Some (None, s')"
      using True k(1) by (simp add: Await_round_def s'_def set_bpc_def onbk_def)
    have qk: "queues k (WaitQ (L l)) = queues (bk s) (WaitQ (L l))" if "l \<in> Q" for l
      using k(5) [of "WaitQ (L l)"] places_okD(3) [OF B(1) rR that] by simp
    have "binv L Q R D s'"
    proof (rule binvI [OF inv])
      show "priority (thr (bk s') t) \<noteq> 0" if "bpcs s' t \<noteq> Outside" for t
        using B(5) [of t] that pr k(4) by (cases "t = ?c") (simp_all add: s'_def)
      show "drivers_inv L Q (bpcs s') (rlists s') (queues (bk s'))"
        unfolding sel
        by (rule drivers_step [OF B(6) B(8)]) (use drivers_invD(4) [OF B(6)] qk in simp_all)
      show "requests_inv Q R (bpcs s') (pending s') (list_of s') (rlists s') (queues (bk s'))"
        using requests_wait [OF B(7) P True, of "queues k"] k(5) by (simp add: s'_def)
    qed (simp_all add: s'_def k(2))
    with run True show ?thesis by (intro exI [of _ None] exI [of _ s']) simp
  qed
qed

lemma Dequeue_round_inv:
  assumes inv: "binv L Q R D s" and P: "bcalls s \<or> bpcs s (bcur s) = Idling l (L l)" and l: "l \<in> Q"
    and IF: "\<not> int_flag (bk s)"
  shows "\<exists>r s'. Dequeue_round l (L l) s = Some (r, s') \<and> binv L Q R D s' \<and>
    (rlists s l \<noteq> [] \<longrightarrow> r = Some (hd (rlists s l)) \<and> rlists s' l = tl (rlists s l) \<and>
      bpcs s' (bcur s') = Serving (hd (rlists s l)))"
proof -
  note B = binvD [OF inv]
  let ?c = "bcur s"
  have pr: "priority (thr (bk s) ?c) \<noteq> 0" using B(5) [of ?c] P by (auto simp: bcalls_def)
  have no: "\<not> owns (bpcs s) r ?c" "bpcs s ?c \<noteq> Serving r" for r using P by (auto simp: owns_def bcalls_def)
  show ?thesis
  proof (cases "rlists s l")
    case (Cons r rs)
    define s' where "s' = s\<lparr>rlists := (rlists s)(l := rs), bk := (bk s)\<lparr>int_flag := True\<rparr>, bpcs := (bpcs s)(?c := Serving r)\<rparr>"
    have sel: "bpcs s' = (bpcs s)(?c := Serving r)" "rlists s' = (rlists s)(l := rs)" "queues (bk s') = queues (bk s)"
      by (simp_all add: s'_def)
    have run: "Dequeue_round l (L l) s = Some (Some r, s')"
      using Cons IF by (simp add: Dequeue_round_def s'_def set_bpc_def set_rlist_def)
    have "binv L Q R D s'"
    proof (rule binvI [OF inv])
      show "priority (thr (bk s') t) \<noteq> 0" if "bpcs s' t \<noteq> Outside" for t
        using B(5) [of t] that pr by (cases "t = ?c") (simp_all add: s'_def)
      show "drivers_inv L Q (bpcs s') (rlists s') (queues (bk s'))"
        unfolding sel
        by (rule drivers_step [OF B(6) B(8)]) (use drivers_invD(4) [OF B(6)] Cons in \<open>auto split: if_splits\<close>)
      show "requests_inv Q R (bpcs s') (pending s') (list_of s') (rlists s') (queues (bk s'))"
        using requests_take [OF B(7) Cons no, of "queues (bk s)"] by (simp add: s'_def)
    qed (simp_all add: s'_def B(3))
    with run Cons show ?thesis by (intro exI [of _ "Some r"] exI [of _ s']) (simp add: s'_def)
  next
    case Nil
    from Wait_calm [OF B(3) IF is_wait_queue_simps(5) pr, of "L l"] obtain k where k: "Wait (WaitQ (L l)) (bk s) = Some k"
      "kcalm k" "\<And>u. priority (thr k u) = priority (thr (bk s) u)"
      "\<And>q'. is_wait_queue q' \<Longrightarrow> queues k q' = (if q' = WaitQ (L l) then queues (bk s) q' @ [?c] else queues (bk s) q')"
      by blast
    define s' where "s' = s\<lparr>bk := k, bpcs := (bpcs s)(?c := Idling l (L l))\<rparr>"
    have sel: "bpcs s' = (bpcs s)(?c := Idling l (L l))" "rlists s' = rlists s" "queues (bk s') = queues k"
      by (simp_all add: s'_def)
    have run: "Dequeue_round l (L l) s = Some (None, s')"
      using Nil k(1) by (simp add: Dequeue_round_def s'_def set_bpc_def onbk_def)
    have qw: "queues k (WaitQ (L l')) = (if l' = l then queues (bk s) (WaitQ (L l')) @ [?c] else queues (bk s) (WaitQ (L l')))"
      if "l' \<in> Q" for l'
      using k(4) [of "WaitQ (L l')"] places_okD(1) [OF B(1) that l] by auto
    have qr: "queues k (request_queue r) = queues (bk s) (request_queue r)" if "r \<in> R" for r
      using k(4) [of "request_queue r"] places_okD(2) [OF B(1) that l] by simp
    have "binv L Q R D s'"
    proof (rule binvI [OF inv])
      show "priority (thr (bk s') t) \<noteq> 0" if "bpcs s' t \<noteq> Outside" for t
        using B(5) [of t] that pr k(3) by (cases "t = ?c") (simp_all add: s'_def)
      show "drivers_inv L Q (bpcs s') (rlists s') (queues (bk s'))"
        unfolding sel
      proof (rule drivers_step [OF B(6) B(8)])
        show "rlists s l' = []" if "l' \<in> Q" "queues k (WaitQ (L l')) \<noteq> []" for l'
          using that qw [OF that(1)] drivers_invD(4) [OF B(6) that(1)] Nil by (auto split: if_splits)
        show "u \<in> set (queues (bk s) (WaitQ (L l'))) \<or> u = ?c \<and> Idling l (L l) = Idling l' (L l')"
          if "l' \<in> Q" "u \<in> set (queues k (WaitQ (L l')))" for l' u
          using that qw [OF that(1)] by (auto split: if_splits)
      qed (use l in simp_all)
      show "requests_inv Q R (bpcs s') (pending s') (list_of s') (rlists s') (queues (bk s'))"
        using requests_idle [OF B(7) no, of "Idling l (L l)" "queues k"] qr by (simp add: s'_def)
    qed (simp_all add: s'_def k(2))
    with run Nil show ?thesis by (intro exI [of _ None] exI [of _ s']) simp
  qed
qed

lemma Notify_inv:
  assumes inv: "binv L Q R D s" and P: "bpcs s (bcur s) = Serving r" and st: "st \<noteq> PENDING" and IF: "int_flag (bk s)"
  shows "\<exists>s'. Notify_Request_Completion r st rc s = Some s' \<and> binv L Q R D s' \<and>
    r_state (reqs s' r) = st \<and> r_errorCode (reqs s' r) = rc \<and> queues (bk s') (request_queue r) = []"
proof -
  note B = binvD [OF inv]
  let ?c = "bcur s"
  have pr: "priority (thr (bk s) ?c) \<noteq> 0" using B(5) [of ?c] P by simp
  have rR: "r \<in> R" using requests_invD(1,12) [OF B(7)] P by blast
  let ?rq = "(reqs s r)\<lparr>r_state := st, r_errorCode := rc\<rparr>"
  have "kcalm ((bk s)\<lparr>int_flag := False\<rparr>)" using B(3) by simp
  from Wake_Up_calm [OF this _ is_wait_request, of r] obtain k where k:
    "Wake_Up (request_queue r) ((bk s)\<lparr>int_flag := False\<rparr>) = Some k" "kcalm k" "\<not> int_flag k" "g_currentThread k = ?c"
    "\<And>u. priority (thr k u) = priority (thr (bk s) u)"
    "\<And>q'. is_wait_queue q' \<Longrightarrow> queues k q' = (if q' = request_queue r then [] else queues (bk s) q')" by auto
  define s' where "s' = s\<lparr>reqs := (reqs s)(r := ?rq), bk := k\<lparr>int_flag := True\<rparr>, bpcs := (bpcs s)(?c := Outside)\<rparr>"
  have sel: "bpcs s' = (bpcs s)(?c := Outside)" "rlists s' = rlists s" "queues (bk s') = queues k"
    by (simp_all add: s'_def)
  have run: "Notify_Request_Completion r st rc s = Some s'"
    using IF k(1,3,4) by (simp add: Notify_Request_Completion_def onbk_def s'_def set_bpc_def)
  have qw: "queues k (WaitQ (L l)) = queues (bk s) (WaitQ (L l))" if "l \<in> Q" for l
    using k(6) [of "WaitQ (L l)"] places_okD(3) [OF B(1) rR that] by simp
  have e: "pending s' = (pending s)(r := False)" "list_of s' = list_of s"
    using st by (simp_all add: s'_def fun_eq_iff)
  have "binv L Q R D s'"
  proof (rule binvI [OF inv])
    show "priority (thr (bk s') t) \<noteq> 0" if "bpcs s' t \<noteq> Outside" for t
      using B(5) [of t] that pr k(5) by (cases "t = ?c") (simp_all add: s'_def)
    show "drivers_inv L Q (bpcs s') (rlists s') (queues (bk s'))"
      unfolding sel
      by (rule drivers_step [OF B(6) B(8)]) (use drivers_invD(4) [OF B(6)] qw in simp_all)
    show "requests_inv Q R (bpcs s') (pending s') (list_of s') (rlists s') (queues (bk s'))"
      unfolding e sel by (rule requests_notify [OF B(7) P]) (use k(6) in simp)
  qed (simp_all add: s'_def k(2))
  with run k(6) show ?thesis by (intro exI [of _ s']) (simp add: s'_def)
qed

lemma onbk_Yield_inv:
  assumes "binv L Q R D s" "onbk Yield s = Some s'"
  shows "binv L Q R D s'"
proof -
  have IF: "int_flag (bk s)" using assms(2) by (auto simp: onbk_def Yield_def bind_Some_iff split: if_splits)
  obtain k where k: "Yield (bk s) = Some k" "kcalm k" "\<And>u. priority (thr k u) = priority (thr (bk s) u)"
    "\<And>q. is_wait_queue q \<Longrightarrow> queues k q = queues (bk s) q"
    using Yield_calm [OF binvD(3) [OF assms(1)] IF] by blast
  have "s' = s\<lparr>bk := k\<rparr>" using assms(2) k(1) by (simp add: onbk_def)
  with binv_kernel [OF assms(1) k(2-4)] show ?thesis by simp
qed

lemma breach_binv: "breach L Q R D s \<Longrightarrow> binv L Q R D s"
proof (induction rule: breach.induct)
  case (init s)
  then show ?case by (simp add: binv_def drivers_inv_def requests_inv_def owns_def)
next
  case (switch s s')
  then show ?case using onbk_Yield_inv by blast
next
  case (sti s)
  then show ?case using binv_kernel [OF sti.IH, of "(bk s)\<lparr>int_flag := True\<rparr>"] binvD(3) [OF sti.IH] by simp
next
  case (request s r d ty n b rc s')
  show ?case
  proof (cases "r = 0")
    case True
    then show ?thesis using request by (auto simp: Do_Request_def Create_Request_def)
  next
    case False
    then have IF: "int_flag (bk s)"
      using request.hyps(5) by (auto simp: Do_Request_def Create_Request_def Post_Request_def bind_Some_iff split: if_splits)
    from Do_Request_inv [OF request.IH request.hyps(2-4) IF, of ty n b] show ?thesis using request.hyps(5) by auto
  qed
next
  case (await s r rc s')
  then have IF: "int_flag (bk s)" and run: "Await_round r (s\<lparr>bk := (bk s)\<lparr>int_flag := False\<rparr>\<rparr>) = Some (rc, s')"
    by (auto simp: Await_Request_def split: if_splits)
  have "binv L Q R D (s\<lparr>bk := (bk s)\<lparr>int_flag := False\<rparr>\<rparr>)"
    using binv_kernel [OF await.IH, of "(bk s)\<lparr>int_flag := False\<rparr>"] binvD(3) [OF await.IH] by simp
  from Await_round_inv [OF this, of r] run await.hyps(2) show ?case by simp
next
  case (again s r rc s')
  have IF: "\<not> int_flag (bk s)"
    using again.hyps(3) by (auto simp: Await_round_def onbk_def Wait_def bind_Some_iff split: if_splits)
  from Await_round_inv [OF again.IH _ IF, of r] again.hyps(2,3) show ?case by simp
next
  case (dequeue s l r s')
  then have IF: "int_flag (bk s)" and run: "Dequeue_round l (L l) (s\<lparr>bk := (bk s)\<lparr>int_flag := False\<rparr>\<rparr>) = Some (r, s')"
    by (auto simp: Dequeue_Request_def split: if_splits)
  have "binv L Q R D (s\<lparr>bk := (bk s)\<lparr>int_flag := False\<rparr>\<rparr>)"
    using binv_kernel [OF dequeue.IH, of "(bk s)\<lparr>int_flag := False\<rparr>"] binvD(3) [OF dequeue.IH] by simp
  from Dequeue_round_inv [OF this _ dequeue.hyps(3)] run dequeue.hyps(2) show ?case by (simp add: bcalls_def)
next
  case (retry s l w r s')
  have w: "l \<in> Q" "w = L l" using drivers_invD(1,2) [OF binvD(6) [OF retry.IH] retry.hyps(2)] .
  have IF: "\<not> int_flag (bk s)"
    using retry.hyps(3) by (auto simp: Dequeue_round_def onbk_def Wait_def bind_Some_iff split: if_splits)
  from Dequeue_round_inv [OF retry.IH _ w(1) IF] retry.hyps(2,3) show ?case by (simp add: w(2))
next
  case (notify s r st rc s')
  have IF: "int_flag (bk s)"
    using notify.hyps(4) by (auto simp: Notify_Request_Completion_def split: if_splits)
  from Notify_inv [OF notify.IH notify.hyps(2,3) IF, of rc] notify.hyps(4) show ?case by simp
qed

section \<open>Properties\<close>

text \<open>One device and its request list, room for one request, and two threads.\<close>

definition sample_bio :: bio where
  "sample_bio = \<lparr>bk = sample_threads\<lparr>int_flag := True\<rparr>,
     reqs = (\<lambda>_. \<lparr>r_dev = 0, r_type = BLOCK_READ, r_blockNum = 0, r_buf = 0, r_state = COMPLETED, r_errorCode = 0\<rparr>),
     devs = (\<lambda>_. \<lparr>bd_name = ''ide0'', bd_unit = 0, bd_inUse = True, bd_waitQueue = 0x70000, bd_requestQueue = 0x71000\<rparr>),
     deviceList = [0x60000], rlists = (\<lambda>_. []), bpcs = (\<lambda>_. Outside)\<rparr>"

abbreviation (input) "sample_reach \<equiv> breach (\<lambda>_. 0x70000) {0x71000} {0x80000} {0x60000}"

lemma sample_bio_reach: "sample_reach sample_bio"
proof (rule breach.init)
  show "kcalm (bk sample_bio)" using sample_threads_ok by (simp add: sample_bio_def kcalm_def)
qed (simp_all add: sample_bio_def places_ok_def devices_ok_def request_queue_def sample_threads_def)

lemma sample_posted:
  "\<exists>rc s. Do_Request 0x80000 0x60000 BLOCK_READ 5 0x90000 sample_bio = Some (rc, s) \<and> sample_reach s \<and>
    bcur s = 1 \<and> bpcs s 1 = Posted 0x80000 \<and> int_flag (bk s) \<and> rlists s 0x71000 = [0x80000]"
proof -
  have c: "bcalls sample_bio" by (simp add: bcalls_def sample_bio_def sample_threads_def zero_thread_def)
  have u: "0x80000 = (0 :: u32) \<or> 0x80000 \<in> {0x80000 :: u32} \<and> unused sample_bio 0x80000"
    by (simp add: unused_def sample_bio_def)
  have IF: "int_flag (bk sample_bio)" by (simp add: sample_bio_def)
  obtain rc s where s: "Do_Request 0x80000 0x60000 BLOCK_READ 5 0x90000 sample_bio = Some (rc, s)" "bcur s = bcur sample_bio"
    "int_flag (bk s)" "bpcs s = (bpcs sample_bio)(bcur sample_bio := Posted 0x80000)"
    "rlists s = (rlists sample_bio)(0x71000 := [0x80000])"
    using Do_Request_inv [OF breach_binv [OF sample_bio_reach] c u _ IF, of "0x60000" BLOCK_READ 5 "0x90000"]
    by (auto simp: sample_bio_def)
  have "sample_reach s" by (rule breach.request [OF sample_bio_reach c u _ s(1)]) simp
  with s show ?thesis by (auto simp: sample_bio_def sample_threads_def)
qed

text \<open>C27: No request is forgotten and no wake-up is lost: at every moment, a request some thread
  waits for that is not done is on the request list of its device or has been taken by a
  driver; while requests are on a list no driver sleeps waiting for one; and no thread sleeps
  on a request that is done.\<close>

theorem no_request_forgotten:
  assumes "breach L Q R D s"
  shows "(\<forall>t r. bpcs s t = Posted r \<or> bpcs s t = Awaiting r \<longrightarrow> r_state (reqs s r) = PENDING \<longrightarrow>
      r \<in> set (rlists s (bd_requestQueue (devs s (r_dev (reqs s r))))) \<or> (\<exists>u. bpcs s u = Serving r)) \<and>
    (\<forall>l\<in>Q. rlists s l \<noteq> [] \<longrightarrow> queues (bk s) (WaitQ (L l)) = []) \<and>
    (\<forall>r\<in>R. \<forall>t\<in>set (queues (bk s) (request_queue r)). bpcs s t = Awaiting r \<and> r_state (reqs s r) = PENDING)"
proof -
  note B = binvD [OF breach_binv [OF assms]]
  show ?thesis
  proof (intro conjI allI ballI impI)
    show "r \<in> set (rlists s (list_of s r)) \<or> (\<exists>u. bpcs s u = Serving r)"
      if "bpcs s t = Posted r \<or> bpcs s t = Awaiting r" "pending s r" for t r
      by (rule requests_invD(2) [OF B(7) _ that(2)]) (use that(1) in \<open>simp add: owns_def\<close>)
    show "queues (bk s) (WaitQ (L l)) = []" if "l \<in> Q" "rlists s l \<noteq> []" for l
      using drivers_invD(4) [OF B(6) that(1)] that(2) by blast
    show "bpcs s t = Awaiting r" "pending s r" if "r \<in> R" "t \<in> set (queues (bk s) (request_queue r))" for r t
      using requests_invD(4,5) [OF B(7) that] .
  qed
qed

lemma no_request_forgotten_witness:
  "\<exists>rc s. Do_Request 0x80000 0x60000 BLOCK_READ 5 0x90000 sample_bio = Some (rc, s) \<and>
    rlists s 0x71000 \<noteq> [] \<and> queues (bk s) (WaitQ 0x70000) = []"
proof -
  obtain rc s where s: "Do_Request 0x80000 0x60000 BLOCK_READ 5 0x90000 sample_bio = Some (rc, s)" "sample_reach s"
    "rlists s 0x71000 = [0x80000]" using sample_posted by blast
  with no_request_forgotten [OF s(2)] show ?thesis by auto
qed

text \<open>Block I/O goes on: a thread inside a request or inside the driver's loop takes its next
  step without a failing assertion.  A request is taken in the order of the list; once the
  driver has reported the outcome, the thread that posted the request returns with the error
  code the driver gave.\<close>

theorem block_io_goes_on:
  assumes "breach L Q R D s"
  shows "(bpcs s (bcur s) = Awaiting r \<and> \<not> int_flag (bk s) \<longrightarrow>
      (\<exists>rc s'. Await_round r s = Some (rc, s') \<and> breach L Q R D s' \<and>
        (r_state (reqs s r) \<noteq> PENDING \<longrightarrow> rc = Some (r_errorCode (reqs s r)) \<and> bpcs s' (bcur s') = Outside))) \<and>
    (bpcs s (bcur s) = Posted r \<and> int_flag (bk s) \<longrightarrow>
      (\<exists>rc s'. Await_Request r s = Some (rc, s') \<and> breach L Q R D s' \<and>
        (r_state (reqs s r) \<noteq> PENDING \<longrightarrow> rc = Some (r_errorCode (reqs s r)) \<and> bpcs s' (bcur s') = Outside))) \<and>
    (bpcs s (bcur s) = Idling l w \<and> \<not> int_flag (bk s) \<longrightarrow>
      (\<exists>r s'. Dequeue_round l w s = Some (r, s') \<and> breach L Q R D s' \<and>
        (rlists s l \<noteq> [] \<longrightarrow> r = Some (hd (rlists s l)) \<and> bpcs s' (bcur s') = Serving (hd (rlists s l))))) \<and>
    (bpcs s (bcur s) = Serving r \<and> int_flag (bk s) \<and> st \<noteq> PENDING \<longrightarrow>
      (\<exists>s'. Notify_Request_Completion r st rc s = Some s' \<and> breach L Q R D s' \<and>
        r_state (reqs s' r) = st \<and> r_errorCode (reqs s' r) = rc))"
proof -
  note inv = breach_binv [OF assms]
  note B = binvD [OF inv]
  let ?s = "s\<lparr>bk := (bk s)\<lparr>int_flag := False\<rparr>\<rparr>"
  have inv': "binv L Q R D ?s" using binv_kernel [OF inv, of "(bk s)\<lparr>int_flag := False\<rparr>"] B(3) by simp
  show ?thesis
  proof (intro conjI impI; (elim conjE)?)
    assume p: "bpcs s (bcur s) = Awaiting r" "\<not> int_flag (bk s)"
    from Await_round_inv [OF inv _ p(2), of r] p(1) breach.again [OF assms p(1)]
    show "\<exists>rc s'. Await_round r s = Some (rc, s') \<and> breach L Q R D s' \<and>
        (r_state (reqs s r) \<noteq> PENDING \<longrightarrow> rc = Some (r_errorCode (reqs s r)) \<and> bpcs s' (bcur s') = Outside)" by blast
  next
    assume p: "bpcs s (bcur s) = Posted r" "int_flag (bk s)"
    have e: "Await_Request r s = Await_round r ?s" using p(2) by (simp add: Await_Request_def)
    from Await_round_inv [OF inv', of r] p(1) breach.await [OF assms p(1)]
    show "\<exists>rc s'. Await_Request r s = Some (rc, s') \<and> breach L Q R D s' \<and>
        (r_state (reqs s r) \<noteq> PENDING \<longrightarrow> rc = Some (r_errorCode (reqs s r)) \<and> bpcs s' (bcur s') = Outside)"
      unfolding e by auto
  next
    assume p: "bpcs s (bcur s) = Idling l w" "\<not> int_flag (bk s)"
    have w: "l \<in> Q" "w = L l" using drivers_invD(1,2) [OF B(6) p(1)] .
    from Dequeue_round_inv [OF inv _ w(1) p(2)] p(1) breach.retry [OF assms p(1)]
    show "\<exists>r s'. Dequeue_round l w s = Some (r, s') \<and> breach L Q R D s' \<and>
        (rlists s l \<noteq> [] \<longrightarrow> r = Some (hd (rlists s l)) \<and> bpcs s' (bcur s') = Serving (hd (rlists s l)))"
      unfolding w(2) by blast
  next
    assume p: "bpcs s (bcur s) = Serving r" "int_flag (bk s)" "st \<noteq> PENDING"
    from Notify_inv [OF inv p(1,3,2), of rc] breach.notify [OF assms p(1,3)]
    show "\<exists>s'. Notify_Request_Completion r st rc s = Some s' \<and> breach L Q R D s' \<and>
        r_state (reqs s' r) = st \<and> r_errorCode (reqs s' r) = rc" by blast
  qed
qed

lemma block_io_goes_on_witness:
  "\<exists>rc s rc' s'. Do_Request 0x80000 0x60000 BLOCK_READ 5 0x90000 sample_bio = Some (rc, s) \<and>
    Await_Request 0x80000 s = Some (rc', s')"
proof -
  obtain rc s where s: "Do_Request 0x80000 0x60000 BLOCK_READ 5 0x90000 sample_bio = Some (rc, s)" "sample_reach s"
    "bcur s = 1" "bpcs s 1 = Posted 0x80000" "int_flag (bk s)" using sample_posted by blast
  with block_io_goes_on [OF s(2), of "0x80000"] show ?thesis by auto
qed

text \<open>A registered device can be opened by one user at a time: the open succeeds if the driver
  agrees, a second open is refused as busy until the device is closed, and an unknown name
  is refused.\<close>

theorem device_open_exclusive:
  assumes "malloc \<noteq> 0" "malloc \<notin> set (deviceList s)" "length nam < 15" "wq \<noteq> 0" "rq \<noteq> 0" "ops malloc = 0"
    "\<forall>d\<in>set (deviceList s). bd_name (devs s d) \<noteq> nam"
  shows "Open_Block_Device ops nam s = (ENODEV, None, s) \<and>
    (\<exists>s1 s2 s3. Register_Block_Device malloc nam unit wq rq s = Some (0, s1) \<and>
      Open_Block_Device ops nam s1 = (0, Some malloc, s2) \<and> Open_Block_Device ops nam s2 = (EBUSY, None, s2) \<and>
      Close_Block_Device ops malloc s2 = Some (0, s3) \<and> fst (Open_Block_Device ops nam s3) = 0)"
proof -
  have none: "List.find (\<lambda>d. bd_name (devs s d) = nam) (deviceList s) = None" using assms(7) by (simp add: find_None_iff)
  have app: "List.find p (xs @ [y]) = Some y" if "List.find p xs = None" "p y" for p and xs :: "u32 list" and y
    using that by (induction xs) (auto split: if_splits)
  have f: "List.find (\<lambda>d. bd_name (if d = malloc then x else devs s d) = nam) (deviceList s @ [malloc]) = Some malloc"
    if "bd_name x = nam" for x
  proof (rule app)
    show "List.find (\<lambda>d. bd_name (if d = malloc then x else devs s d) = nam) (deviceList s) = None"
      using assms(2,7) by (auto simp: find_None_iff)
  qed (simp add: that)
  show ?thesis
    using none assms(1-6) by (simp add: Open_Block_Device_def Register_Block_Device_def Close_Block_Device_def Let_def f)
qed

lemma device_open_exclusive_witness:
  "fst (Open_Block_Device (\<lambda>_. 0) ''fd0'' sample_bio) = - 4"
  using device_open_exclusive [of "0x61000" sample_bio "''fd0''" 1 1 "\<lambda>_. 0"] by (simp add: sample_bio_def)

end
