(* ===== verification/BufCache.thy ===== *)
theory BufCache
  imports Machine
begin

text \<open>
  The file systems' buffer cache, \<open>geekos/bufcache.c\<close>, over a block device.

  \<open>Block_Read\<close> and \<open>Block_Write\<close> (\<open>BlockDev\<close>) are seen by their callers as \<open>dev_read\<close> and
  \<open>dev_write\<close>: transfers of one 512-byte sector that return 0 or the error code the driver reported for
  that sector (\<open>rd_rc\<close>, \<open>wr_rc\<close>).  A buffer object is named by its address.  The operations
  run with the cache's mutex held (\<open>Synch\<close>), so each is one step; \<open>env\<close> is what other threads
  do to the cache while \<open>Get_Buffer\<close> waits for a buffer to be released.
\<close>

section \<open>The device\<close>

record disk =
  sector :: "int \<Rightarrow> u8 list"
  rd_rc :: "int \<Rightarrow> int"
  wr_rc :: "int \<Rightarrow> int"
  numSectors :: int

abbreviation (input) "SECTOR_SIZE \<equiv> 512 :: nat"
abbreviation (input) "PAGE_SIZE \<equiv> 4096 :: nat"

definition dev_read :: "disk \<Rightarrow> int \<Rightarrow> int \<times> u8 list" where
  "dev_read d n = (rd_rc d n, sector d n)"

definition dev_write :: "disk \<Rightarrow> int \<Rightarrow> u8 list \<Rightarrow> int \<times> disk" where
  "dev_write d n xs = (if wr_rc d n = 0 then (0, d\<lparr>sector := (sector d)(n := xs)\<rparr>) else (wr_rc d n, d))"

section \<open>State\<close>

record fsbuf =
  fsBlockNum :: u32
  bdata :: "u8 list"
  bflags :: u32

record fscache =
  dev :: disk
  fsBlockSize :: u32
  numCached :: u32
  bufferList :: "u32 list"
  bufs :: "u32 \<Rightarrow> fsbuf"

abbreviation (input) "FS_BUFFER_CACHE_MAX_BLOCKS \<equiv> 128 :: u32"

definition dirty :: "fsbuf \<Rightarrow> bool" where
  "dirty b \<longleftrightarrow> bit (bflags b) 0"

definition inuse :: "fsbuf \<Rightarrow> bool" where
  "inuse b \<longleftrightarrow> bit (bflags b) 1"

definition set_dirty :: "bool \<Rightarrow> fsbuf \<Rightarrow> fsbuf" where
  "set_dirty v b = b\<lparr>bflags := (if v then set_bit 0 (bflags b) else unset_bit 0 (bflags b))\<rparr>"

definition set_inuse :: "bool \<Rightarrow> fsbuf \<Rightarrow> fsbuf" where
  "set_inuse v b = b\<lparr>bflags := (if v then set_bit 1 (bflags b) else unset_bit 1 (bflags b))\<rparr>"

definition upd_buf :: "u32 \<Rightarrow> (fsbuf \<Rightarrow> fsbuf) \<Rightarrow> fscache \<Rightarrow> fscache" where
  "upd_buf a f c = c\<lparr>bufs := (bufs c)(a := f (bufs c a))\<rparr>"

section \<open>Transfers\<close>

text \<open>\<open>xs\<close> put at offset \<open>off\<close> of \<open>ys\<close>.\<close>

definition splice :: "nat \<Rightarrow> 'a list \<Rightarrow> 'a list \<Rightarrow> 'a list" where
  "splice off xs ys = take off ys @ xs @ drop (off + length xs) ys"

definition Get_Num_Sectors_Per_FS_Block :: "fscache \<Rightarrow> u32" where
  "Get_Num_Sectors_Per_FS_Block c = fsBlockSize c div 512"

text \<open>The loop of \<open>Do_Buffer_IO\<close> with \<open>n\<close> sectors to go, reading and writing.\<close>

fun read_sectors :: "disk \<Rightarrow> int \<Rightarrow> nat \<Rightarrow> nat \<Rightarrow> u8 list \<Rightarrow> int \<times> u8 list" where
  "read_sectors d blk off 0 xs = (0, xs)"
| "read_sectors d blk off (Suc n) xs =
     (case dev_read d blk of (rc, sec) \<Rightarrow>
        if rc \<noteq> 0 then (rc, xs) else read_sectors d (blk + 1) (off + SECTOR_SIZE) n (splice off sec xs))"

fun write_sectors :: "disk \<Rightarrow> int \<Rightarrow> nat \<Rightarrow> nat \<Rightarrow> u8 list \<Rightarrow> int \<times> disk" where
  "write_sectors d blk off 0 xs = (0, d)"
| "write_sectors d blk off (Suc n) xs =
     (case dev_write d blk (take SECTOR_SIZE (drop off xs)) of (rc, d') \<Rightarrow>
        if rc \<noteq> 0 then (rc, d') else write_sectors d' (blk + 1) (off + SECTOR_SIZE) n xs)"

definition first_sector :: "fscache \<Rightarrow> u32 \<Rightarrow> int" where
  "first_sector c n = sint (n * Get_Num_Sectors_Per_FS_Block c)"

text \<open>The number of rounds of a loop that counts the offset up by the sector size.\<close>

definition io_rounds :: "fscache \<Rightarrow> nat" where
  "io_rounds c = (unat (fsBlockSize c) + 511) div 512"

definition Do_Buffer_Read :: "fscache \<Rightarrow> u32 \<Rightarrow> (int \<times> fscache) kres" where
  "Do_Buffer_Read c a = do {
     let (rc, xs) = read_sectors (dev c) (first_sector c (fsBlockNum (bufs c a))) 0 (io_rounds c) (bdata (bufs c a));
     KASSERT (rc \<noteq> 0 \<or> io_rounds c * SECTOR_SIZE = unat (fsBlockSize c));
     KASSERT (rc \<noteq> 0 \<or> io_rounds c = unat (Get_Num_Sectors_Per_FS_Block c));
     Some (rc, upd_buf a (\<lambda>b. b\<lparr>bdata := xs\<rparr>) c) }"

definition Do_Buffer_Write :: "fscache \<Rightarrow> u32 \<Rightarrow> (int \<times> fscache) kres" where
  "Do_Buffer_Write c a = do {
     let (rc, d) = write_sectors (dev c) (first_sector c (fsBlockNum (bufs c a))) 0 (io_rounds c) (bdata (bufs c a));
     KASSERT (rc \<noteq> 0 \<or> io_rounds c * SECTOR_SIZE = unat (fsBlockSize c));
     KASSERT (rc \<noteq> 0 \<or> io_rounds c = unat (Get_Num_Sectors_Per_FS_Block c));
     Some (rc, c\<lparr>dev := d\<rparr>) }"

definition Sync_Buffer :: "u32 \<Rightarrow> fscache \<Rightarrow> (int \<times> fscache) kres" where
  "Sync_Buffer a c =
     (if dirty (bufs c a) then do {
        (rc, c) \<leftarrow> Do_Buffer_Write c a;
        Some (rc, if rc = 0 then upd_buf a (set_dirty False) c else c) }
      else Some (0, c))"

definition Move_To_Front :: "u32 \<Rightarrow> fscache \<Rightarrow> fscache kres" where
  "Move_To_Front a c = do {
     l \<leftarrow> Unlink (bufferList c) a;
     l \<leftarrow> Push_Front l a;
     Some (c\<lparr>bufferList := l\<rparr>) }"

section \<open>Getting a buffer\<close>

text \<open>The search: the buffer of the block, else the last buffer that is not in use.\<close>

fun search :: "(u32 \<Rightarrow> fsbuf) \<Rightarrow> u32 \<Rightarrow> u32 list \<Rightarrow> u32 option \<Rightarrow> u32 option \<times> u32 option" where
  "search bs n [] lru = (None, lru)"
| "search bs n (a # as) lru =
     (if fsBlockNum (bs a) = n then (Some a, lru)
      else search bs n as (if inuse (bs a) then lru else Some a))"

partial_function (option) wait_available :: "(fscache \<Rightarrow> fscache) \<Rightarrow> u32 \<Rightarrow> fscache \<Rightarrow> fscache kres" where
  "wait_available env a c = (if inuse (bufs c a) then wait_available env a (env c) else Some c)"

definition acquire :: "u32 \<Rightarrow> fscache \<Rightarrow> (int \<times> u32 \<times> fscache) kres" where
  "acquire a c = Some (0, a, upd_buf a (set_inuse True) c)"

definition readAndAcquire :: "u32 \<Rightarrow> fscache \<Rightarrow> (int \<times> u32 \<times> fscache) kres" where
  "readAndAcquire a c = do {
     KASSERT (\<not> dirty (bufs c a));
     KASSERT (bufferList c \<noteq> [] \<and> hd (bufferList c) = a);
     (rc, c) \<leftarrow> Do_Buffer_Read c a;
     if rc \<noteq> 0 then Some (rc, 0, c) else acquire a c }"

text \<open>\<open>mem\<close> is the outcome of \<open>Malloc\<close> and \<open>Alloc_Page\<close>: the address of a new buffer object and
  the contents of its page, or \<open>None\<close> if one of the two fails.\<close>

definition Get_Buffer ::
  "(fscache \<Rightarrow> fscache) \<Rightarrow> (u32 \<times> u8 list) option \<Rightarrow> u32 \<Rightarrow> fscache \<Rightarrow> (int \<times> u32 \<times> fscache) kres" where
  "Get_Buffer env mem n c =
     (case search (bufs c) n (bufferList c) None of
        (Some a, _) \<Rightarrow> do { c \<leftarrow> wait_available env a c; acquire a c }
      | (None, lru) \<Rightarrow>
          (if numCached c < FS_BUFFER_CACHE_MAX_BLOCKS \<and> mem \<noteq> None then
             (case the mem of (a, page) \<Rightarrow> do {
                let c = c\<lparr>bufs := (bufs c)(a := \<lparr>fsBlockNum = n, bdata = page, bflags = 0\<rparr>)\<rparr>;
                l \<leftarrow> Push_Front (bufferList c) a;
                readAndAcquire a (c\<lparr>bufferList := l, numCached := numCached c + 1\<rparr>) })
           else
             (case lru of
                None \<Rightarrow> Some (ENOMEM, 0, c)
              | Some a \<Rightarrow> do {
                  (rc, c) \<leftarrow> Sync_Buffer a c;
                  if rc \<noteq> 0 then Some (rc, 0, c)
                  else do {
                    let c = upd_buf a (\<lambda>b. b\<lparr>bflags := 0\<rparr>) c;
                    c \<leftarrow> Move_To_Front a c;
                    readAndAcquire a c } })))"

section \<open>The public operations\<close>

text \<open>\<open>inUse\<close> is the device's flag; without memory for the cache object there is no cache.\<close>

definition Create_FS_Buffer_Cache :: "bool \<Rightarrow> bool \<Rightarrow> disk \<Rightarrow> u32 \<Rightarrow> fscache option kres" where
  "Create_FS_Buffer_Cache inUse malloc_ok d bsize = do {
     KASSERT inUse;
     KASSERT (unat bsize \<le> PAGE_SIZE);
     if \<not> malloc_ok then Some None
     else Some (Some \<lparr>dev = d, fsBlockSize = bsize, numCached = 0, bufferList = [],
       bufs = (\<lambda>_. \<lparr>fsBlockNum = 0, bdata = [], bflags = 0\<rparr>)\<rparr>) }"

fun sync_list :: "u32 list \<Rightarrow> fscache \<Rightarrow> (int \<times> fscache) kres" where
  "sync_list [] c = Some (0, c)"
| "sync_list (a # as) c = do {
     (rc, c) \<leftarrow> Sync_Buffer a c;
     if rc \<noteq> 0 then Some (rc, c) else sync_list as c }"

definition Sync_Cache :: "fscache \<Rightarrow> (int \<times> fscache) kres" where
  "Sync_Cache c = sync_list (bufferList c) c"

definition Free_Buffer :: "u32 \<Rightarrow> fscache \<Rightarrow> unit kres" where
  "Free_Buffer a c = KASSERT (\<not> (dirty (bufs c a) \<or> inuse (bufs c a)))"

fun free_list :: "u32 list \<Rightarrow> fscache \<Rightarrow> unit kres" where
  "free_list [] c = Some ()"
| "free_list (a # as) c = do { Free_Buffer a c; free_list as c }"

definition Sync_FS_Buffer_Cache :: "fscache \<Rightarrow> (int \<times> fscache) kres" where
  "Sync_FS_Buffer_Cache c = Sync_Cache c"

text \<open>What is left of the cache is the device.\<close>

definition Destroy_FS_Buffer_Cache :: "fscache \<Rightarrow> (int \<times> disk) kres" where
  "Destroy_FS_Buffer_Cache c = do {
     (rc, c) \<leftarrow> Sync_Cache c;
     free_list (bufferList c) c;
     Some (rc, dev c) }"

definition Get_FS_Buffer ::
  "(fscache \<Rightarrow> fscache) \<Rightarrow> (u32 \<times> u8 list) option \<Rightarrow> u32 \<Rightarrow> fscache \<Rightarrow> (int \<times> u32 \<times> fscache) kres" where
  "Get_FS_Buffer env mem n c = Get_Buffer env mem n c"

definition Modify_FS_Buffer :: "u32 \<Rightarrow> fscache \<Rightarrow> fscache kres" where
  "Modify_FS_Buffer a c = do {
     KASSERT (inuse (bufs c a));
     Some (upd_buf a (set_dirty True) c) }"

definition Sync_FS_Buffer :: "u32 \<Rightarrow> fscache \<Rightarrow> (int \<times> fscache) kres" where
  "Sync_FS_Buffer a c = do {
     KASSERT (inuse (bufs c a));
     Sync_Buffer a c }"

definition Release_FS_Buffer :: "u32 \<Rightarrow> fscache \<Rightarrow> (int \<times> fscache) kres" where
  "Release_FS_Buffer a c = do {
     KASSERT (inuse (bufs c a));
     Some (0, upd_buf a (set_inuse False) c) }"

section \<open>Sectors of a block\<close>

lemma splice_length [simp]: "off + length xs \<le> length ys \<Longrightarrow> length (splice off xs ys) = length ys"
  by (simp add: splice_def)

text \<open>The contents of a block on the device, and devices on which every transfer succeeds.\<close>

definition disk_block :: "disk \<Rightarrow> int \<Rightarrow> nat \<Rightarrow> u8 list" where
  "disk_block d blk n = concat (map (\<lambda>k. sector d (blk + int k)) [0..<n])"

definition disk_ok :: "disk \<Rightarrow> bool" where
  "disk_ok d \<longleftrightarrow> (\<forall>n. rd_rc d n = 0 \<and> wr_rc d n = 0 \<and> length (sector d n) = SECTOR_SIZE)"

lemma disk_block_0 [simp]: "disk_block d blk 0 = []"
  by (simp add: disk_block_def)

lemma disk_block_Suc: "disk_block d blk (Suc n) = sector d blk @ disk_block d (blk + 1) n"
proof -
  have "map (\<lambda>k. sector d (blk + int k)) [0..<Suc n] = sector d blk # map (\<lambda>k. sector d (blk + 1 + int k)) [0..<n]"
    by (simp add: upt_conv_Cons map_Suc_upt [symmetric] o_def add.assoc del: upt_Suc)
  then show ?thesis by (simp add: disk_block_def)
qed

lemma length_disk_block: "disk_ok d \<Longrightarrow> length (disk_block d blk n) = n * SECTOR_SIZE"
  by (induction n arbitrary: blk) (simp_all add: disk_block_Suc disk_ok_def)

lemma read_sectors_ok:
  assumes "disk_ok d" "off + n * SECTOR_SIZE \<le> length xs"
  shows "read_sectors d blk off n xs = (0, take off xs @ disk_block d blk n @ drop (off + n * SECTOR_SIZE) xs)"
  using assms
proof (induction n arbitrary: blk off xs)
  case (Suc n)
  have l: "length (sector d blk) = 512" "rd_rc d blk = 0" using Suc.prems(1) by (simp_all add: disk_ok_def)
  have "off + 512 + n * 512 \<le> length (splice off (sector d blk) xs)" using Suc.prems(2) l by simp
  note IH = Suc.IH [OF Suc.prems(1) this, of "blk + 1"]
  have "take (off + 512) (splice off (sector d blk) xs) = take off xs @ sector d blk"
    using Suc.prems(2) l(1) by (simp add: splice_def)
  moreover have "drop (off + 512 + n * 512) (splice off (sector d blk) xs) = drop (off + Suc n * 512) xs"
    using Suc.prems(2) l(1) by (simp add: splice_def ac_simps)
  ultimately show ?case using IH l by (simp add: dev_read_def disk_block_Suc)
qed simp

lemma write_sectors_ok:
  assumes "disk_ok d" "off + n * SECTOR_SIZE \<le> length xs"
  shows "\<exists>d'. write_sectors d blk off n xs = (0, d') \<and> disk_ok d' \<and>
    disk_block d' blk n = take (n * SECTOR_SIZE) (drop off xs) \<and>
    (\<forall>k. k < blk \<or> blk + int n \<le> k \<longrightarrow> sector d' k = sector d k)"
  using assms
proof (induction n arbitrary: blk off d)
  case (Suc n)
  let ?d = "d\<lparr>sector := (sector d)(blk := take 512 (drop off xs))\<rparr>"
  have w: "dev_write d blk (take 512 (drop off xs)) = (0, ?d)"
    using Suc.prems(1) by (simp add: dev_write_def disk_ok_def)
  have ok: "disk_ok ?d" using Suc.prems by (simp add: disk_ok_def)
  have "off + 512 + n * 512 \<le> length xs" using Suc.prems(2) by simp
  from Suc.IH [OF ok this, of "blk + 1"] obtain d' where d': "write_sectors ?d (blk + 1) (off + 512) n xs = (0, d')"
    "disk_ok d'" "disk_block d' (blk + 1) n = take (n * 512) (drop (off + 512) xs)"
    "\<And>k. k < blk + 1 \<or> blk + 1 + int n \<le> k \<Longrightarrow> sector d' k = sector ?d k" by blast
  have "sector d' blk = take 512 (drop off xs)" using d'(4) [of blk] by simp
  then have "disk_block d' blk (Suc n) = take (Suc n * 512) (drop off xs)"
    using d'(3) by (simp add: disk_block_Suc take_add add.commute)
  with d' w show ?case by auto
qed simp

section \<open>The invariant of a cache\<close>

lemma flag_simps [simp]:
  "dirty (set_dirty v b) = v" "inuse (set_dirty v b) = inuse b" "dirty (set_inuse v b) = dirty b" "inuse (set_inuse v b) = v"
  "fsBlockNum (set_dirty v b) = fsBlockNum b" "fsBlockNum (set_inuse v b) = fsBlockNum b"
  "bdata (set_dirty v b) = bdata b" "bdata (set_inuse v b) = bdata b"
  by (auto simp: dirty_def inuse_def set_dirty_def set_inuse_def bit_set_bit_iff bit_unset_bit_iff)

lemma flags_0 [simp]: "\<not> dirty (b\<lparr>bflags := 0\<rparr>)" "\<not> inuse (b\<lparr>bflags := 0\<rparr>)"
    "\<not> dirty \<lparr>fsBlockNum = n, bdata = xs, bflags = 0\<rparr>"
  by (simp_all add: dirty_def inuse_def)

lemma upd_buf_simps [simp]:
  "bufs (upd_buf a f c) = (bufs c)(a := f (bufs c a))" "bufferList (upd_buf a f c) = bufferList c"
  "dev (upd_buf a f c) = dev c" "fsBlockSize (upd_buf a f c) = fsBlockSize c" "numCached (upd_buf a f c) = numCached c"
  by (simp_all add: upd_buf_def)

text \<open>Sectors and bytes of a block; the blocks whose sector numbers fit an \<open>int\<close>.\<close>

definition spb :: "fscache \<Rightarrow> nat" where
  "spb c = unat (fsBlockSize c) div 512"

definition valid_block :: "fscache \<Rightarrow> u32 \<Rightarrow> bool" where
  "valid_block c n \<longleftrightarrow> unat n * spb c + spb c \<le> 2 ^ 31"

definition size_ok :: "fscache \<Rightarrow> bool" where
  "size_ok c \<longleftrightarrow> 0 < spb c \<and> spb c \<le> 8 \<and> unat (fsBlockSize c) = spb c * 512"

definition on_disk :: "fscache \<Rightarrow> u32 \<Rightarrow> u8 list" where
  "on_disk c n = disk_block (dev c) (int (unat n * spb c)) (spb c)"

definition in_buffer :: "fscache \<Rightarrow> u32 \<Rightarrow> u8 list" where
  "in_buffer c a = take (spb c * 512) (bdata (bufs c a))"

definition cached :: "fscache \<Rightarrow> u32 \<Rightarrow> u32 option" where
  "cached c n = List.find (\<lambda>a. fsBlockNum (bufs c a) = n) (bufferList c)"

text \<open>What the cache and its device hold for a block.\<close>

definition content :: "fscache \<Rightarrow> u32 \<Rightarrow> u8 list" where
  "content c n = (case cached c n of Some a \<Rightarrow> in_buffer c a | None \<Rightarrow> on_disk c n)"

definition cache_ok :: "fscache \<Rightarrow> bool" where
  "cache_ok c \<longleftrightarrow> size_ok c \<and> disk_ok (dev c) \<and> distinct (bufferList c) \<and>
     length (bufferList c) \<le> 128 \<and> unat (numCached c) = length (bufferList c) \<and>
     inj_on (\<lambda>a. fsBlockNum (bufs c a)) (set (bufferList c)) \<and>
     (\<forall>a\<in>set (bufferList c). length (bdata (bufs c a)) = PAGE_SIZE \<and> valid_block c (fsBlockNum (bufs c a)) \<and>
        (\<not> dirty (bufs c a) \<longrightarrow> in_buffer c a = on_disk c (fsBlockNum (bufs c a))))"

lemma cache_okD:
  assumes "cache_ok c"
  shows "size_ok c" "disk_ok (dev c)" "distinct (bufferList c)" "length (bufferList c) \<le> 128"
    "unat (numCached c) = length (bufferList c)"
    "a \<in> set (bufferList c) \<Longrightarrow> b \<in> set (bufferList c) \<Longrightarrow> fsBlockNum (bufs c a) = fsBlockNum (bufs c b) \<Longrightarrow> a = b"
    "a \<in> set (bufferList c) \<Longrightarrow> length (bdata (bufs c a)) = PAGE_SIZE"
    "a \<in> set (bufferList c) \<Longrightarrow> valid_block c (fsBlockNum (bufs c a))"
    "a \<in> set (bufferList c) \<Longrightarrow> \<not> dirty (bufs c a) \<Longrightarrow> in_buffer c a = on_disk c (fsBlockNum (bufs c a))"
  using assms by (auto simp: cache_ok_def inj_on_def)

lemma cached_Some:
  assumes "cache_ok c"
  shows "cached c n = Some a \<longleftrightarrow> a \<in> set (bufferList c) \<and> fsBlockNum (bufs c a) = n"
proof
  show "cached c n = Some a \<Longrightarrow> a \<in> set (bufferList c) \<and> fsBlockNum (bufs c a) = n"
    by (auto simp: cached_def find_Some_iff)
  assume a: "a \<in> set (bufferList c) \<and> fsBlockNum (bufs c a) = n"
  then obtain b where b: "cached c n = Some b" unfolding cached_def
    by (cases "List.find (\<lambda>a. fsBlockNum (bufs c a) = n) (bufferList c)") (auto simp: find_None_iff)
  then have "b \<in> set (bufferList c)" "fsBlockNum (bufs c b) = n" by (auto simp: cached_def find_Some_iff)
  then show "cached c n = Some a" using cache_okD(6) [OF assms] a b by auto
qed

lemma cached_None: "cached c n = None \<longleftrightarrow> (\<forall>a\<in>set (bufferList c). fsBlockNum (bufs c a) \<noteq> n)"
  by (auto simp: cached_def find_None_iff)

lemma content_cached: "cache_ok c \<Longrightarrow> a \<in> set (bufferList c) \<Longrightarrow> content c (fsBlockNum (bufs c a)) = in_buffer c a"
  using cached_Some [of c "fsBlockNum (bufs c a)" a] by (simp add: content_def)

lemma io_size:
  assumes "size_ok c"
  shows "io_rounds c = spb c" "io_rounds c * 512 = unat (fsBlockSize c)" "io_rounds c = unat (Get_Num_Sectors_Per_FS_Block c)"
proof -
  show 1: "io_rounds c = spb c" using assms by (simp add: io_rounds_def size_ok_def)
  then show "io_rounds c * 512 = unat (fsBlockSize c)" using assms by (simp add: size_ok_def)
  show "io_rounds c = unat (Get_Num_Sectors_Per_FS_Block c)"
    unfolding 1 by (simp add: spb_def Get_Num_Sectors_Per_FS_Block_def unat_div_distrib)
qed

lemma first_sector_eq:
  assumes "size_ok c" "valid_block c n"
  shows "first_sector c n = int (unat n * spb c)"
proof -
  have s: "unat (Get_Num_Sectors_Per_FS_Block c) = spb c" using io_size [OF assms(1)] by simp
  have lt: "unat n * spb c < 2 ^ 31" using assms by (simp add: valid_block_def size_ok_def)
  then have "unat (n * Get_Num_Sectors_Per_FS_Block c) = unat n * spb c"
    by (simp add: unat_word_ariths s)
  then show ?thesis using lt sint_small [of "n * Get_Num_Sectors_Per_FS_Block c"] by (simp add: first_sector_def)
qed

lemma Do_Buffer_Read_ok:
  assumes "size_ok c" "disk_ok (dev c)" "length (bdata (bufs c a)) = PAGE_SIZE" "valid_block c (fsBlockNum (bufs c a))"
  shows "\<exists>xs. Do_Buffer_Read c a = Some (0, upd_buf a (\<lambda>b. b\<lparr>bdata := xs\<rparr>) c) \<and> length xs = PAGE_SIZE \<and>
    take (spb c * 512) xs = on_disk c (fsBlockNum (bufs c a))"
proof -
  let ?blk = "int (unat (fsBlockNum (bufs c a)) * spb c)"
  let ?xs = "disk_block (dev c) ?blk (spb c) @ drop (spb c * 512) (bdata (bufs c a))"
  have le: "0 + spb c * 512 \<le> length (bdata (bufs c a))" using assms(1,3) by (simp add: size_ok_def)
  have rs: "read_sectors (dev c) ?blk 0 (spb c) (bdata (bufs c a)) = (0, ?xs)"
    using read_sectors_ok [OF assms(2) le, of ?blk] by simp
  have "Do_Buffer_Read c a = Some (0, upd_buf a (\<lambda>b. b\<lparr>bdata := ?xs\<rparr>) c)"
    using rs io_size [OF assms(1)] first_sector_eq [OF assms(1,4)] assms(1)
    by (simp add: Do_Buffer_Read_def Let_def size_ok_def)
  moreover have "length ?xs = PAGE_SIZE" "take (spb c * 512) ?xs = on_disk c (fsBlockNum (bufs c a))"
    using le assms(3) by (simp_all add: length_disk_block [OF assms(2)] on_disk_def)
  ultimately show ?thesis by blast
qed

text \<open>Different blocks have different sectors.\<close>

lemma disk_block_cong:
  "(\<And>k. blk \<le> k \<Longrightarrow> k < blk + int n \<Longrightarrow> sector d' k = sector d k) \<Longrightarrow> disk_block d' blk n = disk_block d blk n"
  by (auto simp: disk_block_def intro!: arg_cong [where f = concat] map_cong)

lemma blocks_apart:
  assumes "n \<noteq> (m :: u32)" "int (unat m * k) \<le> i" "i < int (unat m * k) + int k"
  shows "i < int (unat n * k) \<or> int (unat n * k) + int k \<le> i"
proof -
  have "unat n \<noteq> unat m" using assms(1) word_unat_eq_iff by blast
  then consider "Suc (unat n) \<le> unat m" | "Suc (unat m) \<le> unat n" by linarith
  then show ?thesis
  proof cases
    case 1
    then have "Suc (unat n) * k \<le> unat m * k" by (rule mult_le_mono1)
    then have "int (unat n * k) + int k \<le> int (unat m * k)" by (simp del: of_nat_mult flip: of_nat_add)
    then show ?thesis using assms(2) by simp
  next
    case 2
    then have "Suc (unat m) * k \<le> unat n * k" by (rule mult_le_mono1)
    then have "int (unat m * k) + int k \<le> int (unat n * k)" by (simp del: of_nat_mult flip: of_nat_add)
    then show ?thesis using assms(3) by simp
  qed
qed

lemma Sync_Buffer_ok:
  assumes ok: "cache_ok c" and a: "a \<in> set (bufferList c)"
  shows "\<exists>c'. Sync_Buffer a c = Some (0, c') \<and> cache_ok c' \<and> bufferList c' = bufferList c \<and>
    \<not> dirty (bufs c' a) \<and> (\<forall>b. b \<noteq> a \<longrightarrow> bufs c' b = bufs c b) \<and> inuse (bufs c' a) = inuse (bufs c a) \<and>
    fsBlockNum (bufs c' a) = fsBlockNum (bufs c a) \<and> bdata (bufs c' a) = bdata (bufs c a) \<and>
    fsBlockSize c' = fsBlockSize c \<and> numCached c' = numCached c \<and>
    (\<forall>m. valid_block c m \<longrightarrow> content c' m = content c m)"
proof (cases "dirty (bufs c a)")
  case False
  then show ?thesis using ok by (intro exI [of _ c]) (simp add: Sync_Buffer_def)
next
  case True
  note D = cache_okD [OF ok]
  let ?n = "fsBlockNum (bufs c a)"
  let ?blk = "int (unat ?n * spb c)"
  have le: "0 + spb c * 512 \<le> length (bdata (bufs c a))" using D(1) D(7) [OF a] by (simp add: size_ok_def)
  obtain d where d: "write_sectors (dev c) ?blk 0 (spb c) (bdata (bufs c a)) = (0, d)" "disk_ok d"
    "disk_block d ?blk (spb c) = in_buffer c a"
    "\<And>k. k < ?blk \<or> ?blk + int (spb c) \<le> k \<Longrightarrow> sector d k = sector (dev c) k"
    using write_sectors_ok [OF D(2) le, of ?blk] by (auto simp: in_buffer_def)
  let ?c = "upd_buf a (set_dirty False) (c\<lparr>dev := d\<rparr>)"
  have run: "Sync_Buffer a c = Some (0, ?c)"
    using d(1) True io_size [OF D(1)] first_sector_eq [OF D(1) D(8) [OF a]] D(1)
    by (simp add: Sync_Buffer_def Do_Buffer_Write_def Let_def size_ok_def)
  have spb: "spb ?c = spb c" by (simp add: spb_def)
  have same: "on_disk ?c m = (if m = ?n then in_buffer c a else on_disk c m)" for m
  proof (cases "m = ?n")
    case False
    have "disk_block d (int (unat m * spb c)) (spb c) = disk_block (dev c) (int (unat m * spb c)) (spb c)"
    proof (rule disk_block_cong)
      fix k assume k: "int (unat m * spb c) \<le> k" "k < int (unat m * spb c) + int (spb c)"
      have ne: "?n \<noteq> m" using False by auto
      show "sector d k = sector (dev c) k" by (rule d(4)) (use blocks_apart [OF ne k] in auto)
    qed
    then show ?thesis using False by (simp add: on_disk_def spb)
  next
    case True
    then show ?thesis using d(3) unfolding on_disk_def spb by simp
  qed
  have ib: "in_buffer ?c b = in_buffer c b" for b by (simp add: in_buffer_def spb)
  have vb: "valid_block ?c = valid_block c" by (rule ext) (simp add: valid_block_def spb)
  have bn: "fsBlockNum (bufs ?c b) = fsBlockNum (bufs c b)" "length (bdata (bufs ?c b)) = length (bdata (bufs c b))" for b
    by simp_all
  have "cache_ok ?c"
    unfolding cache_ok_def bn ib same vb
  proof (intro conjI ballI impI)
    show "size_ok ?c" using D(1) by (simp add: size_ok_def spb)
    show "inj_on (\<lambda>b. fsBlockNum (bufs c b)) (set (bufferList ?c))" using ok by (simp add: cache_ok_def)
    show "in_buffer c b = (if fsBlockNum (bufs c b) = ?n then in_buffer c a else on_disk c (fsBlockNum (bufs c b)))"
      if "b \<in> set (bufferList ?c)" "\<not> dirty (bufs ?c b)" for b
      using that D(9) D(6) [OF _ a] by (auto split: if_splits)
  qed (use D d(2) in simp_all)
  moreover have "content ?c m = content c m" for m
  proof -
    have "cached ?c m = cached c m" unfolding cached_def bn by simp
    moreover have "m \<noteq> ?n" if "cached c m = None" using that a by (auto simp: cached_None)
    ultimately show ?thesis by (auto simp: content_def ib same split: option.splits)
  qed
  ultimately show ?thesis using run by (intro exI [of _ ?c]) simp
qed

text \<open>Changing the contents or the flags of a buffer.\<close>

lemma upd_buf_cached:
  assumes "\<And>b. fsBlockNum (f b) = fsBlockNum b"
  shows "cached (upd_buf a f c) n = cached c n"
proof -
  have "fsBlockNum (bufs (upd_buf a f c) b) = fsBlockNum (bufs c b)" for b using assms by simp
  then show ?thesis unfolding cached_def by simp
qed

lemma cache_ok_data:
  assumes ok: "cache_ok c" and f: "\<And>b. fsBlockNum (f b) = fsBlockNum b"
    and len: "a \<in> set (bufferList c) \<Longrightarrow> length (bdata (f (bufs c a))) = PAGE_SIZE"
    and cl: "a \<in> set (bufferList c) \<Longrightarrow> \<not> dirty (f (bufs c a)) \<Longrightarrow>
      take (spb c * 512) (bdata (f (bufs c a))) = on_disk c (fsBlockNum (bufs c a))"
  shows "cache_ok (upd_buf a f c)"
proof -
  let ?c = "upd_buf a f c"
  note D = cache_okD [OF ok]
  have spb: "spb ?c = spb c" by (simp add: spb_def)
  have od: "on_disk ?c = on_disk c" "valid_block ?c = valid_block c" by (rule ext, simp add: on_disk_def valid_block_def spb)+
  have bn: "fsBlockNum (bufs ?c b) = fsBlockNum (bufs c b)" for b using f by simp
  show ?thesis
    unfolding cache_ok_def od bn
  proof (intro conjI ballI impI)
    show "size_ok ?c" using D(1) by (simp add: size_ok_def spb)
    show "inj_on (\<lambda>b. fsBlockNum (bufs c b)) (set (bufferList ?c))" using ok by (simp add: cache_ok_def)
    show "length (bdata (bufs ?c b)) = PAGE_SIZE" if "b \<in> set (bufferList ?c)" for b using that D(7) len by (cases "b = a") simp_all
    show "in_buffer ?c b = on_disk c (fsBlockNum (bufs c b))" if "b \<in> set (bufferList ?c)" "\<not> dirty (bufs ?c b)" for b
      using that D(9) [of b] cl by (cases "b = a") (simp_all add: in_buffer_def spb)
  qed (use D in simp_all)
qed

lemma content_data:
  assumes ok: "cache_ok c" and f: "\<And>b. fsBlockNum (f b) = fsBlockNum b" and a: "a \<in> set (bufferList c)"
  shows "content (upd_buf a f c) n =
    (if n = fsBlockNum (bufs c a) then take (spb c * 512) (bdata (f (bufs c a))) else content c n)"
proof -
  let ?c = "upd_buf a f c"
  have spb: "spb ?c = spb c" by (simp add: spb_def)
  have od: "on_disk ?c = on_disk c" by (rule ext) (simp add: on_disk_def spb)
  have ib: "in_buffer ?c b = (if b = a then take (spb c * 512) (bdata (f (bufs c a))) else in_buffer c b)" for b
    by (simp add: in_buffer_def spb)
  have "cached c n = Some a \<longleftrightarrow> n = fsBlockNum (bufs c a)" using cached_Some [OF ok, of n a] a by auto
  then show ?thesis
    unfolding content_def upd_buf_cached [OF f] od ib by (auto split: option.splits)
qed

text \<open>Same list of buffers in another order.\<close>

lemma set_inuse_ok:
  assumes "cache_ok c" "a \<in> set (bufferList c)"
  shows "cache_ok (upd_buf a (set_inuse v) c)" "content (upd_buf a (set_inuse v) c) n = content c n"
  using assms cache_ok_data [OF assms(1), of "set_inuse v" a] content_data [OF assms(1) _ assms(2), of "set_inuse v" n]
    cache_okD(7,9) [OF assms] content_cached [OF assms]
  by (auto simp: in_buffer_def)

lemma search_fst: "fst (search bs n as lru) = List.find (\<lambda>a. fsBlockNum (bs a) = n) as"
  by (induction as arbitrary: lru) auto

lemma acquire_eq: "acquire a c = Some (0, a, upd_buf a (set_inuse True) c)"
  by (simp add: acquire_def)

text \<open>There is room for the block: its buffer is there and free, or a new one can be made.\<close>

definition room :: "fscache \<Rightarrow> (u32 \<times> u8 list) option \<Rightarrow> u32 \<Rightarrow> bool" where
  "room c mem n \<longleftrightarrow> valid_block c n \<and>
     (case cached c n of
        Some a \<Rightarrow> \<not> inuse (bufs c a)
      | None \<Rightarrow> length (bufferList c) < 128 \<and>
          (\<exists>a page. mem = Some (a, page) \<and> a \<notin> set (bufferList c) \<and> length page = PAGE_SIZE))"

lemma new_buffer_ok:
  assumes ok: "cache_ok c" and n: "valid_block c n" "cached c n = None" and l: "length (bufferList c) < 128"
    and a: "a \<notin> set (bufferList c)" and xs: "length xs = PAGE_SIZE" "take (spb c * 512) xs = on_disk c n"
  defines "c' \<equiv> c\<lparr>bufferList := a # bufferList c, numCached := numCached c + 1,
    bufs := (bufs c)(a := \<lparr>fsBlockNum = n, bdata = xs, bflags = 0\<rparr>)\<rparr>"
  shows "cache_ok c'" "content c' m = content c m"
proof -
  note D = cache_okD [OF ok]
  have spb: "spb c' = spb c" by (simp add: spb_def c'_def)
  have od: "on_disk c' = on_disk c" "valid_block c' = valid_block c"
    by (auto simp: fun_eq_iff on_disk_def valid_block_def spb) (simp add: c'_def)
  have old: "bufs c' b = bufs c b" if "b \<in> set (bufferList c)" for b using that a by (auto simp: c'_def)
  have new: "bufs c' a = \<lparr>fsBlockNum = n, bdata = xs, bflags = 0\<rparr>" "bufferList c' = a # bufferList c" by (simp_all add: c'_def)
  have nn: "fsBlockNum (bufs c b) \<noteq> n" if "b \<in> set (bufferList c)" for b using n(2) that by (auto simp: cached_None)
  show "cache_ok c'"
    unfolding cache_ok_def od new(2)
  proof (intro conjI ballI impI)
    show "size_ok c'" using D(1) by (simp add: size_ok_def spb) (simp add: c'_def)
    show "disk_ok (dev c')" using D(2) by (simp add: c'_def)
    show "distinct (a # bufferList c)" using D(3) a by simp
    show "length (a # bufferList c) \<le> 128" using l by simp
    have "unat (numCached c + 1) = unat (numCached c) + 1" using D(5) l by (simp add: unat_word_ariths)
    then show "unat (numCached c') = length (a # bufferList c)" using D(5) by (simp add: c'_def)
    show "inj_on (\<lambda>b. fsBlockNum (bufs c' b)) (set (a # bufferList c))"
    proof (rule inj_onI)
      fix x y assume xy: "x \<in> set (a # bufferList c)" "y \<in> set (a # bufferList c)"
        "fsBlockNum (bufs c' x) = fsBlockNum (bufs c' y)"
      have k: "fsBlockNum (bufs c' b) = (if b = a then n else fsBlockNum (bufs c b))" for b by (simp add: c'_def)
      have e: "(if x = a then n else fsBlockNum (bufs c x)) = (if y = a then n else fsBlockNum (bufs c y))"
        using xy(3) unfolding k .
      show "x = y"
      proof (rule ccontr)
        assume ne: "x \<noteq> y"
        then consider "x = a" "y \<noteq> a" | "x \<noteq> a" "y = a" | "x \<noteq> a" "y \<noteq> a" by blast
        then show False using e xy(1,2) D(6) [of x y] nn [of x] nn [of y] ne by cases simp_all
      qed
    qed
    show "length (bdata (bufs c' b)) = PAGE_SIZE" if "b \<in> set (a # bufferList c)" for b
      using that D(7) [of b] old [of b] xs(1) by (cases "b = a") (simp_all add: new(1))
    show "valid_block c (fsBlockNum (bufs c' b))" if "b \<in> set (a # bufferList c)" for b
      using that D(8) [of b] old [of b] n(1) by (cases "b = a") (simp_all add: new(1))
    show "in_buffer c' b = on_disk c (fsBlockNum (bufs c' b))" if "b \<in> set (a # bufferList c)" "\<not> dirty (bufs c' b)" for b
    proof (cases "b = a")
      case False
      then show ?thesis using that D(9) [of b] old [of b] by (simp add: in_buffer_def spb)
    qed (simp add: in_buffer_def spb new(1) xs(2))
  qed
  have cc: "cached c' m = (if m = n then Some a else cached c m)"
  proof -
    have "List.find (\<lambda>b. fsBlockNum (bufs c' b) = m) (bufferList c) = cached c m"
      unfolding cached_def by (rule find_cong) (simp_all add: old)
    then show ?thesis unfolding cached_def new(2) by (auto simp: new(1))
  qed
  show "content c' m = content c m"
  proof (cases "m = n")
    case True
    then show ?thesis using n(2) xs(2) unfolding content_def cc by (simp add: in_buffer_def spb new(1))
  next
    case False
    have "in_buffer c' b = in_buffer c b" if "cached c m = Some b" for b
      using that old [of b] cached_Some [OF ok, of m b] by (simp add: in_buffer_def spb)
    then show ?thesis using False unfolding content_def cc by (simp add: od split: option.splits)
  qed
qed

text \<open>Getting a buffer for which there is room.\<close>

definition got :: "fscache \<Rightarrow> u32 \<Rightarrow> u32 \<Rightarrow> fscache \<Rightarrow> bool" where
  "got c n a c' \<longleftrightarrow> cache_ok c' \<and> a \<in> set (bufferList c') \<and> fsBlockNum (bufs c' a) = n \<and> inuse (bufs c' a) \<and>
     in_buffer c' a = content c n \<and> (\<forall>m. content c' m = content c m) \<and> fsBlockSize c' = fsBlockSize c \<and>
     (\<forall>b\<in>set (bufferList c). b \<in> set (bufferList c') \<and> (b \<noteq> a \<longrightarrow> bufs c' b = bufs c b)) \<and>
     set (bufferList c') = insert a (set (bufferList c)) \<and> (a \<in> set (bufferList c) \<longrightarrow> \<not> inuse (bufs c a))"

lemma Get_Buffer_ok:
  assumes ok: "cache_ok c" and r: "room c mem n"
  shows "\<exists>a c'. Get_Buffer env mem n c = Some (0, a, c') \<and> got c n a c'"
proof (cases "cached c n")
  case (Some a)
  then have a: "a \<in> set (bufferList c)" "fsBlockNum (bufs c a) = n" using cached_Some [OF ok] by auto
  have ni: "\<not> inuse (bufs c a)" using r Some by (simp add: room_def)
  have "fst (search (bufs c) n (bufferList c) None) = Some a" using Some by (simp add: search_fst cached_def)
  then have "Get_Buffer env mem n c = Some (0, a, upd_buf a (set_inuse True) c)"
    using ni by (auto simp: Get_Buffer_def acquire_eq wait_available.simps split: prod.splits)
  moreover have "got c n a (upd_buf a (set_inuse True) c)"
    using set_inuse_ok [OF ok a(1)] a content_cached [OF ok a(1)] ni
    by (auto simp: got_def in_buffer_def spb_def)
  ultimately show ?thesis by blast
next
  case None
  obtain a page where m: "mem = Some (a, page)" "a \<notin> set (bufferList c)" "length page = PAGE_SIZE"
    and l: "length (bufferList c) < 128" and v: "valid_block c n"
    using r None by (auto simp: room_def)
  note D = cache_okD [OF ok]
  let ?c1 = "c\<lparr>bufs := (bufs c)(a := \<lparr>fsBlockNum = n, bdata = page, bflags = 0\<rparr>),
    bufferList := a # bufferList c, numCached := numCached c + 1\<rparr>"
  have spb1: "spb ?c1 = spb c" by (simp add: spb_def)
  have vb1: "valid_block ?c1 = valid_block c" "size_ok ?c1 = size_ok c" "on_disk ?c1 = on_disk c"
    by (auto simp: valid_block_def size_ok_def on_disk_def spb1 fun_eq_iff)
  obtain xs where xs: "Do_Buffer_Read ?c1 a = Some (0, upd_buf a (\<lambda>b. b\<lparr>bdata := xs\<rparr>) ?c1)"
    "length xs = PAGE_SIZE" "take (spb c * 512) xs = on_disk c n"
    using Do_Buffer_Read_ok [of ?c1 a] D(1,2) m(3) v unfolding spb1 vb1 by auto
  let ?c2 = "c\<lparr>bufferList := a # bufferList c, numCached := numCached c + 1,
    bufs := (bufs c)(a := \<lparr>fsBlockNum = n, bdata = xs, bflags = 0\<rparr>)\<rparr>"
  have c2: "upd_buf a (\<lambda>b. b\<lparr>bdata := xs\<rparr>) ?c1 = ?c2" by (simp add: upd_buf_def)
  note N = new_buffer_ok [OF ok v None l m(2) xs(2,3)]
  have srch: "fst (search (bufs c) n (bufferList c) None) = None" using None by (simp add: search_fst cached_def)
  have "numCached c < 128" using D(5) l by (simp add: word_less_nat_alt)
  then have run: "Get_Buffer env mem n c = Some (0, a, upd_buf a (set_inuse True) ?c2)"
    using srch m xs(1) c2 by (auto simp: Get_Buffer_def readAndAcquire_def acquire_eq split: prod.splits)
  have "got c n a (upd_buf a (set_inuse True) ?c2)"
    using set_inuse_ok [OF N(1), of a] N(2) None m(2) xs(3)
    by (auto simp: got_def in_buffer_def spb_def content_def)
  with run show ?thesis by blast
qed

text \<open>Writing back.\<close>

lemma sync_list_ok:
  assumes "cache_ok c" "set as \<subseteq> set (bufferList c)" "distinct as"
  shows "\<exists>c'. sync_list as c = Some (0, c') \<and> cache_ok c' \<and> bufferList c' = bufferList c \<and>
    (\<forall>a\<in>set as. \<not> dirty (bufs c' a)) \<and> (\<forall>b. b \<notin> set as \<longrightarrow> bufs c' b = bufs c b) \<and>
    (\<forall>b. inuse (bufs c' b) = inuse (bufs c b) \<and> fsBlockNum (bufs c' b) = fsBlockNum (bufs c b) \<and>
      bdata (bufs c' b) = bdata (bufs c b)) \<and>
    fsBlockSize c' = fsBlockSize c \<and> (\<forall>m. valid_block c m \<longrightarrow> content c' m = content c m)"
  using assms
proof (induction as arbitrary: c)
  case Nil
  then show ?case by simp
next
  case (Cons a as)
  then have a: "a \<in> set (bufferList c)" "a \<notin> set as" by auto
  obtain c1 where c1: "Sync_Buffer a c = Some (0, c1)" "cache_ok c1" "bufferList c1 = bufferList c" "\<not> dirty (bufs c1 a)"
    "\<And>b. b \<noteq> a \<Longrightarrow> bufs c1 b = bufs c b" "inuse (bufs c1 a) = inuse (bufs c a)"
    "fsBlockNum (bufs c1 a) = fsBlockNum (bufs c a)" "bdata (bufs c1 a) = bdata (bufs c a)"
    "fsBlockSize c1 = fsBlockSize c" "\<And>m. valid_block c m \<Longrightarrow> content c1 m = content c m"
    using Sync_Buffer_ok [OF Cons.prems(1) a(1)] by blast
  obtain c2 where c2: "sync_list as c1 = Some (0, c2)" "cache_ok c2" "bufferList c2 = bufferList c1"
    "\<And>b. b \<in> set as \<Longrightarrow> \<not> dirty (bufs c2 b)" "\<And>b. b \<notin> set as \<Longrightarrow> bufs c2 b = bufs c1 b"
    "\<And>b. inuse (bufs c2 b) = inuse (bufs c1 b)" "\<And>b. fsBlockNum (bufs c2 b) = fsBlockNum (bufs c1 b)"
    "\<And>b. bdata (bufs c2 b) = bdata (bufs c1 b)" "fsBlockSize c2 = fsBlockSize c1"
    "\<And>m. valid_block c1 m \<Longrightarrow> content c2 m = content c1 m"
    using Cons.IH [OF c1(2)] Cons.prems(2,3) c1(3) by auto
  have v: "valid_block c1 m = valid_block c m" for m by (simp add: valid_block_def spb_def c1(9))
  have same: "inuse (bufs c1 b) = inuse (bufs c b)" "fsBlockNum (bufs c1 b) = fsBlockNum (bufs c b)"
    "bdata (bufs c1 b) = bdata (bufs c b)" for b
    using c1(5) [of b] c1(6-8) by (cases "b = a"; simp)+
  have run: "sync_list (a # as) c = Some (0, c2)" using c1(1) c2(1) by simp
  have cl: "\<not> dirty (bufs c2 b)" if "b \<in> set (a # as)" for b
    using that c2(4) [of b] c2(5) [of a] a(2) c1(4) by auto
  have other: "bufs c2 b = bufs c b" if "b \<notin> set (a # as)" for b
    using that c2(5) [of b] c1(5) [of b] by simp
  show ?case
    using run c2(2) cl other c2(3) c1(3) c2(6-9) c1(9,10) c2(10) v same by (intro exI [of _ c2]) simp
qed

lemma clean_on_disk:
  assumes "cache_ok c" "\<forall>a\<in>set (bufferList c). \<not> dirty (bufs c a)"
  shows "content c m = on_disk c m"
proof (cases "cached c m")
  case (Some a)
  then have "a \<in> set (bufferList c)" "fsBlockNum (bufs c a) = m" using cached_Some [OF assms(1)] by auto
  with assms cache_okD(9) [OF assms(1), of a] Some show ?thesis by (simp add: content_def)
qed (simp add: content_def)

section \<open>Properties\<close>

text \<open>An empty cache over a device whose sectors hold their number, and room for one block.\<close>

definition sample_disk :: disk where
  "sample_disk = \<lparr>sector = (\<lambda>n. replicate 512 (word_of_int n)), rd_rc = (\<lambda>_. 0), wr_rc = (\<lambda>_. 0), numSectors = 64\<rparr>"

definition sample_cache :: fscache where
  "sample_cache = \<lparr>dev = sample_disk, fsBlockSize = 4096, numCached = 0, bufferList = [],
     bufs = (\<lambda>_. \<lparr>fsBlockNum = 0, bdata = [], bflags = 0\<rparr>)\<rparr>"

definition sample_page_mem :: "(u32 \<times> u8 list) option" where
  "sample_page_mem = Some (0x9000, replicate 4096 0xAA)"

lemma sample_cache_ok: "cache_ok sample_cache" "room sample_cache sample_page_mem 3"
  by (simp_all add: cache_ok_def sample_cache_def size_ok_def spb_def disk_ok_def sample_disk_def
      room_def valid_block_def cached_def sample_page_mem_def)

text \<open>C36: The cache is transparent: a block for which there is room is delivered with its current
  contents, whether it comes from a buffer or from the device; what a client then writes into
  the buffer it marks as modified and releases becomes the contents of that block and of no
  other, and the cache stays consistent with the device.\<close>

theorem cache_transparent:
  assumes "cache_ok c" "room c mem n" "length xs = PAGE_SIZE"
  shows "\<exists>a c1 c2 c3. Get_FS_Buffer env mem n c = Some (0, a, c1) \<and> in_buffer c1 a = content c n \<and>
    (\<forall>m. content c1 m = content c m) \<and>
    Modify_FS_Buffer a (upd_buf a (\<lambda>b. b\<lparr>bdata := xs\<rparr>) c1) = Some c2 \<and>
    Release_FS_Buffer a c2 = Some (0, c3) \<and> cache_ok c3 \<and>
    (\<forall>m. content c3 m = (if m = n then take (spb c * 512) xs else content c m))"
proof -
  obtain a c1 where c1: "Get_Buffer env mem n c = Some (0, a, c1)" "got c n a c1" using Get_Buffer_ok [OF assms(1,2)] by blast
  then have g: "cache_ok c1" "a \<in> set (bufferList c1)" "fsBlockNum (bufs c1 a) = n" "inuse (bufs c1 a)"
    "in_buffer c1 a = content c n" "\<And>m. content c1 m = content c m" "fsBlockSize c1 = fsBlockSize c"
    by (auto simp: got_def)
  define f where "f = (\<lambda>b. set_inuse False (set_dirty True (b\<lparr>bdata := xs\<rparr>)))"
  have f: "fsBlockNum (f b) = fsBlockNum b" "bdata (f b) = xs" "dirty (f b)" for b by (simp_all add: f_def)
  have spb: "spb c1 = spb c" by (simp add: spb_def g(7))
  let ?c2 = "upd_buf a (set_dirty True) (upd_buf a (\<lambda>b. b\<lparr>bdata := xs\<rparr>) c1)"
  have m: "Modify_FS_Buffer a (upd_buf a (\<lambda>b. b\<lparr>bdata := xs\<rparr>) c1) = Some ?c2"
    using g(4) by (simp add: Modify_FS_Buffer_def inuse_def)
  have e: "upd_buf a (set_inuse False) ?c2 = upd_buf a f c1" by (simp add: upd_buf_def f_def)
  have r: "Release_FS_Buffer a ?c2 = Some (0, upd_buf a f c1)"
    using g(4) e by (simp add: Release_FS_Buffer_def inuse_def set_dirty_def bit_set_bit_iff)
  have ok: "cache_ok (upd_buf a f c1)" by (rule cache_ok_data [OF g(1) f(1)]) (simp_all add: f assms(3))
  have "content (upd_buf a f c1) m = (if m = n then take (spb c * 512) xs else content c m)" for m
    using content_data [OF g(1) f(1) g(2), of m] g(3,6) by (simp add: f(2) spb)
  with c1(1) g(5,6) m r ok show ?thesis unfolding Get_FS_Buffer_def by blast
qed

lemma cache_transparent_witness:
  "\<exists>a c1. Get_FS_Buffer id sample_page_mem 3 sample_cache = Some (0, a, c1) \<and> in_buffer c1 a = content sample_cache 3"
  using cache_transparent [OF sample_cache_ok, of "replicate 4096 0" id] by auto

text \<open>C18: A synchronization writes the modified buffers back: afterwards the device holds, for
  every block, what the cache held, and no buffer is dirty.\<close>

theorem cache_write_back:
  assumes "cache_ok c"
  shows "\<exists>c'. Sync_FS_Buffer_Cache c = Some (0, c') \<and> cache_ok c' \<and> bufferList c' = bufferList c \<and>
    (\<forall>a\<in>set (bufferList c'). \<not> dirty (bufs c' a)) \<and> (\<forall>m. valid_block c m \<longrightarrow> on_disk c' m = content c m)"
proof -
  obtain c' where c': "sync_list (bufferList c) c = Some (0, c')" "cache_ok c'" "bufferList c' = bufferList c"
    "\<forall>a\<in>set (bufferList c). \<not> dirty (bufs c' a)" "\<And>m. valid_block c m \<Longrightarrow> content c' m = content c m"
    using sync_list_ok [OF assms subset_refl cache_okD(3) [OF assms]] by blast
  have "on_disk c' m = content c m" if "valid_block c m" for m
    using clean_on_disk [OF c'(2)] c'(3,4,5) that by simp
  with c' show ?thesis by (intro exI [of _ c']) (simp add: Sync_FS_Buffer_Cache_def Sync_Cache_def)
qed

lemma cache_write_back_witness:
  "\<exists>c'. Sync_FS_Buffer_Cache sample_cache = Some (0, c') \<and> on_disk c' 3 = content sample_cache 3"
proof -
  have "valid_block sample_cache 3" using sample_cache_ok(2) by (simp add: room_def)
  with cache_write_back [OF sample_cache_ok(1)] show ?thesis by blast
qed

text \<open>When a block is not cached and no new buffer can be made, the least recently used
  buffer is taken without giving it the new block's number: the caller gets, as if it were
  the block it asked for, another block's buffer with that block's contents.\<close>

theorem stolen_buffer_wrong_block:
  assumes "cache_ok c" "cached c n = None" "length (bufferList c) = 128 \<or> mem = None"
    "a \<in> set (bufferList c)" "\<not> inuse (bufs c a)"
  shows "\<exists>b c'. Get_FS_Buffer env mem n c = Some (0, b, c') \<and> fsBlockNum (bufs c' b) \<noteq> n \<and>
    in_buffer c' b = content c (fsBlockNum (bufs c' b))"
proof -
  note D = cache_okD [OF assms(1)]
  have lru: "snd (search (bufs c) n as l) = Some b \<Longrightarrow> l = Some b \<or> b \<in> set as \<and> \<not> inuse (bufs c b)" for as l b
    by (induction as arbitrary: l) (auto split: if_splits)
  have ex: "fst (search (bufs c) n as l) = None \<Longrightarrow> l \<noteq> None \<or> (\<exists>x\<in>set as. \<not> inuse (bufs c x)) \<Longrightarrow>
      snd (search (bufs c) n as l) \<noteq> None" for as l
    by (induction as arbitrary: l) (auto split: if_splits)
  have none: "fst (search (bufs c) n (bufferList c) None) = None" using assms(2) by (simp add: search_fst cached_def)
  with ex [OF none] assms(4,5) obtain b where s: "search (bufs c) n (bufferList c) None = (None, Some b)"
    by (cases "search (bufs c) n (bufferList c) None") auto
  then have b: "b \<in> set (bufferList c)" "\<not> inuse (bufs c b)" using lru [of "bufferList c" None b] by auto
  have nb: "fsBlockNum (bufs c b) \<noteq> n" using assms(2) b(1) by (auto simp: cached_None)
  have full: "\<not> (numCached c < 128 \<and> mem \<noteq> None)" using assms(3) D(5) by (auto simp: word_less_nat_alt)
  obtain c1 where c1: "Sync_Buffer b c = Some (0, c1)" "cache_ok c1" "bufferList c1 = bufferList c"
    "\<not> dirty (bufs c1 b)" "fsBlockNum (bufs c1 b) = fsBlockNum (bufs c b)" "fsBlockSize c1 = fsBlockSize c"
    "\<And>m. valid_block c m \<Longrightarrow> content c1 m = content c m"
    using Sync_Buffer_ok [OF assms(1) b(1)] by blast
  note D1 = cache_okD [OF c1(2)]
  have b1: "b \<in> set (bufferList c1)" using b(1) c1(3) by simp
  let ?c2 = "(upd_buf b (\<lambda>x. x\<lparr>bflags := 0\<rparr>) c1)\<lparr>bufferList := b # remove1 b (bufferList c)\<rparr>"
  have mv: "Move_To_Front b (upd_buf b (\<lambda>x. x\<lparr>bflags := 0\<rparr>) c1) = Some ?c2"
    using b(1) D(3) by (simp add: Move_To_Front_def c1(3))
  have spb2: "spb ?c2 = spb c1" "spb c1 = spb c" by (simp_all add: spb_def c1(6))
  have od2: "size_ok ?c2 = size_ok c1" "on_disk ?c2 = on_disk c1" "valid_block ?c2 = valid_block c1"
    by (auto simp: size_ok_def on_disk_def valid_block_def spb2 fun_eq_iff)
  obtain ys where ys: "Do_Buffer_Read ?c2 b = Some (0, upd_buf b (\<lambda>x. x\<lparr>bdata := ys\<rparr>) ?c2)"
    "take (spb c1 * 512) ys = on_disk c1 (fsBlockNum (bufs c1 b))"
    using Do_Buffer_Read_ok [of ?c2 b] D1(1,2) D1(7,8) [OF b1] unfolding od2 spb2 by auto
  let ?c3 = "upd_buf b (set_inuse True) (upd_buf b (\<lambda>x. x\<lparr>bdata := ys\<rparr>) ?c2)"
  have "Get_FS_Buffer env mem n c = Some (0, b, ?c3)"
    unfolding Get_FS_Buffer_def Get_Buffer_def s
    using c1(1) mv ys(1) by (simp add: if_not_P [OF full] readAndAcquire_def acquire_eq del: not_None_eq)
  moreover have "fsBlockNum (bufs ?c3 b) = fsBlockNum (bufs c b)" by (simp add: c1(5))
  moreover have "in_buffer ?c3 b = content c (fsBlockNum (bufs c b))"
  proof -
    have "in_buffer ?c3 b = on_disk c1 (fsBlockNum (bufs c1 b))"
      using ys(2) by (simp add: in_buffer_def spb_def)
    also have "\<dots> = in_buffer c1 b" using D1(9) [OF b1 c1(4)] by simp
    also have "\<dots> = content c1 (fsBlockNum (bufs c1 b))" using content_cached [OF c1(2) b1] by simp
    also have "\<dots> = content c (fsBlockNum (bufs c b))" using c1(5) c1(7) D(8) [OF b(1)] by simp
    finally show ?thesis .
  qed
  ultimately show ?thesis using nb by (intro exI [of _ b] exI [of _ ?c3]) simp
qed

text \<open>One cached block, of no use to a request for another when memory is out.\<close>

definition one_block :: fscache where
  "one_block = sample_cache\<lparr>numCached := 1, bufferList := [0x9000],
     bufs := (\<lambda>_. \<lparr>fsBlockNum = 3, bdata = on_disk sample_cache 3, bflags = 0\<rparr>)\<rparr>"

lemma one_block_ok: "cache_ok one_block"
proof -
  have d: "disk_ok sample_disk" by (simp add: disk_ok_def sample_disk_def)
  have s: "spb one_block = 8" "spb sample_cache = 8" by (simp_all add: spb_def one_block_def sample_cache_def)
  have dv: "dev sample_cache = sample_disk" by (simp add: sample_cache_def)
  have l: "length (on_disk sample_cache 3) = 4096" by (simp add: on_disk_def s dv length_disk_block [OF d])
  have o: "on_disk one_block 3 = on_disk sample_cache 3" by (simp add: on_disk_def s) (simp add: one_block_def)
  show ?thesis
    unfolding cache_ok_def size_ok_def valid_block_def in_buffer_def s
    using d l o by (simp add: one_block_def) (simp add: sample_cache_def)
qed

lemma stolen_buffer_wrong_block_witness:
  "\<exists>b c'. Get_FS_Buffer id None 5 one_block = Some (0, b, c') \<and> fsBlockNum (bufs c' b) \<noteq> 5"
proof -
  have "cached one_block 5 = None" by (simp add: cached_def one_block_def)
  moreover have "0x9000 \<in> set (bufferList one_block)" "\<not> inuse (bufs one_block 0x9000)"
    by (simp_all add: one_block_def inuse_def)
  ultimately show ?thesis
    using stolen_buffer_wrong_block [OF one_block_ok, of 5 None "0x9000" id] by auto
qed

text \<open>A buffer whose first read fails stays in the cache although nothing was read: the caller
  gets the error, but the next request for the same block is answered from the buffer, with
  whatever the fresh page held.\<close>

theorem failed_read_is_served:
  assumes "cached c n = None" "numCached c < 128" "a \<notin> set (bufferList c)" "0 < fsBlockSize c"
    "rd_rc (dev c) (first_sector c n) = rc" "rc \<noteq> 0"
  shows "\<exists>c' c''. Get_FS_Buffer env (Some (a, page)) n c = Some (rc, 0, c') \<and>
    Get_FS_Buffer env mem n c' = Some (0, a, c'') \<and> bdata (bufs c'' a) = page"
proof -
  let ?c = "c\<lparr>bufs := (bufs c)(a := \<lparr>fsBlockNum = n, bdata = page, bflags = 0\<rparr>), bufferList := a # bufferList c,
    numCached := numCached c + 1\<rparr>"
  have s: "fst (search (bufs c) n (bufferList c) None) = None" using assms(1) by (simp add: search_fst cached_def)
  have "fsBlockSize c \<noteq> 0" using assms(4) by auto
  then have "0 < unat (fsBlockSize c)" by (simp add: unat_gt_0)
  then have "0 < io_rounds ?c" by (simp add: io_rounds_def)
  then obtain k where k: "io_rounds ?c = Suc k" using gr0_implies_Suc by blast
  have f: "first_sector ?c n = first_sector c n" by (simp add: first_sector_def Get_Num_Sectors_Per_FS_Block_def)
  have "Do_Buffer_Read ?c a = Some (rc, upd_buf a (\<lambda>b. b\<lparr>bdata := page\<rparr>) ?c)"
    using assms(5,6) f by (simp add: Do_Buffer_Read_def k dev_read_def)
  then have "Get_FS_Buffer env (Some (a, page)) n c = Some (rc, 0, upd_buf a (\<lambda>b. b\<lparr>bdata := page\<rparr>) ?c)"
    using s assms(2,3,6) by (auto simp: Get_FS_Buffer_def Get_Buffer_def readAndAcquire_def split: prod.splits)
  moreover have "Get_FS_Buffer env mem n (upd_buf a (\<lambda>b. b\<lparr>bdata := page\<rparr>) ?c) =
      Some (0, a, upd_buf a (set_inuse True) (upd_buf a (\<lambda>b. b\<lparr>bdata := page\<rparr>) ?c))"
    by (simp add: Get_FS_Buffer_def Get_Buffer_def acquire_eq wait_available.simps inuse_def)
  ultimately show ?thesis by simp
qed

definition bad_disk :: disk where
  "bad_disk = sample_disk\<lparr>rd_rc := (\<lambda>_. - 5)\<rparr>"

lemma failed_read_is_served_witness:
  "\<exists>c'. Get_FS_Buffer id (Some (0x9000, [7])) 3 (sample_cache\<lparr>dev := bad_disk\<rparr>) = Some (- 5, 0, c') \<and>
    (\<exists>c''. Get_FS_Buffer id None 3 c' = Some (0, 0x9000, c''))"
  using failed_read_is_served [of "sample_cache\<lparr>dev := bad_disk\<rparr>" 3 "0x9000" "- 5" id "[7]" None]
  by (auto simp: sample_cache_def cached_def bad_disk_def)

end
