(* ===== verification/Bytes.thy ===== *)
theory Bytes
  imports Prelude
begin

text \<open>
  Little-endian 32-bit words in byte arrays, as the x86 loads and stores them, and copies
  between arrays.  An access that is not inside the array stops the machine.
\<close>

section \<open>Words as bytes\<close>

definition le_bytes :: "u32 \<Rightarrow> u8 list" where
  "le_bytes w = [ucast w, ucast (drop_bit 8 w), ucast (drop_bit 16 w), ucast (drop_bit 24 w)]"

fun le_word :: "u8 list \<Rightarrow> u32" where
  "le_word [] = 0"
| "le_word (b # bs) = ucast b OR push_bit 8 (le_word bs)"

lemma length_le_bytes [simp]: "length (le_bytes w) = 4"
  by (simp add: le_bytes_def)

lemma le_word_le_bytes [simp]: "le_word (le_bytes w) = w"
proof (rule bit_word_eqI)
  fix i assume "i < LENGTH(32)"
  then consider "i < 8" | "8 \<le> i" "i < 16" | "16 \<le> i" "i < 24" | "24 \<le> i" "i < 32" by fastforce
  then show "bit (le_word (le_bytes w)) i = bit w i"
    unfolding le_bytes_def le_word.simps
    by cases (simp_all only: bit_or_iff bit_push_bit_iff bit_ucast_iff bit_drop_bit_eq o_def, auto)
qed

lemma le_bytes_le_word: "length bs = 4 \<Longrightarrow> le_bytes (le_word bs) = bs"
proof -
  assume "length bs = 4"
  then obtain a b c d where bs: "bs = [a, b, c, d]" by (auto simp: numeral_eq_Suc length_Suc_conv)
  have "(ucast (le_word bs) :: u8) = a" "(ucast (drop_bit 8 (le_word bs)) :: u8) = b"
    "(ucast (drop_bit 16 (le_word bs)) :: u8) = c" "(ucast (drop_bit 24 (le_word bs)) :: u8) = d"
    unfolding bs le_word.simps
    by (rule bit_word_eqI, simp only: bit_or_iff bit_push_bit_iff bit_ucast_iff bit_drop_bit_eq o_def bit_0_eq bot_apply,
        auto dest: bit_imp_le_length)+
  then show ?thesis by (simp add: le_bytes_def bs)
qed

section \<open>Loads, stores and copies\<close>

definition get_word :: "u8 list \<Rightarrow> nat \<Rightarrow> u32 kres" where
  "get_word m p = (if p + 4 \<le> length m then Some (le_word (take 4 (drop p m))) else None)"

definition put_bytes :: "u8 list \<Rightarrow> nat \<Rightarrow> u8 list \<Rightarrow> u8 list kres" where
  "put_bytes m p xs = (if p + length xs \<le> length m then Some (take p m @ xs @ drop (p + length xs) m) else None)"

definition put_word :: "u8 list \<Rightarrow> nat \<Rightarrow> u32 \<Rightarrow> u8 list kres" where
  "put_word m p w = put_bytes m p (le_bytes w)"

definition get_bytes :: "u8 list \<Rightarrow> nat \<Rightarrow> nat \<Rightarrow> u8 list kres" where
  "get_bytes m p n = (if p + n \<le> length m then Some (take n (drop p m)) else None)"

lemma put_bytes_app:
  "put_bytes (as @ bs @ cs) (length as) xs = Some (as @ xs @ cs)" if "length xs = length bs"
  using that by (simp add: put_bytes_def)

lemma put_bytes_Some: "put_bytes m p xs = Some m' \<Longrightarrow> length m' = length m"
  by (auto simp: put_bytes_def split: if_splits)

lemma get_word_app: "length xs = 4 \<Longrightarrow> get_word (as @ xs @ bs) (length as) = Some (le_word xs)"
  by (simp add: get_word_def)

lemma get_word_put_word: "put_word m p w = Some m' \<Longrightarrow> get_word m' p = Some w"
  by (auto simp: put_word_def put_bytes_def get_word_def split: if_splits)

lemma get_bytes_put_bytes: "put_bytes m p xs = Some m' \<Longrightarrow> get_bytes m' p (length xs) = Some xs"
  by (auto simp: put_bytes_def get_bytes_def split: if_splits)

lemma get_bytes_other:
  assumes "put_bytes m p xs = Some m'" "q + n \<le> p \<or> p + length xs \<le> q"
  shows "get_bytes m' q n = get_bytes m q n"
proof -
  have m': "m' = take p m @ xs @ drop (p + length xs) m" and le: "p + length xs \<le> length m"
    using assms(1) by (auto simp: put_bytes_def split: if_splits)
  have l: "length m' = length m" using le m' by simp
  have "take n (drop q m') = take n (drop q m)" if "q + n \<le> length m"
  proof (rule nth_equalityI)
    show "length (take n (drop q m')) = length (take n (drop q m))" using l by simp
    fix i assume "i < length (take n (drop q m'))"
    then have i: "i < n" "q + i < length m" using l that by auto
    have "m' ! (q + i) = m ! (q + i)"
      using assms(2) i le unfolding m' by (auto simp: nth_append)
    then show "take n (drop q m') ! i = take n (drop q m) ! i" using i l by simp
  qed
  then show ?thesis using l by (simp add: get_bytes_def)
qed

lemma get_word_bytes: "get_word m p = map_option le_word (get_bytes m p 4)"
  by (simp add: get_word_def get_bytes_def)

end
