(* ===== verification/ArgBlock.thy ===== *)
theory ArgBlock
  imports Bytes
begin

text \<open>
  The argument block of a process, \<open>geekos/argblock.c\<close>: the command line is cut into words
  and laid out as the C start-up code of the process expects it, \<open>argc\<close>, \<open>argv\<close>, the vector
  of pointers and the strings.  The command is a byte array of its own, and so is the block
  being built; positions in them stand for the pointers \<open>s\<close>, \<open>dst\<close> and \<open>argv\<close>.
\<close>

section \<open>The code\<close>

definition Is_Space :: "u8 \<Rightarrow> bool" where
  "Is_Space c \<longleftrightarrow> c = 32 \<or> c = 9 \<or> c = 10 \<or> c = 13"

function Skip_Whitespace :: "u8 list \<Rightarrow> nat \<Rightarrow> nat kres" where
  "Skip_Whitespace m s =
     (if s < length m then if Is_Space (m ! s) then Skip_Whitespace m (Suc s) else Some s else None)"
  by pat_completeness auto
termination by (relation "measure (\<lambda>(m, s). length m - s)") auto

declare Skip_Whitespace.simps [simp del]

function argument_len_loop :: "u8 list \<Rightarrow> nat \<Rightarrow> nat \<Rightarrow> nat kres" where
  "argument_len_loop m s len =
     (if s < length m then
        if m ! s \<noteq> 0 \<and> \<not> Is_Space (m ! s) then argument_len_loop m (Suc s) (Suc len) else Some len
      else None)"
  by pat_completeness auto
termination by (relation "measure (\<lambda>(m, s, len). length m - s)") auto

declare argument_len_loop.simps [simp del]

definition Get_Argument_Len :: "u8 list \<Rightarrow> nat \<Rightarrow> nat kres" where
  "Get_Argument_Len m s = argument_len_loop m s 0"

partial_function (option) size_loop :: "u8 list \<Rightarrow> nat \<Rightarrow> u32 \<Rightarrow> u32 \<Rightarrow> (u32 \<times> u32) kres" where
  "size_loop m s bsize argCount = do {
     s \<leftarrow> Skip_Whitespace m s;
     c \<leftarrow> aget m s;
     if c = 0 then Some (argCount, bsize)
     else do {
       len \<leftarrow> Get_Argument_Len m s;
       size_loop m (s + len) (bsize + 4 + (of_nat len + 1)) (argCount + 1) } }"

definition Get_Argument_Block_Size :: "u8 list \<Rightarrow> (u32 \<times> u32) kres" where
  "Get_Argument_Block_Size m = do {
     (argCount, bsize) \<leftarrow> size_loop m 0 8 0;
     Some (argCount, bsize + 4) }"

partial_function (option) format_loop ::
  "u32 \<Rightarrow> u8 list \<Rightarrow> nat \<Rightarrow> nat \<Rightarrow> nat \<Rightarrow> u8 list \<Rightarrow> (nat \<times> u8 list) kres" where
  "format_loop user m s dst argv blk = do {
     s \<leftarrow> Skip_Whitespace m s;
     c \<leftarrow> aget m s;
     if c = 0 then Some (argv, blk)
     else do {
       blk \<leftarrow> put_word blk argv (user + of_nat dst);
       len \<leftarrow> Get_Argument_Len m s;
       arg \<leftarrow> get_bytes m s len;
       blk \<leftarrow> put_bytes blk dst arg;
       blk \<leftarrow> aset blk (dst + len) 0;
       format_loop user m (s + len) (dst + len + 1) (argv + 4) blk } }"

definition Format_Argument_Block :: "u8 list \<Rightarrow> u32 \<Rightarrow> u32 \<Rightarrow> u8 list \<Rightarrow> u8 list kres" where
  "Format_Argument_Block blk numArgs user m = do {
     blk \<leftarrow> put_word blk 0 numArgs;
     blk \<leftarrow> put_word blk 4 (user + 8);
     (argv, blk) \<leftarrow> format_loop user m 0 (8 + unat ((numArgs + 1) * 4)) 8 blk;
     put_word blk argv 0 }"

section \<open>The words of a command\<close>

function args :: "u8 list \<Rightarrow> u8 list list" where
  "args xs = (let ys = dropWhile Is_Space xs in
     if ys = [] then [] else takeWhile (\<lambda>c. \<not> Is_Space c) ys # args (dropWhile (\<lambda>c. \<not> Is_Space c) ys))"
  by pat_completeness auto
termination
proof (relation "measure length")
  fix xs ys :: "u8 list"
  assume ys: "ys = dropWhile Is_Space xs" "ys \<noteq> []"
  then have "\<not> Is_Space (hd ys)" using hd_dropWhile by blast
  then have "length (dropWhile (\<lambda>c. \<not> Is_Space c) ys) < length ys"
    using ys(2) by (cases ys) (simp_all add: le_imp_less_Suc length_dropWhile_le)
  also have "\<dots> \<le> length xs" using ys(1) by (simp add: length_dropWhile_le)
  finally show "(dropWhile (\<lambda>c. \<not> Is_Space c) ys, xs) \<in> measure length" by simp
qed simp

declare args.simps [simp del]

text \<open>Bytes needed for the strings, and for the whole block.\<close>

definition strings_size :: "u8 list list \<Rightarrow> nat" where
  "strings_size ts = sum_list (map (\<lambda>t. length t + 1) ts)"

definition block_size :: "u8 list list \<Rightarrow> nat" where
  "block_size ts = 12 + 4 * length ts + strings_size ts"

text \<open>Where the strings start, the first one at offset \<open>d\<close>.\<close>

fun starts :: "nat \<Rightarrow> u8 list list \<Rightarrow> nat list" where
  "starts d [] = []"
| "starts d (t # ts) = d # starts (d + length t + 1) ts"

definition strings :: "u8 list list \<Rightarrow> u8 list" where
  "strings ts = concat (map (\<lambda>t. t @ [0]) ts)"

definition pointers :: "u32 \<Rightarrow> nat \<Rightarrow> u8 list list \<Rightarrow> u8 list" where
  "pointers user d ts = concat (map (\<lambda>p. le_bytes (user + of_nat p)) (starts d ts))"

definition block_of :: "u32 \<Rightarrow> u8 list list \<Rightarrow> u8 list" where
  "block_of user ts = le_bytes (of_nat (length ts)) @ le_bytes (user + 8) @
     pointers user (12 + 4 * length ts) ts @ le_bytes 0 @ strings ts"

lemma sizes [simp]:
  "strings_size [] = 0" "strings_size (t # ts) = length t + 1 + strings_size ts"
  "strings [] = []" "strings (t # ts) = t @ 0 # strings ts"
  "pointers user d [] = []" "pointers user d (t # ts) = le_bytes (user + of_nat d) @ pointers user (d + length t + 1) ts"
  "length (starts d ts) = length ts"
  by (simp_all add: strings_size_def strings_def pointers_def) (induction ts arbitrary: d; simp)

lemma length_strings [simp]: "length (strings ts) = strings_size ts"
  by (induction ts) simp_all

lemma length_pointers [simp]: "length (pointers user d ts) = 4 * length ts"
  by (induction ts arbitrary: d) simp_all

lemma length_block_of: "length (block_of user ts) = block_size ts"
  by (simp add: block_of_def block_size_def)

section \<open>The loops over a nul-terminated command\<close>

text \<open>A command whose text from position \<open>s\<close> on is \<open>xs\<close>.\<close>

definition text_at :: "u8 list \<Rightarrow> nat \<Rightarrow> u8 list \<Rightarrow> bool" where
  "text_at m s xs \<longleftrightarrow> (\<exists>rest. drop s m = xs @ 0 # rest) \<and> 0 \<notin> set xs"

lemma drop_eq_Cons: "drop s m = x # ys \<Longrightarrow> s < length m \<and> m ! s = x \<and> drop (Suc s) m = ys"
proof -
  assume d: "drop s m = x # ys"
  have s: "s < length m" by (rule ccontr) (use d in simp)
  have "drop s m = m ! s # drop (Suc s) m" using s by (simp add: Cons_nth_drop_Suc)
  with d s show ?thesis by simp
qed

lemma text_at_Cons:
  assumes "text_at m s (x # xs)"
  shows "s < length m" "m ! s = x" "x \<noteq> 0" "text_at m (Suc s) xs" "drop s m = x # drop (Suc s) m"
proof -
  obtain rest where r: "drop s m = x # xs @ 0 # rest" "0 \<notin> set (x # xs)" using assms by (auto simp: text_at_def)
  from drop_eq_Cons [OF r(1)] r show "s < length m" "m ! s = x" "x \<noteq> 0" "text_at m (Suc s) xs" "drop s m = x # drop (Suc s) m"
    by (auto simp: text_at_def)
qed

lemma text_at_Nil: "text_at m s [] \<Longrightarrow> s < length m \<and> m ! s = 0"
  by (auto simp: text_at_def dest: drop_eq_Cons)

lemma not_space_0 [simp]: "\<not> Is_Space 0"
  by (simp add: Is_Space_def)

lemma Skip_Whitespace_text:
  "text_at m s xs \<Longrightarrow> \<exists>s'. Skip_Whitespace m s = Some s' \<and> text_at m s' (dropWhile Is_Space xs)"
proof (induction xs arbitrary: s)
  case Nil
  then show ?case using text_at_Nil [OF Nil] by (subst Skip_Whitespace.simps) simp
next
  case (Cons x xs)
  note t = text_at_Cons [OF Cons.prems]
  show ?case using t Cons.IH [of "Suc s"] Cons.prems by (subst Skip_Whitespace.simps) simp
qed

lemma argument_len_text:
  "text_at m s xs \<Longrightarrow> argument_len_loop m s n = Some (n + length (takeWhile (\<lambda>c. \<not> Is_Space c) xs)) \<and>
     text_at m (s + length (takeWhile (\<lambda>c. \<not> Is_Space c) xs)) (dropWhile (\<lambda>c. \<not> Is_Space c) xs) \<and>
     get_bytes m s (length (takeWhile (\<lambda>c. \<not> Is_Space c) xs)) = Some (takeWhile (\<lambda>c. \<not> Is_Space c) xs)"
proof (induction xs arbitrary: s n)
  case Nil
  then show ?case using text_at_Nil [OF Nil] by (subst argument_len_loop.simps) (simp add: get_bytes_def)
next
  case (Cons x xs)
  note t = text_at_Cons [OF Cons.prems]
  show ?case
  proof (cases "Is_Space x")
    case True
    then show ?thesis using t Cons.prems by (subst argument_len_loop.simps) (simp add: get_bytes_def)
  next
    case False
    show ?thesis
      using t(1-4) False Cons.IH [of "Suc s" "Suc n"]
      by (subst argument_len_loop.simps) (auto simp: get_bytes_def t(5) split: if_splits)
  qed
qed

text \<open>The next word: either there is none, or it starts where the white space ends.\<close>

lemma next_arg:
  assumes "text_at m s xs"
  shows "\<exists>s'. Skip_Whitespace m s = Some s' \<and> s' < length m \<and>
    (m ! s' = 0 \<and> args xs = [] \<or>
     m ! s' \<noteq> 0 \<and> (\<exists>t xs'. args xs = t # args xs' \<and> Get_Argument_Len m s' = Some (length t) \<and>
       get_bytes m s' (length t) = Some t \<and> text_at m (s' + length t) xs' \<and> length xs' < length xs \<and> 0 \<notin> set t))"
proof -
  obtain s' where s': "Skip_Whitespace m s = Some s'" "text_at m s' (dropWhile Is_Space xs)"
    using Skip_Whitespace_text [OF assms] by blast
  let ?ys = "dropWhile Is_Space xs"
  let ?t = "takeWhile (\<lambda>c. \<not> Is_Space c) ?ys" and ?r = "dropWhile (\<lambda>c. \<not> Is_Space c) ?ys"
  show ?thesis
  proof (cases ?ys)
    case Nil
    then show ?thesis using s'(1) text_at_Nil [OF s'(2) [unfolded Nil]] by (intro exI [of _ s']) (simp add: args.simps [of xs])
  next
    case (Cons y ys)
    have y: "\<not> Is_Space y" using hd_dropWhile [of Is_Space xs] Cons by simp
    note c = text_at_Cons [OF s'(2) [unfolded Cons]]
    note al = argument_len_text [OF s'(2), of 0]
    have "0 \<notin> set ?t" using s'(2) set_takeWhileD [of 0] by (auto simp: text_at_def)
    moreover have "args xs = ?t # args ?r" using Cons by (simp add: args.simps [of xs])
    moreover have "length ?r < length xs"
    proof -
      have "length ?r \<le> length ys" using y Cons length_dropWhile_le by simp
      also have "\<dots> < length ?ys" using Cons by simp
      also have "\<dots> \<le> length xs" by (rule length_dropWhile_le)
      finally show ?thesis .
    qed
    ultimately show ?thesis
      using s' al c(1-3) by (intro exI [of _ s'] conjI disjI2 exI [of _ ?t] exI [of _ ?r]) (simp_all add: Get_Argument_Len_def)
  qed
qed

lemma size_loop_ok:
  assumes "text_at m s xs"
  shows "size_loop m s n c = Some (c + of_nat (length (args xs)), n + of_nat (4 * length (args xs) + strings_size (args xs)))"
  using assms
proof (induction xs arbitrary: s n c rule: measure_induct_rule [of length])
  case (less xs)
  obtain s' where s': "Skip_Whitespace m s = Some s'" "s' < length m" "m ! s' = 0 \<and> args xs = [] \<or>
     m ! s' \<noteq> 0 \<and> (\<exists>t xs'. args xs = t # args xs' \<and> Get_Argument_Len m s' = Some (length t) \<and>
       get_bytes m s' (length t) = Some t \<and> text_at m (s' + length t) xs' \<and> length xs' < length xs \<and> 0 \<notin> set t)"
    using next_arg [OF less.prems] by blast
  from s'(3) show ?case
  proof (elim disjE conjE exE)
    assume "m ! s' = 0" "args xs = []"
    then show ?thesis using s'(1,2) by (subst size_loop.simps) simp
  next
    fix t xs' assume a: "m ! s' \<noteq> 0" "args xs = t # args xs'" "Get_Argument_Len m s' = Some (length t)"
      "text_at m (s' + length t) xs'" "length xs' < length xs"
    show ?thesis
      using s'(1,2) a(1-3) less.IH [OF a(5,4)] by (subst size_loop.simps) (simp add: algebra_simps)
  qed
qed

lemma format_loop_ok:
  assumes "text_at m s xs" "length G = 4 * length (args xs)" "length H = strings_size (args xs)"
    "argv = length A" "dst = length A + length G + length B"
  shows "format_loop user m s dst argv (A @ G @ B @ H @ R) =
    Some (argv + 4 * length (args xs), A @ pointers user dst (args xs) @ B @ strings (args xs) @ R)"
  using assms
proof (induction xs arbitrary: s dst argv A G B H rule: measure_induct_rule [of length])
  case (less xs)
  obtain s' where s': "Skip_Whitespace m s = Some s'" "s' < length m" "m ! s' = 0 \<and> args xs = [] \<or>
     m ! s' \<noteq> 0 \<and> (\<exists>t xs'. args xs = t # args xs' \<and> Get_Argument_Len m s' = Some (length t) \<and>
       get_bytes m s' (length t) = Some t \<and> text_at m (s' + length t) xs' \<and> length xs' < length xs \<and> 0 \<notin> set t)"
    using next_arg [OF less.prems(1)] by blast
  from s'(3) show ?case
  proof (elim disjE conjE exE)
    assume "m ! s' = 0" "args xs = []"
    then show ?thesis using s'(1,2) less.prems by (subst format_loop.simps) simp
  next
    fix t xs' assume a: "m ! s' \<noteq> 0" "args xs = t # args xs'" "Get_Argument_Len m s' = Some (length t)"
      "get_bytes m s' (length t) = Some t" "text_at m (s' + length t) xs'" "length xs' < length xs"
    let ?le = "le_bytes (user + of_nat dst)"
    obtain G1 G2 where G: "G = G1 @ G2" "length G1 = 4" "length G2 = 4 * length (args xs')"
      using less.prems(2) a(2) by (intro that [of "take 4 G" "drop 4 G"]) simp_all
    obtain H1 z H2 where H: "H = H1 @ z # H2" "length H1 = length t" "length H2 = strings_size (args xs')"
      using less.prems(3) a(2)
      by (intro that [of "take (length t) H" "H ! length t" "drop (Suc (length t)) H"]) (simp_all add: id_take_nth_drop [symmetric])
    have p1: "put_word (A @ G @ B @ H @ R) argv (user + of_nat dst) = Some (A @ ?le @ G2 @ B @ H @ R)"
      using put_bytes_app [of ?le G1 A "G2 @ B @ H @ R"] G less.prems(4) by (simp add: put_word_def)
    have p2: "put_bytes (A @ ?le @ G2 @ B @ H @ R) dst t = Some (A @ ?le @ G2 @ B @ t @ z # H2 @ R)"
    proof -
      have "dst = length (A @ ?le @ G2 @ B)" using G less.prems(5) by simp
      then show ?thesis using put_bytes_app [of t H1 "A @ ?le @ G2 @ B" "z # H2 @ R"] H by (simp del: length_append)
    qed
    have p3: "aset (A @ ?le @ G2 @ B @ t @ z # H2 @ R) (dst + length t) 0 = Some (A @ ?le @ G2 @ B @ t @ 0 # H2 @ R)"
      using G H less.prems(5) by (simp add: aset_def list_update_append)
    have IH: "format_loop user m (s' + length t) (dst + length t + 1) (argv + 4) ((A @ ?le) @ G2 @ (B @ t @ [0]) @ H2 @ R) =
      Some (argv + 4 + 4 * length (args xs'), (A @ ?le) @ pointers user (dst + length t + 1) (args xs') @ (B @ t @ [0]) @ strings (args xs') @ R)"
      by (rule less.IH [OF a(6,5)]) (use G H less.prems(4,5) in simp_all)
    show ?thesis
      using s'(1,2) a(1-4) p1 p2 p3 IH by (subst format_loop.simps) simp
  qed
qed

section \<open>Properties\<close>

lemma arg_nonzero: "0 \<notin> set xs \<Longrightarrow> t \<in> set (args xs) \<Longrightarrow> 0 \<notin> set t"
proof (induction xs rule: args.induct)
  case (1 xs)
  let ?ys = "dropWhile Is_Space xs"
  have "0 \<notin> set ?ys" using 1(2) set_dropWhileD by metis
  then have z: "0 \<notin> set (takeWhile (\<lambda>c. \<not> Is_Space c) ?ys)" "0 \<notin> set (dropWhile (\<lambda>c. \<not> Is_Space c) ?ys)"
    using set_takeWhileD set_dropWhileD by metis+
  show ?case
  proof (cases "?ys = []")
    case False
    then have "t = takeWhile (\<lambda>c. \<not> Is_Space c) ?ys \<or> t \<in> set (args (dropWhile (\<lambda>c. \<not> Is_Space c) ?ys))"
      using 1(3) False args.simps [of xs] by (simp add: Let_def del: dropWhile_eq_Nil_conv)
    then show ?thesis using z 1(1) [OF refl False z(2)] by blast
  qed (use 1(3) in \<open>simp add: args.simps [of xs]\<close>)
qed

text \<open>What a process finds in its block: the string a pointer of the vector points to.\<close>

lemma starts_nth: "i < length ts \<Longrightarrow> starts d ts ! i = d + strings_size (take i ts)"
  by (induction ts arbitrary: d i) (auto simp: nth_Cons' take_Cons' split: if_splits nat.splits)

lemma strings_nth: "i < length ts \<Longrightarrow> drop (strings_size (take i ts)) (strings ts) = ts ! i @ 0 # strings (drop (Suc i) ts)"
proof (induction ts arbitrary: i)
  case (Cons t ts)
  then show ?case by (cases i) simp_all
qed simp

lemma pointers_nth:
  "i < length ts \<Longrightarrow> take 4 (drop (4 * i) (pointers user d ts)) = le_bytes (user + of_nat (starts d ts ! i))"
proof (induction ts arbitrary: d i)
  case (Cons t ts)
  then show ?case by (cases i) simp_all
qed simp

lemma block_of_argv:
  assumes "i < length ts"
  shows "get_word (block_of user ts) (8 + 4 * i) = Some (user + of_nat (starts (12 + 4 * length ts) ts ! i))"
    "drop (starts (12 + 4 * length ts) ts ! i) (block_of user ts) = ts ! i @ 0 # strings (drop (Suc i) ts)"
proof -
  let ?p = "pointers user (12 + 4 * length ts) ts"
  have le: "4 * i + 4 \<le> 4 * length ts" using assms by simp
  have "take 4 (drop (4 * i) (?p @ le_bytes 0 @ strings ts)) = take 4 (drop (4 * i) ?p)"
    using le by simp
  then have "take 4 (drop (8 + 4 * i) (block_of user ts)) = take 4 (drop (4 * i) ?p)"
    by (simp add: block_of_def)
  moreover have "8 + 4 * i + 4 \<le> length (block_of user ts)"
    using le by (simp add: length_block_of block_size_def)
  ultimately show "get_word (block_of user ts) (8 + 4 * i) = Some (user + of_nat (starts (12 + 4 * length ts) ts ! i))"
    using pointers_nth [OF assms] by (simp add: get_word_def add.assoc)
  show "drop (starts (12 + 4 * length ts) ts ! i) (block_of user ts) = ts ! i @ 0 # strings (drop (Suc i) ts)"
    using strings_nth [OF assms] by (simp add: starts_nth [OF assms] block_of_def)
qed

lemma Argument_Block_ok:
  assumes "text_at cmd 0 xs" "block_size (args xs) \<le> length blk" "block_size (args xs) < 2 ^ 32"
  shows "Get_Argument_Block_Size cmd = Some (of_nat (length (args xs)), of_nat (block_size (args xs)))"
    "Format_Argument_Block blk (of_nat (length (args xs))) user cmd = Some (block_of user (args xs) @ drop (block_size (args xs)) blk)"
proof -
  let ?ts = "args xs" and ?n = "length (args xs)"
  show "Get_Argument_Block_Size cmd = Some (of_nat ?n, of_nat (block_size ?ts))"
    by (simp add: Get_Argument_Block_Size_def size_loop_ok [OF assms(1)] block_size_def)
  let ?b = "block_of user ?ts"
  have nb: "?n * 4 + 4 < 2 ^ 32" using assms(3) by (simp add: block_size_def)
  then have off: "8 + unat ((of_nat ?n + 1) * 4 :: u32) = 12 + 4 * ?n"
  proof -
    have e: "(of_nat ?n + 1) * 4 = (of_nat (?n * 4 + 4) :: u32)" by (simp add: algebra_simps)
    have "unat (of_nat (?n * 4 + 4) :: u32) = (?n * 4 + 4) mod 2 ^ 32" by (simp only: unat_of_nat word_size) simp
    then have "unat ((of_nat ?n + 1) * 4 :: u32) = ?n * 4 + 4" unfolding e using nb by (simp only: mod_less)
    then show ?thesis by simp
  qed
  define G1 where "G1 = take (4 * ?n) (drop 8 blk)"
  define G2 where "G2 = take 4 (drop (8 + 4 * ?n) blk)"
  define H where "H = take (strings_size ?ts) (drop (12 + 4 * ?n) blk)"
  define R where "R = drop (block_size ?ts) blk"
  have lb: "12 + 4 * ?n + strings_size ?ts \<le> length blk" using assms(2) by (simp add: block_size_def)
  have split8: "drop 8 blk = G1 @ G2 @ H @ R"
  proof -
    have cut: "zs = take k zs @ take 4 (drop k zs) @ drop (k + 4) zs" for k and zs :: "u8 list"
      by (metis add.commute append_take_drop_id drop_drop)
    have "drop (block_size ?ts) blk = drop (strings_size ?ts) (drop (12 + 4 * ?n) blk)"
      unfolding drop_drop block_size_def by (simp only: add.commute)
    then have "drop (12 + 4 * ?n) blk = H @ R" unfolding H_def R_def by (simp only: append_take_drop_id)
    then show ?thesis using cut [of "drop 8 blk" "4 * ?n"] by (simp add: G1_def G2_def algebra_simps)
  qed
  have len: "length G1 = 4 * ?n" "length G2 = 4" "length H = strings_size ?ts"
    using lb by (simp_all add: G1_def G2_def H_def)
  let ?hd = "le_bytes (of_nat ?n) @ le_bytes (user + 8)"
  have h1: "put_word blk 0 (of_nat ?n) = Some (le_bytes (of_nat ?n) @ drop 4 blk)"
    using lb by (simp add: put_word_def put_bytes_def)
  have h2: "put_word (le_bytes (of_nat ?n) @ drop 4 blk) 4 (user + 8) = Some (?hd @ G1 @ G2 @ H @ R)"
    using lb split8 by (simp add: put_word_def put_bytes_def)
  have h3: "format_loop user cmd 0 (12 + 4 * ?n) 8 (?hd @ G1 @ G2 @ H @ R) =
      Some (8 + 4 * ?n, ?hd @ pointers user (12 + 4 * ?n) ?ts @ G2 @ strings ?ts @ R)"
  proof -
    have "8 = length ?hd" "12 + 4 * ?n = length ?hd + length G1 + length G2" using len by simp_all
    from format_loop_ok [OF assms(1) len(1,3) this, of user R] show ?thesis by simp
  qed
  have h4: "put_word (?hd @ pointers user (12 + 4 * ?n) ?ts @ G2 @ strings ?ts @ R) (8 + 4 * ?n) 0 = Some (?b @ R)"
    using put_bytes_app [of "le_bytes 0" G2 "?hd @ pointers user (12 + 4 * ?n) ?ts" "strings ?ts @ R"] len(2)
    by (simp add: put_word_def block_of_def)
  show "Format_Argument_Block blk (of_nat ?n) user cmd = Some (?b @ drop (block_size ?ts) blk)"
    by (simp only: Format_Argument_Block_def h1 h2 h3 h4 off bind.bind_lunit prod.case R_def [symmetric])
qed

text \<open>C20: The argument block of a process carries the words of its command line: the size
  computed first is exactly what formatting the block needs (no store falls outside it), and in
  the block \<open>argc\<close> is the number of words, the vector follows the two header words and ends
  with a null pointer, and each of its pointers leads to the nul-terminated text of its word.\<close>

theorem argument_block_roundtrip:
  assumes "text_at cmd 0 xs" "length blk = block_size (args xs)" "block_size (args xs) < 2 ^ 32"
  shows "Get_Argument_Block_Size cmd = Some (of_nat (length (args xs)), of_nat (block_size (args xs))) \<and>
    (\<exists>b. Format_Argument_Block blk (of_nat (length (args xs))) user cmd = Some b \<and> length b = length blk \<and>
      get_word b 0 = Some (of_nat (length (args xs))) \<and> get_word b 4 = Some (user + 8) \<and>
      get_word b (8 + 4 * length (args xs)) = Some 0 \<and>
      (\<forall>i < length (args xs). \<exists>p. get_word b (8 + 4 * i) = Some (user + of_nat p) \<and>
        get_bytes b p (length (args xs ! i) + 1) = Some (args xs ! i @ [0]) \<and> 0 \<notin> set (args xs ! i)))"
proof
  let ?ts = "args xs" and ?n = "length (args xs)"
  show "Get_Argument_Block_Size cmd = Some (of_nat ?n, of_nat (block_size ?ts))"
    by (rule Argument_Block_ok(1) [OF assms(1) _ assms(3), of blk]) (simp add: assms(2))
  let ?b = "block_of user ?ts"
  have run: "Format_Argument_Block blk (of_nat ?n) user cmd = Some ?b"
    using Argument_Block_ok(2) [OF assms(1) _ assms(3), of blk user] assms(2) by simp
  let ?hd = "le_bytes (of_nat ?n) @ le_bytes (user + 8)"
  have e: "get_word ?b 0 = Some (of_nat ?n)" "get_word ?b 4 = Some (user + 8)" "get_word ?b (8 + 4 * ?n) = Some 0"
    using get_word_app [of "le_bytes (of_nat ?n)" "[]"] get_word_app [of "le_bytes (user + 8)" "le_bytes (of_nat ?n)"]
      get_word_app [of "le_bytes 0" "?hd @ pointers user (12 + 4 * ?n) ?ts"]
    by (simp_all add: block_of_def)
  have v: "\<exists>p. get_word ?b (8 + 4 * i) = Some (user + of_nat p) \<and>
        get_bytes ?b p (length (?ts ! i) + 1) = Some (?ts ! i @ [0]) \<and> 0 \<notin> set (?ts ! i)" if i: "i < ?n" for i
  proof -
    note d = block_of_argv(2) [OF i, of user]
    have "length (drop (starts (12 + 4 * ?n) ?ts ! i) ?b) \<noteq> 0" unfolding d by simp
    then have "starts (12 + 4 * ?n) ?ts ! i + (length (?ts ! i) + 1) \<le> length ?b"
      using arg_cong [OF d, of length] by simp
    moreover have "take (length (?ts ! i) + 1) (?ts ! i @ 0 # strings (drop (Suc i) ?ts)) = ?ts ! i @ [0]" by simp
    moreover have "0 \<notin> set (?ts ! i)"
      using arg_nonzero [of xs "?ts ! i"] i assms(1) by (simp add: text_at_def)
    ultimately show ?thesis
      using block_of_argv(1) [OF i, of user] by (intro exI [of _ "starts (12 + 4 * ?n) ?ts ! i"]) (simp add: get_bytes_def d)
  qed
  show "\<exists>b. Format_Argument_Block blk (of_nat ?n) user cmd = Some b \<and> length b = length blk \<and>
      get_word b 0 = Some (of_nat ?n) \<and> get_word b 4 = Some (user + 8) \<and> get_word b (8 + 4 * ?n) = Some 0 \<and>
      (\<forall>i < ?n. \<exists>p. get_word b (8 + 4 * i) = Some (user + of_nat p) \<and>
        get_bytes b p (length (?ts ! i) + 1) = Some (?ts ! i @ [0]) \<and> 0 \<notin> set (?ts ! i))"
    using run e v assms(2) by (intro exI [of _ ?b]) (simp add: length_block_of)
qed

text \<open>The command \<open>ls /d\<close> with spaces around it.\<close>

definition sample_cmd :: "u8 list" where
  "sample_cmd = [32, 108, 115, 32, 47, 100, 32]"

lemma sample_args: "args sample_cmd = [[108, 115], [47, 100]]"
  by (simp add: sample_cmd_def args.simps Is_Space_def)

lemma argument_block_roundtrip_witness:
  "Get_Argument_Block_Size (sample_cmd @ [0]) = Some (2, 26)"
proof -
  have "text_at (sample_cmd @ [0]) 0 sample_cmd" by (simp add: text_at_def sample_cmd_def)
  from argument_block_roundtrip [OF this, of "replicate 26 0" 0] show ?thesis
    by (simp add: sample_args block_size_def)
qed

end
