(* ===== verification/Keyboard.thy ===== *)
theory Keyboard
  imports Sched
begin

text \<open>
  The keyboard driver, \<open>geekos/keyboard.c\<close>: scan codes become key codes, which wait in a ring
  buffer for \<open>Read_Key\<close> and \<open>Wait_For_Key\<close>.

  The handler's arguments are what it reads from the controller's status and data ports;
  \<open>junk\<close> is the value of its local variable \<open>shift\<close>, which it does not set for the prefix
  \<open>0xe0\<close>.  \<open>kpcs\<close> records the threads that are inside \<open>Wait_For_Key\<close>, with the interrupt flag
  they will restore.
\<close>

section \<open>Key codes\<close>

abbreviation (input) "ASCII_BS \<equiv> 0x8 :: u16"
abbreviation (input) "ASCII_ESC \<equiv> 0x1B :: u16"
abbreviation (input) "KEY_UNKNOWN \<equiv> 0x100 :: u16"
abbreviation (input) "KEY_F1 \<equiv> 0x101 :: u16"
abbreviation (input) "KEY_F2 \<equiv> 0x102 :: u16"
abbreviation (input) "KEY_F3 \<equiv> 0x103 :: u16"
abbreviation (input) "KEY_F4 \<equiv> 0x104 :: u16"
abbreviation (input) "KEY_F5 \<equiv> 0x105 :: u16"
abbreviation (input) "KEY_F6 \<equiv> 0x106 :: u16"
abbreviation (input) "KEY_F7 \<equiv> 0x107 :: u16"
abbreviation (input) "KEY_F8 \<equiv> 0x108 :: u16"
abbreviation (input) "KEY_F9 \<equiv> 0x109 :: u16"
abbreviation (input) "KEY_F10 \<equiv> 0x10A :: u16"
abbreviation (input) "KEY_LCTRL \<equiv> 0x10D :: u16"
abbreviation (input) "KEY_RCTRL \<equiv> 0x10E :: u16"
abbreviation (input) "KEY_LSHIFT \<equiv> 0x10F :: u16"
abbreviation (input) "KEY_RSHIFT \<equiv> 0x110 :: u16"
abbreviation (input) "KEY_LALT \<equiv> 0x111 :: u16"
abbreviation (input) "KEY_RALT \<equiv> 0x112 :: u16"
abbreviation (input) "KEY_PRINTSCRN \<equiv> 0x113 :: u16"
abbreviation (input) "KEY_CAPSLOCK \<equiv> 0x114 :: u16"
abbreviation (input) "KEY_NUMLOCK \<equiv> 0x115 :: u16"
abbreviation (input) "KEY_SCRLOCK \<equiv> 0x116 :: u16"
abbreviation (input) "KEY_SYSREQ \<equiv> 0x117 :: u16"
abbreviation (input) "KEY_KPHOME \<equiv> 0x380 :: u16"
abbreviation (input) "KEY_KPUP \<equiv> 0x381 :: u16"
abbreviation (input) "KEY_KPPGUP \<equiv> 0x382 :: u16"
abbreviation (input) "KEY_KPMINUS \<equiv> 0x383 :: u16"
abbreviation (input) "KEY_KPLEFT \<equiv> 0x384 :: u16"
abbreviation (input) "KEY_KPCENTER \<equiv> 0x385 :: u16"
abbreviation (input) "KEY_KPRIGHT \<equiv> 0x386 :: u16"
abbreviation (input) "KEY_KPPLUS \<equiv> 0x387 :: u16"
abbreviation (input) "KEY_KPEND \<equiv> 0x388 :: u16"
abbreviation (input) "KEY_KPDOWN \<equiv> 0x389 :: u16"
abbreviation (input) "KEY_KPPGDN \<equiv> 0x38A :: u16"
abbreviation (input) "KEY_KPINSERT \<equiv> 0x38B :: u16"
abbreviation (input) "KEY_KPDEL \<equiv> 0x38C :: u16"

definition s_scanTableNoShift :: "u16 list" where
  "s_scanTableNoShift = [
    KEY_UNKNOWN, ASCII_ESC, 49, 50, 51, 52, 53, 54,
    55, 56, 57, 48, 45, 61, ASCII_BS, 9,
    113, 119, 101, 114, 116, 121, 117, 105,
    111, 112, 91, 93, 13, KEY_LCTRL, 97, 115,
    100, 102, 103, 104, 106, 107, 108, 59,
    39, 96, KEY_LSHIFT, 92, 122, 120, 99, 118,
    98, 110, 109, 44, 46, 47, KEY_RSHIFT, KEY_PRINTSCRN,
    KEY_LALT, 32, KEY_CAPSLOCK, KEY_F1, KEY_F2, KEY_F3, KEY_F4, KEY_F5,
    KEY_F6, KEY_F7, KEY_F8, KEY_F9, KEY_F10, KEY_NUMLOCK, KEY_SCRLOCK, KEY_KPHOME,
    KEY_KPUP, KEY_KPPGUP, KEY_KPMINUS, KEY_KPLEFT, KEY_KPCENTER, KEY_KPRIGHT, KEY_KPPLUS, KEY_KPEND,
    KEY_KPDOWN, KEY_KPPGDN, KEY_KPINSERT, KEY_KPDEL, KEY_SYSREQ, KEY_UNKNOWN, KEY_UNKNOWN, KEY_UNKNOWN]"

definition s_scanTableWithShift :: "u16 list" where
  "s_scanTableWithShift = [
    KEY_UNKNOWN, ASCII_ESC, 33, 64, 35, 36, 37, 94,
    38, 42, 40, 41, 95, 43, ASCII_BS, 9,
    81, 87, 69, 82, 84, 89, 85, 73,
    79, 80, 123, 125, 13, KEY_LCTRL, 65, 83,
    68, 70, 71, 72, 74, 75, 76, 58,
    34, 126, KEY_LSHIFT, 124, 90, 88, 67, 86,
    66, 78, 77, 60, 62, 63, KEY_RSHIFT, KEY_PRINTSCRN,
    KEY_LALT, 32, KEY_CAPSLOCK, KEY_F1, KEY_F2, KEY_F3, KEY_F4, KEY_F5,
    KEY_F6, KEY_F7, KEY_F8, KEY_F9, KEY_F10, KEY_NUMLOCK, KEY_SCRLOCK, KEY_KPHOME,
    KEY_KPUP, KEY_KPPGUP, KEY_KPMINUS, KEY_KPLEFT, KEY_KPCENTER, KEY_KPRIGHT, KEY_KPPLUS, KEY_KPEND,
    KEY_KPDOWN, KEY_KPPGDN, KEY_KPINSERT, KEY_KPDEL, KEY_SYSREQ, KEY_UNKNOWN, KEY_UNKNOWN, KEY_UNKNOWN]"


abbreviation (input) "KEY_ESCAPE \<equiv> 0xE0 :: u16"
abbreviation (input) "KEY_SHIFT_FLAG \<equiv> 0x1000 :: u16"
abbreviation (input) "KEY_ALT_FLAG \<equiv> 0x2000 :: u16"
abbreviation (input) "KEY_CTRL_FLAG \<equiv> 0x4000 :: u16"
abbreviation (input) "KEY_RELEASE_FLAG \<equiv> 0x8000 :: u16"
abbreviation (input) "LEFT_SHIFT \<equiv> 0x01 :: u32"
abbreviation (input) "RIGHT_SHIFT \<equiv> 0x02 :: u32"
abbreviation (input) "LEFT_CTRL \<equiv> 0x04 :: u32"
abbreviation (input) "RIGHT_CTRL \<equiv> 0x08 :: u32"
abbreviation (input) "LEFT_ALT \<equiv> 0x10 :: u32"
abbreviation (input) "RIGHT_ALT \<equiv> 0x20 :: u32"
abbreviation (input) "ESCAPE \<equiv> 0x40 :: u32"
abbreviation (input) "SHIFT_MASK \<equiv> 0x03 :: u32"
abbreviation (input) "CTRL_MASK \<equiv> 0x0C :: u32"
abbreviation (input) "ALT_MASK \<equiv> 0x30 :: u32"
abbreviation (input) "KB_WAITQ \<equiv> WaitQ 0xB0000"

section \<open>State and queue\<close>

record kbd =
  kk :: kstate
  s_shiftState :: u32
  s_queue :: "u16 list"
  s_queueHead :: u32
  s_queueTail :: u32
  kpcs :: "u32 \<Rightarrow> bool option"

definition NEXT :: "u32 \<Rightarrow> u32" where
  "NEXT i = (i + 1) AND 0xFF"

definition Is_Queue_Empty :: "kbd \<Rightarrow> bool" where
  "Is_Queue_Empty s \<longleftrightarrow> s_queueHead s = s_queueTail s"

definition Is_Queue_Full :: "kbd \<Rightarrow> bool" where
  "Is_Queue_Full s \<longleftrightarrow> NEXT (s_queueTail s) = s_queueHead s"

definition Enqueue_Keycode :: "u16 \<Rightarrow> kbd \<Rightarrow> kbd kres" where
  "Enqueue_Keycode keycode s =
     (if Is_Queue_Full s then Some s
      else do {
        q \<leftarrow> aset (s_queue s) (unat (s_queueTail s)) keycode;
        Some (s\<lparr>s_queue := q, s_queueTail := NEXT (s_queueTail s)\<rparr>) })"

definition Dequeue_Keycode :: "kbd \<Rightarrow> (u16 \<times> kbd) kres" where
  "Dequeue_Keycode s = do {
     KASSERT (\<not> Is_Queue_Empty s);
     result \<leftarrow> aget (s_queue s) (unat (s_queueHead s));
     Some (result, s\<lparr>s_queueHead := NEXT (s_queueHead s)\<rparr>) }"

definition onkk :: "(kstate \<Rightarrow> kstate kres) \<Rightarrow> kbd \<Rightarrow> kbd kres" where
  "onkk f s = do { k \<leftarrow> f (kk s); Some (s\<lparr>kk := k\<rparr>) }"

section \<open>The interrupt handler\<close>

definition modifier_flag :: "u16 \<Rightarrow> u32 option" where
  "modifier_flag keycode =
     (if keycode = KEY_LSHIFT then Some LEFT_SHIFT else if keycode = KEY_RSHIFT then Some RIGHT_SHIFT
      else if keycode = KEY_LCTRL then Some LEFT_CTRL else if keycode = KEY_RCTRL then Some RIGHT_CTRL
      else if keycode = KEY_LALT then Some LEFT_ALT else if keycode = KEY_RALT then Some RIGHT_ALT
      else None)"

definition add_flags :: "bool \<Rightarrow> bool \<Rightarrow> u32 \<Rightarrow> u16 \<Rightarrow> u16" where
  "add_flags shift release st keycode =
     (let keycode = (if shift then keycode OR KEY_SHIFT_FLAG else keycode);
          keycode = (if st AND CTRL_MASK \<noteq> 0 then keycode OR KEY_CTRL_FLAG else keycode);
          keycode = (if st AND ALT_MASK \<noteq> 0 then keycode OR KEY_ALT_FLAG else keycode)
      in if release then keycode OR KEY_RELEASE_FLAG else keycode)"

text \<open>From the label \<open>noflagchange\<close> on.\<close>

definition deliver_key :: "bool \<Rightarrow> bool \<Rightarrow> u16 \<Rightarrow> kbd \<Rightarrow> kbd kres" where
  "deliver_key shift release keycode s = do {
     s \<leftarrow> Enqueue_Keycode (add_flags shift release (s_shiftState s) keycode) s;
     s \<leftarrow> onkk (Wake_Up KB_WAITQ) s;
     Some (s\<lparr>kk := (kk s)\<lparr>g_needReschedule := True\<rparr>\<rparr>) }"

definition process_key :: "bool \<Rightarrow> bool \<Rightarrow> u16 \<Rightarrow> kbd \<Rightarrow> kbd kres" where
  "process_key shift release keycode s =
     (case modifier_flag keycode of
        Some flag \<Rightarrow>
          Some (s\<lparr>s_shiftState := (if release then s_shiftState s AND NOT flag else s_shiftState s OR flag)\<rparr>)
      | None \<Rightarrow>
          deliver_key shift release keycode
            (if keycode = KEY_ESCAPE then s\<lparr>s_shiftState := s_shiftState s OR ESCAPE\<rparr> else s))"

definition Keyboard_Interrupt_Handler :: "u8 \<Rightarrow> u8 \<Rightarrow> bool \<Rightarrow> kbd \<Rightarrow> kbd kres" where
  "Keyboard_Interrupt_Handler status data junk s =
     (if status AND 1 = 0 then Some s
      else if data = 0xE0 then process_key junk False KEY_ESCAPE s
      else
        let release = (data AND 0x80 \<noteq> 0); scanCode = (if release then data AND NOT 0x80 else data) in
        if length s_scanTableNoShift \<le> unat scanCode then Some s
        else do {
          let shift = (s_shiftState s AND SHIFT_MASK \<noteq> 0);
          keycode \<leftarrow> aget (if shift then s_scanTableWithShift else s_scanTableNoShift) (unat scanCode);
          let keycode = (if s_shiftState s AND ESCAPE \<noteq> 0 then ucast scanCode else keycode);
          process_key shift release keycode (s\<lparr>s_shiftState := s_shiftState s AND NOT ESCAPE\<rparr>) })"

section \<open>Reading keys\<close>

text \<open>\<open>Init_Keyboard\<close>, without the set-up of the interrupt controller.\<close>

definition Init_Keyboard :: "kbd \<Rightarrow> kbd" where
  "Init_Keyboard s = s\<lparr>s_shiftState := 0, s_queueHead := 0, s_queueTail := 0\<rparr>"

definition Read_Key :: "kbd \<Rightarrow> (u16 option \<times> kbd) kres" where
  "Read_Key s = do {
     (iflag, k) \<leftarrow> Begin_Int_Atomic (kk s);
     let s = s\<lparr>kk := k\<rparr>;
     (r, s) \<leftarrow> (if Is_Queue_Empty s then Some (None, s)
                else do { (key, s) \<leftarrow> Dequeue_Keycode s; Some (Some key, s) });
     k \<leftarrow> End_Int_Atomic iflag (kk s);
     Some (r, s\<lparr>kk := k\<rparr>) }"

text \<open>A round of the loop of \<open>Wait_For_Key\<close>; with \<open>None\<close> the thread sleeps and will go on with the
  next round when it runs again.\<close>

definition Wait_For_Key_round :: "bool \<Rightarrow> kbd \<Rightarrow> (u16 option \<times> kbd) kres" where
  "Wait_For_Key_round iflag s = do {
     let t = g_currentThread (kk s);
     if Is_Queue_Empty s then do {
       s \<leftarrow> onkk (Wait KB_WAITQ) s;
       Some (None, s\<lparr>kpcs := (kpcs s)(t := Some iflag)\<rparr>) }
     else do {
       (key, s) \<leftarrow> Dequeue_Keycode s;
       k \<leftarrow> End_Int_Atomic iflag (kk s);
       Some (Some key, s\<lparr>kk := k, kpcs := (kpcs s)(t := None)\<rparr>) } }"

definition Wait_For_Key :: "kbd \<Rightarrow> (u16 option \<times> kbd) kres" where
  "Wait_For_Key s = do {
     (iflag, k) \<leftarrow> Begin_Int_Atomic (kk s);
     Wait_For_Key_round iflag (s\<lparr>kk := k\<rparr>) }"

section \<open>Bounded queues\<close>

text \<open>What the clients of a bounded queue rely on: an element put into a full queue is dropped,
  otherwise it comes last; the first element is taken out.\<close>

fun put_all :: "('a \<Rightarrow> 's \<Rightarrow> 's option) \<Rightarrow> 'a list \<Rightarrow> 's \<Rightarrow> 's option" where
  "put_all enq [] s = Some s"
| "put_all enq (x # xs) s = do { s \<leftarrow> enq x s; put_all enq xs s }"

fun get_all :: "('s \<Rightarrow> ('a \<times> 's) option) \<Rightarrow> nat \<Rightarrow> 's \<Rightarrow> ('a list \<times> 's) option" where
  "get_all deq 0 s = Some ([], s)"
| "get_all deq (Suc n) s = do { (x, s) \<leftarrow> deq s; (xs, s) \<leftarrow> get_all deq n s; Some (x # xs, s) }"

locale bounded_queue =
  fixes inv :: "'s \<Rightarrow> bool" and elems :: "'s \<Rightarrow> 'a list"
    and enq :: "'a \<Rightarrow> 's \<Rightarrow> 's option" and deq :: "'s \<Rightarrow> ('a \<times> 's) option" and cap :: nat
  assumes enq_ok: "inv s \<Longrightarrow> \<exists>s'. enq x s = Some s' \<and> inv s' \<and>
      elems s' = (if cap \<le> length (elems s) then elems s else elems s @ [x])"
    and deq_ok: "inv s \<Longrightarrow> elems s = x # xs \<Longrightarrow> \<exists>s'. deq s = Some (x, s') \<and> inv s' \<and> elems s' = xs"
begin

lemma put_all_ok:
  "inv s \<Longrightarrow> length (elems s) \<le> cap \<Longrightarrow>
     \<exists>s'. put_all enq xs s = Some s' \<and> inv s' \<and> elems s' = take cap (elems s @ xs)"
proof (induction xs arbitrary: s)
  case (Cons x xs)
  obtain s1 where s1: "enq x s = Some s1" "inv s1" "elems s1 = (if cap \<le> length (elems s) then elems s else elems s @ [x])"
    using enq_ok [OF Cons.prems(1)] by blast
  then have "length (elems s1) \<le> cap" using Cons.prems(2) by simp
  from Cons.IH [OF s1(2) this] s1 Cons.prems(2) show ?case by (auto simp: take_Cons' split: if_splits)
qed simp

lemma get_all_ok:
  "inv s \<Longrightarrow> n \<le> length (elems s) \<Longrightarrow>
     \<exists>s'. get_all deq n s = Some (take n (elems s), s') \<and> inv s' \<and> elems s' = drop n (elems s)"
proof (induction n arbitrary: s)
  case (Suc n)
  then obtain x xs where x: "elems s = x # xs" by (cases "elems s") auto
  obtain s1 where s1: "deq s = Some (x, s1)" "inv s1" "elems s1 = xs" using deq_ok [OF Suc.prems(1) x] by blast
  have "n \<le> length (elems s1)" using Suc.prems(2) x s1(3) by simp
  from Suc.IH [OF s1(2) this] s1 x show ?case by auto
qed simp

lemma fifo:
  assumes "inv s" "length (elems s) \<le> cap"
  shows "\<exists>s1 s2. put_all enq xs s = Some s1 \<and> elems s1 = take cap (elems s @ xs) \<and>
    get_all deq (length (elems s1)) s1 = Some (take cap (elems s @ xs), s2) \<and> inv s2 \<and> elems s2 = []"
  using put_all_ok [OF assms, of xs] get_all_ok by (metis drop_all order_refl take_all)

end

section \<open>The ring buffer as a queue\<close>

definition ring_ok :: "kbd \<Rightarrow> bool" where
  "ring_ok s \<longleftrightarrow> length (s_queue s) = 256 \<and> unat (s_queueHead s) < 256 \<and> unat (s_queueTail s) < 256"

definition ring_count :: "kbd \<Rightarrow> nat" where
  "ring_count s = (256 + unat (s_queueTail s) - unat (s_queueHead s)) mod 256"

definition keys :: "kbd \<Rightarrow> u16 list" where
  "keys s = map (\<lambda>i. s_queue s ! ((unat (s_queueHead s) + i) mod 256)) [0..<ring_count s]"

lemma unat_NEXT: "unat i < 256 \<Longrightarrow> unat (NEXT i) = (unat i + 1) mod 256"
proof -
  assume i: "unat i < 256"
  have "NEXT i = take_bit 8 (i + 1)" by (simp add: NEXT_def take_bit_eq_mask mask_eq_exp_minus_1)
  then have "unat (NEXT i) = take_bit 8 (unat (i + 1))" by (simp only: unsigned_take_bit_eq)
  moreover have "unat (i + 1) = unat i + 1" using i by (simp add: unat_word_ariths)
  ultimately show ?thesis by (simp add: take_bit_eq_mod)
qed

lemma Is_Queue_Empty_keys: "ring_ok s \<Longrightarrow> Is_Queue_Empty s \<longleftrightarrow> keys s = []"
  unfolding Is_Queue_Empty_def keys_def ring_count_def ring_ok_def word_unat_eq_iff
  by (auto simp: mod_if split: if_splits)

lemma Is_Queue_Full_keys: "ring_ok s \<Longrightarrow> Is_Queue_Full s \<longleftrightarrow> length (keys s) = 255"
  unfolding Is_Queue_Full_def keys_def ring_count_def ring_ok_def word_unat_eq_iff
  by (auto simp: unat_NEXT mod_if split: if_splits)

lemma ring_count_less: "ring_count s < 256"
  by (simp add: ring_count_def)

lemma Enqueue_ok:
  assumes "ring_ok s"
  shows "\<exists>q t. Enqueue_Keycode k s = Some (s\<lparr>s_queue := q, s_queueTail := t\<rparr>) \<and> ring_ok (s\<lparr>s_queue := q, s_queueTail := t\<rparr>) \<and>
    keys (s\<lparr>s_queue := q, s_queueTail := t\<rparr>) = (if length (keys s) = 255 then keys s else keys s @ [k])"
proof (cases "Is_Queue_Full s")
  case True
  then show ?thesis using assms Is_Queue_Full_keys [OF assms]
    by (intro exI [of _ "s_queue s"] exI [of _ "s_queueTail s"]) (simp add: Enqueue_Keycode_def)
next
  case False
  let ?h = "unat (s_queueHead s)" and ?t = "unat (s_queueTail s)" and ?n = "ring_count s"
  have r: "length (s_queue s) = 256" "?h < 256" "?t < 256" using assms by (simp_all add: ring_ok_def)
  let ?s = "s\<lparr>s_queue := (s_queue s)[?t := k], s_queueTail := NEXT (s_queueTail s)\<rparr>"
  have n: "?n < 255" using False Is_Queue_Full_keys [OF assms] ring_count_less [of s] by (simp add: keys_def)
  have t: "(?h + ?n) mod 256 = ?t" using r by (auto simp: ring_count_def mod_if)
  have cnt: "ring_count ?s = Suc ?n"
    using r n unfolding ring_count_def by (auto simp: unat_NEXT mod_if split: if_splits)
  have other: "(?h + i) mod 256 \<noteq> ?t" if "i < ?n" for i
    using that n r unfolding t [symmetric] by (auto simp: mod_if split: if_splits)
  have "keys ?s = keys s @ [k]"
  proof -
    have "(s_queue s)[?t := k] ! ((?h + i) mod 256) = s_queue s ! ((?h + i) mod 256)" if "i < ?n" for i
      using other [OF that] by (simp add: nth_list_update_neq [OF not_sym])
    then show ?thesis unfolding keys_def cnt using r t by simp
  qed
  moreover have "ring_ok ?s" using r by (simp add: ring_ok_def unat_NEXT)
  moreover have "length (keys s) \<noteq> 255" using n by (simp add: keys_def)
  ultimately show ?thesis using False r
    by (intro exI [of _ "(s_queue s)[?t := k]"] exI [of _ "NEXT (s_queueTail s)"]) (simp add: Enqueue_Keycode_def)
qed

lemma Dequeue_ok:
  assumes "ring_ok s" "keys s = k # ks"
  shows "\<exists>h. Dequeue_Keycode s = Some (k, s\<lparr>s_queueHead := h\<rparr>) \<and> ring_ok (s\<lparr>s_queueHead := h\<rparr>) \<and>
    keys (s\<lparr>s_queueHead := h\<rparr>) = ks"
proof -
  let ?h = "unat (s_queueHead s)" and ?t = "unat (s_queueTail s)" and ?n = "ring_count s"
  have r: "length (s_queue s) = 256" "?h < 256" "?t < 256" using assms(1) by (simp_all add: ring_ok_def)
  let ?s = "s\<lparr>s_queueHead := NEXT (s_queueHead s)\<rparr>"
  have n: "?n = Suc (length ks)" using arg_cong [OF assms(2), of length] by (simp add: keys_def)
  have cnt: "ring_count ?s = length ks"
    using r n unfolding ring_count_def by (auto simp: unat_NEXT mod_if split: if_splits)
  have k: "s_queue s ! ?h = k" using arg_cong [OF assms(2), of hd] r n by (simp add: keys_def upt_conv_Cons del: upt_Suc)
  have "keys ?s = tl (keys s)"
    unfolding keys_def cnt n using r
    by (simp add: upt_conv_Cons map_Suc_upt [symmetric] unat_NEXT mod_add_left_eq o_def del: upt_Suc)
  moreover have "Dequeue_Keycode s = Some (k, ?s)"
    using Is_Queue_Empty_keys [OF assms(1)] assms(2) r k by (simp add: Dequeue_Keycode_def)
  moreover have "ring_ok ?s" using r by (simp add: ring_ok_def unat_NEXT)
  ultimately show ?thesis using assms(2) by (intro exI [of _ "NEXT (s_queueHead s)"]) simp
qed

lemma keys_le: "length (keys s) \<le> 255"
  using ring_count_less [of s] by (simp add: keys_def)

interpretation ring: bounded_queue ring_ok keys Enqueue_Keycode Dequeue_Keycode 255
proof unfold_locales
  show "\<exists>s'. Enqueue_Keycode x s = Some s' \<and> ring_ok s' \<and> keys s' = (if 255 \<le> length (keys s) then keys s else keys s @ [x])"
    if "ring_ok s" for s x
  proof -
    have "(255 \<le> length (keys s)) = (length (keys s) = 255)" using keys_le [of s] by linarith
    with Enqueue_ok [OF that, of x] show ?thesis by metis
  qed
  show "\<exists>s'. Dequeue_Keycode s = Some (x, s') \<and> ring_ok s' \<and> keys s' = xs" if "ring_ok s" "keys s = x # xs" for s x xs
    using Dequeue_ok [OF that] by blast
qed

section \<open>The handler and the readers\<close>

lemma kbd_sel [simp]:
  "keys (s\<lparr>kk := k\<rparr>) = keys s" "keys (s\<lparr>kpcs := p\<rparr>) = keys s" "keys (s\<lparr>s_shiftState := f\<rparr>) = keys s"
  "ring_ok (s\<lparr>kk := k\<rparr>) = ring_ok s" "ring_ok (s\<lparr>kpcs := p\<rparr>) = ring_ok s" "ring_ok (s\<lparr>s_shiftState := f\<rparr>) = ring_ok s"
  by (simp_all add: keys_def ring_count_def ring_ok_def)

lemma kcalm_resched [simp]: "kcalm (k\<lparr>g_needReschedule := b\<rparr>) = kcalm k"
  by (simp add: kcalm_def kinv_def sched_ok_def off_queues_def idle_ok_def)

text \<open>What the handler does to the rest: nobody is left asleep with a new key, no queue of
  another kind changes.\<close>

definition key_frame :: "kbd \<Rightarrow> kbd \<Rightarrow> bool" where
  "key_frame s s' \<longleftrightarrow> ring_ok s' \<and> kcalm (kk s') \<and> \<not> int_flag (kk s') \<and> kpcs s' = kpcs s \<and>
     g_currentThread (kk s') = g_currentThread (kk s) \<and> (\<forall>u. priority (thr (kk s') u) = priority (thr (kk s) u)) \<and>
     (queues (kk s') KB_WAITQ = [] \<or> queues (kk s') KB_WAITQ = queues (kk s) KB_WAITQ \<and> keys s' = keys s)"

lemma deliver_key_ok:
  assumes "ring_ok s" "kcalm (kk s)" "\<not> int_flag (kk s)"
  shows "\<exists>s'. deliver_key sh rel k s = Some s' \<and> key_frame s s' \<and> s_shiftState s' = s_shiftState s \<and>
    keys s' = (if length (keys s) = 255 then keys s else keys s @ [add_flags sh rel (s_shiftState s) k]) \<and>
    queues (kk s') KB_WAITQ = [] \<and> g_needReschedule (kk s')"
proof -
  obtain q t where e: "Enqueue_Keycode (add_flags sh rel (s_shiftState s) k) s = Some (s\<lparr>s_queue := q, s_queueTail := t\<rparr>)"
    "ring_ok (s\<lparr>s_queue := q, s_queueTail := t\<rparr>)"
    "keys (s\<lparr>s_queue := q, s_queueTail := t\<rparr>) = (if length (keys s) = 255 then keys s else keys s @ [add_flags sh rel (s_shiftState s) k])"
    using Enqueue_ok [OF assms(1)] by blast
  obtain k' where k': "Wake_Up KB_WAITQ (kk s) = Some k'" "kcalm k'" "\<not> int_flag k'" "g_currentThread k' = g_currentThread (kk s)"
    "\<And>u. priority (thr k' u) = priority (thr (kk s) u)" "queues k' KB_WAITQ = []"
    using Wake_Up_calm [OF assms(2,3) is_wait_queue_simps(5)] is_wait_queue_simps(5) by metis
  let ?s1 = "s\<lparr>s_queue := q, s_queueTail := t\<rparr>"
  let ?s = "?s1\<lparr>kk := k'\<lparr>g_needReschedule := True\<rparr>\<rparr>"
  have run: "deliver_key sh rel k s = Some ?s"
    using e(1) k'(1) by (simp add: deliver_key_def onkk_def)
  have k: "keys ?s = keys ?s1" "ring_ok ?s" using e(2) by (simp_all only: kbd_sel)
  have "key_frame s ?s"
    unfolding key_frame_def using k(2) k' by simp
  then show ?thesis using run k(1) e(3) k'(6) by (intro exI [of _ ?s]) simp
qed

lemma process_key_ok:
  assumes "ring_ok s" "kcalm (kk s)" "\<not> int_flag (kk s)"
  shows "\<exists>s'. process_key sh rel k s = Some s' \<and> key_frame s s'"
proof (cases "modifier_flag k")
  case None
  let ?s = "if k = KEY_ESCAPE then s\<lparr>s_shiftState := s_shiftState s OR ESCAPE\<rparr> else s"
  have "ring_ok ?s" "kcalm (kk ?s)" "\<not> int_flag (kk ?s)" using assms by simp_all
  from deliver_key_ok [OF this, of sh rel k] None show ?thesis by (auto simp: process_key_def key_frame_def)
qed (use assms in \<open>simp add: process_key_def key_frame_def\<close>)

lemma scan_tables: "length s_scanTableNoShift = 88" "length s_scanTableWithShift = 88"
  by (simp_all add: s_scanTableNoShift_def s_scanTableWithShift_def)

lemma handler_ok:
  assumes "ring_ok s" "kcalm (kk s)" "\<not> int_flag (kk s)"
  shows "\<exists>s'. Keyboard_Interrupt_Handler status data junk s = Some s' \<and> key_frame s s'"
proof -
  have refl: "key_frame s s" using assms by (simp add: key_frame_def)
  let ?c = "if data AND 0x80 \<noteq> 0 then data AND NOT 0x80 else data"
  consider "status AND 1 = 0" | "status AND 1 \<noteq> 0" "data = 0xE0" | "status AND 1 \<noteq> 0" "data \<noteq> 0xE0" "88 \<le> unat ?c"
    | "status AND 1 \<noteq> 0" "data \<noteq> 0xE0" "unat ?c < 88" by linarith
  then show ?thesis
  proof cases
    case 2
    then show ?thesis using process_key_ok [OF assms] by (simp add: Keyboard_Interrupt_Handler_def)
  next
    case 4
    let ?s = "s\<lparr>s_shiftState := s_shiftState s AND NOT ESCAPE\<rparr>"
    have s: "ring_ok ?s" "kcalm (kk ?s)" "\<not> int_flag (kk ?s)" using assms by simp_all
    have fr: "key_frame s s' = key_frame ?s s'" for s' by (simp add: key_frame_def)
    show ?thesis
      unfolding fr using process_key_ok [OF s] 4
      by (simp add: Keyboard_Interrupt_Handler_def Let_def scan_tables del: not_less)
  qed (use refl in \<open>auto simp: Keyboard_Interrupt_Handler_def Let_def scan_tables\<close>)
qed

lemma Wait_round_ok:
  assumes "ring_ok s" "kcalm (kk s)" "\<not> int_flag (kk s)" "priority (thr (kk s) (g_currentThread (kk s))) \<noteq> PRIORITY_IDLE"
  shows "\<exists>r s'. Wait_For_Key_round f s = Some (r, s') \<and> ring_ok s' \<and> kcalm (kk s') \<and>
    (\<forall>u. priority (thr (kk s') u) = priority (thr (kk s) u)) \<and>
    (if keys s = [] then r = None \<and> keys s' = [] \<and> kpcs s' = (kpcs s)(g_currentThread (kk s) := Some f) \<and>
       queues (kk s') KB_WAITQ = queues (kk s) KB_WAITQ @ [g_currentThread (kk s)]
     else r = Some (hd (keys s)) \<and> keys s' = tl (keys s) \<and> kpcs s' = (kpcs s)(g_currentThread (kk s) := None) \<and>
       queues (kk s') = queues (kk s) \<and> int_flag (kk s') = f)"
proof (cases "keys s")
  case Nil
  then have em: "Is_Queue_Empty s" using Is_Queue_Empty_keys [OF assms(1)] by simp
  obtain k where k: "Wait KB_WAITQ (kk s) = Some k" "kcalm k" "\<forall>u. priority (thr k u) = priority (thr (kk s) u)"
    "queues k KB_WAITQ = queues (kk s) KB_WAITQ @ [g_currentThread (kk s)]"
    using Wait_calm [OF assms(2,3) is_wait_queue_simps(5) assms(4)] is_wait_queue_simps(5) by metis
  show ?thesis using Nil em k assms(1) by (simp add: Wait_For_Key_round_def onkk_def)
next
  case (Cons x xs)
  then have ne: "\<not> Is_Queue_Empty s" using Is_Queue_Empty_keys [OF assms(1)] by simp
  obtain h where h: "Dequeue_Keycode s = Some (x, s\<lparr>s_queueHead := h\<rparr>)" "ring_ok (s\<lparr>s_queueHead := h\<rparr>)"
    "keys (s\<lparr>s_queueHead := h\<rparr>) = xs" using Dequeue_ok [OF assms(1) Cons] by blast
  let ?s = "s\<lparr>s_queueHead := h\<rparr>\<lparr>kk := (kk s)\<lparr>int_flag := f\<rparr>\<rparr>\<lparr>kpcs := (kpcs s)(g_currentThread (kk s) := None)\<rparr>"
  have "Wait_For_Key_round f s = Some (Some x, ?s)" using ne h(1) assms(3) by (simp add: Wait_For_Key_round_def)
  moreover have "keys ?s = xs" "ring_ok ?s" unfolding kbd_sel using h(2,3) by simp_all
  ultimately show ?thesis using Cons assms(2) by (intro exI [of _ "Some x"] exI [of _ ?s]) simp
qed

section \<open>Reachable states\<close>

text \<open>Threads read and wait for keys; a key arrives at any moment at which interrupts are enabled.\<close>

abbreviation (input) kcur :: "kbd \<Rightarrow> u32" where
  "kcur s \<equiv> g_currentThread (kk s)"

definition key_irq :: "u8 \<Rightarrow> u8 \<Rightarrow> bool \<Rightarrow> kbd \<Rightarrow> kbd kres" where
  "key_irq status data junk s = do {
     s \<leftarrow> Keyboard_Interrupt_Handler status data junk (s\<lparr>kk := (kk s)\<lparr>int_flag := False\<rparr>\<rparr>);
     Some (s\<lparr>kk := (kk s)\<lparr>int_flag := True\<rparr>\<rparr>) }"

inductive kreach_kbd :: "kbd \<Rightarrow> bool" where
  init: "length (s_queue s) = 256 \<Longrightarrow> kcalm (kk s) \<Longrightarrow> queues (kk s) KB_WAITQ = [] \<Longrightarrow> (\<And>t. kpcs s t = None) \<Longrightarrow>
    kreach_kbd (Init_Keyboard s)"
| irq: "kreach_kbd s \<Longrightarrow> kpcs s (kcur s) = None \<Longrightarrow> int_flag (kk s) \<Longrightarrow> key_irq status data junk s = Some s' \<Longrightarrow> kreach_kbd s'"
| switch: "kreach_kbd s \<Longrightarrow> kpcs s (kcur s) = None \<Longrightarrow> onkk Yield s = Some s' \<Longrightarrow> kreach_kbd s'"
| sti: "kreach_kbd s \<Longrightarrow> kpcs s (kcur s) = None \<Longrightarrow> kreach_kbd (s\<lparr>kk := (kk s)\<lparr>int_flag := b\<rparr>\<rparr>)"
| poll: "kreach_kbd s \<Longrightarrow> kpcs s (kcur s) = None \<Longrightarrow> Read_Key s = Some (r, s') \<Longrightarrow> kreach_kbd s'"
| wait: "kreach_kbd s \<Longrightarrow> kpcs s (kcur s) = None \<Longrightarrow> priority (thr (kk s) (kcur s)) \<noteq> PRIORITY_IDLE \<Longrightarrow>
    Wait_For_Key s = Some (r, s') \<Longrightarrow> kreach_kbd s'"
| again: "kreach_kbd s \<Longrightarrow> kpcs s (kcur s) = Some f \<Longrightarrow> \<not> int_flag (kk s) \<Longrightarrow> Wait_For_Key_round f s = Some (r, s') \<Longrightarrow> kreach_kbd s'"

definition kbd_inv :: "kbd \<Rightarrow> bool" where
  "kbd_inv s \<longleftrightarrow> ring_ok s \<and> kcalm (kk s) \<and>
     (\<forall>t. kpcs s t \<noteq> None \<longrightarrow> priority (thr (kk s) t) \<noteq> PRIORITY_IDLE) \<and>
     (\<forall>t \<in> set (queues (kk s) KB_WAITQ). kpcs s t \<noteq> None) \<and> (queues (kk s) KB_WAITQ \<noteq> [] \<longrightarrow> keys s = [])"

lemma kbd_invD:
  assumes "kbd_inv s"
  shows "ring_ok s" "kcalm (kk s)" "kpcs s t \<noteq> None \<Longrightarrow> priority (thr (kk s) t) \<noteq> PRIORITY_IDLE"
    "t \<in> set (queues (kk s) KB_WAITQ) \<Longrightarrow> kpcs s t \<noteq> None" "queues (kk s) KB_WAITQ \<noteq> [] \<Longrightarrow> keys s = []"
    "kcur s \<notin> set (queues (kk s) q)"
  using assms by (auto simp: kbd_inv_def kcalm_def kinv_def off_queues_def)

lemma kbd_inv_flag [simp]: "kbd_inv (s\<lparr>kk := (kk s)\<lparr>int_flag := b\<rparr>\<rparr>) = kbd_inv s"
  by (simp add: kbd_inv_def)

lemma key_frame_inv: "kbd_inv s \<Longrightarrow> key_frame s s' \<Longrightarrow> kbd_inv s'"
proof -
  assume inv: "kbd_inv s" and F: "key_frame s s'"
  note I = kbd_invD [OF inv]
  have f: "ring_ok s'" "kcalm (kk s')" "kpcs s' = kpcs s" "\<And>u. priority (thr (kk s') u) = priority (thr (kk s) u)"
    "queues (kk s') KB_WAITQ = [] \<or> queues (kk s') KB_WAITQ = queues (kk s) KB_WAITQ \<and> keys s' = keys s"
    using F by (simp_all add: key_frame_def)
  show "kbd_inv s'"
    unfolding kbd_inv_def f(3,4)
  proof (intro conjI allI ballI impI)
    show "priority (thr (kk s) t) \<noteq> 0" if "kpcs s t \<noteq> None" for t by (rule I(3) [OF that])
    show "kpcs s t \<noteq> None" if "t \<in> set (queues (kk s') KB_WAITQ)" for t using f(5) that I(4) [of t] by auto
    show "keys s' = []" if "queues (kk s') KB_WAITQ \<noteq> []" using f(5) that I(5) by auto
  qed (fact f)+
qed

lemma key_irq_inv:
  assumes "kbd_inv s"
  shows "\<exists>s'. key_irq status data junk s = Some s' \<and> kbd_inv s'"
proof -
  let ?s = "s\<lparr>kk := (kk s)\<lparr>int_flag := False\<rparr>\<rparr>"
  have inv: "kbd_inv ?s" using assms by simp
  obtain s1 where s1: "Keyboard_Interrupt_Handler status data junk ?s = Some s1" "key_frame ?s s1"
    using handler_ok [OF kbd_invD(1,2) [OF inv]] by fastforce
  then show ?thesis using key_frame_inv [OF inv s1(2)] by (simp add: key_irq_def)
qed

lemma Wait_round_inv:
  assumes inv: "kbd_inv s" and IF: "\<not> int_flag (kk s)" and pr: "priority (thr (kk s) (kcur s)) \<noteq> PRIORITY_IDLE"
  shows "\<exists>r s'. Wait_For_Key_round f s = Some (r, s') \<and> kbd_inv s' \<and> (r = None \<longleftrightarrow> keys s = [])"
proof -
  note I = kbd_invD [OF inv]
  obtain r s' where w: "Wait_For_Key_round f s = Some (r, s')" "ring_ok s'" "kcalm (kk s')"
    "\<And>u. priority (thr (kk s') u) = priority (thr (kk s) u)"
    "if keys s = [] then r = None \<and> keys s' = [] \<and> kpcs s' = (kpcs s)(kcur s := Some f) \<and>
       queues (kk s') KB_WAITQ = queues (kk s) KB_WAITQ @ [kcur s]
     else r = Some (hd (keys s)) \<and> keys s' = tl (keys s) \<and> kpcs s' = (kpcs s)(kcur s := None) \<and>
       queues (kk s') = queues (kk s) \<and> int_flag (kk s') = f"
    using Wait_round_ok [OF I(1,2) IF pr, of f] by blast
  have "kbd_inv s'"
    unfolding kbd_inv_def w(4)
  proof (intro conjI allI ballI impI)
    show "priority (thr (kk s) t) \<noteq> 0" if "kpcs s' t \<noteq> None" for t
      using that w(5) I(3) [of t] pr by (cases "t = kcur s") (simp_all split: if_splits)
    show "kpcs s' t \<noteq> None" if "t \<in> set (queues (kk s') KB_WAITQ)" for t
      using that w(5) I(4) [of t] I(6) [of "KB_WAITQ"] by (cases "t = kcur s") (auto split: if_splits)
    show "keys s' = []" if "queues (kk s') KB_WAITQ \<noteq> []"
      using that w(5) I(5) by (auto split: if_splits)
  qed (use w(2,3) in simp_all)
  then show ?thesis using w(1,5) by (intro exI [of _ r] exI [of _ s']) (auto split: if_splits)
qed

lemma Read_Key_ok:
  assumes inv: "kbd_inv s"
  shows "\<exists>s'. Read_Key s = Some (if keys s = [] then None else Some (hd (keys s)), s') \<and> kbd_inv s' \<and>
    keys s' = tl (keys s) \<and> int_flag (kk s') = int_flag (kk s)"
proof (cases "keys s")
  case Nil
  have c: "Is_Queue_Empty (s\<lparr>kk := k\<rparr>)" for k using Is_Queue_Empty_keys [of "s\<lparr>kk := k\<rparr>"] kbd_invD(1) [OF inv] Nil by simp
  let ?s = "s\<lparr>kk := (kk s)\<lparr>int_flag := int_flag (kk s)\<rparr>\<rparr>"
  have "Read_Key s = Some (None, ?s)" by (simp add: Read_Key_def c)
  moreover have "kbd_inv ?s" "keys ?s = keys s" using inv by (simp_all only: kbd_inv_flag kbd_sel)
  ultimately show ?thesis using Nil by (intro exI [of _ ?s]) simp
next
  case (Cons x xs)
  let ?s0 = "s\<lparr>kk := (kk s)\<lparr>int_flag := False\<rparr>\<rparr>"
  have r0: "ring_ok ?s0" "keys ?s0 = x # xs" using kbd_invD(1) [OF inv] Cons by simp_all
  obtain h where h: "Dequeue_Keycode ?s0 = Some (x, ?s0\<lparr>s_queueHead := h\<rparr>)" "ring_ok (?s0\<lparr>s_queueHead := h\<rparr>)"
    "keys (?s0\<lparr>s_queueHead := h\<rparr>) = xs" using Dequeue_ok [OF r0] by blast
  have ne: "\<not> Is_Queue_Empty ?s0" using Is_Queue_Empty_keys [OF r0(1)] r0(2) by simp
  define f where "f = int_flag (kk s)"
  let ?s = "?s0\<lparr>s_queueHead := h\<rparr>\<lparr>kk := (kk s)\<lparr>int_flag := f\<rparr>\<rparr>"
  have "Read_Key s = Some (Some x, ?s)"
    using ne h(1) by (simp add: Read_Key_def f_def [symmetric])
  moreover have k: "keys ?s = xs" "ring_ok ?s" unfolding kbd_sel using h(2,3) by simp_all
  moreover have "kbd_inv ?s"
    unfolding kbd_inv_def k(1)
  proof (intro conjI allI ballI impI)
    show "xs = []" if "queues (kk ?s) KB_WAITQ \<noteq> []" using kbd_invD(5) [OF inv] Cons that by simp
  qed (use k(2) kbd_invD(2,3,4) [OF inv] in simp_all)
  ultimately show ?thesis using Cons by (intro exI [of _ ?s]) (simp add: f_def)
qed

lemma kreach_kbd_inv: "kreach_kbd s \<Longrightarrow> kbd_inv s"
proof (induction rule: kreach_kbd.induct)
  case (init s)
  then show ?case by (simp add: kbd_inv_def ring_ok_def Init_Keyboard_def)
next
  case (irq s status data junk s')
  then show ?case using key_irq_inv [OF irq.IH, of status data junk] by auto
next
  case (switch s s')
  have IF: "int_flag (kk s)" using switch.hyps(3) by (auto simp: onkk_def Yield_def bind_Some_iff split: if_splits)
  obtain k where k: "Yield (kk s) = Some k" "kcalm k" "\<And>u. priority (thr k u) = priority (thr (kk s) u)"
    "queues k KB_WAITQ = queues (kk s) KB_WAITQ"
    using Yield_calm [OF kbd_invD(2) [OF switch.IH] IF] is_wait_queue_simps(5) by metis
  have "s' = s\<lparr>kk := k\<rparr>" using switch.hyps(3) k(1) by (simp add: onkk_def)
  then show ?case using kbd_invD [OF switch.IH] k by (simp add: kbd_inv_def)
next
  case (poll s r s')
  then show ?case using Read_Key_ok [OF poll.IH] by auto
next
  case (wait s r s')
  let ?s = "s\<lparr>kk := (kk s)\<lparr>int_flag := False\<rparr>\<rparr>"
  have "Wait_For_Key_round (int_flag (kk s)) ?s = Some (r, s')" using wait.hyps(4) by (simp add: Wait_For_Key_def)
  then show ?case using Wait_round_inv [of ?s "int_flag (kk s)"] wait.IH wait.hyps(3) by simp
next
  case (again s f r s')
  have "priority (thr (kk s) (kcur s)) \<noteq> 0" using kbd_invD(3) [OF again.IH, of "kcur s"] again.hyps(2) by simp
  then show ?case using Wait_round_inv [OF again.IH again.hyps(3), of f] again.hyps(4) by auto
qed simp

section \<open>Properties\<close>

definition sample_kbd :: kbd where
  "sample_kbd = Init_Keyboard \<lparr>kk = sample_threads, s_shiftState = 0, s_queue = replicate 256 0, s_queueHead = 0,
     s_queueTail = 0, kpcs = (\<lambda>_. None)\<rparr>"

lemma sample_kbd_reach: "kreach_kbd sample_kbd"
  unfolding sample_kbd_def
  by (rule kreach_kbd.init) (use sample_threads_ok in \<open>simp_all add: kcalm_def\<close>, simp add: sample_threads_def)

lemma sample_kbd_simps: "ring_ok sample_kbd" "keys sample_kbd = []" "kcalm (kk sample_kbd)" "\<not> int_flag (kk sample_kbd)"
    "s_shiftState sample_kbd = 0"
  using kbd_invD [OF kreach_kbd_inv [OF sample_kbd_reach]]
  by (simp_all add: keys_def ring_count_def) (simp_all add: sample_kbd_def Init_Keyboard_def sample_threads_def)

text \<open>C37: The ring buffer is a queue of at most 255 key codes: whatever is put into it comes out
  complete and in order, except that key codes that arrive while it is full are dropped.\<close>

theorem keys_come_in_order:
  assumes "ring_ok s"
  shows "\<exists>s1 s2. put_all Enqueue_Keycode ks s = Some s1 \<and> keys s1 = take 255 (keys s @ ks) \<and>
    get_all Dequeue_Keycode (length (keys s1)) s1 = Some (take 255 (keys s @ ks), s2) \<and> ring_ok s2 \<and> keys s2 = []"
  using ring.fifo [OF assms keys_le] by blast

lemma keys_come_in_order_witness:
  "\<exists>s1 s2. put_all Enqueue_Keycode [97, 98] sample_kbd = Some s1 \<and> get_all Dequeue_Keycode (length (keys s1)) s1 = Some ([97, 98], s2)"
  using keys_come_in_order [OF sample_kbd_simps(1), of "[97, 98]"] by (auto simp: sample_kbd_simps)

text \<open>What a scan code does: a modifier key, pressed or released, changes its bit of the shift
  state and nothing else; any other key is queued (unless the queue is full) as its entry of the
  table for the current shift state with the modifiers and the release flag added, the waiting
  threads are woken up and a new choice of thread is asked for.\<close>

theorem key_event:
  assumes "ring_ok s" "kcalm (kk s)" "\<not> int_flag (kk s)" "status AND 1 \<noteq> 0" "data \<noteq> 0xE0"
    "code = (if data AND 0x80 \<noteq> 0 then data AND NOT 0x80 else data)" "unat code < 88" "s_shiftState s AND ESCAPE = 0"
    "sh = (s_shiftState s AND SHIFT_MASK \<noteq> 0)" "k = (if sh then s_scanTableWithShift else s_scanTableNoShift) ! unat code"
  shows "\<exists>s'. Keyboard_Interrupt_Handler status data junk s = Some s' \<and>
    (case modifier_flag k of
       Some flag \<Rightarrow> s' = s\<lparr>s_shiftState := (if data AND 0x80 \<noteq> 0 then s_shiftState s AND NOT flag else s_shiftState s OR flag)\<rparr>
     | None \<Rightarrow> k \<noteq> KEY_ESCAPE \<longrightarrow> s_shiftState s' = s_shiftState s \<and> queues (kk s') KB_WAITQ = [] \<and> g_needReschedule (kk s') \<and>
         keys s' = (if length (keys s) = 255 then keys s
                    else keys s @ [add_flags sh (data AND 0x80 \<noteq> 0) (s_shiftState s) k]))"
proof -
  let ?st = "s_shiftState s" and ?rel = "data AND 0x80 \<noteq> 0"
  have noesc: "?st AND NOT ESCAPE = ?st"
  proof (rule bit_word_eqI)
    fix i assume i: "i < LENGTH(32)"
    have "\<not> bit (?st AND ESCAPE) i" using assms(8) by simp
    then show "bit (?st AND NOT ESCAPE) i = bit ?st i" using i by (simp only: bit_and_iff bit_not_iff possible_bit_word) blast
  qed
  have same: "s\<lparr>s_shiftState := ?st\<rparr> = s" by simp
  have run: "Keyboard_Interrupt_Handler status data junk s = process_key sh ?rel k s"
    using assms(4-8) unfolding assms(9,10)
    by (simp only: Keyboard_Interrupt_Handler_def Let_def noesc same if_False scan_tables aget_def bind.bind_lunit
        split: if_split) (auto simp: scan_tables)
  show ?thesis
  proof (cases "modifier_flag k")
    case None
    with deliver_key_ok [OF assms(1-3), of sh ?rel k] show ?thesis
      unfolding run by (cases "k = KEY_ESCAPE") (use handler_ok [OF assms(1-3), of status data junk] run in \<open>auto simp: process_key_def\<close>)
  qed (simp add: run process_key_def)
qed

lemma key_event_witness:
  "\<exists>s'. Keyboard_Interrupt_Handler 1 0x1E False sample_kbd = Some s' \<and> keys s' = [97]"
  using key_event [OF sample_kbd_simps(1,3,4), of 1 "0x1E" "0x1E" False 97 False]
  by (auto simp: sample_kbd_simps s_scanTableNoShift_def modifier_flag_def add_flags_def)

text \<open>No key is slept over: threads sleep in \<open>Wait_For_Key\<close> only while no key code is queued,
  and a thread that is inside \<open>Wait_For_Key\<close> and runs again gets the oldest key code if there
  is one by then, and sleeps again otherwise.\<close>

theorem no_key_slept_over:
  assumes "kreach_kbd s"
  shows "(queues (kk s) KB_WAITQ \<noteq> [] \<longrightarrow> keys s = []) \<and> (\<forall>t \<in> set (queues (kk s) KB_WAITQ). kpcs s t \<noteq> None) \<and>
    (\<forall>f. kpcs s (kcur s) = Some f \<and> \<not> int_flag (kk s) \<longrightarrow>
      (\<exists>r s'. Wait_For_Key_round f s = Some (r, s') \<and> kreach_kbd s' \<and>
        r = (if keys s = [] then None else Some (hd (keys s)))))"
proof (intro conjI allI ballI impI)
  note inv = kreach_kbd_inv [OF assms]
  note I = kbd_invD [OF inv]
  show "keys s = []" if "queues (kk s) KB_WAITQ \<noteq> []" by (rule I(5) [OF that])
  show "kpcs s t \<noteq> None" if "t \<in> set (queues (kk s) KB_WAITQ)" for t by (rule I(4) [OF that])
  fix f assume f: "kpcs s (kcur s) = Some f \<and> \<not> int_flag (kk s)"
  then have "priority (thr (kk s) (kcur s)) \<noteq> 0" using I(3) [of "kcur s"] by simp
  from Wait_round_ok [OF I(1,2) _ this, of f] f obtain r s' where
    w: "Wait_For_Key_round f s = Some (r, s')" "if keys s = [] then r = None \<and> keys s' = [] \<and> kpcs s' = (kpcs s)(kcur s := Some f) \<and>
       queues (kk s') KB_WAITQ = queues (kk s) KB_WAITQ @ [kcur s]
     else r = Some (hd (keys s)) \<and> keys s' = tl (keys s) \<and> kpcs s' = (kpcs s)(kcur s := None) \<and>
       queues (kk s') = queues (kk s) \<and> int_flag (kk s') = f"
    by blast
  then have "r = (if keys s = [] then None else Some (hd (keys s)))" by (cases "keys s = []") simp_all
  with w(1) kreach_kbd.again [OF assms] f
  show "\<exists>r s'. Wait_For_Key_round f s = Some (r, s') \<and> kreach_kbd s' \<and> r = (if keys s = [] then None else Some (hd (keys s)))"
    by blast
qed

lemma no_key_slept_over_witness:
  "kreach_kbd sample_kbd \<and> (queues (kk sample_kbd) KB_WAITQ = [] \<or> keys sample_kbd = [])"
proof (intro conjI sample_kbd_reach)
  show "queues (kk sample_kbd) KB_WAITQ = [] \<or> keys sample_kbd = []"
    using conjunct1 [OF no_key_slept_over [OF sample_kbd_reach]] by (cases "queues (kk sample_kbd) KB_WAITQ = []") (rule disjI1, assumption, rule disjI2, erule mp, assumption)
qed

end
