(* ===== verification/Signal.thy ===== *)
theory Signal
  imports Sched Bytes
begin

text \<open>
  Signals, \<open>geekos/signal.c\<close>, with the system calls of \<open>geekos/syscall.c\<close> that set them up and
  the dispatch of \<open>geekos/trap.c\<close>.

  The interrupt frame, the kernel stacks and the user stack are bytes of the memory \<open>smem\<close>, as
  the address space of the running process shows it; \<open>fr\<close> is the address of the
  \<open>Interrupt_State\<close> that the low-level code passes.  The fields a user context has for signals
  are maps over the address of the context.
\<close>

section \<open>Memory\<close>

type_synonym memory = "u32 \<Rightarrow> u8"

fun load_bytes :: "memory \<Rightarrow> u32 \<Rightarrow> nat \<Rightarrow> u8 list" where
  "load_bytes m a 0 = []"
| "load_bytes m a (Suc n) = m a # load_bytes m (a + 1) n"

fun store_bytes :: "memory \<Rightarrow> u32 \<Rightarrow> u8 list \<Rightarrow> memory" where
  "store_bytes m a [] = m"
| "store_bytes m a (x # xs) = store_bytes (m(a := x)) (a + 1) xs"

definition load_word :: "memory \<Rightarrow> u32 \<Rightarrow> u32" where
  "load_word m a = le_word (load_bytes m a 4)"

definition store_word :: "memory \<Rightarrow> u32 \<Rightarrow> u32 \<Rightarrow> memory" where
  "store_word m a w = store_bytes m a (le_bytes w)"

text \<open>The addresses of an area.\<close>

definition area :: "u32 \<Rightarrow> nat \<Rightarrow> u32 set" where
  "area a n = (\<lambda>i. a + of_nat i) ` {..<n}"

lemma area_simps [simp]: "area a 0 = {}" "area a (Suc n) = insert a (area (a + 1) n)"
  by (auto simp: area_def image_iff lessThan_Suc_eq_insert_0 add.assoc)

lemma length_load_bytes [simp]: "length (load_bytes m a n) = n"
  by (induction n arbitrary: a) simp_all

lemma store_bytes_other: "b \<notin> area a (length xs) \<Longrightarrow> store_bytes m a xs b = m b"
  by (induction xs arbitrary: m a) auto

lemma load_bytes_cong: "(\<And>b. b \<in> area a n \<Longrightarrow> m b = m' b) \<Longrightarrow> load_bytes m a n = load_bytes m' a n"
  by (induction n arbitrary: a) auto

lemma load_store_other: "area a n \<inter> area b (length xs) = {} \<Longrightarrow> load_bytes (store_bytes m b xs) a n = load_bytes m a n"
  by (rule load_bytes_cong) (auto intro: store_bytes_other)

lemma area_first: "n < 2 ^ 32 \<Longrightarrow> a \<notin> area (a + 1) n"
proof
  assume n: "n < 2 ^ 32" and "a \<in> area (a + 1) n"
  then obtain i where i: "i < n" "a + 1 + of_nat i = a" by (auto simp: area_def)
  then have "of_nat (Suc i) = (0 :: u32)" by (simp add: algebra_simps)
  then have "Suc i mod 2 ^ 32 = 0" using unat_of_nat [of "Suc i", where 'a = 32] by simp
  moreover have "Suc i < 2 ^ 32 \<or> Suc i = 2 ^ 32" using i n by linarith
  ultimately show False using i n by auto
qed

lemma load_store_same: "length xs \<le> 2 ^ 32 \<Longrightarrow> load_bytes (store_bytes m a xs) a (length xs) = xs"
proof (induction xs arbitrary: m a)
  case (Cons x xs)
  have "a \<notin> area (a + 1) (length xs)" by (rule area_first) (use Cons.prems in simp)
  then show ?case using Cons by (simp add: store_bytes_other)
qed simp

lemma load_bytes_append: "load_bytes m a (n + k) = load_bytes m a n @ load_bytes m (a + of_nat n) k"
  by (induction n arbitrary: a) (simp_all add: add.assoc)

text \<open>\<open>memcpy\<close>, byte after byte.\<close>

fun copy_bytes :: "memory \<Rightarrow> u32 \<Rightarrow> u32 \<Rightarrow> nat \<Rightarrow> memory" where
  "copy_bytes m d s 0 = m"
| "copy_bytes m d s (Suc n) = copy_bytes (m(d := m s)) (d + 1) (s + 1) n"

lemma copy_bytes_disjoint:
  "area d n \<inter> area s n = {} \<Longrightarrow> copy_bytes m d s n = store_bytes m d (load_bytes m s n)"
proof (induction n arbitrary: m d s)
  case (Suc n)
  then have "load_bytes (m(d := m s)) (s + 1) n = load_bytes m (s + 1) n"
    by (intro load_bytes_cong) auto
  moreover have "area (d + 1) n \<inter> area (s + 1) n = {}" using Suc.prems by auto
  ultimately show ?case using Suc.IH [of "d + 1" "s + 1" "m(d := m s)"] by (simp del: fun_upd_apply)
qed simp

section \<open>State\<close>

record sig_state =
  sk :: kstate
  smem :: memory
  uc_signal :: "u32 \<Rightarrow> int"
  uc_saHandler :: "u32 \<Rightarrow> u32 list"
  uc_dflHandler :: "u32 \<Rightarrow> u32"
  uc_ignHandler :: "u32 \<Rightarrow> u32"
  uc_returnSignal :: "u32 \<Rightarrow> u32"

abbreviation (input) "USER_BASE_ADDR \<equiv> 0x80000000 :: u32"
abbreviation (input) "MAXSIG \<equiv> 5 :: nat"
abbreviation (input) "SIGALRM \<equiv> 5 :: int"

text \<open>Offsets in an interrupt frame.\<close>

abbreviation (input) "OFF_EDX \<equiv> 28 :: u32"
abbreviation (input) "OFF_ECX \<equiv> 32 :: u32"
abbreviation (input) "OFF_EBX \<equiv> 36 :: u32"
abbreviation (input) "OFF_EAX \<equiv> 40 :: u32"
abbreviation (input) "OFF_EIP \<equiv> 52 :: u32"
abbreviation (input) "OFF_CS \<equiv> 56 :: u32"
abbreviation (input) "OFF_ESP_USER \<equiv> 64 :: u32"
abbreviation (input) "OFF_SS_USER \<equiv> 68 :: u32"
abbreviation (input) "SIZE_STATE \<equiv> 64 :: nat"

abbreviation (input) context_of :: "sig_state \<Rightarrow> u32 \<Rightarrow> u32" where
  "context_of s t \<equiv> userContext (thr (sk s) t)"

definition Get_User_Address :: "u32 \<Rightarrow> u32" where
  "Get_User_Address a = USER_BASE_ADDR + a"

definition Get_Kernel_Address :: "u32 \<Rightarrow> u32" where
  "Get_Kernel_Address a = a - USER_BASE_ADDR"

section \<open>Operations\<close>

text \<open>A null pointer to a thread or a context, and a signal number outside the table, are accesses
  the code is not entitled to.\<close>

definition Send_Signal :: "u32 \<Rightarrow> int \<Rightarrow> sig_state \<Rightarrow> sig_state kres" where
  "Send_Signal t sig s = do {
     KASSERT (t \<noteq> 0);
     KASSERT (context_of s t \<noteq> 0);
     Some (s\<lparr>uc_signal := (uc_signal s)(context_of s t := sig)\<rparr>) }"

definition Set_Handler :: "u32 \<Rightarrow> int \<Rightarrow> u32 \<Rightarrow> sig_state \<Rightarrow> sig_state kres" where
  "Set_Handler t sig handler s = do {
     let c = context_of s t;
     KASSERT (c \<noteq> 0);
     KASSERT (0 \<le> sig);
     hs \<leftarrow> aset (uc_saHandler s c) (nat sig) handler;
     Some (s\<lparr>uc_saHandler := (uc_saHandler s)(c := hs)\<rparr>) }"

definition Check_Pending_Signal :: "u32 \<Rightarrow> u32 \<Rightarrow> sig_state \<Rightarrow> int kres" where
  "Check_Pending_Signal t fr s = do {
     KASSERT (\<not> Interrupts_Enabled (sk s));
     let c = context_of s t;
     if c = 0 then Some 0
     else if load_word (smem s) (fr + OFF_CS) = KERNEL_CS then
       (if uc_signal s c \<noteq> 0 \<and> waitQueue (thr (sk s) t) \<noteq> None then Some (uc_signal s c) else Some 0)
     else if uc_signal s c \<noteq> 0 then Some (uc_signal s c)
     else Some 0 }"

definition Setup_Frame :: "u32 \<Rightarrow> u32 \<Rightarrow> sig_state \<Rightarrow> sig_state kres" where
  "Setup_Frame t fr s = do {
     KASSERT (\<not> Interrupts_Enabled (sk s));
     let c = context_of s t;
     KASSERT (c \<noteq> 0);
     let m = (if waitQueue (thr (sk s) t) \<noteq> None
              then copy_bytes (smem s) fr (stackPage (thr (sk s) t) + 4096 - 72) (SIZE_STATE + 8) else smem s);
     let user = load_word m (fr + OFF_ESP_USER);
     let ptr = Get_User_Address user;
     let ds = load_word m (fr + OFF_SS_USER);
     let ptr = ptr - 4;
     let m = store_word m ptr ds;
     let ptr = ptr - 4;
     let m = store_word m ptr (load_word m (fr + OFF_ESP_USER));
     let ptr = ptr - 64;
     let m = copy_bytes m ptr fr SIZE_STATE;
     let ptr = ptr - 4;
     let m = store_word m ptr (uc_returnSignal s c);
     KASSERT (0 \<le> uc_signal s c);
     handler \<leftarrow> aget (uc_saHandler s c) (nat (uc_signal s c));
     let m = store_word m (fr + OFF_EIP) handler;
     let m = store_word m (fr + OFF_ESP_USER) (Get_Kernel_Address ptr);
     Some (s\<lparr>smem := m, uc_signal := (uc_signal s)(c := 0), sk := upd_thr t (\<lambda>k. k\<lparr>waitQueue := None\<rparr>) (sk s)\<rparr>) }"

definition Complete_Handler :: "u32 \<Rightarrow> u32 \<Rightarrow> sig_state \<Rightarrow> sig_state" where
  "Complete_Handler t fr s =
     s\<lparr>smem := copy_bytes (smem s) fr (Get_User_Address (load_word (smem s) (fr + OFF_ESP_USER))) (SIZE_STATE + 8)\<rparr>"

section \<open>System calls\<close>

definition onsk :: "(kstate \<Rightarrow> kstate kres) \<Rightarrow> sig_state \<Rightarrow> sig_state kres" where
  "onsk f s = do { k \<leftarrow> f (sk s); Some (s\<lparr>sk := k\<rparr>) }"

text \<open>The end of \<open>Sys_Kill\<close> and of an expired alarm: wake the thread up and give back the
  reference, which the code decides by comparing a process number with a pointer.\<close>

definition wake_and_deref :: "int \<Rightarrow> u32 \<Rightarrow> sig_state \<Rightarrow> sig_state kres" where
  "wake_and_deref me t s = do {
     s \<leftarrow> (if blocked (thr (sk s) t) then onsk (Wake_Up_Process t) s else Some s);
     Some (if word_of_int me \<noteq> owner (thr (sk s) t)
           then s\<lparr>sk := upd_thr t (\<lambda>k. k\<lparr>refCount := refCount k - 1\<rparr>) (sk s)\<rparr> else s) }"

definition Sys_Kill :: "u32 \<Rightarrow> sig_state \<Rightarrow> (int \<times> sig_state) kres" where
  "Sys_Kill fr s = do {
     (t, k) \<leftarrow> Lookup_Thread (sint (load_word (smem s) (fr + OFF_EBX))) False (sk s);
     s \<leftarrow> Send_Signal t (sint (load_word (smem s) (fr + OFF_ECX))) (s\<lparr>sk := k\<rparr>);
     s \<leftarrow> wake_and_deref (pid (thr (sk s) (g_currentThread (sk s)))) t s;
     Some (0, s) }"

definition Sys_Signal :: "u32 \<Rightarrow> sig_state \<Rightarrow> (int \<times> sig_state) kres" where
  "Sys_Signal fr s = do {
     s \<leftarrow> Set_Handler (g_currentThread (sk s)) (sint (load_word (smem s) (fr + OFF_ECX))) (load_word (smem s) (fr + OFF_EBX)) s;
     Some (0, s) }"

fun set_handlers :: "nat \<Rightarrow> u32 \<Rightarrow> u32 \<Rightarrow> sig_state \<Rightarrow> sig_state kres" where
  "set_handlers 0 t handler s = Some s"
| "set_handlers (Suc n) t handler s = do { s \<leftarrow> Set_Handler t (int MAXSIG - int n) handler s; set_handlers n t handler s }"

definition Sys_RegDeliver :: "u32 \<Rightarrow> sig_state \<Rightarrow> (int \<times> sig_state) kres" where
  "Sys_RegDeliver fr s = do {
     let t = g_currentThread (sk s);
     let c = context_of s t;
     KASSERT (c \<noteq> 0);
     let s = s\<lparr>uc_returnSignal := (uc_returnSignal s)(c := load_word (smem s) (fr + OFF_EBX)),
       uc_dflHandler := (uc_dflHandler s)(c := load_word (smem s) (fr + OFF_ECX)),
       uc_ignHandler := (uc_ignHandler s)(c := load_word (smem s) (fr + OFF_EDX))\<rparr>;
     s \<leftarrow> set_handlers MAXSIG t (load_word (smem s) (fr + OFF_ECX)) s;
     Some (0, s) }"

definition Sys_ReturnSignal :: "u32 \<Rightarrow> sig_state \<Rightarrow> (int \<times> sig_state) kres" where
  "Sys_ReturnSignal fr s = Some (- 1, Complete_Handler (g_currentThread (sk s)) fr s)"

text \<open>The dispatch of a system call; \<open>exit_thread\<close> is what \<open>Exit(-1)\<close> does.\<close>

definition Syscall_Handler ::
  "(u32 \<Rightarrow> sig_state \<Rightarrow> (int \<times> sig_state) kres) list \<Rightarrow> (sig_state \<Rightarrow> sig_state kres) \<Rightarrow> u32 \<Rightarrow> sig_state \<Rightarrow> sig_state kres" where
  "Syscall_Handler table exit_thread fr s = do {
     let syscallNum = load_word (smem s) (fr + OFF_EAX);
     if length table \<le> unat syscallNum then exit_thread s
     else do {
       f \<leftarrow> aget table (unat syscallNum);
       (rc, s) \<leftarrow> f fr s;
       Some (s\<lparr>smem := store_word (smem s) (fr + OFF_EAX) (word_of_int rc)\<rparr>) } }"

section \<open>Frames\<close>

lemma area_sub: "i + k \<le> n \<Longrightarrow> area (a + of_nat i) k \<subseteq> area a n"
proof
  fix x assume le: "i + k \<le> n" and "x \<in> area (a + of_nat i) k"
  then obtain j where j: "j < k" "x = a + of_nat i + of_nat j" by (auto simp: area_def)
  then have "x = a + of_nat (i + j)" by simp
  then show "x \<in> area a n" using j(1) le unfolding area_def by (intro image_eqI [of _ _ "i + j"]) auto
qed

lemma area_parts:
  assumes "i + k \<le> j" "j + l \<le> 2 ^ 32"
  shows "area (a + of_nat i) k \<inter> area (a + of_nat j) l = {}"
proof (rule ccontr)
  assume "area (a + of_nat i) k \<inter> area (a + of_nat j) l \<noteq> {}"
  then obtain x y where x: "x < k" "y < l" "a + of_nat i + of_nat x = a + of_nat j + (of_nat y :: u32)"
    by (auto simp: area_def)
  then have e: "(of_nat (i + x) :: u32) = of_nat (j + y)" by (simp add: add.assoc)
  have "i + x < 2 ^ 32" "j + y < 2 ^ 32" using x(1,2) assms by linarith+
  then have "i + x = j + y" using arg_cong [OF e, of unat] unat_of_nat [where 'a = 32] by (simp only: mod_less len_num1 len_bit0) simp
  then show False using x(1,2) assms(1) by linarith
qed

lemma load_word_store_word: "load_word (store_word m a w) a = w"
  using load_store_same [of "le_bytes w" m a] by (simp add: load_word_def store_word_def)

lemma load_word_store_other:
  "area a 4 \<inter> area b (length xs) = {} \<Longrightarrow> load_word (store_bytes m b xs) a = load_word m a"
  unfolding load_word_def by (subst load_store_other) simp_all

lemma load_word_cong: "load_bytes m a 4 = load_bytes m' a 4 \<Longrightarrow> load_word m a = load_word m' a"
  by (simp add: load_word_def)

text \<open>What \<open>Setup_Frame\<close> leaves in memory: the frame with the handler's address and the new
  stack pointer, and on the user stack the return address and a copy of the old frame.\<close>

lemma Setup_Frame_memory:
  fixes fr a sp ss ret h v :: u32 and m :: memory
  defines "m1 \<equiv> store_word m (a + 72) ss"
  defines "m2 \<equiv> store_word m1 (a + 68) sp"
  defines "m3 \<equiv> copy_bytes m2 (a + 4) fr 64"
  defines "m4 \<equiv> store_word m3 a ret"
  defines "m5 \<equiv> store_word m4 (fr + 52) h"
  defines "m6 \<equiv> store_word m5 (fr + 64) v"
  assumes dis: "area fr 72 \<inter> area a 76 = {}" and fr: "sp = load_word m (fr + 64)" "ss = load_word m (fr + 68)"
  shows "load_bytes m6 (a + 4) 72 = load_bytes m fr 72" "load_word m6 a = ret" "load_word m6 (fr + 52) = h"
    "load_word m6 (fr + 64) = v" "load_bytes m6 fr 52 = load_bytes m fr 52"
proof -
  have a0: "area a 4 \<subseteq> area a 76" "area (a + 4) 64 \<subseteq> area a 76" "area (a + 68) 4 \<subseteq> area a 76" "area (a + 72) 4 \<subseteq> area a 76"
    using area_sub [of 0 4 76 a] area_sub [of 4 64 76 a] area_sub [of 68 4 76 a] area_sub [of 72 4 76 a] by simp_all
  have f0: "area fr 52 \<subseteq> area fr 72" "area fr 64 \<subseteq> area fr 72" "area (fr + 52) 4 \<subseteq> area fr 72" "area (fr + 64) 4 \<subseteq> area fr 72"
    "area (fr + 68) 4 \<subseteq> area fr 72"
    using area_sub [of 0 52 72 fr] area_sub [of 0 64 72 fr] area_sub [of 52 4 72 fr] area_sub [of 64 4 72 fr] area_sub [of 68 4 72 fr] by simp_all
  have pa: "area a 4 \<inter> area (a + 4) 64 = {}" "area (a + 4) 64 \<inter> area (a + 68) 4 = {}" "area (a + 4) 64 \<inter> area (a + 72) 4 = {}"
    "area (a + 68) 4 \<inter> area (a + 72) 4 = {}" "area a 4 \<inter> area (a + 68) 4 = {}" "area a 4 \<inter> area (a + 72) 4 = {}"
    using area_parts [of 0 4 4 64 a] area_parts [of 4 64 68 4 a] area_parts [of 4 64 72 4 a] area_parts [of 68 4 72 4 a]
      area_parts [of 0 4 68 4 a] area_parts [of 0 4 72 4 a] by simp_all
  have pf: "area (fr + 52) 4 \<inter> area (fr + 64) 4 = {}" "area fr 52 \<inter> area (fr + 52) 4 = {}" "area fr 52 \<inter> area (fr + 64) 4 = {}"
    using area_parts [of 52 4 64 4 fr] area_parts [of 0 52 52 4 fr] area_parts [of 0 52 64 4 fr] by simp_all
  have SW: "load_bytes (store_word m' b w) c n = load_bytes m' c n" if "area c n \<inter> area b 4 = {}" for m' b w c n
    unfolding store_word_def by (rule load_store_other) (use that in simp)
  have SS: "load_bytes (store_word m' b w) b 4 = le_bytes w" for m' b w
    unfolding store_word_def using load_store_same [of "le_bytes w" m' b] by simp
  have frm: "load_bytes m2 c n = load_bytes m c n" if "area c n \<subseteq> area fr 72" for c n
  proof -
    have d: "area c n \<inter> area (a + 68) 4 = {}" "area c n \<inter> area (a + 72) 4 = {}" using that dis a0 by blast+
    show ?thesis unfolding m2_def m1_def SW [OF d(1)] SW [OF d(2)] ..
  qed
  have m3: "m3 = store_bytes m2 (a + 4) (load_bytes m fr 64)"
    unfolding m3_def using dis a0(2) f0(2) by (subst copy_bytes_disjoint) (auto simp: frm)
  have SC: "load_bytes m3 c n = load_bytes m2 c n" if "area c n \<inter> area (a + 4) 64 = {}" for c n
    unfolding m3 by (rule load_store_other) (use that in simp)
  have top: "load_bytes m6 c n = load_bytes m4 c n" if "area c n \<subseteq> area a 76" for c n
  proof -
    have d: "area c n \<inter> area (fr + 64) 4 = {}" "area c n \<inter> area (fr + 52) 4 = {}" using that dis f0 by blast+
    show ?thesis unfolding m6_def m5_def SW [OF d(1)] SW [OF d(2)] ..
  qed
  have 1: "load_bytes m6 (a + 4) 64 = load_bytes m fr 64"
  proof -
    have d: "area (a + 4) 64 \<inter> area a 4 = {}" using pa(1) by blast
    have "load_bytes m6 (a + 4) 64 = load_bytes m3 (a + 4) 64" unfolding top [OF a0(2)] m4_def SW [OF d] ..
    also have "\<dots> = load_bytes m fr 64" unfolding m3 using load_store_same [of "load_bytes m fr 64" m2 "a + 4"] by simp
    finally show ?thesis .
  qed
  have 2: "load_bytes m6 (a + 68) 4 = le_bytes sp"
  proof -
    have d: "area (a + 68) 4 \<inter> area a 4 = {}" "area (a + 68) 4 \<inter> area (a + 4) 64 = {}" using pa by blast+
    have "load_bytes m6 (a + 68) 4 = load_bytes m2 (a + 68) 4" unfolding top [OF a0(3)] m4_def SW [OF d(1)] SC [OF d(2)] ..
    then show ?thesis by (simp add: m2_def SS)
  qed
  have 3: "load_bytes m6 (a + 72) 4 = le_bytes ss"
  proof -
    have d: "area (a + 72) 4 \<inter> area a 4 = {}" "area (a + 72) 4 \<inter> area (a + 4) 64 = {}"
      "area (a + 72) 4 \<inter> area (a + 68) 4 = {}" using pa by blast+
    have "load_bytes m6 (a + 72) 4 = load_bytes m2 (a + 72) 4" unfolding top [OF a0(4)] m4_def SW [OF d(1)] SC [OF d(2)] ..
    also have "\<dots> = load_bytes m1 (a + 72) 4" unfolding m2_def SW [OF d(3)] ..
    finally show ?thesis by (simp add: m1_def SS)
  qed
  have cut: "load_bytes m' c 72 = load_bytes m' c 64 @ load_bytes m' (c + 64) 4 @ load_bytes m' (c + 68) 4" for m' c
    using load_bytes_append [of m' c 64 8] load_bytes_append [of m' "c + 64" 4 4] by (simp add: add.assoc)
  have "load_bytes m fr 72 = load_bytes m fr 64 @ le_bytes sp @ le_bytes ss"
    unfolding cut fr load_word_def by (simp add: le_bytes_le_word)
  then show "load_bytes m6 (a + 4) 72 = load_bytes m fr 72"
    using 1 2 3 unfolding cut [of m6] by (simp add: add.assoc)
  show "load_word m6 a = ret" unfolding load_word_def top [OF a0(1)] by (simp add: m4_def SS)
  show "load_word m6 (fr + 64) = v" unfolding load_word_def m6_def SS by simp
  have "load_bytes m6 (fr + 52) 4 = le_bytes h" unfolding m6_def SW [OF pf(1)] m5_def SS ..
  then show "load_word m6 (fr + 52) = h" by (simp add: load_word_def)
  have "load_bytes m6 fr 52 = load_bytes m4 fr 52" unfolding m6_def m5_def SW [OF pf(3)] SW [OF pf(2)] ..
  also have "\<dots> = load_bytes m2 fr 52"
  proof -
    have d: "area fr 52 \<inter> area a 4 = {}" "area fr 52 \<inter> area (a + 4) 64 = {}" using dis a0 f0(1) by blast+
    show ?thesis unfolding m4_def SW [OF d(1)] SC [OF d(2)] ..
  qed
  finally show "load_bytes m6 fr 52 = load_bytes m fr 52" using frm [OF f0(1)] by simp
qed

section \<open>Waking up the target\<close>

lemma Wake_Up_Process_ok:
  assumes ok: "sched_ok k" and IF: "\<not> int_flag k" and q: "is_wait_queue q" "waitQueue (thr k t) = Some q" "t \<in> set (queues k q)"
  shows "\<exists>k'. Wake_Up_Process t k = Some k' \<and> wake_frame {t} k k' \<and> queues k' q = remove1 t (queues k q) \<and>
    t \<in> set (queues k' (RunQ (nat (run_level k t)))) \<and> \<not> blocked (thr k' t)"
proof -
  note D = sched_okD [OF ok]
  let ?r = "set_queue q (remove1 t (queues k q)) k"
  have okr: "sched_ok ?r" using sched_ok_shrink [OF ok set_remove1_subset] D(1) by simp
  have off: "off_queues ?r t" using D(1) [of q] D(3) [OF q(3)] by (auto simp: off_queues_def)
  have tt: "t \<in> set (allThreads ?r)" using D(2) [OF q(3)] by simp
  note mr = Make_Runnable_ok [OF okr off tt]
  have "q \<noteq> RunQ i" for i using q(1) by auto
  then have "queues (made_runnable t ?r) q = remove1 t (queues k q)" "wake_frame {t} k (made_runnable t ?r)"
    using made_runnable_wake_frame [OF mr(2)] IF
    by (auto simp: made_runnable_queues wake_frame_def off_queues_def made_runnable_mem)
  then show ?thesis
    using IF mr q by (intro exI [of _ "made_runnable t ?r"]) (simp add: Wake_Up_Process_def made_runnable_mem)
qed

text \<open>A thread that can get a signal: if it is blocked it is on the queue it remembers.\<close>

definition can_signal :: "u32 \<Rightarrow> sig_state \<Rightarrow> bool" where
  "can_signal t s \<longleftrightarrow> sched_ok (sk s) \<and> t \<noteq> 0 \<and> context_of s t \<noteq> 0 \<and> t \<in> set (allThreads (sk s)) \<and>
     (blocked (thr (sk s) t) \<longrightarrow> (\<exists>q. is_wait_queue q \<and> waitQueue (thr (sk s) t) = Some q \<and> t \<in> set (queues (sk s) q)))"

definition signalled :: "u32 \<Rightarrow> int \<Rightarrow> int \<Rightarrow> sig_state \<Rightarrow> sig_state \<Rightarrow> bool" where
  "signalled t sig refs s s' \<longleftrightarrow> uc_signal s' = (uc_signal s)(context_of s t := sig) \<and> smem s' = smem s \<and>
     \<not> blocked (thr (sk s') t) \<and> refCount (thr (sk s') t) = refs \<and>
     (blocked (thr (sk s) t) \<longrightarrow> (\<exists>i. t \<in> set (queues (sk s') (RunQ i)))) \<and> sched_ok (sk s') \<and>
     (\<forall>u. u \<noteq> t \<longrightarrow> thr (sk s') u = thr (sk s) u)"

lemma sched_ok_refCount: "sched_ok (upd_thr t (\<lambda>k. k\<lparr>refCount := f k\<rparr>) k) = sched_ok k"
proof -
  have c: "currentReadyQueue (thr (upd_thr t (\<lambda>k. k\<lparr>refCount := f k\<rparr>) k) u) = currentReadyQueue (thr k u)" for u by simp
  show ?thesis unfolding sched_ok_def c by simp
qed

lemma wake_and_deref_ok:
  assumes c: "can_signal t s" and IF: "\<not> int_flag (sk s)" and me: "word_of_int me \<noteq> owner (thr (sk s) t)"
  shows "\<exists>s'. wake_and_deref me t s = Some s' \<and> uc_signal s' = uc_signal s \<and> smem s' = smem s \<and>
    \<not> blocked (thr (sk s') t) \<and> refCount (thr (sk s') t) = refCount (thr (sk s) t) - 1 \<and>
    (blocked (thr (sk s) t) \<longrightarrow> (\<exists>i. t \<in> set (queues (sk s') (RunQ i)))) \<and> sched_ok (sk s') \<and>
    (\<forall>u. u \<noteq> t \<longrightarrow> thr (sk s') u = thr (sk s) u) \<and> int_flag (sk s') = int_flag (sk s)"
proof -
  have ok: "sched_ok (sk s)" using c by (simp add: can_signal_def)
  show ?thesis
  proof (cases "blocked (thr (sk s) t)")
    case False
    let ?s = "s\<lparr>sk := upd_thr t (\<lambda>k. k\<lparr>refCount := refCount k - 1\<rparr>) (sk s)\<rparr>"
    have "wake_and_deref me t s = Some ?s" using False me by (simp add: wake_and_deref_def)
    then show ?thesis using False ok by (intro exI [of _ ?s]) (simp add: sched_ok_refCount)
  next
    case True
    then obtain q where q: "is_wait_queue q" "waitQueue (thr (sk s) t) = Some q" "t \<in> set (queues (sk s) q)"
      using c by (auto simp: can_signal_def)
    obtain k where k: "Wake_Up_Process t (sk s) = Some k" "wake_frame {t} (sk s) k"
      "t \<in> set (queues k (RunQ (nat (run_level (sk s) t))))" "\<not> blocked (thr k t)"
      using Wake_Up_Process_ok [OF ok IF q] by blast
    note F = wake_frameD [OF k(2)]
    let ?s = "s\<lparr>sk := upd_thr t (\<lambda>x. x\<lparr>refCount := refCount x - 1\<rparr>) k\<rparr>"
    have "wake_and_deref me t s = Some ?s"
      using True me k(1) F(13) [of t] by (simp add: wake_and_deref_def onsk_def)
    then show ?thesis
      using True k(3,4) F(1,2) F(9,12) by (intro exI [of _ ?s]) (auto simp: sched_ok_refCount)
  qed
qed

lemma Send_Signal_can: "can_signal t s \<Longrightarrow> Send_Signal t sig s = Some (s\<lparr>uc_signal := (uc_signal s)(context_of s t := sig)\<rparr>)"
  by (simp add: Send_Signal_def can_signal_def)

lemma can_signal_upd [simp]: "can_signal t (s\<lparr>uc_signal := x\<rparr>) = can_signal t s"
  by (simp add: can_signal_def)

lemma signal_target_ok:
  assumes c: "can_signal t s" and IF: "\<not> int_flag (sk s)" and me: "word_of_int me \<noteq> owner (thr (sk s) t)"
  shows "\<exists>s1 s'. Send_Signal t sig s = Some s1 \<and> sk s1 = sk s \<and> wake_and_deref me t s1 = Some s' \<and>
    signalled t sig (refCount (thr (sk s) t) - 1) s s' \<and> int_flag (sk s') = int_flag (sk s)"
proof -
  let ?s1 = "s\<lparr>uc_signal := (uc_signal s)(context_of s t := sig)\<rparr>"
  have "can_signal t ?s1" "\<not> int_flag (sk ?s1)" "word_of_int me \<noteq> owner (thr (sk ?s1) t)" using c IF me by simp_all
  from wake_and_deref_ok [OF this] Send_Signal_can [OF c, of sig] show ?thesis
    unfolding signalled_def by auto
qed

text \<open>Looking the target up: the reference is counted unless the owner asks.\<close>

lemma Lookup_Thread_ok:
  assumes "\<not> int_flag k" "List.find (\<lambda>t. pid (thr k t) = p) (allThreads k) = Some t"
  shows "Lookup_Thread p False k = Some (t,
    if g_currentThread k \<noteq> owner (thr k t) then upd_thr t (\<lambda>x. x\<lparr>refCount := refCount x + 1\<rparr>) k else k)"
proof -
  have "k\<lparr>int_flag := False\<rparr> = k" using assms(1) by (cases k) simp
  moreover have "(upd_thr t f k)\<lparr>int_flag := False\<rparr> = upd_thr t f k" for f using assms(1) by (cases k) (simp add: upd_thr_def)
  ultimately show ?thesis using assms by (simp add: Lookup_Thread_def)
qed

lemma Lookup_can_signal:
  assumes "can_signal t s"
  shows "can_signal t (s\<lparr>sk := if b then upd_thr t (\<lambda>x. x\<lparr>refCount := refCount x + 1\<rparr>) (sk s) else sk s\<rparr>)"
  using assms by (simp add: can_signal_def sched_ok_refCount)

section \<open>Properties\<close>

text \<open>A frame of an interrupt from user mode, whose stack has room for the signal.\<close>

definition frame_ok :: "u32 \<Rightarrow> u32 \<Rightarrow> sig_state \<Rightarrow> bool" where
  "frame_ok t fr s \<longleftrightarrow> \<not> int_flag (sk s) \<and> context_of s t \<noteq> 0 \<and> waitQueue (thr (sk s) t) = None \<and>
     area fr 72 \<inter> area (Get_User_Address (load_word (smem s) (fr + OFF_ESP_USER)) - 76) 76 = {} \<and>
     0 < uc_signal s (context_of s t) \<and> nat (uc_signal s (context_of s t)) < length (uc_saHandler s (context_of s t))"

lemma Setup_Frame_ok:
  assumes "frame_ok t fr s"
  shows "\<exists>s1. Setup_Frame t fr s = Some s1 \<and>
    load_bytes (smem s1) (Get_User_Address (load_word (smem s) (fr + 64)) - 72) 72 = load_bytes (smem s) fr 72 \<and>
    load_word (smem s1) (Get_User_Address (load_word (smem s) (fr + 64)) - 76) = uc_returnSignal s (context_of s t) \<and>
    load_word (smem s1) (fr + 52) = uc_saHandler s (context_of s t) ! nat (uc_signal s (context_of s t)) \<and>
    load_word (smem s1) (fr + 64) = load_word (smem s) (fr + 64) - 76 \<and>
    load_bytes (smem s1) fr 52 = load_bytes (smem s) fr 52 \<and>
    uc_signal s1 = (uc_signal s)(context_of s t := 0) \<and> sk s1 = upd_thr t (\<lambda>k. k\<lparr>waitQueue := None\<rparr>) (sk s)"
proof -
  let ?sp = "load_word (smem s) (fr + 64)" and ?c = "context_of s t"
  let ?a = "Get_User_Address ?sp - 76"
  let ?ss = "load_word (smem s) (fr + 68)"
  have F: "\<not> int_flag (sk s)" "?c \<noteq> 0" "waitQueue (thr (sk s) t) = None" "area fr 72 \<inter> area ?a 76 = {}"
    "0 \<le> uc_signal s ?c" "nat (uc_signal s ?c) < length (uc_saHandler s ?c)"
    using assms by (simp_all add: frame_ok_def)
  have p: "Get_User_Address ?sp - 4 = ?a + 72" "Get_User_Address ?sp - 4 - 4 = ?a + 68" "?a + 72 - 4 = ?a + 68"
    "?a + 68 - 64 = ?a + 4" "?a + 4 - 4 = ?a" by simp_all
  have k: "Get_Kernel_Address ?a = ?sp - 76" by (simp add: Get_Kernel_Address_def Get_User_Address_def)
  note M = Setup_Frame_memory [OF F(4) refl refl, where ret = "uc_returnSignal s ?c" and
      h = "uc_saHandler s ?c ! nat (uc_signal s ?c)" and v = "?sp - 76"]
  have sp': "load_word (store_word (smem s) (?a + 72) ?ss) (fr + 64) = ?sp"
  proof -
    have "area (fr + 64) 4 \<subseteq> area fr 72" "area (?a + 72) 4 \<subseteq> area ?a 76"
      using area_sub [of 64 4 72 fr] area_sub [of 72 4 76 ?a] by simp_all
    then have "area (fr + 64) 4 \<inter> area (?a + 72) (length (le_bytes ?ss)) = {}" using F(4) by auto
    then show ?thesis unfolding store_word_def by (rule load_word_store_other)
  qed
  have run: "Setup_Frame t fr s = Some (s\<lparr>smem := store_word (store_word (store_word
      (copy_bytes (store_word (store_word (smem s) (?a + 72) ?ss) (?a + 68) ?sp) (?a + 4) fr 64) ?a (uc_returnSignal s ?c))
      (fr + 52) (uc_saHandler s ?c ! nat (uc_signal s ?c))) (fr + 64) (?sp - 76),
      uc_signal := (uc_signal s)(?c := 0), sk := upd_thr t (\<lambda>k. k\<lparr>waitQueue := None\<rparr>) (sk s)\<rparr>)"
    using F(1-3,5,6) by (simp only: Setup_Frame_def Let_def p sp' k KASSERT_bind if_True aget_def bind.bind_lunit
        Interrupts_Enabled_eq not_False_eq_True simp_thms if_False)
  have q: "Get_User_Address ?sp - 72 = ?a + 4" by simp
  show ?thesis
    unfolding q by (rule exI, rule conjI [OF run]) (use M in \<open>simp\<close>)
qed

text \<open>C19: Handling a signal is transparent to the interrupted program except for \<open>eax\<close>: delivery
  leads into the registered handler, with the registered return routine as its return address
  and the stack pointer moved below the saved frame; when the handler has returned through it
  and the system call that completes the signal is made from any frame, every saved register,
  the user's stack pointer and stack segment are as they were when the signal was delivered, but
  \<open>eax\<close> holds -1, because the dispatcher stores the result of the call over it.\<close>

theorem signal_roundtrip:
  assumes "frame_ok t fr s"
    "table ! unat n = Sys_ReturnSignal" "unat n < length table"
    "sp = load_word (smem s) (fr + OFF_ESP_USER)"
  shows "\<exists>s1. Setup_Frame t fr s = Some s1 \<and>
    load_word (smem s1) (fr + OFF_EIP) = uc_saHandler s (context_of s t) ! nat (uc_signal s (context_of s t)) \<and>
    load_word (smem s1) (fr + OFF_ESP_USER) = sp - 76 \<and>
    load_word (smem s1) (Get_User_Address (sp - 76)) = uc_returnSignal s (context_of s t) \<and>
    uc_signal s1 (context_of s t) = 0 \<and>
    (\<forall>s2 fr2 exit_thread. load_bytes (smem s2) (Get_User_Address (sp - 72)) 72 = load_bytes (smem s1) (Get_User_Address (sp - 72)) 72 \<and>
       load_word (smem s2) (fr2 + OFF_ESP_USER) = sp - 72 \<and> load_word (smem s2) (fr2 + OFF_EAX) = n \<and>
       area fr2 72 \<inter> area (Get_User_Address (sp - 72)) 72 = {} \<longrightarrow>
       (\<exists>s3. Syscall_Handler table exit_thread fr2 s2 = Some s3 \<and>
          load_bytes (smem s3) fr2 40 = load_bytes (smem s) fr 40 \<and>
          load_word (smem s3) (fr2 + OFF_EAX) = - 1 \<and>
          load_bytes (smem s3) (fr2 + 44) 28 = load_bytes (smem s) (fr + 44) 28))"
proof -
  obtain s1 where s1: "Setup_Frame t fr s = Some s1"
    "load_bytes (smem s1) (Get_User_Address sp - 72) 72 = load_bytes (smem s) fr 72"
    "load_word (smem s1) (Get_User_Address sp - 76) = uc_returnSignal s (context_of s t)"
    "load_word (smem s1) (fr + 52) = uc_saHandler s (context_of s t) ! nat (uc_signal s (context_of s t))"
    "load_word (smem s1) (fr + 64) = sp - 76" "uc_signal s1 = (uc_signal s)(context_of s t := 0)"
    using Setup_Frame_ok [OF assms(1)] unfolding assms(4) by blast
  have u: "Get_User_Address (sp - k) = Get_User_Address sp - k" for k by (simp add: Get_User_Address_def)
  have "\<exists>s3. Syscall_Handler table ex fr2 s2 = Some s3 \<and> load_bytes (smem s3) fr2 40 = load_bytes (smem s) fr 40 \<and>
      load_word (smem s3) (fr2 + 40) = - 1 \<and> load_bytes (smem s3) (fr2 + 44) 28 = load_bytes (smem s) (fr + 44) 28"
    if h: "load_bytes (smem s2) (Get_User_Address sp - 72) 72 = load_bytes (smem s1) (Get_User_Address sp - 72) 72"
      "load_word (smem s2) (fr2 + 64) = sp - 72" "load_word (smem s2) (fr2 + 40) = n"
      "area fr2 72 \<inter> area (Get_User_Address sp - 72) 72 = {}" for s2 fr2 ex
  proof -
    let ?m = "copy_bytes (smem s2) fr2 (Get_User_Address sp - 72) 72"
    have m: "?m = store_bytes (smem s2) fr2 (load_bytes (smem s) fr 72)"
      using copy_bytes_disjoint [OF h(4)] h(1) s1(2) by simp
    have l: "load_bytes ?m fr2 72 = load_bytes (smem s) fr 72"
      unfolding m using load_store_same [of "load_bytes (smem s) fr 72" "smem s2" fr2] by simp
    have cut: "load_bytes x c 72 = load_bytes x c 40 @ load_bytes x (c + 40) 4 @ load_bytes x (c + 44) 28" for x c
      using load_bytes_append [of x c 40 32] load_bytes_append [of x "c + 40" 4 28] by (simp add: add.assoc)
    have l': "load_bytes ?m fr2 40 = load_bytes (smem s) fr 40" "load_bytes ?m (fr2 + 44) 28 = load_bytes (smem s) (fr + 44) 28"
      using l unfolding cut by simp_all
    have d: "area fr2 40 \<inter> area (fr2 + 40) (length (le_bytes (- 1))) = {}"
      "area (fr2 + 44) 28 \<inter> area (fr2 + 40) (length (le_bytes (- 1))) = {}"
      using area_parts [of 0 40 40 4 fr2] area_parts [of 40 4 44 28 fr2] by (simp_all add: Int_commute)
    let ?s3 = "s2\<lparr>smem := store_word ?m (fr2 + 40) (- 1)\<rparr>"
    have "Syscall_Handler table ex fr2 s2 = Some ?s3"
      using assms(2,3) h(2,3) by (simp add: Syscall_Handler_def Sys_ReturnSignal_def Complete_Handler_def u Let_def)
    moreover have "load_bytes (smem ?s3) fr2 40 = load_bytes (smem s) fr 40"
      "load_bytes (smem ?s3) (fr2 + 44) 28 = load_bytes (smem s) (fr + 44) 28"
      using load_store_other [OF d(1), of ?m] load_store_other [OF d(2), of ?m] l' by (simp_all add: store_word_def)
    moreover have "load_word (smem ?s3) (fr2 + 40) = - 1" by (simp add: load_word_store_word)
    ultimately show ?thesis by blast
  qed
  with s1(1,3-6) show ?thesis by (intro exI [of _ s1]) (simp add: u)
qed

definition sample_sig :: sig_state where
  "sample_sig = \<lparr>sk = sample_threads, smem = (\<lambda>_. 0), uc_signal = (\<lambda>_. 2), uc_saHandler = (\<lambda>_. [0, 1, 0x1234, 1, 1, 1]),
     uc_dflHandler = (\<lambda>_. 0), uc_ignHandler = (\<lambda>_. 0), uc_returnSignal = (\<lambda>_. 0x777)\<rparr>"

lemma area_bound: "x \<in> area a n \<Longrightarrow> unat a + n < 2 ^ 32 \<Longrightarrow> unat a \<le> unat x \<and> unat x < unat a + n"
proof -
  assume "x \<in> area a n" and b: "unat a + n < 2 ^ 32"
  then obtain i where i: "i < n" "x = a + of_nat i" by (auto simp: area_def)
  have "unat (of_nat i :: u32) = i" using unat_of_nat [of i, where 'a = 32] i(1) b by simp
  then have "unat x = unat a + i" using i b by (simp add: unat_word_ariths)
  then show ?thesis using i(1) by simp
qed

lemma sample_frame: "frame_ok 1 0x1000 sample_sig"
proof -
  have w: "load_word (smem sample_sig) (0x1000 + 64) = 0" by (simp add: load_word_def sample_sig_def numeral_eq_Suc)
  have "area 0x1000 72 \<inter> area (0x7FFFFFB4 :: u32) 76 = {}"
  proof (rule ccontr)
    assume "area 0x1000 72 \<inter> area (0x7FFFFFB4 :: u32) 76 \<noteq> {}"
    then obtain x where "x \<in> area (0x1000 :: u32) 72" "x \<in> area (0x7FFFFFB4 :: u32) 76" by blast
    from area_bound [OF this(1)] area_bound [OF this(2)] show False by simp
  qed
  then show ?thesis
    unfolding frame_ok_def w Get_User_Address_def by (simp add: sample_sig_def sample_threads_def zero_thread_def)
qed

lemma signal_roundtrip_witness:
  "\<exists>s1. Setup_Frame 1 0x1000 sample_sig = Some s1 \<and> load_word (smem s1) (0x1000 + 52) = 0x1234"
proof -
  have w: "load_word (smem sample_sig) (0x1000 + 64) = 0" by (simp add: load_word_def sample_sig_def numeral_eq_Suc)
  from signal_roundtrip [OF sample_frame, of "[Sys_ReturnSignal]" 0 0] w show ?thesis
    by (auto simp: sample_sig_def sample_threads_def)
qed

text \<open>\<open>Kill\<close> marks the signal as pending for the process with the given number and, if its
  thread is blocked, takes it off its queue and makes it runnable; nothing is changed of any
  other thread.  It gives back the reference that looking the thread up has taken, but it does so
  also when the caller owns the thread, where none was taken: then the count goes down by one.\<close>

theorem Kill_delivers:
  assumes "can_signal t s" "\<not> int_flag (sk s)"
    "List.find (\<lambda>t. pid (thr (sk s) t) = sint (load_word (smem s) (fr + OFF_EBX))) (allThreads (sk s)) = Some t"
    "word_of_int (pid (thr (sk s) (g_currentThread (sk s)))) \<noteq> owner (thr (sk s) t)"
  shows "\<exists>s'. Sys_Kill fr s = Some (0, s') \<and>
    signalled t (sint (load_word (smem s) (fr + OFF_ECX)))
      (if g_currentThread (sk s) = owner (thr (sk s) t) then refCount (thr (sk s) t) - 1 else refCount (thr (sk s) t)) s s'"
proof -
  let ?b = "g_currentThread (sk s) \<noteq> owner (thr (sk s) t)"
  define k where "k = (if ?b then upd_thr t (\<lambda>x. x\<lparr>refCount := refCount x + 1\<rparr>) (sk s) else sk s)"
  have lk: "Lookup_Thread (sint (load_word (smem s) (fr + OFF_EBX))) False (sk s) = Some (t, k)"
    using Lookup_Thread_ok [OF assms(2,3)] by (simp add: k_def)
  have k: "int_flag k = int_flag (sk s)" "g_currentThread k = g_currentThread (sk s)" "owner (thr k t) = owner (thr (sk s) t)"
    "pid (thr k u) = pid (thr (sk s) u)" "userContext (thr k t) = userContext (thr (sk s) t)" "blocked (thr k t) = blocked (thr (sk s) t)"
    "u \<noteq> t \<Longrightarrow> thr k u = thr (sk s) u"
    "refCount (thr k t) = (if ?b then refCount (thr (sk s) t) + 1 else refCount (thr (sk s) t))" for u
    by (simp_all add: k_def)
  have c: "can_signal t (s\<lparr>sk := k\<rparr>)" unfolding k_def by (rule Lookup_can_signal [OF assms(1)])
  obtain s1 s' where s': "Send_Signal t (sint (load_word (smem s) (fr + OFF_ECX))) (s\<lparr>sk := k\<rparr>) = Some s1" "sk s1 = k"
    "wake_and_deref (pid (thr (sk s) (g_currentThread (sk s)))) t s1 = Some s'"
    "signalled t (sint (load_word (smem s) (fr + OFF_ECX))) (refCount (thr k t) - 1) (s\<lparr>sk := k\<rparr>) s'"
  proof -
    have "\<not> int_flag (sk (s\<lparr>sk := k\<rparr>))" "word_of_int (pid (thr (sk s) (g_currentThread (sk s)))) \<noteq> owner (thr (sk (s\<lparr>sk := k\<rparr>)) t)"
      using assms(2,4) k(1,3) by simp_all
    from signal_target_ok [OF c this, of "sint (load_word (smem s) (fr + OFF_ECX))"] that show thesis by auto
  qed
  have "Sys_Kill fr s = Some (0, s')" using lk s'(1-3) k(2,4) by (simp add: Sys_Kill_def)
  moreover have "signalled t (sint (load_word (smem s) (fr + OFF_ECX)))
      (if g_currentThread (sk s) = owner (thr (sk s) t) then refCount (thr (sk s) t) - 1 else refCount (thr (sk s) t)) s s'"
    using s'(4) k(5-8) by (auto simp: signalled_def)
  ultimately show ?thesis by blast
qed

text \<open>The first sample thread signals itself.\<close>

definition sample_kill :: sig_state where
  "sample_kill = sample_sig\<lparr>sk := sample_threads\<lparr>thr := (thr sample_threads)(1 := (thr sample_threads 1)\<lparr>owner := 7\<rparr>)\<rparr>\<rparr>"

lemma Kill_delivers_witness:
  "\<exists>s'. Sys_Kill 0x1000 sample_kill = Some (0, s') \<and> uc_signal s' 9 = 0"
proof -
  have w: "load_word (smem sample_kill) a = 0" for a by (simp add: load_word_def sample_kill_def sample_sig_def numeral_eq_Suc)
  have "sched_ok (sk sample_kill)"
    by (simp add: sched_ok_def sample_kill_def sample_threads_def sample_boot_def zero_thread_def)
  then have c: "can_signal 1 sample_kill"
    by (simp add: can_signal_def) (simp add: sample_kill_def sample_threads_def zero_thread_def)
  have f: "List.find (\<lambda>t. pid (thr (sk sample_kill) t) = sint (load_word (smem sample_kill) (0x1000 + 36))) (allThreads (sk sample_kill)) = Some 1"
    unfolding w by (simp add: sample_kill_def sample_threads_def zero_thread_def)
  have o: "word_of_int (pid (thr (sk sample_kill) (g_currentThread (sk sample_kill)))) \<noteq> owner (thr (sk sample_kill) 1)"
    "\<not> int_flag (sk sample_kill)" "context_of sample_kill 1 = 9"
    by (simp_all add: sample_kill_def sample_threads_def zero_thread_def)
  from Kill_delivers [OF c o(2) f o(1)] show ?thesis unfolding w signalled_def o(3) by auto
qed

end
