(* ===== verification/Timer.thy ===== *)
theory Timer
  imports Signal
begin

text \<open>
  The timer, \<open>geekos/timer.c\<close>: the interrupt handler that counts ticks, rings the alarm and
  ends quanta, and the alarm's operations with their system calls.  The table of events has one
  entry, as \<open>MAX_TIMER_EVENTS\<close> says.  The calibrated delay loop is not modelled.
\<close>

section \<open>State\<close>

record timerEvent =
  te_ticks :: int
  te_id :: int
  te_callBack :: u32
  te_origTicks :: int
  te_pid :: int

record timer =
  ts :: sig_state
  g_numTicks :: u32
  timeEventCount :: nat
  nextEventID :: int
  pendingTimerEvents :: "timerEvent list"
  g_Quantum :: int

abbreviation (input) kst :: "timer \<Rightarrow> kstate" where
  "kst s \<equiv> sk (ts s)"

abbreviation (input) tcur :: "timer \<Rightarrow> u32" where
  "tcur s \<equiv> g_currentThread (sk (ts s))"

definition upd_kst :: "(kstate \<Rightarrow> kstate) \<Rightarrow> timer \<Rightarrow> timer" where
  "upd_kst f s = s\<lparr>ts := (ts s)\<lparr>sk := f (sk (ts s))\<rparr>\<rparr>"

definition upd_event :: "nat \<Rightarrow> (timerEvent \<Rightarrow> timerEvent) \<Rightarrow> timer \<Rightarrow> timer" where
  "upd_event i f s = s\<lparr>pendingTimerEvents := (pendingTimerEvents s)[i := f (pendingTimerEvents s ! i)]\<rparr>"

section \<open>The interrupt handler\<close>

text \<open>An event that has no ticks left.\<close>

definition expire_event :: "timerEvent \<Rightarrow> timer \<Rightarrow> timer kres" where
  "expire_event e s = do {
     (t, k) \<leftarrow> Lookup_Thread (te_pid e) False (kst s);
     sg \<leftarrow> Send_Signal t SIGALRM ((ts s)\<lparr>sk := k\<rparr>);
     sg \<leftarrow> wake_and_deref (pid (thr (sk sg) (tcur s))) t sg;
     Some (s\<lparr>ts := sg\<rparr>) }"

definition timer_event :: "nat \<Rightarrow> timer \<Rightarrow> timer kres" where
  "timer_event i s = do {
     e \<leftarrow> aget (pendingTimerEvents s) i;
     if te_id e < 0 then Some s
     else if te_ticks e \<le> 0 then do {
       s \<leftarrow> expire_event e s;
       let s = upd_event i (\<lambda>e. e\<lparr>te_id := - 1\<rparr>) s;
       Some (upd_kst (\<lambda>k. k\<lparr>g_needReschedule := True\<rparr>) s) }
     else Some (upd_event i (\<lambda>e. e\<lparr>te_ticks := te_ticks e - 1\<rparr>) s) }"

fun timer_events :: "nat \<Rightarrow> nat \<Rightarrow> timer \<Rightarrow> timer kres" where
  "timer_events i 0 s = Some s"
| "timer_events i (Suc n) s = do { s \<leftarrow> timer_event i s; timer_events (Suc i) n s }"

text \<open>The quantum: a thread that has used it up goes down one level.\<close>

definition end_quantum :: "timer \<Rightarrow> timer" where
  "end_quantum s =
     (if word_of_int (g_Quantum s) \<le> numTicks (thr (kst s) (tcur s)) then
        let s = upd_kst (\<lambda>k. k\<lparr>g_needReschedule := True\<rparr>) s in
        if currentReadyQueue (thr (kst s) (tcur s)) < MAX_QUEUE_LEVEL (kst s) - 1
        then upd_kst (upd_thr (tcur s) (\<lambda>x. x\<lparr>currentReadyQueue := currentReadyQueue x + 1\<rparr>)) s else s
      else s)"

definition Timer_Interrupt_Handler :: "timer \<Rightarrow> timer kres" where
  "Timer_Interrupt_Handler s = do {
     let s = s\<lparr>g_numTicks := g_numTicks s + 1\<rparr>;
     let s = upd_kst (upd_thr (tcur s) (\<lambda>x. x\<lparr>numTicks := numTicks x + 1\<rparr>)) s;
     s \<leftarrow> timer_events 0 (timeEventCount s) s;
     Some (end_quantum s) }"

section \<open>Alarms\<close>

definition Start_Timer :: "int \<Rightarrow> u32 \<Rightarrow> timer \<Rightarrow> (int \<times> timer) kres" where
  "Start_Timer ticks cb s = do {
     KASSERT (\<not> Interrupts_Enabled (kst s));
     let ret = nextEventID s;
     evs \<leftarrow> aset (pendingTimerEvents s) 0
       \<lparr>te_ticks = ticks, te_id = ret, te_callBack = cb, te_origTicks = ticks, te_pid = pid (thr (kst s) (tcur s))\<rparr>;
     Some (ret, s\<lparr>nextEventID := nextEventID s + 1, pendingTimerEvents := evs, timeEventCount := 1\<rparr>) }"

definition Get_Remaing_Timer_Ticks :: "int \<Rightarrow> timer \<Rightarrow> int kres" where
  "Get_Remaing_Timer_Ticks i s = do {
     KASSERT (\<not> Interrupts_Enabled (kst s));
     case List.find (\<lambda>e. te_id e = i) (take (timeEventCount s) (pendingTimerEvents s)) of
       Some e \<Rightarrow> Some (te_ticks e)
     | None \<Rightarrow> Some (- 1) }"

fun find_event :: "int \<Rightarrow> timerEvent list \<Rightarrow> nat \<Rightarrow> nat option" where
  "find_event i [] k = None"
| "find_event i (e # es) k = (if te_id e = i then Some k else find_event i es (Suc k))"

definition Cancel_Timer :: "int \<Rightarrow> timer \<Rightarrow> (int \<times> timer) kres" where
  "Cancel_Timer i s = do {
     KASSERT (\<not> Interrupts_Enabled (kst s));
     case find_event i (take (timeEventCount s) (pendingTimerEvents s)) 0 of
       Some k \<Rightarrow> do {
         lst \<leftarrow> aget (pendingTimerEvents s) (timeEventCount s - 1);
         evs \<leftarrow> aset (pendingTimerEvents s) k lst;
         Some (0, s\<lparr>pendingTimerEvents := evs, timeEventCount := timeEventCount s - 1\<rparr>) }
     | None \<Rightarrow> Some (- 1, s) }"

definition Sys_Alarm :: "u32 \<Rightarrow> timer \<Rightarrow> (int \<times> timer) kres" where
  "Sys_Alarm fr s = do {
     sg \<leftarrow> Set_Handler (tcur s) SIGALRM (load_word (smem (ts s)) (fr + OFF_ECX)) (ts s);
     (ret, s) \<leftarrow> Start_Timer (sint (load_word (smem sg) (fr + OFF_EBX))) 0 (s\<lparr>ts := sg\<rparr>);
     Some (0, s) }"

section \<open>A tick\<close>

definition timer_ok :: "timer \<Rightarrow> bool" where
  "timer_ok s \<longleftrightarrow> kinv (kst s) \<and> \<not> int_flag (kst s) \<and> length (pendingTimerEvents s) = 1 \<and> timeEventCount s \<le> 1"

lemma kinv_resched [simp]: "kinv (k\<lparr>g_needReschedule := b\<rparr>) = kinv k"
  by (simp add: kinv_def sched_ok_def off_queues_def idle_ok_def)

text \<open>Changing the running thread, which is on no queue.\<close>

lemma kinv_upd_current:
  assumes "kinv k" "\<And>x. priority (f x) = priority x" "0 \<le> currentReadyQueue (f (thr k (g_currentThread k)))"
  shows "kinv (upd_thr (g_currentThread k) f k)"
proof -
  let ?c = "g_currentThread k" and ?k = "upd_thr (g_currentThread k) f k"
  note K = kinv_current [OF assms(1)] and D = sched_okD [OF kinv_current(1) [OF assms(1)]]
  have p: "priority (thr ?k t) = priority (thr k t)" for t using assms(2) by simp
  have "sched_ok ?k"
  proof (rule sched_ok_intro)
    show "int i < MAX_QUEUE_LEVEL ?k \<and> currentReadyQueue (thr ?k t) = int i" if "t \<in> set (queues ?k (RunQ i))" for i t
      using that D(8,9) K(3) by (cases "t = ?c") (auto simp: off_queues_def)
    show "0 \<le> currentReadyQueue (thr ?k t)" if "t \<in> set (allThreads ?k)" for t
      using that D(7) assms(3) by (cases "t = ?c") simp_all
    show "q = q'" if "t \<in> set (queues ?k q)" "t \<in> set (queues ?k q')" for t q q'
      using that D(3) by simp
  qed (use D in simp_all)
  moreover have "idle_ok ?k" using K(4) unfolding idle_ok_def p by simp
  ultimately show ?thesis using K(2,3) by (simp add: kinv_def off_queues_def)
qed

lemma timer_sel [simp]:
  "kst (upd_event i f s) = kst s" "ts (upd_event i f s) = ts s" "kst (upd_kst g s) = g (kst s)"
  "pendingTimerEvents (upd_kst g s) = pendingTimerEvents s" "timeEventCount (upd_kst g s) = timeEventCount s"
  "timeEventCount (upd_event i f s) = timeEventCount s" "g_Quantum (upd_kst g s) = g_Quantum s"
  "g_Quantum (upd_event i f s) = g_Quantum s" "uc_signal (ts (upd_kst g s)) = uc_signal (ts s)"
  "smem (ts (upd_kst g s)) = smem (ts s)" "g_numTicks (upd_kst g s) = g_numTicks s" "g_numTicks (upd_event i f s) = g_numTicks s"
  "pendingTimerEvents (upd_event i f s) = (pendingTimerEvents s)[i := f (pendingTimerEvents s ! i)]"
  by (simp_all add: upd_event_def upd_kst_def)

lemma end_quantum_ok:
  assumes "kinv (kst s)"
  shows "kinv (kst (end_quantum s))" "int_flag (kst (end_quantum s)) = int_flag (kst s)" "uc_signal (ts (end_quantum s)) = uc_signal (ts s)"
    "pendingTimerEvents (end_quantum s) = pendingTimerEvents s" "timeEventCount (end_quantum s) = timeEventCount s"
    "tcur (end_quantum s) = tcur s" "g_numTicks (end_quantum s) = g_numTicks s"
    "word_of_int (g_Quantum s) \<le> numTicks (thr (kst s) (tcur s)) \<Longrightarrow> g_needReschedule (kst (end_quantum s)) \<and>
       currentReadyQueue (thr (kst (end_quantum s)) (tcur s)) =
         min (currentReadyQueue (thr (kst s) (tcur s)) + 1) (max (currentReadyQueue (thr (kst s) (tcur s))) (MAX_QUEUE_LEVEL (kst s) - 1))"
proof -
  let ?k = "(kst s)\<lparr>g_needReschedule := True\<rparr>"
  have "0 \<le> currentReadyQueue (thr ?k (g_currentThread ?k))"
    using sched_okD(7) [OF kinv_current(1) [OF assms]] kinv_current(2) [OF assms] by simp
  then have "kinv (upd_thr (g_currentThread ?k) (\<lambda>x. x\<lparr>currentReadyQueue := currentReadyQueue x + 1\<rparr>) ?k)"
    using assms by (intro kinv_upd_current) simp_all
  then show "kinv (kst (end_quantum s))" using assms by (simp add: end_quantum_def Let_def)
qed (simp_all add: end_quantum_def Let_def)

text \<open>What ticks leave alone: everything signals depend on.\<close>

definition tick_frame :: "timer \<Rightarrow> timer \<Rightarrow> bool" where
  "tick_frame s s' \<longleftrightarrow> timer_ok s' \<and> uc_signal (ts s') = uc_signal (ts s) \<and> tcur s' = tcur s \<and>
     allThreads (kst s') = allThreads (kst s) \<and> queues (kst s') = queues (kst s) \<and> timeEventCount s' = timeEventCount s \<and>
     (\<forall>u. pid (thr (kst s') u) = pid (thr (kst s) u) \<and> owner (thr (kst s') u) = owner (thr (kst s) u) \<and>
        userContext (thr (kst s') u) = userContext (thr (kst s) u) \<and> blocked (thr (kst s') u) = blocked (thr (kst s) u) \<and>
        waitQueue (thr (kst s') u) = waitQueue (thr (kst s) u))"

lemma tick_frame_trans: "tick_frame s s1 \<Longrightarrow> tick_frame s1 s2 \<Longrightarrow> tick_frame s s2"
  by (simp add: tick_frame_def)

lemma tick_frame_can_signal:
  assumes "tick_frame s s'" "can_signal t (ts s)"
  shows "can_signal t (ts s')"
  using assms kinv_current(1) unfolding tick_frame_def can_signal_def timer_ok_def by simp

definition counted :: "timer \<Rightarrow> timer" where
  "counted s = upd_kst (upd_thr (tcur s) (\<lambda>x. x\<lparr>numTicks := numTicks x + 1\<rparr>)) (s\<lparr>g_numTicks := g_numTicks s + 1\<rparr>)"

lemma counted_frame:
  assumes "timer_ok s"
  shows "tick_frame s (counted s)" "pendingTimerEvents (counted s) = pendingTimerEvents s"
proof -
  have k: "kinv (kst s)" using assms by (simp add: timer_ok_def)
  have "kinv (upd_thr (tcur s) (\<lambda>x. x\<lparr>numTicks := numTicks x + 1\<rparr>) (kst s))"
    using sched_okD(7) [OF kinv_current(1) [OF k]] kinv_current(2) [OF k] by (intro kinv_upd_current [OF k]) simp_all
  then show "tick_frame s (counted s)" using assms by (simp add: tick_frame_def timer_ok_def counted_def)
qed (simp add: counted_def)

lemma end_quantum_frame:
  assumes "timer_ok s"
  shows "tick_frame s (end_quantum s)"
proof -
  have k: "kinv (kst s)" using assms by (simp add: timer_ok_def)
  note E = end_quantum_ok [OF k]
  have "allThreads (kst (end_quantum s)) = allThreads (kst s)" "queues (kst (end_quantum s)) = queues (kst s)"
    "pid (thr (kst (end_quantum s)) u) = pid (thr (kst s) u)" "owner (thr (kst (end_quantum s)) u) = owner (thr (kst s) u)"
    "userContext (thr (kst (end_quantum s)) u) = userContext (thr (kst s) u)" "blocked (thr (kst (end_quantum s)) u) = blocked (thr (kst s) u)"
    "waitQueue (thr (kst (end_quantum s)) u) = waitQueue (thr (kst s) u)" for u
    by (simp_all add: end_quantum_def Let_def)
  then show ?thesis using E(1-6) assms by (simp add: tick_frame_def timer_ok_def)
qed

text \<open>A tick that does not ring.\<close>

lemma quiet_tick:
  assumes "timer_ok s" "timeEventCount s = 1" "pendingTimerEvents s = [e]" "te_id e < 0 \<or> 0 < te_ticks e"
  shows "\<exists>s'. Timer_Interrupt_Handler s = Some s' \<and> tick_frame s s' \<and>
    pendingTimerEvents s' = [if te_id e < 0 then e else e\<lparr>te_ticks := te_ticks e - 1\<rparr>]"
proof -
  define e' where "e' = (if te_id e < 0 then e else e\<lparr>te_ticks := te_ticks e - 1\<rparr>)"
  note C = counted_frame [OF assms(1)]
  define s1 where "s1 = (if te_id e < 0 then counted s else upd_event 0 (\<lambda>e. e\<lparr>te_ticks := te_ticks e - 1\<rparr>) (counted s))"
  have cnt: "timeEventCount (counted s) = 1" using assms(2) by (simp add: counted_def)
  have ev: "timer_events 0 1 (counted s) = Some s1"
    using assms(3,4) C(2) by (auto simp: timer_event_def s1_def)
  have s1: "tick_frame (counted s) s1" "pendingTimerEvents s1 = [e']"
    using C assms(3) by (auto simp: s1_def e'_def tick_frame_def timer_ok_def)
  have "Timer_Interrupt_Handler s = Some (end_quantum s1)"
    using ev cnt assms(2) by (simp add: Timer_Interrupt_Handler_def counted_def [symmetric] Let_def)
  moreover have ok1: "timer_ok s1" using s1(1) by (simp add: tick_frame_def)
  have "tick_frame s (end_quantum s1)"
    using tick_frame_trans [OF tick_frame_trans [OF C(1) s1(1)] end_quantum_frame [OF ok1]] .
  moreover have "pendingTimerEvents (end_quantum s1) = [e']"
    using end_quantum_ok(4) [of s1] ok1 s1(2) by (simp add: timer_ok_def)
  ultimately show ?thesis unfolding e'_def by blast
qed

text \<open>A tick that rings.\<close>

lemma kinv_refCount: "kinv (upd_thr t (\<lambda>x. x\<lparr>refCount := f x\<rparr>) k) = kinv k"
proof -
  have p: "priority (thr (upd_thr t (\<lambda>x. x\<lparr>refCount := f x\<rparr>) k) u) = priority (thr k u)" for u by simp
  show ?thesis unfolding kinv_def idle_ok_def p sched_ok_refCount off_queues_def by simp
qed

lemma wake_and_deref_kinv:
  assumes "can_signal t s" "kinv (sk s)" "\<not> int_flag (sk s)" "wake_and_deref me t s = Some s'"
  shows "kinv (sk s') \<and> g_currentThread (sk s') = g_currentThread (sk s)"
proof (cases "blocked (thr (sk s) t)")
  case False
  then show ?thesis using assms(2,4) by (auto simp: wake_and_deref_def kinv_refCount split: if_splits)
next
  case True
  then obtain q where q: "is_wait_queue q" "waitQueue (thr (sk s) t) = Some q" "t \<in> set (queues (sk s) q)"
    using assms(1) by (auto simp: can_signal_def)
  obtain k where k: "Wake_Up_Process t (sk s) = Some k" "wake_frame {t} (sk s) k"
    using Wake_Up_Process_ok [OF kinv_current(1) [OF assms(2)] assms(3) q] by blast
  have "g_currentThread (sk s) \<notin> {t}" using kinv_current(3) [OF assms(2)] q(3) by (auto simp: off_queues_def)
  then have "kinv k" using kinv_wake [OF assms(2) k(2)] by blast
  then show ?thesis using assms(4) True k wake_frameD(4) [OF k(2)]
    by (auto simp: wake_and_deref_def onsk_def kinv_refCount split: if_splits)
qed

lemma ring_tick:
  assumes ok: "timer_ok s" and e: "timeEventCount s = 1" "pendingTimerEvents s = [e]" "0 \<le> te_id e" "te_ticks e \<le> 0"
    and t: "List.find (\<lambda>t. pid (thr (kst s) t) = te_pid e) (allThreads (kst s)) = Some t" "can_signal t (ts s)"
    and me: "word_of_int (pid (thr (kst s) (tcur s))) \<noteq> owner (thr (kst s) t)"
  shows "\<exists>s'. Timer_Interrupt_Handler s = Some s' \<and> timer_ok s' \<and> pendingTimerEvents s' = [e\<lparr>te_id := - 1\<rparr>] \<and>
    uc_signal (ts s') = (uc_signal (ts s))(context_of (ts s) t := SIGALRM) \<and> \<not> blocked (thr (kst s') t) \<and>
    (blocked (thr (kst s) t) \<longrightarrow> (\<exists>i. t \<in> set (queues (kst s') (RunQ i)))) \<and> g_needReschedule (kst s')"
proof -
  note C = counted_frame [OF ok]
  let ?s = "counted s"
  have F: "\<not> int_flag (kst ?s)" "kinv (kst ?s)" "uc_signal (ts ?s) = uc_signal (ts s)" "tcur ?s = tcur s"
    "allThreads (kst ?s) = allThreads (kst s)" "pid (thr (kst ?s) u) = pid (thr (kst s) u)" "owner (thr (kst ?s) u) = owner (thr (kst s) u)"
    "context_of (ts ?s) u = context_of (ts s) u" "blocked (thr (kst ?s) u) = blocked (thr (kst s) u)" for u
    using C(1) by (simp_all add: tick_frame_def timer_ok_def)
  have c: "can_signal t (ts ?s)" by (rule tick_frame_can_signal [OF C(1) t(2)])
  let ?b = "tcur ?s \<noteq> owner (thr (kst ?s) t)"
  define k where "k = (if ?b then upd_thr t (\<lambda>x. x\<lparr>refCount := refCount x + 1\<rparr>) (kst ?s) else kst ?s)"
  have lk: "Lookup_Thread (te_pid e) False (kst ?s) = Some (t, k)"
    using Lookup_Thread_ok [of "kst ?s" "te_pid e" t] F(1,5,6) t(1) by (simp add: k_def)
  have k: "int_flag k = int_flag (kst ?s)" "owner (thr k t) = owner (thr (kst ?s) t)" "pid (thr k u) = pid (thr (kst ?s) u)"
    "userContext (thr k t) = userContext (thr (kst ?s) t)" "blocked (thr k t) = blocked (thr (kst ?s) t)"
    "kinv k = kinv (kst ?s)" "g_currentThread k = tcur ?s" for u
    by (simp_all add: k_def kinv_refCount)
  have ck: "can_signal t ((ts ?s)\<lparr>sk := k\<rparr>)" unfolding k_def by (rule Lookup_can_signal [OF c])
  have h: "\<not> int_flag (sk ((ts ?s)\<lparr>sk := k\<rparr>))" "word_of_int (pid (thr (kst s) (tcur s))) \<noteq> owner (thr (sk ((ts ?s)\<lparr>sk := k\<rparr>)) t)"
    using F(1,7) k(1,2) me by simp_all
  obtain g1 g where g: "Send_Signal t SIGALRM ((ts ?s)\<lparr>sk := k\<rparr>) = Some g1" "sk g1 = k"
    "wake_and_deref (pid (thr (kst s) (tcur s))) t g1 = Some g"
    "signalled t SIGALRM (refCount (thr k t) - 1) ((ts ?s)\<lparr>sk := k\<rparr>) g" "int_flag (sk g) = int_flag k"
    using signal_target_ok [OF ck h, of SIGALRM] by auto
  have c1: "can_signal t g1" using g(1) Send_Signal_can [OF ck, of SIGALRM] ck by auto
  have kg: "kinv (sk g)" "g_currentThread (sk g) = tcur ?s"
    using wake_and_deref_kinv [OF c1 _ _ g(3)] F(1,2) k(1,6,7) g(2) by simp_all
  let ?s1 = "?s\<lparr>ts := g\<rparr>"
  have ex: "expire_event e ?s = Some ?s1"
    using lk g(1-3) k(3) F(4,6) by (simp add: expire_event_def)
  let ?s2 = "upd_kst (\<lambda>k. k\<lparr>g_needReschedule := True\<rparr>) (upd_event 0 (\<lambda>e. e\<lparr>te_id := - 1\<rparr>) ?s1)"
  have ev: "timer_events 0 1 ?s = Some ?s2"
    using e(2-4) C(2) ex by (simp add: timer_event_def Let_def)
  have cnt: "timeEventCount ?s = 1" using e(1) by (simp add: counted_def)
  have p2: "pendingTimerEvents ?s2 = [e\<lparr>te_id := - 1\<rparr>]" using C(2) e(2) by simp
  have ok2: "timer_ok ?s2" using kg(1) g(5) k(1) F(1) p2 cnt by (simp add: timer_ok_def)
  note Q = end_quantum_frame [OF ok2] and E = end_quantum_ok [of ?s2]
  have run: "Timer_Interrupt_Handler s = Some (end_quantum ?s2)"
    using ev cnt e(1) by (simp add: Timer_Interrupt_Handler_def counted_def [symmetric] Let_def)
  have nr: "g_needReschedule (kst (end_quantum ?s2))" by (simp add: end_quantum_def Let_def)
  have sg: "uc_signal g = (uc_signal (ts s))(context_of (ts s) t := SIGALRM)" "\<not> blocked (thr (sk g) t)"
    "blocked (thr (kst s) t) \<longrightarrow> (\<exists>i. t \<in> set (queues (sk g) (RunQ i)))"
    using g(4) k(4,5) F(3,8,9) by (simp_all add: signalled_def)
  show ?thesis
    using run nr Q sg p2 E(4) ok2 by (intro exI [of _ "end_quantum ?s2"]) (auto simp: tick_frame_def timer_ok_def)
qed

section \<open>Properties\<close>

fun run_ticks :: "nat \<Rightarrow> timer \<Rightarrow> timer kres" where
  "run_ticks 0 s = Some s"
| "run_ticks (Suc n) s = do { s \<leftarrow> Timer_Interrupt_Handler s; run_ticks n s }"

lemma run_ticks_quiet:
  assumes "timer_ok s" "timeEventCount s = 1" "pendingTimerEvents s = [e]" "0 \<le> te_id e" "te_ticks e = int m" "n \<le> m"
  shows "\<exists>s'. run_ticks n s = Some s' \<and> tick_frame s s' \<and> pendingTimerEvents s' = [e\<lparr>te_ticks := int (m - n)\<rparr>]"
  using assms
proof (induction n arbitrary: s e m)
  case 0
  have "e\<lparr>te_ticks := te_ticks e\<rparr> = e" by simp
  with 0 show ?case by (simp add: tick_frame_def)
next
  case (Suc n)
  then obtain s1 where s1: "Timer_Interrupt_Handler s = Some s1" "tick_frame s s1"
    "pendingTimerEvents s1 = [e\<lparr>te_ticks := te_ticks e - 1\<rparr>]"
    using quiet_tick [OF Suc.prems(1-3)] by auto
  let ?e = "e\<lparr>te_ticks := te_ticks e - 1\<rparr>"
  have "timer_ok s1" "timeEventCount s1 = 1" using s1(2) Suc.prems(2) by (simp_all add: tick_frame_def)
  moreover have "te_ticks ?e = int (m - 1)" "n \<le> m - 1" using Suc.prems(5,6) by auto
  ultimately obtain s2 where "run_ticks n s1 = Some s2" "tick_frame s1 s2" "pendingTimerEvents s2 = [?e\<lparr>te_ticks := int (m - 1 - n)\<rparr>]"
    using Suc.IH [of s1 ?e "m - 1"] s1(3) Suc.prems(4) by auto
  with s1 tick_frame_trans show ?case by fastforce
qed


definition sample_timer :: timer where
  "sample_timer = \<lparr>ts = sample_kill, g_numTicks = 0, timeEventCount = 0, nextEventID = 0,
     pendingTimerEvents = [\<lparr>te_ticks = 0, te_id = - 1, te_callBack = 0, te_origTicks = 0, te_pid = 0\<rparr>], g_Quantum = 4\<rparr>"

lemma sample_timer_ok: "timer_ok sample_timer" "can_signal 1 (ts sample_timer)" "tcur sample_timer = 1"
    "context_of (ts sample_timer) 1 = 9" "owner (thr (kst sample_timer) 1) = 7" "pid (thr (kst sample_timer) 1) = 0"
    "allThreads (kst sample_timer) = [1, 2]" "currentReadyQueue (thr (kst sample_timer) 1) = 0" "MAX_QUEUE_LEVEL (kst sample_timer) = 4"
  by (simp_all add: timer_ok_def can_signal_def sample_timer_def kinv_def sched_ok_def off_queues_def idle_ok_def sample_kill_def
      sample_sig_def sample_threads_def sample_boot_def zero_thread_def)


text \<open>A thread that has used up its quantum is preempted and goes down one run-queue level, but
  never below the last one; together with the alarm's work this keeps the scheduler's
  invariant.\<close>

theorem quantum_demotes:
  assumes "timer_ok s" "timeEventCount s = 0" "word_of_int (g_Quantum s) \<le> numTicks (thr (kst s) (tcur s)) + 1"
  shows "\<exists>s'. Timer_Interrupt_Handler s = Some s' \<and> timer_ok s' \<and> g_numTicks s' = g_numTicks s + 1 \<and> g_needReschedule (kst s') \<and>
    currentReadyQueue (thr (kst s') (tcur s)) =
      (if currentReadyQueue (thr (kst s) (tcur s)) < MAX_QUEUE_LEVEL (kst s) - 1
       then currentReadyQueue (thr (kst s) (tcur s)) + 1 else currentReadyQueue (thr (kst s) (tcur s)))"
proof -
  note C = counted_frame [OF assms(1)]
  have k: "kinv (kst (counted s))" "timer_ok (counted s)" using C(1) by (simp_all add: tick_frame_def timer_ok_def)
  have n: "word_of_int (g_Quantum (counted s)) \<le> numTicks (thr (kst (counted s)) (tcur (counted s)))"
    "tcur (counted s) = tcur s" "MAX_QUEUE_LEVEL (kst (counted s)) = MAX_QUEUE_LEVEL (kst s)"
    "currentReadyQueue (thr (kst (counted s)) (tcur s)) = currentReadyQueue (thr (kst s) (tcur s))" "g_numTicks (counted s) = g_numTicks s + 1"
    using assms(3) by (simp_all add: counted_def)
  have run: "Timer_Interrupt_Handler s = Some (end_quantum (counted s))"
    using assms(2) by (simp add: Timer_Interrupt_Handler_def counted_def [symmetric] Let_def)
  show ?thesis
    using run end_quantum_frame [OF k(2)] end_quantum_ok(7,8) [OF k(1)] n
    by (intro exI [of _ "end_quantum (counted s)"]) (auto simp: tick_frame_def)
qed

lemma quantum_demotes_witness:
  "\<exists>s'. Timer_Interrupt_Handler (sample_timer\<lparr>g_Quantum := 1\<rparr>) = Some s' \<and> currentReadyQueue (thr (kst s') 1) = 1"
proof -
  have ok: "timer_ok (sample_timer\<lparr>g_Quantum := 1\<rparr>)" using sample_timer_ok(1) by (simp add: timer_ok_def)
  have "timeEventCount (sample_timer\<lparr>g_Quantum := 1\<rparr>) = 0" "numTicks (thr (kst sample_timer) 1) = 0"
    by (simp_all add: sample_timer_def sample_kill_def sample_sig_def sample_threads_def zero_thread_def)
  from quantum_demotes [OF ok this(1)] this(2) sample_timer_ok show ?thesis by auto
qed

text \<open>There is one alarm for the whole system: a second \<open>Alarm\<close>, also of another process,
  replaces the first, whose identifier is then unknown; and an alarm whose process has ended
  stops the machine when it rings, because the handler uses the null pointer that the look-up
  returned.\<close>

theorem one_alarm_only:
  assumes "timer_ok s" "Start_Timer n cb s = Some (i, s1)" "Start_Timer m cb' (s1\<lparr>ts := x\<rparr>) = Some (j, s2)"
    "0 \<le> nextEventID s"
  shows "Get_Remaing_Timer_Ticks i s2 = Some (- 1) \<and> Get_Remaing_Timer_Ticks j s2 = Some m \<and>
    (\<forall>s3 e. timer_ok s3 \<and> timeEventCount s3 = 1 \<and> pendingTimerEvents s3 = [e] \<and> 0 \<le> te_id e \<and> te_ticks e \<le> 0 \<and>
       List.find (\<lambda>t. pid (thr (kst s3) t) = te_pid e) (allThreads (kst s3)) = None \<longrightarrow>
       Timer_Interrupt_Handler s3 = None)"
proof -
  obtain e0 where e0: "pendingTimerEvents s = [e0]" using assms(1) by (cases "pendingTimerEvents s") (auto simp: timer_ok_def)
  have s1: "i = nextEventID s" "nextEventID s1 = i + 1" "length (pendingTimerEvents s1) = 1"
    using assms(1,2) e0 by (auto simp: Start_Timer_def Let_def aset_def split: if_splits)
  then obtain e1 where e1: "pendingTimerEvents s1 = [e1]" by (cases "pendingTimerEvents s1") auto
  have s2: "\<not> int_flag (kst s2)" "j = i + 1" "timeEventCount s2 = 1"
    "pendingTimerEvents s2 = [\<lparr>te_ticks = m, te_id = j, te_callBack = cb', te_origTicks = m, te_pid = pid (thr (sk x) (g_currentThread (sk x)))\<rparr>]"
    using assms(3) s1(2) e1 by (auto simp: Start_Timer_def Let_def aset_def split: if_splits)
  have "Timer_Interrupt_Handler s3 = None"
    if s3: "timer_ok s3" "timeEventCount s3 = 1" "pendingTimerEvents s3 = [e]" "0 \<le> te_id e" "te_ticks e \<le> 0"
      "List.find (\<lambda>t. pid (thr (kst s3) t) = te_pid e) (allThreads (kst s3)) = None" for s3 e
  proof -
    note C = counted_frame [OF s3(1)]
    have c: "pendingTimerEvents (counted s3) = [e]" "\<not> int_flag (kst (counted s3))" "timeEventCount (counted s3) = 1"
      "pid (thr (kst (counted s3)) u) = pid (thr (kst s3) u)" "allThreads (kst (counted s3)) = allThreads (kst s3)" for u
      using C s3(2,3) by (simp_all add: tick_frame_def timer_ok_def)
    have "timer_event 0 (counted s3) = None"
      using s3(4-6) c by (simp add: timer_event_def expire_event_def Lookup_Thread_def Send_Signal_def)
    then show ?thesis using s3(2) by (simp add: Timer_Interrupt_Handler_def counted_def [symmetric] Let_def)
  qed
  then show ?thesis using s2 assms(4) s1(1) by (simp add: Get_Remaing_Timer_Ticks_def)
qed

lemma one_alarm_only_witness:
  "\<exists>i s1 j s2. Start_Timer 5 0 sample_timer = Some (i, s1) \<and> Start_Timer 7 0 s1 = Some (j, s2) \<and>
    Get_Remaing_Timer_Ticks i s2 = Some (- 1)"
proof -
  have f: "\<not> int_flag (kst sample_timer)" using sample_timer_ok(1) by (simp add: timer_ok_def)
  obtain i s1 where s1: "Start_Timer 5 0 sample_timer = Some (i, s1)" "pendingTimerEvents s1 \<noteq> []" "ts s1 = ts sample_timer"
    using f by (auto simp: Start_Timer_def Let_def aset_def sample_timer_def)
  obtain j s2 where s2: "Start_Timer 7 0 s1 = Some (j, s2)" using f s1(2,3) by (auto simp: Start_Timer_def Let_def aset_def)
  have "Start_Timer 7 0 (s1\<lparr>ts := ts s1\<rparr>) = Some (j, s2)" using s2 by simp
  from one_alarm_only [OF sample_timer_ok(1) s1(1) this] s1(1) s2 show ?thesis by (auto simp: sample_timer_def)
qed

end
