(* ===== verification/Segment.thy ===== *)
theory Segment
  imports Machine Bitset
begin

text \<open>
  Segmentation: the descriptors of \<open>geekos/segment.c\<close>, the kernel's descriptor table
  \<open>geekos/gdt.c\<close> and the task state segment's registration in \<open>geekos/tss.c\<close>.  A pointer to
  a descriptor of the table is its index; the table's address and the address of the task state
  segment are parameters.  \<open>Load_GDTR\<close> and the \<open>ltr\<close> instruction only load processor
  registers, so the values they load are returned.
\<close>

section \<open>Descriptors\<close>

record Segment_Descriptor =
  sizeLow :: u16
  baseLow :: "24 word"
  seg_type :: "4 word"
  seg_system :: "1 word"
  dpl :: "2 word"
  seg_present :: "1 word"
  sizeHigh :: "4 word"
  avail :: "1 word"
  seg_reserved :: "1 word"
  dbBit :: "1 word"
  granularity :: "1 word"
  baseHigh :: u8

definition null_descriptor :: Segment_Descriptor where
  "null_descriptor = \<lparr>sizeLow = 0, baseLow = 0, seg_type = 0, seg_system = 0, dpl = 0, seg_present = 0,
     sizeHigh = 0, avail = 0, seg_reserved = 0, dbBit = 0, granularity = 0, baseHigh = 0\<rparr>"

definition Set_Size_And_Base_Pages :: "u32 \<Rightarrow> u32 \<Rightarrow> Segment_Descriptor \<Rightarrow> Segment_Descriptor kres" where
  "Set_Size_And_Base_Pages baseAddr numPages d = do {
     KASSERT (0 < numPages);
     let numPages = numPages - 1;
     Some (d\<lparr>sizeLow := ucast (numPages AND 0xFFFF),
             sizeHigh := ucast (drop_bit 16 numPages AND 0x0F),
             baseLow := ucast (baseAddr AND 0xFFFFFF),
             baseHigh := ucast (drop_bit 24 baseAddr AND 0xFF),
             granularity := 1\<rparr>) }"

definition Set_Size_And_Base_Bytes :: "u32 \<Rightarrow> u32 \<Rightarrow> Segment_Descriptor \<Rightarrow> Segment_Descriptor" where
  "Set_Size_And_Base_Bytes baseAddr numBytes d =
     d\<lparr>sizeLow := ucast (numBytes AND 0xFFFF),
       sizeHigh := ucast (drop_bit 16 numBytes AND 0x0F),
       baseLow := ucast (baseAddr AND 0xFFFFFF),
       baseHigh := ucast (drop_bit 24 baseAddr AND 0xFF),
       granularity := 0\<rparr>"

definition Init_Null_Segment_Descriptor :: "Segment_Descriptor \<Rightarrow> Segment_Descriptor" where
  "Init_Null_Segment_Descriptor d = null_descriptor"

definition Init_Code_Segment_Descriptor ::
  "u32 \<Rightarrow> u32 \<Rightarrow> int \<Rightarrow> Segment_Descriptor \<Rightarrow> Segment_Descriptor kres" where
  "Init_Code_Segment_Descriptor baseAddr numPages privilegeLevel d = do {
     KASSERT (privilegeLevel \<ge> 0 \<and> privilegeLevel \<le> 3);
     d \<leftarrow> Set_Size_And_Base_Pages baseAddr numPages d;
     Some (d\<lparr>seg_type := 0x0A, seg_system := 1, dpl := word_of_int privilegeLevel,
             seg_present := 1, seg_reserved := 0, dbBit := 1\<rparr>) }"

definition Init_Data_Segment_Descriptor ::
  "u32 \<Rightarrow> u32 \<Rightarrow> int \<Rightarrow> Segment_Descriptor \<Rightarrow> Segment_Descriptor kres" where
  "Init_Data_Segment_Descriptor baseAddr numPages privilegeLevel d = do {
     KASSERT (privilegeLevel \<ge> 0 \<and> privilegeLevel \<le> 3);
     d \<leftarrow> Set_Size_And_Base_Pages baseAddr numPages d;
     Some (d\<lparr>seg_type := 0x02, seg_system := 1, dpl := word_of_int privilegeLevel,
             seg_present := 1, seg_reserved := 0, dbBit := 1\<rparr>) }"

abbreviation (input) "SIZEOF_TSS \<equiv> 104 :: u32"
abbreviation (input) "SIZEOF_DESCRIPTOR \<equiv> 8 :: u32"

definition Init_TSS_Descriptor :: "u32 \<Rightarrow> Segment_Descriptor \<Rightarrow> Segment_Descriptor" where
  "Init_TSS_Descriptor theTSS d =
     (Set_Size_And_Base_Bytes theTSS SIZEOF_TSS d)
       \<lparr>seg_type := 0x09, seg_system := 0, dpl := 0, seg_present := 1, seg_reserved := 0, dbBit := 0\<rparr>"

definition Init_LDT_Descriptor :: "u32 \<Rightarrow> int \<Rightarrow> Segment_Descriptor \<Rightarrow> Segment_Descriptor" where
  "Init_LDT_Descriptor theLDT numEntries d =
     (Set_Size_And_Base_Bytes theLDT (SIZEOF_DESCRIPTOR * word_of_int numEntries) d)
       \<lparr>seg_type := 0x02, seg_system := 0, dpl := 0, seg_present := 1, seg_reserved := 0, dbBit := 0\<rparr>"

definition Selector :: "int \<Rightarrow> bool \<Rightarrow> int \<Rightarrow> u16" where
  "Selector rpl segmentIsInGDT index =
     ucast ((word_of_int rpl AND (0x3 :: u32)) OR push_bit 2 (if segmentIsInGDT then 0 else 1)
       OR push_bit 3 (word_of_int index AND 0x1FFF))"

section \<open>The kernel's descriptor table\<close>

abbreviation (input) "NUM_GDT_ENTRIES \<equiv> 16 :: nat"
abbreviation (input) "KERNEL_CS \<equiv> 8 :: int"
abbreviation (input) "KERNEL_DS \<equiv> 16 :: int"

text \<open>Of the task state segment only the kernel stack is ever set; the rest stays zero.\<close>

record TSS =
  esp0 :: u32
  ss0 :: u16

record gdt = machine +
  s_GDT :: "Segment_Descriptor list"
  s_numAllocated :: int
  s_theTSS :: TSS
  s_tssDesc :: "nat option"
  s_tssSelector :: u16

fun find_avail :: "Segment_Descriptor list \<Rightarrow> nat \<Rightarrow> nat \<Rightarrow> nat option" where
  "find_avail ds i 0 = None"
| "find_avail ds i (Suc n) = (if avail (ds ! i) \<noteq> 0 then Some i else find_avail ds (Suc i) n)"

definition take_descriptor :: "nat \<Rightarrow> gdt \<Rightarrow> gdt kres" where
  "take_descriptor i s = do {
     d \<leftarrow> aget (s_GDT s) i;
     ds \<leftarrow> aset (s_GDT s) i (d\<lparr>avail := 0\<rparr>);
     Some (s\<lparr>s_GDT := ds, s_numAllocated := s_numAllocated s + 1\<rparr>) }"

definition Allocate_Segment_Descriptor :: "gdt \<Rightarrow> (nat option \<times> gdt) kres" where
  "Allocate_Segment_Descriptor s = do {
     (iflag, s) \<leftarrow> Begin_Int_Atomic s;
     (result, s) \<leftarrow>
       (case find_avail (s_GDT s) 1 (NUM_GDT_ENTRIES - 1) of
          None \<Rightarrow> Some (None, s)
        | Some i \<Rightarrow> do { s \<leftarrow> take_descriptor i s; Some (Some i, s) });
     s \<leftarrow> End_Int_Atomic iflag s;
     Some (result, s) }"

definition Free_Segment_Descriptor :: "nat \<Rightarrow> gdt \<Rightarrow> gdt kres" where
  "Free_Segment_Descriptor i s = do {
     (iflag, s) \<leftarrow> Begin_Int_Atomic s;
     d \<leftarrow> aget (s_GDT s) i;
     KASSERT (avail d = 0);
     let d = Init_Null_Segment_Descriptor d;
     ds \<leftarrow> aset (s_GDT s) i (d\<lparr>avail := 1\<rparr>);
     let s = s\<lparr>s_GDT := ds, s_numAllocated := s_numAllocated s - 1\<rparr>;
     End_Int_Atomic iflag s }"

definition Get_Descriptor_Index :: "nat \<Rightarrow> int" where
  "Get_Descriptor_Index i = int i"

text \<open>Storing through the pointer that \<open>Allocate_Segment_Descriptor\<close> returned.\<close>

definition init_entry ::
  "(Segment_Descriptor \<Rightarrow> Segment_Descriptor kres) \<Rightarrow> nat \<Rightarrow> gdt \<Rightarrow> gdt kres" where
  "init_entry f i s = do {
     d \<leftarrow> aget (s_GDT s) i; d \<leftarrow> f d; ds \<leftarrow> aset (s_GDT s) i d; Some (s\<lparr>s_GDT := ds\<rparr>) }"

definition clear_entry :: "Segment_Descriptor \<Rightarrow> Segment_Descriptor" where
  "clear_entry d = (Init_Null_Segment_Descriptor d)\<lparr>avail := 1\<rparr>"

definition Init_GDT :: "u32 \<Rightarrow> gdt \<Rightarrow> (u16 list \<times> gdt) kres" where
  "Init_GDT gdtBaseAddr s = do {
     let s = s\<lparr>s_GDT := List.map clear_entry (s_GDT s)\<rparr>;
     (desc, s) \<leftarrow> Allocate_Segment_Descriptor s;
     i \<leftarrow> desc;
     s \<leftarrow> init_entry (Init_Code_Segment_Descriptor 0 0x100000 0) i s;
     KASSERT (Get_Descriptor_Index i = KERNEL_CS div 8);
     (desc, s) \<leftarrow> Allocate_Segment_Descriptor s;
     i \<leftarrow> desc;
     s \<leftarrow> init_entry (Init_Data_Segment_Descriptor 0 0x100000 0) i s;
     KASSERT (Get_Descriptor_Index i = KERNEL_DS div 8);
     let limit = ucast (SIZEOF_DESCRIPTOR * of_nat NUM_GDT_ENTRIES);
     Some ([limit, ucast (gdtBaseAddr AND 0xffff), ucast (drop_bit 16 gdtBaseAddr)], s) }"

text \<open>The one task state segment.  Loading the task register returns the selector it loads.\<close>

definition Load_Task_Register :: "gdt \<Rightarrow> (u16 \<times> gdt) kres" where
  "Load_Task_Register s = do {
     i \<leftarrow> s_tssDesc s;
     s \<leftarrow> init_entry (\<lambda>d. Some (d\<lparr>seg_type := 0x09\<rparr>)) i s;
     Some (s_tssSelector s, s) }"

definition Init_TSS :: "u32 \<Rightarrow> gdt \<Rightarrow> (u16 \<times> gdt) kres" where
  "Init_TSS theTSS s = do {
     (desc, s) \<leftarrow> Allocate_Segment_Descriptor s;
     let s = s\<lparr>s_tssDesc := desc\<rparr>;
     KASSERT (s_tssDesc s \<noteq> None);
     i \<leftarrow> desc;
     let s = s\<lparr>s_theTSS := \<lparr>esp0 = 0, ss0 = 0\<rparr>\<rparr>;
     s \<leftarrow> init_entry (\<lambda>d. Some (Init_TSS_Descriptor theTSS d)) i s;
     let s = s\<lparr>s_tssSelector := Selector 0 True (Get_Descriptor_Index i)\<rparr>;
     Load_Task_Register s }"

definition Set_Kernel_Stack_Pointer :: "u32 \<Rightarrow> gdt \<Rightarrow> (u16 \<times> gdt) kres" where
  "Set_Kernel_Stack_Pointer new_esp0 s = do {
     let s = s\<lparr>s_theTSS := (s_theTSS s)\<lparr>ss0 := word_of_int KERNEL_DS\<rparr>\<rparr>;
     let s = s\<lparr>s_theTSS := (s_theTSS s)\<lparr>esp0 := new_esp0\<rparr>\<rparr>;
     Load_Task_Register s }"

section \<open>What the processor makes of a descriptor\<close>

text \<open>
  The reference: base and limit as the processor's manual defines them, the limit in units of
  4096 bytes when the granularity bit is set, and the last address of the segment.
\<close>

definition seg_base :: "Segment_Descriptor \<Rightarrow> u32" where
  "seg_base d = push_bit 24 (ucast (baseHigh d)) OR ucast (baseLow d)"

definition raw_limit :: "Segment_Descriptor \<Rightarrow> u32" where
  "raw_limit d = push_bit 16 (ucast (sizeHigh d)) OR ucast (sizeLow d)"

definition last_offset :: "Segment_Descriptor \<Rightarrow> nat" where
  "last_offset d = (if granularity d = 1 then unat (raw_limit d) * 4096 + 4095 else unat (raw_limit d))"


lemma and_field:
  "(a :: u32) AND 0xFF = take_bit 8 a" "a AND 0xFFFFFF = take_bit 24 a"
  "a AND 0x0F = take_bit 4 a" "a AND 0xFFFF = take_bit 16 a"
  by (simp_all add: take_bit_eq_mask mask_eq_exp_minus_1)

lemma base_parts:
  "push_bit 24 (ucast (ucast (drop_bit 24 a AND 0xFF) :: u8)) OR ucast (ucast (a AND 0xFFFFFF) :: 24 word)
     = (a :: u32)"
  unfolding and_field
  by (intro bit_word_eqI)
     (auto simp: bit_or_iff bit_push_bit_iff bit_ucast_iff bit_take_bit_iff bit_drop_bit_eq not_less)

lemma limit_parts:
  "push_bit 16 (ucast (ucast (drop_bit 16 a AND 0x0F) :: 4 word)) OR ucast (ucast (a AND 0xFFFF) :: u16)
     = take_bit 20 (a :: u32)"
  unfolding and_field
  by (intro bit_word_eqI)
     (auto simp: bit_or_iff bit_push_bit_iff bit_ucast_iff bit_take_bit_iff bit_drop_bit_eq not_less)

lemma limit_small: "unat (a :: u32) < 2 ^ 20 \<Longrightarrow> take_bit 20 a = a"
  by (rule take_bit_id)

lemma pages_limit:
  assumes "0 < n" "n \<le> (0x100000 :: u32)"
  shows "unat (take_bit 20 (n - 1)) * 4096 + 4095 + 1 = unat n * 4096"
proof -
  have u: "unat (n - 1) = unat n - 1" "0 < unat n"
    using assms(1) by (simp_all add: unat_minus_one word_gt_0 unat_gt_0)
  moreover have "unat n \<le> 0x100000" using assms(2) by (simp add: word_le_nat_alt)
  ultimately have "unat (n - 1) < 2 ^ 20" by simp
  then have "take_bit 20 (n - 1) = n - 1" by (rule limit_small)
  then have "unat (take_bit 20 (n - 1)) = unat n - 1" using u(1) by (rule trans [OF arg_cong])
  moreover obtain m where "unat n = Suc m" using u(2) gr0_conv_Suc by blast
  ultimately show ?thesis by simp
qed

lemma dpl_value: "0 \<le> pl \<Longrightarrow> pl \<le> 3 \<Longrightarrow> uint (word_of_int pl :: 2 word) = pl"
  by (simp add: uint_word_of_int)


lemma seg_simps [simp]:
  "seg_base (d\<lparr>seg_type := x1, seg_system := x2, dpl := x3, seg_present := x4, seg_reserved := x5, dbBit := x6\<rparr>) = seg_base d"
  "last_offset (d\<lparr>seg_type := x1, seg_system := x2, dpl := x3, seg_present := x4, seg_reserved := x5, dbBit := x6\<rparr>) = last_offset d"
  by (simp_all add: seg_base_def last_offset_def raw_limit_def)

lemma Set_Pages_spec:
  assumes "0 < n" "n \<le> 0x100000"
  shows "\<exists>d'. Set_Size_And_Base_Pages b n d = Some d' \<and> seg_base d' = b \<and>
    last_offset d' + 1 = unat n * 4096 \<and> avail d' = avail d"
  using assms pages_limit [OF assms]
  by (simp add: Set_Size_And_Base_Pages_def Let_def seg_base_def last_offset_def raw_limit_def
      base_parts limit_parts)

lemma Set_Bytes_spec:
  assumes "unat n < 2 ^ 20"
  shows "seg_base (Set_Size_And_Base_Bytes b n d) = b" "last_offset (Set_Size_And_Base_Bytes b n d) = unat n"
    "avail (Set_Size_And_Base_Bytes b n d) = avail d"
  using limit_small [OF assms]
  by (simp_all add: Set_Size_And_Base_Bytes_def seg_base_def last_offset_def raw_limit_def
      base_parts limit_parts)

text \<open>Selectors: the privilege level in the low two bits, the table bit, the index above.\<close>

lemma or_fields:
  fixes r i :: int
  assumes "0 \<le> r" "r < 2 ^ n"
  shows "r OR push_bit n i = r + push_bit n i"
proof -
  have "take_bit n r = r" "drop_bit n r = 0"
    using assms by (simp_all add: take_bit_int_eq_self drop_bit_eq_div)
  then have e: "drop_bit n (r OR push_bit n i) = i" "take_bit n (r OR push_bit n i) = r"
    by (simp_all add: drop_bit_or take_bit_or take_bit_push_bit)
       (simp add: push_bit_eq_mult drop_bit_eq_div)
  from bits_ident [of n "r OR push_bit n i"] show ?thesis unfolding e by simp
qed

lemma Selector_value:
  assumes "0 \<le> rpl" "rpl < 4" "0 \<le> idx" "idx < 0x2000"
  shows "uint (Selector rpl inGDT idx) = rpl + (if inGDT then 0 else 4) + 8 * idx"
proof -
  have i: "take_bit 32 idx = idx" "idx AND 0x1FFF = idx"
    using assms(3,4) take_bit_int_eq_self [of idx 32] take_bit_int_eq_self [of idx 13]
    by (simp_all add: take_bit_eq_mask mask_eq_exp_minus_1)
  have w: "word_of_int idx AND 0x1FFF = (word_of_int idx :: u32)"
  proof -
    have "idx mod 4294967296 = idx" using assms(3,4) by simp
    then show ?thesis using i by (simp add: word_uint_eq_iff unsigned_and_eq uint_word_of_int)
  qed
  have c: "uint (push_bit 3 (word_of_int idx) :: u32) = push_bit 3 idx"
  proof -
    have "idx mod 4294967296 = idx" "idx * 8 mod 4294967296 = idx * 8" using assms(3,4) by simp_all
    moreover have "uint (push_bit 3 (word_of_int idx) :: u32) = push_bit 3 (idx mod 2 ^ 32) mod 2 ^ 32"
      by (simp only: unsigned_push_bit_eq uint_word_of_int take_bit_eq_mod) simp
    ultimately show ?thesis by (simp add: push_bit_eq_mult)
  qed
  let ?t = "if inGDT then 0 else 4 :: int"
  have r: "rpl = 0 \<or> rpl = 1 \<or> rpl = 2 \<or> rpl = 3" using assms(1,2) by auto
  let ?w = "word_of_int rpl AND (0x3 :: u32) OR push_bit 2 (if inGDT then 0 else 1) OR push_bit 3 (word_of_int idx AND 0x1FFF)"
  have "uint ?w = (rpl + ?t) OR push_bit 3 idx"
    using r unfolding w by (auto simp only: unsigned_or_eq c) (simp_all add: or.assoc [symmetric])
  also have "\<dots> = rpl + ?t + 8 * idx"
    using or_fields [of "rpl + ?t" 3 idx] assms by (auto simp: push_bit_eq_mult split: if_splits)
  finally show ?thesis
    using assms unfolding Selector_def by (simp add: unsigned_ucast_eq take_bit_eq_mod)
qed

section \<open>The table as an allocator\<close>

text \<open>Slot \<open>k\<close> is descriptor \<open>k + 1\<close>: descriptor 0 is never handed out.\<close>

definition gdt_used :: "gdt \<Rightarrow> nat set" where
  "gdt_used s = {k. k < 15 \<and> avail (s_GDT s ! Suc k) = 0}"

definition gdt_ok :: "gdt \<Rightarrow> bool" where
  "gdt_ok s \<longleftrightarrow> length (s_GDT s) = NUM_GDT_ENTRIES \<and> s_numAllocated s = int (card (gdt_used s))"

definition gdt_search :: "gdt \<Rightarrow> int kres" where
  "gdt_search s = Some (case find_avail (s_GDT s) 1 (NUM_GDT_ENTRIES - 1) of None \<Rightarrow> - 1 | Some i \<Rightarrow> int i - 1)"

definition gdt_mark :: "gdt \<Rightarrow> nat \<Rightarrow> gdt kres" where
  "gdt_mark s k = take_descriptor (Suc k) s"

definition gdt_release :: "gdt \<Rightarrow> nat \<Rightarrow> gdt kres" where
  "gdt_release s k = Free_Segment_Descriptor (Suc k) s"

lemma find_avail_None: "find_avail ds i n = None \<longleftrightarrow> (\<forall>j. i \<le> j \<and> j < i + n \<longrightarrow> avail (ds ! j) = 0)"
proof (induction ds i n rule: find_avail.induct)
  case (2 ds i n)
  then show ?case by (auto simp: less_Suc_eq_le) (metis le_antisym not_less_eq_eq)+
qed auto

lemma find_avail_Some:
  "find_avail ds i n = Some k \<Longrightarrow> i \<le> k \<and> k < i + n \<and> avail (ds ! k) \<noteq> 0 \<and>
     (\<forall>j. i \<le> j \<and> j < k \<longrightarrow> avail (ds ! j) = 0)"
proof (induction ds i n rule: find_avail.induct)
  case (2 ds i n)
  show ?case
  proof (cases "avail (ds ! i) = 0")
    case True
    with 2 have IH: "Suc i \<le> k" "k < Suc i + n" "avail (ds ! k) \<noteq> 0"
      "\<forall>j. Suc i \<le> j \<and> j < k \<longrightarrow> avail (ds ! j) = 0" by auto
    moreover have "avail (ds ! j) = 0" if "i \<le> j" "j < k" for j
      using IH(4) True that by (cases "j = i") auto
    ultimately show ?thesis by auto
  qed (use 2 in auto)
qed simp

lemma gdt_used_finite [simp]: "finite (gdt_used s)"
  by (simp add: gdt_used_def)

lemma gdt_mark_spec:
  assumes "gdt_ok s" "k < 15" "k \<notin> gdt_used s"
  shows "\<exists>s'. gdt_mark s k = Some s' \<and> gdt_ok s' \<and> gdt_used s' = insert k (gdt_used s) \<and> int_flag s' = int_flag s"
proof -
  let ?s = "s\<lparr>s_GDT := (s_GDT s)[Suc k := (s_GDT s ! Suc k)\<lparr>avail := 0\<rparr>], s_numAllocated := s_numAllocated s + 1\<rparr>"
  have "gdt_mark s k = Some ?s"
    using assms by (simp add: gdt_mark_def take_descriptor_def gdt_ok_def)
  moreover have u: "gdt_used ?s = insert k (gdt_used s)"
    using assms by (auto simp: gdt_used_def gdt_ok_def nth_list_update split: if_splits)
  moreover have "gdt_ok ?s"
    using assms unfolding gdt_ok_def u by simp
  ultimately show ?thesis by simp
qed

lemma gdt_release_spec:
  assumes "gdt_ok s" "k < 15" "k \<in> gdt_used s"
  shows "\<exists>s'. gdt_release s k = Some s' \<and> gdt_ok s' \<and> gdt_used s' = gdt_used s - {k} \<and> int_flag s' = int_flag s"
proof -
  let ?s = "s\<lparr>s_GDT := (s_GDT s)[Suc k := null_descriptor\<lparr>avail := 1\<rparr>], s_numAllocated := s_numAllocated s - 1\<rparr>"
  have "gdt_release s k = Some ?s"
    using assms by (simp add: gdt_release_def Free_Segment_Descriptor_def gdt_ok_def gdt_used_def
        Init_Null_Segment_Descriptor_def Let_def)
  moreover have u: "gdt_used ?s = gdt_used s - {k}"
    using assms by (auto simp: gdt_used_def gdt_ok_def nth_list_update split: if_splits)
  moreover have "0 < card (gdt_used s)" using assms(3) by (auto simp: card_gt_0_iff)
  then have "gdt_ok ?s"
    using assms unfolding gdt_ok_def u by (simp add: card_Diff_singleton of_nat_diff)
  ultimately show ?thesis by simp
qed

interpretation gdt_slots: slot_allocator gdt_ok "\<lambda>_. 15" gdt_used gdt_search gdt_mark gdt_release
proof unfold_locales
  fix s :: gdt and i :: nat
  assume ok: "gdt_ok s"
  show "\<exists>r. gdt_search s = Some r \<and> (r = - 1 \<and> {..<15} \<subseteq> gdt_used s \<or>
     (\<exists>i. r = int i \<and> i < 15 \<and> i \<notin> gdt_used s \<and> {..<i} \<subseteq> gdt_used s))"
  proof (cases "find_avail (s_GDT s) 1 15")
    case None
    from None [unfolded find_avail_None] have "{..<15} \<subseteq> gdt_used s" by (auto simp: gdt_used_def)
    with None show ?thesis by (simp add: gdt_search_def)
  next
    case (Some i)
    with find_avail_Some [OF Some] obtain k where "i = Suc k" by (cases i) auto
    with Some find_avail_Some [OF Some] show ?thesis
      by (intro exI [of _ "int k"]) (auto simp: gdt_search_def gdt_used_def)
  qed
  assume i: "i < 15"
  { assume "i \<notin> gdt_used s"
    from gdt_mark_spec [OF ok i this] show "\<exists>s'. gdt_mark s i = Some s' \<and> gdt_ok s' \<and> 15 = (15 :: nat) \<and>
        gdt_used s' = insert i (gdt_used s)" by auto }
  { assume "i \<in> gdt_used s"
    from gdt_release_spec [OF ok i this] show "\<exists>s'. gdt_release s i = Some s' \<and> gdt_ok s' \<and> 15 = (15 :: nat) \<and>
        gdt_used s' = gdt_used s - {i}" by auto }
qed


lemma Allocate_eq:
  "Allocate_Segment_Descriptor s =
     map_option (\<lambda>(r, s'). (if r < 0 then None else Some (Suc (nat r)), s')) (alloc_slot gdt_search gdt_mark s)"
proof (cases "find_avail (s_GDT s) 1 15")
  case None
  then show ?thesis
    by (simp add: Allocate_Segment_Descriptor_def alloc_slot_def gdt_search_def)
next
  case (Some i)
  with find_avail_Some [OF Some] obtain k where "i = Suc k" by (cases i) auto
  with Some show ?thesis
    by (auto simp: Allocate_Segment_Descriptor_def alloc_slot_def gdt_search_def gdt_mark_def
        take_descriptor_def aget_def aset_def split: if_splits)
qed

lemma Allocate_spec:
  assumes "gdt_ok s"
  shows "\<exists>r s'. Allocate_Segment_Descriptor s = Some (r, s') \<and> gdt_ok s' \<and>
    (r = None \<and> s' = s \<and> {..<15} \<subseteq> gdt_used s \<or>
     (\<exists>k. r = Some (Suc k) \<and> k < 15 \<and> k \<notin> gdt_used s \<and> {..<k} \<subseteq> gdt_used s \<and> gdt_used s' = insert k (gdt_used s)))"
  using gdt_slots.alloc_spec [OF assms] by (force simp: Allocate_eq)

text \<open>Writing a descriptor through its pointer, leaving the \<open>avail\<close> bit alone.\<close>

definition keeps_avail :: "(Segment_Descriptor \<Rightarrow> Segment_Descriptor kres) \<Rightarrow> bool" where
  "keeps_avail f \<longleftrightarrow> (\<forall>d d'. f d = Some d' \<longrightarrow> avail d' = avail d)"

lemma keeps_avail_Init [simp]:
  "keeps_avail (Init_Code_Segment_Descriptor b n pl)"
  "keeps_avail (Init_Data_Segment_Descriptor b n pl)"
  "keeps_avail (\<lambda>d. Some (Init_TSS_Descriptor b d))"
  "keeps_avail (\<lambda>d. Some (Init_LDT_Descriptor b m d))"
  "keeps_avail (\<lambda>d. Some (d\<lparr>seg_type := ty\<rparr>))"
  by (auto simp: keeps_avail_def Init_Code_Segment_Descriptor_def Init_Data_Segment_Descriptor_def
      Init_TSS_Descriptor_def Init_LDT_Descriptor_def Set_Size_And_Base_Pages_def
      Set_Size_And_Base_Bytes_def Let_def bind_Some_iff)

lemma init_entry_ok:
  assumes "keeps_avail f" "init_entry f i s = Some s'"
  shows "gdt_used s' = gdt_used s" "gdt_ok s' = gdt_ok s"
proof -
  from assms(2) obtain d d' where d: "aget (s_GDT s) i = Some d" "f d = Some d'"
    and s': "s' = s\<lparr>s_GDT := (s_GDT s)[i := d']\<rparr>"
    by (auto simp: init_entry_def bind_Some_iff aset_eq_Some)
  with assms(1) have a: "avail d' = avail (s_GDT s ! i)" "i < length (s_GDT s)"
    by (auto simp: keeps_avail_def aget_eq_Some)
  show u: "gdt_used s' = gdt_used s"
    unfolding gdt_used_def s' using a by (auto simp: nth_list_update)
  show "gdt_ok s' = gdt_ok s" unfolding gdt_ok_def u unfolding s' by simp
qed

text \<open>What the users of the table do with it after the boot.\<close>

inductive gdt_reach :: "gdt \<Rightarrow> gdt \<Rightarrow> nat set \<Rightarrow> bool" for s0 where
  gdt_booted: "gdt_reach s0 s0 {}"
| gdt_alloc: "gdt_reach s0 s H \<Longrightarrow> Allocate_Segment_Descriptor s = Some (Some i, s') \<Longrightarrow> gdt_reach s0 s' (insert i H)"
| gdt_free: "gdt_reach s0 s H \<Longrightarrow> i \<in> H \<Longrightarrow> Free_Segment_Descriptor i s = Some s' \<Longrightarrow> gdt_reach s0 s' (H - {i})"
| gdt_write: "gdt_reach s0 s H \<Longrightarrow> i \<in> H \<Longrightarrow> keeps_avail f \<Longrightarrow> init_entry f i s = Some s' \<Longrightarrow> gdt_reach s0 s' H"

lemma gdt_reach_used:
  assumes "gdt_reach s0 s H" "gdt_ok s0"
  shows "gdt_ok s \<and> Suc ` gdt_used s = Suc ` gdt_used s0 \<union> H \<and> H \<inter> Suc ` gdt_used s0 = {} \<and> H \<subseteq> {1..15}"
  using assms
proof (induction rule: gdt_reach.induct)
  case (gdt_alloc s H i s')
  then have IH: "gdt_ok s" "Suc ` gdt_used s = Suc ` gdt_used s0 \<union> H" "H \<inter> Suc ` gdt_used s0 = {}" "H \<subseteq> {1..15}"
    by auto
  from Allocate_spec [OF IH(1)] gdt_alloc.hyps(2) obtain k where
    k: "i = Suc k" "k < 15" "k \<notin> gdt_used s" "gdt_used s' = insert k (gdt_used s)" "gdt_ok s'" by auto
  then have "i \<notin> Suc ` gdt_used s0 \<union> H" unfolding IH(2) [symmetric] by auto
  with IH k show ?case by auto
next
  case (gdt_free s H i s')
  then have IH: "gdt_ok s" "Suc ` gdt_used s = Suc ` gdt_used s0 \<union> H" "H \<inter> Suc ` gdt_used s0 = {}" "H \<subseteq> {1..15}"
    by auto
  obtain k where k: "i = Suc k" "k < 15" "k \<in> gdt_used s"
  proof -
    have "i \<in> Suc ` gdt_used s" using IH(2) gdt_free.hyps(2) by blast
    then show thesis using that by (auto simp: gdt_used_def)
  qed
  with gdt_release_spec [OF IH(1) k(2,3)] gdt_free.hyps(3)
  have "gdt_ok s'" "gdt_used s' = gdt_used s - {k}" by (auto simp: gdt_release_def)
  moreover have "Suc ` (gdt_used s - {k}) = Suc ` gdt_used s - {i}" unfolding k(1) by auto
  ultimately show ?case using IH gdt_free.hyps(2) by auto
next
  case (gdt_write s H i f s')
  with init_entry_ok [OF gdt_write.hyps(3,4)] show ?case by auto
qed auto


section \<open>The boot\<close>

lemma find_avail_rec: "find_avail ds i (Suc n) = (if avail (ds ! i) \<noteq> 0 then Some i else find_avail ds (Suc i) n)"
  by simp

lemma Allocate_lowest:
  assumes "gdt_ok s" "k < 15" "{..<k} \<subseteq> gdt_used s" "k \<notin> gdt_used s"
  shows "\<exists>s'. Allocate_Segment_Descriptor s = Some (Some (Suc k), s') \<and> gdt_ok s' \<and> gdt_used s' = insert k (gdt_used s)"
  using Allocate_spec [OF assms(1)] assms(2-4) by (metis lessThan_iff linorder_neqE_nat subsetD)

lemma init_entry_run:
  assumes "gdt_ok s" "i < 16" "f (s_GDT s ! i) = Some d" "keeps_avail f"
  shows "\<exists>s'. init_entry f i s = Some s' \<and> gdt_ok s' \<and> gdt_used s' = gdt_used s \<and> s_GDT s' = (s_GDT s)[i := d]"
proof -
  have "init_entry f i s = Some (s\<lparr>s_GDT := (s_GDT s)[i := d]\<rparr>)"
    using assms by (simp add: init_entry_def gdt_ok_def)
  with init_entry_ok [OF assms(4) this] assms(1) show ?thesis by auto
qed

lemma cleared_ok:
  assumes "length (s_GDT s) = 16" "s_numAllocated s = 0"
  shows "gdt_ok (s\<lparr>s_GDT := List.map clear_entry (s_GDT s)\<rparr>)" "gdt_used (s\<lparr>s_GDT := List.map clear_entry (s_GDT s)\<rparr>) = {}"
proof -
  show u: "gdt_used (s\<lparr>s_GDT := List.map clear_entry (s_GDT s)\<rparr>) = {}"
    using assms(1) by (auto simp: gdt_used_def clear_entry_def)
  show "gdt_ok (s\<lparr>s_GDT := List.map clear_entry (s_GDT s)\<rparr>)"
    unfolding gdt_ok_def u using assms by simp
qed

lemma Init_GDT_spec:
  assumes "length (s_GDT s) = 16" "s_numAllocated s = 0"
  shows "\<exists>s'. Init_GDT base s = Some ([128, ucast (base AND 0xffff), ucast (drop_bit 16 base)], s') \<and>
    gdt_ok s' \<and> gdt_used s' = {0, 1}"
proof -
  let ?s = "s\<lparr>s_GDT := List.map clear_entry (s_GDT s)\<rparr>"
  note c = cleared_ok [OF assms]
  from Allocate_lowest [OF c(1), of 0] c(2) obtain s1 where
    a1: "Allocate_Segment_Descriptor ?s = Some (Some 1, s1)" "gdt_ok s1" "gdt_used s1 = {0}" by auto
  have p: "(0 :: u32) < 0x100000" "(0x100000 :: u32) \<le> 0x100000" by simp_all
  from Set_Pages_spec [OF p, of 0 "s_GDT s1 ! 1"] obtain d1 where
    "Init_Code_Segment_Descriptor 0 0x100000 0 (s_GDT s1 ! 1) = Some d1"
    by (auto simp: Init_Code_Segment_Descriptor_def)
  from init_entry_run [where f = "Init_Code_Segment_Descriptor 0 0x100000 0" and i = 1, OF a1(2) _ this] obtain s2 where
    a2: "init_entry (Init_Code_Segment_Descriptor 0 0x100000 0) 1 s1 = Some s2" "gdt_ok s2" "gdt_used s2 = {0}"
    using a1(3) by auto
  from Allocate_lowest [OF a2(2), of 1] a2(3) obtain s3 where
    a3: "Allocate_Segment_Descriptor s2 = Some (Some 2, s3)" "gdt_ok s3" "gdt_used s3 = {0, 1}"
    by (auto simp: insert_commute numeral_2_eq_2)
  from Set_Pages_spec [OF p, of 0 "s_GDT s3 ! 2"] obtain d2 where
    "Init_Data_Segment_Descriptor 0 0x100000 0 (s_GDT s3 ! 2) = Some d2"
    by (auto simp: Init_Data_Segment_Descriptor_def)
  from init_entry_run [where f = "Init_Data_Segment_Descriptor 0 0x100000 0" and i = 2, OF a3(2) _ this] obtain s4 where
    a4: "init_entry (Init_Data_Segment_Descriptor 0 0x100000 0) 2 s3 = Some s4" "gdt_ok s4" "gdt_used s4 = {0, 1}"
    using a3(3) by auto
  show ?thesis
    using a1(1) a2(1) a3(1) a4 by (simp add: Init_GDT_def Get_Descriptor_Index_def Let_def)
qed


lemma Init_TSS_spec:
  assumes "gdt_ok s" "gdt_used s = {0, 1}"
  shows "\<exists>s'. Init_TSS a s = Some (24, s') \<and> gdt_ok s' \<and> gdt_used s' = {0, 1, 2} \<and>
    s_tssDesc s' = Some 3 \<and> seg_base (s_GDT s' ! 3) = a"
proof -
  from Allocate_lowest [OF assms(1), of 2] assms(2) obtain s1 where
    a1: "Allocate_Segment_Descriptor s = Some (Some 3, s1)" "gdt_ok s1" "gdt_used s1 = {0, 1, 2}"
    by (auto simp: insert_commute lessThan_Suc numeral_2_eq_2 numeral_3_eq_3)
  have sel: "Selector 0 True 3 = 24"
    using Selector_value [of 0 3 True] by (simp add: word_uint_eq_iff)
  define s2 where "s2 = s1\<lparr>s_tssDesc := Some 3, s_theTSS := \<lparr>esp0 = 0, ss0 = 0\<rparr>\<rparr>"
  have "gdt_ok s2" "gdt_used s2 = gdt_used s1" using a1(2) by (simp_all add: s2_def gdt_ok_def gdt_used_def)
  define D where "D = Init_TSS_Descriptor a (s_GDT s1 ! 3)"
  have D: "avail D = avail (s_GDT s1 ! 3)" "seg_base D = a" "D\<lparr>seg_type := 9\<rparr> = D"
    by (simp_all add: D_def Init_TSS_Descriptor_def Set_Bytes_spec)
  have l: "length (s_GDT s1) = 16" using a1(2) by (simp add: gdt_ok_def)
  let ?s = "s2\<lparr>s_tssSelector := 24, s_GDT := (s_GDT s1)[3 := D]\<rparr>"
  have "Init_TSS a s = Some (24, ?s)"
    using a1(1) l D(3) by (simp add: Init_TSS_def Load_Task_Register_def init_entry_def Let_def sel
        Get_Descriptor_Index_def D_def [symmetric] s2_def)
  moreover have u: "gdt_used ?s = gdt_used s1"
    using D(1) l by (auto simp: gdt_used_def nth_list_update)
  moreover have "gdt_ok ?s" using a1(2) unfolding gdt_ok_def u by (simp add: s2_def)
  ultimately show ?thesis using a1(3) D(2) l by (auto simp: s2_def)
qed

section \<open>Properties\<close>

text \<open>C38: A code or data segment descriptor denotes exactly the pages it was made for: for 1 to
  2^20 pages and a privilege level from 0 to 3 the initialisation succeeds, the processor reads
  back the given base address and privilege level, and the last byte of the segment is the last
  byte of its last page.  A count of zero or another privilege level fails the assertion.\<close>

theorem segment_covers_pages:
  "\<forall>f \<in> {Init_Code_Segment_Descriptor, Init_Data_Segment_Descriptor}.
     if 0 < n \<and> pl \<in> {0..3} then
       n \<le> 0x100000 \<longrightarrow>
         (\<exists>d'. f b n pl d = Some d' \<and> seg_base d' = b \<and> last_offset d' + 1 = unat n * 4096 \<and>
            uint (dpl d') = pl \<and> seg_present d' = 1 \<and> avail d' = avail d)
     else f b n pl d = None"
proof (cases "0 < n \<and> pl \<in> {0..3}")
  case True
  then have pl: "0 \<le> pl" "pl \<le> 3" by auto
  show ?thesis
    using True Set_Pages_spec [of n b d] dpl_value [OF pl]
    by (auto simp: Init_Code_Segment_Descriptor_def Init_Data_Segment_Descriptor_def bind_eq_Some_conv)
next
  case False
  then show ?thesis
    by (auto simp: Init_Code_Segment_Descriptor_def Init_Data_Segment_Descriptor_def Set_Size_And_Base_Pages_def)
qed

theorem segment_covers_pages_witness:
  "\<exists>d'. Init_Code_Segment_Descriptor 0x80000000 0x80000 3 null_descriptor = Some d' \<and>
     seg_base d' = 0x80000000 \<and> last_offset d' + 1 = 2 ^ 31 \<and> uint (dpl d') = 3"
  using segment_covers_pages [of "0x80000" 3 "0x80000000" null_descriptor] by auto

text \<open>C39: The boot puts the kernel's code and data segments at selectors 8 and 16 and the task
  state segment at 24.  From then on no descriptor is handed out twice, whatever sequence of
  allocations, initialisations and releases follows: the descriptors held are distinct from the
  kernel's own and from entry 0, the count of allocated descriptors is exact, an allocation
  fails only when all twelve remaining descriptors are held, and a held one can be released.\<close>

theorem descriptors_exclusive:
  assumes "length (s_GDT z) = NUM_GDT_ENTRIES" "s_numAllocated z = 0"
  shows "\<exists>l s0 s1. Init_GDT base z = Some (l, s0) \<and> Init_TSS a s0 = Some (24, s1) \<and>
    (\<forall>s H. gdt_reach s1 s H \<longrightarrow>
       H \<subseteq> {4..15} \<and> s_numAllocated s = 3 + int (card H) \<and>
       (\<exists>r s'. Allocate_Segment_Descriptor s = Some (r, s') \<and>
          (if H = {4..15} then r = None \<and> s' = s else \<exists>i \<in> {4..15} - H. r = Some i)) \<and>
       (\<forall>i \<in> H. \<exists>s'. Free_Segment_Descriptor i s = Some s' \<and> s_numAllocated s' = s_numAllocated s - 1))"
proof -
  from Init_GDT_spec [OF assms, of base] obtain l s0 where
    s0: "Init_GDT base z = Some (l, s0)" "gdt_ok s0" "gdt_used s0 = {0, 1}" by blast
  from Init_TSS_spec [OF s0(2,3), of a] obtain s1 where
    s1: "Init_TSS a s0 = Some (24, s1)" "gdt_ok s1" "gdt_used s1 = {0, 1, 2}" by (elim exE conjE)
  have "H \<subseteq> {4..15} \<and> s_numAllocated s = 3 + int (card H) \<and>
       (\<exists>r s'. Allocate_Segment_Descriptor s = Some (r, s') \<and>
          (if H = {4..15} then r = None \<and> s' = s else \<exists>i \<in> {4..15} - H. r = Some i)) \<and>
       (\<forall>i \<in> H. \<exists>s'. Free_Segment_Descriptor i s = Some s' \<and> s_numAllocated s' = s_numAllocated s - 1)"
    if "gdt_reach s1 s H" for s H
  proof -
    have 3: "Suc ` gdt_used s1 = {1, 2, 3}" unfolding s1(3) by (simp add: numeral_2_eq_2 numeral_3_eq_3)
    from gdt_reach_used [OF that s1(2), unfolded 3]
    obtain ok: "gdt_ok s" and u: "Suc ` gdt_used s = {1, 2, 3} \<union> H" "H \<inter> {1, 2, 3} = {}" "H \<subseteq> {1..15}"
      by (elim conjE)
    have h: "H \<subseteq> {4..15}" using u(2,3) by fastforce
    then have fin: "finite H" by (rule finite_subset) simp
    have "card (gdt_used s) = card (Suc ` gdt_used s)" by (simp add: card_image)
    also have "\<dots> = card {1 :: nat, 2, 3} + card H"
      unfolding u(1) using u(2) fin by (subst card_Un_disjoint) auto
    finally have c: "s_numAllocated s = 3 + int (card H)" using ok by (simp add: gdt_ok_def)
    have memb: "k \<in> gdt_used s \<longleftrightarrow> Suc k \<in> {1, 2, 3} \<union> H" for k
      unfolding u(1) [symmetric] by auto
    have al: "\<exists>r s'. Allocate_Segment_Descriptor s = Some (r, s') \<and>
          (if H = {4..15} then r = None \<and> s' = s else \<exists>i \<in> {4..15} - H. r = Some i)"
    proof -
      from Allocate_spec [OF ok] obtain r s' where rs: "Allocate_Segment_Descriptor s = Some (r, s')"
        "r = None \<and> s' = s \<and> {..<15} \<subseteq> gdt_used s \<or> (\<exists>k. r = Some (Suc k) \<and> k < 15 \<and> k \<notin> gdt_used s)"
        by auto
      from rs(2) show ?thesis
      proof (elim disjE exE conjE)
        assume all: "{..<15} \<subseteq> gdt_used s"
        have "i \<in> H" if "i \<in> {4..15}" for i
        proof -
          from that obtain k where k: "i = Suc k" "3 \<le> k" "k < 15" by (cases i) auto
          with all have "k \<in> gdt_used s" by auto
          with memb [of k] k show ?thesis by auto
        qed
        then have "{4..15} \<subseteq> H" by blast
        with h have "H = {4..15}" by blast
        moreover assume "r = None" "s' = s"
        ultimately show ?thesis using rs(1) by auto
      next
        fix k assume k: "r = Some (Suc k)" "k < 15" "k \<notin> gdt_used s"
        with memb [of k] have "Suc k \<in> {4..15} - H" by auto
        then show ?thesis using rs(1) k(1) by auto
      qed
    qed
    have fr: "\<exists>s'. Free_Segment_Descriptor i s = Some s' \<and> s_numAllocated s' = s_numAllocated s - 1"
      if "i \<in> H" for i
    proof -
      from that h obtain k where k: "i = Suc k" "k < 15" by (cases i) auto
      with that memb have "k \<in> gdt_used s" by auto
      from gdt_release_spec [OF ok k(2) this] obtain s' where
        "Free_Segment_Descriptor i s = Some s'" by (auto simp: gdt_release_def k(1))
      moreover from this have "s_numAllocated s' = s_numAllocated s - 1"
        by (auto simp: Free_Segment_Descriptor_def bind_Some_iff Let_def split: if_splits)
      ultimately show ?thesis by blast
    qed
    show ?thesis using h c al fr by blast
  qed
  with s0(1) s1(1) show ?thesis by blast
qed

definition sample_gdt :: gdt where
  "sample_gdt = \<lparr>int_flag = False, s_GDT = replicate 16 null_descriptor, s_numAllocated = 0,
     s_theTSS = \<lparr>esp0 = 0, ss0 = 0\<rparr>, s_tssDesc = None, s_tssSelector = 0\<rparr>"

theorem descriptors_exclusive_witness:
  "\<exists>l s0 s1. Init_GDT 0x10000 sample_gdt = Some (l, s0) \<and> Init_TSS 0x20000 s0 = Some (24, s1) \<and>
    gdt_reach s1 s1 {} \<and> (\<exists>i s'. Allocate_Segment_Descriptor s1 = Some (Some i, s') \<and> i \<in> {4..15})"
proof -
  have "length (s_GDT sample_gdt) = NUM_GDT_ENTRIES" "s_numAllocated sample_gdt = 0"
    by (simp_all add: sample_gdt_def)
  note ex = descriptors_exclusive [OF this, of "0x10000" "0x20000"]
  show ?thesis
  proof (rule exE [OF ex], elim exE conjE)
    fix l s0 s1
    assume s: "Init_GDT 0x10000 sample_gdt = Some (l, s0)" "Init_TSS 0x20000 s0 = Some (24, s1)"
    assume "\<forall>s H. gdt_reach s1 s H \<longrightarrow>
       H \<subseteq> {4..15} \<and> s_numAllocated s = 3 + int (card H) \<and>
       (\<exists>r s'. Allocate_Segment_Descriptor s = Some (r, s') \<and>
          (if H = {4..15} then r = None \<and> s' = s else \<exists>i \<in> {4..15} - H. r = Some i)) \<and>
       (\<forall>i \<in> H. \<exists>s'. Free_Segment_Descriptor i s = Some s' \<and> s_numAllocated s' = s_numAllocated s - 1)"
    from this [rule_format, OF gdt_booted]
    have "\<exists>i s'. Allocate_Segment_Descriptor s1 = Some (Some i, s') \<and> i \<in> {4..15}" by auto
    with s gdt_booted [of s1] show ?thesis by (elim exE) (intro exI conjI; assumption | elim conjE)+
  qed
qed

end
