(* ===== verification/Irq.thy ===== *)
theory Irq
  imports Machine
begin

text \<open>
  The device drivers' interface to the interrupt controllers, \<open>geekos/irq.c\<close>.  Each of the two
  controllers has a mask register that \<open>Out_Byte\<close> to port \<open>0x21\<close> or \<open>0xA1\<close> sets; commands to
  ports \<open>0x20\<close> and \<open>0xA0\<close> are recorded in the order they are sent.
\<close>

record pic = machine +
  s_irqMask :: u16
  port21 :: u8
  portA1 :: u8
  commands :: "(u16 \<times> u8) list"

definition Out_Byte :: "u16 \<Rightarrow> u8 \<Rightarrow> pic \<Rightarrow> pic" where
  "Out_Byte port v s =
     (if port = 0x21 then s\<lparr>port21 := v\<rparr>
      else if port = 0xA1 then s\<lparr>portA1 := v\<rparr>
      else s\<lparr>commands := commands s @ [(port, v)]\<rparr>)"

definition MASTER :: "u16 \<Rightarrow> u8" where
  "MASTER m = ucast (m AND 0xff)"

definition SLAVE :: "u16 \<Rightarrow> u8" where
  "SLAVE m = ucast (drop_bit 8 m AND 0xff)"

definition Get_IRQ_Mask :: "pic \<Rightarrow> u16" where
  "Get_IRQ_Mask s = s_irqMask s"

definition Set_IRQ_Mask :: "u16 \<Rightarrow> pic \<Rightarrow> pic" where
  "Set_IRQ_Mask m s =
     (let oldMask = MASTER (s_irqMask s); newMask = MASTER m;
          s = (if newMask \<noteq> oldMask then Out_Byte 0x21 newMask s else s);
          oldMask = SLAVE (s_irqMask s); newMask = SLAVE m;
          s = (if newMask \<noteq> oldMask then Out_Byte 0xA1 newMask s else s)
      in s\<lparr>s_irqMask := m\<rparr>)"

definition Enable_IRQ :: "int \<Rightarrow> pic \<Rightarrow> pic kres" where
  "Enable_IRQ irq s = do {
     (iflag, s) \<leftarrow> Begin_Int_Atomic s;
     KASSERT (irq \<ge> 0 \<and> irq < 16);
     let m = Get_IRQ_Mask s AND ucast (NOT (push_bit (nat irq) (1 :: u32)));
     let s = Set_IRQ_Mask m s;
     End_Int_Atomic iflag s }"

definition Disable_IRQ :: "int \<Rightarrow> pic \<Rightarrow> pic kres" where
  "Disable_IRQ irq s = do {
     (iflag, s) \<leftarrow> Begin_Int_Atomic s;
     KASSERT (irq \<ge> 0 \<and> irq < 16);
     let m = Get_IRQ_Mask s OR ucast (push_bit (nat irq) (1 :: u32));
     let s = Set_IRQ_Mask m s;
     End_Int_Atomic iflag s }"

abbreviation (input) "FIRST_EXTERNAL_INT \<equiv> 32 :: int"

text \<open>The end of an interrupt: the line's number goes to its controller, the cascade line's to the first.\<close>

definition End_IRQ :: "int \<Rightarrow> pic \<Rightarrow> pic" where
  "End_IRQ intNum s =
     (let irq = intNum - FIRST_EXTERNAL_INT; command = 0x60 OR (word_of_int irq AND 0x7)
      in if irq < 8 then Out_Byte 0x20 command s
         else Out_Byte 0x20 0x62 (Out_Byte 0xA0 command s))"

section \<open>The controllers and the kernel's copy\<close>

text \<open>A line is enabled if its bit in its controller's register is clear.\<close>

definition line_enabled :: "pic \<Rightarrow> nat \<Rightarrow> bool" where
  "line_enabled s j \<longleftrightarrow> (if j < 8 then \<not> bit (port21 s) j else \<not> bit (portA1 s) (j - 8))"

definition in_step :: "pic \<Rightarrow> bool" where
  "in_step s \<longleftrightarrow> port21 s = MASTER (s_irqMask s) \<and> portA1 s = SLAVE (s_irqMask s)"

inductive pic_reach :: "pic \<Rightarrow> bool" where
  pic_boot: "s_irqMask s = 0xfffb \<Longrightarrow> port21 s = 0xfb \<Longrightarrow> portA1 s = 0xff \<Longrightarrow> pic_reach s"
| pic_set: "pic_reach s \<Longrightarrow> pic_reach (Set_IRQ_Mask m s)"
| pic_enable: "pic_reach s \<Longrightarrow> Enable_IRQ i s = Some s' \<Longrightarrow> pic_reach s'"
| pic_disable: "pic_reach s \<Longrightarrow> Disable_IRQ i s = Some s' \<Longrightarrow> pic_reach s'"
| pic_end: "pic_reach s \<Longrightarrow> pic_reach (End_IRQ n s)"
| pic_flag: "pic_reach s \<Longrightarrow> pic_reach (s\<lparr>int_flag := b\<rparr>)"

lemma Out_Byte_simps [simp]:
  "s_irqMask (Out_Byte p v s) = s_irqMask s" "int_flag (Out_Byte p v s) = int_flag s"
  "port21 (Out_Byte 0x21 v s) = v" "portA1 (Out_Byte 0xA1 v s) = v"
  "portA1 (Out_Byte 0x21 v s) = portA1 s" "port21 (Out_Byte 0xA1 v s) = port21 s"
  "port21 (Out_Byte 0x20 v s) = port21 s" "portA1 (Out_Byte 0x20 v s) = portA1 s"
  "port21 (Out_Byte 0xA0 v s) = port21 s" "portA1 (Out_Byte 0xA0 v s) = portA1 s"
  by (simp_all add: Out_Byte_def)

lemma Set_IRQ_Mask_simps [simp]:
  "s_irqMask (Set_IRQ_Mask m s) = m" "int_flag (Set_IRQ_Mask m s) = int_flag s"
  by (simp_all add: Set_IRQ_Mask_def Let_def)

lemma Set_in_step: "in_step s \<Longrightarrow> in_step (Set_IRQ_Mask m s)"
  by (auto simp: in_step_def Set_IRQ_Mask_def Let_def)

lemma in_step_flag [simp]: "in_step (s\<lparr>int_flag := b\<rparr>) = in_step s"
  by (simp add: in_step_def)

lemma Enable_eq:
  "Enable_IRQ i s = (if 0 \<le> i \<and> i < 16
     then Some ((Set_IRQ_Mask (s_irqMask s AND ucast (NOT (push_bit (nat i) (1 :: u32)))) (s\<lparr>int_flag := False\<rparr>))
       \<lparr>int_flag := int_flag s\<rparr>) else None)"
  by (simp add: Enable_IRQ_def Get_IRQ_Mask_def Let_def)

lemma Disable_eq:
  "Disable_IRQ i s = (if 0 \<le> i \<and> i < 16
     then Some ((Set_IRQ_Mask (s_irqMask s OR ucast (push_bit (nat i) (1 :: u32))) (s\<lparr>int_flag := False\<rparr>))
       \<lparr>int_flag := int_flag s\<rparr>) else None)"
  by (simp add: Disable_IRQ_def Get_IRQ_Mask_def Let_def)

lemma End_in_step: "in_step s \<Longrightarrow> in_step (End_IRQ n s)"
  by (simp add: in_step_def End_IRQ_def Let_def)

lemma pic_reach_in_step: "pic_reach s \<Longrightarrow> in_step s"
proof (induction rule: pic_reach.induct)
  case (pic_boot s)
  then show ?case by (simp add: in_step_def MASTER_def SLAVE_def)
next
  case (pic_enable s i s')
  then show ?case by (auto simp: Enable_eq Set_in_step split: if_splits)
next
  case (pic_disable s i s')
  then show ?case by (auto simp: Disable_eq Set_in_step split: if_splits)
qed (simp_all add: Set_in_step End_in_step)

lemma bit_MASTER: "bit (MASTER m) j \<longleftrightarrow> j < 8 \<and> bit m j"
proof -
  have "m AND 0xff = take_bit 8 m" by (simp add: take_bit_eq_mask mask_eq_exp_minus_1)
  then show ?thesis by (auto simp: MASTER_def bit_ucast_iff bit_take_bit_iff)
qed

lemma bit_SLAVE: "bit (SLAVE m) j \<longleftrightarrow> j < 8 \<and> bit m (8 + j)"
proof -
  have "drop_bit 8 m AND 0xff = take_bit 8 (drop_bit 8 m)" by (simp add: take_bit_eq_mask mask_eq_exp_minus_1)
  then show ?thesis by (auto simp: SLAVE_def bit_ucast_iff bit_take_bit_iff bit_drop_bit_eq)
qed

lemma line_of_mask:
  assumes "in_step s" "j < 16"
  shows "line_enabled s j \<longleftrightarrow> \<not> bit (s_irqMask s) j"
  using assms by (auto simp: line_enabled_def in_step_def bit_MASTER bit_SLAVE)

section \<open>Properties\<close>

text \<open>The kernel's copy of the interrupt mask and the two controllers never disagree: after any
  sequence of the operations, enabling a line enables exactly that line and disabling it
  disables exactly that line, at the controllers, with the processor's interrupt flag as before;
  a line number that is not from 0 to 15 fails the assertion.\<close>

theorem interrupt_lines:
  assumes "pic_reach s"
  shows "(\<forall>j < 16. line_enabled s j \<longleftrightarrow> \<not> bit (Get_IRQ_Mask s) j) \<and>
    (if 0 \<le> i \<and> i < 16 then
       (\<exists>s'. Enable_IRQ i s = Some s' \<and> int_flag s' = int_flag s \<and>
          (\<forall>j < 16. line_enabled s' j \<longleftrightarrow> int j = i \<or> line_enabled s j)) \<and>
       (\<exists>s'. Disable_IRQ i s = Some s' \<and> int_flag s' = int_flag s \<and>
          (\<forall>j < 16. line_enabled s' j \<longleftrightarrow> int j \<noteq> i \<and> line_enabled s j))
     else Enable_IRQ i s = None \<and> Disable_IRQ i s = None)"
proof (cases "0 \<le> i \<and> i < 16")
  case True
  note st = pic_reach_in_step [OF assms]
  obtain e where e: "Enable_IRQ i s = Some e" using True by (simp add: Enable_eq)
  obtain d where d: "Disable_IRQ i s = Some d" using True by (simp add: Disable_eq)
  from pic_reach_in_step [OF pic_enable [OF assms e]] pic_reach_in_step [OF pic_disable [OF assms d]]
  have se: "in_step e" and sd: "in_step d" by auto
  have me: "s_irqMask e = s_irqMask s AND ucast (NOT (push_bit (nat i) (1 :: u32)))" "int_flag e = int_flag s"
    using e True by (auto simp: Enable_eq)
  have md: "s_irqMask d = s_irqMask s OR ucast (push_bit (nat i) (1 :: u32))" "int_flag d = int_flag s"
    using d True by (auto simp: Disable_eq)
  have "line_enabled e j \<longleftrightarrow> int j = i \<or> line_enabled s j" if "j < 16" for j
    unfolding line_of_mask [OF se that] line_of_mask [OF st that] me(1)
    using that True by (auto simp: bit_and_iff bit_ucast_iff bit_not_iff bit_push_bit_iff bit_1_iff bit_exp_iff possible_bit_def)
  moreover have "line_enabled d j \<longleftrightarrow> int j \<noteq> i \<and> line_enabled s j" if "j < 16" for j
    unfolding line_of_mask [OF sd that] line_of_mask [OF st that] md(1)
    using that True by (auto simp: bit_or_iff bit_ucast_iff bit_push_bit_iff bit_1_iff bit_exp_iff possible_bit_def)
  ultimately show ?thesis
    using e d me(2) md(2) line_of_mask [OF st] True by (simp add: Get_IRQ_Mask_def)
next
  case False
  then show ?thesis
    using line_of_mask [OF pic_reach_in_step [OF assms]]
    by (auto simp: Enable_eq Disable_eq Get_IRQ_Mask_def)
qed

definition sample_pic :: pic where
  "sample_pic = \<lparr>int_flag = True, s_irqMask = 0xfffb, port21 = 0xfb, portA1 = 0xff, commands = []\<rparr>"

theorem interrupt_lines_witness:
  "\<exists>s'. Enable_IRQ 14 sample_pic = Some s' \<and> line_enabled s' 14 \<and> line_enabled s' 2 \<and> \<not> line_enabled s' 0"
proof -
  have "pic_reach sample_pic" by (rule pic_boot) (simp_all add: sample_pic_def)
  from interrupt_lines [OF this, of 14] obtain s' where
    "Enable_IRQ 14 sample_pic = Some s'"
    "\<forall>j < 16. line_enabled s' j \<longleftrightarrow> int j = 14 \<or> line_enabled sample_pic j" by auto
  moreover have "line_enabled sample_pic 2" "\<not> line_enabled sample_pic 0"
    by (simp_all add: line_enabled_def sample_pic_def)
  ultimately show ?thesis by auto
qed

end
