(* ===== verification/Path.thy ===== *)
theory Path
  imports Prelude
begin

text \<open>
  Paths, \<open>Unpack_Path\<close> of \<open>geekos/vfs.c\<close>.  A string of the file system code is the list of its
  bytes before the terminating zero; what the routines of \<open>CString\<close> do with the bytes in memory is,
  on these values, equality, concatenation and search.  A copy into an array that is too small
  stops the machine.
\<close>

type_synonym cstr = "u8 list"

abbreviation (input) "SLASH \<equiv> 0x2F :: u8"
abbreviation (input) "DOT \<equiv> 0x2E :: u8"
abbreviation (input) "MAX_PREFIX_LEN \<equiv> 16 :: nat"
abbreviation (input) "VFS_MAX_PATH_LEN \<equiv> 1023 :: nat"

text \<open>A range of sectors registered for paging, \<open>struct Paging_Device\<close> of \<open>include/geekos/vfs.h\<close>.\<close>

record Paging_Device =
  pd_fileName :: cstr
  pd_dev :: u32
  pd_startSector :: u32
  pd_numSectors :: u32

text \<open>Copying a string into an array of \<open>n\<close> bytes.\<close>

definition copy_str :: "nat \<Rightarrow> cstr \<Rightarrow> cstr kres" where
  "copy_str n xs = do { KASSERT (length xs < n); Some xs }"

lemma copy_str_ok [simp]: "length xs < n \<Longrightarrow> copy_str n xs = Some xs"
  by (simp add: copy_str_def)

lemma copy_str_Some [kassert_simps]: "copy_str n xs = Some ys \<longleftrightarrow> length xs < n \<and> ys = xs"
  by (auto simp: copy_str_def)

text \<open>Result: whether the path is valid, and then prefix and suffix.\<close>

definition Unpack_Path :: "cstr \<Rightarrow> (cstr \<times> cstr) option kres" where
  "Unpack_Path path =
     (case path of
        [] \<Rightarrow> Some None
      | x # path \<Rightarrow>
          if x \<noteq> SLASH then Some None
          else do {
            r \<leftarrow> (if SLASH \<notin> set path then do {
                    let pfxLen = length path;
                    if pfxLen = 0 \<or> pfxLen > MAX_PREFIX_LEN then Some None
                    else do { prefix \<leftarrow> copy_str (MAX_PREFIX_LEN + 1) path; Some (Some (prefix, [SLASH])) } }
                  else do {
                    let pfxLen = length (takeWhile (\<lambda>b. b \<noteq> SLASH) path);
                    if pfxLen = 0 \<or> pfxLen > MAX_PREFIX_LEN then Some None
                    else Some (Some (take pfxLen path, drop pfxLen path)) });
            case r of None \<Rightarrow> Some None
            | Some (prefix, suffix) \<Rightarrow> do { KASSERT (suffix \<noteq> [] \<and> hd suffix = SLASH); Some (Some (prefix, suffix)) } })"

section \<open>Components\<close>

text \<open>The path of a list of components, and the components the code can handle.\<close>

definition join :: "cstr list \<Rightarrow> cstr" where
  "join cs = concat (List.map (\<lambda>c. SLASH # c) cs)"

definition good_name :: "cstr \<Rightarrow> bool" where
  "good_name c \<longleftrightarrow> c \<noteq> [] \<and> SLASH \<notin> set c \<and> length c \<le> MAX_PREFIX_LEN"

definition join_or_root :: "cstr list \<Rightarrow> cstr" where
  "join_or_root cs = (if cs = [] then [SLASH] else join cs)"

lemma join_simps [simp]: "join [] = []" "join (c # cs) = SLASH # c @ join cs" "join (as @ bs) = join as @ join bs"
  by (simp_all add: join_def)

lemma join_eq_Nil [simp]: "join cs = [] \<longleftrightarrow> cs = []"
  by (cases cs) simp_all

lemma takeWhile_until: "z \<notin> set xs \<Longrightarrow> takeWhile (\<lambda>b. b \<noteq> z) (xs @ z # ys) = xs"
  by (induction xs) auto

lemma takeWhile_app_slash: "SLASH \<notin> set c \<Longrightarrow> takeWhile (\<lambda>b. b \<noteq> SLASH) (c @ SLASH # xs) = c"
  by (rule takeWhile_until)

lemma Unpack_join:
  assumes "good_name c"
  shows "Unpack_Path (join (c # cs)) = Some (Some (c, join_or_root cs))"
proof (cases cs)
  case Nil
  then show ?thesis using assms by (simp add: Unpack_Path_def good_name_def join_or_root_def Let_def)
next
  case (Cons d ds)
  have "takeWhile (\<lambda>b. b \<noteq> SLASH) (c @ join cs) = c"
    using assms by (simp add: Cons good_name_def takeWhile_app_slash)
  then show ?thesis
    using assms Cons by (simp add: Unpack_Path_def good_name_def join_or_root_def Let_def)
qed

lemma join_or_root_root: "\<forall>c \<in> set cs. good_name c \<Longrightarrow> join_or_root cs = [SLASH] \<longleftrightarrow> cs = []"
  by (cases cs) (auto simp: join_or_root_def good_name_def)

text \<open>The parts of a valid path.\<close>

lemma Unpack_parts:
  assumes "Unpack_Path path = Some (Some (prefix, suffix))"
  shows "good_name prefix \<and> hd suffix = SLASH \<and> (path = SLASH # prefix \<and> suffix = [SLASH] \<or> path = SLASH # prefix @ suffix)"
proof (cases path)
  case (Cons x xs)
  with assms have x: "x = SLASH" by (auto simp: Unpack_Path_def split: if_splits)
  show ?thesis
  proof (cases "SLASH \<in> set xs")
    case False
    then show ?thesis using assms Cons x
      by (auto simp: Unpack_Path_def Let_def good_name_def split: if_splits)
  next
    case True
    let ?p = "takeWhile (\<lambda>b. b \<noteq> SLASH) xs"
    have tk: "take (length ?p) xs = ?p" by (metis takeWhile_eq_take)
    have "Unpack_Path path = (if length ?p = 0 \<or> length ?p > 16 then Some None
        else do { KASSERT (drop (length ?p) xs \<noteq> [] \<and> hd (drop (length ?p) xs) = SLASH); Some (Some (?p, drop (length ?p) xs)) })"
      using True by (simp add: Unpack_Path_def Cons x tk Let_def)
    then have p: "prefix = ?p" "suffix = drop (length ?p) xs" "0 < length ?p" "length ?p \<le> 16" "hd suffix = SLASH"
      unfolding assms by (simp_all split: if_splits)
    have "SLASH \<notin> set ?p" by (auto dest: set_takeWhileD)
    with p(1,3,4) have "good_name prefix" unfolding good_name_def by auto
    moreover have "xs = prefix @ suffix" using p(1,2) tk by (metis append_take_drop_id)
    with Cons x have "path = SLASH # prefix @ suffix" by (simp only:)
    ultimately show ?thesis using p(5) by blast
  qed
qed (use assms in \<open>simp add: Unpack_Path_def\<close>)

lemma Unpack_total: "\<exists>r. Unpack_Path path = Some r"
proof (cases path)
  case (Cons x xs)
  have "hd (drop (length (takeWhile (\<lambda>b. b \<noteq> SLASH) xs)) xs) = SLASH \<and>
      drop (length (takeWhile (\<lambda>b. b \<noteq> SLASH) xs)) xs \<noteq> []" if "SLASH \<in> set xs"
    using that by (induction xs) auto
  then show ?thesis using Cons by (auto simp: Unpack_Path_def Let_def)
qed (simp add: Unpack_Path_def)

end
