(* ===== verification/Dirent.thy ===== *)
theory Dirent
  imports Bytes Machine Path
begin

text \<open>
  Directory entries of the GeekOS file system, \<open>struct GOSFS_Dir_Entry\<close> of
  \<open>include/geekos/gosfs.h\<close>, as they lie in a block: 216 bytes, of which 18 fit into a block of
  4096.  Reading and writing a field of an entry in a buffer is reading the entry, and writing it
  with that field replaced.
\<close>

record dentry =
  dsize :: u32
  dflags :: u32
  filename :: "u8 list"
  blockList :: "u32 list"
  acl :: "u32 list"

abbreviation (input) "ENTRY_SIZE \<equiv> 216 :: nat"
abbreviation (input) "GOSFS_DIR_ENTRIES_PER_BLOCK \<equiv> 18 :: nat"
abbreviation (input) "GOSFS_FILENAME_MAX \<equiv> 127 :: nat"

definition entry_ok :: "dentry \<Rightarrow> bool" where
  "entry_ok e \<longleftrightarrow> length (filename e) = GOSFS_FILENAME_MAX + 1 \<and> length (blockList e) = 10 \<and> length (acl e) = 10"

section \<open>Layout\<close>

definition word_bytes :: "u32 list \<Rightarrow> u8 list" where
  "word_bytes ws = concat (List.map le_bytes ws)"

fun bytes_words :: "nat \<Rightarrow> u8 list \<Rightarrow> u32 list" where
  "bytes_words 0 bs = []"
| "bytes_words (Suc n) bs = le_word (take 4 bs) # bytes_words n (drop 4 bs)"

definition enc_entry :: "dentry \<Rightarrow> u8 list" where
  "enc_entry e = le_bytes (dsize e) @ le_bytes (dflags e) @ filename e @ word_bytes (blockList e) @ word_bytes (acl e)"

definition dec_entry :: "u8 list \<Rightarrow> dentry" where
  "dec_entry bs = \<lparr>dsize = le_word (take 4 bs), dflags = le_word (take 4 (drop 4 bs)), filename = take 128 (drop 8 bs),
     blockList = bytes_words 10 (drop 136 bs), acl = bytes_words 10 (drop 176 bs)\<rparr>"

lemma length_word_bytes [simp]: "length (word_bytes ws) = 4 * length ws"
  by (induction ws) (simp_all add: word_bytes_def)

lemma word_bytes_Cons [simp]: "word_bytes (w # ws) = le_bytes w @ word_bytes ws" "word_bytes [] = []"
  by (simp_all add: word_bytes_def)

lemma bytes_words_inv: "bytes_words (length ws) (word_bytes ws @ rest) = ws"
  by (induction ws) simp_all

lemma length_bytes_words [simp]: "length (bytes_words n bs) = n"
  by (induction n arbitrary: bs) simp_all

lemma word_bytes_inv: "4 * n \<le> length bs \<Longrightarrow> word_bytes (bytes_words n bs) = take (4 * n) bs"
proof (induction n arbitrary: bs)
  case (Suc n)
  then have "le_bytes (le_word (take 4 bs)) = take 4 bs" by (intro le_bytes_le_word) simp
  moreover have "take (4 + 4 * n) bs = take 4 bs @ take (4 * n) (drop 4 bs)" by (simp add: take_add)
  ultimately show ?case using Suc by simp
qed simp

lemma length_enc_entry [simp]: "entry_ok e \<Longrightarrow> length (enc_entry e) = ENTRY_SIZE"
  by (simp add: enc_entry_def entry_ok_def)

lemma entry_ok_dec [simp]: "length bs = ENTRY_SIZE \<Longrightarrow> entry_ok (dec_entry bs)"
  by (simp add: dec_entry_def entry_ok_def)

lemma dec_enc [simp]:
  assumes "entry_ok e"
  shows "dec_entry (enc_entry e) = e"
proof -
  have l: "length (filename e) = 128" "length (blockList e) = 10" "length (acl e) = 10"
    using assms by (simp_all add: entry_ok_def)
  have "bytes_words 10 (word_bytes (blockList e) @ word_bytes (acl e)) = blockList e"
    using bytes_words_inv [of "blockList e"] l by simp
  moreover have "bytes_words 10 (word_bytes (acl e)) = acl e"
    using bytes_words_inv [of "acl e" "[]"] l by simp
  ultimately show ?thesis using l by (simp add: dec_entry_def enc_entry_def)
qed

lemma enc_dec [simp]:
  assumes "length bs = ENTRY_SIZE"
  shows "enc_entry (dec_entry bs) = bs"
proof -
  have "le_bytes (le_word (take 4 bs)) = take 4 bs" "le_bytes (le_word (take 4 (drop 4 bs))) = take 4 (drop 4 bs)"
    using assms by (simp_all add: le_bytes_le_word)
  moreover have "word_bytes (bytes_words 10 (drop 136 bs)) = take 40 (drop 136 bs)"
    "word_bytes (bytes_words 10 (drop 176 bs)) = drop 176 bs"
    using assms by (simp_all add: word_bytes_inv)
  moreover have "take 4 bs @ take 4 (drop 4 bs) @ take 128 (drop 8 bs) @ take 40 (drop 136 bs) @ drop 176 bs = bs"
  proof -
    have "take 40 (drop 136 bs) @ drop 176 bs = drop 136 bs" using append_take_drop_id [of 40 "drop 136 bs"] by simp
    moreover have "take 128 (drop 8 bs) @ drop 136 bs = drop 8 bs" using append_take_drop_id [of 128 "drop 8 bs"] by simp
    moreover have "take 4 (drop 4 bs) @ drop 8 bs = drop 4 bs" using append_take_drop_id [of 4 "drop 4 bs"] by simp
    ultimately show ?thesis using append_take_drop_id [of 4 bs] by simp
  qed
  ultimately show ?thesis by (simp add: enc_entry_def dec_entry_def)
qed

section \<open>Entries of a block\<close>

definition get_entry :: "u8 list \<Rightarrow> int \<Rightarrow> dentry kres" where
  "get_entry data i = (if i < 0 then None else map_option dec_entry (get_bytes data (ENTRY_SIZE * nat i) ENTRY_SIZE))"

definition put_entry :: "u8 list \<Rightarrow> int \<Rightarrow> dentry \<Rightarrow> u8 list kres" where
  "put_entry data i e = (if i < 0 then None else put_bytes data (ENTRY_SIZE * nat i) (enc_entry e))"

definition entry :: "u8 list \<Rightarrow> nat \<Rightarrow> dentry" where
  "entry data i = dec_entry (take ENTRY_SIZE (drop (ENTRY_SIZE * i) data))"

definition entries :: "u8 list \<Rightarrow> dentry list" where
  "entries data = List.map (entry data) [0..<GOSFS_DIR_ENTRIES_PER_BLOCK]"

text \<open>The terminated string in the array \<open>filename\<close>.\<close>

definition name_of :: "dentry \<Rightarrow> cstr kres" where
  "name_of e = (if 0 \<in> set (filename e) then Some (takeWhile (\<lambda>b. b \<noteq> 0) (filename e)) else None)"

definition set_name :: "cstr \<Rightarrow> dentry \<Rightarrow> dentry kres" where
  "set_name n e = do { n \<leftarrow> copy_str (GOSFS_FILENAME_MAX + 1) n;
     Some (e\<lparr>filename := n @ [0] @ drop (length n + 1) (filename e)\<rparr>) }"

definition block0 :: "dentry \<Rightarrow> u32" where
  "block0 e = blockList e ! 0"

definition set_block0 :: "u32 \<Rightarrow> dentry \<Rightarrow> dentry" where
  "set_block0 b e = e\<lparr>blockList := (blockList e)[0 := b]\<rparr>"

lemma length_entries [simp]: "length (entries data) = 18"
  by (simp add: entries_def)

lemma nth_entries [simp]: "i < 18 \<Longrightarrow> entries data ! i = entry data i"
  by (simp add: entries_def)

lemma entry_ok_entry [simp]: "length data = 4096 \<Longrightarrow> i < 18 \<Longrightarrow> entry_ok (entry data i)"
  by (simp add: entry_def)

lemma get_entry_in [simp]: "length data = 4096 \<Longrightarrow> i < 18 \<Longrightarrow> get_entry data (int i) = Some (entry data i)"
  by (simp add: get_entry_def get_bytes_def entry_def)

lemma get_entry_out: "length data = 4096 \<Longrightarrow> i < 0 \<or> 18 \<le> i \<Longrightarrow> get_entry data i = None"
  by (auto simp: get_entry_def get_bytes_def)

lemma put_entry_in:
  assumes "length data = 4096" "i < 18" "entry_ok e"
  shows "\<exists>data'. put_entry data (int i) e = Some data' \<and> length data' = 4096 \<and> entry data' i = e \<and>
    (\<forall>j < 18. j \<noteq> i \<longrightarrow> entry data' j = entry data j) \<and> entries data' = (entries data)[i := e]"
proof -
  obtain data' where p: "put_bytes data (216 * i) (enc_entry e) = Some data'"
    using assms by (simp add: put_bytes_def)
  have l: "length data' = 4096" using put_bytes_Some [OF p] assms(1) by simp
  have e: "entry data' i = e"
    using get_bytes_put_bytes [OF p] assms l by (simp add: get_bytes_def entry_def)
  have o: "entry data' j = entry data j" if "j < 18" "j \<noteq> i" for j
  proof -
    have "216 * j + 216 \<le> 216 * i \<or> 216 * i + length (enc_entry e) \<le> 216 * j" using that(2) assms(3) by auto
    from get_bytes_other [OF p this] show ?thesis using that assms(1) l by (simp add: get_bytes_def entry_def)
  qed
  have "entries data' ! j = (entries data)[i := e] ! j" if "j < 18" for j
    using that by (cases "j = i") (simp_all add: e o)
  then have "entries data' = (entries data)[i := e]" by (intro nth_equalityI) simp_all
  with p l e o show ?thesis by (simp add: put_entry_def)
qed

lemma put_entry_out:
  "length data = 4096 \<Longrightarrow> entry_ok e \<Longrightarrow> i < 0 \<or> 18 \<le> i \<Longrightarrow> put_entry data i e = None"
  by (auto simp: put_entry_def put_bytes_def)

lemma set_name_ok:
  assumes "entry_ok e" "length n \<le> 127" "0 \<notin> set n"
  shows "\<exists>e'. set_name n e = Some e' \<and> entry_ok e' \<and> name_of e' = Some n \<and> dflags e' = dflags e \<and> dsize e' = dsize e \<and>
    blockList e' = blockList e \<and> acl e' = acl e"
  using assms by (simp add: set_name_def entry_ok_def name_of_def takeWhile_until)

lemma set_block0_simps [simp]:
  "entry_ok (set_block0 b e) = entry_ok e" "entry_ok e \<Longrightarrow> block0 (set_block0 b e) = b"
  "dflags (set_block0 b e) = dflags e" "name_of (set_block0 b e) = name_of e" "filename (set_block0 b e) = filename e"
  "dsize (set_block0 b e) = dsize e"
  by (auto simp: set_block0_def entry_ok_def block0_def name_of_def)

lemma entry_upd_simps [simp]:
  "entry_ok (e\<lparr>dflags := f\<rparr>) = entry_ok e" "entry_ok (e\<lparr>dsize := z\<rparr>) = entry_ok e"
  "name_of (e\<lparr>dflags := f\<rparr>) = name_of e" "name_of (e\<lparr>dsize := z\<rparr>) = name_of e"
  "name_of (e\<lparr>acl := a\<rparr>) = name_of e"
  "block0 (e\<lparr>dflags := f\<rparr>) = block0 e" "block0 (e\<lparr>dsize := z\<rparr>) = block0 e" "block0 (e\<lparr>acl := a\<rparr>) = block0 e"
  by (simp_all add: entry_ok_def name_of_def block0_def)

end
