(* ===== verification/Gosfs.thy ===== *)
theory Gosfs
  imports BufCache Dirent Bitset
begin

text \<open>
  The GeekOS file system, \<open>geekos/gosfs.c\<close>, on the buffer cache (\<open>BufCache\<close>): directories are
  blocks of 18 entries (\<open>Dirent\<close>), block 0 is the superblock with the block bitmap, whose buffer is
  held for as long as the file system is mounted.

  The operations are run by one thread at a time, so a wait for a buffer that is in use never ends.
  What the code leaves to chance is collected in \<open>gosfs_env\<close>: the outcome of the allocations,
  variables that are read before they are set, and the string at address 0.
\<close>

section \<open>State\<close>

abbreviation (input) "GOSFS_DIRENTRY_USED \<equiv> 1 :: u32"
abbreviation (input) "GOSFS_DIRENTRY_ISDIRECTORY \<equiv> 2 :: u32"
abbreviation (input) "GOSFS_DIRENTRY_SETUID \<equiv> 4 :: u32"
abbreviation (input) "GOSFS_SUPER_BLOCK \<equiv> 0 :: u32"
abbreviation (input) "GOSFS_ROOT_DIR_BLOCK \<equiv> 1 :: u32"
abbreviation (input) "GOSFS_FS_BLOCK_SIZE \<equiv> 4096 :: nat"
abbreviation (input) "GOSFS_MAGIC \<equiv> 0xDEADBEEF :: u32"
abbreviation (input) "PREV_DIR \<equiv> 1 :: nat"
abbreviation (input) "O_CREATE \<equiv> 1 :: u32"
abbreviation (input) "O_READ \<equiv> 2 :: u32"
abbreviation (input) "VFS_NO_MORE_DIR_ENTRIES \<equiv> 1 :: int"

record Dir_Entry_Ptr =
  de_base :: u32
  de_offset :: int

record Path_Info =
  pi_suffix :: cstr
  dirEntryPtr :: Dir_Entry_Ptr

text \<open>An open file or directory (\<open>struct File\<close> of \<open>include/geekos/vfs.h\<close>); the operations table
  is named, the file system's own object and the mount point are indices.\<close>

datatype File_Ops = s_gosfsFileOps | s_gosfsDirOps | s_pfatFileOps | s_pfatDirOps

record File =
  f_ops :: File_Ops
  filePos :: u32
  endPos :: u32
  f_fsData :: nat
  f_mode :: u32
  f_mountPoint :: nat

record gosfs_env =
  malloc_buf :: "fscache \<Rightarrow> (u32 \<times> u8 list) option"
  malloc_ok :: bool
  junk_prefix :: cstr
  junk_info :: Path_Info
  junk_pBuf :: u32
  junk_rc :: int
  str_at_0 :: cstr

record GOSFS_Instance =
  fsinfo :: u32
  gcache :: fscache
  rootDirEntry :: dentry
  fileList :: "Dir_Entry_Ptr list"

section \<open>Buffers\<close>

definition get_buf :: "gosfs_env \<Rightarrow> u32 \<Rightarrow> GOSFS_Instance \<Rightarrow> (int \<times> u32 \<times> GOSFS_Instance) kres" where
  "get_buf E n s = do {
     (rc, a, c) \<leftarrow> Get_FS_Buffer id (malloc_buf E (gcache s)) n (gcache s);
     Some (rc, a, s\<lparr>gcache := c\<rparr>) }"

definition release_buf :: "u32 \<Rightarrow> GOSFS_Instance \<Rightarrow> GOSFS_Instance kres" where
  "release_buf a s = do { (rc, c) \<leftarrow> Release_FS_Buffer a (gcache s); Some (s\<lparr>gcache := c\<rparr>) }"

definition modify_buf :: "u32 \<Rightarrow> GOSFS_Instance \<Rightarrow> GOSFS_Instance kres" where
  "modify_buf a s = do { c \<leftarrow> Modify_FS_Buffer a (gcache s); Some (s\<lparr>gcache := c\<rparr>) }"

definition sync_bufs :: "GOSFS_Instance \<Rightarrow> GOSFS_Instance kres" where
  "sync_bufs s = do { (rc, c) \<leftarrow> Sync_FS_Buffer_Cache (gcache s); Some (s\<lparr>gcache := c\<rparr>) }"

definition buf_data :: "u32 \<Rightarrow> GOSFS_Instance \<Rightarrow> u8 list" where
  "buf_data a s = bdata (bufs (gcache s) a)"

definition set_buf_data :: "u32 \<Rightarrow> u8 list \<Rightarrow> GOSFS_Instance \<Rightarrow> GOSFS_Instance" where
  "set_buf_data a xs s = s\<lparr>gcache := upd_buf a (\<lambda>b. b\<lparr>bdata := xs\<rparr>) (gcache s)\<rparr>"

definition buf_entry :: "u32 \<Rightarrow> GOSFS_Instance \<Rightarrow> int \<Rightarrow> dentry kres" where
  "buf_entry a s i = get_entry (buf_data a s) i"

definition upd_entry :: "u32 \<Rightarrow> int \<Rightarrow> (dentry \<Rightarrow> dentry kres) \<Rightarrow> GOSFS_Instance \<Rightarrow> GOSFS_Instance kres" where
  "upd_entry a i f s = do {
     e \<leftarrow> buf_entry a s i;
     e \<leftarrow> f e;
     xs \<leftarrow> put_entry (buf_data a s) i e;
     Some (set_buf_data a xs s) }"

text \<open>\<open>memset\<close> of a whole block.\<close>

definition zero_block :: "u32 \<Rightarrow> GOSFS_Instance \<Rightarrow> GOSFS_Instance kres" where
  "zero_block a s = do {
     xs \<leftarrow> put_bytes (buf_data a s) 0 (replicate GOSFS_FS_BLOCK_SIZE 0);
     Some (set_buf_data a xs s) }"

text \<open>The superblock: magic number, root directory, size, and the bitmap from byte 12 on.\<close>

definition sb_magic :: "GOSFS_Instance \<Rightarrow> u32 kres" where
  "sb_magic s = get_word (buf_data (fsinfo s) s) 0"

definition sb_root :: "GOSFS_Instance \<Rightarrow> u32 kres" where
  "sb_root s = get_word (buf_data (fsinfo s) s) 4"

definition sb_size :: "GOSFS_Instance \<Rightarrow> u32 kres" where
  "sb_size s = get_word (buf_data (fsinfo s) s) 8"

definition sb_bitmap :: "GOSFS_Instance \<Rightarrow> u8 list" where
  "sb_bitmap s = drop 12 (buf_data (fsinfo s) s)"

definition find_free_block :: "GOSFS_Instance \<Rightarrow> int kres" where
  "find_free_block s = do { n \<leftarrow> sb_size s; Find_First_Free_Bit (sb_bitmap s) (unat n) }"

definition set_bitmap :: "u8 list \<Rightarrow> GOSFS_Instance \<Rightarrow> GOSFS_Instance" where
  "set_bitmap bm s = set_buf_data (fsinfo s) (take 12 (buf_data (fsinfo s) s) @ bm) s"

definition mark_block :: "int \<Rightarrow> GOSFS_Instance \<Rightarrow> GOSFS_Instance kres" where
  "mark_block n s = do { bm \<leftarrow> Set_Bit (sb_bitmap s) (unat (word_of_int n :: u32)); Some (set_bitmap bm s) }"

definition free_block :: "u32 \<Rightarrow> GOSFS_Instance \<Rightarrow> GOSFS_Instance kres" where
  "free_block n s = do { bm \<leftarrow> Clear_Bit (sb_bitmap s) (unat n); Some (set_bitmap bm s) }"

section \<open>Entries by pointer\<close>

text \<open>What \<open>Get_Entry_By_Ptr\<close> points to: the fake root entry, or an entry in a buffer that it has
  already released.  The other entries of the block are reached from it by indexing.\<close>

datatype entry_ref = RootEntry | BufEntry u32 int

fun deref :: "entry_ref \<Rightarrow> GOSFS_Instance \<Rightarrow> int \<Rightarrow> dentry kres" where
  "deref RootEntry s k = (if k = 0 then Some (rootDirEntry s) else None)"
| "deref (BufEntry a i) s k = buf_entry a s (i + k)"

definition Get_Entry_By_Ptr :: "gosfs_env \<Rightarrow> Dir_Entry_Ptr \<Rightarrow> GOSFS_Instance \<Rightarrow> (entry_ref option \<times> GOSFS_Instance) kres" where
  "Get_Entry_By_Ptr E p s =
     (if de_base p = 0 then Some (Some RootEntry, s)
      else do {
        (rc, a, s) \<leftarrow> get_buf E (de_base p) s;
        if rc \<noteq> 0 then Some (None, s)
        else do { s \<leftarrow> release_buf a s; Some (Some (BufEntry a (de_offset p)), s) } })"

text \<open>Reading the entry at once; a null pointer stops the machine.\<close>

definition entry_by_ptr :: "gosfs_env \<Rightarrow> Dir_Entry_Ptr \<Rightarrow> GOSFS_Instance \<Rightarrow> (dentry \<times> GOSFS_Instance) kres" where
  "entry_by_ptr E p s = do { (r, s) \<leftarrow> Get_Entry_By_Ptr E p s; r \<leftarrow> r; e \<leftarrow> deref r s 0; Some (e, s) }"

text \<open>The first of \<open>n\<close> entries from \<open>i\<close> on whose first block is \<open>blk\<close>.\<close>

fun find_block :: "(int \<Rightarrow> dentry kres) \<Rightarrow> u32 \<Rightarrow> nat \<Rightarrow> nat \<Rightarrow> nat kres" where
  "find_block rd blk i 0 = Some i"
| "find_block rd blk i (Suc n) = do {
     e \<leftarrow> rd (int i);
     if block0 e = blk then Some i else find_block rd blk (Suc i) n }"

section \<open>Looking up a path\<close>

text \<open>The search of one directory: the index of the entry (or the number of entries if there is
  none) and the first free entry on the way.\<close>

fun scan_dir :: "(int \<Rightarrow> dentry kres) \<Rightarrow> cstr \<Rightarrow> bool \<Rightarrow> nat \<Rightarrow> nat \<Rightarrow> int \<Rightarrow> (nat \<times> int) kres" where
  "scan_dir rd prefix final i 0 minFree = Some (i, minFree)"
| "scan_dir rd prefix final i (Suc n) minFree = do {
     e \<leftarrow> rd (int i);
     nm \<leftarrow> name_of e;
     if nm = prefix \<and> (dflags e = GOSFS_DIRENTRY_USED \<and> final \<or> dflags e = GOSFS_DIRENTRY_ISDIRECTORY)
     then Some (i, minFree)
     else scan_dir rd prefix final (Suc i) n
       (if minFree = - 1 \<and> dflags e AND GOSFS_DIRENTRY_USED = 0 \<and> dflags e AND GOSFS_DIRENTRY_ISDIRECTORY = 0
        then int i else minFree) }"

text \<open>The step to the parent directory: entry 1 was found, \<open>blk\<close> is its block.\<close>

definition lookup_parent ::
  "gosfs_env \<Rightarrow> u32 \<Rightarrow> GOSFS_Instance \<Rightarrow> (u32 \<times> Path_Info \<times> GOSFS_Instance) kres" where
  "lookup_parent E blk s = do {
     (r, s) \<leftarrow> Get_Entry_By_Ptr E \<lparr>de_base = blk, de_offset = 0\<rparr> s;
     r \<leftarrow> r;
     e \<leftarrow> deref r s (int PREV_DIR);
     let temp_base = block0 e;
     (r, s) \<leftarrow> Get_Entry_By_Ptr E \<lparr>de_base = temp_base, de_offset = 0\<rparr> s;
     r \<leftarrow> r;
     j \<leftarrow> find_block (deref r s) blk 0 GOSFS_DIR_ENTRIES_PER_BLOCK;
     e \<leftarrow> deref r s (int j);
     n \<leftarrow> name_of e;
     n \<leftarrow> copy_str GOSFS_FILENAME_MAX n;
     Some (block0 e, \<lparr>pi_suffix = n, dirEntryPtr = \<lparr>de_base = temp_base, de_offset = int j\<rparr>\<rparr>, s) }"

partial_function (option) lookup_loop ::
  "gosfs_env \<Rightarrow> cstr \<Rightarrow> cstr \<Rightarrow> cstr \<Rightarrow> u32 \<Rightarrow> Path_Info \<Rightarrow> GOSFS_Instance \<Rightarrow> (int \<times> Path_Info \<times> GOSFS_Instance) kres" where
  "lookup_loop E path prefix suffix base info s =
     (if suffix = [SLASH] then Some (0, info, s)
      else do {
        u \<leftarrow> Unpack_Path path;
        let (prefix, suffix) = (case u of None \<Rightarrow> (prefix, suffix) | Some ps \<Rightarrow> ps);
        KASSERT (base \<noteq> 0);
        (rc, a, s) \<leftarrow> get_buf E base s;
        if rc \<noteq> 0 then Some (EUNSPECIFIED, info, s)
        else do {
          (i, minFreeEntry) \<leftarrow> scan_dir (buf_entry a s) prefix (suffix = [SLASH]) 0 GOSFS_DIR_ENTRIES_PER_BLOCK (- 1);
          if i = GOSFS_DIR_ENTRIES_PER_BLOCK then do {
            n \<leftarrow> copy_str GOSFS_FILENAME_MAX prefix;
            s \<leftarrow> release_buf a s;
            Some (if suffix = [SLASH] then EUNSPECIFIED else ENOTFOUND,
              \<lparr>pi_suffix = n, dirEntryPtr = \<lparr>de_base = base, de_offset = minFreeEntry\<rparr>\<rparr>, s) }
          else if i = PREV_DIR then do {
            e \<leftarrow> buf_entry a s (int i);
            s \<leftarrow> release_buf a s;
            (base, info, s) \<leftarrow> lookup_parent E (block0 e) s;
            lookup_loop E suffix prefix suffix base info s }
          else do {
            n \<leftarrow> copy_str GOSFS_FILENAME_MAX prefix;
            s \<leftarrow> release_buf a s;
            e \<leftarrow> buf_entry a s (int i);
            lookup_loop E suffix prefix suffix (block0 e)
              \<lparr>pi_suffix = n, dirEntryPtr = \<lparr>de_base = base, de_offset = int i\<rparr>\<rparr> s } } })"

definition Do_GOSFS_Lookup ::
  "gosfs_env \<Rightarrow> cstr \<Rightarrow> Path_Info \<Rightarrow> GOSFS_Instance \<Rightarrow> (int \<times> Path_Info \<times> GOSFS_Instance) kres" where
  "Do_GOSFS_Lookup E path info s = do {
     base \<leftarrow> sb_root s;
     KASSERT (path \<noteq> [] \<and> hd path = SLASH);
     if path = [SLASH] then Some (0, info, s)
     else lookup_loop E path (junk_prefix E) (str_at_0 E) base info s }"

text \<open>The start of every operation on a path: the path is copied, the pointer set to block 0.\<close>

definition lookup_path ::
  "gosfs_env \<Rightarrow> cstr \<Rightarrow> GOSFS_Instance \<Rightarrow> (int \<times> Path_Info \<times> GOSFS_Instance) kres" where
  "lookup_path E path s = do {
     path \<leftarrow> copy_str VFS_MAX_PATH_LEN path;
     let info = (junk_info E)\<lparr>dirEntryPtr := (dirEntryPtr (junk_info E))\<lparr>de_base := GOSFS_SUPER_BLOCK\<rparr>\<rparr>;
     Do_GOSFS_Lookup E path info s }"

section \<open>Open files\<close>

definition Allocate_File ::
  "bool \<Rightarrow> File_Ops \<Rightarrow> u32 \<Rightarrow> u32 \<Rightarrow> nat \<Rightarrow> u32 \<Rightarrow> nat \<Rightarrow> File option" where
  "Allocate_File ok ops pos fend d mode mp =
     (if ok then Some \<lparr>f_ops = ops, filePos = pos, endPos = fend, f_fsData = d, f_mode = mode, f_mountPoint = mp\<rparr>
      else None)"

fun find_file :: "Dir_Entry_Ptr \<Rightarrow> Dir_Entry_Ptr list \<Rightarrow> nat \<Rightarrow> nat option" where
  "find_file p [] i = None"
| "find_file p (q # qs) i =
     (if de_base q = de_base p \<and> de_offset q = de_offset p then Some i else find_file p qs (Suc i))"

definition Get_GOSFS_File :: "bool \<Rightarrow> Dir_Entry_Ptr \<Rightarrow> GOSFS_Instance \<Rightarrow> nat option \<times> GOSFS_Instance" where
  "Get_GOSFS_File ok p s =
     (case find_file p (fileList s) 0 of
        Some i \<Rightarrow> (Some i, s)
      | None \<Rightarrow> if ok then (Some (length (fileList s)), s\<lparr>fileList := fileList s @ [p]\<rparr>) else (None, s))"

text \<open>The end of \<open>GOSFS_Open\<close> and of \<open>GOSFS_Open_Directory\<close>: the objects for the open file.\<close>

definition make_file ::
  "gosfs_env \<Rightarrow> File_Ops \<Rightarrow> u32 \<Rightarrow> u32 \<Rightarrow> nat \<Rightarrow> Dir_Entry_Ptr \<Rightarrow> GOSFS_Instance \<Rightarrow> int \<times> File option \<times> GOSFS_Instance" where
  "make_file E ops fend mode mp p s =
     (case Get_GOSFS_File (malloc_ok E) p s of
        (None, s) \<Rightarrow> (EUNSPECIFIED, None, s)
      | (Some g, s) \<Rightarrow>
          (case Allocate_File (malloc_ok E) ops 0 fend g mode mp of
             None \<Rightarrow> (ENOMEM, None, s)
           | Some f \<Rightarrow> (0, Some f, s)))"

text \<open>A new file in the free entry the lookup has found.\<close>

definition create_entry :: "u32 \<Rightarrow> Path_Info \<Rightarrow> GOSFS_Instance \<Rightarrow> GOSFS_Instance kres" where
  "create_entry a info s = do {
     let i = de_offset (dirEntryPtr info);
     s \<leftarrow> upd_entry a i (set_name (pi_suffix info)) s;
     s \<leftarrow> upd_entry a i (\<lambda>e. Some (e\<lparr>dsize := 0\<rparr>)) s;
     s \<leftarrow> upd_entry a i (\<lambda>e. Some (e\<lparr>dflags := GOSFS_DIRENTRY_USED\<rparr>)) s;
     freeBit \<leftarrow> find_free_block s;
     s \<leftarrow> upd_entry a i (\<lambda>e. Some (set_block0 (word_of_int freeBit) e)) s;
     s \<leftarrow> mark_block freeBit s;
     s \<leftarrow> modify_buf a s;
     s \<leftarrow> modify_buf (fsinfo s) s;
     sync_bufs s }"

definition GOSFS_Open ::
  "gosfs_env \<Rightarrow> nat \<Rightarrow> cstr \<Rightarrow> u32 \<Rightarrow> GOSFS_Instance \<Rightarrow> (int \<times> File option \<times> GOSFS_Instance) kres" where
  "GOSFS_Open E mp path mode s = do {
     (retval, info, s) \<leftarrow> lookup_path E path s;
     if retval < 0 \<and> retval = ENOTFOUND then do {
       s \<leftarrow> release_buf (junk_pBuf E) s;
       Some (ENOTFOUND, None, s) }
     else do {
       (rc, a, s) \<leftarrow> get_buf E (de_base (dirEntryPtr info)) s;
       if rc \<noteq> 0 then do { s \<leftarrow> release_buf (junk_pBuf E) s; Some (EUNSPECIFIED, None, s) }
       else do {
         s \<leftarrow> (if retval < 0 \<and> mode AND O_CREATE \<noteq> 0 then create_entry a info s else Some s);
         e \<leftarrow> buf_entry a s (de_offset (dirEntryPtr info));
         if retval \<ge> 0 \<and> dflags e = GOSFS_DIRENTRY_ISDIRECTORY then do {
           s \<leftarrow> release_buf a s;
           Some (EACCESS, None, s) }
         else do {
           let (rc, f, s) = make_file E s_gosfsFileOps (dsize e) O_READ mp (dirEntryPtr info) s;
           s \<leftarrow> release_buf a s;
           Some (rc, f, s) } } } }"

definition GOSFS_Open_Directory ::
  "gosfs_env \<Rightarrow> nat \<Rightarrow> cstr \<Rightarrow> GOSFS_Instance \<Rightarrow> (int \<times> File option \<times> GOSFS_Instance) kres" where
  "GOSFS_Open_Directory E mp path s = do {
     (retval, info, s) \<leftarrow> lookup_path E path s;
     if retval < 0 then Some (ENOTFOUND, None, s)
     else do {
       (e, s) \<leftarrow> entry_by_ptr E (dirEntryPtr info) s;
       if dflags e \<noteq> GOSFS_DIRENTRY_ISDIRECTORY then Some (ENOTDIR, None, s)
       else Some (make_file E s_gosfsDirOps (dsize e) 0 mp (dirEntryPtr info) s) } }"

section \<open>Creating and deleting\<close>

text \<open>The permissions of the first access control entry, the top four bits of its word.\<close>

definition set_permission :: "u32 \<Rightarrow> dentry \<Rightarrow> dentry" where
  "set_permission p e = e\<lparr>acl := (acl e)[0 := bf_set 28 4 p (acl e ! 0)]\<rparr>"

abbreviation (input) "O_READ_WRITE \<equiv> 6 :: u32"

text \<open>The two entries every directory begins with.\<close>

definition dot_entry :: "cstr \<Rightarrow> u32 \<Rightarrow> dentry \<Rightarrow> dentry kres" where
  "dot_entry n b e = do {
     e \<leftarrow> set_name n e;
     let e = e\<lparr>dflags := GOSFS_DIRENTRY_ISDIRECTORY\<rparr>;
     let e = set_block0 b e;
     Some (e\<lparr>dsize := of_nat GOSFS_FS_BLOCK_SIZE\<rparr>) }"

text \<open>The two halves of \<open>GOSFS_Create_Directory\<close>: the entry in the parent, and the new block.\<close>

definition link_directory :: "u32 \<Rightarrow> Path_Info \<Rightarrow> GOSFS_Instance \<Rightarrow> (int \<times> GOSFS_Instance) kres" where
  "link_directory a info s = do {
     let i = de_offset (dirEntryPtr info);
     s \<leftarrow> upd_entry a i (set_name (pi_suffix info)) s;
     s \<leftarrow> upd_entry a i (\<lambda>e. Some (e\<lparr>dsize := of_nat GOSFS_FS_BLOCK_SIZE\<rparr>)) s;
     s \<leftarrow> upd_entry a i (\<lambda>e. Some (e\<lparr>dflags := GOSFS_DIRENTRY_ISDIRECTORY\<rparr>)) s;
     freeBit \<leftarrow> find_free_block s;
     s \<leftarrow> upd_entry a i (\<lambda>e. Some (set_block0 (word_of_int freeBit) e)) s;
     s \<leftarrow> upd_entry a i (\<lambda>e. Some (set_permission O_READ_WRITE e)) s;
     s \<leftarrow> mark_block freeBit s;
     s \<leftarrow> modify_buf a s;
     s \<leftarrow> modify_buf (fsinfo s) s;
     s \<leftarrow> sync_bufs s;
     s \<leftarrow> release_buf a s;
     Some (freeBit, s) }"

definition fill_directory :: "u32 \<Rightarrow> u32 \<Rightarrow> u32 \<Rightarrow> GOSFS_Instance \<Rightarrow> GOSFS_Instance kres" where
  "fill_directory a blk parent s = do {
     s \<leftarrow> zero_block a s;
     s \<leftarrow> upd_entry a 0 (dot_entry [DOT] blk) s;
     s \<leftarrow> upd_entry a 1 (dot_entry [DOT, DOT] parent) s;
     s \<leftarrow> modify_buf a s;
     s \<leftarrow> sync_bufs s;
     release_buf a s }"

definition GOSFS_Create_Directory :: "gosfs_env \<Rightarrow> cstr \<Rightarrow> GOSFS_Instance \<Rightarrow> (int \<times> GOSFS_Instance) kres" where
  "GOSFS_Create_Directory E path s = do {
     (retval, info, s) \<leftarrow> lookup_path E path s;
     if retval < 0 then
       if retval = ENOTFOUND then Some (ENOTFOUND, s)
       else do {
         (rc, a, s) \<leftarrow> get_buf E (de_base (dirEntryPtr info)) s;
         if rc \<noteq> 0 then Some (EUNSPECIFIED, s)
         else do {
           (freeBit, s) \<leftarrow> link_directory a info s;
           (rc, a, s) \<leftarrow> get_buf E (word_of_int freeBit) s;
           if rc \<noteq> 0 then Some (EUNSPECIFIED, s)
           else do {
             s \<leftarrow> fill_directory a (word_of_int freeBit) (de_base (dirEntryPtr info)) s;
             Some (0, s) } } }
     else Some (EEXIST, s) }"

text \<open>Whether a directory's entries from \<open>i\<close> on are all unused.\<close>

fun all_unused :: "(int \<Rightarrow> dentry kres) \<Rightarrow> nat \<Rightarrow> nat \<Rightarrow> bool kres" where
  "all_unused rd i 0 = Some True"
| "all_unused rd i (Suc n) = do {
     e \<leftarrow> rd (int i);
     if dflags e \<noteq> 0 then Some False else all_unused rd (Suc i) n }"

definition may_delete :: "gosfs_env \<Rightarrow> dentry \<Rightarrow> GOSFS_Instance \<Rightarrow> (bool \<times> GOSFS_Instance) kres" where
  "may_delete E e s =
     (if dflags e AND GOSFS_DIRENTRY_USED \<noteq> 0 then Some (True, s)
      else if dflags e AND GOSFS_DIRENTRY_ISDIRECTORY \<noteq> 0 then do {
        (r, s) \<leftarrow> Get_Entry_By_Ptr E \<lparr>de_base = block0 e, de_offset = 0\<rparr> s;
        r \<leftarrow> r;
        empty \<leftarrow> all_unused (deref r s) 2 (GOSFS_DIR_ENTRIES_PER_BLOCK - 2);
        Some (empty, s) }
      else Some (True, s))"

definition zero_entry :: dentry where
  "zero_entry = \<lparr>dsize = 0, dflags = 0, filename = replicate 128 0, blockList = replicate 10 0, acl = replicate 10 0\<rparr>"

definition unlink_entry :: "u32 \<Rightarrow> u32 \<Rightarrow> int \<Rightarrow> GOSFS_Instance \<Rightarrow> GOSFS_Instance kres" where
  "unlink_entry a a1 i s = do {
     s \<leftarrow> zero_block a1 s;
     s \<leftarrow> upd_entry a i (\<lambda>e. Some zero_entry) s;
     s \<leftarrow> modify_buf a s;
     s \<leftarrow> modify_buf a1 s;
     s \<leftarrow> sync_bufs s;
     s \<leftarrow> release_buf a s;
     release_buf a1 s }"

definition GOSFS_Delete :: "gosfs_env \<Rightarrow> cstr \<Rightarrow> GOSFS_Instance \<Rightarrow> (int \<times> GOSFS_Instance) kres" where
  "GOSFS_Delete E path s = do {
     (retval, info, s) \<leftarrow> lookup_path E path s;
     if retval < 0 then Some (ENOTFOUND, s)
     else do {
       (rc, a, s) \<leftarrow> get_buf E (de_base (dirEntryPtr info)) s;
       if rc \<noteq> 0 then Some (EUNSPECIFIED, s)
       else do {
         e \<leftarrow> buf_entry a s (de_offset (dirEntryPtr info));
         (ok, s) \<leftarrow> may_delete E e s;
         if \<not> ok then do { s \<leftarrow> release_buf a s; Some (EUNSPECIFIED, s) }
         else do {
           s \<leftarrow> free_block (block0 e) s;
           s \<leftarrow> modify_buf (fsinfo s) s;
           (rc, a1, s) \<leftarrow> get_buf E (block0 e) s;
           if rc \<noteq> 0 then Some (- 1, s)
           else do {
             s \<leftarrow> unlink_entry a a1 (de_offset (dirEntryPtr info)) s;
             Some (0, s) } } } } }"

section \<open>Metadata\<close>

text \<open>Of \<open>isDirectory\<close>, one signed bit, only the bit is kept.  The access control list is copied
  with the number of entries as the number of bytes.\<close>

record VFS_File_Stat =
  st_size :: u32
  isDirectory :: "1 word"
  isSetuid :: "1 word"
  acls :: "u8 list"

definition fill_stat :: "dentry \<Rightarrow> VFS_File_Stat \<Rightarrow> VFS_File_Stat kres" where
  "fill_stat e st = do {
     xs \<leftarrow> put_bytes (acls st) 0 (take 10 (word_bytes (acl e)));
     Some \<lparr>st_size = dsize e,
       isDirectory = (if dflags e AND GOSFS_DIRENTRY_ISDIRECTORY \<noteq> 0 then 1 else 0),
       isSetuid = 0, acls = xs\<rparr> }"

definition GOSFS_Stat ::
  "gosfs_env \<Rightarrow> cstr \<Rightarrow> VFS_File_Stat \<Rightarrow> GOSFS_Instance \<Rightarrow> (int \<times> VFS_File_Stat \<times> GOSFS_Instance) kres" where
  "GOSFS_Stat E path st s = do {
     (retval, info, s) \<leftarrow> lookup_path E path s;
     if retval < 0 then Some (ENOTFOUND, st, s)
     else do {
       (e, s) \<leftarrow> entry_by_ptr E (dirEntryPtr info) s;
       st \<leftarrow> fill_stat e st;
       Some (0, st, s) } }"

text \<open>Reading a directory: the position advances entry by entry to the next one in use.  The loop
  runs while the position is below the end, which is not a multiple of the entry size, so the flags
  are read as a word of the buffer.\<close>

partial_function (option) next_entry :: "u8 list \<Rightarrow> u32 \<Rightarrow> u32 \<Rightarrow> u32 \<Rightarrow> (u32 \<times> u32) kres" where
  "next_entry data i pos fend =
     (if pos < fend then do {
        let i = pos div of_nat ENTRY_SIZE;
        flags \<leftarrow> get_word data (ENTRY_SIZE * unat i + 4);
        let pos = pos + of_nat ENTRY_SIZE;
        if flags = GOSFS_DIRENTRY_USED \<or> flags = GOSFS_DIRENTRY_ISDIRECTORY \<or> flags = GOSFS_DIRENTRY_SETUID
        then Some (i, pos)
        else next_entry data i pos fend }
      else Some (i, pos))"

definition GOSFS_Read_Entry ::
  "gosfs_env \<Rightarrow> File \<Rightarrow> cstr \<Rightarrow> VFS_File_Stat \<Rightarrow> GOSFS_Instance \<Rightarrow>
   (int \<times> File \<times> cstr \<times> VFS_File_Stat \<times> GOSFS_Instance) kres" where
  "GOSFS_Read_Entry E dir nm st s = do {
     p \<leftarrow> aget (fileList s) (f_fsData dir);
     (e, s) \<leftarrow> entry_by_ptr E p s;
     (rc, a, s) \<leftarrow> get_buf E (block0 e) s;
     if rc \<noteq> 0 then do { s \<leftarrow> release_buf (junk_pBuf E) s; Some (EUNSPECIFIED, dir, nm, st, s) }
     else do {
       (i, pos) \<leftarrow> next_entry (buf_data a s) 0 (filePos dir) (endPos dir);
       let dir = dir\<lparr>filePos := pos\<rparr>;
       if filePos dir \<ge> endPos dir then do { s \<leftarrow> release_buf a s; Some (VFS_NO_MORE_DIR_ENTRIES, dir, nm, st, s) }
       else do {
         e \<leftarrow> buf_entry a s (int (unat i));
         let nm = takeWhile (\<lambda>b. b \<noteq> 0) (filename e);
         st \<leftarrow> fill_stat e st;
         s \<leftarrow> release_buf a s;
         Some (0, dir, nm, st, s) } } }"

section \<open>Paths of directories\<close>

text \<open>From a directory's block to the root: the name of each directory on the way, found in its
  parent, is put in front of the path.\<close>

partial_function (option) path_up :: "gosfs_env \<Rightarrow> u32 \<Rightarrow> cstr \<Rightarrow> GOSFS_Instance \<Rightarrow> (int \<times> cstr \<times> GOSFS_Instance) kres" where
  "path_up E curBlkNum path s = do {
     (e, s) \<leftarrow> entry_by_ptr E \<lparr>de_base = curBlkNum, de_offset = int PREV_DIR\<rparr> s;
     let prevBlkNum = block0 e;
     if curBlkNum = prevBlkNum then Some (0, path, s)
     else do {
       (r, s) \<leftarrow> Get_Entry_By_Ptr E \<lparr>de_base = prevBlkNum, de_offset = 0\<rparr> s;
       r \<leftarrow> r;
       i \<leftarrow> find_block (deref r s) curBlkNum 0 GOSFS_DIR_ENTRIES_PER_BLOCK;
       if i = GOSFS_DIR_ENTRIES_PER_BLOCK then Some (EUNSPECIFIED, path, s)
       else do {
         e \<leftarrow> deref r s (int i);
         n \<leftarrow> name_of e;
         path_up E prevBlkNum (if path = [] then n else n @ SLASH # path) s } } }"

text \<open>The result is the string at \<open>path\<close> afterwards: its first byte and what the pointer moved past
  it leads to.\<close>

definition GOSFS_Get_Path :: "gosfs_env \<Rightarrow> Dir_Entry_Ptr \<Rightarrow> cstr \<Rightarrow> GOSFS_Instance \<Rightarrow> (int \<times> cstr \<times> GOSFS_Instance) kres" where
  "GOSFS_Get_Path E p path s = do {
     (e, s) \<leftarrow> entry_by_ptr E p s;
     root \<leftarrow> sb_root s;
     if block0 e = root then Some (0, path, s)
     else do {
       let path = path @ [SLASH];
       (e, s) \<leftarrow> entry_by_ptr E p s;
       n \<leftarrow> name_of e;
       (prevBlkNum, rest, s) \<leftarrow>
         (if n = [DOT, DOT] then do {
            (e, s) \<leftarrow> entry_by_ptr E (p\<lparr>de_offset := int PREV_DIR\<rparr>) s; Some (block0 e, tl path, s) }
          else do {
            (e, s) \<leftarrow> entry_by_ptr E p s;
            n \<leftarrow> name_of e;
            if n = [DOT] then do {
              (e, s) \<leftarrow> entry_by_ptr E (p\<lparr>de_offset := 0\<rparr>) s; Some (block0 e, tl path, s) }
            else do {
              (e, s) \<leftarrow> entry_by_ptr E p s;
              n \<leftarrow> name_of e;
              Some (de_base p, n, s) } });
       (rc, rest, s) \<leftarrow> path_up E prevBlkNum rest s;
       Some (rc, hd path # rest, s) } }"

definition GOSFS_Lookup :: "gosfs_env \<Rightarrow> cstr \<Rightarrow> GOSFS_Instance \<Rightarrow> (int \<times> Dir_Entry_Ptr option \<times> GOSFS_Instance) kres" where
  "GOSFS_Lookup E path s = do {
     (retval, info, s) \<leftarrow> lookup_path E path s;
     if retval < 0 then Some (ENOTFOUND, None, s) else Some (0, Some (dirEntryPtr info), s) }"

section \<open>Formatting and mounting\<close>

text \<open>The superblock of a device; \<open>stack\<close> is the memory of the array that becomes the root directory:
  only its first two entries are set before it is written.\<close>

definition new_superblock :: "disk \<Rightarrow> u8 list kres" where
  "new_superblock d = do {
     let bm = replicate (GOSFS_FS_BLOCK_SIZE - 12) 0;
     bm \<leftarrow> Set_Bit bm (unat GOSFS_SUPER_BLOCK);
     bm \<leftarrow> Set_Bit bm (unat GOSFS_ROOT_DIR_BLOCK);
     Some (le_bytes GOSFS_MAGIC @ le_bytes GOSFS_ROOT_DIR_BLOCK @ le_bytes (word_of_int (numSectors d div 8)) @ bm) }"

definition new_root :: "u8 list \<Rightarrow> u8 list kres" where
  "new_root stack = do {
     e \<leftarrow> get_entry stack 0;
     e \<leftarrow> dot_entry [DOT] GOSFS_ROOT_DIR_BLOCK e;
     xs \<leftarrow> put_entry stack 0 e;
     e \<leftarrow> get_entry xs 1;
     e \<leftarrow> dot_entry [DOT, DOT] GOSFS_ROOT_DIR_BLOCK e;
     put_entry xs 1 e }"

definition GOSFS_Format :: "u8 list \<Rightarrow> disk \<Rightarrow> (int \<times> disk) kres" where
  "GOSFS_Format stack d = do {
     sb \<leftarrow> new_superblock d;
     let (rc, d) = write_sectors d (int (unat GOSFS_SUPER_BLOCK) * 8) 0 8 sb;
     if rc \<noteq> 0 then Some (rc, d)
     else do {
       rt \<leftarrow> new_root stack;
       Some (write_sectors d (int (unat GOSFS_ROOT_DIR_BLOCK) * 8) 0 8 rt) } }"

text \<open>Mounting; the lines it prints count the free blocks of the bitmap.\<close>

definition GOSFS_Mount :: "gosfs_env \<Rightarrow> disk \<Rightarrow> (int \<times> GOSFS_Instance option) kres" where
  "GOSFS_Mount E d =
     (if \<not> malloc_ok E then Some (ENOMEM, None)
      else do {
        c \<leftarrow> Create_FS_Buffer_Cache True (malloc_ok E) d (of_nat GOSFS_FS_BLOCK_SIZE);
        c \<leftarrow> c;
        let s = \<lparr>fsinfo = 0, gcache = c, rootDirEntry = zero_entry, fileList = []\<rparr>;
        (rc, a, s) \<leftarrow> get_buf E GOSFS_SUPER_BLOCK s;
        if rc \<noteq> 0 then Some (rc, None)
        else do {
          let s = s\<lparr>fsinfo := a\<rparr>;
          m \<leftarrow> sb_magic s;
          if m \<noteq> GOSFS_MAGIC then Some (EINVALIDFS, None)
          else do {
            root \<leftarrow> sb_root s;
            let s = s\<lparr>rootDirEntry := set_block0 root
              (zero_entry\<lparr>dflags := GOSFS_DIRENTRY_ISDIRECTORY, dsize := of_nat GOSFS_FS_BLOCK_SIZE\<rparr>)\<rparr>;
            (rc, a1, s) \<leftarrow> get_buf E 1 s;
            size \<leftarrow> sb_size s;
            n \<leftarrow> Get_Count_Of_ALL_Free_Bit (sb_bitmap s) (unat size);
            s \<leftarrow> release_buf (if rc = 0 then a1 else a) s;
            Some (0, Some s) } } })"

section \<open>Operations on open files\<close>

text \<open>Reading, seeking and the status of open files and directories are unimplemented: the code
  prints a message and spins.  So does writing, once the length has passed its check.\<close>

definition GOSFS_Write :: "u32 \<Rightarrow> int kres" where
  "GOSFS_Write numBytes = (if numBytes > 0x7FFFFFFF then Some EINVALID else None)"

definition GOSFS_Close :: "File \<Rightarrow> int" where
  "GOSFS_Close f = 0"

text \<open>Closing a directory returns whatever the register holds.\<close>

definition GOSFS_Close_Directory :: "gosfs_env \<Rightarrow> File \<Rightarrow> int" where
  "GOSFS_Close_Directory E f = junk_rc E"

end
