(* ===== verification/Pfat.thy ===== *)
theory Pfat
  imports Gosfs Addr "HOL-Library.Signed_Division"
begin

text \<open>
  The pseudo-FAT file system, \<open>geekos/pfat.c\<close>: a read-only file system with one directory.  Its table
  of blocks and its directory are read when it is mounted; the blocks of a file are read into a
  cache of the file when they are first needed.

  The device is the one of \<open>BufCache\<close>.  The directory is kept as the bytes that were read: the name of
  an entry is the string that starts at the entry, wherever its terminating zero is.
\<close>

section \<open>State\<close>

abbreviation (input) "PFAT_MAGIC \<equiv> 0x78320000 :: u32"
abbreviation (input) "PFAT_BOOT_RECORD_OFFSET \<equiv> 482 :: nat"
abbreviation (input) "PFAT_ENTRY_SIZE \<equiv> 28 :: nat"
abbreviation (input) "FAT_ENTRY_FREE \<equiv> 0 :: u32"
abbreviation (input) "FAT_ENTRY_EOF \<equiv> 1 :: u32"
abbreviation (input) "O_WRITE \<equiv> 4 :: u32"

record bootSector =
  bs_magic :: u32
  fileAllocationOffset :: int
  fileAllocationLength :: int
  rootDirectoryOffset :: int
  rootDirectoryCount :: int

record directoryEntry =
  de_fileName :: "u8 list"
  de_attrs :: u8
  de_firstBlock :: u32
  de_fileSize :: u32

definition readOnly :: "directoryEntry \<Rightarrow> bool" where "readOnly e \<longleftrightarrow> bit (de_attrs e) 0"
definition directory :: "directoryEntry \<Rightarrow> bool" where "directory e \<longleftrightarrow> bit (de_attrs e) 4"

text \<open>A pointer to an entry: the made-up root entry, or one of the directory.\<close>

datatype entry_ptr = RootEnt | Ent nat

record PFAT_File =
  pf_entry :: entry_ptr
  numBlocks :: nat
  fileDataCache :: "u8 list"
  validBlockSet :: "u8 list"

record PFAT_Instance =
  p_fsinfo :: bootSector
  p_fat :: "u32 list"
  p_rootDir :: "u8 list"
  p_rootDirEntry :: directoryEntry
  p_fileList :: "PFAT_File list"

text \<open>The fields of a boot sector and of an entry at their offsets.\<close>

definition dec_boot :: "u8 list \<Rightarrow> bootSector kres" where
  "dec_boot xs = do {
     m \<leftarrow> get_word xs PFAT_BOOT_RECORD_OFFSET;
     fo \<leftarrow> get_word xs (PFAT_BOOT_RECORD_OFFSET + 4);
     fl \<leftarrow> get_word xs (PFAT_BOOT_RECORD_OFFSET + 8);
     ro \<leftarrow> get_word xs (PFAT_BOOT_RECORD_OFFSET + 12);
     rc \<leftarrow> get_word xs (PFAT_BOOT_RECORD_OFFSET + 16);
     Some \<lparr>bs_magic = m, fileAllocationOffset = sint fo, fileAllocationLength = sint fl,
       rootDirectoryOffset = sint ro, rootDirectoryCount = sint rc\<rparr> }"

definition dir_entry_at :: "u8 list \<Rightarrow> nat \<Rightarrow> directoryEntry kres" where
  "dir_entry_at xs i = do {
     nm \<leftarrow> get_bytes xs (PFAT_ENTRY_SIZE * i) 12;
     a \<leftarrow> aget xs (PFAT_ENTRY_SIZE * i + 12);
     fb \<leftarrow> get_word xs (PFAT_ENTRY_SIZE * i + 20);
     sz \<leftarrow> get_word xs (PFAT_ENTRY_SIZE * i + 24);
     Some \<lparr>de_fileName = nm, de_attrs = a, de_firstBlock = fb, de_fileSize = sz\<rparr> }"

definition entry_of :: "PFAT_Instance \<Rightarrow> entry_ptr \<Rightarrow> directoryEntry kres" where
  "entry_of s p = (case p of RootEnt \<Rightarrow> Some (p_rootDirEntry s) | Ent i \<Rightarrow> dir_entry_at (p_rootDir s) i)"

definition string_at :: "u8 list \<Rightarrow> nat \<Rightarrow> cstr kres" where
  "string_at xs p = (if 0 \<in> set (drop p xs) then Some (takeWhile (\<lambda>b. b \<noteq> 0) (drop p xs)) else None)"

section \<open>Metadata\<close>

definition Copy_Stat :: "directoryEntry \<Rightarrow> VFS_File_Stat" where
  "Copy_Stat e =
     (let permission = (if readOnly e then O_READ else O_READ OR O_WRITE) in
      \<lparr>st_size = de_fileSize e, isDirectory = (if directory e then 1 else 0), isSetuid = 0,
       acls = le_bytes (bf_set 28 4 permission 0) @ replicate 36 0\<rparr>)"

fun find_name :: "u8 list \<Rightarrow> cstr \<Rightarrow> nat \<Rightarrow> nat \<Rightarrow> nat option kres" where
  "find_name xs p i 0 = Some None"
| "find_name xs p i (Suc n) = do {
     nm \<leftarrow> string_at xs (PFAT_ENTRY_SIZE * i);
     if nm = p then Some (Some i) else find_name xs p (Suc i) n }"

definition Do_PFAT_Lookup :: "PFAT_Instance \<Rightarrow> cstr \<Rightarrow> entry_ptr option kres" where
  "Do_PFAT_Lookup s p = do {
     KASSERT (p \<noteq> [] \<and> hd p = SLASH);
     if p = [SLASH] then Some (Some RootEnt)
     else do {
       r \<leftarrow> find_name (p_rootDir s) (tl p) 0 (nat (rootDirectoryCount (p_fsinfo s)));
       Some (map_option Ent r) } }"

definition PFAT_Stat :: "cstr \<Rightarrow> VFS_File_Stat \<Rightarrow> PFAT_Instance \<Rightarrow> (int \<times> VFS_File_Stat) kres" where
  "PFAT_Stat p st s = do {
     r \<leftarrow> Do_PFAT_Lookup s p;
     case r of
       None \<Rightarrow> Some (ENOTFOUND, st)
     | Some ptr \<Rightarrow> do { e \<leftarrow> entry_of s ptr; Some (0, Copy_Stat e) } }"

section \<open>Open files\<close>

text \<open>The outcomes of the three allocations for a new file object, and of the one for the \<open>File\<close>.\<close>

record pfat_env =
  pm_file :: bool
  pm_cache :: "nat \<Rightarrow> u8 list option"
  pm_set :: bool
  pm_File :: bool
  pm_mount :: bool
  pm_dentry :: bool

fun find_pfat_file :: "entry_ptr \<Rightarrow> PFAT_File list \<Rightarrow> nat \<Rightarrow> nat option" where
  "find_pfat_file p [] i = None"
| "find_pfat_file p (f # fs) i = (if pf_entry f = p then Some i else find_pfat_file p fs (Suc i))"

text \<open>When one of the later allocations fails the code returns the object it has just freed; the
  model stops there.\<close>

definition Get_PFAT_File :: "pfat_env \<Rightarrow> entry_ptr \<Rightarrow> PFAT_Instance \<Rightarrow> (nat option \<times> PFAT_Instance) kres" where
  "Get_PFAT_File E p s =
     (case find_pfat_file p (p_fileList s) 0 of
        Some i \<Rightarrow> Some (Some i, s)
      | None \<Rightarrow> do {
          e \<leftarrow> entry_of s p;
          let nb = unat (Round_Up_To_Block (de_fileSize e) div 512);
          if \<not> pm_file E then Some (None, s)
          else do {
            cache \<leftarrow> pm_cache E (nb * 512);
            set \<leftarrow> Create_Bit_Set (pm_set E) nb;
            Some (Some (length (p_fileList s)),
              s\<lparr>p_fileList := p_fileList s @ [\<lparr>pf_entry = p, numBlocks = nb, fileDataCache = cache, validBlockSet = set\<rparr>]\<rparr>) } })"

text \<open>If there is no memory for the file object, the result is success without a file.\<close>

definition PFAT_Open ::
  "pfat_env \<Rightarrow> cstr \<Rightarrow> u32 \<Rightarrow> PFAT_Instance \<Rightarrow> (int \<times> File option \<times> PFAT_Instance) kres" where
  "PFAT_Open E p mode s =
     (if mode AND (O_WRITE OR O_CREATE) \<noteq> 0 then Some (EACCESS, None, s)
      else do {
        r \<leftarrow> Do_PFAT_Lookup s p;
        case r of
          None \<Rightarrow> Some (ENOTFOUND, None, s)
        | Some ptr \<Rightarrow> do {
            e \<leftarrow> entry_of s ptr;
            if directory e then Some (EACCESS, None, s)
            else do {
              (g, s) \<leftarrow> Get_PFAT_File E ptr s;
              case g of
                None \<Rightarrow> Some (0, None, s)
              | Some i \<Rightarrow>
                  (case Allocate_File (pm_File E) s_pfatFileOps 0 (de_fileSize e) i 0 0 of
                     None \<Rightarrow> Some (ENOMEM, None, s)
                   | Some f \<Rightarrow> Some (0, Some f, s)) } } })"

definition PFAT_Open_Directory :: "pfat_env \<Rightarrow> cstr \<Rightarrow> PFAT_Instance \<Rightarrow> (int \<times> File option) kres" where
  "PFAT_Open_Directory E p s =
     (if p \<noteq> [SLASH] then Some (ENOTFOUND, None)
      else Some (case Allocate_File (pm_File E) s_pfatDirOps 0 (word_of_int (rootDirectoryCount (p_fsinfo s))) 0 0 0 of
          None \<Rightarrow> (ENOMEM, None) | Some f \<Rightarrow> (0, Some f)))"

text \<open>Following the table of blocks from the start of the file; block \<open>i\<close> of the file is \<open>curBlock\<close>.\<close>

fun read_blocks :: "disk \<Rightarrow> u32 list \<Rightarrow> nat \<Rightarrow> nat \<Rightarrow> nat \<Rightarrow> u32 \<Rightarrow> PFAT_File \<Rightarrow> (int \<times> PFAT_File) kres" where
  "read_blocks d fat startBlock i 0 curBlock pf = Some (0, pf)"
| "read_blocks d fat startBlock i (Suc n) curBlock pf =
     (if curBlock = FAT_ENTRY_FREE \<or> curBlock = FAT_ENTRY_EOF then Some (EIO, pf)
      else do {
        (rc, pf) \<leftarrow> (if i \<ge> startBlock then do {
            valid \<leftarrow> Is_Bit_Set (validBlockSet pf) i;
            if \<not> valid then
              (case dev_read d (sint curBlock) of (rc, sec) \<Rightarrow>
                 if rc = 0 then do {
                   xs \<leftarrow> put_bytes (fileDataCache pf) (i * 512) sec;
                   vs \<leftarrow> Set_Bit (validBlockSet pf) i;
                   Some (0, pf\<lparr>fileDataCache := xs, validBlockSet := vs\<rparr>) }
                 else Some (rc, pf))
            else Some (0, pf) }
          else Some (0, pf));
        if rc \<noteq> 0 then Some (rc, pf)
        else do {
          nextBlock \<leftarrow> aget fat (unat curBlock);
          read_blocks d fat startBlock (Suc i) n nextBlock pf } })"

definition PFAT_Read :: "disk \<Rightarrow> File \<Rightarrow> u32 \<Rightarrow> PFAT_Instance \<Rightarrow> (int \<times> u8 list \<times> PFAT_Instance) kres" where
  "PFAT_Read d f numBytes s = do {
     pf \<leftarrow> aget (p_fileList s) (f_fsData f);
     let start = filePos f;
     let fin = filePos f + numBytes;
     if numBytes > 0x7FFFFFFF then Some (EINVALID, [], s)
     else if start \<ge> endPos f \<or> fin > endPos f \<or> fin < start then Some (EINVALID, [], s)
     else do {
       let startBlock = (start mod 512) div 512;
       let endBlock = Round_Up_To_Block fin div 512;
       e \<leftarrow> entry_of s (pf_entry pf);
       (rc, pf) \<leftarrow> read_blocks d (p_fat s) (unat startBlock) 0 (unat endBlock) (de_firstBlock e) pf;
       let s = s\<lparr>p_fileList := (p_fileList s)[f_fsData f := pf]\<rparr>;
       if rc \<noteq> 0 then Some (rc, [], s)
       else do {
         xs \<leftarrow> get_bytes (fileDataCache pf) (unat start) (unat numBytes);
         Some (sint numBytes, xs, s) } } }"

definition PFAT_FStat :: "File \<Rightarrow> PFAT_Instance \<Rightarrow> (int \<times> VFS_File_Stat) kres" where
  "PFAT_FStat f s = do {
     pf \<leftarrow> aget (p_fileList s) (f_fsData f);
     e \<leftarrow> entry_of s (pf_entry pf);
     Some (0, Copy_Stat e) }"

definition PFAT_Write :: int where
  "PFAT_Write = EACCESS"

definition PFAT_Seek :: "File \<Rightarrow> u32 \<Rightarrow> int \<times> File" where
  "PFAT_Seek f pos = (if pos \<ge> endPos f then (EINVALID, f) else (0, f\<lparr>filePos := pos\<rparr>))"

definition PFAT_Close :: int where
  "PFAT_Close = 0"

section \<open>The open directory\<close>

definition PFAT_FStat_Dir :: "PFAT_Instance \<Rightarrow> int \<times> VFS_File_Stat" where
  "PFAT_FStat_Dir s = (0, Copy_Stat (p_rootDirEntry s))"

definition PFAT_Close_Dir :: int where
  "PFAT_Close_Dir = 0"

definition PFAT_Read_Entry ::
  "File \<Rightarrow> cstr \<Rightarrow> VFS_File_Stat \<Rightarrow> PFAT_Instance \<Rightarrow> (int \<times> File \<times> cstr \<times> VFS_File_Stat) kres" where
  "PFAT_Read_Entry dir nm st s =
     (if filePos dir \<ge> endPos dir then Some (VFS_NO_MORE_DIR_ENTRIES, dir, nm, st)
      else do {
        e \<leftarrow> dir_entry_at (p_rootDir s) (unat (filePos dir));
        Some (0, dir\<lparr>filePos := filePos dir + 1\<rparr>, takeWhile (\<lambda>b. b \<noteq> 0) (de_fileName e), Copy_Stat e) })"

section \<open>Paths and synchronization\<close>

definition PFAT_Sync :: int where
  "PFAT_Sync = 0"

text \<open>Every path is looked up as the root directory; the path of any directory is its name.\<close>

definition PFAT_Get_Path :: "directoryEntry \<Rightarrow> int \<times> cstr" where
  "PFAT_Get_Path e = (0, takeWhile (\<lambda>b. b \<noteq> 0) (de_fileName e))"

definition PFAT_Lookup :: "cstr \<Rightarrow> PFAT_Instance \<Rightarrow> int \<times> directoryEntry" where
  "PFAT_Lookup p s = (0, p_rootDirEntry s)"

section \<open>Mounting\<close>

definition PAGEFILE_FILENAME :: cstr where
  "PAGEFILE_FILENAME = [0x2F, 0x70, 0x61, 0x67, 0x65, 0x66, 0x69, 0x6C, 0x65, 0x2E, 0x62, 0x69, 0x6E]"

text \<open>The paging device that is registered afterwards; a failed allocation registers none.\<close>

definition PFAT_Register_Paging_File ::
  "pfat_env \<Rightarrow> u32 \<Rightarrow> cstr \<Rightarrow> PFAT_Instance \<Rightarrow> Paging_Device option \<Rightarrow> Paging_Device option kres" where
  "PFAT_Register_Paging_File E dv prefix s pd =
     (if pd \<noteq> None then Some pd
      else do {
        r \<leftarrow> Do_PFAT_Lookup s PAGEFILE_FILENAME;
        case r of
          None \<Rightarrow> Some None
        | Some ptr \<Rightarrow> do {
            e \<leftarrow> entry_of s ptr;
            if \<not> pm_mount E then Some None
            else Some (Some \<lparr>pd_fileName = SLASH # prefix @ PAGEFILE_FILENAME, pd_dev = dv,
              pd_startSector = de_firstBlock e, pd_numSectors = word_of_int (sint (de_fileSize e) sdiv 512)\<rparr>) } })"

text \<open>\<open>n\<close> sectors from \<open>blk\<close> on.\<close>

fun load_sectors :: "disk \<Rightarrow> int \<Rightarrow> nat \<Rightarrow> int \<times> u8 list" where
  "load_sectors d blk 0 = (0, [])"
| "load_sectors d blk (Suc n) =
     (case dev_read d blk of (rc, sec) \<Rightarrow>
        if rc < 0 then (rc, [])
        else case load_sectors d (blk + 1) n of (rc, xs) \<Rightarrow> (rc, sec @ xs))"

definition root_dir_size :: "bootSector \<Rightarrow> int" where
  "root_dir_size b = sint (Round_Up_To_Block (of_nat PFAT_ENTRY_SIZE * word_of_int (rootDirectoryCount b)))"

definition fake_root :: "bootSector \<Rightarrow> directoryEntry" where
  "fake_root b = \<lparr>de_fileName = replicate 12 0, de_attrs = 0x11, de_firstBlock = 0,
     de_fileSize = word_of_int (rootDirectoryCount b) * of_nat PFAT_ENTRY_SIZE\<rparr>"

definition PFAT_Mount ::
  "pfat_env \<Rightarrow> u32 \<Rightarrow> cstr \<Rightarrow> disk \<Rightarrow> Paging_Device option \<Rightarrow> (int \<times> PFAT_Instance option \<times> Paging_Device option) kres" where
  "PFAT_Mount E dv prefix d pd =
     (if \<not> pm_mount E then Some (ENOMEM, None, pd)
      else case dev_read d 0 of (rc, bootSect) \<Rightarrow>
        if rc < 0 then Some (rc, None, pd)
        else do {
          b \<leftarrow> dec_boot bootSect;
          if bs_magic b \<noteq> PFAT_MAGIC then Some (EINVALIDFS, None, pd)
          else if fileAllocationOffset b \<le> 0 \<or> fileAllocationLength b \<le> 0 \<or> rootDirectoryCount b < 0 \<or> rootDirectoryOffset b \<le> 0
          then Some (EINVALIDFS, None, pd)
          else case load_sectors d (fileAllocationOffset b) (nat (fileAllocationLength b)) of (rc, fat) \<Rightarrow>
            if rc < 0 then Some (rc, None, pd)
            else case load_sectors d (rootDirectoryOffset b) (nat (root_dir_size b sdiv 512)) of (rc, root) \<Rightarrow>
              if rc < 0 then Some (rc, None, pd)
              else do {
                let s = \<lparr>p_fsinfo = b, p_fat = bytes_words (128 * nat (fileAllocationLength b)) fat, p_rootDir = root,
                  p_rootDirEntry = fake_root b, p_fileList = []\<rparr>;
                pd \<leftarrow> PFAT_Register_Paging_File E dv prefix s pd;
                Some (0, Some s, pd) } })"

end
