(* ===== verification/Vfs.thy ===== *)
theory Vfs
  imports BlockDev Gosfs Pfat
begin

text \<open>
  The virtual file system, \<open>geekos/vfs.c\<close>: registered file system types, the mount table, and the
  dispatch of paths and open files to the operations of the file systems.

  A table of operations is a record whose fields are functions on the state \<open>'w\<close> of the file
  systems; an operation that is optional is \<open>None\<close> where the code has a null pointer.  The object
  of a mounted instance is an index (\<open>fsData\<close>).  The table of an open file is named by its
  \<open>File_Ops\<close>.
\<close>

section \<open>State\<close>

abbreviation (input) "VFS_MAX_FS_NAME_LEN \<equiv> 15 :: nat"

text \<open>What the \<open>void *dentry\<close> of a path points to: each file system keeps an object of its own.\<close>

datatype dentry_obj = GosfsDentry Dir_Entry_Ptr | PfatDentry directoryEntry

record 'w Mount_Point_Ops =
  op_Open :: "(nat \<Rightarrow> cstr \<Rightarrow> u32 \<Rightarrow> 'w \<Rightarrow> (int \<times> File option \<times> 'w) kres) option"
  op_Create_Directory :: "(nat \<Rightarrow> cstr \<Rightarrow> 'w \<Rightarrow> (int \<times> 'w) kres) option"
  op_Open_Directory :: "(nat \<Rightarrow> cstr \<Rightarrow> 'w \<Rightarrow> (int \<times> File option \<times> 'w) kres) option"
  op_Stat :: "(nat \<Rightarrow> cstr \<Rightarrow> VFS_File_Stat \<Rightarrow> 'w \<Rightarrow> (int \<times> VFS_File_Stat \<times> 'w) kres) option"
  op_Sync :: "(nat \<Rightarrow> 'w \<Rightarrow> (int \<times> 'w) kres) option"
  op_Delete :: "(nat \<Rightarrow> cstr \<Rightarrow> 'w \<Rightarrow> (int \<times> 'w) kres) option"
  op_Get_Path :: "(nat \<Rightarrow> dentry_obj \<Rightarrow> cstr \<Rightarrow> 'w \<Rightarrow> (int \<times> cstr \<times> 'w) kres) option"
  op_Lookup :: "(nat \<Rightarrow> cstr \<Rightarrow> 'w \<Rightarrow> (int \<times> dentry_obj option \<times> 'w) kres) option"

record 'w File_Ops_Table =
  op_FStat :: "(File \<Rightarrow> VFS_File_Stat \<Rightarrow> 'w \<Rightarrow> (int \<times> VFS_File_Stat \<times> 'w) kres) option"
  op_Read :: "(File \<Rightarrow> u32 \<Rightarrow> 'w \<Rightarrow> (int \<times> u8 list \<times> File \<times> 'w) kres) option"
  op_Write :: "(File \<Rightarrow> u8 list \<Rightarrow> 'w \<Rightarrow> (int \<times> File \<times> 'w) kres) option"
  op_Seek :: "(File \<Rightarrow> u32 \<Rightarrow> 'w \<Rightarrow> (int \<times> File \<times> 'w) kres) option"
  op_Close :: "(File \<Rightarrow> 'w \<Rightarrow> (int \<times> 'w) kres) option"
  op_Read_Entry :: "(File \<Rightarrow> cstr \<Rightarrow> VFS_File_Stat \<Rightarrow> 'w \<Rightarrow> (int \<times> File \<times> cstr \<times> VFS_File_Stat \<times> 'w) kres) option"

record 'w Mount_Point =
  mp_ops :: "'w Mount_Point_Ops"
  mp_pathPrefix :: cstr
  mp_dev :: u32
  mp_fsData :: nat

text \<open>The \<open>Mount\<close> operation of a file system is given the device and the prefix of the mount point and fills
  in its table and its object; it may also register a paging device.\<close>

record 'w Filesystem_Ops =
  op_Format :: "(u32 \<Rightarrow> 'w \<Rightarrow> (int \<times> 'w) kres) option"
  op_Mount :: "(u32 \<Rightarrow> cstr \<Rightarrow> Paging_Device option \<Rightarrow> 'w \<Rightarrow>
    (int \<times> 'w Mount_Point_Ops \<times> nat \<times> Paging_Device option \<times> 'w) kres) option"

record 'w Filesystem =
  fs_ops :: "'w Filesystem_Ops"
  fsName :: cstr

text \<open>\<open>struct path\<close>: both members are pointers, so a copy of the structure shares what they point to.
  \<open>strings\<close> and \<open>dentries\<close> are the objects; a directory entry that has been freed is gone.\<close>

record path =
  pathPrefix :: u32
  dentry_ptr :: u32

record 'w vfs =
  s_mountPointList :: "'w Mount_Point list"
  s_filesystemList :: "'w Filesystem list"
  s_pagingDevice :: "Paging_Device option"
  strings :: "u32 \<Rightarrow> cstr"
  dentries :: "u32 \<Rightarrow> dentry_obj option"
  devices :: bio
  world :: 'w

text \<open>The outcomes of the allocations and of the drivers, the capacity of the caller's path buffer
  and of the array behind a path's prefix, and the address of the next directory entry object.\<close>

record vfs_env =
  v_malloc :: bool
  v_strdup :: bool
  v_open :: "u32 \<Rightarrow> int"
  v_close :: "u32 \<Rightarrow> int"
  v_pathCap :: nat
  v_prefixCap :: nat
  v_newDentry :: u32

definition onw :: "('w \<Rightarrow> (int \<times> 'w) kres) \<Rightarrow> 'w vfs \<Rightarrow> (int \<times> 'w vfs) kres" where
  "onw f s = do { (rc, w) \<leftarrow> f (world s); Some (rc, s\<lparr>world := w\<rparr>) }"

definition onw3 :: "('w \<Rightarrow> (int \<times> 'a \<times> 'w) kres) \<Rightarrow> 'w vfs \<Rightarrow> (int \<times> 'a \<times> 'w vfs) kres" where
  "onw3 f s = do { (rc, x, w) \<leftarrow> f (world s); Some (rc, x, s\<lparr>world := w\<rparr>) }"

section \<open>The mount table\<close>

text \<open>The two searches, each under the lock of the module.\<close>

definition Lookup_Filesystem :: "cstr \<Rightarrow> 'w vfs \<Rightarrow> 'w Filesystem option" where
  "Lookup_Filesystem fstype s = List.find (\<lambda>fs. fsName fs = fstype) (s_filesystemList s)"

definition Lookup_Mount_Point :: "cstr \<Rightarrow> 'w vfs \<Rightarrow> (nat \<times> 'w Mount_Point) option" where
  "Lookup_Mount_Point prefix s =
     (case List.find (\<lambda>i. mp_pathPrefix (s_mountPointList s ! i) = prefix) [0..<length (s_mountPointList s)] of
        None \<Rightarrow> None
      | Some i \<Rightarrow> Some (i, s_mountPointList s ! i))"

definition Register_Filesystem :: "vfs_env \<Rightarrow> cstr \<Rightarrow> 'w Filesystem_Ops \<Rightarrow> 'w vfs \<Rightarrow> (bool \<times> 'w vfs) kres" where
  "Register_Filesystem E nm ops s = do {
     KASSERT (op_Mount ops \<noteq> None);
     if \<not> v_malloc E then Some (False, s)
     else Some (True, s\<lparr>s_filesystemList := s_filesystemList s @ [\<lparr>fs_ops = ops, fsName = take VFS_MAX_FS_NAME_LEN nm\<rparr>]\<rparr>) }"

definition Format :: "vfs_env \<Rightarrow> string \<Rightarrow> cstr \<Rightarrow> 'w vfs \<Rightarrow> (int \<times> 'w vfs) kres" where
  "Format E devname fstype s =
     (case Lookup_Filesystem fstype s of
        None \<Rightarrow> Some (ENOFILESYS, s)
      | Some fs \<Rightarrow>
          (case op_Format (fs_ops fs) of
             None \<Rightarrow> Some (EUNSUPPORTED, s)
           | Some format \<Rightarrow> do {
               let (rc, dv, ds) = Open_Block_Device (v_open E) devname (devices s);
               let s = s\<lparr>devices := ds\<rparr>;
               if rc < 0 then Some (rc, s)
               else do {
                 dv \<leftarrow> dv;
                 (rc, s) \<leftarrow> onw (format dv) s;
                 (_, ds) \<leftarrow> Close_Block_Device (v_close E) dv (devices s);
                 Some (rc, s\<lparr>devices := ds\<rparr>) } }))"

text \<open>\<open>mount_fail\<close> is the cleanup at the end of \<open>Mount\<close>.\<close>

definition mount_fail :: "vfs_env \<Rightarrow> int \<Rightarrow> u32 \<Rightarrow> 'w vfs \<Rightarrow> (int \<times> 'w vfs) kres" where
  "mount_fail E rc dv s = do {
     (_, ds) \<leftarrow> Close_Block_Device (v_close E) dv (devices s);
     Some (rc, s\<lparr>devices := ds\<rparr>) }"

definition Mount :: "vfs_env \<Rightarrow> string \<Rightarrow> cstr \<Rightarrow> cstr \<Rightarrow> 'w vfs \<Rightarrow> (int \<times> 'w vfs) kres" where
  "Mount E devname prefix fstype s =
     (let prefix = dropWhile (\<lambda>c. c = SLASH) prefix in
      if length prefix > MAX_PREFIX_LEN then Some (ENAMETOOLONG, s)
      else case Lookup_Filesystem fstype s of
        None \<Rightarrow> Some (ENOFILESYS, s)
      | Some fs \<Rightarrow> do {
          mount \<leftarrow> op_Mount (fs_ops fs);
          let (rc, dv, ds) = Open_Block_Device (v_open E) devname (devices s);
          let s = s\<lparr>devices := ds\<rparr>;
          if rc < 0 then Some (rc, s)
          else do {
            dv \<leftarrow> dv;
            if \<not> v_malloc E \<or> \<not> v_strdup E then mount_fail E ENOMEM dv s
            else do {
              (rc, ops, fsd, pd, w) \<leftarrow> mount dv prefix (s_pagingDevice s) (world s);
              let s = s\<lparr>world := w, s_pagingDevice := pd\<rparr>;
              if rc < 0 then mount_fail E rc dv s
              else Some (0, s\<lparr>s_mountPointList := s_mountPointList s @
                [\<lparr>mp_ops = ops, mp_pathPrefix = prefix, mp_dev = dv, mp_fsData = fsd\<rparr>]\<rparr>) } } })"

section \<open>Paths\<close>

definition Get_Path :: "path \<Rightarrow> 'w vfs \<Rightarrow> (int \<times> cstr \<times> 'w vfs) kres" where
  "Get_Path p s =
     (let spath = SLASH # strings s (pathPrefix p) in
      case Lookup_Mount_Point (strings s (pathPrefix p)) s of
        None \<Rightarrow> Some (ENOTFOUND, spath, s)
      | Some (i, mp) \<Rightarrow>
          (case op_Get_Path (mp_ops mp) of
             None \<Rightarrow> Some (EUNSUPPORTED, spath, s)
           | Some get_path \<Rightarrow> do {
               d \<leftarrow> dentries s (dentry_ptr p);
               (rc, rest, s) \<leftarrow> onw3 (get_path (mp_fsData mp) d []) s;
               Some (rc, spath @ rest, s) }))"

text \<open>The path in the caller's buffer, made absolute; \<open>cwd\<close> is what \<open>Get_Cwd\<close> returns.\<close>

definition Convert_To_Abs_Path :: "vfs_env \<Rightarrow> path \<Rightarrow> cstr \<Rightarrow> 'w vfs \<Rightarrow> (cstr \<times> 'w vfs) kres" where
  "Convert_To_Abs_Path E cwd p s = do {
     KASSERT (v_strdup E);
     (_, spath, s) \<leftarrow> Get_Path cwd s;
     p' \<leftarrow> copy_str (v_pathCap E) (spath @ SLASH # p);
     Some (p', s) }"

text \<open>What every operation on a path begins with: an absolute path, its parts, and the mount point.\<close>

definition resolve_mount ::
  "vfs_env \<Rightarrow> path \<Rightarrow> cstr \<Rightarrow> 'w vfs \<Rightarrow> ((cstr \<times> cstr \<times> nat \<times> 'w Mount_Point) option \<times> 'w vfs) kres" where
  "resolve_mount E cwd p s = do {
     (p, s) \<leftarrow> (if p \<noteq> [] \<and> hd p = SLASH then Some (p, s) else Convert_To_Abs_Path E cwd p s);
     u \<leftarrow> Unpack_Path p;
     Some (case u of
        None \<Rightarrow> None
      | Some (prefix, suffix) \<Rightarrow>
          (case Lookup_Mount_Point prefix s of
             None \<Rightarrow> None
           | Some (i, mp) \<Rightarrow> Some (prefix, suffix, i, mp)), s) }"

definition Do_Open ::
  "vfs_env \<Rightarrow> path \<Rightarrow> cstr \<Rightarrow> u32 \<Rightarrow>
   ('w Mount_Point \<Rightarrow> cstr \<Rightarrow> u32 \<Rightarrow> 'w \<Rightarrow> (int \<times> File option \<times> 'w) kres) \<Rightarrow> 'w vfs \<Rightarrow> (int \<times> File option \<times> 'w vfs) kres" where
  "Do_Open E cwd p mode openFunc s = do {
     (r, s) \<leftarrow> resolve_mount E cwd p s;
     case r of
       None \<Rightarrow> Some (ENOTFOUND, None, s)
     | Some (prefix, suffix, i, mp) \<Rightarrow> do {
         (rc, f, s) \<leftarrow> onw3 (openFunc mp suffix mode) s;
         if rc = 0 then do { f \<leftarrow> f; Some (rc, Some (f\<lparr>f_mode := mode, f_mountPoint := i\<rparr>), s) }
         else Some (rc, f, s) } }"

definition Do_Open_File :: "'w Mount_Point \<Rightarrow> cstr \<Rightarrow> u32 \<Rightarrow> 'w \<Rightarrow> (int \<times> File option \<times> 'w) kres" where
  "Do_Open_File mp p mode w = do { open_op \<leftarrow> op_Open (mp_ops mp); open_op (mp_fsData mp) p mode w }"

definition Do_Open_Directory :: "'w Mount_Point \<Rightarrow> cstr \<Rightarrow> u32 \<Rightarrow> 'w \<Rightarrow> (int \<times> File option \<times> 'w) kres" where
  "Do_Open_Directory mp p mode w = do { open_op \<leftarrow> op_Open_Directory (mp_ops mp); open_op (mp_fsData mp) p w }"

definition Open :: "vfs_env \<Rightarrow> path \<Rightarrow> cstr \<Rightarrow> u32 \<Rightarrow> 'w vfs \<Rightarrow> (int \<times> File option \<times> 'w vfs) kres" where
  "Open E cwd p mode s = Do_Open E cwd p mode Do_Open_File s"

definition Open_Directory :: "vfs_env \<Rightarrow> path \<Rightarrow> cstr \<Rightarrow> 'w vfs \<Rightarrow> (int \<times> File option \<times> 'w vfs) kres" where
  "Open_Directory E cwd p s = Do_Open E cwd p 0 Do_Open_Directory s"

definition Stat :: "vfs_env \<Rightarrow> path \<Rightarrow> cstr \<Rightarrow> VFS_File_Stat \<Rightarrow> 'w vfs \<Rightarrow> (int \<times> VFS_File_Stat \<times> 'w vfs) kres" where
  "Stat E cwd p st s = do {
     (r, s) \<leftarrow> resolve_mount E cwd p s;
     case r of
       None \<Rightarrow> Some (ENOTFOUND, st, s)
     | Some (prefix, suffix, i, mp) \<Rightarrow>
         (case op_Stat (mp_ops mp) of
            None \<Rightarrow> Some (EUNSUPPORTED, st, s)
          | Some stat \<Rightarrow> onw3 (stat (mp_fsData mp) suffix st) s) }"

definition Create_Directory :: "vfs_env \<Rightarrow> path \<Rightarrow> cstr \<Rightarrow> 'w vfs \<Rightarrow> (int \<times> 'w vfs) kres" where
  "Create_Directory E cwd p s = do {
     (r, s) \<leftarrow> resolve_mount E cwd p s;
     case r of
       None \<Rightarrow> Some (ENOTFOUND, s)
     | Some (prefix, suffix, i, mp) \<Rightarrow>
         (case op_Create_Directory (mp_ops mp) of
            None \<Rightarrow> Some (EUNSUPPORTED, s)
          | Some mkdir \<Rightarrow> onw (mkdir (mp_fsData mp) suffix) s) }"

definition Delete :: "vfs_env \<Rightarrow> path \<Rightarrow> cstr \<Rightarrow> 'w vfs \<Rightarrow> (int \<times> 'w vfs) kres" where
  "Delete E cwd p s = do {
     (r, s) \<leftarrow> resolve_mount E cwd p s;
     case r of
       None \<Rightarrow> Some (ENOTFOUND, s)
     | Some (prefix, suffix, i, mp) \<Rightarrow>
         (case op_Delete (mp_ops mp) of
            None \<Rightarrow> Some (EUNSUPPORTED, s)
          | Some delete \<Rightarrow> onw (delete (mp_fsData mp) suffix) s) }"

text \<open>The prefix is stored before the file system has answered.\<close>

definition Lookup :: "vfs_env \<Rightarrow> path \<Rightarrow> cstr \<Rightarrow> path \<Rightarrow> 'w vfs \<Rightarrow> (int \<times> path \<times> 'w vfs) kres" where
  "Lookup E cwd spath p s = do {
     (r, s) \<leftarrow> resolve_mount E cwd spath s;
     case r of
       None \<Rightarrow> Some (ENOTFOUND, p, s)
     | Some (prefix, suffix, i, mp) \<Rightarrow> do {
         prefix \<leftarrow> copy_str (v_prefixCap E) prefix;
         let s = s\<lparr>strings := (strings s)(pathPrefix p := prefix)\<rparr>;
         case op_Lookup (mp_ops mp) of
           None \<Rightarrow> Some (EUNSUPPORTED, p, s)
         | Some look \<Rightarrow> do {
             (rc, d, s) \<leftarrow> onw3 (look (mp_fsData mp) suffix) s;
             Some (case d of
                 None \<Rightarrow> (rc, p, s)
               | Some d \<Rightarrow> (rc, p\<lparr>dentry_ptr := v_newDentry E\<rparr>, s\<lparr>dentries := (dentries s)(v_newDentry E := Some d)\<rparr>)) } } }"

section \<open>Open files\<close>

definition Close :: "(File_Ops \<Rightarrow> 'w File_Ops_Table) \<Rightarrow> File \<Rightarrow> 'w vfs \<Rightarrow> (int \<times> 'w vfs) kres" where
  "Close T f s = do { close_op \<leftarrow> op_Close (T (f_ops f)); onw (close_op f) s }"

definition FStat :: "(File_Ops \<Rightarrow> 'w File_Ops_Table) \<Rightarrow> File \<Rightarrow> VFS_File_Stat \<Rightarrow> 'w vfs \<Rightarrow> (int \<times> VFS_File_Stat \<times> 'w vfs) kres" where
  "FStat T f st s =
     (case op_FStat (T (f_ops f)) of None \<Rightarrow> Some (EUNSUPPORTED, st, s) | Some fstat \<Rightarrow> onw3 (fstat f st) s)"

definition Read :: "(File_Ops \<Rightarrow> 'w File_Ops_Table) \<Rightarrow> File \<Rightarrow> u32 \<Rightarrow> 'w vfs \<Rightarrow> (int \<times> u8 list \<times> File \<times> 'w vfs) kres" where
  "Read T f n s =
     (case op_Read (T (f_ops f)) of
        None \<Rightarrow> Some (EUNSUPPORTED, [], f, s)
      | Some rd \<Rightarrow> do { (rc, xs, f, w) \<leftarrow> rd f n (world s); Some (rc, xs, f, s\<lparr>world := w\<rparr>) })"

definition Write :: "(File_Ops \<Rightarrow> 'w File_Ops_Table) \<Rightarrow> File \<Rightarrow> u8 list \<Rightarrow> 'w vfs \<Rightarrow> (int \<times> File \<times> 'w vfs) kres" where
  "Write T f xs s =
     (case op_Write (T (f_ops f)) of None \<Rightarrow> Some (EUNSUPPORTED, f, s) | Some wr \<Rightarrow> onw3 (wr f xs) s)"

definition Seek :: "(File_Ops \<Rightarrow> 'w File_Ops_Table) \<Rightarrow> File \<Rightarrow> u32 \<Rightarrow> 'w vfs \<Rightarrow> (int \<times> File \<times> 'w vfs) kres" where
  "Seek T f pos s =
     (case op_Seek (T (f_ops f)) of None \<Rightarrow> Some (EUNSUPPORTED, f, s) | Some seek \<Rightarrow> onw3 (seek f pos) s)"

definition Read_Entry ::
  "(File_Ops \<Rightarrow> 'w File_Ops_Table) \<Rightarrow> File \<Rightarrow> cstr \<Rightarrow> VFS_File_Stat \<Rightarrow> 'w vfs \<Rightarrow>
   (int \<times> File \<times> cstr \<times> VFS_File_Stat \<times> 'w vfs) kres" where
  "Read_Entry T f nm st s =
     (case op_Read_Entry (T (f_ops f)) of
        None \<Rightarrow> Some (EUNSUPPORTED, f, nm, st, s)
      | Some re \<Rightarrow> do { (rc, f, nm, st, w) \<leftarrow> re f nm st (world s); Some (rc, f, nm, st, s\<lparr>world := w\<rparr>) })"

text \<open>Synchronizing every mounted file system, up to the first error.\<close>

fun sync_mounts :: "'w Mount_Point list \<Rightarrow> 'w vfs \<Rightarrow> (int \<times> 'w vfs) kres" where
  "sync_mounts [] s = Some (0, s)"
| "sync_mounts (mp # mps) s = do {
     sync \<leftarrow> op_Sync (mp_ops mp);
     (rc, s) \<leftarrow> onw (sync (mp_fsData mp)) s;
     if rc \<noteq> 0 then Some (rc, s) else sync_mounts mps s }"

definition Sync :: "'w vfs \<Rightarrow> (int \<times> 'w vfs) kres" where
  "Sync s = sync_mounts (s_mountPointList s) s"

text \<open>The loop of \<open>Read_Fully\<close>: the bytes read so far, until there are \<open>wanted\<close>; a read of no bytes is
  repeated for ever.\<close>

partial_function (option) read_loop ::
  "(File_Ops \<Rightarrow> 'w File_Ops_Table) \<Rightarrow> int \<Rightarrow> int \<Rightarrow> u8 list \<Rightarrow> File \<Rightarrow> 'w vfs \<Rightarrow> (int \<times> u8 list \<times> File \<times> 'w vfs) kres" where
  "read_loop T wanted done_bytes buf f s =
     (if done_bytes < wanted then do {
        (rc, xs, f, s) \<leftarrow> Read T f (word_of_int (wanted - done_bytes)) s;
        if rc < 0 then Some (rc, buf, f, s)
        else do {
          buf \<leftarrow> put_bytes buf (nat done_bytes) xs;
          read_loop T wanted (done_bytes + rc) buf f s } }
      else Some (0, buf, f, s))"

definition Read_Fully ::
  "(File_Ops \<Rightarrow> 'w File_Ops_Table) \<Rightarrow> vfs_env \<Rightarrow> path \<Rightarrow> cstr \<Rightarrow> VFS_File_Stat \<Rightarrow> (nat \<Rightarrow> u8 list option) \<Rightarrow> 'w vfs \<Rightarrow>
   (int \<times> u8 list option \<times> 'w vfs) kres" where
  "Read_Fully T E cwd p junk alloc s = do {
     (rc, st, s) \<leftarrow> Stat E cwd p junk s;
     if rc < 0 then Some (rc, None, s)
     else do {
       (rc, f, s) \<leftarrow> Open E cwd p O_READ s;
       if rc < 0 then
         (case f of None \<Rightarrow> Some (rc, None, s) | Some f \<Rightarrow> do { (_, s) \<leftarrow> Close T f s; Some (rc, None, s) })
       else do {
         f \<leftarrow> f;
         if sint (st_size st) < 0 then do { (_, s) \<leftarrow> Close T f s; Some (ENOTFOUND, None, s) }
         else case alloc (nat (sint (st_size st))) of
           None \<Rightarrow> do { (_, s) \<leftarrow> Close T f s; Some (ENOMEM, None, s) }
         | Some buf \<Rightarrow> do {
             (rc, buf, f, s) \<leftarrow> read_loop T (sint (st_size st)) 0 buf f s;
             (_, s) \<leftarrow> Close T f s;
             if rc < 0 then Some (rc, None, s) else Some (0, Some buf, s) } } } }"

section \<open>The paging device\<close>

definition Register_Paging_Device :: "Paging_Device \<Rightarrow> 'w vfs \<Rightarrow> 'w vfs kres" where
  "Register_Paging_Device d s = do {
     KASSERT (s_pagingDevice s = None);
     Some (s\<lparr>s_pagingDevice := Some d\<rparr>) }"

definition Get_Paging_Device :: "'w vfs \<Rightarrow> Paging_Device option" where
  "Get_Paging_Device s = s_pagingDevice s"

end
