(* ===== verification/FsOps.thy ===== *)
theory FsOps
  imports Vfs
begin

text \<open>
  The tables of operations of the two file systems, \<open>geekos/gosfs.c\<close> and \<open>geekos/pfat.c\<close>, as the virtual
  file system calls them.  The state they share is the devices and their mounted instances; an
  object given to the wrong file system (the directory entry of a path whose prefix has changed)
  stops the machine.
\<close>

record fs_world =
  w_disks :: "u32 \<Rightarrow> disk"
  g_insts :: "GOSFS_Instance list"
  p_insts :: "PFAT_Instance list"

section \<open>GOSFS\<close>

definition on_inst :: "nat \<Rightarrow> (GOSFS_Instance \<Rightarrow> (int \<times> GOSFS_Instance) kres) \<Rightarrow> fs_world \<Rightarrow> (int \<times> fs_world) kres" where
  "on_inst n f w = do {
     s \<leftarrow> aget (g_insts w) n;
     (rc, s) \<leftarrow> f s;
     Some (rc, w\<lparr>g_insts := (g_insts w)[n := s]\<rparr>) }"

definition on_inst3 ::
  "nat \<Rightarrow> (GOSFS_Instance \<Rightarrow> (int \<times> 'a \<times> GOSFS_Instance) kres) \<Rightarrow> fs_world \<Rightarrow> (int \<times> 'a \<times> fs_world) kres" where
  "on_inst3 n f w = do {
     s \<leftarrow> aget (g_insts w) n;
     (rc, x, s) \<leftarrow> f s;
     Some (rc, x, w\<lparr>g_insts := (g_insts w)[n := s]\<rparr>) }"

definition gosfs_lookup_op :: "gosfs_env \<Rightarrow> cstr \<Rightarrow> GOSFS_Instance \<Rightarrow> (int \<times> dentry_obj option \<times> GOSFS_Instance) kres" where
  "gosfs_lookup_op E p s = map_option (\<lambda>(rc, d, s). (rc, map_option GosfsDentry d, s)) (GOSFS_Lookup E p s)"

fun gosfs_get_path_op :: "gosfs_env \<Rightarrow> dentry_obj \<Rightarrow> cstr \<Rightarrow> GOSFS_Instance \<Rightarrow> (int \<times> cstr \<times> GOSFS_Instance) kres" where
  "gosfs_get_path_op E (GosfsDentry d) p s = GOSFS_Get_Path E d p s"
| "gosfs_get_path_op E (PfatDentry d) p s = None"

text \<open>\<open>GOSFS_Sync\<close> and the operations on open files that are missing print a message and spin.\<close>

definition s_gosfsMountPointOps :: "gosfs_env \<Rightarrow> fs_world Mount_Point_Ops" where
  "s_gosfsMountPointOps E = \<lparr>
     op_Open = Some (\<lambda>n p mode. on_inst3 n (GOSFS_Open E n p mode)),
     op_Create_Directory = Some (\<lambda>n p. on_inst n (GOSFS_Create_Directory E p)),
     op_Open_Directory = Some (\<lambda>n p. on_inst3 n (GOSFS_Open_Directory E n p)),
     op_Stat = Some (\<lambda>n p st. on_inst3 n (GOSFS_Stat E p st)),
     op_Sync = Some (\<lambda>n w. None),
     op_Delete = Some (\<lambda>n p. on_inst n (GOSFS_Delete E p)),
     op_Get_Path = Some (\<lambda>n d p. on_inst3 n (gosfs_get_path_op E d p)),
     op_Lookup = Some (\<lambda>n p. on_inst3 n (gosfs_lookup_op E p))\<rparr>"

text \<open>\<open>stack\<close> is the memory of the array in \<open>GOSFS_Format\<close>.\<close>

definition s_gosfsFilesystemOps :: "gosfs_env \<Rightarrow> u8 list \<Rightarrow> fs_world Filesystem_Ops" where
  "s_gosfsFilesystemOps E stack = \<lparr>
     op_Format = Some (\<lambda>d w. do {
       (rc, d') \<leftarrow> GOSFS_Format stack (w_disks w d);
       Some (rc, w\<lparr>w_disks := (w_disks w)(d := d')\<rparr>) }),
     op_Mount = Some (\<lambda>d prefix pd w. do {
       (rc, i) \<leftarrow> GOSFS_Mount E (w_disks w d);
       Some (case i of
           None \<Rightarrow> (rc, s_gosfsMountPointOps E, 0, pd, w)
         | Some s \<Rightarrow> (rc, s_gosfsMountPointOps E, length (g_insts w), pd, w\<lparr>g_insts := g_insts w @ [s]\<rparr>)) })\<rparr>"

definition Init_GOSFS :: "vfs_env \<Rightarrow> gosfs_env \<Rightarrow> u8 list \<Rightarrow> fs_world vfs \<Rightarrow> (bool \<times> fs_world vfs) kres" where
  "Init_GOSFS V E stack s = Register_Filesystem V [0x67, 0x6f, 0x73, 0x66, 0x73] (s_gosfsFilesystemOps E stack) s"

text \<open>Open files; \<open>mt\<close> is the device and the instance of a mount point (\<open>file->mountPoint\<close>).\<close>

definition gosfs_file_ops :: "fs_world File_Ops_Table" where
  "gosfs_file_ops = \<lparr>
     op_FStat = Some (\<lambda>f st w. None),
     op_Read = Some (\<lambda>f n w. None),
     op_Write = Some (\<lambda>f xs w. do { rc \<leftarrow> GOSFS_Write (of_nat (length xs)); Some (rc, f, w) }),
     op_Seek = Some (\<lambda>f p w. None),
     op_Close = Some (\<lambda>f w. Some (GOSFS_Close f, w)),
     op_Read_Entry = None\<rparr>"

definition gosfs_dir_ops :: "gosfs_env \<Rightarrow> (nat \<Rightarrow> (u32 \<times> nat) option) \<Rightarrow> fs_world File_Ops_Table" where
  "gosfs_dir_ops E mt = \<lparr>
     op_FStat = Some (\<lambda>f st w. None),
     op_Read = None,
     op_Write = None,
     op_Seek = None,
     op_Close = Some (\<lambda>f w. Some (GOSFS_Close_Directory E f, w)),
     op_Read_Entry = Some (\<lambda>f nm st w. do {
       (dv, n) \<leftarrow> mt (f_mountPoint f);
       s \<leftarrow> aget (g_insts w) n;
       (rc, f, nm, st, s) \<leftarrow> GOSFS_Read_Entry E f nm st s;
       Some (rc, f, nm, st, w\<lparr>g_insts := (g_insts w)[n := s]\<rparr>) })\<rparr>"

section \<open>PFAT\<close>

definition pfat_open_op :: "pfat_env \<Rightarrow> nat \<Rightarrow> cstr \<Rightarrow> u32 \<Rightarrow> fs_world \<Rightarrow> (int \<times> File option \<times> fs_world) kres" where
  "pfat_open_op E n p mode w = do {
     s \<leftarrow> aget (p_insts w) n;
     (rc, f, s) \<leftarrow> PFAT_Open E p mode s;
     Some (rc, f, w\<lparr>p_insts := (p_insts w)[n := s]\<rparr>) }"

text \<open>An operation that only reads the instance.\<close>

definition asks_inst :: "nat \<Rightarrow> (PFAT_Instance \<Rightarrow> (int \<times> 'a) kres) \<Rightarrow> fs_world \<Rightarrow> (int \<times> 'a \<times> fs_world) kres" where
  "asks_inst n f w = do { s \<leftarrow> aget (p_insts w) n; (rc, x) \<leftarrow> f s; Some (rc, x, w) }"

fun pfat_get_path_op :: "dentry_obj \<Rightarrow> cstr \<Rightarrow> fs_world \<Rightarrow> (int \<times> cstr \<times> fs_world) kres" where
  "pfat_get_path_op (PfatDentry e) p w = (case PFAT_Get_Path e of (rc, p) \<Rightarrow> Some (rc, p, w))"
| "pfat_get_path_op (GosfsDentry d) p w = None"

definition s_pfatMountPointOps :: "pfat_env \<Rightarrow> fs_world Mount_Point_Ops" where
  "s_pfatMountPointOps E = \<lparr>
     op_Open = Some (pfat_open_op E),
     op_Create_Directory = None,
     op_Open_Directory = Some (\<lambda>n p. asks_inst n (PFAT_Open_Directory E p)),
     op_Stat = Some (\<lambda>n p st. asks_inst n (PFAT_Stat p st)),
     op_Sync = Some (\<lambda>n w. Some (PFAT_Sync, w)),
     op_Delete = None,
     op_Get_Path = Some (\<lambda>n. pfat_get_path_op),
     op_Lookup = Some (\<lambda>n p. asks_inst n (\<lambda>s. if pm_dentry E then
         (case PFAT_Lookup p s of (rc, e) \<Rightarrow> Some (rc, Some (PfatDentry e))) else None))\<rparr>"

definition s_pfatFilesystemOps :: "pfat_env \<Rightarrow> fs_world Filesystem_Ops" where
  "s_pfatFilesystemOps E = \<lparr>
     op_Format = None,
     op_Mount = Some (\<lambda>d prefix pd w. do {
       (rc, i, pd) \<leftarrow> PFAT_Mount E d prefix (w_disks w d) pd;
       Some (case i of
           None \<Rightarrow> (rc, s_pfatMountPointOps E, 0, pd, w)
         | Some s \<Rightarrow> (rc, s_pfatMountPointOps E, length (p_insts w), pd, w\<lparr>p_insts := p_insts w @ [s]\<rparr>)) })\<rparr>"

definition Init_PFAT :: "vfs_env \<Rightarrow> pfat_env \<Rightarrow> fs_world vfs \<Rightarrow> (bool \<times> fs_world vfs) kres" where
  "Init_PFAT V E s = Register_Filesystem V [0x70, 0x66, 0x61, 0x74] (s_pfatFilesystemOps E) s"

definition pfat_file_ops :: "(nat \<Rightarrow> (u32 \<times> nat) option) \<Rightarrow> fs_world File_Ops_Table" where
  "pfat_file_ops mt = \<lparr>
     op_FStat = Some (\<lambda>f st w. do { (dv, n) \<leftarrow> mt (f_mountPoint f); asks_inst n (PFAT_FStat f) w }),
     op_Read = Some (\<lambda>f k w. do {
       (dv, n) \<leftarrow> mt (f_mountPoint f);
       s \<leftarrow> aget (p_insts w) n;
       (rc, xs, s) \<leftarrow> PFAT_Read (w_disks w dv) f k s;
       Some (rc, xs, f, w\<lparr>p_insts := (p_insts w)[n := s]\<rparr>) }),
     op_Write = Some (\<lambda>f xs w. Some (PFAT_Write, f, w)),
     op_Seek = Some (\<lambda>f p w. case PFAT_Seek f p of (rc, f) \<Rightarrow> Some (rc, f, w)),
     op_Close = Some (\<lambda>f w. Some (PFAT_Close, w)),
     op_Read_Entry = None\<rparr>"

definition pfat_dir_ops :: "(nat \<Rightarrow> (u32 \<times> nat) option) \<Rightarrow> fs_world File_Ops_Table" where
  "pfat_dir_ops mt = \<lparr>
     op_FStat = Some (\<lambda>f st w. do { (dv, n) \<leftarrow> mt (f_mountPoint f); asks_inst n (\<lambda>s. Some (PFAT_FStat_Dir s)) w }),
     op_Read = None,
     op_Write = None,
     op_Seek = None,
     op_Close = Some (\<lambda>f w. Some (PFAT_Close_Dir, w)),
     op_Read_Entry = Some (\<lambda>f nm st w. do {
       (dv, n) \<leftarrow> mt (f_mountPoint f);
       s \<leftarrow> aget (p_insts w) n;
       (rc, f, nm, st) \<leftarrow> PFAT_Read_Entry f nm st s;
       Some (rc, f, nm, st, w) })\<rparr>"

section \<open>The table of an open file\<close>

text \<open>The mount point of an open file, by its place in the mount table.\<close>

definition mount_of :: "'w vfs \<Rightarrow> nat \<Rightarrow> (u32 \<times> nat) option" where
  "mount_of s i = map_option (\<lambda>mp. (mp_dev mp, mp_fsData mp)) (aget (s_mountPointList s) i)"

fun file_ops :: "gosfs_env \<Rightarrow> (nat \<Rightarrow> (u32 \<times> nat) option) \<Rightarrow> File_Ops \<Rightarrow> fs_world File_Ops_Table" where
  "file_ops E mt s_gosfsFileOps = gosfs_file_ops"
| "file_ops E mt s_gosfsDirOps = gosfs_dir_ops E mt"
| "file_ops E mt s_pfatFileOps = pfat_file_ops mt"
| "file_ops E mt s_pfatDirOps = pfat_dir_ops mt"

section \<open>The mount point of a path\<close>

lemma resolve_mount_join:
  assumes "good_name d"
  shows "resolve_mount V cwd (join (d # cs)) s =
    Some (case Lookup_Mount_Point d s of None \<Rightarrow> None | Some (i, mp) \<Rightarrow> Some (d, join_or_root cs, i, mp), s)"
proof -
  have "join (d # cs) \<noteq> [] \<and> hd (join (d # cs)) = SLASH" by simp
  then show ?thesis by (simp add: resolve_mount_def Unpack_join [OF assms] split: option.split del: join_simps)
qed

lemma Lookup_Mount_Point_Some:
  "Lookup_Mount_Point d s = Some (i, mp) \<longleftrightarrow> i < length (s_mountPointList s) \<and> mp = s_mountPointList s ! i \<and>
     mp_pathPrefix mp = d \<and> (\<forall>j < i. mp_pathPrefix (s_mountPointList s ! j) \<noteq> d)"
proof (cases "List.find (\<lambda>i. mp_pathPrefix (s_mountPointList s ! i) = d) [0..<length (s_mountPointList s)]")
  case None
  then have "Lookup_Mount_Point d s = None" by (simp add: Lookup_Mount_Point_def)
  with None show ?thesis by (auto simp: find_None_iff)
next
  case (Some k)
  then have "k < length (s_mountPointList s)" "mp_pathPrefix (s_mountPointList s ! k) = d"
    "\<forall>j < k. mp_pathPrefix (s_mountPointList s ! j) \<noteq> d" by (auto simp: find_Some_iff)
  with Some show ?thesis unfolding Lookup_Mount_Point_def by (auto intro: linorder_cases [of i k])
qed

lemma Lookup_Mount_Point_world [simp]:
  "Lookup_Mount_Point d (s\<lparr>world := w\<rparr>) = Lookup_Mount_Point d s"
  "Lookup_Mount_Point d (s\<lparr>strings := x\<rparr>) = Lookup_Mount_Point d s"
  "Lookup_Mount_Point d (s\<lparr>dentries := y\<rparr>) = Lookup_Mount_Point d s"
  by (simp_all add: Lookup_Mount_Point_def split: option.split)

end
