(* ===== verification/GosfsBuf.thy ===== *)
theory GosfsBuf
  imports Gosfs
begin

text \<open>
  The blocks of a mounted file system as its operations see them through the buffer cache: getting,
  writing, releasing and synchronizing buffers, with the buffers held (\<open>H\<close>) as bookkeeping.
\<close>

section \<open>The invariant\<close>

definition block :: "GOSFS_Instance \<Rightarrow> u32 \<Rightarrow> u8 list" where
  "block s n = content (gcache s) n"

definition dirs :: "GOSFS_Instance \<Rightarrow> u32 \<Rightarrow> dentry list" where
  "dirs s n = entries (block s n)"

abbreviation (input) blkno :: "u32 \<Rightarrow> GOSFS_Instance \<Rightarrow> u32" where
  "blkno a s \<equiv> fsBlockNum (bufs (gcache s) a)"

text \<open>Blocks that all fit into the cache; every allocation of a buffer succeeds.\<close>

abbreviation (input) small :: "u32 \<Rightarrow> bool" where
  "small n \<equiv> unat n < 128"

definition good_env :: "gosfs_env \<Rightarrow> bool" where
  "good_env E \<longleftrightarrow> (\<forall>c. length (bufferList c) < 128 \<longrightarrow>
     (\<exists>a page. malloc_buf E c = Some (a, page) \<and> a \<notin> set (bufferList c) \<and> length page = 4096))"

definition fs_inv :: "GOSFS_Instance \<Rightarrow> u32 set \<Rightarrow> bool" where
  "fs_inv s H \<longleftrightarrow> cache_ok (gcache s) \<and> fsBlockSize (gcache s) = 4096 \<and>
     fsinfo s \<in> set (bufferList (gcache s)) \<and> blkno (fsinfo s) s = 0 \<and> fsinfo s \<notin> H \<and>
     H \<subseteq> set (bufferList (gcache s)) \<and>
     (\<forall>a\<in>set (bufferList (gcache s)). inuse (bufs (gcache s) a) = (a = fsinfo s \<or> a \<in> H)) \<and>
     (\<forall>a\<in>set (bufferList (gcache s)). small (blkno a s))"

lemma fs_invD:
  assumes "fs_inv s H"
  shows "cache_ok (gcache s)" "fsBlockSize (gcache s) = 4096" "fsinfo s \<in> set (bufferList (gcache s))"
    "blkno (fsinfo s) s = 0" "fsinfo s \<notin> H" "a \<in> H \<Longrightarrow> a \<in> set (bufferList (gcache s))"
    "a \<in> set (bufferList (gcache s)) \<Longrightarrow> inuse (bufs (gcache s) a) = (a = fsinfo s \<or> a \<in> H)"
    "a \<in> set (bufferList (gcache s)) \<Longrightarrow> small (blkno a s)"
  using assms by (auto simp: fs_inv_def)

lemma spb8: "fs_inv s H \<Longrightarrow> spb (gcache s) = 8"
  by (simp add: fs_inv_def spb_def)

lemma small_valid: "fs_inv s H \<Longrightarrow> small n \<Longrightarrow> valid_block (gcache s) n"
  by (simp add: valid_block_def spb8)

text \<open>A buffer that is held, or the superblock's, is the block.\<close>

definition holds :: "GOSFS_Instance \<Rightarrow> u32 set \<Rightarrow> u32 \<Rightarrow> bool" where
  "holds s H a \<longleftrightarrow> a = fsinfo s \<or> a \<in> H"

lemma buf_is_block:
  assumes "fs_inv s H" "a \<in> set (bufferList (gcache s))"
  shows "buf_data a s = block s (blkno a s)" "length (buf_data a s) = 4096"
proof -
  note D = fs_invD [OF assms(1)]
  show l: "length (buf_data a s) = 4096" using cache_okD(7) [OF D(1) assms(2)] by (simp add: buf_data_def)
  have "block s (blkno a s) = in_buffer (gcache s) a"
    unfolding block_def by (rule content_cached [OF D(1) assms(2)])
  then show "buf_data a s = block s (blkno a s)"
    using l spb8 [OF assms(1)] by (simp add: in_buffer_def buf_data_def)
qed

lemma block_length:
  assumes "fs_inv s H"
  shows "length (block s n) = 4096"
proof (cases "cached (gcache s) n")
  case None
  then show ?thesis
    using length_disk_block [OF cache_okD(2) [OF fs_invD(1) [OF assms]]] spb8 [OF assms]
    by (simp add: block_def content_def on_disk_def)
next
  case (Some a)
  then have "a \<in> set (bufferList (gcache s))" "blkno a s = n"
    using cached_Some [OF fs_invD(1) [OF assms]] by auto
  with buf_is_block [OF assms, of a] show ?thesis by simp
qed

lemma blkno_inj:
  "fs_inv s H \<Longrightarrow> a \<in> set (bufferList (gcache s)) \<Longrightarrow> b \<in> set (bufferList (gcache s)) \<Longrightarrow> blkno a s = blkno b s \<Longrightarrow> a = b"
  using cache_okD(6) [OF fs_invD(1)] by blast

text \<open>There is always room for one more of the small blocks.\<close>

lemma room_small:
  assumes inv: "fs_inv s H" and E: "good_env E" and n: "small n" "n \<noteq> 0" "n \<notin> (\<lambda>a. blkno a s) ` H"
  shows "room (gcache s) (malloc_buf E (gcache s)) n"
proof (cases "cached (gcache s) n")
  case (Some a)
  then have a: "a \<in> set (bufferList (gcache s))" "blkno a s = n" using cached_Some [OF fs_invD(1) [OF inv]] by auto
  then have "a \<noteq> fsinfo s" "a \<notin> H" using n fs_invD(4) [OF inv] by auto
  then show ?thesis using Some fs_invD(7) [OF inv a(1)] small_valid [OF inv n(1)] by (simp add: room_def)
next
  case None
  note D = fs_invD [OF inv]
  let ?B = "set (bufferList (gcache s))"
  have "inj_on (\<lambda>a. unat (blkno a s)) ?B"
    using blkno_inj [OF inv] by (auto intro!: inj_onI simp: word_unat_eq_iff [symmetric])
  then have "card ((\<lambda>a. unat (blkno a s)) ` ?B) = length (bufferList (gcache s))"
    using cache_okD(3) [OF D(1)] by (simp add: card_image distinct_card)
  moreover have "(\<lambda>a. unat (blkno a s)) ` ?B \<subseteq> {..<128} - {unat n}"
    using D(8) None by (auto simp: cached_None word_unat_eq_iff [symmetric])
  then have "card ((\<lambda>a. unat (blkno a s)) ` ?B) \<le> card ({..<128} - {unat n})"
    by (rule card_mono [rotated]) simp
  moreover have "card ({..<128} - {unat n}) = 127" using n(1) by simp
  ultimately have "length (bufferList (gcache s)) < 128" by simp
  then show ?thesis using None E small_valid [OF inv n(1)] by (auto simp: room_def good_env_def)
qed

section \<open>Operations\<close>

text \<open>What does not change when buffers come and go.\<close>

definition same_fs :: "GOSFS_Instance \<Rightarrow> GOSFS_Instance \<Rightarrow> bool" where
  "same_fs s s' \<longleftrightarrow> fsinfo s' = fsinfo s \<and> rootDirEntry s' = rootDirEntry s \<and> fileList s' = fileList s"

lemma same_fs_refl [simp]: "same_fs s s"
  by (simp add: same_fs_def)

lemma same_fs_trans: "same_fs s s' \<Longrightarrow> same_fs s' s'' \<Longrightarrow> same_fs s s''"
  by (simp add: same_fs_def)

lemma get_buf_ok:
  assumes inv: "fs_inv s H" and E: "good_env E" and n: "small n" "n \<noteq> 0" "n \<notin> (\<lambda>a. blkno a s) ` H"
  shows "\<exists>a s'. get_buf E n s = Some (0, a, s') \<and> fs_inv s' (insert a H) \<and> a \<notin> H \<and> a \<noteq> fsinfo s \<and> blkno a s' = n \<and>
    buf_data a s' = block s n \<and> block s' = block s \<and> same_fs s s' \<and>
    (\<forall>b\<in>insert (fsinfo s) H. blkno b s' = blkno b s \<and> buf_data b s' = buf_data b s)"
proof -
  note D = fs_invD [OF inv]
  from Get_Buffer_ok [OF D(1) room_small [OF inv E n], of id] obtain a c' where
    g: "Get_Buffer id (malloc_buf E (gcache s)) n (gcache s) = Some (0, a, c')" "got (gcache s) n a c'" by blast
  let ?s = "s\<lparr>gcache := c'\<rparr>"
  have run: "get_buf E n s = Some (0, a, ?s)" using g(1) by (simp add: get_buf_def Get_FS_Buffer_def)
  have k: "cache_ok c'" "a \<in> set (bufferList c')" "fsBlockNum (bufs c' a) = n" "inuse (bufs c' a)"
    "in_buffer c' a = content (gcache s) n" "content c' = content (gcache s)" "fsBlockSize c' = 4096"
    "\<And>b. b \<in> set (bufferList (gcache s)) \<Longrightarrow> b \<in> set (bufferList c') \<and> (b \<noteq> a \<longrightarrow> bufs c' b = bufs (gcache s) b)"
    "set (bufferList c') = insert a (set (bufferList (gcache s)))"
    "a \<in> set (bufferList (gcache s)) \<Longrightarrow> \<not> inuse (bufs (gcache s) a)"
    using g(2) D(2) by (auto simp: got_def)
  have a: "a \<notin> H" "a \<noteq> fsinfo s" using k(10) D(3,6,7) by auto
  have inv': "fs_inv ?s (insert a H)"
    unfolding fs_inv_def
  proof (intro conjI ballI)
    show "inuse (bufs (gcache ?s) b) = (b = fsinfo ?s \<or> b \<in> insert a H)" if "b \<in> set (bufferList (gcache ?s))" for b
      using that k(4,8,9) D(7) by (cases "b = a") auto
    show "small (fsBlockNum (bufs (gcache ?s) b))" if "b \<in> set (bufferList (gcache ?s))" for b
      using that k(3,8,9) D(8) n(1) by (cases "b = a") auto
    show "fsBlockNum (bufs (gcache ?s) (fsinfo ?s)) = 0" using k(8) [OF D(3)] D(4) a(2) by simp
    show "fsinfo ?s \<in> set (bufferList (gcache ?s))" using k(8) [OF D(3)] by simp
    show "insert a H \<subseteq> set (bufferList (gcache ?s))" using k(2,8) D(6) by auto
  qed (use k a D(5) in auto)
  have "block ?s = block s" by (rule ext) (simp add: block_def k(6))
  moreover have "buf_data a ?s = block s n"
    using buf_is_block(1) [OF inv', of a] k(2,3) \<open>block ?s = block s\<close> by simp
  moreover have "\<forall>b\<in>insert (fsinfo s) H. blkno b ?s = blkno b s \<and> buf_data b ?s = buf_data b s"
  proof
    fix b assume "b \<in> insert (fsinfo s) H"
    then have "b \<in> set (bufferList (gcache s))" "b \<noteq> a" using D(3,6) a by auto
    with k(8) [of b] show "blkno b ?s = blkno b s \<and> buf_data b ?s = buf_data b s" by (simp add: buf_data_def)
  qed
  ultimately show ?thesis using run inv' a k(3) by (auto simp: same_fs_def)
qed

lemma release_buf_ok:
  assumes inv: "fs_inv s H" and a: "a \<in> H"
  shows "\<exists>s'. release_buf a s = Some s' \<and> fs_inv s' (H - {a}) \<and> block s' = block s \<and> same_fs s s' \<and>
    (\<forall>b. blkno b s' = blkno b s \<and> buf_data b s' = buf_data b s) \<and> bufferList (gcache s') = bufferList (gcache s)"
proof -
  note D = fs_invD [OF inv]
  have m: "a \<in> set (bufferList (gcache s))" "inuse (bufs (gcache s) a)" using D(6,7) a by auto
  let ?c = "upd_buf a (set_inuse False) (gcache s)"
  have "release_buf a s = Some (s\<lparr>gcache := ?c\<rparr>)" using m(2) by (simp add: release_buf_def Release_FS_Buffer_def)
  moreover have "fs_inv (s\<lparr>gcache := ?c\<rparr>) (H - {a})"
    using set_inuse_ok(1) [OF D(1) m(1), of False] D a by (auto simp: fs_inv_def)
  moreover have "block (s\<lparr>gcache := ?c\<rparr>) = block s"
    by (rule ext) (simp add: block_def set_inuse_ok(2) [OF D(1) m(1)])
  ultimately show ?thesis by (auto simp: same_fs_def buf_data_def)
qed

text \<open>Writing into a buffer and marking it as modified.\<close>

lemma set_buf_data_simps [simp]:
  "fsinfo (set_buf_data a xs s) = fsinfo s" "rootDirEntry (set_buf_data a xs s) = rootDirEntry s"
  "fileList (set_buf_data a xs s) = fileList s" "bufferList (gcache (set_buf_data a xs s)) = bufferList (gcache s)"
  "blkno b (set_buf_data a xs s) = blkno b s"
  "buf_data b (set_buf_data a xs s) = (if b = a then xs else buf_data b s)"
  "set_buf_data a ys (set_buf_data a xs s) = set_buf_data a ys s"
  by (auto simp: set_buf_data_def buf_data_def upd_buf_def)

lemma modify_set_commute:
  "a \<noteq> b \<Longrightarrow> modify_buf a (set_buf_data b xs s) = map_option (set_buf_data b xs) (modify_buf a s)"
  by (auto simp: modify_buf_def Modify_FS_Buffer_def set_buf_data_def upd_buf_def fun_upd_twist)

lemma write_ok:
  assumes inv: "fs_inv s H" and a: "a \<in> insert (fsinfo s) H" and xs: "length xs = 4096"
  shows "\<exists>s'. modify_buf a (set_buf_data a xs s) = Some s' \<and> fs_inv s' H \<and>
    block s' = (block s)(blkno a s := xs) \<and> same_fs s s' \<and>
    (\<forall>b. blkno b s' = blkno b s \<and> buf_data b s' = (if b = a then xs else buf_data b s)) \<and>
    bufferList (gcache s') = bufferList (gcache s)"
proof -
  note D = fs_invD [OF inv]
  have m: "a \<in> set (bufferList (gcache s))" "inuse (bufs (gcache s) a)" using a D(3,6,7) by auto
  define f where "f = (\<lambda>b. set_dirty True (b\<lparr>bdata := xs\<rparr>))"
  have f: "fsBlockNum (f b) = fsBlockNum b" "bdata (f b) = xs" "dirty (f b)" "inuse (f b) = inuse b" for b
    by (simp_all add: f_def) (simp add: inuse_def)
  let ?c = "upd_buf a f (gcache s)"
  have e: "upd_buf a (set_dirty True) (upd_buf a (\<lambda>b. b\<lparr>bdata := xs\<rparr>) (gcache s)) = ?c" by (simp add: upd_buf_def f_def)
  have "modify_buf a (set_buf_data a xs s) = Some (s\<lparr>gcache := ?c\<rparr>)"
    using m(2) e by (simp add: modify_buf_def Modify_FS_Buffer_def set_buf_data_def inuse_def)
  moreover have ok: "cache_ok ?c" by (rule cache_ok_data [OF D(1) f(1)]) (simp_all add: f xs)
  then have "fs_inv (s\<lparr>gcache := ?c\<rparr>) H" using D f by (auto simp: fs_inv_def)
  moreover have "block (s\<lparr>gcache := ?c\<rparr>) = (block s)(blkno a s := xs)"
    using content_data [OF D(1) f(1) m(1)] spb8 [OF inv] xs by (auto simp: block_def f(2) fun_eq_iff)
  ultimately show ?thesis by (auto simp: same_fs_def buf_data_def f)
qed

lemma sync_bufs_ok:
  assumes inv: "fs_inv s H"
  shows "\<exists>s'. sync_bufs s = Some s' \<and> fs_inv s' H \<and> (\<forall>n. small n \<longrightarrow> block s' n = block s n) \<and> same_fs s s' \<and>
    (\<forall>b. blkno b s' = blkno b s \<and> buf_data b s' = buf_data b s) \<and> bufferList (gcache s') = bufferList (gcache s) \<and>
    (\<forall>n. small n \<longrightarrow> on_disk (gcache s') n = block s n)"
proof -
  note D = fs_invD [OF inv]
  obtain c' where c': "sync_list (bufferList (gcache s)) (gcache s) = Some (0, c')" "cache_ok c'"
    "bufferList c' = bufferList (gcache s)" "\<forall>a\<in>set (bufferList (gcache s)). \<not> dirty (bufs c' a)"
    "\<And>b. inuse (bufs c' b) = inuse (bufs (gcache s) b) \<and> fsBlockNum (bufs c' b) = fsBlockNum (bufs (gcache s) b) \<and>
      bdata (bufs c' b) = bdata (bufs (gcache s) b)" "fsBlockSize c' = fsBlockSize (gcache s)"
    "\<And>m. valid_block (gcache s) m \<Longrightarrow> content c' m = content (gcache s) m"
    using sync_list_ok [OF D(1) subset_refl cache_okD(3) [OF D(1)]] by blast
  let ?s = "s\<lparr>gcache := c'\<rparr>"
  have "sync_bufs s = Some ?s" using c'(1) by (simp add: sync_bufs_def Sync_FS_Buffer_Cache_def Sync_Cache_def)
  moreover have "fs_inv ?s H" using D c' by (auto simp: fs_inv_def)
  moreover have b: "block ?s n = block s n" if "small n" for n
    using c'(7) small_valid [OF inv that] by (simp add: block_def)
  moreover have "on_disk c' n = block s n" if "small n" for n
    using clean_on_disk [OF c'(2)] c'(3,4) b [OF that] by (simp add: block_def)
  ultimately show ?thesis using c'(3,5) by (auto simp: same_fs_def buf_data_def)
qed

end
