(* ===== verification/GosfsDir.thy ===== *)
theory GosfsDir
  imports GosfsBuf
begin

text \<open>
  Lookup in the GeekOS file system against a reference: walking a path over the directories as lists
  of entries (\<open>resolve\<close>).
\<close>

section \<open>Directories as lists of entries\<close>

definition matches :: "dentry \<Rightarrow> cstr \<Rightarrow> bool \<Rightarrow> bool" where
  "matches e c final \<longleftrightarrow> name_of e = Some c \<and>
     (dflags e = GOSFS_DIRENTRY_USED \<and> final \<or> dflags e = GOSFS_DIRENTRY_ISDIRECTORY)"

definition is_free :: "dentry \<Rightarrow> bool" where
  "is_free e \<longleftrightarrow> dflags e AND GOSFS_DIRENTRY_USED = 0 \<and> dflags e AND GOSFS_DIRENTRY_ISDIRECTORY = 0"

definition first_index :: "('a \<Rightarrow> bool) \<Rightarrow> 'a list \<Rightarrow> nat option" where
  "first_index P xs = List.find (\<lambda>i. P (xs ! i)) [0..<length xs]"

definition find_entry :: "dentry list \<Rightarrow> cstr \<Rightarrow> bool \<Rightarrow> nat option" where
  "find_entry es c final = first_index (\<lambda>e. matches e c final) es"

definition free_index :: "dentry list \<Rightarrow> int" where
  "free_index es = (case first_index is_free es of Some i \<Rightarrow> int i | None \<Rightarrow> - 1)"

definition names_ok :: "dentry list \<Rightarrow> bool" where
  "names_ok es \<longleftrightarrow> (\<forall>e\<in>set es. name_of e \<noteq> None)"

lemma first_index_Some:
  "first_index P xs = Some i \<longleftrightarrow> i < length xs \<and> P (xs ! i) \<and> (\<forall>j < i. \<not> P (xs ! j))"
  by (auto simp: first_index_def find_Some_iff)

lemma first_index_None: "first_index P xs = None \<longleftrightarrow> (\<forall>i < length xs. \<not> P (xs ! i))"
  by (auto simp: first_index_def find_None_iff)

lemma find_entry_Some: "find_entry es c final = Some i \<Longrightarrow> i < length es \<and> matches (es ! i) c final"
  by (simp add: find_entry_def first_index_Some)

lemma free_index_cases:
  "free_index es = - 1 \<and> (\<forall>i < length es. \<not> is_free (es ! i)) \<or>
   (\<exists>i. free_index es = int i \<and> i < length es \<and> is_free (es ! i) \<and> (\<forall>j < i. \<not> is_free (es ! j)))"
proof (cases "first_index is_free es")
  case None
  with None [unfolded first_index_None] show ?thesis by (simp add: free_index_def)
next
  case (Some i)
  with Some [unfolded first_index_Some] show ?thesis by (auto simp: free_index_def)
qed

lemma upt_find_Cons: "List.find P [i..<i + Suc n] = (if P i then Some i else List.find P [Suc i..<Suc i + n])"
  by (simp add: upt_conv_Cons del: upt_Suc)

text \<open>The search of the code computes the first match, and the first free entry if there is none.\<close>

lemma scan_dir_eq:
  assumes "\<And>j. i \<le> j \<Longrightarrow> j < i + n \<Longrightarrow> rd (int j) = Some (es ! j) \<and> name_of (es ! j) \<noteq> None"
  shows "\<exists>m'. scan_dir rd c final i n m = Some (case List.find (\<lambda>j. matches (es ! j) c final) [i..<i + n] of
      Some j \<Rightarrow> (j, m')
    | None \<Rightarrow> (i + n, if m = - 1 then (case List.find (\<lambda>j. is_free (es ! j)) [i..<i + n] of Some j \<Rightarrow> int j | None \<Rightarrow> - 1) else m))"
  using assms
proof (induction n arbitrary: i m)
  case (Suc n)
  have r: "rd (int i) = Some (es ! i)" and "name_of (es ! i) \<noteq> None" using Suc.prems [of i] by auto
  then obtain nm where nm: "name_of (es ! i) = Some nm" by blast
  have IH: "\<exists>m'. scan_dir rd c final (Suc i) n k = Some (case List.find (\<lambda>j. matches (es ! j) c final) [Suc i..<Suc i + n] of
      Some j \<Rightarrow> (j, m')
    | None \<Rightarrow> (Suc i + n, if k = - 1 then (case List.find (\<lambda>j. is_free (es ! j)) [Suc i..<Suc i + n] of Some j \<Rightarrow> int j | None \<Rightarrow> - 1) else k))" for k
    by (rule Suc.IH) (use Suc.prems in auto)
  show ?case
  proof (cases "matches (es ! i) c final")
    case True
    then have "List.find (\<lambda>j. matches (es ! j) c final) [i..<i + Suc n] = Some i" by (simp only: upt_find_Cons if_True)
    moreover have "scan_dir rd c final i (Suc n) m = Some (i, m)" using True r nm by (simp add: matches_def)
    ultimately show ?thesis by (intro exI [of _ m]) simp
  next
    case False
    let ?k = "if m = - 1 \<and> is_free (es ! i) then int i else m"
    have "scan_dir rd c final i (Suc n) m = scan_dir rd c final (Suc i) n ?k"
      using False r nm by (auto simp: matches_def is_free_def)
    moreover have "List.find (\<lambda>j. matches (es ! j) c final) [i..<i + Suc n] = List.find (\<lambda>j. matches (es ! j) c final) [Suc i..<Suc i + n]"
      unfolding upt_find_Cons using False by simp
    moreover have "(if m = - 1 then (case List.find (\<lambda>j. is_free (es ! j)) [i..<i + Suc n] of Some j \<Rightarrow> int j | None \<Rightarrow> - 1) else m) =
      (if ?k = - 1 then (case List.find (\<lambda>j. is_free (es ! j)) [Suc i..<Suc i + n] of Some j \<Rightarrow> int j | None \<Rightarrow> - 1) else ?k)"
      unfolding upt_find_Cons by simp
    ultimately show ?thesis using IH [of ?k] by (simp only: add_Suc_right add_Suc)
  qed
qed simp

lemma scan_dir_block:
  assumes "length data = 4096" "names_ok (entries data)"
  shows "\<exists>m'. scan_dir (get_entry data) c final 0 18 (- 1) = Some (case find_entry (entries data) c final of
      Some j \<Rightarrow> (j, m') | None \<Rightarrow> (18, free_index (entries data)))"
proof -
  have "get_entry data (int j) = Some (entries data ! j) \<and> name_of (entries data ! j) \<noteq> None" if "0 \<le> j" "j < 0 + 18" for j
    using that assms nth_mem [of j "entries data"] unfolding names_ok_def by simp
  then have "\<exists>m'. scan_dir (get_entry data) c final 0 18 (- 1) = Some (case List.find (\<lambda>j. matches (entries data ! j) c final) [0..<0 + 18] of
      Some j \<Rightarrow> (j, m')
    | None \<Rightarrow> (0 + 18, if - 1 = (- 1 :: int) then (case List.find (\<lambda>j. is_free (entries data ! j)) [0..<0 + 18] of Some j \<Rightarrow> int j | None \<Rightarrow> - 1) else - 1))"
    by (rule scan_dir_eq)
  then show ?thesis unfolding find_entry_def free_index_def first_index_def length_entries by (simp only: add_0 if_True simp_thms)
qed

section \<open>Walking a path\<close>

text \<open>\<open>Unknown\<close> is where the reference does not follow: blocks that are not allocated or beyond the
  cache, names that are not terminated, and steps to the parent (entry 1).\<close>

datatype outcome = Found u32 nat | Missing u32 int bool | Unknown

definition dir_ok :: "nat set \<Rightarrow> (u32 \<Rightarrow> dentry list) \<Rightarrow> u32 \<Rightarrow> bool" where
  "dir_ok U d b \<longleftrightarrow> b \<noteq> 0 \<and> small b \<and> unat b \<in> U \<and> names_ok (d b)"

fun resolve :: "nat set \<Rightarrow> (u32 \<Rightarrow> dentry list) \<Rightarrow> u32 \<Rightarrow> cstr list \<Rightarrow> outcome" where
  "resolve U d b [] = Unknown"
| "resolve U d b (c # cs) =
     (if \<not> dir_ok U d b then Unknown
      else case find_entry (d b) c (cs = []) of
        None \<Rightarrow> Missing b (free_index (d b)) (cs = [])
      | Some i \<Rightarrow> if i = PREV_DIR then Unknown else if cs = [] then Found b i
                else resolve U d (block0 (d b ! i)) cs)"

fun answer :: "outcome \<Rightarrow> cstr list \<Rightarrow> int \<Rightarrow> Path_Info \<Rightarrow> bool" where
  "answer (Found b i) cs rc info \<longleftrightarrow>
     rc = 0 \<and> info = \<lparr>pi_suffix = last cs, dirEntryPtr = \<lparr>de_base = b, de_offset = int i\<rparr>\<rparr>"
| "answer (Missing b f final) cs rc info \<longleftrightarrow>
     rc = (if final then EUNSPECIFIED else ENOTFOUND) \<and> dirEntryPtr info = \<lparr>de_base = b, de_offset = f\<rparr> \<and>
     (final \<longrightarrow> pi_suffix info = last cs)"
| "answer Unknown cs rc info \<longleftrightarrow> False"

definition used_blocks :: "GOSFS_Instance \<Rightarrow> nat set" where
  "used_blocks s = bits_of (drop 12 (block s 0))"

definition root_block :: "GOSFS_Instance \<Rightarrow> u32" where
  "root_block s = le_word (take 4 (drop 4 (block s 0)))"

lemma superblock_data:
  assumes "fs_inv s H"
  shows "buf_data (fsinfo s) s = block s 0" "length (block s 0) = 4096"
  using buf_is_block [OF assms fs_invD(3) [OF assms]] fs_invD(4) [OF assms] by simp_all

lemma sb_root_ok: "fs_inv s H \<Longrightarrow> sb_root s = Some (root_block s)"
  by (simp add: sb_root_def superblock_data get_word_def root_block_def)

definition same_blocks :: "GOSFS_Instance \<Rightarrow> GOSFS_Instance \<Rightarrow> bool" where
  "same_blocks s s' \<longleftrightarrow> fs_inv s' {} \<and> block s' = block s \<and> same_fs s s'"

lemma same_blocks_simps:
  assumes "same_blocks s s'"
  shows "fs_inv s' {}" "block s' = block s" "dirs s' = dirs s" "used_blocks s' = used_blocks s"
    "root_block s' = root_block s" "fsinfo s' = fsinfo s" "fileList s' = fileList s" "rootDirEntry s' = rootDirEntry s"
  using assms by (auto simp: same_blocks_def same_fs_def used_blocks_def root_block_def dirs_def fun_eq_iff)

text \<open>One round of the loop.\<close>

lemma lookup_round:
  assumes inv: "fs_inv s {}" and E: "good_env E" and good: "\<forall>x\<in>set (c # cs). good_name x"
    and suf: "suf \<noteq> [SLASH]" and ok: "dir_ok (used_blocks s) (dirs s) b"
  shows "\<exists>s'. same_blocks s s' \<and>
    (case find_entry (dirs s b) c (cs = []) of
       None \<Rightarrow> \<exists>info'. lookup_loop E (join (c # cs)) pre suf b info s =
           Some (if cs = [] then EUNSPECIFIED else ENOTFOUND, info', s') \<and>
           info' = \<lparr>pi_suffix = c, dirEntryPtr = \<lparr>de_base = b, de_offset = free_index (dirs s b)\<rparr>\<rparr>
     | Some i \<Rightarrow> i \<noteq> PREV_DIR \<longrightarrow> lookup_loop E (join (c # cs)) pre suf b info s =
         lookup_loop E (join_or_root cs) c (join_or_root cs) (block0 (dirs s b ! i))
           \<lparr>pi_suffix = c, dirEntryPtr = \<lparr>de_base = b, de_offset = int i\<rparr>\<rparr> s')"
proof -
  from ok have b: "b \<noteq> 0" "small b" "names_ok (dirs s b)" by (auto simp: dir_ok_def)
  obtain a s1 where g: "get_buf E b s = Some (0, a, s1)" "fs_inv s1 {a}" "buf_data a s1 = block s b" "block s1 = block s"
    "same_fs s s1" using get_buf_ok [OF inv E b(2,1)] by auto
  obtain s2 where r: "release_buf a s1 = Some s2" "fs_inv s2 {}" "block s2 = block s1" "same_fs s1 s2"
    "\<And>x. buf_data x s2 = buf_data x s1" using release_buf_ok [OF g(2), of a] by auto
  have sb: "same_blocks s s2" using g r same_fs_trans by (auto simp: same_blocks_def)
  have len: "length (block s b) = 4096" by (rule block_length [OF inv])
  have e1: "buf_entry a s1 = get_entry (block s b)" "buf_entry a s2 = get_entry (block s b)"
    by (simp_all add: buf_entry_def fun_eq_iff g(3) r(5))
  have nm: "names_ok (entries (block s b))" using b(3) by (simp add: dirs_def)
  have cg: "good_name c" using good by simp
  then have cl: "copy_str 127 c = Some c" by (simp add: good_name_def)
  obtain m' where sc: "scan_dir (get_entry (block s b)) c (cs = []) 0 18 (- 1) = Some (case find_entry (dirs s b) c (cs = []) of
      Some j \<Rightarrow> (j, m') | None \<Rightarrow> (18, free_index (dirs s b)))"
    using scan_dir_block [OF len nm, of c "cs = []"] unfolding dirs_def by blast
  have fin: "join_or_root cs = [SLASH] \<longleftrightarrow> cs = []" using good by (intro join_or_root_root) simp
  note run = lookup_loop.simps [of E "join (c # cs)" pre suf b info s]
  note start = suf Unpack_join [OF cg] b(1) g(1) e1 sc [unfolded nat_numeral] r(1) cl fin
  show ?thesis
  proof (cases "find_entry (dirs s b) c (cs = [])")
    case None
    then have "lookup_loop E (join (c # cs)) pre suf b info s = Some (if cs = [] then EUNSPECIFIED else ENOTFOUND,
        \<lparr>pi_suffix = c, dirEntryPtr = \<lparr>de_base = b, de_offset = free_index (dirs s b)\<rparr>\<rparr>, s2)"
      unfolding run by (simp add: start del: join_simps)
    with None sb show ?thesis by auto
  next
    case (Some i)
    then have i: "i < 18" by (simp add: find_entry_def first_index_Some dirs_def)
    have ge: "get_entry (block s b) (int i) = Some (dirs s b ! i)" using i len by (simp add: dirs_def)
    have "lookup_loop E (join (c # cs)) pre suf b info s =
         lookup_loop E (join_or_root cs) c (join_or_root cs) (block0 (dirs s b ! i))
           \<lparr>pi_suffix = c, dirEntryPtr = \<lparr>de_base = b, de_offset = int i\<rparr>\<rparr> s2" if "i \<noteq> PREV_DIR"
      unfolding run using that i Some by (simp add: start ge del: join_simps)
    with Some sb show ?thesis by auto
  qed
qed


text \<open>The whole walk.\<close>

lemma lookup_loop_ok:
  assumes "fs_inv s {}" "good_env E" "\<forall>c\<in>set cs. good_name c" "suf \<noteq> [SLASH]"
    "resolve (used_blocks s) (dirs s) b cs \<noteq> Unknown"
  shows "\<exists>rc info' s'. lookup_loop E (join cs) pre suf b info s = Some (rc, info', s') \<and> same_blocks s s' \<and>
    answer (resolve (used_blocks s) (dirs s) b cs) cs rc info'"
  using assms
proof (induction cs arbitrary: s b pre suf info)
  case (Cons c cs)
  let ?d = "dirs s b" and ?U = "used_blocks s"
  from Cons.prems(5) have ok: "dir_ok ?U (dirs s) b" by (auto split: if_splits)
  obtain s1 where sb: "same_blocks s s1" and round: "case find_entry ?d c (cs = []) of
       None \<Rightarrow> \<exists>info'. lookup_loop E (join (c # cs)) pre suf b info s =
           Some (if cs = [] then EUNSPECIFIED else ENOTFOUND, info', s1) \<and>
           info' = \<lparr>pi_suffix = c, dirEntryPtr = \<lparr>de_base = b, de_offset = free_index ?d\<rparr>\<rparr>
     | Some i \<Rightarrow> i \<noteq> PREV_DIR \<longrightarrow> lookup_loop E (join (c # cs)) pre suf b info s =
         lookup_loop E (join_or_root cs) c (join_or_root cs) (block0 (?d ! i))
           \<lparr>pi_suffix = c, dirEntryPtr = \<lparr>de_base = b, de_offset = int i\<rparr>\<rparr> s1"
    using lookup_round [OF Cons.prems(1-4) ok, of pre info] by blast
  note same = same_blocks_simps [OF sb]
  show ?case
  proof (cases "find_entry ?d c (cs = [])")
    case None
    with round ok sb show ?thesis by (auto simp del: join_simps)
  next
    case (Some i)
    with Cons.prems(5) ok have i: "i \<noteq> PREV_DIR" by (auto split: if_splits)
    let ?info = "\<lparr>pi_suffix = c, dirEntryPtr = \<lparr>de_base = b, de_offset = int i\<rparr>\<rparr>"
    from round Some i have go: "lookup_loop E (join (c # cs)) pre suf b info s =
         lookup_loop E (join_or_root cs) c (join_or_root cs) (block0 (?d ! i)) ?info s1" by (simp del: join_simps)
    show ?thesis
    proof (cases "cs = []")
      case True
      have "lookup_loop E [SLASH] c [SLASH] (block0 (?d ! i)) ?info s1 = Some (0, ?info, s1)" by (subst lookup_loop.simps) simp
      with True go Some i ok sb show ?thesis by (simp add: join_or_root_def)
    next
      case False
      with ok Some i have res: "resolve ?U (dirs s) b (c # cs) = resolve ?U (dirs s) (block0 (?d ! i)) cs" by simp
      have suf: "join_or_root cs \<noteq> [SLASH]" using join_or_root_root [of cs] Cons.prems(3) False by simp
      have "\<exists>rc info' s'. lookup_loop E (join cs) c (join_or_root cs) (block0 (?d ! i)) ?info s1 = Some (rc, info', s') \<and>
        same_blocks s1 s' \<and> answer (resolve ?U (dirs s) (block0 (?d ! i)) cs) cs rc info'"
        using Cons.IH [OF same(1) Cons.prems(2) _ suf, of "block0 (?d ! i)" c ?info] Cons.prems(3,5) res same by simp
      then obtain rc info' s' where r: "lookup_loop E (join cs) c (join_or_root cs) (block0 (?d ! i)) ?info s1 = Some (rc, info', s')"
        "same_blocks s1 s'" "answer (resolve ?U (dirs s) (block0 (?d ! i)) cs) cs rc info'" by blast
      have "same_blocks s s'" using sb r(2) by (auto simp: same_blocks_def intro: same_fs_trans)
      moreover have "answer out (c # cs) rc info' = answer out cs rc info'" for out using False by (cases out) auto
      ultimately show ?thesis using r False go res by (auto simp: join_or_root_def simp del: join_simps resolve.simps)
    qed
  qed
qed simp

lemma lookup_path_ok:
  assumes inv: "fs_inv s {}" and E: "good_env E" "str_at_0 E \<noteq> [SLASH]" and cs: "\<forall>c\<in>set cs. good_name c" "length (join cs) < 1023"
    and res: "resolve (used_blocks s) (dirs s) (root_block s) cs \<noteq> Unknown"
  shows "\<exists>rc info s'. lookup_path E (join cs) s = Some (rc, info, s') \<and> same_blocks s s' \<and>
    answer (resolve (used_blocks s) (dirs s) (root_block s) cs) cs rc info"
proof -
  obtain c cs' where c: "cs = c # cs'" using res by (cases cs) auto
  have "c \<noteq> []" using cs(1) c by (simp add: good_name_def)
  then have "join cs \<noteq> [SLASH]" "join cs \<noteq> []" "hd (join cs) = SLASH" using c by simp_all
  then show ?thesis
    using lookup_loop_ok [OF inv E(1) cs(1) E(2) res] cs(2) sb_root_ok [OF inv]
    by (simp add: lookup_path_def Do_GOSFS_Lookup_def Let_def del: resolve.simps)
qed

text \<open>The answer of a lookup decides the outcome.\<close>

lemma lookup_path_Found:
  assumes "fs_inv s {}" "good_env E" "str_at_0 E \<noteq> [SLASH]" "\<forall>c\<in>set cs. good_name c" "length (join cs) < 1023"
    "resolve (used_blocks s) (dirs s) (root_block s) cs = Found b i"
  shows "\<exists>s'. lookup_path E (join cs) s =
    Some (0, \<lparr>pi_suffix = last cs, dirEntryPtr = \<lparr>de_base = b, de_offset = int i\<rparr>\<rparr>, s') \<and> same_blocks s s'"
  using lookup_path_ok [OF assms(1-5)] assms(6) by auto

lemma lookup_path_Missing:
  assumes "fs_inv s {}" "good_env E" "str_at_0 E \<noteq> [SLASH]" "\<forall>c\<in>set cs. good_name c" "length (join cs) < 1023"
    "resolve (used_blocks s) (dirs s) (root_block s) cs = Missing b f True"
  shows "\<exists>s'. lookup_path E (join cs) s =
    Some (EUNSPECIFIED, \<lparr>pi_suffix = last cs, dirEntryPtr = \<lparr>de_base = b, de_offset = f\<rparr>\<rparr>, s') \<and> same_blocks s s'"
proof -
  have "info = \<lparr>pi_suffix = last cs, dirEntryPtr = \<lparr>de_base = b, de_offset = f\<rparr>\<rparr>"
    if "pi_suffix info = last cs" "dirEntryPtr info = \<lparr>de_base = b, de_offset = f\<rparr>" for info
    using that by (cases info) simp
  then show ?thesis using lookup_path_ok [OF assms(1-5)] assms(6) by fastforce
qed

text \<open>What an outcome says about its directory.\<close>

lemma resolve_FoundD:
  "resolve U d b cs = Found b' i \<Longrightarrow> cs \<noteq> [] \<and> dir_ok U d b' \<and> i < length (d b') \<and> i \<noteq> PREV_DIR \<and>
     matches (d b' ! i) (last cs) True"
proof (induction cs arbitrary: b)
  case (Cons c cs)
  then obtain j where j: "find_entry (d b) c (cs = []) = Some j" "j \<noteq> PREV_DIR" "dir_ok U d b"
    by (auto split: if_splits option.splits)
  show ?case
  proof (cases "cs = []")
    case True
    then show ?thesis using Cons.prems j find_entry_Some [OF j(1)] by simp
  next
    case False
    then show ?thesis using Cons.prems Cons.IH j by simp
  qed
qed simp

lemma resolve_MissingD:
  "resolve U d b cs = Missing b' f True \<Longrightarrow> cs \<noteq> [] \<and> dir_ok U d b' \<and> f = free_index (d b') \<and>
     find_entry (d b') (last cs) True = None"
proof (induction cs arbitrary: b)
  case (Cons c cs)
  show ?case
  proof (cases "find_entry (d b) c (cs = [])")
    case None
    then show ?thesis using Cons.prems by (auto split: if_splits)
  next
    case (Some j)
    then have "cs \<noteq> [] \<and> resolve U d (block0 (d b ! j)) cs = Missing b' f True"
      using Cons.prems by (auto split: if_splits)
    then show ?thesis using Cons.IH [of "block0 (d b ! j)"] by simp
  qed
qed simp

section \<open>Changing one entry\<close>

lemma find_entry_update:
  assumes "i < length es" "\<not> matches (es ! i) c final" "\<not> matches e c final"
  shows "find_entry (es[i := e]) c final = find_entry es c final"
proof -
  have eq: "matches (es[i := e] ! j) c final = matches (es ! j) c final" if "j < length es" for j
    using assms that by (cases "j = i") auto
  show ?thesis
    unfolding find_entry_def first_index_def length_list_update
    by (rule find_cong [OF refl]) (simp add: eq)
qed

lemma find_entry_new:
  assumes "i < length es" "find_entry es c final = None" "matches e c final"
  shows "find_entry (es[i := e]) c final = Some i"
  using assms unfolding find_entry_def first_index_Some first_index_None by (auto simp: nth_list_update)

lemma free_no_match: "is_free e \<Longrightarrow> \<not> matches e c final"
  by (auto simp: is_free_def matches_def)

lemma matches_name: "matches e c final \<Longrightarrow> name_of e = Some c"
  by (simp add: matches_def)

lemma matches_final: "matches e c False \<Longrightarrow> matches e c True"
  by (auto simp: matches_def)

text \<open>Every path that was found is still found after a new entry has taken a free place.\<close>

lemma resolve_grow:
  assumes "resolve U d b cs = Found b' j"
    and i: "i < length (d p)" "is_free (d p ! i)" and x: "name_of e = Some x" "find_entry (d p) x True = None"
    and d': "\<And>n. unat n \<in> U \<Longrightarrow> n \<noteq> 0 \<Longrightarrow> small n \<Longrightarrow> d' n = (if n = p then (d p)[i := e] else d n)" and U: "U \<subseteq> U'"
  shows "resolve U' d' b cs = Found b' j"
  using assms(1)
proof (induction cs arbitrary: b)
  case (Cons c cs)
  then obtain k where k: "find_entry (d b) c (cs = []) = Some k" "k \<noteq> PREV_DIR" and ok: "dir_ok U d b"
    by (auto split: if_splits option.splits)
  have b: "d' b = (if b = p then (d p)[i := e] else d b)"
    using ok by (intro d') (auto simp: dir_ok_def)
  have k': "k < length (d b)" "matches (d b ! k) c (cs = [])" using k(1) by (auto simp: find_entry_def first_index_Some)
  have cx: "c \<noteq> x" if "b = p"
  proof
    assume "c = x"
    with k' that matches_final have "matches (d p ! k) x True" by (cases "cs = []") auto
    with x(2) k'(1) that show False by (auto simp: find_entry_def first_index_None)
  qed
  have "find_entry (d' b) c (cs = []) = Some k \<and> d' b ! k = d b ! k \<and> names_ok (d' b)"
  proof (cases "b = p")
    case True
    have "\<not> matches e c (cs = [])" using cx [OF True] x(1) by (auto simp: matches_def)
    then have "find_entry ((d p)[i := e]) c (cs = []) = find_entry (d p) c (cs = [])"
      using i free_no_match by (intro find_entry_update) auto
    moreover have "k \<noteq> i" using k' i(2) True free_no_match by blast
    moreover have "names_ok ((d p)[i := e])"
      using ok True x(1) set_update_subset_insert [of "d p" i e] by (auto simp: dir_ok_def names_ok_def)
    ultimately show ?thesis using b True k(1) by simp
  next
    case False
    then show ?thesis using b k(1) ok by (simp add: dir_ok_def)
  qed
  moreover from this ok U have "dir_ok U' d' b" by (auto simp: dir_ok_def)
  ultimately show ?case using Cons k ok by (auto split: if_splits)
qed simp

text \<open>The path of the new entry is found there.\<close>

lemma resolve_new:
  assumes "resolve U d b cs = Missing p f True"
    and i: "i < length (d p)" "is_free (d p ! i)" "i \<noteq> PREV_DIR" and e: "matches e (last cs) True"
    and d': "\<And>n. unat n \<in> U \<Longrightarrow> n \<noteq> 0 \<Longrightarrow> small n \<Longrightarrow> d' n = (if n = p then (d p)[i := e] else d n)" and U: "U \<subseteq> U'"
  shows "resolve U' d' b cs = Found p i"
  using assms(1,5)
proof (induction cs arbitrary: b)
  case (Cons c cs)
  have ok: "dir_ok U d b" using Cons.prems(1) by (auto split: if_splits)
  have b: "d' b = (if b = p then (d p)[i := e] else d b)"
    using ok by (intro d') (auto simp: dir_ok_def)
  have nm: "name_of e = Some (last (c # cs))" using Cons.prems(2) by (rule matches_name)
  have ok': "dir_ok U' d' b"
  proof (cases "b = p")
    case True
    then have "names_ok (d' b)"
      using ok nm b set_update_subset_insert [of "d p" i e] by (auto simp: dir_ok_def names_ok_def)
    then show ?thesis using ok U by (auto simp: dir_ok_def)
  next
    case False
    then show ?thesis using ok U b by (auto simp: dir_ok_def)
  qed
  show ?case
  proof (cases "find_entry (d b) c (cs = [])")
    case None
    then have "cs = []" "b = p" using Cons.prems(1) ok by (auto split: if_splits)
    then show ?thesis using None ok' b i Cons.prems(2) find_entry_new [of i "d p" c True e] by simp
  next
    case (Some k)
    then have cs: "cs \<noteq> []" and k: "k \<noteq> PREV_DIR" and rest: "resolve U d (block0 (d b ! k)) cs = Missing p f True"
      using Cons.prems(1) ok by (auto split: if_splits)
    have k': "k < length (d b)" "matches (d b ! k) c False" using Some cs by (auto simp: find_entry_def first_index_Some)
    have "c \<noteq> last cs" if "b = p"
      using resolve_MissingD [OF rest] k' that matches_final by (auto simp: find_entry_def first_index_None)
    then have "find_entry (d' b) c False = Some k \<and> d' b ! k = d b ! k"
    proof (cases "b = p")
      case True
      have "\<not> matches e c False" using \<open>b = p \<Longrightarrow> c \<noteq> last cs\<close> True nm cs by (auto simp: matches_def)
      then have "find_entry ((d p)[i := e]) c False = find_entry (d p) c False"
        using i free_no_match by (intro find_entry_update) auto
      moreover have "k \<noteq> i" using k' i(2) True free_no_match by blast
      ultimately show ?thesis using b True Some cs by simp
    qed (use b Some cs in simp)
    then show ?thesis using Cons.IH [OF rest] Cons.prems(2) ok' cs k by simp
  qed
qed simp

end
