(* ===== verification/GosfsOps.thy ===== *)
theory GosfsOps
  imports GosfsDir
begin

text \<open>
  Creating and deleting in the GeekOS file system: the effect of \<open>GOSFS_Create_Directory\<close> and
  \<open>GOSFS_Delete\<close> on the directories as lists of entries and on the set of allocated blocks.
\<close>

section \<open>Entries in a buffer that is held\<close>

lemma upd_entry_ok:
  assumes "buf_data a s = xs" "length xs = 4096" "i < 18" "f (entry xs i) = Some e" "entry_ok e"
  shows "\<exists>ys. upd_entry a (int i) f s = Some (set_buf_data a ys s) \<and> length ys = 4096 \<and> entries ys = (entries xs)[i := e]"
proof -
  obtain ys where "put_entry xs (int i) e = Some ys" "length ys = 4096" "entries ys = (entries xs)[i := e]"
    using put_entry_in [OF assms(2,3,5)] by blast
  then show ?thesis using assms(1-4) by (auto simp: upd_entry_def buf_entry_def)
qed

text \<open>A second change of the same entry, to what is already a changed buffer.\<close>

lemma upd_entry_again:
  assumes "length xs = 4096" "i < 18" "entry xs i = e" "f e = Some e'" "entry_ok e'"
  shows "\<exists>ys. upd_entry a (int i) f (set_buf_data a xs s) = Some (set_buf_data a ys s) \<and> length ys = 4096 \<and>
    entries ys = (entries xs)[i := e'] \<and> entry ys i = e'"
proof -
  obtain ys where ys: "upd_entry a (int i) f (set_buf_data a xs s) = Some (set_buf_data a ys (set_buf_data a xs s))"
    "length ys = 4096" "entries ys = (entries xs)[i := e']"
    using upd_entry_ok [of a "set_buf_data a xs s" xs i f e'] assms by auto
  then have "entry ys i = e'" using assms(2) nth_entries [of i ys] by simp
  with ys show ?thesis by auto
qed

lemma set_buf_data_id: "buf_data a s = xs \<Longrightarrow> set_buf_data a xs s = s"
proof -
  assume "buf_data a s = xs"
  then have "upd_buf a (\<lambda>b. b\<lparr>bdata := xs\<rparr>) (gcache s) = gcache s"
    by (auto simp: upd_buf_def buf_data_def fun_upd_idem)
  then show ?thesis by (simp add: set_buf_data_def)
qed

lemma set_buf_data_inj: "set_buf_data a xs s = set_buf_data a ys s \<Longrightarrow> xs = ys"
  by (drule arg_cong [where f = "buf_data a"]) simp

lemma set_buf_data_commute: "a \<noteq> b \<Longrightarrow> set_buf_data a xs (set_buf_data b ys s) = set_buf_data b ys (set_buf_data a xs s)"
  by (simp add: set_buf_data_def upd_buf_def fun_upd_twist)

text \<open>Writing two buffers, then marking both.\<close>

lemma write_two_ok:
  assumes inv: "fs_inv s H" and a: "a \<in> insert (fsinfo s) H" "b \<in> insert (fsinfo s) H" "a \<noteq> b"
    and len: "length xs = 4096" "length ys = 4096"
  shows "\<exists>s'. (do { s \<leftarrow> modify_buf a (set_buf_data b ys (set_buf_data a xs s)); modify_buf b s }) = Some s' \<and> fs_inv s' H \<and>
    block s' = (block s)(blkno a s := xs, blkno b s := ys) \<and> same_fs s s' \<and>
    (\<forall>c. blkno c s' = blkno c s \<and> buf_data c s' = (if c = b then ys else if c = a then xs else buf_data c s))"
proof -
  obtain s1 where s1: "modify_buf a (set_buf_data a xs s) = Some s1" "fs_inv s1 H" "block s1 = (block s)(blkno a s := xs)"
    "same_fs s s1" "\<And>c. blkno c s1 = blkno c s" "\<And>c. buf_data c s1 = (if c = a then xs else buf_data c s)"
    using write_ok [OF inv a(1) len(1)] by blast
  have b: "b \<in> insert (fsinfo s1) H" using a(2) s1(4) by (simp add: same_fs_def)
  obtain s2 where s2: "modify_buf b (set_buf_data b ys s1) = Some s2" "fs_inv s2 H" "block s2 = (block s1)(blkno b s1 := ys)"
    "same_fs s1 s2" "\<And>c. blkno c s2 = blkno c s1" "\<And>c. buf_data c s2 = (if c = b then ys else buf_data c s1)"
    using write_ok [OF s1(2) b len(2)] by blast
  have "modify_buf a (set_buf_data b ys (set_buf_data a xs s)) = Some (set_buf_data b ys s1)"
    using a(3) s1(1) by (simp add: modify_set_commute)
  with s1 s2 show ?thesis by (auto intro: same_fs_trans)
qed

lemma modify_fsinfo: "modify_buf b (set_buf_data c ys (set_buf_data a xs s)) = Some s' \<Longrightarrow> fsinfo s' = fsinfo s"
  by (auto simp: modify_buf_def bind_Some_iff)

section \<open>The superblock\<close>

definition fs_blocks :: "GOSFS_Instance \<Rightarrow> nat" where
  "fs_blocks s = unat (le_word (take 4 (drop 8 (block s 0))))"

text \<open>The first block that is free.\<close>

definition next_block :: "GOSFS_Instance \<Rightarrow> nat \<Rightarrow> bool" where
  "next_block s k \<longleftrightarrow> k \<notin> used_blocks s \<and> {..<k} \<subseteq> used_blocks s \<and> k < fs_blocks s \<and> k < 128 \<and> fs_blocks s \<le> 8 * 4084"

lemma sb_size_ok: "fs_inv s H \<Longrightarrow> buf_data (fsinfo s) s' = buf_data (fsinfo s) s \<Longrightarrow> fsinfo s' = fsinfo s \<Longrightarrow>
    sb_size s' = Some (le_word (take 4 (drop 8 (block s 0))))"
  using superblock_data [of s H] by (simp add: sb_size_def get_word_def)

lemma find_free_block_ok:
  assumes inv: "fs_inv s H" and k: "next_block s k" and s': "buf_data (fsinfo s) s' = buf_data (fsinfo s) s" "fsinfo s' = fsinfo s"
  shows "find_free_block s' = Some (int k)"
proof -
  have bm: "sb_bitmap s' = drop 12 (block s 0)" using superblock_data(1) [OF inv] s' by (simp add: sb_bitmap_def)
  have n: "FIND_NUM_BYTES (fs_blocks s) \<le> length (drop 12 (block s 0))" "k < FIND_NUM_BYTES (fs_blocks s) * 8"
  proof -
    have b: "fs_blocks s \<le> 8 * 4084" "k < fs_blocks s" using k by (simp_all add: next_block_def)
    then have "fs_blocks s div 8 \<le> 4084" "fs_blocks s mod 8 > 0 \<Longrightarrow> fs_blocks s div 8 < 4084" by presburger+
    note this b
    then show "FIND_NUM_BYTES (fs_blocks s) \<le> length (drop 12 (block s 0))" "k < FIND_NUM_BYTES (fs_blocks s) * 8"
      using superblock_data(2) [OF inv] by (auto simp: FIND_NUM_BYTES_def)
  qed
  have "find_free_from (drop 12 (block s 0)) 0 (FIND_NUM_BYTES (fs_blocks s)) = Some (int k)"
  proof -
    obtain r where r: "find_free_from (drop 12 (block s 0)) 0 (FIND_NUM_BYTES (fs_blocks s)) = Some r"
      "r = - 1 \<and> (\<forall>j < FIND_NUM_BYTES (fs_blocks s) * 8. j \<in> used_blocks s) \<or>
       (\<exists>i. r = int i \<and> i < FIND_NUM_BYTES (fs_blocks s) * 8 \<and> i \<notin> used_blocks s \<and> (\<forall>j < i. j \<in> used_blocks s))"
      using find_free_from_spec [OF n(1), of 0] unfolding used_blocks_def by auto
    then obtain i where i: "r = int i" "i \<notin> used_blocks s" "\<forall>j < i. j \<in> used_blocks s"
      using k n(2) by (auto simp: next_block_def)
    have "i = k" using i(2,3) k unfolding next_block_def by (metis lessThan_iff linorder_neqE_nat subsetD)
    with r(1) i(1) show ?thesis by simp
  qed
  then show ?thesis
    using sb_size_ok [OF inv s'] bm by (simp add: find_free_block_def Find_First_Free_Bit_def fs_blocks_def)
qed

text \<open>A bitmap with one bit changed.\<close>

definition sb_with :: "u8 list \<Rightarrow> nat set \<Rightarrow> u8 list \<Rightarrow> bool" where
  "sb_with old U new \<longleftrightarrow> length new = 4096 \<and> take 12 new = take 12 old \<and> bits_of (drop 12 new) = U"

lemma sb_with_change:
  assumes "length old = 4096" "length bm = 4084" "bits_of bm = U"
  shows "sb_with old U (take 12 old @ bm)"
  using assms by (simp add: sb_with_def)

lemma mark_block_ok:
  assumes inv: "fs_inv s H" and k: "k < 128" and s': "buf_data (fsinfo s) s' = buf_data (fsinfo s) s" "fsinfo s' = fsinfo s"
  shows "\<exists>ys. mark_block (int k) s' = Some (set_buf_data (fsinfo s) ys s') \<and> sb_with (block s 0) (insert k (used_blocks s)) ys"
proof -
  note D = superblock_data [OF inv]
  have bm: "sb_bitmap s' = drop 12 (block s 0)" using D(1) s' by (simp add: sb_bitmap_def)
  obtain bm where "Set_Bit (drop 12 (block s 0)) k = Some bm" "length bm = 4084" "bits_of bm = insert k (used_blocks s)"
    using Set_Bit_spec [of k "drop 12 (block s 0)"] D(2) k by (auto simp: used_blocks_def)
  moreover have "unat (word_of_int (int k) :: u32) = k" using k by (simp add: unsigned_of_nat take_bit_nat_eq_self)
  ultimately show ?thesis
    using bm D s' by (auto simp: mark_block_def set_bitmap_def sb_with_change)
qed

lemma free_block_ok:
  assumes inv: "fs_inv s H" and k: "small k" and s': "buf_data (fsinfo s) s' = buf_data (fsinfo s) s" "fsinfo s' = fsinfo s"
  shows "\<exists>ys. free_block k s' = Some (set_buf_data (fsinfo s) ys s') \<and> sb_with (block s 0) (used_blocks s - {unat k}) ys"
proof -
  note D = superblock_data [OF inv]
  have bm: "sb_bitmap s' = drop 12 (block s 0)" using D(1) s' by (simp add: sb_bitmap_def)
  obtain bm where "Clear_Bit (drop 12 (block s 0)) (unat k) = Some bm" "length bm = 4084" "bits_of bm = used_blocks s - {unat k}"
    using Clear_Bit_spec [of "unat k" "drop 12 (block s 0)"] D(2) k by (auto simp: used_blocks_def)
  then show ?thesis
    using bm D s' by (auto simp: free_block_def set_bitmap_def sb_with_change)
qed

lemma sb_with_simps:
  assumes "sb_with (block s 0) U (block s' 0)"
  shows "used_blocks s' = U" "root_block s' = root_block s" "fs_blocks s' = fs_blocks s" "take 12 (block s' 0) = take 12 (block s 0)"
proof -
  have t: "take 12 (block s' 0) = take 12 (block s 0)" using assms by (simp add: sb_with_def)
  have "take 4 (drop n (block s' 0)) = take 4 (drop n (block s 0))" if "n \<le> 8" for n
  proof -
    have "take 4 (drop n xs) = take 4 (drop n (take 12 xs))" for xs :: "u8 list" using that by (simp add: drop_take min_def)
    then show ?thesis using t by metis
  qed
  from this [of 4] this [of 8] show "root_block s' = root_block s" "fs_blocks s' = fs_blocks s"
    by (simp_all add: root_block_def fs_blocks_def)
  show "take 12 (block s' 0) = take 12 (block s 0)" by (rule t)
qed (use assms in \<open>simp add: sb_with_def used_blocks_def\<close>)


section \<open>Creating a directory\<close>

text \<open>The entry that names block \<open>k\<close> as directory \<open>x\<close>, and the block of a new directory.\<close>

definition dir_entry :: "cstr \<Rightarrow> u32 \<Rightarrow> dentry \<Rightarrow> bool" where
  "dir_entry x k e \<longleftrightarrow> entry_ok e \<and> name_of e = Some x \<and> dflags e = GOSFS_DIRENTRY_ISDIRECTORY \<and> block0 e = k"

definition new_dir :: "u32 \<Rightarrow> u32 \<Rightarrow> dentry list \<Rightarrow> bool" where
  "new_dir k p es \<longleftrightarrow> length es = 18 \<and> dir_entry [DOT] k (es ! 0) \<and> dir_entry [DOT, DOT] p (es ! 1) \<and>
     (\<forall>j. 2 \<le> j \<and> j < 18 \<longrightarrow> es ! j = zero_entry)"

lemma set_permission_simps [simp]:
  "entry_ok (set_permission p e) = entry_ok e" "dflags (set_permission p e) = dflags e"
  "name_of (set_permission p e) = name_of e" "block0 (set_permission p e) = block0 e"
  by (simp_all add: set_permission_def entry_ok_def name_of_def block0_def)

lemma bytes_words_zero: "4 * n \<le> m \<Longrightarrow> bytes_words n (replicate m 0) = replicate n 0"
proof (induction n arbitrary: m)
  case (Suc n)
  have "le_word (replicate 4 0) = 0" by (simp add: numeral_eq_Suc)
  then show ?case using Suc by (simp add: min_def)
qed simp

lemma entry_zero_block [simp]: "i < 18 \<Longrightarrow> entry (replicate 4096 0) i = zero_entry"
proof -
  assume "i < 18"
  then have "take 216 (drop (216 * i) (replicate 4096 (0 :: u8))) = replicate 216 0" by simp
  moreover have "le_word (replicate 4 0) = 0" by (simp add: numeral_eq_Suc)
  ultimately show ?thesis
    by (simp add: entry_def dec_entry_def zero_entry_def bytes_words_zero)
qed

lemma entry_ok_zero [simp]: "entry_ok zero_entry"
  by (simp add: zero_entry_def entry_ok_def)

lemma zero_entry_simps [simp]: "dflags zero_entry = 0" "is_free zero_entry" "name_of zero_entry = Some []" "block0 zero_entry = 0"
  by (simp_all add: zero_entry_def is_free_def name_of_def block0_def takeWhile_replicate)

lemma dot_entry_ok:
  assumes "entry_ok e" "length n \<le> 127" "0 \<notin> set n"
  shows "\<exists>e'. dot_entry n b e = Some e' \<and> dir_entry n b e'"
proof -
  obtain e1 where "set_name n e = Some e1" "entry_ok e1" "name_of e1 = Some n" using set_name_ok [OF assms] by blast
  then show ?thesis by (simp add: dot_entry_def dir_entry_def)
qed


text \<open>What the disk holds is what the blocks are: after a synchronization.\<close>

definition on_disk_too :: "GOSFS_Instance \<Rightarrow> bool" where
  "on_disk_too s \<longleftrightarrow> (\<forall>n. small n \<longrightarrow> on_disk (gcache s) n = block s n)"

lemma release_disk: "release_buf a s = Some s' \<Longrightarrow> on_disk (gcache s') = on_disk (gcache s)"
  by (auto simp: release_buf_def Release_FS_Buffer_def bind_Some_iff fun_eq_iff on_disk_def spb_def upd_buf_def split: if_splits)

text \<open>Marking written buffers, synchronizing and releasing one buffer.\<close>

lemma sync_release_ok:
  assumes inv: "fs_inv s H" and a: "a \<in> H"
  shows "\<exists>s'. (do { s \<leftarrow> sync_bufs s; release_buf a s }) = Some s' \<and> fs_inv s' (H - {a}) \<and> same_fs s s' \<and>
    (\<forall>n. small n \<longrightarrow> block s' n = block s n) \<and> on_disk_too s' \<and> (\<forall>b. blkno b s' = blkno b s)"
proof -
  obtain s1 where s1: "sync_bufs s = Some s1" "fs_inv s1 H" "\<And>n. small n \<Longrightarrow> block s1 n = block s n" "same_fs s s1"
    "\<And>b. blkno b s1 = blkno b s" "\<And>n. small n \<Longrightarrow> on_disk (gcache s1) n = block s n"
    using sync_bufs_ok [OF inv] by blast
  obtain s2 where s2: "release_buf a s1 = Some s2" "fs_inv s2 (H - {a})" "block s2 = block s1" "same_fs s1 s2"
    "\<And>b. blkno b s2 = blkno b s1" using release_buf_ok [OF s1(2) a] by blast
  show ?thesis using s1 s2 release_disk [OF s2(1)] same_fs_trans [OF s1(4) s2(4)] by (auto simp: on_disk_too_def)
qed

text \<open>The entry in the parent.\<close>

lemma link_directory_ok:
  assumes inv: "fs_inv s {a}" and b: "blkno a s = b" "small b" "b \<noteq> 0" and k: "next_block s k"
    and i: "i < 18" and info: "info = \<lparr>pi_suffix = x, dirEntryPtr = \<lparr>de_base = b, de_offset = int i\<rparr>\<rparr>"
    and x: "length x \<le> 127" "0 \<notin> set x"
  shows "\<exists>e s'. link_directory a info s = Some (int k, s') \<and> fs_inv s' {} \<and> same_fs s s' \<and> dir_entry x (of_nat k) e \<and>
    dirs s' b = (dirs s b)[i := e] \<and> sb_with (block s 0) (insert k (used_blocks s)) (block s' 0) \<and>
    (\<forall>n. small n \<and> n \<noteq> 0 \<and> n \<noteq> b \<longrightarrow> block s' n = block s n) \<and> on_disk_too s'"
proof -
  note D = fs_invD [OF inv]
  have am: "a \<in> set (bufferList (gcache s))" using D(6) by simp
  have af: "a \<noteq> fsinfo s" using D(5) by auto
  have kb: "k < 128" using k by (simp add: next_block_def)
  define xs where "xs = block s b"
  have xs: "buf_data a s = xs" "length xs = 4096" using buf_is_block [OF inv am] b(1) by (simp_all add: xs_def)
  have ok0: "entry_ok (entry xs i)" using xs i by simp
  obtain e1 where e1: "set_name x (entry xs i) = Some e1" "entry_ok e1" "name_of e1 = Some x"
    using set_name_ok [OF ok0 x] by blast
  obtain x1 where x1: "upd_entry a (int i) (set_name x) s = Some (set_buf_data a x1 s)" "length x1 = 4096" "entries x1 = (entries xs)[i := e1]"
    using upd_entry_ok [where f = "set_name x", OF xs i e1(1,2)] by blast
  have c1: "entry x1 i = e1" using nth_entries [OF i, of x1] x1(3) i by simp
  let ?f2 = "\<lambda>e. Some (e\<lparr>dsize := of_nat GOSFS_FS_BLOCK_SIZE\<rparr>)" and ?f3 = "\<lambda>e. Some (e\<lparr>dflags := GOSFS_DIRENTRY_ISDIRECTORY\<rparr>)"
    and ?f4 = "\<lambda>e. Some (set_block0 (of_nat k) e)" and ?f5 = "\<lambda>e. Some (set_permission O_READ_WRITE e)"
  obtain e2 where e2: "?f2 e1 = Some e2" "entry_ok e2" "name_of e2 = Some x" using e1 by simp
  obtain x2 where x2: "upd_entry a (int i) ?f2 (set_buf_data a x1 s) = Some (set_buf_data a x2 s)" "length x2 = 4096"
    "entries x2 = (entries x1)[i := e2]" "entry x2 i = e2"
    using upd_entry_again [where f = ?f2, OF x1(2) i c1 e2(1,2)] by blast
  obtain e3 where e3: "?f3 e2 = Some e3" "entry_ok e3" "name_of e3 = Some x" "dflags e3 = GOSFS_DIRENTRY_ISDIRECTORY" using e2 by simp
  obtain x3 where x3: "upd_entry a (int i) ?f3 (set_buf_data a x2 s) = Some (set_buf_data a x3 s)" "length x3 = 4096"
    "entries x3 = (entries x2)[i := e3]" "entry x3 i = e3"
    using upd_entry_again [where f = ?f3, OF x2(2) i x2(4) e3(1,2)] by blast
  obtain e4 where e4: "?f4 e3 = Some e4" "entry_ok e4" "name_of e4 = Some x" "dflags e4 = GOSFS_DIRENTRY_ISDIRECTORY" "block0 e4 = of_nat k" using e3 by simp
  obtain x4 where x4: "upd_entry a (int i) ?f4 (set_buf_data a x3 s) = Some (set_buf_data a x4 s)" "length x4 = 4096"
    "entries x4 = (entries x3)[i := e4]" "entry x4 i = e4"
    using upd_entry_again [where f = ?f4, OF x3(2) i x3(4) e4(1,2)] by blast
  obtain e5 where e5: "?f5 e4 = Some e5" "entry_ok e5" "dir_entry x (of_nat k) e5" using e4 by (simp add: dir_entry_def)
  obtain x5 where x5: "upd_entry a (int i) ?f5 (set_buf_data a x4 s) = Some (set_buf_data a x5 s)" "length x5 = 4096"
    "entries x5 = (entries x4)[i := e5]"
    using upd_entry_again [where f = ?f5, OF x4(2) i x4(4) e5(1,2)] by blast
  have ent: "entries x5 = (entries xs)[i := e5]" by (simp add: x5 x4 x3 x2 x1)
  have ff: "find_free_block (set_buf_data a x3 s) = Some (int k)" using af by (intro find_free_block_ok [OF inv k]) simp_all
  obtain ys where ys: "mark_block (int k) (set_buf_data a x5 s) = Some (set_buf_data (fsinfo s) ys (set_buf_data a x5 s))"
    "sb_with (block s 0) (insert k (used_blocks s)) ys"
    using mark_block_ok [OF inv kb, of "set_buf_data a x5 s"] af by auto
  have yl: "length ys = 4096" using ys(2) by (simp add: sb_with_def)
  obtain s0 s1 where s1: "modify_buf a (set_buf_data (fsinfo s) ys (set_buf_data a x5 s)) = Some s0" "modify_buf (fsinfo s) s0 = Some s1"
    "fs_inv s1 {a}" "block s1 = (block s)(b := x5, 0 := ys)" "same_fs s s1"
    using write_two_ok [OF inv _ _ af x5(2) yl] b(1) D(4) by (auto simp: bind_Some_iff)
  have f0: "fsinfo s0 = fsinfo s" using s1(1) by (rule modify_fsinfo)
  obtain s2 s3 where s3: "sync_bufs s1 = Some s2" "release_buf a s2 = Some s3" "fs_inv s3 {}" "same_fs s1 s3"
    "\<And>n. small n \<Longrightarrow> block s3 n = block s1 n" "on_disk_too s3"
    using sync_release_ok [OF s1(3)] by (auto simp: bind_Some_iff)
  have "link_directory a info s = Some (int k, s3)"
    unfolding link_directory_def Let_def info Path_Info.select_convs Dir_Entry_Ptr.select_convs
    using x1 x2 x3 x4 x5 ff ys s1 s3 f0 by simp
  moreover have "dirs s3 b = (dirs s b)[i := e5]" using s3(5) [OF b(2)] s1(4) b(3) ent by (simp add: dirs_def xs_def)
  moreover have "sb_with (block s 0) (insert k (used_blocks s)) (block s3 0)" using s3(5) [of 0] s1(4) b(3) ys(2) by simp
  moreover have "\<forall>n. small n \<and> n \<noteq> 0 \<and> n \<noteq> b \<longrightarrow> block s3 n = block s n" using s3(5) s1(4) by simp
  ultimately show ?thesis using s3(3,6) e5(3) same_fs_trans [OF s1(5) s3(4)] by blast
qed

text \<open>The new block.\<close>

lemma fill_directory_ok:
  assumes inv: "fs_inv s {a}" and b: "blkno a s = k" "small k" "k \<noteq> 0"
  shows "\<exists>s'. fill_directory a k p s = Some s' \<and> fs_inv s' {} \<and> same_fs s s' \<and> new_dir k p (dirs s' k) \<and>
    (\<forall>n. small n \<and> n \<noteq> k \<longrightarrow> block s' n = block s n) \<and> on_disk_too s'"
proof -
  note D = fs_invD [OF inv]
  have am: "a \<in> set (bufferList (gcache s))" using D(6) by simp
  have len: "length (buf_data a s) = 4096" by (rule buf_is_block(2) [OF inv am])
  let ?z = "replicate 4096 0 :: u8 list"
  have z: "zero_block a s = Some (set_buf_data a ?z s)" using len by (simp add: zero_block_def put_bytes_def)
  obtain e0 where e0: "dot_entry [DOT] k (entry ?z 0) = Some e0" "dir_entry [DOT] k e0"
    using dot_entry_ok [of zero_entry "[DOT]" k] by auto
  obtain x1 where x1: "upd_entry a (int 0) (dot_entry [DOT] k) (set_buf_data a ?z s) = Some (set_buf_data a x1 s)" "length x1 = 4096"
    "entries x1 = (entries ?z)[0 := e0]"
    using upd_entry_again [where f = "dot_entry [DOT] k" and xs = ?z and i = 0, OF _ _ refl e0(1)] e0(2) by (auto simp: dir_entry_def)
  have c1: "entry x1 1 = zero_entry" using nth_entries [of 1 x1] by (simp add: x1(3))
  obtain e1 where e1: "dot_entry [DOT, DOT] p zero_entry = Some e1" "dir_entry [DOT, DOT] p e1"
    using dot_entry_ok [of zero_entry "[DOT, DOT]" p] by auto
  obtain x2 where x2: "upd_entry a (int 1) (dot_entry [DOT, DOT] p) (set_buf_data a x1 s) = Some (set_buf_data a x2 s)" "length x2 = 4096"
    "entries x2 = (entries x1)[1 := e1]"
    using upd_entry_again [where f = "dot_entry [DOT, DOT] p" and i = 1, OF x1(2) _ c1 e1(1)] e1(2) by (auto simp: dir_entry_def)
  have "new_dir k p (entries x2)" using e0(2) e1(2) by (auto simp: new_dir_def x1(3) x2(3))
  obtain s1 where s1: "modify_buf a (set_buf_data a x2 s) = Some s1" "fs_inv s1 {a}" "block s1 = (block s)(k := x2)" "same_fs s s1"
    using write_ok [OF inv _ x2(2), of a] b(1) by auto
  obtain s2 s3 where s3: "sync_bufs s1 = Some s2" "release_buf a s2 = Some s3" "fs_inv s3 {}" "same_fs s1 s3"
    "\<And>n. small n \<Longrightarrow> block s3 n = block s1 n" "on_disk_too s3"
    using sync_release_ok [OF s1(2)] by (auto simp: bind_Some_iff)
  have "fill_directory a k p s = Some s3" using z x1 x2 s1 s3 by (simp add: fill_directory_def)
  moreover have "dirs s3 k = entries x2" using s3(5) [OF b(2)] s1(3) by (simp add: dirs_def)
  ultimately show ?thesis using s3 s1(3) same_fs_trans [OF s1(4) s3(4)] \<open>new_dir k p (entries x2)\<close> by auto
qed

text \<open>The state after a directory \<open>x\<close> with block \<open>k\<close> has been made in place \<open>i\<close> of block \<open>p\<close>.\<close>

definition made_dir :: "GOSFS_Instance \<Rightarrow> u32 \<Rightarrow> nat \<Rightarrow> cstr \<Rightarrow> nat \<Rightarrow> GOSFS_Instance \<Rightarrow> bool" where
  "made_dir s p i x k s' \<longleftrightarrow> fs_inv s' {} \<and> same_fs s s' \<and> on_disk_too s' \<and>
     used_blocks s' = insert k (used_blocks s) \<and> root_block s' = root_block s \<and> fs_blocks s' = fs_blocks s \<and>
     take 12 (block s' 0) = take 12 (block s 0) \<and>
     (\<exists>e. dir_entry x (of_nat k) e \<and> dirs s' p = (dirs s p)[i := e]) \<and> new_dir (of_nat k) p (dirs s' (of_nat k)) \<and>
     (\<forall>n. small n \<and> n \<noteq> 0 \<and> n \<noteq> p \<and> n \<noteq> of_nat k \<longrightarrow> dirs s' n = dirs s n)"

lemma Create_Directory_ok:
  assumes inv: "fs_inv s {}" and E: "good_env E" "str_at_0 E \<noteq> [SLASH]" and cs: "\<forall>c\<in>set cs. good_name c" "length (join cs) < 1023"
    and x: "0 \<notin> set (last cs)"
    and res: "resolve (used_blocks s) (dirs s) (root_block s) cs = Missing p (int i) True" and i: "i < 18"
    and k: "next_block s k" "k \<noteq> 0"
  shows "\<exists>s'. GOSFS_Create_Directory E (join cs) s = Some (0, s') \<and> made_dir s p i (last cs) k s'"
proof -
  from resolve_MissingD [OF res] have ne: "cs \<noteq> []" and p: "p \<noteq> 0" "small p" "unat p \<in> used_blocks s"
    by (auto simp: dir_ok_def)
  have xl: "length (last cs) \<le> 127" using cs(1) last_in_set [OF ne] by (force simp: good_name_def)
  have kk: "small (of_nat k)" "of_nat k \<noteq> (0 :: u32)" "unat (of_nat k :: u32) = k" "k \<notin> used_blocks s"
    using k by (auto simp: next_block_def unsigned_of_nat take_bit_nat_eq_self word_unat_eq_iff)
  have kp: "of_nat k \<noteq> p" using kk p by auto
  let ?info = "\<lparr>pi_suffix = last cs, dirEntryPtr = \<lparr>de_base = p, de_offset = int i\<rparr>\<rparr>"
  obtain s1 where s1: "lookup_path E (join cs) s = Some (EUNSPECIFIED, ?info, s1)" "same_blocks s s1"
    using lookup_path_Missing [OF inv E cs res] by blast
  note S1 = same_blocks_simps [OF s1(2)]
  obtain a s2 where s2: "get_buf E p s1 = Some (0, a, s2)" "fs_inv s2 {a}" "blkno a s2 = p" "block s2 = block s1" "same_fs s1 s2"
    using get_buf_ok [OF S1(1) E(1) p(2,1)] by auto
  have b2: "block s2 = block s" using s2(4) S1(2) by simp
  have eq2: "dirs s2 = dirs s" "used_blocks s2 = used_blocks s" "fs_blocks s2 = fs_blocks s"
    by (simp_all add: fun_eq_iff dirs_def used_blocks_def fs_blocks_def b2)
  have k2: "next_block s2 k" using k(1) by (simp add: next_block_def eq2)
  obtain e s3 where s3: "link_directory a ?info s2 = Some (int k, s3)" "fs_inv s3 {}" "same_fs s2 s3" "dir_entry (last cs) (of_nat k) e"
    "dirs s3 p = (dirs s p)[i := e]" "sb_with (block s 0) (insert k (used_blocks s)) (block s3 0)"
    "\<And>n. small n \<Longrightarrow> n \<noteq> 0 \<Longrightarrow> n \<noteq> p \<Longrightarrow> block s3 n = block s n"
    using link_directory_ok [OF s2(2,3) p(2,1) k2 i refl xl x] unfolding b2 eq2 by blast
  obtain a4 s4 where s4: "get_buf E (of_nat k) s3 = Some (0, a4, s4)" "fs_inv s4 {a4}" "blkno a4 s4 = of_nat k" "block s4 = block s3" "same_fs s3 s4"
    using get_buf_ok [OF s3(2) E(1) kk(1,2)] by auto
  obtain s5 where s5: "fill_directory a4 (of_nat k) p s4 = Some s5" "fs_inv s5 {}" "same_fs s4 s5" "new_dir (of_nat k) p (dirs s5 (of_nat k))"
    "\<And>n. small n \<Longrightarrow> n \<noteq> of_nat k \<Longrightarrow> block s5 n = block s4 n" "on_disk_too s5"
    using fill_directory_ok [OF s4(2,3) kk(1,2), of p] by blast
  have "same_fs s s5" using s1(2) s2(5) s3(3) s4(5) s5(3) by (simp add: same_blocks_def same_fs_def)
  moreover have "GOSFS_Create_Directory E (join cs) s = Some (0, s5)"
    using s1 s2 s3(1) s4 s5(1) by (simp add: GOSFS_Create_Directory_def del: join_simps)
  moreover have "block s5 0 = block s3 0" using s5(5) [of 0] kk(2) s4(4) by auto
  with s3(6) have "sb_with (block s 0) (insert k (used_blocks s)) (block s5 0)" by simp
  note sb = sb_with_simps [OF this]
  moreover have "dirs s5 p = (dirs s p)[i := e]" using s3(5) s5(5) [OF p(2)] kp s4(4) by (auto simp: dirs_def)
  moreover have "dirs s5 n = dirs s n" if "small n" "n \<noteq> 0" "n \<noteq> p" "n \<noteq> of_nat k" for n
    using s3(7) s5(5) that s4(4) by (simp add: dirs_def)
  ultimately show ?thesis using s5(2,4,6) s3(4) unfolding made_dir_def by blast
qed


section \<open>Deleting\<close>

lemma all_unused_ok:
  assumes "\<And>j. i \<le> j \<Longrightarrow> j < i + n \<Longrightarrow> rd (int j) = Some (es ! j)"
  shows "all_unused rd i n = Some (\<forall>j. i \<le> j \<and> j < i + n \<longrightarrow> dflags (es ! j) = 0)"
  using assms
proof (induction n arbitrary: i)
  case (Suc n)
  have r: "rd (int i) = Some (es ! i)" using Suc.prems [of i] by simp
  have IH: "all_unused rd (Suc i) n = Some (\<forall>j. Suc i \<le> j \<and> j < Suc i + n \<longrightarrow> dflags (es ! j) = 0)"
    by (rule Suc.IH) (use Suc.prems in auto)
  have "i \<le> j \<and> j < i + Suc n \<longleftrightarrow> j = i \<or> Suc i \<le> j \<and> j < Suc i + n" for j by auto
  then have "(\<forall>j. i \<le> j \<and> j < i + Suc n \<longrightarrow> dflags (es ! j) = 0) \<longleftrightarrow>
      dflags (es ! i) = 0 \<and> (\<forall>j. Suc i \<le> j \<and> j < Suc i + n \<longrightarrow> dflags (es ! j) = 0)"
    by (simp only:) blast
  then show ?case using r IH by simp
qed auto

text \<open>An empty directory: nothing in use after the first two entries.\<close>

definition empty_dir :: "dentry list \<Rightarrow> bool" where
  "empty_dir es \<longleftrightarrow> (\<forall>j. 2 \<le> j \<and> j < 18 \<longrightarrow> dflags (es ! j) = 0)"

definition deletable :: "(u32 \<Rightarrow> dentry list) \<Rightarrow> dentry \<Rightarrow> bool" where
  "deletable d e \<longleftrightarrow> dflags e = GOSFS_DIRENTRY_USED \<or> empty_dir (d (block0 e))"

lemma may_delete_ok:
  assumes inv: "fs_inv s {a}" and E: "good_env E" and b: "small (block0 e)" "block0 e \<noteq> 0" "block0 e \<noteq> blkno a s"
    and f: "dflags e = GOSFS_DIRENTRY_USED \<or> dflags e = GOSFS_DIRENTRY_ISDIRECTORY"
  shows "\<exists>s'. may_delete E e s = Some (deletable (dirs s) e, s') \<and> fs_inv s' {a} \<and> block s' = block s \<and> same_fs s s' \<and>
    blkno a s' = blkno a s \<and> buf_data a s' = buf_data a s \<and> buf_data (fsinfo s) s' = buf_data (fsinfo s) s"
  using f
proof
  assume "dflags e = GOSFS_DIRENTRY_USED"
  then show ?thesis using inv by (simp add: may_delete_def deletable_def)
next
  assume d: "dflags e = GOSFS_DIRENTRY_ISDIRECTORY"
  obtain a1 s1 where s1: "get_buf E (block0 e) s = Some (0, a1, s1)" "fs_inv s1 {a1, a}" "a1 \<noteq> a" "a1 \<noteq> fsinfo s"
    "buf_data a1 s1 = block s (block0 e)" "block s1 = block s" "same_fs s s1"
    "\<And>b. b = fsinfo s \<or> b = a \<Longrightarrow> blkno b s1 = blkno b s \<and> buf_data b s1 = buf_data b s"
    using get_buf_ok [OF inv E b(1,2)] b(3) by auto
  obtain s2 where s2: "release_buf a1 s1 = Some s2" "fs_inv s2 ({a1, a} - {a1})" "block s2 = block s1" "same_fs s1 s2"
    "\<And>b. blkno b s2 = blkno b s1 \<and> buf_data b s2 = buf_data b s1" using release_buf_ok [OF s1(2), of a1] by blast
  have len: "length (block s (block0 e)) = 4096" by (rule block_length [OF inv])
  have rd: "deref (BufEntry a1 0) s2 (int j) = Some (dirs s (block0 e) ! j)" if "j < 18" for j
    using that len s1(5) s2(5) by (simp add: buf_entry_def dirs_def)
  have "all_unused (deref (BufEntry a1 0) s2) 2 16 = Some (empty_dir (dirs s (block0 e)))"
    using all_unused_ok [of 2 16 "deref (BufEntry a1 0) s2" "dirs s (block0 e)"] rd by (simp add: empty_dir_def)
  then have "may_delete E e s = Some (deletable (dirs s) e, s2)"
    using d b(2) s1(1) s2(1) by (simp add: may_delete_def Get_Entry_By_Ptr_def deletable_def)
  moreover have "{a1, a} - {a1} = {a}" using s1(3) by auto
  ultimately show ?thesis using s1 s2 same_fs_trans [OF s1(7) s2(4)] by auto
qed

definition deleted :: "GOSFS_Instance \<Rightarrow> u32 \<Rightarrow> nat \<Rightarrow> u32 \<Rightarrow> GOSFS_Instance \<Rightarrow> bool" where
  "deleted s p i k s' \<longleftrightarrow> fs_inv s' {} \<and> same_fs s s' \<and> on_disk_too s' \<and>
     used_blocks s' = used_blocks s - {unat k} \<and> root_block s' = root_block s \<and> fs_blocks s' = fs_blocks s \<and>
     dirs s' p = (dirs s p)[i := zero_entry] \<and> block s' k = replicate 4096 0 \<and>
     (\<forall>n. small n \<and> n \<noteq> 0 \<and> n \<noteq> p \<and> n \<noteq> k \<longrightarrow> block s' n = block s n)"

lemma unlink_entry_ok:
  assumes inv: "fs_inv s {a, a1}" and ne: "a \<noteq> a1" and b: "blkno a s = p" "small p" "p \<noteq> 0" "blkno a1 s = k" "small k" "k \<noteq> 0"
    and i: "i < 18"
  shows "\<exists>s'. unlink_entry a a1 (int i) s = Some s' \<and> fs_inv s' {} \<and> same_fs s s' \<and> on_disk_too s' \<and>
     dirs s' p = (dirs s p)[i := zero_entry] \<and> block s' k = replicate 4096 0 \<and>
     (\<forall>n. small n \<and> n \<noteq> p \<and> n \<noteq> k \<longrightarrow> block s' n = block s n)"
proof -
  note D = fs_invD [OF inv]
  have am: "a \<in> set (bufferList (gcache s))" "a1 \<in> set (bufferList (gcache s))" using D(6) by simp_all
  have pk: "p \<noteq> k" using blkno_inj [OF inv am] ne b by auto
  let ?z = "replicate 4096 0 :: u8 list"
  have z: "zero_block a1 s = Some (set_buf_data a1 ?z s)" using buf_is_block(2) [OF inv am(2)] by (simp add: zero_block_def put_bytes_def)
  obtain ys where ys: "upd_entry a (int i) (\<lambda>e. Some zero_entry) s = Some (set_buf_data a ys s)" "length ys = 4096"
    "entries ys = (entries (block s p))[i := zero_entry]"
    using upd_entry_ok [where f = "\<lambda>e. Some zero_entry" and s = s, OF refl buf_is_block(2) [OF inv am(1)] i refl entry_ok_zero]
      buf_is_block(1) [OF inv am(1)] b(1) by auto
  have u: "upd_entry a (int i) (\<lambda>e. Some zero_entry) (set_buf_data a1 ?z s) = Some (set_buf_data a1 ?z (set_buf_data a ys s))"
    using ys(1) ne by (auto simp: upd_entry_def buf_entry_def bind_Some_iff set_buf_data_commute dest!: set_buf_data_inj)
  obtain s0 s1 where s1: "modify_buf a (set_buf_data a1 ?z (set_buf_data a ys s)) = Some s0" "modify_buf a1 s0 = Some s1"
    "fs_inv s1 {a, a1}" "block s1 = (block s)(p := ys, k := ?z)" "same_fs s s1"
    using write_two_ok [OF inv _ _ ne ys(2), of ?z] b(1,4) by (auto simp: bind_Some_iff)
  obtain s2 s3 where s3: "sync_bufs s1 = Some s2" "release_buf a s2 = Some s3" "fs_inv s3 ({a, a1} - {a})" "same_fs s1 s3"
    "\<And>n. small n \<Longrightarrow> block s3 n = block s1 n" "on_disk_too s3"
    using sync_release_ok [OF s1(3), of a] by (auto simp: bind_Some_iff)
  have H: "{a, a1} - {a} = {a1}" using ne by auto
  obtain s4 where s4: "release_buf a1 s3 = Some s4" "fs_inv s4 {}" "block s4 = block s3" "same_fs s3 s4"
    using release_buf_ok [OF s3(3) [unfolded H], of a1] by auto
  have "unlink_entry a a1 (int i) s = Some s4" using z u s1 s3 s4 by (simp add: unlink_entry_def)
  moreover have "on_disk_too s4" using s3(6) s4(3) release_disk [OF s4(1)] by (simp add: on_disk_too_def)
  moreover have "block s4 n = ((block s)(p := ys, k := ?z)) n" if "small n" for n using s3(5) [OF that] s4(3) s1(4) by simp
  ultimately show ?thesis
    using s4(2) same_fs_trans [OF s1(5) same_fs_trans [OF s3(4) s4(4)]] b pk ys(3) by (simp add: dirs_def)
qed

lemma Delete_ok:
  assumes inv: "fs_inv s {}" and E: "good_env E" "str_at_0 E \<noteq> [SLASH]" and cs: "\<forall>c\<in>set cs. good_name c" "length (join cs) < 1023"
    and res: "resolve (used_blocks s) (dirs s) (root_block s) cs = Found p i"
    and k: "k = block0 (dirs s p ! i)" "small k" "k \<noteq> 0" "k \<noteq> p"
  shows "if deletable (dirs s) (dirs s p ! i)
    then \<exists>s'. GOSFS_Delete E (join cs) s = Some (0, s') \<and> deleted s p i k s'
    else \<exists>s'. GOSFS_Delete E (join cs) s = Some (EUNSPECIFIED, s') \<and> same_blocks s s'"
proof -
  let ?e = "dirs s p ! i"
  from resolve_FoundD [OF res] have p: "p \<noteq> 0" "small p" and i: "i < 18" and m: "matches ?e (last cs) True"
    by (auto simp: dir_ok_def dirs_def)
  have fl: "dflags ?e = GOSFS_DIRENTRY_USED \<or> dflags ?e = GOSFS_DIRENTRY_ISDIRECTORY" using m by (auto simp: matches_def)
  let ?info = "\<lparr>pi_suffix = last cs, dirEntryPtr = \<lparr>de_base = p, de_offset = int i\<rparr>\<rparr>"
  obtain s1 where s1: "lookup_path E (join cs) s = Some (0, ?info, s1)" "same_blocks s s1"
    using lookup_path_Found [OF inv E cs res] by blast
  note S1 = same_blocks_simps [OF s1(2)]
  obtain a s2 where s2: "get_buf E p s1 = Some (0, a, s2)" "fs_inv s2 {a}" "blkno a s2 = p" "block s2 = block s1" "same_fs s1 s2"
    "buf_data a s2 = block s1 p"
    using get_buf_ok [OF S1(1) E(1) p(2,1)] by auto
  have len: "length (block s p) = 4096" by (rule block_length [OF inv])
  have e: "buf_entry a s2 (int i) = Some ?e" using i len s2(6) S1(2) by (simp add: buf_entry_def dirs_def)
  have d2: "dirs s2 = dirs s" using s2(4) S1(2) by (simp add: dirs_def fun_eq_iff)
  obtain s3 where s3: "may_delete E ?e s2 = Some (deletable (dirs s) ?e, s3)" "fs_inv s3 {a}" "block s3 = block s2" "same_fs s2 s3"
    "blkno a s3 = p" "buf_data (fsinfo s2) s3 = buf_data (fsinfo s2) s2"
    using may_delete_ok [OF s2(2) E(1) _ _ _ fl] k s2(3) unfolding d2 by auto
  have b3: "block s3 = block s" using s3(3) s2(4) S1(2) by simp
  have same3: "same_fs s s3" using s1(2) s2(5) s3(4) by (simp add: same_blocks_def same_fs_def)
  show ?thesis
  proof (cases "deletable (dirs s) ?e")
    case False
    obtain s4 where s4: "release_buf a s3 = Some s4" "fs_inv s4 {}" "block s4 = block s3" "same_fs s3 s4"
      using release_buf_ok [OF s3(2), of a] by auto
    have "GOSFS_Delete E (join cs) s = Some (EUNSPECIFIED, s4)"
      using False s1 s2 e s3(1) s4(1) by (simp add: GOSFS_Delete_def del: join_simps)
    with False s4 b3 same_fs_trans [OF same3 s4(4)] show ?thesis by (auto simp: same_blocks_def)
  next
    case True
    have u3: "used_blocks s3 = used_blocks s" by (simp add: used_blocks_def b3)
    obtain ys where ys: "free_block k s3 = Some (set_buf_data (fsinfo s3) ys s3)" "sb_with (block s 0) (used_blocks s - {unat k}) ys"
      using free_block_ok [OF s3(2) k(2) refl refl] unfolding b3 u3 by blast
    obtain s4 where s4: "modify_buf (fsinfo s3) (set_buf_data (fsinfo s3) ys s3) = Some s4" "fs_inv s4 {a}" "block s4 = (block s)(0 := ys)"
      "same_fs s3 s4" "blkno a s4 = p"
      using write_ok [OF s3(2), of "fsinfo s3" ys] ys(2) fs_invD(4) [OF s3(2)] s3(5) b3 by (auto simp: sb_with_def)
    obtain a1 s5 where s5: "get_buf E k s4 = Some (0, a1, s5)" "fs_inv s5 {a1, a}" "a1 \<noteq> a" "blkno a1 s5 = k" "block s5 = block s4" "same_fs s4 s5"
      "blkno a s5 = p"
      using get_buf_ok [OF s4(2) E(1) k(2,3)] s4(5) k(4) by auto
    obtain s6 where s6: "unlink_entry a a1 (int i) s5 = Some s6" "fs_inv s6 {}" "same_fs s5 s6" "on_disk_too s6"
      "dirs s6 p = (dirs s5 p)[i := zero_entry]" "block s6 k = replicate 4096 0"
      "\<And>n. small n \<Longrightarrow> n \<noteq> p \<Longrightarrow> n \<noteq> k \<Longrightarrow> block s6 n = block s5 n"
      using unlink_entry_ok [of s5 a a1 p k i] s5 p k i by (auto simp: insert_commute)
    have "GOSFS_Delete E (join cs) s = Some (0, s6)"
      using True s1 s2 e s3(1) ys(1) s4(1) s5(1) s6(1) k(1) by (simp add: GOSFS_Delete_def del: join_simps)
    moreover have "block s6 0 = ys" using s6(7) [of 0] p k s5(5) s4(3) by simp
    with ys(2) have "sb_with (block s 0) (used_blocks s - {unat k}) (block s6 0)" by simp
    note sb = sb_with_simps [OF this]
    moreover have "dirs s6 p = (dirs s p)[i := zero_entry]" using s6(5) s5(5) s4(3) p by (simp add: dirs_def)
    moreover have "same_fs s s6" using same3 s4(4) s5(6) s6(3) by (simp add: same_fs_def)
    moreover have "\<forall>n. small n \<and> n \<noteq> 0 \<and> n \<noteq> p \<and> n \<noteq> k \<longrightarrow> block s6 n = block s n" using s6(7) s5(5) s4(3) by simp
    ultimately show ?thesis using True s6(2,4,6) by (auto simp: deleted_def)
  qed
qed

end
