(* ===== verification/GosfsMount.thy ===== *)
theory GosfsMount
  imports GosfsOps
begin

text \<open>
  Formatting a device, mounting it, and what a sequence of operations on a mounted file system
  leaves there: the composition of the file system, its blocks, the buffer cache and the device.
\<close>

section \<open>Mounting\<close>

text \<open>A device that can be mounted: it answers, its first block is a superblock, and the bitmap has
  room for its size.\<close>

definition fs_block_of :: "disk \<Rightarrow> u32 \<Rightarrow> u8 list" where
  "fs_block_of d n = disk_block d (int (unat n * 8)) 8"

definition mountable :: "disk \<Rightarrow> bool" where
  "mountable d \<longleftrightarrow> disk_ok d \<and> le_word (take 4 (fs_block_of d 0)) = GOSFS_MAGIC \<and>
     unat (le_word (take 4 (drop 8 (fs_block_of d 0)))) \<le> 8 * 4084"

lemma length_fs_block_of [simp]: "disk_ok d \<Longrightarrow> length (fs_block_of d n) = 4096"
  by (simp add: fs_block_of_def length_disk_block)

definition sane_env :: "gosfs_env \<Rightarrow> bool" where
  "sane_env E \<longleftrightarrow> good_env E \<and> malloc_ok E \<and> str_at_0 E \<noteq> [SLASH]"

lemma Mount_ok:
  assumes d: "mountable d" and E: "sane_env E"
  shows "\<exists>s. GOSFS_Mount E d = Some (0, Some s) \<and> fs_inv s {} \<and> block s = fs_block_of d \<and> fileList s = [] \<and>
    block0 (rootDirEntry s) = root_block s"
proof -
  let ?c = "\<lparr>dev = d, fsBlockSize = 4096, numCached = 0, bufferList = [], bufs = (\<lambda>_. \<lparr>fsBlockNum = 0, bdata = [], bflags = 0\<rparr>)\<rparr>"
  have dok: "disk_ok d" using d by (simp add: mountable_def)
  have ok: "cache_ok ?c" using dok by (simp add: cache_ok_def size_ok_def spb_def)
  have spb: "spb ?c = 8" by (simp add: spb_def)
  have E1: "good_env E" "malloc_ok E" using E by (simp_all add: sane_env_def)
  have "\<exists>a page. malloc_buf E ?c = Some (a, page) \<and> a \<notin> set (bufferList ?c) \<and> length page = 4096"
    using E1(1) unfolding good_env_def by (metis fscache.select_convs(4) list.size(3) zero_less_numeral)
  then have "room ?c (malloc_buf E ?c) 0" by (auto simp: room_def valid_block_def spb cached_def)
  from Get_Buffer_ok [OF ok this] obtain a c where g: "Get_Buffer id (malloc_buf E ?c) 0 ?c = Some (0, a, c)" "got ?c 0 a c" by blast
  have content0: "content ?c n = fs_block_of d n" for n
    by (simp add: content_def cached_def on_disk_def fs_block_of_def spb)
  have k: "cache_ok c" "set (bufferList c) = {a}" "fsBlockNum (bufs c a) = 0" "inuse (bufs c a)" "fsBlockSize c = 4096"
    "\<And>n. content c n = fs_block_of d n"
    using g(2) content0 by (auto simp: got_def)
  let ?s0 = "\<lparr>fsinfo = 0, gcache = ?c, rootDirEntry = zero_entry, fileList = []\<rparr>"
  let ?s1 = "\<lparr>fsinfo = a, gcache = c, rootDirEntry = zero_entry, fileList = []\<rparr>"
  have get0: "get_buf E 0 ?s0 = Some (0, a, ?s0\<lparr>gcache := c\<rparr>)" using g(1) by (simp add: get_buf_def Get_FS_Buffer_def)
  have inv1: "fs_inv ?s1 {}" using k by (simp add: fs_inv_def)
  have b1: "block ?s1 = fs_block_of d" using k(6) by (simp add: block_def fun_eq_iff)
  note sb = superblock_data [OF inv1]
  have magic: "sb_magic ?s1 = Some GOSFS_MAGIC" using d sb b1 by (simp add: sb_magic_def get_word_def mountable_def)
  have root: "sb_root ?s1 = Some (root_block ?s1)" by (rule sb_root_ok [OF inv1])
  let ?r = "set_block0 (root_block ?s1) (zero_entry\<lparr>dflags := GOSFS_DIRENTRY_ISDIRECTORY, dsize := of_nat GOSFS_FS_BLOCK_SIZE\<rparr>)"
  let ?s2 = "?s1\<lparr>rootDirEntry := ?r\<rparr>"
  have inv2: "fs_inv ?s2 {}" using inv1 by (simp add: fs_inv_def)
  have b2: "block ?s2 = fs_block_of d" using b1 by (simp add: block_def fun_eq_iff)
  obtain a1 s3 where s3: "get_buf E 1 ?s2 = Some (0, a1, s3)" "fs_inv s3 {a1}" "block s3 = block ?s2" "same_fs ?s2 s3"
    using get_buf_ok [OF inv2 E1(1), of 1] by auto
  have b3: "block s3 = fs_block_of d" using s3(3) b2 by simp
  have f3: "fsinfo s3 = a" "fileList s3 = []" "rootDirEntry s3 = ?r" using s3(4) by (simp_all add: same_fs_def)
  note sb3 = superblock_data [OF s3(2)]
  have size: "sb_size s3 = Some (le_word (take 4 (drop 8 (fs_block_of d 0))))"
    using sb_size_ok [OF s3(2) refl refl] b3 by simp
  have "\<exists>n. Get_Count_Of_ALL_Free_Bit (sb_bitmap s3) (unat (le_word (take 4 (drop 8 (fs_block_of d 0))))) = Some n"
  proof -
    let ?n = "unat (le_word (take 4 (drop 8 (fs_block_of d 0))))"
    have "?n \<le> 8 * 4084" using d by (simp add: mountable_def)
    then have "?n div 8 \<le> 4084" "?n mod 8 > 0 \<Longrightarrow> ?n div 8 < 4084" by presburger+
    then have "FIND_NUM_BYTES ?n \<le> length (sb_bitmap s3)" using sb3 by (auto simp: FIND_NUM_BYTES_def sb_bitmap_def)
    then show ?thesis using count_free_from_spec [of 0 "FIND_NUM_BYTES ?n" "sb_bitmap s3"] by (simp add: Get_Count_Of_ALL_Free_Bit_def)
  qed
  then obtain n where n: "Get_Count_Of_ALL_Free_Bit (sb_bitmap s3) (unat (le_word (take 4 (drop 8 (fs_block_of d 0))))) = Some n" ..
  obtain s4 where s4: "release_buf a1 s3 = Some s4" "fs_inv s4 {}" "block s4 = block s3" "same_fs s3 s4"
    using release_buf_ok [OF s3(2), of a1] by auto
  have "GOSFS_Mount E d = Some (0, Some s4)"
    using E1(2) get0 magic root s3(1) size n s4(1) by (simp add: GOSFS_Mount_def Create_FS_Buffer_Cache_def Let_def)
  moreover have "root_block s4 = root_block ?s1" by (simp add: root_block_def s4(3) b3 b1)
  moreover have "block0 ?r = root_block ?s1" by (intro set_block0_simps) (simp add: zero_entry_def entry_ok_def)
  ultimately show ?thesis using s4 b3 f3 by (auto simp: same_fs_def)
qed

section \<open>Formatting\<close>

lemma new_superblock_ok:
  "\<exists>bm. new_superblock d = Some (le_bytes GOSFS_MAGIC @ le_bytes GOSFS_ROOT_DIR_BLOCK @ le_bytes (word_of_int (numSectors d div 8)) @ bm) \<and>
     length bm = 4084 \<and> bits_of bm = {0, 1}"
proof -
  let ?z = "replicate 4084 0 :: u8 list"
  have z: "bits_of ?z = {}" by (auto simp: bits_of_def bit_at_def)
  obtain b0 where b0: "Set_Bit ?z 0 = Some b0" "length b0 = 4084" "bits_of b0 = {0}"
    using Set_Bit_spec [of 0 ?z] by (auto simp: z)
  obtain b1 where b1: "Set_Bit b0 1 = Some b1" "length b1 = 4084" "bits_of b1 = {0, 1}"
    using Set_Bit_spec [of 1 b0] b0 by auto
  show ?thesis using b0 b1 by (auto simp: new_superblock_def Let_def)
qed

lemma new_root_ok:
  assumes "length stack = 4096"
  shows "\<exists>rt e0 e1. new_root stack = Some rt \<and> length rt = 4096 \<and> dir_entry [DOT] 1 e0 \<and> dir_entry [DOT, DOT] 1 e1 \<and>
    entries rt = (entries stack)[0 := e0, 1 := e1]"
proof -
  obtain e0 where e0: "dot_entry [DOT] 1 (entry stack 0) = Some e0" "dir_entry [DOT] 1 e0"
    using dot_entry_ok [of "entry stack 0" "[DOT]" 1] assms by auto
  obtain x0 where x0: "put_entry stack (int 0) e0 = Some x0" "length x0 = 4096" "entries x0 = (entries stack)[0 := e0]"
    using put_entry_in [OF assms, of 0 e0] e0(2) by (auto simp: dir_entry_def)
  obtain e1 where e1: "dot_entry [DOT, DOT] 1 (entry x0 1) = Some e1" "dir_entry [DOT, DOT] 1 e1"
    using dot_entry_ok [of "entry x0 1" "[DOT, DOT]" 1] x0(2) by auto
  obtain x1 where x1: "put_entry x0 (int 1) e1 = Some x1" "length x1 = 4096" "entries x1 = (entries x0)[1 := e1]"
    using put_entry_in [OF x0(2), of 1 e1] e1(2) by (auto simp: dir_entry_def)
  have g: "get_entry stack (int 0) = Some (entry stack 0)" "get_entry x0 (int 1) = Some (entry x0 1)"
    using assms x0(2) by (simp_all only: get_entry_in)
  have "new_root stack = Some x1" using e0 x0 e1 x1 g by (simp add: new_root_def)
  with x0 x1 e0 e1 show ?thesis by (intro exI [of _ x1] exI [of _ e0] exI [of _ e1]) simp
qed

lemma Format_ok:
  assumes d: "disk_ok d" and st: "length stack = 4096"
  shows "\<exists>d' bm e0 e1. GOSFS_Format stack d = Some (0, d') \<and> disk_ok d' \<and>
    fs_block_of d' 0 = le_bytes GOSFS_MAGIC @ le_bytes GOSFS_ROOT_DIR_BLOCK @ le_bytes (word_of_int (numSectors d div 8)) @ bm \<and>
    length bm = 4084 \<and> bits_of bm = {0, 1} \<and> dir_entry [DOT] 1 e0 \<and> dir_entry [DOT, DOT] 1 e1 \<and>
    entries (fs_block_of d' 1) = (entries stack)[0 := e0, 1 := e1]"
proof -
  obtain bm where bm: "new_superblock d = Some (le_bytes GOSFS_MAGIC @ le_bytes GOSFS_ROOT_DIR_BLOCK @ le_bytes (word_of_int (numSectors d div 8)) @ bm)"
    "length bm = 4084" "bits_of bm = {0, 1}" using new_superblock_ok by blast
  let ?sb = "le_bytes GOSFS_MAGIC @ le_bytes GOSFS_ROOT_DIR_BLOCK @ le_bytes (word_of_int (numSectors d div 8)) @ bm"
  have sbl: "length ?sb = 4096" by (simp add: bm(2))
  obtain rt e0 e1 where rt: "new_root stack = Some rt" "length rt = 4096" "dir_entry [DOT] 1 e0" "dir_entry [DOT, DOT] 1 e1"
    "entries rt = (entries stack)[0 := e0, 1 := e1]" using new_root_ok [OF st] by blast
  obtain d1 where d1: "write_sectors d 0 0 8 ?sb = (0, d1)" "disk_ok d1" "disk_block d1 0 8 = ?sb"
    using write_sectors_ok [OF d, of 0 8 ?sb 0] sbl by auto
  obtain d2 where d2: "write_sectors d1 8 0 8 rt = (0, d2)" "disk_ok d2" "disk_block d2 8 8 = rt"
    "\<And>k. k < 8 \<or> 16 \<le> k \<Longrightarrow> sector d2 k = sector d1 k"
    using write_sectors_ok [OF d1(2), of 0 8 rt 8] rt(2) by auto
  have "disk_block d2 0 8 = disk_block d1 0 8" by (rule disk_block_cong) (simp add: d2(4))
  then have "fs_block_of d2 0 = ?sb" "fs_block_of d2 1 = rt" using d1(3) d2(3) by (simp_all add: fs_block_of_def)
  moreover have "GOSFS_Format stack d = Some (0, d2)" using bm(1) d1(1) rt(1) d2(1) by (simp add: GOSFS_Format_def)
  ultimately show ?thesis using d2(2) bm rt by (intro exI [of _ d2] exI [of _ bm] exI [of _ e0] exI [of _ e1]) simp
qed

text \<open>A new file system, mounted: its blocks 0 and 1 are in use and its root directory has the two
  entries of every directory, the rest is the memory of the formatter's stack.\<close>

lemma Format_Mount_ok:
  assumes d: "disk_ok d" "0 \<le> numSectors d" "numSectors d \<le> 8 * 32672" and st: "length stack = 4096" and E: "sane_env E"
  shows "\<exists>d' s e0 e1. GOSFS_Format stack d = Some (0, d') \<and> GOSFS_Mount E d' = Some (0, Some s) \<and> fs_inv s {} \<and>
    used_blocks s = {0, 1} \<and> root_block s = 1 \<and> fs_blocks s = nat (numSectors d div 8) \<and>
    dir_entry [DOT] 1 e0 \<and> dir_entry [DOT, DOT] 1 e1 \<and> dirs s 1 = (entries stack)[0 := e0, 1 := e1] \<and>
    le_word (take 4 (block s 0)) = GOSFS_MAGIC"
proof -
  obtain d' bm e0 e1 where f: "GOSFS_Format stack d = Some (0, d')" "disk_ok d'"
    "fs_block_of d' 0 = le_bytes GOSFS_MAGIC @ le_bytes GOSFS_ROOT_DIR_BLOCK @ le_bytes (word_of_int (numSectors d div 8)) @ bm"
    "bits_of bm = {0, 1}" "dir_entry [DOT] 1 e0" "dir_entry [DOT, DOT] 1 e1"
    "entries (fs_block_of d' 1) = (entries stack)[0 := e0, 1 := e1]" using Format_ok [OF d(1) st] by blast
  let ?n = "word_of_int (numSectors d div 8) :: u32"
  have n: "unat ?n = nat (numSectors d div 8)" "nat (numSectors d div 8) \<le> 8 * 4084"
    using d(2,3) by (simp_all add: unat_eq_nat_uint uint_word_of_int_eq take_bit_int_eq_self)
  have "mountable d'" using f(2) n by (simp add: mountable_def f(3))
  from Mount_ok [OF this E] obtain s where s: "GOSFS_Mount E d' = Some (0, Some s)" "fs_inv s {}" "block s = fs_block_of d'" by blast
  show ?thesis using f s n by (intro exI [of _ d'] exI [of _ s] exI [of _ e0] exI [of _ e1])
      (simp add: used_blocks_def root_block_def fs_blocks_def dirs_def)
qed

text \<open>The device of a file system whose blocks are all on disk can be mounted again, and has the
  same directories.\<close>

lemma remount_ok:
  assumes inv: "fs_inv s {}" and syn: "on_disk_too s" and m: "le_word (take 4 (block s 0)) = GOSFS_MAGIC" "fs_blocks s \<le> 8 * 4084"
    and E: "sane_env E"
  shows "\<exists>s'. GOSFS_Mount E (dev (gcache s)) = Some (0, Some s') \<and> fs_inv s' {} \<and> (\<forall>n. small n \<longrightarrow> block s' n = block s n)"
proof -
  have b: "fs_block_of (dev (gcache s)) n = block s n" if "small n" for n
    using syn that spb8 [OF inv] by (simp add: on_disk_too_def on_disk_def fs_block_of_def)
  have "mountable (dev (gcache s))"
    using cache_okD(2) [OF fs_invD(1) [OF inv]] m b [of 0] by (simp add: mountable_def fs_blocks_def)
  from Mount_ok [OF this E] b show ?thesis by auto
qed

end
