(* ===== verification/GosfsProps.thy ===== *)
theory GosfsProps
  imports GosfsMount
begin

text \<open>
  What the GeekOS file system does for its users: making a directory, looking it up, removing it
  again, mounting the device once more; and what it does where the code goes wrong.
\<close>

section \<open>After a directory has been made\<close>

definition outcome_of :: "GOSFS_Instance \<Rightarrow> cstr list \<Rightarrow> outcome" where
  "outcome_of s cs = resolve (used_blocks s) (dirs s) (root_block s) cs"

definition good_path :: "cstr list \<Rightarrow> bool" where
  "good_path cs \<longleftrightarrow> (\<forall>c\<in>set cs. good_name c \<and> 0 \<notin> set c) \<and> length (join cs) < 1023"

text \<open>The place where a directory can be made: the parent block, a free entry, and a free block.\<close>

definition vacant :: "GOSFS_Instance \<Rightarrow> cstr list \<Rightarrow> u32 \<Rightarrow> nat \<Rightarrow> nat \<Rightarrow> bool" where
  "vacant s cs p i k \<longleftrightarrow> outcome_of s cs = Missing p (int i) True \<and> i \<noteq> PREV_DIR \<and> next_block s k \<and> k \<noteq> 0"

lemma good_pathD:
  assumes "good_path cs"
  shows "\<forall>c\<in>set cs. good_name c" "length (join cs) < 1023" "cs \<noteq> [] \<Longrightarrow> 0 \<notin> set (last cs)" "cs \<noteq> [] \<Longrightarrow> length (last cs) \<le> 127"
proof -
  show "length (last cs) \<le> 127" if "cs \<noteq> []"
    using assms last_in_set [OF that] by (force simp: good_path_def good_name_def)
qed (use assms last_in_set [of cs] in \<open>auto simp: good_path_def\<close>)

lemma sane_envD: "sane_env E \<Longrightarrow> good_env E \<and> str_at_0 E \<noteq> [SLASH] \<and> malloc_ok E"
  by (simp add: sane_env_def)

lemma vacantD:
  assumes "vacant s cs p i k"
  shows "cs \<noteq> []" "p \<noteq> 0" "small p" "unat p \<in> used_blocks s" "i < 18" "is_free (dirs s p ! i)" "i \<noteq> PREV_DIR"
    "next_block s k" "k \<noteq> 0" "find_entry (dirs s p) (last cs) True = None" "names_ok (dirs s p)"
    "k \<notin> used_blocks s" "small (of_nat k)" "of_nat k \<noteq> (0 :: u32)" "of_nat k \<noteq> p" "unat (of_nat k :: u32) = k"
proof -
  have r: "resolve (used_blocks s) (dirs s) (root_block s) cs = Missing p (int i) True" "i \<noteq> PREV_DIR" and k: "next_block s k" "k \<noteq> 0"
    using assms by (simp_all add: vacant_def outcome_of_def)
  note D = resolve_MissingD [OF r(1)]
  show "cs \<noteq> []" "p \<noteq> 0" "small p" "find_entry (dirs s p) (last cs) True = None" "names_ok (dirs s p)" "i \<noteq> PREV_DIR" "next_block s k" "k \<noteq> 0"
    using D r(2) k by (simp_all add: dir_ok_def)
  show p: "unat p \<in> used_blocks s" using D by (simp add: dir_ok_def)
  have "int i = free_index (dirs s p)" using D by simp
  with free_index_cases [of "dirs s p"] show "i < 18" "is_free (dirs s p ! i)" by (auto simp: dirs_def)
  show u: "unat (of_nat k :: u32) = k" "k \<notin> used_blocks s"
    using k by (auto simp: next_block_def unsigned_of_nat take_bit_nat_eq_self)
  show "small (of_nat k)" using k u by (simp add: next_block_def)
  show "of_nat k \<noteq> (0 :: u32)" using k(2) u by auto
  show "of_nat k \<noteq> p" using u p by auto
qed

lemma Create_Directory_made:
  assumes "fs_inv s {}" "sane_env E" "good_path cs" "vacant s cs p i k"
  shows "\<exists>s'. GOSFS_Create_Directory E (join cs) s = Some (0, s') \<and> made_dir s p i (last cs) k s'"
proof -
  note V = vacantD [OF assms(4)] and G = good_pathD [OF assms(3)] and E = sane_envD [OF assms(2)]
  have "resolve (used_blocks s) (dirs s) (root_block s) cs = Missing p (int i) True"
    using assms(4) by (simp add: vacant_def outcome_of_def)
  from Create_Directory_ok [OF assms(1) _ _ G(1,2) G(3) [OF V(1)] this V(5,8,9)] E show ?thesis by blast
qed

lemma made_dirs:
  assumes "made_dir s p i x k s'" "vacant s cs p i k"
  shows "\<exists>e. dir_entry x (of_nat k) e \<and>
    (\<forall>n. unat n \<in> used_blocks s \<longrightarrow> n \<noteq> 0 \<longrightarrow> small n \<longrightarrow> dirs s' n = (if n = p then (dirs s p)[i := e] else dirs s n)) \<and>
    used_blocks s \<subseteq> used_blocks s' \<and> root_block s' = root_block s"
proof -
  note V = vacantD [OF assms(2)]
  obtain e where e: "dir_entry x (of_nat k) e" "dirs s' p = (dirs s p)[i := e]" using assms(1) by (auto simp: made_dir_def)
  have "dirs s' n = (if n = p then (dirs s p)[i := e] else dirs s n)" if "unat n \<in> used_blocks s" "n \<noteq> 0" "small n" for n
  proof (cases "n = p")
    case False
    have "n \<noteq> of_nat k" using that(1) V(12,16) by auto
    then show ?thesis using assms(1) that False by (simp add: made_dir_def)
  qed (simp add: e)
  with e assms(1) show ?thesis by (auto simp: made_dir_def)
qed

lemma made_keeps_paths:
  assumes m: "made_dir s p i (last cs) k s'" and v: "vacant s cs p i k" and f: "outcome_of s cs' = Found b j"
  shows "outcome_of s' cs' = Found b j"
proof -
  note V = vacantD [OF v]
  obtain e where e: "dir_entry (last cs) (of_nat k) e" "\<And>n. unat n \<in> used_blocks s \<Longrightarrow> n \<noteq> 0 \<Longrightarrow> small n \<Longrightarrow> dirs s' n = (if n = p then (dirs s p)[i := e] else dirs s n)"
    "used_blocks s \<subseteq> used_blocks s'" "root_block s' = root_block s" using made_dirs [OF m v] by blast
  have i: "i < length (dirs s p)" using V(5) by (simp add: dirs_def)
  have nm: "name_of e = Some (last cs)" using e(1) by (simp add: dir_entry_def)
  show ?thesis
    using resolve_grow [OF f [unfolded outcome_of_def] i V(6) nm V(10) e(2,3)] e(4) by (simp add: outcome_of_def)
qed

lemma made_finds:
  assumes m: "made_dir s p i (last cs) k s'" and v: "vacant s cs p i k"
  shows "outcome_of s' cs = Found p i"
proof -
  note V = vacantD [OF v]
  obtain e where e: "dir_entry (last cs) (of_nat k) e" "\<And>n. unat n \<in> used_blocks s \<Longrightarrow> n \<noteq> 0 \<Longrightarrow> small n \<Longrightarrow> dirs s' n = (if n = p then (dirs s p)[i := e] else dirs s n)"
    "used_blocks s \<subseteq> used_blocks s'" "root_block s' = root_block s" using made_dirs [OF m v] by blast
  have i: "i < length (dirs s p)" using V(5) by (simp add: dirs_def)
  have mt: "matches e (last cs) True" using e(1) by (simp add: dir_entry_def matches_def)
  have r: "resolve (used_blocks s) (dirs s) (root_block s) cs = Missing p (int i) True" using v by (simp add: vacant_def outcome_of_def)
  show ?thesis using resolve_new [OF r i V(6,7) mt e(2,3)] e(4) by (simp add: outcome_of_def)
qed

lemma made_block0:
  assumes "made_dir s p i x k s'" "i < 18"
  shows "block0 (dirs s' p ! i) = of_nat k" "dflags (dirs s' p ! i) = GOSFS_DIRENTRY_ISDIRECTORY"
proof -
  have "i < length (dirs s p)" using assms(2) by (simp add: dirs_def)
  then show "block0 (dirs s' p ! i) = of_nat k" "dflags (dirs s' p ! i) = GOSFS_DIRENTRY_ISDIRECTORY"
    using assms(1) by (auto simp: made_dir_def dir_entry_def)
qed

lemma Lookup_Found:
  assumes "fs_inv s {}" "sane_env E" "good_path cs" "outcome_of s cs = Found p i"
  shows "\<exists>s'. GOSFS_Lookup E (join cs) s = Some (0, Some \<lparr>de_base = p, de_offset = int i\<rparr>, s') \<and> same_blocks s s'"
  using lookup_path_Found [of s E cs p i] assms sane_envD [OF assms(2)] good_pathD(1,2) [OF assms(3)]
  by (auto simp: GOSFS_Lookup_def outcome_of_def simp del: join_simps)

lemma Create_EEXIST:
  assumes "fs_inv s {}" "sane_env E" "good_path cs" "outcome_of s cs = Found p i"
  shows "\<exists>s'. GOSFS_Create_Directory E (join cs) s = Some (EEXIST, s') \<and> same_blocks s s'"
  using lookup_path_Found [of s E cs p i] assms sane_envD [OF assms(2)] good_pathD(1,2) [OF assms(3)]
  by (auto simp: GOSFS_Create_Directory_def outcome_of_def simp del: join_simps)


section \<open>Paths through and below a directory\<close>

lemma resolve_append:
  assumes "resolve U d b cs = Found p i" "dflags (d p ! i) = GOSFS_DIRENTRY_ISDIRECTORY" "ds \<noteq> []"
  shows "resolve U d b (cs @ ds) = resolve U d (block0 (d p ! i)) ds"
  using assms(1)
proof (induction cs arbitrary: b)
  case (Cons c cs)
  then obtain k where k: "find_entry (d b) c (cs = []) = Some k" "k \<noteq> PREV_DIR" and ok: "dir_ok U d b"
    by (auto split: if_splits option.splits)
  show ?case
  proof (cases "cs = []")
    case True
    then have pk: "p = b" "i = k" using Cons.prems k ok by simp_all
    have "find_entry (d b) c False = Some k"
      using k(1) True assms(2) pk by (auto simp: find_entry_def first_index_Some matches_def)
    then show ?thesis using True ok k(2) pk assms(3) by simp
  next
    case False
    then show ?thesis using Cons k ok by simp
  qed
qed simp

lemma new_dir_entries:
  assumes "new_dir k p es" "x \<noteq> []" "x \<noteq> [DOT]" "x \<noteq> [DOT, DOT]"
  shows "find_entry es x f = None" "free_index es = 2" "names_ok es" "empty_dir es"
proof -
  have l: "length es = 18" "dir_entry [DOT] k (es ! 0)" "dir_entry [DOT, DOT] p (es ! 1)"
    and z: "\<And>j. 2 \<le> j \<Longrightarrow> j < 18 \<Longrightarrow> es ! j = zero_entry" using assms(1) by (simp_all add: new_dir_def)
  have c: "j < 18 \<Longrightarrow> j = 0 \<or> j = 1 \<or> 2 \<le> j \<and> es ! j = zero_entry" for j using z [of j] by linarith
  have "\<not> matches (es ! j) x f" if "j < 18" for j
    using c [OF that] l(2,3) assms(2-4) by (auto simp: matches_def dir_entry_def)
  then show "find_entry es x f = None" by (simp add: find_entry_def first_index_None l(1))
  have nf: "\<not> is_free (es ! j)" if "j < 2" for j
  proof -
    have "j = 0 \<or> j = 1" using that by auto
    then show ?thesis using l(2,3) by (auto simp: is_free_def dir_entry_def)
  qed
  have "first_index is_free es = Some 2" using nf z [of 2] by (simp add: first_index_Some l(1))
  then show "free_index es = 2" by (simp add: free_index_def)
  show "names_ok es" unfolding names_ok_def
  proof
    fix e assume "e \<in> set es"
    then obtain j where "j < 18" "e = es ! j" using l(1) by (auto simp: in_set_conv_nth)
    then show "name_of e \<noteq> None" using c [of j] l(2,3) by (auto simp: dir_entry_def)
  qed
  show "empty_dir es" using z by (simp add: empty_dir_def)
qed

text \<open>Names that a directory does not have from the start.\<close>

definition new_name :: "cstr \<Rightarrow> bool" where
  "new_name x \<longleftrightarrow> good_name x \<and> x \<noteq> [DOT] \<and> x \<noteq> [DOT, DOT]"

lemma made_inside:
  assumes m: "made_dir s p i (last cs) k s'" and v: "vacant s cs p i k" and x: "new_name x"
  shows "outcome_of s' (cs @ [x]) = Missing (of_nat k) 2 True"
proof -
  note V = vacantD [OF v] and B = made_block0 [OF m V(5)]
  have nd: "new_dir (of_nat k) p (dirs s' (of_nat k))" "used_blocks s' = insert k (used_blocks s)" using m by (simp_all add: made_dir_def)
  have x': "x \<noteq> []" "x \<noteq> [DOT]" "x \<noteq> [DOT, DOT]" using x by (auto simp: new_name_def good_name_def)
  note N = new_dir_entries [OF nd(1) x']
  have "dir_ok (used_blocks s') (dirs s') (of_nat k)" using V(13,14,16) N(3) nd(2) by (simp add: dir_ok_def)
  then have "resolve (used_blocks s') (dirs s') (of_nat k) [x] = Missing (of_nat k) 2 True" using N(1,2) by simp
  moreover have "outcome_of s' (cs @ [x]) = resolve (used_blocks s') (dirs s') (of_nat k) [x]"
    unfolding outcome_of_def B(1) [symmetric]
    by (rule resolve_append [OF made_finds [OF m v, unfolded outcome_of_def] B(2)]) simp
  ultimately show ?thesis by simp
qed

text \<open>Only the directories in use below block 128 matter.\<close>

lemma resolve_same:
  assumes "resolve U d b cs = Found p i" "\<And>n. small n \<Longrightarrow> d' n = d n"
  shows "resolve U d' b cs = Found p i"
  using assms(1)
proof (induction cs arbitrary: b)
  case (Cons c cs)
  then have ok: "dir_ok U d b" by (auto split: if_splits)
  then have b: "d' b = d b" "dir_ok U d' b" using assms(2) by (auto simp: dir_ok_def)
  show ?case using Cons ok b by (auto split: option.splits if_splits)
qed simp

section \<open>Removing it again\<close>

lemma free_index_update:
  assumes "i < length es" "is_free (es ! i)" "is_free e"
  shows "free_index (es[i := e]) = free_index es"
proof -
  have eq: "is_free (es[i := e] ! j) = is_free (es ! j)" if "j < length es" for j
    using assms that by (cases "j = i") auto
  show ?thesis
    unfolding free_index_def first_index_def length_list_update
    by (rule arg_cong [where f = "case_option _ _"], rule find_cong [OF refl]) (simp add: eq)
qed

lemma resolve_swap:
  assumes "resolve U d b cs \<noteq> Unknown"
    and i: "i < length (d p)" "is_free (d p ! i)" "is_free e" "name_of e \<noteq> None"
    and d': "\<And>n. unat n \<in> U \<Longrightarrow> n \<noteq> 0 \<Longrightarrow> small n \<Longrightarrow> d' n = (if n = p then (d p)[i := e] else d n)"
  shows "resolve U d' b cs = resolve U d b cs"
  using assms(1)
proof (induction cs arbitrary: b)
  case (Cons c cs)
  have ok: "dir_ok U d b" using Cons.prems by (auto split: if_splits)
  have b: "d' b = (if b = p then (d p)[i := e] else d b)" using ok by (intro d') (auto simp: dir_ok_def)
  have "find_entry (d' b) c f = find_entry (d b) c f \<and> free_index (d' b) = free_index (d b) \<and> names_ok (d' b)" for f
  proof (cases "b = p")
    case True
    have "names_ok ((d p)[i := e])"
      using ok True i(4) set_update_subset_insert [of "d p" i e] by (auto simp: dir_ok_def names_ok_def)
    then show ?thesis using True b i free_no_match find_entry_update [of i "d p" c f e] free_index_update [of i "d p" e] by auto
  qed (use b ok in \<open>simp add: dir_ok_def\<close>)
  moreover from this have "dir_ok U d' b" using ok by (auto simp: dir_ok_def)
  moreover have "d' b ! k = d b ! k" if "find_entry (d b) c f = Some k" for k f
    using find_entry_Some [OF that] b i(2) free_no_match by (cases "b = p"; cases "k = i") auto
  ultimately show ?case using Cons ok by (auto split: option.splits)
qed simp

lemma Delete_made:
  assumes "sane_env E" "good_path cs" and m: "made_dir s p i (last cs) k s1" and v: "vacant s cs p i k"
  shows "\<exists>s2. GOSFS_Delete E (join cs) s1 = Some (0, s2) \<and> fs_inv s2 {} \<and> used_blocks s2 = used_blocks s \<and> on_disk_too s2 \<and>
    (\<forall>cs'. outcome_of s cs' \<noteq> Unknown \<longrightarrow> outcome_of s2 cs' = outcome_of s cs')"
proof -
  note V = vacantD [OF v] and B = made_block0 [OF m V(5)] and G = good_pathD [OF assms(2)] and E = sane_envD [OF assms(1)]
  have inv: "fs_inv s1 {}" and nd: "new_dir (of_nat k) p (dirs s1 (of_nat k))" "used_blocks s1 = insert k (used_blocks s)"
    using m by (simp_all add: made_dir_def)
  have r: "resolve (used_blocks s1) (dirs s1) (root_block s1) cs = Found p i" using made_finds [OF m v] by (simp add: outcome_of_def)
  have "empty_dir (dirs s1 (of_nat k))" using nd(1) by (simp add: new_dir_def empty_dir_def)
  then have "deletable (dirs s1) (dirs s1 p ! i)" using B by (simp add: deletable_def)
  then obtain s2 where s2: "GOSFS_Delete E (join cs) s1 = Some (0, s2)" "deleted s1 p i (of_nat k) s2"
    using Delete_ok [OF inv _ _ G(1,2) r, of E "of_nat k"] E B(1) V(13,14,15) by auto
  have u: "used_blocks s2 = used_blocks s" using s2(2) nd(2) V(12,16) by (simp add: deleted_def)
  have rb: "root_block s2 = root_block s" using s2(2) m by (simp add: deleted_def made_dir_def)
  obtain e where e: "\<forall>n. unat n \<in> used_blocks s \<longrightarrow> n \<noteq> 0 \<longrightarrow> small n \<longrightarrow> dirs s1 n = (if n = p then (dirs s p)[i := e] else dirs s n)"
    using made_dirs [OF m v] by blast
  have d: "dirs s2 n = (if n = p then (dirs s p)[i := zero_entry] else dirs s n)" if n: "unat n \<in> used_blocks s" "n \<noteq> 0" "small n" for n
  proof (cases "n = p")
    case True
    then show ?thesis using s2(2) e [rule_format, OF n] by (simp add: deleted_def)
  next
    case False
    have "n \<noteq> of_nat k" using n(1) V(12,16) by auto
    then have "dirs s2 n = dirs s1 n" using s2(2) n False by (simp add: deleted_def dirs_def)
    then show ?thesis using e [rule_format, OF n] False by simp
  qed
  have i: "i < length (dirs s p)" using V(5) by (simp add: dirs_def)
  have "outcome_of s2 cs' = outcome_of s cs'" if "outcome_of s cs' \<noteq> Unknown" for cs'
    using resolve_swap [OF that [unfolded outcome_of_def] i V(6) _ _ d] u rb by (simp add: outcome_of_def)
  with s2 u show ?thesis by (auto simp: deleted_def)
qed


section \<open>An example: a small device\<close>

definition sample_alloc :: "fscache \<Rightarrow> (u32 \<times> u8 list) option" where
  "sample_alloc c = (case List.find (\<lambda>a. a \<notin> set (bufferList c)) (List.map of_nat [0..<129]) of
     Some a \<Rightarrow> Some (a, replicate 4096 0) | None \<Rightarrow> None)"

definition sample_env :: gosfs_env where
  "sample_env = \<lparr>malloc_buf = sample_alloc, malloc_ok = True, junk_prefix = [],
     junk_info = \<lparr>pi_suffix = [], dirEntryPtr = \<lparr>de_base = 0, de_offset = 0\<rparr>\<rparr>, junk_pBuf = 0, junk_rc = 0, str_at_0 = []\<rparr>"

abbreviation (input) "sample_path \<equiv> [[0x61]] :: cstr list"

lemma sample_sane: "sane_env sample_env"
proof -
  have "\<exists>a page. sample_alloc c = Some (a, page) \<and> a \<notin> set (bufferList c) \<and> length page = 4096"
    if "length (bufferList c) < 128" for c
  proof -
    have "card (set (bufferList c)) < 129" using that card_length [of "bufferList c"] by linarith
    moreover have "card (set (List.map of_nat [0..<129]) :: u32 set) = 129"
    proof -
      have "inj_on (of_nat :: nat \<Rightarrow> u32) {0..<129}"
      proof (rule inj_onI)
        fix x y :: nat assume a: "x \<in> {0..<129}" "y \<in> {0..<129}" "(of_nat x :: u32) = of_nat y"
        then have "unat (of_nat x :: u32) = unat (of_nat y :: u32)" by simp
        with a(1,2) show "x = y" by (simp add: unsigned_of_nat take_bit_nat_eq_self)
      qed
      then show ?thesis by (simp add: card_image)
    qed
    ultimately have "\<not> set (List.map of_nat [0..<129]) \<subseteq> set (bufferList c)"
      using card_mono [of "set (bufferList c)" "set (List.map of_nat [0..<129])"] by auto
    then have "List.find (\<lambda>a. a \<notin> set (bufferList c)) (List.map of_nat [0..<129]) \<noteq> None"
      unfolding find_None_iff by blast
    then obtain a where a: "List.find (\<lambda>a. a \<notin> set (bufferList c)) (List.map of_nat [0..<129]) = Some a" by blast
    then have "a \<notin> set (bufferList c)" unfolding find_Some_iff by auto
    with a show ?thesis by (simp add: sample_alloc_def)
  qed
  then show ?thesis by (simp add: sane_env_def good_env_def sample_env_def)
qed

definition blank :: "u8 list" where
  "blank = replicate 4096 0"

lemma length_blank [simp]: "length blank = 4096"
  by (simp only: blank_def length_replicate)

lemma entries_zero: "entries blank = replicate 18 zero_entry"
  unfolding blank_def by (rule nth_equalityI) (simp_all only: length_entries length_replicate nth_entries entry_zero_block nth_replicate)

lemma new_dir_blank:
  assumes "dir_entry [DOT] k e0" "dir_entry [DOT, DOT] p e1"
  shows "new_dir k p ((replicate 18 zero_entry)[0 := e0, 1 := e1])"
proof -
  define zs where "zs = replicate 18 zero_entry"
  have z: "length zs = 18" "\<And>j. j < 18 \<Longrightarrow> zs ! j = zero_entry" by (simp_all only: zs_def length_replicate nth_replicate)
  have "zs[0 := e0, 1 := e1] ! j = zero_entry" if "2 \<le> j" "j < 18" for j using z that by simp
  then show ?thesis using assms z(1) unfolding zs_def [symmetric] new_dir_def by simp
qed

lemma sample_mounted:
  obtains d s where "GOSFS_Format blank sample_disk = Some (0, d)" "GOSFS_Mount sample_env d = Some (0, Some s)"
    "fs_inv s {}" "used_blocks s = {0, 1}" "root_block s = 1" "fs_blocks s = 8" "new_dir 1 1 (dirs s 1)"
    "le_word (take 4 (block s 0)) = GOSFS_MAGIC"
proof -
  have d: "disk_ok sample_disk" "numSectors sample_disk = 64" by (simp_all add: sample_disk_def disk_ok_def)
  have n: "0 \<le> numSectors sample_disk" "numSectors sample_disk \<le> 8 * 32672" by (simp_all add: d(2))
  obtain d' s e0 e1 where f: "GOSFS_Format blank sample_disk = Some (0, d')" "GOSFS_Mount sample_env d' = Some (0, Some s)" "fs_inv s {}"
    "used_blocks s = {0, 1}" "root_block s = 1" "fs_blocks s = nat (64 div 8)" "dir_entry [DOT] 1 e0" "dir_entry [DOT, DOT] 1 e1"
    "dirs s 1 = (entries blank)[0 := e0, 1 := e1]" "le_word (take 4 (block s 0)) = GOSFS_MAGIC"
    using Format_Mount_ok [OF d(1) n length_blank sample_sane] unfolding d(2) by (elim exE conjE) (rule that)
  have "new_dir 1 1 (dirs s 1)" unfolding f(9) entries_zero by (rule new_dir_blank [OF f(7,8)])
  with f that show thesis by simp
qed

lemma sample_vacant:
  assumes "used_blocks s = {0, 1}" "root_block s = 1" "fs_blocks s = 8" "new_dir 1 1 (dirs s 1)"
  shows "vacant s sample_path 1 2 2" "good_path sample_path"
proof -
  note N = new_dir_entries [OF assms(4), of "[0x61]"]
  have "dir_ok {0, 1} (dirs s) 1" using N(3) by (simp add: dir_ok_def)
  then have "outcome_of s sample_path = Missing 1 2 True" using N(1,2) assms(1,2) by (simp add: outcome_of_def)
  moreover have "{..<2 :: nat} = {0, 1}" by auto
  then have "next_block s 2" using assms(1,3) by (simp add: next_block_def)
  ultimately show "vacant s sample_path 1 2 2" by (simp add: vacant_def)
  show "good_path sample_path" by (simp add: good_path_def good_name_def)
qed

section \<open>Properties\<close>





text \<open>Deleting a directory that has an entry in use besides its first two is refused, and nothing
  changes.\<close>

theorem rmdir_refuses:
  assumes "fs_inv s {}" "sane_env E" "good_path cs" "outcome_of s cs = Found p i"
    "dflags (dirs s p ! i) = GOSFS_DIRENTRY_ISDIRECTORY" "block0 (dirs s p ! i) = k" "small k" "k \<noteq> 0" "k \<noteq> p"
    "2 \<le> j" "j < 18" "dflags (dirs s k ! j) \<noteq> 0"
  shows "\<exists>s'. GOSFS_Delete E (join cs) s = Some (EUNSPECIFIED, s') \<and> fs_inv s' {} \<and> block s' = block s"
proof -
  note G = good_pathD [OF assms(3)] and E = sane_envD [OF assms(2)]
  have "\<not> deletable (dirs s) (dirs s p ! i)" using assms(5,6,10-12) by (auto simp: deletable_def empty_dir_def)
  then have "\<exists>s'. GOSFS_Delete E (join cs) s = Some (EUNSPECIFIED, s') \<and> same_blocks s s'"
    using Delete_ok [OF assms(1) _ _ G(1,2) assms(4) [unfolded outcome_of_def] assms(6) [symmetric] assms(7-9), of E] E by simp
  then show ?thesis by (auto simp: same_blocks_def)
qed

lemma rmdir_refuses_witness:
  "\<exists>s1 s2 s3. GOSFS_Create_Directory sample_env (join (sample_path @ [[0x62]])) s1 = Some (0, s2) \<and>
    GOSFS_Delete sample_env (join sample_path) s2 = Some (EUNSPECIFIED, s3)"
proof -
  obtain d s where s: "fs_inv s {}" "used_blocks s = {0, 1}" "root_block s = 1" "fs_blocks s = 8" "new_dir 1 1 (dirs s 1)"
    by (rule sample_mounted)
  note v = sample_vacant [OF s(2-5)]
  obtain s1 where s1: "GOSFS_Create_Directory sample_env (join sample_path) s = Some (0, s1)" "made_dir s 1 2 [0x61] 2 s1"
    using Create_Directory_made [OF s(1) sample_sane v(2,1)] by auto
  have u1: "used_blocks s1 = {0, 1, 2}" "fs_blocks s1 = 8" "fs_inv s1 {}" using s1(2) s(2,4) by (auto simp: made_dir_def)
  have g: "good_path (sample_path @ [[0x62]])" by (simp add: good_path_def good_name_def)
  have m1: "made_dir s 1 2 (last sample_path) 2 s1" using s1(2) by simp
  have "new_name [0x62]" by (simp add: new_name_def good_name_def)
  from made_inside [OF m1 v(1) this] have "outcome_of s1 (sample_path @ [[0x62]]) = Missing 2 2 True" by simp
  moreover have "{..<3 :: nat} = {0, 1, 2}" by auto
  then have "next_block s1 3" using u1 by (simp add: next_block_def)
  ultimately have v1: "vacant s1 (sample_path @ [[0x62]]) 2 2 3" by (simp add: vacant_def)
  obtain s2 where s2: "GOSFS_Create_Directory sample_env (join (sample_path @ [[0x62]])) s1 = Some (0, s2)" "made_dir s1 2 2 [0x62] 3 s2"
    using Create_Directory_made [OF u1(3) sample_sane g v1] by auto
  have m2: "made_dir s1 2 2 (last (sample_path @ [[0x62]])) 3 s2" using s2(2) by simp
  have f: "outcome_of s2 sample_path = Found 1 2" by (rule made_keeps_paths [OF m2 v1 made_finds [OF m1 v(1)]])
  have d1: "dirs s2 1 = dirs s1 1" using s2(2) by (simp add: made_dir_def)
  have b: "block0 (dirs s2 1 ! 2) = 2" "dflags (dirs s2 1 ! 2) = GOSFS_DIRENTRY_ISDIRECTORY"
    using made_block0 [OF m1] d1 by simp_all
  have "dflags (dirs s2 2 ! 2) \<noteq> 0" using made_block0 [OF m2] by simp
  from rmdir_refuses [OF _ sample_sane v(2) f b(2,1) _ _ _ _ _ this] s2
  show ?thesis by (auto simp: made_dir_def simp del: join_simps)
qed




section \<open>Where the code goes wrong\<close>

text \<open>What one round of a lookup does with the buffer of its directory.\<close>

lemma visit_ok:
  assumes inv: "fs_inv s {}" and E: "good_env E" and b: "small b" "b \<noteq> 0"
  shows "\<exists>a s1 s2. get_buf E b s = Some (0, a, s1) \<and> buf_entry a s1 = get_entry (block s b) \<and>
    release_buf a s1 = Some s2 \<and> buf_entry a s2 = get_entry (block s b) \<and> same_blocks s s2"
proof -
  obtain a s1 where g: "get_buf E b s = Some (0, a, s1)" "fs_inv s1 {a}" "buf_data a s1 = block s b" "block s1 = block s"
    "same_fs s s1" using get_buf_ok [OF inv E b] by auto
  obtain s2 where r: "release_buf a s1 = Some s2" "fs_inv s2 {}" "block s2 = block s1" "same_fs s1 s2"
    "\<And>x. buf_data x s2 = buf_data x s1" using release_buf_ok [OF g(2), of a] by auto
  have "same_blocks s s2" using g r same_fs_trans by (auto simp: same_blocks_def)
  with g r show ?thesis by (auto simp: buf_entry_def fun_eq_iff)
qed

lemma find_file_ok: "find_file p qs k = Some n \<Longrightarrow> k \<le> n \<and> n < k + length qs \<and> qs ! (n - k) = p"
proof (induction p qs k rule: find_file.induct)
  case (2 p q qs i)
  show ?case
  proof (cases "de_base q = de_base p \<and> de_offset q = de_offset p")
    case True
    then have "q = p" by simp
    then show ?thesis using 2(2) by simp
  next
    case False
    then have "find_file p qs (Suc i) = Some n" using 2(2) unfolding find_file.simps by (simp only: if_False)
    with 2(1) [OF False] have "Suc i \<le> n \<and> n < Suc i + length qs \<and> qs ! (n - Suc i) = p" by blast
    then show ?thesis by (auto simp: nth_Cons' Suc_diff_le)
  qed
qed simp

lemma Get_GOSFS_File_ok:
  obtains n s' where "Get_GOSFS_File True p s = (Some n, s')" "gcache s' = gcache s" "fsinfo s' = fsinfo s" "fileList s' ! n = p"
proof (cases "find_file p (fileList s) 0")
  case None
  with that [of "length (fileList s)" "s\<lparr>fileList := fileList s @ [p]\<rparr>"] show thesis by (simp add: Get_GOSFS_File_def)
next
  case (Some n)
  with find_file_ok [OF Some] that [of n s] show thesis by (simp add: Get_GOSFS_File_def)
qed

text \<open>Opening a name that is not there, without asking for it to be created, opens the free entry the
  lookup came across: the code returns success and a file.\<close>

theorem open_missing_succeeds:
  assumes "fs_inv s {}" "sane_env E" "good_path cs" "outcome_of s cs = Missing p (int i) True" "mode AND O_CREATE = 0"
  shows "\<exists>f s'. GOSFS_Open E mp (join cs) mode s = Some (0, Some f, s') \<and> f_ops f = s_gosfsFileOps \<and> block s' = block s \<and>
    is_free (dirs s p ! i) \<and> fileList s' ! f_fsData f = \<lparr>de_base = p, de_offset = int i\<rparr>"
proof -
  note G = good_pathD [OF assms(3)] and E = sane_envD [OF assms(2)]
  have r: "resolve (used_blocks s) (dirs s) (root_block s) cs = Missing p (int i) True" using assms(4) by (simp add: outcome_of_def)
  have p: "small p" "p \<noteq> 0" using resolve_MissingD [OF r] by (auto simp: dir_ok_def)
  have i: "i < 18" "is_free (dirs s p ! i)"
    using resolve_MissingD [OF r] free_index_cases [of "dirs s p"] by (auto simp: dirs_def)
  let ?p = "\<lparr>de_base = p, de_offset = int i\<rparr>"
  obtain s1 where s1: "lookup_path E (join cs) s = Some (EUNSPECIFIED, \<lparr>pi_suffix = last cs, dirEntryPtr = ?p\<rparr>, s1)" "same_blocks s s1"
    using lookup_path_Missing [OF assms(1) _ _ G(1,2) r] E by blast
  note S1 = same_blocks_simps [OF s1(2)]
  obtain a s2 where g: "get_buf E p s1 = Some (0, a, s2)" "fs_inv s2 {a}" "buf_data a s2 = block s1 p" "block s2 = block s1"
    using get_buf_ok [OF S1(1) conjunct1 [OF E] p(1,2)] by auto
  have len: "length (block s p) = 4096" by (rule block_length [OF assms(1)])
  have e: "buf_entry a s2 (int i) = Some (dirs s p ! i)" using i(1) len g(3) S1(2) by (simp add: buf_entry_def dirs_def)
  obtain n s3 where fl: "Get_GOSFS_File True ?p s2 = (Some n, s3)" "gcache s3 = gcache s2" "fsinfo s3 = fsinfo s2" "fileList s3 ! n = ?p"
    by (rule Get_GOSFS_File_ok)
  have mk: "make_file E s_gosfsFileOps (dsize (dirs s p ! i)) O_READ mp ?p s2 = (0, Some \<lparr>f_ops = s_gosfsFileOps, filePos = 0,
      endPos = dsize (dirs s p ! i), f_fsData = n, f_mode = O_READ, f_mountPoint = mp\<rparr>, s3)"
    using E fl(1) by (simp add: make_file_def Allocate_File_def)
  have inv3: "fs_inv s3 {a}" "block s3 = block s2" using g(2) fl(2,3) by (simp_all add: fs_inv_def block_def fun_eq_iff)
  obtain s4 where s4: "release_buf a s3 = Some s4" "block s4 = block s3" "same_fs s3 s4"
    using release_buf_ok [OF inv3(1), of a] by auto
  have "GOSFS_Open E mp (join cs) mode s = Some (0, Some \<lparr>f_ops = s_gosfsFileOps, filePos = 0, endPos = dsize (dirs s p ! i),
      f_fsData = n, f_mode = O_READ, f_mountPoint = mp\<rparr>, s4)"
    using s1(1) g(1) e mk s4(1) assms(5) by (simp add: GOSFS_Open_def del: join_simps)
  then show ?thesis using s4 inv3(2) g(4) S1(2) fl(4) i(2) by (auto simp: same_fs_def)
qed

lemma open_missing_succeeds_witness:
  "\<exists>s s' f. outcome_of s sample_path = Missing 1 2 True \<and> GOSFS_Open sample_env 0 (join sample_path) O_READ s = Some (0, Some f, s')"
proof -
  obtain d s where s: "fs_inv s {}" "used_blocks s = {0, 1}" "root_block s = 1" "fs_blocks s = 8" "new_dir 1 1 (dirs s 1)"
    by (rule sample_mounted)
  note v = sample_vacant [OF s(2-5)]
  have m: "outcome_of s sample_path = Missing 1 (int 2) True" using v(1) by (simp add: vacant_def)
  have "(O_READ AND O_CREATE) = 0" by simp
  from open_missing_succeeds [OF s(1) sample_sane v(2) m this, of 0] m show ?thesis by (auto simp del: join_simps)
qed

definition spinning :: "cstr \<Rightarrow> u32 \<Rightarrow> gosfs_env \<Rightarrow> cstr \<Rightarrow> cstr \<Rightarrow> cstr \<Rightarrow> u32 \<Rightarrow> GOSFS_Instance \<Rightarrow> bool" where
  "spinning rest b E path prefix suffix base s \<longleftrightarrow>
    path = [SLASH, SLASH] @ rest \<and> prefix = [DOT] \<and> suffix = path \<and> base = b \<and> fs_inv s {} \<and> good_env E \<and>
    dir_ok (used_blocks s) (dirs s) b \<and> find_entry (dirs s b) [DOT] False = Some 0 \<and> block0 (dirs s b ! 0) = b"

lemma double_slash_loop:
  assumes "lookup_loop E path prefix suffix base info s = Some r"
  shows "\<not> spinning rest b E path prefix suffix base s"
proof (rule lookup_loop.raw_induct [where P = "\<lambda>E path prefix suffix base info s r. \<not> spinning rest b E path prefix suffix base s", OF _ assms])
  fix rec E path prefix suffix base info s r
  assume IH: "\<And>E path prefix suffix base info s r. rec E path prefix suffix base info s = Some r \<Longrightarrow> \<not> spinning rest b E path prefix suffix base s"
    and run: "(if suffix = [SLASH] then Some (0, info, s)
      else do {
        u \<leftarrow> Unpack_Path path;
        let (prefix, suffix) = (case u of None \<Rightarrow> (prefix, suffix) | Some ps \<Rightarrow> ps);
        KASSERT (base \<noteq> 0);
        (rc, a, s) \<leftarrow> get_buf E base s;
        if rc \<noteq> 0 then Some (EUNSPECIFIED, info, s)
        else do {
          (i, minFreeEntry) \<leftarrow> scan_dir (buf_entry a s) prefix (suffix = [SLASH]) 0 GOSFS_DIR_ENTRIES_PER_BLOCK (- 1);
          if i = GOSFS_DIR_ENTRIES_PER_BLOCK then do {
            n \<leftarrow> copy_str GOSFS_FILENAME_MAX prefix;
            s \<leftarrow> release_buf a s;
            Some (if suffix = [SLASH] then EUNSPECIFIED else ENOTFOUND,
              \<lparr>pi_suffix = n, dirEntryPtr = \<lparr>de_base = base, de_offset = minFreeEntry\<rparr>\<rparr>, s) }
          else if i = PREV_DIR then do {
            e \<leftarrow> buf_entry a s (int i);
            s \<leftarrow> release_buf a s;
            (base, info, s) \<leftarrow> lookup_parent E (block0 e) s;
            rec E suffix prefix suffix base info s }
          else do {
            n \<leftarrow> copy_str GOSFS_FILENAME_MAX prefix;
            s \<leftarrow> release_buf a s;
            e \<leftarrow> buf_entry a s (int i);
            rec E suffix prefix suffix (block0 e)
              \<lparr>pi_suffix = n, dirEntryPtr = \<lparr>de_base = base, de_offset = int i\<rparr>\<rparr> s } } }) = Some r"
  show "\<not> spinning rest b E path prefix suffix base s"
  proof
    assume "spinning rest b E path prefix suffix base s"
    then have a: "path = [SLASH, SLASH] @ rest" "prefix = [DOT]" "suffix = path" "base = b" "fs_inv s {}" "good_env E"
      "dir_ok (used_blocks s) (dirs s) b" "find_entry (dirs s b) [DOT] False = Some 0" "block0 (dirs s b ! 0) = b"
      by (simp_all add: spinning_def)
    then have b: "small b" "b \<noteq> 0" "names_ok (dirs s b)" by (auto simp: dir_ok_def)
    obtain x s1 s2 where v: "get_buf E b s = Some (0, x, s1)" "buf_entry x s1 = get_entry (block s b)"
      "release_buf x s1 = Some s2" "buf_entry x s2 = get_entry (block s b)" "same_blocks s s2"
      using visit_ok [OF a(5,6) b(1,2)] by blast
    note S = same_blocks_simps [OF v(5)]
    have len: "length (block s b) = 4096" by (rule block_length [OF a(5)])
    have nm: "names_ok (entries (block s b))" using b(3) by (simp add: dirs_def)
    obtain m' where sc: "scan_dir (get_entry (block s b)) [DOT] False 0 18 (- 1) = Some (0, m')"
      using scan_dir_block [OF len nm, of "[DOT]" False] a by (auto simp: dirs_def)
    have u: "Unpack_Path path = Some None" "suffix \<noteq> [SLASH]" using a by (auto simp: Unpack_Path_def)
    have e0: "get_entry (block s b) 0 = Some (dirs s b ! 0)" using get_entry_in [OF len, of 0] by (simp add: dirs_def)
    have "rec E path [DOT] path b \<lparr>pi_suffix = [DOT], dirEntryPtr = \<lparr>de_base = b, de_offset = 0\<rparr>\<rparr> s2 = Some r"
      using run a b(2) v u sc e0 by simp
    from IH [OF this] a S show False by (simp add: spinning_def)
  qed
qed

text \<open>C40: Looking up a path that begins with \<open>/.//\<close> never returns: two slashes are no valid rest of a path,
  so the loop keeps the component it has just found, and finds it again in the same directory.\<close>

theorem double_slash_hangs:
  assumes "fs_inv s {}" "sane_env E" "dir_ok (used_blocks s) (dirs s) (root_block s)"
    "find_entry (dirs s (root_block s)) [DOT] False = Some 0" "block0 (dirs s (root_block s) ! 0) = root_block s"
  shows "lookup_path E ([SLASH, DOT, SLASH, SLASH] @ rest) s = None"
proof (cases "length rest < 1019")
  case True
  let ?b = "root_block s" and ?path = "[SLASH, DOT, SLASH, SLASH] @ rest" and ?rest = "[SLASH, SLASH] @ rest"
  note E = sane_envD [OF assms(2)]
  have b: "small ?b" "?b \<noteq> 0" "names_ok (dirs s ?b)" using assms(3) by (auto simp: dir_ok_def)
  obtain x s1 s2 where v: "get_buf E ?b s = Some (0, x, s1)" "buf_entry x s1 = get_entry (block s ?b)"
    "release_buf x s1 = Some s2" "buf_entry x s2 = get_entry (block s ?b)" "same_blocks s s2"
    using visit_ok [of s E ?b] assms(1) E b by blast
  note S = same_blocks_simps [OF v(5)]
  have len: "length (block s ?b) = 4096" using assms(1) block_length by blast
  have nm: "names_ok (entries (block s ?b))" using b(3) by (simp add: dirs_def)
  obtain m' where sc: "scan_dir (get_entry (block s ?b)) [DOT] False 0 18 (- 1) = Some (0, m')"
    using scan_dir_block [OF len nm, of "[DOT]" False] assms(4) by (auto simp: dirs_def)
  have u: "Unpack_Path ?path = Some (Some ([DOT], ?rest))" by (simp add: Unpack_Path_def)
  have e0: "get_entry (block s ?b) 0 = Some (dirs s ?b ! 0)" using get_entry_in [OF len, of 0] by (simp add: dirs_def)
  have "lookup_loop E ?path pre (str_at_0 E) ?b info s =
      lookup_loop E ?rest [DOT] ?rest ?b \<lparr>pi_suffix = [DOT], dirEntryPtr = \<lparr>de_base = ?b, de_offset = 0\<rparr>\<rparr> s2" for pre info
    unfolding lookup_loop.simps [of E ?path] using E u b(2) v sc e0 assms(5) by simp
  moreover have "lookup_loop E ?rest [DOT] ?rest ?b info s2 = None" for info
    using double_slash_loop [of E ?rest "[DOT]" ?rest ?b info s2 _ rest ?b] S assms E
    by (cases "lookup_loop E ?rest [DOT] ?rest ?b info s2") (auto simp: spinning_def)
  ultimately show ?thesis using True sb_root_ok [OF assms(1)] by (simp add: lookup_path_def Do_GOSFS_Lookup_def)
qed (simp add: lookup_path_def copy_str_def)

lemma double_slash_hangs_witness:
  "\<exists>s. fs_inv s {} \<and> lookup_path sample_env ([SLASH, DOT, SLASH, SLASH] @ [0x61]) s = None"
proof -
  obtain d s where s: "fs_inv s {}" "used_blocks s = {0, 1}" "root_block s = 1" "new_dir 1 1 (dirs s 1)" by (rule sample_mounted)
  have d: "dir_ok (used_blocks s) (dirs s) (root_block s)"
    using new_dir_entries(3) [OF s(4), of "[0x61]"] s(2,3) by (simp add: dir_ok_def)
  have e: "dir_entry [DOT] 1 (dirs s 1 ! 0)" "length (dirs s 1) = 18" using s(4) by (simp_all add: new_dir_def)
  then have f: "find_entry (dirs s (root_block s)) [DOT] False = Some 0"
    by (simp add: s(3) find_entry_def first_index_Some matches_def dir_entry_def)
  have "block0 (dirs s (root_block s) ! 0) = root_block s" using e(1) by (simp add: s(3) dir_entry_def)
  from double_slash_hangs [OF s(1) sample_sane d f this] s(1) show ?thesis by blast
qed

end
