(* ===== verification/VfsGosfs.thy ===== *)
theory VfsGosfs
  imports FsOps GosfsProps
begin

text \<open>
  The GeekOS file system behind the virtual file system: what the operations of \<open>geekos/vfs.c\<close> do on
  a path below one of its mount points.
\<close>

section \<open>Dispatch\<close>

text \<open>Where \<open>d\<close> is the mount point of instance \<open>n\<close>, which is \<open>g\<close>.\<close>

definition mounted_at :: "gosfs_env \<Rightarrow> fs_world vfs \<Rightarrow> cstr \<Rightarrow> nat \<Rightarrow> GOSFS_Instance \<Rightarrow> bool" where
  "mounted_at E s d n g \<longleftrightarrow> good_name d \<and>
     (\<exists>i mp. Lookup_Mount_Point d s = Some (i, mp) \<and> mp_ops mp = s_gosfsMountPointOps E \<and> mp_fsData mp = n) \<and>
     n < length (g_insts (world s)) \<and> g_insts (world s) ! n = g"

definition with_inst :: "nat \<Rightarrow> GOSFS_Instance \<Rightarrow> fs_world vfs \<Rightarrow> fs_world vfs" where
  "with_inst n g s = s\<lparr>world := (world s)\<lparr>g_insts := (g_insts (world s))[n := g]\<rparr>\<rparr>"

lemma mounted_at_with: "mounted_at E s d n g \<Longrightarrow> mounted_at E (with_inst n g' s) d n g'"
  by (simp add: mounted_at_def with_inst_def)

lemma mounted_other:
  "mounted_at E s d' m h \<Longrightarrow> m \<noteq> n \<Longrightarrow> mounted_at E (with_inst n g' s) d' m h"
  by (simp add: mounted_at_def with_inst_def)

lemma onw_inst:
  assumes "mounted_at E s d n g"
  shows "onw (on_inst n f) s = map_option (\<lambda>(rc, g'). (rc, with_inst n g' s)) (f g)"
    "onw3 (on_inst3 n f3) s = map_option (\<lambda>(rc, x, g'). (rc, x, with_inst n g' s)) (f3 g)"
proof -
  have n: "aget (g_insts (world s)) n = Some g" using assms by (simp add: mounted_at_def)
  show "onw (on_inst n f) s = map_option (\<lambda>(rc, g'). (rc, with_inst n g' s)) (f g)"
    by (cases "f g") (auto simp: onw_def on_inst_def n with_inst_def)
  show "onw3 (on_inst3 n f3) s = map_option (\<lambda>(rc, x, g'). (rc, x, with_inst n g' s)) (f3 g)"
    by (cases "f3 g") (auto simp: onw3_def on_inst3_def n with_inst_def)
qed

text \<open>The operations on a path below a mount point are those of the instance on the rest of the path.\<close>

lemma resolve_mount_at:
  assumes "mounted_at E s d n g"
  shows "\<exists>i mp. resolve_mount V cwd (join (d # cs)) s = Some (Some (d, join_or_root cs, i, mp), s) \<and>
    mp_ops mp = s_gosfsMountPointOps E \<and> mp_fsData mp = n \<and> Lookup_Mount_Point d s = Some (i, mp)"
  using assms resolve_mount_join [of d V cwd cs s] by (auto simp: mounted_at_def simp del: join_simps)

lemma mount_pointE:
  assumes "mounted_at E s d n g"
  obtains i mp where "resolve_mount V cwd (join (d # cs)) s = Some (Some (d, join_or_root cs, i, mp), s)"
    "mp_ops mp = s_gosfsMountPointOps E" "mp_fsData mp = n"
  using resolve_mount_at [OF assms] by blast

lemma Create_Directory_at:
  assumes "mounted_at E s d n g"
  shows "Create_Directory V cwd (join (d # cs)) s =
    map_option (\<lambda>(rc, g'). (rc, with_inst n g' s)) (GOSFS_Create_Directory E (join_or_root cs) g)"
  by (rule mount_pointE [OF assms, of V cwd cs])
    (simp add: Create_Directory_def s_gosfsMountPointOps_def onw_inst [OF assms] del: join_simps)

lemma Delete_at:
  assumes "mounted_at E s d n g"
  shows "Delete V cwd (join (d # cs)) s =
    map_option (\<lambda>(rc, g'). (rc, with_inst n g' s)) (GOSFS_Delete E (join_or_root cs) g)"
  by (rule mount_pointE [OF assms, of V cwd cs])
    (simp add: Delete_def s_gosfsMountPointOps_def onw_inst [OF assms] del: join_simps)

lemma Stat_at:
  assumes "mounted_at E s d n g"
  shows "Stat V cwd (join (d # cs)) st s =
    map_option (\<lambda>(rc, st, g'). (rc, st, with_inst n g' s)) (GOSFS_Stat E (join_or_root cs) st g)"
  by (rule mount_pointE [OF assms, of V cwd cs])
    (simp add: Stat_def s_gosfsMountPointOps_def onw_inst [OF assms] del: join_simps)

lemma with_strings:
  assumes "mounted_at E s d n g"
  shows "mounted_at E (s\<lparr>strings := x\<rparr>) d n g" "with_inst n g' (s\<lparr>strings := x\<rparr>) = (with_inst n g' s)\<lparr>strings := x\<rparr>"
  using assms by (simp_all add: mounted_at_def with_inst_def)

lemma Lookup_at:
  assumes m: "mounted_at E s d n g" and d: "length d < v_prefixCap V"
  shows "Lookup V cwd (join (d # cs)) p s =
    map_option (\<lambda>(rc, r, g').
      let s' = (with_inst n g' s)\<lparr>strings := (strings s)(pathPrefix p := d)\<rparr> in
      case r of None \<Rightarrow> (rc, p, s')
      | Some x \<Rightarrow> (rc, p\<lparr>dentry_ptr := v_newDentry V\<rparr>, s'\<lparr>dentries := (dentries s)(v_newDentry V := Some (GosfsDentry x))\<rparr>))
    (GOSFS_Lookup E (join_or_root cs) g)"
proof -
  obtain i mp where r: "resolve_mount V cwd (join (d # cs)) s = Some (Some (d, join_or_root cs, i, mp), s)"
    "mp_ops mp = s_gosfsMountPointOps E" "mp_fsData mp = n" using resolve_mount_at [OF m, of V cwd cs] by blast
  show ?thesis
    using d by (cases "GOSFS_Lookup E (join_or_root cs) g")
      (auto simp: Lookup_def r s_gosfsMountPointOps_def onw_inst(2) [OF with_strings(1) [OF m]] with_strings(2) [OF m] Let_def
        with_inst_def gosfs_lookup_op_def split: option.split simp del: join_simps)
qed


section \<open>The contract of a directory tree\<close>

text \<open>What a user of directories relies on, whichever layer he talks to: \<open>ok\<close> is the invariant of the
  layer, \<open>found\<close> the paths that exist, \<open>creatable\<close> those that can be made.\<close>

locale directory_tree =
  fixes ok :: "'s \<Rightarrow> bool"
    and found :: "'s \<Rightarrow> cstr list \<Rightarrow> bool"
    and creatable :: "'s \<Rightarrow> cstr list \<Rightarrow> bool"
    and mkdir :: "cstr list \<Rightarrow> 's \<Rightarrow> (int \<times> 's) option"
    and rmdir :: "cstr list \<Rightarrow> 's \<Rightarrow> (int \<times> 's) option"
  assumes mkdir_new: "ok s \<Longrightarrow> creatable s cs \<Longrightarrow>
      \<exists>s'. mkdir cs s = Some (0, s') \<and> ok s' \<and> found s' cs \<and> (\<forall>ds. found s ds \<longrightarrow> found s' ds) \<and>
        (\<exists>s''. rmdir cs s' = Some (0, s'') \<and> ok s'' \<and> \<not> found s'' cs \<and> (\<forall>ds. found s ds \<longrightarrow> found s'' ds))"
    and mkdir_old: "ok s \<Longrightarrow> found s cs \<Longrightarrow> \<exists>s'. mkdir cs s = Some (EEXIST, s') \<and> ok s' \<and> (\<forall>ds. found s' ds = found s ds)"
    and creatable_new: "creatable s cs \<Longrightarrow> \<not> found s cs"
begin

lemma mkdir_twice:
  assumes "ok s" "creatable s cs"
  shows "\<exists>s1 s2. mkdir cs s = Some (0, s1) \<and> mkdir cs s1 = Some (EEXIST, s2) \<and> ok s2 \<and> found s2 cs"
proof -
  obtain s1 where "mkdir cs s = Some (0, s1)" "ok s1" "found s1 cs" using mkdir_new [OF assms] by blast
  moreover from this obtain s2 where "mkdir cs s1 = Some (EEXIST, s2)" "ok s2" "\<forall>ds. found s2 ds = found s1 ds"
    using mkdir_old by blast
  ultimately show ?thesis by blast
qed

text \<open>Making a path whether it exists or not.\<close>

lemma mkdir_either:
  assumes "ok s" "creatable s cs \<or> found s cs"
  shows "\<exists>rc s'. mkdir cs s = Some (rc, s') \<and> (rc = 0 \<or> rc = EEXIST) \<and> ok s' \<and> found s' cs \<and> (\<forall>ds. found s ds \<longrightarrow> found s' ds)"
  using assms(2)
proof
  assume "creatable s cs"
  then show ?thesis using mkdir_new [OF assms(1)] by blast
next
  assume "found s cs"
  then show ?thesis using mkdir_old [OF assms(1)] by blast
qed

lemma mkdir_two:
  assumes "ok s" "creatable s cs" "\<And>s'. mkdir cs s = Some (0, s') \<Longrightarrow> creatable s' (cs @ ds)"
  shows "\<exists>s1 s2. mkdir cs s = Some (0, s1) \<and> mkdir (cs @ ds) s1 = Some (0, s2) \<and> ok s2 \<and> found s2 cs \<and> found s2 (cs @ ds)"
proof -
  obtain s1 where s1: "mkdir cs s = Some (0, s1)" "ok s1" "found s1 cs" using mkdir_new [OF assms(1,2)] by blast
  from mkdir_new [OF s1(2) assms(3) [OF s1(1)]] s1 show ?thesis by blast
qed

end

text \<open>The file system itself, and the file system behind its mount point.\<close>

definition gosfs_ok :: "gosfs_env \<Rightarrow> GOSFS_Instance \<Rightarrow> bool" where
  "gosfs_ok E g \<longleftrightarrow> fs_inv g {} \<and> sane_env E"

definition gosfs_found :: "GOSFS_Instance \<Rightarrow> cstr list \<Rightarrow> bool" where
  "gosfs_found g cs \<longleftrightarrow> good_path cs \<and> (\<exists>b j. outcome_of g cs = Found b j)"

definition gosfs_creatable :: "GOSFS_Instance \<Rightarrow> cstr list \<Rightarrow> bool" where
  "gosfs_creatable g cs \<longleftrightarrow> good_path cs \<and> (\<exists>p i k. vacant g cs p i k)"

lemma outcome_cong: "block s' = block s \<Longrightarrow> outcome_of s' = outcome_of s"
proof -
  assume b: "block s' = block s"
  have "dirs s' = dirs s" by (rule ext) (simp add: b dirs_def)
  then show ?thesis by (intro ext) (simp add: b outcome_of_def used_blocks_def root_block_def)
qed

interpretation gosfs: directory_tree "gosfs_ok E" gosfs_found gosfs_creatable
  "\<lambda>cs. GOSFS_Create_Directory E (join cs)" "\<lambda>cs. GOSFS_Delete E (join cs)"
proof
  fix g cs
  assume "gosfs_ok E g" "gosfs_creatable g cs"
  then obtain p i k where a: "fs_inv g {}" "sane_env E" "good_path cs" "vacant g cs p i k"
    by (auto simp: gosfs_ok_def gosfs_creatable_def)
  obtain s1 where s1: "GOSFS_Create_Directory E (join cs) g = Some (0, s1)" "made_dir g p i (last cs) k s1"
    using Create_Directory_made [OF a] by blast
  obtain s2 where s2: "GOSFS_Delete E (join cs) s1 = Some (0, s2)" "fs_inv s2 {}"
    "\<And>cs'. outcome_of g cs' \<noteq> Unknown \<Longrightarrow> outcome_of s2 cs' = outcome_of g cs'"
    using Delete_made [OF a(2,3) s1(2) a(4)] by blast
  have ok1: "gosfs_ok E s1" "gosfs_ok E s2" using s1(2) s2(2) a(2) by (simp_all add: gosfs_ok_def made_dir_def)
  have f1: "gosfs_found s1 cs" using made_finds [OF s1(2) a(4)] a(3) by (simp add: gosfs_found_def)
  have k1: "gosfs_found g ds \<longrightarrow> gosfs_found s1 ds" for ds
    using made_keeps_paths [OF s1(2) a(4)] by (auto simp: gosfs_found_def)
  have "outcome_of g cs = Missing p (int i) True" using a(4) by (simp add: vacant_def)
  then have f2: "\<not> gosfs_found s2 cs" using s2(3) [of cs] by (simp add: gosfs_found_def)
  have k2: "gosfs_found g ds \<longrightarrow> gosfs_found s2 ds" for ds
    using s2(3) [of ds] by (auto simp: gosfs_found_def)
  show "\<exists>s'. GOSFS_Create_Directory E (join cs) g = Some (0, s') \<and> gosfs_ok E s' \<and> gosfs_found s' cs \<and>
      (\<forall>ds. gosfs_found g ds \<longrightarrow> gosfs_found s' ds) \<and>
      (\<exists>s''. GOSFS_Delete E (join cs) s' = Some (0, s'') \<and> gosfs_ok E s'' \<and> \<not> gosfs_found s'' cs \<and>
        (\<forall>ds. gosfs_found g ds \<longrightarrow> gosfs_found s'' ds))"
    using s1(1) s2(1) ok1 f1 k1 f2 k2 by blast
next
  fix g cs
  assume a: "gosfs_ok E g" "gosfs_found g cs"
  then obtain b j where o1: "outcome_of g cs = Found b j" and "good_path cs" by (auto simp: gosfs_found_def)
  then obtain s' where s': "GOSFS_Create_Directory E (join cs) g = Some (EEXIST, s')" "same_blocks g s'"
    using Create_EEXIST [of g E cs b j] a(1) by (auto simp: gosfs_ok_def)
  then have "outcome_of s' = outcome_of g" by (intro outcome_cong) (simp add: same_blocks_def)
  then show "\<exists>s'. GOSFS_Create_Directory E (join cs) g = Some (EEXIST, s') \<and> gosfs_ok E s' \<and> (\<forall>ds. gosfs_found s' ds = gosfs_found g ds)"
    using s' a(1) by (auto simp: gosfs_found_def gosfs_ok_def same_blocks_def)
qed (auto simp: gosfs_creatable_def gosfs_found_def vacant_def)

definition vfs_ok :: "gosfs_env \<Rightarrow> cstr \<Rightarrow> nat \<Rightarrow> fs_world vfs \<Rightarrow> bool" where
  "vfs_ok E d n s \<longleftrightarrow> (\<exists>g. mounted_at E s d n g \<and> gosfs_ok E g)"

abbreviation (input) inst :: "nat \<Rightarrow> fs_world vfs \<Rightarrow> GOSFS_Instance" where
  "inst n s \<equiv> g_insts (world s) ! n"

lemma creatable_root: "gosfs_creatable g cs \<Longrightarrow> cs \<noteq> []" "gosfs_found g cs \<Longrightarrow> cs \<noteq> []"
  by (auto simp: gosfs_creatable_def gosfs_found_def vacant_def outcome_of_def)

lemma vfs_ok_with: "mounted_at E s d n g \<Longrightarrow> gosfs_ok E g' \<Longrightarrow> vfs_ok E d n (with_inst n g' s)"
  using mounted_at_with [of E s d n g g'] by (auto simp: vfs_ok_def)

lemma inst_with: "mounted_at E s d n g \<Longrightarrow> inst n (with_inst n g' s) = g'"
  by (simp add: mounted_at_def with_inst_def)

interpretation vfs: directory_tree "vfs_ok E d n" "\<lambda>s. gosfs_found (inst n s)" "\<lambda>s. gosfs_creatable (inst n s)"
  "\<lambda>cs. Create_Directory V cwd (join (d # cs))" "\<lambda>cs. Delete V cwd (join (d # cs))"
proof
  fix s cs
  assume "vfs_ok E d n s" and c: "gosfs_creatable (inst n s) cs"
  then obtain g where g: "mounted_at E s d n g" "gosfs_ok E g" "inst n s = g" by (auto simp: vfs_ok_def mounted_at_def)
  have ne: "join_or_root cs = join cs" using creatable_root(1) [OF c] by (simp add: join_or_root_def)
  obtain g1 g2 where g1: "GOSFS_Create_Directory E (join cs) g = Some (0, g1)" "gosfs_ok E g1" "gosfs_found g1 cs"
      "\<And>ds. gosfs_found g ds \<Longrightarrow> gosfs_found g1 ds"
    and g2: "GOSFS_Delete E (join cs) g1 = Some (0, g2)" "gosfs_ok E g2" "\<not> gosfs_found g2 cs" "\<And>ds. gosfs_found g ds \<Longrightarrow> gosfs_found g2 ds"
    using gosfs.mkdir_new [OF g(2), of cs] c unfolding g(3) by blast
  note m1 = mounted_at_with [OF g(1), of g1]
  have "Create_Directory V cwd (join (d # cs)) s = Some (0, with_inst n g1 s)"
    unfolding Create_Directory_at [OF g(1)] ne g1(1) by simp
  moreover have "Delete V cwd (join (d # cs)) (with_inst n g1 s) = Some (0, with_inst n g2 (with_inst n g1 s))"
    unfolding Delete_at [OF m1] ne g2(1) by simp
  moreover have "vfs_ok E d n (with_inst n g1 s)" "vfs_ok E d n (with_inst n g2 (with_inst n g1 s))"
    using vfs_ok_with [OF g(1) g1(2)] vfs_ok_with [OF m1 g2(2)] by simp_all
  moreover have "inst n (with_inst n g1 s) = g1" "inst n (with_inst n g2 (with_inst n g1 s)) = g2"
    using inst_with [OF g(1)] inst_with [OF m1] by simp_all
  ultimately show "\<exists>s'. Create_Directory V cwd (join (d # cs)) s = Some (0, s') \<and> vfs_ok E d n s' \<and> gosfs_found (inst n s') cs \<and>
      (\<forall>ds. gosfs_found (inst n s) ds \<longrightarrow> gosfs_found (inst n s') ds) \<and>
      (\<exists>s''. Delete V cwd (join (d # cs)) s' = Some (0, s'') \<and> vfs_ok E d n s'' \<and> \<not> gosfs_found (inst n s'') cs \<and>
        (\<forall>ds. gosfs_found (inst n s) ds \<longrightarrow> gosfs_found (inst n s'') ds))"
    using g1(3,4) g2(3,4) unfolding g(3) by metis
next
  fix s cs
  assume "vfs_ok E d n s" and c: "gosfs_found (inst n s) cs"
  then obtain g where g: "mounted_at E s d n g" "gosfs_ok E g" "inst n s = g" by (auto simp: vfs_ok_def mounted_at_def)
  have ne: "join_or_root cs = join cs" using creatable_root(2) [OF c] by (simp add: join_or_root_def)
  obtain g1 where g1: "GOSFS_Create_Directory E (join cs) g = Some (EEXIST, g1)" "gosfs_ok E g1" "\<And>ds. gosfs_found g1 ds = gosfs_found g ds"
    using gosfs.mkdir_old [OF g(2), of cs] c unfolding g(3) by blast
  have "Create_Directory V cwd (join (d # cs)) s = Some (EEXIST, with_inst n g1 s)"
    unfolding Create_Directory_at [OF g(1)] ne g1(1) by simp
  then show "\<exists>s'. Create_Directory V cwd (join (d # cs)) s = Some (EEXIST, s') \<and> vfs_ok E d n s' \<and>
      (\<forall>ds. gosfs_found (inst n s') ds = gosfs_found (inst n s) ds)"
    using vfs_ok_with [OF g(1) g1(2)] inst_with [OF g(1), of g1] g1(3) g(3) by auto
qed (rule gosfs.creatable_new)


section \<open>Properties\<close>


text \<open>A virtual file system with the file system of the example mounted on \<open>/d\<close>.\<close>

definition sample_vfs :: "GOSFS_Instance \<Rightarrow> fs_world vfs" where
  "sample_vfs g = \<lparr>s_mountPointList = [\<lparr>mp_ops = s_gosfsMountPointOps sample_env, mp_pathPrefix = [0x64], mp_dev = 0, mp_fsData = 0\<rparr>],
     s_filesystemList = [], s_pagingDevice = None, strings = (\<lambda>_. []), dentries = (\<lambda>_. None), devices = undefined,
     world = \<lparr>w_disks = (\<lambda>_. sample_disk), g_insts = [g], p_insts = []\<rparr>\<rparr>"

definition sample_vfs_env :: vfs_env where
  "sample_vfs_env = \<lparr>v_malloc = True, v_strdup = True, v_open = (\<lambda>_. 0), v_close = (\<lambda>_. 0), v_pathCap = 1023, v_prefixCap = 17,
     v_newDentry = 0x5000\<rparr>"

lemma sample_mounted_at: "mounted_at sample_env (sample_vfs g) [0x64] 0 g"
  by (simp add: mounted_at_def sample_vfs_def Lookup_Mount_Point_def good_name_def)


text \<open>A lookup that fails in the file system has already replaced the prefix of the path it was given:
  after a failed change of directory to another mounted file system, the current directory is the
  old entry under the new prefix.\<close>

theorem failed_lookup_changes_prefix:
  assumes "mounted_at E s d n g" "fs_inv g {}" "sane_env E" "good_path cs" "outcome_of g cs = Missing p f True" "length d < v_prefixCap V"
  shows "\<exists>s1. Lookup V cwd (join (d # cs)) cwd s = Some (ENOTFOUND, cwd, s1) \<and>
    strings s1 = (strings s)(pathPrefix cwd := d) \<and> dentries s1 = dentries s"
proof -
  have ne: "join_or_root cs = join cs" using assms(5) by (cases cs) (auto simp: join_or_root_def outcome_of_def)
  obtain g' where "lookup_path E (join cs) g =
      Some (EUNSPECIFIED, \<lparr>pi_suffix = last cs, dirEntryPtr = \<lparr>de_base = p, de_offset = f\<rparr>\<rparr>, g')"
    using lookup_path_Missing [of g E cs p f] assms(2-5) good_pathD [OF assms(4)] by (auto simp: sane_env_def outcome_of_def)
  then have "GOSFS_Lookup E (join cs) g = Some (ENOTFOUND, None, g')" by (simp add: GOSFS_Lookup_def)
  then show ?thesis unfolding Lookup_at [OF assms(1,6)] ne by (simp add: Let_def with_inst_def)
qed

lemma failed_lookup_changes_prefix_witness:
  "\<exists>(s :: fs_world vfs) s1 cwd. Lookup sample_vfs_env cwd (join [[0x64], [0x61]]) cwd s = Some (ENOTFOUND, cwd, s1) \<and>
    strings s (pathPrefix cwd) = [] \<and> strings s1 (pathPrefix cwd) = [0x64]"
proof -
  obtain d g where g: "fs_inv g {}" "used_blocks g = {0, 1}" "root_block g = 1" "fs_blocks g = 8" "new_dir 1 1 (dirs g 1)"
    by (rule sample_mounted)
  note v = sample_vacant [OF g(2-5)]
  have l: "length [0x64 :: u8] < v_prefixCap sample_vfs_env" by (simp add: sample_vfs_env_def)
  have o1: "outcome_of g sample_path = Missing 1 2 True" using v(1) by (simp add: vacant_def)
  let ?cwd = "\<lparr>pathPrefix = 0, dentry_ptr = 0\<rparr>"
  obtain s1 where "Lookup sample_vfs_env ?cwd (join ([0x64] # sample_path)) ?cwd (sample_vfs g) = Some (ENOTFOUND, ?cwd, s1)"
    "strings s1 = (strings (sample_vfs g))(pathPrefix ?cwd := [0x64])"
    using failed_lookup_changes_prefix [OF sample_mounted_at g(1) sample_sane v(2) o1 l, of ?cwd] by blast
  moreover have "strings (sample_vfs g) (pathPrefix ?cwd) = []" by (simp add: sample_vfs_def)
  ultimately show ?thesis by (metis fun_upd_same)
qed

end
