(* ===== verification/PfatRead.thy ===== *)
theory PfatRead
  imports FsOps
begin

text \<open>
  Reading files of the pseudo-FAT file system: what is read is what the blocks of the file hold on the
  device, whatever part of it is cached; and the whole way of a file through \<open>Read_Fully\<close>.
\<close>

section \<open>The blocks of a file\<close>

fun file_blocks :: "u32 list \<Rightarrow> u32 \<Rightarrow> nat \<Rightarrow> u32 list option" where
  "file_blocks fat b 0 = Some []"
| "file_blocks fat b (Suc n) =
     (if b = FAT_ENTRY_FREE \<or> b = FAT_ENTRY_EOF then None
      else do { c \<leftarrow> aget fat (unat b); bs \<leftarrow> file_blocks fat c n; Some (b # bs) })"

text \<open>What they hold.\<close>

definition blocks_content :: "disk \<Rightarrow> u32 list \<Rightarrow> u8 list" where
  "blocks_content d bs = concat (List.map (\<lambda>b. sector d (sint b)) bs)"

lemma file_blocks_length: "file_blocks fat b n = Some bs \<Longrightarrow> length bs = n"
  by (induction fat b n arbitrary: bs rule: file_blocks.induct) (auto simp: bind_Some_iff split: if_splits)

lemma length_blocks_content: "disk_ok d \<Longrightarrow> length (blocks_content d bs) = 512 * length bs"
  by (induction bs) (simp_all add: blocks_content_def disk_ok_def)

lemma blocks_content_nth:
  "disk_ok d \<Longrightarrow> i < length bs \<Longrightarrow> take 512 (drop (512 * i) (blocks_content d bs)) = sector d (sint (bs ! i))"
proof (induction bs arbitrary: i)
  case (Cons b bs)
  have l: "length (sector d (sint b)) = 512" using Cons.prems(1) by (simp add: disk_ok_def)
  show ?case
  proof (cases i)
    case 0
    then show ?thesis using l by (simp add: blocks_content_def)
  next
    case (Suc j)
    then show ?thesis using Cons l by (simp add: blocks_content_def)
  qed
qed simp

text \<open>Two byte strings that agree block by block agree.\<close>

lemma eq_by_blocks:
  assumes "512 * m \<le> length xs" "512 * m \<le> length ys"
    and "\<And>i. i < m \<Longrightarrow> take 512 (drop (512 * i) xs) = take 512 (drop (512 * i) ys)"
  shows "take (512 * m) xs = take (512 * m) (ys :: u8 list)"
  using assms
proof (induction m)
  case (Suc m)
  have "take (512 * Suc m) zs = take (512 * m) zs @ take 512 (drop (512 * m) zs)" for zs :: "u8 list"
    using take_add [of "512 * m" 512 zs] by (simp add: add.commute)
  then show ?case using Suc by simp
qed simp

section \<open>The cache of a file\<close>

text \<open>The cache of a file whose blocks are \<open>bs\<close>: the blocks that are marked hold what the device does.\<close>

definition cached_file :: "disk \<Rightarrow> u32 list \<Rightarrow> PFAT_File \<Rightarrow> bool" where
  "cached_file d bs pf \<longleftrightarrow> length (fileDataCache pf) = 512 * length bs \<and> length bs \<le> 8 * length (validBlockSet pf) \<and>
     (\<forall>i < length bs. i \<in> bits_of (validBlockSet pf) \<longrightarrow>
        take 512 (drop (512 * i) (fileDataCache pf)) = sector d (sint (bs ! i)))"

lemma cached_file_put:
  assumes c: "cached_file d bs pf" and d: "disk_ok d" and i: "i < length bs"
    and v: "length vs = length (validBlockSet pf)" "bits_of vs = insert i (bits_of (validBlockSet pf))"
  shows "\<exists>xs. put_bytes (fileDataCache pf) (i * 512) (sector d (sint (bs ! i))) = Some xs \<and>
    cached_file d bs (pf\<lparr>fileDataCache := xs, validBlockSet := vs\<rparr>)"
proof -
  let ?s = "sector d (sint (bs ! i))"
  have l: "length ?s = 512" using d by (simp add: disk_ok_def)
  have "i * 512 + length ?s \<le> length (fileDataCache pf)" using i l c by (simp add: cached_file_def)
  then obtain xs where p: "put_bytes (fileDataCache pf) (i * 512) ?s = Some xs" by (simp add: put_bytes_def)
  have lx: "length xs = 512 * length bs" using put_bytes_Some [OF p] c by (simp add: cached_file_def)
  have same: "take 512 (drop (512 * i) xs) = ?s"
    using get_bytes_put_bytes [OF p] l i lx by (simp add: get_bytes_def mult.commute)
  have other: "take 512 (drop (512 * j) xs) = take 512 (drop (512 * j) (fileDataCache pf))" if "j < length bs" "j \<noteq> i" for j
  proof -
    have "512 * j + 512 \<le> i * 512 \<or> i * 512 + length ?s \<le> 512 * j" using that(2) l by auto
    from get_bytes_other [OF p this] show ?thesis using that(1) lx c by (simp add: get_bytes_def cached_file_def)
  qed
  have "take 512 (drop (512 * j) xs) = sector d (sint (bs ! j))" if "j < length bs" "j \<in> bits_of vs" for j
    using that same other [OF that(1)] c v(2) by (cases "j = i") (auto simp: cached_file_def)
  then show ?thesis using p lx v(1) c by (auto simp: cached_file_def)
qed

lemma read_blocks_ok:
  assumes "cached_file d bs pf" "disk_ok d" "file_blocks fat b n = Some (drop i bs)" "i + n = length bs" "m \<le> n"
  shows "\<exists>pf'. read_blocks d fat 0 i m b pf = Some (0, pf') \<and> cached_file d bs pf' \<and> pf_entry pf' = pf_entry pf \<and>
    numBlocks pf' = numBlocks pf \<and> bits_of (validBlockSet pf) \<union> {i..<i + m} \<subseteq> bits_of (validBlockSet pf')"
  using assms
proof (induction m arbitrary: i n b pf)
  case 0
  then show ?case by simp
next
  case (Suc m)
  then obtain n' where n: "n = Suc n'" by (cases n) auto
  have i: "i < length bs" using Suc.prems(4) n by simp
  from Suc.prems(3) n have b: "b \<noteq> FAT_ENTRY_FREE" "b \<noteq> FAT_ENTRY_EOF" by (auto split: if_splits)
  from Suc.prems(3) n obtain c cs where c: "aget fat (unat b) = Some c" "file_blocks fat c n' = Some cs" "drop i bs = b # cs"
    by (auto simp: bind_Some_iff split: if_splits)
  have bi: "bs ! i = b" "drop (Suc i) bs = cs"
    using c(3) i by (metis nth_via_drop, metis drop_Suc list.sel(3) tl_drop)
  have in_set: "i < 8 * length (validBlockSet pf)" using i Suc.prems(1) by (simp add: cached_file_def)
  have "\<exists>pf1. (do { valid \<leftarrow> Is_Bit_Set (validBlockSet pf) i;
      if \<not> valid then (case dev_read d (sint b) of (rc, sec) \<Rightarrow>
         if rc = 0 then do { xs \<leftarrow> put_bytes (fileDataCache pf) (i * 512) sec;
           vs \<leftarrow> Set_Bit (validBlockSet pf) i;
           Some (0, pf\<lparr>fileDataCache := xs, validBlockSet := vs\<rparr>) }
         else Some (rc, pf)) else Some (0, pf) }) = Some (0, pf1) \<and> cached_file d bs pf1 \<and> pf_entry pf1 = pf_entry pf \<and>
      numBlocks pf1 = numBlocks pf \<and> insert i (bits_of (validBlockSet pf)) \<subseteq> bits_of (validBlockSet pf1)"
  proof (cases "i \<in> bits_of (validBlockSet pf)")
    case True
    then show ?thesis using Suc.prems(1) Is_Bit_Set_spec [OF in_set] by auto
  next
    case False
    obtain vs where vs: "Set_Bit (validBlockSet pf) i = Some vs" "length vs = length (validBlockSet pf)"
      "bits_of vs = insert i (bits_of (validBlockSet pf))" using Set_Bit_spec [OF in_set] by blast
    obtain xs where xs: "put_bytes (fileDataCache pf) (i * 512) (sector d (sint (bs ! i))) = Some xs"
      "cached_file d bs (pf\<lparr>fileDataCache := xs, validBlockSet := vs\<rparr>)"
      using cached_file_put [OF Suc.prems(1,2) i vs(2,3)] by blast
    have "rd_rc d (sint b) = 0" using Suc.prems(2) by (simp add: disk_ok_def)
    with False vs xs bi Is_Bit_Set_spec [OF in_set] show ?thesis by (auto simp: dev_read_def)
  qed
  then obtain pf1 where pf1: "(do { valid \<leftarrow> Is_Bit_Set (validBlockSet pf) i;
      if \<not> valid then (case dev_read d (sint b) of (rc, sec) \<Rightarrow>
         if rc = 0 then do { xs \<leftarrow> put_bytes (fileDataCache pf) (i * 512) sec;
           vs \<leftarrow> Set_Bit (validBlockSet pf) i;
           Some (0, pf\<lparr>fileDataCache := xs, validBlockSet := vs\<rparr>) }
         else Some (rc, pf)) else Some (0, pf) }) = Some (0, pf1)" "cached_file d bs pf1" "pf_entry pf1 = pf_entry pf"
      "numBlocks pf1 = numBlocks pf" "insert i (bits_of (validBlockSet pf)) \<subseteq> bits_of (validBlockSet pf1)" by blast
  have fb: "file_blocks fat c n' = Some (drop (Suc i) bs)" using c(2) bi(2) by simp
  obtain pf' where pf': "read_blocks d fat 0 (Suc i) m c pf1 = Some (0, pf')" "cached_file d bs pf'" "pf_entry pf' = pf_entry pf1"
    "numBlocks pf' = numBlocks pf1" "bits_of (validBlockSet pf1) \<union> {Suc i..<Suc i + m} \<subseteq> bits_of (validBlockSet pf')"
    using Suc.IH [OF pf1(2) Suc.prems(2) fb, of] Suc.prems(4,5) n by auto
  have "read_blocks d fat 0 i (Suc m) b pf = read_blocks d fat 0 (Suc i) m c pf1"
    using b pf1(1) c(1) by simp
  moreover have "{i..<i + Suc m} = insert i {Suc i..<Suc i + m}" by auto
  ultimately show ?case using pf' pf1 by auto
qed

section \<open>Reading\<close>

lemma blocks_needed: "x \<le> 512 * ((x + 511) div 512)" "x \<le> 512 * k \<Longrightarrow> (x + 511) div 512 \<le> (k :: nat)"
proof -
  have "x + 511 = 512 * ((x + 511) div 512) + (x + 511) mod 512" by simp
  moreover have "(x + 511) mod 512 < 512" by simp
  ultimately show "x \<le> 512 * ((x + 511) div 512)" by linarith
  show "(x + 511) div 512 \<le> k" if "x \<le> 512 * k" using that by (simp add: less_Suc_eq_le [symmetric] div_less_iff_less_mult)
qed

lemma round_up_div:
  assumes "a mod 512 \<noteq> 0"
  shows "(a + (512 - a mod 512)) div 512 = (a + 511) div (512 :: nat)"
proof -
  define q r where "q = a div 512" and "r = a mod 512"
  have a: "a = q * 512 + r" and r: "0 < r" "r < 512" using assms by (simp_all add: q_def r_def)
  have "a + (512 - r) = (q + 1) * 512" using a r by simp
  moreover have "a + 511 = (r - 1) + (q + 1) * 512" "r - 1 < 512" using a r by simp_all
  ultimately show ?thesis unfolding r_def [symmetric] by simp
qed

lemma Round_Up_To_Block_div:
  assumes "unat a + 511 < 2 ^ 32"
  shows "unat (Round_Up_To_Block a div 512) = (unat a + 511) div 512"
proof (cases "unat a mod 512 = 0")
  case True
  then have "a mod 512 = 0" by (simp add: word_arith_nat_mod)
  then have "Round_Up_To_Block a = a" by (simp add: Round_Up_To_Block_def)
  moreover have "(unat a + 511) div 512 = unat a div 512" using True by (auto elim!: dvdE simp: mod_eq_0_iff_dvd)
  ultimately show ?thesis by (simp add: unat_div)
next
  case False
  have m: "unat (a mod 512) = unat a mod 512" by (simp add: unat_mod)
  then have nz: "a mod 512 \<noteq> 0" using False by (metis unat_0)
  have "unat (512 - a mod 512 :: u32) = 512 - unat a mod 512"
    by (subst unat_sub) (simp_all add: m word_le_nat_alt)
  moreover have "unat a + (512 - unat a mod 512) < 2 ^ 32" using assms False by linarith
  ultimately have "unat (a + (512 - a mod 512)) = unat a + (512 - unat a mod 512)"
    by (simp add: unat_word_ariths)
  then have "unat (Round_Up_To_Block a) = unat a + (512 - unat a mod 512)"
    using nz by (simp add: Round_Up_To_Block_def)
  moreover have "(unat a + (512 - unat a mod 512)) div 512 = (unat a + 511) div 512" by (rule round_up_div) (use False in simp)
  ultimately show ?thesis by (simp add: unat_div)
qed

text \<open>The part of the cache that is marked is the content of the file.\<close>

lemma cached_content:
  assumes c: "cached_file d bs pf" and d: "disk_ok d" and v: "{0..<m} \<subseteq> bits_of (validBlockSet pf)" and m: "m \<le> length bs"
    and n: "p + n \<le> 512 * m"
  shows "get_bytes (fileDataCache pf) p n = Some (take n (drop p (blocks_content d bs)))"
proof -
  let ?x = "fileDataCache pf" and ?y = "blocks_content d bs"
  have l: "length ?x = 512 * length bs" "length ?y = 512 * length bs"
    using c d by (simp_all add: cached_file_def length_blocks_content)
  have "take (512 * m) ?x = take (512 * m) ?y"
  proof (rule eq_by_blocks)
    fix i assume "i < m"
    then show "take 512 (drop (512 * i) ?x) = take 512 (drop (512 * i) ?y)"
      using c v m blocks_content_nth [OF d, of i bs] by (auto simp: cached_file_def)
  qed (use l m in simp_all)
  then have "take n (drop p (take (512 * m) ?x)) = take n (drop p (take (512 * m) ?y))" by simp
  then show ?thesis using n m l by (simp add: get_bytes_def drop_take min_absorb1 take_take)
qed

text \<open>What a file object of the list is known to be: its blocks are \<open>bs\<close> and its cache agrees with the device.\<close>

definition pfat_file :: "disk \<Rightarrow> PFAT_Instance \<Rightarrow> nat \<Rightarrow> u32 list \<Rightarrow> bool" where
  "pfat_file d s i bs \<longleftrightarrow> i < length (p_fileList s) \<and>
     (\<exists>e. entry_of s (pf_entry (p_fileList s ! i)) = Some e \<and> file_blocks (p_fat s) (de_firstBlock e) (length bs) = Some bs) \<and>
     cached_file d bs (p_fileList s ! i)"

lemma PFAT_Read_ok:
  assumes d: "disk_ok d" and f: "pfat_file d s (f_fsData f) bs"
    and n: "n \<le> 0x7FFFFFFF" and st: "filePos f < endPos f" and rng: "unat (filePos f) + unat n \<le> unat (endPos f)"
    and blks: "unat (endPos f) \<le> 512 * length bs" and small: "unat (endPos f) + 511 < 2 ^ 32"
  shows "\<exists>s'. PFAT_Read d f n s =
      Some (int (unat n), take (unat n) (drop (unat (filePos f)) (blocks_content d bs)), s') \<and>
    pfat_file d s' (f_fsData f) bs"
proof -
  let ?i = "f_fsData f" and ?start = "filePos f" and ?fin = "filePos f + n"
  define pf where "pf = p_fileList s ! ?i"
  obtain e where e: "entry_of s (pf_entry pf) = Some e" "file_blocks (p_fat s) (de_firstBlock e) (length bs) = Some bs"
    and c: "cached_file d bs pf" and i: "?i < length (p_fileList s)"
    using f unfolding pfat_file_def pf_def by blast
  have fin: "unat ?fin = unat ?start + unat n"
    using rng small by (simp add: unat_word_ariths)
  have ok: "\<not> n > 0x7FFFFFFF" "\<not> (?start \<ge> endPos f \<or> ?fin > endPos f \<or> ?fin < ?start)"
    using n st rng fin by (auto simp: word_le_nat_alt word_less_nat_alt)
  define m where "m = (unat ?fin + 511) div 512"
  have endb: "unat (Round_Up_To_Block ?fin div 512) = m"
    unfolding m_def by (rule Round_Up_To_Block_div) (use fin rng small in simp)
  have m: "m \<le> length bs" "unat ?start + unat n \<le> 512 * m"
    using blocks_needed(1) [of "unat ?start + unat n"] blocks_needed(2) [of "unat ?start + unat n" "length bs"] fin rng blks by (simp_all add: m_def)
  have start: "unat (?start mod 512 div 512) = 0" by (simp add: unat_div unat_mod)
  obtain pf' where pf': "read_blocks d (p_fat s) 0 0 m (de_firstBlock e) pf = Some (0, pf')" "cached_file d bs pf'"
    "pf_entry pf' = pf_entry pf" "{0..<m} \<subseteq> bits_of (validBlockSet pf')"
    using read_blocks_ok [OF c d, of "p_fat s" "de_firstBlock e" "length bs" 0 m] e(2) m(1) by auto
  define s' where "s' = s\<lparr>p_fileList := (p_fileList s)[?i := pf']\<rparr>"
  have n31: "sint n = int (unat n)" using n by (intro sint_small) (simp add: word_le_nat_alt)
  have "PFAT_Read d f n s = Some (int (unat n), take (unat n) (drop (unat ?start) (blocks_content d bs)), s')"
    using ok e(1) i pf'(1) cached_content [OF pf'(2) d pf'(4) m(1) m(2)] n31
    by (simp add: PFAT_Read_def Let_def pf_def start endb s'_def)
  moreover have "pfat_file d s' ?i bs"
    using i e pf'(2,3) by (auto simp: pfat_file_def s'_def pf_def entry_of_def split: entry_ptr.splits)
  ultimately show ?thesis by blast
qed

section \<open>Opening\<close>

definition n_blocks :: "directoryEntry \<Rightarrow> nat" where
  "n_blocks e = (unat (de_fileSize e) + 511) div 512"

text \<open>The blocks of an entry, and every file object of a mounted instance being one of its entry.\<close>

definition entry_blocks :: "PFAT_Instance \<Rightarrow> entry_ptr \<Rightarrow> u32 list \<Rightarrow> bool" where
  "entry_blocks s p bs \<longleftrightarrow> (\<exists>e. entry_of s p = Some e \<and> length bs = n_blocks e \<and>
     file_blocks (p_fat s) (de_firstBlock e) (n_blocks e) = Some bs)"

definition pfat_ok :: "disk \<Rightarrow> PFAT_Instance \<Rightarrow> bool" where
  "pfat_ok d s \<longleftrightarrow> (\<forall>f \<in> set (p_fileList s). \<exists>bs. entry_blocks s (pf_entry f) bs \<and> cached_file d bs f)"

definition pfat_env_ok :: "pfat_env \<Rightarrow> bool" where
  "pfat_env_ok P \<longleftrightarrow> pm_file P \<and> pm_set P \<and> pm_File P \<and> (\<forall>n. \<exists>c. pm_cache P n = Some c \<and> length c = n)"

lemma find_pfat_file_Some: "find_pfat_file p fs i = Some k \<Longrightarrow> i \<le> k \<and> k - i < length fs \<and> pf_entry (fs ! (k - i)) = p"
proof (induction fs arbitrary: i)
  case (Cons f fs)
  show ?case
  proof (cases "pf_entry f = p")
    case False
    with Cons.prems have "find_pfat_file p fs (Suc i) = Some k" by simp
    note ih = Cons.IH [OF this]
    then have "i < k" by simp
    then have "k - i = Suc (k - Suc i)" by (simp add: Suc_diff_Suc)
    with ih show ?thesis by simp
  qed (use Cons.prems in simp)
qed simp

lemma entry_blocks_unique: "entry_blocks s p bs \<Longrightarrow> entry_blocks s p cs \<Longrightarrow> bs = cs"
  by (auto simp: entry_blocks_def)

lemma Get_PFAT_File_ok:
  assumes P: "pfat_env_ok P" and s: "pfat_ok d s" and b: "entry_blocks s p bs" and small: "\<And>e. entry_of s p = Some e \<Longrightarrow> unat (de_fileSize e) + 511 < 2 ^ 32"
  shows "\<exists>i s'. Get_PFAT_File P p s = Some (Some i, s') \<and> pfat_file d s' i bs \<and> pfat_ok d s' \<and>
    p_fat s' = p_fat s \<and> p_rootDir s' = p_rootDir s \<and> p_rootDirEntry s' = p_rootDirEntry s \<and> p_fsinfo s' = p_fsinfo s"
proof (cases "find_pfat_file p (p_fileList s) 0")
  case (Some i)
  then have i: "i < length (p_fileList s)" "pf_entry (p_fileList s ! i) = p" using find_pfat_file_Some [OF Some] by simp_all
  then obtain cs where cs: "entry_blocks s p cs" "cached_file d cs (p_fileList s ! i)"
    using s nth_mem [OF i(1)] unfolding pfat_ok_def by blast
  have "cs = bs" by (rule entry_blocks_unique [OF cs(1) b])
  with cs i have "pfat_file d s i bs" by (auto simp: pfat_file_def entry_blocks_def)
  then show ?thesis using Some s by (auto simp: Get_PFAT_File_def)
next
  case None
  obtain e where e: "entry_of s p = Some e" "length bs = n_blocks e" "file_blocks (p_fat s) (de_firstBlock e) (n_blocks e) = Some bs"
    using b by (auto simp: entry_blocks_def)
  have nb: "unat (Round_Up_To_Block (de_fileSize e) div 512) = n_blocks e"
    using Round_Up_To_Block_div [OF small [OF e(1)]] by (simp add: n_blocks_def)
  obtain c where c: "pm_cache P (n_blocks e * 512) = Some c" "length c = n_blocks e * 512" using P by (auto simp: pfat_env_ok_def)
  obtain vs where vs: "Create_Bit_Set True (n_blocks e) = Some vs" "bits_of vs = {}" "n_blocks e \<le> 8 * length vs"
    using Create_Bit_Set_spec by (auto simp: Create_Bit_Set_def)
  let ?f = "\<lparr>pf_entry = p, numBlocks = n_blocks e, fileDataCache = c, validBlockSet = vs\<rparr>"
  let ?s = "s\<lparr>p_fileList := p_fileList s @ [?f]\<rparr>"
  have g: "Get_PFAT_File P p s = Some (Some (length (p_fileList s)), ?s)"
    using None e(1) nb c(1) vs(1) P by (simp add: Get_PFAT_File_def pfat_env_ok_def Let_def)
  have cf: "cached_file d bs ?f" using c(2) vs(2,3) e(2) by (simp add: cached_file_def)
  have same: "entry_of ?s q = entry_of s q" for q by (simp add: entry_of_def split: entry_ptr.split)
  have "pfat_file d ?s (length (p_fileList s)) bs" using cf e same by (simp add: pfat_file_def)
  moreover have "pfat_ok d ?s"
    using s cf e by (auto simp: pfat_ok_def entry_blocks_def same)
  ultimately show ?thesis using g by auto
qed

section \<open>A whole file\<close>

section \<open>A whole file\<close>

lemma Open_pfat:
  assumes at: "good_name d" "Lookup_Mount_Point d s = Some (i, mp)" "mp_ops mp = s_pfatMountPointOps P"
    and inst: "aget (p_insts (world s)) (mp_fsData mp) = Some I"
    and ok: "pfat_ok D I" "pfat_env_ok P"
    and ent: "Do_PFAT_Lookup I (join_or_root cs) = Some (Some ptr)" "entry_of I ptr = Some e" "\<not> directory e"
    and blocks: "entry_blocks I ptr bs" and small: "unat (de_fileSize e) < 2 ^ 31"
  shows "\<exists>k I1. Open V cwd (join (d # cs)) O_READ s =
      Some (0, Some \<lparr>f_ops = s_pfatFileOps, filePos = 0, endPos = de_fileSize e, f_fsData = k, f_mode = O_READ, f_mountPoint = i\<rparr>,
        s\<lparr>world := (world s)\<lparr>p_insts := (p_insts (world s))[mp_fsData mp := I1]\<rparr>\<rparr>) \<and>
    pfat_file D I1 k bs \<and> pfat_ok D I1"
proof -
  have szsmall: "unat (de_fileSize e') + 511 < 2 ^ 32" if "entry_of I ptr = Some e'" for e' using that ent(2) small by simp
  obtain k I1 where k: "Get_PFAT_File P ptr I = Some (Some k, I1)" "pfat_file D I1 k bs" "pfat_ok D I1"
    using Get_PFAT_File_ok [OF ok(2,1) blocks szsmall] by blast
  have po: "PFAT_Open P (join_or_root cs) O_READ I =
      Some (0, Some \<lparr>f_ops = s_pfatFileOps, filePos = 0, endPos = de_fileSize e, f_fsData = k, f_mode = 0, f_mountPoint = 0\<rparr>, I1)"
    using ent k(1) ok(2) by (simp add: PFAT_Open_def Allocate_File_def pfat_env_ok_def)
  have "resolve_mount V cwd (join (d # cs)) s = Some (Some (d, join_or_root cs, i, mp), s)"
    using at(2) by (simp add: resolve_mount_join [OF at(1)] del: join_simps)
  then show ?thesis
    using po inst k(2,3)
    by (auto simp: Open_def Do_Open_def Do_Open_File_def at(3) s_pfatMountPointOps_def pfat_open_op_def onw3_def simp del: join_simps)
qed

lemma Read_Fully_pfat:
  assumes at: "good_name d" "Lookup_Mount_Point d s = Some (i, mp)" "mp_ops mp = s_pfatMountPointOps P"
    and inst: "aget (p_insts (world s)) (mp_fsData mp) = Some I"
    and ok: "disk_ok (w_disks (world s) (mp_dev mp))" "pfat_ok (w_disks (world s) (mp_dev mp)) I" "pfat_env_ok P"
    and ent: "Do_PFAT_Lookup I (join_or_root cs) = Some (Some ptr)" "entry_of I ptr = Some e" "\<not> directory e"
    and blocks: "entry_blocks I ptr bs" and small: "unat (de_fileSize e) < 2 ^ 31"
    and buf: "alloc (unat (de_fileSize e)) = Some buf" "length buf = unat (de_fileSize e)"
  shows "\<exists>s'. Read_Fully (file_ops G (mount_of s)) V cwd (join (d # cs)) junk alloc s =
    Some (0, Some (take (unat (de_fileSize e)) (blocks_content (w_disks (world s) (mp_dev mp)) bs)), s')"
proof -
  let ?D = "w_disks (world s) (mp_dev mp)" and ?n = "mp_fsData mp" and ?sz = "de_fileSize e" and ?T = "file_ops G (mount_of s)"
  let ?p = "join (d # cs)"
  have res: "resolve_mount V cwd ?p s = Some (Some (d, join_or_root cs, i, mp), s)"
    using at(2) by (simp add: resolve_mount_join [OF at(1)] del: join_simps)
  have same: "s\<lparr>world := world s\<rparr> = s" by simp
  have mt: "mount_of s i = Some (mp_dev mp, ?n)"
    using at(2) by (auto simp: mount_of_def Lookup_Mount_Point_Some)
  have n: "?n < length (p_insts (world s))" "p_insts (world s) ! ?n = I" using inst by (auto simp: aget_eq_Some)
  have stat: "Stat V cwd ?p junk s = Some (0, Copy_Stat e, s)"
    using ent(1,2) inst by (simp add: Stat_def res at(3) s_pfatMountPointOps_def asks_inst_def onw3_def PFAT_Stat_def del: join_simps)
  obtain k I1 where o: "Open V cwd ?p O_READ s =
      Some (0, Some \<lparr>f_ops = s_pfatFileOps, filePos = 0, endPos = ?sz, f_fsData = k, f_mode = O_READ, f_mountPoint = i\<rparr>,
        s\<lparr>world := (world s)\<lparr>p_insts := (p_insts (world s))[?n := I1]\<rparr>\<rparr>)" and k: "pfat_file ?D I1 k bs"
    using Open_pfat [OF at inst ok(2,3) ent blocks small] by blast
  define f where "f = \<lparr>f_ops = s_pfatFileOps, filePos = 0, endPos = ?sz, f_fsData = k, f_mode = O_READ, f_mountPoint = i\<rparr>"
  define s1 where "s1 = s\<lparr>world := (world s)\<lparr>p_insts := (p_insts (world s))[?n := I1]\<rparr>\<rparr>"
  have opened: "Open V cwd ?p O_READ s = Some (0, Some f, s1)" using o by (simp add: f_def s1_def)
  have st: "sint (st_size (Copy_Stat e)) = int (unat ?sz)" using sint_small [OF small] by (simp add: Copy_Stat_def Let_def)
  have T: "?T (f_ops f) = pfat_file_ops (mount_of s)" by (simp add: f_def)
  have lp: "\<exists>s2. read_loop ?T (int (unat ?sz)) 0 buf f s1 = Some (0, take (unat ?sz) (blocks_content ?D bs), f, s2)"
  proof (cases "?sz = 0")
    case True
    then show ?thesis using buf(2) by (simp add: read_loop.simps)
  next
    case False
    have e: "length bs = n_blocks e" using blocks ent(2) by (simp add: entry_blocks_def)
    have "?sz \<le> 0x7FFFFFFF" using small by (simp add: word_le_nat_alt)
    moreover have "0 < ?sz" using False by (simp add: word_gt_0)
    moreover have "unat ?sz \<le> 512 * length bs" unfolding e n_blocks_def by (rule blocks_needed(1))
    ultimately obtain I2 where r: "PFAT_Read ?D f ?sz I1 = Some (int (unat ?sz), take (unat ?sz) (blocks_content ?D bs), I2)"
      using PFAT_Read_ok [OF ok(1), of I1 f bs ?sz] k small by (auto simp: f_def)
    define s2 where "s2 = s1\<lparr>world := (world s1)\<lparr>p_insts := (p_insts (world s1))[?n := I2]\<rparr>\<rparr>"
    have w: "word_of_int (int (unat ?sz)) = ?sz" by simp
    have rd: "Read ?T f ?sz s1 = Some (int (unat ?sz), take (unat ?sz) (blocks_content ?D bs), f, s2)"
      unfolding Read_def T using r n mt by (simp add: pfat_file_ops_def f_def s1_def s2_def)
    have l: "length (take (unat ?sz) (blocks_content ?D bs)) = unat ?sz"
      using \<open>unat ?sz \<le> _\<close> length_blocks_content [OF ok(1), of bs] by simp
    then have pb: "put_bytes buf 0 (take (unat ?sz) (blocks_content ?D bs)) = Some (take (unat ?sz) (blocks_content ?D bs))"
      using buf(2) by (simp add: put_bytes_def)
    have pos: "0 < int (unat ?sz)" using False by (metis of_nat_0_less_iff unat_gt_0)
    have "read_loop ?T (int (unat ?sz)) 0 buf f s1 = Some (0, take (unat ?sz) (blocks_content ?D bs), f, s2)"
      by (subst read_loop.simps, simp only: pos if_True diff_zero w rd)
        (simp add: pb, subst read_loop.simps, simp)
    then show ?thesis by blast
  qed
  then obtain s2 where lp: "read_loop ?T (int (unat ?sz)) 0 buf f s1 = Some (0, take (unat ?sz) (blocks_content ?D bs), f, s2)" by blast
  have cl: "Close ?T f s2 = Some (0, s2)" by (simp add: Close_def T pfat_file_ops_def onw_def PFAT_Close_def)
  show ?thesis using stat opened st buf(1) lp cl by (simp add: Read_Fully_def del: join_simps)
qed


text \<open>A mounted file system with one file, \<open>/p/a\<close>: 600 bytes on the sectors 2 and 3.\<close>

definition sample_pfat :: PFAT_Instance where
  "sample_pfat = \<lparr>p_fsinfo = \<lparr>bs_magic = PFAT_MAGIC, fileAllocationOffset = 1, fileAllocationLength = 1,
       rootDirectoryOffset = 4, rootDirectoryCount = 1\<rparr>,
     p_fat = [0, 0, 3, FAT_ENTRY_EOF], p_rootDir = [0x61, 0, 0, 0, 0, 0, 0, 0, 0, 0, 0, 0, 0, 0, 0, 0, 0, 0, 0, 0, 2, 0, 0, 0, 0x58, 2, 0, 0],
     p_rootDirEntry = fake_root \<lparr>bs_magic = 0, fileAllocationOffset = 0, fileAllocationLength = 0, rootDirectoryOffset = 0, rootDirectoryCount = 1\<rparr>,
     p_fileList = []\<rparr>"

definition sample_sectors :: disk where
  "sample_sectors = \<lparr>sector = (\<lambda>b. replicate 512 (word_of_int b)), rd_rc = (\<lambda>_. 0), wr_rc = (\<lambda>_. 0), numSectors = 8\<rparr>"

definition sample_pfat_env :: pfat_env where
  "sample_pfat_env = \<lparr>pm_file = True, pm_cache = (\<lambda>n. Some (replicate n 0)), pm_set = True, pm_File = True, pm_mount = True, pm_dentry = True\<rparr>"

definition sample_pfat_vfs :: "fs_world vfs" where
  "sample_pfat_vfs = \<lparr>s_mountPointList = [\<lparr>mp_ops = s_pfatMountPointOps sample_pfat_env, mp_pathPrefix = [0x70], mp_dev = 0, mp_fsData = 0\<rparr>],
     s_filesystemList = [], s_pagingDevice = None, strings = (\<lambda>_. []), dentries = (\<lambda>_. None), devices = undefined,
     world = \<lparr>w_disks = (\<lambda>_. sample_sectors), g_insts = [], p_insts = [sample_pfat]\<rparr>\<rparr>"

definition sample_entry :: directoryEntry where
  "sample_entry = \<lparr>de_fileName = [0x61, 0, 0, 0, 0, 0, 0, 0, 0, 0, 0, 0], de_attrs = 0, de_firstBlock = 2, de_fileSize = 600\<rparr>"

lemma sample_entry_of: "entry_of sample_pfat (Ent 0) = Some sample_entry"
  by code_simp

lemma sample_lookup: "Do_PFAT_Lookup sample_pfat (join_or_root [[0x61]]) = Some (Some (Ent 0))"
  by code_simp

lemma sample_blocks: "entry_blocks sample_pfat (Ent 0) [2, 3]"
proof -
  have "n_blocks sample_entry = 2" by code_simp
  moreover have "file_blocks (p_fat sample_pfat) (de_firstBlock sample_entry) 2 = Some [2, 3]" by code_simp
  ultimately show ?thesis by (simp add: entry_blocks_def sample_entry_of)
qed

lemma sample_pfat_mounted:
  "good_name [0x70]" "Lookup_Mount_Point [0x70] sample_pfat_vfs = Some (0, s_mountPointList sample_pfat_vfs ! 0)"
  "mp_ops (s_mountPointList sample_pfat_vfs ! 0) = s_pfatMountPointOps sample_pfat_env" "mp_fsData (s_mountPointList sample_pfat_vfs ! 0) = 0"
  "p_insts (world sample_pfat_vfs) = [sample_pfat]" "pfat_ok D sample_pfat" "pfat_env_ok sample_pfat_env"
  "unat (de_fileSize sample_entry) = 600" "\<not> directory sample_entry"
  by (simp_all add: sample_pfat_vfs_def Lookup_Mount_Point_def good_name_def pfat_ok_def sample_pfat_def pfat_env_ok_def sample_pfat_env_def
      sample_entry_def directory_def)

lemma sample_pfat_open:
  "\<exists>f v. Open V cwd (join [[0x70], [0x61]]) O_READ sample_pfat_vfs = Some (0, Some f, v)"
  using Open_pfat [OF sample_pfat_mounted(1-3), where I = sample_pfat and ptr = "Ent 0" and e = sample_entry and bs = "[2, 3]" and cs = "[[0x61]]"
      and V = V and cwd = cwd and D = sample_sectors] sample_pfat_mounted sample_lookup sample_entry_of sample_blocks by (auto simp del: join_simps)


text \<open>Reading does not move the position of an open file of this file system: a second read returns
  the same bytes again, so a program that reads a file piece by piece never gets past the first.\<close>

theorem pfat_read_repeats:
  assumes "f_ops f = s_pfatFileOps" "mount_of s (f_mountPoint f) = Some (dv, n)" "aget (p_insts (world s)) n = Some I"
    and "disk_ok (w_disks (world s) dv)" "pfat_file (w_disks (world s) dv) I (f_fsData f) bs"
    and "k \<le> 0x7FFFFFFF" "filePos f < endPos f" "unat (filePos f) + unat k \<le> unat (endPos f)"
    and "unat (endPos f) \<le> 512 * length bs" "unat (endPos f) + 511 < 2 ^ 32"
  shows "\<exists>xs s1 s2. Read (file_ops G (mount_of s)) f k s = Some (int (unat k), xs, f, s1) \<and>
    Read (file_ops G (mount_of s)) f k s1 = Some (int (unat k), xs, f, s2)"
proof -
  obtain I1 where r1: "PFAT_Read (w_disks (world s) dv) f k I =
      Some (int (unat k), take (unat k) (drop (unat (filePos f)) (blocks_content (w_disks (world s) dv) bs)), I1)"
    "pfat_file (w_disks (world s) dv) I1 (f_fsData f) bs" using PFAT_Read_ok [OF assms(4-10)] by blast
  obtain I2 where r2: "PFAT_Read (w_disks (world s) dv) f k I1 =
      Some (int (unat k), take (unat k) (drop (unat (filePos f)) (blocks_content (w_disks (world s) dv) bs)), I2)"
    using PFAT_Read_ok [OF assms(4) r1(2) assms(6-10)] by blast
  show ?thesis using assms(1-3) r1(1) r2 by (simp add: Read_def pfat_file_ops_def aget_eq_Some)
qed

text \<open>The file of the example, open, with nothing in its cache.\<close>

definition sample_pfat_file :: File where
  "sample_pfat_file = \<lparr>f_ops = s_pfatFileOps, filePos = 0, endPos = 600, f_fsData = 0, f_mode = O_READ, f_mountPoint = 0\<rparr>"

definition sample_pfat_open :: "fs_world vfs" where
  "sample_pfat_open = sample_pfat_vfs\<lparr>world := (world sample_pfat_vfs)\<lparr>p_insts := [sample_pfat\<lparr>p_fileList :=
     [\<lparr>pf_entry = Ent 0, numBlocks = 2, fileDataCache = replicate 1024 0, validBlockSet = [0]\<rparr>]\<rparr>]\<rparr>\<rparr>"

lemma pfat_read_repeats_witness:
  "\<forall>G. \<exists>xs s1 s2. Read (file_ops G (mount_of sample_pfat_open)) sample_pfat_file 4 sample_pfat_open = Some (4, xs, sample_pfat_file, s1) \<and>
    Read (file_ops G (mount_of sample_pfat_open)) sample_pfat_file 4 s1 = Some (4, xs, sample_pfat_file, s2)"
proof
  fix G
  let ?I = "sample_pfat\<lparr>p_fileList := [\<lparr>pf_entry = Ent 0, numBlocks = 2, fileDataCache = replicate 1024 0, validBlockSet = [0]\<rparr>]\<rparr>"
  have w: "mount_of sample_pfat_open 0 = Some (0, 0)" "p_insts (world sample_pfat_open) = [?I]" "w_disks (world sample_pfat_open) = (\<lambda>_. sample_sectors)"
    by (simp_all add: sample_pfat_open_def sample_pfat_vfs_def mount_of_def)
  have e: "entry_of ?I (Ent 0) = Some sample_entry" using sample_entry_of by (simp add: entry_of_def)
  have b: "file_blocks (p_fat ?I) (de_firstBlock sample_entry) (length [2 :: u32, 3]) = Some [2, 3]" by code_simp
  have "bits_of [0 :: u8] = {}" by (auto simp: bits_of_def bit_at_def)
  then have "pfat_file sample_sectors ?I 0 [2, 3]" using e b by (simp add: pfat_file_def cached_file_def)
  moreover have "disk_ok sample_sectors" by (simp add: disk_ok_def sample_sectors_def)
  ultimately show "\<exists>xs s1 s2. Read (file_ops G (mount_of sample_pfat_open)) sample_pfat_file 4 sample_pfat_open = Some (4, xs, sample_pfat_file, s1) \<and>
      Read (file_ops G (mount_of sample_pfat_open)) sample_pfat_file 4 s1 = Some (4, xs, sample_pfat_file, s2)"
    using pfat_read_repeats [of sample_pfat_file sample_pfat_open 0 0 ?I "[2, 3]" 4 G] w by (simp add: sample_pfat_file_def)
qed

end
