(* ===== verification/Elf.thy ===== *)
theory Elf
  imports Bytes
begin

text \<open>
  Executable files, \<open>geekos/elf.c\<close> and \<open>geekos/elf.h\<close>.  The file is the array of its bytes, the headers are
  read where the packed structures have their fields, and a header that does not lie in the file stops
  the machine.  The format structure is the caller's, with room for three segments.
\<close>

section \<open>Data\<close>

abbreviation (input) "EXE_MAX_SEGMENTS \<equiv> 3 :: nat"

record Exe_Segment =
  offsetInFile :: u32
  lengthInFile :: u32
  startAddress :: u32
  sizeInMemory :: u32
  protFlags :: u32

record Exe_Format =
  segmentList :: "Exe_Segment list"
  numSegments :: nat
  exe_entryAddr :: u32

definition get_half :: "u8 list \<Rightarrow> nat \<Rightarrow> u16 kres" where
  "get_half m p = map_option (\<lambda>bs. ucast (le_word bs)) (get_bytes m p 2)"

text \<open>The fields of \<open>elfHeader\<close> and \<open>programHeader\<close> that are used.\<close>

record elfHeader =
  e_entry :: u32
  phoff :: u32
  phentsize :: u16
  phnum :: u16

record programHeader =
  ph_offset :: u32
  ph_vaddr :: u32
  ph_fileSize :: u32
  ph_memSize :: u32
  ph_flags :: u32

definition read_elfHeader :: "u8 list \<Rightarrow> elfHeader kres" where
  "read_elfHeader m = do {
     e \<leftarrow> get_word m 24;
     off \<leftarrow> get_word m 28;
     sz \<leftarrow> get_half m 42;
     n \<leftarrow> get_half m 44;
     Some \<lparr>e_entry = e, phoff = off, phentsize = sz, phnum = n\<rparr> }"

definition read_programHeader :: "u8 list \<Rightarrow> nat \<Rightarrow> programHeader kres" where
  "read_programHeader m p = do {
     off \<leftarrow> get_word m (p + 4);
     va \<leftarrow> get_word m (p + 8);
     fs \<leftarrow> get_word m (p + 16);
     ms \<leftarrow> get_word m (p + 20);
     fl \<leftarrow> get_word m (p + 24);
     Some \<lparr>ph_offset = off, ph_vaddr = va, ph_fileSize = fs, ph_memSize = ms, ph_flags = fl\<rparr> }"

section \<open>Parsing\<close>

definition segment_of :: "programHeader \<Rightarrow> Exe_Segment" where
  "segment_of ph = \<lparr>offsetInFile = ph_offset ph, lengthInFile = ph_fileSize ph, startAddress = ph_vaddr ph,
     sizeInMemory = ph_memSize ph, protFlags = ph_flags ph\<rparr>"

fun parse_segments :: "u8 list \<Rightarrow> u16 \<Rightarrow> nat \<Rightarrow> nat \<Rightarrow> nat \<Rightarrow> Exe_Segment list \<Rightarrow> Exe_Segment list kres" where
  "parse_segments m sz p i 0 segs = Some segs"
| "parse_segments m sz p i (Suc n) segs = do {
     ph \<leftarrow> read_programHeader m p;
     segs \<leftarrow> aset segs i (segment_of ph);
     parse_segments m sz (p + unat sz) (Suc i) n segs }"

definition Parse_ELF_Executable :: "u8 list \<Rightarrow> Exe_Format \<Rightarrow> (int \<times> Exe_Format) kres" where
  "Parse_ELF_Executable exeFileData exeFormat = do {
     h \<leftarrow> read_elfHeader exeFileData;
     segs \<leftarrow> parse_segments exeFileData (phentsize h) (unat (phoff h)) 0 (unat (phnum h)) (segmentList exeFormat);
     Some (0, exeFormat\<lparr>segmentList := segs, numSegments := unat (phnum h), exe_entryAddr := e_entry h\<rparr>) }"

section \<open>Writing headers\<close>

definition le_half :: "u16 \<Rightarrow> u8 list" where
  "le_half w = [ucast w, ucast (drop_bit 8 w)]"

definition elf_header_bytes :: "u8 list \<Rightarrow> u8 list \<Rightarrow> u8 list \<Rightarrow> elfHeader \<Rightarrow> u8 list" where
  "elf_header_bytes idn mid rest h =
     idn @ le_bytes (e_entry h) @ le_bytes (phoff h) @ mid @ le_half (phentsize h) @ le_half (phnum h) @ rest"

definition program_header_bytes :: "u32 \<Rightarrow> u32 \<Rightarrow> u8 list \<Rightarrow> programHeader \<Rightarrow> u8 list" where
  "program_header_bytes ty pa rest ph = le_bytes ty @ le_bytes (ph_offset ph) @ le_bytes (ph_vaddr ph) @ le_bytes pa @
     le_bytes (ph_fileSize ph) @ le_bytes (ph_memSize ph) @ le_bytes (ph_flags ph) @ rest"

lemma get_word_at: "length as = p \<Longrightarrow> get_word (as @ le_bytes w @ bs) p = Some w"
  using get_word_app [of "le_bytes w" as bs] by simp

lemma le_half_word: "ucast (le_word (le_half w)) = w"
proof (rule bit_word_eqI)
  fix i assume i: "i < LENGTH(16)"
  then consider "i < 8" | "8 \<le> i" "i < 16" by fastforce
  then show "bit (ucast (le_word (le_half w)) :: u16) i = bit w i"
    unfolding le_half_def le_word.simps
    by cases (simp_all only: bit_or_iff bit_push_bit_iff bit_ucast_iff bit_drop_bit_eq o_def, auto)
qed

lemma length_le_half [simp]: "length (le_half w) = 2"
  by (simp add: le_half_def)

lemma get_half_at: "length as = p \<Longrightarrow> get_half (as @ le_half w @ bs) p = Some w"
  by (auto simp: get_half_def get_bytes_def le_half_word)

lemma read_elfHeader_ok:
  assumes "length idn = 24" "length mid = 10"
  shows "read_elfHeader (elf_header_bytes idn mid rest h) = Some h"
proof -
  let ?e = "le_bytes (e_entry h)" and ?o = "le_bytes (phoff h)" and ?s = "le_half (phentsize h)" and ?n = "le_half (phnum h)"
  have "get_word (idn @ ?e @ (?o @ mid @ ?s @ ?n @ rest)) 24 = Some (e_entry h)" by (rule get_word_at [OF assms(1)])
  moreover have "get_word ((idn @ ?e) @ ?o @ (mid @ ?s @ ?n @ rest)) 28 = Some (phoff h)" by (rule get_word_at) (simp add: assms)
  moreover have "get_half ((idn @ ?e @ ?o @ mid) @ ?s @ (?n @ rest)) 42 = Some (phentsize h)" by (rule get_half_at) (simp add: assms)
  moreover have "get_half ((idn @ ?e @ ?o @ mid @ ?s) @ ?n @ rest) 44 = Some (phnum h)" by (rule get_half_at) (simp add: assms)
  ultimately show ?thesis by (simp add: read_elfHeader_def elf_header_bytes_def)
qed

lemma read_programHeader_ok:
  assumes "length as = p"
  shows "read_programHeader (as @ program_header_bytes ty pa rest ph @ bs) p = Some ph"
proof -
  let ?w = le_bytes
  let ?t = "?w ty" and ?o = "?w (ph_offset ph)" and ?v = "?w (ph_vaddr ph)" and ?p = "?w pa" and ?s = "?w (ph_fileSize ph)"
    and ?m = "?w (ph_memSize ph)" and ?f = "?w (ph_flags ph)"
  have "get_word ((as @ ?t) @ ?o @ (?v @ ?p @ ?s @ ?m @ ?f @ rest @ bs)) (p + 4) = Some (ph_offset ph)"
    by (rule get_word_at) (simp add: assms)
  moreover have "get_word ((as @ ?t @ ?o) @ ?v @ (?p @ ?s @ ?m @ ?f @ rest @ bs)) (p + 8) = Some (ph_vaddr ph)"
    by (rule get_word_at) (simp add: assms)
  moreover have "get_word ((as @ ?t @ ?o @ ?v @ ?p) @ ?s @ (?m @ ?f @ rest @ bs)) (p + 16) = Some (ph_fileSize ph)"
    by (rule get_word_at) (simp add: assms)
  moreover have "get_word ((as @ ?t @ ?o @ ?v @ ?p @ ?s) @ ?m @ (?f @ rest @ bs)) (p + 20) = Some (ph_memSize ph)"
    by (rule get_word_at) (simp add: assms)
  moreover have "get_word ((as @ ?t @ ?o @ ?v @ ?p @ ?s @ ?m) @ ?f @ (rest @ bs)) (p + 24) = Some (ph_flags ph)"
    by (rule get_word_at) (simp add: assms)
  ultimately show ?thesis by (simp add: read_programHeader_def program_header_bytes_def)
qed

text \<open>A program header table: headers of the same size, one after the other.\<close>

definition header_table :: "(u32 \<times> u32 \<times> u8 list \<times> programHeader) list \<Rightarrow> u8 list" where
  "header_table hs = concat (List.map (\<lambda>(ty, pa, rest, ph). program_header_bytes ty pa rest ph) hs)"

abbreviation header_of :: "u32 \<times> u32 \<times> u8 list \<times> programHeader \<Rightarrow> programHeader" where
  "header_of h \<equiv> snd (snd (snd h))"

definition sized :: "nat \<Rightarrow> u32 \<times> u32 \<times> u8 list \<times> programHeader \<Rightarrow> bool" where
  "sized sz h \<longleftrightarrow> 28 + length (fst (snd (snd h))) = sz"

lemma parse_segments_ok:
  assumes "\<forall>h\<in>set hs. sized (unat sz) h" "length as = p" "i \<le> length segs"
  shows "parse_segments (as @ header_table hs @ bs) sz p i (length hs) segs =
    (if i + length hs \<le> length segs
     then Some (take i segs @ List.map (\<lambda>h. segment_of (header_of h)) hs @ drop (i + length hs) segs) else None)"
  using assms
proof (induction hs arbitrary: as p i segs)
  case (Cons h hs)
  obtain ty pa rest ph where h: "h = (ty, pa, rest, ph)" by (cases h)
  let ?b = "program_header_bytes ty pa rest ph"
  have lb: "length ?b = unat sz" using Cons.prems(1) by (simp add: program_header_bytes_def h sized_def)
  have tab: "as @ header_table (h # hs) @ bs = as @ ?b @ (header_table hs @ bs)"
    "as @ header_table (h # hs) @ bs = (as @ ?b) @ header_table hs @ bs"
    by (simp_all add: header_table_def h)
  have rd: "read_programHeader (as @ header_table (h # hs) @ bs) p = Some ph"
    unfolding tab(1) by (rule read_programHeader_ok [OF Cons.prems(2)])
  show ?case
  proof (cases "i < length segs")
    case False
    then show ?thesis using rd by (simp add: aset_def)
  next
    case True
    have "parse_segments ((as @ ?b) @ header_table hs @ bs) sz (p + unat sz) (Suc i) (length hs) (segs[i := segment_of ph]) =
        (if Suc i + length hs \<le> length (segs[i := segment_of ph])
         then Some (take (Suc i) (segs[i := segment_of ph]) @ List.map (\<lambda>h. segment_of (header_of h)) hs @
           drop (Suc i + length hs) (segs[i := segment_of ph])) else None)"
      by (rule Cons.IH) (use Cons.prems True lb in simp_all)
    then show ?thesis using rd True unfolding tab(2) [symmetric] by (simp add: h take_Suc_conv_app_nth)
  qed
qed (simp add: header_table_def)

section \<open>Properties\<close>

text \<open>Parsing an executable returns the program headers it was written with, up to three of them, in
  order and with the entry point; with a fourth header the parser writes past the segment list.\<close>

theorem parse_elf_segments:
  assumes "length idn = 24" "length mid = 10" "length (segmentList fmt) = EXE_MAX_SEGMENTS"
    and "\<forall>x\<in>set hs. sized (unat (phentsize h)) x" "length hs = unat (phnum h)" "unat (phoff h) = 46 + length gap"
  shows "Parse_ELF_Executable (elf_header_bytes idn mid (gap @ header_table hs @ bs) h) fmt =
    (if length hs \<le> EXE_MAX_SEGMENTS
     then Some (0, fmt\<lparr>segmentList := List.map (\<lambda>x. segment_of (header_of x)) hs @ drop (length hs) (segmentList fmt),
       numSegments := length hs, exe_entryAddr := e_entry h\<rparr>)
     else None)"
proof -
  let ?m = "elf_header_bytes idn mid (gap @ header_table hs @ bs) h"
  have m: "?m = (elf_header_bytes idn mid gap h) @ header_table hs @ bs"
    by (simp add: elf_header_bytes_def)
  have "length (elf_header_bytes idn mid gap h) = unat (phoff h)" using assms(1,2,6) by (simp add: elf_header_bytes_def)
  from parse_segments_ok [OF assms(4) this, of 0 "segmentList fmt" bs] assms(3)
  have p: "parse_segments ?m (phentsize h) (unat (phoff h)) 0 (unat (phnum h)) (segmentList fmt) =
      (if length hs \<le> 3 then Some (List.map (\<lambda>h. segment_of (header_of h)) hs @ drop (length hs) (segmentList fmt)) else None)"
    by (simp add: m assms(5))
  show ?thesis using read_elfHeader_ok [OF assms(1,2)] p assms(5) by (simp add: Parse_ELF_Executable_def)
qed

definition sample_format :: Exe_Format where
  "sample_format = \<lparr>segmentList = replicate 3 \<lparr>offsetInFile = 0, lengthInFile = 0, startAddress = 0, sizeInMemory = 0, protFlags = 0\<rparr>,
     numSegments = 0, exe_entryAddr = 0\<rparr>"

definition sample_header :: programHeader where
  "sample_header = \<lparr>ph_offset = 0x1000, ph_vaddr = 0x1000, ph_fileSize = 0x234, ph_memSize = 0x234, ph_flags = 5\<rparr>"

lemma parse_elf_segments_witness:
  "Parse_ELF_Executable (elf_header_bytes (replicate 24 0) (replicate 10 0)
      (replicate 6 0 @ header_table [(1, 0, replicate 4 0, sample_header)] @ [])
      \<lparr>e_entry = 0x1000, phoff = 52, phentsize = 32, phnum = 1\<rparr>) sample_format =
    Some (0, sample_format\<lparr>segmentList := segment_of sample_header # drop 1 (segmentList sample_format),
      numSegments := 1, exe_entryAddr := 0x1000\<rparr>)"
  using parse_elf_segments [of "replicate 24 0" "replicate 10 0" sample_format "[(1, 0, replicate 4 0, sample_header)]"
      "\<lparr>e_entry = 0x1000, phoff = 52, phentsize = 32, phnum = 1\<rparr>" "replicate 6 0" "[]"]
  by (simp add: sample_format_def sized_def)

end
