(* ===== verification/UserVM.thy ===== *)
theory UserVM
  imports Elf ArgBlock Synch Segment Vfs
begin

text \<open>
  User address spaces, \<open>geekos/uservm.c\<close>: loading a program into a new address space and destroying one.
  Page directories and page tables are words of physical memory, as in \<open>Paging\<close>; the bytes of an executable
  are copied into its frames.

  \<open>img i\<close> is byte \<open>i\<close> of memory from the buffer with the executable on: whole pages are copied, so the last
  copy of a segment may read past the buffer.
\<close>

section \<open>Physical memory as bytes\<close>

definition phys_byte :: "vm_state \<Rightarrow> nat \<Rightarrow> u8" where
  "phys_byte s a = le_bytes (phys s (a div 4)) ! (a mod 4)"

definition put_phys :: "nat \<Rightarrow> u8 list \<Rightarrow> vm_state \<Rightarrow> vm_state" where
  "put_phys a bs s = s\<lparr>phys := (\<lambda>w. if a < 4 * w + 4 \<and> 4 * w < a + length bs
     then le_word (List.map (\<lambda>i. if a \<le> 4 * w + i \<and> 4 * w + i < a + length bs then bs ! (4 * w + i - a) else phys_byte s (4 * w + i)) [0, 1, 2, 3])
     else phys s w)\<rparr>"

abbreviation (input) "DEFAULT_USER_STACK_SIZE \<equiv> 4096 :: u32"
abbreviation (input) "END_OF_VM \<equiv> 0xFFFFFFFF :: u32"
abbreviation (input) "USER_BASE \<equiv> 0x80000000 :: u32"
abbreviation (input) "NUM_PAGE_DIR_ENTRIES \<equiv> 1024 :: nat"
abbreviation (input) "USER_FILES \<equiv> 10 :: nat"
abbreviation (input) "NSIG \<equiv> 5 :: nat"

section \<open>Segments\<close>

text \<open>One page of a segment: the frame, its contents, its entry.  The rest of the last page is cleared from
  the end of the segment's data on.\<close>

definition end_of_data :: "Exe_Segment \<Rightarrow> nat" where
  "end_of_data seg = unat ((startAddress seg mod 4096 + lengthInFile seg) mod 4096)"

definition load_page ::
  "(nat \<Rightarrow> bool) \<Rightarrow> (nat \<Rightarrow> vm_state \<Rightarrow> vm_state) \<Rightarrow> (nat \<Rightarrow> u8) \<Rightarrow> Exe_Segment \<Rightarrow> nat \<Rightarrow> u32 \<Rightarrow> nat \<Rightarrow> vm_state \<Rightarrow> vm_state kres" where
  "load_page io_ok env img seg j pte k s = do {
     let off = PAGE_ADDR_BY_IDX (of_nat j) (of_nat k);
     let e = pte + 4 * of_nat k;
     (paddr, s) \<leftarrow> Alloc_Pageable_Page io_ok env e (PAGE_ADDR (USER_BASE + startAddress seg + off)) s;
     let s = set_base e (PAGE_ALLIGNED_ADDR paddr) s;
     let src = unat (PAGE_ADDR (offsetInFile seg + off));
     let s = put_phys (unat paddr) (List.map (\<lambda>i. img (src + i)) [0..<4096]) s;
     let s = (if k = PAGE_TABLE_INDEX (lengthInFile seg)
              then put_phys (unat paddr + end_of_data seg) (replicate (4096 - end_of_data seg) 0) s else s);
     Some (set_pflags e (VM_USER OR VM_WRITE) (set_present e 1 s)) }"

fun load_pages ::
  "(nat \<Rightarrow> bool) \<Rightarrow> (nat \<Rightarrow> vm_state \<Rightarrow> vm_state) \<Rightarrow> (nat \<Rightarrow> u8) \<Rightarrow> Exe_Segment \<Rightarrow> nat \<Rightarrow> u32 \<Rightarrow> nat \<Rightarrow> nat \<Rightarrow> vm_state \<Rightarrow> vm_state kres" where
  "load_pages io_ok env img seg j pte k 0 s = Some s"
| "load_pages io_ok env img seg j pte k (Suc n) s = do {
     s \<leftarrow> load_page io_ok env img seg j pte k s;
     load_pages io_ok env img seg j pte (Suc k) n s }"

text \<open>The page table of a directory entry, a new one if it has none.\<close>

definition segment_table :: "u32 \<Rightarrow> vm_state \<Rightarrow> (u32 \<times> vm_state) kres" where
  "segment_table pde s = do {
     (base_pte, s) \<leftarrow>
       (if pte_base (rd32 s pde) = 0 then do { (p, s) \<leftarrow> Alloc_Page s; Some (p, clear_frame p s) }
        else Some (push_bit 12 (pte_base (rd32 s pde)), s));
     let s = set_base pde (PAGE_ALLIGNED_ADDR base_pte) s;
     let s = set_present pde 1 s;
     Some (base_pte, set_pflags pde (VM_USER OR VM_WRITE) s) }"

fun load_tables ::
  "(nat \<Rightarrow> bool) \<Rightarrow> (nat \<Rightarrow> vm_state \<Rightarrow> vm_state) \<Rightarrow> (nat \<Rightarrow> u8) \<Rightarrow> Exe_Segment \<Rightarrow> u32 \<Rightarrow> nat \<Rightarrow> nat \<Rightarrow> vm_state \<Rightarrow> vm_state kres" where
  "load_tables io_ok env img seg base_pde j 0 s = Some s"
| "load_tables io_ok env img seg base_pde j (Suc n) s = do {
     let start = USER_BASE + startAddress seg;
     (base_pte, s) \<leftarrow> segment_table (base_pde + 4 * of_nat (PAGE_DIRECTORY_INDEX start + j)) s;
     s \<leftarrow> load_pages io_ok env img seg j (base_pte + 4 * of_nat (PAGE_TABLE_INDEX start)) 0 (PAGE_TABLE_INDEX (lengthInFile seg) + 1) s;
     load_tables io_ok env img seg base_pde (Suc j) n s }"

fun load_segments ::
  "(nat \<Rightarrow> bool) \<Rightarrow> (nat \<Rightarrow> vm_state \<Rightarrow> vm_state) \<Rightarrow> (nat \<Rightarrow> u8) \<Rightarrow> Exe_Segment list \<Rightarrow> u32 \<Rightarrow> nat \<Rightarrow> nat \<Rightarrow> vm_state \<Rightarrow> vm_state kres" where
  "load_segments io_ok env img segs base_pde i 0 s = Some s"
| "load_segments io_ok env img segs base_pde i (Suc n) s = do {
     seg \<leftarrow> aget segs i;
     s \<leftarrow> load_tables io_ok env img seg base_pde 0 (PAGE_DIRECTORY_INDEX (lengthInFile seg) + 1) s;
     load_segments io_ok env img segs base_pde (Suc i) n s }"

section \<open>The stack\<close>

fun stack_pages ::
  "(nat \<Rightarrow> bool) \<Rightarrow> (nat \<Rightarrow> vm_state \<Rightarrow> vm_state) \<Rightarrow> nat \<Rightarrow> u32 \<Rightarrow> nat \<Rightarrow> nat \<Rightarrow> u32 \<Rightarrow> vm_state \<Rightarrow> (u32 \<times> vm_state) kres" where
  "stack_pages io_ok env j pte k 0 paddr s = Some (paddr, s)"
| "stack_pages io_ok env j pte k (Suc n) paddr s = do {
     let e = pte + 4 * of_nat k;
     (paddr, s) \<leftarrow> Alloc_Pageable_Page io_ok env e (PAGE_ADDR_BY_IDX (of_nat j) (of_nat k)) s;
     let s = set_base e (PAGE_ALLIGNED_ADDR paddr) s;
     let s = set_present e 1 s;
     stack_pages io_ok env j pte (Suc k) n paddr (set_pflags e (VM_USER OR VM_WRITE) s) }"

definition load_stack ::
  "(nat \<Rightarrow> bool) \<Rightarrow> (nat \<Rightarrow> vm_state \<Rightarrow> vm_state) \<Rightarrow> u32 \<Rightarrow> u32 \<Rightarrow> vm_state \<Rightarrow> (u32 \<times> vm_state) kres" where
  "load_stack io_ok env base_pde argBlockSize s = do {
     let j = PAGE_DIRECTORY_INDEX (PAGE_ADDR END_OF_VM);
     let pde = base_pde + 4 * of_nat j;
     (pte, s) \<leftarrow> Alloc_Page s;
     let s = clear_frame pte s;
     let s = set_base pde (PAGE_ALLIGNED_ADDR pte) s;
     let s = set_present pde 1 s;
     let s = set_pflags pde (VM_USER OR VM_WRITE) s;
     let n = PAGE_TABLE_INDEX (DEFAULT_USER_STACK_SIZE + argBlockSize) + 1;
     stack_pages io_ok env j pte (NUM_PAGE_TABLE_ENTRIES - n) n 0 s }"

section \<open>The address space\<close>

text \<open>The kernel's half of the directory in use.\<close>

definition copy_kernel_half :: "u32 \<Rightarrow> u32 \<Rightarrow> vm_state \<Rightarrow> vm_state" where
  "copy_kernel_half pdbr pde s = s\<lparr>phys := (\<lambda>w. if unat pde div 4 \<le> w \<and> w < unat pde div 4 + 512
     then phys s (unat pdbr div 4 + (w - unat pde div 4)) else phys s w)\<rparr>"

definition frame_bytes :: "vm_state \<Rightarrow> u32 \<Rightarrow> u8 list" where
  "frame_bytes s paddr = List.map (\<lambda>i. phys_byte s (unat paddr + i)) [0..<4096]"

definition load_image ::
  "(nat \<Rightarrow> bool) \<Rightarrow> (nat \<Rightarrow> vm_state \<Rightarrow> vm_state) \<Rightarrow> u32 \<Rightarrow> (nat \<Rightarrow> u8) \<Rightarrow> Exe_Format \<Rightarrow> u8 list \<Rightarrow> vm_state \<Rightarrow> (u32 \<times> vm_state) kres" where
  "load_image io_ok env pdbr img fmt command s = do {
     (numArgs, argBlockSize) \<leftarrow> Get_Argument_Block_Size command;
     (base_pde, s) \<leftarrow> Alloc_Page s;
     let s = copy_kernel_half pdbr base_pde (clear_frame base_pde s);
     s \<leftarrow> load_segments io_ok env img (segmentList fmt) base_pde 0 (numSegments fmt) s;
     (paddr, s) \<leftarrow> load_stack io_ok env base_pde argBlockSize s;
     blk \<leftarrow> Format_Argument_Block (frame_bytes s paddr) numArgs (PAGE_ADDR END_OF_VM - USER_BASE) command;
     Some (base_pde, put_phys (unat paddr) blk s) }"

section \<open>The user context\<close>

text \<open>The fields of \<open>struct User_Context\<close> that \<open>KThread\<close> and \<open>Synch\<close> do not have.\<close>

record context_ext =
  cx_ldt :: "Segment_Descriptor list"
  cx_ldtDescriptor :: nat
  cx_ldtSelector :: u16
  cx_pageDir :: u32
  cx_fileList :: "u32 list"
  cx_pwd :: path
  cx_signal :: u32
  cx_saHandler :: "u32 list"

record proc_state =
  py :: sync
  pg :: gdt
  px :: "u32 \<Rightarrow> context_ext"

abbreviation pk :: "proc_state \<Rightarrow> kstate" where
  "pk s \<equiv> ks (py s)"

definition set_pk :: "kstate \<Rightarrow> proc_state \<Rightarrow> proc_state" where
  "set_pk k s = s\<lparr>py := (py s)\<lparr>ks := k\<rparr>\<rparr>"

definition call_gdt :: "(gdt \<Rightarrow> ('r \<times> gdt) kres) \<Rightarrow> proc_state \<Rightarrow> ('r \<times> proc_state) kres" where
  "call_gdt f s = do {
     (r, g) \<leftarrow> f ((pg s)\<lparr>int_flag := int_flag (pk s)\<rparr>);
     Some (r, set_pk ((pk s)\<lparr>int_flag := int_flag g\<rparr>) (s\<lparr>pg := g\<rparr>)) }"

text \<open>\<open>memset(a, 0, n)\<close> on an array of words: \<open>n\<close> counts bytes.\<close>

definition clear_bytes :: "nat \<Rightarrow> u32 list \<Rightarrow> u32 list" where
  "clear_bytes n ws = List.map (\<lambda>(i, w). if 4 * i + 4 \<le> n then 0
     else if 4 * i < n then w AND NOT (mask (8 * (n - 4 * i))) else w) (List.enumerate 0 ws)"

text \<open>The largest end of a segment.\<close>

fun max_va :: "Exe_Segment list \<Rightarrow> nat \<Rightarrow> nat \<Rightarrow> u32 \<Rightarrow> u32 kres" where
  "max_va segs i 0 m = Some m"
| "max_va segs i (Suc n) m = do {
     seg \<leftarrow> aget segs i;
     let topva = startAddress seg + sizeInMemory seg;
     max_va segs (Suc i) n (if topva > m then topva else m) }"

text \<open>\<open>c\<close> is the address of the new object; \<open>raw\<close>, \<open>rawx\<close> and \<open>sems\<close> are what its memory holds.  The counts
  given to \<open>memset\<close> are numbers of entries, so only their first bytes are cleared.\<close>

definition init_context ::
  "u32 \<Rightarrow> u32 \<Rightarrow> u32 \<Rightarrow> path \<Rightarrow> Exe_Format \<Rightarrow> user_context \<Rightarrow> context_ext \<Rightarrow> u32 list \<Rightarrow> proc_state \<Rightarrow> proc_state kres" where
  "init_context c base_pde virtSize cwd fmt raw rawx rawsems s = do {
     let sp = PAGE_ADDR END_OF_VM - USER_BASE;
     (d, s) \<leftarrow> call_gdt Allocate_Segment_Descriptor s;
     desc \<leftarrow> d;
     g \<leftarrow> aget (s_GDT (pg s)) desc;
     gs \<leftarrow> aset (s_GDT (pg s)) desc (Init_LDT_Descriptor c 2 g);
     let s = s\<lparr>pg := (pg s)\<lparr>s_GDT := gs\<rparr>\<rparr>;
     d0 \<leftarrow> aget (cx_ldt rawx) 0;
     d0 \<leftarrow> Init_Code_Segment_Descriptor USER_BASE (USER_BASE div 4096) 3 d0;
     d1 \<leftarrow> aget (cx_ldt rawx) 1;
     d1 \<leftarrow> Init_Data_Segment_Descriptor USER_BASE (USER_BASE div 4096) 3 d1;
     let u = raw\<lparr>uc_size := virtSize, entryAddr := exe_entryAddr fmt, stackPointerAddr := sp, argBlockAddr := sp, uc_refCount := 0,
       csSelector := Selector 3 False 0, dsSelector := Selector 3 False 1\<rparr>;
     let x = rawx\<lparr>cx_ldt := (cx_ldt rawx)[0 := d0, 1 := d1], cx_ldtDescriptor := desc,
       cx_ldtSelector := Selector 0 True (Get_Descriptor_Index desc), cx_pageDir := base_pde,
       cx_fileList := clear_bytes USER_FILES (cx_fileList rawx),
       cx_pwd := cwd, cx_signal := 0, cx_saHandler := clear_bytes (4 * NSIG) (cx_saHandler rawx)\<rparr>;
     let s = set_pk ((pk s)\<lparr>uctx := (uctx (pk s))(c := u)\<rparr>) s;
     let s = s\<lparr>py := (py s)\<lparr>usems := (usems (py s))(c := clear_bytes USER_FILES rawsems)\<rparr>\<rparr>;
     Some (s\<lparr>px := (px s)(c := x)\<rparr>) }"

text \<open>For a thread without a context this is what memory holds at the field's offset from address 0.\<close>

definition Get_Cwd :: "proc_state \<Rightarrow> path" where
  "Get_Cwd s = cx_pwd (px s (userContext (thr (pk s) (g_currentThread (pk s)))))"

definition Load_User_Program ::
  "(nat \<Rightarrow> bool) \<Rightarrow> (nat \<Rightarrow> vm_state \<Rightarrow> vm_state) \<Rightarrow> u32 \<Rightarrow> (nat \<Rightarrow> u8) \<Rightarrow> Exe_Format \<Rightarrow> u8 list \<Rightarrow> u32 \<Rightarrow> user_context \<Rightarrow> context_ext \<Rightarrow>
    u32 list \<Rightarrow> proc_state \<Rightarrow> (int \<times> u32 \<times> proc_state) kres" where
  "Load_User_Program io_ok env pdbr img fmt command malloc raw rawx rawsems s = do {
     maxva \<leftarrow> max_va (segmentList fmt) 0 (numSegments fmt) 0;
     (base_pde, k) \<leftarrow> call_vm (load_image io_ok env pdbr img fmt command) (pk s);
     let s = set_pk k s;
     KASSERT (malloc \<noteq> 0);
     s \<leftarrow> init_context malloc base_pde (Round_Up_To_Page maxva) (Get_Cwd s) fmt raw rawx rawsems s;
     Some (0, malloc, s) }"

section \<open>Destroying an address space\<close>

definition free_entry :: "u32 \<Rightarrow> nat \<Rightarrow> vm_state \<Rightarrow> vm_state kres" where
  "free_entry pte j s = do {
     s \<leftarrow> Disable_Interrupts s;
     let w = rd32 s (pte + 4 * of_nat j);
     s \<leftarrow> (if pte_present w = 0 \<and> pte_kernelInfo w = KINFO_PAGE_ON_DISK then Free_Space_On_Paging_File (unat (pte_base w)) s
       else if pte_present w = 1 then Free_Page (push_bit 12 (pte_base w)) s
       else Some s);
     Enable_Interrupts s }"

fun free_entries :: "u32 \<Rightarrow> nat \<Rightarrow> nat \<Rightarrow> vm_state \<Rightarrow> vm_state kres" where
  "free_entries pte j 0 s = Some s"
| "free_entries pte j (Suc n) s = do { s \<leftarrow> free_entry pte j s; free_entries pte (Suc j) n s }"

fun free_tables :: "u32 \<Rightarrow> nat \<Rightarrow> nat \<Rightarrow> vm_state \<Rightarrow> vm_state kres" where
  "free_tables pde i 0 s = Some s"
| "free_tables pde i (Suc n) s = do {
     let b = pte_base (rd32 s (pde + 4 * of_nat i));
     s \<leftarrow> (if b = 0 then Some s
       else do {
         s \<leftarrow> free_entries (push_bit 12 b) 0 NUM_PAGE_TABLE_ENTRIES s;
         Free_Page (push_bit 12 b) s });
     free_tables pde (Suc i) n s }"

definition free_image :: "u32 \<Rightarrow> vm_state \<Rightarrow> vm_state kres" where
  "free_image pde s = do {
     let i = PAGE_DIRECTORY_INDEX USER_BASE;
     s \<leftarrow> free_tables pde i (NUM_PAGE_DIR_ENTRIES - i) s;
     Free_Page pde s }"

text \<open>The semaphores are those of the context being destroyed, the table that \<open>Destroy_Semaphore\<close> updates is the
  running thread's.\<close>

fun destroy_semaphores :: "u32 list \<Rightarrow> sync \<Rightarrow> sync kres" where
  "destroy_semaphores [] s = Some s"
| "destroy_semaphores (sid # sids) s = do { (_, s) \<leftarrow> Destroy_Semaphore sid s; destroy_semaphores sids s }"

definition Destroy_User_Context :: "u32 \<Rightarrow> proc_state \<Rightarrow> proc_state kres" where
  "Destroy_User_Context c s = do {
     (_, k) \<leftarrow> call_vm (\<lambda>v. map_option (Pair ()) (free_image (cx_pageDir (px s c)) v)) (pk s);
     let s = set_pk k s;
     y \<leftarrow> destroy_semaphores (usems (py s) c) (py s);
     let s = s\<lparr>py := y\<rparr>;
     (_, s) \<leftarrow> call_gdt (\<lambda>g. map_option (Pair ()) (Free_Segment_Descriptor (cx_ldtDescriptor (px s c)) g)) s;
     Some s }"

section \<open>Running in a context\<close>

text \<open>What the processor's registers are loaded with.\<close>

definition Switch_To_Address_Space :: "u32 \<Rightarrow> proc_state \<Rightarrow> u16 \<times> u32" where
  "Switch_To_Address_Space c s = (cx_ldtSelector (px s c), cx_pageDir (px s c))"

definition Switch_To_User_Context :: "u32 \<Rightarrow> proc_state \<Rightarrow> ((u16 \<times> u32) option \<times> proc_state) kres" where
  "Switch_To_User_Context t s = do {
     let c = userContext (thr (pk s) t);
     if c = 0 then Some (None, s)
     else do {
       (_, s) \<leftarrow> call_gdt (Set_Kernel_Stack_Pointer (stackPage (thr (pk s) t) + 4096)) s;
       Some (Some (Switch_To_Address_Space c s), s) } }"

end
