(* ===== verification/UserImage.thy ===== *)
theory UserImage
  imports UserVM
begin

text \<open>
  What loading a program builds: an address space whose user half maps the pages of the segments, the stack
  and the argument block to frames of their own, and whose kernel half is the one of the directory in use.
  \<open>aspace s Q M B\<close> says so of the directory in frame \<open>Q\<close>: page \<open>v\<close> of the user half lies in frame \<open>M v\<close>
  and has the bytes \<open>B v\<close>.  Destroying the address space gives back exactly the frames it was made of.
\<close>

section \<open>Bytes of physical memory\<close>

lemma put_phys_frame [simp]:
  "pageList (put_phys a bs s) = pageList s" "freeList (put_phys a bs s) = freeList s"
  "int_flag (put_phys a bs s) = int_flag s" "g_freePageCount (put_phys a bs s) = g_freePageCount s"
  by (simp_all add: put_phys_def)

lemma put_phys_other: "4 * w + 4 \<le> a \<or> a + length bs \<le> 4 * w \<Longrightarrow> phys (put_phys a bs s) w = phys s w"
  by (auto simp: put_phys_def)

lemma phys_byte_put:
  "phys_byte (put_phys a bs s) b = (if a \<le> b \<and> b < a + length bs then bs ! (b - a) else phys_byte s b)"
proof -
  define w i where "w = b div 4" and "i = b mod 4"
  have b: "b = 4 * w + i" "i < 4" by (simp_all add: w_def i_def)
  show ?thesis
  proof (cases "a < 4 * w + 4 \<and> 4 * w < a + length bs")
    case True
    let ?f = "\<lambda>i. if a \<le> 4 * w + i \<and> 4 * w + i < a + length bs then bs ! (4 * w + i - a) else phys_byte s (4 * w + i)"
    have "i \<in> {0, 1, 2, 3}" using b(2) by auto
    then have "List.map ?f [0, 1, 2, 3] ! i = ?f i" by (elim insertE emptyE) simp_all
    moreover have "phys_byte (put_phys a bs s) b = List.map ?f [0, 1, 2, 3] ! i"
      using True le_bytes_le_word [of "List.map ?f [0, 1, 2, 3]"]
      by (simp add: phys_byte_def w_def [symmetric] i_def [symmetric] put_phys_def)
    ultimately show ?thesis unfolding b(1) by simp
  next
    case False
    then have "\<not> (a \<le> b \<and> b < a + length bs)" using b by auto
    then show ?thesis using False put_phys_other [of w a bs s] by (auto simp: phys_byte_def w_def)
  qed
qed

lemma phys_byte_frame:
  assumes "o' < 4096"
  shows "phys_byte s (f * 4096 + o') = le_bytes (phys s (f * 1024 + o' div 4)) ! (o' mod 4)"
proof -
  have "(f * 4096 + o') div 4 = f * 1024 + o' div 4" "(f * 4096 + o') mod 4 = o' mod 4"
    using div_mult_self1 [of 4 o' "f * 1024"] mod_mult_self1 [of o' "f * 1024" 4] by (simp_all add: mult.assoc add.commute)
  then show ?thesis by (simp add: phys_byte_def)
qed

lemma same_frame_bytes:
  assumes "\<forall>k < 1024. phys s' (f * 1024 + k) = phys s (f * 1024 + k)" "o' < 4096"
  shows "phys_byte s' (f * 4096 + o') = phys_byte s (f * 4096 + o')"
proof -
  have "o' div 4 < 1024" using assms(2) by simp
  with assms show ?thesis by (simp add: phys_byte_frame)
qed

section \<open>Address spaces\<close>

definition frame_used :: "vm_state \<Rightarrow> nat \<Rightarrow> bool" where
  "frame_used s f \<longleftrightarrow> 0 < f \<and> f < length (pageList s) \<and> has_flag PAGE_ALLOCATED (pageList s ! f) \<and> \<not> has_flag PAGE_LOCKED (pageList s ! f)"

definition entry_maps :: "vm_state \<Rightarrow> nat \<Rightarrow> nat \<Rightarrow> nat \<Rightarrow> nat option \<Rightarrow> bool" where
  "entry_maps s Q d k m = (let w = phys s (table_of s Q d * 1024 + k) in
     (case m of None \<Rightarrow> table_of s Q d \<noteq> 0 \<longrightarrow> pte_present w = 0 \<and> pte_kernelInfo w \<noteq> 4
      | Some f \<Rightarrow> table_of s Q d \<noteq> 0 \<and> pte_present w = 1 \<and> pte_base w = of_nat f))"

definition user_table :: "vm_state \<Rightarrow> nat \<Rightarrow> nat \<Rightarrow> bool" where
  "user_table s Q d \<longleftrightarrow> 512 \<le> d \<and> d < 1024 \<and> table_of s Q d \<noteq> 0"

definition aspace :: "vm_state \<Rightarrow> nat \<Rightarrow> (nat \<rightharpoonup> nat) \<Rightarrow> (nat \<Rightarrow> nat \<Rightarrow> u8) \<Rightarrow> bool" where
  "aspace s Q M B \<longleftrightarrow> pdir_ok s Q \<and> mem_ok s \<and> frame_used s Q \<and>
     (\<forall>d. user_table s Q d \<longrightarrow> frame_used s (table_of s Q d)) \<and>
     (\<forall>d k. 512 \<le> d \<and> d < 1024 \<and> k < 1024 \<longrightarrow> entry_maps s Q d k (M (d * 1024 + k))) \<and>
     (\<forall>v f. M v = Some f \<longrightarrow> 2 ^ 19 \<le> v \<and> v < 2 ^ 20 \<and> frame_used s f \<and> f \<noteq> Q \<and> (\<forall>d < 1024. table_of s Q d \<noteq> f) \<and>
        (\<forall>o' < 4096. phys_byte s (f * 4096 + o') = B v o')) \<and>
     inj_on M (dom M)"

text \<open>The frames of an address space, and these together with the free ones.\<close>

definition owned :: "vm_state \<Rightarrow> nat \<Rightarrow> (nat \<rightharpoonup> nat) \<Rightarrow> nat set" where
  "owned s Q M = {Q} \<union> table_of s Q ` {d. user_table s Q d} \<union> ran M"

definition all_frames :: "vm_state \<Rightarrow> nat \<Rightarrow> (nat \<rightharpoonup> nat) \<Rightarrow> nat set" where
  "all_frames s Q M = set (freeList s) \<union> owned s Q M"

text \<open>The kernel's half of the directory, with its tables.\<close>

definition same_kernel :: "vm_state \<Rightarrow> vm_state \<Rightarrow> nat \<Rightarrow> bool" where
  "same_kernel s s' Q \<longleftrightarrow> (\<forall>d < 512. pde_word s' Q d = pde_word s Q d \<and>
     (table_of s Q d \<noteq> 0 \<longrightarrow> (\<forall>k < 1024. phys s' (table_of s Q d * 1024 + k) = phys s (table_of s Q d * 1024 + k))))"

lemma same_kernel_refl: "same_kernel s s Q"
  by (simp add: same_kernel_def)

lemma same_kernel_trans: "same_kernel s s' Q \<Longrightarrow> same_kernel s' s'' Q \<Longrightarrow> same_kernel s s'' Q"
  by (simp add: same_kernel_def table_of_def)

lemma same_kernel_mmu:
  assumes "same_kernel s s' Q" "pdir_ok s Q" "PAGE_DIRECTORY_INDEX va < 512"
  shows "mmu_frame s' (Get_Page_Address Q) va = mmu_frame s (Get_Page_Address Q) va"
proof -
  have Q: "Q < 2 ^ 20" using assms(2) by (simp add: pdir_ok_def)
  have w: "pde_word s' Q (PAGE_DIRECTORY_INDEX va) = pde_word s Q (PAGE_DIRECTORY_INDEX va)" using assms(1,3) by (simp add: same_kernel_def)
  then have "table_of s' Q (PAGE_DIRECTORY_INDEX va) = table_of s Q (PAGE_DIRECTORY_INDEX va)" by (simp add: table_of_def)
  then show ?thesis using w assms PTI_lt [of va] PDI_lt [of va]
    by (simp add: mmu_frame_words [OF Q] same_kernel_def pdir_ok_def)
qed

lemma used_not_free: "mem_ok s \<Longrightarrow> frame_used s f \<Longrightarrow> f \<notin> set (freeList s)"
  using mem_okD [of s f] by (auto simp: frame_used_def on_freelist_ok_def)

lemma used_small: "mem_ok s \<Longrightarrow> frame_used s f \<Longrightarrow> f < 2 ^ 20"
  by (auto simp: frame_used_def mem_ok_def)

lemma aspaceD:
  assumes "aspace s Q M B"
  shows "pdir_ok s Q" "mem_ok s" "frame_used s Q" "Q < 2 ^ 20"
    "user_table s Q d \<Longrightarrow> frame_used s (table_of s Q d)"
    "512 \<le> d \<Longrightarrow> d < 1024 \<Longrightarrow> k < 1024 \<Longrightarrow> entry_maps s Q d k (M (d * 1024 + k))"
    "M v = Some f \<Longrightarrow> frame_used s f" "M v = Some f \<Longrightarrow> f \<noteq> Q" "M v = Some f \<Longrightarrow> c < 1024 \<Longrightarrow> table_of s Q c \<noteq> f"
    "M v = Some f \<Longrightarrow> o' < 4096 \<Longrightarrow> phys_byte s (f * 4096 + o') = B v o'" "M v = Some f \<Longrightarrow> 2 ^ 19 \<le> v \<and> v < 2 ^ 20"
    "inj_on M (dom M)"
  using assms by (auto simp: aspace_def pdir_ok_def)

lemma pdir_okD:
  assumes "pdir_ok s Q" "d < 1024"
  shows "table_of s Q d \<noteq> 0 \<Longrightarrow> table_of s Q d \<notin> set (freeList s)" "table_of s Q d \<noteq> 0 \<Longrightarrow> table_of s Q d \<noteq> Q"
    "table_of s Q d \<noteq> 0 \<Longrightarrow> d' < 1024 \<Longrightarrow> table_of s Q d = table_of s Q d' \<Longrightarrow> d = d'"
    "pte_present (pde_word s Q d) = 0 \<longleftrightarrow> table_of s Q d = 0"
  using assms by (auto simp: pdir_ok_def)

text \<open>A new page: frame \<open>j\<close> is taken from the list of free frames and entered at entry \<open>k\<close> of the table of \<open>d\<close>.\<close>

lemma aspace_new_page:
  assumes a: "aspace s Q M B" and d: "user_table s Q d" "k < 1024" and v: "v = d * 1024 + k" "M v = None"
    and free: "freeList s = j # q" "freeList s' = q" and mem: "mem_ok s'"
    and pages: "length (pageList s') = length (pageList s)" "\<forall>f. f \<noteq> j \<longrightarrow> pageList s' ! f = pageList s ! f" "frame_used s' j"
    and ph: "\<forall>x. x \<noteq> table_of s Q d * 1024 + k \<longrightarrow> \<not> (j * 1024 \<le> x \<and> x < j * 1024 + 1024) \<longrightarrow> phys s' x = phys s x"
    and e: "pte_present (phys s' (table_of s Q d * 1024 + k)) = 1" "pte_base (phys s' (table_of s Q d * 1024 + k)) = of_nat j"
    and c: "\<forall>o' < 4096. phys_byte s' (j * 4096 + o') = C o'"
  shows "aspace s' Q (M(v \<mapsto> j)) (B(v := C))" "same_kernel s s' Q" "all_frames s' Q (M(v \<mapsto> j)) = all_frames s Q M"
    "\<forall>c < 1024. table_of s' Q c = table_of s Q c"
proof -
  note A = aspaceD [OF a]
  let ?T = "table_of s Q d"
  have T: "?T \<noteq> 0" "d < 1024" "512 \<le> d" using d by (simp_all add: user_table_def)
  have jf: "j \<in> set (freeList s)" using free by simp
  have jQ: "j \<noteq> Q" using jf used_not_free [OF A(2,3)] by auto
  have jt: "table_of s Q c \<noteq> j" if "c < 1024" for c
    using that jf pdir_okD(1) [OF A(1) that] mem_okD(1) [OF A(2) jf] by auto
  have jM: "f \<noteq> j" if "M x = Some f" for x f using used_not_free [OF A(2) A(7) [OF that]] jf by auto
  have word: "phys s' (f * 1024 + x) = phys s (f * 1024 + x)" if "f \<noteq> j" "x < 1024" "f \<noteq> ?T \<or> x \<noteq> k" for f x
  proof -
    have "f * 1024 + x \<noteq> ?T * 1024 + k" using that word_idx_inj [OF that(2) d(2), of f ?T] by auto
    moreover have "\<not> (j * 1024 \<le> f * 1024 + x \<and> f * 1024 + x < j * 1024 + 1024)" using that(1,2) by linarith
    ultimately show ?thesis using ph by blast
  qed
  have QT: "Q \<noteq> ?T" using pdir_okD(2) [OF A(1) T(2,1)] by simp
  have pde: "pde_word s' Q c = pde_word s Q c" if "c < 1024" for c
    using word [of Q c] jQ QT that by (simp add: pde_word_def)
  show tab: "\<forall>c < 1024. table_of s' Q c = table_of s Q c" using pde by (simp add: table_of_def)
  have pd: "pdir_ok s' Q" using A(1) free pde tab by (auto simp: pdir_ok_def)
  have ut: "user_table s' Q c \<longleftrightarrow> user_table s Q c" for c using tab by (auto simp: user_table_def)
  have used: "frame_used s' f" if "frame_used s f" for f
  proof -
    have "f \<noteq> j" using used_not_free [OF A(2) that] jf by auto
    then show ?thesis using that pages by (simp add: frame_used_def)
  qed
  show "aspace s' Q (M(v \<mapsto> j)) (B(v := C))"
    unfolding aspace_def
  proof (intro conjI allI impI)
    show "pdir_ok s' Q" "mem_ok s'" "frame_used s' Q" using pd mem used [OF A(3)] by simp_all
    show "frame_used s' (table_of s' Q c)" if "user_table s' Q c" for c
      using that used [OF A(5)] tab ut by (simp add: user_table_def)
    show "entry_maps s' Q c i ((M(v \<mapsto> j)) (c * 1024 + i))" if ci: "512 \<le> c \<and> c < 1024 \<and> i < 1024" for c i
    proof (cases "c = d \<and> i = k")
      case True
      then show ?thesis using tab T e v by (simp add: entry_maps_def Let_def)
    next
      case False
      then have "c * 1024 + i \<noteq> v" using ci d(2) T word_idx_inj [of i k c d] v by auto
      moreover have "phys s' (table_of s Q c * 1024 + i) = phys s (table_of s Q c * 1024 + i)" if "table_of s Q c \<noteq> 0"
        using False ci T d(2) jt [of c] pdir_okD(3) [OF A(1) _ that, of d] by (intro word) auto
      ultimately show ?thesis using A(6) [of c i] ci tab by (auto simp: entry_maps_def Let_def split: option.splits)
    qed
    fix x f assume M: "(M(v \<mapsto> j)) x = Some f"
    have B: "2 ^ 19 \<le> x \<and> x < 2 ^ 20 \<and> frame_used s' f \<and> f \<noteq> Q \<and> (\<forall>c < 1024. table_of s' Q c \<noteq> f) \<and>
        (\<forall>o' < 4096. phys_byte s' (f * 4096 + o') = (B(v := C)) x o')"
    proof (cases "x = v")
      case True
      then have "f = j" using M by simp
      moreover have "2 ^ 19 \<le> v \<and> v < 2 ^ 20" using v(1) T d(2) by simp
      ultimately show ?thesis using True pages(3) jQ jt tab c by simp
    next
      case False
      then have m: "M x = Some f" using M by simp
      have "\<forall>i < 1024. phys s' (f * 1024 + i) = phys s (f * 1024 + i)"
        using word [of f] jM [OF m] A(9) [OF m T(2)] by auto
      then show ?thesis using False m A(7-11) [OF m] used tab same_frame_bytes [of s' f s] by auto
    qed
    then show "2 ^ 19 \<le> x" "x < 2 ^ 20" "frame_used s' f" "f \<noteq> Q" by simp_all
    show "table_of s' Q c \<noteq> f" if "c < 1024" for c using B that by simp
    show "phys_byte s' (f * 4096 + o') = (B(v := C)) x o'" if "o' < 4096" for o' using B that by simp
  next
    show "inj_on (M(v \<mapsto> j)) (dom (M(v \<mapsto> j)))"
      using A(12) jM v(2) by (fastforce simp: inj_on_def dom_def)
  qed
  show "same_kernel s s' Q"
    unfolding same_kernel_def
  proof (intro allI impI conjI)
    fix c :: nat assume c: "c < 512"
    show "pde_word s' Q c = pde_word s Q c" using pde c by simp
    fix i :: nat assume "table_of s Q c \<noteq> 0" "i < 1024"
    then show "phys s' (table_of s Q c * 1024 + i) = phys s (table_of s Q c * 1024 + i)"
      using c T d(2) jt [of c] pdir_okD(3) [OF A(1), of c d] by (intro word) auto
  qed
  have "table_of s' Q ` {d. user_table s' Q d} = table_of s Q ` {d. user_table s Q d}"
    using tab ut by (auto simp: user_table_def image_iff)
  then show "all_frames s' Q (M(v \<mapsto> j)) = all_frames s Q M"
    using free v(2) by (auto simp: all_frames_def owned_def ran_map_upd)
qed


section \<open>Allocating\<close>

lemma Alloc_Page_pages:
  assumes "mem_ok s" "freeList s = i # q"
  shows "\<exists>s'. Alloc_Page s = Some (Get_Page_Address i, s') \<and> mem_ok s' \<and> freeList s' = q \<and> phys s' = phys s \<and> int_flag s' = int_flag s \<and>
    length (pageList s') = length (pageList s) \<and> (\<forall>f. f \<noteq> i \<longrightarrow> pageList s' ! f = pageList s ! f) \<and> frame_used s' i"
proof -
  note eq = Alloc_Page_Cons [OF assms]
  have i: "0 < i" "i < length (pageList s)" "on_freelist_ok (pageList s ! i)" using mem_okD [OF assms(1), of i] assms(2) by simp_all
  show ?thesis unfolding eq using Alloc_Page_ok [OF assms eq] i by (auto simp: frame_used_def on_freelist_ok_def)
qed

lemma Alloc_Pageable_Page_pages:
  assumes mem: "mem_ok s" and free: "freeList s = j # q" and va: "Is_Page_Multiple va"
  shows "\<exists>s'. Alloc_Pageable_Page io_ok env e va s = Some (Get_Page_Address j, s') \<and> mem_ok s' \<and>
    freeList s' = q \<and> int_flag s' = int_flag s \<and> length (pageList s') = length (pageList s) \<and>
    phys s' = (phys s)(unat e div 4 := bf_set 9 3 0 (phys s (unat e div 4))) \<and>
    (\<forall>f. f \<noteq> j \<longrightarrow> pageList s' ! f = pageList s ! f) \<and> frame_used s' j"
proof -
  have mem': "mem_ok (s\<lparr>int_flag := False\<rparr>)" "freeList (s\<lparr>int_flag := False\<rparr>) = j # q"
    using mem free by (simp_all add: mem_ok_def)
  obtain s1 where s1: "Alloc_Page (s\<lparr>int_flag := False\<rparr>) = Some (Get_Page_Address j, s1)" "mem_ok s1" "freeList s1 = q"
    "phys s1 = phys s" "\<not> int_flag s1" "length (pageList s1) = length (pageList s)"
    "\<forall>f. f \<noteq> j \<longrightarrow> pageList s1 ! f = pageList s ! f" "frame_used s1 j"
    using Alloc_Page_pages [OF mem'] by auto
  have j: "0 < j" "j < 2 ^ 20" "j \<notin> set q" "on_freelist_ok (pageList s ! j)"
    using mem_okD [OF mem, of j] free mem by (auto simp: mem_ok_def)
  have np: "\<not> has_flag PAGE_PAGEABLE (pageList s1 ! j)"
    using Alloc_Page_Cons [OF mem'] s1(1) j(4) mem_okD(2) [OF mem, of j] free by (auto simp: on_freelist_ok_def)
  have idx: "Page_Index (Get_Page_Address j) = j" "Get_Page_Address j \<noteq> 0"
    using j by (simp_all add: Page_Index_Address Get_Page_Address_eq_0)
  let ?p = "(set_flag PAGE_PAGEABLE (pageList s1 ! j))\<lparr>pg_entry := e\<rparr>"
  let ?s' = "(put_page j (?p\<lparr>vaddr := va\<rparr>) (set_kernelInfo e 0 (put_page j ?p s1)))\<lparr>int_flag := int_flag s\<rparr>"
  have "Alloc_Pageable_Page io_ok env e va s = Some (Get_Page_Address j, ?s')"
    using s1 idx va np by (simp add: Alloc_Pageable_Page_def Let_def Get_Page_def frame_used_def)
  moreover have "mem_ok ?s'"
    using s1(3) j(3) by (intro mem_ok_put [OF s1(2), of j _ "?p\<lparr>vaddr := va\<rparr>"]) simp_all
  moreover have "frame_used ?s' j" using s1(8) by (simp add: frame_used_def)
  ultimately show ?thesis using s1 by auto
qed

section \<open>Growing an address space\<close>

text \<open>From \<open>s\<close> to \<open>s'\<close> the pages \<open>R\<close> were added, tables of the directory entries \<open>D\<close> perhaps, and at most \<open>n\<close>
  frames were taken.\<close>

definition grows :: "vm_state \<Rightarrow> nat \<Rightarrow> (nat \<rightharpoonup> nat) \<Rightarrow> vm_state \<Rightarrow> (nat \<rightharpoonup> nat) \<Rightarrow> nat set \<Rightarrow> nat set \<Rightarrow> nat \<Rightarrow> bool" where
  "grows s Q M s' M' R D n \<longleftrightarrow> same_kernel s s' Q \<and> all_frames s' Q M' = all_frames s Q M \<and> int_flag s' = int_flag s \<and>
     (\<forall>v. v \<notin> R \<longrightarrow> M' v = M v) \<and> (\<forall>v\<in>R. M' v \<noteq> None) \<and> (\<forall>d < 1024. d \<notin> D \<longrightarrow> table_of s' Q d = table_of s Q d) \<and>
     length (freeList s) \<le> length (freeList s') + n"

lemma growsD:
  assumes "grows s Q M s' M' R D n"
  shows "same_kernel s s' Q" "all_frames s' Q M' = all_frames s Q M" "int_flag s' = int_flag s"
    "v \<notin> R \<Longrightarrow> M' v = M v" "v \<in> R \<Longrightarrow> M' v \<noteq> None" "d < 1024 \<Longrightarrow> d \<notin> D \<Longrightarrow> table_of s' Q d = table_of s Q d"
    "length (freeList s) \<le> length (freeList s') + n"
  using assms by (auto simp: grows_def)

lemma grows_refl: "grows s Q M s M {} {} 0"
  by (simp add: grows_def same_kernel_refl)

lemma grows_trans:
  assumes "grows s Q M s1 M1 R1 D1 n1" "grows s1 Q M1 s2 M2 R2 D2 n2"
  shows "grows s Q M s2 M2 (R1 \<union> R2) (D1 \<union> D2) (n1 + n2)"
proof -
  note g1 = growsD [OF assms(1)] and g2 = growsD [OF assms(2)]
  have "M2 v \<noteq> None" if "v \<in> R1" for v using g1(5) [OF that] g2(4,5) [of v] by (cases "v \<in> R2") auto
  then show ?thesis using g1 g2 same_kernel_trans [OF g1(1) g2(1)] by (auto simp: grows_def)
qed

lemma grows_weaken: "grows s Q M s' M' R D n \<Longrightarrow> D \<subseteq> D' \<Longrightarrow> n \<le> n' \<Longrightarrow> grows s Q M s' M' R D' n'"
  by (auto simp: grows_def)

text \<open>One page of the user half, given what happened to the memory.\<close>

lemma grows_page:
  assumes "aspace s Q M B" "user_table s Q d" "k < 1024" "M (d * 1024 + k) = None"
    "freeList s = j # q" "freeList s' = q" "mem_ok s'" "int_flag s' = int_flag s"
    "length (pageList s') = length (pageList s)" "\<forall>f. f \<noteq> j \<longrightarrow> pageList s' ! f = pageList s ! f" "frame_used s' j"
    "\<forall>x. x \<noteq> table_of s Q d * 1024 + k \<longrightarrow> \<not> (j * 1024 \<le> x \<and> x < j * 1024 + 1024) \<longrightarrow> phys s' x = phys s x"
    "pte_present (phys s' (table_of s Q d * 1024 + k)) = 1" "pte_base (phys s' (table_of s Q d * 1024 + k)) = of_nat j"
    "\<forall>o' < 4096. phys_byte s' (j * 4096 + o') = C o'"
  shows "\<exists>M'. aspace s' Q M' (B(d * 1024 + k := C)) \<and> grows s Q M s' M' {d * 1024 + k} {} 1 \<and> M' (d * 1024 + k) = Some j"
proof -
  note p = aspace_new_page [OF assms(1-3) refl assms(4-7,9-15)]
  show ?thesis using p assms(5,6,8) by (intro exI [of _ "M(d * 1024 + k \<mapsto> j)"]) (auto simp: grows_def)
qed

lemma entry_addr_sum:
  assumes "T < 2 ^ 20" "K + k < 1024"
  shows "unat (Get_Page_Address T + 4 * word_of_nat K + 4 * word_of_nat k) div 4 = T * 1024 + (K + k)"
  using entry_addr [OF assms] by (simp add: algebra_simps)

definition page_content :: "(nat \<Rightarrow> u8) \<Rightarrow> Exe_Segment \<Rightarrow> nat \<Rightarrow> nat \<Rightarrow> u8" where
  "page_content img seg k i =
     (if k = PAGE_TABLE_INDEX (lengthInFile seg) \<and> end_of_data seg \<le> i then 0
      else img (unat (PAGE_ADDR (offsetInFile seg + PAGE_ADDR_BY_IDX 0 (of_nat k))) + i))"

lemma end_of_data_lt: "end_of_data seg < 4096"
  by (simp add: end_of_data_def unat_mod)

lemma load_page_ok:
  assumes a: "aspace s Q M B" and d: "user_table s Q d" and K: "K + k < 1024" and M: "M (d * 1024 + (K + k)) = None"
    and free: "freeList s \<noteq> []"
  shows "\<exists>s' M'. load_page io_ok env img seg 0 (Get_Page_Address (table_of s Q d) + 4 * of_nat K) k s = Some s' \<and>
    aspace s' Q M' (B(d * 1024 + (K + k) := page_content img seg k)) \<and> grows s Q M s' M' {d * 1024 + (K + k)} {} 1"
proof -
  note A = aspaceD [OF a]
  obtain j q where jq: "freeList s = j # q" using free by (cases "freeList s") auto
  let ?T = "table_of s Q d" and ?E = "table_of s Q d * 1024 + (K + k)"
  define e where "e = Get_Page_Address ?T + 4 * word_of_nat K + 4 * word_of_nat k"
  have T: "?T \<noteq> 0" "d < 1024" using d by (simp_all add: user_table_def)
  have e: "unat e div 4 = ?E" unfolding e_def by (rule entry_addr_sum [OF table_of_lt K])
  let ?va = "PAGE_ADDR (USER_BASE + startAddress seg + PAGE_ADDR_BY_IDX (of_nat 0) (of_nat k))"
  have va: "Is_Page_Multiple ?va" by (simp only: Is_Page_Multiple_dvd PAGE_ADDR_nat dvd_triv_right)
  obtain s1 where s1: "Alloc_Pageable_Page io_ok env e ?va s = Some (Get_Page_Address j, s1)" "mem_ok s1" "freeList s1 = q"
    "int_flag s1 = int_flag s" "length (pageList s1) = length (pageList s)" "phys s1 = (phys s)(?E := bf_set 9 3 0 (phys s ?E))"
    "\<forall>f. f \<noteq> j \<longrightarrow> pageList s1 ! f = pageList s ! f" "frame_used s1 j"
    using Alloc_Pageable_Page_pages [OF A(2) jq va, of io_ok env e] unfolding e by blast
  have j: "j < 2 ^ 20" "?T \<noteq> j" using mem_okD [OF A(2), of j] jq pdir_okD(1) [OF A(1) T(2,1)] by auto
  have addr: "unat (Get_Page_Address j) = j * 4096" by (rule Get_Page_Address_nat [OF j(1)])
  let ?src = "unat (PAGE_ADDR (offsetInFile seg + PAGE_ADDR_BY_IDX (of_nat 0) (of_nat k)))"
  define s2 where "s2 = set_base e (of_nat j) s1"
  define s3 where "s3 = put_phys (j * 4096) (List.map (\<lambda>i. img (?src + i)) [0..<4096]) s2"
  define s4 where "s4 = (if k = PAGE_TABLE_INDEX (lengthInFile seg)
    then put_phys (j * 4096 + end_of_data seg) (replicate (4096 - end_of_data seg) 0) s3 else s3)"
  define s5 where "s5 = set_pflags e 3 (set_present e 1 s4)"
  have run: "load_page io_ok env img seg 0 (Get_Page_Address ?T + 4 * of_nat K) k s = Some s5"
    unfolding load_page_def Let_def e_def [symmetric] using s1(1) aligned_frame [OF j(1)]
    by (simp add: addr s2_def s3_def s4_def s5_def)
  have out: "x \<noteq> ?E \<longrightarrow> \<not> (j * 1024 \<le> x \<and> x < j * 1024 + 1024) \<longrightarrow> phys s5 x = phys s x"
    and w4: "phys s4 ?E = phys s2 ?E" for x
  proof -
    have far: "phys s4 x = phys s2 x" if "\<not> (j * 1024 \<le> x \<and> x < j * 1024 + 1024)" for x
    proof -
      have "4 * x + 4 \<le> j * 4096 \<or> j * 4096 + 4096 \<le> 4 * x" using that by linarith
      then show ?thesis using end_of_data_lt [of seg] by (auto simp: s4_def s3_def put_phys_other)
    qed
    show "x \<noteq> ?E \<longrightarrow> \<not> (j * 1024 \<le> x \<and> x < j * 1024 + 1024) \<longrightarrow> phys s5 x = phys s x"
      using far [of x] by (simp add: s5_def s2_def e s1(6))
    have "\<not> (j * 1024 \<le> ?E \<and> ?E < j * 1024 + 1024)" using j(2) K by linarith
    then show "phys s4 ?E = phys s2 ?E" by (rule far)
  qed
  let ?w = "bf_set 1 4 3 (bf_set 0 1 1 (bf_set 12 20 (word_of_nat j) (bf_set 9 3 0 (phys s ?E))))"
  have w: "phys s5 ?E = ?w" using w4 by (simp add: s5_def e s2_def s1(6))
  have wf: "pte_present ?w = 1" "pte_base ?w = word_of_nat j" using j(1) by (simp_all add: take_bit_frame)
  have bytes: "phys_byte s5 (j * 4096 + i) = page_content img seg k i" if i: "i < 4096" for i
  proof -
    have "phys_byte s5 (j * 4096 + i) = phys_byte s4 (j * 4096 + i)"
    proof (rule same_frame_bytes [OF _ i], intro allI impI)
      fix x :: nat assume "x < 1024"
      then have "j * 1024 + x \<noteq> ?E" using word_idx_inj [OF _ K] j(2) by auto
      then show "phys s5 (j * 1024 + x) = phys s4 (j * 1024 + x)" by (simp add: s5_def e)
    qed
    then show ?thesis using i end_of_data_lt [of seg]
      by (auto simp: s4_def s3_def phys_byte_put page_content_def less_imp_le)
  qed
  have rest: "mem_ok s5" "freeList s5 = q" "int_flag s5 = int_flag s" "length (pageList s5) = length (pageList s)"
    "\<forall>f. f \<noteq> j \<longrightarrow> pageList s5 ! f = pageList s ! f" "frame_used s5 j"
  proof -
    have pl: "pageList s5 = pageList s1" "freeList s5 = freeList s1" "int_flag s5 = int_flag s1" "g_freePageCount s5 = g_freePageCount s1"
      by (simp_all add: s5_def s4_def s3_def s2_def)
    then show "mem_ok s5" "freeList s5 = q" "int_flag s5 = int_flag s" "length (pageList s5) = length (pageList s)"
      "\<forall>f. f \<noteq> j \<longrightarrow> pageList s5 ! f = pageList s ! f" "frame_used s5 j"
      using s1 mem_ok_cong [OF pl(1,2,4)] by (simp_all add: frame_used_def)
  qed
  obtain M' where "aspace s5 Q M' (B(d * 1024 + (K + k) := page_content img seg k))" "grows s Q M s5 M' {d * 1024 + (K + k)} {} 1"
    using grows_page [OF a d K M jq rest(2,1,3,4,5,6), of "page_content img seg k"] out w wf bytes by auto
  then show ?thesis using run by blast
qed


section \<open>The pages of a segment\<close>

definition fill :: "nat set \<Rightarrow> (nat \<Rightarrow> nat \<Rightarrow> u8) \<Rightarrow> (nat \<Rightarrow> nat \<Rightarrow> u8) \<Rightarrow> nat \<Rightarrow> nat \<Rightarrow> u8" where
  "fill R C B = (\<lambda>v. if v \<in> R then C v else B v)"

lemma fill_simps [simp]: "v \<in> R \<Longrightarrow> fill R C B v = C v" "v \<notin> R \<Longrightarrow> fill R C B v = B v" "fill {} C B = B"
  by (simp_all add: fill_def)

lemma load_pages_ok:
  assumes "aspace s Q M B" "user_table s Q d" "K + k + n \<le> 1024"
    "\<forall>v \<in> {d * 1024 + (K + k)..<d * 1024 + (K + k) + n}. M v = None" "n \<le> length (freeList s)"
  shows "\<exists>s' M'. load_pages io_ok env img seg 0 (Get_Page_Address (table_of s Q d) + 4 * of_nat K) k n s = Some s' \<and>
    aspace s' Q M' (fill {d * 1024 + (K + k)..<d * 1024 + (K + k) + n} (\<lambda>v. page_content img seg (v - (d * 1024 + K))) B) \<and>
    grows s Q M s' M' {d * 1024 + (K + k)..<d * 1024 + (K + k) + n} {} n"
  using assms
proof (induction n arbitrary: s M B k)
  case 0
  then show ?case by (auto simp: grows_refl)
next
  case (Suc n)
  let ?v = "d * 1024 + (K + k)"
  have ne: "freeList s \<noteq> []" using Suc.prems(5) by auto
  obtain s1 M1 where s1: "load_page io_ok env img seg 0 (Get_Page_Address (table_of s Q d) + 4 * of_nat K) k s = Some s1"
    "aspace s1 Q M1 (B(?v := page_content img seg k))" "grows s Q M s1 M1 {?v} {} 1"
    using load_page_ok [OF Suc.prems(1,2) _ _ ne, of K k io_ok env img seg] Suc.prems(3,4) by fastforce
  note g = growsD [OF s1(3)]
  have d: "d < 1024" using Suc.prems(2) by (simp add: user_table_def)
  have T: "table_of s1 Q d = table_of s Q d" "user_table s1 Q d" using g(6) [OF d] Suc.prems(2) by (simp_all add: user_table_def)
  have none: "\<forall>v \<in> {d * 1024 + (K + Suc k)..<d * 1024 + (K + Suc k) + n}. M1 v = None"
    using Suc.prems(4) g(4) by auto
  have len: "n \<le> length (freeList s1)" using g(7) Suc.prems(5) by simp
  have sz: "K + Suc k + n \<le> 1024" using Suc.prems(3) by simp
  obtain s2 M2 where s2: "load_pages io_ok env img seg 0 (Get_Page_Address (table_of s1 Q d) + 4 * of_nat K) (Suc k) n s1 = Some s2"
    "aspace s2 Q M2 (fill {d * 1024 + (K + Suc k)..<d * 1024 + (K + Suc k) + n} (\<lambda>v. page_content img seg (v - (d * 1024 + K))) (B(?v := page_content img seg k)))"
    "grows s1 Q M1 s2 M2 {d * 1024 + (K + Suc k)..<d * 1024 + (K + Suc k) + n} {} n"
    using Suc.IH [OF s1(2) T(2) sz none len] by blast
  have R: "{?v} \<union> {d * 1024 + (K + Suc k)..<d * 1024 + (K + Suc k) + n} = {?v..<?v + Suc n}" by auto
  have "fill {d * 1024 + (K + Suc k)..<d * 1024 + (K + Suc k) + n} (\<lambda>v. page_content img seg (v - (d * 1024 + K))) (B(?v := page_content img seg k)) =
      fill {?v..<?v + Suc n} (\<lambda>v. page_content img seg (v - (d * 1024 + K))) B"
    by (auto simp: fill_def fun_eq_iff)
  then show ?case using s1(1) s2 grows_trans [OF s1(3) s2(3)] T(1) unfolding R
    by (intro exI [of _ s2] exI [of _ M2]) simp
qed

text \<open>Rewriting the entry of a table that is there.\<close>

lemma aspace_same_entry:
  assumes a: "aspace s Q M B" and d: "user_table s Q d" and ph: "phys s' = (phys s)(Q * 1024 + d := w)"
    and w: "pte_base w = pte_base (pde_word s Q d)" "pte_present w = 1"
    and rest: "pageList s' = pageList s" "freeList s' = freeList s" "g_freePageCount s' = g_freePageCount s" "int_flag s' = int_flag s"
  shows "aspace s' Q M B \<and> grows s Q M s' M {} {} 0 \<and> (\<forall>c < 1024. table_of s' Q c = table_of s Q c)"
proof -
  note A = aspaceD [OF a]
  have dd: "d < 1024" "512 \<le> d" "table_of s Q d \<noteq> 0" using d by (simp_all add: user_table_def)
  have pde: "pde_word s' Q c = (if c = d then w else pde_word s Q c)" for c by (auto simp: pde_word_def ph)
  have tab: "table_of s' Q c = table_of s Q c" for c by (simp add: table_of_def pde w(1))
  have word: "phys s' (f * 1024 + k) = phys s (f * 1024 + k)" if "f \<noteq> Q" "k < 1024" for f k
    using word_idx_inj [OF that(2) dd(1), of f Q] that(1) by (simp add: ph)
  have pd: "pdir_ok s' Q" using A(1) w(2) dd by (simp add: pdir_ok_def tab pde rest)
  have used: "frame_used s' f = frame_used s f" for f by (simp add: frame_used_def rest)
  have ut: "user_table s' Q c = user_table s Q c" for c by (simp add: user_table_def tab)
  have tw: "phys s' (table_of s Q c * 1024 + k) = phys s (table_of s Q c * 1024 + k)" if "c < 1024" "k < 1024" "table_of s Q c \<noteq> 0" for c k
    using word [of "table_of s Q c" k] pdir_okD(2) [OF A(1) that(1,3)] that(2) by simp
  have "aspace s' Q M B"
    unfolding aspace_def ut used tab
  proof (intro conjI allI impI)
    show "pdir_ok s' Q" "mem_ok s'" "frame_used s Q" "inj_on M (dom M)" using pd A(2,3,12) mem_ok_cong [of s' s] rest by simp_all
    show "frame_used s (table_of s Q c)" if "user_table s Q c" for c by (rule A(5) [OF that])
    show "entry_maps s' Q c k (M (c * 1024 + k))" if "512 \<le> c \<and> c < 1024 \<and> k < 1024" for c k
      using A(6) [of c k] that tw [of c k] by (auto simp: entry_maps_def tab Let_def split: option.splits)
    fix v f assume m: "M v = Some f"
    show "2 ^ 19 \<le> v" "v < 2 ^ 20" "frame_used s f" "f \<noteq> Q" using A(7,8,11) [OF m] by simp_all
    show "table_of s Q c \<noteq> f" if "c < 1024" for c by (rule A(9) [OF m that])
    show "phys_byte s' (f * 4096 + o') = B v o'" if "o' < 4096" for o'
      using A(10) [OF m that] same_frame_bytes [OF _ that, of s' f s] word [of f] A(8) [OF m] by simp
  qed
  moreover have "same_kernel s s' Q" using dd tw by (auto simp: same_kernel_def pde)
  moreover have "all_frames s' Q M = all_frames s Q M" by (simp add: all_frames_def owned_def tab ut rest)
  ultimately show ?thesis by (simp add: grows_def rest tab)
qed

text \<open>A fresh table.\<close>

lemma aspace_new_table:
  assumes a: "aspace s Q M B" and d: "512 \<le> d" "d < 1024" "table_of s Q d = 0" and free: "freeList s = i # q"
  shows "\<exists>s0. Alloc_Page s = Some (Get_Page_Address i, s0) \<and>
    (let s1 = link_table fl (Get_Page_Address Q + 4 * word_of_nat d) (Get_Page_Address i) s0 in
      aspace s1 Q M B \<and> grows s Q M s1 M {} {d} 1 \<and> table_of s1 Q d = i \<and> user_table s1 Q d)"
proof -
  note A = aspaceD [OF a]
  obtain s0 where s0: "Alloc_Page s = Some (Get_Page_Address i, s0)" "length (pageList s0) = length (pageList s)"
    "\<forall>f. f \<noteq> i \<longrightarrow> pageList s0 ! f = pageList s ! f" "frame_used s0 i"
    using Alloc_Page_pages [OF A(2) free] by blast
  define s1 where "s1 = link_table fl (Get_Page_Address Q + 4 * word_of_nat d) (Get_Page_Address i) s0"
  have s1: "pdir_ok s1 Q" "mem_ok s1" "freeList s1 = q" "int_flag s1 = int_flag s" "0 < i" "i < 2 ^ 20"
    "\<forall>c < 1024. table_of s1 Q c = (if c = d then i else table_of s Q c)"
    "\<forall>c < 1024. c \<noteq> d \<longrightarrow> pde_word s1 Q c = pde_word s Q c"
    "\<forall>c < 1024. table_of s Q c \<noteq> i" "\<forall>k < 1024. phys s1 (i * 1024 + k) = 0"
    "\<forall>T k. T \<noteq> i \<longrightarrow> T \<noteq> Q \<longrightarrow> k < 1024 \<longrightarrow> phys s1 (T * 1024 + k) = phys s (T * 1024 + k)"
    using link_table_ok [OF A(1,2) free d(2,3), of fl] s0(1) unfolding Let_def s1_def by auto
  have pl: "pageList s1 = pageList s0" by (simp add: s1_def link_table_def)
  have iu: "frame_used s1 i" using s0(4) by (simp add: frame_used_def pl)
  have used: "frame_used s1 f" if "frame_used s f" for f
    using that used_not_free [OF A(2) that] free s0(2,3) by (auto simp: frame_used_def pl)
  have ut: "user_table s1 Q c \<longleftrightarrow> c = d \<or> user_table s Q c" for c using s1(5,7) d by (auto simp: user_table_def)
  have tw: "phys s1 (table_of s Q c * 1024 + k) = phys s (table_of s Q c * 1024 + k)" if "c < 1024" "k < 1024" "table_of s Q c \<noteq> 0" for c k
    using s1(9,11) pdir_okD(2) [OF A(1) that(1,3)] that(1,2) by simp
  have "aspace s1 Q M B"
    unfolding aspace_def
  proof (intro conjI allI impI)
    show "pdir_ok s1 Q" "mem_ok s1" "frame_used s1 Q" "inj_on M (dom M)" using s1(1,2) used [OF A(3)] A(12) by simp_all
    show "frame_used s1 (table_of s1 Q c)" if "user_table s1 Q c" for c
    proof (cases "c = d")
      case False
      then have "user_table s Q c" using that by (simp add: ut)
      from used [OF A(5) [OF this]] this False show ?thesis using s1(7) by (simp add: user_table_def)
    qed (use s1(7) d(2) iu in simp)
    show "entry_maps s1 Q c k (M (c * 1024 + k))" if ck: "512 \<le> c \<and> c < 1024 \<and> k < 1024" for c k
    proof (cases "c = d")
      case True
      then have "M (c * 1024 + k) = None" using A(6) [of c k] ck d(3) by (simp add: entry_maps_def Let_def split: option.splits)
      then show ?thesis using True ck s1(7,10) by (simp add: entry_maps_def Let_def)
    next
      case False
      then show ?thesis using A(6) [of c k] ck tw [of c k] s1(7) by (auto simp: entry_maps_def Let_def split: option.splits)
    qed
    fix v f assume m: "M v = Some f"
    have fi: "f \<noteq> i" using used_not_free [OF A(2) A(7) [OF m]] free by auto
    show "2 ^ 19 \<le> v" "v < 2 ^ 20" "frame_used s1 f" "f \<noteq> Q" using A(7,8,11) [OF m] used by simp_all
    show "table_of s1 Q c \<noteq> f" if "c < 1024" for c using A(9) [OF m that] s1(7) that fi by auto
    show "phys_byte s1 (f * 4096 + o') = B v o'" if "o' < 4096" for o'
      using A(10) [OF m that] same_frame_bytes [OF _ that, of s1 f s] s1(11) fi A(8) [OF m] by simp
  qed
  moreover have "same_kernel s s1 Q" using d s1(8) tw by (auto simp: same_kernel_def)
  moreover have "all_frames s1 Q M = all_frames s Q M"
  proof -
    have "table_of s1 Q ` {c. user_table s1 Q c} = insert i (table_of s Q ` {c. user_table s Q c})"
    proof -
      have "{c. user_table s1 Q c} = insert d {c. user_table s Q c}" by (auto simp: ut)
      moreover have "table_of s1 Q ` {c. user_table s Q c} = table_of s Q ` {c. user_table s Q c}"
        using s1(7) d(3) by (intro image_cong) (auto simp: user_table_def)
      ultimately show ?thesis using s1(7) d(2) by simp
    qed
    then show ?thesis using free s1(3) by (auto simp: all_frames_def owned_def)
  qed
  ultimately show ?thesis using s0(1) s1(3,4,7) free d ut by (auto simp: Let_def s1_def [symmetric] grows_def)
qed

lemma segment_table_ok:
  assumes a: "aspace s Q M B" and d: "512 \<le> d" "d < 1024" and free: "freeList s \<noteq> []"
  shows "\<exists>s'. segment_table (Get_Page_Address Q + 4 * word_of_nat d) s = Some (Get_Page_Address (table_of s' Q d), s') \<and>
    user_table s' Q d \<and> aspace s' Q M B \<and> grows s Q M s' M {} {d} 1"
proof -
  note A = aspaceD [OF a]
  let ?a = "Get_Page_Address Q + 4 * word_of_nat d"
  have e: "unat ?a div 4 = Q * 1024 + d" by (rule entry_addr [OF A(4) d(2)])
  have rd: "rd32 s ?a = pde_word s Q d" by (simp add: rd32_def pde_word_def e)
  show ?thesis
  proof (cases "table_of s Q d = 0")
    case True
    obtain i q where iq: "freeList s = i # q" using free by (cases "freeList s") auto
    obtain s0 s1 where s: "Alloc_Page s = Some (Get_Page_Address i, s0)" "s1 = link_table 3 ?a (Get_Page_Address i) s0"
      "aspace s1 Q M B" "grows s Q M s1 M {} {d} 1" "table_of s1 Q d = i" "user_table s1 Q d"
      using aspace_new_table [OF a d True iq, of 3] by (auto simp: Let_def)
    have "segment_table ?a s = Some (Get_Page_Address i, s1)"
      using True s(1,2) rd by (simp add: segment_table_def table_of_def unat_eq_0 link_table_def Let_def)
    then show ?thesis using s(3-6) by (intro exI [of _ s1]) simp
  next
    case False
    let ?T = "table_of s Q d"
    have ut: "user_table s Q d" using False d by (simp add: user_table_def)
    let ?w = "bf_set 1 4 3 (bf_set 0 1 1 (bf_set 12 20 (word_of_nat ?T) (pde_word s Q d)))"
    define s1 where "s1 = set_pflags ?a 3 (set_present ?a 1 (set_base ?a (word_of_nat ?T) s))"
    have al: "PAGE_ALLIGNED_ADDR (Get_Page_Address ?T) = word_of_nat ?T" by (rule aligned_frame [OF table_of_lt])
    have run: "segment_table ?a s = Some (Get_Page_Address ?T, s1)"
      using False rd al by (simp add: segment_table_def table_of_def Get_Page_Address_def unat_eq_0 s1_def Let_def)
    have ph: "phys s1 = (phys s)(Q * 1024 + d := ?w)" by (simp add: s1_def e pde_word_def)
    have w: "pte_present ?w = 1" "pte_base ?w = pte_base (pde_word s Q d)"
      using take_bit_frame [OF table_of_lt [of s Q d]] by (simp_all add: table_of_def)
    have "aspace s1 Q M B \<and> grows s Q M s1 M {} {} 0 \<and> (\<forall>c < 1024. table_of s1 Q c = table_of s Q c)"
      by (rule aspace_same_entry [OF a ut ph w(2,1)]) (simp_all add: s1_def)
    then show ?thesis using run ut d grows_weaken [of s Q M s1 M "{}" "{}" 0 "{d}" 1] by (auto simp: user_table_def)
  qed
qed


section \<open>Segments\<close>

definition seg_start :: "Exe_Segment \<Rightarrow> u32" where
  "seg_start seg = USER_BASE + startAddress seg"

definition first_page :: "Exe_Segment \<Rightarrow> nat" where
  "first_page seg = PAGE_DIRECTORY_INDEX (seg_start seg) * 1024 + PAGE_TABLE_INDEX (seg_start seg)"

definition num_pages :: "Exe_Segment \<Rightarrow> nat" where
  "num_pages seg = PAGE_TABLE_INDEX (lengthInFile seg) + 1"

definition seg_pages :: "Exe_Segment \<Rightarrow> nat set" where
  "seg_pages seg = {first_page seg..<first_page seg + num_pages seg}"

text \<open>A segment the loader places as the file says: it lies below the stack's 4 MB, needs one page table, has
  the same offset in its page as in the file's, and does not spill into one more page than its length has.\<close>

definition seg_fits :: "Exe_Segment \<Rightarrow> bool" where
  "seg_fits seg \<longleftrightarrow> unat (startAddress seg) < 2 ^ 31 \<and> unat (lengthInFile seg) < 2 ^ 22 \<and>
     PAGE_TABLE_INDEX (seg_start seg) + num_pages seg \<le> 1024 \<and> PAGE_DIRECTORY_INDEX (seg_start seg) < 1023 \<and>
     unat (offsetInFile seg) mod 4096 = unat (startAddress seg) mod 4096 \<and>
     unat (offsetInFile seg) + unat (lengthInFile seg) < 2 ^ 32 \<and>
     unat (startAddress seg) mod 4096 + unat (lengthInFile seg) mod 4096 < 4096"

fun segs_ok :: "Exe_Segment list \<Rightarrow> bool" where
  "segs_ok [] = True"
| "segs_ok (g # gs) = (seg_fits g \<and> (\<forall>h\<in>set gs. seg_pages g \<inter> seg_pages h = {}) \<and> segs_ok gs)"

definition seg_content :: "(nat \<Rightarrow> u8) \<Rightarrow> Exe_Segment \<Rightarrow> nat \<Rightarrow> nat \<Rightarrow> u8" where
  "seg_content img seg v = page_content img seg (v - first_page seg)"

lemma seg_start_nat: "unat (startAddress seg) < 2 ^ 31 \<Longrightarrow> unat (seg_start seg) = 2 ^ 31 + unat (startAddress seg)"
  by (simp add: seg_start_def unat_plus_if')

lemma page_number: "unat (x :: u32) div 4096 = PAGE_DIRECTORY_INDEX x * 1024 + PAGE_TABLE_INDEX x"
proof -
  have "unat x div 2 ^ 22 = unat x div 4096 div 1024" by (simp add: div_mult2_eq [symmetric])
  then show ?thesis by (simp only: PAGE_DIRECTORY_INDEX_nat PAGE_TABLE_INDEX_nat div_mult_mod_eq)
qed

lemma load_tables_ok:
  assumes a: "aspace s Q M B" and f: "seg_fits seg" and none: "\<forall>v\<in>seg_pages seg. M v = None"
    and free: "num_pages seg + 1 \<le> length (freeList s)"
  shows "\<exists>s' M'. load_tables io_ok env img seg (Get_Page_Address Q) 0 (PAGE_DIRECTORY_INDEX (lengthInFile seg) + 1) s = Some s' \<and>
    aspace s' Q M' (fill (seg_pages seg) (seg_content img seg) B) \<and>
    grows s Q M s' M' (seg_pages seg) {PAGE_DIRECTORY_INDEX (seg_start seg)} (num_pages seg + 1)"
proof -
  let ?d = "PAGE_DIRECTORY_INDEX (seg_start seg)" and ?K = "PAGE_TABLE_INDEX (seg_start seg)"
  have d: "512 \<le> ?d" "?d < 1024"
    using f seg_start_nat [of seg] by (simp_all add: seg_fits_def PAGE_DIRECTORY_INDEX_nat)
  have z: "PAGE_DIRECTORY_INDEX (lengthInFile seg) = 0" using f by (simp add: seg_fits_def PAGE_DIRECTORY_INDEX_nat)
  have ne: "freeList s \<noteq> []" using free by auto
  obtain s1 where s1: "segment_table (Get_Page_Address Q + 4 * word_of_nat ?d) s = Some (Get_Page_Address (table_of s1 Q ?d), s1)"
    "user_table s1 Q ?d" "aspace s1 Q M B" "grows s Q M s1 M {} {?d} 1"
    using segment_table_ok [OF a d ne] by blast
  have len: "num_pages seg \<le> length (freeList s1)" using growsD(7) [OF s1(4)] free by simp
  have K: "?K + 0 + num_pages seg \<le> 1024" using f by (simp add: seg_fits_def)
  have R: "seg_pages seg = {?d * 1024 + (?K + 0)..<?d * 1024 + (?K + 0) + num_pages seg}" by (simp add: seg_pages_def first_page_def)
  obtain s2 M2 where s2: "load_pages io_ok env img seg 0 (Get_Page_Address (table_of s1 Q ?d) + 4 * of_nat ?K) 0 (num_pages seg) s1 = Some s2"
    "aspace s2 Q M2 (fill (seg_pages seg) (\<lambda>v. page_content img seg (v - (?d * 1024 + ?K))) B)" "grows s1 Q M s2 M2 (seg_pages seg) {} (num_pages seg)"
    using load_pages_ok [OF s1(3,2) K _ len, of io_ok env img seg] none unfolding R by blast
  have "(\<lambda>v. page_content img seg (v - (?d * 1024 + ?K))) = seg_content img seg" by (simp add: seg_content_def first_page_def fun_eq_iff)
  moreover have "load_tables io_ok env img seg (Get_Page_Address Q) 0 (PAGE_DIRECTORY_INDEX (lengthInFile seg) + 1) s = Some s2"
    using s1(1) s2(1) by (simp add: z seg_start_def num_pages_def Let_def del: load_pages.simps)
  moreover have "grows s Q M s2 M2 (seg_pages seg) {?d} (num_pages seg + 1)"
    using grows_trans [OF s1(4) s2(3)] by simp
  ultimately show ?thesis using s2(2) by auto
qed

fun fill_segs :: "(nat \<Rightarrow> u8) \<Rightarrow> Exe_Segment list \<Rightarrow> (nat \<Rightarrow> nat \<Rightarrow> u8) \<Rightarrow> nat \<Rightarrow> nat \<Rightarrow> u8" where
  "fill_segs img [] B = B"
| "fill_segs img (g # gs) B = fill_segs img gs (fill (seg_pages g) (seg_content img g) B)"

lemma fill_segs_other: "\<forall>h\<in>set gs. v \<notin> seg_pages h \<Longrightarrow> fill_segs img gs B v = B v"
  by (induction gs arbitrary: B) auto

lemma fill_segs_in: "segs_ok gs \<Longrightarrow> g \<in> set gs \<Longrightarrow> v \<in> seg_pages g \<Longrightarrow> fill_segs img gs B v = seg_content img g v"
proof (induction gs arbitrary: B)
  case (Cons h gs)
  show ?case
  proof (cases "g \<in> set gs")
    case True
    then show ?thesis using Cons by simp
  next
    case False
    then have gh: "g = h" using Cons.prems by simp
    then have "\<forall>h'\<in>set gs. v \<notin> seg_pages h'" using Cons.prems by auto
    then show ?thesis using Cons.prems(3) gh by (simp add: fill_segs_other)
  qed
qed simp

definition seg_frames :: "Exe_Segment list \<Rightarrow> nat" where
  "seg_frames gs = sum_list (List.map (\<lambda>g. num_pages g + 1) gs)"

lemma seg_frames_simps [simp]: "seg_frames [] = 0" "seg_frames (g # gs) = num_pages g + 1 + seg_frames gs"
  by (simp_all add: seg_frames_def)

lemma load_segments_ok:
  assumes "aspace s Q M B" "i + n \<le> length segs" "take n (drop i segs) = gs" "segs_ok gs"
    "\<forall>g\<in>set gs. \<forall>v\<in>seg_pages g. M v = None" "seg_frames gs \<le> length (freeList s)"
  shows "\<exists>s' M'. load_segments io_ok env img segs (Get_Page_Address Q) i n s = Some s' \<and> aspace s' Q M' (fill_segs img gs B) \<and>
    grows s Q M s' M' (\<Union> (seg_pages ` set gs)) ((\<lambda>g. PAGE_DIRECTORY_INDEX (seg_start g)) ` set gs) (seg_frames gs)"
  using assms
proof (induction n arbitrary: i gs s M B)
  case 0
  then show ?case using grows_refl by auto
next
  case (Suc n)
  have i: "i < length segs" using Suc.prems(2) by simp
  then have gs: "gs = segs ! i # take n (drop (Suc i) segs)" using Suc.prems(3) by (simp add: Cons_nth_drop_Suc [symmetric])
  define g hs where "g = segs ! i" and "hs = take n (drop (Suc i) segs)"
  have gh: "gs = g # hs" using gs by (simp add: g_def hs_def)
  have g: "seg_fits g" "\<forall>v\<in>seg_pages g. M v = None" "num_pages g + 1 \<le> length (freeList s)" using Suc.prems(4-6) by (simp_all add: gh)
  obtain s1 M1 where s1: "load_tables io_ok env img g (Get_Page_Address Q) 0 (PAGE_DIRECTORY_INDEX (lengthInFile g) + 1) s = Some s1"
    "aspace s1 Q M1 (fill (seg_pages g) (seg_content img g) B)"
    "grows s Q M s1 M1 (seg_pages g) {PAGE_DIRECTORY_INDEX (seg_start g)} (num_pages g + 1)"
    using load_tables_ok [OF Suc.prems(1) g, of io_ok env img] by blast
  have none: "\<forall>h\<in>set hs. \<forall>v\<in>seg_pages h. M1 v = None"
    using growsD(4) [OF s1(3)] Suc.prems(4,5) by (fastforce simp: gh)
  have len: "seg_frames hs \<le> length (freeList s1)" using growsD(7) [OF s1(3)] Suc.prems(6) by (simp add: gh)
  obtain s2 M2 where s2: "load_segments io_ok env img segs (Get_Page_Address Q) (Suc i) n s1 = Some s2"
    "aspace s2 Q M2 (fill_segs img hs (fill (seg_pages g) (seg_content img g) B))"
    "grows s1 Q M1 s2 M2 (\<Union> (seg_pages ` set hs)) ((\<lambda>g. PAGE_DIRECTORY_INDEX (seg_start g)) ` set hs) (seg_frames hs)"
    using Suc.IH [OF s1(2) _ hs_def [symmetric] _ none len] Suc.prems(2,4) by (auto simp: gh)
  show ?case using grows_trans [OF s1(3) s2(3)] s1(1) s2(1,2) i by (auto simp: gh g_def)
qed


section \<open>The new directory\<close>

lemma new_directory:
  assumes k: "pdir_ok s K" and mem: "mem_ok s" and free: "freeList s = Q # q"
  shows "\<exists>s0. Alloc_Page s = Some (Get_Page_Address Q, s0) \<and>
    (let s1 = copy_kernel_half (Get_Page_Address K) (Get_Page_Address Q) (clear_frame (Get_Page_Address Q) s0) in
      aspace s1 Q (\<lambda>_. None) B \<and> all_frames s1 Q (\<lambda>_. None) = set (freeList s) \<and> freeList s1 = q \<and> int_flag s1 = int_flag s \<and>
      (\<forall>d. 512 \<le> d \<and> d < 1024 \<longrightarrow> table_of s1 Q d = 0) \<and>
      (\<forall>va. PAGE_DIRECTORY_INDEX va < 512 \<longrightarrow> mmu_frame s1 (Get_Page_Address Q) va = mmu_frame s (Get_Page_Address K) va))"
proof -
  obtain s0 where s0: "Alloc_Page s = Some (Get_Page_Address Q, s0)" "mem_ok s0" "freeList s0 = q" "phys s0 = phys s" "int_flag s0 = int_flag s"
    "length (pageList s0) = length (pageList s)" "frame_used s0 Q"
    using Alloc_Page_pages [OF mem free] by blast
  define s1 where "s1 = copy_kernel_half (Get_Page_Address K) (Get_Page_Address Q) (clear_frame (Get_Page_Address Q) s0)"
  have Q: "Q < 2 ^ 20" "Q \<in> set (freeList s)" using mem_okD(4) [OF mem, of Q] free by simp_all
  have K: "K < 2 ^ 20" "K \<noteq> Q" using k Q(2) by (auto simp: pdir_ok_def)
  have ph: "phys s1 x = (if Q * 1024 \<le> x \<and> x < Q * 1024 + 512 then phys s (K * 1024 + (x - Q * 1024))
      else if Q * 1024 \<le> x \<and> x < Q * 1024 + 1024 then 0 else phys s x)" for x
  proof -
    have kq: "\<not> (Q * 1024 \<le> K * 1024 + y \<and> K * 1024 + y < Q * 1024 + 1024)" if "y < 512" for y using K(2) that by linarith
    show ?thesis
    proof (cases "Q * 1024 \<le> x \<and> x < Q * 1024 + 512")
      case True
      then obtain y where "x = Q * 1024 + y" "y < 512" by (metis le_Suc_ex nat_add_left_cancel_less)
      then show ?thesis using kq [of y] by (auto simp: s1_def copy_kernel_half_def clear_frame_def frame_word [OF Q(1)] frame_word [OF K(1)] s0(4))
    qed (auto simp: s1_def copy_kernel_half_def clear_frame_def frame_word [OF Q(1)] frame_word [OF K(1)] s0(4))
  qed
  have pde: "pde_word s1 Q d = (if d < 512 then pde_word s K d else 0)" if "d < 1024" for d
    using that by (simp add: pde_word_def ph)
  have tab: "table_of s1 Q d = (if d < 512 then table_of s K d else 0)" if "d < 1024" for d
    using that by (simp add: table_of_def pde)
  have tq: "table_of s K d \<noteq> Q" if "d < 1024" "table_of s K d \<noteq> 0" for d using pdir_okD(1) [OF k that] Q(2) by auto
  have rest: "pageList s1 = pageList s0" "freeList s1 = q" "g_freePageCount s1 = g_freePageCount s0" "int_flag s1 = int_flag s"
    using s0(3,5) by (simp_all add: s1_def copy_kernel_half_def)
  have "Q \<notin> set q" using mem free by (simp add: mem_ok_def)
  then have pd: "pdir_ok s1 Q"
    unfolding pdir_ok_def
  proof (intro conjI allI impI)
    show "Q < 2 ^ 20" "Q \<notin> set (freeList s1)" if "Q \<notin> set q" using Q that rest(2) by simp_all
    fix d :: nat assume d: "d < 1024"
    show "pte_present (pde_word s1 Q d) = 0 \<longleftrightarrow> table_of s1 Q d = 0" using pdir_okD(4) [OF k d] d by (simp add: pde tab)
    show "table_of s1 Q d \<notin> set (freeList s1)" "table_of s1 Q d \<noteq> Q" if "table_of s1 Q d \<noteq> 0"
      using that d pdir_okD(1) [OF k d] tq [OF d] free rest(2) by (auto simp: tab split: if_splits)
    fix d' :: nat assume d': "d' < 1024" "table_of s1 Q d \<noteq> 0" "table_of s1 Q d = table_of s1 Q d'"
    then have lt: "d < 512" "d' < 512" using d by (auto simp: tab split: if_splits)
    with d' d have "table_of s K d \<noteq> 0" "table_of s K d = table_of s K d'" by (simp_all add: tab)
    from pdir_okD(3) [OF k d this(1) d'(1) this(2)] show "d = d'" .
  qed
  have ut: "\<not> user_table s1 Q d" for d using tab [of d] by (auto simp: user_table_def)
  have mem1: "mem_ok s1" using s0(2,3) mem_ok_cong [of s1 s0] rest by simp
  have used: "frame_used s1 Q" using s0(7) by (simp add: frame_used_def rest)
  have "aspace s1 Q (\<lambda>_. None) B"
    using pd mem1 used ut tab by (simp add: aspace_def entry_maps_def Let_def)
  moreover have "all_frames s1 Q (\<lambda>_. None) = set (freeList s)" using ut free by (auto simp: all_frames_def owned_def rest)
  moreover have "mmu_frame s1 (Get_Page_Address Q) va = mmu_frame s (Get_Page_Address K) va" if va: "PAGE_DIRECTORY_INDEX va < 512" for va
  proof -
    let ?d = "PAGE_DIRECTORY_INDEX va" and ?k = "PAGE_TABLE_INDEX va"
    have "phys s1 (table_of s K ?d * 1024 + ?k) = phys s (table_of s K ?d * 1024 + ?k)" if t: "table_of s K ?d \<noteq> 0"
    proof -
      have "table_of s K ?d \<noteq> Q" using tq [OF PDI_lt t] .
      then have "\<not> (Q * 1024 \<le> table_of s K ?d * 1024 + ?k \<and> table_of s K ?d * 1024 + ?k < Q * 1024 + 1024)" using PTI_lt [of va] by linarith
      then show ?thesis by (auto simp: ph)
    qed
    then show ?thesis using va pdir_okD(4) [OF k PDI_lt [of va]] PDI_lt [of va]
      by (auto simp: mmu_frame_words [OF Q(1)] mmu_frame_words [OF K(1)] pde tab Let_def)
  qed
  moreover have "\<forall>d. 512 \<le> d \<and> d < 1024 \<longrightarrow> table_of s1 Q d = 0" using tab by simp
  ultimately show ?thesis using s0(1) rest by (simp add: Let_def s1_def [symmetric])
qed

section \<open>The stack\<close>

lemma Page_Multiple_idx: "Is_Page_Multiple (PAGE_ADDR_BY_IDX x y)"
proof -
  have "PAGE_ADDR_BY_IDX x y = push_bit 12 (push_bit 10 x + y)"
    by (simp add: PAGE_ADDR_BY_IDX_def push_bit_eq_mult algebra_simps)
  moreover have "4096 dvd unat (push_bit 12 z :: u32)" for z
  proof -
    have "take_bit 12 (push_bit 12 z) = 0" by (simp add: take_bit_push_bit)
    then have "unat (take_bit 12 (push_bit 12 z)) = 0" by simp
    then show ?thesis by (simp only: unsigned_take_bit_eq take_bit_eq_mod) (simp add: dvd_eq_mod_eq_0 unat_mod)
  qed
  ultimately show ?thesis by (simp add: Is_Page_Multiple_dvd)
qed

lemma stack_page_ok:
  fixes j :: nat
  assumes a: "aspace s Q M B" and d: "user_table s Q d" and k: "k < 1024" and M: "M (d * 1024 + k) = None" and free: "freeList s \<noteq> []"
  defines "e \<equiv> Get_Page_Address (table_of s Q d) + 4 * word_of_nat k"
  shows "\<exists>f s1 M' B'. Alloc_Pageable_Page io_ok env e (PAGE_ADDR_BY_IDX (of_nat j) (of_nat k)) s = Some (Get_Page_Address f, s1) \<and>
    (let s' = set_pflags e 3 (set_present e 1 (set_base e (PAGE_ALLIGNED_ADDR (Get_Page_Address f)) s1)) in
      aspace s' Q M' B' \<and> grows s Q M s' M' {d * 1024 + k} {} 1 \<and> M' (d * 1024 + k) = Some f \<and>
      (\<forall>v. v \<noteq> d * 1024 + k \<longrightarrow> B' v = B v))"
proof -
  note A = aspaceD [OF a]
  obtain f q where fq: "freeList s = f # q" using free by (cases "freeList s") auto
  let ?E = "table_of s Q d * 1024 + k"
  have T: "table_of s Q d \<noteq> 0" "d < 1024" using d by (simp_all add: user_table_def)
  have e: "unat e div 4 = ?E" unfolding e_def by (rule entry_addr [OF table_of_lt k])
  obtain s1 where s1: "Alloc_Pageable_Page io_ok env e (PAGE_ADDR_BY_IDX (of_nat j) (of_nat k)) s = Some (Get_Page_Address f, s1)" "mem_ok s1" "freeList s1 = q"
    "int_flag s1 = int_flag s" "length (pageList s1) = length (pageList s)" "phys s1 = (phys s)(?E := bf_set 9 3 0 (phys s ?E))"
    "\<forall>g. g \<noteq> f \<longrightarrow> pageList s1 ! g = pageList s ! g" "frame_used s1 f"
    using Alloc_Pageable_Page_pages [OF A(2) fq Page_Multiple_idx, of io_ok env e] unfolding e by blast
  have f: "f < 2 ^ 20" using mem_okD [OF A(2), of f] fq by simp
  define s' where "s' = set_pflags e 3 (set_present e 1 (set_base e (PAGE_ALLIGNED_ADDR (Get_Page_Address f)) s1))"
  let ?w = "bf_set 1 4 3 (bf_set 0 1 1 (bf_set 12 20 (word_of_nat f) (bf_set 9 3 0 (phys s ?E))))"
  have ph: "phys s' = (phys s)(?E := ?w)" by (simp add: s'_def e s1(6) aligned_frame [OF f])
  have w: "pte_present ?w = 1" "pte_base ?w = word_of_nat f" using f by (simp_all add: take_bit_frame)
  have pl: "pageList s' = pageList s1" "freeList s' = freeList s1" "int_flag s' = int_flag s1" "g_freePageCount s' = g_freePageCount s1"
    by (simp_all add: s'_def)
  have rest: "mem_ok s'" "freeList s' = q" "int_flag s' = int_flag s" "length (pageList s') = length (pageList s)"
    "\<forall>g. g \<noteq> f \<longrightarrow> pageList s' ! g = pageList s ! g" "frame_used s' f"
    using s1 mem_ok_cong [OF pl(1,2,4)] by (simp_all add: frame_used_def pl)
  let ?B = "B(d * 1024 + k := (\<lambda>i. phys_byte s' (f * 4096 + i)))"
  obtain M' where "aspace s' Q M' ?B" "grows s Q M s' M' {d * 1024 + k} {} 1" "M' (d * 1024 + k) = Some f"
    using grows_page [OF a d k M fq rest(2,1,3,4,5,6), of "\<lambda>i. phys_byte s' (f * 4096 + i)"] ph w by auto
  then show ?thesis using s1(1) by (intro exI [of _ f] exI [of _ s1] exI [of _ M'] exI [of _ ?B]) (simp add: Let_def s'_def)
qed

lemma stack_pages_ok:
  fixes j :: nat
  assumes "aspace s Q M B" "user_table s Q d" "k + n \<le> 1024" "\<forall>v \<in> {d * 1024 + k..<d * 1024 + k + n}. M v = None" "n \<le> length (freeList s)"
  shows "\<exists>r s' M' B'. stack_pages io_ok env j (Get_Page_Address (table_of s Q d)) k n p s = Some (r, s') \<and> aspace s' Q M' B' \<and>
    grows s Q M s' M' {d * 1024 + k..<d * 1024 + k + n} {} n \<and> (\<forall>v. v \<notin> {d * 1024 + k..<d * 1024 + k + n} \<longrightarrow> B' v = B v) \<and>
    (if n = 0 then r = p else \<exists>f. M' (d * 1024 + k + n - 1) = Some f \<and> r = Get_Page_Address f)"
  using assms
proof (induction n arbitrary: s M B k p)
  case 0
  then show ?case by (intro exI [of _ p] exI [of _ s] exI [of _ M] exI [of _ B]) (simp add: grows_refl)
next
  case (Suc n)
  let ?v = "d * 1024 + k"
  let ?e = "Get_Page_Address (table_of s Q d) + 4 * word_of_nat k"
  have kM: "k < 1024" "M ?v = None" "freeList s \<noteq> []" using Suc.prems(3-5) by auto
  obtain f s0 s1 M1 B1 where s1: "Alloc_Pageable_Page io_ok env ?e (PAGE_ADDR_BY_IDX (of_nat j) (of_nat k)) s = Some (Get_Page_Address f, s0)"
    "s1 = set_pflags ?e 3 (set_present ?e 1 (set_base ?e (PAGE_ALLIGNED_ADDR (Get_Page_Address f)) s0))"
    "aspace s1 Q M1 B1" "grows s Q M s1 M1 {?v} {} 1" "M1 ?v = Some f" "\<forall>v. v \<noteq> ?v \<longrightarrow> B1 v = B v"
    using stack_page_ok [OF Suc.prems(1,2) kM, of io_ok env j] unfolding Let_def by blast
  note g = growsD [OF s1(4)]
  have d: "d < 1024" using Suc.prems(2) by (simp add: user_table_def)
  have T: "table_of s1 Q d = table_of s Q d" "user_table s1 Q d" using g(6) [OF d] Suc.prems(2) by (simp_all add: user_table_def)
  have none: "\<forall>v \<in> {d * 1024 + Suc k..<d * 1024 + Suc k + n}. M1 v = None" using Suc.prems(4) g(4) by auto
  have len: "n \<le> length (freeList s1)" using g(7) Suc.prems(5) by simp
  have sz: "Suc k + n \<le> 1024" using Suc.prems(3) by simp
  obtain r s2 M2 B2 where s2: "stack_pages io_ok env j (Get_Page_Address (table_of s1 Q d)) (Suc k) n (Get_Page_Address f) s1 = Some (r, s2)"
    "aspace s2 Q M2 B2" "grows s1 Q M1 s2 M2 {d * 1024 + Suc k..<d * 1024 + Suc k + n} {} n"
    "\<forall>v. v \<notin> {d * 1024 + Suc k..<d * 1024 + Suc k + n} \<longrightarrow> B2 v = B1 v"
    "if n = 0 then r = Get_Page_Address f else \<exists>f. M2 (d * 1024 + Suc k + n - 1) = Some f \<and> r = Get_Page_Address f"
    using Suc.IH [OF s1(3) T(2) sz none len, of "Get_Page_Address f"] by blast
  have R: "{?v} \<union> {d * 1024 + Suc k..<d * 1024 + Suc k + n} = {?v..<?v + Suc n}" by auto
  have "M2 ?v = Some f" using growsD(4) [OF s2(3), of ?v] s1(5) by simp
  then have last: "\<exists>f. M2 (d * 1024 + k + Suc n - 1) = Some f \<and> r = Get_Page_Address f" using s2(5) by (cases n) auto
  have "grows s Q M s2 M2 {?v..<?v + Suc n} {} (Suc n)" using grows_trans [OF s1(4) s2(3)] unfolding R by simp
  moreover have "stack_pages io_ok env j (Get_Page_Address (table_of s Q d)) k (Suc n) p s = Some (r, s2)"
    using s1(1,2) s2(1) T(1) by (simp add: Let_def)
  moreover have "\<forall>v. v \<notin> {?v..<?v + Suc n} \<longrightarrow> B2 v = B v" using s1(6) s2(4) by auto
  ultimately show ?case using s2(2) last by auto
qed

lemma aspace_put:
  assumes a: "aspace s Q M B" and v: "M v = Some f" and l: "length bs = 4096"
  shows "aspace (put_phys (f * 4096) bs s) Q M (B(v := (\<lambda>i. bs ! i)))" "same_kernel s (put_phys (f * 4096) bs s) Q"
    "all_frames (put_phys (f * 4096) bs s) Q M = all_frames s Q M"
proof -
  note A = aspaceD [OF a]
  let ?s = "put_phys (f * 4096) bs s"
  have word: "phys ?s (g * 1024 + k) = phys s (g * 1024 + k)" if "g \<noteq> f" "k < 1024" for g k
  proof (rule put_phys_other)
    have "g + 1 \<le> f \<or> f + 1 \<le> g" using that(1) by linarith
    then show "4 * (g * 1024 + k) + 4 \<le> f * 4096 \<or> f * 4096 + length bs \<le> 4 * (g * 1024 + k)"
      unfolding l using that(2) by (elim disjE) auto
  qed
  have tf: "table_of s Q c \<noteq> f" if "c < 1024" for c using A(9) [OF v that] .
  have pde: "pde_word ?s Q c = pde_word s Q c" if "c < 1024" for c using word [of Q c] A(8) [OF v] that by (simp add: pde_word_def)
  have tab: "table_of ?s Q c = table_of s Q c" if "c < 1024" for c using pde [OF that] by (simp add: table_of_def)
  have ut: "user_table ?s Q c = user_table s Q c" for c using tab by (auto simp: user_table_def)
  have used: "frame_used ?s g = frame_used s g" for g by (simp add: frame_used_def)
  show "aspace ?s Q M (B(v := (\<lambda>i. bs ! i)))"
    unfolding aspace_def used ut
  proof (intro conjI allI impI)
    show "pdir_ok ?s Q" using A(1) by (simp add: pdir_ok_def pde tab)
    show "mem_ok ?s" "frame_used s Q" "inj_on M (dom M)" using A(2,3,12) mem_ok_cong [of ?s s] by simp_all
    show "frame_used s (table_of ?s Q c)" if "user_table s Q c" for c using A(5) [OF that] tab that by (simp add: user_table_def)
    show "entry_maps ?s Q c k (M (c * 1024 + k))" if "512 \<le> c \<and> c < 1024 \<and> k < 1024" for c k
      using A(6) [of c k] that tab [of c] word [of "table_of s Q c" k] tf [of c] by (auto simp: entry_maps_def Let_def split: option.splits)
    fix x g assume m: "M x = Some g"
    show "2 ^ 19 \<le> x" "x < 2 ^ 20" "frame_used s g" "g \<noteq> Q" using A(7,8,11) [OF m] by simp_all
    show "table_of ?s Q c \<noteq> g" if "c < 1024" for c using A(9) [OF m that] tab [OF that] by simp
    show "phys_byte ?s (g * 4096 + o') = (B(v := (\<lambda>i. bs ! i))) x o'" if o: "o' < 4096" for o'
    proof (cases "x = v")
      case True
      then show ?thesis using m v o l by (simp add: phys_byte_put)
    next
      case False
      then have "g \<noteq> f" using A(12) m v by (auto simp: inj_on_def dom_def)
      then show ?thesis using False A(10) [OF m o] same_frame_bytes [OF _ o, of ?s g s] word by simp
    qed
  qed
  show "same_kernel s ?s Q" using pde word tf by (simp add: same_kernel_def)
  have "table_of ?s Q ` {c. user_table s Q c} = table_of s Q ` {c. user_table s Q c}"
    using tab by (intro image_cong) (auto simp: user_table_def)
  then show "all_frames ?s Q M = all_frames s Q M" by (simp add: all_frames_def owned_def ut)
qed

end
