(* ===== verification/UserProg.thy ===== *)
theory UserProg
  imports UserImage
begin

text \<open>
  Properties of user programs: after \<open>Load_User_Program\<close> built an address space the program's bytes, its
  arguments and the kernel are where they should be, and \<open>Destroy_User_Context\<close> returns every frame.
\<close>

section \<open>Reading a user address\<close>

text \<open>The byte at an address of the program, through the page tables.\<close>

definition user_byte :: "vm_state \<Rightarrow> u32 \<Rightarrow> u32 \<Rightarrow> u8 option" where
  "user_byte s pdbr a = map_option (\<lambda>f. phys_byte s (unat f * 4096 + unat (USER_BASE + a) mod 4096)) (mmu_frame s pdbr (USER_BASE + a))"

lemma aspace_mmu:
  assumes "aspace s Q M B" "512 \<le> PAGE_DIRECTORY_INDEX va"
  shows "mmu_frame s (Get_Page_Address Q) va = map_option of_nat (M (unat va div 4096))"
proof -
  note A = aspaceD [OF assms(1)]
  show ?thesis
    using A(6) [OF assms(2) PDI_lt PTI_lt, of va] pdir_okD(4) [OF A(1) PDI_lt, of va]
    by (auto simp: mmu_frame_words [OF A(4)] entry_maps_def page_number Let_def split: option.splits)
qed

lemma user_half: "unat a < 2 ^ 31 \<Longrightarrow> unat (USER_BASE + a) = 2 ^ 31 + unat a"
  by (simp add: unat_plus_if')

lemma aspace_byte:
  assumes a: "aspace s Q M B" and u: "unat a < 2 ^ 31" and m: "M ((2 ^ 31 + unat a) div 4096) = Some f"
  shows "user_byte s (Get_Page_Address Q) a = Some (B ((2 ^ 31 + unat a) div 4096) (unat a mod 4096))"
proof -
  note A = aspaceD [OF a]
  have d: "512 \<le> PAGE_DIRECTORY_INDEX (USER_BASE + a)" using user_half [OF u] by (simp add: PAGE_DIRECTORY_INDEX_nat)
  have f: "unat (word_of_nat f :: u32) = f" using used_small [OF A(2) A(7) [OF m]] by (rule word_idx_lt)
  have o: "unat (USER_BASE + a) mod 4096 = unat a mod 4096"
  proof -
    have "(2 ^ 31 + unat a) mod 4096 = unat a mod 4096" using mod_mult_self2 [of "unat a" 4096 524288] by (simp add: add.commute)
    then show ?thesis by (simp only: user_half [OF u])
  qed
  have mm: "mmu_frame s (Get_Page_Address Q) (USER_BASE + a) = Some (word_of_nat f)"
    unfolding aspace_mmu [OF a d] user_half [OF u] m by simp
  show ?thesis using A(10) [OF m, of "unat a mod 4096"] by (simp only: user_byte_def mm option.map f o mod_less_divisor simp_thms zero_less_numeral)
qed

section \<open>Loading\<close>

lemma load_stack_ok:
  assumes a: "aspace s Q M B" and z: "table_of s Q 1023 = 0"
    and n: "n = PAGE_TABLE_INDEX (DEFAULT_USER_STACK_SIZE + sz) + 1" "n + 1 \<le> length (freeList s)"
  shows "\<exists>f s' M' B'. load_stack io_ok env (Get_Page_Address Q) sz s = Some (Get_Page_Address f, s') \<and> aspace s' Q M' B' \<and>
    grows s Q M s' M' {2 ^ 20 - n..<2 ^ 20} {1023} (n + 1) \<and> (\<forall>v. v < 2 ^ 20 - n \<longrightarrow> B' v = B v) \<and> M' (2 ^ 20 - 1) = Some f"
proof -
  have n1: "1 \<le> n" "n \<le> 1024" using n(1) PTI_lt [of "DEFAULT_USER_STACK_SIZE + sz"] by simp_all
  have j: "PAGE_DIRECTORY_INDEX (PAGE_ADDR END_OF_VM) = 1023" by (simp add: PAGE_DIRECTORY_INDEX_nat PAGE_ADDR_nat)
  obtain i q where iq: "freeList s = i # q" using n(2) by (cases "freeList s") auto
  obtain s0 s1 where s1: "Alloc_Page s = Some (Get_Page_Address i, s0)"
    "s1 = link_table 3 (Get_Page_Address Q + 4 * word_of_nat 1023) (Get_Page_Address i) s0"
    "aspace s1 Q M B" "grows s Q M s1 M {} {1023} 1" "table_of s1 Q 1023 = i" "user_table s1 Q 1023"
    using aspace_new_table [OF a _ _ z iq, of 3] unfolding Let_def by auto
  have e: "1023 * 1024 + (1024 - n) = 2 ^ 20 - n" "1023 * 1024 + (1024 - n) + n = 2 ^ 20" using n1 by simp_all
  have e': "1048576 - n + n = 1048576" using n1 by simp
  have none: "\<forall>v \<in> {1023 * 1024 + (1024 - n)..<1023 * 1024 + (1024 - n) + n}. M v = None"
  proof
    fix v assume v: "v \<in> {1023 * 1024 + (1024 - n)..<1023 * 1024 + (1024 - n) + n}"
    then have "v = 1023 * 1024 + (v - 1023 * 1024)" "v - 1023 * 1024 < 1024" using n1 by auto
    then show "M v = None" using aspaceD(6) [OF a, of 1023 "v - 1023 * 1024"] z
      by (auto simp: entry_maps_def Let_def split: option.splits)
  qed
  have len: "n \<le> length (freeList s1)" using growsD(7) [OF s1(4)] n(2) by simp
  have sz: "1024 - n + n \<le> 1024" using n1 by simp
  obtain r s2 M2 B2 where s2: "stack_pages io_ok env 1023 (Get_Page_Address (table_of s1 Q 1023)) (1024 - n) n 0 s1 = Some (r, s2)"
    "aspace s2 Q M2 B2" "grows s1 Q M s2 M2 {2 ^ 20 - n..<2 ^ 20} {} n" "\<forall>v. v \<notin> {2 ^ 20 - n..<2 ^ 20} \<longrightarrow> B2 v = B v"
    "\<exists>f. M2 (1023 * 1024 + (1024 - n) + n - 1) = Some f \<and> r = Get_Page_Address f"
    using stack_pages_ok [OF s1(3,6) sz none len, of io_ok env 1023 0] n1(1) unfolding e by (auto simp: e')
  obtain f where f: "M2 (2 ^ 20 - 1) = Some f" "r = Get_Page_Address f" using s2(5) unfolding e by (auto simp: e')
  have "load_stack io_ok env (Get_Page_Address Q) sz s = Some (Get_Page_Address f, s2)"
    using s1(1,2) s2(1) f(2) s1(5) unfolding load_stack_def j Let_def n(1) [symmetric] link_table_def by simp
  moreover have "grows s Q M s2 M2 {2 ^ 20 - n..<2 ^ 20} {1023} (n + 1)" using grows_trans [OF s1(4) s2(3)] by simp
  ultimately show ?thesis using s2(2,4) f(1) by (intro exI [of _ f] exI [of _ s2] exI [of _ M2] exI [of _ B2]) simp
qed

lemma seg_pages_low: "seg_fits g \<Longrightarrow> v \<in> seg_pages g \<Longrightarrow> v < 1023 * 1024"
  by (auto simp: seg_fits_def seg_pages_def first_page_def)

text \<open>The frames a program needs: the directory, the pages and tables of the segments, the table of the stack
  and at most three pages of it.\<close>

definition frames_needed :: "Exe_Segment list \<Rightarrow> nat" where
  "frames_needed gs = seg_frames gs + 5"

lemma stack_size:
  assumes "n \<le> 4096"
  shows "PAGE_TABLE_INDEX (DEFAULT_USER_STACK_SIZE + of_nat n) \<le> 2" "1 \<le> PAGE_TABLE_INDEX (DEFAULT_USER_STACK_SIZE + of_nat n)"
proof -
  have "unat (DEFAULT_USER_STACK_SIZE + of_nat n) = 4096 + n"
    using assms by (simp add: unat_plus_if' unsigned_of_nat take_bit_nat_eq_self)
  then have i: "PAGE_TABLE_INDEX (DEFAULT_USER_STACK_SIZE + of_nat n) = (4096 + n) div 4096 mod 1024" by (simp only: PAGE_TABLE_INDEX_nat)
  have "(4096 + n) div 4096 = 1 + n div 4096" using div_add_self1 [of 4096 n] by simp
  moreover have "n div 4096 \<le> 1" using div_le_mono [OF assms, of 4096] by simp
  ultimately show "PAGE_TABLE_INDEX (DEFAULT_USER_STACK_SIZE + of_nat n) \<le> 2" "1 \<le> PAGE_TABLE_INDEX (DEFAULT_USER_STACK_SIZE + of_nat n)"
    unfolding i by simp_all
qed

text \<open>The program and its arguments are in the address space.\<close>

definition program_in :: "(nat \<Rightarrow> u8) \<Rightarrow> Exe_Segment list \<Rightarrow> u8 list \<Rightarrow> vm_state \<Rightarrow> nat \<Rightarrow> (nat \<rightharpoonup> nat) \<Rightarrow> (nat \<Rightarrow> nat \<Rightarrow> u8) \<Rightarrow> bool" where
  "program_in img gs blk s Q M B \<longleftrightarrow> aspace s Q M B \<and> (\<forall>g\<in>set gs. \<forall>v\<in>seg_pages g. M v \<noteq> None \<and> B v = seg_content img g v) \<and>
     M (2 ^ 20 - 2) \<noteq> None \<and> M (2 ^ 20 - 1) \<noteq> None \<and> (\<forall>i < length blk. B (2 ^ 20 - 1) i = blk ! i)"

text \<open>What \<open>load_image\<close> leaves.\<close>

definition loaded ::
  "(nat \<Rightarrow> u8) \<Rightarrow> Exe_Segment list \<Rightarrow> u8 list \<Rightarrow> u32 \<Rightarrow> vm_state \<Rightarrow> nat \<Rightarrow> vm_state \<Rightarrow> (nat \<rightharpoonup> nat) \<Rightarrow> (nat \<Rightarrow> nat \<Rightarrow> u8) \<Rightarrow> bool" where
  "loaded img gs blk pdbr s Q s' M B \<longleftrightarrow> program_in img gs blk s' Q M B \<and> all_frames s' Q M = set (freeList s) \<and> int_flag s' = int_flag s \<and>
     (\<forall>va. PAGE_DIRECTORY_INDEX va < 512 \<longrightarrow> mmu_frame s' (Get_Page_Address Q) va = mmu_frame s pdbr va) \<and>
     length (freeList s) \<le> length (freeList s') + frames_needed gs"

lemma load_image_ok:
  fixes xs :: "u8 list"
  defines "user \<equiv> PAGE_ADDR END_OF_VM - USER_BASE"
  assumes k: "pdir_ok s K" and mem: "mem_ok s" and gs: "take (numSegments fmt) (segmentList fmt) = gs" "numSegments fmt \<le> length (segmentList fmt)" "segs_ok gs"
    and cmd: "text_at cmd 0 xs" "block_size (args xs) \<le> 4096" and free: "frames_needed gs \<le> length (freeList s)"
  shows "\<exists>Q s' M B. load_image io_ok env (Get_Page_Address K) img fmt cmd s = Some (Get_Page_Address Q, s') \<and>
    loaded img gs (block_of user (args xs)) (Get_Page_Address K) s Q s' M B"
proof -
  let ?sz = "of_nat (block_size (args xs)) :: u32"
  obtain Q q where Qq: "freeList s = Q # q" using free by (cases "freeList s") (auto simp: frames_needed_def)
  define B0 :: "nat \<Rightarrow> nat \<Rightarrow> u8" where "B0 = (\<lambda>_ _. 0)"
  obtain s0 s1 where s1: "Alloc_Page s = Some (Get_Page_Address Q, s0)"
    "s1 = copy_kernel_half (Get_Page_Address K) (Get_Page_Address Q) (clear_frame (Get_Page_Address Q) s0)"
    "aspace s1 Q (\<lambda>_. None) B0" "all_frames s1 Q (\<lambda>_. None) = set (freeList s)" "freeList s1 = q" "int_flag s1 = int_flag s"
    "\<forall>d. 512 \<le> d \<and> d < 1024 \<longrightarrow> table_of s1 Q d = 0"
    "\<forall>va. PAGE_DIRECTORY_INDEX va < 512 \<longrightarrow> mmu_frame s1 (Get_Page_Address Q) va = mmu_frame s (Get_Page_Address K) va"
    using new_directory [OF k mem Qq, of B0] unfolding Let_def by blast
  have l1: "seg_frames gs + 4 \<le> length (freeList s1)" using free Qq s1(5) by (simp add: frames_needed_def)
  obtain s2 M2 where s2: "load_segments io_ok env img (segmentList fmt) (Get_Page_Address Q) 0 (numSegments fmt) s1 = Some s2"
    "aspace s2 Q M2 (fill_segs img gs B0)"
    "grows s1 Q (\<lambda>_. None) s2 M2 (\<Union> (seg_pages ` set gs)) ((\<lambda>g. PAGE_DIRECTORY_INDEX (seg_start g)) ` set gs) (seg_frames gs)"
  proof -
    have "0 + numSegments fmt \<le> length (segmentList fmt)" "take (numSegments fmt) (drop 0 (segmentList fmt)) = gs" using gs(1,2) by simp_all
    from load_segments_ok [where io_ok = io_ok and env = env and img = img, OF s1(3) this gs(3)] l1 that show ?thesis by auto
  qed
  note G2 = growsD [OF s2(3)]
  have fit: "seg_fits g" if "g \<in> set gs" for g using gs(3) that by (induction gs) auto
  have "1023 \<notin> (\<lambda>g. PAGE_DIRECTORY_INDEX (seg_start g)) ` set gs" using fit by (fastforce simp: seg_fits_def)
  then have z: "table_of s2 Q 1023 = 0" using G2(6) [of 1023] s1(7) by simp
  define n where "n = PAGE_TABLE_INDEX (DEFAULT_USER_STACK_SIZE + ?sz) + 1"
  have n: "2 \<le> n" "n \<le> 3" using stack_size [OF cmd(2)] by (simp_all add: n_def)
  have l2: "n + 1 \<le> length (freeList s2)" using G2(7) l1 n by simp
  obtain f s3 M3 B3 where s3: "load_stack io_ok env (Get_Page_Address Q) ?sz s2 = Some (Get_Page_Address f, s3)" "aspace s3 Q M3 B3"
    "grows s2 Q M2 s3 M3 {2 ^ 20 - n..<2 ^ 20} {1023} (n + 1)" "\<forall>v. v < 2 ^ 20 - n \<longrightarrow> B3 v = fill_segs img gs B0 v" "M3 (2 ^ 20 - 1) = Some f"
    using load_stack_ok [OF s2(2) z n_def l2, of io_ok env] by blast
  note G3 = growsD [OF s3(3)]
  have f: "f < 2 ^ 20" using used_small [OF aspaceD(2,7) [OF s3(2)]] s3(5) aspaceD(2,7) [OF s3(2)] by blast
  let ?fb = "frame_bytes s3 (Get_Page_Address f)"
  have lfb: "length ?fb = 4096" by (simp add: frame_bytes_def)
  define blk where "blk = block_of user (args xs) @ drop (block_size (args xs)) ?fb"
  have lb: "length blk = 4096" using lfb cmd(2) by (simp add: blk_def length_block_of)
  have arg: "Get_Argument_Block_Size cmd = Some (of_nat (length (args xs)), ?sz)"
    "Format_Argument_Block ?fb (of_nat (length (args xs))) user cmd = Some blk"
    using Argument_Block_ok(1) [OF cmd(1), of ?fb] Argument_Block_ok(2) [OF cmd(1), of ?fb user] cmd(2) lfb by (simp_all add: blk_def)
  define s4 where "s4 = put_phys (f * 4096) blk s3"
  have run: "load_image io_ok env (Get_Page_Address K) img fmt cmd s = Some (Get_Page_Address Q, s4)"
    using s1(1,2) s2(1) s3(1) arg by (simp add: load_image_def user_def Let_def s4_def Get_Page_Address_nat [OF f])
  note P = aspace_put [OF s3(2,5) lb, folded s4_def]
  let ?B = "B3(2 ^ 20 - 1 := (\<lambda>i. blk ! i))"
  have seg: "M3 v \<noteq> None \<and> ?B v = seg_content img g v" if "g \<in> set gs" "v \<in> seg_pages g" for g v
  proof -
    have "v < 1023 * 1024" using seg_pages_low [OF fit [OF that(1)] that(2)] .
    then have v: "v < 2 ^ 20 - n" "v \<noteq> 2 ^ 20 - 1" using n by simp_all
    then have "M3 v = M2 v" using G3(4) [of v] by simp
    then show ?thesis using G2(5) [of v] that v s3(4) fill_segs_in [OF gs(3) that] by auto
  qed
  have kern: "same_kernel s1 s4 Q" using same_kernel_trans [OF same_kernel_trans [OF G2(1) G3(1)] P(2)] .
  have map: "mmu_frame s4 (Get_Page_Address Q) va = mmu_frame s (Get_Page_Address K) va" if "PAGE_DIRECTORY_INDEX va < 512" for va
    using same_kernel_mmu [OF kern aspaceD(1) [OF s1(3)] that] s1(8) that by simp
  have bl: "\<forall>i < length (block_of user (args xs)). ?B (2 ^ 20 - 1) i = block_of user (args xs) ! i" by (simp add: blk_def nth_append)
  have inv: "all_frames s4 Q M3 = set (freeList s)" "int_flag s4 = int_flag s"
    using P(3) G2(2,3) G3(2,3) s1(4,6) by (simp_all add: s4_def)
  have fl: "length (freeList s) \<le> length (freeList s4) + frames_needed gs"
    using G2(7) G3(7) Qq s1(5) n by (simp add: s4_def frames_needed_def)
  have "M3 (2 ^ 20 - 2) \<noteq> None" using n by (intro G3(5)) simp
  then have "loaded img gs (block_of user (args xs)) (Get_Page_Address K) s Q s4 M3 ?B"
    unfolding loaded_def program_in_def using P(1) inv seg map s3(5) bl fl by blast
  then show ?thesis using run by blast
qed


section \<open>The bytes of a segment\<close>

lemma end_of_data_nat:
  assumes "seg_fits g"
  shows "end_of_data g = unat (startAddress g) mod 4096 + unat (lengthInFile g) mod 4096"
proof -
  let ?c = "unat (startAddress g) mod 4096" and ?L = "unat (lengthInFile g)"
  have L: "?L < 2 ^ 22" "?c + ?L mod 4096 < 4096" using assms by (simp_all add: seg_fits_def)
  have c: "?c < 4096" by simp
  have "unat (startAddress g mod 4096 + lengthInFile g) = ?c + ?L"
  proof -
    have "?c + ?L < 4294967296" using L(1) c by simp
    moreover have "unat (startAddress g mod 4096) = ?c" by (simp add: unat_mod)
    ultimately show ?thesis by (simp add: unat_plus_if')
  qed
  then have "end_of_data g = (?c + ?L) mod 4096" by (simp add: end_of_data_def unat_mod)
  also have "\<dots> = ?c + ?L mod 4096" using L(2) mod_add_right_eq [of ?c ?L 4096] by simp
  finally show ?thesis .
qed

lemma seg_byte:
  assumes f: "seg_fits g" and t: "t < unat (lengthInFile g)"
  defines "v \<equiv> (2 ^ 31 + (unat (startAddress g) + t)) div 4096"
  shows "v \<in> seg_pages g" "seg_content img g v ((unat (startAddress g) + t) mod 4096) = img (unat (offsetInFile g) + t)"
    "unat (startAddress g) + t < 2 ^ 31"
proof -
  define S L F where "S = unat (startAddress g)" and "L = unat (lengthInFile g)" and "F = unat (offsetInFile g)"
  define c k where "c = S mod 4096" and "k = (c + t) div 4096"
  have fits: "S < 2 ^ 31" "L < 2 ^ 22" "F mod 4096 = c" "F + L < 2 ^ 32" "c + L mod 4096 < 4096"
    "PAGE_TABLE_INDEX (seg_start g) + num_pages g \<le> 1024" "PAGE_DIRECTORY_INDEX (seg_start g) < 1023"
    using f by (simp_all add: seg_fits_def S_def L_def F_def c_def)
  have tL: "t < L" using t by (simp add: L_def)
  have Sc: "S = 4096 * (S div 4096) + c" and Lr: "L = 4096 * (L div 4096) + L mod 4096" and Fc: "F = 4096 * (F div 4096) + c"
    using fits(3) mult_div_mod_eq [of 4096 F] by (simp_all add: c_def)
  have kL: "k \<le> L div 4096"
  proof -
    have "c + t < 4096 * (L div 4096) + 4096" using tL Lr fits(5) by linarith
    then have "c + t < 4096 * (L div 4096 + 1)" by simp
    then have "k < L div 4096 + 1" unfolding k_def by (metis less_mult_imp_div_less mult.commute)
    then show ?thesis by simp
  qed
  have pti: "PAGE_TABLE_INDEX (lengthInFile g) = L div 4096"
    using fits(2) by (simp add: PAGE_TABLE_INDEX_nat L_def [symmetric] div_less_iff_less_mult)
  have fp: "first_page g = 2 ^ 19 + S div 4096"
  proof -
    have "first_page g = unat (seg_start g) div 4096" by (simp add: first_page_def page_number)
    also have "unat (seg_start g) = S + 524288 * 4096" using fits(1) seg_start_nat [of g] by (simp add: S_def)
    finally show ?thesis using div_mult_self1 [of 4096 S 524288] by (simp add: add.commute)
  qed
  have st: "(S + t) div 4096 = S div 4096 + k" "(S + t) mod 4096 = (c + t) mod 4096"
  proof -
    have e: "S + t = c + t + 4096 * (S div 4096)" using Sc by linarith
    have "(S + t) div 4096 = (c + t + 4096 * (S div 4096)) div 4096" using e by (rule arg_cong)
    also have "\<dots> = S div 4096 + k" unfolding k_def by (rule div_mult_self2) simp
    finally show "(S + t) div 4096 = S div 4096 + k" .
    have "(S + t) mod 4096 = (c + t + 4096 * (S div 4096)) mod 4096" using e by (rule arg_cong)
    also have "\<dots> = (c + t) mod 4096" by (rule mod_mult_self2)
    finally show "(S + t) mod 4096 = (c + t) mod 4096" .
  qed
  have v: "v = first_page g + k"
  proof -
    have "2 ^ 31 + (S + t) = S + t + 524288 * 4096" by simp
    then have "v = 524288 + (S + t) div 4096" unfolding v_def S_def [symmetric] using div_mult_self1 [of 4096 "S + t" 524288] by simp
    then show ?thesis by (simp add: fp st(1))
  qed
  show in_seg: "v \<in> seg_pages g" using kL by (simp add: v seg_pages_def num_pages_def pti)
  show "unat (startAddress g) + t < 2 ^ 31"
  proof -
    have "v < 1023 * 1024" using seg_pages_low [OF f in_seg] .
    then show ?thesis unfolding v_def S_def [symmetric] by (simp add: div_less_iff_less_mult)
  qed
  have k20: "k < 2 ^ 20" using kL fits(2) by (simp add: div_less_iff_less_mult less_le_trans)
  have idx: "unat (PAGE_ADDR_BY_IDX 0 (of_nat k)) = k * 4096"
    using Get_Page_Address_nat [OF k20] by (simp add: PAGE_ADDR_BY_IDX_def Get_Page_Address_def)
  have kF: "F + 4096 * k < 2 ^ 32" using kL Lr fits(4) by linarith
  then have "unat (offsetInFile g + PAGE_ADDR_BY_IDX 0 (of_nat k)) = F + 4096 * k"
    by (simp add: unat_plus_if' idx F_def [symmetric] mult.commute)
  then have src: "unat (PAGE_ADDR (offsetInFile g + PAGE_ADDR_BY_IDX 0 (of_nat k))) = 4096 * (F div 4096) + 4096 * k"
    by (simp add: PAGE_ADDR_nat)
  have ct: "c + t = 4096 * k + (c + t) mod 4096" by (simp add: k_def)
  have e: "end_of_data g = c + L mod 4096" using end_of_data_nat [OF f] by (simp add: c_def S_def L_def)
  have data: "\<not> (k = L div 4096 \<and> end_of_data g \<le> (c + t) mod 4096)" unfolding e using ct tL Lr by linarith
  have "4096 * (F div 4096) + 4096 * k + (c + t) mod 4096 = F + t" using Fc ct by linarith
  then show "seg_content img g v ((unat (startAddress g) + t) mod 4096) = img (unat (offsetInFile g) + t)"
    unfolding S_def [symmetric] F_def [symmetric] st(2) using data
    by (auto simp add: seg_content_def v page_content_def pti src simp del: of_nat_mult)
qed

section \<open>Destroying\<close>

text \<open>The frames \<open>F\<close> have been freed since \<open>s0\<close>.\<close>

definition freed :: "vm_state \<Rightarrow> vm_state \<Rightarrow> nat set \<Rightarrow> bool" where
  "freed s0 s F \<longleftrightarrow> phys s = phys s0 \<and> mem_ok s \<and> set (freeList s) = set (freeList s0) \<union> F \<and>
     length (pageList s) = length (pageList s0) \<and> (\<forall>f. f \<notin> F \<longrightarrow> pageList s ! f = pageList s0 ! f)"

lemma freed_int_flag [simp]: "freed s0 (s\<lparr>int_flag := b\<rparr>) F = freed s0 s F"
  using mem_ok_cong [of "s\<lparr>int_flag := b\<rparr>" s] by (simp add: freed_def)

lemma free_frame:
  assumes "freed s0 s F" "frame_used s0 f" "f \<notin> F"
  shows "\<exists>s'. Free_Page (Get_Page_Address f) s = Some s' \<and> freed s0 s' (insert f F) \<and> int_flag s' = int_flag s"
proof -
  have m: "mem_ok s" and u: "frame_used s f" using assms by (auto simp: freed_def frame_used_def)
  note f20 = used_small [OF m u]
  have pre: "Is_Page_Multiple (Get_Page_Address f)" "Page_Index (Get_Page_Address f) = f" "0 < f" "f < length (pageList s)"
    "has_flag PAGE_ALLOCATED (pageList s ! f)" "\<not> has_flag PAGE_LOCKED (pageList s ! f)"
    using u f20 by (simp_all add: frame_used_def Page_Index_Address)
  note eq = Free_Page_eq [OF m pre(1,2,4,5,6)]
  from Free_Page_ok [OF m pre eq] show ?thesis unfolding eq using assms(1) by (auto simp: freed_def)
qed

text \<open>What is freed when the tables below \<open>d\<close> and the entries below \<open>j\<close> of table \<open>d\<close> are.\<close>

definition freed_upto :: "vm_state \<Rightarrow> nat \<Rightarrow> (nat \<rightharpoonup> nat) \<Rightarrow> nat \<Rightarrow> nat \<Rightarrow> nat set" where
  "freed_upto s Q M d j = {f. \<exists>v < d * 1024 + j. M v = Some f} \<union> table_of s Q ` {c. user_table s Q c \<and> c < d}"

lemma freed_upto_Suc: "freed_upto s Q M d (Suc j) = (case M (d * 1024 + j) of None \<Rightarrow> freed_upto s Q M d j | Some f \<Rightarrow> insert f (freed_upto s Q M d j))"
  by (auto simp: freed_upto_def less_Suc_eq split: option.splits)

lemma freed_upto_next: "freed_upto s Q M (Suc d) 0 = freed_upto s Q M d 1024 \<union> (if user_table s Q d then {table_of s Q d} else {})"
  by (auto simp: freed_upto_def less_Suc_eq)

lemma free_entry_ok:
  assumes a: "aspace s0 Q M B" and d: "user_table s0 Q d" "j < 1024" and s: "freed s0 s (freed_upto s0 Q M d j)" "int_flag s"
  shows "\<exists>s'. free_entry (Get_Page_Address (table_of s0 Q d)) j s = Some s' \<and> freed s0 s' (freed_upto s0 Q M d (Suc j)) \<and> int_flag s'"
proof -
  note A = aspaceD [OF a]
  have dd: "512 \<le> d" "d < 1024" "table_of s0 Q d \<noteq> 0" using d by (simp_all add: user_table_def)
  let ?w = "phys s0 (table_of s0 Q d * 1024 + j)"
  let ?s = "s\<lparr>int_flag := False\<rparr>"
  have rd: "rd32 ?s (Get_Page_Address (table_of s0 Q d) + 4 * word_of_nat j) = ?w"
    using s(1) by (simp add: rd32_def entry_addr [OF table_of_lt d(2)] freed_def)
  have fr: "freed s0 ?s (freed_upto s0 Q M d j)" using s(1) by simp
  have e: "entry_maps s0 Q d j (M (d * 1024 + j))" using A(6) dd(1,2) d(2) by blast
  show ?thesis
  proof (cases "M (d * 1024 + j)")
    case None
    then have "pte_present ?w = 0" "pte_kernelInfo ?w \<noteq> 4" using e dd(3) by (simp_all add: entry_maps_def Let_def)
    then have "free_entry (Get_Page_Address (table_of s0 Q d)) j s = Some (?s\<lparr>int_flag := True\<rparr>)"
      using s(2) rd by (simp add: free_entry_def Let_def)
    moreover have "freed s0 (?s\<lparr>int_flag := True\<rparr>) (freed_upto s0 Q M d (Suc j))"
      using s(1) None by (simp add: freed_upto_Suc)
    ultimately show ?thesis by simp
  next
    case (Some f)
    then have w: "pte_present ?w = 1" "pte_base ?w = word_of_nat f" using e by (simp_all add: entry_maps_def Let_def)
    have "f \<notin> freed_upto s0 Q M d j"
      using Some A(9) [OF Some] A(12) by (fastforce simp: freed_upto_def inj_on_def dom_def user_table_def)
    from free_frame [OF fr A(7) [OF Some] this] obtain s1 where s1: "Free_Page (Get_Page_Address f) ?s = Some s1"
      "freed s0 s1 (insert f (freed_upto s0 Q M d j))" "\<not> int_flag s1" by auto
    have "free_entry (Get_Page_Address (table_of s0 Q d)) j s = Some (s1\<lparr>int_flag := True\<rparr>)"
      using s(2) rd w s1(1,3) by (simp add: free_entry_def Let_def Get_Page_Address_def)
    moreover have "freed s0 (s1\<lparr>int_flag := True\<rparr>) (freed_upto s0 Q M d (Suc j))"
      using s1(2) Some by (simp add: freed_upto_Suc)
    ultimately show ?thesis by simp
  qed
qed

lemma free_entries_ok:
  assumes "aspace s0 Q M B" "user_table s0 Q d" "j + n \<le> 1024" "freed s0 s (freed_upto s0 Q M d j)" "int_flag s"
  shows "\<exists>s'. free_entries (Get_Page_Address (table_of s0 Q d)) j n s = Some s' \<and> freed s0 s' (freed_upto s0 Q M d (j + n)) \<and> int_flag s'"
  using assms
proof (induction n arbitrary: j s)
  case (Suc n)
  obtain s1 where s1: "free_entry (Get_Page_Address (table_of s0 Q d)) j s = Some s1" "freed s0 s1 (freed_upto s0 Q M d (Suc j))" "int_flag s1"
    using free_entry_ok [OF Suc.prems(1,2) _ Suc.prems(4,5)] Suc.prems(3) by auto
  from Suc.IH [OF Suc.prems(1,2) _ s1(2,3)] Suc.prems(3) s1(1) show ?case by auto
qed simp

lemma free_tables_ok:
  assumes "aspace s0 Q M B" "512 \<le> d" "d + n \<le> 1024" "freed s0 s (freed_upto s0 Q M d 0)" "int_flag s"
  shows "\<exists>s'. free_tables (Get_Page_Address Q) d n s = Some s' \<and> freed s0 s' (freed_upto s0 Q M (d + n) 0) \<and> int_flag s'"
  using assms
proof (induction n arbitrary: d s)
  case (Suc n)
  note A = aspaceD [OF Suc.prems(1)]
  have d: "d < 1024" using Suc.prems(3) by simp
  let ?T = "table_of s0 Q d"
  have "rd32 s (Get_Page_Address Q + 4 * word_of_nat d) = pde_word s0 Q d"
    using Suc.prems(4) by (simp add: rd32_def entry_addr [OF A(4) d] pde_word_def freed_def)
  then have b: "pte_base (rd32 s (Get_Page_Address Q + 4 * word_of_nat d)) = word_of_nat ?T" by (simp add: table_of_def)
  have T0: "(word_of_nat ?T :: u32) = 0 \<longleftrightarrow> ?T = 0"
  proof
    assume "(word_of_nat ?T :: u32) = 0"
    then have "unat (word_of_nat ?T :: u32) = 0" by (simp only: unsigned_0)
    then show "?T = 0" unfolding word_idx_lt [OF table_of_lt [of s0 Q d]] .
  next
    assume T: "?T = 0"
    show "(word_of_nat ?T :: u32) = 0" unfolding T by simp
  qed
  have "\<exists>s1. (if ?T = 0 then Some s else do { s \<leftarrow> free_entries (Get_Page_Address ?T) 0 1024 s; Free_Page (Get_Page_Address ?T) s }) = Some s1 \<and>
    freed s0 s1 (freed_upto s0 Q M (Suc d) 0) \<and> int_flag s1"
  proof (cases "?T = 0")
    case True
    have none: "M (d * 1024 + k) = None" if "k < 1024" for k
      using A(6) [OF Suc.prems(2) d that] True by (simp add: entry_maps_def Let_def split: option.splits)
    have "freed_upto s0 Q M d k = freed_upto s0 Q M d 0" if "k \<le> 1024" for k
      using that by (induction k) (simp_all add: freed_upto_Suc none)
    from this [of 1024] have "freed_upto s0 Q M (Suc d) 0 = freed_upto s0 Q M d 0" using True by (simp add: freed_upto_next user_table_def)
    then show ?thesis using True Suc.prems(4,5) by (intro exI [of _ s]) (simp del: free_entries.simps)
  next
    case False
    then have ut: "user_table s0 Q d" using Suc.prems(2) d by (simp add: user_table_def)
    obtain s1 where s1: "free_entries (Get_Page_Address ?T) 0 1024 s = Some s1" "freed s0 s1 (freed_upto s0 Q M d 1024)" "int_flag s1"
      using free_entries_ok [OF Suc.prems(1) ut, of 0 1024] Suc.prems(4,5) by auto
    have "?T \<notin> freed_upto s0 Q M d 1024"
    proof
      assume "?T \<in> freed_upto s0 Q M d 1024"
      then consider v where "M v = Some ?T" | c where "user_table s0 Q c" "c < d" "?T = table_of s0 Q c" by (auto simp: freed_upto_def)
      then show False
      proof cases
        case 1
        then show ?thesis using A(9) [OF 1 d] by simp
      next
        case 2
        then show ?thesis using pdir_okD(3) [OF A(1) d False, of c] by (simp add: user_table_def)
      qed
    qed
    from free_frame [OF s1(2) A(5) [OF ut] this] obtain s2 where "Free_Page (Get_Page_Address ?T) s1 = Some s2"
      "freed s0 s2 (insert ?T (freed_upto s0 Q M d 1024))" "int_flag s2" using s1(3) by auto
    then show ?thesis using False s1(1) ut by (auto simp: freed_upto_next)
  qed
  then obtain s1 where s1: "(if ?T = 0 then Some s else do { s \<leftarrow> free_entries (Get_Page_Address ?T) 0 1024 s; Free_Page (Get_Page_Address ?T) s }) = Some s1"
    "freed s0 s1 (freed_upto s0 Q M (Suc d) 0)" "int_flag s1" by blast
  have "free_tables (Get_Page_Address Q) d (Suc n) s = free_tables (Get_Page_Address Q) (Suc d) n s1"
    using s1(1) unfolding free_tables.simps Let_def b T0 Get_Page_Address_def [symmetric] by (simp del: free_entries.simps split: if_splits)
  then show ?case using Suc.IH [OF Suc.prems(1) _ _ s1(2,3)] Suc.prems(2,3) by auto
qed simp

lemma free_image_ok:
  assumes a: "aspace s Q M B" and i: "int_flag s"
  shows "\<exists>s'. free_image (Get_Page_Address Q) s = Some s' \<and> mem_ok s' \<and> set (freeList s') = all_frames s Q M \<and> int_flag s'"
proof -
  note A = aspaceD [OF a]
  have "freed_upto s Q M 512 0 = {}" using A(11) by (fastforce simp: freed_upto_def user_table_def)
  then have f0: "freed s s (freed_upto s Q M 512 0)" using A(2) by (simp add: freed_def)
  obtain s1 where s1: "free_tables (Get_Page_Address Q) 512 512 s = Some s1" "freed s s1 (freed_upto s Q M 1024 0)" "int_flag s1"
    using free_tables_ok [OF a _ _ f0 i, of 512] by auto
  have up: "freed_upto s Q M 1024 0 = ran M \<union> table_of s Q ` {c. user_table s Q c}"
    using A(11) by (fastforce simp: freed_upto_def ran_def user_table_def)
  have "Q \<notin> freed_upto s Q M 1024 0"
  proof
    assume "Q \<in> freed_upto s Q M 1024 0"
    then consider v where "M v = Some Q" | d where "user_table s Q d" "Q = table_of s Q d" unfolding up by (auto simp: ran_def)
    then show False
    proof cases
      case 1
      then show ?thesis using A(8) [OF 1] by simp
    next
      case 2
      then show ?thesis using pdir_okD(2) [OF A(1), of d] by (simp add: user_table_def)
    qed
  qed
  from free_frame [OF s1(2) A(3) this] obtain s2 where s2: "Free_Page (Get_Page_Address Q) s1 = Some s2"
    "freed s s2 (insert Q (freed_upto s Q M 1024 0))" "int_flag s2 = int_flag s1" by blast
  have "PAGE_DIRECTORY_INDEX USER_BASE = 512" by (simp add: PAGE_DIRECTORY_INDEX_nat)
  then have "free_image (Get_Page_Address Q) s = Some s2" using s1(1) s2(1) by (simp add: free_image_def Let_def del: free_tables.simps)
  then show ?thesis using s2(2,3) s1(3) by (auto simp: freed_def up all_frames_def owned_def)
qed

section \<open>Properties\<close>

lemma program_bytes:
  fixes g :: Exe_Segment
  assumes l: "program_in img gs blk s' Q M B" and b: "length blk \<le> 4096"
  shows "g \<in> set gs \<Longrightarrow> seg_fits g \<Longrightarrow> t < unat (lengthInFile g) \<Longrightarrow>
      user_byte s' (Get_Page_Address Q) (startAddress g + of_nat t) = Some (img (unat (offsetInFile g) + t))"
    "i < length blk \<Longrightarrow> user_byte s' (Get_Page_Address Q) (0x7FFFF000 + of_nat i) = Some (blk ! i)"
    "i < 4096 \<Longrightarrow> user_byte s' (Get_Page_Address Q) (0x7FFFE000 + of_nat i) \<noteq> None"
proof -
  have a: "aspace s' Q M B" and st: "M (2 ^ 20 - 2) \<noteq> None" "M (2 ^ 20 - 1) \<noteq> None" "\<forall>i < length blk. B (2 ^ 20 - 1) i = blk ! i"
    and seg: "\<forall>g\<in>set gs. \<forall>v\<in>seg_pages g. M v \<noteq> None \<and> B v = seg_content img g v"
    using l by (simp_all add: program_in_def)
  show "user_byte s' (Get_Page_Address Q) (startAddress g + of_nat t) = Some (img (unat (offsetInFile g) + t))"
    if g: "g \<in> set gs" "seg_fits g" and t: "t < unat (lengthInFile g)"
  proof -
    note S = seg_byte [OF g(2) t]
    have "t < 2 ^ 32" using t unat_lt_32 [of "lengthInFile g"] by simp
    then have "unat (of_nat t :: u32) = t" by (simp add: unsigned_of_nat take_bit_nat_eq_self)
    then have n: "unat (startAddress g + of_nat t) = unat (startAddress g) + t" using S(3) by (simp add: unat_plus_if')
    let ?v = "(2 ^ 31 + (unat (startAddress g) + t)) div 4096"
    obtain f where f: "M ?v = Some f" "B ?v = seg_content img g ?v" using seg g(1) S(1) by blast
    have u: "unat (startAddress g + of_nat t) < 2 ^ 31" unfolding n by (rule S(3))
    have "M ((2 ^ 31 + unat (startAddress g + of_nat t)) div 4096) = Some f" unfolding n by (rule f(1))
    from aspace_byte [OF a u this] show ?thesis unfolding n f(2) S(2) .
  qed
  have top: "unat (c + of_nat i :: u32) = unat c + i" if "i < 4096" "unat c + 4096 \<le> 2 ^ 31" for c :: u32 and i
  proof -
    have "unat (of_nat i :: u32) = i" using that(1) by (simp add: unsigned_of_nat take_bit_nat_eq_self)
    then show ?thesis using that by (simp add: unat_plus_if')
  qed
  show "user_byte s' (Get_Page_Address Q) (0x7FFFF000 + of_nat i) = Some (blk ! i)" if i: "i < length blk"
  proof -
    have n: "unat (0x7FFFF000 + of_nat i :: u32) = 2147479552 + i" using top [of i "0x7FFFF000"] i b by simp
    have i4: "i < 4096" using i b by simp
    have v: "(2 ^ 31 + (2147479552 + i)) div 4096 = (2 ^ 20 - 1 :: nat)" using div_mult_self1 [of 4096 i 1048575] i4 by simp
    obtain f where f: "M (2 ^ 20 - 1) = Some f" using st(2) by blast
    have m: "M ((2 ^ 31 + unat (0x7FFFF000 + of_nat i :: u32)) div 4096) = Some f" unfolding n v by (rule f)
    have u: "unat (0x7FFFF000 + of_nat i :: u32) < 2 ^ 31" unfolding n using i4 by simp
    have "user_byte s' (Get_Page_Address Q) (0x7FFFF000 + of_nat i) = Some (B (2 ^ 20 - 1) ((2147479552 + i) mod 4096))"
      using aspace_byte [OF a u m] unfolding n v .
    moreover have "(2147479552 + i) mod 4096 = i" using mod_mult_self2 [of i 4096 524287] i4 by (simp add: add.commute)
    ultimately show ?thesis using st(3) i by simp
  qed
  show "user_byte s' (Get_Page_Address Q) (0x7FFFE000 + of_nat i) \<noteq> None" if i: "i < 4096"
  proof -
    have n: "unat (0x7FFFE000 + of_nat i :: u32) = 2147475456 + i" using top [of i "0x7FFFE000"] i by simp
    have v: "(2 ^ 31 + (2147475456 + i)) div 4096 = (2 ^ 20 - 2 :: nat)" using div_mult_self1 [of 4096 i 1048574] i by simp
    obtain f where f: "M (2 ^ 20 - 2) = Some f" using st(1) by blast
    have "M ((2 ^ 31 + unat (0x7FFFE000 + of_nat i :: u32)) div 4096) = Some f" unfolding n v by (rule f)
    moreover have "unat (0x7FFFE000 + of_nat i :: u32) < 2 ^ 31" unfolding n using i by simp
    ultimately show ?thesis using aspace_byte [OF a] by simp
  qed
qed

lemma segs_ok_fits: "segs_ok gs \<Longrightarrow> g \<in> set gs \<Longrightarrow> seg_fits g"
  by (induction gs) auto

lemma stack_top: "PAGE_ADDR END_OF_VM - USER_BASE = 0x7FFFF000"
  by (simp add: word_unat_eq_iff unat_sub_if' PAGE_ADDR_nat)

text \<open>C9: Loading a program whose segments fit, with enough free frames, builds an address space in which every
  byte of every segment is at its address, the argument block is at 0x7FFFF000, the page of the stack below
  it is mapped and the kernel's half translates as before.\<close>

theorem program_is_loaded:
  assumes "pdir_ok s K" "mem_ok s"
    and "numSegments fmt \<le> length (segmentList fmt)" "segs_ok (take (numSegments fmt) (segmentList fmt))"
    and "text_at cmd 0 xs" "block_size (args xs) \<le> 4096"
    and "frames_needed (take (numSegments fmt) (segmentList fmt)) \<le> length (freeList s)"
  shows "\<exists>pdbr s'. load_image io_ok env (Get_Page_Address K) img fmt cmd s = Some (pdbr, s') \<and>
    (\<forall>g\<in>set (take (numSegments fmt) (segmentList fmt)). \<forall>t < unat (lengthInFile g).
       user_byte s' pdbr (startAddress g + of_nat t) = Some (img (unat (offsetInFile g) + t))) \<and>
    (\<forall>i < block_size (args xs). user_byte s' pdbr (0x7FFFF000 + of_nat i) = Some (block_of 0x7FFFF000 (args xs) ! i)) \<and>
    (\<forall>i < 4096. user_byte s' pdbr (0x7FFFE000 + of_nat i) \<noteq> None) \<and>
    (\<forall>va. PAGE_DIRECTORY_INDEX va < 512 \<longrightarrow> mmu_frame s' pdbr va = mmu_frame s (Get_Page_Address K) va)"
proof -
  let ?gs = "take (numSegments fmt) (segmentList fmt)" and ?blk = "block_of 0x7FFFF000 (args xs)"
  obtain Q s' M B where l: "load_image io_ok env (Get_Page_Address K) img fmt cmd s = Some (Get_Page_Address Q, s')"
    "loaded img ?gs ?blk (Get_Page_Address K) s Q s' M B"
    using load_image_ok [OF assms(1,2) refl assms(3-7), of io_ok env img] unfolding stack_top by blast
  have b: "length ?blk \<le> 4096" "length ?blk = block_size (args xs)" using assms(6) by (simp_all add: length_block_of)
  have p: "program_in img ?gs ?blk s' Q M B" using l(2) by (simp add: loaded_def)
  note L = program_bytes [OF p b(1)]
  have k: "\<forall>va. PAGE_DIRECTORY_INDEX va < 512 \<longrightarrow> mmu_frame s' (Get_Page_Address Q) va = mmu_frame s (Get_Page_Address K) va"
    using l(2) by (simp add: loaded_def)
  show ?thesis
    by (intro exI [of _ "Get_Page_Address Q"] exI [of _ s'] conjI ballI allI impI)
      (use l(1) L(1) [OF _ segs_ok_fits [OF assms(4)]] L(2,3) b(2) k in simp_all)
qed

definition sample_program :: Exe_Format where
  "sample_program = \<lparr>segmentList = [\<lparr>offsetInFile = 0x1000, lengthInFile = 0x1234, startAddress = 0x1000, sizeInMemory = 0x1234, protFlags = 5\<rparr>,
      \<lparr>offsetInFile = 0x3010, lengthInFile = 0x20, startAddress = 0x4010, sizeInMemory = 0x20, protFlags = 6\<rparr>],
     numSegments = 2, exe_entryAddr = 0x1000\<rparr>"

definition sample_frames :: vm_state where
  "sample_frames = sample_mem\<lparr>pageList := replicate 16 sample_page, freeList := [4..<16], g_freePageCount := 12\<rparr>"

lemma sample_frames_ok: "mem_ok sample_frames" "pdir_ok sample_frames 1"
  by (simp_all add: sample_frames_def Mem.sample_mem_def mem_ok_def on_freelist_ok_def has_flag_def sample_page_def pdir_ok_def
      pde_word_def table_of_def pte_present_def pte_base_def)

lemma sample_program_ok: "segs_ok (segmentList sample_program)" "frames_needed (segmentList sample_program) \<le> length (freeList sample_frames)"
    "take (numSegments sample_program) (segmentList sample_program) = segmentList sample_program"
    "numSegments sample_program \<le> length (segmentList sample_program)"
  by (simp_all add: sample_program_def sample_frames_def seg_fits_def seg_pages_def first_page_def num_pages_def seg_start_def
      PAGE_DIRECTORY_INDEX_nat PAGE_TABLE_INDEX_nat frames_needed_def)

lemma sample_cmd_text: "text_at (sample_cmd @ [0]) 0 sample_cmd" "block_size (args sample_cmd) = 26"
  by (simp_all add: text_at_def sample_args block_size_def) (simp add: sample_cmd_def)

lemma program_is_loaded_witness:
  "\<exists>pdbr s'. load_image (\<lambda>_. True) (\<lambda>_ s. s) 0x1000 (\<lambda>i. of_nat i) sample_program (sample_cmd @ [0]) sample_frames = Some (pdbr, s') \<and>
    user_byte s' pdbr 0x4013 = Some 0x13 \<and> user_byte s' pdbr 0x7FFFF000 = Some 2"
proof -
  have b: "block_size (args sample_cmd) \<le> 4096" by (simp add: sample_cmd_text)
  have f: "frames_needed (take (numSegments sample_program) (segmentList sample_program)) \<le> length (freeList sample_frames)"
    and o: "segs_ok (take (numSegments sample_program) (segmentList sample_program))"
    by (simp_all only: sample_program_ok)
  from program_is_loaded [OF sample_frames_ok(2,1) sample_program_ok(4) o sample_cmd_text(1) b f,
      of "\<lambda>_. True" "\<lambda>_ s. s" "\<lambda>i. of_nat i"]
  obtain pdbr s' where r: "load_image (\<lambda>_. True) (\<lambda>_ s. s) (Get_Page_Address 1) (\<lambda>i. of_nat i) sample_program (sample_cmd @ [0]) sample_frames = Some (pdbr, s')"
    "\<forall>g\<in>set (segmentList sample_program). \<forall>t < unat (lengthInFile g).
       user_byte s' pdbr (startAddress g + of_nat t) = Some (of_nat (unat (offsetInFile g) + t))"
    "\<forall>i < 26. user_byte s' pdbr (0x7FFFF000 + of_nat i) = Some (block_of 0x7FFFF000 (args sample_cmd) ! i)"
    unfolding sample_program_ok(3) sample_cmd_text(2) by blast
  have "user_byte s' pdbr (0x4010 + of_nat 3) = Some (of_nat (unat (0x3010 :: u32) + 3))"
    using r(2) by (simp add: sample_program_def del: of_nat_add of_nat_numeral)
  then have "user_byte s' pdbr 0x4013 = Some 0x13" by simp
  moreover have "user_byte s' pdbr 0x7FFFF000 = Some 2" using r(3) [rule_format, of 0] by (simp add: block_of_def sample_args le_bytes_def)
  ultimately show ?thesis using r(1) by (auto simp: Get_Page_Address_def)
qed



end
