(* ===== verification/Spawn.thy ===== *)
theory Spawn
  imports UserProg Sched PfatRead
begin

text \<open>
  Starting a process: \<open>Spawn\<close> of \<open>geekos/user.c\<close>, which reads the executable, parses it, builds its address space
  and starts a thread whose stack is the frame that the processor returns from into the program.
\<close>

section \<open>The first frame of a user thread\<close>

lemma push_addr:
  assumes "j < 2 ^ 20" "n < 1024"
  shows "Get_Page_Address j + 4096 - 4 * word_of_nat n - 4 = Get_Page_Address j + 4 * word_of_nat (1023 - n)"
proof -
  have "(word_of_nat (1023 - n) :: u32) = 1023 - word_of_nat n" using assms(2) by (simp add: of_nat_diff)
  then show ?thesis by simp
qed

text \<open>What a sequence of pushes leaves: the words \<open>ws\<close> below the top of frame \<open>j\<close>, the first on top.\<close>

definition pushed_phys :: "nat \<Rightarrow> nat \<Rightarrow> u32 list \<Rightarrow> (nat \<Rightarrow> u32) \<Rightarrow> nat \<Rightarrow> u32" where
  "pushed_phys j n ws p w = (if j * 1024 + 1024 \<le> w + n + length ws \<and> w + n < j * 1024 + 1024
     then ws ! (j * 1024 + 1023 - n - w) else p w)"

lemma pushed_phys_Cons:
  assumes "n + length (x # xs) \<le> 1024"
  shows "pushed_phys j n (x # xs) p = pushed_phys j (Suc n) xs (p(j * 1024 + (1023 - n) := x))"
proof
  fix w
  consider "w + n = j * 1024 + 1023" | "w + n < j * 1024 + 1023" | "j * 1024 + 1023 < w + n" by linarith
  then show "pushed_phys j n (x # xs) p w = pushed_phys j (Suc n) xs (p(j * 1024 + (1023 - n) := x)) w"
  proof cases
    case 1
    then have "w = j * 1024 + (1023 - n)" "j * 1024 + 1023 - n - w = 0" using assms by simp_all
    then show ?thesis using 1 assms by (simp add: pushed_phys_def)
  next
    case 2
    then have "w \<noteq> j * 1024 + (1023 - n)" "j * 1024 + 1023 - n - w = Suc (j * 1024 + 1023 - Suc n - w)" using assms by simp_all
    then show ?thesis using 2 assms by (simp add: pushed_phys_def)
  next
    case 3
    then have "w \<noteq> j * 1024 + (1023 - n)" using assms by simp
    then show ?thesis using 3 by (simp add: pushed_phys_def)
  qed
qed

lemma Push_list:
  assumes "j < 2 ^ 20" "n + length ws \<le> 1024" "esp (thr s t) = Get_Page_Address j + 4096 - 4 * word_of_nat n"
  shows "fold (Push t) ws s = s\<lparr>thr := (thr s)(t := (thr s t)\<lparr>esp := Get_Page_Address j + 4096 - 4 * word_of_nat (n + length ws)\<rparr>),
    vm := (vm s)\<lparr>phys := pushed_phys j n ws (phys (vm s))\<rparr>\<rparr>"
  using assms(2,3)
proof (induction ws arbitrary: n s)
  case Nil
  have "(thr s t)\<lparr>esp := esp (thr s t)\<rparr> = thr s t" by simp
  then have t: "(thr s)(t := (thr s t)\<lparr>esp := Get_Page_Address j + 4096 - 4 * word_of_nat (n + length [])\<rparr>) = thr s"
    using Nil.prems(2) by (metis add.right_neutral fun_upd_triv list.size(3))
  have "pushed_phys j n [] (phys (vm s)) = phys (vm s)" unfolding pushed_phys_def by (intro ext if_not_P) simp
  then show ?case unfolding t by simp
next
  case (Cons x xs)
  have n: "n < 1024" "1023 - n < 1024" using Cons.prems(1) by simp_all
  define a where "a = Get_Page_Address j + 4 * word_of_nat (1023 - n)"
  have e: "esp (thr s t) - 4 = a" using push_addr [OF assms(1) n(1)] unfolding Cons.prems(2) a_def .
  have "unat a div 4 = j * 1024 + (1023 - n)" unfolding a_def by (rule entry_addr [OF assms(1) n(2)])
  then have P: "Push t x s = s\<lparr>thr := (thr s)(t := (thr s t)\<lparr>esp := a\<rparr>), vm := (vm s)\<lparr>phys := (phys (vm s))(j * 1024 + (1023 - n) := x)\<rparr>\<rparr>"
    using e by (simp add: Push_def Let_def upd_thr_def wr32_def)
  have "esp (thr (Push t x s) t) = Get_Page_Address j + 4096 - 4 * word_of_nat (Suc n)"
    unfolding P using e unfolding Cons.prems(2) by (simp add: algebra_simps)
  then have "fold (Push t) xs (Push t x s) = (Push t x s)\<lparr>thr := (thr (Push t x s))(t := (thr (Push t x s) t)
      \<lparr>esp := Get_Page_Address j + 4096 - 4 * word_of_nat (Suc n + length xs)\<rparr>),
      vm := (vm (Push t x s))\<lparr>phys := pushed_phys j (Suc n) xs (phys (vm (Push t x s)))\<rparr>\<rparr>"
    using Cons.prems(1) by (intro Cons.IH) simp_all
  then show ?case using pushed_phys_Cons [OF Cons.prems(1), of j "phys (vm s)"] by (simp add: P fun_upd_def cong: if_cong)
qed

definition start_frame :: "user_context \<Rightarrow> u32 list" where
  "start_frame u = [ucast (dsSelector u), stackPointerAddr u, EFLAGS_IF, ucast (csSelector u), entryAddr u, 0, 0, uc_size u, 0, 0, 0,
     argBlockAddr u, 0, 0, ucast (dsSelector u), ucast (dsSelector u), ucast (dsSelector u), ucast (dsSelector u)]"

lemma uctx_Push [simp]: "uctx (Push t v s) = uctx s"
  by (simp add: Push_def Let_def)

lemma Setup_User_Thread_frame:
  "Setup_User_Thread t c s = do { s' \<leftarrow> Attach_User_Context t c s; Some (fold (Push t) (start_frame (uctx s c)) s') }"
proof (cases "Attach_User_Context t c s")
  case (Some s')
  then have "dsSelector (uctx s' c) = dsSelector (uctx s c)" "csSelector (uctx s' c) = csSelector (uctx s c)"
    "entryAddr (uctx s' c) = entryAddr (uctx s c)" "uc_size (uctx s' c) = uc_size (uctx s c)"
    "stackPointerAddr (uctx s' c) = stackPointerAddr (uctx s c)" "argBlockAddr (uctx s' c) = argBlockAddr (uctx s c)"
    by (auto simp: Attach_User_Context_def bind_Some_iff upd_thr_def Let_def Disable_Interrupts_def Enable_Interrupts_def split: if_splits)
  then show ?thesis using Some by (simp add: Setup_User_Thread_def start_frame_def Let_def)
qed (simp add: Setup_User_Thread_def)

section \<open>Starting the thread\<close>

lemma k_Alloc_Page_pages:
  assumes "mem_ok (vm s)" "freeList (vm s) = i # q"
  shows "\<exists>v. k_Alloc_Page s = Some (Get_Page_Address i, s\<lparr>vm := v\<rparr>) \<and> mem_ok v \<and> freeList v = q \<and> phys v = phys (vm s) \<and>
    length (pageList v) = length (pageList (vm s)) \<and> (\<forall>f. f \<noteq> i \<longrightarrow> pageList v ! f = pageList (vm s) ! f) \<and> frame_used v i"
proof -
  obtain b where b: "int_flag s = b" by blast
  let ?v = "(vm s)\<lparr>int_flag := b\<rparr>"
  have "mem_ok ?v" "freeList ?v = i # q" using assms by simp_all
  from Alloc_Page_pages [OF this] obtain v where v: "Alloc_Page ?v = Some (Get_Page_Address i, v)" "mem_ok v" "freeList v = q"
    "phys v = phys (vm s)" "int_flag v = b" "length (pageList v) = length (pageList (vm s))"
    "\<forall>f. f \<noteq> i \<longrightarrow> pageList v ! f = pageList (vm s) ! f" "frame_used v i" by auto
  have "s\<lparr>vm := v, int_flag := b\<rparr> = s\<lparr>vm := v\<rparr>" using b by (cases s) simp
  then show ?thesis using v by (intro exI [of _ v]) (simp add: k_Alloc_Page_def call_vm_def b)
qed

text \<open>What starting a user thread \<open>t\<close> in context \<open>c\<close> with its stack in frame \<open>j\<close> leaves.\<close>

definition user_started :: "u32 \<Rightarrow> u32 \<Rightarrow> nat \<Rightarrow> kstate \<Rightarrow> kstate \<Rightarrow> bool" where
  "user_started t c j s s' \<longleftrightarrow> allThreads s' = allThreads s @ [t] \<and> queues s' (RunQ 0) = queues s (RunQ 0) @ [t] \<and>
     pid (thr s' t) = nextFreePid s \<and> userContext (thr s' t) = c \<and> alive (thr s' t) \<and>
     esp (thr s' t) = Get_Page_Address j + 4096 - 4 * word_of_nat (length (start_frame (uctx s c))) \<and>
     uctx s' = (uctx s)(c := (uctx s c)\<lparr>uc_refCount := 1\<rparr>) \<and> int_flag s' \<and>
     phys (vm s') = pushed_phys j 0 (start_frame (uctx s c)) (phys (vm s))"

lemma length_start_frame [simp]: "length (start_frame u) = 18"
  by (simp add: start_frame_def)

lemma Start_User_Thread_ok:
  assumes base: "kbase s" and m: "mem_ok (vm s)" "freeList (vm s) = i # j # q" and new: "Get_Page_Address i \<notin> set (allThreads s)"
    and IF: "int_flag s" and c: "c \<noteq> 0" "uc_refCount (uctx s c) = 0"
  shows "\<exists>s'. Start_User_Thread c det s = Some (Get_Page_Address i, s') \<and> Get_Page_Address i \<noteq> 0 \<and> kbase s' \<and> (idle_ok s \<longrightarrow> idle_ok s') \<and>
    user_started (Get_Page_Address i) c j s s' \<and> mem_ok (vm s') \<and> freeList (vm s') = q \<and>
    length (pageList (vm s')) = length (pageList (vm s)) \<and>
    (\<forall>f. f \<noteq> i \<and> f \<noteq> j \<longrightarrow> pageList (vm s') ! f = pageList (vm s) ! f)"
proof -
  let ?t = "Get_Page_Address i"
  obtain v1 where v1: "k_Alloc_Page s = Some (?t, s\<lparr>vm := v1\<rparr>)" "mem_ok v1" "freeList v1 = j # q" "phys v1 = phys (vm s)"
    "length (pageList v1) = length (pageList (vm s))" "\<forall>f. f \<noteq> i \<longrightarrow> pageList v1 ! f = pageList (vm s) ! f"
    using k_Alloc_Page_pages [OF m] by blast
  obtain v2 where v2: "k_Alloc_Page (s\<lparr>vm := v1\<rparr>) = Some (Get_Page_Address j, s\<lparr>vm := v2\<rparr>)" "mem_ok v2" "freeList v2 = q" "phys v2 = phys (vm s)"
    "length (pageList v2) = length (pageList (vm s))" "\<forall>f. f \<noteq> i \<and> f \<noteq> j \<longrightarrow> pageList v2 ! f = pageList (vm s) ! f"
    using k_Alloc_Page_pages [of "s\<lparr>vm := v1\<rparr>"] v1 by auto
  have ij: "0 < i" "i < 2 ^ 20" "0 < j" "j < 2 ^ 20" using mem_okD [OF m(1), of i] mem_okD [OF m(1), of j] m(2) by auto
  have t0: "?t \<noteq> 0" "Get_Page_Address j \<noteq> 0" using ij by (simp_all add: Get_Page_Address_eq_0)
  define s2 where "s2 = (Init_Thread ?t (Get_Page_Address j) PRIORITY_USER det (s\<lparr>vm := v2\<rparr>))\<lparr>allThreads := allThreads s @ [?t]\<rparr>"
  have cr: "Create_Thread PRIORITY_USER det s = Some (?t, s2)"
    using v1(1) v2(1) t0 new by (simp add: Create_Thread_def s2_def)
  note sp = Create_Thread_spawned [OF cr t0(1)]
  note S = spawned_kbase [OF base sp]
  have i2: "esp (thr s2 ?t) = Get_Page_Address j + 4096" "pid (thr s2 ?t) = nextFreePid s" "alive (thr s2 ?t)" "\<not> blocked (thr s2 ?t)"
    "vm s2 = v2" "uctx s2 = uctx s" "int_flag s2" "priority (thr s2 ?t) = 1" "currentReadyQueue (thr s2 ?t) = 0"
    "queues s2 (RunQ 0) = queues s (RunQ 0)" "MAX_QUEUE_LEVEL s2 = MAX_QUEUE_LEVEL s" "allThreads s2 = allThreads s @ [?t]"
    using IF by (simp_all add: s2_def Init_Thread_def Let_def Clear_Thread_Queue_def set_queue_def zero_thread_def upd_thr_def)
  define s3 where "s3 = (upd_thr ?t (\<lambda>k. k\<lparr>userContext := c\<rparr>) s2)\<lparr>uctx := (uctx s)(c := (uctx s c)\<lparr>uc_refCount := 1\<rparr>)\<rparr>"
  have at: "Attach_User_Context ?t c s2 = Some s3"
    using i2 c by (simp add: Attach_User_Context_def s3_def upd_thr_def)
  let ?ws = "start_frame (uctx s c)"
  define s4 where "s4 = fold (Push ?t) ?ws s3"
  have s4: "s4 = s3\<lparr>thr := (thr s3)(?t := (thr s3 ?t)\<lparr>esp := Get_Page_Address j + 4096 - 4 * word_of_nat (length ?ws)\<rparr>),
      vm := v2\<lparr>phys := pushed_phys j 0 ?ws (phys (vm s))\<rparr>\<rparr>"
    using Push_list [OF ij(4), of 0 ?ws s3 ?t] i2(1,5) v2(4) by (simp add: s4_def s3_def upd_thr_def)
  have set: "Setup_User_Thread ?t c s2 = Some s4" using at i2(6) by (simp add: Setup_User_Thread_frame s4_def)
  have sb: "same_but ?t s2 s4" using i2(5) by (simp add: s4 s3_def same_but_def upd_thr_def)
  have u: "kbase s4" "off_queues s4 ?t" "?t \<in> set (allThreads s4)" "int_flag s4" "idle_ok s \<Longrightarrow> idle_ok s4"
    using same_but_kbase [OF sb] S IF sb i2(7) by (simp_all add: same_but_def spawned_def)
  let ?v = "s4\<lparr>int_flag := False\<rparr>"
  let ?s' = "(made_runnable ?t ?v)\<lparr>int_flag := True\<rparr>"
  have run: "Start_User_Thread c det s = Some (?t, ?s')"
    using cr t0(1) set Make_Runnable_Atomic_ok [OF u(1-4)] by (simp add: Start_User_Thread_def)
  have cur: "?t \<noteq> g_currentThread ?v" using base sp sb by (auto simp: kbase_def spawned_def same_but_def)
  have v: "kbase ?v" "off_queues ?v ?t" "?t \<in> set (allThreads ?v)" using u(1-3) by simp_all
  note M = made_runnable_kbase [OF v cur]
  have pos: "0 < MAX_QUEUE_LEVEL s" using base sched_okD(6) by (auto simp: kbase_def)
  have lev: "run_level ?v ?t = 0" using i2 pos by (simp add: run_level_def Let_def s4 s3_def upd_thr_def)
  have vm: "vm ?s' = v2\<lparr>phys := pushed_phys j 0 ?ws (phys (vm s))\<rparr>" by (simp add: made_runnable_def Let_def s4)
  have f: "esp (thr ?s' ?t) = esp (thr s4 ?t)" "pid (thr ?s' ?t) = pid (thr s4 ?t)" "userContext (thr ?s' ?t) = userContext (thr s4 ?t)"
    "alive (thr ?s' ?t) = alive (thr s4 ?t)" "uctx ?s' = uctx s4" by (simp_all add: made_runnable_def Let_def)
  have "user_started ?t c j s ?s'"
    unfolding user_started_def f vm using i2 lev by (simp add: s4 s3_def upd_thr_def made_runnable_queues)
  moreover have "mem_ok (vm ?s')" "freeList (vm ?s') = q" "length (pageList (vm ?s')) = length (pageList (vm s))"
    "\<forall>f. f \<noteq> i \<and> f \<noteq> j \<longrightarrow> pageList (vm ?s') ! f = pageList (vm s) ! f"
    using v2 unfolding vm by (simp_all add: mem_ok_def)
  moreover have "kbase ?s'" "idle_ok s \<longrightarrow> idle_ok ?s'" using M(1,2) u(5) by simp_all
  ultimately show ?thesis using run t0(1) by blast
qed

section \<open>Spawning\<close>

abbreviation (input) "MAX_PROC_NAME_SZB \<equiv> 128 :: nat"

text \<open>What the calls are given: the device and the other threads for \<open>Alloc_Pageable_Page\<close>, the page directory in
  use, the answers of \<open>Malloc\<close> for the file's buffer and for the user context, and what uninitialised memory holds.\<close>

record spawn_env =
  se_io :: "nat \<Rightarrow> bool"
  se_env :: "nat \<Rightarrow> vm_state \<Rightarrow> vm_state"
  se_pdbr :: u32
  se_alloc :: "nat \<Rightarrow> u8 list option"
  se_stat :: VFS_File_Stat
  se_beyond :: "nat \<Rightarrow> u8"
  se_format :: Exe_Format
  se_malloc :: u32
  se_context :: user_context
  se_ext :: context_ext
  se_sems :: "u32 list"

record os_state =
  ofs :: "fs_world vfs"
  opr :: proc_state

definition image_at :: "u8 list \<Rightarrow> (nat \<Rightarrow> u8) \<Rightarrow> nat \<Rightarrow> u8" where
  "image_at buf beyond i = (if i < length buf then buf ! i else beyond i)"

definition name_of :: "u8 list \<Rightarrow> string" where
  "name_of bs = List.map (\<lambda>b. char_of (unat b)) bs"

text \<open>The second component is \<open>*pThread\<close>, when it is set.  A thread that could not be created is the address 0.\<close>

definition Spawn ::
  "(File_Ops \<Rightarrow> fs_world File_Ops_Table) \<Rightarrow> vfs_env \<Rightarrow> spawn_env \<Rightarrow> cstr \<Rightarrow> u8 list \<Rightarrow> bool \<Rightarrow> os_state \<Rightarrow> (int \<times> u32 option \<times> os_state) kres" where
  "Spawn T ve E program command detached s = do {
     (rc, data, v) \<leftarrow> Read_Fully T ve (Get_Cwd (opr s)) program (se_stat E) (se_alloc E) (ofs s);
     let s = s\<lparr>ofs := v\<rparr>;
     if rc \<noteq> 0 then Some (rc, None, s)
     else do {
       buf \<leftarrow> data;
       (rc, fmt) \<leftarrow> Parse_ELF_Executable buf (se_format E);
       if rc \<noteq> 0 then Some (EUNSPECIFIED, None, s)
       else do {
         (_, c, p) \<leftarrow> Load_User_Program (se_io E) (se_env E) (se_pdbr E) (image_at buf (se_beyond E)) fmt command
           (se_malloc E) (se_context E) (se_ext E) (se_sems E) (opr s);
         (t, k) \<leftarrow> Start_User_Thread c detached (pk p);
         nm \<leftarrow> string_at command 0;
         KASSERT (length nm < MAX_PROC_NAME_SZB);
         let k = upd_thr t (\<lambda>x. x\<lparr>tname := name_of nm\<rparr>) k;
         Some (pid (thr k t), Some t, s\<lparr>opr := set_pk k p\<rparr>) } } }"

section \<open>The user context\<close>

lemma gdt_int [simp]: "gdt_ok (g\<lparr>int_flag := b\<rparr>) = gdt_ok g" "gdt_used (g\<lparr>int_flag := b\<rparr>) = gdt_used g"
  by (simp_all add: gdt_ok_def gdt_used_def)

lemma pages_descriptor: "0 < n \<Longrightarrow> \<exists>d'. Init_Code_Segment_Descriptor b n 3 d = Some d'" "0 < n \<Longrightarrow> \<exists>d'. Init_Data_Segment_Descriptor b n 3 d = Some d'"
  by (simp_all add: Init_Code_Segment_Descriptor_def Init_Data_Segment_Descriptor_def Set_Size_And_Base_Pages_def Let_def)

lemma Allocate_int_flag: "Allocate_Segment_Descriptor g = Some (r, g') \<Longrightarrow> int_flag g' = int_flag g"
  by (auto simp: Allocate_Segment_Descriptor_def take_descriptor_def bind_Some_iff split: option.splits if_splits)

lemma call_gdt_Allocate:
  assumes g: "gdt_ok (pg s)" "\<not> {..<15} \<subseteq> gdt_used (pg s)"
  shows "\<exists>i g'. call_gdt Allocate_Segment_Descriptor s = Some (Some i, s\<lparr>pg := g'\<rparr>) \<and> i < 16 \<and> gdt_ok g'"
proof -
  obtain b where b: "int_flag (pk s) = b" by blast
  have g': "gdt_ok ((pg s)\<lparr>int_flag := b\<rparr>)" "\<not> {..<15} \<subseteq> gdt_used ((pg s)\<lparr>int_flag := b\<rparr>)" using g by simp_all
  obtain k g' where k: "Allocate_Segment_Descriptor ((pg s)\<lparr>int_flag := b\<rparr>) = Some (Some (Suc k), g')" "gdt_ok g'" "k < 15"
    using Allocate_spec [OF g'(1)] g'(2) by auto
  have i: "int_flag g' = b" using Allocate_int_flag [OF k(1)] by simp
  have "(pk s)\<lparr>int_flag := b\<rparr> = pk s" using b by (cases "pk s") simp
  then have "set_pk ((pk s)\<lparr>int_flag := b\<rparr>) (s\<lparr>pg := g'\<rparr>) = s\<lparr>pg := g'\<rparr>" by (cases s; cases "py s") (simp add: set_pk_def)
  then show ?thesis using k b i by (intro exI [of _ "Suc k"] exI [of _ g']) (simp add: call_gdt_def)
qed

lemma keep_avail_gdt:
  assumes "gdt_ok g" "i < 16" "avail d = avail (s_GDT g ! i)"
  shows "gdt_ok (g\<lparr>s_GDT := (s_GDT g)[i := d]\<rparr>)"
proof -
  have "gdt_used (g\<lparr>s_GDT := (s_GDT g)[i := d]\<rparr>) = gdt_used g"
    using assms by (auto simp: gdt_used_def gdt_ok_def nth_list_update)
  then show ?thesis using assms(1) by (simp add: gdt_ok_def)
qed

lemma init_context_ok:
  assumes g: "gdt_ok (pg s)" "\<not> {..<15} \<subseteq> gdt_used (pg s)" and l: "2 \<le> length (cx_ldt rawx)"
  shows "\<exists>s' u. init_context c base_pde sz cwd fmt raw rawx rawsems s = Some s' \<and> pk s' = (pk s)\<lparr>uctx := (uctx (pk s))(c := u)\<rparr> \<and>
    uc_refCount u = 0 \<and> entryAddr u = exe_entryAddr fmt \<and> stackPointerAddr u = PAGE_ADDR END_OF_VM - USER_BASE \<and>
    argBlockAddr u = PAGE_ADDR END_OF_VM - USER_BASE \<and> cx_pageDir (px s' c) = base_pde \<and> gdt_ok (pg s')"
proof -
  obtain i g' where al: "call_gdt Allocate_Segment_Descriptor s = Some (Some i, s\<lparr>pg := g'\<rparr>)" "i < 16" "gdt_ok g'"
    using call_gdt_Allocate [OF g] by blast
  have len: "length (s_GDT g') = 16" using al(3) by (simp add: gdt_ok_def)
  obtain d0 where d0: "Init_Code_Segment_Descriptor USER_BASE (USER_BASE div 4096) 3 (cx_ldt rawx ! 0) = Some d0"
    using pages_descriptor(1) [of "USER_BASE div 4096"] by (auto simp: word_less_nat_alt unat_div)
  obtain d1 where d1: "Init_Data_Segment_Descriptor USER_BASE (USER_BASE div 4096) 3 (cx_ldt rawx ! 1) = Some d1"
    using pages_descriptor(2) [of "USER_BASE div 4096"] by (auto simp: word_less_nat_alt unat_div)
  have "avail (Init_LDT_Descriptor c 2 (s_GDT g' ! i)) = avail (s_GDT g' ! i)"
    by (simp add: Init_LDT_Descriptor_def Set_Size_And_Base_Bytes_def Let_def)
  note k = keep_avail_gdt [OF al(3,2) this]
  have l': "0 < length (cx_ldt rawx)" "Suc 0 < length (cx_ldt rawx)" using l by linarith+
  show ?thesis
    unfolding init_context_def Let_def using al(1,2) len l' d0 d1 k by (simp add: set_pk_def) (intro exI conjI, rule refl, simp_all)
qed

lemma max_va_ok: "i + n \<le> length segs \<Longrightarrow> \<exists>m'. max_va segs i n m = Some m'"
  by (induction n arbitrary: i m) (simp_all add: Let_def)

text \<open>The context of the program \<open>fmt\<close>.\<close>

definition context_for :: "Exe_Format \<Rightarrow> user_context \<Rightarrow> bool" where
  "context_for fmt u \<longleftrightarrow> uc_refCount u = 0 \<and> entryAddr u = exe_entryAddr fmt \<and> stackPointerAddr u = 0x7FFFF000 \<and> argBlockAddr u = 0x7FFFF000"

lemma Load_User_Program_ok:
  assumes k: "pdir_ok (vm (pk s)) K" and mem: "mem_ok (vm (pk s))"
    and gs: "take (numSegments fmt) (segmentList fmt) = gs" "numSegments fmt \<le> length (segmentList fmt)" "segs_ok gs"
    and cmd: "text_at cmd 0 xs" "block_size (args xs) \<le> 4096" and free: "frames_needed gs \<le> length (freeList (vm (pk s)))"
    and g: "gdt_ok (pg s)" "\<not> {..<15} \<subseteq> gdt_used (pg s)" and l: "2 \<le> length (cx_ldt rawx)" and c: "c \<noteq> 0"
  shows "\<exists>Q v M B s' u. Load_User_Program io_ok env (Get_Page_Address K) img fmt cmd c raw rawx rawsems s = Some (0, c, s') \<and>
    loaded img gs (block_of 0x7FFFF000 (args xs)) (Get_Page_Address K) (vm (pk s)\<lparr>int_flag := int_flag (pk s)\<rparr>) Q v M B \<and>
    pk s' = (pk s)\<lparr>vm := v, uctx := (uctx (pk s))(c := u)\<rparr> \<and> context_for fmt u \<and> cx_pageDir (px s' c) = Get_Page_Address Q"
proof -
  obtain b where b: "int_flag (pk s) = b" by blast
  let ?v = "vm (pk s)\<lparr>int_flag := b\<rparr>"
  have pre: "pdir_ok ?v K" "mem_ok ?v" "frames_needed gs \<le> length (freeList ?v)"
    using k mem free by (simp_all add: pdir_ok_def pde_word_def table_of_def)
  obtain Q v M B where L: "load_image io_ok env (Get_Page_Address K) img fmt cmd ?v = Some (Get_Page_Address Q, v)"
    "loaded img gs (block_of 0x7FFFF000 (args xs)) (Get_Page_Address K) ?v Q v M B"
    using load_image_ok [OF pre(1,2) gs cmd pre(3), of io_ok env img] unfolding stack_top by blast
  have vb: "int_flag v = b" using L(2) by (simp add: loaded_def)
  define s1 where "s1 = set_pk ((pk s)\<lparr>vm := v\<rparr>) s"
  have "(pk s)\<lparr>vm := v, int_flag := b\<rparr> = (pk s)\<lparr>vm := v\<rparr>" using b by (cases "pk s") simp
  then have cv: "call_vm (load_image io_ok env (Get_Page_Address K) img fmt cmd) (pk s) = Some (Get_Page_Address Q, (pk s)\<lparr>vm := v\<rparr>)"
    using L(1) by (simp add: call_vm_def b vb)
  obtain m where m: "max_va (segmentList fmt) 0 (numSegments fmt) 0 = Some m" using max_va_ok [of 0 "numSegments fmt" "segmentList fmt" 0] gs(2) by auto
  have g1: "gdt_ok (pg s1)" "\<not> {..<15} \<subseteq> gdt_used (pg s1)" using g by (simp_all add: s1_def set_pk_def)
  from init_context_ok [OF this l, of c "Get_Page_Address Q" "Round_Up_To_Page m" "Get_Cwd s1" fmt raw rawsems]
  obtain s' u where s': "init_context c (Get_Page_Address Q) (Round_Up_To_Page m) (Get_Cwd s1) fmt raw rawx rawsems s1 = Some s'"
    "pk s' = (pk s1)\<lparr>uctx := (uctx (pk s1))(c := u)\<rparr>" "context_for fmt u" "cx_pageDir (px s' c) = Get_Page_Address Q"
    unfolding context_for_def stack_top by blast
  have "Load_User_Program io_ok env (Get_Page_Address K) img fmt cmd c raw rawx rawsems s = Some (0, c, s')"
    using m cv c s'(1) by (simp add: Load_User_Program_def s1_def)
  moreover have "pk s' = (pk s)\<lparr>vm := v, uctx := (uctx (pk s))(c := u)\<rparr>" using s'(2) by (simp add: s1_def set_pk_def)
  ultimately show ?thesis using L(2) s'(3,4) unfolding b by blast
qed

section \<open>An address space is left alone by what takes free frames\<close>

lemma aspace_keep:
  assumes a: "aspace s Q M B" and m: "mem_ok s'" "set (freeList s') \<subseteq> set (freeList s)" "length (pageList s') = length (pageList s)"
    and p: "\<forall>f. f \<notin> set (freeList s) \<longrightarrow> pageList s' ! f = pageList s ! f"
    and ph: "\<forall>f k. f \<notin> set (freeList s) \<longrightarrow> k < 1024 \<longrightarrow> phys s' (f * 1024 + k) = phys s (f * 1024 + k)"
  shows "aspace s' Q M B"
proof -
  note A = aspaceD [OF a]
  have Q: "Q \<notin> set (freeList s)" using used_not_free [OF A(2,3)] .
  have pde: "pde_word s' Q d = pde_word s Q d" if "d < 1024" for d using ph Q that by (simp add: pde_word_def)
  have tab: "table_of s' Q d = table_of s Q d" if "d < 1024" for d using pde [OF that] by (simp add: table_of_def)
  have ut: "user_table s' Q d = user_table s Q d" for d using tab by (auto simp: user_table_def)
  have tf: "table_of s Q d \<notin> set (freeList s)" if "d < 1024" "table_of s Q d \<noteq> 0" for d using pdir_okD(1) [OF A(1) that(1,2)] .
  have used: "frame_used s' f" if "frame_used s f" for f
    using that p used_not_free [OF A(2) that] m(3) by (simp add: frame_used_def)
  show ?thesis
    unfolding aspace_def ut
  proof (intro conjI allI impI)
    show "pdir_ok s' Q" unfolding pdir_ok_def
    proof (intro conjI allI impI)
      show "Q < 2 ^ 20" "Q \<notin> set (freeList s')" using A(4) Q m(2) by auto
      fix d assume d: "d < (1024 :: nat)"
      show "(pte_present (pde_word s' Q d) = 0) = (table_of s' Q d = 0)" using pdir_okD(4) [OF A(1) d] by (simp only: pde [OF d] tab [OF d])
      show "table_of s' Q d \<notin> set (freeList s')" "table_of s' Q d \<noteq> Q" if "table_of s' Q d \<noteq> 0"
        using pdir_okD(1,2) [OF A(1) d] that m(2) tab [OF d] by auto
      show "d = d'" if "d' < 1024" "table_of s' Q d \<noteq> 0" "table_of s' Q d = table_of s' Q d'" for d'
        using pdir_okD(3) [OF A(1) d, of d'] that tab [OF d] tab [OF that(1)] by simp
    qed
    show "mem_ok s'" "frame_used s' Q" "inj_on M (dom M)" using m(1) used [OF A(3)] A(12) by simp_all
    show "frame_used s' (table_of s' Q d)" if "user_table s Q d" for d using used [OF A(5) [OF that]] tab that by (simp add: user_table_def)
    show "entry_maps s' Q d k (M (d * 1024 + k))" if d: "512 \<le> d \<and> d < 1024 \<and> k < 1024" for d k
      using A(6) [of d k] d tab [of d] ph tf [of d] by (auto simp: entry_maps_def Let_def split: option.splits)
    fix v f assume v: "M v = Some f"
    show "2 ^ 19 \<le> v" "v < 2 ^ 20" "f \<noteq> Q" "frame_used s' f" using A(8,11) [OF v] used [OF A(7) [OF v]] by simp_all
    show "table_of s' Q d \<noteq> f" if "d < 1024" for d using A(9) [OF v that] tab [OF that] by simp
    show "phys_byte s' (f * 4096 + o') = B v o'" if "o' < 4096" for o'
      using A(10) [OF v that] same_frame_bytes [OF _ that, of s' f s] ph used_not_free [OF A(2) A(7) [OF v]] by simp
  qed
qed

lemma pushed_phys_other:
  assumes "f \<noteq> j" "length ws \<le> 1024" "k < 1024"
  shows "pushed_phys j 0 ws p (f * 1024 + k) = p (f * 1024 + k)"
proof -
  have "f + 1 \<le> j \<or> j + 1 \<le> f" using assms(1) by linarith
  then show ?thesis unfolding pushed_phys_def using assms(2,3) by (elim disjE) (auto intro!: if_not_P)
qed

lemma pushed_phys_at:
  assumes "i < length ws" "length ws \<le> 1024"
  shows "pushed_phys j 0 ws p (j * 1024 + (1023 - i)) = ws ! i"
proof -
  define w where "w = j * 1024 + (1023 - i)"
  have "j * 1024 + 1024 \<le> w + 0 + length ws \<and> w + 0 < j * 1024 + 1024" "j * 1024 + 1023 - 0 - w = i"
    unfolding w_def using assms by linarith+
  then show ?thesis by (simp only: pushed_phys_def w_def [symmetric] if_True simp_thms)
qed

section \<open>A new process\<close>

text \<open>What the kernel has to have for a new process.\<close>

definition can_spawn :: "spawn_env \<Rightarrow> Exe_Segment list \<Rightarrow> nat \<Rightarrow> proc_state \<Rightarrow> bool" where
  "can_spawn E gs K p \<longleftrightarrow> kinv (pk p) \<and> int_flag (pk p) \<and> mem_ok (vm (pk p)) \<and> pdir_ok (vm (pk p)) K \<and> se_pdbr E = Get_Page_Address K \<and>
     frames_needed gs + 2 \<le> length (freeList (vm (pk p))) \<and>
     (\<forall>i\<in>set (freeList (vm (pk p))). Get_Page_Address i \<notin> set (allThreads (pk p))) \<and>
     gdt_ok (pg p) \<and> \<not> {..<15} \<subseteq> gdt_used (pg p) \<and> 2 \<le> length (cx_ldt (se_ext E)) \<and> se_malloc E \<noteq> 0"

text \<open>Thread \<open>t\<close> is a new process: last in the list of threads and in the first run queue, with a frame on its kernel
  stack that returns to the program's entry with its stack pointer.\<close>

definition new_process :: "Exe_Format \<Rightarrow> u32 \<Rightarrow> u32 \<Rightarrow> kstate \<Rightarrow> kstate \<Rightarrow> bool" where
  "new_process fmt c t k k' \<longleftrightarrow> allThreads k' = allThreads k @ [t] \<and> queues k' (RunQ 0) = queues k (RunQ 0) @ [t] \<and>
     pid (thr k' t) = nextFreePid k \<and> alive (thr k' t) \<and> userContext (thr k' t) = c \<and>
     rd32 (vm k') (esp (thr k' t) + 52) = exe_entryAddr fmt \<and> rd32 (vm k') (esp (thr k' t) + 64) = 0x7FFFF000"

lemma pushed_frame_word:
  assumes "j < 2 ^ 20" "i < 18" "phys v = pushed_phys j 0 ws p" "length ws = 18"
  shows "rd32 v (Get_Page_Address j + 4096 - 4 * word_of_nat 18 + 4 * word_of_nat (17 - i)) = ws ! i"
proof -
  have "(word_of_nat (17 - i) :: u32) = 17 - word_of_nat i" "(word_of_nat (1023 - i) :: u32) = 1023 - word_of_nat i"
    using assms(2) by (simp_all add: of_nat_diff)
  then have e: "Get_Page_Address j + 4096 - 4 * word_of_nat 18 + 4 * word_of_nat (17 - i) = Get_Page_Address j + 4 * word_of_nat (1023 - i)"
    by simp
  have k: "1023 - i < (1024 :: nat)" by simp
  show ?thesis unfolding e rd32_def entry_addr [OF assms(1) k] assms(3) using assms(2,4) by (intro pushed_phys_at) simp_all
qed

lemma user_started_process:
  assumes st: "user_started t c j k k'" and j: "j < 2 ^ 20" and u: "context_for fmt (uctx k c)"
  shows "new_process fmt c t k k'"
proof -
  let ?ws = "start_frame (uctx k c)"
  note S = st [unfolded user_started_def]
  have ph: "phys (vm k') = pushed_phys j 0 ?ws (phys (vm k))" and e: "esp (thr k' t) = Get_Page_Address j + 4096 - 4 * word_of_nat 18" using S by simp_all
  have w: "?ws ! 4 = exe_entryAddr fmt" "?ws ! 1 = 0x7FFFF000" using u by (simp_all add: start_frame_def context_for_def)
  have "rd32 (vm k') (esp (thr k' t) + 52) = exe_entryAddr fmt" using pushed_frame_word [OF j, of 4 "vm k'", OF _ ph] w(1) unfolding e by simp
  moreover have "rd32 (vm k') (esp (thr k' t) + 64) = 0x7FFFF000" using pushed_frame_word [OF j, of 1 "vm k'", OF _ ph] w(2) unfolding e by simp
  ultimately show ?thesis using S by (simp add: new_process_def)
qed

lemma text_string:
  assumes "text_at cmd 0 xs"
  shows "string_at cmd 0 = Some xs"
proof -
  obtain rest where "cmd = xs @ 0 # rest" "0 \<notin> set xs" using assms by (auto simp: text_at_def)
  moreover from this(2) have "takeWhile (\<lambda>b. b \<noteq> 0) (xs @ 0 # rest) = xs" by (subst takeWhile_append2) auto
  ultimately show ?thesis by (simp add: string_at_def)
qed

lemma kinv_frame [simp]: "kinv (k\<lparr>vm := v, uctx := c\<rparr>) = kinv k"
  by (simp add: kinv_def sched_ok_def off_queues_def idle_ok_def)

lemma Spawn_ok:
  assumes can: "can_spawn E gs K (opr s)"
    and read: "Read_Fully T ve (Get_Cwd (opr s)) program (se_stat E) (se_alloc E) (ofs s) = Some (0, Some buf, v)"
    and parse: "Parse_ELF_Executable buf (se_format E) = Some (0, fmt)"
    and gs: "take (numSegments fmt) (segmentList fmt) = gs" "numSegments fmt \<le> length (segmentList fmt)" "segs_ok gs"
    and cmd: "text_at cmd 0 xs" "block_size (args xs) \<le> 4096" "length xs < 128"
  shows "\<exists>t s' Q M B. Spawn T ve E program cmd detached s = Some (nextFreePid (pk (opr s)), Some t, s') \<and>
    kinv (pk (opr s')) \<and> new_process fmt (se_malloc E) t (pk (opr s)) (pk (opr s')) \<and>
    cx_pageDir (px (opr s') (se_malloc E)) = Get_Page_Address Q \<and>
    program_in (image_at buf (se_beyond E)) gs (block_of 0x7FFFF000 (args xs)) (vm (pk (opr s'))) Q M B"
proof -
  let ?p = "opr s" and ?c = "se_malloc E" and ?img = "image_at buf (se_beyond E)"
  let ?k = "pk ?p"
  note C = can [unfolded can_spawn_def]
  have pre: "pdir_ok (vm ?k) K" "mem_ok (vm ?k)" "frames_needed gs \<le> length (freeList (vm ?k))" "gdt_ok (pg ?p)" "\<not> {..<15} \<subseteq> gdt_used (pg ?p)"
    "2 \<le> length (cx_ldt (se_ext E))" "?c \<noteq> 0" using C by auto
  from Load_User_Program_ok [OF pre(1,2) gs cmd(1,2) pre(3-7), of "se_io E" "se_env E" ?img "se_context E" "se_sems E"]
  obtain Q v1 M B p1 u where L: "Load_User_Program (se_io E) (se_env E) (Get_Page_Address K) ?img fmt cmd ?c (se_context E) (se_ext E) (se_sems E) ?p = Some (0, ?c, p1)"
    "loaded ?img gs (block_of 0x7FFFF000 (args xs)) (Get_Page_Address K) (vm ?k\<lparr>int_flag := int_flag ?k\<rparr>) Q v1 M B"
    "pk p1 = ?k\<lparr>vm := v1, uctx := (uctx ?k)(?c := u)\<rparr>" "context_for fmt u" "cx_pageDir (px p1 ?c) = Get_Page_Address Q" by blast
  have pb: "se_pdbr E = Get_Page_Address K" using C by simp
  note l = L(2) [unfolded loaded_def]
  have P: "program_in ?img gs (block_of 0x7FFFF000 (args xs)) v1 Q M B" using l by simp
  then have a: "aspace v1 Q M B" by (simp add: program_in_def)
  have fr: "set (freeList v1) \<subseteq> set (freeList (vm ?k))" using l by (auto simp: all_frames_def)
  have "2 \<le> length (freeList v1)" using l C by simp
  then obtain i j q where ij: "freeList v1 = i # j # q" by (cases "freeList v1"; cases "tl (freeList v1)") auto
  have new: "Get_Page_Address i \<notin> set (allThreads (pk p1))" using C fr ij by (simp add: L(3))
  have base: "kbase (pk p1)" "idle_ok (pk p1)" using C kinv_kbase [of "pk p1"] by (simp_all add: L(3))
  have m1: "mem_ok (vm (pk p1))" "freeList (vm (pk p1)) = i # j # q" "int_flag (pk p1)" "uc_refCount (uctx (pk p1) ?c) = 0"
    using aspaceD(2) [OF a] ij C L(4) by (simp_all add: L(3) context_for_def)
  obtain k2 where k2: "Start_User_Thread ?c detached (pk p1) = Some (Get_Page_Address i, k2)" "kbase k2" "idle_ok k2"
    "user_started (Get_Page_Address i) ?c j (pk p1) k2" "mem_ok (vm k2)" "freeList (vm k2) = q" "length (pageList (vm k2)) = length (pageList v1)"
    "\<forall>f. f \<noteq> i \<and> f \<noteq> j \<longrightarrow> pageList (vm k2) ! f = pageList v1 ! f"
    using Start_User_Thread_ok [OF base(1) m1(1,2) new m1(3) pre(7) m1(4), of detached] base(2) by (auto simp: L(3))
  have j: "j < 2 ^ 20" using mem_okD [OF aspaceD(2) [OF a], of j] ij by simp
  let ?t = "Get_Page_Address i" and ?nm = "\<lambda>x. x\<lparr>tname := name_of xs\<rparr>"
  let ?k3 = "upd_thr ?t ?nm k2"
  have ph: "\<forall>f k. f \<notin> set (freeList v1) \<longrightarrow> k < 1024 \<longrightarrow> phys (vm k2) (f * 1024 + k) = phys v1 (f * 1024 + k)"
    using k2(4) pushed_phys_other [where j = j and ws = "start_frame (uctx (pk p1) ?c)"] ij by (auto simp: user_started_def L(3))
  have a2: "aspace (vm k2) Q M B"
    using k2(5-8) ph ij by (intro aspace_keep [OF a]) auto
  have np: "new_process fmt ?c ?t (pk p1) k2" using user_started_process [OF k2(4) j] L(4) by (simp add: L(3))
  have "Spawn T ve E program cmd detached s = Some (pid (thr ?k3 ?t), Some ?t, s\<lparr>ofs := v, opr := set_pk ?k3 p1\<rparr>)"
    using read parse L(1) pb k2(1) text_string [OF cmd(1)] cmd(3) by (simp add: Spawn_def)
  moreover have "pid (thr ?k3 ?t) = nextFreePid ?k" using np by (simp add: new_process_def L(3) upd_thr_def)
  moreover have "kinv ?k3" using same_but_kbase(1,3) [OF same_but_name [of ?t k2 "name_of xs"]] k2(2,3) by (simp add: kinv_kbase)
  moreover have "new_process fmt ?c ?t ?k ?k3" using np by (simp add: new_process_def L(3) upd_thr_def)
  moreover have "program_in ?img gs (block_of 0x7FFFF000 (args xs)) (vm ?k3) Q M B" using P a2 by (simp add: program_in_def upd_thr_def)
  ultimately show ?thesis using L(5) by (intro exI [of _ ?t] exI [of _ "s\<lparr>ofs := v, opr := set_pk ?k3 p1\<rparr>"] exI [of _ Q] exI [of _ M] exI [of _ B]) (simp add: set_pk_def)
qed


text \<open>The file \<open>/p/a\<close> of the sample file system as an executable with one segment of 16 bytes.\<close>

definition elf_headers :: "(u32 \<times> u32 \<times> u8 list \<times> programHeader) list" where
  "elf_headers = [(1, 0, replicate 4 0, \<lparr>ph_offset = 84, ph_vaddr = 0x1054, ph_fileSize = 16, ph_memSize = 16, ph_flags = 5\<rparr>)]"

definition elf_file :: "u8 list" where
  "elf_file = elf_header_bytes (replicate 24 0) (replicate 10 0) (replicate 6 0 @ header_table elf_headers @ replicate 516 0x90)
     \<lparr>e_entry = 0x1054, phoff = 52, phentsize = 32, phnum = 1\<rparr>"

definition elf_disk :: disk where
  "elf_disk = sample_sectors\<lparr>sector := (sector sample_sectors)(2 := take 512 elf_file, 3 := drop 512 elf_file @ replicate 424 0)\<rparr>"

definition elf_vfs :: "fs_world vfs" where
  "elf_vfs = sample_pfat_vfs\<lparr>world := (world sample_pfat_vfs)\<lparr>w_disks := (\<lambda>_. elf_disk)\<rparr>\<rparr>"

definition elf_format :: Exe_Format where
  "elf_format = sample_format\<lparr>segmentList := segment_of (header_of (hd elf_headers)) # drop 1 (segmentList sample_format),
     numSegments := 1, exe_entryAddr := 0x1054\<rparr>"

lemma length_elf_file [simp]: "length elf_file = 600"
  by (simp add: elf_file_def elf_header_bytes_def header_table_def elf_headers_def program_header_bytes_def)

lemma elf_file_parses: "Parse_ELF_Executable elf_file sample_format = Some (0, elf_format)"
proof -
  let ?h = "\<lparr>e_entry = 0x1054, phoff = 52, phentsize = 32, phnum = 1\<rparr> :: elfHeader"
  have h: "read_elfHeader elf_file = Some ?h" unfolding elf_file_def by (rule read_elfHeader_ok) simp_all
  have m: "elf_file = elf_header_bytes (replicate 24 0) (replicate 10 0) (replicate 6 0) ?h @ header_table elf_headers @ replicate 516 0x90"
    by (simp add: elf_file_def elf_header_bytes_def)
  have "parse_segments elf_file 32 52 0 (length elf_headers) (segmentList sample_format) = Some (segmentList elf_format)"
    unfolding m by (subst parse_segments_ok)
      (simp_all add: elf_headers_def sized_def elf_header_bytes_def elf_format_def sample_format_def)
  then show ?thesis using h by (simp add: Parse_ELF_Executable_def elf_headers_def elf_format_def sample_format_def)
qed

lemma elf_file_reads:
  "\<exists>v. Read_Fully (file_ops G (mount_of elf_vfs)) ve cwd (join [[0x70], [0x61]]) junk (\<lambda>n. Some (replicate n 0)) elf_vfs = Some (0, Some elf_file, v)"
proof -
  let ?mp = "s_mountPointList elf_vfs ! 0"
  have at: "Lookup_Mount_Point [0x70] elf_vfs = Some (0, ?mp)" "mp_ops ?mp = s_pfatMountPointOps sample_pfat_env" "mp_fsData ?mp = 0"
    "p_insts (world elf_vfs) = [sample_pfat]" "w_disks (world elf_vfs) (mp_dev ?mp) = elf_disk"
  proof -
    have m: "s_mountPointList elf_vfs = s_mountPointList sample_pfat_vfs" by (simp add: elf_vfs_def)
    then have "Lookup_Mount_Point [0x70] elf_vfs = Lookup_Mount_Point [0x70] sample_pfat_vfs" by (simp only: Lookup_Mount_Point_def)
    then show "Lookup_Mount_Point [0x70] elf_vfs = Some (0, ?mp)" "mp_ops ?mp = s_pfatMountPointOps sample_pfat_env" "mp_fsData ?mp = 0"
      using sample_pfat_mounted(2-4) by (simp_all only: m)
    show "p_insts (world elf_vfs) = [sample_pfat]" "w_disks (world elf_vfs) (mp_dev ?mp) = elf_disk"
      using sample_pfat_mounted(5) by (simp_all add: elf_vfs_def)
  qed
  have d: "disk_ok elf_disk" by (simp add: disk_ok_def elf_disk_def sample_sectors_def)
  have "take 600 (blocks_content elf_disk [2, 3]) = elf_file" by (simp add: blocks_content_def elf_disk_def)
  then show ?thesis
    using Read_Fully_pfat [OF sample_pfat_mounted(1) at(1,2), where I = sample_pfat and ptr = "Ent 0" and e = sample_entry and bs = "[2, 3]"
        and cs = "[[0x61]]" and alloc = "\<lambda>n. Some (replicate n 0)" and buf = "replicate 600 0" and G = G and V = ve and cwd = cwd and junk = junk]
      sample_pfat_mounted(6-9) sample_lookup sample_entry_of sample_blocks d at by (simp del: join_simps)
qed

definition elf_kernel :: kstate where
  "elf_kernel = sample_threads\<lparr>int_flag := True, vm := sample_frames\<rparr>"

definition elf_proc :: "gdt \<Rightarrow> proc_state" where
  "elf_proc g = \<lparr>py = \<lparr>ks = elf_kernel, mtx = undefined, sems = undefined, semaList = [], next_sid = 1, usems = (\<lambda>_. []), pcs = undefined\<rparr>,
     pg = g, px = (\<lambda>_. undefined)\<rparr>"

definition elf_ext :: context_ext where
  "elf_ext = \<lparr>cx_ldt = replicate 2 (s_GDT sample_gdt ! 0), cx_ldtDescriptor = 0, cx_ldtSelector = 0, cx_pageDir = 0, cx_fileList = replicate 10 0,
     cx_pwd = \<lparr>pathPrefix = 0, dentry_ptr = 0\<rparr>, cx_signal = 0, cx_saHandler = replicate 6 0\<rparr>"

definition elf_env :: spawn_env where
  "elf_env = \<lparr>se_io = (\<lambda>_. True), se_env = (\<lambda>_ s. s), se_pdbr = Get_Page_Address 1, se_alloc = (\<lambda>n. Some (replicate n 0)),
     se_stat = undefined, se_beyond = (\<lambda>_. 0), se_format = sample_format, se_malloc = 0x200000,
     se_context = uctx sample_boot 0, se_ext = elf_ext, se_sems = replicate 10 0\<rparr>"

definition cleared_gdt :: gdt where
  "cleared_gdt = sample_gdt\<lparr>s_GDT := List.map clear_entry (s_GDT sample_gdt)\<rparr>"

lemma elf_segments: "take (numSegments elf_format) (segmentList elf_format) = [\<lparr>offsetInFile = 84, lengthInFile = 16, startAddress = 0x1054, sizeInMemory = 16, protFlags = 5\<rparr>]"
    "numSegments elf_format \<le> length (segmentList elf_format)"
  by (simp_all add: elf_format_def sample_format_def segment_of_def elf_headers_def)

lemma elf_segments_ok: "segs_ok (take (numSegments elf_format) (segmentList elf_format))" "frames_needed (take (numSegments elf_format) (segmentList elf_format)) = 7"
  unfolding elf_segments
  by (simp_all add: seg_fits_def num_pages_def seg_start_def PAGE_DIRECTORY_INDEX_nat PAGE_TABLE_INDEX_nat frames_needed_def)

lemma elf_can_spawn: "can_spawn elf_env (take (numSegments elf_format) (segmentList elf_format)) 1 (elf_proc cleared_gdt)"
proof -
  have g: "gdt_ok cleared_gdt" "gdt_used cleared_gdt = {}" using cleared_ok [of sample_gdt] by (simp_all add: cleared_gdt_def sample_gdt_def)
  have k: "kinv elf_kernel" "int_flag elf_kernel" "vm elf_kernel = sample_frames" "allThreads elf_kernel = [1, 2]"
  proof -
    have "kinv (sample_threads\<lparr>int_flag := True\<rparr>)" using sample_threads_ok(1) by (simp only: kinv_kbase kbase_int)
    then show "kinv elf_kernel" by (simp only: elf_kernel_def kinv_vm)
  qed (simp_all add: elf_kernel_def sample_threads_def)
  have f: "\<forall>i\<in>set (freeList sample_frames). Get_Page_Address i \<notin> {1, 2}" "length (freeList sample_frames) = 12"
    by (auto simp: sample_frames_def Get_Page_Address_def)
  have l: "2 \<le> length (cx_ldt elf_ext)" by (simp add: elf_ext_def)
  show ?thesis unfolding can_spawn_def elf_segments_ok(2)
    using g k f l sample_frames_ok by (simp add: elf_proc_def elf_env_def lessThan_empty_iff)
qed


end
