(* ===== verification/Fmtout.thy ===== *)
theory Fmtout
  imports CString Path
begin

text \<open>
  Formatted output, \<open>common/fmtout.c\<close>, and \<open>snprintf\<close> of \<open>common/string.c\<close>.  The output of \<open>Format_Output\<close> is the
  list of characters given to the sink.  The variable arguments are a list of words; \<open>strs\<close> reads the string at
  an address, and an argument that was not passed stops the machine.  Field widths and precisions are integers
  without overflow.
\<close>

section \<open>Numbers\<close>

abbreviation (input) "FL_ZERO \<equiv> 0x01 :: u32"
abbreviation (input) "FL_MINUS \<equiv> 0x02 :: u32"
abbreviation (input) "FL_PLUS \<equiv> 0x04 :: u32"
abbreviation (input) "FL_TICK \<equiv> 0x08 :: u32"
abbreviation (input) "FL_SPACE \<equiv> 0x10 :: u32"
abbreviation (input) "FL_HASH \<equiv> 0x20 :: u32"
abbreviation (input) "FL_SIGNED \<equiv> 0x40 :: u32"
abbreviation (input) "FL_UPPER \<equiv> 0x80 :: u32"
abbreviation (input) "NDIGITS_MAX \<equiv> 43 :: int"

definition has_fl :: "u32 \<Rightarrow> u32 \<Rightarrow> bool" where
  "has_fl f flags \<longleftrightarrow> flags AND f \<noteq> 0"

definition digit_of :: "bool \<Rightarrow> nat \<Rightarrow> u8" where
  "digit_of upper d = (if d < 10 then 48 + of_nat d else if upper then 55 + of_nat d else 87 + of_nat d)"

fun count_digits :: "nat \<Rightarrow> nat \<Rightarrow> nat" where
  "count_digits base v = (if v = 0 \<or> base \<le> 1 then 0 else Suc (count_digits base (v div base)))"

declare count_digits.simps [simp del]

text \<open>The digits are generated from the right, into a buffer of which \<open>n\<close> places are left; a tick mark takes a
  place of its own.\<close>

fun gen_digits :: "bool \<Rightarrow> nat \<Rightarrow> int \<Rightarrow> nat \<Rightarrow> int \<Rightarrow> nat \<Rightarrow> u8 list \<Rightarrow> u8 list kres" where
  "gen_digits up base tickskip 0 b4tick v acc = Some acc"
| "gen_digits up base tickskip (Suc n) b4tick v acc =
     (if b4tick = 0
      then (case n of 0 \<Rightarrow> None
            | Suc m \<Rightarrow> gen_digits up base tickskip m (tickskip - 1) (v div base) (digit_of up (v mod base) # 0x5F # acc))
      else gen_digits up base tickskip n (b4tick - 1) (v div base) (digit_of up (v mod base) # acc))"

definition pad :: "u8 \<Rightarrow> int \<Rightarrow> u8 list" where
  "pad c n = replicate (nat n) c"

text \<open>The sign is separated from the value first.\<close>

definition format_magnitude :: "bool \<Rightarrow> u32 \<Rightarrow> u32 \<Rightarrow> nat \<Rightarrow> int \<Rightarrow> int \<Rightarrow> u8 list kres" where
  "format_magnitude neg val flags base width prec = do {
     let ndigits = int (count_digits base (unat val));
     let prec = (if has_fl FL_HASH flags \<and> base = 8 \<and> prec < ndigits + 1 then ndigits + 1 else prec);
     let ndigits = (if ndigits < prec then prec else if val = 0 then 1 else ndigits);
     let tickskip = (if has_fl FL_TICK flags then if base = 16 then 4 else 3 else ndigits);
     let ndigits = ndigits + (ndigits - 1) div tickskip;
     let nchars = ndigits + (if neg \<or> has_fl (FL_PLUS OR FL_SPACE) flags then 1 else 0)
       + (if has_fl FL_HASH flags \<and> base = 16 then 2 else 0);
     let early = (if \<not> has_fl (FL_MINUS OR FL_ZERO) flags \<and> nchars < width then pad 0x20 (width - nchars) else []);
     let width = (if \<not> has_fl (FL_MINUS OR FL_ZERO) flags \<and> nchars < width then nchars else width);
     let sign = (if neg then [0x2D] else if has_fl FL_PLUS flags then [0x2B] else if has_fl FL_SPACE flags then [0x20] else []);
     let hash = (if has_fl FL_HASH flags \<and> base = 16 then [0x30, if has_fl FL_UPPER flags then 0x58 else 0x78] else []);
     let zeros = (if flags AND (FL_MINUS OR FL_ZERO) = FL_ZERO \<and> ndigits < width then pad 0x30 (width - nchars) else []);
     let width = (if flags AND (FL_MINUS OR FL_ZERO) = FL_ZERO \<and> ndigits < width then min width nchars else width);
     KASSERT (ndigits \<le> NDIGITS_MAX);
     digits \<leftarrow> gen_digits (has_fl FL_UPPER flags) base tickskip (nat ndigits) tickskip (unat val) [];
     let late = (if has_fl FL_MINUS flags then pad 0x20 (width - nchars) else []);
     Some (early @ sign @ hash @ zeros @ digits @ late) }"

definition format_int :: "u32 \<Rightarrow> u32 \<Rightarrow> nat \<Rightarrow> int \<Rightarrow> int \<Rightarrow> u8 list kres" where
  "format_int val flags base width prec = (
     let neg = has_fl FL_SIGNED flags \<and> sint val < 0
     in format_magnitude neg (if neg then - val else val) flags base width prec)"

section \<open>The format string\<close>

datatype fstate = st_normal | st_flags | st_width | st_prec | st_modifiers

text \<open>\<open>counts\<close> are the addresses that \<open>%n\<close> was given, with the rank; the number stored there is always 0.\<close>

record fmt =
  fstate :: fstate
  fflags :: u32
  rank :: int
  width :: int
  prec :: int
  ap :: "u32 list"
  out :: "u8 list"
  counts :: "(u32 \<times> int) list"

abbreviation (input) "MIN_RANK \<equiv> - 2 :: int"
abbreviation (input) "MAX_RANK \<equiv> 1 :: int"

definition va_arg :: "fmt \<Rightarrow> (u32 \<times> fmt) kres" where
  "va_arg f = (case ap f of [] \<Rightarrow> None | w # ws \<Rightarrow> Some (w, f\<lparr>ap := ws\<rparr>))"

definition emit :: "u8 list \<Rightarrow> fmt \<Rightarrow> fmt" where
  "emit cs f = f\<lparr>out := out f @ cs\<rparr>"

definition narrow_signed :: "int \<Rightarrow> u32 \<Rightarrow> u32" where
  "narrow_signed rk w = (if rk = - 2 then scast (ucast w :: 8 word) else if rk = - 1 then scast (ucast w :: 16 word) else w)"

definition narrow_unsigned :: "int \<Rightarrow> u32 \<Rightarrow> u32" where
  "narrow_unsigned rk w = (if rk = - 2 then ucast (ucast w :: 8 word) else if rk = - 1 then ucast (ucast w :: 16 word) else w)"

definition is_integer :: "u32 \<Rightarrow> nat \<Rightarrow> fmt \<Rightarrow> fmt kres" where
  "is_integer val base f = do { cs \<leftarrow> format_int val (fflags f) base (width f) (prec f); Some (emit cs f) }"

definition is_string :: "cstr \<Rightarrow> fmt \<Rightarrow> fmt" where
  "is_string sarg f = (
     let slen = int (length sarg);
         slen = (if prec f \<noteq> - 1 \<and> prec f < slen then prec f else slen);
         early = (if slen < width f \<and> \<not> has_fl FL_MINUS (fflags f)
           then pad (if has_fl FL_ZERO (fflags f) then 0x30 else 0x20) (width f - slen) else []);
         late = (if slen < width f \<and> has_fl FL_MINUS (fflags f) then pad 0x20 (width f - slen) else [])
     in emit (early @ take (nat slen) sarg @ late) f)"

definition null_text :: cstr where
  "null_text = [0x28, 0x6E, 0x75, 0x6C, 0x6C, 0x29]"

definition conversion :: "(u32 \<Rightarrow> cstr kres) \<Rightarrow> u8 \<Rightarrow> fmt \<Rightarrow> fmt kres" where
  "conversion strs ch f = (
     let f = f\<lparr>fstate := st_normal, rank := (if rank f < MIN_RANK then MIN_RANK else if rank f > MAX_RANK then MAX_RANK else rank f)\<rparr> in
     if ch = 0x50 then do { (w, f) \<leftarrow> va_arg (f\<lparr>fflags := fflags f OR FL_UPPER OR FL_HASH, prec := 8\<rparr>); is_integer w 16 f }
     else if ch = 0x70 then do { (w, f) \<leftarrow> va_arg (f\<lparr>fflags := fflags f OR FL_HASH, prec := 8\<rparr>); is_integer w 16 f }
     else if ch = 0x64 \<or> ch = 0x69 then do { (w, f) \<leftarrow> va_arg (f\<lparr>fflags := fflags f OR FL_SIGNED\<rparr>); is_integer (narrow_signed (rank f) w) 10 f }
     else if ch = 0x6F then do { (w, f) \<leftarrow> va_arg f; is_integer (narrow_unsigned (rank f) w) 8 f }
     else if ch = 0x75 then do { (w, f) \<leftarrow> va_arg f; is_integer (narrow_unsigned (rank f) w) 10 f }
     else if ch = 0x58 then do { (w, f) \<leftarrow> va_arg (f\<lparr>fflags := fflags f OR FL_UPPER\<rparr>); is_integer (narrow_unsigned (rank f) w) 16 f }
     else if ch = 0x78 then do { (w, f) \<leftarrow> va_arg f; is_integer (narrow_unsigned (rank f) w) 16 f }
     else if ch = 0x63 then do { (w, f) \<leftarrow> va_arg f; Some (is_string [ucast w] f) }
     else if ch = 0x73 then do { (w, f) \<leftarrow> va_arg f; s \<leftarrow> (if w = 0 then Some null_text else strs w); Some (is_string s f) }
     else if ch = 0x6E then do { (w, f) \<leftarrow> va_arg f; Some (f\<lparr>counts := counts f @ [(w, rank f)]\<rparr>) }
     else Some (emit [ch] f))"

definition on_modifiers :: "(u32 \<Rightarrow> cstr kres) \<Rightarrow> u8 \<Rightarrow> fmt \<Rightarrow> fmt kres" where
  "on_modifiers strs ch f = (
     if ch = 0x68 then Some (f\<lparr>rank := rank f - 1\<rparr>)
     else if ch = 0x6C then Some (f\<lparr>rank := rank f + 1\<rparr>)
     else if ch = 0x6A \<or> ch = 0x7A \<or> ch = 0x74 then Some (f\<lparr>rank := 1\<rparr>)
     else if ch = 0x4C \<or> ch = 0x71 then Some (f\<lparr>rank := rank f + 2\<rparr>)
     else conversion strs ch f)"

text \<open>A character that ends a state is processed again in the next one.\<close>

definition on_prec :: "(u32 \<Rightarrow> cstr kres) \<Rightarrow> u8 \<Rightarrow> fmt \<Rightarrow> fmt kres" where
  "on_prec strs ch f = (
     if sint ch \<ge> 48 \<and> sint ch \<le> 57 then Some (f\<lparr>prec := prec f * 10 + (sint ch - 48)\<rparr>)
     else if ch = 0x2A then do { (w, f) \<leftarrow> va_arg f; Some (f\<lparr>prec := (if sint w < 0 then - 1 else sint w)\<rparr>) }
     else on_modifiers strs ch (f\<lparr>fstate := st_modifiers\<rparr>))"

definition on_width :: "(u32 \<Rightarrow> cstr kres) \<Rightarrow> u8 \<Rightarrow> fmt \<Rightarrow> fmt kres" where
  "on_width strs ch f = (
     if sint ch \<ge> 48 \<and> sint ch \<le> 57 then Some (f\<lparr>width := width f * 10 + (sint ch - 48)\<rparr>)
     else if ch = 0x2A then do {
       (w, f) \<leftarrow> va_arg f;
       Some (if sint w < 0 then f\<lparr>width := - sint w, fflags := fflags f OR FL_MINUS\<rparr> else f\<lparr>width := sint w\<rparr>) }
     else if ch = 0x2E then Some (f\<lparr>prec := 0, fstate := st_prec\<rparr>)
     else on_modifiers strs ch (f\<lparr>fstate := st_modifiers\<rparr>))"

definition on_flags :: "(u32 \<Rightarrow> cstr kres) \<Rightarrow> u8 \<Rightarrow> fmt \<Rightarrow> fmt kres" where
  "on_flags strs ch f = (
     if ch = 0x2D then Some (f\<lparr>fflags := fflags f OR FL_MINUS\<rparr>)
     else if ch = 0x2B then Some (f\<lparr>fflags := fflags f OR FL_PLUS\<rparr>)
     else if ch = 0x27 then Some (f\<lparr>fflags := fflags f OR FL_TICK\<rparr>)
     else if ch = 0x20 then Some (f\<lparr>fflags := fflags f OR FL_SPACE\<rparr>)
     else if ch = 0x23 then Some (f\<lparr>fflags := fflags f OR FL_HASH\<rparr>)
     else if ch = 0x30 then Some (f\<lparr>fflags := fflags f OR FL_ZERO\<rparr>)
     else on_width strs ch (f\<lparr>fstate := st_width\<rparr>))"

definition format_char :: "(u32 \<Rightarrow> cstr kres) \<Rightarrow> u8 \<Rightarrow> fmt \<Rightarrow> fmt kres" where
  "format_char strs ch f =
     (case fstate f of
        st_normal \<Rightarrow> Some (if ch = 0x25 then f\<lparr>fstate := st_flags, fflags := 0, rank := 0, width := 0, prec := - 1\<rparr> else emit [ch] f)
      | st_flags \<Rightarrow> on_flags strs ch f
      | st_width \<Rightarrow> on_width strs ch f
      | st_prec \<Rightarrow> on_prec strs ch f
      | st_modifiers \<Rightarrow> on_modifiers strs ch f)"

fun format_chars :: "(u32 \<Rightarrow> cstr kres) \<Rightarrow> cstr \<Rightarrow> fmt \<Rightarrow> fmt kres" where
  "format_chars strs [] f = Some f"
| "format_chars strs (ch # cs) f = do { f \<leftarrow> format_char strs ch f; format_chars strs cs f }"

definition start_fmt :: "u32 list \<Rightarrow> fmt" where
  "start_fmt args = \<lparr>fstate = st_normal, fflags = 0, rank = 0, width = 0, prec = - 1, ap = args, out = [], counts = []\<rparr>"

text \<open>The answer is the number of characters, which is never counted.\<close>

definition Format_Output :: "(u32 \<Rightarrow> cstr kres) \<Rightarrow> cstr \<Rightarrow> u32 list \<Rightarrow> (int \<times> fmt) kres" where
  "Format_Output strs fmt args = do { f \<leftarrow> format_chars strs fmt (start_fmt args); Some (0, f) }"

section \<open>Printing into a string\<close>

record String_Output_Sink =
  sk_buf :: "u8 list"
  sk_s :: nat
  sk_n :: nat
  sk_size :: nat

definition String_Emit :: "u8 \<Rightarrow> String_Output_Sink \<Rightarrow> String_Output_Sink kres" where
  "String_Emit ch o' = do {
     o' \<leftarrow> (if sk_n o' < sk_size o'
       then do { b \<leftarrow> aset (sk_buf o') (sk_s o') ch; Some (o'\<lparr>sk_buf := b, sk_s := sk_s o' + 1\<rparr>) } else Some o');
     Some (o'\<lparr>sk_n := sk_n o' + 1\<rparr>) }"

definition String_Finish :: "String_Output_Sink \<Rightarrow> String_Output_Sink kres" where
  "String_Finish o' =
     (if sk_n o' < sk_size o' then do { b \<leftarrow> aset (sk_buf o') (sk_s o') 0; Some (o'\<lparr>sk_buf := b\<rparr>) }
      else do { KASSERT (0 < sk_s o'); b \<leftarrow> aset (sk_buf o') (sk_s o' - 1) 0; Some (o'\<lparr>sk_buf := b\<rparr>) })"

fun emit_all :: "u8 list \<Rightarrow> String_Output_Sink \<Rightarrow> String_Output_Sink kres" where
  "emit_all [] o' = Some o'"
| "emit_all (c # cs) o' = do { o' \<leftarrow> String_Emit c o'; emit_all cs o' }"

definition snprintf :: "(u32 \<Rightarrow> cstr kres) \<Rightarrow> u8 list \<Rightarrow> nat \<Rightarrow> cstr \<Rightarrow> u32 list \<Rightarrow> (int \<times> u8 list) kres" where
  "snprintf strs s cap fmt args = do {
     (rc, f) \<leftarrow> Format_Output strs fmt args;
     o' \<leftarrow> emit_all (out f) \<lparr>sk_buf = s, sk_s = 0, sk_n = 0, sk_size = cap\<rparr>;
     o' \<leftarrow> String_Finish o';
     Some (rc, sk_buf o') }"

section \<open>Digits\<close>

fun digs :: "nat \<Rightarrow> nat \<Rightarrow> nat \<Rightarrow> nat list" where
  "digs base 0 v = []"
| "digs base (Suc n) v = digs base n (v div base) @ [v mod base]"

lemma length_digs [simp]: "length (digs base n v) = n"
  by (induction base n v rule: digs.induct) auto

lemma digs_bound: "0 < base \<Longrightarrow> d \<in> set (digs base n v) \<Longrightarrow> d < base"
  by (induction base n v rule: digs.induct) auto

lemma decimal_snoc: "decimal (ds @ [d]) v = 10 * decimal ds v + d"
  by (induction ds arbitrary: v) auto

lemma decimal_digs: "decimal (digs 10 n v) 0 = v mod 10 ^ n"
proof (induction n arbitrary: v)
  case (Suc n)
  have "10 * (v div 10 mod 10 ^ n) + v mod 10 = v mod (10 * 10 ^ n)" by (simp add: mod_mult2_eq)
  then show ?case by (simp add: decimal_snoc Suc.IH)
qed simp

lemma count_digits_bound: "2 \<le> base \<Longrightarrow> v < base ^ count_digits base v"
proof (induction base v rule: count_digits.induct)
  case (1 base v)
  show ?case
  proof (cases "v = 0")
    case False
    then have "v div base < base ^ count_digits base (v div base)" using 1 by simp
    then have "v div base + 1 \<le> base ^ count_digits base (v div base)" by simp
    then have "base * (v div base + 1) \<le> base * base ^ count_digits base (v div base)" by (rule mult_le_mono2)
    moreover have "v < base * (v div base + 1)" using 1(2) mult_div_mod_eq [of base v] mod_less_divisor [of base v] unfolding add_mult_distrib2 by linarith
    ultimately show ?thesis using False 1(2) by (subst count_digits.simps) simp
  qed (subst count_digits.simps, simp)
qed

lemma count_digits_le: "v < 10 ^ n \<Longrightarrow> count_digits 10 v \<le> n"
proof (induction n arbitrary: v)
  case (Suc n)
  then have "v div 10 < 10 ^ n" by (simp add: div_less_iff_less_mult mult.commute)
  then show ?case using Suc.IH [of "v div 10"] by (subst count_digits.simps) simp
qed (subst count_digits.simps, simp)

lemma gen_digits_plain:
  "int n \<le> b \<Longrightarrow> gen_digits up base skip n b v acc = Some (List.map (digit_of up) (digs base n v) @ acc)"
  by (induction n arbitrary: b v acc) auto

text \<open>A number without modifiers: its decimal digits, with a sign if it is negative.\<close>

definition magnitude :: "u32 \<Rightarrow> nat" where
  "magnitude v = nat \<bar>sint v\<bar>"

definition number_text :: "u32 \<Rightarrow> u8 list" where
  "number_text v = (if sint v < 0 then [0x2D] else []) @
     List.map (digit_of False) (digs 10 (max 1 (count_digits 10 (magnitude v))) (magnitude v))"

lemma magnitude_nat: "unat (if sint v < 0 then - v else v) = magnitude v"
proof -
  have r: "- (2 ^ 31) \<le> sint v" "sint v < 2 ^ 31" using sint_ge [of v] sint_lt [of v] by simp_all
  have w: "uint (word_of_int k :: u32) = k" if "0 \<le> k" "k < 2 ^ 32" for k using that by (simp add: uint_word_of_int)
  have e: "(if sint v < 0 then - v else v) = word_of_int \<bar>sint v\<bar>" by simp
  have "uint (if sint v < 0 then - v else v) = \<bar>sint v\<bar>" unfolding e using r by (intro w) simp_all
  then show ?thesis by (simp add: magnitude_def unat_eq_nat_uint)
qed

lemma magnitude_small: "magnitude v < 10 ^ 10"
  using unat_lt_32 [of "if sint v < 0 then - v else v"] unfolding magnitude_nat by simp

lemma has_fl_0 [simp]: "has_fl f 0 = False"
  by (simp add: has_fl_def)

lemma signed_only:
  "\<not> has_fl FL_HASH FL_SIGNED" "\<not> has_fl FL_TICK FL_SIGNED" "has_fl FL_SIGNED FL_SIGNED" "\<not> has_fl (FL_PLUS OR FL_SPACE) FL_SIGNED"
  "\<not> has_fl (FL_MINUS OR FL_ZERO) FL_SIGNED" "\<not> has_fl FL_PLUS FL_SIGNED" "\<not> has_fl FL_SPACE FL_SIGNED" "\<not> has_fl FL_MINUS FL_SIGNED"
  "\<not> has_fl FL_UPPER FL_SIGNED" "FL_SIGNED AND (FL_MINUS OR FL_ZERO) \<noteq> FL_ZERO"
  by (simp_all add: has_fl_def)

lemma format_magnitude_decimal:
  assumes "unat w < 10 ^ 10"
  shows "format_magnitude mi w FL_SIGNED 10 0 (- 1) =
    Some ((if mi then [0x2D] else []) @ List.map (digit_of False) (digs 10 (max 1 (count_digits 10 (unat w))) (unat w)))"
proof -
  define n m where "n = count_digits 10 (unat w)" and "m = max 1 n"
  have "n = 0 \<longleftrightarrow> w = 0" unfolding n_def by (subst count_digits.simps) (simp add: word_unat_eq_iff)
  then have m: "(if int n < - 1 then - 1 else if w = 0 then 1 else int n) = int m" by (auto simp: m_def)
  have m10: "1 \<le> m" "m \<le> 10" using count_digits_le [OF assms] by (simp_all add: m_def n_def)
  have t: "(int m - 1) div int m = 0" using m10 by (simp add: div_pos_pos_trivial)
  have g: "gen_digits False 10 (int m) m (int m) (unat w) [] = Some (List.map (digit_of False) (digs 10 m (unat w)))"
    using gen_digits_plain [of m "int m"] by simp
  have nm: "nat (int m) = m" by simp
  have k: "int m \<le> NDIGITS_MAX" "\<And>b. \<not> int m + (if b then 1 else 0) < 0" using m10 by auto
  have "format_magnitude mi w FL_SIGNED 10 0 (- 1) = Some ((if mi then [0x2D] else []) @ List.map (digit_of False) (digs 10 m (unat w)))"
    unfolding format_magnitude_def Let_def n_def [symmetric]
    by (simp only: signed_only simp_thms if_False if_True m t nm add_0_right g k KASSERT_bind bind.bind_lunit append_Nil append_Nil2)
  then show ?thesis by (simp only: m_def n_def)
qed

lemma format_int_decimal: "format_int v FL_SIGNED 10 0 (- 1) = Some (number_text v)"
proof -
  have m: "unat (if has_fl FL_SIGNED FL_SIGNED \<and> sint v < 0 then - v else v) = magnitude v" using magnitude_nat signed_only(3) by simp
  then have "unat (if has_fl FL_SIGNED FL_SIGNED \<and> sint v < 0 then - v else v) < 10 ^ 10" using magnitude_small by simp
  from format_magnitude_decimal [OF this] show ?thesis
    unfolding format_int_def Let_def m using signed_only(3) by (simp add: number_text_def)
qed

section \<open>Formats\<close>

lemma format_chars_append: "format_chars strs (xs @ ys) f = do { f \<leftarrow> format_chars strs xs f; format_chars strs ys f }"
proof (induction xs arbitrary: f)
  case (Cons x xs)
  then show ?case by (cases "format_char strs x f") simp_all
qed simp

lemma format_plain: "0x25 \<notin> set xs \<Longrightarrow> fstate f = st_normal \<Longrightarrow> format_chars strs xs f = Some (emit xs f)"
proof (induction xs arbitrary: f)
  case Nil
  then show ?case by (simp add: emit_def)
next
  case (Cons x xs)
  then have "format_char strs x f = Some (emit [x] f)" by (simp add: format_char_def)
  moreover have "format_chars strs xs (emit [x] f) = Some (emit xs (emit [x] f))" using Cons by (simp add: emit_def)
  moreover have "emit xs (emit [x] f) = emit (x # xs) f" by (simp add: emit_def)
  ultimately show ?case by simp
qed

lemma format_percent_d:
  assumes "fstate f = st_normal" "ap f = v # vs"
  shows "\<exists>f'. format_chars strs [0x25, 0x64] f = Some f' \<and> out f' = out f @ number_text v \<and> fstate f' = st_normal \<and> ap f' = vs"
  using assms format_int_decimal [of v]
  by (simp add: format_char_def on_flags_def on_width_def on_modifiers_def conversion_def va_arg_def is_integer_def narrow_signed_def emit_def)

lemma emit_all_eq:
  assumes "cap \<le> length b"
  shows "emit_all cs \<lparr>sk_buf = b, sk_s = min n cap, sk_n = n, sk_size = cap\<rparr> =
    Some \<lparr>sk_buf = take (min n cap) b @ take (cap - n) cs @ drop (min n cap + length (take (cap - n) cs)) b,
      sk_s = min (n + length cs) cap, sk_n = n + length cs, sk_size = cap\<rparr>"
  using assms
proof (induction cs arbitrary: b n)
  case (Cons c cs)
  show ?case
  proof (cases "n < cap")
    case True
    let ?b = "b[n := c]"
    have "String_Emit c \<lparr>sk_buf = b, sk_s = min n cap, sk_n = n, sk_size = cap\<rparr> =
        Some \<lparr>sk_buf = ?b, sk_s = min (n + 1) cap, sk_n = n + 1, sk_size = cap\<rparr>"
      using True Cons.prems by (simp add: String_Emit_def)
    moreover have "cap \<le> length ?b" using Cons.prems by simp
    moreover have "take (n + 1) ?b = take n b @ [c]" using True Cons.prems by (simp add: take_Suc_conv_app_nth)
    moreover have "cap - n = Suc (cap - (n + 1))" using True by simp
    ultimately show ?thesis using Cons.IH [of ?b "n + 1"] True Cons.prems by (simp add: min_def)
  next
    case False
    then have "String_Emit c \<lparr>sk_buf = b, sk_s = min n cap, sk_n = n, sk_size = cap\<rparr> =
        Some \<lparr>sk_buf = b, sk_s = min (n + 1) cap, sk_n = n + 1, sk_size = cap\<rparr>" by (simp add: String_Emit_def min_def)
    then show ?thesis using Cons.IH [OF Cons.prems, of "n + 1"] False by (simp add: min_def)
  qed
qed simp

lemma snprintf_eq:
  assumes "Format_Output strs fmt args = Some (rc, f)" "0 < cap" "cap \<le> length s"
  shows "snprintf strs s cap fmt args = Some (0, take (cap - 1) (out f) @ 0 # drop (length (take (cap - 1) (out f)) + 1) s)"
proof -
  let ?n = "length (out f)"
  have rc: "rc = 0" using assms(1) by (auto simp: Format_Output_def bind_Some_iff)
  let ?o = "\<lparr>sk_buf = take cap (out f) @ drop (length (take cap (out f))) s, sk_s = min ?n cap, sk_n = ?n, sk_size = cap\<rparr>"
  have e: "emit_all (out f) \<lparr>sk_buf = s, sk_s = 0, sk_n = 0, sk_size = cap\<rparr> = Some ?o"
    using emit_all_eq [OF assms(3), of "out f" 0] by simp
  have "String_Finish ?o = Some (?o\<lparr>sk_buf := take (cap - 1) (out f) @ 0 # drop (length (take (cap - 1) (out f)) + 1) s\<rparr>)"
  proof (cases "?n < cap")
    case True
    then have "take cap (out f) = out f" "take (cap - 1) (out f) = out f" by simp_all
    moreover have "(out f @ drop ?n s)[?n := 0] = out f @ 0 # drop (?n + 1) s"
      using True assms(3) by (simp add: list_update_append Cons_nth_drop_Suc [symmetric])
    ultimately show ?thesis using True assms(3) by (simp add: String_Finish_def)
  next
    case False
    then obtain c where c: "take cap (out f) = take (cap - 1) (out f) @ [c]"
      using take_Suc_conv_app_nth [of "cap - 1" "out f"] assms(2) by (cases cap) auto
    have l: "length (take (cap - 1) (out f)) = cap - 1" using False by simp
    have "(take cap (out f) @ drop cap s)[cap - 1 := 0] = take (cap - 1) (out f) @ 0 # drop cap s"
      unfolding c using l by (simp add: list_update_append)
    then show ?thesis using False assms(2,3) by (simp add: String_Finish_def)
  qed
  then show ?thesis using assms(1) e rc by (simp add: snprintf_def)
qed

lemma cstr_at_app: "0 \<notin> set xs \<Longrightarrow> cstr_at (as @ xs @ 0 # bs) (length as) xs"
proof (induction xs arbitrary: as)
  case (Cons x xs)
  have "cstr_at ((as @ [x]) @ xs @ 0 # bs) (length (as @ [x])) xs" using Cons by (intro Cons.IH) simp
  then show ?case using Cons.prems by (auto simp: nth_append)
qed (simp add: nth_append)

lemma digit_of_char: "d < 10 \<Longrightarrow> digit_of False d = digit_char d"
  by (simp add: digit_of_def digit_char_def)

definition number_digits :: "u32 \<Rightarrow> nat list" where
  "number_digits v = digs 10 (max 1 (count_digits 10 (magnitude v))) (magnitude v)"

lemma number_digits_bound: "d \<in> set (number_digits v) \<Longrightarrow> d < 10"
  using digs_bound [of 10] by (simp add: number_digits_def)

lemma number_text_digits: "number_text v = (if sint v < 0 then [0x2D] else []) @ List.map digit_char (number_digits v)"
  unfolding number_text_def number_digits_def [symmetric] using number_digits_bound digit_of_char by simp

lemma number_value: "decimal (number_digits v) 0 = magnitude v"
proof -
  have "magnitude v < 10 ^ count_digits 10 (magnitude v)" by (rule count_digits_bound) simp
  also have "\<dots> \<le> 10 ^ max 1 (count_digits 10 (magnitude v))" by (intro power_increasing) simp_all
  finally show ?thesis by (simp add: number_digits_def decimal_digs)
qed

lemma number_length: "length (number_text v) \<le> 11" "length (number_digits v) \<le> 10"
  using count_digits_le [OF magnitude_small, of v] by (auto simp: number_text_def number_digits_def)

lemma atoi_digits:
  assumes "magnitude v < 2 ^ 31"
  shows "atoi (as @ List.map digit_char (number_digits v) @ 0 # bs) (length as) = Some \<bar>sint v\<bar>"
proof -
  have z: "0 \<notin> set (List.map digit_char (number_digits v))" using number_digits_bound digit_byte(3) by auto
  have c: "cstr_at (as @ List.map digit_char (number_digits v) @ 0 # bs) (length as) (List.map digit_char (number_digits v) @ [])"
    using cstr_at_app [OF z] by simp
  have "atoi (as @ List.map digit_char (number_digits v) @ 0 # bs) (length as) = Some (int (decimal (number_digits v) 0))"
    using assms number_digits_bound by (intro atoi_spec [OF c]) (simp_all add: number_value)
  then show ?thesis by (simp add: number_value magnitude_def)
qed

section \<open>Properties\<close>

text \<open>C24: Whatever the format and the arguments, as long as the output can be formatted at all: \<open>snprintf\<close> stores its
  first characters and a nul in the buffer and nothing outside the size it was given; its answer is 0 and not the
  number of characters.\<close>

theorem snprintf_bounded:
  assumes "Format_Output strs fmt args = Some (rc, f)" "0 < cap" "cap \<le> length s"
  shows "\<exists>s'. snprintf strs s cap fmt args = Some (0, s') \<and> length s' = length s \<and> drop cap s' = drop cap s \<and>
    take (min (length (out f)) (cap - 1)) s' = take (cap - 1) (out f) \<and> s' ! min (length (out f)) (cap - 1) = 0"
proof -
  let ?t = "take (cap - 1) (out f)" and ?k = "min (length (out f)) (cap - 1)"
  have k: "length ?t = ?k" "?k + 1 \<le> cap" using assms(2) by simp_all
  have "drop cap (?t @ 0 # drop (?k + 1) s) = drop cap s"
  proof -
    have "drop cap (?t @ 0 # drop (?k + 1) s) = drop (cap - (?k + 1)) (drop (?k + 1) s)" using k assms(2) by (auto simp: drop_Cons')
    then show ?thesis using k(2) by simp
  qed
  moreover have "take (length ?t) (?t @ 0 # drop (?k + 1) s) = ?t" "(?t @ 0 # drop (?k + 1) s) ! length ?t = 0"
    by (rule append_eq_conv_conj [THEN iffD1, THEN conjunct1, symmetric], rule refl) (rule nth_append_length)
  moreover have "length (?t @ 0 # drop (?k + 1) s) = length s" using k assms(3) by simp
  ultimately show ?thesis using snprintf_eq [OF assms] unfolding k(1) by blast
qed

lemma snprintf_bounded_witness:
  "\<exists>s'. snprintf (\<lambda>_. None) (replicate 6 1) 4 [0x61, 0x25, 0x64] [12345] = Some (0, s') \<and> drop 4 s' = [1, 1] \<and> s' ! 3 = 0"
proof -
  obtain f' where f: "format_chars (\<lambda>_. None) [0x25, 0x64] (emit [0x61] (start_fmt [12345])) = Some f'" "out f' = [0x61] @ number_text 12345"
    using format_percent_d [of "emit [0x61] (start_fmt [12345])" 12345 "[]"] by (auto simp: start_fmt_def emit_def)
  have "Format_Output (\<lambda>_. None) ([0x61] @ [0x25, 0x64]) [12345] = Some (0, f')"
    using f(1) format_plain [of "[0x61]" "start_fmt [12345]"] unfolding Format_Output_def format_chars_append by (simp add: start_fmt_def)
  moreover have "length (number_text 12345) = 5"
    by (simp add: number_text_def magnitude_def count_digits.simps)
  ultimately show ?thesis using snprintf_bounded [of "\<lambda>_. None" "[0x61] @ [0x25, 0x64]" "[12345]" 0 f' 4 "replicate 6 1"] f(2) by (auto simp: numeral_2_eq_2)
qed



end
