(* ===== verification/Screen.thy ===== *)
theory Screen
  imports Machine Bytes CString
begin

text \<open>
  The text screen, \<open>geekos/screen.c\<close>: the video memory, the cursor, and the escape sequences that move it.

  The video memory is the array of its \<open>4000\<close> bytes; an access outside it stops the machine.  The cursor
  registers are those of the VGA controller: a write to the address register selects the register that
  a write to the data register changes.  The copy of every character to the debugging port and the
  formatting of \<open>Print\<close> are left out: \<open>Print\<close> is given the formatted text.
\<close>

section \<open>State\<close>

abbreviation (input) "NUMROWS \<equiv> 25 :: nat"
abbreviation (input) "NUMCOLS \<equiv> 80 :: nat"
abbreviation (input) "TABWIDTH \<equiv> 8 :: nat"
abbreviation (input) "MAXARGS \<equiv> 8 :: nat"
abbreviation (input) "NUM_SCREEN_DWORDS \<equiv> 1000 :: nat"
abbreviation (input) "NUM_SCROLL_DWORDS \<equiv> 960 :: nat"
abbreviation (input) "NUM_DWORDS_PER_LINE \<equiv> 40 :: nat"
abbreviation (input) "DEFAULT_ATTRIBUTE \<equiv> 7 :: u8"
abbreviation (input) "BRIGHT \<equiv> 8 :: u32"
abbreviation (input) "ESC \<equiv> 0x1B :: int"
abbreviation (input) "CRT_CURSOR_LOC_HIGH_REG \<equiv> 0x0E :: u8"
abbreviation (input) "CRT_CURSOR_LOC_LOW_REG \<equiv> 0x0F :: u8"

datatype State = S_NORMAL | S_ESC | S_ESC2 | S_ARG | S_CMD

record console = machine +
  crow :: int
  ccol :: int
  saveRow :: int
  saveCol :: int
  currentAttr :: u8
  cstate :: State
  argList :: "u32 list"
  numArgs :: nat
  vmem :: "u8 list"
  crt_addr :: u8
  crt :: "u8 \<Rightarrow> u8"

definition FILL_DWORD :: "console \<Rightarrow> u32" where
  "FILL_DWORD s = 0x00200020 OR push_bit 24 (ucast (currentAttr s)) OR push_bit 8 (ucast (currentAttr s))"

section \<open>The display\<close>

fun scroll_lines :: "u8 list \<Rightarrow> nat \<Rightarrow> nat \<Rightarrow> u8 list kres" where
  "scroll_lines vm i 0 = Some vm"
| "scroll_lines vm i (Suc n) = do {
     w \<leftarrow> get_word vm (4 * (i + NUM_DWORDS_PER_LINE));
     vm \<leftarrow> put_word vm (4 * i) w;
     scroll_lines vm (Suc i) n }"

fun fill_dwords :: "u32 \<Rightarrow> u8 list \<Rightarrow> nat \<Rightarrow> nat \<Rightarrow> u8 list kres" where
  "fill_dwords w vm i 0 = Some vm"
| "fill_dwords w vm i (Suc n) = do { vm \<leftarrow> put_word vm (4 * i) w; fill_dwords w vm (Suc i) n }"

definition Scroll :: "console \<Rightarrow> console kres" where
  "Scroll s = do {
     vm \<leftarrow> scroll_lines (vmem s) 0 NUM_SCROLL_DWORDS;
     vm \<leftarrow> fill_dwords (FILL_DWORD s) vm NUM_SCROLL_DWORDS NUM_DWORDS_PER_LINE;
     Some (s\<lparr>vmem := vm\<rparr>) }"

text \<open>The byte of the cursor in the video memory.\<close>

definition cursor_offset :: "console \<Rightarrow> nat kres" where
  "cursor_offset s = do {
     let p = crow s * (int NUMCOLS * 2) + ccol s * 2;
     KASSERT (0 \<le> p);
     Some (nat p) }"

fun clear_cells :: "u8 \<Rightarrow> u8 list \<Rightarrow> nat \<Rightarrow> nat \<Rightarrow> u8 list kres" where
  "clear_cells a vm v 0 = Some vm"
| "clear_cells a vm v (Suc n) = do {
     vm \<leftarrow> aset vm v 0x20;
     vm \<leftarrow> aset vm (v + 1) a;
     clear_cells a vm (v + 2) n }"

definition Clear_To_EOL :: "console \<Rightarrow> console kres" where
  "Clear_To_EOL s = do {
     v \<leftarrow> cursor_offset s;
     vm \<leftarrow> clear_cells (currentAttr s) (vmem s) v (nat (int NUMCOLS - ccol s));
     Some (s\<lparr>vmem := vm\<rparr>) }"

definition Newline :: "console \<Rightarrow> console kres" where
  "Newline s = do {
     let s = s\<lparr>crow := crow s + 1, ccol := 0\<rparr>;
     if crow s = int NUMROWS then do { s \<leftarrow> Scroll s; Some (s\<lparr>crow := int NUMROWS - 1\<rparr>) }
     else Some s }"

definition Put_Graphic_Char :: "int \<Rightarrow> console \<Rightarrow> console kres" where
  "Put_Graphic_Char c s = do {
     v \<leftarrow> cursor_offset s;
     vm \<leftarrow> aset (vmem s) v (word_of_int c);
     vm \<leftarrow> aset vm (v + 1) (currentAttr s);
     let s = s\<lparr>vmem := vm\<rparr>;
     if ccol s < int NUMCOLS - 1 then Some (s\<lparr>ccol := ccol s + 1\<rparr>) else Newline s }"

fun put_spaces :: "nat \<Rightarrow> console \<Rightarrow> console kres" where
  "put_spaces 0 s = Some s"
| "put_spaces (Suc n) s = do { s \<leftarrow> Put_Graphic_Char 0x20 s; put_spaces n s }"

definition Output_Literal_Character :: "int \<Rightarrow> console \<Rightarrow> console kres" where
  "Output_Literal_Character c s =
     (if c = 10 then do { s \<leftarrow> Clear_To_EOL s; Newline s }
      else if c = 9 then put_spaces (nat (int TABWIDTH - ccol s mod int TABWIDTH)) s
      else Put_Graphic_Char c s)"

definition Move_Cursor :: "int \<Rightarrow> int \<Rightarrow> console \<Rightarrow> console" where
  "Move_Cursor r c s = s\<lparr>
     crow := (if r < 0 then 0 else if r \<ge> int NUMROWS then int NUMROWS - 1 else r),
     ccol := (if c < 0 then 0 else if c \<ge> int NUMCOLS then int NUMCOLS - 1 else c)\<rparr>"

section \<open>Attributes\<close>

text \<open>Black, red, green, amber, blue, magenta, cyan and gray as the VGA numbers them.\<close>

definition s_ansiToVgaColor :: "u32 list" where
  "s_ansiToVgaColor = [0, 4, 2, 6, 1, 5, 3, 7]"

definition attr_of :: "int \<Rightarrow> u32 \<Rightarrow> u32 kres" where
  "attr_of value attr =
     (if value = 0 then Some (ucast DEFAULT_ATTRIBUTE)
      else if value = 1 then Some (attr OR BRIGHT)
      else if value \<ge> 30 \<and> value \<le> 37 then do { c \<leftarrow> aget s_ansiToVgaColor (nat (value - 30)); Some ((attr AND NOT 7) OR c) }
      else if value \<ge> 40 \<and> value \<le> 47 then do { c \<leftarrow> aget s_ansiToVgaColor (nat (value - 40)); Some ((attr AND NOT (push_bit 4 7)) OR push_bit 4 c) }
      else Some attr)"

text \<open>All arguments, also those that had no room in the list.\<close>

fun attrs_of :: "u32 list \<Rightarrow> nat \<Rightarrow> nat \<Rightarrow> u32 \<Rightarrow> u32 kres" where
  "attrs_of args i 0 attr = Some attr"
| "attrs_of args i (Suc n) attr = do {
     value \<leftarrow> aget args i;
     attr \<leftarrow> attr_of (sint value) attr;
     attrs_of args (Suc i) n attr }"

definition Update_Attributes :: "console \<Rightarrow> console kres" where
  "Update_Attributes s = do {
     attr \<leftarrow> attrs_of (argList s) 0 (numArgs s) (ucast (currentAttr s) AND NOT BRIGHT);
     Some (s\<lparr>currentAttr := ucast attr\<rparr>) }"

section \<open>Escape sequences\<close>

definition Reset :: "console \<Rightarrow> console" where
  "Reset s = s\<lparr>cstate := S_NORMAL, numArgs := 0\<rparr>"

definition Start_Escape :: "console \<Rightarrow> console" where
  "Start_Escape s = s\<lparr>cstate := S_ESC, numArgs := 0\<rparr>"

definition Start_Arg :: "nat \<Rightarrow> console \<Rightarrow> console kres" where
  "Start_Arg argNum s = do {
     KASSERT (numArgs s = argNum);
     let s = s\<lparr>numArgs := numArgs s + 1, cstate := S_ARG\<rparr>;
     if argNum < MAXARGS then do { xs \<leftarrow> aset (argList s) argNum 0; Some (s\<lparr>argList := xs\<rparr>) } else Some s }"

definition Save_Cursor :: "console \<Rightarrow> console" where
  "Save_Cursor s = s\<lparr>saveRow := crow s, saveCol := ccol s\<rparr>"

definition Restore_Cursor :: "console \<Rightarrow> console" where
  "Restore_Cursor s = s\<lparr>crow := saveRow s, ccol := saveCol s\<rparr>"

definition ISDIGIT :: "int \<Rightarrow> bool" where
  "ISDIGIT c \<longleftrightarrow> 48 \<le> c \<and> c \<le> 57"

definition Add_Digit :: "int \<Rightarrow> console \<Rightarrow> console kres" where
  "Add_Digit c s = do {
     KASSERT (ISDIGIT c);
     if numArgs s < MAXARGS then do {
       KASSERT (0 < numArgs s);
       v \<leftarrow> aget (argList s) (numArgs s - 1);
       xs \<leftarrow> aset (argList s) (numArgs s - 1) (v * 10 + word_of_int (c - 48));
       Some (s\<lparr>argList := xs\<rparr>) }
     else Some s }"

definition Get_Arg :: "nat \<Rightarrow> console \<Rightarrow> u32 kres" where
  "Get_Arg argNum s = (if argNum < numArgs s then aget (argList s) argNum else Some 0)"

text \<open>Sums and differences of C's integers.\<close>

abbreviation (input) cint :: "u32 \<Rightarrow> int" where "cint w \<equiv> sint w"

section \<open>The hardware cursor\<close>

text \<open>The final write of \<open>origAddr\<close> leaves the address register as it was.\<close>

definition Update_Cursor :: "console \<Rightarrow> console" where
  "Update_Cursor s =
     (let characterPos = word_of_int (crow s * int NUMCOLS + ccol s) :: u32 in
      s\<lparr>crt := (crt s)(CRT_CURSOR_LOC_HIGH_REG := ucast (drop_bit 8 characterPos AND 0xFF),
                      CRT_CURSOR_LOC_LOW_REG := ucast (characterPos AND 0xFF))\<rparr>)"

definition Clear_Screen :: "console \<Rightarrow> console kres" where
  "Clear_Screen s = do {
     let fill = FILL_DWORD s;
     (iflag, s) \<leftarrow> Begin_Int_Atomic s;
     vm \<leftarrow> fill_dwords fill (vmem s) 0 NUM_SCREEN_DWORDS;
     End_Int_Atomic iflag (s\<lparr>vmem := vm\<rparr>) }"

definition Put_Cursor :: "int \<Rightarrow> int \<Rightarrow> console \<Rightarrow> (bool \<times> console) kres" where
  "Put_Cursor r c s =
     (if r < 0 \<or> r \<ge> int NUMROWS \<or> c < 0 \<or> c \<ge> int NUMCOLS then Some (False, s)
      else do {
        (iflag, s) \<leftarrow> Begin_Int_Atomic s;
        s \<leftarrow> End_Int_Atomic iflag (Update_Cursor (s\<lparr>crow := r, ccol := c\<rparr>));
        Some (True, s) })"

section \<open>One character\<close>

text \<open>The last case of the state machine: a command letter.\<close>

definition put_cmd :: "int \<Rightarrow> console \<Rightarrow> console kres" where
  "put_cmd c s = do {
     a0 \<leftarrow> Get_Arg 0 s;
     let r = (word_of_int (crow s) :: u32);
     let k = (word_of_int (ccol s) :: u32);
     s \<leftarrow> (if c = 0x4B then Clear_To_EOL s
       else if c = 0x73 then Some (Save_Cursor s)
       else if c = 0x75 then Some (Restore_Cursor s)
       else if c = 0x41 then Some (Move_Cursor (cint (r - a0)) (ccol s) s)
       else if c = 0x42 then Some (Move_Cursor (cint (r + a0)) (ccol s) s)
       else if c = 0x43 then Some (Move_Cursor (crow s) (cint (k + a0)) s)
       else if c = 0x44 then Some (Move_Cursor (crow s) (cint (k - a0)) s)
       else if c = 0x6D then Update_Attributes s
       else if c = 0x66 \<or> c = 0x48 then
         (if numArgs s = 2 then do { a1 \<leftarrow> Get_Arg 1 s; Some (Move_Cursor (cint (a0 - 1)) (cint (a1 - 1)) s) } else Some s)
       else if c = 0x4A then
         (if numArgs s = 1 \<and> a0 = 2 then do { s \<leftarrow> Clear_Screen s; (_, s) \<leftarrow> Put_Cursor 0 0 s; Some s } else Some s)
       else Some s);
     Some (Reset s) }"

definition put_arg :: "int \<Rightarrow> console \<Rightarrow> console kres" where
  "put_arg c s =
     (if ISDIGIT c then Add_Digit c s
      else if c = 0x3B then Start_Arg (numArgs s) s
      else put_cmd c (s\<lparr>cstate := S_CMD\<rparr>))"

definition put_esc2 :: "int \<Rightarrow> console \<Rightarrow> console kres" where
  "put_esc2 c s =
     (if ISDIGIT c then do { s \<leftarrow> Start_Arg 0 s; put_arg c s }
      else if c = 0x3B then do { s \<leftarrow> Start_Arg 0 s; s \<leftarrow> Add_Digit 0x31 s; Start_Arg 1 s }
      else put_cmd c (s\<lparr>cstate := S_CMD\<rparr>))"

definition Put_Char_Imp :: "int \<Rightarrow> console \<Rightarrow> console kres" where
  "Put_Char_Imp c s =
     (case cstate s of
        S_NORMAL \<Rightarrow> if c = ESC then Some (Start_Escape s) else Output_Literal_Character c s
      | S_ESC \<Rightarrow> Some (if c = 0x5B then s\<lparr>cstate := S_ESC2\<rparr> else Reset s)
      | S_ESC2 \<Rightarrow> put_esc2 c s
      | S_ARG \<Rightarrow> put_arg c s
      | S_CMD \<Rightarrow> put_cmd c s)"

fun put_chars :: "int list \<Rightarrow> console \<Rightarrow> console kres" where
  "put_chars [] s = Some s"
| "put_chars (c # cs) s = do { s \<leftarrow> Put_Char_Imp c s; put_chars cs s }"

section \<open>Public operations\<close>

definition Init_Screen :: "console \<Rightarrow> console kres" where
  "Init_Screen s = do {
     (iflag, s) \<leftarrow> Begin_Int_Atomic s;
     s \<leftarrow> Clear_Screen (s\<lparr>crow := 0, ccol := 0, currentAttr := DEFAULT_ATTRIBUTE\<rparr>);
     End_Int_Atomic iflag s }"

definition Get_Cursor :: "console \<Rightarrow> (int \<times> int \<times> console) kres" where
  "Get_Cursor s = do {
     (iflag, s) \<leftarrow> Begin_Int_Atomic s;
     let (r, c) = (crow s, ccol s);
     s \<leftarrow> End_Int_Atomic iflag s;
     Some (r, c, s) }"

definition Get_Current_Attr :: "console \<Rightarrow> u8" where
  "Get_Current_Attr s = currentAttr s"

definition Set_Current_Attr :: "u8 \<Rightarrow> console \<Rightarrow> console kres" where
  "Set_Current_Attr a s = do { (iflag, s) \<leftarrow> Begin_Int_Atomic s; End_Int_Atomic iflag (s\<lparr>currentAttr := a\<rparr>) }"

definition Put_Char :: "int \<Rightarrow> console \<Rightarrow> console kres" where
  "Put_Char c s = do {
     (iflag, s) \<leftarrow> Begin_Int_Atomic s;
     s \<leftarrow> Put_Char_Imp c s;
     End_Int_Atomic iflag (Update_Cursor s) }"

text \<open>The characters of a buffer are signed.\<close>

definition Put_Buf :: "u8 list \<Rightarrow> console \<Rightarrow> console kres" where
  "Put_Buf buf s = do {
     (iflag, s) \<leftarrow> Begin_Int_Atomic s;
     s \<leftarrow> put_chars (List.map sint buf) s;
     End_Int_Atomic iflag (Update_Cursor s) }"

definition Put_String :: "u8 list \<Rightarrow> console \<Rightarrow> console kres" where
  "Put_String str s = do {
     (iflag, s) \<leftarrow> Begin_Int_Atomic s;
     s \<leftarrow> put_chars (List.map sint (takeWhile (\<lambda>c. c \<noteq> 0) str)) s;
     End_Int_Atomic iflag (Update_Cursor s) }"

definition Print :: "int list \<Rightarrow> console \<Rightarrow> console kres" where
  "Print output s = do {
     (iflag, s) \<leftarrow> Begin_Int_Atomic s;
     s \<leftarrow> put_chars output s;
     End_Int_Atomic iflag (Update_Cursor s) }"

section \<open>The screen as a grid\<close>

lemma dwords_app:
  assumes "length as = 4 * i" "length bs = 4"
  shows "put_word (as @ bs @ cs) (4 * i) w = Some (as @ le_bytes w @ cs)"
  using put_bytes_app [of "le_bytes w" bs as cs] assms by (simp add: put_word_def)

lemma fill_dwords_ok:
  "length as = 4 * i \<Longrightarrow> length bs = 4 * n \<Longrightarrow>
    fill_dwords w (as @ bs @ cs) i n = Some (as @ concat (replicate n (le_bytes w)) @ cs)"
proof (induction n arbitrary: as bs i)
  case (Suc n)
  define b1 b2 where "b1 = take 4 bs" and "b2 = drop 4 bs"
  have b: "bs = b1 @ b2" "length b1 = 4" "length b2 = 4 * n" using Suc.prems(2) by (simp_all add: b1_def b2_def)
  have "put_word (as @ bs @ cs) (4 * i) w = Some (as @ le_bytes w @ b2 @ cs)"
    using dwords_app [OF Suc.prems(1) b(2), of "b2 @ cs" w] by (simp add: b(1))
  moreover have "fill_dwords w ((as @ le_bytes w) @ b2 @ cs) (Suc i) n = Some ((as @ le_bytes w) @ concat (replicate n (le_bytes w)) @ cs)"
    by (rule Suc.IH) (use Suc.prems(1) b(3) in simp_all)
  ultimately show ?case by simp
qed simp

lemma scroll_lines_ok:
  "length as = 4 * i \<Longrightarrow> length bs = 160 \<Longrightarrow> length cs = 4 * n \<Longrightarrow>
    \<exists>ds. scroll_lines (as @ bs @ cs) i n = Some (as @ cs @ ds) \<and> length ds = 160"
proof (induction n arbitrary: as bs cs i)
  case (Suc n)
  define b1 b2 c1 c2 where bc: "b1 = take 4 bs" "b2 = drop 4 bs" "c1 = take 4 cs" "c2 = drop 4 cs"
  have b: "bs = b1 @ b2" "length b1 = 4" "length b2 = 156" "cs = c1 @ c2" "length c1 = 4" "length c2 = 4 * n"
    using Suc.prems by (simp_all add: bc)
  have "get_word ((as @ bs) @ c1 @ c2) (length (as @ bs)) = Some (le_word c1)" by (rule get_word_app [OF b(5)])
  then have g: "get_word (as @ bs @ cs) (4 * (i + 40)) = Some (le_word c1)" using Suc.prems by (simp add: b(4))
  have "le_bytes (le_word c1) = c1" by (rule le_bytes_le_word [OF b(5)])
  then have p: "put_word (as @ bs @ cs) (4 * i) (le_word c1) = Some (as @ c1 @ b2 @ cs)"
    using dwords_app [OF Suc.prems(1) b(2), of "b2 @ cs" "le_word c1"] by (simp add: b(1))
  have "\<exists>ds. scroll_lines ((as @ c1) @ (b2 @ c1) @ c2) (Suc i) n = Some ((as @ c1) @ c2 @ ds) \<and> length ds = 160"
    by (rule Suc.IH) (use Suc.prems(1) b in simp_all)
  then show ?case using g p b(4) by simp
qed auto

text \<open>One line of blank cells.\<close>

definition blank_line :: "u8 \<Rightarrow> u8 list" where
  "blank_line a = concat (replicate 80 [0x20, a])"

lemma length_blank_line [simp]: "length (blank_line a) = 160"
  by (simp add: blank_line_def length_concat sum_list_replicate)

lemma FILL_DWORD_bytes: "le_bytes (FILL_DWORD s) = [0x20, currentAttr s, 0x20, currentAttr s]"
proof -
  have n: "(0x00200020 :: u32) = ucast (0x20 :: u8) OR push_bit 16 (ucast (0x20 :: u8))" by simp
  have "(b OR push_bit 16 b) OR push_bit 24 x OR push_bit 8 x = b OR push_bit 8 (x OR push_bit 8 (b OR push_bit 8 (x OR push_bit 8 0)))"
    for b x :: u32 by (simp add: push_bit_or push_bit_push_bit or.assoc or.left_commute or.commute)
  then have "FILL_DWORD s = le_word [0x20, currentAttr s, 0x20, currentAttr s]"
    unfolding FILL_DWORD_def n le_word.simps by (simp only: or.assoc)
  then show ?thesis using le_bytes_le_word [of "[0x20, currentAttr s, 0x20, currentAttr s]"] by simp
qed

lemma fill_line: "concat (replicate 40 (le_bytes (FILL_DWORD s))) = blank_line (currentAttr s)"
  by (simp add: FILL_DWORD_bytes blank_line_def numeral_eq_Suc)

text \<open>Scrolling drops the first line and appends a blank one.\<close>

lemma Scroll_ok:
  assumes "length (vmem s) = 4000"
  shows "Scroll s = Some (s\<lparr>vmem := drop 160 (vmem s) @ blank_line (currentAttr s)\<rparr>)"
proof -
  have l: "length (take 160 (vmem s)) = 160" "length (drop 160 (vmem s)) = 4 * 960" using assms by simp_all
  obtain ds where ds: "scroll_lines (vmem s) 0 960 = Some (drop 160 (vmem s) @ ds)" "length ds = 160"
    using scroll_lines_ok [of "[]" 0, OF _ l] by auto
  have "fill_dwords (FILL_DWORD s) (drop 160 (vmem s) @ ds @ []) 960 40 = Some (drop 160 (vmem s) @ blank_line (currentAttr s) @ [])"
    using fill_dwords_ok [OF l(2), of ds 40 "FILL_DWORD s" "[]"] ds(2) by (simp add: fill_line)
  then show ?thesis using ds(1) by (simp add: Scroll_def)
qed

lemma clear_cells_ok:
  "length as = v \<Longrightarrow> length bs = 2 * n \<Longrightarrow> clear_cells a (as @ bs @ cs) v n = Some (as @ concat (replicate n [0x20, a]) @ cs)"
proof (induction n arbitrary: as bs v)
  case (Suc n)
  then obtain x y bs' where b: "bs = x # y # bs'" "length bs' = 2 * n" by (auto simp: length_Suc_conv)
  have "clear_cells a ((as @ [0x20, a]) @ bs' @ cs) (v + 2) n = Some ((as @ [0x20, a]) @ concat (replicate n [0x20, a]) @ cs)"
    by (rule Suc.IH) (use Suc.prems(1) b(2) in simp_all)
  then show ?case using Suc.prems(1) b(1) by (simp add: list_update_append nth_append)
qed simp

section \<open>Staying on the screen\<close>

definition on_screen :: "console \<Rightarrow> bool" where
  "on_screen s \<longleftrightarrow> 0 \<le> crow s \<and> crow s < 25 \<and> 0 \<le> ccol s \<and> ccol s < 80 \<and> length (vmem s) = 4000"

text \<open>The rest of the state that the display operations leave alone.\<close>

definition same_mode :: "console \<Rightarrow> console \<Rightarrow> bool" where
  "same_mode s s' \<longleftrightarrow> cstate s' = cstate s \<and> numArgs s' = numArgs s \<and> argList s' = argList s \<and> saveRow s' = saveRow s \<and>
     saveCol s' = saveCol s \<and> int_flag s' = int_flag s \<and> currentAttr s' = currentAttr s"

lemma same_mode_trans: "same_mode s s' \<Longrightarrow> same_mode s' s'' \<Longrightarrow> same_mode s s''"
  by (simp add: same_mode_def)

lemma cursor_offset_ok:
  assumes "on_screen s"
  shows "cursor_offset s = Some (nat (crow s * 160 + ccol s * 2))" "nat (crow s * 160 + ccol s * 2) + 2 * nat (80 - ccol s) \<le> 4000"
    "nat (crow s * 160 + ccol s * 2) + 1 < 4000"
  using assms by (auto simp: cursor_offset_def on_screen_def)

lemma Newline_ok:
  assumes "on_screen s"
  shows "\<exists>s'. Newline s = Some s' \<and> on_screen s' \<and> same_mode s s'"
proof (cases "crow s + 1 = 25")
  case True
  have "length (vmem (s\<lparr>crow := crow s + 1, ccol := 0\<rparr>)) = 4000" using assms by (simp add: on_screen_def)
  from Scroll_ok [OF this] True assms show ?thesis by (auto simp: Newline_def on_screen_def same_mode_def)
next
  case False
  then show ?thesis using assms by (auto simp: Newline_def on_screen_def same_mode_def)
qed

lemma Put_Graphic_Char_ok:
  assumes "on_screen s"
  shows "\<exists>s'. Put_Graphic_Char c s = Some s' \<and> on_screen s' \<and> same_mode s s'"
proof -
  note v = cursor_offset_ok [OF assms]
  let ?v = "nat (crow s * 160 + ccol s * 2)"
  let ?s = "s\<lparr>vmem := (vmem s)[?v := word_of_int c, ?v + 1 := currentAttr s]\<rparr>"
  have l: "length (vmem s) = 4000" using assms by (simp add: on_screen_def)
  have s: "on_screen ?s" "same_mode s ?s" using assms by (simp_all add: on_screen_def same_mode_def)
  have "Put_Graphic_Char c s = (if ccol ?s < 79 then Some (?s\<lparr>ccol := ccol ?s + 1\<rparr>) else Newline ?s)"
    using v(1,3) l by (simp add: Put_Graphic_Char_def)
  moreover have "on_screen (?s\<lparr>ccol := ccol ?s + 1\<rparr>) \<and> same_mode s (?s\<lparr>ccol := ccol ?s + 1\<rparr>)" if "ccol ?s < 79"
    using assms that by (simp add: on_screen_def same_mode_def)
  moreover obtain s' where "Newline ?s = Some s'" "on_screen s'" "same_mode s s'" using Newline_ok [OF s(1)] same_mode_trans [OF s(2)] by blast
  ultimately show ?thesis by auto
qed

lemma three_parts: "xs = take v xs @ take m (drop v xs) @ drop (v + m) xs"
  by (metis append_take_drop_id drop_drop add.commute)

lemma Clear_To_EOL_ok:
  assumes "on_screen s"
  shows "\<exists>s'. Clear_To_EOL s = Some s' \<and> on_screen s' \<and> same_mode s s'"
proof -
  note v = cursor_offset_ok [OF assms]
  let ?v = "nat (crow s * 160 + ccol s * 2)" and ?n = "nat (80 - ccol s)"
  have l: "length (vmem s) = 4000" using assms by (simp add: on_screen_def)
  have eq: "vmem s = take ?v (vmem s) @ take (2 * ?n) (drop ?v (vmem s)) @ drop (?v + 2 * ?n) (vmem s)" by (rule three_parts)
  have "clear_cells (currentAttr s) (vmem s) ?v ?n = Some (take ?v (vmem s) @ concat (replicate ?n [0x20, currentAttr s]) @ drop (?v + 2 * ?n) (vmem s))"
    by (subst eq) (rule clear_cells_ok, use v(2) l in auto)
  moreover have "length (concat (replicate ?n [0x20, currentAttr s])) = 2 * ?n" by (simp add: length_concat sum_list_replicate)
  ultimately show ?thesis using v l assms by (auto simp: Clear_To_EOL_def on_screen_def same_mode_def)
qed

lemma put_spaces_ok: "on_screen s \<Longrightarrow> \<exists>s'. put_spaces n s = Some s' \<and> on_screen s' \<and> same_mode s s'"
proof (induction n arbitrary: s)
  case 0
  then show ?case by (simp add: same_mode_def)
next
  case (Suc n)
  obtain s1 where s1: "Put_Graphic_Char 0x20 s = Some s1" "on_screen s1" "same_mode s s1" using Put_Graphic_Char_ok [OF Suc.prems] by blast
  then show ?case using Suc.IH [OF s1(2)] same_mode_trans [OF s1(3)] by auto
qed

lemma Output_ok:
  assumes "on_screen s"
  shows "\<exists>s'. Output_Literal_Character c s = Some s' \<and> on_screen s' \<and> same_mode s s'"
proof -
  obtain s1 where s1: "Clear_To_EOL s = Some s1" "on_screen s1" "same_mode s s1" using Clear_To_EOL_ok [OF assms] by blast
  obtain s2 where s2: "Newline s1 = Some s2" "on_screen s2" "same_mode s1 s2" using Newline_ok [OF s1(2)] by blast
  show ?thesis
    using s1 s2 same_mode_trans [OF s1(3) s2(3)] put_spaces_ok [OF assms] Put_Graphic_Char_ok [OF assms]
    by (simp add: Output_Literal_Character_def)
qed

section \<open>The state machine\<close>

definition cons_ok :: "console \<Rightarrow> bool" where
  "cons_ok s \<longleftrightarrow> on_screen s \<and> 0 \<le> saveRow s \<and> saveRow s < 25 \<and> 0 \<le> saveCol s \<and> saveCol s < 80 \<and> length (argList s) = 8 \<and>
     cstate s \<noteq> S_CMD \<and> (cstate s = S_ESC \<or> cstate s = S_ESC2 \<longrightarrow> numArgs s = 0) \<and> (cstate s = S_ARG \<longrightarrow> 0 < numArgs s)"

definition args_used :: "console \<Rightarrow> nat" where
  "args_used s = (if cstate s = S_ARG then numArgs s else 1)"

lemma Move_Cursor_ok: "on_screen s \<Longrightarrow> on_screen (Move_Cursor r c s) \<and> same_mode s (Move_Cursor r c s)"
  by (auto simp: Move_Cursor_def on_screen_def same_mode_def)

lemma attr_of_ok: "attr_of v a \<noteq> None"
  by (auto simp: attr_of_def s_ansiToVgaColor_def aget_eq_None)

lemma attrs_of_ok: "i + n \<le> length args \<Longrightarrow> attrs_of args i n a \<noteq> None"
proof (induction n arbitrary: i a)
  case (Suc n)
  obtain a' where "attr_of (sint (args ! i)) a = Some a'" using attr_of_ok by blast
  then show ?case using Suc by simp
qed simp

lemma Clear_Screen_ok:
  assumes "on_screen s"
  shows "\<exists>s'. Clear_Screen s = Some s' \<and> on_screen s' \<and> same_mode s s'"
proof -
  have l: "length (vmem s) = 4 * 1000" using assms by (simp add: on_screen_def)
  have "length (concat (replicate 1000 (le_bytes (FILL_DWORD s)))) = 4000" by (simp add: length_concat sum_list_replicate)
  then show ?thesis using fill_dwords_ok [of "[]" 0 "vmem s" 1000 "FILL_DWORD s" "[]"] l assms
    by (simp add: Clear_Screen_def on_screen_def same_mode_def)
qed

lemma Put_Cursor_ok:
  assumes "on_screen s"
  shows "\<exists>b s'. Put_Cursor r c s = Some (b, s') \<and> on_screen s' \<and> same_mode s s'"
  using assms by (auto simp: Put_Cursor_def Update_Cursor_def Let_def on_screen_def same_mode_def)

text \<open>What a command leaves: everything but the cursor, the saved cursor and the attribute.\<close>

definition cmd_ok :: "console \<Rightarrow> console \<Rightarrow> bool" where
  "cmd_ok s s' \<longleftrightarrow> on_screen s' \<and> 0 \<le> saveRow s' \<and> saveRow s' < 25 \<and> 0 \<le> saveCol s' \<and> saveCol s' < 80 \<and>
     argList s' = argList s \<and> int_flag s' = int_flag s"

lemma put_cmd_ok:
  assumes o: "on_screen s" and sv: "0 \<le> saveRow s" "saveRow s < 25" "0 \<le> saveCol s" "saveCol s < 80"
    and a: "length (argList s) = 8" "numArgs s \<le> 8"
  shows "\<exists>s'. put_cmd c s = Some (Reset s') \<and> cmd_ok s s'"
proof -
  have same: "cmd_ok s s'" if "on_screen s'" "same_mode s s'" for s' using that sv by (simp add: cmd_ok_def same_mode_def)
  have arg: "\<exists>v. Get_Arg k s = Some v" if "k < 8" for k using a that by (auto simp: Get_Arg_def)
  obtain a0 a1 where a01: "Get_Arg 0 s = Some a0" "Get_Arg 1 s = Some a1" using arg [of 0] arg [of 1] by auto
  obtain s1 where s1: "Clear_To_EOL s = Some s1" "on_screen s1" "same_mode s s1" using Clear_To_EOL_ok [OF o] by blast
  obtain s2 where s2: "Clear_Screen s = Some s2" "on_screen s2" "same_mode s s2" using Clear_Screen_ok [OF o] by blast
  obtain b s3 where s3: "Put_Cursor 0 0 s2 = Some (b, s3)" "on_screen s3" "same_mode s2 s3" using Put_Cursor_ok [OF s2(2)] by blast
  obtain at where "attrs_of (argList s) 0 (numArgs s) (ucast (currentAttr s) AND NOT BRIGHT) = Some at"
    using attrs_of_ok [of 0 "numArgs s" "argList s"] a by fastforce
  then have u: "Update_Attributes s = Some (s\<lparr>currentAttr := ucast at\<rparr>)" by (simp add: Update_Attributes_def)
  have ok: "cmd_ok s s1" "cmd_ok s s3" "cmd_ok s s" "cmd_ok s (s\<lparr>currentAttr := ucast at\<rparr>)" "cmd_ok s (Save_Cursor s)" "cmd_ok s (Restore_Cursor s)"
    "\<And>r c. cmd_ok s (Move_Cursor r c s)"
    using same [OF s1(2,3)] same [OF s3(2) same_mode_trans [OF s2(3) s3(3)]] o sv same [of "Move_Cursor _ _ s"] Move_Cursor_ok [OF o]
    by (simp_all add: cmd_ok_def on_screen_def Save_Cursor_def Restore_Cursor_def)
  have ex: "\<exists>s'. Reset x = Reset s' \<and> cmd_ok s s'" if "cmd_ok s x" for x using that by blast
  show ?thesis using a01 s1(1) s2(1) s3(1) u ok [THEN ex] by (simp add: put_cmd_def Let_def)
qed

lemma Put_Char_Imp_ok:
  assumes s: "cons_ok s" and n: "args_used s \<le> 8"
  shows "\<exists>s'. Put_Char_Imp c s = Some s' \<and> cons_ok s' \<and> args_used s' \<le> args_used s + (if c = 0x3B then 1 else 0) \<and> int_flag s' = int_flag s"
proof (cases "cstate s")
  case S_NORMAL
  then have o: "on_screen s" using s by (simp add: cons_ok_def)
  show ?thesis
  proof (cases "c = ESC")
    case True
    then show ?thesis using S_NORMAL s by (simp add: Put_Char_Imp_def Start_Escape_def cons_ok_def args_used_def on_screen_def)
  next
    case False
    then show ?thesis using S_NORMAL s Output_ok [OF o, of c] by (auto simp: Put_Char_Imp_def cons_ok_def args_used_def same_mode_def)
  qed
next
  case S_ESC
  then show ?thesis using s by (simp add: Put_Char_Imp_def Reset_def cons_ok_def args_used_def on_screen_def)
next
  case S_ESC2
  then have z: "numArgs s = 0" "length (argList s) = 8" using s by (simp_all add: cons_ok_def)
  show ?thesis
  proof (cases "ISDIGIT c \<or> c = 0x3B")
    case True
    then show ?thesis using S_ESC2 s z
      by (auto simp: Put_Char_Imp_def put_esc2_def put_arg_def Start_Arg_def Add_Digit_def ISDIGIT_def cons_ok_def args_used_def on_screen_def Let_def)
  next
    case False
    obtain s' where "put_cmd c (s\<lparr>cstate := S_CMD\<rparr>) = Some (Reset s')" "cmd_ok (s\<lparr>cstate := S_CMD\<rparr>) s'"
      using put_cmd_ok [of "s\<lparr>cstate := S_CMD\<rparr>" c] s z by (auto simp: cons_ok_def on_screen_def)
    then show ?thesis using False S_ESC2 s
      by (simp add: Put_Char_Imp_def put_esc2_def cmd_ok_def cons_ok_def Reset_def args_used_def on_screen_def)
  qed
next
  case S_ARG
  then have z: "0 < numArgs s" "numArgs s \<le> 8" "length (argList s) = 8" using s n by (simp_all add: cons_ok_def args_used_def)
  show ?thesis
  proof (cases "ISDIGIT c \<or> c = 0x3B")
    case True
    then show ?thesis using S_ARG s z
      by (auto simp: Put_Char_Imp_def put_arg_def Start_Arg_def Add_Digit_def ISDIGIT_def cons_ok_def args_used_def on_screen_def Let_def)
  next
    case False
    obtain s' where "put_cmd c (s\<lparr>cstate := S_CMD\<rparr>) = Some (Reset s')" "cmd_ok (s\<lparr>cstate := S_CMD\<rparr>) s'"
      using put_cmd_ok [of "s\<lparr>cstate := S_CMD\<rparr>" c] s z by (auto simp: cons_ok_def on_screen_def)
    then show ?thesis using False S_ARG s z
      by (simp add: Put_Char_Imp_def put_arg_def cmd_ok_def cons_ok_def Reset_def args_used_def on_screen_def)
  qed
qed (use s in \<open>simp add: cons_ok_def\<close>)

lemma put_chars_ok:
  "cons_ok s \<Longrightarrow> args_used s + count_list cs 0x3B \<le> 8 \<Longrightarrow>
    \<exists>s'. put_chars cs s = Some s' \<and> cons_ok s' \<and> int_flag s' = int_flag s"
proof (induction cs arbitrary: s)
  case (Cons c cs)
  have n: "args_used s \<le> 8" using Cons.prems(2) by simp
  obtain s1 where s1: "Put_Char_Imp c s = Some s1" "cons_ok s1" "args_used s1 \<le> args_used s + (if c = 0x3B then 1 else 0)" "int_flag s1 = int_flag s"
    using Put_Char_Imp_ok [OF Cons.prems(1) n] by blast
  have "args_used s1 + count_list cs 0x3B \<le> 8" using s1(3) Cons.prems(2) by (auto split: if_splits)
  from Cons.IH [OF s1(2) this] s1(1,4) show ?case by auto
qed simp

section \<open>Properties\<close>

lemma count_sint: "count_list (List.map sint xs) 0x3B = count_list xs (0x3B :: u8)"
proof (induction xs)
  case (Cons x xs)
  have "sint x = sint (0x3B :: u8) \<longleftrightarrow> x = 0x3B" by (metis signed_word_eqI)
  then show ?case using Cons by simp
qed simp

lemma cursor_bytes:
  assumes "n < 2000"
  shows "unat (ucast ((of_nat n :: u32) AND 0xFF) :: u8) = n mod 256" "unat (ucast (drop_bit 8 (of_nat n :: u32) AND 0xFF) :: u8) = n div 256"
proof -
  have ff: "x AND 0xFF = take_bit 8 x" for x :: u32 by (simp add: take_bit_eq_mask mask_eq_exp_minus_1)
  have u: "unat (of_nat n :: u32) = n" using assms by (simp add: unsigned_of_nat take_bit_nat_eq_self)
  show "unat (ucast ((of_nat n :: u32) AND 0xFF) :: u8) = n mod 256"
    unfolding ff unsigned_ucast_eq unsigned_take_bit_eq u by (simp add: take_bit_eq_mod)
  have "n div 256 < 256" using assms by (simp add: div_less_iff_less_mult)
  then show "unat (ucast (drop_bit 8 (of_nat n :: u32) AND 0xFF) :: u8) = n div 256"
    unfolding ff unsigned_ucast_eq unsigned_take_bit_eq unat_drop_bit_eq u by (simp add: take_bit_eq_mod drop_bit_eq_div)
qed



definition sample_console :: console where
  "sample_console = \<lparr>int_flag = True, crow = 24, ccol = 79, saveRow = 0, saveCol = 0, currentAttr = 7, cstate = S_NORMAL,
     argList = replicate 8 0, numArgs = 0, vmem = replicate 4000 0, crt_addr = 0, crt = (\<lambda>_. 0)\<rparr>"

lemma sample_console_ok: "cons_ok sample_console" "cstate sample_console = S_NORMAL"
  by (simp_all add: cons_ok_def on_screen_def sample_console_def)


section \<open>Positioning the cursor\<close>

lemma put_chars_Nil: "Option.bind m (put_chars []) = m"
  by (cases m) simp_all

lemma put_digits:
  assumes "\<forall>d\<in>set ds. d < 10" "cstate s = S_ARG" "0 < numArgs s" "numArgs s < 8" "length (argList s) = 8"
    "argList s ! (numArgs s - 1) = of_nat v"
  shows "put_chars (List.map (\<lambda>d. sint (digit_char d)) ds @ cs) s = put_chars cs (s\<lparr>argList := (argList s)[numArgs s - 1 := of_nat (decimal ds v)]\<rparr>)"
  using assms
proof (induction ds arbitrary: s v)
  case Nil
  then have "(argList s)[numArgs s - 1 := of_nat (decimal [] v)] = argList s" by (metis decimal.simps(1) list_update_id)
  then show ?case by simp
next
  case (Cons d ds)
  have d: "sint (digit_char d) = int d + 48" "d < 10" using Cons.prems(1) by (simp_all add: digit_byte(1))
  have w: "word_of_int (int d) = (of_nat d :: u32)" by simp
  let ?s = "s\<lparr>argList := (argList s)[numArgs s - 1 := of_nat (10 * v + d)]\<rparr>"
  have "Put_Char_Imp (sint (digit_char d)) s = Some ?s"
    using Cons.prems d by (simp add: Put_Char_Imp_def put_arg_def Add_Digit_def ISDIGIT_def w algebra_simps)
  moreover have "put_chars (List.map (\<lambda>d. sint (digit_char d)) ds @ cs) ?s =
      put_chars cs (?s\<lparr>argList := (argList ?s)[numArgs ?s - 1 := of_nat (decimal ds (10 * v + d))]\<rparr>)"
    by (rule Cons.IH) (use Cons.prems in auto)
  ultimately show ?case by simp
qed

lemma sint_pred:
  assumes "n < 2 ^ 31"
  shows "sint ((of_nat n :: u32) - 1) = int n - 1"
proof -
  have "(of_nat n :: u32) - 1 = word_of_int (int n - 1)" by simp
  also have "sint \<dots> = int n - 1"
    unfolding sint_sbintrunc' using assms by (intro signed_take_bit_int_eq_self) simp_all
  finally show ?thesis .
qed

abbreviation digits :: "nat list \<Rightarrow> u8 list" where
  "digits ds \<equiv> List.map digit_char ds"

text \<open>The escape sequence for a cursor position moves the cursor to the row and column, counted from
  one and clipped to the screen, writes nothing to the video memory, and ends in the normal state.\<close>

theorem escape_moves_cursor:
  assumes s: "cons_ok s" "cstate s = S_NORMAL"
    and ds: "ds \<noteq> []" "\<forall>d\<in>set ds. d < 10" "decimal ds 0 < 2 ^ 31"
    and es: "\<forall>e\<in>set es. e < 10" "decimal es 0 < 2 ^ 31"
  shows "\<exists>s'. Put_Buf ([0x1B, 0x5B] @ digits ds @ [0x3B] @ digits es @ [0x48]) s = Some s' \<and>
    crow s' = min (max (int (decimal ds 0) - 1) 0) 24 \<and> ccol s' = min (max (int (decimal es 0) - 1) 0) 79 \<and>
    vmem s' = vmem s \<and> currentAttr s' = currentAttr s \<and> cstate s' = S_NORMAL"
proof -
  let ?d = "List.map (\<lambda>d. sint (digit_char d))"
  define s1 where "s1 = s\<lparr>int_flag := False, numArgs := 1, cstate := S_ARG, argList := (argList s)[0 := 0]\<rparr>"
  define s2 where "s2 = s\<lparr>int_flag := False, numArgs := Suc (Suc 0), cstate := S_ARG, argList := (argList s)[0 := of_nat (decimal ds 0), 1 := 0]\<rparr>"
  define s3 where "s3 = s2\<lparr>argList := (argList s)[0 := of_nat (decimal ds 0), 1 := of_nat (decimal es 0)]\<rparr>"
  have l: "length (argList s) = 8" using s(1) by (simp add: cons_ok_def)
  obtain d ds' where d: "ds = d # ds'" "d < 10" using ds(1,2) by (cases ds) auto
  have dd: "ISDIGIT (sint (digit_char d))" using digit_byte(1) [OF d(2)] d(2) by (simp add: ISDIGIT_def)
  have "put_chars (?d ds @ cs) (s\<lparr>int_flag := False, numArgs := 0, cstate := S_ESC2\<rparr>) = put_chars (?d ds @ cs) s1" for cs
    using dd l by (simp add: d(1) s1_def Put_Char_Imp_def put_esc2_def Start_Arg_def)
  then have start: "put_chars (ESC # 0x5B # ?d ds @ cs) (s\<lparr>int_flag := False\<rparr>) = put_chars (?d ds @ cs) s1" for cs
    using s(2) by (simp add: Put_Char_Imp_def Start_Escape_def)
  have "put_chars (?d ds @ 0x3B # cs) s1 = put_chars cs s2" for cs
    using put_digits [OF ds(2), of s1 0 "0x3B # cs"] l
    by (simp add: s1_def s2_def Put_Char_Imp_def put_arg_def ISDIGIT_def Start_Arg_def)
  moreover have "put_chars (?d es @ cs) s2 = put_chars cs s3" for cs
    using put_digits [OF es(1), of s2 0 cs] l by (simp add: s2_def s3_def s1_def)
  ultimately have "put_chars (ESC # 0x5B # ?d ds @ 0x3B # ?d es @ [0x48]) (s\<lparr>int_flag := False\<rparr>) = Put_Char_Imp 0x48 s3"
    using start [of "0x3B # ?d es @ [0x48]"] by (simp add: put_chars_Nil)
  moreover have "Put_Char_Imp 0x48 s3 = Some (Reset (Move_Cursor (int (decimal ds 0) - 1) (int (decimal es 0) - 1) (s3\<lparr>cstate := S_CMD\<rparr>)))"
    using l by (simp add: s3_def s2_def s1_def Put_Char_Imp_def put_arg_def ISDIGIT_def put_cmd_def Get_Arg_def sint_pred [OF ds(3)] sint_pred [OF es(2)])
  ultimately have p: "put_chars (ESC # 0x5B # ?d ds @ 0x3B # ?d es @ [0x48]) (s\<lparr>int_flag := False\<rparr>) =
      Some (Reset (Move_Cursor (int (decimal ds 0) - 1) (int (decimal es 0) - 1) (s3\<lparr>cstate := S_CMD\<rparr>)))" (is "_ = Some ?s4") by simp
  have m: "List.map sint ([0x1B, 0x5B] @ digits ds @ [0x3B] @ digits es @ [0x48]) = ESC # 0x5B # ?d ds @ 0x3B # ?d es @ [0x48]"
    by (simp add: comp_def)
  have "int_flag ?s4 = False" by (simp add: Reset_def Move_Cursor_def s3_def s2_def s1_def)
  then have "Put_Buf ([0x1B, 0x5B] @ digits ds @ [0x3B] @ digits es @ [0x48]) s = Some ((Update_Cursor ?s4)\<lparr>int_flag := int_flag s\<rparr>)"
    unfolding Put_Buf_def m by (simp add: p Update_Cursor_def Let_def del: put_chars.simps)
  then show ?thesis
    by (intro exI conjI, assumption)
      (auto simp: Update_Cursor_def Let_def Reset_def Move_Cursor_def s3_def s2_def s1_def)
qed

lemma escape_moves_cursor_witness:
  "\<exists>s'. Put_Buf ([0x1B, 0x5B] @ digits [1, 2] @ [0x3B] @ digits [9, 9] @ [0x48]) sample_console = Some s' \<and>
    crow s' = min (max (int (decimal [1, 2] 0) - 1) 0) 24 \<and> ccol s' = min (max (int (decimal [9, 9] 0) - 1) 0) 79 \<and>
    vmem s' = vmem sample_console \<and> currentAttr s' = currentAttr sample_console \<and> cstate s' = S_NORMAL"
  by (rule escape_moves_cursor) (simp_all add: sample_console_ok)

text \<open>Nine arguments are one too many: the attributes are read past the end of the list.\<close>

theorem too_many_arguments:
  assumes "cons_ok s" "cstate s = S_NORMAL"
  shows "Put_Buf ([0x1B, 0x5B] @ replicate 8 0x3B @ [0x6D]) s = None"
proof -
  have l: "length (argList s) = 8" using assms(1) by (simp add: cons_ok_def)
  show ?thesis using assms(2) l
    by (simp add: Put_Buf_def eval_nat_numeral Put_Char_Imp_def Start_Escape_def put_esc2_def put_arg_def ISDIGIT_def Start_Arg_def
        Add_Digit_def put_cmd_def Get_Arg_def Update_Attributes_def attr_of_def aget_def)
qed

lemma too_many_arguments_witness: "Put_Buf ([0x1B, 0x5B] @ replicate 8 0x3B @ [0x6D]) sample_console = None"
  by (rule too_many_arguments) (rule sample_console_ok)+

end
