(* ===== verification/GosfsPath.thy ===== *)
theory GosfsPath
  imports GosfsProps
begin

text \<open>
  The directories of a GeekOS file system as a tree, and the way back from a directory to its path:
  \<open>GOSFS_Get_Path\<close> is inverse to \<open>GOSFS_Lookup\<close>.
\<close>

section \<open>The tree of directories\<close>

abbreviation is_dir :: "dentry \<Rightarrow> bool" where
  "is_dir e \<equiv> dflags e = GOSFS_DIRENTRY_ISDIRECTORY"

text \<open>\<open>dir_at d r b cs\<close>: block \<open>b\<close> is the directory with path \<open>cs\<close>; the first two entries of a directory
  are not followed.\<close>

inductive dir_at :: "(u32 \<Rightarrow> dentry list) \<Rightarrow> u32 \<Rightarrow> u32 \<Rightarrow> cstr list \<Rightarrow> bool" for d r where
  dir_at_root: "dir_at d r r []"
| dir_at_sub: "dir_at d r p cs \<Longrightarrow> 2 \<le> i \<Longrightarrow> i < 18 \<Longrightarrow> is_dir (d p ! i) \<Longrightarrow> name_of (d p ! i) = Some x \<Longrightarrow>
    dir_at d r (block0 (d p ! i)) (cs @ [x])"

inductive_cases dir_at_subE: "dir_at d r b cs"

text \<open>A directory's own entries name itself and its parent; the others refer to allocated blocks, no
  two of them to the same one.\<close>

definition node_ok :: "nat set \<Rightarrow> (u32 \<Rightarrow> dentry list) \<Rightarrow> u32 \<Rightarrow> bool" where
  "node_ok U d p \<longleftrightarrow> dir_ok U d p \<and> length (d p) = 18 \<and> dir_entry [DOT] p (d p ! 0) \<and> is_dir (d p ! 1) \<and> name_of (d p ! 1) = Some [DOT, DOT] \<and>
     (\<forall>i. 2 \<le> i \<longrightarrow> i < 18 \<longrightarrow> (block0 (d p ! i) = 0 \<or> unat (block0 (d p ! i)) \<in> U) \<and> block0 (d p ! i) \<noteq> p \<and>
        block0 (d p ! i) \<noteq> block0 (d p ! 1) \<and> (is_dir (d p ! i) \<longrightarrow> block0 (d (block0 (d p ! i)) ! 1) = p))"

definition tree_ok :: "nat set \<Rightarrow> (u32 \<Rightarrow> dentry list) \<Rightarrow> u32 \<Rightarrow> bool" where
  "tree_ok U d r \<longleftrightarrow> block0 (d r ! 1) = r \<and> (\<forall>p cs. dir_at d r p cs \<longrightarrow> node_ok U d p) \<and>
     (\<forall>p q i j cs ds. dir_at d r p cs \<longrightarrow> dir_at d r q ds \<longrightarrow> 2 \<le> i \<longrightarrow> i < 18 \<longrightarrow> 2 \<le> j \<longrightarrow> j < 18 \<longrightarrow>
        block0 (d p ! i) = block0 (d q ! j) \<longrightarrow> block0 (d p ! i) \<noteq> 0 \<longrightarrow> p = q \<and> i = j)"

lemma tree_okD:
  assumes "tree_ok U d r"
  shows "block0 (d r ! 1) = r" "dir_at d r p cs \<Longrightarrow> node_ok U d p"
    "dir_at d r p cs \<Longrightarrow> dir_at d r q ds \<Longrightarrow> 2 \<le> i \<Longrightarrow> i < 18 \<Longrightarrow> 2 \<le> j \<Longrightarrow> j < 18 \<Longrightarrow>
      block0 (d p ! i) = block0 (d q ! j) \<Longrightarrow> block0 (d p ! i) \<noteq> 0 \<Longrightarrow> p = q \<and> i = j"
  using assms unfolding tree_ok_def by blast+

lemma node_okD:
  assumes "node_ok U d p"
  shows "p \<noteq> 0" "small p" "unat p \<in> U" "names_ok (d p)" "block0 (d p ! 0) = p" "name_of (d p ! 0) = Some [DOT]"
    "name_of (d p ! 1) = Some [DOT, DOT]" "is_dir (d p ! 0)" "is_dir (d p ! 1)"
    "2 \<le> i \<Longrightarrow> i < 18 \<Longrightarrow> block0 (d p ! i) = 0 \<or> unat (block0 (d p ! i)) \<in> U" "2 \<le> i \<Longrightarrow> i < 18 \<Longrightarrow> block0 (d p ! i) \<noteq> p"
    "2 \<le> i \<Longrightarrow> i < 18 \<Longrightarrow> block0 (d p ! i) \<noteq> block0 (d p ! 1)"
    "2 \<le> i \<Longrightarrow> i < 18 \<Longrightarrow> is_dir (d p ! i) \<Longrightarrow> block0 (d (block0 (d p ! i)) ! 1) = p" "length (d p) = 18"
  using assms unfolding node_ok_def dir_ok_def dir_entry_def by blast+

lemma parent_dir:
  assumes "tree_ok U d r" "dir_at d r b cs"
  shows "\<exists>ds. dir_at d r (block0 (d b ! 1)) ds"
  using assms(2)
proof cases
  case dir_at_root
  then show ?thesis using tree_okD(1) [OF assms(1)] dir_at.dir_at_root [of d r] by auto
next
  case (dir_at_sub p cs i x)
  then have "block0 (d b ! 1) = p" using node_okD(13) [OF tree_okD(2) [OF assms(1) dir_at_sub(3)] dir_at_sub(4-6)] by simp
  then show ?thesis using dir_at_sub(3) by auto
qed

lemma child_dir:
  assumes t: "tree_ok U d r" and p: "dir_at d r p cs" and i: "2 \<le> i" "i < 18" "is_dir (d p ! i)"
  shows "\<exists>x. name_of (d p ! i) = Some x \<and> dir_at d r (block0 (d p ! i)) (cs @ [x])" "block0 (d p ! i) \<noteq> 0"
proof -
  note N = node_okD [OF tree_okD(2) [OF t p]]
  have "d p ! i \<in> set (d p)" using N(14) i(2) by simp
  then obtain x where x: "name_of (d p ! i) = Some x" using N(4) unfolding names_ok_def by blast
  then have b: "dir_at d r (block0 (d p ! i)) (cs @ [x])" using p i by (intro dir_at_sub)
  with x show "\<exists>x. name_of (d p ! i) = Some x \<and> dir_at d r (block0 (d p ! i)) (cs @ [x])" by blast
  show "block0 (d p ! i) \<noteq> 0" using node_okD(1) [OF tree_okD(2) [OF t b]] .
qed

text \<open>In the directory \<open>p\<close>, the first entry that refers to a subdirectory is the subdirectory's own.\<close>

lemma first_reference:
  assumes t: "tree_ok U d r" and p: "dir_at d r p cs" and i: "2 \<le> i" "i < 18" "is_dir (d p ! i)" and j: "j < i"
  shows "block0 (d p ! j) \<noteq> block0 (d p ! i)"
proof -
  note N = node_okD [OF tree_okD(2) [OF t p]]
  have nz: "block0 (d p ! i) \<noteq> 0" by (rule child_dir(2) [OF t p i])
  consider "j = 0" | "j = 1" | "2 \<le> j" by linarith
  then show ?thesis
  proof cases
    case 1
    then show ?thesis using N(5) N(11) [OF i(1,2)] by simp
  next
    case 2
    then show ?thesis using N(12) [OF i(1,2)] by simp
  next
    case 3
    have "j < 18" using j i by simp
    then show ?thesis using tree_okD(3) [OF t p p 3 _ i(1,2)] nz j by auto
  qed
qed

text \<open>A path of ordinary names leads to an entry of the directory that the rest of it names.\<close>

lemma resolve_dir_at:
  assumes t: "tree_ok U d r"
  shows "dir_at d r b bs \<Longrightarrow> resolve U d b cs = Found p i \<Longrightarrow> \<forall>c \<in> set cs. new_name c \<Longrightarrow>
    dir_at d r p (bs @ butlast cs) \<and> 2 \<le> i \<and> i < 18 \<and> name_of (d p ! i) = Some (last cs)"
proof (induction cs arbitrary: b bs)
  case (Cons c cs)
  note N = node_okD [OF tree_okD(2) [OF t Cons.prems(1)]]
  from Cons.prems(2) obtain k where k: "find_entry (d b) c (cs = []) = Some k" "k \<noteq> PREV_DIR"
    by (auto split: if_splits option.splits)
  then have kl: "k < 18" "matches (d b ! k) c (cs = [])" using find_entry_Some [OF k(1)] N(14) by simp_all
  then have nm: "name_of (d b ! k) = Some c" by (simp add: matches_def)
  have "k \<noteq> 0"
  proof
    assume "k = 0"
    with nm N(6) have "c = [DOT]" by simp
    then show False using Cons.prems(3) by (simp add: new_name_def)
  qed
  with k(2) have k2: "2 \<le> k" by simp
  show ?case
  proof (cases "cs = []")
    case True
    then show ?thesis using Cons.prems k nm kl(1) k2 by (auto split: if_splits)
  next
    case False
    then have "is_dir (d b ! k)" using kl(2) by (simp add: matches_def)
    then have "dir_at d r (block0 (d b ! k)) (bs @ [c])" using Cons.prems(1) k2 kl(1) nm by (intro dir_at_sub)
    moreover have "resolve U d (block0 (d b ! k)) cs = Found p i" using Cons.prems(2) k False by (auto split: if_splits)
    ultimately show ?thesis using Cons.IH [of "block0 (d b ! k)" "bs @ [c]"] Cons.prems(3) False by simp
  qed
qed simp

section \<open>The way up\<close>

lemma same_blocks_trans: "same_blocks s s' \<Longrightarrow> same_blocks s' s'' \<Longrightarrow> same_blocks s s''"
  unfolding same_blocks_def by (auto intro: same_fs_trans)

lemma entry_by_ptr_ok:
  assumes inv: "fs_inv s {}" and E: "good_env E" and p: "small p" "p \<noteq> 0"
  shows "\<exists>a s'. Get_Entry_By_Ptr E \<lparr>de_base = p, de_offset = k\<rparr> s = Some (Some (BufEntry a k), s') \<and> same_blocks s s' \<and>
    (\<forall>i < 18. buf_entry a s' (int i) = Some (dirs s p ! i))"
proof -
  obtain a s1 where s1: "get_buf E p s = Some (0, a, s1)" "fs_inv s1 {a}" "buf_data a s1 = block s p" "block s1 = block s" "same_fs s s1"
    using get_buf_ok [OF inv E p] by auto
  obtain s2 where s2: "release_buf a s1 = Some s2" "fs_inv s2 ({a} - {a})" "block s2 = block s1" "same_fs s1 s2"
    "buf_data a s2 = buf_data a s1" using release_buf_ok [OF s1(2), of a] by blast
  have "length (block s p) = 4096" by (rule block_length [OF inv])
  then have "buf_entry a s2 (int i) = Some (dirs s p ! i)" if "i < 18" for i
    using that s1(3) s2(5) by (simp add: buf_entry_def dirs_def)
  moreover have "same_blocks s s2" using s1(4) s2(2,3) same_fs_trans [OF s1(5) s2(4)] by (simp add: same_blocks_def)
  ultimately show ?thesis using s1(1) s2(1) p(2) by (auto simp: Get_Entry_By_Ptr_def)
qed

lemma entry_at_ok:
  assumes "fs_inv s {}" "good_env E" "small p" "p \<noteq> 0" "i < 18"
  shows "\<exists>s'. entry_by_ptr E \<lparr>de_base = p, de_offset = int i\<rparr> s = Some (dirs s p ! i, s') \<and> same_blocks s s'"
  using entry_by_ptr_ok [OF assms(1-4), of "int i"] assms(5) by (auto simp: entry_by_ptr_def)

lemma find_block_first:
  assumes "\<And>j. i \<le> j \<Longrightarrow> j \<le> k \<Longrightarrow> rd (int j) = Some (es ! j)" "i \<le> k" "k < i + n"
    and "block0 (es ! k) = b" "\<And>j. j < k \<Longrightarrow> block0 (es ! j) \<noteq> b"
  shows "find_block rd b i n = Some k"
  using assms(1-3)
proof (induction n arbitrary: i)
  case (Suc n)
  have r: "rd (int i) = Some (es ! i)" using Suc.prems(1) [of i] Suc.prems(2) by simp
  show ?case
  proof (cases "i = k")
    case False
    then have "find_block rd b (Suc i) n = Some k" using Suc.prems by (intro Suc.IH) auto
    then show ?thesis using r False Suc.prems(2) assms(5) [of i] by simp
  qed (use r assms(4) in simp)
qed simp

lemma path_up_ok:
  assumes E: "good_env E"
  shows "dir_at d r b cs \<Longrightarrow> tree_ok U d r \<Longrightarrow> d = dirs s \<Longrightarrow> fs_inv s {} \<Longrightarrow> ds \<noteq> [] \<Longrightarrow> tl (join ds) \<noteq> [] \<Longrightarrow>
    \<exists>s'. path_up E b (tl (join ds)) s = Some (0, tl (join (cs @ ds)), s') \<and> same_blocks s s'"
proof (induction arbitrary: ds s rule: dir_at.induct)
  case dir_at_root
  note N = node_okD [OF tree_okD(2) [OF dir_at_root(1) dir_at.dir_at_root]]
  obtain s1 where s1: "entry_by_ptr E \<lparr>de_base = r, de_offset = int PREV_DIR\<rparr> s = Some (dirs s r ! 1, s1)" "same_blocks s s1"
    using entry_at_ok [OF dir_at_root(3) E N(2,1), of 1] by auto
  have "block0 (dirs s r ! 1) = r" using tree_okD(1) [OF dir_at_root(1)] dir_at_root(2) by simp
  then show ?case using s1 by (subst path_up.simps) auto
next
  case (dir_at_sub p cs i x)
  let ?b = "block0 (d p ! i)"
  have b: "dir_at d r ?b (cs @ [x])" using dir_at_sub.hyps by (rule dir_at.dir_at_sub)
  note d = dir_at_sub.prems(2) and t = dir_at_sub.prems(1)
  note P = node_okD [OF tree_okD(2) [OF t dir_at_sub.hyps(1)]] and B = node_okD [OF tree_okD(2) [OF t b]]
  obtain s1 where s1: "entry_by_ptr E \<lparr>de_base = ?b, de_offset = int PREV_DIR\<rparr> s = Some (dirs s ?b ! 1, s1)" "same_blocks s s1"
    using entry_at_ok [OF dir_at_sub.prems(3) E B(2,1), of 1] by auto
  have up: "block0 (dirs s ?b ! 1) = p" using P(13) [OF dir_at_sub.hyps(2-4)] d by simp
  have ne: "?b \<noteq> p" by (rule P(11) [OF dir_at_sub.hyps(2,3)])
  note S1 = same_blocks_simps [OF s1(2)]
  obtain a s2 where s2: "Get_Entry_By_Ptr E \<lparr>de_base = p, de_offset = 0\<rparr> s1 = Some (Some (BufEntry a 0), s2)" "same_blocks s1 s2"
    "\<And>j. j < 18 \<Longrightarrow> buf_entry a s2 (int j) = Some (dirs s1 p ! j)"
    using entry_by_ptr_ok [OF S1(1) E P(2,1)] by blast
  have rd: "buf_entry a s2 (int j) = Some (d p ! j)" if "j < 18" for j using s2(3) [OF that] S1(3) d by simp
  have fb: "find_block (deref (BufEntry a 0) s2) ?b 0 18 = Some i"
    by (rule find_block_first [where es = "d p"])
      (use rd dir_at_sub.hyps(3) first_reference [OF t dir_at_sub.hyps(1-4)] in auto)
  note S2 = same_blocks_simps [OF s2(2)]
  have sm: "same_blocks s s2" by (rule same_blocks_trans [OF s1(2) s2(2)])
  have "\<exists>s'. path_up E p (tl (join (x # ds))) s2 = Some (0, tl (join (cs @ x # ds)), s') \<and> same_blocks s2 s'"
    by (rule dir_at_sub.IH) (use t d S1(3) S2(1,3) dir_at_sub.prems(4) in auto)
  then obtain s' where s': "path_up E p (tl (join (x # ds))) s2 = Some (0, tl (join (cs @ x # ds)), s')" "same_blocks s2 s'" by blast
  obtain c cs' where ds: "ds = c # cs'" using dir_at_sub.prems(4) by (cases ds) auto
  have "path_up E ?b (tl (join ds)) s = path_up E p (tl (join (x # ds))) s2"
    using s1(1) up ne s2(1) fb rd [OF dir_at_sub.hyps(3)] dir_at_sub.hyps(3,5) dir_at_sub.prems(5) ds
    by (subst path_up.simps) (auto simp del: find_block.simps)
  moreover have "same_blocks s s'" by (rule same_blocks_trans [OF sm s'(2)])
  ultimately show ?case using s'(1) by auto
qed

text \<open>The mounted file system is a tree.\<close>

definition fs_tree :: "GOSFS_Instance \<Rightarrow> bool" where
  "fs_tree s \<longleftrightarrow> tree_ok (used_blocks s) (dirs s) (root_block s)"

lemma fs_tree_same: "same_blocks s s' \<Longrightarrow> fs_tree s' = fs_tree s"
  by (simp add: fs_tree_def same_blocks_simps)

text \<open>From an entry that was found back to the path that was looked up.\<close>

lemma Get_Path_back:
  assumes inv: "fs_inv s {}" and E: "good_env E" and t: "fs_tree s" and names: "\<forall>c \<in> set cs. new_name c"
    and f: "outcome_of s cs = Found p i" and dir: "is_dir (dirs s p ! i)"
  shows "\<exists>s'. GOSFS_Get_Path E \<lparr>de_base = p, de_offset = int i\<rparr> [] s = Some (0, join cs, s') \<and> same_blocks s s'"
proof -
  let ?d = "dirs s" and ?r = "root_block s"
  note t = t [unfolded fs_tree_def]
  have cs: "cs \<noteq> []" using f resolve_FoundD by (auto simp: outcome_of_def)
  have P: "dir_at ?d ?r p (butlast cs)" "2 \<le> i" "i < 18" "name_of (?d p ! i) = Some (last cs)"
    using resolve_dir_at [OF t dir_at_root f [unfolded outcome_of_def] names] by simp_all
  note N = node_okD [OF tree_okD(2) [OF t P(1)]]
  have nm: "new_name (last cs)" using names cs by simp
  have b: "dir_at ?d ?r (block0 (?d p ! i)) (butlast cs @ [last cs])" using P dir by (intro dir_at_sub)
  have "block0 (?d p ! i) \<noteq> ?r"
  proof
    assume r: "block0 (?d p ! i) = ?r"
    have "block0 (?d (block0 (?d p ! i)) ! 1) = p" by (rule N(13) [OF P(2,3) dir])
    with r tree_okD(1) [OF t] have "p = ?r" by simp
    with r N(11) [OF P(2,3)] show False by simp
  qed
  note nr = this
  let ?ptr = "\<lparr>de_base = p, de_offset = int i\<rparr>"
  obtain s1 where s1: "entry_by_ptr E ?ptr s = Some (?d p ! i, s1)" "same_blocks s s1" using entry_at_ok [OF inv E N(2,1) P(3)] by blast
  note S1 = same_blocks_simps [OF s1(2)]
  have root: "sb_root s1 = Some ?r" using sb_root_ok [OF S1(1)] S1(5) by simp
  obtain s2 where s2: "entry_by_ptr E ?ptr s1 = Some (?d p ! i, s2)" "same_blocks s1 s2"
    using entry_at_ok [OF S1(1) E N(2,1) P(3)] S1(3) by auto
  note S2 = same_blocks_simps [OF s2(2)]
  obtain s3 where s3: "entry_by_ptr E ?ptr s2 = Some (?d p ! i, s3)" "same_blocks s2 s3"
    using entry_at_ok [OF S2(1) E N(2,1) P(3)] S1(3) S2(3) by auto
  note S3 = same_blocks_simps [OF s3(2)]
  obtain s4 where s4: "entry_by_ptr E ?ptr s3 = Some (?d p ! i, s4)" "same_blocks s3 s4"
    using entry_at_ok [OF S3(1) E N(2,1) P(3)] S1(3) S2(3) S3(3) by auto
  note S4 = same_blocks_simps [OF s4(2)]
  have d4: "dirs s4 = ?d" using S1(3) S2(3) S3(3) S4(3) by simp
  have l: "last cs \<noteq> []" using nm by (simp add: new_name_def good_name_def)
  obtain s5 where s5: "path_up E p (last cs) s4 = Some (0, tl (join (butlast cs @ [last cs])), s5)" "same_blocks s4 s5"
    using path_up_ok [OF E P(1) t _ S4(1), of "[last cs]"] d4 l by auto
  have j: "SLASH # tl (join cs) = join cs" using cs by (cases cs) simp_all
  have "GOSFS_Get_Path E ?ptr [] s = Some (0, join cs, s5)"
    using s1(1) s2(1) s3(1) s4(1) s5(1) root nr P(4) nm cs j by (simp add: GOSFS_Get_Path_def new_name_def del: join_simps)
  moreover have "same_blocks s s5" using same_blocks_trans [OF s1(2) same_blocks_trans [OF s2(2) same_blocks_trans [OF s3(2) same_blocks_trans [OF s4(2) s5(2)]]]] .
  ultimately show ?thesis by blast
qed

section \<open>Making and removing directories\<close>

lemma resolve_missing_at:
  assumes t: "tree_ok U d r"
  shows "dir_at d r b bs \<Longrightarrow> resolve U d b cs = Missing p f True \<Longrightarrow> \<forall>c \<in> set cs. new_name c \<Longrightarrow>
    dir_at d r p (bs @ butlast cs)"
proof (induction cs arbitrary: b bs)
  case (Cons c cs)
  note N = node_okD [OF tree_okD(2) [OF t Cons.prems(1)]]
  show ?case
  proof (cases "find_entry (d b) c (cs = [])")
    case None
    then show ?thesis using Cons.prems by (auto split: if_splits)
  next
    case (Some k)
    then have cs: "cs \<noteq> []" "k \<noteq> PREV_DIR" "resolve U d (block0 (d b ! k)) cs = Missing p f True"
      using Cons.prems(2) by (auto split: if_splits)
    have kl: "k < 18" "matches (d b ! k) c False" using find_entry_Some [OF Some] N(14) cs(1) by simp_all
    then have nm: "name_of (d b ! k) = Some c" and dir: "is_dir (d b ! k)" by (simp_all add: matches_def)
    have "k \<noteq> 0"
    proof
      assume "k = 0"
      with nm N(6) have "c = [DOT]" by simp
      then show False using Cons.prems(3) by (simp add: new_name_def)
    qed
    with cs(2) have k2: "2 \<le> k" by simp
    have "dir_at d r (block0 (d b ! k)) (bs @ [c])" using Cons.prems(1) k2 kl(1) dir nm by (intro dir_at_sub)
    then show ?thesis using Cons.IH [OF _ cs(3)] Cons.prems(3) cs(1) by fastforce
  qed
qed simp

lemma names_ok_update: "names_ok es \<Longrightarrow> name_of e \<noteq> None \<Longrightarrow> names_ok (es[i := e])"
  using set_update_subset_insert [of es i e] by (auto simp: names_ok_def)

text \<open>A new directory \<open>k\<close> in entry \<open>i\<close> of \<open>p\<close>.\<close>

definition grown :: "nat set \<Rightarrow> (u32 \<Rightarrow> dentry list) \<Rightarrow> u32 \<Rightarrow> nat \<Rightarrow> dentry \<Rightarrow> u32 \<Rightarrow> (u32 \<Rightarrow> dentry list) \<Rightarrow> bool" where
  "grown U d p i e k d' \<longleftrightarrow> 2 \<le> i \<and> i < 18 \<and> \<not> is_dir (d p ! i) \<and> (\<exists>x. dir_entry x k e) \<and>
     unat k \<notin> U \<and> small k \<and> k \<noteq> 0 \<and> new_dir k p (d' k) \<and>
     (\<forall>n. unat n \<in> U \<longrightarrow> n \<noteq> 0 \<longrightarrow> small n \<longrightarrow> d' n = (if n = p then (d p)[i := e] else d n))"

lemma grownD:
  assumes "grown U d p i e k d'"
  shows "2 \<le> i" "i < 18" "\<not> is_dir (d p ! i)" "block0 e = k" "is_dir e" "name_of e \<noteq> None" "unat k \<notin> U" "small k" "k \<noteq> 0"
    "length (d' k) = 18" "dir_entry [DOT] k (d' k ! 0)" "dir_entry [DOT, DOT] p (d' k ! 1)" "\<And>j. 2 \<le> j \<Longrightarrow> j < 18 \<Longrightarrow> d' k ! j = zero_entry"
    "\<And>n. unat n \<in> U \<Longrightarrow> n \<noteq> 0 \<Longrightarrow> small n \<Longrightarrow> d' n = (if n = p then (d p)[i := e] else d n)"
  using assms unfolding grown_def new_dir_def dir_entry_def by blast+

text \<open>The entries of the directories there were.\<close>

lemma grown_old:
  assumes t: "tree_ok U d r" and g: "grown U d p i e k d'" and q: "dir_at d r q cs"
  shows "q = p \<Longrightarrow> d' q ! i = e" "q \<noteq> p \<or> j \<noteq> i \<Longrightarrow> d' q ! j = d q ! j" "length (d' q) = 18" "names_ok (d' q)" "q \<noteq> k"
proof -
  note G = grownD [OF g] and N = node_okD [OF tree_okD(2) [OF t q]]
  have eq: "d' q = (if q = p then (d p)[i := e] else d q)" by (rule G(14) [OF N(3,1,2)])
  show "d' q ! i = e" if "q = p" using eq N(14) G(2) that by simp
  show "d' q ! j = d q ! j" if "q \<noteq> p \<or> j \<noteq> i" using eq that by (cases "q = p") auto
  show "length (d' q) = 18" using eq N(14) by (cases "q = p") simp_all
  show "names_ok (d' q)" using eq N(4) names_ok_update [OF N(4) G(6), of i] by auto
  show "q \<noteq> k" using N(3) G(7) by auto
qed

lemma grown_dir_at:
  assumes t: "tree_ok U d r" and g: "grown U d p i e k d'"
  shows "dir_at d' r b cs \<Longrightarrow> b = k \<or> (\<exists>cs. dir_at d r b cs)"
proof (induction rule: dir_at.induct)
  case dir_at_root
  then show ?case using dir_at.dir_at_root by blast
next
  case (dir_at_sub q cs j x)
  note G = grownD [OF g]
  from dir_at_sub.IH show ?case
  proof (elim disjE exE)
    assume "q = k"
    then have "d' q ! j = zero_entry" using G(13) [OF dir_at_sub.hyps(2,3)] by simp
    then show ?thesis using dir_at_sub.hyps(4) by simp
  next
    fix cs' assume q: "dir_at d r q cs'"
    show ?thesis
    proof (cases "q = p \<and> j = i")
      case True
      then show ?thesis using grown_old(1) [OF t g q] G(4) by simp
    next
      case False
      then have "d' q ! j = d q ! j" by (intro grown_old(2) [OF t g q]) simp
      then show ?thesis using dir_at.dir_at_sub [OF q dir_at_sub.hyps(2,3), of x] dir_at_sub.hyps(4,5) by auto
    qed
  qed
qed

lemma grown_node:
  assumes t: "tree_ok U d r" and p: "dir_at d r p bs" and g: "grown U d p i e k d'" and q: "dir_at d r q cs"
  shows "node_ok (insert (unat k) U) d' q"
proof -
  note G = grownD [OF g] and N = node_okD [OF tree_okD(2) [OF t q]] and P = node_okD [OF tree_okD(2) [OF t p]] and o = grown_old [OF t g q]
  have dots: "d' q ! 0 = d q ! 0" "d' q ! 1 = d q ! 1" using o(2) G(1) by auto
  have de: "dir_entry [DOT] q (d' q ! 0)" using tree_okD(2) [OF t q] dots by (simp add: node_ok_def)
  obtain ds where pp: "dir_at d r (block0 (d p ! 1)) ds" using parent_dir [OF t p] by blast
  have pk: "p \<noteq> k" "block0 (d p ! 1) \<noteq> k" using grown_old(5) [OF t g p] grown_old(5) [OF t g pp] by simp_all
  have rest: "(block0 (d' q ! j) = 0 \<or> unat (block0 (d' q ! j)) \<in> insert (unat k) U) \<and> block0 (d' q ! j) \<noteq> q \<and>
      block0 (d' q ! j) \<noteq> block0 (d' q ! 1) \<and> (is_dir (d' q ! j) \<longrightarrow> block0 (d' (block0 (d' q ! j)) ! 1) = q)" if j: "2 \<le> j" "j < 18" for j
  proof (cases "q = p \<and> j = i")
    case True
    then have eq: "d' q ! j = e" using o(1) by simp
    have "block0 (d' k ! 1) = p" using G(12) by (simp add: dir_entry_def)
    then show ?thesis using True G(4) pk unfolding eq dots by auto
  next
    case False
    then have eq: "d' q ! j = d q ! j" by (intro o(2)) simp
    have "block0 (d' (block0 (d q ! j)) ! 1) = q" if dir: "is_dir (d q ! j)"
    proof -
      obtain x where c: "dir_at d r (block0 (d q ! j)) (cs @ [x])" using child_dir(1) [OF t q j dir] by blast
      have "d' (block0 (d q ! j)) ! 1 = d (block0 (d q ! j)) ! 1" using grown_old(2) [OF t g c, of 1] G(1) by simp
      then show ?thesis using N(13) [OF j dir] by simp
    qed
    then show ?thesis using N(10-12) [OF j] unfolding eq dots by auto
  qed
  have "dir_ok (insert (unat k) U) d' q" using N(1-3) o(4) by (simp add: dir_ok_def)
  then show ?thesis using de o(3) rest N(7,9) unfolding node_ok_def dots by blast
qed

lemma grown_new_node:
  assumes t: "tree_ok U d r" and p: "dir_at d r p bs" and g: "grown U d p i e k d'"
  shows "node_ok (insert (unat k) U) d' k"
proof -
  note G = grownD [OF g] and P = node_okD [OF tree_okD(2) [OF t p]]
  have nm: "names_ok (d' k)" unfolding names_ok_def
  proof
    fix f assume "f \<in> set (d' k)"
    then obtain j where j: "j < 18" "f = d' k ! j" using G(10) by (auto simp: in_set_conv_nth)
    consider "j = 0" | "j = 1" | "2 \<le> j" by linarith
    then show "name_of f \<noteq> None" using j G(11-13) by cases (auto simp: dir_entry_def)
  qed
  then have "dir_ok (insert (unat k) U) d' k" using G(8,9) by (simp add: dir_ok_def)
  then show ?thesis using G(9-13) P(1) by (auto simp: node_ok_def dir_entry_def)
qed

lemma tree_grown:
  assumes t: "tree_ok U d r" and p: "dir_at d r p bs" and g: "grown U d p i e k d'"
  shows "tree_ok (insert (unat k) U) d' r"
  unfolding tree_ok_def
proof (intro conjI allI impI)
  note G = grownD [OF g]
  show "block0 (d' r ! 1) = r" using tree_okD(1) [OF t] grown_old(2) [OF t g dir_at_root, of 1] G(1) by simp
  show "node_ok (insert (unat k) U) d' q" if "dir_at d' r q cs" for q cs
    using grown_dir_at [OF t g that] grown_node [OF t p g] grown_new_node [OF t p g] by blast
  fix q1 q2 j1 j2 cs1 cs2
  assume a: "dir_at d' r q1 cs1" "dir_at d' r q2 cs2" "2 \<le> j1" "j1 < 18" "2 \<le> j2" "j2 < 18"
    and same: "block0 (d' q1 ! j1) = block0 (d' q2 ! j2)" and nz: "block0 (d' q1 ! j1) \<noteq> 0"
  have "q1 \<noteq> k" "q2 \<noteq> k" using G(13) a(3-6) same nz by auto
  then obtain ds1 ds2 where q: "dir_at d r q1 ds1" "dir_at d r q2 ds2"
    using grown_dir_at [OF t g a(1)] grown_dir_at [OF t g a(2)] by blast
  have new: "block0 (d' q ! j) = k \<longleftrightarrow> q = p \<and> j = i" if "dir_at d r q ds" "2 \<le> j" "j < 18" for q ds j
  proof (cases "q = p \<and> j = i")
    case True
    then show ?thesis using grown_old(1) [OF t g that(1)] G(4) by simp
  next
    case False
    then have "d' q ! j = d q ! j" by (intro grown_old(2) [OF t g that(1)]) simp
    then show ?thesis using False node_okD(10) [OF tree_okD(2) [OF t that(1)] that(2,3)] G(7,9) by auto
  qed
  note n1 = new [OF q(1) a(3,4)] and n2 = new [OF q(2) a(5,6)]
  have "q1 = q2 \<and> j1 = j2"
  proof (cases "block0 (d' q1 ! j1) = k")
    case True
    then show ?thesis using n1 n2 same by simp
  next
    case False
    then have "d' q1 ! j1 = d q1 ! j1" "d' q2 ! j2 = d q2 ! j2"
      using grown_old(2) [OF t g q(1), of j1] grown_old(2) [OF t g q(2), of j2] n1 n2 same by auto
    then show ?thesis using tree_okD(3) [OF t q a(3-6)] same nz by simp
  qed
then show "q1 = q2" "j1 = j2" by simp_all
qed

text \<open>The subdirectory of entry \<open>i\<close> of \<open>p\<close>, which is empty, is removed.\<close>

definition shrunk :: "nat set \<Rightarrow> (u32 \<Rightarrow> dentry list) \<Rightarrow> u32 \<Rightarrow> nat \<Rightarrow> (u32 \<Rightarrow> dentry list) \<Rightarrow> bool" where
  "shrunk U d p i d' \<longleftrightarrow> 2 \<le> i \<and> i < 18 \<and> is_dir (d p ! i) \<and>
     (\<forall>n. unat n \<in> U \<longrightarrow> n \<noteq> 0 \<longrightarrow> small n \<longrightarrow> n \<noteq> block0 (d p ! i) \<longrightarrow> d' n = (if n = p then (d p)[i := zero_entry] else d n))"

lemma shrunk_old:
  assumes t: "tree_ok U d r" and p: "dir_at d r p bs" and g: "shrunk U d p i d'" and q: "dir_at d r q cs" "q \<noteq> block0 (d p ! i)"
  shows "q = p \<Longrightarrow> d' q ! i = zero_entry" "q \<noteq> p \<or> j \<noteq> i \<Longrightarrow> d' q ! j = d q ! j" "length (d' q) = 18" "names_ok (d' q)"
    "2 \<le> j \<Longrightarrow> j < 18 \<Longrightarrow> block0 (d' q ! j) \<noteq> block0 (d p ! i)"
proof -
  note N = node_okD [OF tree_okD(2) [OF t q(1)]]
  have i: "2 \<le> i" "i < 18" "is_dir (d p ! i)" using g by (simp_all add: shrunk_def)
  have eq: "d' q = (if q = p then (d p)[i := zero_entry] else d q)" using g N(1-3) q(2) unfolding shrunk_def by blast
  show z: "d' q ! i = zero_entry" if "q = p" using eq N(14) i that by simp
  show o: "d' q ! j = d q ! j" if "q \<noteq> p \<or> j \<noteq> i" for j using eq that by (cases "q = p") auto
  show "length (d' q) = 18" using eq N(14) by (cases "q = p") simp_all
  show "names_ok (d' q)" using eq N(4) names_ok_update [OF N(4), of zero_entry i] by auto
  have nz: "block0 (d p ! i) \<noteq> 0" by (rule child_dir(2) [OF t p i])
  show "block0 (d' q ! j) \<noteq> block0 (d p ! i)" if "2 \<le> j" "j < 18"
  proof (cases "q = p \<and> j = i")
    case True
    then show ?thesis using z nz by simp
  next
    case False
    then show ?thesis using tree_okD(3) [OF t q(1) p that i(1,2)] o [of j] nz by auto
  qed
qed

lemma shrunk_dir_at:
  assumes t: "tree_ok U d r" and p: "dir_at d r p bs" and g: "shrunk U d p i d'"
  shows "dir_at d' r b cs \<Longrightarrow> dir_at d r b cs \<and> b \<noteq> block0 (d p ! i)"
proof (induction rule: dir_at.induct)
  have i: "2 \<le> i" "i < 18" "is_dir (d p ! i)" using g by (simp_all add: shrunk_def)
  note P = node_okD [OF tree_okD(2) [OF t p]]
  case dir_at_root
  have "r \<noteq> block0 (d p ! i)"
  proof
    assume r: "r = block0 (d p ! i)"
    then have "p = r" using P(13) [OF i] tree_okD(1) [OF t] by simp
    then show False using P(11) [OF i(1,2)] r by simp
  qed
  then show ?case using dir_at.dir_at_root by blast
next
  case (dir_at_sub q cs j x)
  have q: "dir_at d r q cs" "q \<noteq> block0 (d p ! i)" using dir_at_sub.IH by simp_all
  note o = shrunk_old [OF t p g q]
  have ne: "\<not> (q = p \<and> j = i)" using o(1) dir_at_sub.hyps(4) by auto
  then have eq: "d' q ! j = d q ! j" by (intro o(2)) simp
  have "dir_at d r (block0 (d q ! j)) (cs @ [x])"
    using dir_at_sub.hyps(2-5) unfolding eq by (intro dir_at.dir_at_sub [OF q(1)])
  then show ?case using o(5) [OF dir_at_sub.hyps(2,3)] by (simp add: eq)
qed

lemma shrunk_node:
  assumes t: "tree_ok U d r" and p: "dir_at d r p bs" and g: "shrunk U d p i d'" and q: "dir_at d r q cs" "q \<noteq> block0 (d p ! i)"
  shows "node_ok (U - {unat (block0 (d p ! i))}) d' q"
proof -
  let ?k = "block0 (d p ! i)"
  note N = node_okD [OF tree_okD(2) [OF t q(1)]] and o = shrunk_old [OF t p g q]
  have i: "2 \<le> i" using g by (simp add: shrunk_def)
  have dots: "d' q ! 0 = d q ! 0" "d' q ! 1 = d q ! 1" using o(2) i by auto
  have de: "dir_entry [DOT] q (d' q ! 0)" using tree_okD(2) [OF t q(1)] dots by (simp add: node_ok_def)
  obtain ds where "dir_at d r (block0 (d q ! 1)) ds" using parent_dir [OF t q(1)] by blast
  then have par: "block0 (d q ! 1) \<noteq> 0" using node_okD(1) [OF tree_okD(2) [OF t]] by blast
  have rest: "(block0 (d' q ! j) = 0 \<or> unat (block0 (d' q ! j)) \<in> U - {unat ?k}) \<and> block0 (d' q ! j) \<noteq> q \<and>
      block0 (d' q ! j) \<noteq> block0 (d' q ! 1) \<and> (is_dir (d' q ! j) \<longrightarrow> block0 (d' (block0 (d' q ! j)) ! 1) = q)" if j: "2 \<le> j" "j < 18" for j
  proof (cases "q = p \<and> j = i")
    case True
    then have "d' q ! j = zero_entry" using o(1) by simp
    then show ?thesis using N(1) par dots by simp
  next
    case False
    then have eq: "d' q ! j = d q ! j" by (intro o(2)) simp
    have nk: "block0 (d q ! j) \<noteq> ?k" using o(5) [OF j] by (simp add: eq)
    then have nu: "unat (block0 (d q ! j)) \<noteq> unat ?k" by (simp add: word_unat_eq_iff)
    have "block0 (d' (block0 (d q ! j)) ! 1) = q" if dir: "is_dir (d q ! j)"
    proof -
      obtain x where c: "dir_at d r (block0 (d q ! j)) (cs @ [x])" using child_dir(1) [OF t q(1) j dir] by blast
      have "d' (block0 (d q ! j)) ! 1 = d (block0 (d q ! j)) ! 1" using shrunk_old(2) [OF t p g c nk, of 1] i by simp
      then show ?thesis using N(13) [OF j dir] by simp
    qed
    then show ?thesis using N(10-12) [OF j] nu unfolding eq dots by auto
  qed
  have "dir_ok (U - {unat ?k}) d' q" using N(1-3) o(4) q(2) by (simp add: dir_ok_def word_unat_eq_iff)
  then show ?thesis using de o(3) rest N(7,9) unfolding node_ok_def dots by blast
qed

lemma tree_shrunk:
  assumes t: "tree_ok U d r" and p: "dir_at d r p bs" and g: "shrunk U d p i d'"
  shows "tree_ok (U - {unat (block0 (d p ! i))}) d' r"
  unfolding tree_ok_def
proof (intro conjI allI impI)
  note at = shrunk_dir_at [OF t p g]
  have root: "dir_at d r r []" "r \<noteq> block0 (d p ! i)" using at [OF dir_at.dir_at_root] by simp_all
  have "2 \<le> i" using g by (simp add: shrunk_def)
  then show "block0 (d' r ! 1) = r" using tree_okD(1) [OF t] shrunk_old(2) [OF t p g root, of 1] by simp
  show "node_ok (U - {unat (block0 (d p ! i))}) d' q" if "dir_at d' r q cs" for q cs
    using at [OF that] shrunk_node [OF t p g] by blast
  fix q1 q2 j1 j2 cs1 cs2
  assume a: "dir_at d' r q1 cs1" "dir_at d' r q2 cs2" "2 \<le> j1" "j1 < 18" "2 \<le> j2" "j2 < 18"
    and same: "block0 (d' q1 ! j1) = block0 (d' q2 ! j2)" and nz: "block0 (d' q1 ! j1) \<noteq> 0"
  note q1 = at [OF a(1)] and q2 = at [OF a(2)]
  have keep: "d' q ! j = d q ! j" if "dir_at d r q cs \<and> q \<noteq> block0 (d p ! i)" "block0 (d' q ! j) \<noteq> 0" for q cs j
  proof (cases "q = p \<and> j = i")
    case True
    then show ?thesis using shrunk_old(1) [OF t p g, of q cs] that by auto
  next
    case False
    then show ?thesis using shrunk_old(2) [OF t p g, of q cs j] that(1) by blast
  qed
  have "d' q1 ! j1 = d q1 ! j1" "d' q2 ! j2 = d q2 ! j2" using keep [OF q1] keep [OF q2] same nz by auto
  then have "q1 = q2 \<and> j1 = j2" using tree_okD(3) [OF t _ _ a(3-6)] q1 q2 same nz by auto
  then show "q1 = q2" "j1 = j2" by simp_all
qed

section \<open>Properties\<close>

lemma fs_tree_made:
  assumes t: "fs_tree s" and names: "\<forall>c \<in> set cs. new_name c" and v: "vacant s cs p i k" and m: "made_dir s p i (last cs) k s'"
  shows "fs_tree s'"
proof -
  note V = vacantD [OF v] and T = t [unfolded fs_tree_def]
  have "resolve (used_blocks s) (dirs s) (root_block s) cs = Missing p (int i) True" using v by (simp add: vacant_def outcome_of_def)
  then have p: "dir_at (dirs s) (root_block s) p (butlast cs)" using resolve_missing_at [OF T dir_at_root _ names] by simp
  note N = node_okD [OF tree_okD(2) [OF T p]]
  obtain e where e: "dir_entry (last cs) (of_nat k) e"
    "\<And>n. unat n \<in> used_blocks s \<Longrightarrow> n \<noteq> 0 \<Longrightarrow> small n \<Longrightarrow> dirs s' n = (if n = p then (dirs s p)[i := e] else dirs s n)"
    "root_block s' = root_block s" using made_dirs [OF m v] by blast
  have "i \<noteq> 0"
  proof
    assume "i = 0"
    with V(6) N(8) show False by (simp add: is_free_def)
  qed
  then have i: "2 \<le> i" using V(7) by simp
  have nd: "\<not> is_dir (dirs s p ! i)" using V(6) by (auto simp: is_free_def)
  have "grown (used_blocks s) (dirs s) p i e (of_nat k) (dirs s')"
    unfolding grown_def using i V(5,12-14,16) nd e(1,2) m by (auto simp: made_dir_def)
  from tree_grown [OF T p this] show ?thesis using m e(3) V(16) by (simp add: fs_tree_def made_dir_def)
qed

lemma fs_tree_deleted:
  assumes t: "fs_tree s" and names: "\<forall>c \<in> set cs. new_name c" and f: "outcome_of s cs = Found p i" and dir: "is_dir (dirs s p ! i)"
    and del: "deleted s p i (block0 (dirs s p ! i)) s'"
  shows "fs_tree s'"
proof -
  note T = t [unfolded fs_tree_def]
  have P: "dir_at (dirs s) (root_block s) p (butlast cs)" "2 \<le> i" "i < 18"
    using resolve_dir_at [OF T dir_at_root f [unfolded outcome_of_def] names] by simp_all
  have d: "dirs s' n = (if n = p then (dirs s p)[i := zero_entry] else dirs s n)"
    if "small n" "n \<noteq> 0" "n \<noteq> block0 (dirs s p ! i)" for n
    using del that by (simp add: deleted_def dirs_def)
  then have "shrunk (used_blocks s) (dirs s) p i (dirs s')" using P(2,3) dir unfolding shrunk_def by blast
  from tree_shrunk [OF T P(1) this] show ?thesis using del by (simp add: fs_tree_def deleted_def)
qed


text \<open>A lookup and the way back: \<open>GOSFS_Get_Path\<close>, given the entry that \<open>GOSFS_Lookup\<close> found for the path
  of a directory, returns that path.\<close>

theorem get_path_after_lookup:
  assumes "fs_inv s {}" "sane_env E" "good_path cs" "\<forall>c \<in> set cs. new_name c" "fs_tree s"
    and "outcome_of s cs = Found p i" "is_dir (dirs s p ! i)"
  shows "\<exists>q s1 s2. GOSFS_Lookup E (join cs) s = Some (0, Some q, s1) \<and> GOSFS_Get_Path E q [] s1 = Some (0, join cs, s2) \<and> same_blocks s s2"
proof -
  obtain s1 where s1: "GOSFS_Lookup E (join cs) s = Some (0, Some \<lparr>de_base = p, de_offset = int i\<rparr>, s1)" "same_blocks s s1"
    using Lookup_Found [OF assms(1-3,6)] by blast
  note S1 = same_blocks_simps [OF s1(2)]
  have "outcome_of s1 cs = Found p i" "is_dir (dirs s1 p ! i)" using assms(6,7) S1 by (simp_all add: outcome_of_def)
  from Get_Path_back [OF S1(1) _ _ assms(4) this, of E] obtain s2 where
    "GOSFS_Get_Path E \<lparr>de_base = p, de_offset = int i\<rparr> [] s1 = Some (0, join cs, s2)" "same_blocks s1 s2"
    using sane_envD [OF assms(2)] fs_tree_same [OF s1(2)] assms(5) by blast
  then show ?thesis using s1 same_blocks_trans by blast
qed

text \<open>A freshly formatted device, whose root directory has nothing but its own two entries, is a tree.\<close>

lemma fs_tree_new:
  assumes "new_dir (root_block s) (root_block s) (dirs s (root_block s))" "unat (root_block s) \<in> used_blocks s" "small (root_block s)" "root_block s \<noteq> 0"
  shows "fs_tree s"
proof -
  let ?d = "dirs s" and ?r = "root_block s"
  have l: "length (?d ?r) = 18" "dir_entry [DOT] ?r (?d ?r ! 0)" "dir_entry [DOT, DOT] ?r (?d ?r ! 1)"
    "\<And>j. 2 \<le> j \<Longrightarrow> j < 18 \<Longrightarrow> ?d ?r ! j = zero_entry" using assms(1) by (simp_all add: new_dir_def)
  have only: "dir_at ?d ?r b cs \<Longrightarrow> b = ?r" for b cs
  proof (induction rule: dir_at.induct)
    case (dir_at_sub p cs i x)
    then show ?case using l(4) [of i] by simp
  qed simp
  have x: "[0x61] \<noteq> ([] :: cstr)" "[0x61] \<noteq> [DOT :: u8]" "[0x61] \<noteq> [DOT, DOT :: u8]" by simp_all
  have "names_ok (?d ?r)" by (rule new_dir_entries(3) [OF assms(1) x])
  then have "node_ok (used_blocks s) ?d ?r" using assms(2-4) l by (simp add: node_ok_def dir_ok_def dir_entry_def)
  moreover have "block0 (?d b ! j) = 0" if "dir_at ?d ?r b cs" "2 \<le> j" "j < 18" for b cs j
    using only [OF that(1)] l(4) [OF that(2,3)] by simp
  ultimately show ?thesis using only l(3) unfolding fs_tree_def tree_ok_def dir_entry_def by metis
qed

lemma sample_new_name: "\<forall>c \<in> set sample_path. new_name c"
  by (simp add: new_name_def good_name_def)


lemma get_path_after_lookup_witness:
  "\<exists>s q s1 s2. GOSFS_Lookup sample_env [SLASH, 0x61] s = Some (0, Some q, s1) \<and> GOSFS_Get_Path sample_env q [] s1 = Some (0, [SLASH, 0x61], s2)"
proof -
  obtain d g where g: "fs_inv g {}" "used_blocks g = {0, 1}" "root_block g = 1" "fs_blocks g = 8" "new_dir 1 1 (dirs g 1)"
    by (rule sample_mounted)
  note v = sample_vacant [OF g(2-5)]
  have t: "fs_tree g" by (rule fs_tree_new) (use g in simp_all)
  obtain s where s: "made_dir g 1 2 (last sample_path) 2 s" using Create_Directory_made [OF g(1) sample_sane v(2,1)] by blast
  have "fs_inv s {}" using s by (simp add: made_dir_def)
  from get_path_after_lookup [OF this sample_sane v(2) sample_new_name fs_tree_made [OF t sample_new_name v(1) s] made_finds [OF s v(1)]]
  show ?thesis using made_block0(2) [OF s] by auto
qed

end
