(* ===== verification/SysFile.thy ===== *)
theory SysFile
  imports VfsGosfs PfatRead GosfsPath Signal
begin

text \<open>
  The file system calls of \<open>geekos/syscall.c\<close>, with the copies between kernel and user memory of
  \<open>geekos/uservm.c\<close>.

  A call is given the registers of the interrupted program.  The memory is the address space as the
  kernel sees it: a user address is an offset from \<open>USER_BASE_ADDR\<close>, modulo \<open>2 ^ 32\<close>.  \<open>pwd\<close> and
  \<open>fds\<close> are the fields of the context of the current process.
\<close>

section \<open>State\<close>

abbreviation (input) "USER_MAX_FILES \<equiv> 10 :: nat"
abbreviation (input) "BLOCKDEV_MAX_NAME_LEN \<equiv> 15 :: nat"
abbreviation (input) "DIR_ENTRY_STATS \<equiv> 1024 :: u32"
abbreviation (input) "SIZE_STAT \<equiv> 48 :: nat"
abbreviation (input) "SIZE_MOUNT_REQUEST \<equiv> 1056 :: nat"

record regs =
  ebx :: u32
  ecx :: u32
  edx :: u32
  esi :: u32

record sys_state =
  vf :: "fs_world vfs"
  mem :: memory
  fds :: "File option list"
  pwd :: path
  ints :: bool

text \<open>The file systems a call is given, and the operations of an open file.\<close>

record sys_env =
  ve :: vfs_env
  ge :: gosfs_env
  malloc_request :: bool

definition path_env :: "sys_env \<Rightarrow> vfs_env" where
  "path_env E = (ve E)\<lparr>v_pathCap := VFS_MAX_PATH_LEN\<rparr>"

definition ops :: "sys_env \<Rightarrow> sys_state \<Rightarrow> File_Ops \<Rightarrow> fs_world File_Ops_Table" where
  "ops E s = file_ops (ge E) (mount_of (vf s))"

text \<open>A call into the file system is made with interrupts enabled.\<close>

definition intr_on :: "sys_state \<Rightarrow> sys_state kres" where
  "intr_on s = do { KASSERT (\<not> ints s); Some (s\<lparr>ints := True\<rparr>) }"

definition intr_off :: "sys_state \<Rightarrow> sys_state kres" where
  "intr_off s = do { KASSERT (ints s); Some (s\<lparr>ints := False\<rparr>) }"

section \<open>User memory\<close>

definition Copy_From_User :: "u8 list \<Rightarrow> u32 \<Rightarrow> u32 \<Rightarrow> sys_state \<Rightarrow> u8 list kres" where
  "Copy_From_User dest src n s = do {
     KASSERT (\<not> ints s);
     put_bytes dest 0 (load_bytes (mem s) (Get_User_Address src) (unat n)) }"

text \<open>\<open>strcpy\<close> from user memory into an array with \<open>n\<close> bytes left.\<close>

fun user_string :: "memory \<Rightarrow> u32 \<Rightarrow> nat \<Rightarrow> cstr kres" where
  "user_string m a 0 = None"
| "user_string m a (Suc n) = (if m a = 0 then Some [] else do { xs \<leftarrow> user_string m (a + 1) n; Some (m a # xs) })"

definition Copy_String_From_User :: "nat \<Rightarrow> u32 \<Rightarrow> sys_state \<Rightarrow> cstr kres" where
  "Copy_String_From_User cap src s = do {
     KASSERT (\<not> ints s);
     user_string (mem s) (Get_User_Address src) cap }"

definition Copy_To_User :: "u32 \<Rightarrow> u8 list \<Rightarrow> u32 \<Rightarrow> sys_state \<Rightarrow> sys_state kres" where
  "Copy_To_User dest src n s = do {
     xs \<leftarrow> get_bytes src 0 (unat n);
     Some (s\<lparr>mem := store_bytes (mem s) (Get_User_Address dest) xs\<rparr>) }"

text \<open>A path argument: copied into an array of zeros, and read as a string.\<close>

definition path_arg :: "u32 \<Rightarrow> u32 \<Rightarrow> sys_state \<Rightarrow> cstr kres" where
  "path_arg a n s = do {
     xs \<leftarrow> Copy_From_User (replicate VFS_MAX_PATH_LEN 0) a n s;
     string_at xs 0 }"

text \<open>The bytes of a \<open>struct VFS_File_Stat\<close>; the bits of its second word that are no fields stay.\<close>

definition dec_stat :: "u8 list \<Rightarrow> VFS_File_Stat" where
  "dec_stat xs = (let w = le_word (take 4 (drop 4 xs)) in
     \<lparr>st_size = le_word (take 4 xs), isDirectory = ucast w, isSetuid = ucast (drop_bit 1 w), acls = drop 8 xs\<rparr>)"

definition enc_stat :: "u8 list \<Rightarrow> VFS_File_Stat \<Rightarrow> u8 list" where
  "enc_stat old st = (let w = le_word (take 4 (drop 4 old)) in
     le_bytes (st_size st) @
     le_bytes (bf_set 1 1 (ucast (isSetuid st)) (bf_set 0 1 (ucast (isDirectory st)) w)) @ acls st)"

definition user_stat :: "u32 \<Rightarrow> sys_state \<Rightarrow> VFS_File_Stat" where
  "user_stat a s = dec_stat (load_bytes (mem s) a SIZE_STAT)"

definition put_stat :: "u32 \<Rightarrow> VFS_File_Stat \<Rightarrow> sys_state \<Rightarrow> sys_state" where
  "put_stat a st s = s\<lparr>mem := store_bytes (mem s) a (enc_stat (load_bytes (mem s) a SIZE_STAT) st)\<rparr>"

section \<open>Opening and closing\<close>

definition free_fd :: "sys_state \<Rightarrow> nat option" where
  "free_fd s = List.find (\<lambda>i. fds s ! i = None) [0..<USER_MAX_FILES]"

definition open_with ::
  "(cstr \<Rightarrow> fs_world vfs \<Rightarrow> (int \<times> File option \<times> fs_world vfs) kres) \<Rightarrow> u32 \<Rightarrow> u32 \<Rightarrow> sys_state \<Rightarrow> (int \<times> sys_state) kres" where
  "open_with f a n s =
     (case free_fd s of
        None \<Rightarrow> Some (- 1, s)
      | Some fd \<Rightarrow> do {
          p \<leftarrow> path_arg a n s;
          s \<leftarrow> intr_on s;
          (rc, file, v) \<leftarrow> f p (vf s);
          s \<leftarrow> intr_off s;
          let s = s\<lparr>vf := v, fds := (case file of None \<Rightarrow> fds s | Some x \<Rightarrow> (fds s)[fd := Some x])\<rparr>;
          Some (if rc < 0 then rc else int fd, s) })"

definition Sys_Open :: "sys_env \<Rightarrow> regs \<Rightarrow> sys_state \<Rightarrow> (int \<times> sys_state) kres" where
  "Sys_Open E r s = open_with (\<lambda>p. Open (path_env E) (pwd s) p (edx r)) (ebx r) (ecx r) s"

definition Sys_OpenDirectory :: "sys_env \<Rightarrow> regs \<Rightarrow> sys_state \<Rightarrow> (int \<times> sys_state) kres" where
  "Sys_OpenDirectory E r s = open_with (\<lambda>p. Open_Directory (path_env E) (pwd s) p) (ebx r) (ecx r) s"

text \<open>The open file of a descriptor; the descriptor is an index that nothing checks.\<close>

definition fd_file :: "u32 \<Rightarrow> sys_state \<Rightarrow> File kres" where
  "fd_file n s = do { f \<leftarrow> aget (fds s) (unat n); f }"

definition Sys_Close :: "sys_env \<Rightarrow> regs \<Rightarrow> sys_state \<Rightarrow> (int \<times> sys_state) kres" where
  "Sys_Close E r s = do {
     f \<leftarrow> fd_file (ebx r) s;
     (rc, v) \<leftarrow> Close (ops E s) f (vf s);
     Some (rc, s\<lparr>vf := v, fds := (fds s)[unat (ebx r) := None]\<rparr>) }"

section \<open>Open files\<close>

text \<open>The entry and its metadata are stored by the file system, into user memory.\<close>

definition Sys_ReadEntry :: "sys_env \<Rightarrow> regs \<Rightarrow> sys_state \<Rightarrow> (int \<times> sys_state) kres" where
  "Sys_ReadEntry E r s = do {
     f \<leftarrow> fd_file (ebx r) s;
     let a = Get_User_Address (ecx r);
     s \<leftarrow> intr_on s;
     (rc, f, nm, st, v) \<leftarrow> Read_Entry (ops E s) f [] (user_stat (a + DIR_ENTRY_STATS) s) (vf s);
     s \<leftarrow> intr_off s;
     let s = s\<lparr>vf := v, fds := (fds s)[unat (ebx r) := Some f]\<rparr>;
     Some (rc, if rc = 0 then put_stat (a + DIR_ENTRY_STATS) st (s\<lparr>mem := store_bytes (mem s) a (nm @ [0])\<rparr>) else s) }"

definition Sys_Write :: "sys_env \<Rightarrow> regs \<Rightarrow> sys_state \<Rightarrow> (int \<times> sys_state) kres" where
  "Sys_Write E r s = do {
     f \<leftarrow> fd_file (ebx r) s;
     (rc, f, v) \<leftarrow> Write (ops E s) f (load_bytes (mem s) (Get_User_Address (ecx r)) (unat (edx r))) (vf s);
     Some (rc, s\<lparr>vf := v, fds := (fds s)[unat (ebx r) := Some f]\<rparr>) }"

section \<open>Paths\<close>

definition Sys_Delete :: "sys_env \<Rightarrow> regs \<Rightarrow> sys_state \<Rightarrow> (int \<times> sys_state) kres" where
  "Sys_Delete E r s = do {
     p \<leftarrow> path_arg (ebx r) (ecx r) s;
     s \<leftarrow> intr_on s;
     (rc, v) \<leftarrow> Delete (path_env E) (pwd s) p (vf s);
     s \<leftarrow> intr_off s;
     Some (rc, s\<lparr>vf := v\<rparr>) }"

definition Sys_CreateDir :: "sys_env \<Rightarrow> regs \<Rightarrow> sys_state \<Rightarrow> (int \<times> sys_state) kres" where
  "Sys_CreateDir E r s = do {
     p \<leftarrow> path_arg (ebx r) (ecx r) s;
     s \<leftarrow> intr_on s;
     (rc, v) \<leftarrow> Create_Directory (path_env E) (pwd s) p (vf s);
     s \<leftarrow> intr_off s;
     Some (rc, s\<lparr>vf := v\<rparr>) }"

definition Sys_Stat :: "sys_env \<Rightarrow> regs \<Rightarrow> sys_state \<Rightarrow> (int \<times> sys_state) kres" where
  "Sys_Stat E r s = do {
     p \<leftarrow> path_arg (ebx r) (ecx r) s;
     let a = Get_User_Address (edx r);
     s \<leftarrow> intr_on s;
     (rc, st, v) \<leftarrow> Stat (path_env E) (pwd s) p (user_stat a s) (vf s);
     s \<leftarrow> intr_off s;
     let s = s\<lparr>vf := v\<rparr>;
     Some (rc, if rc = 0 then put_stat a st s else s) }"

definition Sys_GetCwd :: "sys_env \<Rightarrow> regs \<Rightarrow> sys_state \<Rightarrow> (int \<times> sys_state) kres" where
  "Sys_GetCwd E r s = do {
     s \<leftarrow> intr_on s;
     (rc, spath, v) \<leftarrow> Get_Path (pwd s) (vf s);
     s \<leftarrow> intr_off s;
     spath \<leftarrow> put_bytes (replicate VFS_MAX_PATH_LEN 0) 0 (spath @ [0]);
     s \<leftarrow> Copy_To_User (ebx r) spath (ecx r) (s\<lparr>vf := v\<rparr>);
     Some (rc, s) }"

text \<open>The entry of the old current directory is freed, whoever else refers to it.\<close>

definition Sys_ChangeDir :: "sys_env \<Rightarrow> regs \<Rightarrow> sys_state \<Rightarrow> (int \<times> sys_state) kres" where
  "Sys_ChangeDir E r s = do {
     p \<leftarrow> Copy_String_From_User VFS_MAX_PATH_LEN (ebx r) s;
     let old = dentry_ptr (pwd s);
     s \<leftarrow> intr_on s;
     (rc, cwd, v) \<leftarrow> Lookup (path_env E) (pwd s) p (pwd s) (vf s);
     s \<leftarrow> intr_off s;
     let s = s\<lparr>vf := v, pwd := cwd\<rparr>;
     Some (rc, if rc < 0 then s else s\<lparr>vf := (vf s)\<lparr>dentries := (dentries (vf s))(old := None)\<rparr>\<rparr>) }"

section \<open>Devices\<close>

definition chars :: "cstr \<Rightarrow> string" where
  "chars xs = List.map (\<lambda>b. char_of (unat b)) xs"

text \<open>The strings of a request run on into what follows them if they are not terminated.\<close>

definition Sys_Mount :: "sys_env \<Rightarrow> regs \<Rightarrow> sys_state \<Rightarrow> (int \<times> sys_state) kres" where
  "Sys_Mount E r s =
     (if \<not> malloc_request E then Some (ENOMEM, s)
      else do {
        args \<leftarrow> Copy_From_User (replicate SIZE_MOUNT_REQUEST 0) (ebx r) (of_nat SIZE_MOUNT_REQUEST) s;
        devname \<leftarrow> string_at args 0;
        prefix \<leftarrow> string_at args (BLOCKDEV_MAX_NAME_LEN + 1);
        fstype \<leftarrow> string_at args (BLOCKDEV_MAX_NAME_LEN + 1 + VFS_MAX_PATH_LEN + 1);
        s \<leftarrow> intr_on s;
        (rc, v) \<leftarrow> Mount (ve E) (chars devname) prefix fstype (vf s);
        s \<leftarrow> intr_off s;
        Some (rc, s\<lparr>vf := v\<rparr>) })"

definition Sys_Format :: "sys_env \<Rightarrow> regs \<Rightarrow> sys_state \<Rightarrow> (int \<times> sys_state) kres" where
  "Sys_Format E r s = do {
     xs \<leftarrow> Copy_From_User (replicate BLOCKDEV_MAX_NAME_LEN 0) (ebx r) (ecx r) s;
     devname \<leftarrow> string_at xs 0;
     xs \<leftarrow> Copy_From_User (replicate VFS_MAX_FS_NAME_LEN 0) (edx r) (esi r) s;
     fstype \<leftarrow> string_at xs 0;
     s \<leftarrow> intr_on s;
     (rc, v) \<leftarrow> Format (ve E) (chars devname) fstype (vf s);
     s \<leftarrow> intr_off s;
     Some (rc, s\<lparr>vf := v\<rparr>) }"

section \<open>Arguments\<close>

text \<open>User memory holds a string at a user address.\<close>

definition holds_string :: "memory \<Rightarrow> u32 \<Rightarrow> cstr \<Rightarrow> bool" where
  "holds_string m a xs \<longleftrightarrow> 0 \<notin> set xs \<and> load_bytes m (Get_User_Address a) (Suc (length xs)) = xs @ [0]"

lemma user_string_ok:
  "0 \<notin> set xs \<Longrightarrow> load_bytes m a (Suc (length xs)) = xs @ [0] \<Longrightarrow> length xs < n \<Longrightarrow> user_string m a n = Some xs"
proof (induction xs arbitrary: a n)
  case Nil
  then show ?case by (cases n) simp_all
next
  case (Cons x xs)
  then obtain k where "n = Suc k" by (cases n) auto
  with Cons show ?case by simp
qed

lemma Copy_String_ok:
  "holds_string (mem s) a xs \<Longrightarrow> length xs < cap \<Longrightarrow> \<not> ints s \<Longrightarrow> Copy_String_From_User cap a s = Some xs"
  by (simp add: Copy_String_From_User_def holds_string_def user_string_ok del: load_bytes.simps)

lemma takeWhile_nonzero: "0 \<notin> set xs \<Longrightarrow> takeWhile (\<lambda>b. b \<noteq> 0) (xs @ 0 # ys) = (xs :: u8 list)"
  by (induction xs) auto

text \<open>The callers pass the length of the string without its end.\<close>

lemma path_arg_ok:
  assumes h: "holds_string (mem s) a xs" and n: "unat n = length xs" and len: "length xs < VFS_MAX_PATH_LEN" and i: "\<not> ints s"
  shows "path_arg a n s = Some xs"
proof -
  have "load_bytes (mem s) (Get_User_Address a) (length xs + 1) = xs @ [0]" using h by (simp add: holds_string_def)
  then have l: "load_bytes (mem s) (Get_User_Address a) (length xs) = xs"
    unfolding load_bytes_append by simp
  obtain k where k: "VFS_MAX_PATH_LEN - length xs = Suc k" using len by (cases "VFS_MAX_PATH_LEN - length xs") auto
  have "put_bytes (replicate VFS_MAX_PATH_LEN 0) 0 xs = Some (xs @ 0 # replicate k 0)"
    using len k by (simp add: put_bytes_def)
  then have "Copy_From_User (replicate VFS_MAX_PATH_LEN 0) a n s = Some (xs @ 0 # replicate k 0)"
    using i n l by (simp add: Copy_From_User_def)
  moreover have "0 \<notin> set xs" using h by (simp add: holds_string_def)
  ultimately show ?thesis by (simp add: path_arg_def string_at_def takeWhile_nonzero)
qed

section \<open>The current directory\<close>

lemma Get_Path_at:
  assumes m: "mounted_at G s d n g" and p: "strings s (pathPrefix p) = d" "dentries s (dentry_ptr p) = Some (GosfsDentry q)"
  shows "Get_Path p s = map_option (\<lambda>(rc, rest, g'). (rc, SLASH # d @ rest, with_inst n g' s)) (GOSFS_Get_Path G q [] g)"
proof -
  obtain i mp where mp: "Lookup_Mount_Point d s = Some (i, mp)" "mp_ops mp = s_gosfsMountPointOps G" "mp_fsData mp = n"
    using m by (auto simp: mounted_at_def)
  show ?thesis
    by (cases "GOSFS_Get_Path G q [] g") (auto simp: Get_Path_def p mp s_gosfsMountPointOps_def onw_inst(2) [OF m] Let_def)
qed

text \<open>The current directory is \<open>cs\<close> on the file system mounted at \<open>d\<close>.\<close>

definition cwd_at :: "gosfs_env \<Rightarrow> sys_state \<Rightarrow> cstr \<Rightarrow> nat \<Rightarrow> GOSFS_Instance \<Rightarrow> cstr list \<Rightarrow> bool" where
  "cwd_at G s d n g cs \<longleftrightarrow> mounted_at G (vf s) d n g \<and> fs_inv g {} \<and> fs_tree g \<and> good_path cs \<and> (\<forall>c\<in>set cs. new_name c) \<and>
     strings (vf s) (pathPrefix (pwd s)) = d \<and>
     (\<exists>p i. outcome_of g cs = Found p i \<and> is_dir (dirs g p ! i) \<and>
        dentries (vf s) (dentry_ptr (pwd s)) = Some (GosfsDentry \<lparr>de_base = p, de_offset = int i\<rparr>))"

lemma cwd_path:
  assumes c: "cwd_at G s d n g cs" and G: "sane_env G"
  shows "\<exists>g'. Get_Path (pwd s) (vf s) = Some (0, join (d # cs), with_inst n g' (vf s)) \<and> same_blocks g g'"
proof -
  obtain p i where o: "outcome_of g cs = Found p i" "is_dir (dirs g p ! i)"
    "dentries (vf s) (dentry_ptr (pwd s)) = Some (GosfsDentry \<lparr>de_base = p, de_offset = int i\<rparr>)" using c by (auto simp: cwd_at_def)
  have C: "mounted_at G (vf s) d n g" "fs_inv g {}" "fs_tree g" "\<forall>c\<in>set cs. new_name c" "strings (vf s) (pathPrefix (pwd s)) = d"
    using c by (simp_all add: cwd_at_def)
  obtain g' where "GOSFS_Get_Path G \<lparr>de_base = p, de_offset = int i\<rparr> [] g = Some (0, join cs, g')" "same_blocks g g'"
    using Get_Path_back [OF C(2) _ C(3,4) o(1,2)] sane_envD [OF G] by blast
  with Get_Path_at [OF C(1,5) o(3)] show ?thesis by auto
qed

lemma Sys_ChangeDir_ok:
  assumes m: "mounted_at (ge E) (vf s) d n g" and g: "fs_inv g {}" "sane_env (ge E)" "fs_tree g" "good_path cs" "\<forall>c\<in>set cs. new_name c"
    and f: "outcome_of g cs = Found p i" "is_dir (dirs g p ! i)"
    and arg: "holds_string (mem s) (ebx r) (join (d # cs))" "length (join (d # cs)) < VFS_MAX_PATH_LEN" "\<not> ints s"
    and env: "length d < v_prefixCap (ve E)" "v_newDentry (ve E) \<noteq> dentry_ptr (pwd s)"
  shows "\<exists>s' g'. Sys_ChangeDir E r s = Some (0, s') \<and> cwd_at (ge E) s' d n g' cs \<and> same_blocks g g' \<and> mem s' = mem s \<and> \<not> ints s'"
proof -
  have cs: "cs \<noteq> []" using f(1) resolve_FoundD by (auto simp: outcome_of_def)
  then have j: "join_or_root cs = join cs" by (simp add: join_or_root_def)
  obtain g' where g': "GOSFS_Lookup (ge E) (join cs) g = Some (0, Some \<lparr>de_base = p, de_offset = int i\<rparr>, g')" "same_blocks g g'"
    using Lookup_Found [OF g(1,2,4) f(1)] by blast
  note S = same_blocks_simps [OF g'(2)]
  let ?q = "\<lparr>de_base = p, de_offset = int i\<rparr>" and ?new = "v_newDentry (ve E)" and ?old = "dentry_ptr (pwd s)"
  define v where "v = (with_inst n g' (vf s))\<lparr>strings := (strings (vf s))(pathPrefix (pwd s) := d), dentries := (dentries (vf s))(?new := Some (GosfsDentry ?q))\<rparr>"
  have lk: "Lookup (path_env E) (pwd s) (join (d # cs)) (pwd s) (vf s) = Some (0, (pwd s)\<lparr>dentry_ptr := ?new\<rparr>, v)"
    using Lookup_at [OF m, of "path_env E" "pwd s" cs "pwd s"] env(1) g'(1)
    by (simp add: path_env_def j Let_def v_def with_inst_def del: join_simps)
  define s' where "s' = s\<lparr>vf := v\<lparr>dentries := (dentries v)(?old := None)\<rparr>, pwd := (pwd s)\<lparr>dentry_ptr := ?new\<rparr>\<rparr>"
  have "Sys_ChangeDir E r s = Some (0, s')"
    using Copy_String_ok [OF arg] lk arg(3) by (simp add: Sys_ChangeDir_def intr_on_def intr_off_def Let_def s'_def del: join_simps)
  moreover have "mounted_at (ge E) (vf s') d n g'"
    using m by (simp add: s'_def v_def mounted_at_def with_inst_def)
  then have "cwd_at (ge E) s' d n g' cs"
    using S g(3) fs_tree_same [OF g'(2)] g(4,5) f env(2) unfolding cwd_at_def
    by (auto simp: s'_def v_def outcome_of_def)
  ultimately show ?thesis using g'(2) arg(3) by (auto simp: s'_def)
qed

lemma load_bytes_take: "k \<le> n \<Longrightarrow> load_bytes m a k = take k (load_bytes m a n)"
  using load_bytes_append [of m a k "n - k"] by simp

lemma Sys_GetCwd_ok:
  assumes c: "cwd_at (ge E) s d n g cs" and E: "sane_env (ge E)" and i: "\<not> ints s" and z: "0 \<notin> set d"
    and r: "length (join (d # cs)) < unat (ecx r)" "unat (ecx r) \<le> VFS_MAX_PATH_LEN"
  shows "\<exists>s' g'. Sys_GetCwd E r s = Some (0, s') \<and> holds_string (mem s') (ebx r) (join (d # cs)) \<and>
    vf s' = with_inst n g' (vf s) \<and> same_blocks g g'"
proof -
  let ?p = "join (d # cs)" and ?a = "Get_User_Address (ebx r)" and ?n = "unat (ecx r)"
  obtain g' where g': "Get_Path (pwd s) (vf s) = Some (0, ?p, with_inst n g' (vf s))" "same_blocks g g'" using cwd_path [OF c E] by blast
  let ?buf = "?p @ 0 # replicate (VFS_MAX_PATH_LEN - Suc (length ?p)) 0"
  have "put_bytes (replicate VFS_MAX_PATH_LEN 0) 0 (?p @ [0]) = Some ?buf" using r by (simp add: put_bytes_def del: join_simps)
  moreover have "get_bytes ?buf 0 ?n = Some (take ?n ?buf)" using r by (simp add: get_bytes_def del: join_simps)
  ultimately have "Sys_GetCwd E r s = Some (0, s\<lparr>vf := with_inst n g' (vf s), mem := store_bytes (mem s) ?a (take ?n ?buf), ints := False\<rparr>)"
    using i g'(1) by (simp add: Sys_GetCwd_def Copy_To_User_def intr_on_def intr_off_def del: join_simps)
  moreover have "holds_string (store_bytes (mem s) ?a (take ?n ?buf)) (ebx r) ?p"
  proof -
    have l: "length (take ?n ?buf) = ?n" using r by (simp del: join_simps)
    have "load_bytes (store_bytes (mem s) ?a (take ?n ?buf)) ?a ?n = take ?n ?buf"
      using load_store_same [of "take ?n ?buf" "mem s" ?a] r unfolding l by (simp del: join_simps)
    then have "load_bytes (store_bytes (mem s) ?a (take ?n ?buf)) ?a (Suc (length ?p)) = take (Suc (length ?p)) (take ?n ?buf)"
      using load_bytes_take [of "Suc (length ?p)" ?n] r(1) by (simp del: join_simps load_bytes.simps)
    also have "\<dots> = ?p @ [0]" using r(1) by (simp add: min_absorb1 del: join_simps)
    finally have "load_bytes (store_bytes (mem s) ?a (take ?n ?buf)) ?a (Suc (length ?p)) = ?p @ [0]" .
    moreover have "0 \<notin> set ?p" using c z by (auto simp: cwd_at_def good_path_def join_def)
    ultimately show ?thesis by (simp add: holds_string_def del: join_simps)
  qed
  ultimately show ?thesis using g'(2) by auto
qed

text \<open>A relative path is the path below the current directory.\<close>

lemma resolve_relative:
  assumes c: "cwd_at (ge E) s d n g cs" and E: "sane_env (ge E)" "v_strdup V" and x: "good_name x" and l: "length (join (d # cs @ [x])) < v_pathCap V"
  shows "\<exists>g'. resolve_mount V (pwd s) x (vf s) = resolve_mount V (pwd s) (join (d # cs @ [x])) (with_inst n g' (vf s)) \<and> same_blocks g g'"
proof -
  obtain g' where g': "Get_Path (pwd s) (vf s) = Some (0, join (d # cs), with_inst n g' (vf s))" "same_blocks g g'" using cwd_path [OF c E(1)] by blast
  have nx: "\<not> (x \<noteq> [] \<and> hd x = SLASH)" using x by (cases x) (auto simp: good_name_def)
  have j: "join (d # cs) @ SLASH # x = join (d # cs @ [x])" "hd (join (d # cs @ [x])) = SLASH" "join (d # cs @ [x]) \<noteq> []" by simp_all
  have "Convert_To_Abs_Path V (pwd s) x (vf s) = Some (join (d # cs @ [x]), with_inst n g' (vf s))"
    using g'(1) E(2) l by (simp add: Convert_To_Abs_Path_def j(1) del: join_simps)
  then show ?thesis using nx j(2,3) g'(2) by (auto simp: resolve_mount_def simp del: join_simps)
qed

lemma CreateDir_relative:
  assumes c: "cwd_at (ge E) s d n g cs" and E: "sane_env (ge E)" "v_strdup V" and x: "good_name x" and l: "length (join (d # cs @ [x])) < v_pathCap V"
  shows "\<exists>g'. same_blocks g g' \<and> mounted_at (ge E) (with_inst n g' (vf s)) d n g' \<and>
    Create_Directory V (pwd s) x (vf s) = Create_Directory V (pwd s) (join (d # cs @ [x])) (with_inst n g' (vf s))"
proof -
  obtain g' where "resolve_mount V (pwd s) x (vf s) = resolve_mount V (pwd s) (join (d # cs @ [x])) (with_inst n g' (vf s))" "same_blocks g g'"
    using resolve_relative [OF assms] by blast
  moreover have "mounted_at (ge E) (with_inst n g' (vf s)) d n g'" using c mounted_at_with by (auto simp: cwd_at_def)
  ultimately show ?thesis by (auto simp: Create_Directory_def simp del: join_simps)
qed

section \<open>Properties\<close>


text \<open>Relative paths: making a directory by its name alone makes it below the current directory, which
  stays what it was.\<close>

theorem relative_mkdir:
  assumes "cwd_at (ge E) s d n g cs" "sane_env (ge E)" "v_strdup (ve E)" "vacant g (cs @ [x]) p i k" "good_path (cs @ [x])" "new_name x"
    and "length (join (d # cs @ [x])) < VFS_MAX_PATH_LEN"
    and "holds_string (mem s) (ebx r) x" "unat (ecx r) = length x" "\<not> ints s"
  shows "\<exists>s' g'. Sys_CreateDir E r s = Some (0, s') \<and> cwd_at (ge E) s' d n g' cs \<and> gosfs_found g' (cs @ [x])"
proof -
  have c: "fs_inv g {}" "fs_tree g" "good_path cs" "\<forall>c\<in>set cs. new_name c" using assms(1) by (simp_all add: cwd_at_def)
  have x: "good_name x" using assms(6) by (simp add: new_name_def)
  obtain g1 where g1: "same_blocks g g1" "mounted_at (ge E) (with_inst n g1 (vf s)) d n g1"
    "Create_Directory (path_env E) (pwd s) x (vf s) = Create_Directory (path_env E) (pwd s) (join (d # cs @ [x])) (with_inst n g1 (vf s))"
    using CreateDir_relative [OF assms(1,2) _ x, of "path_env E"] assms(3,7) by (auto simp: path_env_def simp del: join_simps)
  note S = same_blocks_simps [OF g1(1)]
  have v1: "vacant g1 (cs @ [x]) p i k" using assms(4) S by (simp add: vacant_def outcome_of_def next_block_def fs_blocks_def)
  obtain g2 where g2: "GOSFS_Create_Directory (ge E) (join (cs @ [x])) g1 = Some (0, g2)" "made_dir g1 p i x k g2"
    using Create_Directory_made [OF S(1) assms(2,5) v1] by auto
  let ?v = "with_inst n g2 (with_inst n g1 (vf s))"
  have cd: "Create_Directory (path_env E) (pwd s) x (vf s) = Some (0, ?v)"
    unfolding g1(3) Create_Directory_at [OF g1(2)] using g2(1) by (simp add: join_or_root_def del: join_simps)
  have "length x < VFS_MAX_PATH_LEN" using x by (simp add: good_name_def)
  from path_arg_ok [OF assms(8,9) this assms(10)] have "Sys_CreateDir E r s = Some (0, s\<lparr>vf := ?v, ints := False\<rparr>)"
    using cd assms(10) by (simp add: Sys_CreateDir_def intr_on_def intr_off_def)
  moreover have "gosfs_found g2 (cs @ [x])"
    using made_finds [of g1 p i "cs @ [x]" k g2] g2(2) v1 assms(5) by (simp add: gosfs_found_def)
  moreover have "cwd_at (ge E) (s\<lparr>vf := ?v, ints := False\<rparr>) d n g2 cs"
  proof -
    obtain q j where o: "outcome_of g cs = Found q j" "is_dir (dirs g q ! j)"
      "dentries (vf s) (dentry_ptr (pwd s)) = Some (GosfsDentry \<lparr>de_base = q, de_offset = int j\<rparr>)" using assms(1) by (auto simp: cwd_at_def)
    have o1: "outcome_of g1 cs = Found q j" using o(1) S by (simp add: outcome_of_def)
    have m2: "made_dir g1 p i (last (cs @ [x])) k g2" using g2(2) by simp
    note V = vacantD [OF v1]
    have t1: "fs_tree g1" using c(2) fs_tree_same [OF g1(1)] by simp
    have "is_dir (dirs g2 q ! j)"
    proof -
      have q: "q \<noteq> 0" "small q" "unat q \<in> used_blocks g1" using resolve_FoundD [OF o1 [unfolded outcome_of_def]] by (auto simp: dir_ok_def)
      obtain e where "dirs g2 q = (if q = p then (dirs g1 p)[i := e] else dirs g1 q)" "dir_entry x (of_nat k) e"
        using made_dirs [OF m2 v1] q by auto
      then show ?thesis using o(2) S(3) V(5) by (cases "q = p"; cases "j = i") (auto simp: dir_entry_def dirs_def)
    qed
    moreover have "fs_tree g2" by (rule fs_tree_made [OF t1 _ v1 m2]) (use c(4) assms(6) in auto)
    moreover have "fs_inv g2 {}" using g2(2) by (simp add: made_dir_def)
    moreover have "mounted_at (ge E) ?v d n g2" by (rule mounted_at_with [OF g1(2)])
    moreover have "strings ?v = strings (vf s)" "dentries ?v = dentries (vf s)" by (simp_all add: with_inst_def)
    ultimately show ?thesis using made_keeps_paths [OF m2 v1 o1] o(3) assms(1) by (auto simp: cwd_at_def)
  qed
  ultimately show ?thesis by blast
qed

lemma free_fd_cases:
  assumes "length (fds s) = USER_MAX_FILES"
  shows "(free_fd s = None \<and> None \<notin> set (fds s)) \<or>
    (\<exists>i. free_fd s = Some i \<and> i < USER_MAX_FILES \<and> fds s ! i = None \<and> (\<forall>j < i. fds s ! j \<noteq> None))"
proof (cases "free_fd s")
  case None
  then have "fds s ! i \<noteq> None" if "i < USER_MAX_FILES" for i using that by (auto simp: free_fd_def find_None_iff)
  then have "None \<notin> set (fds s)" using assms by (metis in_set_conv_nth)
  with None show ?thesis by simp
next
  case (Some i)
  then have "i < USER_MAX_FILES \<and> fds s ! i = None \<and> (\<forall>j < i. fds s ! j \<noteq> None)" by (auto simp: free_fd_def find_Some_iff)
  with Some show ?thesis by blast
qed

lemma Close_total: "\<exists>rc v'. Close (file_ops G mt) f v = Some (rc, v')"
  by (cases "f_ops f") (simp_all add: Close_def gosfs_file_ops_def gosfs_dir_ops_def pfat_file_ops_def pfat_dir_ops_def onw_def)

text \<open>File descriptors: opening a file returns the least free index of the table, which is below its size,
  and stores the file there and nowhere else; closing it restores the table; with no index free the
  call fails without doing anything.\<close>

theorem descriptors_open_close:
  assumes "length (fds s) = USER_MAX_FILES" "\<not> ints s" "path_arg (ebx r) (ecx r) s = Some p"
    and "Open (path_env E) (pwd s) p (edx r) (vf s) = Some (0, Some f, v)"
  shows "if None \<notin> set (fds s) then Sys_Open E r s = Some (- 1, s)
    else \<exists>i s1. i < USER_MAX_FILES \<and> fds s ! i = None \<and> (\<forall>j < i. fds s ! j \<noteq> None) \<and>
      Sys_Open E r s = Some (int i, s1) \<and> fds s1 = (fds s)[i := Some f] \<and> vf s1 = v \<and>
      (\<forall>r'. ebx r' = of_nat i \<longrightarrow> (\<exists>rc s2. Sys_Close E r' s1 = Some (rc, s2) \<and> fds s2 = fds s))"
proof (cases "free_fd s")
  case None
  then show ?thesis using free_fd_cases [OF assms(1)] by (auto simp: Sys_Open_def open_with_def)
next
  case (Some i)
  then have i: "i < USER_MAX_FILES" "fds s ! i = None" "\<forall>j < i. fds s ! j \<noteq> None" using free_fd_cases [OF assms(1)] by auto
  have len: "i < length (fds s)" using i(1) assms(1) by simp
  then have n: "None \<in> set (fds s)" using i(2) nth_mem by metis
  define s1 where "s1 = s\<lparr>vf := v, fds := (fds s)[i := Some f], ints := False\<rparr>"
  have o: "Sys_Open E r s = Some (int i, s1)"
    using Some assms(2-4) by (simp add: Sys_Open_def open_with_def intr_on_def intr_off_def s1_def)
  have "\<exists>rc s2. Sys_Close E r' s1 = Some (rc, s2) \<and> fds s2 = fds s" if "ebx r' = of_nat i" for r'
  proof -
    have u: "unat (ebx r') = i" using that i(1) by (simp add: unsigned_of_nat take_bit_nat_eq_self)
    obtain rc v' where "Close (ops E s1) f (vf s1) = Some (rc, v')" using Close_total unfolding ops_def by blast
    then have "Sys_Close E r' s1 = Some (rc, s1\<lparr>vf := v', fds := (fds s1)[i := None]\<rparr>)"
      using u len by (simp add: Sys_Close_def fd_file_def s1_def)
    moreover have "(fds s1)[i := None] = fds s" using i(2) by (simp add: s1_def list_update_same_conv len)
    ultimately show ?thesis by simp
  qed
  then show ?thesis using n i o by (auto simp: s1_def)
qed

text \<open>The pointers a program passes are not checked: an address above the user's half wraps around, and
  \<open>Sys_GetCwd\<close> stores a string the program has chosen anywhere in the kernel's memory.\<close>

theorem getcwd_writes_anywhere:
  assumes "cwd_at (ge E) s d n g cs" "sane_env (ge E)" "\<not> ints s" "0 \<notin> set d"
    and "length (join (d # cs)) < unat (ecx r)" "unat (ecx r) \<le> VFS_MAX_PATH_LEN" "ebx r = a - USER_BASE_ADDR"
  shows "\<exists>s'. Sys_GetCwd E r s = Some (0, s') \<and> load_bytes (mem s') a (Suc (length (join (d # cs)))) = join (d # cs) @ [0]"
proof -
  have "Get_User_Address (ebx r) = a" using assms(7) by (simp add: Get_User_Address_def)
  then show ?thesis using Sys_GetCwd_ok [OF assms(1-6)] by (auto simp: holds_string_def simp del: load_bytes.simps join_simps)
qed

section \<open>Examples\<close>

text \<open>A program whose memory holds the strings \<open>/d/a\<close> and \<open>b\<close>.\<close>

definition sample_mem :: memory where
  "sample_mem = store_bytes (store_bytes (\<lambda>_. 0) 0x80000000 [SLASH, 0x64, SLASH, 0x61]) 0x80000100 [0x62]"

definition sample_sys :: "GOSFS_Instance \<Rightarrow> sys_state" where
  "sample_sys g = \<lparr>vf = sample_vfs g, mem = sample_mem, fds = replicate USER_MAX_FILES None,
     pwd = \<lparr>pathPrefix = 0x6000, dentry_ptr = 0x7000\<rparr>, ints = False\<rparr>"

definition sample_sys_env :: sys_env where
  "sample_sys_env = \<lparr>ve = sample_vfs_env, ge = sample_env, malloc_request = True\<rparr>"

definition sample_regs :: "u32 \<Rightarrow> u32 \<Rightarrow> regs" where
  "sample_regs a n = \<lparr>ebx = a, ecx = n, edx = 0, esi = 0\<rparr>"

lemma sample_strings:
  "holds_string sample_mem 0 (join ([0x64] # sample_path))" "holds_string sample_mem 0x100 [0x62]"
  by (simp_all add: holds_string_def sample_mem_def Get_User_Address_def)

lemma sample_fs:
  obtains g where "fs_inv g {}" "fs_tree g" "outcome_of g sample_path = Found 1 2" "is_dir (dirs g 1 ! 2)"
    "vacant g (sample_path @ [[0x62]]) 2 2 3" "good_path (sample_path @ [[0x62]])"
proof -
  obtain d g where g: "fs_inv g {}" "used_blocks g = {0, 1}" "root_block g = 1" "fs_blocks g = 8" "new_dir 1 1 (dirs g 1)"
    by (rule sample_mounted)
  note v = sample_vacant [OF g(2-5)]
  have t: "fs_tree g" by (rule fs_tree_new) (use g in simp_all)
  obtain s where s: "made_dir g 1 2 (last sample_path) 2 s" using Create_Directory_made [OF g(1) sample_sane v(2,1)] by blast
  have u: "used_blocks s = {0, 1, 2}" "fs_blocks s = 8" "fs_inv s {}" using s g(2,4) by (auto simp: made_dir_def)
  have "{..<3 :: nat} = {0, 1, 2}" by auto
  then have nb: "next_block s 3" using u by (simp add: next_block_def)
  have nn: "new_name [0x62]" by (simp add: new_name_def good_name_def)
  have "vacant s (sample_path @ [[0x62]]) 2 2 3" using made_inside [OF s v(1) nn] nb by (simp add: vacant_def)
  moreover have "good_path (sample_path @ [[0x62]])" by (simp add: good_path_def good_name_def)
  ultimately show thesis using that u(3) fs_tree_made [OF t sample_new_name v(1) s] made_finds [OF s v(1)] made_block0(2) [OF s] by simp
qed


lemma relative_mkdir_witness:
  "\<exists>s s' g'. Sys_CreateDir sample_sys_env (sample_regs 0x100 1) s = Some (0, s') \<and> gosfs_found g' [[0x61], [0x62]] \<and>
    cwd_at sample_env s' [0x64] 0 g' sample_path"
proof -
  obtain g where g: "fs_inv g {}" "fs_tree g" "outcome_of g sample_path = Found 1 2" "is_dir (dirs g 1 ! 2)"
    "vacant g (sample_path @ [[0x62]]) 2 2 3" "good_path (sample_path @ [[0x62]])" by (rule sample_fs)
  have m: "mounted_at (ge sample_sys_env) (vf (sample_sys g)) [0x64] 0 g" using sample_mounted_at by (simp add: sample_sys_env_def sample_sys_def)
  have gp: "good_path sample_path" by (simp add: good_path_def good_name_def)
  obtain s1 g1 where s1: "cwd_at (ge sample_sys_env) s1 [0x64] 0 g1 sample_path" "same_blocks g g1" "mem s1 = sample_mem" "\<not> ints s1"
    using Sys_ChangeDir_ok [where r = "sample_regs 0 0", OF m g(1) _ g(2) gp sample_new_name g(3,4)] sample_sane sample_strings(1)
    by (auto simp: sample_sys_env_def sample_sys_def sample_regs_def sample_vfs_env_def)
  have v: "vacant g1 (sample_path @ [[0x62]]) 2 2 3"
    using g(5) same_blocks_simps [OF s1(2)] by (simp add: vacant_def outcome_of_def next_block_def fs_blocks_def)
  show ?thesis
    using relative_mkdir [where r = "sample_regs 0x100 1", OF s1(1) _ _ v g(6)] sample_sane sample_strings(2) s1(3,4)
    by (auto simp: sample_sys_env_def sample_regs_def sample_vfs_env_def new_name_def good_name_def)
qed

lemma getcwd_writes_anywhere_witness:
  "\<exists>s s'. Sys_GetCwd sample_sys_env (sample_regs 0x80000100 32) s = Some (0, s') \<and> load_bytes (mem s') 0x100 5 = [SLASH, 0x64, SLASH, 0x61, 0]"
proof -
  obtain g where g: "fs_inv g {}" "fs_tree g" "outcome_of g sample_path = Found 1 2" "is_dir (dirs g 1 ! 2)" by (rule sample_fs)
  have m: "mounted_at (ge sample_sys_env) (vf (sample_sys g)) [0x64] 0 g" using sample_mounted_at by (simp add: sample_sys_env_def sample_sys_def)
  have gp: "good_path sample_path" by (simp add: good_path_def good_name_def)
  obtain s1 g1 where s1: "cwd_at (ge sample_sys_env) s1 [0x64] 0 g1 sample_path" "\<not> ints s1"
    using Sys_ChangeDir_ok [where r = "sample_regs 0 0", OF m g(1) _ g(2) gp sample_new_name g(3,4)] sample_sane sample_strings(1)
    by (auto simp: sample_sys_env_def sample_sys_def sample_regs_def sample_vfs_env_def)
  have l: "Suc (length (join ([0x64] # sample_path))) = 5" "join ([0x64] # sample_path) @ [0] = [SLASH, 0x64, SLASH, 0x61, 0]" by simp_all
  have c: "sane_env (ge sample_sys_env)" "0 \<notin> set [0x64 :: u8]" "length (join ([0x64] # sample_path)) < unat (ecx (sample_regs 0x80000100 32))"
    "unat (ecx (sample_regs 0x80000100 32)) \<le> VFS_MAX_PATH_LEN" "ebx (sample_regs 0x80000100 32) = 0x100 - USER_BASE_ADDR"
    using sample_sane by (simp_all add: sample_sys_env_def sample_regs_def)
  from getcwd_writes_anywhere [OF s1(1) c(1) s1(2) c(2-5)] show ?thesis unfolding l by blast
qed

text \<open>The program opens the file of the other example, \<open>/p/a\<close>.\<close>

definition sample_sys_pfat :: sys_state where
  "sample_sys_pfat = \<lparr>vf = sample_pfat_vfs, mem = store_bytes (\<lambda>_. 0) 0x80000000 [SLASH, 0x70, SLASH, 0x61],
     fds = replicate USER_MAX_FILES None, pwd = \<lparr>pathPrefix = 0, dentry_ptr = 0\<rparr>, ints = False\<rparr>"

lemma descriptors_open_close_witness:
  "\<exists>s1. Sys_Open sample_sys_env ((sample_regs 0 4)\<lparr>edx := O_READ\<rparr>) sample_sys_pfat = Some (0, s1) \<and>
    (\<exists>rc s2. Sys_Close sample_sys_env (sample_regs 0 0) s1 = Some (rc, s2) \<and> fds s2 = replicate USER_MAX_FILES None)"
proof -
  let ?r = "(sample_regs 0 4)\<lparr>edx := O_READ\<rparr>" and ?s = sample_sys_pfat
  have h: "holds_string (mem ?s) (ebx ?r) (join [[0x70], [0x61]])"
    by (simp add: holds_string_def sample_sys_pfat_def sample_regs_def Get_User_Address_def)
  have p: "path_arg (ebx ?r) (ecx ?r) ?s = Some (join [[0x70], [0x61]])"
    by (rule path_arg_ok [OF h]) (simp_all add: sample_regs_def sample_sys_pfat_def)
  obtain f v where "Open (path_env sample_sys_env) (pwd ?s) (join [[0x70], [0x61]]) O_READ sample_pfat_vfs = Some (0, Some f, v)"
    using sample_pfat_open by blast
  then have o: "Open (path_env sample_sys_env) (pwd ?s) (join [[0x70], [0x61]]) (edx ?r) (vf ?s) = Some (0, Some f, v)"
    by (simp add: sample_sys_pfat_def)
  have l: "length (fds ?s) = USER_MAX_FILES" "\<not> ints ?s" "None \<in> set (fds ?s)" by (simp_all add: sample_sys_pfat_def)
  obtain i s1 where i: "\<forall>j < i. fds ?s ! j \<noteq> None" "i < USER_MAX_FILES" "Sys_Open sample_sys_env ?r ?s = Some (int i, s1)"
    "\<And>r'. ebx r' = of_nat i \<Longrightarrow> \<exists>rc s2. Sys_Close sample_sys_env r' s1 = Some (rc, s2) \<and> fds s2 = fds ?s"
    using descriptors_open_close [OF l(1,2) p o] l(3) by auto
  have "fds ?s ! 0 = None" by (simp add: sample_sys_pfat_def)
  then have "i = 0" using i(1) by (cases i) auto
  then show ?thesis using i(3) i(4) [of "sample_regs 0 0"] by (simp add: sample_regs_def) (simp add: sample_sys_pfat_def)
qed

end
