(* ===== verification/SysProc.thy ===== *)
theory SysProc
  imports Spawn Fmtout Screen SysFile Keyboard
begin

text \<open>
  The system calls on processes, semaphores and the console of \<open>geekos/syscall.c\<close>.  A call is given the registers
  of the interrupted program; interrupts are disabled when it starts and when it ends.  The memory \<open>um\<close> is the
  address space as the kernel sees it.  Blocking calls are the first step of the operation that blocks
  (\<open>Synch\<close>) or are given what runs while they wait.
\<close>

section \<open>State\<close>

record call_regs = regs +
  edi :: u32

record proc_sys =
  os :: os_state
  um :: memory
  cn :: console
  keys :: kbd
  ticks :: u32
  quantum :: int

abbreviation kern :: "proc_sys \<Rightarrow> kstate" where
  "kern x \<equiv> pk (opr (os x))"

definition set_kern :: "kstate \<Rightarrow> proc_sys \<Rightarrow> proc_sys" where
  "set_kern k x = x\<lparr>os := (os x)\<lparr>opr := set_pk k (opr (os x))\<rparr>\<rparr>"

definition set_sync :: "sync \<Rightarrow> proc_sys \<Rightarrow> proc_sys" where
  "set_sync y x = x\<lparr>os := (os x)\<lparr>opr := (opr (os x))\<lparr>py := y\<rparr>\<rparr>\<rparr>"

definition on_kern :: "(kstate \<Rightarrow> kstate kres) \<Rightarrow> proc_sys \<Rightarrow> proc_sys kres" where
  "on_kern f x = do { k \<leftarrow> f (kern x); Some (set_kern k x) }"

definition on_console :: "(console \<Rightarrow> ('r \<times> console) kres) \<Rightarrow> proc_sys \<Rightarrow> ('r \<times> proc_sys) kres" where
  "on_console f x = do {
     (r, c) \<leftarrow> f ((cn x)\<lparr>int_flag := int_flag (kern x)\<rparr>);
     Some (r, set_kern ((kern x)\<lparr>int_flag := int_flag c\<rparr>) (x\<lparr>cn := c\<rparr>)) }"

text \<open>The state as the copies of \<open>SysFile\<close> see it.\<close>

definition sys_view :: "proc_sys \<Rightarrow> sys_state" where
  "sys_view x = \<lparr>vf = ofs (os x), mem = um x, fds = [], pwd = Get_Cwd (opr (os x)), ints = int_flag (kern x)\<rparr>"

definition copy_in :: "u8 list \<Rightarrow> u32 \<Rightarrow> u32 \<Rightarrow> proc_sys \<Rightarrow> u8 list kres" where
  "copy_in dest a n x = Copy_From_User dest a n (sys_view x)"

definition copy_out :: "u32 \<Rightarrow> u8 list \<Rightarrow> u32 \<Rightarrow> proc_sys \<Rightarrow> proc_sys kres" where
  "copy_out a src n x = do { s \<leftarrow> Copy_To_User a src n (sys_view x); Some (x\<lparr>um := mem s\<rparr>) }"

section \<open>Processes\<close>

definition Sys_Null :: "proc_sys \<Rightarrow> (int \<times> proc_sys) kres" where
  "Sys_Null x = Some (0, x)"

text \<open>\<open>Exit\<close> does not return.\<close>

definition Sys_Exit :: "(nat \<Rightarrow> nat \<Rightarrow> kstate \<Rightarrow> kstate) \<Rightarrow> call_regs \<Rightarrow> proc_sys \<Rightarrow> proc_sys kres" where
  "Sys_Exit dtor r x = on_kern (Exit dtor (sint (ebx r))) x"

text \<open>The thread's address is stored through a pointer that was never set: \<open>pThread\<close> is what it holds.\<close>

definition Sys_Spawn ::
  "(File_Ops \<Rightarrow> fs_world File_Ops_Table) \<Rightarrow> vfs_env \<Rightarrow> spawn_env \<Rightarrow> u32 \<Rightarrow> call_regs \<Rightarrow> proc_sys \<Rightarrow> (int \<times> proc_sys) kres" where
  "Sys_Spawn T VE E pThread r x = do {
     program \<leftarrow> copy_in (replicate 256 0) (ebx r) (ecx r) x;
     command \<leftarrow> copy_in (replicate 256 0) (edx r) (esi r) x;
     x \<leftarrow> on_kern Enable_Interrupts x;
     p \<leftarrow> string_at program 0;
     (id, t, o') \<leftarrow> Spawn T VE E p command (edi r \<noteq> 0) (os x);
     let x = x\<lparr>os := o', um := (case t of None \<Rightarrow> um x | Some t \<Rightarrow> store_word (um x) pThread t)\<rparr>;
     x \<leftarrow> on_kern Disable_Interrupts x;
     Some (id, x) }"

definition Sys_Wait :: "(kstate \<Rightarrow> kstate) \<Rightarrow> call_regs \<Rightarrow> proc_sys \<Rightarrow> (int \<times> proc_sys) kres" where
  "Sys_Wait env r x = do {
     x \<leftarrow> on_kern Enable_Interrupts x;
     (t, k) \<leftarrow> Lookup_Thread (sint (ebx r)) True (kern x);
     (exitcode, k) \<leftarrow> Join env t k;
     x \<leftarrow> on_kern Disable_Interrupts (set_kern k x);
     Some (exitcode, x) }"

definition Sys_GetPID :: "proc_sys \<Rightarrow> (int \<times> proc_sys) kres" where
  "Sys_GetPID x = Some (pid (thr (kern x) (g_currentThread (kern x))), x)"

section \<open>Scheduling and time\<close>

definition Sys_SetSchedulingPolicy :: "call_regs \<Rightarrow> proc_sys \<Rightarrow> (int \<times> proc_sys) kres" where
  "Sys_SetSchedulingPolicy r x = do {
     let x = x\<lparr>quantum := sint (ecx r)\<rparr>;
     if ebx r = 0 then do { x \<leftarrow> on_kern Switch_To_RR x; Some (0, x) }
     else if ebx r = 1 then do { x \<leftarrow> on_kern Switch_To_MLF x; Some (0, x) }
     else Some (- 1, x) }"

definition Sys_GetTimeOfDay :: "proc_sys \<Rightarrow> (int \<times> proc_sys) kres" where
  "Sys_GetTimeOfDay x = Some (sint (ticks x), x)"

section \<open>Semaphores\<close>

text \<open>\<open>junk\<close> is the array on the stack, \<open>malloc\<close> and \<open>fresh\<close> the new object.\<close>

definition Sys_CreateSemaphore :: "u8 list \<Rightarrow> u32 \<Rightarrow> semaphore \<Rightarrow> call_regs \<Rightarrow> proc_sys \<Rightarrow> (int \<times> proc_sys) kres" where
  "Sys_CreateSemaphore junk malloc fresh r x = do {
     bs \<leftarrow> copy_in junk (ebx r) (ecx r + 1) x;
     nm \<leftarrow> string_at bs 0;
     (sid, y) \<leftarrow> Create_Semaphore malloc fresh (name_of nm) (sint (edx r)) (py (opr (os x)));
     Some (sint sid, set_sync y x) }"

definition Sys_P :: "call_regs \<Rightarrow> proc_sys \<Rightarrow> (int option \<times> proc_sys) kres" where
  "Sys_P r x = do { (rc, y) \<leftarrow> P (ebx r) (py (opr (os x))); Some (rc, set_sync y x) }"

definition Sys_V :: "call_regs \<Rightarrow> proc_sys \<Rightarrow> (int option \<times> proc_sys) kres" where
  "Sys_V r x = do { (rc, y) \<leftarrow> V (ebx r) (py (opr (os x))); Some (rc, set_sync y x) }"

definition Sys_DestroySemaphore :: "call_regs \<Rightarrow> proc_sys \<Rightarrow> (int \<times> proc_sys) kres" where
  "Sys_DestroySemaphore r x = do { (rc, y) \<leftarrow> Destroy_Semaphore (ebx r) (py (opr (os x))); Some (rc, set_sync y x) }"

section \<open>The console\<close>

text \<open>What \<open>%n\<close> stores: the count that is always 0, at the width of its rank.\<close>

definition store_count :: "u32 \<times> int \<Rightarrow> memory \<Rightarrow> memory" where
  "store_count c m = (case c of (a, rk) \<Rightarrow> store_bytes m a (replicate (if rk = - 2 then 1 else if rk = - 1 then 2 else 4) 0))"

text \<open>The text of the program is the format of \<open>Print\<close>; \<open>stack\<close> is what lies above the call's frame, where
  \<open>Print\<close> looks for its arguments.\<close>

definition Sys_PrintString :: "(u32 \<Rightarrow> cstr kres) \<Rightarrow> u32 list \<Rightarrow> call_regs \<Rightarrow> proc_sys \<Rightarrow> (int \<times> proc_sys) kres" where
  "Sys_PrintString strs stack r x = do {
     bs \<leftarrow> copy_in (replicate 100 0) (ebx r) (ecx r) x;
     text \<leftarrow> string_at bs 0;
     (_, f) \<leftarrow> Format_Output strs text stack;
     (_, x) \<leftarrow> on_console (\<lambda>c. map_option (Pair ()) (Print (List.map sint (out f)) c)) x;
     Some (0, x\<lparr>um := fold store_count (counts f) (um x)\<rparr>) }"

text \<open>A thread for which no key has arrived waits, and goes on with the next round of \<open>Wait_For_Key\<close>.\<close>

definition Sys_GetKey :: "proc_sys \<Rightarrow> (int option \<times> proc_sys) kres" where
  "Sys_GetKey x = do {
     (key, d) \<leftarrow> Wait_For_Key ((keys x)\<lparr>kk := kern x\<rparr>);
     Some (map_option uint key, set_kern (kk d) (x\<lparr>keys := d\<rparr>)) }"

text \<open>No value is returned: \<open>garbage\<close> is what the register holds.\<close>

definition Sys_SetAttr :: "int \<Rightarrow> call_regs \<Rightarrow> proc_sys \<Rightarrow> (int \<times> proc_sys) kres" where
  "Sys_SetAttr garbage r x = do {
     (_, x) \<leftarrow> on_console (\<lambda>c. map_option (Pair ()) (Set_Current_Attr (ucast (ebx r)) c)) x;
     Some (garbage, x) }"

definition Sys_GetCursor :: "call_regs \<Rightarrow> proc_sys \<Rightarrow> (int \<times> proc_sys) kres" where
  "Sys_GetCursor r x = do {
     ((row, col), x) \<leftarrow> on_console (\<lambda>c. map_option (\<lambda>(i, j, c). ((i, j), c)) (Get_Cursor c)) x;
     x \<leftarrow> copy_out (ebx r) (le_bytes (word_of_int row)) 4 x;
     x \<leftarrow> copy_out (ecx r) (le_bytes (word_of_int col)) 4 x;
     Some (0, x) }"

section \<open>The list of processes\<close>

abbreviation (input) "SIZE_INFO \<equiv> 144 :: u32"

definition enc_info :: "process_info \<Rightarrow> u8 list" where
  "enc_info i = List.map of_char (pi_name i) @ replicate (128 - length (pi_name i)) 0 @ le_bytes (word_of_int (pi_pid i)) @
     le_bytes (word_of_int (pi_parent_pid i)) @ le_bytes (word_of_int (pi_priority i)) @ le_bytes (word_of_int (pi_status i))"

definition no_info :: process_info where
  "no_info = \<lparr>pi_name = [], pi_pid = 0, pi_parent_pid = 0, pi_priority = 0, pi_status = 0\<rparr>"

text \<open>The number of threads, which \<open>Dump_All_Thread_List\<close> prints.\<close>

definition print_number :: "string \<Rightarrow> u32 \<Rightarrow> proc_sys \<Rightarrow> proc_sys kres" where
  "print_number text n x = do {
     (_, f) \<leftarrow> Format_Output (\<lambda>_. None) (List.map of_char (''%d'' @ text) @ [0x0A]) [n];
     (_, x) \<leftarrow> on_console (\<lambda>c. map_option (Pair ()) (Print (List.map sint (out f)) c)) x;
     Some x }"

definition Sys_PS :: "call_regs \<Rightarrow> proc_sys \<Rightarrow> (int \<times> proc_sys) kres" where
  "Sys_PS r x = do {
     (ps, k) \<leftarrow> Dump_All_Thread_List (replicate 50 no_info) (kern x);
     let x = set_kern k x;
     x \<leftarrow> print_number '' threads are running'' (word_of_nat (length (allThreads k))) x;
     x \<leftarrow> copy_out (ebx r) (concat (List.map enc_info ps)) (ecx r * SIZE_INFO) x;
     Some (0, x) }"

text \<open>The answer is always \<open>- 1\<close>, the status always 7.\<close>

definition Sys_WaitNoPID :: "call_regs \<Rightarrow> proc_sys \<Rightarrow> (int \<times> proc_sys) kres" where
  "Sys_WaitNoPID r x = do {
     (_, f) \<leftarrow> Format_Output (\<lambda>_. None) (List.map of_char ''Sys_WaitNoPID : %x'' @ [0x0A]) [ebx r];
     (_, x) \<leftarrow> on_console (\<lambda>c. map_option (Pair ()) (Print (List.map sint (out f)) c)) x;
     x \<leftarrow> copy_out (ebx r) (le_bytes 7) 4 x;
     Some (- 1, x) }"

section \<open>Properties\<close>

lemma kern_set_kern [simp]: "kern (set_kern k x) = k" "um (set_kern k x) = um x" "cn (set_kern k x) = cn x"
  by (simp_all add: set_kern_def set_pk_def)

lemma kern_um [simp]: "kern (x\<lparr>um := m\<rparr>) = kern x" "kern (x\<lparr>cn := c\<rparr>) = kern x"
  by simp_all

text \<open>Printing on the console: a text whose escape sequences have at most eight arguments.\<close>

lemma Print_ok:
  assumes "cons_ok s" "args_used s + count_list (xs :: u8 list) 0x3B \<le> 8"
  shows "\<exists>s'. Print (List.map sint xs) s = Some s' \<and> cons_ok s' \<and> int_flag s' = int_flag s"
proof -
  obtain b where b: "int_flag s = b" by blast
  let ?s = "s\<lparr>int_flag := False\<rparr>"
  have "cons_ok ?s" "args_used ?s + count_list (List.map sint xs) 0x3B \<le> 8"
    using assms by (auto simp: cons_ok_def on_screen_def args_used_def count_sint split: if_splits)
  then obtain s1 where s1: "put_chars (List.map sint xs) ?s = Some s1" "cons_ok s1" "\<not> int_flag s1" using put_chars_ok by fastforce
  have "cons_ok ((Update_Cursor s1)\<lparr>int_flag := b\<rparr>)" using s1(2) by (simp add: Update_Cursor_def Let_def cons_ok_def on_screen_def)
  moreover have "Print (List.map sint xs) s = Some ((Update_Cursor s1)\<lparr>int_flag := b\<rparr>)"
    using s1(1,3) by (simp add: Print_def Update_Cursor_def Let_def b)
  ultimately show ?thesis by (simp add: b)
qed

lemma format_percent_n:
  assumes "fstate f = st_normal" "ap f = a # ws"
  shows "\<exists>f'. format_chars strs [0x25, 0x6E] f = Some f' \<and> out f' = out f \<and> counts f' = counts f @ [(a, 0)]"
  using assms by (simp add: format_char_def on_flags_def on_width_def on_modifiers_def conversion_def va_arg_def)

lemma format_text_n:
  assumes "0x25 \<notin> set xs"
  shows "\<exists>f. Format_Output strs (xs @ [0x25, 0x6E]) (a # ws) = Some (0, f) \<and> out f = xs \<and> counts f = [(a, 0)]"
proof -
  let ?f = "emit xs (start_fmt (a # ws))"
  have p: "format_chars strs xs (start_fmt (a # ws)) = Some ?f" using assms by (intro format_plain) (simp_all add: start_fmt_def)
  obtain f where f: "format_chars strs [0x25, 0x6E] ?f = Some f" "out f = out ?f" "counts f = counts ?f @ [(a, 0)]"
    using format_percent_n [of ?f a ws strs] by (auto simp: start_fmt_def emit_def)
  have "format_chars strs (xs @ [0x25, 0x6E]) (start_fmt (a # ws)) = Some f" using p f(1) by (simp add: format_chars_append)
  then show ?thesis using f(2,3) by (simp add: Format_Output_def) (simp add: start_fmt_def emit_def)
qed

text \<open>C26: The text a program prints is used as a format: if it ends with \<open>%n\<close>, the call stores a zero word at the
  address that happens to lie above the frame of \<open>Print\<close> on the kernel's stack, and reports success.\<close>

theorem user_text_is_format:
  assumes "\<not> int_flag (kern x)" "cons_ok (cn x)" "args_used (cn x) + count_list xs 0x3B \<le> 8"
    and "load_bytes (um x) (Get_User_Address (ebx r)) (unat (ecx r)) = xs @ [0x25, 0x6E]"
    and "length xs \<le> 97" "0 \<notin> set xs" "0x25 \<notin> set xs"
  shows "\<exists>x'. Sys_PrintString strs (a # ws) r x = Some (0, x') \<and> um x' = store_word (um x) a 0"
proof -
  let ?n = "100 - length (xs @ [0x25, 0x6E] :: u8 list)"
  have "copy_in (replicate 100 0) (ebx r) (ecx r) x = Some ((xs @ [0x25, 0x6E]) @ replicate ?n 0)"
    using assms(1,4,5) by (simp add: copy_in_def Copy_From_User_def sys_view_def put_bytes_def)
  moreover have "string_at ((xs @ [0x25, 0x6E]) @ replicate ?n 0) 0 = Some (xs @ [0x25, 0x6E])"
  proof -
    obtain m where "?n = Suc m" using assms(5) by (cases ?n) auto
    then have "text_at ((xs @ [0x25, 0x6E]) @ replicate ?n 0) 0 (xs @ [0x25, 0x6E])" using assms(6) by (simp add: text_at_def)
    then show ?thesis by (rule text_string)
  qed
  moreover obtain f where f: "Format_Output strs (xs @ [0x25, 0x6E]) (a # ws) = Some (0, f)" "out f = xs" "counts f = [(a, 0)]"
    using format_text_n [OF assms(7)] by blast
  moreover obtain c where "Print (List.map sint xs) ((cn x)\<lparr>int_flag := int_flag (kern x)\<rparr>) = Some c"
    using Print_ok [of "(cn x)\<lparr>int_flag := int_flag (kern x)\<rparr>" xs] assms(2,3)
    by (auto simp: cons_ok_def on_screen_def args_used_def split: if_splits)
  ultimately show ?thesis
    by (simp add: Sys_PrintString_def on_console_def store_count_def store_word_def le_bytes_def numeral_eq_Suc)
qed

lemma Lookup_Thread_found:
  assumes "List.find (\<lambda>t. pid (thr k t) = p) (allThreads k) = Some t"
  shows "Lookup_Thread p True k = Some (t, k)"
proof -
  obtain b where "int_flag k = b" by blast
  then have "k\<lparr>int_flag := b\<rparr> = k" by (cases k) simp
  then show ?thesis using assms by (simp add: Lookup_Thread_def)
qed


text \<open>A sample process: thread 1 runs, its child 2 with pid 7 has ended with code 42.\<close>

definition parent_kernel :: kstate where
  "parent_kernel = sample_threads\<lparr>allThreads := [1, 2, 3],
     thr := (thr sample_threads)(3 := zero_thread\<lparr>pid := 7, owner := 1, alive := False, refCount := 1, exitCode := 42\<rparr>)\<rparr>"

definition parent_proc :: proc_sys where
  "parent_proc = \<lparr>os = \<lparr>ofs = elf_vfs, opr = set_pk parent_kernel (elf_proc cleared_gdt)\<rparr>,
     um = store_bytes (\<lambda>_. 0) (Get_User_Address 0x1000) [0x41, 0x25, 0x6E], cn = sample_console, keys = undefined, ticks = 0, quantum = 4\<rparr>"

definition call_of :: "u32 \<Rightarrow> u32 \<Rightarrow> call_regs" where
  "call_of b c = undefined\<lparr>ebx := b, ecx := c\<rparr>"

lemma parent_kern: "kern parent_proc = parent_kernel"
  by (simp add: parent_proc_def set_pk_def)


lemma user_text_is_format_witness:
  "\<forall>strs ws. \<exists>x'. Sys_PrintString strs (0x80001008 # ws) (call_of 0x1000 3) parent_proc = Some (0, x') \<and> um x' = store_word (um parent_proc) 0x80001008 0"
proof (intro allI, rule user_text_is_format [where xs = "[0x41]"])
  show "\<not> int_flag (kern parent_proc)" by (simp add: parent_kern parent_kernel_def sample_threads_def)
  show "cons_ok (cn parent_proc)" "args_used (cn parent_proc) + count_list [0x41 :: u8] 0x3B \<le> 8"
    using sample_console_ok by (simp_all add: parent_proc_def args_used_def)
  have "load_bytes (um parent_proc) (Get_User_Address 0x1000) (length [0x41, 0x25, 0x6E :: u8]) = [0x41, 0x25, 0x6E]"
    by (simp only: parent_proc_def proc_sys.simps) (rule load_store_same, simp)
  then show "load_bytes (um parent_proc) (Get_User_Address (ebx (call_of 0x1000 3))) (unat (ecx (call_of 0x1000 3))) = [0x41] @ [0x25, 0x6E]"
    by (simp add: call_of_def del: load_bytes.simps) (simp add: numeral_eq_Suc)
qed simp_all

end
