(* ===== verification/Bget.thy ===== *)
theory Bget
  imports Machine
begin

text \<open>
  The memory allocator: \<open>geekos/bget.c\<close> as it is configured (best fit, no automatic expansion), and \<open>Malloc\<close> and
  \<open>Free\<close> of \<open>geekos/malloc.c\<close>.  Memory is the words at the addresses; every address the allocator uses is a
  multiple of 4.  A block is a header of two words and a buffer; a free block keeps its list links in the buffer.
\<close>

section \<open>Headers and links\<close>

type_synonym heap_mem = "nat \<Rightarrow> u32"

record heap = machine +
  hm :: heap_mem
  freelist :: u32

definition prevfree :: "heap_mem \<Rightarrow> u32 \<Rightarrow> u32" where
  "prevfree m b = m (unat b)"

definition bsize :: "heap_mem \<Rightarrow> u32 \<Rightarrow> u32" where
  "bsize m b = m (unat (b + 4))"

definition flink :: "heap_mem \<Rightarrow> u32 \<Rightarrow> u32" where
  "flink m b = m (unat (b + 8))"

definition blink :: "heap_mem \<Rightarrow> u32 \<Rightarrow> u32" where
  "blink m b = m (unat (b + 12))"

definition set_prevfree :: "u32 \<Rightarrow> u32 \<Rightarrow> heap_mem \<Rightarrow> heap_mem" where
  "set_prevfree b v m = m(unat b := v)"

definition set_bsize :: "u32 \<Rightarrow> u32 \<Rightarrow> heap_mem \<Rightarrow> heap_mem" where
  "set_bsize b v m = m(unat (b + 4) := v)"

definition set_flink :: "u32 \<Rightarrow> u32 \<Rightarrow> heap_mem \<Rightarrow> heap_mem" where
  "set_flink b v m = m(unat (b + 8) := v)"

definition set_blink :: "u32 \<Rightarrow> u32 \<Rightarrow> heap_mem \<Rightarrow> heap_mem" where
  "set_blink b v m = m(unat (b + 12) := v)"

abbreviation (input) "SizeQ \<equiv> 8 :: u32"
abbreviation (input) "SIZE_BHEAD \<equiv> 8 :: u32"
abbreviation (input) "ESent \<equiv> 0x80000000 :: u32"

section \<open>The list of free buffers\<close>

definition dechain :: "u32 \<Rightarrow> heap_mem \<Rightarrow> heap_mem kres" where
  "dechain b m = do {
     KASSERT (flink m (blink m b) = b);
     KASSERT (blink m (flink m b) = b);
     let m = set_flink (blink m b) (flink m b) m;
     Some (set_blink (flink m b) (blink m b) m) }"

definition chain_last :: "u32 \<Rightarrow> u32 \<Rightarrow> heap_mem \<Rightarrow> heap_mem kres" where
  "chain_last fl b m = do {
     KASSERT (flink m (blink m fl) = fl);
     KASSERT (blink m (flink m fl) = fl);
     let m = set_flink b fl m;
     let m = set_blink b (blink m fl) m;
     let m = set_blink fl b m;
     Some (set_flink (blink m b) b m) }"

section \<open>Allocation\<close>

text \<open>The request rounded up, with its header; the sums wrap around.\<close>

definition request_size :: "u32 \<Rightarrow> u32" where
  "request_size sz = (((if sz < SizeQ then SizeQ else sz) + 3) AND NOT 3) + SIZE_BHEAD"

partial_function (option) best_fit :: "heap_mem \<Rightarrow> u32 \<Rightarrow> u32 \<Rightarrow> u32 \<Rightarrow> u32 \<Rightarrow> u32 kres" where
  "best_fit m fl sz b best =
     (if b = fl then Some best
      else best_fit m fl sz (flink m b)
        (if sint (bsize m b) \<ge> sint sz \<and> (best = fl \<or> sint (bsize m b) < sint (bsize m best)) then b else best))"

text \<open>The buffer is cut off the end of the free block, or is the whole block when too little would remain.\<close>

definition split_block :: "u32 \<Rightarrow> u32 \<Rightarrow> heap_mem \<Rightarrow> (u32 \<times> heap_mem) kres" where
  "split_block b sz m = do {
     let ba = b + (bsize m b - sz);
     let bn = ba + sz;
     KASSERT (prevfree m bn = bsize m b);
     let m = set_bsize b (bsize m b - sz) m;
     let m = set_prevfree ba (bsize m b) m;
     let m = set_bsize ba (- sz) m;
     let m = set_prevfree bn 0 m;
     Some (ba + SIZE_BHEAD, m) }"

definition whole_block :: "u32 \<Rightarrow> heap_mem \<Rightarrow> (u32 \<times> heap_mem) kres" where
  "whole_block b m = do {
     let ba = b + bsize m b;
     KASSERT (prevfree m ba = bsize m b);
     m \<leftarrow> dechain b m;
     let m = set_bsize b (- bsize m b) m;
     let m = set_prevfree ba 0 m;
     Some (b + 8, m) }"

partial_function (option) fit_loop :: "u32 \<Rightarrow> u32 \<Rightarrow> u32 \<Rightarrow> heap_mem \<Rightarrow> (u32 \<times> heap_mem) kres" where
  "fit_loop fl sz b m =
     (if b = fl then Some (0, m)
      else if sint (bsize m b) \<ge> sint sz
      then if bsize m b - sz > SizeQ + SIZE_BHEAD then split_block b sz m else whole_block b m
      else fit_loop fl sz (flink m b) m)"

definition bget :: "u32 \<Rightarrow> u32 \<Rightarrow> heap_mem \<Rightarrow> (u32 \<times> heap_mem) kres" where
  "bget fl requested_size m = do {
     KASSERT (sint requested_size > 0);
     let sz = request_size requested_size;
     best \<leftarrow> best_fit m fl sz (flink m fl) fl;
     fit_loop fl sz best m }"

section \<open>Release\<close>

text \<open>The buffer is joined with a free block before it, or goes to the end of the list; then it is joined with a free
  block after it.\<close>

definition join_previous :: "u32 \<Rightarrow> u32 \<Rightarrow> heap_mem \<Rightarrow> (u32 \<times> heap_mem) kres" where
  "join_previous fl b m =
     (if prevfree m b \<noteq> 0 then do {
        let sz = bsize m b;
        KASSERT (bsize m (b - prevfree m b) = prevfree m b);
        let b = b - prevfree m b;
        Some (b, set_bsize b (bsize m b - sz) m) }
      else do {
        m \<leftarrow> chain_last fl b m;
        Some (b, set_bsize b (- bsize m b) m) })"

definition join_next :: "u32 \<Rightarrow> heap_mem \<Rightarrow> heap_mem kres" where
  "join_next b m = do {
     let bn = b + bsize m b;
     (bn, m) \<leftarrow>
       (if sint (bsize m bn) > 0 then do {
          KASSERT (prevfree m (bn + bsize m bn) = bsize m bn);
          m \<leftarrow> dechain bn m;
          let m = set_bsize b (bsize m b + bsize m bn) m;
          Some (b + bsize m b, m) }
        else Some (bn, m));
     KASSERT (sint (bsize m bn) < 0);
     Some (set_prevfree bn (bsize m b) m) }"

definition brel :: "u32 \<Rightarrow> u32 \<Rightarrow> heap_mem \<Rightarrow> heap_mem kres" where
  "brel fl buf m = do {
     let b = buf - SIZE_BHEAD;
     KASSERT (buf \<noteq> 0);
     KASSERT (sint (bsize m b) < 0);
     KASSERT (prevfree m (b - bsize m b) = 0);
     (b, m) \<leftarrow> join_previous fl b m;
     join_next b m }"

section \<open>The pool\<close>

definition bpool :: "u32 \<Rightarrow> u32 \<Rightarrow> u32 \<Rightarrow> heap_mem \<Rightarrow> heap_mem kres" where
  "bpool fl buf len m = do {
     let len = len AND NOT 3;
     KASSERT (len - SIZE_BHEAD \<le> 0x7FFFFFFF);
     let m = set_prevfree buf 0 m;
     m \<leftarrow> chain_last fl buf m;
     let len = len - SIZE_BHEAD;
     let m = set_bsize buf len m;
     let bn = buf + len;
     let m = set_prevfree bn len m;
     Some (set_bsize bn ESent m) }"

text \<open>The list is empty at first.\<close>

definition init_freelist :: "u32 \<Rightarrow> heap_mem \<Rightarrow> heap_mem" where
  "init_freelist fl m = set_blink fl fl (set_flink fl fl (set_bsize fl 0 (set_prevfree fl 0 m)))"

definition Init_Heap :: "u32 \<Rightarrow> u32 \<Rightarrow> heap \<Rightarrow> heap kres" where
  "Init_Heap start sz s = do { m \<leftarrow> bpool (freelist s) start sz (hm s); Some (s\<lparr>hm := m\<rparr>) }"

definition Malloc :: "u32 \<Rightarrow> heap \<Rightarrow> (u32 \<times> heap) kres" where
  "Malloc sz s = do {
     KASSERT (sz > 0);
     (iflag, s) \<leftarrow> Begin_Int_Atomic s;
     (result, m) \<leftarrow> bget (freelist s) sz (hm s);
     s \<leftarrow> End_Int_Atomic iflag (s\<lparr>hm := m\<rparr>);
     Some (result, s) }"

definition Free :: "u32 \<Rightarrow> heap \<Rightarrow> heap kres" where
  "Free buf s = do {
     (iflag, s) \<leftarrow> Begin_Int_Atomic s;
     m \<leftarrow> brel (freelist s) buf (hm s);
     End_Int_Atomic iflag (s\<lparr>hm := m\<rparr>) }"

section \<open>The layout of the pool\<close>

abbreviation (input) W :: "nat \<Rightarrow> u32" where
  "W \<equiv> word_of_nat"

lemma unat_W [simp]: "k < 4294967296 \<Longrightarrow> unat (W k) = k"
  by (simp add: unsigned_of_nat take_bit_nat_eq_self)

lemma W_inj: "a < 4294967296 \<Longrightarrow> b < 4294967296 \<Longrightarrow> W a = W b \<longleftrightarrow> a = b"
  by (metis unat_W)

lemma sint_W: "n < 2147483648 \<Longrightarrow> sint (W n) = int n"
  by (simp add: sint_small)

lemma sint_minus_W: "n < 2147483648 \<Longrightarrow> sint (- W n) = - int n"
proof -
  assume n: "n < 2147483648"
  have "- W n = word_of_int (- int n)" by simp
  then have "sint (- W n) = signed_take_bit 31 (- int n)" by (simp only: signed_of_int) simp
  also have "\<dots> = - int n" using n by (intro signed_take_bit_int_eq_self) simp_all
  finally show ?thesis .
qed

lemma minus_W: "n \<le> k \<Longrightarrow> W k - W n = W (k - n)"
  by (simp add: of_nat_diff)

section \<open>Lists of blocks\<close>

text \<open>A block is free or not, and has a size with its header.\<close>

type_synonym blocks = "(bool \<times> nat) list"

definition total_size :: "blocks \<Rightarrow> nat" where
  "total_size bs = sum_list (List.map snd bs)"

definition sizes_ok :: "blocks \<Rightarrow> bool" where
  "sizes_ok bs \<longleftrightarrow> (\<forall>(f, n) \<in> set bs. 16 \<le> n \<and> 4 dvd n)"

definition prev_of :: "nat \<Rightarrow> blocks \<Rightarrow> nat" where
  "prev_of pf bs = (if bs = [] then pf else if fst (last bs) then snd (last bs) else 0)"

fun hdr_seq :: "heap_mem \<Rightarrow> nat \<Rightarrow> nat \<Rightarrow> blocks \<Rightarrow> bool" where
  "hdr_seq m a pf [] \<longleftrightarrow> True"
| "hdr_seq m a pf ((f, n) # bs) \<longleftrightarrow> m a = W pf \<and> m (a + 4) = (if f then W n else - W n) \<and> (f \<longrightarrow> pf = 0) \<and>
     hdr_seq m (a + n) (if f then n else 0) bs"

fun headers :: "heap_mem \<Rightarrow> nat \<Rightarrow> nat \<Rightarrow> blocks \<Rightarrow> bool" where
  "headers m a pf [] \<longleftrightarrow> m a = W pf \<and> m (a + 4) = ESent"
| "headers m a pf ((f, n) # bs) \<longleftrightarrow> m a = W pf \<and> m (a + 4) = (if f then W n else - W n) \<and> (f \<longrightarrow> pf = 0) \<and>
     headers m (a + n) (if f then n else 0) bs"

fun frees :: "nat \<Rightarrow> blocks \<Rightarrow> nat list" where
  "frees a [] = []"
| "frees a ((f, n) # bs) = (if f then [a] else []) @ frees (a + n) bs"

fun hdrs :: "nat \<Rightarrow> blocks \<Rightarrow> nat set" where
  "hdrs a [] = {a, a + 4}"
| "hdrs a ((f, n) # bs) = {a, a + 4} \<union> hdrs (a + n) bs"

text \<open>The buffers in use, and the addresses in them.\<close>

fun used :: "nat \<Rightarrow> blocks \<Rightarrow> (nat \<times> nat) set" where
  "used a [] = {}"
| "used a ((f, n) # bs) = (if f then {} else {(a + 8, n - 8)}) \<union> used (a + n) bs"

fun prot :: "nat \<Rightarrow> blocks \<Rightarrow> nat set" where
  "prot a [] = {}"
| "prot a ((f, n) # bs) = (if f then {} else {a + 8 ..< a + n}) \<union> prot (a + n) bs"

lemma total_size_simps [simp]: "total_size [] = 0" "total_size ((f, n) # bs) = n + total_size bs"
    "total_size (bs @ cs) = total_size bs + total_size cs"
  by (simp_all add: total_size_def)

lemma sizes_ok_simps [simp]: "sizes_ok []" "sizes_ok ((f, n) # bs) \<longleftrightarrow> 16 \<le> n \<and> 4 dvd n \<and> sizes_ok bs"
    "sizes_ok (bs @ cs) \<longleftrightarrow> sizes_ok bs \<and> sizes_ok cs"
  by (auto simp: sizes_ok_def)

lemma prev_of_simps [simp]: "prev_of pf [] = pf" "prev_of pf ((f, n) # bs) = prev_of (if f then n else 0) bs"
    "prev_of pf (bs @ [(f, n)]) = (if f then n else 0)"
  by (auto simp: prev_of_def)

lemma headers_append: "headers m a pf (xs @ ys) \<longleftrightarrow> hdr_seq m a pf xs \<and> headers m (a + total_size xs) (prev_of pf xs) ys"
  by (induction m a pf xs rule: hdr_seq.induct) (auto simp: add.assoc)

lemma hdr_seq_append: "hdr_seq m a pf (xs @ ys) \<longleftrightarrow> hdr_seq m a pf xs \<and> hdr_seq m (a + total_size xs) (prev_of pf xs) ys"
  by (induction m a pf xs rule: hdr_seq.induct) (auto simp: add.assoc)

lemma frees_append: "frees a (xs @ ys) = frees a xs @ frees (a + total_size xs) ys"
  by (induction a xs rule: frees.induct) (auto simp: add.assoc)

lemma used_append: "used a (xs @ ys) = used a xs \<union> used (a + total_size xs) ys"
  by (induction a xs rule: used.induct) (auto simp: add.assoc)

lemma prot_append: "prot a (xs @ ys) = prot a xs \<union> prot (a + total_size xs) ys"
  by (induction a xs rule: prot.induct) (auto simp: add.assoc)

lemma hdrs_append: "hdrs a (xs @ ys) \<supseteq> hdrs (a + total_size xs) ys"
  by (induction a xs rule: frees.induct) (auto simp: add.assoc)

lemma frees_range: "sizes_ok bs \<Longrightarrow> x \<in> set (frees a bs) \<Longrightarrow> a \<le> x \<and> x + 16 \<le> a + total_size bs"
  by (induction a bs rule: frees.induct) (fastforce split: if_splits)+

lemma hdrs_range: "sizes_ok bs \<Longrightarrow> k \<in> hdrs a bs \<Longrightarrow> a \<le> k \<and> k + 4 \<le> a + total_size bs + 8"
  by (induction a bs rule: hdrs.induct) fastforce+

lemma prot_range: "sizes_ok bs \<Longrightarrow> k \<in> prot a bs \<Longrightarrow> a + 8 \<le> k \<and> k < a + total_size bs"
  by (induction a bs rule: prot.induct) (fastforce split: if_splits)+

lemma frees_distinct: "sizes_ok bs \<Longrightarrow> distinct (frees a bs)"
  by (induction a bs rule: frees.induct) (use frees_range in \<open>fastforce split: if_splits\<close>)+

lemma frees_split:
  "x \<in> set (frees a bs) \<Longrightarrow> \<exists>us n vs. bs = us @ (True, n) # vs \<and> x = a + total_size us"
proof (induction a bs rule: frees.induct)
  case (2 a f n bs)
  show ?case
  proof (cases "f \<and> x = a")
    case True
    then show ?thesis by (intro exI [of _ "[]"]) simp
  next
    case False
    then have "x \<in> set (frees (a + n) bs)" using 2(2) by (auto split: if_splits)
    then obtain us k vs where "bs = us @ (True, k) # vs" "x = a + n + total_size us" using 2(1) by blast
    then show ?thesis by (intro exI [of _ "(f, n) # us"]) auto
  qed
qed simp

lemma used_split:
  "(p, l) \<in> used a bs \<Longrightarrow> \<exists>us n vs. bs = us @ (False, n) # vs \<and> p = a + total_size us + 8 \<and> l = n - 8"
proof (induction a bs rule: used.induct)
  case (2 a f n bs)
  show ?case
  proof (cases "\<not> f \<and> (p, l) = (a + 8, n - 8)")
    case True
    then show ?thesis by (intro exI [of _ "[]"]) auto
  next
    case False
    then have "(p, l) \<in> used (a + n) bs" using 2(2) by (auto split: if_splits)
    then obtain us k vs where "bs = us @ (False, k) # vs" "p = a + n + total_size us + 8" "l = k - 8" using 2(1) by blast
    then show ?thesis by (intro exI [of _ "(f, n) # us"]) auto
  qed
qed simp

text \<open>Headers, links and used buffers are apart.\<close>

lemma links_not_hdrs: "sizes_ok bs \<Longrightarrow> x \<in> set (frees a bs) \<Longrightarrow> x + 8 \<notin> hdrs a bs \<and> x + 12 \<notin> hdrs a bs"
proof (induction a bs rule: frees.induct)
  case (2 a f n bs)
  then have s: "sizes_ok bs" "16 \<le> n" by auto
  show ?case
  proof (cases "x = a")
    case True
    then show ?thesis using s hdrs_range [OF s(1), of _ "a + n"] by fastforce
  next
    case False
    then have x: "x \<in> set (frees (a + n) bs)" using 2(3) by (auto split: if_splits)
    then show ?thesis using 2(1) [OF s(1) x] frees_range [OF s(1) x] by auto
  qed
qed simp

lemma hdrs_not_prot: "sizes_ok bs \<Longrightarrow> k \<in> hdrs a bs \<Longrightarrow> k \<notin> prot a bs"
proof (induction a bs rule: hdrs.induct)
  case (2 a f n bs)
  then have s: "sizes_ok bs" "16 \<le> n" by auto
  show ?case
  proof (cases "k \<in> hdrs (a + n) bs")
    case True
    then show ?thesis using 2(1) [OF s(1)] hdrs_range [OF s(1) True] by auto
  next
    case False
    then show ?thesis using 2(3) s prot_range [OF s(1), of k "a + n"] by auto
  qed
qed simp

lemma free_not_prot: "sizes_ok (us @ (True, n) # vs) \<Longrightarrow> a + total_size us \<le> k \<Longrightarrow> k < a + total_size us + n \<Longrightarrow> k \<notin> prot a (us @ (True, n) # vs)"
  using prot_range [of us k a] prot_range [of vs k "a + total_size us + n"] by (auto simp: prot_append)

lemma links_not_prot: "sizes_ok bs \<Longrightarrow> x \<in> set (frees a bs) \<Longrightarrow> x + 8 \<notin> prot a bs \<and> x + 12 \<notin> prot a bs"
  using frees_split [of x a bs] free_not_prot by fastforce

lemma links_apart:
  assumes "sizes_ok bs" "x \<in> set (frees a bs)" "y \<in> set (frees a bs)"
  shows "x \<noteq> y + 4"
proof -
  obtain us n vs where b: "bs = us @ (True, n) # vs" "y = a + total_size us" using frees_split [OF assms(3)] by blast
  then have "x \<in> set (frees a us) \<or> x = y \<or> x \<in> set (frees (y + n) vs)" using assms(2) by (auto simp: frees_append)
  moreover have "sizes_ok us" "sizes_ok vs" "16 \<le> n" using assms(1) b by auto
  ultimately show ?thesis using frees_range [of us x a] frees_range [of vs x "y + n"] b by fastforce
qed

section \<open>Updates\<close>

lemma hdr_seq_upd: "sizes_ok bs \<Longrightarrow> k < a \<or> a + total_size bs \<le> k \<Longrightarrow> hdr_seq (m(k := v)) a pf bs = hdr_seq m a pf bs"
  by (induction m a pf bs rule: hdr_seq.induct) (auto simp: add.assoc)

lemma headers_upd: "k \<notin> hdrs a bs \<Longrightarrow> headers (m(k := v)) a pf bs = headers m a pf bs"
  by (induction m a pf bs rule: headers.induct) auto

lemma headers_low: "sizes_ok bs \<Longrightarrow> k < a \<Longrightarrow> headers (m(k := v)) a pf bs = headers m a pf bs"
  by (rule headers_upd) (use hdrs_range in fastforce)

lemma headers_set_first:
  assumes "headers m a pf bs" "sizes_ok bs" "pf' = 0 \<or> bs = [] \<or> \<not> fst (hd bs)"
  shows "headers (m(a := W pf')) a pf' bs"
proof (cases bs)
  case (Cons b cs)
  obtain f n where b: "b = (f, n)" by fastforce
  have "headers (m(a := W pf')) (a + n) (if f then n else 0) cs = headers m (a + n) (if f then n else 0) cs"
    using assms(2) Cons b by (intro headers_low) auto
  then show ?thesis using assms Cons b by auto
qed (use assms in simp)

lemma headers_negative:
  assumes "headers m a pf bs" "bs = [] \<or> \<not> fst (hd bs)" "sizes_ok bs" "total_size bs < 2147483648"
  shows "sint (m (a + 4)) < 0"
proof (cases bs)
  case (Cons b cs)
  then show ?thesis using assms sint_minus_W [of "snd b"] by (cases b) auto
qed (use assms in simp)

fun chain :: "heap_mem \<Rightarrow> nat \<Rightarrow> nat list \<Rightarrow> nat \<Rightarrow> bool" where
  "chain m p [] q \<longleftrightarrow> m (p + 8) = W q \<and> m (q + 12) = W p"
| "chain m p (x # xs) q \<longleftrightarrow> m (p + 8) = W x \<and> m (x + 12) = W p \<and> chain m x xs q"

lemma chain_append: "chain m p (xs @ y # ys) q \<longleftrightarrow> chain m p xs y \<and> chain m y ys q"
  by (induction m p xs y rule: chain.induct) auto

lemma chain_first: "chain m p xs q \<Longrightarrow> m (p + 8) = W (hd (xs @ [q]))"
  by (cases xs) auto

lemma chain_end: "chain m p xs q \<Longrightarrow> m (q + 12) = W (last (p # xs))"
  by (induction m p xs q rule: chain.induct) auto

lemma chain_upd:
  "\<forall>x\<in>set (p # xs). k \<noteq> x + 8 \<Longrightarrow> \<forall>x\<in>set (xs @ [q]). k \<noteq> x + 12 \<Longrightarrow> chain (m(k := v)) p xs q = chain m p xs q"
  by (induction m p xs q rule: chain.induct) auto

section \<open>The state of the allocator\<close>

definition pool_ok :: "nat \<Rightarrow> nat \<Rightarrow> blocks \<Rightarrow> bool" where
  "pool_ok F base bs \<longleftrightarrow> sizes_ok bs \<and> 0 < base \<and> base + total_size bs + 8 \<le> 4294967296 \<and> total_size bs < 2147483648 \<and>
     F + 16 \<le> 4294967296 \<and> (F + 16 \<le> base \<or> base + total_size bs + 8 \<le> F)"

definition heap_rep :: "nat \<Rightarrow> nat \<Rightarrow> blocks \<Rightarrow> nat list \<Rightarrow> heap_mem \<Rightarrow> bool" where
  "heap_rep F base bs fl m \<longleftrightarrow> pool_ok F base bs \<and> headers m base 0 bs \<and> chain m F fl F \<and> distinct fl \<and> set fl = set (frees base bs)"

definition nodes :: "nat \<Rightarrow> nat \<Rightarrow> blocks \<Rightarrow> nat set" where
  "nodes F base bs = insert F (set (frees base bs))"

lemma node_apart:
  assumes "pool_ok F base bs" "x \<in> nodes F base bs" "y \<in> nodes F base bs"
  shows "x + 8 \<noteq> y + 12"
proof -
  have s: "sizes_ok bs" "F + 16 \<le> base \<or> base + total_size bs + 8 \<le> F" using assms(1) by (auto simp: pool_ok_def)
  then show ?thesis using assms(2,3) links_apart [OF s(1)] frees_range [OF s(1)] by (auto simp: nodes_def) fastforce+
qed

lemma node_lt: "pool_ok F base bs \<Longrightarrow> x \<in> nodes F base bs \<Longrightarrow> x + 16 \<le> 4294967296"
  using frees_range [of bs x base] by (auto simp: pool_ok_def nodes_def)

lemma links_apart_hdrs: "pool_ok F base bs \<Longrightarrow> x \<in> nodes F base bs \<Longrightarrow> x + 8 \<notin> hdrs base bs \<and> x + 12 \<notin> hdrs base bs"
  using links_not_hdrs [of bs x base] hdrs_range [of bs _ base] by (fastforce simp: nodes_def pool_ok_def)

lemma links_apart_prot: "pool_ok F base bs \<Longrightarrow> x \<in> nodes F base bs \<Longrightarrow> x + 8 \<notin> prot base bs \<and> x + 12 \<notin> prot base bs"
  using links_not_prot [of bs x base] prot_range [of bs _ base] by (fastforce simp: nodes_def pool_ok_def)

lemma hdrs_apart_prot: "pool_ok F base bs \<Longrightarrow> k \<in> hdrs base bs \<Longrightarrow> k \<notin> prot base bs"
  by (rule hdrs_not_prot) (simp_all add: pool_ok_def)

text \<open>Writing a header keeps the list, writing a link keeps the headers, and both keep the buffers in use.\<close>

lemma header_write_chain:
  assumes "pool_ok F base bs" "k \<in> hdrs base bs" "set (p # xs @ [q]) \<subseteq> nodes F base bs"
  shows "chain (m(k := v)) p xs q = chain m p xs q"
  using assms links_apart_hdrs [OF assms(1)] by (intro chain_upd) fastforce+

lemma link_write_headers:
  assumes "pool_ok F base bs" "x \<in> nodes F base bs" "k = x + 8 \<or> k = x + 12"
  shows "headers (m(k := v)) base pf bs = headers m base pf bs"
  using assms links_apart_hdrs [OF assms(1,2)] by (intro headers_upd) auto

definition agree :: "nat set \<Rightarrow> heap_mem \<Rightarrow> heap_mem \<Rightarrow> bool" where
  "agree U m m' \<longleftrightarrow> (\<forall>k\<in>U. m' k = m k)"

lemma headers_cong: "agree (hdrs a bs) m m' \<Longrightarrow> headers m' a pf bs = headers m a pf bs"
  by (induction m a pf bs rule: headers.induct) (auto simp: agree_def)

lemma agree_refl [simp]: "agree U m m"
  by (simp add: agree_def)

lemma agree_upd: "k \<notin> U \<Longrightarrow> agree U m m' \<Longrightarrow> agree U m (m'(k := v))"
  by (auto simp: agree_def)

lemma agree_trans: "agree U m m' \<Longrightarrow> agree U m' m'' \<Longrightarrow> agree U m m''"
  by (auto simp: agree_def)

lemma agree_mono: "agree U m m' \<Longrightarrow> V \<subseteq> U \<Longrightarrow> agree V m m'"
  by (auto simp: agree_def)

lemma mem_at:
  "a + 16 \<le> 4294967296 \<Longrightarrow> prevfree m (W a) = m a" "a + 16 \<le> 4294967296 \<Longrightarrow> bsize m (W a) = m (a + 4)"
  "a + 16 \<le> 4294967296 \<Longrightarrow> flink m (W a) = m (a + 8)" "a + 16 \<le> 4294967296 \<Longrightarrow> blink m (W a) = m (a + 12)"
  "a + 16 \<le> 4294967296 \<Longrightarrow> set_prevfree (W a) v m = m(a := v)" "a + 16 \<le> 4294967296 \<Longrightarrow> set_bsize (W a) v m = m(a + 4 := v)"
  "a + 16 \<le> 4294967296 \<Longrightarrow> set_flink (W a) v m = m(a + 8 := v)" "a + 16 \<le> 4294967296 \<Longrightarrow> set_blink (W a) v m = m(a + 12 := v)"
  "a + 8 \<le> 4294967296 \<Longrightarrow> prevfree m (W a) = m a" "a + 8 \<le> 4294967296 \<Longrightarrow> bsize m (W a) = m (a + 4)"
  "a + 8 \<le> 4294967296 \<Longrightarrow> set_prevfree (W a) v m = m(a := v)" "a + 8 \<le> 4294967296 \<Longrightarrow> set_bsize (W a) v m = m(a + 4 := v)"
proof -
  have u: "unat (W a + W c) = a + c" if "a + c < 4294967296" for c using unat_W [OF that] by (simp only: of_nat_add)
  note u4 = u [of 4, simplified] and u8 = u [of 8, simplified] and u12 = u [of 12, simplified]
  show "a + 16 \<le> 4294967296 \<Longrightarrow> prevfree m (W a) = m a" "a + 16 \<le> 4294967296 \<Longrightarrow> bsize m (W a) = m (a + 4)"
    "a + 16 \<le> 4294967296 \<Longrightarrow> flink m (W a) = m (a + 8)" "a + 16 \<le> 4294967296 \<Longrightarrow> blink m (W a) = m (a + 12)"
    "a + 16 \<le> 4294967296 \<Longrightarrow> set_prevfree (W a) v m = m(a := v)" "a + 16 \<le> 4294967296 \<Longrightarrow> set_bsize (W a) v m = m(a + 4 := v)"
    "a + 16 \<le> 4294967296 \<Longrightarrow> set_flink (W a) v m = m(a + 8 := v)" "a + 16 \<le> 4294967296 \<Longrightarrow> set_blink (W a) v m = m(a + 12 := v)"
    "a + 8 \<le> 4294967296 \<Longrightarrow> prevfree m (W a) = m a" "a + 8 \<le> 4294967296 \<Longrightarrow> bsize m (W a) = m (a + 4)"
    "a + 8 \<le> 4294967296 \<Longrightarrow> set_prevfree (W a) v m = m(a := v)" "a + 8 \<le> 4294967296 \<Longrightarrow> set_bsize (W a) v m = m(a + 4 := v)"
    using u4 u8 u12 by (simp_all add: prevfree_def bsize_def flink_def blink_def set_prevfree_def set_bsize_def set_flink_def set_blink_def)
qed

lemma chain_splice:
  assumes "chain m p as x" "chain m x bs q" "distinct (as @ bs)" "p \<notin> set (as @ bs)" "q \<notin> set (as @ bs)"
    and "\<forall>u\<in>set (p # as @ bs @ [q]). \<forall>v\<in>set (p # as @ bs @ [q]). u + 8 \<noteq> v + 12"
  shows "chain (m(last (p # as) + 8 := W (hd (bs @ [q])), hd (bs @ [q]) + 12 := W (last (p # as)))) p (as @ bs) q"
  using assms
proof (induction as arbitrary: p)
  case Nil
  show ?case
  proof (cases bs)
    case (Cons y ys)
    let ?m = "m(p + 8 := W y)"
    have "chain ?m y ys q = chain m y ys q" using Nil.prems Cons by (intro chain_upd) auto
    moreover have "chain (?m(y + 12 := W p)) y ys q = chain ?m y ys q" using Nil.prems Cons by (intro chain_upd) auto
    moreover have "chain m y ys q" using Nil.prems(2) Cons by simp
    moreover have "(?m(y + 12 := W p)) (p + 8) = W y" "(?m(y + 12 := W p)) (y + 12) = W p" using Nil.prems(6) Cons by auto
    ultimately show ?thesis unfolding Cons append_Nil append_Cons last.simps list.sel chain.simps simp_thms(6) if_True by blast
  qed (use Nil.prems in simp)
next
  case (Cons a as)
  define l where "l = last (a # as)"
  define h where "h = hd (bs @ [q])"
  have lh: "l \<in> set (a # as)" "h \<in> set (bs @ [q])" unfolding l_def h_def by (rule last_in_set, simp, rule hd_in_set, simp)
  let ?m = "m(l + 8 := W h, h + 12 := W l)"
  have "chain ?m a (as @ bs) q" unfolding l_def h_def using Cons.prems by (intro Cons.IH) auto
  moreover have ap: "u + 8 \<noteq> v + 12" if "u \<in> insert p (set (a # as @ bs @ [q]))" "v \<in> insert p (set (a # as @ bs @ [q]))" for u v
    using Cons.prems(6) that by auto
  have "?m (p + 8) = W a" "?m (a + 12) = W p"
    using Cons.prems(1,3-5) lh ap [of p h] ap [of l a] ap [of l h] by auto
  moreover have "last (p # a # as) = l" by (simp add: l_def)
  ultimately show ?case unfolding h_def [symmetric] append_Cons chain.simps by (simp only: simp_thms)
qed

lemma dechain_ok:
  assumes ok: "pool_ok F base bs" and ch: "chain m F (as @ x # cs) F" and dist: "distinct (as @ x # cs)" and sub: "set (as @ x # cs) \<subseteq> set (frees base bs)"
  shows "\<exists>m'. dechain (W x) m = Some m' \<and> chain m' F (as @ cs) F \<and> agree (hdrs base bs \<union> prot base bs) m m'"
proof -
  have F: "F \<notin> set (frees base bs)" using ok frees_range [of bs F base] by (auto simp: pool_ok_def)
  have N: "set (as @ x # cs) \<subseteq> nodes F base bs" "F \<in> nodes F base bs" using sub by (auto simp: nodes_def)
  let ?l = "last (F # as)" and ?h = "hd (cs @ [F])"
  have c: "chain m F as x" "chain m x cs F" using ch by (simp_all add: chain_append)
  have l: "?l \<in> set (F # as)" by (rule last_in_set) simp
  have h: "?h \<in> set (cs @ [F])" by (rule hd_in_set) simp
  have n: "?l \<in> nodes F base bs" "?h \<in> nodes F base bs" "x \<in> nodes F base bs" using l h N by auto
  note lt = node_lt [OF ok n(1)] node_lt [OF ok n(2)] node_lt [OF ok n(3)]
  have e: "m (x + 8) = W ?h" "m (x + 12) = W ?l" using chain_first [OF c(2)] chain_end [OF c(1)] by simp_all
  have e': "m (?l + 8) = W x" "m (?h + 12) = W x"
  proof -
    show "m (?l + 8) = W x" using c(1) by (induction m F as x rule: chain.induct) auto
    show "m (?h + 12) = W x" using c(2) by (cases cs) auto
  qed
  let ?m = "m(?l + 8 := W ?h, ?h + 12 := W ?l)"
  have ap: "u + 8 \<noteq> v + 12" if "u \<in> nodes F base bs" "v \<in> nodes F base bs" for u v using node_apart [OF ok that] .
  have x: "x \<noteq> ?l" using l dist F sub by auto
  have "blink (m(?l + 8 := W ?h)) (W x) = W ?l" "flink (m(?l + 8 := W ?h)) (W x) = W ?h"
    using lt ap [OF n(1) n(3)] e x by (simp_all add: mem_at)
  then have "dechain (W x) m = Some ?m"
    using lt e e' by (simp add: dechain_def Let_def mem_at)
  moreover have "chain ?m F (as @ cs) F"
    using N F dist sub ap by (intro chain_splice [OF c]) auto
  moreover have "agree (hdrs base bs \<union> prot base bs) m ?m"
    using links_apart_prot [OF ok n(1)] links_apart_prot [OF ok n(2)] links_apart_hdrs [OF ok n(1)] links_apart_hdrs [OF ok n(2)]
    by (intro agree_upd) auto
  ultimately show ?thesis by (intro exI [of _ ?m]) auto
qed

text \<open>Appending a node that is not on the list.\<close>

lemma chain_append_last:
  assumes "chain m F fl F" "x \<notin> set fl" "x \<noteq> F" "F \<notin> set fl"
    and "\<forall>u\<in>set (x # F # fl). \<forall>v\<in>set (x # F # fl). u + 8 \<noteq> v + 12" "distinct fl"
  shows "chain (m(x + 8 := W F, x + 12 := W (last (F # fl)), F + 12 := W x, last (F # fl) + 8 := W x)) F (fl @ [x]) F"
proof -
  let ?l = "last (F # fl)" and ?m1 = "m(x + 8 := W F, x + 12 := W (last (F # fl)))"
  have l: "?l \<in> set (F # fl)" by (rule last_in_set) simp
  have ap: "u + 8 \<noteq> v + 12" if "u \<in> set (x # F # fl)" "v \<in> set (x # F # fl)" for u v using assms(5) that by blast
  have c: "chain (?m1(F + 12 := W x, ?l + 8 := W x)) p ys x" if "chain m p ys F" "last (p # ys) = ?l" "p \<notin> set ys" "set (p # ys) \<subseteq> set (F # fl)" "distinct ys" "F \<notin> set ys" for p ys
    using that
  proof (induction ys arbitrary: p)
    case Nil
    then have p: "p = ?l" by simp
    have "?l \<noteq> x" using l assms(2,3) by auto
    moreover have "x + 12 \<noteq> ?l + 8" using ap [of ?l x] l by auto
    ultimately show ?case using p assms(3) by simp
  next
    case (Cons y ys)
    have y: "y \<in> set fl" "p \<in> set (F # fl)" using Cons.prems by auto
    have "p \<noteq> ?l" using Cons.prems(2,3) last_in_set [of "y # ys"] by auto
    moreover have "y + 12 \<noteq> ?l + 8" "F + 12 \<noteq> p + 8" "x + 12 \<noteq> p + 8" "x + 8 \<noteq> y + 12" using ap [of ?l y] ap [of p F] ap [of p x] ap [of x y] l y by auto
    moreover have "x \<noteq> y" "x \<noteq> p" "F \<noteq> y" using y assms(2,3,4) by auto
    ultimately show ?case using Cons by auto
  qed
  have "chain (?m1(F + 12 := W x, ?l + 8 := W x)) F fl x" using assms by (intro c) auto
  moreover have "x \<noteq> ?l" using l assms(2,3) by auto
  moreover have "?l + 8 \<noteq> F + 12" "x + 8 \<noteq> F + 12" "x + 8 \<noteq> x + 12" using ap [of ?l F] ap [of x F] l by auto
  ultimately show ?thesis by (simp add: chain_append)
qed

section \<open>Finding a block\<close>

abbreviation (input) bsz :: "heap_mem \<Rightarrow> nat \<Rightarrow> nat" where
  "bsz m x \<equiv> unat (m (x + 4))"

lemma free_block:
  assumes "pool_ok F base bs" "headers m base 0 bs" "x \<in> set (frees base bs)"
  obtains us n vs where "bs = us @ (True, n) # vs" "x = base + total_size us" "m (x + 4) = W n" "bsz m x = n" "16 \<le> n" "n < 2147483648"
proof -
  obtain us n vs where b: "bs = us @ (True, n) # vs" "x = base + total_size us" using frees_split [OF assms(3)] by blast
  then have "16 \<le> n" "n < 2147483648" using assms(1) by (auto simp: pool_ok_def)
  moreover have "m (x + 4) = W n" using assms(2) b by (simp add: headers_append)
  ultimately show thesis using b that by simp
qed

lemma F_not_free: "pool_ok F base bs \<Longrightarrow> F \<notin> set (frees base bs)"
  using frees_range [of bs F base] by (auto simp: pool_ok_def)

lemma W_node: "pool_ok F base bs \<Longrightarrow> x \<in> nodes F base bs \<Longrightarrow> y \<in> nodes F base bs \<Longrightarrow> W x = W y \<longleftrightarrow> x = y"
  using node_lt by (intro W_inj) fastforce+

lemma best_fit_ok:
  assumes ok: "pool_ok F base bs" "headers m base 0 bs" 
    and "chain m p xs F" "set xs \<subseteq> set (frees base bs)"
    and "best = F \<or> best \<in> set (frees base bs) \<and> sint w \<le> int (bsz m best)"
  shows "\<exists>r. best_fit m (W F) w (W (hd (xs @ [F]))) (W best) = Some (W r) \<and>
    (r = F \<and> best = F \<and> (\<forall>x\<in>set xs. int (bsz m x) < sint w) \<or>
     r \<in> set (frees base bs) \<and> sint w \<le> int (bsz m r) \<and> (\<forall>x\<in>set xs. sint w \<le> int (bsz m x) \<longrightarrow> bsz m r \<le> bsz m x) \<and> (best = F \<or> bsz m r \<le> bsz m best))"
  using assms(3-5)
proof (induction xs arbitrary: p best)
  case Nil
  have "best_fit m (W F) w (W F) (W best) = Some (W best)" by (subst best_fit.simps) simp
  with Nil show ?case by (intro exI [of _ best]) auto
next
  case (Cons x xs)
  have x: "x \<in> set (frees base bs)" using Cons.prems by simp
  have N: "x \<in> nodes F base bs" "best \<in> nodes F base bs" "F \<in> nodes F base bs" using x Cons.prems(3) by (auto simp: nodes_def)
  obtain n where n: "m (x + 4) = W n" "n < 2147483648" by (rule free_block [OF ok x])
  have b: "sint (m (best + 4)) = int (bsz m best)" if "best \<noteq> F"
  proof -
    have "best \<in> set (frees base bs)" using Cons.prems(3) that by simp
    then obtain k where "m (best + 4) = W k" "k < 2147483648" by (rule free_block [OF ok])
    then show ?thesis by (simp add: sint_W)
  qed
  have ne: "W x \<noteq> W F" "W best = W F \<longleftrightarrow> best = F" using W_node [OF ok(1) N(1,3)] W_node [OF ok(1) N(2,3)] F_not_free [OF ok(1)] x by auto
  let ?best = "if sint w \<le> int n \<and> (best = F \<or> n < bsz m best) then x else best"
  have fl: "flink m (W x) = W (hd (xs @ [F]))" using node_lt [OF ok(1) N(1)] chain_first [of m x xs F] Cons.prems(1) by (simp add: mem_at)
  have sz: "bsize m (W x) = W n" "bsize m (W best) = m (best + 4)" using node_lt [OF ok(1) N(1)] node_lt [OF ok(1) N(2)] n by (simp_all add: mem_at)
  have c: "(if sint (bsize m (W x)) \<ge> sint w \<and> (W best = W F \<or> sint (bsize m (W x)) < sint (bsize m (W best))) then W x else W best) = W ?best"
  proof (cases "best = F")
    case False
    then have "sint (W n) < sint (m (best + 4)) \<longleftrightarrow> n < bsz m best" unfolding b [OF False] sint_W [OF n(2)] by (simp only: of_nat_less_iff)
    then show ?thesis unfolding sz ne sint_W [OF n(2)] using False by simp
  qed (simp add: sz sint_W n)
  have "best_fit m (W F) w (W x) (W best) = best_fit m (W F) w (W (hd (xs @ [F]))) (W ?best)"
    unfolding best_fit.simps [of m "W F" w "W x"] c fl using ne(1) by simp
  note step = this
  have u: "uint (W n) = int n" using n(2) by (simp add: unsigned_of_nat take_bit_nat_eq_self)
  have "?best = F \<or> ?best \<in> set (frees base bs) \<and> sint w \<le> int (bsz m ?best)" using Cons.prems(3) x n u by auto
  with step obtain r where r: "best_fit m (W F) w (W x) (W best) = Some (W r)"
    "r = F \<and> ?best = F \<and> (\<forall>x\<in>set xs. int (bsz m x) < sint w) \<or>
     r \<in> set (frees base bs) \<and> sint w \<le> int (bsz m r) \<and> (\<forall>x\<in>set xs. sint w \<le> int (bsz m x) \<longrightarrow> bsz m r \<le> bsz m x) \<and> (?best = F \<or> bsz m r \<le> bsz m ?best)"
    using Cons.IH [of x ?best] Cons.prems(1,2) by auto
  then show ?case using n u x F_not_free [OF ok(1)] Cons.prems(3) by (intro exI [of _ r]) (auto split: if_splits)
qed

lemma headers_after_free: "headers m a pf bs \<Longrightarrow> pf \<noteq> 0 \<Longrightarrow> bs = [] \<or> \<not> fst (hd bs)"
  by (cases bs) auto

section \<open>Allocating\<close>

definition heap_ok :: "nat \<Rightarrow> nat \<Rightarrow> blocks \<Rightarrow> heap_mem \<Rightarrow> bool" where
  "heap_ok F base bs m \<longleftrightarrow> (\<exists>fl. heap_rep F base bs fl m)"

lemma pool_ok_same:
  "pool_ok F base bs \<Longrightarrow> total_size bs' = total_size bs \<Longrightarrow> sizes_ok bs' \<Longrightarrow> pool_ok F base bs'"
  by (simp add: pool_ok_def)

lemma split_block_ok:
  assumes rep: "heap_rep F base (us @ (True, d + z) # vs) fl m" and z: "16 < d" "16 \<le> z" "4 dvd z"
  defines "x \<equiv> base + total_size us" and "bs' \<equiv> us @ (True, d) # (False, z) # vs"
  shows "\<exists>m'. split_block (W x) (W z) m = Some (W (x + d + 8), m') \<and> heap_rep F base bs' fl m' \<and> agree (prot base bs') m m'"
proof -
  note R = rep [unfolded heap_rep_def]
  have P: "pool_ok F base (us @ (True, d + z) # vs)" using R by simp
  then have d: "4 dvd d" using z(3) by (auto simp: pool_ok_def dvd_add_left_iff)
  then have P': "pool_ok F base bs'" using P z by (auto simp: pool_ok_def bs'_def add.assoc)
  have lt: "x + d + z + 8 \<le> 4294967296" using P by (simp add: pool_ok_def x_def)
  have h: "hdr_seq m base 0 us" "m x = W (prev_of 0 us)" "m (x + 4) = W (d + z)" "prev_of 0 us = 0" "headers m (x + d + z) (d + z) vs"
    using R by (simp_all add: headers_append x_def add.assoc)
  have vs: "sizes_ok us" "sizes_ok vs" "vs = [] \<or> \<not> fst (hd vs)" using P headers_after_free [OF h(5)] z by (auto simp: pool_ok_def)
  let ?m1 = "m(x + 4 := W d)" and ?m2 = "m(x + 4 := W d, x + d := W d)" and ?m3 = "m(x + 4 := W d, x + d := W d, x + d + 4 := - W z)"
  let ?m = "m(x + 4 := W d, x + d := W d, x + d + 4 := - W z, x + d + z := 0)"
  have b: "x + 16 \<le> 4294967296" "x + d + 8 \<le> 4294967296" using lt z by simp_all
  have pf: "prevfree m (W (x + d + z)) = W (d + z)" unfolding mem_at(9) [OF lt] using h(5) by (cases vs) auto
  have k: "W (d + z) - W z = W d" "W x + W d = W (x + d)" "W (x + d) + W z = W (x + d + z)" "W (x + d) + 8 = W (x + d + 8)" by simp_all
  have s: "bsize m (W x) = W (d + z)" "set_bsize (W x) (W d) m = ?m1" "bsize ?m1 (W x) = W d" "set_prevfree (W (x + d)) (W d) ?m1 = ?m2"
    "set_bsize (W (x + d)) (- W z) ?m2 = ?m3" "set_prevfree (W (x + d + z)) 0 ?m3 = ?m"
    using mem_at(2) [OF b(1)] mem_at(6) [OF b(1)] mem_at(11,12) [OF b(2)] mem_at(11) [OF lt] h(3) by simp_all
  have "split_block (W x) (W z) m = Some (W (x + d + 8), ?m)"
    unfolding split_block_def Let_def s(1) k pf by (simp only: KASSERT_bind s simp_thms if_True k)
  moreover have "headers ?m base 0 bs'"
  proof -
    have "hdr_seq ?m base 0 us" using h(1) vs(1) x_def by (simp add: hdr_seq_upd)
    moreover have "headers ?m (x + d + z) 0 vs"
    proof -
      have "headers ?m3 (x + d + z) (d + z) vs" using h(5) vs(2) z by (simp add: headers_low)
      from headers_set_first [OF this vs(2), of 0] show ?thesis by simp
    qed
    moreover have "?m x = W 0" "?m (x + 4) = W d" "?m (x + d) = W d" "?m (x + d + 4) = - W z" using h(2,4) z by auto
    ultimately show ?thesis using h(4) unfolding bs'_def headers_append x_def [symmetric] headers.simps if_True if_False simp_thms by (simp only: simp_thms)
  qed
  moreover have fr: "frees base bs' = frees base (us @ (True, d + z) # vs)" by (simp add: bs'_def frees_append add.assoc)
  moreover have hk: "x + 4 \<in> hdrs base bs'" "x + d \<in> hdrs base bs'" "x + d + 4 \<in> hdrs base bs'" "x + d + z \<in> hdrs base bs'"
  proof -
    have "x + d + z \<in> hdrs (x + d + z) vs" by (cases vs) auto
    moreover have "{x, x + 4, x + d, x + d + 4} \<union> hdrs (x + d + z) vs \<subseteq> hdrs base bs'"
      using hdrs_append [of base us "(True, d) # (False, z) # vs"] by (auto simp: bs'_def x_def [symmetric])
    ultimately show "x + 4 \<in> hdrs base bs'" "x + d \<in> hdrs base bs'" "x + d + 4 \<in> hdrs base bs'" "x + d + z \<in> hdrs base bs'" by auto
  qed
  moreover have "chain ?m F fl F"
  proof -
    have "set (F # fl @ [F]) \<subseteq> nodes F base bs'" using R fr by (auto simp: nodes_def)
    note c = header_write_chain [OF P' _ this]
    show ?thesis using R c [OF hk(1)] c [OF hk(2)] c [OF hk(3)] c [OF hk(4)] by simp
  qed
  moreover have "agree (prot base bs') m ?m" using hk hdrs_apart_prot [OF P'] by (intro agree_upd) auto
  ultimately show ?thesis using P' R by (intro exI [of _ ?m]) (simp add: heap_rep_def)
qed

lemma whole_block_ok:
  assumes rep: "heap_rep F base (us @ (True, n) # vs) fl m"
  defines "x \<equiv> base + total_size us" and "bs' \<equiv> us @ (False, n) # vs"
  shows "\<exists>fl' m'. whole_block (W x) m = Some (W (x + 8), m') \<and> heap_rep F base bs' fl' m' \<and> agree (prot base (us @ (True, n) # vs)) m m'"
proof -
  let ?bs = "us @ (True, n) # vs"
  note R = rep [unfolded heap_rep_def]
  have P: "pool_ok F base ?bs" using R by simp
  then have P': "pool_ok F base bs'" by (auto simp: pool_ok_def bs'_def)
  have lt: "x + n + 8 \<le> 4294967296" "16 \<le> n" using P by (simp_all add: pool_ok_def x_def)
  have xf: "x \<in> set (frees base ?bs)" by (simp add: frees_append x_def)
  then obtain as cs where fl: "fl = as @ x # cs" using R by (metis split_list)
  have di: "distinct (as @ x # cs)" "set (as @ x # cs) \<subseteq> set (frees base ?bs)" using R fl by auto
  obtain m1 where m1: "dechain (W x) m = Some m1" "chain m1 F (as @ cs) F" "agree (hdrs base ?bs \<union> prot base ?bs) m m1"
    using dechain_ok [OF P _ di, of m] R fl by auto
  have hs: "headers m1 base 0 ?bs" using R headers_cong [OF agree_mono [OF m1(3)], of base ?bs 0] by auto
  then have h: "hdr_seq m1 base 0 us" "m1 x = W (prev_of 0 us)" "m1 (x + 4) = W n" "prev_of 0 us = 0" "headers m1 (x + n) n vs"
    by (simp_all add: headers_append x_def)
  have h0: "m (x + 4) = W n" "m (x + n) = W n" using R by (simp_all add: headers_append x_def) (cases vs; auto)
  have vs: "sizes_ok us" "sizes_ok vs" using P by (auto simp: pool_ok_def)
  let ?m2 = "m1(x + 4 := - W n)" and ?m = "m1(x + 4 := - W n, x + n := 0)"
  have b: "x + 16 \<le> 4294967296" using lt by simp
  have s: "bsize m (W x) = W n" "bsize m1 (W x) = W n" "set_bsize (W x) (- W n) m1 = ?m2" "W x + W n = W (x + n)" "prevfree m (W (x + n)) = W n"
    "set_prevfree (W (x + n)) 0 ?m2 = ?m" "W x + 8 = W (x + 8)"
    using mem_at(2,6) [OF b] mem_at(9,11) [OF lt(1)] h(3) h0 by simp_all
  have "whole_block (W x) m = Some (W (x + 8), ?m)"
    unfolding whole_block_def Let_def by (simp only: KASSERT_bind s simp_thms if_True m1(1) bind.bind_lunit)
  moreover have "headers ?m base 0 bs'"
  proof -
    have "hdr_seq ?m base 0 us" using h(1) vs(1) x_def by (simp add: hdr_seq_upd)
    moreover have "headers ?m (x + n) 0 vs"
    proof -
      have "headers ?m2 (x + n) n vs" using h(5) vs(2) lt(2) by (simp add: headers_low)
      from headers_set_first [OF this vs(2), of 0] show ?thesis by simp
    qed
    moreover have "?m x = W 0" "?m (x + 4) = - W n" using h(2,4) lt(2) by auto
    ultimately show ?thesis using h(4) unfolding bs'_def headers_append x_def [symmetric] headers.simps if_True if_False simp_thms by (simp only: simp_thms)
  qed
  moreover have hk: "x + 4 \<in> hdrs base ?bs" "x + n \<in> hdrs base ?bs"
  proof -
    have "x + n \<in> hdrs (x + n) vs" by (cases vs) auto
    then show "x + 4 \<in> hdrs base ?bs" "x + n \<in> hdrs base ?bs" using hdrs_append [of base us "(True, n) # vs"] by (auto simp: x_def [symmetric])
  qed
  moreover have "chain ?m F (as @ cs) F"
  proof -
    have "set (F # (as @ cs) @ [F]) \<subseteq> nodes F base ?bs" using di by (auto simp: nodes_def)
    note c = header_write_chain [OF P _ this]
    show ?thesis using m1(2) c [OF hk(1)] c [OF hk(2)] by simp
  qed
  moreover have "agree (prot base ?bs) m ?m" using hk hdrs_apart_prot [OF P] agree_mono [OF m1(3)] by (intro agree_upd) auto
  moreover have "set (as @ cs) = set (frees base bs')" "distinct (as @ cs)"
  proof -
    have "set (frees base ?bs) = insert x (set (frees base bs'))" "x \<notin> set (frees base bs')"
      using frees_range [OF vs(1), of x base] frees_range [OF vs(2), of x "x + n"] lt(2) by (auto simp: bs'_def frees_append x_def)
    then show "set (as @ cs) = set (frees base bs')" using R fl di(1) by auto
    show "distinct (as @ cs)" using di by simp
  qed
  ultimately show ?thesis using P' by (intro exI [of _ "as @ cs"] exI [of _ ?m]) (simp add: heap_rep_def)
qed

lemma and_not_3: "unat ((a :: u32) AND NOT 3) = unat a div 4 * 4"
proof -
  have "a AND NOT (mask 2) = push_bit 2 (drop_bit 2 a)" by (rule bit_word_eqI) (auto simp: bit_simps simp flip: Suc_diff_le numeral_2_eq_2)
  moreover have "mask 2 = (3 :: u32)" by (simp add: mask_eq_exp_minus_1)
  moreover have "unat (push_bit 2 (drop_bit 2 a)) = unat a div 4 * 4"
  proof -
    have "unat (drop_bit 2 a) = unat a div 4" by (simp only: unat_drop_bit_eq) (simp add: drop_bit_eq_div)
    then have "drop_bit 2 a = W (unat a div 4)" by (simp flip: \<open>unat (drop_bit 2 a) = unat a div 4\<close>)
    then have "push_bit 2 (drop_bit 2 a) = W (unat a div 4 * 4)" by (simp add: push_bit_eq_mult)
    moreover have "unat a div 4 * 4 < 4294967296" using unat_lt_32 [of a] by simp
    ultimately show ?thesis by (simp only: unat_W)
  qed
  ultimately show ?thesis by simp
qed

definition need :: "nat \<Rightarrow> nat" where
  "need sz = (max 8 sz + 3) div 4 * 4 + 8"

lemma need_facts: "16 \<le> need sz" "4 dvd need sz" "sz + 8 \<le> need sz" "sz \<le> 2147483632 \<Longrightarrow> need sz < 2147483648"
proof -
  show "4 dvd need sz" by (simp add: need_def dvd_add)
  show "16 \<le> need sz" "sz + 8 \<le> need sz" "sz \<le> 2147483632 \<Longrightarrow> need sz < 2147483648" unfolding need_def by presburger+
qed

lemma request_size_need:
  assumes "unat sz \<le> 2147483632"
  shows "request_size sz = W (need (unat sz))"
proof -
  have m: "unat (if sz < 8 then 8 else sz) = max 8 (unat sz)" by (simp add: word_less_nat_alt max_def)
  have "unat ((if sz < 8 then 8 else sz) + 3) = max 8 (unat sz) + 3" using assms m by (simp add: unat_plus_if' max_def)
  then have u: "unat (((if sz < 8 then 8 else sz) + 3) AND NOT 3) = (max 8 (unat sz) + 3) div 4 * 4" by (simp only: and_not_3)
  have "((if sz < 8 then 8 else sz) + 3) AND NOT 3 = W ((max 8 (unat sz) + 3) div 4 * 4)" unfolding u [symmetric] by simp
  then show ?thesis unfolding request_size_def need_def by (simp only: of_nat_add) simp
qed

text \<open>The layouts after an allocation of \<open>z\<close> bytes with their header: the buffer is at \<open>p\<close> and has \<open>l\<close> bytes.\<close>

definition carved :: "nat \<Rightarrow> nat \<Rightarrow> blocks \<Rightarrow> nat \<Rightarrow> nat \<Rightarrow> blocks \<Rightarrow> bool" where
  "carved base z bs p l bs' \<longleftrightarrow> (\<exists>us n vs. bs = us @ (True, n) # vs \<and> z \<le> n \<and> (\<forall>(f, k) \<in> set bs. f \<longrightarrow> z \<le> k \<longrightarrow> n \<le> k) \<and>
     (16 < n - z \<and> bs' = us @ (True, n - z) # (False, z) # vs \<and> p = base + total_size us + (n - z) + 8 \<and> l = z - 8 \<or>
      n - z \<le> 16 \<and> bs' = us @ (False, n) # vs \<and> p = base + total_size us + 8 \<and> l = n - 8))"

lemma frees_blocks: "(True, n) \<in> set bs \<Longrightarrow> headers m a pf bs \<Longrightarrow> \<exists>x \<in> set (frees a bs). m (x + 4) = W n"
  by (induction m a pf bs rule: headers.induct) auto

lemma bget_ok:
  assumes "heap_ok F base bs m" "0 < sz" "unat sz \<le> 2147483632"
  shows "(bget (W F) sz m = Some (0, m) \<and> (\<forall>(f, n) \<in> set bs. f \<longrightarrow> n < need (unat sz))) \<or>
    (\<exists>p l bs' m'. bget (W F) sz m = Some (W p, m') \<and> carved base (need (unat sz)) bs p l bs' \<and> heap_ok F base bs' m' \<and> agree (prot base bs) m m')"
proof -
  let ?z = "need (unat sz)"
  obtain fl where rep: "heap_rep F base bs fl m" using assms(1) by (auto simp: heap_ok_def)
  note R = rep [unfolded heap_rep_def]
  have P: "pool_ok F base bs" "headers m base 0 bs" using R by auto
  note z = need_facts(1,2) [of "unat sz"] need_facts(4) [OF assms(3)]
  have FN: "F \<in> nodes F base bs" by (simp add: nodes_def)
  have fb: "\<exists>x \<in> set (frees base bs). bsz m x = n" if "(True, n) \<in> set bs" for n
  proof -
    have "n < 2147483648" using that P(1) member_le_sum_list [of n "List.map snd bs"] by (force simp: pool_ok_def total_size_def)
    then have "unat (W n) = n" by simp
    then show ?thesis using frees_blocks [OF that P(2)] by (metis)
  qed
  have f: "flink m (W F) = W (hd (fl @ [F]))" using chain_first [of m F fl F] R node_lt [OF P(1) FN] by (simp add: mem_at)
  obtain r where r: "best_fit m (W F) (W ?z) (W (hd (fl @ [F]))) (W F) = Some (W r)"
    "r = F \<and> (\<forall>x\<in>set fl. bsz m x < ?z) \<or> r \<in> set (frees base bs) \<and> ?z \<le> bsz m r \<and> (\<forall>x\<in>set fl. ?z \<le> bsz m x \<longrightarrow> bsz m r \<le> bsz m x)"
    using best_fit_ok [OF P, of F fl F "W ?z"] R unfolding sint_W [OF z(3)] of_nat_le_iff of_nat_less_iff by auto
  have "sint sz > 0"
  proof -
    have "unat sz < 2 ^ 31" "0 < unat sz" using assms(2,3) by (simp_all add: word_greater_zero_iff unat_gt_0)
    then show ?thesis by (simp only: sint_small of_nat_0_less_iff)
  qed
  then have b: "bget (W F) sz m = fit_loop (W F) (W ?z) (W r) m"
    unfolding bget_def Let_def request_size_need [OF assms(3)] f r(1) by simp
  show ?thesis
  proof (cases "r = F")
    case True
    then have "bget (W F) sz m = Some (0, m)" unfolding b by (subst fit_loop.simps) simp
    moreover have "n < ?z" if "(True, n) \<in> set bs" for n using fb [OF that] r(2) True R F_not_free [OF P(1)] by auto
    ultimately show ?thesis by auto
  next
    case False
    then have r2: "r \<in> set (frees base bs)" "?z \<le> bsz m r" "\<forall>x\<in>set fl. ?z \<le> bsz m x \<longrightarrow> bsz m r \<le> bsz m x" using r(2) by auto
    obtain us n vs where us: "bs = us @ (True, n) # vs" "r = base + total_size us" "m (r + 4) = W n" "bsz m r = n" "16 \<le> n" "n < 2147483648"
      by (rule free_block [OF P r2(1)])
    have rn: "r \<in> nodes F base bs" using r2(1) by (simp add: nodes_def)
    have best: "\<forall>(f, k) \<in> set bs. f \<longrightarrow> ?z \<le> k \<longrightarrow> n \<le> k" using fb r2(3) us(4) R by fastforce
    have sz: "bsize m (W r) = W n" using us(3) node_lt [OF P(1) rn] by (simp add: mem_at)
    have d: "W n - W ?z = W (n - ?z)" "n - ?z < 4294967296" using r2(2) us(4,6) by (simp_all add: of_nat_diff)
    have big: "W n - W ?z > SizeQ + SIZE_BHEAD \<longleftrightarrow> 16 < n - ?z" unfolding d(1) word_less_nat_alt unat_W [OF d(2)] by simp
    have "fit_loop (W F) (W ?z) (W r) m = (if 16 < n - ?z then split_block (W r) (W ?z) m else whole_block (W r) m)"
      unfolding fit_loop.simps [of "W F" "W ?z" "W r"] sz big W_node [OF P(1) rn FN] sint_W [OF us(6)] sint_W [OF z(3)]
      using False r2(2) us(4) by simp
    note c = b [unfolded this]
    show ?thesis
    proof (cases "16 < n - ?z")
      case True
      have n: "n = n - ?z + ?z" using r2(2) us(4) by simp
      then have "heap_rep F base (us @ (True, n - ?z + ?z) # vs) fl m" using rep us(1) by simp
      from split_block_ok [OF this True z(1,2)] obtain m' where m': "split_block (W r) (W ?z) m = Some (W (r + (n - ?z) + 8), m')"
        "heap_rep F base (us @ (True, n - ?z) # (False, ?z) # vs) fl m'" "agree (prot base (us @ (True, n - ?z) # (False, ?z) # vs)) m m'"
        unfolding us(2) by blast
      have "prot base bs \<subseteq> prot base (us @ (True, n - ?z) # (False, ?z) # vs)"
        using n by (simp add: us(1) prot_append add.assoc) auto
      then have "agree (prot base bs) m m'" using m'(3) agree_mono by blast
      moreover have "carved base ?z bs (r + (n - ?z) + 8) (?z - 8) (us @ (True, n - ?z) # (False, ?z) # vs)"
        unfolding carved_def using us(1,2) n True best by (intro exI [of _ us] exI [of _ n] exI [of _ vs]) auto
      ultimately show ?thesis using c True m' unfolding heap_ok_def by (intro disjI2) (simp only: if_True, blast)
    next
      case False
      obtain fl' m' where m': "whole_block (W r) m = Some (W (r + 8), m')" "heap_rep F base (us @ (False, n) # vs) fl' m'" "agree (prot base bs) m m'"
        using whole_block_ok [of F base us n vs fl m] rep us(1,2) by auto
      moreover have "carved base ?z bs (r + 8) (n - 8) (us @ (False, n) # vs)"
        unfolding carved_def using us(1,2) r2(2) us(4) False best by (intro exI [of _ us] exI [of _ n] exI [of _ vs]) auto
      ultimately show ?thesis using c False unfolding heap_ok_def by (intro disjI2) (simp only: if_False, blast)
    qed
  qed
qed

end
