(* ===== verification/Malloc.thy ===== *)
theory Malloc
  imports Bget
begin

text \<open>
  Releasing a buffer of the allocator (\<open>brel\<close> of \<open>geekos/bget.c\<close>), and what \<open>Malloc\<close> and \<open>Free\<close> promise together.
\<close>

section \<open>Releasing\<close>

text \<open>The released block joined with its predecessor, before its successor is looked at.\<close>

definition joined :: "nat \<Rightarrow> nat \<Rightarrow> blocks \<Rightarrow> nat \<Rightarrow> blocks \<Rightarrow> nat list \<Rightarrow> heap_mem \<Rightarrow> bool" where
  "joined F base us k vs fl m \<longleftrightarrow> pool_ok F base (us @ (True, k) # vs) \<and> hdr_seq m base 0 us \<and> prev_of 0 us = 0 \<and>
     m (base + total_size us) = 0 \<and> m (base + total_size us + 4) = W k \<and> headers m (base + total_size us + k) 0 vs \<and>
     chain m F fl F \<and> distinct fl \<and> set fl = set (frees base (us @ (True, k) # vs))"

fun join_vs :: "nat \<Rightarrow> blocks \<Rightarrow> nat \<times> blocks" where
  "join_vs k ((True, q) # vs) = (k + q, vs)"
| "join_vs k vs = (k, vs)"

definition release :: "blocks \<Rightarrow> nat \<Rightarrow> blocks \<Rightarrow> blocks" where
  "release us n vs = (let (us, n) = (if us \<noteq> [] \<and> fst (last us) then (butlast us, snd (last us) + n) else (us, n)); (k, vs) = join_vs n vs
     in us @ (True, k) # vs)"

lemma hdr_seq_cong: "\<forall>j \<in> hdrs a us. j < a + total_size us \<longrightarrow> m' j = m j \<Longrightarrow> sizes_ok us \<Longrightarrow> hdr_seq m' a pf us = hdr_seq m a pf us"
proof (induction m a pf us rule: hdr_seq.induct)
  case (2 m a pf f n us)
  have "hdr_seq m' (a + n) (if f then n else 0) us = hdr_seq m (a + n) (if f then n else 0) us"
    using 2(2,3) by (intro 2(1)) (auto simp: add.assoc)
  moreover have "m' a = m a" "m' (a + 4) = m (a + 4)" using 2(2,3) by auto
  ultimately show ?case by simp
qed simp

lemma hdrs_prefix: "j \<in> hdrs a us \<Longrightarrow> j < a + total_size us \<Longrightarrow> j \<in> hdrs a (us @ xs)"
  by (induction a us rule: hdrs.induct) (auto simp: add.assoc)

lemma join_next_ok:
  assumes J: "joined F base us k vs fl m"
  shows "\<exists>fl' m'. join_next (W (base + total_size us)) m = Some m' \<and> heap_rep F base (us @ (True, fst (join_vs k vs)) # snd (join_vs k vs)) fl' m' \<and>
    agree (prot base (us @ (True, k) # vs)) m m'"
proof -
  define y where "y = base + total_size us"
  have P: "pool_ok F base (us @ (True, k) # vs)" "hdr_seq m base 0 us" "prev_of 0 us = 0" "m y = 0" "m (y + 4) = W k" "headers m (y + k) 0 vs"
    "chain m F fl F" "distinct fl" "set fl = set (frees base (us @ (True, k) # vs))" using J by (simp_all add: joined_def y_def)
  have so: "sizes_ok us" "16 \<le> k" "4 dvd k" "sizes_ok vs" using P(1) by (auto simp: pool_ok_def)
  have lt: "y + 16 \<le> 4294967296" "y + k + 8 \<le> 4294967296" "y + k + total_size vs + 8 \<le> 4294967296" "k < 2147483648" "total_size vs < 2147483648"
    using P(1) so by (auto simp: pool_ok_def y_def)
  have b: "bsize m (W y) = W k" "W y + W k = W (y + k)" "bsize m (W (y + k)) = m (y + k + 4)"
    using mem_at(2) [OF lt(1), of m] mem_at(10) [OF lt(2), of m] P(5) by simp_all
  show ?thesis
  proof (cases "vs \<noteq> [] \<and> fst (hd vs)")
    case False
    then have jv: "join_vs k vs = (k, vs)" by (cases "(k, vs)" rule: join_vs.cases) auto
    have neg: "sint (m (y + k + 4)) < 0" using False lt(5) so(4) by (intro headers_negative [OF P(6)]) auto
    let ?m = "m(y + k := W k)"
    have s: "(0 < sint (m (y + k + 4))) = False" "(sint (m (y + k + 4)) < 0) = True" "set_prevfree (W (y + k)) (W k) m = ?m"
      using neg mem_at(11) [OF lt(2)] by simp_all
    have "join_next (W y) m = Some ?m"
      unfolding join_next_def Let_def b by (simp only: b s if_False bind.bind_lunit prod.case KASSERT_bind if_True simp_thms)
    moreover have "headers ?m base 0 (us @ (True, k) # vs)"
    proof -
      have "headers ?m (y + k) k vs" using P(6) so False by (intro headers_set_first) auto
      moreover have "hdr_seq ?m base 0 us" using P(2) so by (simp add: hdr_seq_upd y_def)
      ultimately show ?thesis using P(3-5) so by (simp add: headers_append y_def [symmetric])
    qed
    moreover have hk: "y + k \<in> hdrs base (us @ (True, k) # vs)"
    proof -
      have "y + k \<in> hdrs (y + k) vs" by (cases vs) auto
      then show ?thesis using hdrs_append [of base us "(True, k) # vs"] by (auto simp: y_def [symmetric])
    qed
    moreover have "chain ?m F fl F" using header_write_chain [OF P(1) hk, of F fl F] P(7,9) by (auto simp: nodes_def)
    moreover have "agree (prot base (us @ (True, k) # vs)) m ?m" using hdrs_apart_prot [OF P(1) hk] by (intro agree_upd) auto
    ultimately show ?thesis unfolding jv y_def [symmetric] heap_rep_def using P(1,8,9) by auto
  next
    case True
    then obtain q ws where vs: "vs = (True, q) # ws" by (cases vs) auto
    have q: "16 \<le> q" "4 dvd q" "sizes_ok ws" "q < 2147483648" "total_size ws < 2147483648" using so(4) lt(5) vs by auto
    have ltq: "y + k + q + 8 \<le> 4294967296" "y + k + 16 \<le> 4294967296" using lt(3) q vs by simp_all
    let ?bs = "us @ (True, k) # vs" and ?bs' = "us @ (True, k + q) # ws"
    have P': "pool_ok F base ?bs'" using P(1) so q vs by (auto simp: pool_ok_def)
    have hv: "m (y + k + 4) = W q" "headers m (y + k + q) q ws" using P(6) vs by (simp_all add: add.assoc)
    have ws: "ws = [] \<or> \<not> fst (hd ws)" using headers_after_free [OF hv(2)] q by simp
    have pf: "m (y + k + q) = W q" using hv(2) by (cases ws) auto
    have yf: "y + k \<in> set (frees base ?bs)" by (simp add: frees_append y_def vs)
    then obtain as cs where fl: "fl = as @ (y + k) # cs" using P(9) by (metis split_list)
    have di: "distinct (as @ (y + k) # cs)" "set (as @ (y + k) # cs) \<subseteq> set (frees base ?bs)" using P(8,9) fl by auto
    obtain m1 where m1: "dechain (W (y + k)) m = Some m1" "chain m1 F (as @ cs) F" "agree (hdrs base ?bs \<union> prot base ?bs) m m1"
      using dechain_ok [OF P(1) _ di, of m] P(7) fl by auto
    have hd: "hdrs (y + k) vs \<subseteq> hdrs base ?bs" "y \<in> hdrs base ?bs" "y + 4 \<in> hdrs base ?bs"
      using hdrs_append [of base us "(True, k) # vs"] by (auto simp: y_def [symmetric])
    have h0: "hdrs (y + k + q) ws \<subseteq> hdrs (y + k) vs" "y + k + q \<in> hdrs (y + k + q) ws" "y + k + 4 \<in> hdrs (y + k) vs" by (auto simp: vs add.assoc) (cases ws; auto)
    have e: "m1 j = m j" if "j \<in> hdrs base ?bs" for j using m1(3) that by (auto simp: agree_def)
    have m1v: "m1 y = 0" "m1 (y + 4) = W k" "m1 (y + k + 4) = W q" "headers m1 (y + k + q) q ws" "hdr_seq m1 base 0 us"
    proof -
      show "m1 y = 0" "m1 (y + 4) = W k" "m1 (y + k + 4) = W q" using e P(4,5) hv(1) hd h0 by auto
      show "headers m1 (y + k + q) q ws" using hv(2) h0 hd m1(3) by (subst headers_cong) (auto simp: agree_def)
      show "hdr_seq m1 base 0 us" using P(2) so(1) e hdrs_prefix [of _ base us "(True, k) # vs"] by (subst hdr_seq_cong) auto
    qed
    let ?m2 = "m1(y + 4 := W (k + q))" and ?m = "m1(y + 4 := W (k + q), y + k + q := W (k + q))"
    have s: "bsize m (W (y + k)) = W q" "W (y + k) + W q = W (y + k + q)" "prevfree m (W (y + k + q)) = W q" "bsize m1 (W y) = W k" "bsize m1 (W (y + k)) = W q"
      "W k + W q = W (k + q)" "set_bsize (W y) (W (k + q)) m1 = ?m2" "bsize ?m2 (W y) = W (k + q)" "W y + W (k + q) = W (y + k + q)"
      "set_prevfree (W (y + k + q)) (W (k + q)) ?m2 = ?m" "sint (W q) = int q" "0 < int q"
      using mem_at(2) [OF ltq(2), of m] mem_at(2) [OF ltq(2), of m1] mem_at(9) [OF ltq(1), of m] mem_at(2) [OF lt(1), of m1] mem_at(2) [OF lt(1), of ?m2] mem_at(6) [OF lt(1), of "W (k + q)" m1]
        mem_at(11) [OF ltq(1), of "W (k + q)" ?m2] m1v hv pf sint_W [OF q(4)] q(1)
      by (simp_all add: add.assoc)
    have "?m2 (y + k + q + 4) = m1 (y + k + q + 4)" using so(2) by simp
    then have neg: "sint (bsize ?m2 (W (y + k + q))) < 0"
      using headers_negative [OF m1v(4) ws q(3,5)] mem_at(10) [OF ltq(1), of ?m2] by simp
    have "join_next (W y) m = Some ?m"
      unfolding join_next_def Let_def b(1,2) s(1) s(2) s(3) using neg
      by (simp only: s m1(1) KASSERT_bind bind.bind_lunit simp_thms if_True prod.case)
    moreover have "headers ?m base 0 ?bs'"
    proof -
      have "headers ?m2 (y + k + q) q ws" using m1v(4) q so by (subst headers_low) auto
      then have "headers ?m (y + k + q) (k + q) ws" using q(3) ws by (intro headers_set_first) auto
      moreover have "hdr_seq ?m base 0 us" using m1v(5) so by (simp add: hdr_seq_upd y_def)
      ultimately show ?thesis using P(3) m1v(1) so q by (simp add: headers_append y_def [symmetric] add.assoc)
    qed
    moreover have hk: "y + 4 \<in> hdrs base ?bs" "y + k + q \<in> hdrs base ?bs" using hd h0 by auto
    moreover have "chain ?m F (as @ cs) F"
    proof -
      have "set (F # (as @ cs) @ [F]) \<subseteq> nodes F base ?bs" using di by (auto simp: nodes_def)
      note c = header_write_chain [OF P(1) _ this]
      show ?thesis using m1(2) c [OF hk(1)] c [OF hk(2)] by simp
    qed
    moreover have "agree (prot base ?bs) m ?m" using hk hdrs_apart_prot [OF P(1)] agree_mono [OF m1(3)] by (intro agree_upd) auto
    moreover have "set (as @ cs) = set (frees base ?bs')" "distinct (as @ cs)"
    proof -
      have "set (frees base ?bs) = insert (y + k) (set (frees base ?bs'))" "y + k \<notin> set (frees base ?bs')"
        using frees_range [OF so(1), of "y + k" base] frees_range [OF q(3), of "y + k" "y + k + q"] q(1) so(2) by (auto simp: frees_append vs y_def add.assoc)
      moreover have "set fl = insert (y + k) (set (as @ cs))" "y + k \<notin> set (as @ cs)" using fl di(1) by auto
      ultimately show "set (as @ cs) = set (frees base ?bs')" using P(9) by (metis insert_ident)
      show "distinct (as @ cs)" using di by simp
    qed
    ultimately show ?thesis using P' unfolding y_def [symmetric] heap_rep_def by (intro exI [of _ "as @ cs"] exI [of _ ?m]) (simp add: vs)
  qed
qed

lemma chain_ends: "chain m p xs q \<Longrightarrow> m (last (p # xs) + 8) = W q \<and> m (hd (xs @ [q]) + 12) = W p"
  by (induction m p xs q rule: chain.induct) auto

text \<open>The released block is isolated: it goes to the end of the list.\<close>

lemma isolate_ok:
  assumes rep: "heap_rep F base (us @ (False, n) # vs) fl m" and us: "us = [] \<or> \<not> fst (last us)"
  defines "x \<equiv> base + total_size us"
  shows "\<exists>m'. join_previous (W F) (W x) m = Some (W x, m') \<and> joined F base us n vs (fl @ [x]) m' \<and> agree (prot base (us @ (True, n) # vs)) m m'"
proof -
  let ?bs = "us @ (True, n) # vs"
  note R = rep [unfolded heap_rep_def]
  have P: "pool_ok F base ?bs" using R by (auto simp: pool_ok_def)
  have so: "sizes_ok us" "16 \<le> n" "sizes_ok vs" using P by (auto simp: pool_ok_def)
  have pv: "prev_of 0 us = 0" using us by (auto simp: prev_of_def)
  have h: "hdr_seq m base 0 us" "m x = 0" "m (x + 4) = - W n" "headers m (x + n) 0 vs" using R pv by (simp_all add: headers_append x_def)
  have fr: "set (frees base ?bs) = insert x (set fl)" "x \<notin> set fl"
    using R frees_range [OF so(1), of x base] frees_range [OF so(3), of x "x + n"] so(2) by (auto simp: frees_append x_def)
  define l where "l = last (F # fl)"
  have lf: "l \<in> set (F # fl)" unfolding l_def by (rule last_in_set) simp
  have hf: "hd (fl @ [F]) \<in> set (F # fl)" by (cases fl) auto
  have N: "x \<in> nodes F base ?bs" "F \<in> nodes F base ?bs" "l \<in> nodes F base ?bs" "hd (fl @ [F]) \<in> nodes F base ?bs" "set fl \<subseteq> nodes F base ?bs"
    using fr lf hf by (auto simp: nodes_def)
  note lt = node_lt [OF P N(1)] node_lt [OF P N(2)] node_lt [OF P N(3)] node_lt [OF P N(4)]
  have ap: "u + 8 \<noteq> v + 12" if "u \<in> nodes F base ?bs" "v \<in> nodes F base ?bs" for u v using node_apart [OF P that] .
  have Fx: "x \<noteq> F" "F \<notin> set fl" using F_not_free [OF P] fr by auto
  have C: "m (l + 8) = W F" "m (hd (fl @ [F]) + 12) = W F" "m (F + 8) = W (hd (fl @ [F]))" "m (F + 12) = W l"
    using chain_ends [of m F fl F] chain_first [of m F fl F] chain_end [of m F fl F] R by (simp_all add: l_def)
  let ?m1 = "m(x + 8 := W F)" and ?m2 = "m(x + 8 := W F, x + 12 := W l)" and ?m3 = "m(x + 8 := W F, x + 12 := W l, F + 12 := W x)"
    and ?m4 = "m(x + 8 := W F, x + 12 := W l, F + 12 := W x, l + 8 := W x)" and ?m = "m(x + 8 := W F, x + 12 := W l, F + 12 := W x, l + 8 := W x, x + 4 := W n)"
  have s: "blink m (W F) = W l" "flink m (W l) = W F" "flink m (W F) = W (hd (fl @ [F]))" "blink m (W (hd (fl @ [F]))) = W F"
    "set_flink (W x) (W F) m = ?m1" "blink ?m1 (W F) = W l" "set_blink (W x) (W l) ?m1 = ?m2" "set_blink (W F) (W x) ?m2 = ?m3"
    "blink ?m3 (W x) = W l" "set_flink (W l) (W x) ?m3 = ?m4"
    using mem_at(3,4,7,8) [OF lt(1)] mem_at(3,4,7,8) [OF lt(2)] mem_at(3,4,7,8) [OF lt(3)] mem_at(3,4,7,8) [OF lt(4)] C ap [OF N(1) N(2)] ap [OF N(1) N(1)] Fx(1) by simp_all
  have cl: "Bget.chain_last (W F) (W x) m = Some ?m4"
    unfolding chain_last_def Let_def by (simp only: s KASSERT_bind simp_thms if_True)
  have k4: "?m4 k = m k" if "k \<in> hdrs base ?bs" for k
    using that links_apart_hdrs [OF P N(1)] links_apart_hdrs [OF P N(2)] links_apart_hdrs [OF P N(3)] by auto
  have hx: "x \<in> hdrs base ?bs" "x + 4 \<in> hdrs base ?bs" "hdrs (x + n) vs \<subseteq> hdrs base ?bs"
    using hdrs_append [of base us "(True, n) # vs"] by (auto simp: x_def [symmetric])
  have t: "prevfree m (W x) = 0" "bsize ?m4 (W x) = - W n" "set_bsize (W x) (W n) ?m4 = ?m"
    using mem_at(1) [OF lt(1), of m] mem_at(2) [OF lt(1), of ?m4] mem_at(6) [OF lt(1)] h(2,3) k4 [OF hx(2)] by simp_all
  have "join_previous (W F) (W x) m = Some (W x, ?m)"
    unfolding join_previous_def t(1) Let_def by (simp only: simp_thms if_False cl bind.bind_lunit t minus_minus)
  moreover have "joined F base us n vs (fl @ [x]) ?m"
    unfolding joined_def x_def [symmetric]
  proof (intro conjI)
    show "pool_ok F base ?bs" by (rule P)
    show "prev_of 0 us = 0" by (rule pv)
    show "hdr_seq ?m base 0 us"
      using h(1) so(1) k4 hdrs_prefix [of _ base us "(True, n) # vs"] by (subst hdr_seq_cong [where m = m]) (auto simp: x_def)
    show "?m x = 0" using k4 [OF hx(1)] h(2) by simp
    show "?m (x + 4) = W n" by simp
    have "agree (hdrs (x + n) vs) m ?m" unfolding agree_def
    proof
      fix k
      assume k: "k \<in> hdrs (x + n) vs"
      then have "k \<noteq> x + 4" using hdrs_range [OF so(3) k] so(2) by auto
      then have "?m k = ?m4 k" by (rule fun_upd_other)
      also have "\<dots> = m k" by (rule k4) (use hx(3) k in blast)
      finally show "?m k = m k" .
    qed
    then show "headers ?m (x + n) 0 vs" using h(4) headers_cong by blast
    have "chain ?m4 F (fl @ [x]) F" using R fr(2) Fx ap N unfolding l_def by (intro chain_append_last) auto
    moreover have "set (F # (fl @ [x]) @ [F]) \<subseteq> nodes F base ?bs" using N by auto
    ultimately show "chain ?m F (fl @ [x]) F" using header_write_chain [OF P hx(2), of F "fl @ [x]" F ?m4 "W n"] by blast
    show "distinct (fl @ [x])" using R fr by simp
    show "set (fl @ [x]) = set (frees base ?bs)" using fr by simp
  qed
  moreover have "agree (prot base ?bs) m ?m"
    using links_apart_prot [OF P N(1)] links_apart_prot [OF P N(2)] links_apart_prot [OF P N(3)] hdrs_apart_prot [OF P hx(2)] by (intro agree_upd) auto
  ultimately show ?thesis by blast
qed

text \<open>The block before the released one is free: it grows.\<close>

lemma grow_ok:
  assumes rep: "heap_rep F base (us @ (True, p) # (False, n) # vs) fl m"
  defines "x \<equiv> base + total_size us"
  shows "\<exists>m'. join_previous (W F) (W (x + p)) m = Some (W x, m') \<and> joined F base us (p + n) vs fl m' \<and> agree (prot base (us @ (True, p + n) # vs)) m m'"
proof -
  let ?bs = "us @ (True, p + n) # vs"
  note R = rep [unfolded heap_rep_def]
  have P: "pool_ok F base ?bs" using R by (auto simp: pool_ok_def)
  have so: "sizes_ok us" "16 \<le> p" "16 \<le> n" "sizes_ok vs" using R by (auto simp: pool_ok_def)
  have lt: "x + 16 \<le> 4294967296" "x + p + 16 \<le> 4294967296" "p < 4294967296" using R so by (auto simp: pool_ok_def x_def)
  have h: "hdr_seq m base 0 us" "prev_of 0 us = 0" "m x = 0" "m (x + 4) = W p" "m (x + p) = W p" "m (x + p + 4) = - W n" "headers m (x + p + n) 0 vs"
    using R by (simp_all add: headers_append x_def add.assoc)
  let ?m = "m(x + 4 := W (p + n))"
  have p0: "W p \<noteq> 0" using W_inj [of p 0] lt(3) so(2) by simp
  have s: "prevfree m (W (x + p)) = W p" "bsize m (W (x + p)) = - W n" "W (x + p) - W p = W x" "bsize m (W x) = W p" "W p - - W n = W (p + n)"
    "set_bsize (W x) (W (p + n)) m = ?m"
    using mem_at(1,2) [OF lt(2), of m] mem_at(2) [OF lt(1), of m] mem_at(6) [OF lt(1)] h by simp_all
  have "join_previous (W F) (W (x + p)) m = Some (W x, ?m)"
    unfolding join_previous_def Let_def s(1) using p0 by (simp only: s KASSERT_bind simp_thms if_True not_False_eq_True if_not_P)
  moreover have fr: "frees base ?bs = frees base (us @ (True, p) # (False, n) # vs)" by (simp add: frees_append add.assoc)
  moreover have hx: "x + 4 \<in> hdrs base ?bs" using hdrs_append [of base us "(True, p + n) # vs"] by (auto simp: x_def [symmetric])
  moreover have "joined F base us (p + n) vs fl ?m"
  proof -
    have "chain ?m F fl F" using header_write_chain [OF P hx, of F fl F] R fr by (auto simp: nodes_def)
    moreover have "hdr_seq ?m base 0 us" using h(1) so(1) by (simp add: hdr_seq_upd x_def)
    moreover have "headers ?m (x + p + n) 0 vs" using h(7) so by (simp add: headers_low)
    ultimately show ?thesis using P h R fr unfolding joined_def x_def [symmetric] by (simp add: add.assoc)
  qed
  moreover have "agree (prot base ?bs) m ?m" using hdrs_apart_prot [OF P hx] by (intro agree_upd) auto
  ultimately show ?thesis by blast
qed

lemma join_vs_total: "snd (join_vs k vs) = ws \<Longrightarrow> fst (join_vs k vs) = j \<Longrightarrow> j + total_size ws = k + total_size vs \<and> used (a + j) ws = used (a + k) vs \<and> prot (a + j) ws = prot (a + k) vs"
  by (induction k vs rule: join_vs.induct) (auto simp: add.assoc)

lemma release_Cons_free: "release (us @ [(True, p)]) n vs = us @ (True, fst (join_vs (p + n) vs)) # snd (join_vs (p + n) vs)"
  by (simp add: release_def Let_def case_prod_beta)

lemma release_isolated: "us = [] \<or> \<not> fst (last us) \<Longrightarrow> release us n vs = us @ (True, fst (join_vs n vs)) # snd (join_vs n vs)"
  by (auto simp: release_def Let_def case_prod_beta)

lemma before_block:
  obtains "us = [] \<or> \<not> fst (last us)" | us' p where "us = us' @ [(True, p)]"
proof (cases "us = [] \<or> \<not> fst (last us)")
  case False
  then have "last us = (True, snd (last us))" by (auto simp: prod_eq_iff)
  then have "us = butlast us @ [(True, snd (last us))]" using False by (metis append_butlast_last_id)
  then show thesis by (rule that(2))
qed (rule that(1))

lemma brel_ok:
  assumes "heap_ok F base (us @ (False, n) # vs) m"
  shows "\<exists>m'. brel (W F) (W (base + total_size us + 8)) m = Some m' \<and> heap_ok F base (release us n vs) m' \<and> agree (prot base (release us n vs)) m m'"
proof -
  obtain fl where rep: "heap_rep F base (us @ (False, n) # vs) fl m" using assms by (auto simp: heap_ok_def)
  define x where "x = base + total_size us"
  note R = rep [unfolded heap_rep_def]
  have b: "0 < base" "x + 16 \<le> 4294967296" "x + n + 8 \<le> 4294967296" "16 \<le> n" "n < 2147483648" using R by (auto simp: pool_ok_def x_def)
  have h: "m (x + 4) = - W n" "headers m (x + n) 0 vs" using R by (simp_all add: headers_append x_def)
  then have z: "m (x + n) = 0" by (cases vs) auto
  have k: "W (x + 8) - SIZE_BHEAD = W x" "W (x + 8) \<noteq> 0" "bsize m (W x) = - W n" "W x - - W n = W (x + n)" "prevfree m (W (x + n)) = 0" "sint (- W n) < 0"
    using W_inj [of "x + 8" 0] b mem_at(2) [OF b(2), of m] mem_at(9) [OF b(3), of m] h z sint_minus_W [OF b(5)] by simp_all
  have r: "brel (W F) (W (x + 8)) m = do { (b, m) \<leftarrow> join_previous (W F) (W x) m; join_next b m }"
    unfolding brel_def Let_def by (simp only: k KASSERT_bind simp_thms if_True not_False_eq_True)
  have step: "\<exists>m1. join_previous (W F) (W x) m = Some (W (base + total_size us1), m1) \<and> joined F base us1 k1 vs fl1 m1 \<and> agree (prot base (us1 @ (True, k1) # vs)) m m1 \<Longrightarrow>
      release us n vs = us1 @ (True, fst (join_vs k1 vs)) # snd (join_vs k1 vs) \<Longrightarrow> ?thesis" for us1 k1 fl1
  proof -
    assume "\<exists>m1. join_previous (W F) (W x) m = Some (W (base + total_size us1), m1) \<and> joined F base us1 k1 vs fl1 m1 \<and> agree (prot base (us1 @ (True, k1) # vs)) m m1"
    then obtain m1 where m1: "join_previous (W F) (W x) m = Some (W (base + total_size us1), m1)" "joined F base us1 k1 vs fl1 m1" "agree (prot base (us1 @ (True, k1) # vs)) m m1" by blast
    assume rl: "release us n vs = us1 @ (True, fst (join_vs k1 vs)) # snd (join_vs k1 vs)"
    have p: "prot base (us1 @ (True, k1) # vs) = prot base (release us n vs)"
      unfolding rl using join_vs_total [OF refl refl, where a = "base + total_size us1" and k = k1 and vs = vs] by (simp add: prot_append)
    obtain fl2 m2 where m2: "join_next (W (base + total_size us1)) m1 = Some m2" "heap_rep F base (release us n vs) fl2 m2" "agree (prot base (release us n vs)) m1 m2"
      using join_next_ok [OF m1(2)] unfolding rl [symmetric] p by blast
    have "brel (W F) (W (x + 8)) m = Some m2" unfolding r m1(1) using m2(1) by simp
    moreover have "agree (prot base (release us n vs)) m m2" using m1(3) m2(3) agree_trans unfolding p by blast
    ultimately show ?thesis using m2(2) unfolding x_def heap_ok_def by blast
  qed
  show ?thesis
  proof (cases us rule: before_block)
    case 1
    then show ?thesis using isolate_ok [OF rep 1] by (intro step [of us n "fl @ [x]"]) (simp_all add: x_def release_isolated)
  next
    case (2 us' p)
    have "heap_rep F base (us' @ (True, p) # (False, n) # vs) fl m" using rep 2 by simp
    from grow_ok [OF this] show ?thesis by (intro step [of us' "p + n" fl]) (simp_all add: x_def 2 release_Cons_free add.assoc)
  qed
qed

section \<open>Writes of the programs\<close>

lemma chain_cong: "\<forall>x\<in>set (p # xs). m' (x + 8) = m (x + 8) \<Longrightarrow> \<forall>x\<in>set (xs @ [q]). m' (x + 12) = m (x + 12) \<Longrightarrow> chain m' p xs q = chain m p xs q"
  by (induction m p xs q rule: chain.induct) auto

lemma heap_user_write:
  assumes "heap_ok F base bs m" "agree (- prot base bs) m m'"
  shows "heap_ok F base bs m'"
proof -
  obtain fl where fl: "heap_rep F base bs fl m" using assms(1) by (auto simp: heap_ok_def)
  note R = fl [unfolded heap_rep_def]
  have P: "pool_ok F base bs" using R by simp
  have "headers m' base 0 bs" using R hdrs_apart_prot [OF P] assms(2) by (subst headers_cong) (auto simp: agree_def)
  moreover have "chain m' F fl F"
    using R links_apart_prot [OF P] assms(2) by (subst chain_cong [where m = m]) (auto simp: agree_def nodes_def)
  ultimately show ?thesis using R unfolding heap_ok_def heap_rep_def by blast
qed

lemma carved_used:
  assumes "carved base z bs p l bs'" "sizes_ok bs" "16 \<le> z" "4 dvd z"
  shows "used base bs' = insert (p, l) (used base bs)" "z \<le> l + 8" "total_size bs' = total_size bs" "base + 8 \<le> p" "p + l \<le> base + total_size bs"
  using assms by (auto simp: carved_def used_append add.assoc)

lemma carved_free:
  assumes "carved base z bs p l bs'" "sizes_ok bs" "16 \<le> z"
  shows "p \<notin> prot base bs \<and> p + 4 \<notin> prot base bs"
proof -
  obtain us n vs where c: "bs = us @ (True, n) # vs" "z \<le> n" "base + total_size us \<le> p" "p + 4 < base + total_size us + n"
    using assms unfolding carved_def by fastforce
  then show ?thesis using free_not_prot [of us n vs base] assms(2) by auto
qed

lemma used_range: "sizes_ok bs \<Longrightarrow> (p, l) \<in> used a bs \<Longrightarrow> a + 8 \<le> p \<and> p + l \<le> a + total_size bs \<and> 8 \<le> l"
  by (induction a bs rule: used.induct) (fastforce split: if_splits)+

lemma used_apart: "sizes_ok bs \<Longrightarrow> (p, l) \<in> used a bs \<Longrightarrow> (q, k) \<in> used a bs \<Longrightarrow> (p, l) \<noteq> (q, k) \<Longrightarrow> p + l \<le> q \<or> q + k \<le> p"
proof (induction a bs rule: used.induct)
  case (2 a f n bs)
  have s: "sizes_ok bs" "16 \<le> n" using 2(2) by auto
  show ?case using 2 used_range [OF s(1), of p l "a + n"] used_range [OF s(1), of q k "a + n"] s by (auto split: if_splits)
qed simp

lemma used_prot: "sizes_ok bs \<Longrightarrow> (p, l) \<in> used a bs \<Longrightarrow> {p ..< p + l} \<subseteq> prot a bs"
  by (induction a bs rule: used.induct) (auto split: if_splits)

lemma release_used:
  assumes "sizes_ok (us @ (False, n) # vs)"
  shows "used base (release us n vs) = used base (us @ (False, n) # vs) - {(base + total_size us + 8, n - 8)}"
proof -
  have u: "(base + total_size us + 8, n - 8) \<notin> used base us" "(base + total_size us + 8, n - 8) \<notin> used (base + total_size us + n) vs"
    using assms used_range [of us _ _ base] used_range [of vs _ _ "base + total_size us + n"] by fastforce+
  have "used base (release us n vs) = used base us \<union> used (base + total_size us + n) vs"
  proof (cases us rule: before_block)
    case 1
    then show ?thesis using join_vs_total [OF refl refl, where a = "base + total_size us" and k = n and vs = vs] by (simp add: release_isolated used_append)
  next
    case (2 us' p)
    then show ?thesis using join_vs_total [OF refl refl, where a = "base + total_size us'" and k = "p + n" and vs = vs] by (simp add: release_Cons_free used_append add.assoc)
  qed
  then show ?thesis using u by (auto simp: used_append)
qed

text \<open>Releasing what was just allocated restores the layout.\<close>

lemma release_carved:
  assumes "carved base z bs p l bs'" "heap_ok F base bs m"
  shows "\<exists>us n vs. bs' = us @ (False, n) # vs \<and> p = base + total_size us + 8 \<and> release us n vs = bs"
proof -
  obtain us n vs where c: "bs = us @ (True, n) # vs" "z \<le> n"
    "16 < n - z \<and> bs' = us @ (True, n - z) # (False, z) # vs \<and> p = base + total_size us + (n - z) + 8 \<or>
     n - z \<le> 16 \<and> bs' = us @ (False, n) # vs \<and> p = base + total_size us + 8"
    using assms(1) unfolding carved_def by blast
  have h: "headers m base 0 bs" "sizes_ok bs" using assms(2) by (auto simp: heap_ok_def heap_rep_def pool_ok_def)
  then have n: "16 \<le> n" "\<forall>(f, k)\<in>set us. k \<noteq> 0" using c(1) by (fastforce simp: sizes_ok_def)+
  have "vs = [] \<or> \<not> fst (hd vs)" using h c(1) n(1) headers_after_free [of m "base + total_size us + n" n vs] by (simp add: headers_append)
  then have jv: "join_vs k vs = (k, vs)" for k by (cases "(k, vs)" rule: join_vs.cases) auto
  have us: "us = [] \<or> \<not> fst (last us)"
    using h(1) c(1) n(2) by (cases us rule: rev_cases) (auto simp: headers_append)
  from c(3) show ?thesis
  proof
    assume "16 < n - z \<and> bs' = us @ (True, n - z) # (False, z) # vs \<and> p = base + total_size us + (n - z) + 8"
    moreover have "release (us @ [(True, n - z)]) z vs = bs" using c(1,2) by (simp add: release_Cons_free jv)
    ultimately show ?thesis by (intro exI [of _ "us @ [(True, n - z)]"] exI [of _ z] exI [of _ vs]) simp
  next
    assume "n - z \<le> 16 \<and> bs' = us @ (False, n) # vs \<and> p = base + total_size us + 8"
    moreover have "release us n vs = bs" using c(1) us by (simp add: release_isolated jv)
    ultimately show ?thesis by blast
  qed
qed

section \<open>Malloc and Free\<close>

definition heap_inv :: "nat \<Rightarrow> blocks \<Rightarrow> heap \<Rightarrow> bool" where
  "heap_inv base bs s \<longleftrightarrow> heap_ok (unat (freelist s)) base bs (hm s)"

lemma heap_invD: "heap_inv base bs s \<Longrightarrow> sizes_ok bs \<and> 0 < base \<and> base + total_size bs + 8 \<le> 4294967296 \<and> total_size bs < 2147483648"
  by (auto simp: heap_inv_def heap_ok_def heap_rep_def pool_ok_def)

lemma W_freelist: "W (unat (freelist s)) = freelist s"
  by simp

lemma Malloc_run:
  assumes "0 < sz" "bget (freelist s) sz (hm s) = Some (r, m)"
  shows "Malloc sz s = Some (r, s\<lparr>hm := m\<rparr>)"
proof -
  obtain b where b: "int_flag s = b" by blast
  have "s\<lparr>int_flag := False, hm := m, int_flag := b\<rparr> = s\<lparr>hm := m\<rparr>" using b by (cases s) simp
  then show ?thesis using assms b by (simp add: Malloc_def)
qed

lemma Free_run:
  assumes "brel (freelist s) p (hm s) = Some m"
  shows "Free p s = Some (s\<lparr>hm := m\<rparr>)"
proof -
  obtain b where b: "int_flag s = b" by blast
  have "s\<lparr>int_flag := False, hm := m, int_flag := b\<rparr> = s\<lparr>hm := m\<rparr>" using b by (cases s) simp
  then show ?thesis using assms b by (simp add: Free_def)
qed

lemma Malloc_ok:
  assumes inv: "heap_inv base bs s" and sz: "0 < sz" "unat sz \<le> 0x7FFFFFF0"
  shows "(Malloc sz s = Some (0, s) \<and> (\<forall>(f, n) \<in> set bs. f \<longrightarrow> n < need (unat sz))) \<or>
    (\<exists>p l bs' s'. Malloc sz s = Some (W p, s') \<and> carved base (need (unat sz)) bs p l bs' \<and> heap_inv base bs' s' \<and>
       agree (prot base bs) (hm s) (hm s') \<and> freelist s' = freelist s \<and> int_flag s' = int_flag s)"
proof -
  have "unat sz \<le> 2147483632" using sz(2) by simp
  from bget_ok [OF inv [unfolded heap_inv_def] sz(1) this] show ?thesis
  proof
    assume A: "bget (W (unat (freelist s))) sz (hm s) = Some (0, hm s) \<and> (\<forall>(f, n) \<in> set bs. f \<longrightarrow> n < need (unat sz))"
    then have "Malloc sz s = Some (0, s\<lparr>hm := hm s\<rparr>)" by (intro Malloc_run [OF sz(1)]) (simp only: W_freelist)
    then show ?thesis using A by simp
  next
    assume "\<exists>p l bs' m'. bget (W (unat (freelist s))) sz (hm s) = Some (W p, m') \<and> carved base (need (unat sz)) bs p l bs' \<and>
      heap_ok (unat (freelist s)) base bs' m' \<and> agree (prot base bs) (hm s) m'"
    then obtain p l bs' m' where A: "bget (freelist s) sz (hm s) = Some (W p, m')" "carved base (need (unat sz)) bs p l bs'"
      "heap_ok (unat (freelist s)) base bs' m'" "agree (prot base bs) (hm s) m'" unfolding W_freelist by blast
    then show ?thesis using Malloc_run [OF sz(1) A(1)]
      by (intro disjI2 exI [of _ p] exI [of _ l] exI [of _ bs'] exI [of _ "s\<lparr>hm := m'\<rparr>"]) (simp add: heap_inv_def)
  qed
qed

lemma Free_ok:
  assumes "heap_inv base (us @ (False, n) # vs) s"
  shows "\<exists>s'. Free (W (base + total_size us + 8)) s = Some s' \<and> heap_inv base (release us n vs) s' \<and>
    agree (prot base (release us n vs)) (hm s) (hm s') \<and> freelist s' = freelist s \<and> int_flag s' = int_flag s"
proof -
  obtain m' where m': "brel (freelist s) (W (base + total_size us + 8)) (hm s) = Some m'" "heap_ok (unat (freelist s)) base (release us n vs) m'"
    "agree (prot base (release us n vs)) (hm s) m'"
    using brel_ok [OF assms [unfolded heap_inv_def]] unfolding W_freelist by blast
  then show ?thesis using Free_run [OF m'(1)] by (intro exI [of _ "s\<lparr>hm := m'\<rparr>"]) (simp add: heap_inv_def)
qed

section \<open>Clients of an allocator\<close>

text \<open>A client asks for memory, and gives back the \<open>i\<close>-th of the buffers it holds.\<close>

datatype heap_op = Get u32 | Put nat

fun heap_run :: "(u32 \<Rightarrow> 's \<Rightarrow> (u32 \<times> 's) option) \<Rightarrow> (u32 \<Rightarrow> 's \<Rightarrow> 's option) \<Rightarrow> heap_op list \<Rightarrow> (u32 \<times> u32) list \<Rightarrow> 's \<Rightarrow>
    ((u32 \<times> u32) list \<times> 's) option" where
  "heap_run alloc free [] held s = Some (held, s)"
| "heap_run alloc free (Get sz # ops) held s = do {
     (r, s) \<leftarrow> alloc sz s;
     heap_run alloc free ops (if r = 0 then held else (r, sz) # held) s }"
| "heap_run alloc free (Put i # ops) held s =
     (if i < length held then do {
        s \<leftarrow> free (fst (held ! i)) s;
        heap_run alloc free ops (take i held @ drop (Suc i) held) s }
      else heap_run alloc free ops held s)"

definition sane_ops :: "heap_op list \<Rightarrow> bool" where
  "sane_ops ops \<longleftrightarrow> (\<forall>sz. Get sz \<in> set ops \<longrightarrow> 0 < sz \<and> unat sz \<le> 0x7FFFFFF0)"

text \<open>Every buffer that is held has a region of its own.\<close>

definition holds :: "(nat \<times> nat) set \<Rightarrow> (u32 \<times> u32) list \<Rightarrow> bool" where
  "holds U held \<longleftrightarrow> distinct (List.map fst held) \<and> (\<forall>(r, sz) \<in> set held. \<exists>l. (unat r, l) \<in> U \<and> unat sz \<le> l)"

definition apart :: "(u32 \<times> u32) list \<Rightarrow> bool" where
  "apart held \<longleftrightarrow> (\<forall>i < length held. \<forall>j < length held. i \<noteq> j \<longrightarrow>
     unat (fst (held ! i)) + unat (snd (held ! i)) \<le> unat (fst (held ! j)) \<or> unat (fst (held ! j)) + unat (snd (held ! j)) \<le> unat (fst (held ! i)))"

lemma holds_remove:
  assumes "holds U (xs @ (r, sz) # ys)"
  shows "holds (U - {(unat r, l)}) (xs @ ys)"
proof -
  have d: "distinct (List.map fst (xs @ ys))" "r \<notin> fst ` set (xs @ ys)" using assms by (auto simp: holds_def)
  have "\<exists>k. (unat q, k) \<in> U - {(unat r, l)} \<and> unat z \<le> k" if q: "(q, z) \<in> set (xs @ ys)" for q z
  proof -
    have m: "(q, z) \<in> set (xs @ (r, sz) # ys)" using q by auto
    obtain k where k: "(unat q, k) \<in> U" "unat z \<le> k" using bspec [OF conjunct2 [OF assms [unfolded holds_def]] m] by auto
    have "q \<noteq> r" using d(2) q by force
    then have "unat q \<noteq> unat r" by (simp add: word_unat_eq_iff)
    then show ?thesis using k by blast
  qed
  then show ?thesis using d(1) unfolding holds_def by blast
qed

locale region_allocator =
  fixes inv :: "(nat \<times> nat) set \<Rightarrow> 's \<Rightarrow> bool"
    and alloc :: "u32 \<Rightarrow> 's \<Rightarrow> (u32 \<times> 's) option"
    and free :: "u32 \<Rightarrow> 's \<Rightarrow> 's option"
  assumes regions_apart: "inv U s \<Longrightarrow> (p, l) \<in> U \<Longrightarrow> (q, k) \<in> U \<Longrightarrow> (p, l) \<noteq> (q, k) \<Longrightarrow> 0 < l \<and> (p + l \<le> q \<or> q + k \<le> p)"
    and alloc_law: "inv U s \<Longrightarrow> 0 < sz \<Longrightarrow> unat sz \<le> 0x7FFFFFF0 \<Longrightarrow>
      \<exists>r s'. alloc sz s = Some (r, s') \<and> (r = 0 \<and> inv U s' \<or>
        (\<exists>l. r \<noteq> 0 \<and> unat sz \<le> l \<and> (\<forall>k. (unat r, k) \<notin> U) \<and> inv (insert (unat r, l) U) s'))"
    and free_law: "inv U s \<Longrightarrow> (unat r, l) \<in> U \<Longrightarrow> \<exists>s'. free r s = Some s' \<and> inv (U - {(unat r, l)}) s'"
begin

lemma same_region: "inv U s \<Longrightarrow> (p, l) \<in> U \<Longrightarrow> (p, k) \<in> U \<Longrightarrow> l = k"
  using regions_apart [of U s p l p k] regions_apart [of U s p k p l] by fastforce

lemma run_ok:
  "inv U s \<Longrightarrow> holds U held \<Longrightarrow> sane_ops ops \<Longrightarrow> \<exists>held' s' U'. heap_run alloc free ops held s = Some (held', s') \<and> inv U' s' \<and> holds U' held'"
proof (induction alloc\<equiv>alloc free\<equiv>free ops held s arbitrary: U rule: heap_run.induct)
  case (2 sz ops held s)
  then have sz: "0 < sz" "unat sz \<le> 0x7FFFFFF0" "sane_ops ops" by (auto simp: sane_ops_def)
  obtain r s' where r: "alloc sz s = Some (r, s')" "r = 0 \<and> inv U s' \<or> (\<exists>l. r \<noteq> 0 \<and> unat sz \<le> l \<and> (\<forall>k. (unat r, k) \<notin> U) \<and> inv (insert (unat r, l) U) s')"
    using alloc_law [OF 2(2) sz(1,2)] by blast
  from r(2) show ?case
  proof
    assume "r = 0 \<and> inv U s'"
    then show ?thesis using r(1) 2(1) [of "(r, s')" r s' U] 2(3) sz(3) by simp
  next
    assume "\<exists>l. r \<noteq> 0 \<and> unat sz \<le> l \<and> (\<forall>k. (unat r, k) \<notin> U) \<and> inv (insert (unat r, l) U) s'"
    then obtain l where l: "r \<noteq> 0" "unat sz \<le> l" "\<forall>k. (unat r, k) \<notin> U" "inv (insert (unat r, l) U) s'" by blast
    have "holds (insert (unat r, l) U) ((r, sz) # held)" using 2(3) l(2,3) by (auto simp: holds_def)
    then show ?thesis using r(1) l(1,4) 2(1) [of "(r, s')" r s' "insert (unat r, l) U"] sz(3) by simp
  qed
next
  case (3 i ops held s)
  have o: "sane_ops ops" using 3(5) by (auto simp: sane_ops_def)
  show ?case
  proof (cases "i < length held")
    case True
    obtain r sz where h: "held ! i = (r, sz)" by fastforce
    then obtain l where l: "(unat r, l) \<in> U" "unat sz \<le> l" using 3(4) True nth_mem [OF True] by (fastforce simp: holds_def)
    obtain s' where s': "free r s = Some s'" "inv (U - {(unat r, l)}) s'" using free_law [OF 3(3) l(1)] by blast
    have e: "held = take i held @ (r, sz) # drop (Suc i) held" using h True by (metis id_take_nth_drop)
    have "holds U (take i held @ (r, sz) # drop (Suc i) held)" using 3(4) e by simp
    then have "holds (U - {(unat r, l)}) (take i held @ drop (Suc i) held)" by (rule holds_remove)
    then show ?thesis using True h s' 3(1) [OF True, of s' "U - {(unat r, l)}"] o by simp
  qed (use 3(2) [of U] 3(3,4) o in simp)
qed auto

lemma held_apart:
  assumes "inv U s" "holds U held"
  shows "apart held"
  unfolding apart_def
proof (intro allI impI)
  fix i j
  assume i: "i < length held" "j < length held" "i \<noteq> j"
  obtain l where l: "(unat (fst (held ! i)), l) \<in> U" "unat (snd (held ! i)) \<le> l" using assms(2) nth_mem [OF i(1)] by (fastforce simp: holds_def)
  obtain k where k: "(unat (fst (held ! j)), k) \<in> U" "unat (snd (held ! j)) \<le> k" using assms(2) nth_mem [OF i(2)] by (fastforce simp: holds_def)
  have "List.map fst held ! i \<noteq> List.map fst held ! j" using assms(2) i nth_eq_iff_index_eq [of "List.map fst held" i j] by (simp add: holds_def)
  then have "unat (fst (held ! i)) \<noteq> unat (fst (held ! j))" using i by (auto simp: word_unat_eq_iff)
  then show "unat (fst (held ! i)) + unat (snd (held ! i)) \<le> unat (fst (held ! j)) \<or> unat (fst (held ! j)) + unat (snd (held ! j)) \<le> unat (fst (held ! i))"
    using regions_apart [OF assms(1) l(1) k(1)] l(2) k(2) by auto
qed

end

text \<open>The kernel's heap is such an allocator.\<close>

definition regions :: "nat \<Rightarrow> (nat \<times> nat) set \<Rightarrow> heap \<Rightarrow> bool" where
  "regions base U s \<longleftrightarrow> (\<exists>bs. heap_inv base bs s \<and> U = used base bs)"

interpretation kheap: region_allocator "regions base" Malloc Free for base
proof unfold_locales
  fix U s p l q k
  assume A: "regions base U s" "(p, l) \<in> U" "(q, k) \<in> U" "(p, l) \<noteq> (q, k)"
  then obtain bs where bs: "heap_inv base bs s" "U = used base bs" by (auto simp: regions_def)
  have "sizes_ok bs" using heap_invD [OF bs(1)] by simp
  from used_apart [OF this, of p l base q k] used_range [OF this, of p l base] show "0 < l \<and> (p + l \<le> q \<or> q + k \<le> p)"
    using A(2-4) bs(2) by auto
next
  fix U s and sz :: u32
  assume A: "regions base U s" "0 < sz" "unat sz \<le> 0x7FFFFFF0"
  obtain bs where bs: "heap_inv base bs s" "U = used base bs" using A(1) by (auto simp: regions_def)
  from Malloc_ok [OF bs(1) A(2,3)] show "\<exists>r s'. Malloc sz s = Some (r, s') \<and> (r = 0 \<and> regions base U s' \<or>
      (\<exists>l. r \<noteq> 0 \<and> unat sz \<le> l \<and> (\<forall>k. (unat r, k) \<notin> U) \<and> regions base (insert (unat r, l) U) s'))"
  proof
    assume "\<exists>p l bs' s'. Malloc sz s = Some (W p, s') \<and> carved base (need (unat sz)) bs p l bs' \<and> heap_inv base bs' s' \<and>
       agree (prot base bs) (hm s) (hm s') \<and> freelist s' = freelist s \<and> int_flag s' = int_flag s"
    then obtain p l bs' s' where M: "Malloc sz s = Some (W p, s')" "carved base (need (unat sz)) bs p l bs'" "heap_inv base bs' s'" by blast
    note so = heap_invD [OF bs(1)]
    note C = carved_used [OF M(2) _ need_facts(1,2)] 
    have c: "used base bs' = insert (p, l) U" "unat sz \<le> l" "base + 8 \<le> p" "p + l \<le> base + total_size bs"
      using C so need_facts(3) [of "unat sz"] bs(2) by auto
    have u: "unat (W p) = p" "W p \<noteq> 0" using c(3,4) so W_inj [of p 0] by simp_all
    have "(p, k) \<notin> U" for k
    proof
      assume k: "(p, k) \<in> U"
      have "(p, k) \<in> used base bs'" "(p, l) \<in> used base bs'" using k c(1) by auto
      then have "(p, k) = (p, l)" using used_apart [of bs' p k base p l] used_range [of bs' p k base] used_range [of bs' p l base] heap_invD [OF M(3)] by fastforce
      moreover have "(p, l) \<notin> used base bs"
      proof
        assume pl: "(p, l) \<in> used base bs"
        have "p + 4 \<in> prot base bs" using used_prot [OF _ pl] used_range [OF _ pl] so by auto
        then show False using carved_free [OF M(2)] so need_facts(1) by auto
      qed
      ultimately show False using k bs(2) by simp
    qed
    then show ?thesis using M c u bs(2) unfolding regions_def by (intro exI [of _ "W p"] exI [of _ s']) auto
  qed (use bs A(1) in auto)
next
  fix U s and r :: u32 and l
  assume A: "regions base U s" "(unat r, l) \<in> U"
  obtain bs where bs: "heap_inv base bs s" "U = used base bs" using A(1) by (auto simp: regions_def)
  obtain us n vs where u: "bs = us @ (False, n) # vs" "unat r = base + total_size us + 8" "l = n - 8" using used_split A(2) bs(2) by blast
  have "W (base + total_size us + 8) = r" unfolding u(2) [symmetric] by simp
  then show "\<exists>s'. Free r s = Some s' \<and> regions base (U - {(unat r, l)}) s'"
    using Free_ok [of base us n vs s] bs release_used [of us n vs base] heap_invD [OF bs(1)] unfolding u regions_def by auto
qed

section \<open>The first layout\<close>

text \<open>A pool given to an allocator whose list is empty is one free block.\<close>

lemma bpool_ok:
  assumes "pool_ok F base [(True, n)]"
  shows "\<exists>m'. bpool (W F) (W base) (W (n + 8)) (init_freelist (W F) m) = Some m' \<and> heap_ok F base [(True, n)] m'"
proof -
  have P: "16 \<le> n" "4 dvd n" "0 < base" "base + n + 8 \<le> 4294967296" "n < 2147483648" "F + 16 \<le> 4294967296" "F + 16 \<le> base \<or> base + n + 8 \<le> F"
    using assms by (auto simp: pool_ok_def)
  have lt: "base + 16 \<le> 4294967296" "base + n + 8 \<le> 4294967296" using P by simp_all
  define m0 where "m0 = m(F := 0, F + 4 := 0, F + 8 := W F, F + 12 := W F)"
  have m0: "init_freelist (W F) m = m0"
    using mem_at(5) [OF P(6), of 0 m] mem_at(6) [OF P(6)] mem_at(7) [OF P(6)] mem_at(8) [OF P(6)] by (simp add: init_freelist_def m0_def)
  have F: "m0 (F + 8) = W F" "m0 (F + 12) = W F" by (simp_all add: m0_def)
  define m1 where "m1 = m0(base := 0)"
  have F1: "m1 (F + 8) = W F" "m1 (F + 12) = W F" using F P by (auto simp: m1_def)
  let ?m2 = "m1(base + 8 := W F)" and ?m3 = "m1(base + 8 := W F, base + 12 := W F)" and ?m4 = "m1(base + 8 := W F, base + 12 := W F, F + 12 := W base)"
  define m5 where "m5 = m1(base + 8 := W F, base + 12 := W F, F + 12 := W base, F + 8 := W base)"
  have a: "flink m1 (W F) = W F" "blink m1 (W F) = W F" "set_flink (W base) (W F) m1 = ?m2" "blink ?m2 (W F) = W F" "set_blink (W base) (W F) ?m2 = ?m3"
    "set_blink (W F) (W base) ?m3 = ?m4" "blink ?m4 (W base) = W F" "set_flink (W F) (W base) ?m4 = m5"
    using mem_at(3,4,7,8) [OF P(6)] mem_at(3,4,7,8) [OF lt(1)] F1 P(1,7) by (auto simp: m5_def)
  have c: "Bget.chain_last (W F) (W base) m1 = Some m5" unfolding chain_last_def Let_def by (simp only: a KASSERT_bind simp_thms if_True)
  let ?m6 = "m5(base + 4 := W n)" and ?m7 = "m5(base + 4 := W n, base + n := W n)" and ?m8 = "m5(base + 4 := W n, base + n := W n, base + n + 4 := ESent)"
  have n: "W (n + 8) AND NOT 3 = W (n + 8)"
  proof -
    have "(n + 8) div 4 * 4 = n + 8" using P(2) by simp
    then have "unat (W (n + 8) AND NOT 3) = unat (W (n + 8))" using P(5) unat_W [of "n + 8"] by (simp only: and_not_3)
    then show ?thesis by (simp add: word_unat_eq_iff)
  qed
  have le: "W n \<le> 0x7FFFFFFF" using P(5) by (simp add: word_le_nat_alt)
  have b: "W (n + 8) - SIZE_BHEAD = W n" "set_prevfree (W base) 0 m0 = m1" "set_bsize (W base) (W n) m5 = ?m6" "W base + W n = W (base + n)"
    "set_prevfree (W (base + n)) (W n) ?m6 = ?m7" "set_bsize (W (base + n)) ESent ?m7 = ?m8"
    using mem_at(5,6) [OF lt(1)] mem_at(11,12) [OF lt(2)] by (simp_all add: m1_def)
  have "bpool (W F) (W base) (W (n + 8)) m0 = Some ?m8"
    unfolding bpool_def Let_def n by (simp only: b le c KASSERT_bind bind.bind_lunit simp_thms if_True)
  moreover have "heap_rep F base [(True, n)] [base] ?m8"
  proof -
    have "headers ?m8 base 0 [(True, n)]" using P by (auto simp: m5_def m1_def)
    moreover have "chain ?m8 F [base] F" using P by (auto simp: m5_def)
    ultimately show ?thesis using assms unfolding heap_rep_def by simp
  qed
  ultimately show ?thesis unfolding m0 heap_ok_def by blast
qed

lemma Init_Heap_ok:
  assumes "pool_ok F base [(True, n)]" "freelist s = W F" "hm s = init_freelist (W F) m"
  shows "\<exists>s'. Init_Heap (W base) (W (n + 8)) s = Some s' \<and> heap_inv base [(True, n)] s' \<and> freelist s' = W F"
proof -
  have F: "unat (W F) = F" using assms(1) by (auto simp: pool_ok_def)
  obtain m' where "bpool (W F) (W base) (W (n + 8)) (init_freelist (W F) m) = Some m'" "heap_ok F base [(True, n)] m'" using bpool_ok [OF assms(1)] by blast
  then show ?thesis using assms(2,3) F by (intro exI [of _ "s\<lparr>hm := m'\<rparr>"]) (simp add: Init_Heap_def heap_inv_def)
qed

lemma request_size_huge: "0x7FFFFFFD \<le> sz \<Longrightarrow> sz \<le> 0x7FFFFFFF \<Longrightarrow> request_size sz = 0x80000008"
proof -
  assume "0x7FFFFFFD \<le> sz" "sz \<le> 0x7FFFFFFF"
  then have u: "2147483645 \<le> unat sz" "unat sz \<le> 2147483647" by (simp_all add: word_le_nat_alt)
  then have l: "(if sz < 8 then 8 else sz) = sz" by (simp add: word_less_nat_alt)
  have "unat (sz + 3) = unat sz + 3" using u by (simp add: unat_plus_if')
  then have "unat ((sz + 3) AND NOT 3) = 2147483648" using u unfolding and_not_3 by presburger
  then have "(sz + 3) AND NOT 3 = 0x80000000" by (simp add: word_unat_eq_iff)
  then show ?thesis unfolding request_size_def l by simp
qed

section \<open>Properties\<close>


text \<open>C11: A buffer that is allocated and freed again leaves the pool as it was, block by block, whatever was written into
  the buffers in use meanwhile; the allocation itself keeps the contents of all buffers.\<close>

theorem malloc_free_roundtrip:
  assumes "heap_inv base bs s" "0 < sz" "unat sz \<le> 0x7FFFFFF0" "Malloc sz s = Some (r, s1)" "r \<noteq> 0"
  shows "agree (prot base bs) (hm s) (hm s1) \<and> (\<exists>bs1. heap_inv base bs1 s1 \<and>
    (\<forall>s2. freelist s2 = freelist s1 \<longrightarrow> agree (- prot base bs1) (hm s1) (hm s2) \<longrightarrow>
      (\<exists>s3. Free r s2 = Some s3 \<and> heap_inv base bs s3 \<and> agree (prot base bs) (hm s2) (hm s3))))"
proof -
  obtain p l bs1 where M: "r = W p" "carved base (need (unat sz)) bs p l bs1" "heap_inv base bs1 s1" "agree (prot base bs) (hm s) (hm s1)"
    using Malloc_ok [OF assms(1-3)] assms(4,5) by auto
  obtain us n vs where u: "bs1 = us @ (False, n) # vs" "p = base + total_size us + 8" "release us n vs = bs"
    using release_carved [OF M(2) assms(1) [unfolded heap_inv_def]] by blast
  have "\<exists>s3. Free r s2 = Some s3 \<and> heap_inv base bs s3 \<and> agree (prot base bs) (hm s2) (hm s3)"
    if s2: "freelist s2 = freelist s1" "agree (- prot base bs1) (hm s1) (hm s2)" for s2
  proof -
    have "heap_inv base bs1 s2" using heap_user_write [OF M(3) [unfolded heap_inv_def] s2(2)] s2(1) by (simp add: heap_inv_def)
    then show ?thesis using Free_ok [of base us n vs s2] unfolding u(1,3) u(2) [symmetric] M(1) by blast
  qed
  then show ?thesis using M(3,4) by blast
qed


section \<open>Witnesses\<close>

text \<open>The heap of the kernel: one megabyte from \<open>HIGHMEM_START\<close>.\<close>

definition boot_heap :: heap where
  "boot_heap = \<lparr>int_flag = True, hm = init_freelist 0x20000 (\<lambda>_. 0), freelist = 0x20000\<rparr>"

lemma boot_heap_ok: "\<exists>s. Init_Heap 0x102000 0x100000 boot_heap = Some s \<and> heap_inv 0x102000 [(True, 0xFFFF8)] s \<and> freelist s = 0x20000"
proof -
  have "pool_ok 0x20000 0x102000 [(True, 0xFFFF8)]" by (simp add: pool_ok_def)
  from Init_Heap_ok [OF this, of boot_heap "\<lambda>_. 0"] show ?thesis by (simp add: boot_heap_def)
qed


lemma malloc_free_roundtrip_witness:
  "\<exists>s r s1 s3. Init_Heap 0x102000 0x100000 boot_heap = Some s \<and> Malloc 100 s = Some (r, s1) \<and> Free r s1 = Some s3 \<and> heap_inv 0x102000 [(True, 0xFFFF8)] s3"
proof -
  obtain s where s: "Init_Heap 0x102000 0x100000 boot_heap = Some s" "heap_inv 0x102000 [(True, 0xFFFF8)] s" using boot_heap_ok by blast
  have z: "(0 :: u32) < 100" "unat (100 :: u32) \<le> 0x7FFFFFF0" by simp_all
  obtain r s1 where r: "Malloc 100 s = Some (r, s1)" "r \<noteq> 0"
  proof -
    obtain p l bs' s' where M: "Malloc 100 s = Some (W p, s')" "carved 0x102000 (need 100) [(True, 0xFFFF8)] p l bs'"
      using Malloc_ok [OF s(2) z] by (auto simp: need_def)
    have "0x102000 + 8 \<le> p" "p + l \<le> 0x102000 + total_size [(True, 0xFFFF8)]" using carved_used [OF M(2)] by (simp_all add: need_def)
    then have "W p \<noteq> 0" using W_inj [of p 0] by simp
    with M(1) show thesis by (rule that)
  qed
  from malloc_free_roundtrip [OF s(2) z r] obtain s3 where "Free r s1 = Some s3" "heap_inv 0x102000 [(True, 0xFFFF8)] s3" by force
  with s r show ?thesis by blast
qed


end
