(* ===== verification/Spec2Isabelle.thy ===== *)
theory Spec2Isabelle
  imports DList CString Bitset Crc32 Addr Mem Paging KThread Sched Synch BlockDev BufCache ArgBlock Keyboard Signal Timer Segment Irq
    VfsGosfs PfatRead SysProc Malloc GosfsPath
begin

text \<open>
  A verification development for GeekOS (\<open>src/geekos\<close>, \<open>src/common\<close>, \<open>include/geekos\<close>): a small
  kernel for one x86 processor with threads, semaphores, demand paging, a buffer cache, two file
  systems behind a virtual file system, signals and user processes.

  \<^bold>\<open>Conventions.\<close>  A routine that can stop the machine (a failed assertion spins for ever; an access
  outside the object at hand) is a function into \<open>'a option\<close>, and \<open>None\<close> is the stopped machine.  Error
  codes stay the integers of \<open>errno.h\<close>.  C's integers are words, pointers are keys of explicit stores
  where sharing matters.  The interrupt flag is part of every component's state (\<open>Machine\<close>), so that the
  pairs of \<open>Begin_Int_Atomic\<close> and \<open>End_Int_Atomic\<close> are part of every operation.  Routines that block are
  step relations over threads with a program counter (\<open>Synch\<close>, \<open>BlockDev\<close>, \<open>Keyboard\<close>); the others
  are functions.

  \<^bold>\<open>Parts of the program and their theories.\<close>
  \<^item> \<open>Prelude\<close>, \<open>Machine\<close>, \<open>Bytes\<close>: the vocabulary (assertions, checked arrays, error codes, the
    interrupt flag, bit fields, little-endian words in byte arrays).
  \<^item> \<open>DList\<close> (\<open>list.h\<close>): the intrusive lists on a heap of nodes, shown to refine sequences.
  \<^item> \<open>CString\<close> (\<open>common/string.c\<close>, \<open>memmove.c\<close>), \<open>Bitset\<close>, \<open>Crc32\<close>, \<open>Addr\<close> (address macros).
  \<^item> \<open>Mem\<close> (\<open>mem.c\<close>): the page inventory; \<open>Paging\<close> (\<open>paging.c\<close>): page tables as words in physical
    memory, the page-fault handler, the paging file.
  \<^item> \<open>Bget\<close> and \<open>Malloc\<close> (\<open>bget.c\<close>, \<open>malloc.c\<close>): the kernel's heap, headers and list links as words in
    memory; the layout of the pool as a list of blocks.
  \<^item> \<open>KThread\<close> and \<open>Sched\<close> (\<open>kthread.c\<close>): threads, run queues and policies, sleeping and waking,
    exit and reaping; \<open>Timer\<close> (\<open>timer.c\<close>): ticks, quantum, alarms.
  \<^item> \<open>Synch\<close> (\<open>synch.c\<close>): mutexes, conditions, semaphores.
  \<^item> \<open>BlockDev\<close> (\<open>blockdev.c\<close>): requests between clients and drivers; \<open>BufCache\<close> (\<open>bufcache.c\<close>).
  \<^item> \<open>Path\<close>, \<open>Dirent\<close>, \<open>Gosfs\<close>, \<open>GosfsBuf\<close>, \<open>GosfsDir\<close>, \<open>GosfsOps\<close>, \<open>GosfsMount\<close>, \<open>GosfsProps\<close>,
    \<open>GosfsPath\<close> (\<open>gosfs.c\<close>): path components, directory entries in blocks, the operations with their
    buffers and their mutex, formatting and mounting, what they do to the tree of directories, and
    the way from a directory back to its path.
  \<^item> \<open>Vfs\<close>, \<open>FsOps\<close>, \<open>Pfat\<close>, \<open>VfsGosfs\<close>, \<open>PfatRead\<close> (\<open>vfs.c\<close>, \<open>pfat.c\<close>): the mount table, dispatch through
    tables of operations, both file systems behind it.
  \<^item> \<open>Segment\<close> (\<open>segment.c\<close>, \<open>gdt.c\<close>, \<open>tss.c\<close>), \<open>Irq\<close> (\<open>irq.c\<close>), \<open>Keyboard\<close> (\<open>keyboard.c\<close>), \<open>Screen\<close>
    (\<open>screen.c\<close>).
  \<^item> \<open>Elf\<close> (\<open>elf.c\<close>), \<open>UserVM\<close>, \<open>UserImage\<close>, \<open>UserProg\<close>, \<open>Spawn\<close> (\<open>uservm.c\<close>, \<open>user.c\<close>): executables, loading
    one into a new address space and destroying it, starting a process from a file.
  \<^item> \<open>Fmtout\<close> (\<open>common/fmtout.c\<close>, \<open>snprintf\<close> of \<open>string.c\<close>): formatted output.
  \<^item> \<open>ArgBlock\<close> (\<open>argblock.c\<close>), \<open>Signal\<close> (\<open>signal.c\<close>), \<open>SysFile\<close> and \<open>SysProc\<close> (\<open>syscall.c\<close>, \<open>uservm.c\<close>):
    what processes see of the kernel.

  \<^bold>\<open>What the lemmas show.\<close>  Every component has an invariant, kept by each of its operations, and
  properties over it: the queues of the scheduler hold every thread exactly once and the run queue
  is never empty; a semaphore admits no more holders than its count and wakes its waiters; pages are
  owned by one user at a time and come back from the paging file as they were written; the cache and
  the file systems refine finite maps; directories stay a tree, so that the current directory can be
  changed and read back; a loaded program is in memory as its file says, its thread starts at its
  entry, and its frames come back when it is destroyed; a printed number reads back; the cursor stays on the screen.  Several properties state defects that the
  code has, as it behaves.

  \<^bold>\<open>Bounds and fuel.\<close>  Loops over memory that the program's data bound are structural recursions on the
  number of cells left.  Walks that need not end are \<open>partial_function (option)\<close>, and that they
  end, or do not, is proved where it is claimed.  The loop of \<open>Get_GOSFS_Path\<close> is one of these: it ends
  because directories form a tree.

  \<^bold>\<open>Interfaces.\<close>  A locale states what one part asks of another, and is interpreted on the definitions of
  the part that provides it: allocation of numbered slots (bit sets, the paging file, the descriptor
  table), first-in first-out queues (the intrusive lists), bounded queues (the keyboard's ring), and
  lookup in and growth of a directory tree (the GeekOS file system, and the virtual file system in
  front of it), and an allocator of regions that do not overlap (the kernel's heap).

  \<^bold>\<open>Not modelled.\<close>  The heap (\<open>Malloc\<close>) is not threaded through the other parts: there an allocation is the
  answer that \<open>Malloc\<close> gives, a parameter.  The assembly files, the interrupt table
  (\<open>idt.c\<close>, \<open>trap.c\<close>, \<open>int.c\<close>), port input and output (\<open>io.c\<close>) and the drivers (\<open>ide.c\<close>, \<open>floppy.c\<close>,
  \<open>dma.c\<close>) are the hardware's side: their effect is a parameter of the parts above.  The
  C library of the user programs and the programs themselves are clients of the kernel.
\<close>

end
